(* ===== verification/Kernel_Prelude.thy ===== *)
theory Kernel_Prelude
  imports Main "HOL-Library.Word"
begin

text \<open>
  Shared vocabulary of the development: the integer types of \<^verbatim>\<open>util/include/types.h\<close>,
  the result type of kernel code that may stop in \<^verbatim>\<open>bugcheck\<close>, the alignment
  arithmetic of \<^verbatim>\<open>util/include/util.hpp\<close> with its correctness lemmas, the search
  templates of the same header, and generic lemmas on lists that several components use.
\<close>

unbundle bit_operations_syntax

named_theorems res_simps \<open>equations of the result type\<close>
named_theorems inv_defs \<open>definitions of the representation invariants\<close>

type_synonym byte = "8 word"
type_synonym hword = "16 word"
type_synonym dword = "32 word"
type_synonym qword = "64 word"

section \<open>Results of kernel code\<close>

text \<open>
  The build does not define \<^verbatim>\<open>NDEBUG\<close>, so a failing \<^verbatim>\<open>assert\<close> and an explicit
  \<^verbatim>\<open>bugcheck\<close> (\<^verbatim>\<open>THROW\<close> in the container templates) both stop the kernel.
  A computation that stops is \<open>Inl\<close> of the reason; one that returns is \<open>Inr\<close> of
  its result. Loops over linked data carry a bound on their iterations; \<open>OutOfFuel\<close> says
  the bound was reached and is no behaviour of the code, so every theorem about such a loop
  shows that it returns \<open>Inr\<close>.
\<close>

datatype fault = AssertFailed | Bugcheck string | OutOfFuel

type_synonym 'a res = "fault + 'a"

definition rbind :: "'a res \<Rightarrow> ('a \<Rightarrow> 'b res) \<Rightarrow> 'b res" where
  "rbind m f = (case m of Inl e \<Rightarrow> Inl e | Inr x \<Rightarrow> f x)"

definition kassert :: "bool \<Rightarrow> 'a res \<Rightarrow> 'a res" where
  "kassert b r = (if b then r else Inl AssertFailed)"

definition bugcheck :: "string \<Rightarrow> 'a res" where
  "bugcheck msg = Inl (Bugcheck msg)"

definition is_ok :: "'a res \<Rightarrow> bool" where
  "is_ok r = (case r of Inl e \<Rightarrow> False | Inr x \<Rightarrow> True)"

lemma rbind_Inl [simp, res_simps]: "rbind (Inl e) f = Inl e"
  by (simp add: rbind_def)

lemma rbind_Inr [simp, res_simps]: "rbind (Inr x) f = f x"
  by (simp add: rbind_def)

lemma rbind_eq_Inr [res_simps]: "rbind m f = Inr y \<longleftrightarrow> (\<exists>x. m = Inr x \<and> f x = Inr y)"
  by (cases m) auto

lemma rbind_assoc: "rbind (rbind m f) g = rbind m (\<lambda>x. rbind (f x) g)"
  by (cases m) auto

lemma kassert_True [simp, res_simps]: "kassert True r = r"
  by (simp add: kassert_def)

lemma kassert_eq_Inr [res_simps]: "kassert b r = Inr y \<longleftrightarrow> b \<and> r = Inr y"
  by (simp add: kassert_def)

lemma kassertI [intro]: "b \<Longrightarrow> r = s \<Longrightarrow> kassert b r = s"
  by (simp add: kassert_def)

lemma kassert_cong [fundef_cong]:
  "b = b' \<Longrightarrow> (b' \<Longrightarrow> r = r') \<Longrightarrow> kassert b r = kassert b' r'"
  by (simp add: kassert_def)

lemma rbind_cong [fundef_cong]:
  "m = m' \<Longrightarrow> (\<And>x. m' = Inr x \<Longrightarrow> f x = f' x) \<Longrightarrow> rbind m f = rbind m' f'"
  by (cases m') (simp_all add: rbind_def)

lemma bugcheck_neq_Inr [simp, res_simps]: "bugcheck msg \<noteq> Inr y"
  by (simp add: bugcheck_def)

lemma bugcheck_eq_Inl [simp]: "bugcheck msg = Inl e \<longleftrightarrow> e = Bugcheck msg"
  by (auto simp: bugcheck_def)

lemma rbind_bugcheck [simp]: "rbind (bugcheck msg) f = bugcheck msg"
  by (simp add: bugcheck_def)

lemma is_ok_simps [simp]: "is_ok (Inl e) = False" "is_ok (Inr x) = True"
  by (simp_all add: is_ok_def)

lemma is_ok_iff: "is_ok r \<longleftrightarrow> (\<exists>x. r = Inr x)"
  by (cases r) auto

section \<open>Sequences of operations\<close>

primrec exec_ops :: "('op \<Rightarrow> 's \<Rightarrow> 's res) \<Rightarrow> 'op list \<Rightarrow> 's \<Rightarrow> 's res" where
  "exec_ops step [] s = Inr s"
| "exec_ops step (x # xs) s = rbind (step x s) (exec_ops step xs)"

text \<open>A sequence is legal when each operation may be called in the state it is called in.\<close>

primrec legal :: "('op \<Rightarrow> 's \<Rightarrow> 's res) \<Rightarrow> ('op \<Rightarrow> 's \<Rightarrow> bool) \<Rightarrow> 'op list \<Rightarrow> 's \<Rightarrow> bool" where
  "legal step may [] s = True"
| "legal step may (x # xs) s = (may x s \<and> (case step x s of Inl e \<Rightarrow> True | Inr s' \<Rightarrow> legal step may xs s'))"

text \<open>A component with an invariant that its operations keep without stopping.\<close>

locale component =
  fixes step :: "'op \<Rightarrow> 's \<Rightarrow> 's res" and may :: "'op \<Rightarrow> 's \<Rightarrow> bool" and inv :: "'s \<Rightarrow> bool"
  assumes step_keeps: "inv s \<Longrightarrow> may x s \<Longrightarrow> \<exists>s'. step x s = Inr s' \<and> inv s'"
begin

lemma sequence_keeps: "inv s \<Longrightarrow> legal step may xs s \<Longrightarrow> \<exists>s'. exec_ops step xs s = Inr s' \<and> inv s'"
proof (induction xs arbitrary: s)
  case (Cons x xs)
  obtain s1 where "step x s = Inr s1" "inv s1" using step_keeps Cons.prems by auto
  then show ?case using Cons by simp
qed simp

end

section \<open>Alignment\<close>

text \<open>\<open>align_down\<close> masks with the complement of \<open>align - 1\<close>; \<open>align_up\<close> first adds
  \<open>align - 1\<close>, with the wrap-around of the word type.\<close>

definition align_down :: "'a::len word \<Rightarrow> 'a word \<Rightarrow> 'a word" where
  "align_down value align = value AND NOT (align - 1)"

definition align_up :: "'a::len word \<Rightarrow> 'a word \<Rightarrow> 'a word" where
  "align_up value align = align_down (value + align - 1) align"

lemma align_down_shift: "align_down v (2 ^ k) = push_bit k (drop_bit k v)"
proof -
  have "(2 ^ k - 1 :: 'a word) = mask k"
    by (simp add: mask_eq_exp_minus_1)
  then show ?thesis
    unfolding align_down_def by (auto intro!: bit_eqI simp: bit_simps)
qed

lemma unat_pow2: "k < LENGTH('a::len) \<Longrightarrow> unat (2 ^ k :: 'a word) = 2 ^ k"
  by (metis mod_less of_nat_numeral of_nat_power one_less_numeral_iff power_strict_increasing
      semiring_norm(76) unat_of_nat)

lemma unat_pow2_minus_1:
  assumes "k < LENGTH('a::len)"
  shows "unat (2 ^ k - 1 :: 'a word) = 2 ^ k - 1"
proof -
  have "(1 :: 'a word) \<le> 2 ^ k"
    using assms by (simp add: word_le_nat_alt unat_pow2)
  then show ?thesis
    using assms by (simp add: unat_sub unat_pow2)
qed

lemma unat_align_down:
  fixes v :: "'a::len word"
  assumes "k < LENGTH('a)"
  shows "unat (align_down v (2 ^ k)) = unat v div 2 ^ k * 2 ^ k"
proof -
  have "push_bit k (drop_bit k v) = drop_bit k v * 2 ^ k"
    by (simp add: push_bit_eq_mult)
  then have "unat (align_down v (2 ^ k)) = (unat v div 2 ^ k) * 2 ^ k mod 2 ^ LENGTH('a)"
    using assms by (simp add: align_down_shift unat_word_ariths unat_drop_bit_eq unat_pow2
        flip: drop_bit_eq_div)
  moreover have "unat v div 2 ^ k * 2 ^ k < 2 ^ LENGTH('a)"
    by (rule le_less_trans [OF div_times_less_eq_dividend]) simp
  ultimately show ?thesis by simp
qed

lemma unat_align_up:
  fixes v :: "'a::len word"
  assumes "k < LENGTH('a)" and "unat v + (2 ^ k - 1) < 2 ^ LENGTH('a)"
  shows "unat (align_up v (2 ^ k)) = (unat v + (2 ^ k - 1)) div 2 ^ k * 2 ^ k"
proof -
  have "unat (2 ^ k - 1 :: 'a word) = 2 ^ k - 1"
    using assms(1) by (rule unat_pow2_minus_1)
  then have "unat (v + (2 ^ k - 1)) = unat v + (2 ^ k - 1)"
    using assms(2) by (simp add: unat_word_ariths)
  then show ?thesis
    using assms(1) by (simp add: align_up_def unat_align_down add_diff_eq [symmetric])
qed

section \<open>Search templates\<close>

text \<open>An iterator pair over a buffer is the list of the elements between the iterators, an
  iterator into it an index, and the end iterator the length.\<close>

fun match_loop :: "('a \<Rightarrow> 'b \<Rightarrow> bool) \<Rightarrow> 'a list \<Rightarrow> 'b list \<Rightarrow> nat \<Rightarrow> nat" where
  "match_loop cmp (a # as) (b # bs) (Suc cnt) =
     (if cmp a b then Suc (match_loop cmp as bs cnt) else 0)"
| "match_loop cmp as bs cnt = 0"

fun find_first_of :: "'a list \<Rightarrow> 'a \<Rightarrow> nat" where
  "find_first_of [] c = 0"
| "find_first_of (x # xs) c = (if x = c then 0 else Suc (find_first_of xs c))"

fun find_last_loop :: "'a list \<Rightarrow> 'a \<Rightarrow> nat \<Rightarrow> nat" where
  "find_last_loop xs c 0 = length xs"
| "find_last_loop xs c (Suc p) = (if xs ! p = c then p else find_last_loop xs c p)"

definition find_last_of :: "'a list \<Rightarrow> 'a \<Rightarrow> nat" where
  "find_last_of xs c = find_last_loop xs c (length xs)"

lemma match_loop_le: "match_loop cmp as bs n \<le> n"
  by (induction cmp as bs n rule: match_loop.induct) auto

lemma match_loop_full:
  assumes "n \<le> length as" and "n \<le> length bs"
  shows "match_loop cmp as bs n = n \<longleftrightarrow> (\<forall>i<n. cmp (as ! i) (bs ! i))"
  using assms
proof (induction cmp as bs n rule: match_loop.induct)
  case (1 cmp a as b bs cnt)
  then show ?case by (auto simp: less_Suc_eq_0_disj)
qed auto

lemma match_loop_eq_lists:
  "length xs = length ys \<Longrightarrow> match_loop (=) xs ys (length xs) = length xs \<longleftrightarrow> xs = ys"
  by (auto simp: match_loop_full list_eq_iff_nth_eq)

lemma find_first_of_le: "find_first_of xs c \<le> length xs"
  by (induction xs) auto

lemma find_first_of_less: "find_first_of xs c < length xs \<longleftrightarrow> c \<in> set xs"
  by (induction xs) auto

lemma find_first_of_nth: "c \<in> set xs \<Longrightarrow> xs ! find_first_of xs c = c"
  by (induction xs) auto

lemma find_first_of_before: "c \<notin> set (take (find_first_of xs c) xs)"
  by (induction xs) auto

lemma find_last_loop_spec:
  assumes "p \<le> length xs"
  shows "(find_last_loop xs c p < p \<and> xs ! find_last_loop xs c p = c \<and>
          (\<forall>j. find_last_loop xs c p < j \<and> j < p \<longrightarrow> xs ! j \<noteq> c)) \<or>
         (find_last_loop xs c p = length xs \<and> (\<forall>j<p. xs ! j \<noteq> c))"
  using assms
proof (induction p)
  case (Suc p)
  then show ?case by (auto simp: less_Suc_eq)
qed simp

section \<open>Lists\<close>

lemma nth_list_update_eq_if:
  "i < length xs \<Longrightarrow> (xs[i := v]) ! j = (if i = j then v else xs ! j)"
  by (simp add: nth_list_update)

lemma list_update_if_length [simp]: "length (xs[i := v]) = length xs"
  by simp

lemma count_filter_update:
  assumes "i < length xs"
  shows "length (filter P (xs[i := v])) + (if P (xs ! i) then 1 else 0) =
         length (filter P xs) + (if P v then 1 else 0)"
  using assms
proof (induction xs arbitrary: i)
  case (Cons x xs)
  then show ?case by (cases i) (auto split: if_splits)
qed simp

end
