(* ===== verification/Phys_Mem.thy ===== *)
theory Phys_Mem
  imports Kernel_Prelude
begin

text \<open>
  The physical page allocator, \<^verbatim>\<open>kernel/memory/pm.cpp\<close>: a bitmap with one \<open>BLOCK\<close> byte
  per page frame, scanned in chunks of \<open>PAGE_SIZE\<close> entries. Inside a chunk the \<open>solid\<close>
  bits say "no free frame above this one", so a binary search finds the last free frame.

  The bitmap is a function from frame numbers (the code maps it at \<open>PMMBMP_BASE\<close>), frame
  numbers and page counts are natural numbers: \<open>bmp_size\<close> is a 64-bit address shifted by 12,
  so the sums of the code do not wrap. The spin lock makes every operation one step.
\<close>

section \<open>State\<close>

abbreviation PAGE_SIZE :: nat where "PAGE_SIZE \<equiv> 4096"

record block =
  solid :: bool
  free :: bool

datatype pm_mode = NONE | MUST_SUCCEED | TAKE

record pm =
  soft_critical_limit :: nat
  hard_critical_limit :: nat
  bmp_size :: nat
  total :: nat
  used :: nat
  reserved :: nat
  next_chunk :: nat
  callback :: bool
  bmp :: "nat \<Rightarrow> block"

definition page_count_of :: "nat \<Rightarrow> nat" where
  "page_count_of n = (n + PAGE_SIZE - 1) div PAGE_SIZE"

abbreviation bmp_page_count :: "pm \<Rightarrow> nat" where
  "bmp_page_count s \<equiv> page_count_of (bmp_size s)"

definition available :: "pm \<Rightarrow> nat res" where
  "available s = kassert (used s + reserved s \<le> total s) (Inr (total s - used s - reserved s))"

section \<open>Operations\<close>

definition set_mp_count :: "nat \<Rightarrow> pm \<Rightarrow> pm res" where
  "set_mp_count count s =
     (if hard_critical_limit s \<noteq> 0 then bugcheck ''invalid PM::set_mp_count call''
      else Inr (s\<lparr>hard_critical_limit := (4 * count) mod 2 ^ 16\<rparr>))"

definition set_critical_callback :: "pm \<Rightarrow> pm res" where
  "set_critical_callback s =
     (if callback s then bugcheck ''invalid PM::set_critical_callback call''
      else Inr (s\<lparr>callback := True\<rparr>))"

text \<open>The registered callback is a parameter: it may release or reserve pages.\<close>

definition critical_check :: "(pm \<Rightarrow> pm) \<Rightarrow> pm \<Rightarrow> pm" where
  "critical_check cb s =
     (if used s + reserved s + soft_critical_limit s \<ge> total s \<and> callback s then cb s else s)"

text \<open>The search for a chunk with a free frame. The first iteration runs with
  \<open>page = nxt\<close>, so its assertion also covers \<open>nxt\<close>; repeating that in later
  iterations changes nothing and keeps the recursion well-founded.\<close>

function find_chunk :: "(nat \<Rightarrow> block) \<Rightarrow> nat \<Rightarrow> nat \<Rightarrow> nat \<Rightarrow> nat res" where
  "find_chunk b pcount nxt page =
     kassert (page < pcount \<and> nxt < pcount)
       (if solid (b (page * PAGE_SIZE)) \<and> \<not> free (b (page * PAGE_SIZE)) then
          (let page' = (if page + 1 = pcount then 0 else page + 1)
           in if page' = nxt then bugcheck ''physical memory used up''
              else find_chunk b pcount nxt page')
        else Inr page)"
  by pat_completeness auto
termination
  by (relation "measure (\<lambda>(b, pcount, nxt, page).
        if nxt \<le> page then pcount - page + nxt else nxt - page)") (auto split: if_splits)

function search_solid :: "(nat \<Rightarrow> block) \<Rightarrow> nat \<Rightarrow> nat \<Rightarrow> nat \<Rightarrow> nat \<times> nat" where
  "search_solid b base head tail =
     (if head + 1 < tail then
        (let mid = (head + tail) div 2
         in if solid (b (base + mid)) then search_solid b base head mid
            else search_solid b base mid tail)
      else (head, tail))"
  by pat_completeness auto
termination
  by (relation "measure (\<lambda>(b, base, head, tail). tail - head)") auto

fun mark_solid :: "(nat \<Rightarrow> block) \<Rightarrow> nat \<Rightarrow> nat \<Rightarrow> (nat \<Rightarrow> block) res" where
  "mark_solid b base 0 = Inr b"
| "mark_solid b base (Suc head) =
     (let cur = b (base + head) in
      kassert (\<not> solid cur)
        (let b' = b(base + head := cur\<lparr>solid := True\<rparr>)
         in if free cur then Inr b' else mark_solid b' base head))"

fun clear_solid :: "(nat \<Rightarrow> block) \<Rightarrow> nat \<Rightarrow> nat \<Rightarrow> (nat \<Rightarrow> block)" where
  "clear_solid b base 0 = b"
| "clear_solid b base (Suc off) =
     (if \<not> solid (b (base + off)) then b
      else clear_solid (b(base + off := (b (base + off))\<lparr>solid := False\<rparr>)) base off)"

definition take_from_chunk :: "(nat \<Rightarrow> block) \<Rightarrow> nat \<Rightarrow> nat \<Rightarrow> (nat \<times> (nat \<Rightarrow> block)) res" where
  "take_from_chunk b bsize page =
     (let base = page * PAGE_SIZE; (head, tail) = search_solid b base 0 PAGE_SIZE in
      kassert (head + 1 = tail) (kassert (tail < PAGE_SIZE)
       (let head' = (if \<not> solid (b (base + head)) then head + 1 else head);
            res_page = base + head'
        in kassert (head' < PAGE_SIZE) (kassert (res_page < bsize)
            (kassert (solid (b res_page) \<and> free (b res_page))
              (rbind (mark_solid (b(res_page := (b res_page)\<lparr>free := False\<rparr>)) base head')
                 (\<lambda>b'. Inr (res_page, b'))))))))"

definition PM_allocate :: "(pm \<Rightarrow> pm) \<Rightarrow> pm_mode \<Rightarrow> pm \<Rightarrow> (nat \<times> pm) res" where
  "PM_allocate cb mode s0 =
     (let s = critical_check cb s0 in
      if mode = NONE \<and> used s + reserved s + hard_critical_limit s \<ge> total s then Inr (0, s)
      else
        rbind (find_chunk (bmp s) (bmp_page_count s) (next_chunk s) (next_chunk s)) (\<lambda>page.
        rbind (take_from_chunk (bmp s) (bmp_size s) page) (\<lambda>(res_page, b).
        kassert (used s + reserved s < total s)
          (if mode = TAKE then
             kassert (reserved s \<noteq> 0)
               (Inr (res_page * PAGE_SIZE,
                     s\<lparr>next_chunk := page, bmp := b, reserved := reserved s - 1,
                       used := used s + 1\<rparr>))
           else Inr (res_page * PAGE_SIZE,
                     s\<lparr>next_chunk := page, bmp := b, used := used s + 1\<rparr>)))))"

definition PM_reserve :: "(pm \<Rightarrow> pm) \<Rightarrow> nat \<Rightarrow> pm \<Rightarrow> bool \<times> pm" where
  "PM_reserve cb count s0 =
     (let s = critical_check cb s0 in
      if used s + reserved s + count + hard_critical_limit s < total s
      then (True, s\<lparr>reserved := reserved s + count\<rparr>)
      else (False, s))"

definition PM_release :: "nat \<Rightarrow> pm \<Rightarrow> pm res" where
  "PM_release pa s =
     kassert (pa mod PAGE_SIZE = 0)
      (let page = pa div PAGE_SIZE; cur = bmp s page in
       kassert (page < bmp_size s)
        (if free cur then bugcheck ''double release''
         else kassert (page + 1 = PAGE_SIZE \<longrightarrow> solid cur)
          (let b = clear_solid ((bmp s)(page := cur\<lparr>free := True\<rparr>))
                     (page div PAGE_SIZE * PAGE_SIZE) (page mod PAGE_SIZE)
           in kassert (used s \<noteq> 0) (Inr (s\<lparr>bmp := b, used := used s - 1\<rparr>)))))"

text \<open>\<open>PM::peek\<close> copies physical memory page by page through a temporary view; the view of a
  page shows the bytes of that page.\<close>

function peek :: "(nat \<Rightarrow> byte) \<Rightarrow> nat \<Rightarrow> nat \<Rightarrow> nat \<Rightarrow> byte list" where
  "peek phys page off count =
     (if count = 0 then []
      else if off \<ge> PAGE_SIZE then []
      else (let len = min (PAGE_SIZE - off) count
            in map (\<lambda>i. phys (page + off + i)) [0..<len] @
               peek phys (page + PAGE_SIZE) 0 (count - len)))"
  by pat_completeness auto
termination
  by (relation "measure (\<lambda>(phys, page, off, count). count)") auto

definition PM_peek :: "(nat \<Rightarrow> byte) \<Rightarrow> nat \<Rightarrow> nat \<Rightarrow> byte list" where
  "PM_peek phys paddr count =
     (let off = paddr mod PAGE_SIZE in peek phys (paddr - off) off count)"

text \<open>The self-check of the test build (\<open>PM_TEST\<close>): one pass over every chunk with the
  \<open>pierce\<close> flag, counting the free frames it meets.\<close>

fun check_chunk :: "(nat \<Rightarrow> block) \<Rightarrow> nat \<Rightarrow> nat \<Rightarrow> nat \<Rightarrow> bool \<Rightarrow> nat \<Rightarrow> (bool \<times> nat) res" where
  "check_chunk b base i 0 pierce n = Inr (pierce, n)"
| "check_chunk b base i (Suc k) pierce n =
     (let cur = b (base + i) in
      if pierce then
        (if solid cur \<and> \<not> (free cur \<or> i = 0) then bugcheck ''PM corrupted''
         else check_chunk b base (i + 1) k (\<not> solid cur) (if free cur then n + 1 else n))
      else if free cur \<or> \<not> solid cur then bugcheck ''PM corrupted''
      else check_chunk b base (i + 1) k False n)"

fun check_chunks :: "(nat \<Rightarrow> block) \<Rightarrow> nat \<Rightarrow> nat \<Rightarrow> nat \<Rightarrow> nat res" where
  "check_chunks b page 0 n = Inr n"
| "check_chunks b page (Suc k) n =
     rbind (check_chunk b (page * PAGE_SIZE) 0 PAGE_SIZE True n) (\<lambda>(pierce, m).
       if pierce then bugcheck ''PM corrupted'' else check_chunks b (page + 1) k m)"

definition check_integrity :: "pm \<Rightarrow> unit res" where
  "check_integrity s =
     rbind (check_chunks (bmp s) 0 (bmp_page_count s) 0) (\<lambda>n.
       if n + used s \<noteq> total s then bugcheck ''PM corrupted: free size mismatch'' else Inr ())"

section \<open>Construction\<close>

text \<open>\<open>PM::PM\<close> reads the firmware memory map (the scan table ends at an entry of type 0),
  places the bitmap, maps it through \<open>pdt0\<close> and \<open>bmp_pt\<close>, fills it, takes the boot frames
  out and builds the \<open>solid\<close> bits.\<close>

record pmmscan =
  ps_base :: qword
  ps_len :: qword
  ps_type :: dword

record pm_boot =
  boot_pm :: pm
  pdt0 :: "nat \<Rightarrow> qword"
  bmp_pt :: "nat \<Rightarrow> qword"

abbreviation DIRECT_MAP_COUNT :: nat where "DIRECT_MAP_COUNT \<equiv> 10"
abbreviation BOOT_AREA_COUNT :: nat where "BOOT_AREA_COUNT \<equiv> 16"
abbreviation PDT_LIMIT :: nat where "PDT_LIMIT \<equiv> 6"

fun find_bmp_base :: "qword \<Rightarrow> pmmscan list \<Rightarrow> qword" where
  "find_bmp_base pages [] = 0"
| "find_bmp_base pages (e # es) =
     (if ps_type e = 0 then 0
      else if ps_base e < 0x100000 then find_bmp_base pages es
      else if ps_type e \<noteq> 1 then find_bmp_base pages es
      else (let aligned_base = align_up (ps_base e) 4096 in
        if ps_base e + ps_len e < aligned_base then find_bmp_base pages es
        else if align_down (ps_base e + ps_len e - aligned_base) 4096 < pages * 4096
        then find_bmp_base pages es
        else aligned_base))"

fun map_pdt :: "nat \<Rightarrow> nat \<Rightarrow> (nat \<Rightarrow> qword) \<Rightarrow> (nat \<Rightarrow> qword) res" where
  "map_pdt i 0 t = Inr t"
| "map_pdt i (Suc k) t =
     kassert (t (2 + i) = 0)
       (map_pdt (i + 1) k (t(2 + i := 0x8000000000000103 OR (0xA000 + of_nat i * 4096))))"

fun map_bmp_pt :: "qword \<Rightarrow> nat \<Rightarrow> nat \<Rightarrow> (nat \<Rightarrow> qword) \<Rightarrow> (nat \<Rightarrow> qword) res" where
  "map_bmp_pt base i 0 t = Inr t"
| "map_bmp_pt base i (Suc k) t =
     kassert (i < PDT_LIMIT * 512)
       (map_bmp_pt base (i + 1) k (t(i := 0x8000000000000103 OR (base + of_nat i * 4096))))"

fun zero_bmp_pt :: "nat \<Rightarrow> nat \<Rightarrow> (nat \<Rightarrow> qword) \<Rightarrow> (nat \<Rightarrow> qword) res" where
  "zero_bmp_pt i 0 t = Inr t"
| "zero_bmp_pt i (Suc k) t =
     kassert (i < PDT_LIMIT * 512) (zero_bmp_pt (i + 1) k (t(i := 0)))"

fun fill_range :: "nat \<Rightarrow> nat \<Rightarrow> nat \<Rightarrow> nat \<times> (nat \<Rightarrow> block) \<Rightarrow> (nat \<times> (nat \<Rightarrow> block)) res" where
  "fill_range lim index 0 tb = Inr tb"
| "fill_range lim index (Suc k) tb =
     kassert (index < lim)
       (fill_range lim (index + 1) k
         (if \<not> free (snd tb index)
          then (fst tb + 1, (snd tb)(index := (snd tb index)\<lparr>free := True\<rparr>)) else tb))"

fun fill_bmp :: "nat \<Rightarrow> pmmscan list \<Rightarrow> nat \<times> (nat \<Rightarrow> block) \<Rightarrow> (nat \<times> (nat \<Rightarrow> block)) res" where
  "fill_bmp lim [] tb = Inr tb"
| "fill_bmp lim (e # es) tb =
     (if ps_type e = 0 then Inr tb
      else if ps_type e \<noteq> 1 \<or> ps_len e = 0 then fill_bmp lim es tb
      else (let aligned_base = align_up (ps_base e) 4096 in
        if ps_base e + ps_len e < aligned_base then fill_bmp lim es tb
        else (let count = drop_bit 12 (align_down (ps_base e + ps_len e - aligned_base) 4096) in
          rbind (fill_range lim (unat (aligned_base div 4096)) (unat count) tb)
            (fill_bmp lim es))))"

fun clear_free :: "nat \<Rightarrow> nat \<Rightarrow> (nat \<Rightarrow> block) \<Rightarrow> (nat \<Rightarrow> block)" where
  "clear_free i 0 b = b"
| "clear_free i (Suc k) b = clear_free (i + 1) k (b(i := (b i)\<lparr>free := False\<rparr>))"

fun clear_checked :: "nat \<Rightarrow> nat \<Rightarrow> nat \<Rightarrow> (nat \<Rightarrow> block) \<Rightarrow> (nat \<Rightarrow> block) res" where
  "clear_checked lim i 0 b = Inr b"
| "clear_checked lim i (Suc k) b =
     kassert (i < lim) (clear_checked lim (i + 1) k (b(i := (b i)\<lparr>free := False\<rparr>)))"

fun build_solid :: "nat \<Rightarrow> nat \<Rightarrow> (nat \<Rightarrow> block) \<Rightarrow> (nat \<Rightarrow> block)" where
  "build_solid base 0 b = b"
| "build_solid base (Suc off) b =
     (let b' = b(base + off := (b (base + off))\<lparr>solid := True\<rparr>)
      in if free (b (base + off)) then b' else build_solid base off b')"

fun build_chunks :: "nat \<Rightarrow> nat \<Rightarrow> (nat \<Rightarrow> block) \<Rightarrow> (nat \<Rightarrow> block)" where
  "build_chunks i 0 b = b"
| "build_chunks i (Suc k) b = build_chunks (i + 1) k (build_solid (i * PAGE_SIZE) PAGE_SIZE b)"

definition PM_ctor :: "pmmscan list \<Rightarrow> qword \<Rightarrow> nat \<Rightarrow> (nat \<Rightarrow> qword) \<Rightarrow> (nat \<Rightarrow> qword) \<Rightarrow> pm_boot res" where
  "PM_ctor scan avl_top kernel_page pdt0_0 pt_0 =
     (let bsize = unat (drop_bit 12 avl_top); page_count = page_count_of bsize;
          pdt_count = (page_count + 511) div 512
      in if pdt_count > PDT_LIMIT then bugcheck ''too many physical memory''
      else let bmp_pbase = find_bmp_base (of_nat page_count) scan in
        if bmp_pbase = 0 then bugcheck ''cannot allocate bmp_pbase''
        else
          rbind (map_pdt 0 pdt_count pdt0_0) (\<lambda>pdt.
          rbind (map_bmp_pt bmp_pbase 0 page_count pt_0) (\<lambda>pt1.
          rbind (zero_bmp_pt page_count (pdt_count * 512 - page_count) pt1) (\<lambda>pt.
          rbind (fill_bmp bsize scan (0, \<lambda>_. \<lparr>solid = False, free = False\<rparr>)) (\<lambda>(tot, b0).
          let b1 = clear_free 0 (DIRECT_MAP_COUNT + pdt_count) b0 in
          rbind (clear_checked bsize BOOT_AREA_COUNT kernel_page b1) (\<lambda>b2.
          rbind (clear_checked bsize (unat (drop_bit 12 bmp_pbase)) page_count b2) (\<lambda>b3.
          let usd = DIRECT_MAP_COUNT + pdt_count + page_count + kernel_page in
          kassert (usd < tot)
            (Inr \<lparr>boot_pm = \<lparr>
                   soft_critical_limit = min (max (tot div 64 mod 2 ^ 32) 0x10) 0x1000,
                   hard_critical_limit = 0, bmp_size = bsize, total = tot, used = usd,
                   reserved = 0, next_chunk = 0, callback = False,
                   bmp = build_chunks 0 page_count b3\<rparr>,
                  pdt0 = pdt, bmp_pt = pt\<rparr>))))))))"

declare find_chunk.simps [simp del] search_solid.simps [simp del] peek.simps [simp del]

section \<open>Invariant\<close>

definition solid_ok :: "(nat \<Rightarrow> block) \<Rightarrow> nat \<Rightarrow> bool" where
  "solid_ok b base \<longleftrightarrow> (\<forall>off<PAGE_SIZE. solid (b (base + off)) =
     (\<forall>j. off < j \<and> j < PAGE_SIZE \<longrightarrow> \<not> free (b (base + j))))"

definition free_frames :: "(nat \<Rightarrow> block) \<Rightarrow> nat \<Rightarrow> nat set" where
  "free_frames b n = {i. i < n \<and> free (b i)}"

definition frames_of :: "pm \<Rightarrow> nat set" where
  "frames_of s = free_frames (bmp s) (bmp_size s)"

definition pm_inv :: "pm \<Rightarrow> bool" where
  "pm_inv s \<longleftrightarrow> next_chunk s < bmp_page_count s \<and>
     (\<forall>p<bmp_page_count s. solid_ok (bmp s) (p * PAGE_SIZE)) \<and>
     (\<forall>i. bmp_size s \<le> i \<longrightarrow> \<not> free (bmp s i)) \<and> \<not> free (bmp s 0) \<and>
     card (frames_of s) + used s = total s \<and>
     used s + reserved s \<le> total s"

lemma page_count_bound: "i < n \<Longrightarrow> i div PAGE_SIZE < page_count_of n"
  unfolding page_count_of_def by linarith

section \<open>Chunk lemmas\<close>

lemma solid_okD:
  "solid_ok b base \<Longrightarrow> off < PAGE_SIZE \<Longrightarrow>
   solid (b (base + off)) = (\<forall>j. off < j \<and> j < PAGE_SIZE \<longrightarrow> \<not> free (b (base + j)))"
  by (simp add: solid_ok_def)

lemma solid_ok_cong:
  assumes "\<And>off. off < PAGE_SIZE \<Longrightarrow> b' (base + off) = b (base + off)"
  shows "solid_ok b' base = solid_ok b base"
  using assms by (auto simp: solid_ok_def)

lemma search_solid_spec:
  assumes "head < tail" and "tail = n \<or> solid (b (base + tail))"
    and "head = 0 \<or> \<not> solid (b (base + head))"
  shows "\<exists>h. search_solid b base head tail = (h, h + 1) \<and> head \<le> h \<and> h + 1 \<le> tail \<and>
     (h + 1 = n \<or> solid (b (base + (h + 1)))) \<and> (h = 0 \<or> \<not> solid (b (base + h)))"
  using assms
proof (induction b base head tail rule: search_solid.induct)
  case (1 b base head tail)
  let ?mid = "(head + tail) div 2"
  show ?case
  proof (cases "head + 1 < tail")
    case False
    with "1.prems" have "tail = head + 1" by linarith
    then have "search_solid b base head tail = (head, head + 1)"
      by (subst search_solid.simps) simp
    with "1.prems" \<open>tail = head + 1\<close> show ?thesis by (intro exI [of _ head]) auto
  next
    case True
    then have mid: "head < ?mid" "?mid < tail" by linarith+
    show ?thesis
    proof (cases "solid (b (base + ?mid))")
      case True
      with "1.IH"(1) [OF \<open>head + 1 < tail\<close> refl] "1.prems" mid
      show ?thesis
        by (auto simp: search_solid.simps [of b base head tail] Let_def intro: exI)
    next
      case False
      with "1.IH"(2) [OF \<open>head + 1 < tail\<close> refl] "1.prems" mid
      show ?thesis
        by (auto simp: search_solid.simps [of b base head tail] Let_def intro: exI)
    qed
  qed
qed

lemma mark_solid_spec:
  assumes "\<And>off. off < h \<Longrightarrow> \<not> solid (b (base + off))"
  shows "\<exists>b'. mark_solid b base h = Inr b' \<and> (\<forall>i. free (b' i) = free (b i)) \<and>
     (\<forall>i. i < base \<or> base + h \<le> i \<longrightarrow> b' i = b i) \<and>
     (\<forall>off<h. solid (b' (base + off)) = (\<forall>j. off < j \<and> j < h \<longrightarrow> \<not> free (b (base + j))))"
  using assms
proof (induction h arbitrary: b)
  case (Suc h)
  let ?b = "b(base + h := (b (base + h))\<lparr>solid := True\<rparr>)"
  show ?case
  proof (cases "free (b (base + h))")
    case True
    have "\<forall>off<Suc h. solid (?b (base + off)) = (\<forall>j. off < j \<and> j < Suc h \<longrightarrow> \<not> free (b (base + j)))"
      using True Suc.prems by (auto simp: less_Suc_eq)
    with True Suc.prems show ?thesis by (simp add: Let_def)
  next
    case False
    have "\<And>off. off < h \<Longrightarrow> \<not> solid (?b (base + off))"
      using Suc.prems by auto
    from Suc.IH [of ?b, OF this] obtain b' where b': "mark_solid ?b base h = Inr b'"
      and fr: "\<forall>i. free (b' i) = free (?b i)"
      and out: "\<forall>i. i < base \<or> base + h \<le> i \<longrightarrow> b' i = ?b i"
      and sol: "\<forall>off<h. solid (b' (base + off)) = (\<forall>j. off < j \<and> j < h \<longrightarrow> \<not> free (?b (base + j)))"
      by blast
    have "\<forall>off<Suc h. solid (b' (base + off)) =
        (\<forall>j. off < j \<and> j < Suc h \<longrightarrow> \<not> free (b (base + j)))"
    proof (intro allI impI)
      fix off assume "off < Suc h"
      then consider "off = h" | "off < h" by linarith
      then show "solid (b' (base + off)) =
        (\<forall>j. off < j \<and> j < Suc h \<longrightarrow> \<not> free (b (base + j)))"
      proof cases
        case 1
        then show ?thesis using out by auto
      next
        case 2
        then show ?thesis using sol False by (auto simp: less_Suc_eq)
      qed
    qed
    moreover have "\<forall>i. free (b' i) = free (b i)" using fr by auto
    moreover have "\<forall>i. i < base \<or> base + Suc h \<le> i \<longrightarrow> b' i = b i" using out by auto
    ultimately show ?thesis using b' False Suc.prems by (simp add: Let_def)
  qed
qed simp

lemma clear_solid_spec:
  assumes "\<forall>i j. i < j \<and> j < k \<and> solid (b (base + i)) \<longrightarrow> solid (b (base + j))"
  shows "(\<forall>i. free (clear_solid b base k i) = free (b i)) \<and>
     (\<forall>i. i < base \<or> base + k \<le> i \<longrightarrow> clear_solid b base k i = b i) \<and>
     (\<forall>off<k. \<not> solid (clear_solid b base k (base + off)))"
  using assms
proof (induction k arbitrary: b)
  case (Suc k)
  show ?case
  proof (cases "solid (b (base + k))")
    case False
    have "\<not> solid (b (base + off))" if "off < Suc k" for off
      using Suc.prems [rule_format, of off k] False that by (cases "off = k") auto
    with False show ?thesis by simp
  next
    case True
    define b1 where "b1 = b(base + k := (b (base + k))\<lparr>solid := False\<rparr>)"
    have b1: "b1 (base + k) = (b (base + k))\<lparr>solid := False\<rparr>" "\<And>i. i \<noteq> base + k \<Longrightarrow> b1 i = b i"
      by (simp_all add: b1_def)
    have "\<forall>i j. i < j \<and> j < k \<and> solid (b1 (base + i)) \<longrightarrow> solid (b1 (base + j))"
      using Suc.prems b1(2) by auto
    from Suc.IH [OF this] have fr: "\<And>i. free (clear_solid b1 base k i) = free (b1 i)"
      and out: "\<And>i. i < base \<or> base + k \<le> i \<Longrightarrow> clear_solid b1 base k i = b1 i"
      and sol: "\<And>off. off < k \<Longrightarrow> \<not> solid (clear_solid b1 base k (base + off))"
      by blast+
    have "\<not> solid (clear_solid b1 base k (base + off))" if "off < Suc k" for off
      using sol [of off] out [of "base + k"] b1(1) that by (cases "off = k") auto
    moreover have "\<forall>i. free (clear_solid b1 base k i) = free (b i)"
      using fr b1 by (metis block.simps(2) block.surjective block.update_convs(1))
    moreover have "\<forall>i. i < base \<or> base + Suc k \<le> i \<longrightarrow> clear_solid b1 base k i = b i"
      using out b1(2) by auto
    moreover have "clear_solid b base (Suc k) = clear_solid b1 base k"
      using True by (simp add: b1_def)
    ultimately show ?thesis using True by simp
  qed
qed simp

lemma solid_ok_full: "solid_ok b base \<Longrightarrow> solid (b base) \<Longrightarrow> \<not> free (b base) \<Longrightarrow> off < PAGE_SIZE \<Longrightarrow>
    \<not> free (b (base + off))"
  using solid_okD [of b base 0] by (cases off) auto

lemma solid_ok_update_free:
  assumes ok: "solid_ok b base" and h: "h < PAGE_SIZE" "solid (b (base + h))"
    and b': "\<forall>i. free (b' i) = (free (b i) \<and> i \<noteq> base + h)"
    and hi: "\<forall>i. base + h < i \<longrightarrow> b' i = b i"
    and at: "solid (b' (base + h)) = solid (b (base + h))"
    and lo: "\<forall>off<h. solid (b' (base + off)) = (\<forall>j. off < j \<and> j < h \<longrightarrow> \<not> free (b (base + j)))"
  shows "solid_ok b' base"
  unfolding solid_ok_def
proof (intro allI impI)
  fix off :: nat assume off: "off < PAGE_SIZE"
  have above: "\<not> free (b (base + j))" if "h < j" "j < PAGE_SIZE" for j
    using solid_okD [OF ok h(1)] h(2) that by simp
  consider "off < h" | "off = h" | "h < off" by linarith
  then show "solid (b' (base + off)) = (\<forall>j. off < j \<and> j < PAGE_SIZE \<longrightarrow> \<not> free (b' (base + j)))"
  proof cases
    case 1
    have "(\<forall>j. off < j \<and> j < h \<longrightarrow> \<not> free (b (base + j))) =
        (\<forall>j. off < j \<and> j < PAGE_SIZE \<longrightarrow> \<not> free (b' (base + j)))" (is "?L = ?R")
    proof
      assume ?L
      show ?R
      proof (intro allI impI)
        fix j assume "off < j \<and> j < PAGE_SIZE"
        then show "\<not> free (b' (base + j))"
          using \<open>?L\<close> above [of j] b' by (cases "j < h"; cases "j = h") auto
      qed
    next
      assume ?R
      then show ?L using b' h(1) by auto
    qed
    with lo 1 show ?thesis by simp
  next
    case 2
    then show ?thesis using at h b' above by auto
  next
    case 3
    then show ?thesis using hi b' above solid_okD [OF ok off] by auto
  qed
qed

text \<open>The heart of \<open>PM::allocate\<close>: in a chunk that is not marked full, the binary search ends
  at the last free frame, and clearing it re-establishes the chunk invariant.\<close>

lemma take_from_chunk_spec:
  assumes ok: "solid_ok b (page * PAGE_SIZE)"
    and avail: "\<not> (solid (b (page * PAGE_SIZE)) \<and> \<not> free (b (page * PAGE_SIZE)))"
    and bound: "\<forall>i. bsize \<le> i \<longrightarrow> \<not> free (b i)"
  shows "\<exists>r b'. take_from_chunk b bsize page = Inr (r, b') \<and> r div PAGE_SIZE = page \<and>
     r < bsize \<and> free (b r) \<and> solid_ok b' (page * PAGE_SIZE) \<and>
     (\<forall>i. free (b' i) = (free (b i) \<and> i \<noteq> r)) \<and>
     (\<forall>i. i div PAGE_SIZE \<noteq> page \<longrightarrow> b' i = b i)"
proof -
  define base where "base = page * PAGE_SIZE"
  note ok = ok [folded base_def] and avail = avail [folded base_def]
  have top: "solid (b (base + 4095))" using solid_okD [OF ok, of 4095] by auto
  from search_solid_spec [of 0 PAGE_SIZE PAGE_SIZE b base] obtain h where
    srch: "search_solid b base 0 PAGE_SIZE = (h, h + 1)"
    and hb: "h + 1 \<le> PAGE_SIZE"
    and hi: "h + 1 = PAGE_SIZE \<or> solid (b (base + (h + 1)))"
    and lo: "h = 0 \<or> \<not> solid (b (base + h))"
    by auto
  have lt: "h + 1 < PAGE_SIZE"
  proof (rule ccontr)
    assume "\<not> h + 1 < PAGE_SIZE"
    with hb have "h = 4095" by simp
    with lo top show False by simp
  qed
  define g where "g = (if \<not> solid (b (base + h)) then h + 1 else h)"
  have g: "g < PAGE_SIZE" "solid (b (base + g))" "g = 0 \<or> \<not> solid (b (base + (g - 1)))"
    using lt hi lo by (auto simp: g_def)
  have fg: "free (b (base + g))"
  proof (cases "g = 0")
    case True
    with g(2) avail show ?thesis by simp
  next
    case False
    have "\<not> solid (b (base + (g - 1)))" using g(3) False by blast
    then obtain j where j: "g - 1 < j" "j < PAGE_SIZE" "free (b (base + j))"
      using solid_okD [OF ok, of "g - 1"] g(1) by (meson less_imp_diff_less)
    with solid_okD [OF ok g(1)] g(2) have "\<not> g < j" by blast
    with j(1) False have "j = g" by linarith
    with j(3) show ?thesis by simp
  qed
  have below: "\<not> solid (b (base + off))" if "off < g" for off
    using solid_okD [OF ok, of off] that g(1) fg by auto
  let ?b = "b(base + g := (b (base + g))\<lparr>free := False\<rparr>)"
  have "\<And>off. off < g \<Longrightarrow> \<not> solid (?b (base + off))" using below by auto
  from mark_solid_spec [of g ?b base, OF this] obtain b' where
    mk: "mark_solid ?b base g = Inr b'"
    and fr: "\<forall>i. free (b' i) = free (?b i)"
    and out: "\<forall>i. i < base \<or> base + g \<le> i \<longrightarrow> b' i = ?b i"
    and sol: "\<forall>off<g. solid (b' (base + off)) = (\<forall>j. off < j \<and> j < g \<longrightarrow> \<not> free (?b (base + j)))"
    by blast
  have "base + g < bsize" using fg bound by (metis not_less)
  then have res: "take_from_chunk b bsize page = Inr (base + g, b')"
    using srch lt g fg mk
    by (simp add: take_from_chunk_def base_def [symmetric] g_def [symmetric] Let_def)
  have frees: "\<forall>i. free (b' i) = (free (b i) \<and> i \<noteq> base + g)" using fr by auto
  have "solid_ok b' base"
    by (rule solid_ok_update_free [OF ok g(1,2) frees]) (use out sol in auto)
  moreover have "b' i = b i" if "i div PAGE_SIZE \<noteq> page" for i
  proof -
    have "i < base \<or> base + PAGE_SIZE \<le> i" using that unfolding base_def by linarith
    with out g(1) show ?thesis by auto
  qed
  moreover have "(base + g) div PAGE_SIZE = page" using g(1) by (simp add: base_def)
  ultimately show ?thesis
    using res fg frees \<open>base + g < bsize\<close> unfolding base_def by blast
qed

definition chunk_full :: "(nat \<Rightarrow> block) \<Rightarrow> nat \<Rightarrow> bool" where
  "chunk_full b p \<longleftrightarrow> solid (b (p * PAGE_SIZE)) \<and> \<not> free (b (p * PAGE_SIZE))"

lemma find_chunk_step:
  "find_chunk b pcount nxt page =
     (if page < pcount \<and> nxt < pcount then
        if chunk_full b page then
          if (page + 1) mod pcount = nxt then bugcheck ''physical memory used up''
          else find_chunk b pcount nxt ((page + 1) mod pcount)
        else Inr page
      else Inl AssertFailed)"
  by (subst find_chunk.simps) (auto simp: chunk_full_def kassert_def Let_def mod_Suc)

lemma find_chunk_Inr:
  assumes "find_chunk b pcount nxt page = Inr p"
  shows "p < pcount \<and> \<not> chunk_full b p"
  using assms
proof (induction b pcount nxt page rule: find_chunk.induct)
  case (1 b pcount nxt page)
  show ?case
  proof (cases "page < pcount \<and> nxt < pcount \<and> chunk_full b page \<and> (page + 1) mod pcount \<noteq> nxt")
    case True
    then have "find_chunk b pcount nxt ((page + 1) mod pcount) = Inr p"
      using "1.prems" by (simp add: find_chunk_step [of b pcount nxt page])
    then show ?thesis
      using "1.IH" [OF _ _ refl] True by (auto simp: chunk_full_def mod_Suc split: if_splits)
  next
    case False
    then show ?thesis using "1.prems"
      by (auto simp: find_chunk_step [of b pcount nxt page] split: if_splits)
  qed
qed

lemma find_chunk_found:
  assumes "page < pcount" and "nxt < pcount" and "q < pcount" and "\<not> chunk_full b q"
    and "if nxt \<le> page then page \<le> q \<or> q < nxt else page \<le> q \<and> q < nxt"
  shows "\<exists>p. find_chunk b pcount nxt page = Inr p"
  using assms
proof (induction b pcount nxt page rule: find_chunk.induct)
  case (1 b pcount nxt page)
  let ?p = "(page + 1) mod pcount"
  show ?case
  proof (cases "chunk_full b page")
    case False
    then show ?thesis using "1.prems" by (simp add: find_chunk_step [of b pcount nxt page])
  next
    case True
    then have "q \<noteq> page" using "1.prems"(4) by auto
    have p: "?p = (if page + 1 = pcount then 0 else page + 1)"
      using "1.prems"(1) by (simp add: mod_Suc)
    have "?p \<noteq> nxt" using "1.prems" \<open>q \<noteq> page\<close> p by (auto split: if_splits)
    moreover have "\<exists>r. find_chunk b pcount nxt ?p = Inr r"
      unfolding p using True "1.prems" \<open>q \<noteq> page\<close> \<open>?p \<noteq> nxt\<close> p
      by (intro "1.IH") (auto simp: chunk_full_def split: if_splits)
    ultimately show ?thesis using True "1.prems"
      by (simp add: find_chunk_step [of b pcount nxt page])
  qed
qed

section \<open>Allocation and release\<close>

lemma finite_free_frames [simp]: "finite (free_frames b n)"
  by (simp add: free_frames_def)

lemma finite_frames_of [simp]: "finite (frames_of s)"
  by (simp add: frames_of_def)

lemma some_chunk_not_full:
  assumes "pm_inv s" and "frames_of s \<noteq> {}"
  shows "\<exists>q<bmp_page_count s. \<not> chunk_full (bmp s) q"
proof -
  from assms(2) obtain i where i: "i < bmp_size s" "free (bmp s i)"
    by (auto simp: frames_of_def free_frames_def)
  let ?q = "i div PAGE_SIZE"
  have q: "?q < bmp_page_count s" using i(1) by (rule page_count_bound)
  with assms(1) have "solid_ok (bmp s) (?q * PAGE_SIZE)" by (simp add: pm_inv_def)
  from solid_ok_full [OF this, of "i mod PAGE_SIZE"] i(2)
  have "\<not> chunk_full (bmp s) ?q" by (auto simp: chunk_full_def)
  with q show ?thesis by blast
qed

lemma frames_available: "pm_inv s \<Longrightarrow> used s + reserved s < total s \<Longrightarrow> frames_of s \<noteq> {}"
  by (auto simp: pm_inv_def)

lemma pm_inv_take:
  assumes inv: "pm_inv s" and page: "page < bmp_page_count s"
    and r: "r < bmp_size s" "free (bmp s r)"
    and ok: "solid_ok b (page * PAGE_SIZE)"
    and fr: "\<forall>i. free (b i) = (free (bmp s i) \<and> i \<noteq> r)"
    and out: "\<forall>i. i div PAGE_SIZE \<noteq> page \<longrightarrow> b i = bmp s i"
    and cnt: "rsv \<le> reserved s" "used s + 1 + rsv \<le> total s"
  shows "pm_inv (s\<lparr>next_chunk := page, bmp := b, reserved := rsv, used := used s + 1\<rparr>)"
    and "free_frames b (bmp_size s) = frames_of s - {r}"
proof -
  show fs: "free_frames b (bmp_size s) = frames_of s - {r}"
    using fr by (auto simp: free_frames_def frames_of_def)
  have "r \<in> frames_of s" using r by (simp add: frames_of_def free_frames_def)
  then have "card (frames_of s - {r}) + 1 = card (frames_of s)"
    using card_Suc_Diff1 [of "frames_of s" r] by simp
  moreover have "solid_ok b (p * PAGE_SIZE)" if "p < bmp_page_count s" for p
  proof (cases "p = page")
    case False
    have "solid_ok b (p * PAGE_SIZE) = solid_ok (bmp s) (p * PAGE_SIZE)"
      using out False by (intro solid_ok_cong) auto
    with inv that show ?thesis by (simp add: pm_inv_def)
  qed (use ok in simp)
  ultimately show "pm_inv (s\<lparr>next_chunk := page, bmp := b, reserved := rsv, used := used s + 1\<rparr>)"
    using inv page fr cnt fs by (simp add: pm_inv_def frames_of_def)
qed

lemma allocate_ok:
  assumes s: "s = critical_check cb s0" and inv: "pm_inv s"
    and lim: "mode = NONE \<Longrightarrow> used s + reserved s + hard_critical_limit s < total s"
    and room: "used s + reserved s < total s" and take: "mode = TAKE \<Longrightarrow> reserved s \<noteq> 0"
  shows "\<exists>r s'. PM_allocate cb mode s0 = Inr (r * PAGE_SIZE, s') \<and> r \<noteq> 0 \<and> r \<in> frames_of s \<and>
     frames_of s' = frames_of s - {r} \<and> pm_inv s' \<and> used s' = used s + 1 \<and>
     reserved s' = (if mode = TAKE then reserved s - 1 else reserved s) \<and>
     total s' = total s \<and> hard_critical_limit s' = hard_critical_limit s \<and> callback s' = callback s"
proof -
  obtain q where q: "q < bmp_page_count s" "\<not> chunk_full (bmp s) q"
    using some_chunk_not_full [OF inv frames_available [OF inv room]] by blast
  have nc: "next_chunk s < bmp_page_count s" using inv by (simp add: pm_inv_def)
  have "if next_chunk s \<le> next_chunk s then next_chunk s \<le> q \<or> q < next_chunk s
        else next_chunk s \<le> q \<and> q < next_chunk s" by auto
  from find_chunk_found [OF nc nc q this] obtain page where
    fc: "find_chunk (bmp s) (bmp_page_count s) (next_chunk s) (next_chunk s) = Inr page" ..
  from find_chunk_Inr [OF fc] have page: "page < bmp_page_count s" "\<not> chunk_full (bmp s) page"
    by auto
  have "solid_ok (bmp s) (page * PAGE_SIZE)" "\<forall>i. bmp_size s \<le> i \<longrightarrow> \<not> free (bmp s i)"
    using inv page(1) by (simp_all add: pm_inv_def)
  from take_from_chunk_spec [OF this(1) _ this(2)] page(2) obtain r b where
    tk: "take_from_chunk (bmp s) (bmp_size s) page = Inr (r, b)"
    and r: "r < bmp_size s" "free (bmp s r)"
    and rest: "solid_ok b (page * PAGE_SIZE)" "\<forall>i. free (b i) = (free (bmp s i) \<and> i \<noteq> r)"
      "\<forall>i. i div PAGE_SIZE \<noteq> page \<longrightarrow> b i = bmp s i"
    by (auto simp: chunk_full_def)
  define rsv where "rsv = (if mode = TAKE then reserved s - 1 else reserved s)"
  define s' where "s' = s\<lparr>next_chunk := page, bmp := b, reserved := rsv, used := used s + 1\<rparr>"
  have rsv: "rsv \<le> reserved s" "used s + 1 + rsv \<le> total s"
    using room by (auto simp: rsv_def)
  have keep: "s'\<lparr>reserved := reserved s'\<rparr> = s'" by simp
  have eq: "PM_allocate cb mode s0 = Inr (r * PAGE_SIZE, s')"
    using lim room take fc tk
    by (auto simp: PM_allocate_def Let_def s [symmetric] s'_def rsv_def kassert_def not_le)
  have "r \<noteq> 0" using inv r by (metis pm_inv_def)
  moreover have "r \<in> frames_of s" using r by (simp add: frames_of_def free_frames_def)
  moreover have "frames_of s' = frames_of s - {r}"
    using pm_inv_take(2) [OF inv page(1) r rest rsv] by (simp add: s'_def frames_of_def)
  moreover have "pm_inv s'"
    using pm_inv_take(1) [OF inv page(1) r rest rsv] by (simp add: s'_def)
  ultimately show ?thesis using eq by (simp add: s'_def rsv_def)
qed

lemma release_ok:
  assumes inv: "pm_inv s" and page: "page < bmp_size s" "page \<noteq> 0" "\<not> free (bmp s page)"
    and u: "used s \<noteq> 0"
  shows "\<exists>s'. PM_release (page * PAGE_SIZE) s = Inr s' \<and> pm_inv s' \<and>
     frames_of s' = insert page (frames_of s) \<and> used s' = used s - 1 \<and> reserved s' = reserved s \<and>
     total s' = total s"
proof -
  define q k base where "q = page div PAGE_SIZE" and "k = page mod PAGE_SIZE" and
    "base = q * PAGE_SIZE"
  have pg: "page = base + k" and k: "k < PAGE_SIZE" by (simp_all add: q_def k_def base_def)
  have q: "q < bmp_page_count s" using page(1) unfolding q_def by (rule page_count_bound)
  then have ok: "solid_ok (bmp s) base" using inv by (simp add: pm_inv_def base_def)
  define b0 where "b0 = (bmp s)(page := (bmp s page)\<lparr>free := True\<rparr>)"
  define b where "b = clear_solid b0 base k"
  have b0: "\<And>i. solid (b0 i) = solid (bmp s i)" "\<And>i. free (b0 i) = (free (bmp s i) \<or> i = page)"
    "\<And>i. i \<noteq> page \<Longrightarrow> b0 i = bmp s i"
    by (auto simp: b0_def)
  have "\<forall>i j. i < j \<and> j < k \<and> solid (b0 (base + i)) \<longrightarrow> solid (b0 (base + j))"
    using solid_okD [OF ok] k by (auto simp: b0)
  from clear_solid_spec [OF this] have fr: "\<And>i. free (b i) = (free (bmp s i) \<or> i = page)"
    and out: "\<And>i. i < base \<or> base + k \<le> i \<Longrightarrow> b i = b0 i"
    and sol: "\<And>off. off < k \<Longrightarrow> \<not> solid (b (base + off))"
    unfolding b_def by (auto simp: b0)
  have "solid (bmp s page)" if "page + 1 = PAGE_SIZE"
  proof -
    have "k = 4095" using that by (simp add: k_def)
    then show ?thesis using solid_okD [OF ok k] pg by auto
  qed
  then have eq: "PM_release (page * PAGE_SIZE) s = Inr (s\<lparr>bmp := b, used := used s - 1\<rparr>)"
    using page u by (simp add: PM_release_def Let_def kassert_def b_def b0_def base_def q_def k_def)
  have "solid_ok b base"
    unfolding solid_ok_def
  proof (intro allI impI)
    fix off :: nat assume off: "off < PAGE_SIZE"
    show "solid (b (base + off)) = (\<forall>j. off < j \<and> j < PAGE_SIZE \<longrightarrow> \<not> free (b (base + j)))"
    proof (cases "off < k")
      case True
      then show ?thesis using sol [OF True] fr k pg by auto
    next
      case False
      then show ?thesis using out [of "base + off"] b0(1) solid_okD [OF ok off] fr pg by auto
    qed
  qed
  moreover have "solid_ok b (p * PAGE_SIZE)" if "p < bmp_page_count s" "p \<noteq> q" for p
  proof -
    have "solid_ok b (p * PAGE_SIZE) = solid_ok (bmp s) (p * PAGE_SIZE)"
    proof (rule solid_ok_cong)
      fix off :: nat assume off: "off < PAGE_SIZE"
      let ?i = "p * PAGE_SIZE + off"
      have "?i < base \<or> base + PAGE_SIZE \<le> ?i" using that(2) off by (simp add: base_def) linarith
      then have "?i < base \<or> base + k \<le> ?i" "?i \<noteq> page" using k pg by auto
      then show "b ?i = bmp s ?i" using out b0(3) by simp
    qed
    with that inv show ?thesis by (simp add: pm_inv_def)
  qed
  ultimately have chunks: "solid_ok b (p * PAGE_SIZE)" if "p < bmp_page_count s" for p
    using that by (cases "p = q") (auto simp: base_def)
  have fs: "free_frames b (bmp_size s) = insert page (frames_of s)"
    using fr page(1) by (auto simp: free_frames_def frames_of_def)
  have "page \<notin> frames_of s" using page(3) by (simp add: frames_of_def free_frames_def)
  then have "pm_inv (s\<lparr>bmp := b, used := used s - 1\<rparr>)"
    using inv chunks fr fs page u by (auto simp: pm_inv_def frames_of_def)
  with eq fs show ?thesis by (simp add: frames_of_def)
qed

section \<open>The self-check accepts the invariant\<close>

lemma check_chunk_spec:
  assumes ok: "solid_ok b base" and i: "i + k = PAGE_SIZE"
    and pierce: "pierce = (i = 0 \<or> \<not> solid (b (base + (i - 1))))"
  shows "\<exists>p. check_chunk b base i k pierce n =
     Inr (p, n + card {j. i \<le> j \<and> j < PAGE_SIZE \<and> free (b (base + j))}) \<and>
     (0 < k \<or> \<not> pierce \<longrightarrow> \<not> p)"
  using i pierce
proof (induction k arbitrary: i pierce n)
  case 0
  then show ?case by (auto simp: not_le)
next
  case (Suc k)
  have i: "i < PAGE_SIZE" using Suc.prems(1) by simp
  let ?c = "b (base + i)"
  let ?S = "\<lambda>i. {j. i \<le> j \<and> j < PAGE_SIZE \<and> free (b (base + j))}"
  have split: "card (?S i) = (if free ?c then 1 else 0) + card (?S (i + 1))"
  proof -
    have "?S i = (if free ?c then insert i (?S (i + 1)) else ?S (i + 1))"
      using i by (auto simp: le_less Suc_le_eq)
    then show ?thesis by simp
  qed
  have nxt: "\<exists>p. check_chunk b base (i + 1) k (\<not> solid ?c) m = Inr (p, m + card (?S (i + 1))) \<and>
      (0 < k \<or> solid ?c \<longrightarrow> \<not> p)" for m
    using Suc.IH [of "i + 1" "\<not> solid ?c" m] Suc.prems(1) by simp
  have last: "solid ?c" if "k = 0"
    using solid_okD [OF ok i] Suc.prems(1) that by auto
  show ?case
  proof (cases pierce)
    case True
    have "\<not> (solid ?c \<and> \<not> (free ?c \<or> i = 0))"
    proof
      assume bad: "solid ?c \<and> \<not> (free ?c \<or> i = 0)"
      then have "\<not> solid (b (base + (i - 1)))" using Suc.prems(2) True by auto
      moreover have "\<not> free (b (base + j))" if "i - 1 < j" "j < PAGE_SIZE" for j
        using solid_okD [OF ok i] bad that by (cases "j = i") auto
      ultimately show False using solid_okD [OF ok, of "i - 1"] i by (simp add: less_imp_diff_less)
    qed
    then show ?thesis using True nxt [of "if free ?c then n + 1 else n"] split last
      by (auto simp: Let_def)
  next
    case False
    then have si: "solid (b (base + (i - 1)))" "i \<noteq> 0" using Suc.prems(2) by auto
    have below: "\<not> free (b (base + j))" if "i - 1 < j" "j < PAGE_SIZE" for j
      using solid_okD [OF ok, of "i - 1"] i si(1) that by (simp add: less_imp_diff_less)
    have "\<not> free ?c" using below [of i] i si(2) by auto
    moreover have "solid ?c" using solid_okD [OF ok i] below si(2) by auto
    ultimately show ?thesis using False nxt [of n] split
      by (auto simp: Let_def)
  qed
qed

lemma check_chunks_spec:
  assumes "\<And>p. page \<le> p \<Longrightarrow> p < page + k \<Longrightarrow> solid_ok b (p * PAGE_SIZE)"
  shows "check_chunks b page k n =
     Inr (n + card {j. page * PAGE_SIZE \<le> j \<and> j < (page + k) * PAGE_SIZE \<and> free (b j)})"
  using assms
proof (induction k arbitrary: page n)
  case (Suc k)
  let ?A = "{j. j < PAGE_SIZE \<and> free (b (page * PAGE_SIZE + j))}"
  let ?B = "{j. (page + 1) * PAGE_SIZE \<le> j \<and> j < (page + 1 + k) * PAGE_SIZE \<and> free (b j)}"
  let ?C = "{j. page * PAGE_SIZE \<le> j \<and> j < (page + Suc k) * PAGE_SIZE \<and> free (b j)}"
  have "?C = (\<lambda>j. page * PAGE_SIZE + j) ` ?A \<union> ?B"
  proof (intro set_eqI iffI)
    fix j assume "j \<in> ?C"
    then have j: "page * PAGE_SIZE \<le> j" "j < (page + Suc k) * PAGE_SIZE" "free (b j)" by auto
    show "j \<in> (\<lambda>j. page * PAGE_SIZE + j) ` ?A \<union> ?B"
    proof (cases "j < (page + 1) * PAGE_SIZE")
      case True
      with j show ?thesis
        by (intro UnI1 image_eqI [of _ _ "j - page * PAGE_SIZE"]) auto
    next
      case False
      with j show ?thesis by simp
    qed
  next
    fix j assume "j \<in> (\<lambda>j. page * PAGE_SIZE + j) ` ?A \<union> ?B"
    then show "j \<in> ?C" by auto
  qed
  moreover have "(\<lambda>j. page * PAGE_SIZE + j) ` ?A \<inter> ?B = {}" by auto
  moreover have "card ((\<lambda>j. page * PAGE_SIZE + j) ` ?A) = card ?A"
    by (intro card_image) auto
  ultimately have card: "card ?C = card ?A + card ?B"
    by (simp add: card_Un_disjoint)
  have "solid_ok b (page * PAGE_SIZE)" using Suc.prems by simp
  from check_chunk_spec [OF this, of 0 PAGE_SIZE True n]
  have "check_chunk b (page * PAGE_SIZE) 0 PAGE_SIZE True n = Inr (False, n + card ?A)"
    by auto
  moreover have "check_chunks b (page + 1) k (n + card ?A) = Inr (n + card ?A + card ?B)"
    using Suc.IH [of "page + 1"] Suc.prems by simp
  ultimately show ?case using card by (simp del: check_chunk.simps)
qed auto

lemma page_count_covers: "n \<le> page_count_of n * PAGE_SIZE"
  unfolding page_count_of_def by linarith

lemma check_integrity_ok:
  assumes "pm_inv s"
  shows "check_integrity s = Inr ()"
proof -
  let ?p = "bmp_page_count s"
  have "{j. 0 * PAGE_SIZE \<le> j \<and> j < (0 + ?p) * PAGE_SIZE \<and> free (bmp s j)} = frames_of s"
    using assms page_count_covers [of "bmp_size s"]
    by (auto simp: frames_of_def free_frames_def pm_inv_def not_le)
  moreover have "check_chunks (bmp s) 0 ?p 0 =
    Inr (0 + card {j. 0 * PAGE_SIZE \<le> j \<and> j < (0 + ?p) * PAGE_SIZE \<and> free (bmp s j)})"
    by (rule check_chunks_spec) (use assms in \<open>simp add: pm_inv_def\<close>)
  ultimately show ?thesis using assms
    by (simp add: check_integrity_def pm_inv_def)
qed

section \<open>The constructor establishes the invariant\<close>

lemma mark_solid_build:
  "(\<And>off. off < n \<Longrightarrow> \<not> solid (b (base + off))) \<Longrightarrow> mark_solid b base n = Inr (build_solid base n b)"
  by (induction n arbitrary: b) (auto simp: Let_def)

lemma build_solid_spec:
  assumes "\<And>off. off < PAGE_SIZE \<Longrightarrow> \<not> solid (b (base + off))"
  shows "solid_ok (build_solid base PAGE_SIZE b) base"
    and "free (build_solid base PAGE_SIZE b i) = free (b i)"
    and "i < base \<or> base + PAGE_SIZE \<le> i \<Longrightarrow> build_solid base PAGE_SIZE b i = b i"
  using mark_solid_spec [of PAGE_SIZE b base, OF assms] mark_solid_build [of PAGE_SIZE b base, OF assms]
  by (auto simp: solid_ok_def)

lemma build_chunks_spec:
  assumes "\<And>j. i * PAGE_SIZE \<le> j \<Longrightarrow> \<not> solid (b j)"
  shows "(\<forall>p. i \<le> p \<and> p < i + k \<longrightarrow> solid_ok (build_chunks i k b) (p * PAGE_SIZE)) \<and>
     (\<forall>j. free (build_chunks i k b j) = free (b j)) \<and>
     (\<forall>j<i * PAGE_SIZE. build_chunks i k b j = b j)"
  using assms
proof (induction k arbitrary: i b)
  case (Suc k)
  define c where "c = build_solid (i * PAGE_SIZE) PAGE_SIZE b"
  have ns: "\<And>off. off < PAGE_SIZE \<Longrightarrow> \<not> solid (b (i * PAGE_SIZE + off))" using Suc.prems by simp
  note bs = build_solid_spec [of b "i * PAGE_SIZE", OF ns, folded c_def]
  have "\<And>j. (i + 1) * PAGE_SIZE \<le> j \<Longrightarrow> \<not> solid (c j)"
    using bs(3) Suc.prems by simp
  note IH = Suc.IH [of "i + 1" c, OF this]
  have "solid_ok (build_chunks (i + 1) k c) (i * PAGE_SIZE) = solid_ok c (i * PAGE_SIZE)"
    using IH by (intro solid_ok_cong) auto
  then have "solid_ok (build_chunks (i + 1) k c) (p * PAGE_SIZE)" if "i \<le> p" "p < i + Suc k" for p
    using IH bs(1) that by (cases "p = i") auto
  moreover have "free (build_chunks (i + 1) k c j) = free (b j)" for j using IH bs(2) by simp
  moreover have "build_chunks (i + 1) k c j = b j" if "j < i * PAGE_SIZE" for j
    using IH bs(3) that by simp
  ultimately show ?case by (simp add: c_def)
qed auto

lemma clear_free_spec:
  "solid (clear_free i k b j) = solid (b j) \<and>
   free (clear_free i k b j) = (free (b j) \<and> \<not> (i \<le> j \<and> j < i + k))"
  by (induction k arbitrary: i b) auto

lemma clear_checked_spec:
  "clear_checked lim i k b = Inr b' \<Longrightarrow> b' = clear_free i k b"
  by (induction k arbitrary: i b) (auto simp: res_simps)

definition fill_inv :: "nat \<Rightarrow> nat \<times> (nat \<Rightarrow> block) \<Rightarrow> bool" where
  "fill_inv lim tb \<longleftrightarrow> fst tb = card (free_frames (snd tb) lim) \<and>
     (\<forall>i. lim \<le> i \<longrightarrow> \<not> free (snd tb i)) \<and> (\<forall>i. \<not> solid (snd tb i))"

lemma fill_range_inv:
  "fill_range lim index k tb = Inr tb' \<Longrightarrow> fill_inv lim tb \<Longrightarrow> fill_inv lim tb'"
proof (induction k arbitrary: index tb)
  case (Suc k)
  let ?b = "(snd tb)(index := (snd tb index)\<lparr>free := True\<rparr>)"
  let ?tb = "if \<not> free (snd tb index) then (fst tb + 1, ?b) else tb"
  have i: "index < lim" and rec: "fill_range lim (index + 1) k ?tb = Inr tb'"
    using Suc.prems(1) by (simp_all add: res_simps)
  have "fill_inv lim (fst tb + 1, ?b)" if "\<not> free (snd tb index)"
  proof -
    have "free_frames ?b lim = insert index (free_frames (snd tb) lim)"
      using i by (auto simp: free_frames_def)
    moreover have "index \<notin> free_frames (snd tb) lim" using that by (simp add: free_frames_def)
    ultimately show ?thesis using Suc.prems(2) i by (auto simp: fill_inv_def)
  qed
  with Suc.prems(2) have "fill_inv lim ?tb" by simp
  with rec show ?case by (rule Suc.IH)
qed simp

lemma fill_bmp_inv:
  "fill_bmp lim scan tb = Inr tb' \<Longrightarrow> fill_inv lim tb \<Longrightarrow> fill_inv lim tb'"
  by (induction scan arbitrary: tb)
    (auto simp: res_simps Let_def split: if_splits dest: fill_range_inv)

definition boot_frames :: "nat \<Rightarrow> nat \<Rightarrow> nat \<Rightarrow> nat \<Rightarrow> nat set" where
  "boot_frames pdt_count kernel_page base page_count =
     {..<DIRECT_MAP_COUNT + pdt_count} \<union> {BOOT_AREA_COUNT..<BOOT_AREA_COUNT + kernel_page} \<union>
     {base..<base + page_count}"

lemma PM_ctor_inv:
  assumes ctor: "PM_ctor scan avl_top kernel_page pdt0_0 pt_0 = Inr boot"
    and size: "bsize = unat (drop_bit 12 avl_top)" "pages = page_count_of bsize"
      "pdts = (pages + 511) div 512"
    and base: "base = unat (drop_bit 12 (find_bmp_base (of_nat pages) scan))"
    and fill: "fill_bmp bsize scan (0, \<lambda>_. \<lparr>solid = False, free = False\<rparr>) = Inr (tot, b0)"
    and usable: "\<And>i. i \<in> boot_frames pdts kernel_page base pages \<Longrightarrow> i < bsize \<and> free (b0 i)"
    and disjoint: "card (boot_frames pdts kernel_page base pages) =
       DIRECT_MAP_COUNT + pdts + pages + kernel_page"
  shows "pm_inv (boot_pm boot) \<and>
     frames_of (boot_pm boot) = free_frames b0 bsize - boot_frames pdts kernel_page base pages"
proof -
  let ?R = "boot_frames pdts kernel_page base pages"
  let ?b3 = "clear_free base pages (clear_free BOOT_AREA_COUNT kernel_page
       (clear_free 0 (DIRECT_MAP_COUNT + pdts) b0))"
  have fi: "fill_inv bsize (tot, b0)"
    by (rule fill_bmp_inv [OF fill]) (simp add: fill_inv_def free_frames_def)
  have P: "used (boot_pm boot) = DIRECT_MAP_COUNT + pdts + pages + kernel_page"
      "used (boot_pm boot) < total (boot_pm boot)" "total (boot_pm boot) = tot"
      "reserved (boot_pm boot) = 0" "next_chunk (boot_pm boot) = 0" "bmp_size (boot_pm boot) = bsize"
      "bmp (boot_pm boot) = build_chunks 0 pages ?b3"
    using ctor fill
    by (auto simp: PM_ctor_def Let_def res_simps size [symmetric] base [symmetric] split: if_splits
        dest!: clear_checked_spec)
  have fr3: "free (?b3 j) = (free (b0 j) \<and> j \<notin> ?R)" for j
    by (auto simp: clear_free_spec boot_frames_def)
  have "\<And>j. \<not> solid (?b3 j)" using fi by (simp add: clear_free_spec fill_inv_def)
  then have bc: "\<forall>p<pages. solid_ok (bmp (boot_pm boot)) (p * PAGE_SIZE)"
      "\<And>j. free (bmp (boot_pm boot) j) = (free (b0 j) \<and> j \<notin> ?R)"
    using build_chunks_spec [of 0 ?b3 pages] fr3 unfolding P(7) by auto
  have frames: "frames_of (boot_pm boot) = free_frames b0 bsize - ?R"
    using bc(2) by (auto simp: frames_of_def free_frames_def P(6))
  have sub: "?R \<subseteq> free_frames b0 bsize" using usable by (auto simp: free_frames_def)
  have "card (free_frames b0 bsize - ?R) = tot - card ?R"
    using fi sub by (subst card_Diff_subset) (auto simp: fill_inv_def finite_subset [OF sub])
  moreover have "card ?R \<le> tot"
    using card_mono [OF _ sub] fi by (simp add: fill_inv_def)
  ultimately have "card (frames_of (boot_pm boot)) + used (boot_pm boot) = tot"
    using disjoint P(1) frames by simp
  moreover have "\<not> free (bmp (boot_pm boot) 0)" by (simp add: bc(2) boot_frames_def)
  moreover have "0 < pages"
  proof -
    have "0 \<in> ?R" by (simp add: boot_frames_def)
    from usable [OF this] have "0 < bsize" by simp
    then show ?thesis using page_count_bound [of 0 bsize] size(2) by simp
  qed
  ultimately have "pm_inv (boot_pm boot)"
    unfolding pm_inv_def using bc fi P(2-6) size(2) by (auto simp: fill_inv_def)
  with frames show ?thesis by blast
qed

lemma peek_spec:
  "off < PAGE_SIZE \<Longrightarrow> peek phys page off count = map phys [page + off..<page + off + count]"
proof (induction phys page off count rule: peek.induct)
  case (1 phys page off count)
  show ?case
  proof (cases "count = 0")
    case False
    let ?len = "min (PAGE_SIZE - off) count"
    have IH: "peek phys (page + PAGE_SIZE) 0 (count - ?len) =
        map phys [page + PAGE_SIZE..<page + PAGE_SIZE + (count - ?len)]"
      using "1.IH" False "1.prems" by auto
    have shift: "map (\<lambda>i. phys (page + off + i)) [0..<?len] = map phys [page + off..<page + off + ?len]"
      by (rule nth_equalityI) auto
    have "peek phys page off count = map (\<lambda>i. phys (page + off + i)) [0..<?len] @
        peek phys (page + PAGE_SIZE) 0 (count - ?len)"
      using False "1.prems" by (subst peek.simps) (simp add: Let_def not_le)
    also have "\<dots> = map phys ([page + off..<page + off + ?len] @
        [page + PAGE_SIZE..<page + PAGE_SIZE + (count - ?len)])"
      by (simp only: shift IH map_append)
    also have "[page + off..<page + off + ?len] @ [page + PAGE_SIZE..<page + PAGE_SIZE + (count - ?len)] =
        [page + off..<page + off + count]"
    proof (cases "PAGE_SIZE - off \<le> count")
      case True
      then have "page + off + ?len = page + PAGE_SIZE"
        "page + PAGE_SIZE + (count - ?len) = page + off + count"
        using "1.prems" by simp_all
      then show ?thesis using "1.prems"
        using upt_add_eq_append [of "page + off" "page + PAGE_SIZE" "count - ?len"]
        by (simp add: ac_simps)
    qed simp
    finally show ?thesis .
  qed (subst peek.simps, simp)
qed

text \<open>The loops of the constructor run to their end when their ranges fit.\<close>

lemma fill_range_ok:
  "index + k \<le> lim \<Longrightarrow> \<exists>t b. fill_range lim index k tb = Inr (t, b) \<and>
     (\<forall>i. free (b i) = (free (snd tb i) \<or> index \<le> i \<and> i < index + k))"
proof (induction k arbitrary: index tb)
  case (Suc k)
  let ?tb = "if \<not> free (snd tb index)
    then (fst tb + 1, (snd tb)(index := (snd tb index)\<lparr>free := True\<rparr>)) else tb"
  from Suc.IH [of "index + 1" ?tb] Suc.prems obtain t b where
    "fill_range lim (index + 1) k ?tb = Inr (t, b)"
    "\<forall>i. free (b i) = (free (snd ?tb i) \<or> index + 1 \<le> i \<and> i < index + 1 + k)" by auto
  then show ?case using Suc.prems by (auto simp: le_less Suc_le_eq)
next
  case 0
  then show ?case by (cases tb) auto
qed

lemma clear_checked_ok: "i + k \<le> lim \<Longrightarrow> clear_checked lim i k b = Inr (clear_free i k b)"
  by (induction k arbitrary: i b) auto

lemma zero_bmp_pt_ok: "i + k \<le> PDT_LIMIT * 512 \<Longrightarrow> \<exists>t'. zero_bmp_pt i k t = Inr t'"
  by (induction k arbitrary: i t) auto

section \<open>The frame allocator as an interface\<close>

text \<open>
  The virtual memory code relies on three facts only: what an allocation takes out of the pool,
  what a release puts back, and that both keep the pool well formed. \<open>reserve\<close> and the
  \<open>TAKE\<close> mode let a caller secure a number of frames first; \<open>quota\<close> is what is left of them.
\<close>

locale frame_allocator =
  fixes inv :: "'s \<Rightarrow> bool" and pool :: "'s \<Rightarrow> nat set" and quota :: "'s \<Rightarrow> nat"
    and take :: "'s \<Rightarrow> (nat \<times> 's) res" and give :: "nat \<Rightarrow> 's \<Rightarrow> 's res"
  assumes take_ok: "inv s \<Longrightarrow> 0 < quota s \<Longrightarrow>
      \<exists>r s'. take s = Inr (r * PAGE_SIZE, s') \<and> r \<noteq> 0 \<and> r \<in> pool s \<and> pool s' = pool s - {r} \<and>
        inv s' \<and> quota s' = quota s - 1"
    and give_free: "r \<in> pool s \<Longrightarrow> inv s \<Longrightarrow> \<not> is_ok (give (r * PAGE_SIZE) s)"

text \<open>Taking frames one after the other, as the commit loops do.\<close>

fun take_many :: "('s \<Rightarrow> (nat \<times> 's) res) \<Rightarrow> nat \<Rightarrow> 's \<Rightarrow> (nat list \<times> 's) res" where
  "take_many tk 0 s = Inr ([], s)"
| "take_many tk (Suc n) s =
     rbind (tk s) (\<lambda>(pa, s'). rbind (take_many tk n s') (\<lambda>(pas, s''). Inr (pa # pas, s'')))"

context frame_allocator
begin

lemma take_many_ok:
  assumes "inv s" and "n \<le> quota s"
  shows "\<exists>rs s'. take_many take n s = Inr (map (\<lambda>r. r * PAGE_SIZE) rs, s') \<and> length rs = n \<and>
    distinct rs \<and> set rs \<subseteq> pool s \<and> 0 \<notin> set rs \<and> pool s' = pool s - set rs \<and> inv s' \<and>
    quota s' = quota s - n"
  using assms
proof (induction n arbitrary: s)
  case (Suc n)
  from take_ok [OF Suc.prems(1)] Suc.prems(2) obtain r s1 where
    tk: "take s = Inr (r * PAGE_SIZE, s1)" and r: "r \<noteq> 0" "r \<in> pool s" "pool s1 = pool s - {r}"
    and s1: "inv s1" "quota s1 = quota s - 1" by auto
  have "n \<le> quota s1" using Suc.prems(2) s1(2) by simp
  from Suc.IH [OF s1(1) this] obtain rs s' where
    rs: "take_many take n s1 = Inr (map (\<lambda>r. r * PAGE_SIZE) rs, s')" "length rs = n"
      "distinct rs" "set rs \<subseteq> pool s1" "0 \<notin> set rs" "pool s' = pool s1 - set rs" "inv s'"
      "quota s' = quota s1 - n" by auto
  show ?case
    by (rule exI [of _ "r # rs"], rule exI [of _ s'])
      (use tk r s1 rs in auto)
qed simp

end

text \<open>The reservation that backs \<open>TAKE\<close> is never larger than the frames left; together with
  the allocator invariant this is what \<open>PM\<close> promises its callers. The kernel registers no
  critical callback, so the state carries \<open>callback = False\<close>.\<close>

definition pm_ready :: "pm \<Rightarrow> bool" where
  "pm_ready s \<longleftrightarrow> pm_inv s \<and> \<not> callback s \<and> used s + reserved s < total s"

lemma critical_check_id: "\<not> callback s \<Longrightarrow> critical_check cb s = s"
  by (simp add: critical_check_def)

lemma release_free: "r \<in> frames_of s \<Longrightarrow> PM_release (r * PAGE_SIZE) s = bugcheck ''double release''"
  by (simp add: frames_of_def free_frames_def PM_release_def Let_def kassert_def)

interpretation pmf: frame_allocator pm_ready frames_of reserved "PM_allocate cb TAKE" PM_release
proof
  fix s assume s: "pm_ready s" "0 < reserved s"
  then have ctx: "s = critical_check cb s" "pm_inv s" "used s + reserved s < total s"
    by (auto simp: pm_ready_def critical_check_id)
  from allocate_ok [OF ctx(1,2) _ ctx(3), of TAKE] s(2) obtain r s' where
    "PM_allocate cb TAKE s = Inr (r * PAGE_SIZE, s')" "r \<noteq> 0" "r \<in> frames_of s"
    "frames_of s' = frames_of s - {r}" "pm_inv s'" "used s' = used s + 1"
    "reserved s' = reserved s - 1" "total s' = total s" "callback s' = callback s"
    by auto
  then show "\<exists>r s'. PM_allocate cb TAKE s = Inr (r * PAGE_SIZE, s') \<and> r \<noteq> 0 \<and> r \<in> frames_of s \<and>
      frames_of s' = frames_of s - {r} \<and> pm_ready s' \<and> reserved s' = reserved s - 1"
    using s by (auto simp: pm_ready_def)
next
  fix r s assume "r \<in> frames_of s"
  then show "\<not> is_ok (PM_release (r * PAGE_SIZE) s)" by (simp add: release_free bugcheck_def)
qed

section \<open>Properties\<close>

definition pm_sample :: pm where
  "pm_sample = \<lparr>soft_critical_limit = 0, hard_critical_limit = 0, bmp_size = 4, total = 4, used = 2,
     reserved = 1, next_chunk = 0, callback = False,
     bmp = (\<lambda>i. \<lparr>solid = (3 \<le> i), free = (i = 1 \<or> i = 3)\<rparr>)\<rparr>"

lemma pm_sample_frames: "frames_of pm_sample = {1, 3}"
  by (auto simp: frames_of_def free_frames_def pm_sample_def)

lemma pm_sample_inv: "pm_inv pm_sample"
proof -
  have "card (frames_of pm_sample) = 2" by (simp add: pm_sample_frames)
  moreover have "solid_ok (bmp pm_sample) 0"
    by (auto simp: solid_ok_def pm_sample_def dest: spec [of _ 3])
  ultimately show ?thesis
    by (auto simp: pm_inv_def page_count_of_def) (auto simp: pm_sample_def)
qed

lemma pm_sample_check: "critical_check cb pm_sample = pm_sample"
  by (simp add: critical_check_def pm_sample_def)

text \<open>
  C1: \<open>PM::allocate\<close> in any mode, once its quota test passes, returns a frame that was free and
  is not frame 0, takes exactly that frame out of the pool, accounts for it, and keeps the bitmap
  invariant (so the binary search always lands on the last free frame of the chunk it picked and
  none of the assertions fails).
\<close>
theorem PM_allocate_takes_free_frame:
  assumes "s = critical_check cb s0" and "pm_inv s"
    and "mode = NONE \<Longrightarrow> used s + reserved s + hard_critical_limit s < total s"
    and "used s + reserved s < total s" and "mode = TAKE \<Longrightarrow> reserved s \<noteq> 0"
  shows "\<exists>r s'. PM_allocate cb mode s0 = Inr (r * PAGE_SIZE, s') \<and> r \<noteq> 0 \<and> r \<in> frames_of s \<and>
     frames_of s' = frames_of s - {r} \<and> pm_inv s' \<and> used s' = used s + 1 \<and>
     reserved s' = (if mode = TAKE then reserved s - 1 else reserved s)"
  using allocate_ok [OF assms] by blast

theorem PM_allocate_takes_free_frame_witness:
  "\<exists>r s'. PM_allocate id TAKE pm_sample = Inr (r * PAGE_SIZE, s') \<and> r \<in> {1, 3} \<and> pm_inv s' \<and>
     reserved s' = 0"
proof -
  have "used pm_sample + reserved pm_sample < total pm_sample" "reserved pm_sample = 1"
    by (simp_all add: pm_sample_def)
  then show ?thesis
    using PM_allocate_takes_free_frame [of pm_sample id pm_sample TAKE] pm_sample_inv
    by (auto simp: pm_sample_check pm_sample_frames)
qed

text \<open>
  when the quota test fails, \<open>PM::allocate(NONE)\<close> returns 0 and changes nothing, and no other
  mode takes a frame that is not there: with an empty pool the allocator stops in \<open>bugcheck\<close>.
\<close>
theorem PM_allocate_refuses:
  assumes "s = critical_check cb s0" and "pm_inv s"
  shows "(used s + reserved s + hard_critical_limit s \<ge> total s \<longrightarrow>
            PM_allocate cb NONE s0 = Inr (0, s)) \<and>
         (mode \<noteq> NONE \<and> frames_of s = {} \<longrightarrow> \<not> is_ok (PM_allocate cb mode s0))"
proof (intro conjI impI)
  assume "used s + reserved s + hard_critical_limit s \<ge> total s"
  then show "PM_allocate cb NONE s0 = Inr (0, s)" by (simp add: PM_allocate_def assms(1) Let_def)
next
  assume "mode \<noteq> NONE \<and> frames_of s = {}"
  then have e: "mode \<noteq> NONE" "\<not> used s + reserved s < total s"
    using assms(2) frames_available by blast+
  show "\<not> is_ok (PM_allocate cb mode s0)"
    using e unfolding is_ok_iff
    by (auto simp: PM_allocate_def assms(1) [symmetric] Let_def res_simps)
qed

theorem PM_allocate_refuses_witness:
  "PM_allocate id NONE (pm_sample\<lparr>hard_critical_limit := 4\<rparr>) = Inr (0, pm_sample\<lparr>hard_critical_limit := 4\<rparr>)"
proof -
  let ?s = "pm_sample\<lparr>hard_critical_limit := 4\<rparr>"
  have "critical_check id ?s = ?s" by (simp add: critical_check_def pm_sample_def)
  moreover have "pm_inv ?s" using pm_sample_inv by (simp add: pm_inv_def frames_of_def)
  ultimately show ?thesis
    using PM_allocate_refuses [of ?s id ?s NONE] by (simp add: pm_sample_def)
qed

text \<open>
  C15: \<open>PM::release\<close> of a frame that is not free puts exactly that frame back, decrements
  \<open>used\<close> and keeps the invariant.
\<close>
theorem PM_release_returns_frame:
  assumes "pm_inv s" and "page < bmp_size s" and "page \<noteq> 0" and "\<not> free (bmp s page)"
    and "used s \<noteq> 0"
  shows "\<exists>s'. PM_release (page * PAGE_SIZE) s = Inr s' \<and> pm_inv s' \<and>
     frames_of s' = insert page (frames_of s) \<and> used s' = used s - 1 \<and> reserved s' = reserved s"
  using release_ok [OF assms] by blast

theorem PM_release_returns_frame_witness:
  "\<exists>s'. PM_release (2 * PAGE_SIZE) pm_sample = Inr s' \<and> pm_inv s' \<and> frames_of s' = {1, 2, 3}"
  using PM_release_returns_frame [OF pm_sample_inv, of 2]
  by (auto simp: pm_sample_frames) (auto simp: pm_sample_def)

text \<open>
  releasing a frame that is already free stops the kernel with "double release".
\<close>
theorem PM_double_release:
  assumes "r \<in> frames_of s"
  shows "PM_release (r * PAGE_SIZE) s = bugcheck ''double release''"
  using assms by (rule release_free)

theorem PM_double_release_witness:
  "PM_release (3 * PAGE_SIZE) pm_sample = bugcheck ''double release''"
  by (rule PM_double_release) (simp add: pm_sample_frames)

text \<open>
  the commit loops of the address spaces, which call \<open>allocate(TAKE)\<close> once per page after a
  successful \<open>reserve\<close>, always get that many pairwise distinct frames, none of them frame 0 and
  all of them free before.
\<close>
theorem PM_take_many_distinct:
  assumes "pm_ready s" and "n \<le> reserved s"
  shows "\<exists>rs s'. take_many (PM_allocate cb TAKE) n s = Inr (map (\<lambda>r. r * PAGE_SIZE) rs, s') \<and>
    length rs = n \<and> distinct rs \<and> set rs \<subseteq> frames_of s \<and> 0 \<notin> set rs \<and>
    frames_of s' = frames_of s - set rs \<and> pm_ready s' \<and> reserved s' = reserved s - n"
  using assms by (rule pmf.take_many_ok)

theorem PM_take_many_distinct_witness:
  "\<exists>rs s'. take_many (PM_allocate id TAKE) 1 pm_sample = Inr (map (\<lambda>r. r * PAGE_SIZE) rs, s') \<and>
    length rs = 1 \<and> set rs \<subseteq> {1, 3} \<and> reserved s' = 0"
proof -
  have "pm_ready pm_sample" "1 \<le> reserved pm_sample"
    using pm_sample_inv by (simp_all add: pm_ready_def) (simp_all add: pm_sample_def)
  from PM_take_many_distinct [OF this, of id] show ?thesis
    by (auto simp: pm_sample_frames) (auto simp: pm_sample_def)
qed

text \<open>
  the constructor turns the firmware memory map into a bitmap that satisfies the invariant,
  with exactly the usable frames outside the boot area, the kernel image and the bitmap itself in
  the pool, provided those boot frames are usable memory and do not overlap.
\<close>
theorem PM_ctor_establishes_invariant:
  assumes "PM_ctor scan avl_top kernel_page pdt0_0 pt_0 = Inr boot"
    and "bsize = unat (drop_bit 12 avl_top)" and "pages = page_count_of bsize"
    and "pdts = (pages + 511) div 512"
    and "base = unat (drop_bit 12 (find_bmp_base (of_nat pages) scan))"
    and "fill_bmp bsize scan (0, \<lambda>_. \<lparr>solid = False, free = False\<rparr>) = Inr (tot, b0)"
    and "\<And>i. i \<in> boot_frames pdts kernel_page base pages \<Longrightarrow> i < bsize \<and> free (b0 i)"
    and "card (boot_frames pdts kernel_page base pages) =
       DIRECT_MAP_COUNT + pdts + pages + kernel_page"
  shows "pm_inv (boot_pm boot) \<and>
     frames_of (boot_pm boot) = free_frames b0 bsize - boot_frames pdts kernel_page base pages"
  using assms by (rule PM_ctor_inv)

definition scan_sample :: "pmmscan list" where
  "scan_sample = [\<lparr>ps_base = 0, ps_len = 0x20000, ps_type = 1\<rparr>,
     \<lparr>ps_base = 0x100000, ps_len = 0x2000, ps_type = 1\<rparr>]"

lemma scan_sample_facts:
  "unat (drop_bit 12 (0x102000 :: qword)) = 258" "page_count_of 258 = 1"
  "find_bmp_base 1 scan_sample = 0x100000" "unat (drop_bit 12 (0x100000 :: qword)) = 256"
  by (simp_all add: page_count_of_def scan_sample_def align_up_def align_down_def drop_bit_eq_div)

lemma scan_sample_words:
  "(1 :: dword) \<noteq> 0" "((1 :: dword) \<noteq> 1 \<or> (0x20000 :: qword) = 0) = False"
  "((1 :: dword) \<noteq> 1 \<or> (0x2000 :: qword) = 0) = False"
  "(1 :: dword) = 0 \<longleftrightarrow> False"
  "(0 + 0x20000 < align_up (0 :: qword) 4096) = False"
  "(0x100000 + 0x2000 < align_up (0x100000 :: qword) 4096) = False"
  "unat (align_up (0 :: qword) 4096 div 4096) = 0"
  "unat (align_up (0x100000 :: qword) 4096 div 4096) = 256"
  "unat (drop_bit 12 (align_down (0 + 0x20000 - align_up (0 :: qword) 4096) 4096)) = 32"
  "unat (drop_bit 12 (align_down (0x100000 + 0x2000 - align_up (0x100000 :: qword) 4096) 4096)) = 2"
  by (simp_all add: align_up_def align_down_def drop_bit_eq_div)

theorem PM_ctor_establishes_invariant_witness:
  "\<exists>boot. PM_ctor scan_sample 0x102000 1 (\<lambda>_. 0) (\<lambda>_. 0) = Inr boot \<and> pm_inv (boot_pm boot)"
proof -
  note facts = scan_sample_facts
  from fill_range_ok [of 0 32 258 "(0, \<lambda>_. \<lparr>solid = False, free = False\<rparr>)"] obtain t1 b1 where
    f1: "fill_range 258 0 32 (0, \<lambda>_. \<lparr>solid = False, free = False\<rparr>) = Inr (t1, b1)"
    "\<forall>i. free (b1 i) = (i < 32)" by auto
  from fill_range_ok [of 256 2 258 "(t1, b1)"] obtain tot b0 where
    f2: "fill_range 258 256 2 (t1, b1) = Inr (tot, b0)"
    "\<forall>i. free (b0 i) = (i < 32 \<or> 256 \<le> i \<and> i < 258)" using f1(2) by auto
  have fill: "fill_bmp 258 scan_sample (0, \<lambda>_. \<lparr>solid = False, free = False\<rparr>) = Inr (tot, b0)"
    by (simp only: scan_sample_def fill_bmp.simps Let_def pmmscan.simps scan_sample_words if_False
        rbind_Inr f1(1) f2(1))
  have "fill_inv 258 (tot, b0)"
    by (rule fill_bmp_inv [OF fill]) (simp add: fill_inv_def free_frames_def)
  moreover have "free_frames b0 258 = {..<32} \<union> {256..<258}"
    unfolding free_frames_def f2(2) [rule_format] set_eq_iff Un_iff lessThan_iff atLeastLessThan_iff
      mem_Collect_eq by linarith
  moreover have "card ({..<32} \<union> {256..<258} :: nat set) = 34" by (subst card_Un_disjoint) auto
  ultimately have tot: "tot = 34" by (simp add: fill_inv_def)
  have pdt: "map_pdt 0 1 (\<lambda>_. 0) = Inr ((\<lambda>_. 0)(2 := 0x8000000000000103 OR 0xA000))"
    by simp
  obtain pt1 where pt1: "map_bmp_pt 0x100000 0 1 (\<lambda>_. 0) = Inr pt1" by simp
  from zero_bmp_pt_ok [of 1 511 pt1] obtain pt where pt: "zero_bmp_pt 1 511 pt1 = Inr pt" by auto
  have sizes: "(1 + 511) div 512 = (1 :: nat)" "1 * 512 - 1 = (511 :: nat)" "of_nat 1 = (1 :: qword)"
    "\<not> (1 :: nat) > PDT_LIMIT" "(0x100000 :: qword) \<noteq> 0"
    "DIRECT_MAP_COUNT + 1 + 1 + 1 < (34 :: nat)" by simp_all
  have clr: "clear_checked 258 BOOT_AREA_COUNT 1 b = Inr (clear_free BOOT_AREA_COUNT 1 b)"
    "clear_checked 258 256 1 b = Inr (clear_free 256 1 b)" for b
    by (simp_all add: clear_checked_ok del: clear_checked.simps)
  have "is_ok (PM_ctor scan_sample 0x102000 1 (\<lambda>_. 0) (\<lambda>_. 0))"
    unfolding PM_ctor_def Let_def facts sizes pdt rbind_Inr pt1 pt fill prod.case clr tot if_False
      kassert_True
    by (simp only: kassert_def sizes if_True if_False is_ok_simps facts)
  then obtain boot where ctor: "PM_ctor scan_sample 0x102000 1 (\<lambda>_. 0) (\<lambda>_. 0) = Inr boot"
    by (auto simp: is_ok_iff)
  have R: "boot_frames 1 1 256 1 = {..<11} \<union> {16} \<union> {256}"
    by (auto simp: boot_frames_def)
  have cR: "card ({..<11} \<union> {16} \<union> {256} :: nat set) = 13" by simp
  have "pm_inv (boot_pm boot) \<and> frames_of (boot_pm boot) = free_frames b0 258 - boot_frames 1 1 256 1"
    by (rule PM_ctor_establishes_invariant [OF ctor _ _ _ _ fill])
      (simp_all only: facts R f2(2) sizes of_nat_1 cR, auto)
  with ctor show ?thesis by blast
qed

text \<open>
  the built-in self-check of the allocator accepts every state that satisfies the invariant:
  it raises no false alarm and its count of free frames agrees with the counters.
\<close>
theorem PM_check_integrity_sound:
  assumes "pm_inv s"
  shows "check_integrity s = Inr ()"
  using assms by (rule check_integrity_ok)

theorem PM_check_integrity_sound_witness: "check_integrity pm_sample = Inr ()"
  using pm_sample_inv by (rule PM_check_integrity_sound)

text \<open>
  \<open>PM::peek\<close> reads exactly the requested range of physical memory, across any number of
  page boundaries.
\<close>
theorem PM_peek_reads_range: "PM_peek phys paddr count = map phys [paddr..<paddr + count]"
  by (simp add: PM_peek_def Let_def peek_spec)

end
