(* ===== verification/Page_Block.thy ===== *)
theory Page_Block
  imports Kernel_Prelude
begin

text \<open>
  The free list of a page table, \<^verbatim>\<open>kernel/memory/vm.cpp\<close> (\<open>virtual_space::BLOCK\<close> and the
  methods \<open>resolve_prior\<close>, \<open>erase\<close>, \<open>insert\<close>, \<open>imp_reserve_any\<close>, \<open>imp_reserve_fixed\<close>).
  A page table has 512 entries. Maximal runs of free entries are blocks; the entries of a block
  themselves store its links and its size (\<^verbatim>\<open>{NEXT PREV SIZE OFF...}\<close>), and the blocks of a table
  form a doubly linked list in ascending order of size whose head and (rounded) maximal size are in
  the page directory entry.

  A table is a function from indices; only indices below 512 are used. Bit fields keep the width
  of the C++ declaration by an explicit \<open>mod\<close>. The locks the callers hold make every operation
  one step.
\<close>

section \<open>Entries\<close>

datatype pte_type = OFF | SIZE | PREV | NEXT

record pte =
  pt_present :: bool
  pt_write :: bool
  pt_user :: bool
  pt_wt :: bool
  pt_cd :: bool
  pt_accessed :: bool
  pt_dirty :: bool
  pt_pat :: bool
  pt_global :: bool
  pt_type :: pte_type
  pt_valid :: bool
  pt_page_addr :: nat
  pt_data :: nat
  pt_preserve :: bool
  pt_bypass :: bool
  pt_xd :: bool

record pdte =
  pd_present :: bool
  pd_write :: bool
  pd_user :: bool
  pd_remain :: nat
  pd_pt_addr :: nat
  pd_head :: nat
  pd_bypass :: bool

record blk =
  b_self :: nat
  b_next :: nat
  b_prev :: nat
  b_size :: nat
  b_next_valid :: bool
  b_prev_valid :: bool

type_synonym ptable = "nat \<Rightarrow> pte"

definition pt_free :: "pte \<Rightarrow> bool" where
  "pt_free p \<longleftrightarrow> \<not> pt_present p \<and> \<not> pt_preserve p"

text \<open>A \<open>BLOCK\<close> declared without initialiser; its fields are written before they are read.\<close>

definition blk_uninit :: blk where
  "blk_uninit = \<lparr>b_self = 0, b_next = 0, b_prev = 0, b_size = 0,
     b_next_valid = False, b_prev_valid = False\<rparr>"

section \<open>Reading and writing a block\<close>

definition get_start :: "ptable \<Rightarrow> nat \<Rightarrow> nat res" where
  "get_start t i =
     kassert (pt_free (t i))
      (case pt_type (t i) of
         OFF \<Rightarrow> kassert (pt_valid (t i)) (kassert (2 < pt_data (t i) \<and> pt_data (t i) \<le> i)
                  (Inr (i - pt_data (t i))))
       | SIZE \<Rightarrow> kassert (pt_valid (t i)) (kassert (pt_data (t i) = 3 \<and> 2 \<le> i) (Inr (i - 2)))
       | PREV \<Rightarrow> kassert (1 \<le> i) (Inr (i - 1))
       | NEXT \<Rightarrow> Inr i)"

definition get_off_ok :: "ptable \<Rightarrow> nat \<Rightarrow> nat \<Rightarrow> bool" where
  "get_off_ok t s n \<longleftrightarrow> (\<forall>i\<in>{3..<n}. s + i < 512 \<and> pt_free (t (s + i)) \<and>
     pt_type (t (s + i)) = OFF \<and> pt_valid (t (s + i)) \<and> pt_data (t (s + i)) = i)"

definition BLOCK_get :: "blk \<Rightarrow> ptable \<Rightarrow> nat \<Rightarrow> blk res" where
  "BLOCK_get old t i =
     rbind (get_start t i) (\<lambda>s.
      kassert (pt_free (t s)) (kassert (pt_type (t s) = NEXT)
       (let b = old\<lparr>b_self := s, b_next := pt_data (t s), b_next_valid := pt_valid (t s),
                    b_prev_valid := False, b_size := 1\<rparr> in
        if s + 1 = 512 \<or> \<not> pt_free (t (s + 1)) then Inr b
        else kassert (pt_type (t (s + 1)) = PREV)
         (let b = b\<lparr>b_prev := pt_data (t (s + 1)), b_prev_valid := pt_valid (t (s + 1)), b_size := 2\<rparr>
          in if s + 2 = 512 \<or> \<not> pt_free (t (s + 2)) then Inr b
             else kassert (pt_type (t (s + 2)) = SIZE \<and> pt_valid (t (s + 2)))
              (let n = pt_data (t (s + 2)) + 1 in
               kassert (2 < n) (kassert (get_off_ok t s n) (Inr (b\<lparr>b_size := n\<rparr>))))))))"

fun put_offs :: "ptable \<Rightarrow> nat \<Rightarrow> nat \<Rightarrow> nat \<Rightarrow> ptable res" where
  "put_offs t s i 0 = Inr t"
| "put_offs t s i (Suc k) =
     kassert (s + i < 512) (kassert (pt_free (t (s + i)))
       (put_offs (t(s + i := (t (s + i))\<lparr>pt_type := OFF, pt_valid := True, pt_data := i mod 512\<rparr>))
          s (i + 1) k))"

definition BLOCK_put :: "blk \<Rightarrow> ptable \<Rightarrow> ptable res" where
  "BLOCK_put b t =
     (let s = b_self b; n = b_size b in
      kassert (n \<noteq> 0) (kassert (pt_free (t s))
       (let t = t(s := (t s)\<lparr>pt_type := NEXT, pt_data := b_next b mod 512, pt_valid := b_next_valid b\<rparr>) in
        if n = 1 then Inr t
        else kassert (s + 1 < 512) (kassert (pt_free (t (s + 1)))
         (let t = t(s + 1 := (t (s + 1))\<lparr>pt_type := PREV, pt_data := b_prev b mod 512,
                                        pt_valid := b_prev_valid b\<rparr>) in
          if n = 2 then Inr t
          else kassert (s + 2 < 512) (kassert (pt_free (t (s + 2)))
           (let t = t(s + 2 := (t (s + 2))\<lparr>pt_type := SIZE, pt_data := (n - 1) mod 512,
                                          pt_valid := True\<rparr>) in
            rbind (put_offs t s 3 (n - 3)) (\<lambda>t.
              kassert (s + n = 512 \<or> \<not> pt_free (t (s + n))) (Inr t)))))))))"

section \<open>The size hint of the page directory entry\<close>

definition get_max_size :: "pdte \<Rightarrow> nat" where
  "get_max_size pdt =
     (let remain = pd_remain pdt in
      if remain < 8 then (if remain \<noteq> 0 then 2 ^ (remain - 1) else 0)
      else 64 + 56 * (remain - 7))"

fun bit_count :: "nat \<Rightarrow> nat" where
  "bit_count n = (if n = 0 then 0 else Suc (bit_count (n div 2)))"

declare bit_count.simps [simp del]

definition max_size_code :: "nat \<Rightarrow> nat" where
  "max_size_code m = (if m \<ge> 64 + 56 then 7 + (m - 64) div 56 else bit_count m) mod 16"

definition put_max_size :: "pdte \<Rightarrow> nat \<Rightarrow> pdte" where
  "put_max_size pdt m = pdt\<lparr>pd_remain := max_size_code m\<rparr>"

section \<open>The list operations\<close>

fun resolve_loop :: "nat \<Rightarrow> ptable \<Rightarrow> blk \<Rightarrow> blk \<Rightarrow> blk res" where
  "resolve_loop 0 t block pb = Inl OutOfFuel"
| "resolve_loop (Suc fuel) t block pb =
     rbind (BLOCK_get pb t (b_next pb)) (\<lambda>pb.
      kassert (b_size pb = 1)
       (if b_next_valid pb \<and> b_next pb = b_self block
        then Inr (block\<lparr>b_prev := b_self pb, b_prev_valid := True\<rparr>)
        else if b_next_valid pb then resolve_loop fuel t block pb
        else bugcheck ''virtual_space::resolve_prior failed''))"

definition resolve_prior :: "pdte \<Rightarrow> ptable \<Rightarrow> blk \<Rightarrow> blk res" where
  "resolve_prior pdt t block =
     kassert (b_size block \<noteq> 0) (kassert (get_max_size pdt \<noteq> 0)
      (if pd_head pdt = b_self block then kassert (\<not> b_prev_valid block) (Inr block)
       else if 1 < b_size block then kassert (b_prev_valid block) (Inr block)
       else resolve_loop 512 t block (blk_uninit\<lparr>b_next := pd_head pdt\<rparr>)))"

definition blk_erase :: "pdte \<Rightarrow> ptable \<Rightarrow> blk \<Rightarrow> (pdte \<times> ptable) res" where
  "blk_erase pdt t block =
     rbind
      (if b_prev_valid block then
         rbind (BLOCK_get blk_uninit t (b_prev block)) (\<lambda>pb.
          kassert (b_next_valid pb \<and> b_next pb = b_self block)
           (rbind (BLOCK_put (pb\<lparr>b_next := b_next block, b_next_valid := b_next_valid block\<rparr>) t)
             (\<lambda>t. Inr (pdt, t, b_size pb))))
       else kassert (pd_head pdt = b_self block)
              (Inr (pdt\<lparr>pd_head := b_next block mod 512\<rparr>, t, 0)))
      (\<lambda>(pdt, t, max_size).
       if b_next_valid block then
         rbind (BLOCK_get blk_uninit t (b_next block)) (\<lambda>nb.
          rbind
           (if 1 < b_size nb then
              kassert (b_prev_valid nb \<and> b_prev nb = b_self block)
               (BLOCK_put (nb\<lparr>b_prev := b_prev block, b_prev_valid := b_prev_valid block\<rparr>) t)
            else Inr t)
           (\<lambda>t. Inr (put_max_size pdt (max (b_size nb) (get_max_size pdt)), t)))
       else Inr (put_max_size pdt max_size, t))"

fun shift_left :: "nat \<Rightarrow> ptable \<Rightarrow> blk \<Rightarrow> blk \<Rightarrow> blk \<Rightarrow> (blk \<times> blk) res" where
  "shift_left 0 t block pb nb = Inl OutOfFuel"
| "shift_left (Suc fuel) t block pb nb =
     kassert (b_size pb \<noteq> 0 \<and> b_size nb \<noteq> 0 \<longrightarrow> b_size pb \<le> b_size nb)
      (if b_size pb \<noteq> 0 \<and> b_size block < b_size pb then
         (if \<not> b_prev_valid pb then Inr (pb\<lparr>b_size := 0\<rparr>, pb)
          else rbind (BLOCK_get pb t (b_prev pb)) (\<lambda>pb'. shift_left fuel t block pb' pb))
       else Inr (pb, nb))"

fun shift_right :: "nat \<Rightarrow> ptable \<Rightarrow> blk \<Rightarrow> blk \<Rightarrow> blk \<Rightarrow> (blk \<times> blk) res" where
  "shift_right 0 t block pb nb = Inl OutOfFuel"
| "shift_right (Suc fuel) t block pb nb =
     kassert (b_size pb \<noteq> 0 \<and> b_size nb \<noteq> 0 \<longrightarrow> b_size pb \<le> b_size nb)
      (if b_size nb \<noteq> 0 \<and> b_size nb < b_size block then
         (if \<not> b_next_valid nb then Inr (nb, nb\<lparr>b_size := 0\<rparr>)
          else rbind (BLOCK_get nb t (b_next nb)) (\<lambda>nb'. shift_right fuel t block nb nb'))
       else Inr (pb, nb))"

definition insert_place :: "pdte \<Rightarrow> ptable \<Rightarrow> blk \<Rightarrow> (blk \<times> blk \<times> blk) res" where
  "insert_place pdt t block0 =
     (let block = (if \<not> b_prev_valid block0 \<and> \<not> b_next_valid block0 \<and> get_max_size pdt \<noteq> 0
                   then block0\<lparr>b_next := pd_head pdt, b_next_valid := True\<rparr> else block0) in
      rbind (if b_prev_valid block then BLOCK_get blk_uninit t (b_prev block)
             else Inr (blk_uninit\<lparr>b_size := 0\<rparr>)) (\<lambda>pb.
      rbind (if b_next_valid block then BLOCK_get blk_uninit t (b_next block)
             else Inr (blk_uninit\<lparr>b_size := 0\<rparr>)) (\<lambda>nb.
      rbind (if b_size pb \<noteq> 0 \<and> b_size block < b_size pb
             then shift_left 513 t block pb nb else shift_right 513 t block pb nb) (\<lambda>(pb, nb).
      Inr (block, pb, nb)))))"

definition insert_link :: "pdte \<Rightarrow> ptable \<Rightarrow> blk \<Rightarrow> blk \<Rightarrow> blk \<Rightarrow> (pdte \<times> ptable) res" where
  "insert_link pdt t block pb nb =
     rbind
      (if b_size nb \<noteq> 0 then
         kassert (b_size block \<le> b_size nb)
          (rbind (BLOCK_put (nb\<lparr>b_prev := b_self block, b_prev_valid := True\<rparr>) t) (\<lambda>t.
            Inr (pdt, t, block\<lparr>b_next := b_self nb, b_next_valid := True\<rparr>)))
       else Inr (put_max_size pdt (b_size block), t, block\<lparr>b_next_valid := False\<rparr>))
      (\<lambda>(pdt, t, block).
       if b_size pb \<noteq> 0 then
         kassert (b_size pb \<le> b_size block)
          (rbind (BLOCK_put (pb\<lparr>b_next := b_self block, b_next_valid := True\<rparr>) t) (\<lambda>t.
           rbind (BLOCK_put (block\<lparr>b_prev := b_self pb, b_prev_valid := True\<rparr>) t) (\<lambda>t.
            Inr (pdt, t))))
       else kassert (b_size nb = 0 \<or> pd_head pdt = b_self nb)
          (rbind (BLOCK_put (block\<lparr>b_prev_valid := False\<rparr>) t) (\<lambda>t.
            Inr (pdt\<lparr>pd_head := b_self block mod 512\<rparr>, t))))"

definition blk_insert :: "pdte \<Rightarrow> ptable \<Rightarrow> blk \<Rightarrow> (pdte \<times> ptable) res" where
  "blk_insert pdt t block =
     (if b_size block = 0 then Inr (pdt, t)
      else rbind (insert_place pdt t block) (\<lambda>(block, pb, nb). insert_link pdt t block pb nb))"

section \<open>Reserving pages of one table\<close>

fun preserve_pages :: "ptable \<Rightarrow> nat \<Rightarrow> nat \<Rightarrow> ptable res" where
  "preserve_pages t i 0 = Inr t"
| "preserve_pages t i (Suc k) =
     kassert (pt_free (t i)) (preserve_pages (t(i := (t i)\<lparr>pt_preserve := True\<rparr>)) (i + 1) k)"

fun reserve_any_loop :: "nat \<Rightarrow> pdte \<Rightarrow> ptable \<Rightarrow> nat \<Rightarrow> nat \<Rightarrow> blk \<Rightarrow> nat \<Rightarrow> (nat \<times> pdte \<times> ptable) res" where
  "reserve_any_loop 0 pdt t base count block cur = Inl OutOfFuel"
| "reserve_any_loop (Suc fuel) pdt t base count block cur =
     rbind (BLOCK_get block t cur) (\<lambda>block.
      kassert (b_self block = cur)
       (if count \<le> b_size block then
          rbind (resolve_prior pdt t block) (\<lambda>block.
          rbind (blk_erase pdt t block) (\<lambda>(pdt, t).
          let allocated = b_self block + b_size block - count in
          kassert (allocated + count \<le> 512)
           (rbind (preserve_pages t allocated count) (\<lambda>t.
            rbind (blk_insert pdt t (block\<lparr>b_size := b_size block - count\<rparr>)) (\<lambda>(pdt, t).
            Inr (base + allocated * 4096, pdt, t))))))
        else if b_next_valid block then reserve_any_loop fuel pdt t base count block (b_next block)
        else bugcheck ''virtual_space corrupted''))"

definition imp_reserve_any :: "pdte \<Rightarrow> ptable \<Rightarrow> nat \<Rightarrow> nat \<Rightarrow> (nat \<times> pdte \<times> ptable) res" where
  "imp_reserve_any pdt t base count =
     kassert (count \<noteq> 0) (kassert (pd_present pdt \<and> \<not> pd_bypass pdt)
      (if get_max_size pdt < count then Inr (0, pdt, t)
       else reserve_any_loop 512 pdt t base count blk_uninit (pd_head pdt)))"

definition imp_reserve_fixed :: "pdte \<Rightarrow> ptable \<Rightarrow> nat \<Rightarrow> nat \<Rightarrow> (bool \<times> pdte \<times> ptable) res" where
  "imp_reserve_fixed pdt t index count =
     kassert (count \<noteq> 0 \<and> index + count \<le> 512)
      (kassert (pd_present pdt \<and> \<not> pd_bypass pdt \<and> 0 < get_max_size pdt)
       (if \<not> pt_free (t index) then Inr (False, pdt, t)
        else rbind (BLOCK_get blk_uninit t index) (\<lambda>b0.
         kassert (b_self b0 \<le> index)
          (if b_self b0 + b_size b0 < index + count then Inr (False, pdt, t)
           else
            rbind (resolve_prior pdt t b0) (\<lambda>b0.
            rbind (blk_erase pdt t b0) (\<lambda>(pdt, t).
            rbind (preserve_pages t index count) (\<lambda>t.
            let left_self = b_self b0; left_size = index - b_self b0;
                right_self = index + count; right_size = b_size b0 + b_self b0 - (index + count);
                swapped = left_size < right_size;
                c0 = b0\<lparr>b_self := if swapped then right_self else left_self,
                        b_size := if swapped then right_size else left_size\<rparr>;
                c1 = blk_uninit\<lparr>b_self := if swapped then left_self else right_self,
                                b_size := if swapped then left_size else right_size,
                                b_prev_valid := False, b_next_valid := False\<rparr>
            in rbind (blk_insert pdt t c0) (\<lambda>(pdt, t).
               rbind (blk_insert pdt t c1) (\<lambda>(pdt, t). Inr (True, pdt, t))))))))))"

end
