(* ===== verification/Page_Block_Inv.thy ===== *)
theory Page_Block_Inv
  imports Page_Block
begin

text \<open>
  Correctness of the page-table free list of \<open>Page_Block\<close>. The abstraction of a table is the list
  of its blocks, as pairs of start index and length, in list order. \<open>fl_inv\<close> relates a page
  directory entry and a table to such a list; every operation is shown to succeed (no assertion
  fails, no loop runs out of fuel) and to act on the list as its name says.
\<close>

section \<open>Runs and encodings\<close>

definition run :: "ptable \<Rightarrow> nat \<Rightarrow> nat \<Rightarrow> bool" where
  "run t s n \<longleftrightarrow> 0 < n \<and> s + n \<le> 512 \<and> (\<forall>i. s \<le> i \<and> i < s + n \<longrightarrow> pt_free (t i)) \<and>
     (s + n < 512 \<longrightarrow> \<not> pt_free (t (s + n))) \<and> (0 < s \<longrightarrow> \<not> pt_free (t (s - 1)))"

definition blk_enc :: "ptable \<Rightarrow> nat \<Rightarrow> nat \<Rightarrow> nat option \<Rightarrow> nat option \<Rightarrow> bool" where
  "blk_enc t s n nx px \<longleftrightarrow>
     pt_type (t s) = NEXT \<and> pt_valid (t s) = (nx \<noteq> None) \<and> (\<forall>x. nx = Some x \<longrightarrow> pt_data (t s) = x) \<and>
     (1 < n \<longrightarrow> pt_type (t (s + 1)) = PREV \<and> pt_valid (t (s + 1)) = (px \<noteq> None) \<and>
        (\<forall>x. px = Some x \<longrightarrow> pt_data (t (s + 1)) = x)) \<and>
     (2 < n \<longrightarrow> pt_type (t (s + 2)) = SIZE \<and> pt_valid (t (s + 2)) \<and> pt_data (t (s + 2)) = n - 1) \<and>
     (\<forall>i. 3 \<le> i \<and> i < n \<longrightarrow> pt_type (t (s + i)) = OFF \<and> pt_valid (t (s + i)) \<and> pt_data (t (s + i)) = i)"

definition rep :: "blk \<Rightarrow> nat \<Rightarrow> nat \<Rightarrow> nat option \<Rightarrow> nat option \<Rightarrow> bool" where
  "rep b s n nx px \<longleftrightarrow> b_self b = s \<and> b_size b = n \<and>
     b_next_valid b = (nx \<noteq> None) \<and> (\<forall>x. nx = Some x \<longrightarrow> b_next b = x) \<and>
     b_prev_valid b = (px \<noteq> None) \<and> (\<forall>x. px = Some x \<longrightarrow> b_prev b = x)"

definition enc_entry :: "blk \<Rightarrow> nat \<Rightarrow> pte \<Rightarrow> pte" where
  "enc_entry b k p =
     (if k = 0 then p\<lparr>pt_type := NEXT, pt_data := b_next b mod 512, pt_valid := b_next_valid b\<rparr>
      else if k = 1 then p\<lparr>pt_type := PREV, pt_data := b_prev b mod 512, pt_valid := b_prev_valid b\<rparr>
      else if k = 2 then p\<lparr>pt_type := SIZE, pt_data := (b_size b - 1) mod 512, pt_valid := True\<rparr>
      else p\<lparr>pt_type := OFF, pt_valid := True, pt_data := k mod 512\<rparr>)"

definition put_tbl :: "blk \<Rightarrow> ptable \<Rightarrow> ptable" where
  "put_tbl b t = (\<lambda>i. if b_self b \<le> i \<and> i < b_self b + b_size b
     then enc_entry b (i - b_self b) (t i) else t i)"

text \<open>The link fields are invisible to everything but the list operations.\<close>

definition skel :: "pte \<Rightarrow> pte" where
  "skel p = p\<lparr>pt_type := OFF, pt_valid := False, pt_data := 0\<rparr>"

definition same_skel :: "ptable \<Rightarrow> ptable \<Rightarrow> bool" where
  "same_skel t t' \<longleftrightarrow> (\<forall>i. skel (t' i) = skel (t i))"

lemma skel_fields:
  "skel p = skel q \<Longrightarrow> pt_present p = pt_present q \<and> pt_preserve p = pt_preserve q \<and>
     pt_page_addr p = pt_page_addr q \<and> pt_bypass p = pt_bypass q \<and> pt_user p = pt_user q \<and>
     pt_write p = pt_write q"
  by (cases p; cases q) (simp add: skel_def)

lemma skel_free: "skel p = skel q \<Longrightarrow> pt_free p = pt_free q"
  using skel_fields [of p q] by (simp add: pt_free_def)

lemma same_skel_refl [simp]: "same_skel t t"
  by (simp add: same_skel_def)

lemma same_skel_trans [trans]: "same_skel a b \<Longrightarrow> same_skel b c \<Longrightarrow> same_skel a c"
  by (simp add: same_skel_def)

lemma same_skel_free: "same_skel t t' \<Longrightarrow> pt_free (t' i) = pt_free (t i)"
  by (auto simp: same_skel_def dest: skel_free)

lemma same_skel_run: "same_skel t t' \<Longrightarrow> run t' s n = run t s n"
  by (simp add: run_def same_skel_free)

lemma enc_entry_skel [simp]: "skel (enc_entry b k p) = skel p"
  by (simp add: skel_def enc_entry_def)

lemma put_tbl_skel [simp]: "same_skel t (put_tbl b t)"
  by (simp add: same_skel_def put_tbl_def)

lemma runD:
  "run t s n \<Longrightarrow> 0 < n" "run t s n \<Longrightarrow> s + n \<le> 512" "run t s n \<Longrightarrow> s \<le> i \<Longrightarrow> i < s + n \<Longrightarrow> pt_free (t i)"
  "run t s n \<Longrightarrow> s + n = 512 \<or> \<not> pt_free (t (s + n))"
  by (auto simp: run_def)

lemma run_start_less: "run t s n \<Longrightarrow> s < 512"
  by (auto simp: run_def)

lemma run_disjoint:
  assumes "run t s n" "run t s' n'" "s \<noteq> s'" "s \<le> i" "i < s + n"
  shows "\<not> (s' \<le> i \<and> i < s' + n')"
proof
  assume i: "s' \<le> i \<and> i < s' + n'"
  consider "s < s'" | "s' < s" using assms(3) by linarith
  then show False
  proof cases
    case 1
    then have "pt_free (t (s' - 1))" using assms i by (intro runD(3) [OF assms(1)]) auto
    then show False using assms(2) 1 by (auto simp: run_def)
  next
    case 2
    then have "pt_free (t (s - 1))" using assms i by (intro runD(3) [OF assms(2)]) auto
    then show False using assms(1) 2 by (auto simp: run_def)
  qed
qed

lemma run_unique:
  assumes "run t s n" "run t s n'"
  shows "n = n'"
proof (rule ccontr)
  assume "n \<noteq> n'"
  then consider "n < n'" | "n' < n" by linarith
  then show False
  proof cases
    case 1
    then have "pt_free (t (s + n))" using runD(3) [OF assms(2)] by simp
    then show False using assms(1) runD(2) [OF assms(2)] 1 by (auto simp: run_def)
  next
    case 2
    then have "pt_free (t (s + n'))" using runD(3) [OF assms(1)] by simp
    then show False using assms(2) runD(2) [OF assms(1)] 2 by (auto simp: run_def)
  qed
qed

section \<open>\<open>BLOCK::put\<close> and \<open>BLOCK::get\<close>\<close>

lemma put_offs_closed:
  assumes "\<And>j. i \<le> j \<Longrightarrow> j < i + k \<Longrightarrow> s + j < 512 \<and> pt_free (t (s + j))"
  shows "put_offs t s i k = Inr (\<lambda>x. if s + i \<le> x \<and> x < s + i + k
     then (t x)\<lparr>pt_type := OFF, pt_valid := True, pt_data := (x - s) mod 512\<rparr> else t x)"
  using assms
proof (induction k arbitrary: i t)
  case (Suc k)
  let ?t = "t(s + i := (t (s + i))\<lparr>pt_type := OFF, pt_valid := True, pt_data := i mod 512\<rparr>)"
  have "\<And>j. i + 1 \<le> j \<Longrightarrow> j < i + 1 + k \<Longrightarrow> s + j < 512 \<and> pt_free (?t (s + j))"
    using Suc.prems by auto
  note IH = Suc.IH [of "i + 1" ?t, OF this]
  have "(\<lambda>x. if s + (i + 1) \<le> x \<and> x < s + (i + 1) + k
      then (?t x)\<lparr>pt_type := OFF, pt_valid := True, pt_data := (x - s) mod 512\<rparr> else ?t x) =
    (\<lambda>x. if s + i \<le> x \<and> x < s + i + Suc k
      then (t x)\<lparr>pt_type := OFF, pt_valid := True, pt_data := (x - s) mod 512\<rparr> else t x)" (is "?L = ?R")
  proof (rule ext)
    fix x show "?L x = ?R x"
      by (cases "x = s + i") auto
  qed
  with IH Suc.prems [of i] show ?case by (simp del: fun_upd_apply)
qed (auto simp: fun_eq_iff)

lemma put_tbl_cases:
  assumes "0 < b_size b"
  shows "put_tbl b t x =
    (if x = b_self b then (t x)\<lparr>pt_type := NEXT, pt_data := b_next b mod 512, pt_valid := b_next_valid b\<rparr>
     else if x = b_self b + 1 \<and> 1 < b_size b
     then (t x)\<lparr>pt_type := PREV, pt_data := b_prev b mod 512, pt_valid := b_prev_valid b\<rparr>
     else if x = b_self b + 2 \<and> 2 < b_size b
     then (t x)\<lparr>pt_type := SIZE, pt_data := (b_size b - 1) mod 512, pt_valid := True\<rparr>
     else if b_self b + 3 \<le> x \<and> x < b_self b + b_size b
     then (t x)\<lparr>pt_type := OFF, pt_valid := True, pt_data := (x - b_self b) mod 512\<rparr>
     else t x)"
proof -
  consider "x < b_self b" | "x = b_self b" | "x = b_self b + 1" | "x = b_self b + 2" | "b_self b + 3 \<le> x"
    by linarith
  then show ?thesis using assms by cases (simp_all add: put_tbl_def enc_entry_def)
qed

lemma BLOCK_put_closed:
  assumes "run t (b_self b) (b_size b)"
  shows "BLOCK_put b t = Inr (put_tbl b t)"
proof -
  let ?s = "b_self b" and ?n = "b_size b"
  note r = assms
  have n: "0 < ?n" "?s + ?n \<le> 512" using runD(1,2) [OF r] by auto
  have fr: "pt_free (t (?s + j))" if "j < ?n" for j using runD(3) [OF r] that by simp
  let ?t1 = "t(?s := (t ?s)\<lparr>pt_type := NEXT, pt_data := b_next b mod 512, pt_valid := b_next_valid b\<rparr>)"
  let ?t2 = "?t1(?s + 1 := (?t1 (?s + 1))\<lparr>pt_type := PREV, pt_data := b_prev b mod 512, pt_valid := b_prev_valid b\<rparr>)"
  let ?t3 = "?t2(?s + 2 := (?t2 (?s + 2))\<lparr>pt_type := SIZE, pt_data := (?n - 1) mod 512, pt_valid := True\<rparr>)"
  consider "?n = 1" | "?n = 2" | "2 < ?n" using n by linarith
  then show ?thesis
  proof cases
    case 1
    then have "put_tbl b t = ?t1" by (simp add: fun_eq_iff put_tbl_cases)
    then show ?thesis using 1 fr [of 0] by (simp add: BLOCK_put_def Let_def kassert_def)
  next
    case 2
    then have "put_tbl b t = ?t2" by (simp add: fun_eq_iff put_tbl_cases)
    then show ?thesis using 2 n fr [of 0] fr [of 1] by (simp add: BLOCK_put_def Let_def kassert_def)
  next
    case 3
    have "put_offs ?t3 ?s 3 (?n - 3) = Inr (\<lambda>x. if ?s + 3 \<le> x \<and> x < ?s + 3 + (?n - 3)
       then (?t3 x)\<lparr>pt_type := OFF, pt_valid := True, pt_data := (x - ?s) mod 512\<rparr> else ?t3 x)"
      by (rule put_offs_closed) (use n fr in auto)
    also have "(\<lambda>x. if ?s + 3 \<le> x \<and> x < ?s + 3 + (?n - 3)
       then (?t3 x)\<lparr>pt_type := OFF, pt_valid := True, pt_data := (x - ?s) mod 512\<rparr> else ?t3 x) = put_tbl b t"
      using 3 by (simp add: fun_eq_iff put_tbl_cases)
    finally have po: "put_offs ?t3 ?s 3 (?n - 3) = Inr (put_tbl b t)" .
    have "put_tbl b t (?s + ?n) = t (?s + ?n)" by (simp add: put_tbl_def)
    with po 3 n fr [of 0] fr [of 1] fr [of 2] runD(4) [OF r] show ?thesis
      by (simp add: BLOCK_put_def Let_def kassert_def)
  qed
qed

lemma put_tbl_enc:
  assumes "run t s n" "rep b s n nx px"
    and "\<And>x. nx = Some x \<Longrightarrow> x < 512" "\<And>x. px = Some x \<Longrightarrow> x < 512"
  shows "blk_enc (put_tbl b t) s n nx px"
  using assms runD(1,2) [OF assms(1)]
  by (auto simp: blk_enc_def put_tbl_def enc_entry_def rep_def)

lemma blk_enc_cong:
  assumes "\<And>i. s \<le> i \<Longrightarrow> i < s + n \<Longrightarrow> t' i = t i" "0 < n"
  shows "blk_enc t' s n nx px = blk_enc t s n nx px"
  using assms by (simp add: blk_enc_def)

lemma put_tbl_enc_other:
  assumes "run t s n" "run t s' n'" "s \<noteq> s'" "b_self b = s" "b_size b = n"
  shows "blk_enc (put_tbl b t) s' n' nx px = blk_enc t s' n' nx px"
  using run_disjoint [OF assms(1-3)] runD(1) [OF assms(2)] assms(4,5)
  by (intro blk_enc_cong) (auto simp: put_tbl_def)

lemma get_start_run:
  assumes r: "run t s n" and e: "blk_enc t s n nx px" and k: "k < n" "k = 2 \<longrightarrow> n = 4"
  shows "get_start t (s + k) = Inr s"
proof -
  have fr: "pt_free (t (s + k))" using runD(3) [OF r] k by simp
  consider "k = 0" | "k = 1" | "k = 2" | "3 \<le> k" by linarith
  then show ?thesis
  proof cases
    case 1 then show ?thesis using e fr by (simp add: get_start_def blk_enc_def)
  next
    case 2 then show ?thesis using e fr k by (simp add: get_start_def blk_enc_def)
  next
    case 3 then show ?thesis using e fr k by (simp add: get_start_def blk_enc_def)
  next
    case 4
    then have "pt_type (t (s + k)) = OFF" "pt_valid (t (s + k))" "pt_data (t (s + k)) = k"
      using e k by (auto simp: blk_enc_def)
    then show ?thesis using fr 4 by (simp add: get_start_def)
  qed
qed

lemma BLOCK_get_run:
  assumes r: "run t s n" and e: "blk_enc t s n nx px" and k: "k < n" "k = 2 \<longrightarrow> n = 4"
  shows "\<exists>b. BLOCK_get old t (s + k) = Inr b \<and> rep b s n nx (if 1 < n then px else None)"
proof -
  have n: "0 < n" "s + n \<le> 512" using runD(1,2) [OF r] by auto
  have fr: "pt_free (t (s + j))" if "j < n" for j using runD(3) [OF r] that by simp
  have edge: "s + n = 512 \<or> \<not> pt_free (t (s + n))" using runD(4) [OF r] .
  have offs: "get_off_ok t s n" if "2 < n"
    using e fr n that by (auto simp: get_off_ok_def blk_enc_def)
  consider "n = 1" | "n = 2" | "2 < n" using n by linarith
  then show ?thesis
  proof cases
    case 1
    then show ?thesis using edge fr [of 0] e
      by (auto simp: BLOCK_get_def get_start_run [OF r e k] Let_def kassert_def blk_enc_def rep_def)
  next
    case 2
    then show ?thesis using edge fr [of 0] fr [of 1] e n
      by (auto simp: BLOCK_get_def get_start_run [OF r e k] Let_def kassert_def blk_enc_def rep_def)
  next
    case 3
    then show ?thesis using offs fr [of 0] fr [of 1] fr [of 2] e n
      by (auto simp: BLOCK_get_def get_start_run [OF r e k] Let_def kassert_def blk_enc_def rep_def)
  qed
qed

lemmas BLOCK_get_first = BLOCK_get_run [where k = 0, simplified]

section \<open>The size hint\<close>

definition size_of_code :: "nat \<Rightarrow> nat" where
  "size_of_code c = (if c < 8 then (if c \<noteq> 0 then 2 ^ (c - 1) else 0) else 64 + 56 * (c - 7))"

lemma get_max_size_code: "get_max_size pdt = size_of_code (pd_remain pdt)"
  by (simp add: get_max_size_def size_of_code_def Let_def)

lemma get_put_max_size [simp]: "get_max_size (put_max_size pdt m) = size_of_code (max_size_code m)"
  by (simp add: get_max_size_code put_max_size_def)

lemma bit_count_0 [simp]: "bit_count 0 = 0"
  by (simp add: bit_count.simps)

lemma bit_count_bounds: "0 < m \<Longrightarrow> 2 ^ (bit_count m - 1) \<le> m \<and> m < 2 ^ bit_count m \<and> 0 < bit_count m"
proof (induction m rule: bit_count.induct)
  case (1 m)
  show ?case
  proof (cases "m = 1")
    case True
    then show ?thesis by (simp add: bit_count.simps)
  next
    case False
    with "1.prems" have h: "0 < m div 2" by simp
    from "1.IH" [OF _ this] "1.prems"
    have IH: "2 ^ (bit_count (m div 2) - 1) \<le> m div 2" "m div 2 < 2 ^ bit_count (m div 2)"
      "0 < bit_count (m div 2)" by auto
    obtain c where c: "bit_count (m div 2) = Suc c" using IH(3) gr0_implies_Suc by blast
    have "bit_count m = Suc (Suc c)" using "1.prems" c by (subst bit_count.simps) simp
    with IH(1,2) c show ?thesis by auto
  qed
qed

lemma bit_count_unique:
  assumes "2 ^ k \<le> m" "m < 2 ^ Suc k"
  shows "bit_count m = Suc k"
proof -
  have "0 < m" using assms(1) by (metis le_zero_eq not_gr_zero power_eq_0_iff zero_neq_numeral)
  note b = bit_count_bounds [OF this]
  obtain c where c: "bit_count m = Suc c" using b gr0_implies_Suc by blast
  have "(2::nat) ^ c < 2 ^ Suc k" "(2::nat) ^ k < 2 ^ Suc c" using b assms c by auto
  then show ?thesis using c by (metis less_Suc_eq_le linorder_neqE_nat not_less_eq one_less_numeral_iff
        power_less_imp_less_exp semiring_norm(76))
qed

lemma bit_count_mono: "0 < m \<Longrightarrow> m \<le> n \<Longrightarrow> bit_count m \<le> bit_count n"
proof -
  assume "0 < m" "m \<le> n"
  with bit_count_bounds [of m] bit_count_bounds [of n]
  have "(2::nat) ^ (bit_count m - 1) < 2 ^ bit_count n" by linarith
  then have "bit_count m - 1 < bit_count n" by simp
  then show ?thesis by simp
qed

lemma bit_count_small: "m < 120 \<Longrightarrow> bit_count m \<le> 7"
proof (cases "m = 0")
  case False
  assume "m < 120"
  with False have "bit_count m \<le> bit_count 127" by (intro bit_count_mono) auto
  also have "bit_count 127 = Suc 6" by (rule bit_count_unique) simp_all
  finally show ?thesis by simp
qed simp

lemma max_size_code_small: "m < 120 \<Longrightarrow> max_size_code m = bit_count m"
  using bit_count_small [of m] by (simp add: max_size_code_def)

lemma max_size_code_big: "120 \<le> m \<Longrightarrow> m \<le> 512 \<Longrightarrow> max_size_code m = 7 + (m - 64) div 56"
  by (simp add: max_size_code_def)

lemma size_code:
  assumes "m \<le> 512"
  shows "size_of_code (max_size_code m) \<le> m"
    and "max_size_code (size_of_code (max_size_code m)) = max_size_code m"
    and "size_of_code (max_size_code m) = 0 \<longleftrightarrow> m = 0"
    and "size_of_code (max_size_code m) = 512 \<longleftrightarrow> m = 512"
proof -
  have "size_of_code (max_size_code m) \<le> m \<and>
    max_size_code (size_of_code (max_size_code m)) = max_size_code m \<and>
    (size_of_code (max_size_code m) = 0 \<longleftrightarrow> m = 0) \<and>
    (size_of_code (max_size_code m) = 512 \<longleftrightarrow> m = 512)"
  proof (cases "m < 120")
    case True
    then show ?thesis
    proof (cases "m = 0")
      case False
      note b = bit_count_bounds [of m] bit_count_small [OF True]
      obtain c where c: "bit_count m = Suc c" "c \<le> 6" using b False gr0_implies_Suc by fastforce
      have sz: "size_of_code (max_size_code m) = 2 ^ c"
        using c by (simp add: max_size_code_small [OF True] size_of_code_def)
      have le: "2 ^ c \<le> m" using b c False by auto
      then have "2 ^ c < (120::nat)" using True by linarith
      then have "max_size_code (2 ^ c) = Suc c"
        by (simp add: max_size_code_small bit_count_unique)
      then show ?thesis using sz le c True False by (simp add: max_size_code_small)
    qed (simp add: max_size_code_small size_of_code_def)
  next
    case False
    define q where "q = (m - 64) div 56"
    have q: "1 \<le> q" "q \<le> 8" "64 + 56 * q \<le> m" "m < 64 + 56 * q + 56"
      using False assms by (auto simp: q_def)
    have sz: "size_of_code (max_size_code m) = 64 + 56 * q"
      using False assms q by (simp add: max_size_code_big size_of_code_def q_def [symmetric])
    have "max_size_code (64 + 56 * q) = 7 + q"
      using q by (subst max_size_code_big) auto
    moreover have "max_size_code m = 7 + q"
      using False assms by (simp add: max_size_code_big q_def)
    ultimately show ?thesis using sz q False assms by auto
  qed
  then show "size_of_code (max_size_code m) \<le> m"
    and "max_size_code (size_of_code (max_size_code m)) = max_size_code m"
    and "size_of_code (max_size_code m) = 0 \<longleftrightarrow> m = 0"
    and "size_of_code (max_size_code m) = 512 \<longleftrightarrow> m = 512" by auto
qed

lemma max_size_code_mono:
  assumes "m \<le> n" "n \<le> 512"
  shows "max_size_code m \<le> max_size_code n"
proof (cases "n < 120")
  case True
  then show ?thesis using assms bit_count_mono [of m n]
    by (cases "m = 0") (simp_all add: max_size_code_small)
next
  case False
  show ?thesis
  proof (cases "m < 120")
    case True
    with False bit_count_small [of m] assms show ?thesis
      by (simp add: max_size_code_small max_size_code_big)
  next
    case False
    with assms show ?thesis by (simp add: max_size_code_big div_le_mono diff_le_mono)
  qed
qed

lemma max_size_code_keep:
  assumes "n \<le> m" "m \<le> 512"
  shows "max_size_code (max n (size_of_code (max_size_code m))) = max_size_code m"
proof (cases "n \<le> size_of_code (max_size_code m)")
  case True
  then show ?thesis using size_code(2) [OF assms(2)] by (simp add: max_def)
next
  case False
  then have "max_size_code m \<le> max_size_code n"
    using max_size_code_mono [of "size_of_code (max_size_code m)" n] size_code(2) [OF assms(2)] assms
    by simp
  with False max_size_code_mono [OF assms] show ?thesis by (simp add: max_def)
qed

section \<open>The list invariant\<close>

definition first :: "(nat \<times> nat) list \<Rightarrow> nat option \<Rightarrow> nat option" where
  "first bs nx = (case bs of [] \<Rightarrow> nx | b # _ \<Rightarrow> Some (fst b))"

definition lastb :: "(nat \<times> nat) list \<Rightarrow> nat option \<Rightarrow> nat option" where
  "lastb bs px = (if bs = [] then px else Some (fst (last bs)))"

fun list_enc :: "ptable \<Rightarrow> nat option \<Rightarrow> (nat \<times> nat) list \<Rightarrow> nat option \<Rightarrow> bool" where
  "list_enc t px [] nx = True"
| "list_enc t px ((s, n) # bs) nx = (blk_enc t s n (first bs nx) px \<and> list_enc t (Some s) bs nx)"

definition max_block :: "(nat \<times> nat) list \<Rightarrow> nat" where
  "max_block bs = (if bs = [] then 0 else snd (last bs))"

definition fl_inv :: "pdte \<Rightarrow> ptable \<Rightarrow> (nat \<times> nat) list \<Rightarrow> bool" where
  "fl_inv pdt t bs \<longleftrightarrow> (\<forall>(s, n)\<in>set bs. run t s n) \<and> distinct (map fst bs) \<and> sorted (map snd bs) \<and>
     list_enc t None bs None \<and> (bs \<noteq> [] \<longrightarrow> pd_head pdt = fst (hd bs)) \<and>
     pd_remain pdt = max_size_code (max_block bs)"

definition covers :: "ptable \<Rightarrow> (nat \<times> nat) list \<Rightarrow> bool" where
  "covers t bs \<longleftrightarrow> (\<forall>i<512. pt_free (t i) \<longrightarrow> (\<exists>(s, n)\<in>set bs. s \<le> i \<and> i < s + n))"

text \<open>The well-formedness of a table and its directory entry between calls: the check that
  \<open>check_integrity\<close> of the test build performs.\<close>

definition table_inv :: "pdte \<Rightarrow> ptable \<Rightarrow> (nat \<times> nat) list \<Rightarrow> bool" where
  "table_inv pdt t bs \<longleftrightarrow> fl_inv pdt t bs \<and> covers t bs"

lemma first_simps [simp]: "first [] nx = nx" "first (b # bs) nx = Some (fst b)"
  by (simp_all add: first_def)

lemma lastb_simps [simp]: "lastb [] px = px" "lastb (xs @ [b]) px = Some (fst b)"
  "lastb (b # bs) px = lastb bs (Some (fst b))"
  by (simp_all add: lastb_def)

lemma list_enc_append:
  "list_enc t px (xs @ ys) nx \<longleftrightarrow> list_enc t px xs (first ys nx) \<and> list_enc t (lastb xs px) ys nx"
proof (induction xs arbitrary: px)
  case (Cons b xs)
  have "first (xs @ ys) nx = first xs (first ys nx)"
    by (cases xs) simp_all
  with Cons show ?case by (cases b) auto
qed simp

lemma fl_inv_run: "fl_inv pdt t bs \<Longrightarrow> (s, n) \<in> set bs \<Longrightarrow> run t s n"
  by (auto simp: fl_inv_def)

lemma fl_inv_mid:
  assumes "fl_inv pdt t (xs @ (s, n) # ys)"
  shows "run t s n" "0 < n" "s < 512"
proof -
  show r: "run t s n" by (rule fl_inv_run [OF assms]) simp
  show "0 < n" "s < 512" using runD(1) [OF r] run_start_less [OF r] by auto
qed

lemma fl_inv_enc:
  "fl_inv pdt t (xs @ (s, n) # ys) \<Longrightarrow> blk_enc t s n (first ys None) (lastb xs None)"
  by (simp add: fl_inv_def list_enc_append)

lemma fl_inv_length:
  assumes "fl_inv pdt t bs"
  shows "length bs \<le> 512"
proof -
  have "set (map fst bs) \<subseteq> {..<512}"
    using assms fl_inv_run run_start_less by fastforce
  then have "card (set (map fst bs)) \<le> 512"
    using card_mono [of "{..<512}" "set (map fst bs)"] by simp
  moreover have "card (set (map fst bs)) = length bs"
    using assms distinct_card [of "map fst bs"] by (simp add: fl_inv_def)
  ultimately show ?thesis by simp
qed

lemma fl_inv_get:
  assumes "fl_inv pdt t (xs @ (s, n) # ys)" "k < n" "k = 2 \<longrightarrow> n = 4"
  shows "\<exists>b. BLOCK_get old t (s + k) = Inr b \<and>
     rep b s n (first ys None) (if 1 < n then lastb xs None else None)"
  by (rule BLOCK_get_run [OF fl_inv_run [OF assms(1)] fl_inv_enc [OF assms(1)] assms(2,3)]) simp

lemma fl_inv_get0:
  assumes "fl_inv pdt t (xs @ (s, n) # ys)"
  shows "\<exists>b. BLOCK_get old t s = Inr b \<and> rep b s n (first ys None) (if 1 < n then lastb xs None else None)"
proof -
  have "0 < n" using assms by (rule fl_inv_mid)
  from fl_inv_get [OF assms this] show ?thesis by simp
qed

lemma fl_inv_max: "fl_inv pdt t bs \<Longrightarrow> get_max_size pdt = size_of_code (max_size_code (max_block bs))"
  by (simp add: get_max_size_code fl_inv_def)

lemma max_block_le: "fl_inv pdt t bs \<Longrightarrow> max_block bs \<le> 512"
proof (cases "bs = []")
  case False
  assume "fl_inv pdt t bs"
  then have "run t (fst (last bs)) (snd (last bs))"
    using fl_inv_run [of pdt t bs "fst (last bs)" "snd (last bs)"] False by simp
  then show ?thesis using False runD(2) by (fastforce simp: max_block_def)
qed (simp add: max_block_def)

lemma max_block_pos: "fl_inv pdt t bs \<Longrightarrow> max_block bs = 0 \<longleftrightarrow> bs = []"
proof (cases "bs = []")
  case False
  assume "fl_inv pdt t bs"
  then have "run t (fst (last bs)) (snd (last bs))"
    using fl_inv_run [of pdt t bs "fst (last bs)" "snd (last bs)"] False by simp
  then show ?thesis using False runD(1) by (fastforce simp: max_block_def)
qed (simp add: max_block_def)

lemma get_max_zero: "fl_inv pdt t bs \<Longrightarrow> get_max_size pdt = 0 \<longleftrightarrow> bs = []"
  using size_code(3) [OF max_block_le] max_block_pos by (simp add: fl_inv_max)

lemma get_max_le: "fl_inv pdt t bs \<Longrightarrow> get_max_size pdt \<le> max_block bs"
  using size_code(1) [OF max_block_le] by (simp add: fl_inv_max)

lemma sorted_before:
  "fl_inv pdt t (xs @ (s, n) # ys) \<Longrightarrow> (s', n') \<in> set xs \<Longrightarrow> n' \<le> n"
  "fl_inv pdt t (xs @ (s, n) # ys) \<Longrightarrow> (s', n') \<in> set ys \<Longrightarrow> n \<le> n'"
  by (force simp: fl_inv_def sorted_append)+

section \<open>\<open>resolve_prior\<close>\<close>

lemma resolve_loop_ok:
  assumes inv: "fl_inv pdt t (us @ vs @ (s, 1) # ys)" and ne: "vs \<noteq> []"
    and pb: "b_next pb = fst (hd vs)" and block: "b_self block = s" and fuel: "length vs \<le> fuel"
  shows "resolve_loop fuel t block pb = Inr (block\<lparr>b_prev := fst (last vs), b_prev_valid := True\<rparr>)"
  using inv ne pb fuel
proof (induction vs arbitrary: us pb fuel)
  case (Cons v vs)
  obtain s1 n1 where v: "v = (s1, n1)" by (cases v)
  have inv1: "fl_inv pdt t (us @ (s1, n1) # (vs @ (s, 1) # ys))" using Cons.prems(1) v by simp
  have "run t s1 n1" using inv1 by (rule fl_inv_run) simp
  moreover have "n1 \<le> 1"
    using sorted_before(1) [of pdt t "us @ v # vs" s 1 ys s1 n1] Cons.prems(1) v by simp
  ultimately have n1: "n1 = 1" using runD(1) by fastforce
  from fl_inv_get0 [OF inv1] obtain b where b: "BLOCK_get pb t s1 = Inr b"
    and rb: "rep b s1 1 (first (vs @ (s, 1) # ys) None) None" using n1 by fastforce
  obtain fuel' where fuel': "fuel = Suc fuel'" "length vs \<le> fuel'"
    using Cons.prems(4) by (cases fuel) auto
  show ?case
  proof (cases "vs = []")
    case True
    then show ?thesis using b rb Cons.prems(3) v fuel' block
      by (auto simp: kassert_def rep_def)
  next
    case False
    have nx: "b_next b = fst (hd vs)" "b_next_valid b" using rb False
      by (cases vs; auto simp: rep_def)+
    have "fst (hd vs) \<noteq> s" using Cons.prems(1) False by (cases vs) (auto simp: fl_inv_def)
    moreover have "resolve_loop fuel' t block b = Inr (block\<lparr>b_prev := fst (last vs), b_prev_valid := True\<rparr>)"
      using Cons.IH [of "us @ [v]" b fuel'] Cons.prems(1) False nx fuel' by simp
    ultimately show ?thesis using b rb Cons.prems(3) v fuel' block nx False
      by (auto simp: kassert_def rep_def)
  qed
qed simp

lemma resolve_prior_ok:
  assumes inv: "fl_inv pdt t (xs @ (s, n) # ys)"
    and b: "rep b s n (first ys None) (if 1 < n then lastb xs None else None)"
  shows "\<exists>b'. resolve_prior pdt t b = Inr b' \<and> rep b' s n (first ys None) (lastb xs None)"
proof -
  have n: "0 < n" using inv by (rule fl_inv_mid)
  have mx: "get_max_size pdt \<noteq> 0" using get_max_zero [OF inv] by simp
  show ?thesis
  proof (cases "xs = []")
    case True
    then show ?thesis using inv b n mx
      by (auto simp: resolve_prior_def kassert_def fl_inv_def rep_def)
  next
    case False
    have hd: "pd_head pdt = fst (hd xs)" using inv False by (simp add: fl_inv_def)
    moreover have "fst (hd xs) \<noteq> s" using inv False by (cases xs) (auto simp: fl_inv_def)
    ultimately have ne: "pd_head pdt \<noteq> s" by simp
    show ?thesis
    proof (cases "1 < n")
      case True
      then show ?thesis using ne b n mx False
        by (auto simp: resolve_prior_def kassert_def rep_def lastb_def)
    next
      case n1: False
      with n have "n = 1" by simp
      with inv have inv1: "fl_inv pdt t ([] @ xs @ (s, 1) # ys)" by simp
      have len: "length xs \<le> 512" using fl_inv_length [OF inv] by simp
      have "resolve_loop 512 t b (blk_uninit\<lparr>b_next := pd_head pdt\<rparr>) =
        Inr (b\<lparr>b_prev := fst (last xs), b_prev_valid := True\<rparr>)"
        by (rule resolve_loop_ok [OF inv1 False]) (use hd b len in \<open>auto simp: rep_def\<close>)
      then show ?thesis using ne b n mx False \<open>n = 1\<close>
        by (auto simp: resolve_prior_def kassert_def rep_def lastb_def)
    qed
  qed
qed

section \<open>\<open>erase\<close>\<close>

definition pd_core :: "pdte \<Rightarrow> pdte" where
  "pd_core pdt = pdt\<lparr>pd_head := 0, pd_remain := 0\<rparr>"

lemma pd_core_simps [simp]:
  "pd_core (pdt\<lparr>pd_head := h\<rparr>) = pd_core pdt" "pd_core (put_max_size pdt m) = pd_core pdt"
  by (simp_all add: pd_core_def put_max_size_def)

lemma pd_core_fields:
  "pd_core p = pd_core q \<Longrightarrow> pd_present p = pd_present q \<and> pd_bypass p = pd_bypass q \<and>
     pd_pt_addr p = pd_pt_addr q"
  by (cases p; cases q) (simp add: pd_core_def)

lemma blk_enc_one: "blk_enc t s 1 nx px = blk_enc t s 1 nx px'"
  by (simp add: blk_enc_def)

lemma blk_enc_px: "blk_enc t s n nx (if 1 < n then px else None) \<Longrightarrow> 0 < n \<Longrightarrow> blk_enc t s n nx px"
  by (cases "n = 1") (auto simp: blk_enc_def)

lemma list_enc_put_other:
  assumes "run t (b_self b) (b_size b)" "\<forall>(s, n)\<in>set bs. run t s n" "b_self b \<notin> fst ` set bs"
  shows "list_enc (put_tbl b t) px bs nx = list_enc t px bs nx"
  using assms(2,3)
proof (induction bs arbitrary: px)
  case (Cons x bs)
  obtain s n where x: "x = (s, n)" by (cases x)
  have "blk_enc (put_tbl b t) s n nx' px' = blk_enc t s n nx' px'" for nx' px'
    by (rule put_tbl_enc_other [OF assms(1)]) (use Cons.prems x in auto)
  with Cons x show ?case by auto
qed simp

lemma first_less: "\<forall>(s, n)\<in>set bs. run t s n \<Longrightarrow> first bs None = Some x \<Longrightarrow> x < 512"
  by (cases bs) (auto dest: run_start_less)

lemma lastb_less: "\<forall>(s, n)\<in>set bs. run t s n \<Longrightarrow> lastb bs None = Some x \<Longrightarrow> x < 512"
  by (cases bs rule: rev_cases) (auto dest: run_start_less)

text \<open>Writing back the block before (after) a position with a new forward (backward) link.\<close>

lemma relink_next:
  assumes runs: "\<forall>(s, n)\<in>set (xs @ [(sp, np)]). run t s n" and dist: "sp \<notin> fst ` set xs"
    and enc: "list_enc t None (xs @ [(sp, np)]) nx0"
    and pb: "rep pb sp np nx (if 1 < np then lastb xs None else None)"
    and nx: "\<And>x. nx = Some x \<Longrightarrow> x < 512"
  shows "list_enc (put_tbl pb t) None (xs @ [(sp, np)]) nx"
proof -
  have r: "run t sp np" using runs by simp
  have pbr: "b_self pb = sp" "b_size pb = np" using pb by (auto simp: rep_def)
  have lx: "lastb xs None = Some x \<Longrightarrow> x < 512" for x
    using lastb_less [of xs t x] runs by auto
  have "blk_enc (put_tbl pb t) sp np nx (if 1 < np then lastb xs None else None)"
    by (rule put_tbl_enc [OF r pb nx]) (use lx in \<open>auto split: if_splits\<close>)
  then have "blk_enc (put_tbl pb t) sp np nx (lastb xs None)"
    using runD(1) [OF r] by (rule blk_enc_px)
  moreover have "list_enc (put_tbl pb t) None xs (Some sp)"
    using enc runs dist r pbr by (subst list_enc_put_other) (auto simp: list_enc_append)
  ultimately show ?thesis by (simp add: list_enc_append)
qed

lemma relink_prev:
  assumes runs: "\<forall>(s, n)\<in>set ((sn, nn) # ys). run t s n" and dist: "sn \<notin> fst ` set ys"
    and enc: "list_enc t px0 ((sn, nn) # ys) None"
    and nb: "rep nb sn nn (first ys None) px"
    and px: "\<And>x. px = Some x \<Longrightarrow> x < 512"
  shows "list_enc (put_tbl nb t) px ((sn, nn) # ys) None"
proof -
  have r: "run t sn nn" using runs by simp
  have nbr: "b_self nb = sn" "b_size nb = nn" using nb by (auto simp: rep_def)
  have "blk_enc (put_tbl nb t) sn nn (first ys None) px"
    by (rule put_tbl_enc [OF r nb _ px]) (use first_less [of ys t] runs in auto)
  moreover have "list_enc (put_tbl nb t) (Some sn) ys None"
    using enc runs dist r nbr by (subst list_enc_put_other) auto
  ultimately show ?thesis by simp
qed

lemma max_block_append: "max_block (xs @ ys) = (if ys = [] then max_block xs else max_block ys)"
  by (simp add: max_block_def)

lemma erase_ok:
  assumes inv: "fl_inv pdt t (xs @ (s, n) # ys)" and b: "rep b s n (first ys None) (lastb xs None)"
  shows "\<exists>pdt' t'. blk_erase pdt t b = Inr (pdt', t') \<and> fl_inv pdt' t' (xs @ ys) \<and> same_skel t t' \<and>
     pd_core pdt' = pd_core pdt"
proof -
  have runs: "\<forall>(s, n)\<in>set (xs @ (s, n) # ys). run t s n" and dist: "distinct (map fst (xs @ (s, n) # ys))"
    and enc: "list_enc t None (xs @ (s, n) # ys) None" and srt: "sorted (map snd (xs @ (s, n) # ys))"
    and head: "pd_head pdt = fst (hd (xs @ (s, n) # ys))"
    using inv by (auto simp: fl_inv_def)
  have nxl: "first ys None = Some x \<Longrightarrow> x < 512" for x using first_less [of ys t x] runs by auto
  have pxl: "lastb xs None = Some x \<Longrightarrow> x < 512" for x using lastb_less [of xs t x] runs by auto
  have ys_part: "list_enc t (Some s) ys None" using enc by (simp add: list_enc_append)
  define step1 where "step1 = (if b_prev_valid b then
         rbind (BLOCK_get blk_uninit t (b_prev b)) (\<lambda>pb.
          kassert (b_next_valid pb \<and> b_next pb = b_self b)
           (rbind (BLOCK_put (pb\<lparr>b_next := b_next b, b_next_valid := b_next_valid b\<rparr>) t)
             (\<lambda>t. Inr (pdt, t, b_size pb))))
       else kassert (pd_head pdt = b_self b)
              (Inr (pdt\<lparr>pd_head := b_next b mod 512\<rparr>, t, 0)))"
  have "\<exists>pdt1 t1. step1 = Inr (pdt1, t1, max_block xs) \<and> same_skel t t1 \<and>
     list_enc t1 None xs (first ys None) \<and> list_enc t1 (Some s) ys None \<and>
     pd_core pdt1 = pd_core pdt \<and> pd_remain pdt1 = pd_remain pdt \<and>
     (xs @ ys \<noteq> [] \<longrightarrow> pd_head pdt1 = fst (hd (xs @ ys)))"
  proof (cases xs rule: rev_cases)
    case Nil
    then show ?thesis using b head ys_part nxl
      by (cases ys) (auto simp: step1_def rep_def kassert_def max_block_def pd_core_def)
  next
    case (snoc xs' p)
    obtain sp np where p: "p = (sp, np)" by (cases p)
    have inv': "fl_inv pdt t (xs' @ (sp, np) # ((s, n) # ys))" using inv snoc p by simp
    from fl_inv_get0 [OF inv'] obtain pb where get: "BLOCK_get blk_uninit t sp = Inr pb"
      and pb: "rep pb sp np (Some s) (if 1 < np then lastb xs' None else None)" by auto
    let ?pb = "pb\<lparr>b_next := b_next b, b_next_valid := b_next_valid b\<rparr>"
    have pb': "rep ?pb sp np (first ys None) (if 1 < np then lastb xs' None else None)"
      using pb b by (simp add: rep_def)
    have run: "run t sp np" using inv' by (rule fl_inv_mid)
    then have put: "BLOCK_put ?pb t = Inr (put_tbl ?pb t)"
      using pb' by (intro BLOCK_put_closed) (simp add: rep_def)
    have e1: "list_enc (put_tbl ?pb t) None xs (first ys None)"
      unfolding snoc p
      by (rule relink_next [OF _ _ _ pb' nxl, of t "Some s"])
        (use runs dist enc snoc p in \<open>auto simp: list_enc_append\<close>)
    have "sp \<notin> fst ` set ys" using dist snoc p by auto
    then have e2: "list_enc (put_tbl ?pb t) (Some s) ys None"
      using ys_part runs run pb' by (subst list_enc_put_other) (auto simp: rep_def)
    have "step1 = Inr (pdt, put_tbl ?pb t, max_block xs)"
      using get put pb b snoc p
      by (simp add: step1_def rep_def kassert_def max_block_def)
    moreover have "pd_head pdt = fst (hd (xs @ ys))" using head snoc by (cases xs') auto
    ultimately show ?thesis using e1 e2 by (intro exI [of _ pdt] exI [of _ "put_tbl ?pb t"]) simp
  qed
  then obtain pdt1 t1 where s1: "step1 = Inr (pdt1, t1, max_block xs)" and sk1: "same_skel t t1"
    and e1: "list_enc t1 None xs (first ys None)" "list_enc t1 (Some s) ys None"
    and pd1: "pd_core pdt1 = pd_core pdt" "pd_remain pdt1 = pd_remain pdt"
      "xs @ ys \<noteq> [] \<longrightarrow> pd_head pdt1 = fst (hd (xs @ ys))" by blast
  have runs1: "\<forall>(s, n)\<in>set (xs @ ys). run t1 s n" using runs same_skel_run [OF sk1] by auto
  have rest: "distinct (map fst (xs @ ys))" "sorted (map snd (xs @ ys))"
    using dist srt by (auto simp: sorted_append)
  show ?thesis
  proof (cases ys)
    case Nil
    have "blk_erase pdt t b = Inr (put_max_size pdt1 (max_block xs), t1)"
      using s1 b Nil unfolding blk_erase_def step1_def [symmetric] by (simp add: rep_def)
    moreover have "fl_inv (put_max_size pdt1 (max_block xs)) t1 (xs @ ys)"
      using runs1 rest e1 pd1 Nil by (simp add: fl_inv_def put_max_size_def)
    ultimately show ?thesis using sk1 pd1 by auto
  next
    case (Cons q ys')
    obtain sn nn where q: "q = (sn, nn)" by (cases q)
    have rn: "run t1 sn nn" using runs1 Cons q by simp
    have "blk_enc t1 sn nn (first ys' None) (Some s)" using e1(2) Cons q by simp
    from BLOCK_get_first [OF rn this] runD(1) [OF rn] obtain nb where
      get: "BLOCK_get blk_uninit t1 sn = Inr nb"
      and nb: "rep nb sn nn (first ys' None) (if 1 < nn then Some s else None)" by auto
    let ?nb = "nb\<lparr>b_prev := b_prev b, b_prev_valid := b_prev_valid b\<rparr>"
    define t2 where "t2 = (if 1 < nn then put_tbl ?nb t1 else t1)"
    have nb': "rep ?nb sn nn (first ys' None) (lastb xs None)" using nb b by (simp add: rep_def)
    then have put: "BLOCK_put ?nb t1 = Inr (put_tbl ?nb t1)"
      using rn by (intro BLOCK_put_closed) (simp add: rep_def)
    have dn: "sn \<notin> fst ` set ys'" "sn \<notin> fst ` set xs" using dist Cons q by auto
    have e2: "list_enc t2 (lastb xs None) ys None"
    proof (cases "1 < nn")
      case True
      have "list_enc (put_tbl ?nb t1) (lastb xs None) ((sn, nn) # ys') None"
        by (rule relink_prev [OF _ dn(1) _ nb' pxl]) (use runs1 e1(2) Cons q in auto)
      then show ?thesis using True Cons q by (simp add: t2_def)
    next
      case False
      then have "nn = 1" using runD(1) [OF rn] by simp
      then show ?thesis using e1(2) Cons q blk_enc_one [of t1 sn] by (auto simp: t2_def)
    qed
    have "list_enc (put_tbl ?nb t1) None xs (first ys None) = list_enc t1 None xs (first ys None)"
      using runs1 rn dn nb' by (intro list_enc_put_other) (auto simp: rep_def)
    then have e1': "list_enc t2 None xs (first ys None)" using e1(1) by (simp add: t2_def)
    let ?pdt2 = "put_max_size pdt1 (max nn (get_max_size pdt1))"
    have eq: "blk_erase pdt t b = Inr (?pdt2, t2)"
      using s1 b Cons q get nb put unfolding blk_erase_def step1_def [symmetric]
      by (auto simp: rep_def kassert_def t2_def)
    have mb: "max_block (xs @ (s, n) # ys) = max_block ys" "max_block (xs @ ys) = max_block ys"
      using Cons by (simp_all add: max_block_append) (simp add: max_block_def)
    have "nn \<le> max_block ys" using srt Cons q by (auto simp: max_block_def sorted_append)
    then have "max_size_code (max nn (get_max_size pdt1)) = max_size_code (max_block ys)"
      using max_size_code_keep [of nn "max_block ys"] max_block_le [OF inv] inv pd1(2) mb
      by (simp add: get_max_size_code fl_inv_def)
    moreover have sk2: "same_skel t t2" using sk1 by (auto simp: t2_def intro: same_skel_trans)
    moreover have "\<forall>(s, n)\<in>set (xs @ ys). run t2 s n" using runs same_skel_run [OF sk2] by auto
    ultimately have "fl_inv ?pdt2 t2 (xs @ ys)"
      unfolding fl_inv_def using rest e1' e2 pd1(3) mb
      by (simp add: put_max_size_def list_enc_append)
    then show ?thesis using eq sk2 pd1(1) by auto
  qed
qed

section \<open>\<open>insert\<close>\<close>

definition at_pos :: "blk \<Rightarrow> blk \<Rightarrow> (nat \<times> nat) list \<Rightarrow> (nat \<times> nat) list \<Rightarrow> bool" where
  "at_pos pb nb xs ys \<longleftrightarrow>
     (if xs = [] then b_size pb = 0
      else rep pb (fst (last xs)) (snd (last xs)) (first ys None)
             (if 1 < snd (last xs) then lastb (butlast xs) None else None)) \<and>
     (if ys = [] then b_size nb = 0
      else rep nb (fst (hd ys)) (snd (hd ys)) (first (tl ys) None)
             (if 1 < snd (hd ys) then lastb xs None else None))"

lemma at_pos_sizes:
  assumes "at_pos pb nb xs ys" "fl_inv pdt t (xs @ ys)"
  shows "b_size pb = (if xs = [] then 0 else snd (last xs))" "b_size nb = (if ys = [] then 0 else snd (hd ys))"
    "b_size pb \<noteq> 0 \<longleftrightarrow> xs \<noteq> []" "b_size nb \<noteq> 0 \<longleftrightarrow> ys \<noteq> []"
    "b_size pb \<noteq> 0 \<and> b_size nb \<noteq> 0 \<longrightarrow> b_size pb \<le> b_size nb"
proof -
  show 1: "b_size pb = (if xs = [] then 0 else snd (last xs))"
    and 2: "b_size nb = (if ys = [] then 0 else snd (hd ys))"
    using assms(1) by (auto simp: at_pos_def rep_def)
  show "b_size pb \<noteq> 0 \<longleftrightarrow> xs \<noteq> []"
  proof (cases xs rule: rev_cases)
    case (snoc xs' p)
    then have "0 < snd p" using assms(2) fl_inv_mid(2) [of pdt t xs' "fst p" "snd p" ys] by simp
    then show ?thesis using 1 snoc by simp
  qed (use 1 in simp)
  show "b_size nb \<noteq> 0 \<longleftrightarrow> ys \<noteq> []"
  proof (cases ys)
    case (Cons q ys')
    then have "0 < snd q" using assms(2) fl_inv_mid(2) [of pdt t xs "fst q" "snd q" ys'] by simp
    then show ?thesis using 2 Cons by simp
  qed (use 2 in simp)
  show "b_size pb \<noteq> 0 \<and> b_size nb \<noteq> 0 \<longrightarrow> b_size pb \<le> b_size nb"
    using 1 2 assms(2) by (auto simp: fl_inv_def sorted_append)
qed

lemma shift_left_ok:
  assumes "fl_inv pdt t (xs @ ys)" "at_pos pb nb xs ys" "b_size block = n" "0 < n"
    and "\<forall>y\<in>set ys. n \<le> snd y" "length xs < fuel"
  shows "\<exists>xs' ys' pb' nb'. xs @ ys = xs' @ ys' \<and> shift_left fuel t block pb nb = Inr (pb', nb') \<and>
     at_pos pb' nb' xs' ys' \<and> (\<forall>x\<in>set xs'. snd x \<le> n) \<and> (\<forall>y\<in>set ys'. n \<le> snd y)"
  using assms
proof (induction xs arbitrary: ys pb nb fuel rule: rev_induct)
  case Nil
  then obtain fuel' where "fuel = Suc fuel'" by (cases fuel) auto
  moreover have "b_size pb = 0" using Nil.prems(2) by (simp add: at_pos_def)
  ultimately show ?case using Nil.prems
    by (intro exI [of _ "[]"] exI [of _ ys] exI [of _ pb] exI [of _ nb]) (simp add: kassert_def)
next
  case (snoc p xs)
  obtain fuel' where f: "fuel = Suc fuel'" "length xs < fuel'" using snoc.prems(6) by (cases fuel) auto
  note sz = at_pos_sizes [OF snoc.prems(2,1)]
  have szp: "b_size pb = snd p" "b_size pb \<noteq> 0" using sz(1,3) by auto
  show ?case
  proof (cases "n < snd p")
    case False
    then have "shift_left fuel t block pb nb = Inr (pb, nb)"
      using f sz(5) szp snoc.prems(3) by (simp add: kassert_def)
    moreover have "\<forall>x\<in>set (xs @ [p]). snd x \<le> n"
      using snoc.prems(1) False sorted_before(1) [of pdt t xs "fst p" "snd p" ys]
      by (fastforce simp: le_trans)
    ultimately show ?thesis using snoc.prems by blast
  next
    case True
    have pb: "rep pb (fst p) (snd p) (first ys None) (lastb xs None)"
      using snoc.prems(2,4) True by (auto simp: at_pos_def)
    have inv': "fl_inv pdt t (xs @ p # ys)" using snoc.prems(1) by simp
    have ge: "\<forall>y\<in>set (p # ys). n \<le> snd y" using True snoc.prems(5) by auto
    show ?thesis
    proof (cases xs rule: rev_cases)
      case Nil
      have "shift_left fuel t block pb nb = Inr (pb\<lparr>b_size := 0\<rparr>, pb)"
        using f sz(5) szp snoc.prems(3) True pb Nil by (simp add: kassert_def rep_def)
      moreover have "at_pos (pb\<lparr>b_size := 0\<rparr>) pb [] (p # ys)"
        using pb Nil by (auto simp: at_pos_def)
      ultimately show ?thesis using ge Nil
        by (intro exI [of _ "[]"] exI [of _ "p # ys"]) auto
    next
      case (snoc xs0 r)
      have "fl_inv pdt t (xs0 @ (fst r, snd r) # (p # ys))" using inv' snoc by simp
      from fl_inv_get0 [OF this, of pb] obtain pb' where get: "BLOCK_get pb t (fst r) = Inr pb'"
        and pb': "rep pb' (fst r) (snd r) (Some (fst p)) (if 1 < snd r then lastb xs0 None else None)"
        by auto
      have pos: "at_pos pb' pb xs (p # ys)"
        using pb pb' snoc True snoc.prems(4) by (auto simp: at_pos_def)
      have step: "shift_left fuel t block pb nb = shift_left fuel' t block pb' pb"
        using f sz(5) szp snoc.prems(3) True pb snoc get
        by (auto simp: kassert_def rep_def)
      from snoc.IH [OF inv' pos snoc.prems(3,4) ge f(2)] show ?thesis
        unfolding step by simp
    qed
  qed
qed

lemma shift_right_ok:
  assumes "fl_inv pdt t (xs @ ys)" "at_pos pb nb xs ys" "b_size block = n" "0 < n"
    and "\<forall>x\<in>set xs. snd x \<le> n" "length ys < fuel"
  shows "\<exists>xs' ys' pb' nb'. xs @ ys = xs' @ ys' \<and> shift_right fuel t block pb nb = Inr (pb', nb') \<and>
     at_pos pb' nb' xs' ys' \<and> (\<forall>x\<in>set xs'. snd x \<le> n) \<and> (\<forall>y\<in>set ys'. n \<le> snd y)"
  using assms
proof (induction ys arbitrary: xs pb nb fuel)
  case Nil
  then obtain fuel' where "fuel = Suc fuel'" by (cases fuel) auto
  moreover have "b_size nb = 0" using Nil.prems(2) by (simp add: at_pos_def)
  ultimately show ?case using Nil.prems
    by (intro exI [of _ xs] exI [of _ "[]"] exI [of _ pb] exI [of _ nb]) (simp add: kassert_def)
next
  case (Cons q ys)
  obtain fuel' where f: "fuel = Suc fuel'" "length ys < fuel'" using Cons.prems(6) by (cases fuel) auto
  note sz = at_pos_sizes [OF Cons.prems(2,1)]
  have szq: "b_size nb = snd q" "b_size nb \<noteq> 0" using sz(2,4) by auto
  show ?case
  proof (cases "snd q < n")
    case False
    then have "shift_right fuel t block pb nb = Inr (pb, nb)"
      using f sz(5) szq Cons.prems(3) by (simp add: kassert_def)
    moreover have "\<forall>y\<in>set (q # ys). n \<le> snd y"
      using Cons.prems(1) False sorted_before(2) [of pdt t xs "fst q" "snd q" ys]
      by (fastforce simp: le_trans)
    ultimately show ?thesis using Cons.prems by blast
  next
    case True
    have nb: "rep nb (fst q) (snd q) (first ys None) (if 1 < snd q then lastb xs None else None)"
      using Cons.prems(2) by (simp add: at_pos_def)
    have inv': "fl_inv pdt t ((xs @ [q]) @ ys)" using Cons.prems(1) by simp
    have le: "\<forall>x\<in>set (xs @ [q]). snd x \<le> n" using True Cons.prems(5) by auto
    show ?thesis
    proof (cases ys)
      case Nil
      have "shift_right fuel t block pb nb = Inr (nb, nb\<lparr>b_size := 0\<rparr>)"
        using f sz(5) szq Cons.prems(3) True nb Nil by (simp add: kassert_def rep_def)
      moreover have "at_pos nb (nb\<lparr>b_size := 0\<rparr>) (xs @ [q]) []"
        using nb Nil by (auto simp: at_pos_def)
      ultimately show ?thesis using le Nil
        by (intro exI [of _ "xs @ [q]"] exI [of _ "[]"]) auto
    next
      case c: (Cons r ys0)
      have "fl_inv pdt t ((xs @ [q]) @ (fst r, snd r) # ys0)" using inv' c by simp
      from fl_inv_get0 [OF this, of nb] obtain nb' where get: "BLOCK_get nb t (fst r) = Inr nb'"
        and nb': "rep nb' (fst r) (snd r) (first ys0 None) (if 1 < snd r then lastb (xs @ [q]) None else None)"
        by blast
      have pos: "at_pos nb nb' (xs @ [q]) ys"
        using nb nb' c by (auto simp: at_pos_def)
      have step: "shift_right fuel t block pb nb = shift_right fuel' t block nb nb'"
        using f sz(5) szq Cons.prems(3) True nb c get
        by (auto simp: kassert_def rep_def)
      from Cons.IH [OF inv' pos Cons.prems(3,4) le f(2)] show ?thesis
        unfolding step by simp
    qed
  qed
qed


text \<open>The three writes of \<open>insert\<close>: the back link of the block after, the forward link of the block
  before, and the block itself.\<close>

lemma insert_next_step:
  assumes runs: "\<forall>(s, n)\<in>set (xs @ ys). run t s n" and dist: "distinct (map fst (xs @ ys))"
    and enc: "list_enc t None (xs @ ys) None" and pos: "at_pos pb nb xs ys"
    and s: "b_self block < 512" and ne: "ys \<noteq> []"
  shows "\<exists>t1. BLOCK_put (nb\<lparr>b_prev := b_self block, b_prev_valid := True\<rparr>) t = Inr t1 \<and>
     same_skel t t1 \<and> list_enc t1 None xs (first ys None) \<and> list_enc t1 (Some (b_self block)) ys None"
proof -
  obtain sn nn ys' where ys: "ys = (sn, nn) # ys'" using ne by (cases ys) auto
  let ?nb = "nb\<lparr>b_prev := b_self block, b_prev_valid := True\<rparr>"
  have nb: "rep ?nb sn nn (first ys' None) (Some (b_self block))"
    using pos ys by (auto simp: at_pos_def rep_def)
  have r: "run t sn nn" using runs ys by simp
  have put: "BLOCK_put ?nb t = Inr (put_tbl ?nb t)"
    using nb r by (intro BLOCK_put_closed) (simp add: rep_def)
  have "list_enc (put_tbl ?nb t) (Some (b_self block)) ((sn, nn) # ys') None"
    by (rule relink_prev [OF _ _ _ nb]) (use runs dist enc s ys in \<open>auto simp: list_enc_append\<close>)
  moreover have "list_enc (put_tbl ?nb t) None xs (first ys None) = list_enc t None xs (first ys None)"
    using runs r dist ys nb by (intro list_enc_put_other) (auto simp: rep_def)
  ultimately show ?thesis using put enc ys by (auto simp: list_enc_append)
qed

lemma insert_prev_step:
  assumes runs: "\<forall>(s, n)\<in>set (xs @ ys). run t s n" and dist: "distinct (map fst (xs @ ys))"
    and enc: "list_enc t None xs nx0" "list_enc t (Some (b_self block)) ys None"
    and pos: "at_pos pb nb xs ys" and s: "b_self block < 512" and ne: "xs \<noteq> []"
  shows "\<exists>t2. BLOCK_put (pb\<lparr>b_next := b_self block, b_next_valid := True\<rparr>) t = Inr t2 \<and>
     same_skel t t2 \<and> list_enc t2 None xs (Some (b_self block)) \<and> list_enc t2 (Some (b_self block)) ys None"
proof -
  obtain sp np xs' where xs: "xs = xs' @ [(sp, np)]" using ne by (cases xs rule: rev_cases) auto
  let ?pb = "pb\<lparr>b_next := b_self block, b_next_valid := True\<rparr>"
  have pb: "rep ?pb sp np (Some (b_self block)) (if 1 < np then lastb xs' None else None)"
    using pos xs by (auto simp: at_pos_def rep_def)
  have r: "run t sp np" using runs xs by simp
  have put: "BLOCK_put ?pb t = Inr (put_tbl ?pb t)"
    using pb r by (intro BLOCK_put_closed) (simp add: rep_def)
  have "list_enc (put_tbl ?pb t) None (xs' @ [(sp, np)]) (Some (b_self block))"
    by (rule relink_next [OF _ _ _ pb, of t nx0]) (use runs dist enc s xs in auto)
  moreover have "list_enc (put_tbl ?pb t) (Some (b_self block)) ys None = list_enc t (Some (b_self block)) ys None"
    using runs r dist xs pb by (intro list_enc_put_other) (auto simp: rep_def)
  ultimately show ?thesis using put enc xs by auto
qed

lemma insert_self_step:
  assumes runs: "\<forall>(s, n)\<in>set (xs @ ys). run t s n" and r: "run t s n" and new: "s \<notin> fst ` set (xs @ ys)"
    and enc: "list_enc t None xs (Some s)" "list_enc t (Some s) ys None"
    and b: "rep b s n (first ys None) (lastb xs None)"
  shows "BLOCK_put b t = Inr (put_tbl b t)" "list_enc (put_tbl b t) None (xs @ (s, n) # ys) None"
proof -
  show "BLOCK_put b t = Inr (put_tbl b t)" using b r by (intro BLOCK_put_closed) (simp add: rep_def)
  have "blk_enc (put_tbl b t) s n (first ys None) (lastb xs None)"
    by (rule put_tbl_enc [OF r b]) (use first_less [of ys t] lastb_less [of xs t] runs in auto)
  moreover have "list_enc (put_tbl b t) px zs nx = list_enc t px zs nx" if "set zs \<subseteq> set (xs @ ys)" for px zs nx
    using runs r new b that by (intro list_enc_put_other) (auto simp: rep_def)
  then have "list_enc (put_tbl b t) None xs (Some s)" "list_enc (put_tbl b t) (Some s) ys None"
    using enc by simp_all
  ultimately show "list_enc (put_tbl b t) None (xs @ (s, n) # ys) None"
    by (simp add: list_enc_append)
qed

lemma insert_link_ok:
  assumes inv: "fl_inv pdt t (xs @ ys)" and pos: "at_pos pb nb xs ys"
    and r: "run t s n" and new: "s \<notin> fst ` set (xs @ ys)"
    and blk: "b_self block = s" "b_size block = n"
    and le: "\<forall>x\<in>set xs. snd x \<le> n" and ge: "\<forall>y\<in>set ys. n \<le> snd y"
  shows "\<exists>pdt' t'. insert_link pdt t block pb nb = Inr (pdt', t') \<and>
     fl_inv pdt' t' (xs @ (s, n) # ys) \<and> same_skel t t' \<and> pd_core pdt' = pd_core pdt"
proof -
  have runs: "\<forall>(s, n)\<in>set (xs @ ys). run t s n" and dist: "distinct (map fst (xs @ ys))"
    and enc: "list_enc t None (xs @ ys) None" and srt: "sorted (map snd (xs @ ys))"
    and head: "xs @ ys \<noteq> [] \<longrightarrow> pd_head pdt = fst (hd (xs @ ys))"
    and rem: "pd_remain pdt = max_size_code (max_block (xs @ ys))"
    using inv by (auto simp: fl_inv_def)
  note sz = at_pos_sizes [OF pos inv]
  have s: "s < 512" using r by (rule run_start_less)
  define pdt1 where "pdt1 = (if ys = [] then put_max_size pdt n else pdt)"
  define b1 where "b1 = (if ys = [] then block\<lparr>b_next_valid := False\<rparr>
     else block\<lparr>b_next := b_self nb, b_next_valid := True\<rparr>)"
  have pd1: "pd_core pdt1 = pd_core pdt" "pd_head pdt1 = pd_head pdt"
    "pd_remain pdt1 = max_size_code (max_block (xs @ (s, n) # ys))"
    using rem by (auto simp: pdt1_def put_max_size_def max_block_append max_block_def pd_core_def)
  have b1: "b_self b1 = s" "b_size b1 = n" "b_next_valid b1 = (first ys None \<noteq> None)"
    "\<forall>x. first ys None = Some x \<longrightarrow> b_next b1 = x"
    using blk pos by (cases ys; auto simp: b1_def at_pos_def rep_def)+
  obtain t1 where s1: "(if b_size nb \<noteq> 0 then
         kassert (b_size block \<le> b_size nb)
          (rbind (BLOCK_put (nb\<lparr>b_prev := b_self block, b_prev_valid := True\<rparr>) t) (\<lambda>t.
            Inr (pdt, t, block\<lparr>b_next := b_self nb, b_next_valid := True\<rparr>)))
       else Inr (put_max_size pdt (b_size block), t, block\<lparr>b_next_valid := False\<rparr>)) = Inr (pdt1, t1, b1)"
    and sk1: "same_skel t t1" and e1: "list_enc t1 None xs (first ys None)" "list_enc t1 (Some s) ys None"
  proof (cases "ys = []")
    case True
    then show ?thesis using that [of t] sz enc blk by (simp add: pdt1_def b1_def list_enc_append)
  next
    case False
    from insert_next_step [OF runs dist enc pos _ False, of block] s blk
    obtain t1 where t1: "BLOCK_put (nb\<lparr>b_prev := b_self block, b_prev_valid := True\<rparr>) t = Inr t1"
      "same_skel t t1" "list_enc t1 None xs (first ys None)" "list_enc t1 (Some s) ys None" by auto
    have "n \<le> snd (hd ys)" using ge False by (cases ys) auto
    with t1 False sz blk show ?thesis by (intro that [of t1]) (simp_all add: pdt1_def b1_def kassert_def)
  qed
  have runs1: "\<forall>(s, n)\<in>set (xs @ ys). run t1 s n" using runs same_skel_run [OF sk1] by auto
  define b2 where "b2 = (if xs = [] then b1\<lparr>b_prev_valid := False\<rparr>
     else b1\<lparr>b_prev := b_self pb, b_prev_valid := True\<rparr>)"
  have b2: "rep b2 s n (first ys None) (lastb xs None)"
    using b1 pos by (auto simp: b2_def rep_def at_pos_def lastb_def)
  define pdt2 where "pdt2 = (if xs = [] then pdt1\<lparr>pd_head := s mod 512\<rparr> else pdt1)"
  obtain t2 where s2: "(if b_size pb \<noteq> 0 then
         kassert (b_size pb \<le> b_size b1)
          (rbind (BLOCK_put (pb\<lparr>b_next := b_self b1, b_next_valid := True\<rparr>) t1) (\<lambda>t.
           rbind (BLOCK_put (b1\<lparr>b_prev := b_self pb, b_prev_valid := True\<rparr>) t) (\<lambda>t. Inr (pdt1, t))))
       else kassert (b_size nb = 0 \<or> pd_head pdt1 = b_self nb)
          (rbind (BLOCK_put (b1\<lparr>b_prev_valid := False\<rparr>) t1) (\<lambda>t.
            Inr (pdt1\<lparr>pd_head := b_self b1 mod 512\<rparr>, t))))
       = rbind (BLOCK_put b2 t2) (\<lambda>t. Inr (pdt2, t))"
    and sk2: "same_skel t1 t2" and e2: "list_enc t2 None xs (Some s)" "list_enc t2 (Some s) ys None"
  proof (cases "xs = []")
    case True
    have "b_size nb = 0 \<or> pd_head pdt1 = b_self nb"
      using True pos head pd1 by (cases ys) (auto simp: at_pos_def rep_def)
    then show ?thesis using that [of t1] True sz e1 b1 by (simp add: b2_def pdt2_def kassert_def)
  next
    case False
    from insert_prev_step [OF runs1 dist e1(1) _ pos _ False, of b1] s b1 e1(2)
    obtain t2 where t2: "BLOCK_put (pb\<lparr>b_next := b_self b1, b_next_valid := True\<rparr>) t1 = Inr t2"
      "same_skel t1 t2" "list_enc t2 None xs (Some s)" "list_enc t2 (Some s) ys None" by auto
    have "snd (last xs) \<le> n" using le False by simp
    with t2 False sz b1 show ?thesis by (intro that [of t2]) (simp_all add: pdt2_def b2_def kassert_def)
  qed
  have sk: "same_skel t t2" using sk1 sk2 by (rule same_skel_trans)
  have runs2: "\<forall>(s, n)\<in>set (xs @ ys). run t2 s n" "run t2 s n" using runs r same_skel_run [OF sk] by auto
  note s3 = insert_self_step [OF runs2 new e2 b2]
  let ?t3 = "put_tbl b2 t2"
  have eq: "insert_link pdt t block pb nb = Inr (pdt2, ?t3)"
    unfolding insert_link_def s1 using s2 s3(1) by simp
  have sk3: "same_skel t ?t3" using sk put_tbl_skel by (rule same_skel_trans)
  then have runs3: "\<forall>(s, n)\<in>set (xs @ (s, n) # ys). run ?t3 s n" using runs r same_skel_run by auto
  have "sorted (map snd (xs @ (s, n) # ys))" using srt le ge by (auto simp: sorted_append)
  moreover have "distinct (map fst (xs @ (s, n) # ys))" using dist new by auto
  moreover have "pd_head pdt2 = fst (hd (xs @ (s, n) # ys))"
    using s head pd1 by (cases xs) (auto simp: pdt2_def)
  moreover have "pd_remain pdt2 = max_size_code (max_block (xs @ (s, n) # ys))"
    using pd1 by (simp add: pdt2_def)
  ultimately have "fl_inv pdt2 ?t3 (xs @ (s, n) # ys)"
    using runs3 s3(2) unfolding fl_inv_def by simp
  then show ?thesis using eq sk3 pd1 by (auto simp: pdt2_def)
qed


definition hinted :: "blk \<Rightarrow> (nat \<times> nat) list \<Rightarrow> (nat \<times> nat) list \<Rightarrow> bool" where
  "hinted b xs ys \<longleftrightarrow> \<not> b_prev_valid b \<and> \<not> b_next_valid b \<or>
     rep b (b_self b) (b_size b) (first ys None) (lastb xs None)"

text \<open>Any position whose neighbours are loaded leads to the position by size.\<close>

lemma shift_ok:
  assumes inv: "fl_inv pdt t (xs @ ys)" and pos: "at_pos pb nb xs ys" and n: "b_size block = n" "0 < n"
  shows "\<exists>xs' ys' pb' nb'. xs @ ys = xs' @ ys' \<and>
     (if b_size pb \<noteq> 0 \<and> b_size block < b_size pb then shift_left 513 t block pb nb
      else shift_right 513 t block pb nb) = Inr (pb', nb') \<and>
     at_pos pb' nb' xs' ys' \<and> (\<forall>x\<in>set xs'. snd x \<le> n) \<and> (\<forall>y\<in>set ys'. n \<le> snd y)"
proof -
  note sz = at_pos_sizes [OF pos inv]
  have len: "length xs < 513" "length ys < 513" using fl_inv_length [OF inv] by auto
  have srt: "\<forall>x\<in>set xs. \<forall>y\<in>set ys. snd x \<le> snd y" "sorted (map snd xs)"
    using inv by (auto simp: fl_inv_def sorted_append)
  show ?thesis
  proof (cases "b_size pb \<noteq> 0 \<and> b_size block < b_size pb")
    case True
    then have "xs \<noteq> []" "n < snd (last xs)" using sz n by auto
    then have "\<forall>y\<in>set ys. n \<le> snd y" using srt(1) last_in_set [of xs] by fastforce
    from shift_left_ok [OF inv pos n this len(1)] True show ?thesis by simp
  next
    case False
    have "\<forall>x\<in>set xs. snd x \<le> n"
    proof (cases xs rule: rev_cases)
      case (snoc xs' p)
      with False sz n have "snd p \<le> n" by auto
      with snoc srt(2) show ?thesis by (auto simp: sorted_append)
    qed simp
    from shift_right_ok [OF inv pos n this len(2)] show ?thesis
      by (simp only: if_not_P [OF False])
  qed
qed

lemma insert_place_ok:
  assumes inv: "fl_inv pdt t (xs @ ys)" and h: "hinted b xs ys" and n: "b_size b = n" "0 < n"
  shows "\<exists>b' pb nb xs' ys'. insert_place pdt t b = Inr (b', pb, nb) \<and> b_self b' = b_self b \<and> b_size b' = n \<and>
     xs @ ys = xs' @ ys' \<and> at_pos pb nb xs' ys' \<and> (\<forall>x\<in>set xs'. snd x \<le> n) \<and> (\<forall>y\<in>set ys'. n \<le> snd y)"
proof -
  define b1 where "b1 = (if \<not> b_prev_valid b \<and> \<not> b_next_valid b \<and> get_max_size pdt \<noteq> 0
     then b\<lparr>b_next := pd_head pdt, b_next_valid := True\<rparr> else b)"
  have "\<exists>us vs. xs @ ys = us @ vs \<and> rep b1 (b_self b) n (first vs None) (lastb us None)"
  proof (cases "\<not> b_prev_valid b \<and> \<not> b_next_valid b")
    case True
    show ?thesis
      by (rule exI [of _ "[]"], rule exI [of _ "xs @ ys"])
        (use True inv n get_max_zero [OF inv] in \<open>cases "xs @ ys"; auto simp: rep_def b1_def fl_inv_def\<close>)
  next
    case False
    then show ?thesis using h n by (intro exI [of _ xs] exI [of _ ys]) (auto simp: hinted_def b1_def)
  qed
  then obtain us vs where uv: "xs @ ys = us @ vs" and b1: "rep b1 (b_self b) n (first vs None) (lastb us None)"
    by blast
  have inv': "fl_inv pdt t (us @ vs)" using inv uv by simp
  obtain pb where pb: "(if b_prev_valid b1 then BLOCK_get blk_uninit t (b_prev b1)
       else Inr (blk_uninit\<lparr>b_size := 0\<rparr>)) = Inr pb"
    "if us = [] then b_size pb = 0 else rep pb (fst (last us)) (snd (last us)) (first vs None)
       (if 1 < snd (last us) then lastb (butlast us) None else None)"
  proof (cases us rule: rev_cases)
    case Nil
    then show ?thesis using that b1 by (simp add: rep_def)
  next
    case (snoc us' p)
    have "fl_inv pdt t (us' @ (fst p, snd p) # vs)" using inv' snoc by simp
    from fl_inv_get0 [OF this] obtain pb where "BLOCK_get blk_uninit t (fst p) = Inr pb"
      "rep pb (fst p) (snd p) (first vs None) (if 1 < snd p then lastb us' None else None)" by blast
    with snoc b1 show ?thesis by (intro that [of pb]) (simp_all add: rep_def)
  qed
  obtain nb where nb: "(if b_next_valid b1 then BLOCK_get blk_uninit t (b_next b1)
       else Inr (blk_uninit\<lparr>b_size := 0\<rparr>)) = Inr nb"
    "if vs = [] then b_size nb = 0 else rep nb (fst (hd vs)) (snd (hd vs)) (first (tl vs) None)
       (if 1 < snd (hd vs) then lastb us None else None)"
  proof (cases vs)
    case Nil
    then show ?thesis using that b1 by (simp add: rep_def)
  next
    case (Cons q vs')
    have "fl_inv pdt t (us @ (fst q, snd q) # vs')" using inv' Cons by simp
    from fl_inv_get0 [OF this] obtain nb where "BLOCK_get blk_uninit t (fst q) = Inr nb"
      "rep nb (fst q) (snd q) (first vs' None) (if 1 < snd q then lastb us None else None)" by blast
    with Cons b1 show ?thesis by (intro that [of nb]) (simp_all add: rep_def)
  qed
  have pos: "at_pos pb nb us vs" using pb(2) nb(2) by (simp add: at_pos_def)
  have n1: "b_size b1 = n" "b_self b1 = b_self b" using b1 by (simp_all add: rep_def)
  from shift_ok [OF inv' pos n1(1) n(2)] obtain xs' ys' pb' nb' where sh: "us @ vs = xs' @ ys'"
    "(if b_size pb \<noteq> 0 \<and> b_size b1 < b_size pb then shift_left 513 t b1 pb nb
      else shift_right 513 t b1 pb nb) = Inr (pb', nb')"
    "at_pos pb' nb' xs' ys'" "\<forall>x\<in>set xs'. snd x \<le> n" "\<forall>y\<in>set ys'. n \<le> snd y" by blast
  have "insert_place pdt t b = Inr (b1, pb', nb')"
    unfolding insert_place_def b1_def [symmetric] Let_def pb(1) nb(1) rbind_Inr sh(2) by simp
  then show ?thesis using n1 uv sh by auto
qed

theorem insert_ok:
  assumes inv: "fl_inv pdt t (xs @ ys)" and h: "hinted b xs ys"
    and r: "run t (b_self b) (b_size b)" and new: "b_self b \<notin> fst ` set (xs @ ys)"
  shows "\<exists>pdt' t' us vs. blk_insert pdt t b = Inr (pdt', t') \<and> xs @ ys = us @ vs \<and>
     fl_inv pdt' t' (us @ (b_self b, b_size b) # vs) \<and> same_skel t t' \<and> pd_core pdt' = pd_core pdt"
proof -
  have n: "0 < b_size b" using r by (rule runD)
  from insert_place_ok [OF inv h refl n] obtain b' pb nb us vs where
    pl: "insert_place pdt t b = Inr (b', pb, nb)" "b_self b' = b_self b" "b_size b' = b_size b"
      "xs @ ys = us @ vs" "at_pos pb nb us vs"
      "\<forall>x\<in>set us. snd x \<le> b_size b" "\<forall>y\<in>set vs. b_size b \<le> snd y" by blast
  have "fl_inv pdt t (us @ vs)" "b_self b \<notin> fst ` set (us @ vs)" using inv new pl(4) by simp_all
  from insert_link_ok [OF this(1) pl(5) r this(2) pl(2,3) pl(6,7)] pl(1,4) n show ?thesis
    by (fastforce simp: blk_insert_def)
qed

end
