(* ===== verification/Page_Reserve.thy ===== *)
theory Page_Reserve
  imports Page_Block_Inv
begin

text \<open>
  Reserving pages of one table: \<open>imp_reserve_any\<close> and \<open>imp_reserve_fixed\<close> of
  \<^verbatim>\<open>kernel/memory/vm.cpp\<close> keep the table well formed, take exactly the pages they report, and fail
  only for the reasons the code gives.
\<close>

definition free_pages :: "ptable \<Rightarrow> nat set" where
  "free_pages t = {i. i < 512 \<and> pt_free (t i)}"

definition table_ok :: "pdte \<Rightarrow> ptable \<Rightarrow> bool" where
  "table_ok pdt t \<longleftrightarrow> (\<exists>bs. table_inv pdt t bs)"

definition mark_preserve :: "nat \<Rightarrow> nat \<Rightarrow> ptable \<Rightarrow> ptable" where
  "mark_preserve a c t = (\<lambda>x. if a \<le> x \<and> x < a + c then (t x)\<lparr>pt_preserve := True\<rparr> else t x)"

lemma preserve_pages_closed:
  "(\<And>j. i \<le> j \<Longrightarrow> j < i + k \<Longrightarrow> pt_free (t j)) \<Longrightarrow> preserve_pages t i k = Inr (mark_preserve i k t)"
proof (induction k arbitrary: i t)
  case 0
  have "mark_preserve i 0 t = t" by (rule ext) (auto simp: mark_preserve_def)
  then show ?case by simp
next
  case (Suc k)
  let ?t = "t(i := (t i)\<lparr>pt_preserve := True\<rparr>)"
  have "\<And>j. i + 1 \<le> j \<Longrightarrow> j < i + 1 + k \<Longrightarrow> pt_free (?t j)" using Suc.prems by auto
  then have IH: "preserve_pages ?t (i + 1) k = Inr (mark_preserve (i + 1) k ?t)" by (rule Suc.IH)
  have "mark_preserve (i + 1) k ?t = mark_preserve i (Suc k) t"
  proof
    fix x show "mark_preserve (i + 1) k ?t x = mark_preserve i (Suc k) t x"
      by (cases "x = i") (auto simp: mark_preserve_def)
  qed
  with IH Suc.prems show ?case by (simp add: kassert_def)
qed

lemma mark_preserve_free [simp]:
  "pt_free (mark_preserve a c t i) \<longleftrightarrow> pt_free (t i) \<and> \<not> (a \<le> i \<and> i < a + c)"
  by (auto simp: mark_preserve_def pt_free_def)

lemma mark_preserve_skel:
  "same_skel t t' \<Longrightarrow> same_skel (mark_preserve a c t) (mark_preserve a c t')"
proof -
  have up: "skel p = skel q \<Longrightarrow> skel (p\<lparr>pt_preserve := True\<rparr>) = skel (q\<lparr>pt_preserve := True\<rparr>)" for p q
    by (cases p; cases q) (simp add: skel_def)
  have *: "skel (t' i) = skel (t i) \<Longrightarrow> skel (mark_preserve a c t' i) = skel (mark_preserve a c t i)" for i
    by (cases "a \<le> i \<and> i < a + c") (auto simp: mark_preserve_def intro: up)
  assume "same_skel t t'"
  then have "skel (mark_preserve a c t' i) = skel (mark_preserve a c t i)" for i
    by (intro *) (simp add: same_skel_def)
  then show ?thesis by (simp add: same_skel_def)
qed

lemma list_enc_cong:
  "(\<And>s n i. (s, n) \<in> set bs \<Longrightarrow> s \<le> i \<Longrightarrow> i < s + n \<Longrightarrow> t' i = t i) \<Longrightarrow> (\<forall>(s, n)\<in>set bs. 0 < n) \<Longrightarrow>
    list_enc t' px bs nx = list_enc t px bs nx"
proof (induction bs arbitrary: px)
  case (Cons b bs)
  obtain s n where b: "b = (s, n)" by (cases b)
  have "list_enc t' (Some s) bs nx = list_enc t (Some s) bs nx"
    by (rule Cons.IH) (use Cons.prems in auto)
  moreover have "blk_enc t' s n nx' px = blk_enc t s n nx' px" for nx'
    by (rule blk_enc_cong) (use Cons.prems b in auto)
  ultimately show ?case by (simp add: b)
qed simp

text \<open>Changing entries outside the blocks, without freeing any, keeps the list.\<close>

lemma fl_inv_cong:
  assumes inv: "fl_inv pdt t bs"
    and same: "\<And>s n i. (s, n) \<in> set bs \<Longrightarrow> s \<le> i \<Longrightarrow> i < s + n \<Longrightarrow> t' i = t i"
    and mono: "\<And>i. pt_free (t' i) \<Longrightarrow> pt_free (t i)"
  shows "fl_inv pdt t' bs"
proof -
  have r: "\<forall>(s, n)\<in>set bs. run t s n" using inv by (simp add: fl_inv_def)
  then have "\<forall>(s, n)\<in>set bs. run t' s n" using same mono by (fastforce simp: run_def)
  moreover have "list_enc t' None bs None = list_enc t None bs None"
    by (rule list_enc_cong) (use same r in \<open>auto dest: runD(1)\<close>)
  ultimately show ?thesis using inv by (simp add: fl_inv_def)
qed

lemma insert_set:
  assumes inv: "fl_inv pdt t (xs @ ys)" and h: "hinted b xs ys"
    and r: "b_size b \<noteq> 0 \<Longrightarrow> run t (b_self b) (b_size b)"
    and new: "b_size b \<noteq> 0 \<Longrightarrow> b_self b \<notin> fst ` set (xs @ ys)"
  shows "\<exists>pdt' t' bs. blk_insert pdt t b = Inr (pdt', t') \<and> fl_inv pdt' t' bs \<and>
     set bs = set (xs @ ys) \<union> (if b_size b = 0 then {} else {(b_self b, b_size b)}) \<and>
     same_skel t t' \<and> pd_core pdt' = pd_core pdt"
proof (cases "b_size b = 0")
  case True
  then show ?thesis using inv by (intro exI [of _ pdt] exI [of _ t] exI [of _ "xs @ ys"]) (simp add: blk_insert_def)
next
  case False
  from insert_ok [OF inv h r [OF False] new [OF False]] obtain pdt' t' us vs where
    *: "blk_insert pdt t b = Inr (pdt', t')" "xs @ ys = us @ vs"
      "fl_inv pdt' t' (us @ (b_self b, b_size b) # vs)" "same_skel t t'" "pd_core pdt' = pd_core pdt" by blast
  show ?thesis
    by (intro exI [of _ pdt'] exI [of _ t'] exI [of _ "us @ (b_self b, b_size b) # vs"])
      (use * False arg_cong [OF *(2), of set] in auto)
qed

lemma fl_inv_other:
  assumes "fl_inv pdt t (xs @ (s, n) # ys)" "(s', n') \<in> set (xs @ ys)"
  shows "run t s' n'" "s' \<noteq> s"
proof -
  show "run t s' n'" by (rule fl_inv_run [OF assms(1)]) (use assms(2) in auto)
  have "s \<notin> set (map fst (xs @ ys))" using assms(1) by (simp add: fl_inv_def)
  moreover have "s' \<in> set (map fst (xs @ ys))" using assms(2) by (metis fst_conv image_eqI image_set)
  ultimately show "s' \<noteq> s" by metis
qed

text \<open>Taking a block off the list and preserving some of its pages.\<close>

lemma take_pages:
  assumes inv: "fl_inv pdt t (xs @ (s, n) # ys)"
    and b: "rep b s n (first ys None) (if 1 < n then lastb xs None else None)"
    and a: "s \<le> a" "a + c \<le> s + n"
  shows "\<exists>b' pdt' t'. resolve_prior pdt t b = Inr b' \<and> rep b' s n (first ys None) (lastb xs None) \<and>
     rbind (blk_erase pdt t b') (\<lambda>(pdt, t). rbind (preserve_pages t a c) (\<lambda>t. Inr (pdt, t))) = Inr (pdt', t') \<and>
     fl_inv pdt' t' (xs @ ys) \<and> same_skel (mark_preserve a c t) t' \<and> pd_core pdt' = pd_core pdt"
proof -
  from resolve_prior_ok [OF inv b] obtain b' where b': "resolve_prior pdt t b = Inr b'"
    "rep b' s n (first ys None) (lastb xs None)" by blast
  from erase_ok [OF inv b'(2)] obtain pdt1 t1 where e: "blk_erase pdt t b' = Inr (pdt1, t1)"
    "fl_inv pdt1 t1 (xs @ ys)" "same_skel t t1" "pd_core pdt1 = pd_core pdt" by blast
  have r: "run t s n" using inv by (rule fl_inv_mid)
  have "preserve_pages t1 a c = Inr (mark_preserve a c t1)"
    using a runD(3) [OF r] by (intro preserve_pages_closed) (auto simp: same_skel_free [OF e(3)])
  moreover have "fl_inv pdt1 (mark_preserve a c t1) (xs @ ys)"
  proof (rule fl_inv_cong [OF e(2)])
    fix s' n' i assume x: "(s', n') \<in> set (xs @ ys)" "s' \<le> i" "i < s' + n'"
    have "s' \<noteq> s" using fl_inv_other [OF inv x(1)] by simp
    moreover have "run t s' n'" using fl_inv_other [OF inv x(1)] by simp
    ultimately have "\<not> (s \<le> i \<and> i < s + n)" using run_disjoint [OF _ r _ x(2,3)] by simp
    then show "mark_preserve a c t1 i = t1 i" using a by (auto simp: mark_preserve_def)
  qed simp
  ultimately show ?thesis using b' e(1,4) mark_preserve_skel [OF e(3)] by auto
qed

lemma run_part:
  assumes "run t s n" "s \<le> s'" "s' + n' \<le> s + n" "0 < n'"
    and "s' + n' < s + n \<longrightarrow> \<not> pt_free (t' (s' + n'))" "s < s' \<longrightarrow> \<not> pt_free (t' (s' - 1))"
    and "\<And>i. s' \<le> i \<Longrightarrow> i < s' + n' \<Longrightarrow> pt_free (t' i)" "\<And>i. pt_free (t' i) \<Longrightarrow> pt_free (t i)"
  shows "run t' s' n'"
  unfolding run_def
proof (intro conjI allI impI)
  show "s' + n' \<le> 512" using assms(3) runD(2) [OF assms(1)] by simp
  show "\<not> pt_free (t' (s' + n'))" if "s' + n' < 512"
    using that assms(1,3,5,8) by (cases "s' + n' = s + n") (auto simp: run_def)
  show "\<not> pt_free (t' (s' - 1))" if "0 < s'"
    using that assms(1,2,6,8) by (cases "s' = s") (auto simp: run_def)
qed (use assms in auto)

lemma run_new:
  assumes "fl_inv pdt t (xs @ (s, n) # ys)" "s \<le> i" "i < s + n"
  shows "i \<notin> fst ` set (xs @ ys)"
proof
  assume "i \<in> fst ` set (xs @ ys)"
  then obtain m where m: "(i, m) \<in> set (xs @ ys)" by force
  then have r: "run t i m" "i \<noteq> s" using fl_inv_other [OF assms(1)] by simp_all
  have "run t s n" using assms(1) by (rule fl_inv_mid)
  then show False using run_disjoint [of t s n i m i] r runD(1) [OF r(1)] assms by auto
qed

lemma covers_part:
  assumes cov: "covers t (xs @ (s, n) # ys)" and sk: "same_skel (mark_preserve a c t) t'"
    and bs: "set (xs @ ys) \<subseteq> set bs"
    and part: "\<And>i. s \<le> i \<Longrightarrow> i < s + n \<Longrightarrow> \<not> (a \<le> i \<and> i < a + c) \<Longrightarrow> \<exists>(s', n')\<in>set bs. s' \<le> i \<and> i < s' + n'"
  shows "covers t' bs"
  unfolding covers_def
proof (intro allI impI)
  fix i :: nat assume "i < 512" "pt_free (t' i)"
  then have f: "pt_free (t i)" "\<not> (a \<le> i \<and> i < a + c)" using same_skel_free [OF sk] by auto
  with cov \<open>i < 512\<close> obtain s' n' where *: "(s', n') \<in> set (xs @ (s, n) # ys)" "s' \<le> i" "i < s' + n'"
    unfolding covers_def by blast
  show "\<exists>(s', n')\<in>set bs. s' \<le> i \<and> i < s' + n'"
  proof (cases "(s', n') = (s, n)")
    case True
    then show ?thesis using part [of i] * f by simp
  next
    case False
    then have "(s', n') \<in> set bs" using * bs by auto
    then show ?thesis using * by blast
  qed
qed

section \<open>\<open>imp_reserve_any\<close>\<close>

lemma reserve_any_loop_ok:
  assumes "fl_inv pdt t (xs @ ys)" "covers t (xs @ ys)" "ys \<noteq> []" "cur = fst (hd ys)"
    and "count \<le> snd (last ys)" "0 < count" "length ys \<le> fuel"
  shows "\<exists>s n pdt' t' bs'. reserve_any_loop fuel pdt t base count block cur =
       Inr (base + (s + n - count) * 4096, pdt', t') \<and> (s, n) \<in> set ys \<and> count \<le> n \<and>
     table_inv pdt' t' bs' \<and> same_skel (mark_preserve (s + n - count) count t) t' \<and>
     pd_core pdt' = pd_core pdt"
  using assms
proof (induction ys arbitrary: xs fuel block cur)
  case (Cons q ys)
  obtain s n where q: "q = (s, n)" by (cases q)
  obtain fuel' where f: "fuel = Suc fuel'" "length ys \<le> fuel'" using Cons.prems(7) by (cases fuel) auto
  have inv: "fl_inv pdt t (xs @ (s, n) # ys)" using Cons.prems(1) q by simp
  have r: "run t s n" using inv by (rule fl_inv_mid)
  from fl_inv_get0 [OF inv, of block] obtain b where get: "BLOCK_get block t s = Inr b"
    and b: "rep b s n (first ys None) (if 1 < n then lastb xs None else None)" by blast
  have bs: "b_self b = s" "b_size b = n" using b by (simp_all add: rep_def)
  have cur: "cur = s" using Cons.prems(4) q by simp
  show ?case
  proof (cases "count \<le> n")
    case False
    then have ne: "ys \<noteq> []" using Cons.prems(5) q by auto
    have "\<exists>s n pdt' t' bs'. reserve_any_loop fuel' pdt t base count b (fst (hd ys)) =
       Inr (base + (s + n - count) * 4096, pdt', t') \<and> (s, n) \<in> set ys \<and> count \<le> n \<and>
       table_inv pdt' t' bs' \<and> same_skel (mark_preserve (s + n - count) count t) t' \<and>
       pd_core pdt' = pd_core pdt"
      by (rule Cons.IH [of "xs @ [(s, n)]"]) (use Cons.prems q ne f in auto)
    then obtain s' n' pdt' t' bs' where *: "reserve_any_loop fuel' pdt t base count b (fst (hd ys)) =
       Inr (base + (s' + n' - count) * 4096, pdt', t')" "(s', n') \<in> set ys" "count \<le> n'"
       "table_inv pdt' t' bs'" "same_skel (mark_preserve (s' + n' - count) count t) t'"
       "pd_core pdt' = pd_core pdt" by blast
    have "reserve_any_loop fuel pdt t base count block cur =
        reserve_any_loop fuel' pdt t base count b (fst (hd ys))"
      using f cur get bs b False ne by (cases ys) (auto simp: kassert_def rep_def)
    then show ?thesis using *
      by (intro exI [of _ s'] exI [of _ n'] exI [of _ pdt'] exI [of _ t'] exI [of _ bs']) simp
  next
    case True
    let ?a = "s + n - count"
    have a: "s \<le> ?a" "?a + count \<le> s + n" using True by auto
    from take_pages [OF inv b a] obtain b' pdt1 t1 where rp: "resolve_prior pdt t b = Inr b'"
      and b': "rep b' s n (first ys None) (lastb xs None)"
      and er: "rbind (blk_erase pdt t b') (\<lambda>(pdt, t). rbind (preserve_pages t ?a count) (\<lambda>t. Inr (pdt, t))) = Inr (pdt1, t1)"
      and fl: "fl_inv pdt1 t1 (xs @ ys)" and sk: "same_skel (mark_preserve ?a count t) t1"
      and core: "pd_core pdt1 = pd_core pdt" by blast
    let ?rest = "b'\<lparr>b_size := b_size b' - count\<rparr>"
    have rest: "b_self ?rest = s" "b_size ?rest = n - count" "hinted ?rest xs ys"
      using b' by (auto simp: rep_def hinted_def)
    have "run t1 s (n - count)" if "n - count \<noteq> 0"
      by (rule run_part [OF r]) (use that True Cons.prems(6) runD(3) [OF r] in \<open>auto simp: same_skel_free [OF sk]\<close>)
    moreover have "s \<notin> fst ` set (xs @ ys)" by (rule run_new [OF inv]) (use runD(1) [OF r] in auto)
    ultimately obtain pdt2 t2 bs where ins: "blk_insert pdt1 t1 ?rest = Inr (pdt2, t2)" "fl_inv pdt2 t2 bs"
      "set bs = set (xs @ ys) \<union> (if n - count = 0 then {} else {(s, n - count)})"
      "same_skel t1 t2" "pd_core pdt2 = pd_core pdt1"
      using insert_set [OF fl rest(3)] rest(1,2) by auto
    have sk2: "same_skel (mark_preserve ?a count t) t2" using sk ins(4) by (rule same_skel_trans)
    have "covers t2 bs"
    proof (rule covers_part [OF _ sk2])
      show "covers t (xs @ (s, n) # ys)" using Cons.prems(2) q by simp
      show "set (xs @ ys) \<subseteq> set bs" using ins(3) by simp
      show "\<exists>(s', n')\<in>set bs. s' \<le> i \<and> i < s' + n'" if "s \<le> i" "i < s + n" "\<not> (?a \<le> i \<and> i < ?a + count)" for i
        using that True ins(3) by (intro bexI [of _ "(s, n - count)"]) auto
    qed
    then have "table_inv pdt2 t2 bs" using ins(2) by (simp add: table_inv_def)
    moreover have "?a + count \<le> 512" using True runD(2) [OF r] by simp
    then have "reserve_any_loop fuel pdt t base count block cur = Inr (base + ?a * 4096, pdt2, t2)"
      using f cur get bs rp b' er ins(1) True
      by (auto simp: kassert_def rep_def Let_def rbind_eq_Inr split: prod.splits)
    ultimately show ?thesis using True q sk2 core ins(5)
      by (intro exI [of _ s] exI [of _ n] exI [of _ pdt2] exI [of _ t2] exI [of _ bs]) simp
  qed
qed simp

theorem imp_reserve_any_ok:
  assumes inv: "table_inv pdt t bs" and c: "0 < count" and pd: "pd_present pdt" "\<not> pd_bypass pdt"
    and sz: "count \<le> get_max_size pdt"
  shows "\<exists>a pdt' t'. imp_reserve_any pdt t base count = Inr (base + a * 4096, pdt', t') \<and>
     {a..<a + count} \<subseteq> free_pages t \<and> table_ok pdt' t' \<and>
     same_skel (mark_preserve a count t) t' \<and> pd_core pdt' = pd_core pdt"
proof -
  have fl: "fl_inv pdt t ([] @ bs)" and cov: "covers t ([] @ bs)" using inv by (simp_all add: table_inv_def)
  have ne: "bs \<noteq> []" using get_max_zero [of pdt t bs] fl sz c by auto
  have "count \<le> snd (last bs)" using get_max_le [of pdt t bs] fl sz ne by (simp add: max_block_def)
  from reserve_any_loop_ok [OF fl cov ne refl this c, of 512 base blk_uninit] fl_inv_length [of pdt t bs] fl
  obtain s n pdt' t' bs' where *: "reserve_any_loop 512 pdt t base count blk_uninit (fst (hd bs)) =
       Inr (base + (s + n - count) * 4096, pdt', t')" "(s, n) \<in> set bs" "count \<le> n"
     "table_inv pdt' t' bs'" "same_skel (mark_preserve (s + n - count) count t) t'"
     "pd_core pdt' = pd_core pdt" by auto
  have r: "run t s n" using fl_inv_run [of pdt t bs] fl *(2) by simp
  have "{s + n - count..<s + n - count + count} \<subseteq> free_pages t"
    using *(3) runD(2,3) [OF r] by (fastforce simp: free_pages_def)
  moreover have "imp_reserve_any pdt t base count =
      reserve_any_loop 512 pdt t base count blk_uninit (fst (hd bs))"
    using c pd sz ne fl by (simp add: imp_reserve_any_def kassert_def fl_inv_def)
  ultimately show ?thesis using * by (auto simp: table_ok_def)
qed


section \<open>\<open>imp_reserve_fixed\<close>\<close>

text \<open>\<open>BLOCK::get\<close> accepts every free page of a block but the third: there \<open>put\<close> stores the length
  less one and \<open>get\<close> asserts the constant 3.\<close>

definition size_page :: "ptable \<Rightarrow> nat \<Rightarrow> bool" where
  "size_page t i \<longleftrightarrow> pt_free (t i) \<and> pt_type (t i) = SIZE \<and> pt_data (t i) \<noteq> 3"

lemma block_at:
  assumes inv: "table_inv pdt t bs" and i: "i < 512" "pt_free (t i)" "\<not> size_page t i"
  obtains xs s n ys where "bs = xs @ (s, n) # ys" "s \<le> i" "i < s + n" "i - s = 2 \<longrightarrow> n = 4"
proof -
  obtain s n where sn: "(s, n) \<in> set bs" "s \<le> i" "i < s + n"
    using inv i unfolding table_inv_def covers_def by blast
  then obtain xs ys where bs: "bs = xs @ (s, n) # ys" by (meson split_list)
  have "blk_enc t s n (first ys None) (lastb xs None)"
    using inv bs fl_inv_enc [of pdt t xs s n ys] by (simp add: table_inv_def)
  then have "n = 4" if "i - s = 2"
  proof -
    have "i = s + 2" "2 < n" using that sn by auto
    then have "pt_data (t i) = n - 1" "pt_type (t i) = SIZE"
      using \<open>blk_enc t s n _ _\<close> by (auto simp: blk_enc_def)
    then show ?thesis using i \<open>2 < n\<close> by (simp add: size_page_def)
  qed
  with that [OF bs sn(2,3)] show thesis by blast
qed

lemma free_run_iff:
  assumes r: "run t s n" and i: "s \<le> i" "i < s + n" and c: "i + c \<le> 512"
  shows "{i..<i + c} \<subseteq> free_pages t \<longleftrightarrow> i + c \<le> s + n"
proof
  assume *: "{i..<i + c} \<subseteq> free_pages t"
  show "i + c \<le> s + n"
  proof (rule ccontr)
    assume "\<not> i + c \<le> s + n"
    then have "s + n \<in> {i..<i + c}" using i by simp
    then have "s + n \<in> free_pages t" using * by blast
    then show False using r by (auto simp: run_def free_pages_def)
  qed
qed (use runD(2,3) [OF r] i in \<open>auto simp: free_pages_def\<close>)

text \<open>Putting the two remainders of a block back on the list.\<close>

lemma put_back:
  assumes fl: "fl_inv pdt t (xs @ ys)" and h0: "hinted c0 xs ys"
    and h1: "\<not> b_prev_valid c1" "\<not> b_next_valid c1"
    and r0: "b_size c0 \<noteq> 0 \<Longrightarrow> run t (b_self c0) (b_size c0)" "b_size c0 \<noteq> 0 \<Longrightarrow> b_self c0 \<notin> fst ` set (xs @ ys)"
    and r1: "b_size c1 \<noteq> 0 \<Longrightarrow> run t (b_self c1) (b_size c1)" "b_size c1 \<noteq> 0 \<Longrightarrow> b_self c1 \<notin> fst ` set (xs @ ys)"
    and ne: "b_size c0 \<noteq> 0 \<Longrightarrow> b_size c1 \<noteq> 0 \<Longrightarrow> b_self c0 \<noteq> b_self c1"
  shows "\<exists>pdt' t' bs. rbind (blk_insert pdt t c0) (\<lambda>(pdt, t). blk_insert pdt t c1) = Inr (pdt', t') \<and>
     fl_inv pdt' t' bs \<and> set (xs @ ys) \<subseteq> set bs \<and>
     (\<forall>b\<in>{c0, c1}. b_size b \<noteq> 0 \<longrightarrow> (b_self b, b_size b) \<in> set bs) \<and>
     same_skel t t' \<and> pd_core pdt' = pd_core pdt"
proof -
  from insert_set [OF fl h0 r0] obtain pdt1 t1 bs1 where 1: "blk_insert pdt t c0 = Inr (pdt1, t1)"
    "fl_inv pdt1 t1 bs1" "set bs1 = set (xs @ ys) \<union> (if b_size c0 = 0 then {} else {(b_self c0, b_size c0)})"
    "same_skel t t1" "pd_core pdt1 = pd_core pdt" by blast
  have fl1: "fl_inv pdt1 t1 ([] @ bs1)" using 1(2) by simp
  have "hinted c1 [] bs1" using h1 by (simp add: hinted_def)
  moreover have "b_size c1 \<noteq> 0 \<Longrightarrow> b_self c1 \<notin> fst ` set ([] @ bs1)"
    using 1(3) r1(2) ne by auto
  ultimately obtain pdt2 t2 bs2 where 2: "blk_insert pdt1 t1 c1 = Inr (pdt2, t2)" "fl_inv pdt2 t2 bs2"
    "set bs2 = set ([] @ bs1) \<union> (if b_size c1 = 0 then {} else {(b_self c1, b_size c1)})"
    "same_skel t1 t2" "pd_core pdt2 = pd_core pdt1"
    using insert_set [OF fl1, of c1] r1(1) same_skel_run [OF 1(4)] by blast
  show ?thesis
    by (intro exI [of _ pdt2] exI [of _ t2] exI [of _ bs2] conjI same_skel_trans [OF 1(4) 2(4)])
      (use 1(1,3,5) 2(1,2,3,5) in auto)
qed

lemma imp_reserve_fixed_miss:
  assumes inv: "table_inv pdt t bs" and c: "0 < count" "index + count \<le> 512"
    and pd: "pd_present pdt" "\<not> pd_bypass pdt" "0 < get_max_size pdt"
    and ok: "\<not> size_page t index" and miss: "\<not> {index..<index + count} \<subseteq> free_pages t"
  shows "imp_reserve_fixed pdt t index count = Inr (False, pdt, t)"
proof (cases "pt_free (t index)")
  case False
  then show ?thesis using c pd by (simp add: imp_reserve_fixed_def kassert_def)
next
  case True
  have "index < 512" using c by simp
  from block_at [OF inv this True ok] obtain xs s n ys where bs: "bs = xs @ (s, n) # ys" "s \<le> index"
    "index < s + n" "index - s = 2 \<longrightarrow> n = 4" .
  have fl: "fl_inv pdt t (xs @ (s, n) # ys)" using inv bs by (simp add: table_inv_def)
  have "s + n < index + count"
    using free_run_iff [OF fl_inv_mid(1) [OF fl] bs(2,3) c(2)] miss by simp
  moreover from fl_inv_get [OF fl, of "index - s"] bs obtain b where "BLOCK_get blk_uninit t index = Inr b"
    "b_self b = s" "b_size b = n" by (fastforce simp: rep_def)
  ultimately show ?thesis using c pd True bs(2) by (simp add: imp_reserve_fixed_def kassert_def)
qed

lemma imp_reserve_fixed_hit:
  assumes inv: "table_inv pdt t bs" and c: "0 < count" "index + count \<le> 512"
    and pd: "pd_present pdt" "\<not> pd_bypass pdt" "0 < get_max_size pdt"
    and ok: "\<not> size_page t index" and hit: "{index..<index + count} \<subseteq> free_pages t"
  shows "\<exists>pdt' t'. imp_reserve_fixed pdt t index count = Inr (True, pdt', t') \<and> table_ok pdt' t' \<and>
     same_skel (mark_preserve index count t) t' \<and> pd_core pdt' = pd_core pdt"
proof -
  have i: "index < 512" "pt_free (t index)" using c hit by (auto simp: free_pages_def subset_iff)
  from block_at [OF inv i ok] obtain xs s n ys where bs: "bs = xs @ (s, n) # ys" "s \<le> index"
    "index < s + n" "index - s = 2 \<longrightarrow> n = 4" .
  have fl: "fl_inv pdt t (xs @ (s, n) # ys)" using inv bs by (simp add: table_inv_def)
  have r: "run t s n" using fl by (rule fl_inv_mid)
  have fits: "index + count \<le> s + n" using free_run_iff [OF r bs(2,3) c(2)] hit by simp
  from fl_inv_get [OF fl, of "index - s"] bs obtain b where get: "BLOCK_get blk_uninit t index = Inr b"
    and b: "rep b s n (first ys None) (if 1 < n then lastb xs None else None)" by fastforce
  from take_pages [OF fl b bs(2) fits] obtain b' pdt1 t1 where rp: "resolve_prior pdt t b = Inr b'"
    and b': "rep b' s n (first ys None) (lastb xs None)"
    and er: "rbind (blk_erase pdt t b') (\<lambda>(pdt, t). rbind (preserve_pages t index count) (\<lambda>t. Inr (pdt, t))) = Inr (pdt1, t1)"
    and fl1: "fl_inv pdt1 t1 (xs @ ys)" and sk: "same_skel (mark_preserve index count t) t1"
    and core: "pd_core pdt1 = pd_core pdt" by blast
  define swapped where "swapped \<longleftrightarrow> index - s < s + n - (index + count)"
  define c0 where "c0 = b'\<lparr>b_self := if swapped then index + count else s,
     b_size := if swapped then s + n - (index + count) else index - s\<rparr>"
  define c1 where "c1 = blk_uninit\<lparr>b_self := if swapped then s else index + count,
     b_size := if swapped then index - s else s + n - (index + count),
     b_prev_valid := False, b_next_valid := False\<rparr>"
  have left: "run t1 s (index - s)" if "index - s \<noteq> 0"
    by (rule run_part [OF r]) (use that bs fits c runD(3) [OF r] in \<open>auto simp: same_skel_free [OF sk]\<close>)
  have right: "run t1 (index + count) (s + n - (index + count))" if "s + n - (index + count) \<noteq> 0"
    by (rule run_part [OF r]) (use that bs fits c runD(3) [OF r] in \<open>auto simp: same_skel_free [OF sk]\<close>)
  have news: "s \<notin> fst ` set (xs @ ys)" "s + n - (index + count) \<noteq> 0 \<Longrightarrow> index + count \<notin> fst ` set (xs @ ys)"
    by (rule run_new [OF fl]; use bs fits runD(1) [OF r] in auto)+
  have "\<exists>pdt' t' bs'. rbind (blk_insert pdt1 t1 c0) (\<lambda>(pdt, t). blk_insert pdt t c1) = Inr (pdt', t') \<and>
     fl_inv pdt' t' bs' \<and> set (xs @ ys) \<subseteq> set bs' \<and>
     (\<forall>b\<in>{c0, c1}. b_size b \<noteq> 0 \<longrightarrow> (b_self b, b_size b) \<in> set bs') \<and>
     same_skel t1 t' \<and> pd_core pdt' = pd_core pdt1"
  proof (rule put_back [OF fl1])
    show "hinted c0 xs ys" using b' by (auto simp: c0_def hinted_def rep_def)
  qed (use left right news bs(2) c in \<open>auto simp: c0_def c1_def split: if_splits\<close>)
  then obtain pdt2 t2 bs' where pb: "rbind (blk_insert pdt1 t1 c0) (\<lambda>(pdt, t). blk_insert pdt t c1) = Inr (pdt2, t2)"
     "fl_inv pdt2 t2 bs'" "set (xs @ ys) \<subseteq> set bs'"
     "\<forall>b\<in>{c0, c1}. b_size b \<noteq> 0 \<longrightarrow> (b_self b, b_size b) \<in> set bs'"
     "same_skel t1 t2" "pd_core pdt2 = pd_core pdt1" by blast
  have parts: "index - s \<noteq> 0 \<Longrightarrow> (s, index - s) \<in> set bs'"
    "s + n - (index + count) \<noteq> 0 \<Longrightarrow> (index + count, s + n - (index + count)) \<in> set bs'"
    using pb(4) by (auto simp: c0_def c1_def split: if_splits)
  have sk2: "same_skel (mark_preserve index count t) t2" using sk pb(5) by (rule same_skel_trans)
  have "covers t2 bs'"
  proof (rule covers_part [OF _ sk2 pb(3)])
    show "covers t (xs @ (s, n) # ys)" using inv bs by (simp add: table_inv_def)
    fix i assume i: "s \<le> i" "i < s + n" "\<not> (index \<le> i \<and> i < index + count)"
    show "\<exists>(s', n')\<in>set bs'. s' \<le> i \<and> i < s' + n'"
    proof (cases "i < index")
      case True
      then show ?thesis using i parts(1) by (intro bexI [of _ "(s, index - s)"]) auto
    next
      case False
      then show ?thesis using i parts(2)
        by (intro bexI [of _ "(index + count, s + n - (index + count))"]) auto
    qed
  qed
  then have "table_ok pdt2 t2" using pb(2) by (auto simp: table_ok_def table_inv_def)
  moreover have "imp_reserve_fixed pdt t index count = Inr (True, pdt2, t2)"
  proof -
    obtain pdt1' t1' where e: "blk_erase pdt t b' = Inr (pdt1', t1')" "preserve_pages t1' index count = Inr t1" "pdt1' = pdt1"
      using er by (auto simp: rbind_eq_Inr split: prod.splits)
    obtain pdt3 t3 where i0: "blk_insert pdt1 t1 c0 = Inr (pdt3, t3)" "blk_insert pdt3 t3 c1 = Inr (pdt2, t2)"
      using pb(1) by (auto simp: rbind_eq_Inr split: prod.splits)
    have "b_self b = s" "b_size b = n" "b_self b' = s" "b_size b' = n" using b b' by (simp_all add: rep_def)
    then show ?thesis using c pd i(2) get bs(2) fits rp e i0
      by (cases swapped) (simp_all add: imp_reserve_fixed_def kassert_def Let_def add.commute [of n s]
          swapped_def [symmetric] c0_def c1_def)
  qed
  ultimately show ?thesis using sk2 core pb(6) by auto
qed

end
