(* ===== verification/Page_Release.thy ===== *)
theory Page_Release
  imports Page_Reserve Phys_Mem
begin

text \<open>
  Releasing pages of one table (\<open>imp_release\<close> of \<^verbatim>\<open>kernel/memory/vm.cpp\<close>) and building a fresh table
  (\<open>new_pt\<close>): the free neighbours are merged, every committed frame goes back to the physical memory
  manager, and the table stays well formed.
\<close>

section \<open>\<open>imp_release\<close>\<close>

text \<open>The sequence \<open>block.get; resolve_prior; erase\<close> that \<open>imp_release\<close> repeats.\<close>

definition take_block :: "pdte \<Rightarrow> ptable \<Rightarrow> blk \<Rightarrow> nat \<Rightarrow> (blk \<times> pdte \<times> ptable) res" where
  "take_block pdt t old i =
     rbind (BLOCK_get old t i) (\<lambda>b.
     rbind (resolve_prior pdt t b) (\<lambda>b.
     rbind (blk_erase pdt t b) (\<lambda>(pdt, t). Inr (b, pdt, t))))"

definition release_merge :: "pdte \<Rightarrow> ptable \<Rightarrow> nat \<Rightarrow> nat \<Rightarrow> (blk \<times> pdte \<times> ptable) res" where
  "release_merge pdt t index count =
     (let has_prior = (index \<noteq> 0 \<and> pt_free (t (index - 1)));
          has_after = (index + count < 512 \<and> pt_free (t (index + count)))
      in
      if has_prior then
        (if has_after then
           rbind (take_block pdt t blk_uninit (index + count)) (\<lambda>(b, pdt, t).
           let removed_size = b_size b in
           rbind (take_block pdt t b (index - 1)) (\<lambda>(b, pdt, t).
           Inr (b\<lparr>b_size := b_size b + (removed_size + count)\<rparr>, pdt, t)))
         else
           rbind (take_block pdt t blk_uninit (index - 1)) (\<lambda>(b, pdt, t).
           Inr (b\<lparr>b_size := b_size b + count\<rparr>, pdt, t)))
      else
        (let new_size = count; b = blk_uninit\<lparr>b_prev_valid := False, b_next_valid := False\<rparr> in
         rbind
          (if has_after then
             rbind (take_block pdt t b (index + count)) (\<lambda>(b, pdt, t).
             Inr (b, new_size + b_size b, pdt, t))
           else Inr (b, new_size, pdt, t))
          (\<lambda>(b, new_size, pdt, t). Inr (b\<lparr>b_self := index, b_size := new_size\<rparr>, pdt, t))))"

fun release_pages :: "ptable \<Rightarrow> nat \<Rightarrow> nat \<Rightarrow> pm \<Rightarrow> qword \<Rightarrow> (ptable \<times> pm \<times> qword) res" where
  "release_pages t i 0 pm used_pages = Inr (t, pm, used_pages)"
| "release_pages t i (Suc k) pm used_pages =
     (let cur = t i in
      kassert (\<not> pt_bypass cur)
       (if pt_present cur \<and> pt_page_addr cur \<noteq> 0 then
          rbind (PM_release (pt_page_addr cur * 4096) pm) (\<lambda>pm.
          release_pages (t(i := cur\<lparr>pt_present := False, pt_page_addr := 0, pt_preserve := False\<rparr>))
            (i + 1) k pm (used_pages - 1))
        else if \<not> pt_preserve cur then bugcheck ''double release''
        else release_pages (t(i := cur\<lparr>pt_preserve := False\<rparr>)) (i + 1) k pm used_pages))"

definition pt_index :: "qword \<Rightarrow> nat" where
  "pt_index va = unat (drop_bit 12 va AND 0x1FF)"

definition imp_release ::
  "pdte \<Rightarrow> ptable \<Rightarrow> qword \<Rightarrow> nat \<Rightarrow> pm \<Rightarrow> qword \<Rightarrow> (pdte \<times> ptable \<times> pm \<times> qword) res" where
  "imp_release pdt t base_addr count pm used_pages =
     kassert (count \<noteq> 0 \<and> base_addr \<noteq> 0)
      (let index = pt_index base_addr in
       kassert (index + count \<le> 512) (kassert (pd_present pdt \<and> \<not> pd_bypass pdt)
        (rbind (release_merge pdt t index count) (\<lambda>(block, pdt, t).
         rbind (release_pages t index count pm used_pages) (\<lambda>(t, pm, used_pages).
         rbind (blk_insert pdt t block) (\<lambda>(pdt, t). Inr (pdt, t, pm, used_pages)))))))"

section \<open>A fresh table\<close>

definition pte_zero :: pte where
  "pte_zero = \<lparr>pt_present = False, pt_write = False, pt_user = False, pt_wt = False, pt_cd = False,
     pt_accessed = False, pt_dirty = False, pt_pat = False, pt_global = False, pt_type = OFF,
     pt_valid = False, pt_page_addr = 0, pt_data = 0, pt_preserve = False, pt_bypass = False,
     pt_xd = False\<rparr>"

definition pdte_zero :: pdte where
  "pdte_zero = \<lparr>pd_present = False, pd_write = False, pd_user = False, pd_remain = 0, pd_pt_addr = 0,
     pd_head = 0, pd_bypass = False\<rparr>"

text \<open>The entry and the table that \<open>new_pt\<close> writes once it has a frame.\<close>

definition new_pt_entry :: "nat \<Rightarrow> pdte" where
  "new_pt_entry frame =
     (put_max_size (pdte_zero\<lparr>pd_pt_addr := frame, pd_user := True, pd_write := True\<rparr>) 512)
       \<lparr>pd_present := True\<rparr>"

definition new_pt_table :: "ptable res" where
  "new_pt_table = BLOCK_put (blk_uninit\<lparr>b_size := 512\<rparr>) (\<lambda>_. pte_zero)"

section \<open>Correctness\<close>

definition rel_entry :: "pte \<Rightarrow> pte" where
  "rel_entry p = (if pt_present p \<and> pt_page_addr p \<noteq> 0
     then p\<lparr>pt_present := False, pt_page_addr := 0, pt_preserve := False\<rparr> else p\<lparr>pt_preserve := False\<rparr>)"

definition mark_release :: "nat \<Rightarrow> nat \<Rightarrow> ptable \<Rightarrow> ptable" where
  "mark_release a c t = (\<lambda>x. if a \<le> x \<and> x < a + c then rel_entry (t x) else t x)"

text \<open>A page that may be released: committed with a frame, or reserved and not present. The
  frames of a range, in the order \<open>imp_release\<close> returns them.\<close>

definition releasable :: "pte \<Rightarrow> bool" where
  "releasable p \<longleftrightarrow> \<not> pt_bypass p \<and> (if pt_present p then pt_page_addr p \<noteq> 0 else pt_preserve p)"

definition frames_in :: "ptable \<Rightarrow> nat \<Rightarrow> nat \<Rightarrow> nat list" where
  "frames_in t i k = map (\<lambda>j. pt_page_addr (t j)) (filter (\<lambda>j. pt_present (t j)) [i..<i + k])"

fun pm_release_all :: "nat list \<Rightarrow> pm \<Rightarrow> pm res" where
  "pm_release_all [] s = Inr s"
| "pm_release_all (f # fs) s = rbind (PM_release (f * 4096) s) (pm_release_all fs)"

lemma frames_in_Suc:
  "frames_in t i (Suc k) = (if pt_present (t i) then pt_page_addr (t i) # frames_in t (i + 1) k else frames_in t (i + 1) k)"
proof -
  have "[i..<i + Suc k] = i # [i + 1..<i + 1 + k]" by (simp add: upt_rec)
  then show ?thesis by (simp add: frames_in_def)
qed

lemma frames_in_upd: "j < i \<Longrightarrow> frames_in (t(j := p)) i k = frames_in t i k"
  by (auto simp: frames_in_def intro!: map_cong filter_cong)

lemma release_pages_closed:
  "(\<And>j. i \<le> j \<Longrightarrow> j < i + k \<Longrightarrow> releasable (t j)) \<Longrightarrow>
   release_pages t i k pm u = rbind (pm_release_all (frames_in t i k) pm)
     (\<lambda>pm'. Inr (mark_release i k t, pm', u - of_nat (length (frames_in t i k))))"
proof (induction k arbitrary: i t pm u)
  case 0
  have "mark_release i 0 t = t" by (rule ext) (auto simp: mark_release_def)
  then show ?case by (simp add: frames_in_def)
next
  case (Suc k)
  have ri: "releasable (t i)" using Suc.prems [of i] by simp
  have step: "mark_release (i + 1) k (t(i := rel_entry (t i))) = mark_release i (Suc k) t"
  proof
    fix x show "mark_release (i + 1) k (t(i := rel_entry (t i))) x = mark_release i (Suc k) t x"
      by (cases "x = i") (auto simp: mark_release_def)
  qed
  let ?t = "t(i := rel_entry (t i))"
  have up: "frames_in ?t (i + 1) k = frames_in t (i + 1) k" by (rule frames_in_upd) simp
  have "\<And>j. i + 1 \<le> j \<Longrightarrow> j < i + 1 + k \<Longrightarrow> releasable (?t j)" using Suc.prems by auto
  then have "release_pages ?t (i + 1) k pm' u' = rbind (pm_release_all (frames_in ?t (i + 1) k) pm')
       (\<lambda>pm'. Inr (mark_release (i + 1) k ?t, pm', u' - of_nat (length (frames_in ?t (i + 1) k))))" for pm' u'
    by (rule Suc.IH)
  then have IH: "release_pages ?t (i + 1) k pm' u' = rbind (pm_release_all (frames_in t (i + 1) k) pm')
       (\<lambda>pm'. Inr (mark_release i (Suc k) t, pm', u' - of_nat (length (frames_in t (i + 1) k))))" for pm' u'
    unfolding up step .
  show ?case
    using ri IH by (auto simp: frames_in_Suc releasable_def rel_entry_def rbind_assoc Let_def kassert_def diff_diff_eq)
qed

lemma rel_entry_free: "releasable p \<Longrightarrow> pt_free (rel_entry p)"
  by (auto simp: releasable_def rel_entry_def pt_free_def)

lemma releasable_not_free: "releasable p \<Longrightarrow> \<not> pt_free p"
  by (auto simp: releasable_def pt_free_def split: if_splits)

lemma releasable_skel: "skel p = skel q \<Longrightarrow> releasable p = releasable q"
  using skel_fields [of p q] by (simp add: releasable_def)

lemma mark_release_skel: "same_skel t t' \<Longrightarrow> same_skel (mark_release a c t) (mark_release a c t')"
proof -
  have up: "skel p = skel q \<Longrightarrow> skel (rel_entry p) = skel (rel_entry q)" for p q
    using skel_fields [of p q] by (cases p; cases q) (simp add: skel_def rel_entry_def)
  have *: "skel (t' i) = skel (t i) \<Longrightarrow> skel (mark_release a c t' i) = skel (mark_release a c t i)" for i
    by (cases "a \<le> i \<and> i < a + c") (auto simp: mark_release_def intro: up)
  assume "same_skel t t'"
  then have "skel (mark_release a c t' i) = skel (mark_release a c t i)" for i
    by (intro *) (simp add: same_skel_def)
  then show ?thesis by (simp add: same_skel_def)
qed

lemma frames_in_skel: "same_skel t t' \<Longrightarrow> frames_in t' i k = frames_in t i k"
proof -
  assume "same_skel t t'"
  then have "pt_present (t' j) = pt_present (t j) \<and> pt_page_addr (t' j) = pt_page_addr (t j)" for j
    using skel_fields [of "t' j" "t j"] by (simp add: same_skel_def)
  then show ?thesis by (simp add: frames_in_def)
qed


lemma take_block_ok:
  assumes inv: "fl_inv pdt t bs" and m: "(s, n) \<in> set bs" and k: "k < n" "k = 2 \<longrightarrow> n = 4"
  shows "\<exists>b pdt' t' xs ys. take_block pdt t old (s + k) = Inr (b, pdt', t') \<and> bs = xs @ (s, n) # ys \<and>
     fl_inv pdt' t' (xs @ ys) \<and> rep b s n (first ys None) (lastb xs None) \<and> same_skel t t' \<and>
     pd_core pdt' = pd_core pdt"
proof -
  obtain xs ys where bs: "bs = xs @ (s, n) # ys" using m by (meson split_list)
  have inv': "fl_inv pdt t (xs @ (s, n) # ys)" using inv bs by simp
  from fl_inv_get [OF inv' k, of old] obtain b where b: "BLOCK_get old t (s + k) = Inr b"
    "rep b s n (first ys None) (if 1 < n then lastb xs None else None)" by blast
  from resolve_prior_ok [OF inv' b(2)] obtain b' where b': "resolve_prior pdt t b = Inr b'"
    "rep b' s n (first ys None) (lastb xs None)" by blast
  from erase_ok [OF inv' b'(2)] obtain pdt' t' where e: "blk_erase pdt t b' = Inr (pdt', t')"
    "fl_inv pdt' t' (xs @ ys)" "same_skel t t'" "pd_core pdt' = pd_core pdt" by blast
  have "take_block pdt t old (s + k) = Inr (b', pdt', t')" using b(1) b'(1) e(1) by (simp add: take_block_def)
  then show ?thesis using bs b'(2) e by blast
qed

text \<open>The block that ends just before a free boundary, and the one that starts at it.\<close>

lemma prior_block:
  assumes inv: "table_inv pdt t bs" and i: "0 < i" "i \<le> 512" "pt_free (t (i - 1))" "i < 512 \<longrightarrow> \<not> pt_free (t i)"
    and ok: "\<not> size_page t (i - 1)"
  obtains s n where "(s, n) \<in> set bs" "s + n = i" "n - 1 = 2 \<longrightarrow> n = 4"
proof -
  have "i - 1 < 512" using i by linarith
  from block_at [OF inv this i(3) ok] obtain xs s n ys where m: "bs = xs @ (s, n) # ys" "s \<le> i - 1"
    "i - 1 < s + n" "i - 1 - s = 2 \<longrightarrow> n = 4" .
  have sn: "(s, n) \<in> set bs" using m(1) by simp
  have r: "run t s n" using inv sn fl_inv_run unfolding table_inv_def by blast
  have "s + n = i"
  proof (rule ccontr)
    assume "s + n \<noteq> i"
    then have "i < s + n" using m i by linarith
    then have "pt_free (t i)" "i < 512" using runD(2) [OF r] runD(3) [OF r, of i] m(2) by linarith+
    then show False using i by simp
  qed
  moreover have "n - 1 = 2 \<longrightarrow> n = 4" using m(2,4) calculation i(1) by auto
  ultimately show thesis using that sn by blast
qed

lemma after_block:
  assumes inv: "table_inv pdt t bs" and i: "i < 512" "0 < i" "pt_free (t i)" "\<not> pt_free (t (i - 1))"
  obtains n where "(i, n) \<in> set bs"
proof -
  obtain s n where m: "(s, n) \<in> set bs" "s \<le> i" "i < s + n"
    using inv i unfolding table_inv_def covers_def by blast
  have r: "run t s n" using inv m(1) fl_inv_run by (auto simp: table_inv_def)
  have "s = i"
  proof (rule ccontr)
    assume "s \<noteq> i"
    then have "pt_free (t (i - 1))" using runD(3) [OF r, of "i - 1"] m by auto
    then show False using i by simp
  qed
  with that m show thesis by blast
qed


text \<open>What \<open>release_merge\<close> leaves: the neighbours of the range are off the list, and the block to insert
  spans them and the range.\<close>

definition merged :: "ptable \<Rightarrow> (nat \<times> nat) list \<Rightarrow> nat \<Rightarrow> nat \<Rightarrow> blk \<Rightarrow> (nat \<times> nat) list \<Rightarrow> bool" where
  "merged t bs index e b zs \<longleftrightarrow>
     set zs = {(s, n). (s, n) \<in> set bs \<and> s + n \<noteq> index \<and> s \<noteq> e} \<and>
     b_self b \<le> index \<and> e \<le> b_self b + b_size b \<and>
     (b_self b < index \<longrightarrow> (b_self b, index - b_self b) \<in> set bs) \<and>
     (e < b_self b + b_size b \<longrightarrow> (e, b_self b + b_size b - e) \<in> set bs) \<and>
     (b_self b = index \<and> 0 < index \<longrightarrow> \<not> pt_free (t (index - 1))) \<and>
     (b_self b + b_size b = e \<and> e < 512 \<longrightarrow> \<not> pt_free (t e))"

lemma set_remove_block:
  "distinct (map fst (xs @ (s, n) # ys)) \<Longrightarrow>
    set (xs @ ys) = {(s', n'). (s', n') \<in> set (xs @ (s, n) # ys) \<and> s' \<noteq> s}"
  by (auto simp: image_iff)

lemma release_merge_ok:
  assumes inv: "table_inv pdt t bs" and c: "0 < count" "e = index + count" "e \<le> 512"
    and nf: "\<And>j. index \<le> j \<Longrightarrow> j < e \<Longrightarrow> \<not> pt_free (t j)"
    and ok: "0 < index \<Longrightarrow> \<not> size_page t (index - 1)"
  shows "\<exists>b pdt' t' xs ys. release_merge pdt t index count = Inr (b, pdt', t') \<and>
     fl_inv pdt' t' (xs @ ys) \<and> hinted b xs ys \<and> same_skel t t' \<and> pd_core pdt' = pd_core pdt \<and>
     merged t bs index e b (xs @ ys)"
proof -
  have fl: "fl_inv pdt t bs" using inv by (simp add: table_inv_def)
  have runs: "run t s n" "0 < n" if "(s, n) \<in> set bs" for s n
    using fl_inv_run [OF fl that] runD(1) by auto
  have nfi: "\<not> pt_free (t index)" "\<not> pt_free (t (e - 1))" using nf c by auto
  define pr where "pr \<longleftrightarrow> index \<noteq> 0 \<and> pt_free (t (index - 1))"
  define af where "af \<longleftrightarrow> e < 512 \<and> pt_free (t e)"
  have no_prior: "s + n \<noteq> index" if "\<not> pr" "(s, n) \<in> set bs" for s n
  proof
    assume "s + n = index"
    moreover have "pt_free (t (s + n - 1))"
      using runD(3) [OF runs(1) [OF that(2)], of "s + n - 1"] runs(2) [OF that(2)] by simp
    ultimately show False using that runs(2) [OF that(2)] by (auto simp: pr_def)
  qed
  have no_after: "s \<noteq> e" if "\<not> af" "(s, n) \<in> set bs" for s n
    using that runD(3) [OF runs(1) [OF that(2)], of s] run_start_less [OF runs(1) [OF that(2)]]
      runs(2) [OF that(2)] by (auto simp: af_def)
  have dist: "distinct (map fst bs)" using fl by (simp add: fl_inv_def)
  have ends: "s' + n' \<noteq> index \<longleftrightarrow> s' \<noteq> s" if "(s, n) \<in> set bs" "s + n = index" "(s', n') \<in> set bs" for s n s' n'
  proof (cases "s' = s")
    case True
    then have "n = n'" using run_unique [OF runs(1) [OF that(1)]] runs(1) [OF that(3)] by simp
    then show ?thesis using True that(2) by simp
  next
    case False
    have "s' + n' \<noteq> index"
    proof
      assume "s' + n' = index"
      then have "s' \<le> index - 1" "index - 1 < s' + n'" "s \<le> index - 1" "index - 1 < s + n"
        using that(2) runs(2) [OF that(1)] runs(2) [OF that(3)] by linarith+
      then show False using run_disjoint [OF runs(1) [OF that(3)] runs(1) [OF that(1)] False] by blast
    qed
    then show ?thesis using False by simp
  qed
  have aft: "\<exists>b pdt' t' xs ys n. take_block pdt t old e = Inr (b, pdt', t') \<and> bs = xs @ (e, n) # ys \<and>
      fl_inv pdt' t' (xs @ ys) \<and> rep b e n (first ys None) (lastb xs None) \<and> same_skel t t' \<and>
      pd_core pdt' = pd_core pdt" if "af" for old
  proof -
    from after_block [OF inv, of e] that nfi c obtain n where n: "(e, n) \<in> set bs" by (auto simp: af_def)
    from take_block_ok [OF fl n, of 0 old] runs(2) [OF n] show ?thesis by fastforce
  qed
  have pri: "\<exists>b pdt2 t2 xs ys s n. take_block pdt1 t1 old (index - 1) = Inr (b, pdt2, t2) \<and>
      bs1 = xs @ (s, n) # ys \<and> s + n = index \<and> 0 < n \<and> (s, n) \<in> set bs \<and>
      fl_inv pdt2 t2 (xs @ ys) \<and> rep b s n (first ys None) (lastb xs None) \<and> same_skel t1 t2 \<and>
      pd_core pdt2 = pd_core pdt1"
    if "pr" "fl_inv pdt1 t1 bs1" "\<And>s n. (s, n) \<in> set bs \<Longrightarrow> s \<noteq> e \<Longrightarrow> (s, n) \<in> set bs1" for old pdt1 t1 bs1
  proof -
    have "0 < index" "pt_free (t (index - 1))" using that(1) by (auto simp: pr_def)
    moreover have "index \<le> 512" "index < 512 \<longrightarrow> \<not> pt_free (t index)" using nfi c by auto
    ultimately obtain s n where m: "(s, n) \<in> set bs" "s + n = index" and n4: "n - 1 = 2 \<longrightarrow> n = 4"
      using prior_block [OF inv, of index] ok by blast
    have m1: "(s, n) \<in> set bs1" using that(3) m c runs(2) [OF m(1)] by auto
    have lt: "n - 1 < n" and eq: "s + (n - 1) = index - 1" using runs(2) [OF m(1)] m(2) by linarith+
    from take_block_ok [OF that(2) m1 lt n4, of old] eq m runs(2) [OF m(1)] show ?thesis
      by metis
  qed
  have rm: "release_merge pdt t index count = (if pr then
        (if af then rbind (take_block pdt t blk_uninit e) (\<lambda>(b, pdt, t).
           rbind (take_block pdt t b (index - 1)) (\<lambda>(b', pdt, t).
           Inr (b'\<lparr>b_size := b_size b' + (b_size b + count)\<rparr>, pdt, t)))
         else rbind (take_block pdt t blk_uninit (index - 1)) (\<lambda>(b, pdt, t).
           Inr (b\<lparr>b_size := b_size b + count\<rparr>, pdt, t)))
      else (if af then rbind (take_block pdt t (blk_uninit\<lparr>b_prev_valid := False, b_next_valid := False\<rparr>) e)
             (\<lambda>(b, pdt, t). Inr (b\<lparr>b_self := index, b_size := count + b_size b\<rparr>, pdt, t))
           else Inr (blk_uninit\<lparr>b_prev_valid := False, b_next_valid := False, b_self := index, b_size := count\<rparr>, pdt, t)))"
    unfolding release_merge_def Let_def pr_def af_def c(2) [symmetric]
    by (simp add: rbind_assoc case_prod_unfold)
  show ?thesis
  proof (cases pr; cases af)
    assume "pr" "af"
    from aft [OF \<open>af\<close>, of blk_uninit] obtain b1 pdt1 t1 xs ys n1 where
      1: "take_block pdt t blk_uninit e = Inr (b1, pdt1, t1)" "bs = xs @ (e, n1) # ys"
      "fl_inv pdt1 t1 (xs @ ys)" "rep b1 e n1 (first ys None) (lastb xs None)" "same_skel t t1"
      "pd_core pdt1 = pd_core pdt" by blast
    note sx = set_remove_block [OF dist [unfolded 1(2)], folded 1(2)]
    from pri [OF \<open>pr\<close> 1(3), of b1] sx obtain b2 pdt2 t2 us vs s n where
      2: "take_block pdt1 t1 b1 (index - 1) = Inr (b2, pdt2, t2)" "xs @ ys = us @ (s, n) # vs" "s + n = index"
      "0 < n" "(s, n) \<in> set bs" "fl_inv pdt2 t2 (us @ vs)" "rep b2 s n (first vs None) (lastb us None)"
      "same_skel t1 t2" "pd_core pdt2 = pd_core pdt1" by fastforce
    have "distinct (map fst (us @ (s, n) # vs))" using 1(3) 2(2) by (simp add: fl_inv_def)
    note su = set_remove_block [OF this, folded 2(2)]
    let ?b = "b2\<lparr>b_size := b_size b2 + (b_size b1 + count)\<rparr>"
    have sz: "b_size b1 = n1" "b_size b2 = n" "b_self b2 = s" using 1(4) 2(7) by (auto simp: rep_def)
    note ne = ends [OF 2(5,3)]
    have "merged t bs index e ?b (us @ vs)"
      unfolding merged_def using su sx sz 2(3-5) 1(2) c ne runs(2) [of e n1] by auto
    moreover have "hinted ?b us vs" using 2(7) by (simp add: hinted_def rep_def)
    ultimately show ?thesis
      using rm \<open>pr\<close> \<open>af\<close> 1(1,5,6) 2(1,6,8,9) same_skel_trans [OF 1(5) 2(8)] by fastforce
  next
    assume "pr" "\<not> af"
    from pri [OF \<open>pr\<close> fl, of blk_uninit] obtain b2 pdt2 t2 us vs s n where
      2: "take_block pdt t blk_uninit (index - 1) = Inr (b2, pdt2, t2)" "bs = us @ (s, n) # vs" "s + n = index"
      "0 < n" "(s, n) \<in> set bs" "fl_inv pdt2 t2 (us @ vs)" "rep b2 s n (first vs None) (lastb us None)"
      "same_skel t t2" "pd_core pdt2 = pd_core pdt" by fastforce
    note su = set_remove_block [OF dist [unfolded 2(2)], folded 2(2)]
    let ?b = "b2\<lparr>b_size := b_size b2 + count\<rparr>"
    have sz: "b_size b2 = n" "b_self b2 = s" using 2(7) by (auto simp: rep_def)
    have "set (us @ vs) = {(s, n). (s, n) \<in> set bs \<and> s + n \<noteq> index \<and> s \<noteq> e}"
      unfolding su using ends [OF 2(5,3)] no_after [OF \<open>\<not> af\<close>] by blast
    moreover have "(s, index - s) \<in> set bs" "s < index" using 2(3-5) by auto
    ultimately have "merged t bs index e ?b (us @ vs)"
      unfolding merged_def using sz 2(3) c \<open>\<not> af\<close> by (simp add: af_def) auto
    moreover have "hinted ?b us vs" using 2(7) by (simp add: hinted_def rep_def)
    ultimately show ?thesis using rm \<open>pr\<close> \<open>\<not> af\<close> 2(1,6,8,9) by fastforce
  next
    assume "\<not> pr" "af"
    let ?u = "blk_uninit\<lparr>b_prev_valid := False, b_next_valid := False\<rparr>"
    from aft [OF \<open>af\<close>, of ?u] obtain b1 pdt1 t1 xs ys n1 where
      1: "take_block pdt t ?u e = Inr (b1, pdt1, t1)" "bs = xs @ (e, n1) # ys"
      "fl_inv pdt1 t1 (xs @ ys)" "rep b1 e n1 (first ys None) (lastb xs None)" "same_skel t t1"
      "pd_core pdt1 = pd_core pdt" by blast
    note sx = set_remove_block [OF dist [unfolded 1(2)], folded 1(2)]
    let ?b = "b1\<lparr>b_self := index, b_size := count + b_size b1\<rparr>"
    have sz: "b_size b1 = n1" using 1(4) by (auto simp: rep_def)
    have "merged t bs index e ?b (xs @ ys)"
      unfolding merged_def using sx sz 1(2) c runs(2) [of e n1] no_prior [OF \<open>\<not> pr\<close>] \<open>\<not> pr\<close>
      by (auto simp: pr_def)
    moreover have "hinted ?b xs ys" using 1(4) by (simp add: hinted_def rep_def)
    ultimately show ?thesis using rm \<open>\<not> pr\<close> \<open>af\<close> 1(1,3,5,6) by fastforce
  next
    assume "\<not> pr" "\<not> af"
    let ?b = "blk_uninit\<lparr>b_prev_valid := False, b_next_valid := False, b_self := index, b_size := count\<rparr>"
    have "merged t bs index e ?b ([] @ bs)"
      unfolding merged_def using c no_prior [OF \<open>\<not> pr\<close>] no_after [OF \<open>\<not> af\<close>] \<open>\<not> pr\<close> \<open>\<not> af\<close>
      by (auto simp: pr_def af_def)
    moreover have "hinted ?b [] bs" by (simp add: hinted_def)
    moreover have "fl_inv pdt t ([] @ bs)" using fl by simp
    moreover have "release_merge pdt t index count = Inr (?b, pdt, t)" using rm \<open>\<not> pr\<close> \<open>\<not> af\<close> by simp
    ultimately show ?thesis using same_skel_refl by blast
  qed
qed


text \<open>Freeing a range keeps the blocks that do not touch it.\<close>

lemma fl_inv_release:
  assumes inv: "fl_inv pdt t zs" and e: "e = index + count"
    and rel: "\<And>j. index \<le> j \<Longrightarrow> j < e \<Longrightarrow> releasable (t j)"
    and far: "\<And>s n. (s, n) \<in> set zs \<Longrightarrow> s + n \<noteq> index \<and> s \<noteq> e"
  shows "fl_inv pdt (mark_release index count t) zs"
proof -
  let ?t = "mark_release index count t"
  have out: "\<not> (index \<le> i \<and> i < e)" if "(s, n) \<in> set zs" "s \<le> i" "i < s + n" for s n i
    using runD(3) [OF fl_inv_run [OF inv that(1)] that(2,3)] rel [of i] releasable_not_free by auto
  have same: "?t i = t i" if "(s, n) \<in> set zs" "s \<le> i" "i < s + n" for s n i
    using out [OF that] e by (auto simp: mark_release_def)
  have ends: "\<not> (index \<le> s + n \<and> s + n < e)" "0 < s \<Longrightarrow> \<not> (index \<le> s - 1 \<and> s - 1 < e)"
    if m: "(s, n) \<in> set zs" for s n
  proof -
    have n: "0 < n" using runD(1) [OF fl_inv_run [OF inv m]] .
    show "\<not> (index \<le> s + n \<and> s + n < e)"
    proof
      assume *: "index \<le> s + n \<and> s + n < e"
      then have "index \<le> s + n - 1" "s + n - 1 < e" using far [OF m] n by linarith+
      then show False using out [OF m, of "s + n - 1"] n by linarith
    qed
    show "\<not> (index \<le> s - 1 \<and> s - 1 < e)" if "0 < s"
      using far [OF m] out [OF m, of s] n that by auto
  qed
  have "run ?t s n" if m: "(s, n) \<in> set zs" for s n
    unfolding run_def
  proof (intro conjI allI impI)
    note r = fl_inv_run [OF inv m]
    show "0 < n" "s + n \<le> 512" using runD(1,2) [OF r] by auto
    show "pt_free (?t i)" if "s \<le> i \<and> i < s + n" for i using same [OF m] runD(3) [OF r] that by simp
    show "\<not> pt_free (?t (s + n))" if "s + n < 512"
      using r that ends(1) [OF m] e by (auto simp: mark_release_def run_def)
    show "\<not> pt_free (?t (s - 1))" if "0 < s"
      using r that ends(2) [OF m that] e by (auto simp: mark_release_def run_def)
  qed
  moreover have "list_enc ?t None zs None = list_enc t None zs None"
    using same runD(1) [OF fl_inv_run [OF inv]] by (intro list_enc_cong) auto
  ultimately show ?thesis using inv unfolding fl_inv_def by auto
qed

lemma mergedD:
  assumes "merged t bs index e b zs" "table_inv pdt t bs"
  shows "b_self b \<le> index" "e \<le> b_self b + b_size b"
    "b_self b < index \<Longrightarrow> run t (b_self b) (index - b_self b)"
    "e < b_self b + b_size b \<Longrightarrow> run t e (b_self b + b_size b - e)"
    "b_self b = index \<Longrightarrow> 0 < index \<Longrightarrow> \<not> pt_free (t (index - 1))"
    "b_self b + b_size b = e \<Longrightarrow> e < 512 \<Longrightarrow> \<not> pt_free (t e)"
    "(s, n) \<in> set zs \<longleftrightarrow> (s, n) \<in> set bs \<and> s + n \<noteq> index \<and> s \<noteq> e"
    "(s, n) \<in> set bs \<Longrightarrow> run t s n"
proof -
  have runs: "(s, n) \<in> set bs \<Longrightarrow> run t s n" for s n
    using assms(2) fl_inv_run unfolding table_inv_def by blast
  note m = assms(1) [unfolded merged_def]
  show "b_self b \<le> index" "e \<le> b_self b + b_size b" using m by blast+
  show "run t (b_self b) (index - b_self b)" if "b_self b < index" using m that runs by blast
  show "run t e (b_self b + b_size b - e)" if "e < b_self b + b_size b" using m that runs by blast
  show "\<not> pt_free (t (index - 1))" if "b_self b = index" "0 < index" using m that by blast
  show "\<not> pt_free (t e)" if "b_self b + b_size b = e" "e < 512" using m that by blast
  show "(s, n) \<in> set zs \<longleftrightarrow> (s, n) \<in> set bs \<and> s + n \<noteq> index \<and> s \<noteq> e" using m by blast
  show "(s, n) \<in> set bs \<Longrightarrow> run t s n" by (rule runs)
qed

lemma merged_run:
  assumes inv: "table_inv pdt t bs" and m: "merged t bs index e b zs" and c: "0 < count" "e = index + count" "e \<le> 512"
    and rel: "\<And>j. index \<le> j \<Longrightarrow> j < e \<Longrightarrow> releasable (t j)"
    and t': "\<And>i. pt_free (t' i) \<longleftrightarrow> pt_free (mark_release index count t i)"
  shows "run t' (b_self b) (b_size b)"
proof -
  let ?s = "b_self b" and ?n = "b_size b"
  have fr: "pt_free (t' i) \<longleftrightarrow> pt_free (t i) \<or> (index \<le> i \<and> i < e)" for i
    using t' [of i] rel [of i] rel_entry_free c(2) by (auto simp: mark_release_def)
  note bnd = mergedD(1,2) [OF m inv] and lo = mergedD(3) [OF m inv] and hi = mergedD(4) [OF m inv]
    and ends = mergedD(5,6) [OF m inv]
  show ?thesis
    unfolding run_def
  proof (intro conjI allI impI)
    show "0 < ?n" using bnd c by linarith
    show "?s + ?n \<le> 512" using hi bnd c by (cases "e < ?s + ?n") (auto simp: run_def)
    show "pt_free (t' i)" if "?s \<le> i \<and> i < ?s + ?n" for i
    proof -
      consider "i < index" | "index \<le> i" "i < e" | "e \<le> i" by linarith
      then show ?thesis
      proof cases
        case 1
        then show ?thesis using fr runD(3) [OF lo, of i] that by auto
      next
        case 2
        then show ?thesis using fr by simp
      next
        case 3
        then show ?thesis using fr runD(3) [OF hi, of i] that by auto
      qed
    qed
    show "\<not> pt_free (t' (?s + ?n))" if "?s + ?n < 512"
      using that fr [of "?s + ?n"] bnd hi ends by (cases "e < ?s + ?n") (auto simp: run_def)
    show "\<not> pt_free (t' (?s - 1))" if "0 < ?s"
      using that fr [of "?s - 1"] bnd lo ends by (cases "?s < index") (auto simp: run_def)
  qed
qed

lemma merged_new:
  assumes inv: "table_inv pdt t bs" and m: "merged t bs index e b zs" and i: "\<not> pt_free (t index)" "index < e"
  shows "b_self b \<notin> fst ` set zs"
proof
  assume "b_self b \<in> fst ` set zs"
  then obtain n where n: "(b_self b, n) \<in> set zs" by force
  then have *: "run t (b_self b) n" "b_self b + n \<noteq> index" using mergedD(7,8) [OF m inv] by auto
  have "b_self b \<noteq> index" using runD(1,3) [OF *(1)] i by auto
  then have "b_self b < index" using mergedD(1) [OF m inv] by linarith
  then show False using mergedD(3) [OF m inv] run_unique [OF *(1)] *(2) by fastforce
qed

lemma merged_covers:
  assumes inv: "table_inv pdt t bs" and m: "merged t bs index e b zs" and e: "index < e" "e \<le> 512"
    and free: "\<And>i. pt_free (t' i) \<Longrightarrow> pt_free (t i) \<or> (index \<le> i \<and> i < e)"
    and zs: "set zs' = insert (b_self b, b_size b) (set zs)"
  shows "covers t' zs'"
  unfolding covers_def
proof (intro allI impI)
  fix i :: nat assume i: "i < 512" "pt_free (t' i)"
  note D = mergedD [OF m inv]
  show "\<exists>(s, n)\<in>set zs'. s \<le> i \<and> i < s + n"
  proof (cases "b_self b \<le> i \<and> i < b_self b + b_size b")
    case True
    then show ?thesis using zs by auto
  next
    case False
    then have "\<not> (index \<le> i \<and> i < e)" using D(1,2) by linarith
    then have "pt_free (t i)" using free [OF i(2)] by blast
    then obtain s n where sn: "(s, n) \<in> set bs" "s \<le> i" "i < s + n"
      using inv i unfolding table_inv_def covers_def by blast
    have rn: "run t s n" using D(8) sn(1) .
    have "s + n \<noteq> index"
    proof
      assume *: "s + n = index"
      have fr: "pt_free (t (index - 1))" "0 < index" using runD(3) [OF rn, of "index - 1"] * sn by auto
      then have lt: "b_self b < index" using D(1,5) by fastforce
      then have "s = b_self b"
        using run_disjoint [OF rn D(3) [OF lt], of "index - 1"] * sn by fastforce
      then show False using False sn * D(2) e by linarith
    qed
    moreover have "s \<noteq> e"
    proof
      assume *: "s = e"
      then have "pt_free (t e)" "e < 512" using runD(1,3) [OF rn] run_start_less [OF rn] by auto
      then have lt: "e < b_self b + b_size b" using D(2,6) by fastforce
      then have "n = b_self b + b_size b - e" using run_unique [OF D(4) [OF lt]] rn * by simp
      then show False using False sn * D(1) lt e by linarith
    qed
    ultimately have "(s, n) \<in> set zs" using D(7) sn(1) by blast
    then show ?thesis using sn zs by blast
  qed
qed

text \<open>\<open>imp_release\<close> up to the frames: given that the physical memory manager accepts them.\<close>

theorem imp_release_ok:
  assumes inv: "table_inv pdt t bs" and c: "0 < count" "pt_index base + count \<le> 512" "base \<noteq> 0"
    and pd: "pd_present pdt" "\<not> pd_bypass pdt"
    and rel: "\<And>j. pt_index base \<le> j \<Longrightarrow> j < pt_index base + count \<Longrightarrow> releasable (t j)"
    and ok: "0 < pt_index base \<Longrightarrow> \<not> size_page t (pt_index base - 1)"
    and pm: "pm_release_all (frames_in t (pt_index base) count) pm = Inr pm'"
  shows "\<exists>pdt' t'. imp_release pdt t base count pm u =
       Inr (pdt', t', pm', u - of_nat (length (frames_in t (pt_index base) count))) \<and>
     table_ok pdt' t' \<and> same_skel (mark_release (pt_index base) count t) t' \<and> pd_core pdt' = pd_core pdt"
proof -
  define index where "index = pt_index base"
  define e where "e = index + count"
  have rel': "releasable (t j)" if "index \<le> j" "j < e" for j using rel that by (simp add: index_def e_def)
  have e: "e \<le> 512" "index < e" using c by (simp_all add: index_def e_def)
  from release_merge_ok [OF inv c(1) e_def e(1)] rel' releasable_not_free ok
  obtain b pdt1 t1 xs ys where 1: "release_merge pdt t index count = Inr (b, pdt1, t1)"
    "fl_inv pdt1 t1 (xs @ ys)" "hinted b xs ys" "same_skel t t1" "pd_core pdt1 = pd_core pdt"
    "merged t bs index e b (xs @ ys)" unfolding index_def by blast
  have rel1: "releasable (t1 j)" if "index \<le> j" "j < e" for j
    using rel' [OF that] releasable_skel [of "t1 j" "t j"] 1(4) by (simp add: same_skel_def)
  let ?t2 = "mark_release index count t1"
  have rp: "release_pages t1 index count pm u =
      Inr (?t2, pm', u - of_nat (length (frames_in t index count)))"
    using release_pages_closed [of index count t1 pm u] rel1 pm frames_in_skel [OF 1(4)]
    by (simp add: e_def index_def)
  have sk2: "same_skel (mark_release index count t) ?t2" using 1(4) by (rule mark_release_skel)
  have fl2: "fl_inv pdt1 ?t2 (xs @ ys)"
    by (rule fl_inv_release [OF 1(2) e_def rel1]) (use mergedD(7) [OF 1(6) inv] in auto)
  have r2: "run ?t2 (b_self b) (b_size b)"
    using same_skel_free [OF sk2] by (intro merged_run [OF inv 1(6) c(1) e_def e(1) rel']) auto
  have new: "b_self b \<notin> fst ` set (xs @ ys)"
    using releasable_not_free [OF rel' [OF order_refl e(2)]] e(2) by (rule merged_new [OF inv 1(6)])
  from insert_ok [OF fl2 1(3) r2 new] obtain pdt3 t3 us vs where
    3: "blk_insert pdt1 ?t2 b = Inr (pdt3, t3)" "xs @ ys = us @ vs"
    "fl_inv pdt3 t3 (us @ (b_self b, b_size b) # vs)" "same_skel ?t2 t3" "pd_core pdt3 = pd_core pdt1" by blast
  have sk3: "same_skel (mark_release index count t) t3" using sk2 3(4) by (rule same_skel_trans)
  have "covers t3 (us @ (b_self b, b_size b) # vs)"
    by (rule merged_covers [OF inv 1(6) e(2,1)])
      (use same_skel_free [OF sk3] 3(2) in \<open>auto simp: mark_release_def e_def split: if_splits\<close>)
  then have "table_ok pdt3 t3" using 3(3) by (auto simp: table_ok_def table_inv_def)
  moreover have "imp_release pdt t base count pm u =
      Inr (pdt3, t3, pm', u - of_nat (length (frames_in t index count)))"
    using c pd 1(1) rp 3(1) unfolding imp_release_def Let_def index_def [symmetric]
    by (simp add: kassert_def)
  ultimately show ?thesis using sk3 1(5) 3(5) by (auto simp: index_def)
qed


section \<open>Returning the frames\<close>

lemma pm_release_all_ok:
  assumes "pm_inv s" "distinct fs" "\<And>f. f \<in> set fs \<Longrightarrow> f < bmp_size s \<and> f \<noteq> 0 \<and> \<not> free (bmp s f)"
    and "length fs \<le> used s"
  shows "\<exists>s'. pm_release_all fs s = Inr s' \<and> pm_inv s' \<and> frames_of s' = frames_of s \<union> set fs \<and>
     used s' = used s - length fs \<and> reserved s' = reserved s \<and> bmp_size s' = bmp_size s"
  using assms
proof (induction fs arbitrary: s)
  case (Cons f fs)
  have f: "f < bmp_size s" "f \<noteq> 0" "\<not> free (bmp s f)" "used s \<noteq> 0" using Cons.prems by auto
  from release_ok [OF Cons.prems(1) f] obtain s1 where s1: "PM_release (f * PAGE_SIZE) s = Inr s1" "pm_inv s1"
    "frames_of s1 = insert f (frames_of s)" "used s1 = used s - 1" "reserved s1 = reserved s" by blast
  have sz: "bmp_size s1 = bmp_size s"
    using s1(1) f by (auto simp: PM_release_def Let_def kassert_def split: if_splits)
  have "\<not> free (bmp s1 g)" if "g \<in> set fs" for g
  proof -
    have "g \<notin> frames_of s" "g \<noteq> f" "g < bmp_size s1"
      using Cons.prems that sz by (auto simp: frames_of_def free_frames_def)
    then show ?thesis using s1(3) sz by (auto simp: frames_of_def free_frames_def)
  qed
  then have "\<exists>s'. pm_release_all fs s1 = Inr s' \<and> pm_inv s' \<and> frames_of s' = frames_of s1 \<union> set fs \<and>
     used s' = used s1 - length fs \<and> reserved s' = reserved s1 \<and> bmp_size s' = bmp_size s1"
    using Cons.prems s1(2,4) sz by (intro Cons.IH) auto
  then show ?case using s1 sz by auto
qed simp

section \<open>The fresh table\<close>

lemma new_pt_table_ok:
  "\<exists>t. new_pt_table = Inr t \<and> table_inv (new_pt_entry f) t [(0, 512)] \<and> (\<forall>i. skel (t i) = skel pte_zero)"
proof -
  let ?b = "blk_uninit\<lparr>b_size := 512\<rparr>"
  have r: "run (\<lambda>_. pte_zero) 0 512" by (simp add: run_def pt_free_def pte_zero_def)
  have b: "rep ?b 0 512 None None" by (simp add: rep_def blk_uninit_def)
  have put: "new_pt_table = Inr (put_tbl ?b (\<lambda>_. pte_zero))"
    unfolding new_pt_table_def by (rule BLOCK_put_closed) (use r in \<open>simp add: blk_uninit_def\<close>)
  have sk: "same_skel (\<lambda>_. pte_zero) (put_tbl ?b (\<lambda>_. pte_zero))" by simp
  have "blk_enc (put_tbl ?b (\<lambda>_. pte_zero)) 0 512 None None" by (rule put_tbl_enc [OF r b]) auto
  then have "fl_inv (new_pt_entry f) (put_tbl ?b (\<lambda>_. pte_zero)) [(0, 512)]"
    using r same_skel_run [OF sk] by (simp add: fl_inv_def new_pt_entry_def put_max_size_def max_block_def pdte_zero_def)
  then show ?thesis using put sk by (auto simp: table_inv_def covers_def same_skel_def)
qed

end
