(* ===== verification/Page_Table.thy ===== *)
theory Page_Table
  imports Page_Release
begin

text \<open>
  What one page table promises its address space, stated over the operations of
  \<^verbatim>\<open>kernel/memory/vm.cpp\<close>: reservations take free pages only and never overlap, a release gives the
  pages and their frames back, a fresh table is entirely free. \<open>page_pool\<close> is the contract a client
  relies on; the table with its two reserve operations is its instance.
\<close>

section \<open>The contract\<close>

locale page_pool =
  fixes ok :: "'s \<Rightarrow> bool" and avail :: "'s \<Rightarrow> nat set"
    and take :: "'s \<Rightarrow> nat \<Rightarrow> nat \<Rightarrow> 's \<Rightarrow> bool"
  assumes take_ok: "ok s \<Longrightarrow> take s a c s' \<Longrightarrow> ok s'"
    and take_free: "ok s \<Longrightarrow> take s a c s' \<Longrightarrow> {a..<a + c} \<subseteq> avail s"
    and take_avail: "ok s \<Longrightarrow> take s a c s' \<Longrightarrow> avail s' = avail s - {a..<a + c}"
begin

inductive takes :: "'s \<Rightarrow> (nat \<times> nat) list \<Rightarrow> 's \<Rightarrow> bool" where
  none: "takes s [] s"
| more: "takes s rs s1 \<Longrightarrow> take s1 a c s2 \<Longrightarrow> takes s ((a, c) # rs) s2"

lemma takes_inv:
  "takes s rs s' \<Longrightarrow> ok s \<Longrightarrow> ok s' \<and> avail s' = avail s - (\<Union>(a, c)\<in>set rs. {a..<a + c}) \<and>
     (\<Union>(a, c)\<in>set rs. {a..<a + c}) \<subseteq> avail s"
proof (induction rule: takes.induct)
  case (more s rs s1 a c s2)
  then have IH: "ok s1" "avail s1 = avail s - (\<Union>(a, c)\<in>set rs. {a..<a + c})"
    "(\<Union>(a, c)\<in>set rs. {a..<a + c}) \<subseteq> avail s" by auto
  have "ok s2" "{a..<a + c} \<subseteq> avail s1" "avail s2 = avail s1 - {a..<a + c}"
    using take_ok [OF IH(1) more.hyps(2)] take_free [OF IH(1) more.hyps(2)] take_avail [OF IH(1) more.hyps(2)] .
  then show ?case using IH(2,3) unfolding list.set UN_insert by auto
qed simp

lemma takes_disjoint:
  "takes s rs s' \<Longrightarrow> ok s \<Longrightarrow>
     sorted_wrt (\<lambda>(a, c) (a', c'). {a..<a + c} \<inter> {a'..<a' + c'} = {}) rs"
proof (induction rule: takes.induct)
  case (more s rs s1 a c s2)
  have inv: "ok s1" "avail s1 = avail s - (\<Union>(a, c)\<in>set rs. {a..<a + c})"
    using takes_inv [OF more.hyps(1) more.prems] by auto
  have "{a..<a + c} \<subseteq> avail s1" using inv(1) more.hyps(2) by (rule take_free)
  then have "{a..<a + c} \<inter> {a'..<a' + c'} = {}" if "(a', c') \<in> set rs" for a' c'
    using inv(2) that by blast
  then show ?case using more.IH more.prems by auto
qed simp

end

section \<open>The table as an instance\<close>

lemma free_pages_mark: "same_skel (mark_preserve a c t) t' \<Longrightarrow> free_pages t' = free_pages t - {a..<a + c}"
  by (auto simp: free_pages_def same_skel_free)

lemma free_pages_release:
  assumes "same_skel (mark_release a c t) t'" "a + c \<le> 512" "\<And>j. a \<le> j \<Longrightarrow> j < a + c \<Longrightarrow> releasable (t j)"
  shows "free_pages t' = free_pages t \<union> {a..<a + c}"
proof -
  have eq: "pt_free (t' i) \<longleftrightarrow> pt_free (t i) \<or> (a \<le> i \<and> i < a + c)" for i
  proof (cases "a \<le> i \<and> i < a + c")
    case True
    then have "pt_free (rel_entry (t i))" using assms(3) by (intro rel_entry_free) simp
    then show ?thesis using True same_skel_free [OF assms(1), of i] by (simp add: mark_release_def)
  next
    case False
    then show ?thesis using same_skel_free [OF assms(1), of i] by (auto simp: mark_release_def)
  qed
  have "i \<in> free_pages t' \<longleftrightarrow> i \<in> free_pages t \<union> {a..<a + c}" for i
    using eq [of i] assms(2) unfolding free_pages_def mem_Collect_eq Un_iff atLeastLessThan_iff by auto
  then show ?thesis by blast
qed

definition usable :: "pdte \<times> ptable \<Rightarrow> bool" where
  "usable s \<longleftrightarrow> table_ok (fst s) (snd s) \<and> pd_present (fst s) \<and> \<not> pd_bypass (fst s)"

text \<open>A successful reservation of \<open>c\<close> pages from page \<open>a\<close> on, by either operation. \<open>base\<close> is the
  address of the table's first page.\<close>

definition reserved_by :: "nat \<Rightarrow> pdte \<times> ptable \<Rightarrow> nat \<Rightarrow> nat \<Rightarrow> pdte \<times> ptable \<Rightarrow> bool" where
  "reserved_by base s a c s' \<longleftrightarrow> 0 < c \<and>
     (c \<le> get_max_size (fst s) \<and> imp_reserve_any (fst s) (snd s) base c = Inr (base + a * 4096, s') \<or>
      \<not> size_page (snd s) a \<and> imp_reserve_fixed (fst s) (snd s) a c = Inr (True, s'))"

lemma reserve_fixed_True:
  assumes "imp_reserve_fixed pdt t a c = Inr (True, s')"
  shows "c \<noteq> 0 \<and> a + c \<le> 512 \<and> pd_present pdt \<and> \<not> pd_bypass pdt \<and> 0 < get_max_size pdt"
  using assms by (auto simp: imp_reserve_fixed_def kassert_def split: if_splits)

lemma reserved_by_ok:
  assumes u: "usable s" and r: "reserved_by base s a c s'"
  shows "usable s'" "{a..<a + c} \<subseteq> free_pages (snd s)" "free_pages (snd s') = free_pages (snd s) - {a..<a + c}"
proof -
  obtain pdt t where s: "s = (pdt, t)" by (cases s)
  obtain bs where inv: "table_inv pdt t bs" using u s by (auto simp: usable_def table_ok_def)
  have pd: "pd_present pdt" "\<not> pd_bypass pdt" using u s by (auto simp: usable_def)
  have "\<exists>pdt' t'. s' = (pdt', t') \<and> {a..<a + c} \<subseteq> free_pages t \<and> table_ok pdt' t' \<and>
     same_skel (mark_preserve a c t) t' \<and> pd_core pdt' = pd_core pdt"
  proof (cases "c \<le> get_max_size pdt \<and> imp_reserve_any pdt t base c = Inr (base + a * 4096, s')")
    case True
    then show ?thesis using imp_reserve_any_ok [OF inv _ pd, of c base] r by (fastforce simp: reserved_by_def)
  next
    case False
    then have f: "\<not> size_page t a" "imp_reserve_fixed pdt t a c = Inr (True, s')" using r s by (auto simp: reserved_by_def)
    note g = reserve_fixed_True [OF f(2)]
    have hit: "{a..<a + c} \<subseteq> free_pages t"
      using imp_reserve_fixed_miss [OF inv _ _ pd _ f(1), of c] g f(2) by auto
    then show ?thesis using imp_reserve_fixed_hit [OF inv _ _ pd _ f(1) hit] g f(2) by auto
  qed
  then obtain pdt' t' where *: "s' = (pdt', t')" "{a..<a + c} \<subseteq> free_pages t" "table_ok pdt' t'"
     "same_skel (mark_preserve a c t) t'" "pd_core pdt' = pd_core pdt" by blast
  show "usable s'" using * pd pd_core_fields [OF *(5)] by (simp add: usable_def)
  show "{a..<a + c} \<subseteq> free_pages (snd s)" using * s by simp
  show "free_pages (snd s') = free_pages (snd s) - {a..<a + c}" using free_pages_mark [OF *(4)] * s by simp
qed

interpretation ptp: page_pool usable "\<lambda>s. free_pages (snd s)" "reserved_by base" for base
  by unfold_locales (auto dest: reserved_by_ok)

lemmas table_takes = ptp.takes.intros

section \<open>Properties\<close>

definition fresh_table :: "pdte \<times> ptable" where
  "fresh_table = (new_pt_entry 7, put_tbl (blk_uninit\<lparr>b_size := 512\<rparr>) (\<lambda>_. pte_zero))"

lemma fresh_table: "new_pt_table = Inr (snd fresh_table)" "table_inv (new_pt_entry 7) (snd fresh_table) [(0, 512)]"
  "skel (snd fresh_table i) = skel pte_zero"
proof -
  have "run (\<lambda>_. pte_zero) 0 512" by (simp add: run_def pt_free_def pte_zero_def)
  then have "new_pt_table = Inr (snd fresh_table)"
    unfolding new_pt_table_def fresh_table_def snd_conv by (intro BLOCK_put_closed) (simp add: blk_uninit_def)
  moreover obtain t where "new_pt_table = Inr t" "table_inv (new_pt_entry 7) t [(0, 512)]"
    "\<forall>i. skel (t i) = skel pte_zero" using new_pt_table_ok [of 7] by blast
  moreover from calculation have "t = snd fresh_table" by (metis sum.inject(2))
  ultimately show "new_pt_table = Inr (snd fresh_table)" "table_inv (new_pt_entry 7) (snd fresh_table) [(0, 512)]"
    "skel (snd fresh_table i) = skel pte_zero" by simp_all
qed

lemma fresh_entry [simp]:
  "pd_present (new_pt_entry f)" "\<not> pd_bypass (new_pt_entry f)" "get_max_size (new_pt_entry f) = 512"
  by (simp_all add: new_pt_entry_def put_max_size_def pdte_zero_def get_max_size_def max_size_code_def)

lemma fresh_free: "pt_free (snd fresh_table i)"
  using skel_free [OF fresh_table(3) [of i]] by (simp add: pt_free_def pte_zero_def)

lemma marked_entries:
  assumes "same_skel (mark_preserve a c t) t'" "{a..<a + c} \<subseteq> free_pages t"
  shows "\<forall>i. \<not> (a \<le> i \<and> i < a + c) \<longrightarrow> skel (t' i) = skel (t i)"
    "\<forall>i. a \<le> i \<and> i < a + c \<longrightarrow> pt_preserve (t' i) \<and> \<not> pt_present (t' i)"
proof -
  have *: "skel (t' i) = skel (mark_preserve a c t i)" for i using assms(1) by (simp add: same_skel_def)
  show "\<forall>i. \<not> (a \<le> i \<and> i < a + c) \<longrightarrow> skel (t' i) = skel (t i)"
    using * by (auto simp: mark_preserve_def)
  have "pt_preserve (t' i) \<and> \<not> pt_present (t' i)" if "a \<le> i \<and> i < a + c" for i
  proof -
    have "pt_free (t i)" using assms(2) that by (auto simp: free_pages_def)
    then show ?thesis using skel_fields [OF * [of i]] that by (simp add: mark_preserve_def pt_free_def)
  qed
  then show "\<forall>i. a \<le> i \<and> i < a + c \<longrightarrow> pt_preserve (t' i) \<and> \<not> pt_present (t' i)" by blast
qed

text \<open>
  C2: \<open>imp_reserve_any\<close> on a well-formed table never stops the kernel. It refuses exactly when the
  size hint of the directory entry is below the request; otherwise it returns the address of a run
  of pages that were all free, takes exactly those, and leaves a well-formed table in which no
  other page changed.
\<close>
theorem reserve_any_takes_free_run:
  assumes "table_ok pdt t" and "0 < count" and "pd_present pdt" and "\<not> pd_bypass pdt"
  shows "(get_max_size pdt < count \<longrightarrow> imp_reserve_any pdt t base count = Inr (0, pdt, t)) \<and>
     (count \<le> get_max_size pdt \<longrightarrow> (\<exists>a pdt' t'. imp_reserve_any pdt t base count = Inr (base + a * 4096, pdt', t') \<and>
        {a..<a + count} \<subseteq> free_pages t \<and> free_pages t' = free_pages t - {a..<a + count} \<and> table_ok pdt' t' \<and>
        (\<forall>i. \<not> (a \<le> i \<and> i < a + count) \<longrightarrow> skel (t' i) = skel (t i)) \<and>
        (\<forall>i. a \<le> i \<and> i < a + count \<longrightarrow> pt_preserve (t' i) \<and> \<not> pt_present (t' i))))"
proof -
  obtain bs where inv: "table_inv pdt t bs" using assms(1) unfolding table_ok_def by blast
  show ?thesis
  proof (intro conjI impI)
    assume "get_max_size pdt < count"
    then show "imp_reserve_any pdt t base count = Inr (0, pdt, t)"
      using assms(2-4) by (simp add: imp_reserve_any_def kassert_def)
  next
    assume "count \<le> get_max_size pdt"
    from imp_reserve_any_ok [OF inv assms(2-4) this, of base] obtain a pdt' t' where
      *: "imp_reserve_any pdt t base count = Inr (base + a * 4096, pdt', t')"
      "{a..<a + count} \<subseteq> free_pages t" "table_ok pdt' t'" "same_skel (mark_preserve a count t) t'" by blast
    then show "\<exists>a pdt' t'. imp_reserve_any pdt t base count = Inr (base + a * 4096, pdt', t') \<and>
        {a..<a + count} \<subseteq> free_pages t \<and> free_pages t' = free_pages t - {a..<a + count} \<and> table_ok pdt' t' \<and>
        (\<forall>i. \<not> (a \<le> i \<and> i < a + count) \<longrightarrow> skel (t' i) = skel (t i)) \<and>
        (\<forall>i. a \<le> i \<and> i < a + count \<longrightarrow> pt_preserve (t' i) \<and> \<not> pt_present (t' i))"
      using free_pages_mark marked_entries by blast
  qed
qed

theorem reserve_any_takes_free_run_witness:
  "\<exists>a pdt' t'. imp_reserve_any (new_pt_entry 7) (snd fresh_table) 0x200000 5 = Inr (0x200000 + a * 4096, pdt', t') \<and>
     free_pages t' = {i. i < 512} - {a..<a + 5} \<and> table_ok pdt' t'"
proof -
  have ok: "table_ok (new_pt_entry 7) (snd fresh_table)" using fresh_table(2) by (auto simp: table_ok_def)
  have "free_pages (snd fresh_table) = {i. i < 512}" by (simp add: free_pages_def fresh_free)
  then show ?thesis using reserve_any_takes_free_run [OF ok, where count = 5 and base = "0x200000"] by simp blast
qed



lemma fresh_pages: "free_pages (snd fresh_table) = {..<512}"
  by (auto simp: free_pages_def fresh_free)

lemma fresh_ok: "table_ok (new_pt_entry 7) (snd fresh_table)"
  using fresh_table(2) unfolding table_ok_def by blast


text \<open>
  at the third page of a free block of any length but four, \<open>imp_reserve_fixed\<close> stops the kernel:
  \<open>BLOCK::get\<close> asserts that the entry holds 3 where \<open>BLOCK::put\<close> stored the length less one.
\<close>
theorem reserve_fixed_third_page_stops:
  assumes "size_page t index" and "0 < count" "index + count \<le> 512"
    and "pd_present pdt" "\<not> pd_bypass pdt" "0 < get_max_size pdt"
  shows "imp_reserve_fixed pdt t index count = Inl AssertFailed"
proof -
  have "get_start t index = Inl AssertFailed" using assms(1) by (simp add: get_start_def size_page_def kassert_def)
  moreover have "pt_free (t index)" using assms(1) by (simp add: size_page_def)
  ultimately show ?thesis using assms(2-) by (simp add: imp_reserve_fixed_def BLOCK_get_def kassert_def)
qed

theorem reserve_fixed_third_page_stops_witness:
  "imp_reserve_fixed (new_pt_entry 7) (snd fresh_table) 2 1 = Inl AssertFailed"
proof -
  have "size_page (snd fresh_table) 2"
    by (simp add: size_page_def fresh_free) (simp add: fresh_table_def put_tbl_def enc_entry_def blk_uninit_def)
  then show ?thesis by (rule reserve_fixed_third_page_stops) simp_all
qed

text \<open>
  C17: however \<open>imp_reserve_any\<close> and \<open>imp_reserve_fixed\<close> are interleaved on a table, the ranges they hand out
  are pairwise disjoint and were free at the start.
\<close>
theorem reservations_never_overlap:
  assumes "usable s" and "ptp.takes base s rs s'"
  shows "sorted_wrt (\<lambda>(a, c) (a', c'). {a..<a + c} \<inter> {a'..<a' + c'} = {}) rs \<and>
     (\<Union>(a, c)\<in>set rs. {a..<a + c}) \<subseteq> free_pages (snd s) \<and> usable s'"
  using ptp.takes_disjoint [OF assms(2,1)] ptp.takes_inv [OF assms(2,1)] by blast

theorem reservations_never_overlap_witness:
  "\<exists>a s'. ptp.takes 0 fresh_table [(a, 5)] s' \<and> {a..<a + 5} \<subseteq> {..<512} \<and> usable s'"
proof -
  have u: "usable fresh_table" using fresh_ok by (simp add: usable_def fresh_table_def)
  obtain a pdt' t' where "imp_reserve_any (new_pt_entry 7) (snd fresh_table) 0 5 = Inr (0 + a * 4096, pdt', t')"
    using imp_reserve_any_ok [OF fresh_table(2), of 5 0] by auto
  then have "reserved_by 0 fresh_table a 5 (pdt', t')" by (simp add: reserved_by_def fresh_table_def)
  then have "ptp.takes 0 fresh_table [(a, 5)] (pdt', t')" by (rule table_takes(2) [OF table_takes(1)])
  then show ?thesis using reservations_never_overlap [OF u] fresh_pages by fastforce
qed


text \<open>The first page of a table is reserved and not committed, the rest is free.\<close>

definition held_table :: ptable where
  "held_table = put_tbl (blk_uninit\<lparr>b_self := 1, b_size := 511\<rparr>) ((\<lambda>_. pte_zero)(0 := pte_zero\<lparr>pt_preserve := True\<rparr>))"

definition held_entry :: pdte where
  "held_entry = put_max_size (new_pt_entry 7) 511\<lparr>pd_head := 1\<rparr>"

lemma held_table: "table_inv held_entry held_table [(1, 511)]" "skel (held_table 0) = skel (pte_zero\<lparr>pt_preserve := True\<rparr>)"
proof -
  let ?b = "blk_uninit\<lparr>b_self := 1, b_size := 511\<rparr>" and ?z = "(\<lambda>_. pte_zero)(0 := pte_zero\<lparr>pt_preserve := True\<rparr>)"
  have r: "run ?z 1 511" by (simp add: run_def pt_free_def pte_zero_def)
  have b: "rep ?b 1 511 None None" by (simp add: rep_def blk_uninit_def)
  have sk: "same_skel ?z held_table" by (simp add: held_table_def)
  have "blk_enc held_table 1 511 None None" unfolding held_table_def by (rule put_tbl_enc [OF r b]) auto
  then have "fl_inv held_entry held_table [(1, 511)]"
    using r same_skel_run [OF sk] by (simp add: fl_inv_def held_entry_def put_max_size_def max_block_def)
  moreover have "covers held_table [(1, 511)]"
    unfolding covers_def using same_skel_free [OF sk] by (auto simp: pt_free_def split: if_splits)
  ultimately show "table_inv held_entry held_table [(1, 511)]" by (simp add: table_inv_def)
  show "skel (held_table 0) = skel (pte_zero\<lparr>pt_preserve := True\<rparr>)" using sk by (simp add: same_skel_def)
qed


lemma size_of_code_half:
  assumes "m \<le> 512" "m \<noteq> 0"
  shows "m < 2 * size_of_code (max_size_code m)"
proof (cases "m < 120")
  case True
  have b: "2 ^ (bit_count m - 1) \<le> m" "m < 2 ^ bit_count m" "0 < bit_count m"
    using bit_count_bounds [of m] assms(2) by auto
  have "(2::nat) ^ bit_count m = 2 * 2 ^ (bit_count m - 1)" using b(3) by (cases "bit_count m") auto
  then show ?thesis using b bit_count_small [OF True] True by (simp add: max_size_code_small size_of_code_def)
next
  case False
  define q where "q = (m - 64) div 56"
  have q: "1 \<le> q" "m - 64 < 56 * q + 56" using False assms(1) by (auto simp: q_def)
  have "size_of_code (max_size_code m) = 64 + 56 * q"
    using False assms(1) q(1) by (simp add: max_size_code_big size_of_code_def q_def [symmetric])
  then show ?thesis using q False by linarith
qed

lemma no_blocks_iff:
  assumes "table_inv pdt t bs"
  shows "bs = [] \<longleftrightarrow> free_pages t = {}"
proof
  have fl: "fl_inv pdt t bs" and cov: "covers t bs" using assms by (simp_all add: table_inv_def)
  show "bs = [] \<Longrightarrow> free_pages t = {}" using cov by (auto simp: covers_def free_pages_def)
  show "free_pages t = {} \<Longrightarrow> bs = []"
  proof (rule ccontr)
    assume e: "free_pages t = {}" "bs \<noteq> []"
    then obtain s n where r: "run t s n" using fl_inv_run [OF fl, of "fst (hd bs)" "snd (hd bs)"] by simp
    then have "s \<in> free_pages t" using runD(1,3) [OF r] run_start_less [OF r] by (auto simp: free_pages_def)
    then show False using e by simp
  qed
qed

lemma size_hint_zero: "table_ok pdt t \<Longrightarrow> get_max_size pdt = 0 \<longleftrightarrow> free_pages t = {}"
  using no_blocks_iff get_max_zero unfolding table_ok_def table_inv_def by blast

text \<open>
  the directory entry's four-bit size hint never promises more than the longest free run, is
  zero only for a full table, and is more than half of the longest run otherwise.
\<close>
theorem size_hint_bounds:
  assumes "table_inv pdt t bs"
  shows "get_max_size pdt \<le> max_block bs \<and> (get_max_size pdt = 0 \<longleftrightarrow> free_pages t = {}) \<and>
     (bs \<noteq> [] \<longrightarrow> max_block bs < 2 * get_max_size pdt)"
proof -
  have fl: "fl_inv pdt t bs" using assms by (simp add: table_inv_def)
  show ?thesis
    using get_max_le [OF fl] get_max_zero [OF fl] size_of_code_half [OF max_block_le [OF fl]]
      max_block_pos [OF fl] fl_inv_max [OF fl] no_blocks_iff [OF assms] by auto
qed

theorem size_hint_bounds_witness: "get_max_size (new_pt_entry 7) = 512 \<and> free_pages (snd fresh_table) \<noteq> {}"
  using size_hint_bounds [OF fresh_table(2)] by (auto simp: max_block_def)

end
