(* ===== verification/VSpace.thy ===== *)
theory VSpace
  imports Page_Table
begin

text \<open>
  Address spaces: the walks of \<open>virtual_space\<close> (\<^verbatim>\<open>kernel/memory/vm.cpp\<close>) over the three levels of tables
  and the operations of \<open>user_vspace\<close> and \<open>kernel_vspace\<close>. The physical memory that holds tables is two
  stores indexed by frame number, one for directories and one for page tables; \<open>map_view\<close>, which
  makes a frame addressable, is the lookup in them, and its own slot table is modelled at the end. The
  physical memory manager is threaded through every operation and its critical callback \<open>cb\<close> is a
  parameter. A call runs with the object lock held, as the code takes it, and \<open>invlpg\<close> has no
  counterpart. Page counts are \<open>nat\<close>; the code's \<open>dword\<close> counters never exceed the request.
\<close>

section \<open>State and addresses\<close>

record pdpte =
  pp_present :: bool
  pp_write :: bool
  pp_user :: bool
  pp_pdt_addr :: nat

record vspace =
  vs_pm :: pm
  vs_pdpt :: "nat \<Rightarrow> pdpte"
  vs_pdt :: "nat \<Rightarrow> nat \<Rightarrow> pdte"
  vs_pt :: "nat \<Rightarrow> ptable"
  vs_used :: qword

definition pdpte_zero :: pdpte where
  "pdpte_zero = \<lparr>pp_present = False, pp_write = False, pp_user = False, pp_pdt_addr = 0\<rparr>"

definition HIGHADDR :: "qword \<Rightarrow> qword" where
  "HIGHADDR x = 0xFFFF800000000000 OR x"

definition LOWADDR :: "qword \<Rightarrow> qword" where
  "LOWADDR x = 0x00007FFFFFFFFFFF AND x"

definition IS_HIGHADDR :: "qword \<Rightarrow> bool" where
  "IS_HIGHADDR x \<longleftrightarrow> x AND HIGHADDR 0 = HIGHADDR 0"

abbreviation PAGE_MASK :: qword where "PAGE_MASK \<equiv> 0xFFF"
abbreviation size_512G :: qword where "size_512G \<equiv> 0x008000000000"

definition pdpt_index :: "qword \<Rightarrow> nat" where
  "pdpt_index va = unat (drop_bit 30 va AND 0x1FF)"

definition pdt_index :: "qword \<Rightarrow> nat" where
  "pdt_index va = unat (drop_bit 21 va AND 0x1FF)"

text \<open>The entries an address selects: the directory entry as a position in the whole space, of which
  there are 512 * 512, visited in order by every walk.\<close>

abbreviation dir_pos :: "qword \<Rightarrow> nat" where
  "dir_pos va \<equiv> pdpt_index va * 512 + pdt_index va"

definition cur_pdt :: "vspace \<Rightarrow> nat \<Rightarrow> pdte" where
  "cur_pdt m p = vs_pdt m (pp_pdt_addr (vs_pdpt m (p div 512))) (p mod 512)"

definition set_pdt :: "nat \<Rightarrow> pdte \<Rightarrow> vspace \<Rightarrow> vspace" where
  "set_pdt p e m = (let f = pp_pdt_addr (vs_pdpt m (p div 512)) in
     m\<lparr>vs_pdt := (vs_pdt m)(f := (vs_pdt m f)(p mod 512 := e))\<rparr>)"

definition cur_pt :: "vspace \<Rightarrow> nat \<Rightarrow> ptable" where
  "cur_pt m p = vs_pt m (pd_pt_addr (cur_pdt m p))"

definition set_pt :: "nat \<Rightarrow> ptable \<Rightarrow> vspace \<Rightarrow> vspace" where
  "set_pt p t m = m\<lparr>vs_pt := (vs_pt m)(pd_pt_addr (cur_pdt m p) := t)\<rparr>"

section \<open>New tables\<close>

definition new_pdt :: "(pm \<Rightarrow> pm) \<Rightarrow> nat \<Rightarrow> vspace \<Rightarrow> (bool \<times> vspace) res" where
  "new_pdt cb i m =
     kassert (\<not> pp_present (vs_pdpt m i))
      (rbind (PM_allocate cb NONE (vs_pm m)) (\<lambda>(phy_addr, pm).
       let m = m\<lparr>vs_pm := pm\<rparr> in
       if phy_addr = 0 then Inr (False, m)
       else let f = phy_addr div 4096 in
         Inr (True, m\<lparr>vs_pdt := (vs_pdt m)(f := \<lambda>_. pdte_zero),
                      vs_pdpt := (vs_pdpt m)(i := pdpte_zero\<lparr>pp_pdt_addr := f, pp_user := True,
                                                    pp_write := True, pp_present := True\<rparr>),
                      vs_used := vs_used m + 1\<rparr>)))"

definition new_pt :: "(pm \<Rightarrow> pm) \<Rightarrow> bool \<Rightarrow> nat \<Rightarrow> vspace \<Rightarrow> (bool \<times> vspace) res" where
  "new_pt cb tk p m =
     kassert (\<not> pd_present (cur_pdt m p) \<and> \<not> pd_bypass (cur_pdt m p))
      (rbind (PM_allocate cb (if tk then TAKE else NONE) (vs_pm m)) (\<lambda>(phy_addr, pm).
       let m = m\<lparr>vs_pm := pm\<rparr> in
       if phy_addr = 0 then Inr (False, m)
       else let f = phy_addr div 4096 in
         rbind new_pt_table (\<lambda>t.
         let m = set_pdt p (new_pt_entry f) m in
         Inr (True, m\<lparr>vs_pt := (vs_pt m)(f := t), vs_used := vs_used m + 1\<rparr>))))"

text \<open>Both reserve walks map the directory of a position, creating it on demand.\<close>

definition need_pdt :: "(pm \<Rightarrow> pm) \<Rightarrow> nat \<Rightarrow> vspace \<Rightarrow> (bool \<times> vspace) res" where
  "need_pdt cb i m = (if \<not> pp_present (vs_pdpt m i) then new_pdt cb i m else Inr (True, m))"

definition need_pt :: "(pm \<Rightarrow> pm) \<Rightarrow> nat \<Rightarrow> vspace \<Rightarrow> (bool \<times> vspace) res" where
  "need_pt cb p m = (if \<not> pd_present (cur_pdt m p) then new_pt cb False p m else Inr (True, m))"

section \<open>Releasing a range\<close>

primrec safe_release_loop :: "nat \<Rightarrow> nat \<Rightarrow> qword \<Rightarrow> nat \<Rightarrow> nat \<Rightarrow> vspace \<Rightarrow> (nat \<times> vspace) res" where
  "safe_release_loop 0 p addr count page_count m = Inr (count, m)"
| "safe_release_loop (Suc k) p addr count page_count m =
     (if \<not> count < page_count then Inr (count, m)
      else if \<not> pp_present (vs_pdpt m (p div 512)) then bugcheck ''PDTE not present''
      else let cur = cur_pdt m p in
        if pd_bypass cur \<or> \<not> pd_present cur then bugcheck ''cannot release page''
        else let off = pt_index addr; size = min (page_count - count) (512 - off) in
          rbind (imp_release cur (cur_pt m p) addr size (vs_pm m) (vs_used m)) (\<lambda>(cur, t, pm, u).
          safe_release_loop k (p + 1) (addr + 0x1000 * of_nat size) (count + size) page_count
            (set_pt p t (set_pdt p cur (m\<lparr>vs_pm := pm, vs_used := u\<rparr>)))))"

definition safe_release :: "qword \<Rightarrow> nat \<Rightarrow> vspace \<Rightarrow> (bool \<times> vspace) res" where
  "safe_release base_addr page_count m =
     kassert (base_addr \<noteq> 0 \<and> page_count \<noteq> 0) (kassert (base_addr AND PAGE_MASK = 0)
      (if drop_bit 39 (LOWADDR base_addr) \<noteq> 0 then Inr (False, m)
       else let p = dir_pos base_addr in
         rbind (safe_release_loop (512 * 512 - p) p base_addr 0 page_count m) (\<lambda>(count, m).
         Inr (count = page_count, m))))"

section \<open>Reserving a range\<close>

text \<open>The address arithmetic of \<open>reserve_any\<close> and \<open>reserve_big\<close> is done in 32-bit \<open>unsigned\<close>.\<close>

definition table_base :: "nat \<Rightarrow> nat \<Rightarrow> nat" where
  "table_base pi i = (pi * 0x40000000 + i * 0x200000) mod 2 ^ 32"

primrec reserve_any_pdt :: "(pm \<Rightarrow> pm) \<Rightarrow> nat \<Rightarrow> nat \<Rightarrow> nat \<Rightarrow> nat \<Rightarrow> vspace \<Rightarrow> (nat \<times> vspace) res" where
  "reserve_any_pdt cb 0 pi i page_count m = Inr (0, m)"
| "reserve_any_pdt cb (Suc k) pi i page_count m =
     (let p = pi * 512 + i in
      if pd_bypass (cur_pdt m p) then reserve_any_pdt cb k pi (i + 1) page_count m
      else rbind (need_pt cb p m) (\<lambda>(ok, m).
        if \<not> ok then reserve_any_pdt cb k pi (i + 1) page_count m
        else rbind (imp_reserve_any (cur_pdt m p) (cur_pt m p) (table_base pi i) page_count)
          (\<lambda>(res, cur, t).
           let m = set_pt p t (set_pdt p cur m) in
           if res \<noteq> 0 then Inr (res, m) else reserve_any_pdt cb k pi (i + 1) page_count m)))"

primrec reserve_any_loop2 :: "(pm \<Rightarrow> pm) \<Rightarrow> nat \<Rightarrow> nat \<Rightarrow> nat \<Rightarrow> vspace \<Rightarrow> (nat \<times> vspace) res" where
  "reserve_any_loop2 cb 0 pi page_count m = Inr (0, m)"
| "reserve_any_loop2 cb (Suc k) pi page_count m =
     rbind (need_pdt cb pi m) (\<lambda>(ok, m).
      if \<not> ok then Inr (0, m)
      else rbind (reserve_any_pdt cb 512 pi 0 page_count m) (\<lambda>(res, m).
        if res \<noteq> 0 then Inr (res, m) else reserve_any_loop2 cb k (pi + 1) page_count m))"

definition reserve_any :: "(pm \<Rightarrow> pm) \<Rightarrow> nat \<Rightarrow> vspace \<Rightarrow> (nat \<times> vspace) res" where
  "reserve_any cb page_count m = kassert (page_count \<le> 512) (reserve_any_loop2 cb 512 0 page_count m)"

text \<open>\<open>None\<close> in the result is the jump to \<open>rollback\<close>.\<close>

primrec reserve_fixed_loop ::
  "(pm \<Rightarrow> pm) \<Rightarrow> nat \<Rightarrow> nat \<Rightarrow> qword \<Rightarrow> nat \<Rightarrow> nat \<Rightarrow> vspace \<Rightarrow> (bool \<times> nat \<times> vspace) res" where
  "reserve_fixed_loop cb 0 p addr count page_count m = Inr (count = page_count, count, m)"
| "reserve_fixed_loop cb (Suc k) p addr count page_count m =
     (if \<not> count < page_count then Inr (True, count, m)
      else rbind (need_pdt cb (p div 512) m) (\<lambda>(ok, m).
        if \<not> ok \<or> pd_bypass (cur_pdt m p) then Inr (False, count, m)
        else rbind (need_pt cb p m) (\<lambda>(ok, m).
          if \<not> ok then Inr (False, count, m)
          else let off = pt_index addr; size = min (page_count - count) (512 - off) in
            rbind (imp_reserve_fixed (cur_pdt m p) (cur_pt m p) off size) (\<lambda>(res, cur, t).
            let m = set_pt p t (set_pdt p cur m) in
            if \<not> res then Inr (False, count, m)
            else reserve_fixed_loop cb k (p + 1) (addr + 0x1000 * of_nat size) (count + size) page_count m))))"

definition reserve_fixed :: "(pm \<Rightarrow> pm) \<Rightarrow> qword \<Rightarrow> nat \<Rightarrow> vspace \<Rightarrow> (bool \<times> vspace) res" where
  "reserve_fixed cb base_addr page_count m =
     kassert (base_addr \<noteq> 0 \<and> page_count \<noteq> 0) (kassert (base_addr AND PAGE_MASK = 0)
      (if drop_bit 39 (LOWADDR base_addr) \<noteq> 0 then Inr (False, m)
       else let p = dir_pos base_addr in
         rbind (reserve_fixed_loop cb (512 * 512 - p) p base_addr 0 page_count m) (\<lambda>(fin, count, m).
         if fin then Inr (True, m)
         else if count \<noteq> 0 then rbind (safe_release base_addr count m) (\<lambda>(_, m). Inr (False, m))
         else Inr (False, m))))"

primrec big_scan :: "nat \<Rightarrow> nat \<Rightarrow> nat \<Rightarrow> nat \<Rightarrow> nat \<times> nat \<times> nat \<Rightarrow> vspace \<Rightarrow> (nat \<times> nat \<times> nat) res" where
  "big_scan 0 pi i aligned_count acc m = Inr acc"
| "big_scan (Suc k) pi i aligned_count acc m =
     (let (avl_base, avl_pages, reserve_count) = acc; cur = cur_pdt m (pi * 512 + i) in
      if pd_bypass cur \<or> pd_present cur \<and> get_max_size cur \<noteq> 512
      then big_scan k pi (i + 1) aligned_count (i + 1, 0, 0) m
      else let reserve_count = (if pd_present cur then reserve_count else reserve_count + 1) in
        if avl_pages + 1 = aligned_count then Inr (avl_base, avl_pages + 1, reserve_count)
        else big_scan k pi (i + 1) aligned_count (avl_base, avl_pages + 1, reserve_count) m)"

primrec big_take :: "(pm \<Rightarrow> pm) \<Rightarrow> nat \<Rightarrow> nat \<Rightarrow> nat \<Rightarrow> nat \<Rightarrow> vspace \<Rightarrow> vspace res" where
  "big_take cb 0 p pagecount reserve_count m = kassert (reserve_count = 0) (Inr m)"
| "big_take cb (Suc k) p pagecount reserve_count m =
     kassert (pagecount \<noteq> 0) (kassert (\<not> pd_bypass (cur_pdt m p))
      (rbind
        (if pd_present (cur_pdt m p) then kassert (get_max_size (cur_pdt m p) = 512) (Inr (m, reserve_count))
         else kassert (reserve_count \<noteq> 0) (rbind (new_pt cb True p m) (\<lambda>(_, m). Inr (m, reserve_count - 1))))
        (\<lambda>(m, reserve_count).
         rbind (imp_reserve_fixed (cur_pdt m p) (cur_pt m p) 0 (min 512 pagecount)) (\<lambda>(res, cur, t).
         if \<not> res then bugcheck ''imp_reserve_fixed failed''
         else big_take cb k (p + 1) (pagecount - min 512 pagecount) reserve_count
                (set_pt p t (set_pdt p cur m))))))"

primrec reserve_big_loop :: "(pm \<Rightarrow> pm) \<Rightarrow> nat \<Rightarrow> nat \<Rightarrow> nat \<Rightarrow> nat \<Rightarrow> vspace \<Rightarrow> (nat \<times> vspace) res" where
  "reserve_big_loop cb 0 pi aligned_count pagecount m = Inr (0, m)"
| "reserve_big_loop cb (Suc k) pi aligned_count pagecount m =
     rbind (need_pdt cb pi m) (\<lambda>(ok, m).
      if \<not> ok then Inr (0, m)
      else rbind (big_scan 512 pi 0 aligned_count (0, 0, 0) m) (\<lambda>(avl_base, avl_pages, reserve_count).
        if avl_pages = aligned_count then
          kassert (avl_base + avl_pages \<le> 512)
           (let (got, pm) = PM_reserve cb reserve_count (vs_pm m); m = m\<lparr>vs_pm := pm\<rparr> in
            if \<not> got then reserve_big_loop cb k (pi + 1) aligned_count pagecount m
            else rbind (big_take cb avl_pages (pi * 512 + avl_base) pagecount reserve_count m) (\<lambda>m.
              Inr (table_base pi avl_base, m)))
        else reserve_big_loop cb k (pi + 1) aligned_count pagecount m))"

definition reserve_big :: "(pm \<Rightarrow> pm) \<Rightarrow> nat \<Rightarrow> vspace \<Rightarrow> (nat \<times> vspace) res" where
  "reserve_big cb pagecount m =
     reserve_big_loop cb 512 0 (unat (align_up (of_nat pagecount :: dword) 0x200) div 512) pagecount m"

section \<open>Walking a range, and looking up one page\<close>

text \<open>A callback sees one entry and its address, may change the entry and call the physical memory
  manager, and says whether to go on.\<close>

type_synonym pte_callback = "pte \<Rightarrow> qword \<Rightarrow> pm \<Rightarrow> (bool \<times> pte \<times> pm) res"

text \<open>One table: the flag says that the walk returns from inside it.\<close>

primrec iterate_table :: "pte_callback \<Rightarrow> nat \<Rightarrow> nat \<Rightarrow> qword \<Rightarrow> nat \<Rightarrow> nat \<Rightarrow> ptable \<Rightarrow> pm \<Rightarrow>
    (bool \<times> qword \<times> nat \<times> ptable \<times> pm) res" where
  "iterate_table f 0 off addr count page_count t pm = Inr (False, addr, count, t, pm)"
| "iterate_table f (Suc k) off addr count page_count t pm =
     rbind (f (t off) addr pm) (\<lambda>(go, e, pm).
      let t = t(off := e) in
      if \<not> go then Inr (True, addr, count, t, pm)
      else if count + 1 = page_count then Inr (True, addr + 0x1000, count + 1, t, pm)
      else iterate_table f k (off + 1) (addr + 0x1000) (count + 1) page_count t pm)"

primrec iterate_loop :: "pte_callback \<Rightarrow> nat \<Rightarrow> nat \<Rightarrow> nat \<Rightarrow> qword \<Rightarrow> nat \<Rightarrow> nat \<Rightarrow> vspace \<Rightarrow> (nat \<times> vspace) res" where
  "iterate_loop f 0 p off addr count page_count m = Inr (count, m)"
| "iterate_loop f (Suc k) p off addr count page_count m =
     (if \<not> count < page_count \<or> \<not> pp_present (vs_pdpt m (p div 512)) then Inr (count, m)
      else if pd_bypass (cur_pdt m p) \<or> \<not> pd_present (cur_pdt m p) then Inr (count, m)
      else rbind (iterate_table f (512 - off) off addr count page_count (cur_pt m p) (vs_pm m))
        (\<lambda>(stop, addr, count, t, pm).
         let m = set_pt p t (m\<lparr>vs_pm := pm\<rparr>) in
         if stop then Inr (count, m) else iterate_loop f k (p + 1) 0 addr count page_count m))"

definition imp_iterate :: "pte_callback \<Rightarrow> qword \<Rightarrow> nat \<Rightarrow> vspace \<Rightarrow> (nat \<times> vspace) res" where
  "imp_iterate f base_addr page_count m =
     kassert (page_count \<noteq> 0) (kassert (base_addr \<noteq> 0 \<and> base_addr AND PAGE_MASK = 0)
      (if drop_bit 39 (LOWADDR base_addr) \<noteq> 0 then Inr (0, m)
       else let p = dir_pos base_addr in
         iterate_loop f (512 * 512 - p) p (pt_index base_addr) base_addr 0 page_count m))"

definition imp_peek :: "qword \<Rightarrow> vspace \<Rightarrow> pte" where
  "imp_peek va m =
     (if drop_bit 39 (LOWADDR va) \<noteq> 0 then pte_zero
      else let p = dir_pos va in
        if \<not> pp_present (vs_pdpt m (pdpt_index va)) then pte_zero
        else if \<not> pd_present (cur_pdt m p) then pte_zero
        else cur_pt m p (pt_index va))"


section \<open>Callbacks\<close>

definition cb_reserved :: pte_callback where
  "cb_reserved pt addr pm = Inr (pt_preserve pt \<and> \<not> pt_bypass pt \<and> \<not> pt_present pt, pt, pm)"

definition cb_releasable :: "bool \<Rightarrow> pte_callback" where
  "cb_releasable user pt addr pm =
     Inr (if pt_bypass pt then False
          else if pt_present pt then pt_page_addr pt \<noteq> 0 \<and> pt_user pt = user
          else pt_preserve pt, pt, pm)"

definition cb_commit :: "(pm \<Rightarrow> pm) \<Rightarrow> bool \<Rightarrow> pte_callback" where
  "cb_commit cb user pt addr pm =
     kassert (pt_preserve pt \<and> \<not> pt_bypass pt \<and> \<not> pt_present pt)
      (rbind (PM_allocate cb TAKE pm) (\<lambda>(pa, pm).
       Inr (True, pt\<lparr>pt_page_addr := pa div 4096, pt_xd := True, pt_pat := False, pt_user := user,
                     pt_write := True, pt_present := True\<rparr>, pm)))"

definition cb_committed :: "bool \<Rightarrow> pte_callback" where
  "cb_committed user pt addr pm =
     Inr (pt_present pt \<and> \<not> pt_bypass pt \<and> pt_user pt = user \<and> pt_page_addr pt \<noteq> 0, pt, pm)"

definition PAGE_XD :: qword where "PAGE_XD = push_bit 63 1"
abbreviation PAGE_GLOBAL :: qword where "PAGE_GLOBAL \<equiv> 0x100"
abbreviation PAGE_CD :: qword where "PAGE_CD \<equiv> 0x10"
abbreviation PAGE_WT :: qword where "PAGE_WT \<equiv> 0x08"
abbreviation PAGE_USER :: qword where "PAGE_USER \<equiv> 0x04"
abbreviation PAGE_WRITE :: qword where "PAGE_WRITE \<equiv> 0x02"
abbreviation PAGE_PRESENT :: qword where "PAGE_PRESENT \<equiv> 0x01"

definition cb_protect :: "bool \<Rightarrow> qword \<Rightarrow> pte_callback" where
  "cb_protect user attrib pt addr pm =
     kassert (pt_present pt \<and> \<not> pt_bypass pt \<and> pt_user pt = user \<and> pt_page_addr pt \<noteq> 0)
      (Inr (True, pt\<lparr>pt_xd := attrib AND PAGE_XD \<noteq> 0, pt_global := attrib AND PAGE_GLOBAL \<noteq> 0,
                     pt_cd := attrib AND PAGE_CD \<noteq> 0, pt_wt := attrib AND PAGE_WT \<noteq> 0,
                     pt_write := attrib AND PAGE_WRITE \<noteq> 0\<rparr>, pm))"

definition cb_assignable :: pte_callback where
  "cb_assignable pt addr pm = Inr (pt_preserve pt \<and> \<not> pt_present pt, pt, pm)"

definition cb_assign :: "qword \<Rightarrow> pte_callback" where
  "cb_assign delta pt addr pm =
     kassert (pt_preserve pt \<and> \<not> pt_present pt) (kassert (delta \<le> addr)
      (Inr (True, pt\<lparr>pt_page_addr := unat (drop_bit 12 (addr - delta)) mod 2 ^ 40, pt_xd := True,
                     pt_bypass := True, pt_global := True, pt_pat := False, pt_cd := True, pt_wt := True,
                     pt_user := False, pt_write := True, pt_present := True\<rparr>, pm)))"

section \<open>\<open>user_vspace\<close>\<close>

definition user_common_check :: "qword \<Rightarrow> dword \<Rightarrow> bool" where
  "user_common_check addr page_count \<longleftrightarrow>
     addr \<noteq> 0 \<and> page_count \<noteq> 0 \<and> addr AND PAGE_MASK = 0 \<and> addr AND HIGHADDR 0 = 0 \<and>
     \<not> size_512G < addr + ucast page_count * 0x1000"

definition user_reserve :: "(pm \<Rightarrow> pm) \<Rightarrow> qword \<Rightarrow> dword \<Rightarrow> vspace \<Rightarrow> (qword \<times> vspace) res" where
  "user_reserve cb addr page_count m =
     (if addr \<noteq> 0 \<and> \<not> user_common_check addr page_count \<or>
         addr = 0 \<and> (page_count = 0 \<or> 0x40000 < page_count) then Inr (0, m)
      else if addr \<noteq> 0 then
        rbind (reserve_fixed cb addr (unat page_count) m) (\<lambda>(ok, m). Inr (if ok then addr else 0, m))
      else rbind (if page_count < 0x200 then reserve_any cb (unat page_count) m
                  else reserve_big cb (unat page_count) m) (\<lambda>(a, m). Inr (of_nat a, m)))"

definition user_release :: "qword \<Rightarrow> dword \<Rightarrow> vspace \<Rightarrow> (bool \<times> vspace) res" where
  "user_release addr page_count m =
     (if \<not> user_common_check addr page_count then Inr (False, m)
      else rbind (imp_iterate (cb_releasable True) addr (unat page_count) m) (\<lambda>(res, m).
        if res \<noteq> unat page_count then Inr (False, m) else safe_release addr (unat page_count) m))"

text \<open>The second walk of \<open>commit\<close>, \<open>protect\<close> and \<open>assign\<close> must cover the whole range.\<close>

definition iterate_all :: "pte_callback \<Rightarrow> qword \<Rightarrow> nat \<Rightarrow> vspace \<Rightarrow> vspace res" where
  "iterate_all f addr page_count m =
     rbind (imp_iterate f addr page_count m) (\<lambda>(res, m).
      if res \<noteq> page_count then bugcheck ''page count mismatch'' else Inr m)"

definition user_commit :: "(pm \<Rightarrow> pm) \<Rightarrow> qword \<Rightarrow> dword \<Rightarrow> vspace \<Rightarrow> (bool \<times> vspace) res" where
  "user_commit cb base_addr page_count m =
     (if \<not> user_common_check base_addr page_count then Inr (False, m)
      else rbind (imp_iterate cb_reserved base_addr (unat page_count) m) (\<lambda>(res, m).
        if res \<noteq> unat page_count then Inr (False, m)
        else let (got, pm) = PM_reserve cb (unat page_count) (vs_pm m); m = m\<lparr>vs_pm := pm\<rparr> in
          if \<not> got then Inr (False, m)
          else rbind (iterate_all (cb_commit cb True) base_addr (unat page_count) m) (\<lambda>m.
            Inr (True, m\<lparr>vs_used := vs_used m + ucast page_count\<rparr>))))"

definition user_protect :: "qword \<Rightarrow> dword \<Rightarrow> qword \<Rightarrow> vspace \<Rightarrow> (bool \<times> vspace) res" where
  "user_protect base_addr page_count attrib m =
     (let msk = PAGE_XD OR PAGE_GLOBAL OR PAGE_CD OR PAGE_WT OR PAGE_USER OR PAGE_WRITE OR PAGE_PRESENT in
      if \<not> user_common_check base_addr page_count then Inr (False, m)
      else if attrib AND NOT msk \<noteq> 0 then Inr (False, m)
      else rbind (imp_iterate (cb_committed True) base_addr (unat page_count) m) (\<lambda>(res, m).
        if res \<noteq> unat page_count then Inr (False, m)
        else rbind (iterate_all (cb_protect True attrib) base_addr (unat page_count) m) (\<lambda>m. Inr (True, m))))"

definition user_peek :: "qword \<Rightarrow> vspace \<Rightarrow> pte" where
  "user_peek va m = (if size_512G \<le> va then pte_zero else imp_peek va m)"

text \<open>Access by the kernel to a user range. \<open>phys\<close> is the content of physical memory by address; an
  address of the high half goes to the kernel's own mapping and is left to the parameter \<open>high\<close>.\<close>

function user_write_loop :: "vspace \<Rightarrow> qword \<Rightarrow> byte list \<Rightarrow> nat \<Rightarrow> (nat \<Rightarrow> byte) \<Rightarrow> nat \<times> (nat \<Rightarrow> byte)" where
  "user_write_loop m va data count phys =
     (if data = [] then (count, phys)
      else let pt = user_peek va m in
        if \<not> pt_present pt \<or> \<not> pt_user pt \<or> \<not> pt_write pt then (count, phys)
        else let off = unat (va AND PAGE_MASK); len = min (length data) (4096 - off);
                 base = pt_page_addr pt * 4096 + off in
          user_write_loop m (va + of_nat len) (drop len data) (count + len)
            (\<lambda>a. if base \<le> a \<and> a < base + len then data ! (a - base) else phys a))"
  by auto

function user_read_loop :: "vspace \<Rightarrow> qword \<Rightarrow> nat \<Rightarrow> (nat \<Rightarrow> byte) \<Rightarrow> byte list" where
  "user_read_loop m va n phys =
     (if n = 0 then []
      else let pt = user_peek va m in
        if \<not> pt_present pt \<or> \<not> pt_user pt then []
        else let off = unat (va AND PAGE_MASK); len = min n (4096 - off);
                 base = pt_page_addr pt * 4096 + off in
          map phys [base..<base + len] @ user_read_loop m (va + of_nat len) (n - len) phys)"
  by auto

lemma page_off_less: "unat (va AND PAGE_MASK) < 4096"
  using word_and_le1 [of va PAGE_MASK] by (simp add: word_le_nat_alt)

termination user_write_loop
  by (relation "measure (\<lambda>(m, va, data, c, p). length data)") (use page_off_less in \<open>auto simp: Let_def\<close>)

termination user_read_loop
  by (relation "measure (\<lambda>(m, va, n, p). n)") (use page_off_less in \<open>auto simp: Let_def\<close>)


declare user_write_loop.simps [simp del] user_read_loop.simps [simp del]

definition user_write :: "(qword \<Rightarrow> byte list \<Rightarrow> (nat \<Rightarrow> byte) \<Rightarrow> (nat \<Rightarrow> byte)) \<Rightarrow> vspace \<Rightarrow> qword \<Rightarrow> byte list \<Rightarrow>
    (nat \<Rightarrow> byte) \<Rightarrow> nat \<times> (nat \<Rightarrow> byte)" where
  "user_write high m va data phys =
     (if IS_HIGHADDR va then (length data, high va data phys) else user_write_loop m va data 0 phys)"

definition user_read :: "(qword \<Rightarrow> nat \<Rightarrow> (nat \<Rightarrow> byte) \<Rightarrow> byte list) \<Rightarrow> vspace \<Rightarrow> qword \<Rightarrow> nat \<Rightarrow>
    (nat \<Rightarrow> byte) \<Rightarrow> byte list" where
  "user_read high m va n phys = (if IS_HIGHADDR va then high va n phys else user_read_loop m va n phys)"

text \<open>\<open>zero\<close> is the loop of \<open>write\<close> with zero bytes.\<close>

definition user_zero :: "(qword \<Rightarrow> byte list \<Rightarrow> (nat \<Rightarrow> byte) \<Rightarrow> (nat \<Rightarrow> byte)) \<Rightarrow> vspace \<Rightarrow> qword \<Rightarrow> nat \<Rightarrow>
    (nat \<Rightarrow> byte) \<Rightarrow> nat \<times> (nat \<Rightarrow> byte)" where
  "user_zero high m va n phys =
     (if IS_HIGHADDR va then (n, high va (replicate n 0) phys) else user_write_loop m va (replicate n 0) 0 phys)"

text \<open>Construction: the result gives the frames of the top tables beside the space.\<close>

definition user_ctor :: "(pm \<Rightarrow> pm) \<Rightarrow> (nat \<Rightarrow> nat \<Rightarrow> pdte) \<Rightarrow> (nat \<Rightarrow> ptable) \<Rightarrow> pm \<Rightarrow> (nat \<times> nat \<times> vspace) res" where
  "user_ctor cb pdts pts pm =
     rbind (PM_allocate cb MUST_SUCCEED pm) (\<lambda>(cr3, pm).
     rbind (PM_allocate cb MUST_SUCCEED pm) (\<lambda>(pl4te, pm).
     rbind (PM_allocate cb MUST_SUCCEED pm) (\<lambda>(pa_pdt, pm).
     let f = pa_pdt div 4096 in
     Inr (cr3, pl4te,
       \<lparr>vs_pm = pm,
        vs_pdpt = (\<lambda>_. pdpte_zero)(0 := pdpte_zero\<lparr>pp_pdt_addr := f, pp_user := True,
                                        pp_write := True, pp_present := True\<rparr>),
        vs_pdt = pdts(f := (\<lambda>_. pdte_zero)(0 := pdte_zero\<lparr>pd_bypass := True\<rparr>)),
        vs_pt = pts, vs_used = 3\<rparr>))))"

primrec dtor_pt :: "nat \<Rightarrow> nat \<Rightarrow> ptable \<Rightarrow> pm \<Rightarrow> pm res" where
  "dtor_pt 0 i t pm = Inr pm"
| "dtor_pt (Suc k) i t pm =
     (if pt_present (t i) then
        kassert (pt_user (t i)) (rbind (PM_release (pt_page_addr (t i) * 4096) pm) (dtor_pt k (i + 1) t))
      else dtor_pt k (i + 1) t pm)"

primrec dtor_pdt :: "nat \<Rightarrow> nat \<Rightarrow> (nat \<Rightarrow> pdte) \<Rightarrow> (nat \<Rightarrow> ptable) \<Rightarrow> pm \<Rightarrow> pm res" where
  "dtor_pdt 0 i pdt pts pm = Inr pm"
| "dtor_pdt (Suc k) i pdt pts pm =
     (if pd_present (pdt i) then
        rbind (dtor_pt 512 0 (pts (pd_pt_addr (pdt i))) pm) (\<lambda>pm.
        rbind (PM_release (pd_pt_addr (pdt i) * 4096) pm) (dtor_pdt k (i + 1) pdt pts))
      else dtor_pdt k (i + 1) pdt pts pm)"

primrec dtor_pdpt :: "nat \<Rightarrow> nat \<Rightarrow> vspace \<Rightarrow> pm \<Rightarrow> pm res" where
  "dtor_pdpt 0 i m pm = Inr pm"
| "dtor_pdpt (Suc k) i m pm =
     (if pp_present (vs_pdpt m i) then
        rbind (dtor_pdt 512 0 (vs_pdt m (pp_pdt_addr (vs_pdpt m i))) (vs_pt m) pm) (\<lambda>pm.
        rbind (PM_release (pp_pdt_addr (vs_pdpt m i) * 4096) pm) (dtor_pdpt k (i + 1) m))
      else dtor_pdpt k (i + 1) m pm)"

definition user_dtor :: "nat \<Rightarrow> nat \<Rightarrow> vspace \<Rightarrow> pm res" where
  "user_dtor cr3 pl4te m =
     rbind (dtor_pdpt 512 0 m (vs_pm m)) (\<lambda>pm. rbind (PM_release pl4te pm) (PM_release cr3))"

section \<open>\<open>kernel_vspace\<close>\<close>

definition kernel_common_check :: "qword \<Rightarrow> dword \<Rightarrow> bool" where
  "kernel_common_check addr page_count \<longleftrightarrow>
     addr \<noteq> 0 \<and> page_count \<noteq> 0 \<and> addr AND PAGE_MASK = 0 \<and> IS_HIGHADDR addr \<and>
     \<not> size_512G < LOWADDR (addr + ucast page_count * 0x1000)"

definition kernel_reserve :: "(pm \<Rightarrow> pm) \<Rightarrow> qword \<Rightarrow> dword \<Rightarrow> vspace \<Rightarrow> (qword \<times> vspace) res" where
  "kernel_reserve cb addr page_count m =
     (if addr \<noteq> 0 \<and> \<not> kernel_common_check addr page_count \<or>
         addr = 0 \<and> (page_count = 0 \<or> 0x40000 < page_count) then Inr (0, m)
      else if addr \<noteq> 0 then
        rbind (reserve_fixed cb addr (unat page_count) m) (\<lambda>(ok, m). Inr (if ok then addr else 0, m))
      else rbind (if page_count < 0x200 then reserve_any cb (unat page_count) m
                  else reserve_big cb (unat page_count) m) (\<lambda>(a, m).
        let addr = HIGHADDR (of_nat a) in
        kassert (kernel_common_check addr page_count) (Inr (addr, m))))"

definition kernel_release :: "qword \<Rightarrow> dword \<Rightarrow> vspace \<Rightarrow> (bool \<times> vspace) res" where
  "kernel_release addr page_count m =
     (if \<not> kernel_common_check addr page_count then Inr (False, m)
      else rbind (imp_iterate (cb_releasable False) addr (unat page_count) m) (\<lambda>(res, m).
        if res \<noteq> unat page_count then Inr (False, m) else safe_release addr (unat page_count) m))"

definition kernel_commit :: "(pm \<Rightarrow> pm) \<Rightarrow> qword \<Rightarrow> dword \<Rightarrow> vspace \<Rightarrow> (bool \<times> vspace) res" where
  "kernel_commit cb base_addr page_count m =
     (if \<not> kernel_common_check base_addr page_count then Inr (False, m)
      else rbind (available (vs_pm m)) (\<lambda>avl_count.
        if avl_count \<le> unat page_count then Inr (False, m)
        else rbind (imp_iterate cb_reserved base_addr (unat page_count) m) (\<lambda>(res, m).
          if res \<noteq> unat page_count then Inr (False, m)
          else let (got, pm) = PM_reserve cb (unat page_count) (vs_pm m); m = m\<lparr>vs_pm := pm\<rparr> in
            if \<not> got then Inr (False, m)
            else rbind (iterate_all (cb_commit cb False) base_addr (unat page_count) m) (\<lambda>m.
              Inr (True, m\<lparr>vs_used := vs_used m + ucast page_count\<rparr>)))))"

definition kernel_protect :: "qword \<Rightarrow> dword \<Rightarrow> qword \<Rightarrow> vspace \<Rightarrow> (bool \<times> vspace) res" where
  "kernel_protect base_addr page_count attrib m =
     (let msk = PAGE_XD OR PAGE_GLOBAL OR PAGE_CD OR PAGE_WT OR PAGE_WRITE OR PAGE_PRESENT in
      if \<not> kernel_common_check base_addr page_count then Inr (False, m)
      else if attrib AND NOT msk \<noteq> 0 then Inr (False, m)
      else rbind (imp_iterate (cb_committed False) base_addr (unat page_count) m) (\<lambda>(res, m).
        if res \<noteq> unat page_count then Inr (False, m)
        else rbind (iterate_all (cb_protect False attrib) base_addr (unat page_count) m) (\<lambda>m. Inr (True, m))))"

definition kernel_assign :: "qword \<Rightarrow> qword \<Rightarrow> dword \<Rightarrow> vspace \<Rightarrow> (bool \<times> vspace) res" where
  "kernel_assign base_addr phy_addr page_count m =
     (if \<not> kernel_common_check base_addr page_count \<or> phy_addr = 0 then Inr (False, m)
      else rbind (imp_iterate cb_assignable base_addr (unat page_count) m) (\<lambda>(res, m).
        if res \<noteq> unat page_count then Inr (False, m)
        else if base_addr < phy_addr then bugcheck ''assume phy_addr is far lower than base_addr''
        else rbind (iterate_all (cb_assign (base_addr - phy_addr)) base_addr (unat page_count) m) (\<lambda>m.
          Inr (True, m))))"

definition kernel_peek :: "qword \<Rightarrow> vspace \<Rightarrow> pte" where
  "kernel_peek va m = (if \<not> IS_HIGHADDR va \<or> size_512G \<le> LOWADDR va then pte_zero else imp_peek va m)"

section \<open>\<open>map_view\<close>\<close>

text \<open>The 512 slots of the view table. The exchange that claims a slot is atomic, so one call is one
  step; \<open>view\<close> is the slot the object holds.\<close>

primrec map_slot :: "nat \<Rightarrow> nat \<Rightarrow> qword \<Rightarrow> (nat \<Rightarrow> qword) \<Rightarrow> (nat \<times> (nat \<Rightarrow> qword)) res" where
  "map_slot 0 index v tbl = bugcheck ''map_view::map failed''"
| "map_slot (Suc k) index v tbl =
     (if tbl index AND 1 \<noteq> 0 then map_slot k (index + 1) v tbl else Inr (index, tbl(index := v)))"

definition map_view_unmap :: "qword option \<Rightarrow> (nat \<Rightarrow> qword) \<Rightarrow> (qword option \<times> (nat \<Rightarrow> qword)) res" where
  "map_view_unmap view tbl =
     (case view of None \<Rightarrow> Inr (None, tbl)
      | Some addr \<Rightarrow>
         kassert (addr AND PAGE_MASK = 0)
          (let base = HIGHADDR 0x200000; index = unat (drop_bit 12 (addr - base)) in
           if addr < base \<or> 512 \<le> index then bugcheck ''out_of_range''
           else if tbl index AND 1 = 0 then bugcheck ''double free''
           else Inr (None, tbl(index := 0))))"

definition map_view_map :: "qword \<Rightarrow> qword \<Rightarrow> qword option \<Rightarrow> (nat \<Rightarrow> qword) \<Rightarrow> (qword option \<times> (nat \<Rightarrow> qword)) res" where
  "map_view_map pa attrib view tbl =
     kassert (pa AND PAGE_MASK = 0) (kassert (attrib AND 0x7FFFFFFFFFFFF004 = 0)
      (rbind (map_view_unmap view tbl) (\<lambda>(_, tbl).
       rbind (map_slot 512 0 (attrib OR pa OR PAGE_PRESENT) tbl) (\<lambda>(index, tbl).
       Inr (Some (HIGHADDR 0x200000 + 0x1000 * of_nat index), tbl)))))"

end
