(* ===== verification/VSpace_Props.thy ===== *)
theory VSpace_Props
  imports VSpace
begin

text \<open>
  Properties of the address-space operations of \<open>VSpace\<close>: the range check has no wrap-around, a walk
  counts exactly the leading pages that qualify, the kernel's access to user memory respects the
  page permissions, creating and destroying a space is neutral for the frame pool.
\<close>

section \<open>Address arithmetic\<close>

lemma HIGHADDR_0: "HIGHADDR 0 = NOT (mask 47)"
  by (simp add: HIGHADDR_def mask_eq_exp_minus_1)

lemma and_mask_unat: "unat (w AND mask k) = unat w mod 2 ^ k"
  by (metis take_bit_eq_mask unsigned_take_bit_eq take_bit_eq_mod)

lemma and_not_mask: "w AND NOT (mask k) = 0 \<longleftrightarrow> w AND mask k = w"
proof
  assume "w AND NOT (mask k) = 0"
  then have "\<not> bit (w AND NOT (mask k)) n" for n by simp
  then show "w AND mask k = w" by (intro bit_eqI) (auto simp: bit_simps)
next
  assume "w AND mask k = w"
  then have "w AND NOT (mask k) = (w AND mask k) AND NOT (mask k)" by simp
  then show "w AND NOT (mask k) = 0" by (simp add: and.assoc)
qed

lemma high_clear_less: "addr AND HIGHADDR 0 = 0 \<Longrightarrow> unat addr < 2 ^ 47"
proof -
  assume "addr AND HIGHADDR 0 = 0"
  then have "addr AND mask 47 = addr" by (simp add: HIGHADDR_0 and_not_mask)
  then have "unat addr = unat addr mod 2 ^ 47" using and_mask_unat [of addr 47] by simp
  then show ?thesis by (metis mod_less_divisor zero_less_numeral zero_less_power)
qed

lemma page_mask_dvd: "addr AND PAGE_MASK = 0 \<longleftrightarrow> 4096 dvd unat addr"
proof -
  have "PAGE_MASK = mask 12" by (simp add: mask_eq_exp_minus_1)
  then have "unat (addr AND PAGE_MASK) = unat addr mod 4096" using and_mask_unat [of addr 12] by simp
  then show ?thesis by (simp add: dvd_eq_mod_eq_0 unat_eq_zero flip: unat_0_iff)
qed

lemma user_common_check_iff:
  "user_common_check addr page_count \<longleftrightarrow>
     0 < unat addr \<and> 0 < unat page_count \<and> 4096 dvd unat addr \<and> unat addr + unat page_count * 4096 \<le> 2 ^ 39"
proof -
  have c: "unat page_count < 2 ^ 32" using unsigned_less [of page_count] by simp
  have u: "unat (ucast page_count * 0x1000 :: qword) = unat page_count * 4096"
    using c by (simp add: unat_word_ariths unsigned_ucast_eq take_bit_eq_mod)
  have sum: "unat (addr + ucast page_count * 0x1000) = unat addr + unat page_count * 4096" if "unat addr < 2 ^ 47"
    using that c by (simp add: unat_word_ariths unsigned_ucast_eq take_bit_eq_mod)
  have lt: "addr AND HIGHADDR 0 = 0" if "unat addr \<le> 2 ^ 39"
  proof -
    have "unat addr = unat addr mod 2 ^ 47" using that by simp
    then have "addr = addr AND mask 47" by (metis and_mask_unat word_unat_eq_iff)
    then show ?thesis by (simp add: HIGHADDR_0 and_not_mask)
  qed
  have nz: "addr \<noteq> 0 \<longleftrightarrow> 0 < unat addr" "page_count \<noteq> 0 \<longleftrightarrow> 0 < unat page_count" by (simp_all add: unat_gt_0)
  show ?thesis
  proof
    assume *: "user_common_check addr page_count"
    then have "unat addr < 2 ^ 47" by (intro high_clear_less) (simp add: user_common_check_def)
    from sum [OF this] * show "0 < unat addr \<and> 0 < unat page_count \<and> 4096 dvd unat addr \<and>
      unat addr + unat page_count * 4096 \<le> 2 ^ 39"
      unfolding user_common_check_def nz page_mask_dvd word_less_nat_alt by simp
  next
    assume *: "0 < unat addr \<and> 0 < unat page_count \<and> 4096 dvd unat addr \<and>
      unat addr + unat page_count * 4096 \<le> 2 ^ 39"
    then have "unat addr \<le> 2 ^ 39" by linarith
    then show "user_common_check addr page_count"
      using * lt sum unfolding user_common_check_def nz page_mask_dvd word_less_nat_alt by simp
  qed
qed


text \<open>
  a range that \<open>user_vspace::common_check\<close> accepts is page aligned, not empty, does not start at
  zero and ends at or below 512G, with no wrap-around in the 64-bit sum.
\<close>
theorem user_check_range:
  "user_common_check addr page_count \<longleftrightarrow>
     0 < unat addr \<and> 0 < unat page_count \<and> 4096 dvd unat addr \<and> unat addr + unat page_count * 4096 \<le> 2 ^ 39"
  by (rule user_common_check_iff)

section \<open>The walk\<close>

text \<open>The entry of the page with a given number, as the walks reach it.\<close>

definition entry_at :: "vspace \<Rightarrow> nat \<Rightarrow> pte option" where
  "entry_at m q = (let p = q div 512 in
     if pp_present (vs_pdpt m (p div 512)) \<and> \<not> pd_bypass (cur_pdt m p) \<and> pd_present (cur_pdt m p)
     then Some (cur_pt m p (q mod 512)) else None)"

definition page_number :: "qword \<Rightarrow> nat" where
  "page_number va = dir_pos va * 512 + pt_index va"

definition holds_at :: "(pte \<Rightarrow> bool) \<Rightarrow> vspace \<Rightarrow> nat \<Rightarrow> bool" where
  "holds_at P m q \<longleftrightarrow> (case entry_at m q of None \<Rightarrow> False | Some e \<Rightarrow> P e)"

definition test_cb :: "(pte \<Rightarrow> bool) \<Rightarrow> pte_callback" where
  "test_cb P pt addr pm = Inr (P pt, pt, pm)"

lemma set_pt_same [simp]: "set_pt p (cur_pt m p) m = m"
  by (simp add: set_pt_def cur_pt_def cur_pdt_def)

lemma takeWhile_upt_Suc:
  "a < b \<Longrightarrow> takeWhile P [a..<b] = (if P a then a # takeWhile P [Suc a..<b] else [])"
  by (simp add: upt_conv_Cons)

lemma iterate_table_test:
  "count < n \<Longrightarrow>
   iterate_table (test_cb P) k off addr count n t pm =
     (let c = length (takeWhile (\<lambda>i. P (t i)) [off..<min (off + k) (off + (n - count))]) in
      Inr (c < k \<or> count + c = n, addr + 0x1000 * of_nat c, count + c, t, pm))"
proof (induction k arbitrary: off addr count)
  case 0
  then show ?case by simp
next
  case (Suc k)
  show ?case
  proof (cases "P (t off)")
    case False
    then show ?thesis by (simp add: test_cb_def takeWhile_upt_Suc Suc.prems)
  next
    case True
    show ?thesis
    proof (cases "count + 1 = n")
      case last: True
      have "[off..<min (off + Suc k) (off + (n - count))] = [off]" using last by (auto simp: upt_conv_Cons min_def)
      then show ?thesis using True last by (simp add: test_cb_def)
    next
      case False
      have lt: "count + 1 < n" using False Suc.prems by simp
      have eq: "min (off + Suc k) (off + (n - count)) = min (off + 1 + k) (off + 1 + (n - (count + 1)))"
        using Suc.prems by arith
      define b where "b = min (off + 1 + k) (off + 1 + (n - (count + 1)))"
      define c where "c = length (takeWhile (\<lambda>i. P (t i)) [off + 1..<b])"
      have "off < b" by (simp add: b_def)
      from takeWhile_upt_Suc [OF this, of "\<lambda>i. P (t i)"] True
      have len: "length (takeWhile (\<lambda>i. P (t i)) [off..<b]) = Suc c" by (simp add: c_def)
      have "iterate_table (test_cb P) (Suc k) off addr count n t pm =
          iterate_table (test_cb P) k (off + 1) (addr + 0x1000) (count + 1) n t pm"
        using True False by (simp add: test_cb_def)
      also have "\<dots> = Inr (c < k \<or> count + 1 + c = n, addr + 0x1000 + 0x1000 * of_nat c, count + 1 + c, t, pm)"
        unfolding Suc.IH [OF lt] b_def [symmetric] c_def [symmetric] by (simp add: Let_def)
      finally show ?thesis unfolding eq b_def [symmetric] Let_def len by (simp add: algebra_simps)
    qed
  qed
qed

text \<open>Splitting the leading pages at a table boundary.\<close>

lemma takeWhile_split:
  assumes "a \<le> b" "b \<le> c"
  shows "length (takeWhile P [a..<c]) = (let l = length (takeWhile P [a..<b]) in
     if l < b - a then l else (b - a) + length (takeWhile P [b..<c]))"
proof -
  have split: "[a..<c] = [a..<b] @ [b..<c]" using upt_add_eq_append [of a b "c - b"] assms by simp
  show ?thesis
  proof (cases "\<forall>x\<in>set [a..<b]. P x")
    case True
    then have "length (takeWhile P [a..<b]) = b - a" by (simp add: takeWhile_eq_all_conv [THEN iffD2])
    moreover have "takeWhile P ([a..<b] @ [b..<c]) = [a..<b] @ takeWhile P [b..<c]"
      using True by (intro takeWhile_append2) blast
    ultimately show ?thesis unfolding split Let_def by simp
  next
    case False
    then obtain x where x: "x \<in> set [a..<b]" "\<not> P x" by blast
    then have "takeWhile P ([a..<b] @ [b..<c]) = takeWhile P [a..<b]" by (rule takeWhile_append1)
    moreover have "length (takeWhile P [a..<b]) < length [a..<b]"
    proof (rule ccontr)
      assume "\<not> length (takeWhile P [a..<b]) < length [a..<b]"
      then have "length (takeWhile P [a..<b]) = length [a..<b]"
        using length_takeWhile_le [of P "[a..<b]"] by linarith
      then have "takeWhile P [a..<b] = [a..<b]" by (metis append_eq_conv_conj takeWhile_dropWhile_id take_all order_refl)
      then show False using x set_takeWhileD by metis
    qed
    ultimately show ?thesis unfolding split by simp
  qed
qed

lemma takeWhile_shift:
  "takeWhile P [a + x..<a + y] = map (\<lambda>i. a + i) (takeWhile (\<lambda>i. P (a + i)) [x..<y])"
proof -
  have "[a + x..<a + y] = map (\<lambda>i. a + i) [x..<y]" by (induction y) auto
  then show ?thesis by (simp add: takeWhile_map comp_def)
qed

lemma iterate_loop_test:
  assumes "p + k = 512 * 512" "off < 512" "count \<le> n"
  shows "iterate_loop (test_cb P) k p off addr count n m =
     Inr (count + length (takeWhile (holds_at P m) [p * 512 + off..<min (p * 512 + off + (n - count)) (2 ^ 27)]), m)"
  using assms
proof (induction k arbitrary: p off addr count)
  case 0
  then show ?case by simp
next
  case (Suc k)
  let ?q = "p * 512 + off"
  have div: "(p * 512 + i) div 512 = p" "(p * 512 + i) mod 512 = i" if "i < 512" for i using that by simp_all
  have q: "?q < 2 ^ 27" using Suc.prems by simp
  show ?case
  proof (cases "count < n \<and> pp_present (vs_pdpt m (p div 512)) \<and> \<not> pd_bypass (cur_pdt m p) \<and> pd_present (cur_pdt m p)")
    case False
    have "takeWhile (holds_at P m) [?q..<min (?q + (n - count)) (2 ^ 27)] = []"
    proof (cases "count < n")
      case True
      then have "entry_at m ?q = None" using False Suc.prems(2) unfolding entry_at_def Let_def div(1) [OF Suc.prems(2)] by auto
      then have "\<not> holds_at P m ?q" by (simp add: holds_at_def)
      then show ?thesis using takeWhile_upt_Suc [of ?q] True q by simp
    qed simp
    then show ?thesis using False by auto
  next
    case True
    let ?t = "cur_pt m p"
    have ent: "holds_at P m (p * 512 + i) = P (?t i)" if "i < 512" for i
      using True that by (simp add: holds_at_def entry_at_def div Let_def)
    define e where "e = min 512 (off + (n - count))"
    have e: "off < e" "e \<le> 512" using True Suc.prems by (auto simp: e_def)
    define c where "c = length (takeWhile (\<lambda>i. P (?t i)) [off..<e])"
    have cl: "c \<le> e - off" unfolding c_def by (metis length_takeWhile_le length_upt)
    have mn: "min (off + (512 - off)) (off + (n - count)) = e" using Suc.prems by (simp add: e_def)
    have tab: "iterate_table (test_cb P) (512 - off) off addr count n ?t (vs_pm m) =
       Inr (c < 512 - off \<or> count + c = n, addr + 0x1000 * of_nat c, count + c, ?t, vs_pm m)"
      using iterate_table_test [of count n P "512 - off" off addr ?t "vs_pm m"] True
      unfolding mn c_def [symmetric] by (simp add: Let_def)
    have first: "length (takeWhile (holds_at P m) [?q..<p * 512 + e]) = c"
    proof -
      have "takeWhile (\<lambda>i. holds_at P m (p * 512 + i)) [off..<e] = takeWhile (\<lambda>i. P (?t i)) [off..<e]"
        by (rule takeWhile_cong) (use e ent in auto)
      then show ?thesis by (simp add: takeWhile_shift c_def)
    qed
    have bound: "p * 512 + e \<le> min (?q + (n - count)) (2 ^ 27)"
      using Suc.prems by (auto simp: e_def min_def)
    have le: "?q \<le> p * 512 + e" using e by simp
    note split = takeWhile_split [OF le bound, of "holds_at P m", unfolded first Let_def]
    have step: "iterate_loop (test_cb P) (Suc k) p off addr count n m =
      (if c < 512 - off \<or> count + c = n then Inr (count + c, m)
       else iterate_loop (test_cb P) k (p + 1) 0 (addr + 0x1000 * of_nat c) (count + c) n m)"
      using True tab by simp
    show ?thesis
    proof (cases "c < 512 - off \<or> count + c = n")
      case stop: True
      have "length (takeWhile (holds_at P m) [?q..<min (?q + (n - count)) (2 ^ 27)]) = c"
      proof (cases "c < e - off")
        case True
        then show ?thesis using split by simp
      next
        case False
        then have "c = e - off" using cl by simp
        then have "e = off + (n - count)" using stop e cl True by (auto simp: e_def min_def split: if_splits)
        then have "min (?q + (n - count)) (2 ^ 27) = p * 512 + e" 
          using Suc.prems(1) e by simp
        then show ?thesis using first by simp
      qed
      then show ?thesis using stop step by simp
    next
      case False
      have c: "c = 512 - off" "e = 512" using False cl e by (auto simp: e_def min_def split: if_splits)
      have lt: "count + c \<le> n" using cl True by (auto simp: e_def)
      have q': "(p + 1) * 512 + 0 = p * 512 + e" "p * 512 + e + (n - (count + c)) = ?q + (n - count)"
        using c lt Suc.prems by auto
      have IH: "iterate_loop (test_cb P) k (p + 1) 0 (addr + 0x1000 * of_nat c) (count + c) n m =
        Inr (count + c + length (takeWhile (holds_at P m)
          [(p + 1) * 512 + 0..<min ((p + 1) * 512 + 0 + (n - (count + c))) (2 ^ 27)]), m)"
        by (rule Suc.IH) (use Suc.prems lt in auto)
      show ?thesis using False split c unfolding step IH [unfolded q'] by simp
    qed
  qed
qed

lemma drop_bit_mask_unat: "unat (drop_bit k va AND mask n) = unat va div 2 ^ k mod 2 ^ n"
  by (simp add: and_mask_unat unat_drop_bit_eq flip: drop_bit_eq_div)

lemma index_bounds [simp]: "pt_index va < 512" "pdt_index va < 512" "pdpt_index va < 512"
proof -
  have "(0x1FF :: qword) = mask 9" by (simp add: mask_eq_exp_minus_1)
  then have "unat (drop_bit k va AND 0x1FF) < 512" for k
    using drop_bit_mask_unat [of k va 9] by simp
  then show "pt_index va < 512" "pdt_index va < 512" "pdpt_index va < 512"
    by (simp_all add: pt_index_def pdt_index_def pdpt_index_def)
qed

text \<open>
  a walk with a read-only test changes nothing and returns the number of pages, from the base
  on, up to the first that is not mapped by a usable table or fails the test (or the end of the
  512G space). All permission checks of the address spaces rest on it.
\<close>
theorem iterate_counts_leading_pages:
  assumes "page_count \<noteq> 0" "base \<noteq> 0" "base AND PAGE_MASK = 0" "drop_bit 39 (LOWADDR base) = 0"
  shows "imp_iterate (test_cb P) base page_count m =
     Inr (length (takeWhile (holds_at P m) [page_number base..<min (page_number base + page_count) (2 ^ 27)]), m)"
proof -
  have "dir_pos base < 512 * 512"
    using index_bounds [of base] by linarith
  then show ?thesis
    using assms iterate_loop_test [of "dir_pos base" "512 * 512 - dir_pos base" "pt_index base" 0 page_count P base m]
    by (simp add: imp_iterate_def kassert_def Let_def page_number_def)
qed


lemma test_cbs: "cb_reserved = test_cb (\<lambda>pt. pt_preserve pt \<and> \<not> pt_bypass pt \<and> \<not> pt_present pt)"
  "cb_releasable user = test_cb (\<lambda>pt. \<not> pt_bypass pt \<and> (if pt_present pt then pt_page_addr pt \<noteq> 0 \<and> pt_user pt = user else pt_preserve pt))"
  "cb_committed user = test_cb (\<lambda>pt. pt_present pt \<and> \<not> pt_bypass pt \<and> pt_user pt = user \<and> pt_page_addr pt \<noteq> 0)"
  by (auto simp: fun_eq_iff test_cb_def cb_reserved_def cb_releasable_def cb_committed_def)

section \<open>Access to user memory\<close>

lemma write_loop_safe:
  "user_write_loop m va data count phys = (c, phys') \<Longrightarrow> phys' a \<noteq> phys a \<Longrightarrow>
     \<exists>va'. pt_present (user_peek va' m) \<and> pt_user (user_peek va' m) \<and> pt_write (user_peek va' m) \<and>
       a div 4096 = pt_page_addr (user_peek va' m)"
proof (induction m va data count phys rule: user_write_loop.induct)
  case (1 m va data count phys)
  define pt where "pt = user_peek va m"
  define off where "off = unat (va AND PAGE_MASK)"
  define len where "len = min (length data) (4096 - off)"
  define base where "base = pt_page_addr pt * 4096 + off"
  define phys1 where "phys1 = (\<lambda>a. if base \<le> a \<and> a < base + len then data ! (a - base) else phys a)"
  show ?case
  proof (cases "data = [] \<or> \<not> pt_present pt \<or> \<not> pt_user pt \<or> \<not> pt_write pt")
    case True
    then show ?thesis using 1(2,3) by (subst (asm) user_write_loop.simps) (auto simp: pt_def Let_def split: if_splits)
  next
    case False
    then have run: "user_write_loop m (va + of_nat len) (drop len data) (count + len) phys1 = (c, phys')"
      using 1(2) unfolding phys1_def base_def len_def off_def pt_def
      by (subst (asm) user_write_loop.simps) (simp add: Let_def)
    show ?thesis
    proof (cases "phys1 a = phys a")
      case True
      then have ne: "phys' a \<noteq> (if base \<le> a \<and> a < base + len then data ! (a - base) else phys a)"
        using 1(3) by (simp add: phys1_def)
      show ?thesis
        by (rule 1(1) [OF _ pt_def _ off_def len_def base_def]) (use False run ne in \<open>auto simp: phys1_def\<close>)
    next
      case diff: False
      then have "base \<le> a" "a < base + len" by (auto simp: phys1_def split: if_splits)
      moreover have "off < 4096" by (simp add: off_def page_off_less)
      ultimately have "pt_page_addr pt * 4096 \<le> a" "a < pt_page_addr pt * 4096 + 4096"
        by (auto simp: base_def len_def)
      then have "a div 4096 = pt_page_addr pt" by linarith
      then show ?thesis using False by (auto simp: pt_def)
    qed
  qed
qed

text \<open>
  when the kernel writes into a user range (\<open>user_vspace::write\<close> and \<open>zero\<close>), every byte of physical
  memory that changes lies in a frame the space maps present, user accessible and writable; at most
  the requested number of bytes is reported.
\<close>
theorem user_write_respects_permissions:
  assumes "\<not> IS_HIGHADDR va" and "user_write high m va data phys = (c, phys')"
  shows "(\<forall>a. phys' a \<noteq> phys a \<longrightarrow> (\<exists>va'. pt_present (user_peek va' m) \<and> pt_user (user_peek va' m) \<and>
     pt_write (user_peek va' m) \<and> a div 4096 = pt_page_addr (user_peek va' m))) \<and> c \<le> length data"
proof -
  have run: "user_write_loop m va data 0 phys = (c, phys')" using assms by (simp add: user_write_def)
  have "user_write_loop m va data k phys = (c, phys') \<Longrightarrow> c \<le> k + length data" for k
  proof (induction m va data k phys rule: user_write_loop.induct)
    case (1 m va data count phys)
    show ?case
      using 1(2) 1(1) [OF _ refl _ refl refl refl]
      by (subst (asm) user_write_loop.simps) (auto simp: Let_def split: if_splits)
  qed
  from this [OF run] write_loop_safe [OF run] show ?thesis by auto
qed


text \<open>Witnesses for the walk and the access use an empty space and one with a single user page.\<close>

definition empty_space :: vspace where
  "empty_space = \<lparr>vs_pm = pm_sample, vs_pdpt = \<lambda>_. pdpte_zero, vs_pdt = \<lambda>_ _. pdte_zero, vs_pt = \<lambda>_ _. pte_zero, vs_used = 3\<rparr>"

definition user_pte :: pte where
  "user_pte = pte_zero\<lparr>pt_present := True, pt_user := True, pt_write := True, pt_preserve := True, pt_page_addr := 2\<rparr>"

definition one_page_space :: vspace where
  "one_page_space = empty_space\<lparr>
     vs_pdpt := (\<lambda>_. pdpte_zero)(0 := pdpte_zero\<lparr>pp_present := True, pp_pdt_addr := 8\<rparr>),
     vs_pdt := (\<lambda>_ _. pdte_zero)(8 := (\<lambda>_. pdte_zero)(1 := pdte_zero\<lparr>pd_present := True, pd_pt_addr := 9\<rparr>)),
     vs_pt := (\<lambda>_ _. pte_zero)(9 := (\<lambda>_. pte_zero)(0 := user_pte))\<rparr>"

lemma one_page_index: "pt_index 0x200000 = 0" "pdt_index 0x200000 = 1" "pdpt_index 0x200000 = 0"
  "pt_index 0x201000 = 1" "pdt_index 0x201000 = 1" "pdpt_index 0x201000 = 0"
  by (simp_all add: pt_index_def pdt_index_def pdpt_index_def)

theorem iterate_counts_leading_pages_witness:
  "imp_iterate (test_cb pt_user) 0x200000 2 one_page_space = Inr (1, one_page_space)"
proof -
  have "page_number 0x200000 = 512" by (simp add: page_number_def one_page_index)
  moreover have "takeWhile (holds_at pt_user one_page_space) [512..<514] = [512]"
    by (simp add: upt_rec holds_at_def entry_at_def cur_pdt_def cur_pt_def one_page_space_def user_pte_def pte_zero_def pdte_zero_def)
  ultimately show ?thesis
    using iterate_counts_leading_pages [where P = pt_user and base = "0x200000" and page_count = 2 and m = one_page_space]
    by (simp add: LOWADDR_def)
qed

lemma one_page_peek: "user_peek 0x200000 one_page_space = user_pte"
  by (simp add: user_peek_def imp_peek_def LOWADDR_def one_page_index cur_pdt_def cur_pt_def one_page_space_def)

theorem user_write_respects_permissions_witness:
  "\<exists>c phys'. user_write (\<lambda>_ _ p. p) one_page_space 0x200000 [5] (\<lambda>_. 0) = (c, phys') \<and> c \<le> 1 \<and> phys' 8192 = 5 \<and>
     (\<exists>va'. pt_write (user_peek va' one_page_space) \<and> pt_page_addr (user_peek va' one_page_space) = 2)"
proof -
  have low: "\<not> IS_HIGHADDR 0x200000" by (simp add: IS_HIGHADDR_def HIGHADDR_def)
  define phys' where "phys' = (\<lambda>a. if 8192 \<le> a \<and> a < 8193 then [5] ! (a - 8192) else (0 :: byte))"
  have run: "user_write (\<lambda>_ _ p. p) one_page_space 0x200000 [5] (\<lambda>_. 0) = (1, phys')"
    by (subst user_write_def, simp add: low, subst user_write_loop.simps, subst user_write_loop.simps)
      (simp add: Let_def one_page_peek user_pte_def phys'_def cong: if_cong)
  from user_write_respects_permissions [OF low run] have
    "phys' 8192 \<noteq> 0 \<longrightarrow> (\<exists>va'. pt_write (user_peek va' one_page_space) \<and> pt_page_addr (user_peek va' one_page_space) = 2)"
    by fastforce
  moreover have "phys' 8192 = 5" by (simp add: phys'_def)
  ultimately show ?thesis using run by auto
qed

section \<open>Creating and destroying a user space\<close>

lemma dtor_pdt_empty: "(\<And>j. \<not> pd_present (pdt j)) \<Longrightarrow> dtor_pdt k i pdt pts pm = Inr pm"
  by (induction k arbitrary: i) auto

lemma dtor_pdpt_empty: "(\<And>j. i \<le> j \<Longrightarrow> \<not> pp_present (vs_pdpt m j)) \<Longrightarrow> dtor_pdpt k i m pm = Inr pm"
  by (induction k arbitrary: i) auto

lemma allocate_bmp_size:
  "PM_allocate cb mode s = Inr (r, s') \<Longrightarrow> critical_check cb s = s \<Longrightarrow> bmp_size s' = bmp_size s"
  by (auto simp: PM_allocate_def rbind_eq_Inr kassert_eq_Inr split: if_splits prod.splits)

text \<open>
  constructing a user address space takes three frames, and destroying it at once returns
  exactly those: the pool of free frames is as before, and the allocator invariant holds.
\<close>
theorem user_space_lifecycle:
  assumes "pm_inv pm" and "\<not> callback pm" and "used pm + reserved pm + 3 \<le> total pm"
  shows "\<exists>cr3 pl4te m pm'. user_ctor cb pdts pts pm = Inr (cr3, pl4te, m) \<and>
     vs_used m = 3 \<and> card (frames_of (vs_pm m)) = card (frames_of pm) - 3 \<and>
     user_dtor cr3 pl4te m = Inr pm' \<and> pm_inv pm' \<and> frames_of pm' = frames_of pm \<and> used pm' = used pm"
proof -
  have cc: "critical_check cb s = s" if "\<not> callback s" for s using that by (simp add: critical_check_def)
  have alloc: "\<exists>r s'. PM_allocate cb MUST_SUCCEED s = Inr (r * 4096, s') \<and> r \<noteq> 0 \<and> r \<in> frames_of s \<and>
     frames_of s' = frames_of s - {r} \<and> pm_inv s' \<and> used s' = used s + 1 \<and> reserved s' = reserved s \<and>
     total s' = total s \<and> \<not> callback s' \<and> bmp_size s' = bmp_size s"
    if "pm_inv s" "\<not> callback s" "used s + reserved s < total s" for s
    using allocate_ok [of s cb s MUST_SUCCEED] that cc [OF that(2)] allocate_bmp_size [of cb MUST_SUCCEED s] by auto
  from alloc [OF assms(1,2)] assms(3) obtain r1 s1 where 1: "PM_allocate cb MUST_SUCCEED pm = Inr (r1 * 4096, s1)"
    "r1 \<noteq> 0" "r1 \<in> frames_of pm" "frames_of s1 = frames_of pm - {r1}" "pm_inv s1" "used s1 = used pm + 1"
    "reserved s1 = reserved pm" "total s1 = total pm" "\<not> callback s1" "bmp_size s1 = bmp_size pm" by auto
  from alloc [OF 1(5,9)] assms(3) 1 obtain r2 s2 where 2: "PM_allocate cb MUST_SUCCEED s1 = Inr (r2 * 4096, s2)"
    "r2 \<noteq> 0" "r2 \<in> frames_of s1" "frames_of s2 = frames_of s1 - {r2}" "pm_inv s2" "used s2 = used pm + 2"
    "reserved s2 = reserved pm" "total s2 = total pm" "\<not> callback s2" "bmp_size s2 = bmp_size pm" by auto
  from alloc [OF 2(5,9)] assms(3) 2 obtain r3 s3 where 3: "PM_allocate cb MUST_SUCCEED s2 = Inr (r3 * 4096, s3)"
    "r3 \<noteq> 0" "r3 \<in> frames_of s2" "frames_of s3 = frames_of s2 - {r3}" "pm_inv s3" "used s3 = used pm + 3"
    "bmp_size s3 = bmp_size pm" by auto
  have fr: "frames_of s3 = frames_of pm - {r1, r2, r3}" "distinct [r3, r2, r1]" "{r1, r2, r3} \<subseteq> frames_of pm"
    using 1(3,4) 2(3,4) 3(3,4) by auto
  have fin: "finite (frames_of pm)" by (simp add: frames_of_def free_frames_def)
  have "f < bmp_size s3 \<and> f \<noteq> 0 \<and> \<not> free (bmp s3 f)" if "f \<in> set [r3, r2, r1]" for f
    using that fr 1(2) 2(2) 3(2,7) by (auto simp: frames_of_def free_frames_def)
  from pm_release_all_ok [OF 3(5) fr(2) this] 3(6) obtain pm' where
    rel: "pm_release_all [r3, r2, r1] s3 = Inr pm'" "pm_inv pm'" "frames_of pm' = frames_of s3 \<union> {r3, r2, r1}"
    "used pm' = used s3 - 3" by auto
  define m where "m = \<lparr>vs_pm = s3,
        vs_pdpt = (\<lambda>_. pdpte_zero)(0 := pdpte_zero\<lparr>pp_pdt_addr := r3, pp_user := True,
                                        pp_write := True, pp_present := True\<rparr>),
        vs_pdt = pdts(r3 := (\<lambda>_. pdte_zero)(0 := pdte_zero\<lparr>pd_bypass := True\<rparr>)),
        vs_pt = pts, vs_used = 3\<rparr>"
  have ctor: "user_ctor cb pdts pts pm = Inr (r1 * 4096, r2 * 4096, m)"
    using 1(1) 2(1) 3(1) by (simp add: user_ctor_def m_def)
  have "dtor_pdpt 512 0 m s3 = rbind (PM_release (r3 * 4096) s3) Inr"
  proof -
    have m0: "pp_present (vs_pdpt m 0)" "pp_pdt_addr (vs_pdpt m 0) = r3" "vs_pt m = pts" by (simp_all add: m_def)
    have inner: "dtor_pdt 512 0 (vs_pdt m r3) pts s3 = Inr s3"
      by (rule dtor_pdt_empty) (simp add: m_def pdte_zero_def)
    have rest: "dtor_pdpt 511 (0 + 1) m = Inr"
      by (rule ext, rule dtor_pdpt_empty) (simp add: m_def pdpte_zero_def)
    have "dtor_pdpt (Suc 511) 0 m s3 = rbind (PM_release (r3 * 4096) s3) Inr"
      unfolding dtor_pdpt.simps m0 inner rest rbind_Inr by (simp only: m0 if_True)
    then show ?thesis by simp
  qed
  then have "user_dtor (r1 * 4096) (r2 * 4096) m = pm_release_all [r3, r2, r1] s3"
    by (cases "PM_release (r3 * 4096) s3") (auto simp: user_dtor_def m_def rbind_def split: sum.splits)
  then have "user_dtor (r1 * 4096) (r2 * 4096) m = Inr pm'" using rel(1) by simp
  moreover have "card (frames_of (vs_pm m)) = card (frames_of pm) - 3"
    using fr fin by (simp add: m_def card_Diff_subset)
  moreover have "frames_of pm' = frames_of pm" "used pm' = used pm" using rel(3,4) fr 3(6) by auto
  ultimately show ?thesis using ctor rel(2) by (intro exI) (auto simp: m_def)
qed

definition pm3_sample :: pm where
  "pm3_sample = pm_sample\<lparr>used := 1, reserved := 0, bmp := (\<lambda>i. \<lparr>solid = (3 \<le> i), free = (0 < i \<and> i \<le> 3)\<rparr>)\<rparr>"

lemma pm3_sample: "frames_of pm3_sample = {1, 2, 3}" "pm_inv pm3_sample"
proof -
  show fr: "frames_of pm3_sample = {1, 2, 3}"
    by (auto simp: frames_of_def free_frames_def pm3_sample_def pm_sample_def)
  have "solid_ok (bmp pm3_sample) 0"
    by (auto simp: solid_ok_def pm3_sample_def dest: spec [of _ 3])
  then show "pm_inv pm3_sample" using fr
    by (auto simp: pm_inv_def page_count_of_def) (auto simp: pm3_sample_def pm_sample_def)
qed

theorem user_space_lifecycle_witness:
  "\<exists>cr3 pl4te m pm'. user_ctor id (\<lambda>_ _. pdte_zero) (\<lambda>_ _. pte_zero) pm3_sample = Inr (cr3, pl4te, m) \<and>
     user_dtor cr3 pl4te m = Inr pm' \<and> frames_of pm' = {1, 2, 3}"
proof -
  have "\<not> callback pm3_sample" "used pm3_sample + reserved pm3_sample + 3 \<le> total pm3_sample"
    by (simp_all add: pm3_sample_def pm_sample_def)
  from user_space_lifecycle [OF pm3_sample(2) this] show ?thesis unfolding pm3_sample(1) by blast
qed

end
