(* ===== verification/VSpace_Commit.thy ===== *)
theory VSpace_Commit
  imports VSpace_Props
begin

text \<open>
  Committing memory, and the corner cases of the reserve operations. \<open>commit\<close> is two walks around a
  reservation of frames; within one page table its result is described completely.
\<close>

section \<open>\<open>commit\<close>\<close>

definition commit_entry :: "bool \<Rightarrow> nat \<Rightarrow> pte \<Rightarrow> pte" where
  "commit_entry user f pt = pt\<lparr>pt_page_addr := f, pt_xd := True, pt_pat := False, pt_user := user,
     pt_write := True, pt_present := True\<rparr>"

definition commit_table :: "bool \<Rightarrow> nat \<Rightarrow> nat list \<Rightarrow> ptable \<Rightarrow> ptable" where
  "commit_table user off fs t = (\<lambda>i. if off \<le> i \<and> i < off + length fs then commit_entry user (fs ! (i - off)) (t i) else t i)"

definition reserved_page :: "pte \<Rightarrow> bool" where
  "reserved_page pt \<longleftrightarrow> pt_preserve pt \<and> \<not> pt_bypass pt \<and> \<not> pt_present pt"

lemma commit_table_Cons:
  "commit_table user (off + 1) fs (t(off := commit_entry user f (t off))) = commit_table user off (f # fs) t"
proof
  fix i show "commit_table user (off + 1) fs (t(off := commit_entry user f (t off))) i = commit_table user off (f # fs) t i"
    by (cases "i = off") (auto simp: commit_table_def nth_Cons')
qed

lemma iterate_table_commit:
  assumes "count < n" "n - count \<le> k" "\<And>i. off \<le> i \<Longrightarrow> i < off + (n - count) \<Longrightarrow> reserved_page (t i)"
    and "take_many (PM_allocate cb TAKE) (n - count) pm = Inr (pas, pm')"
  shows "iterate_table (cb_commit cb user) k off addr count n t pm =
     Inr (True, addr + 0x1000 * of_nat (n - count), n, commit_table user off (map (\<lambda>a. a div 4096) pas) t, pm')"
  using assms
proof (induction k arbitrary: off addr count t pm pas)
  case (Suc k)
  obtain c where c: "n - count = Suc c" using Suc.prems(1) by (cases "n - count") auto
  obtain pa pm1 pas' where tk: "PM_allocate cb TAKE pm = Inr (pa, pm1)"
    "take_many (PM_allocate cb TAKE) c pm1 = Inr (pas', pm')" "pas = pa # pas'"
    using Suc.prems(4) unfolding c by (auto simp: rbind_eq_Inr split: prod.splits)
  have r: "reserved_page (t off)" using Suc.prems(3) [of off] c by simp
  have cb: "cb_commit cb user (t off) addr pm = Inr (True, commit_entry user (pa div 4096) (t off), pm1)"
    using r tk(1) by (simp add: cb_commit_def reserved_page_def kassert_def commit_entry_def)
  show ?case
  proof (cases "count + 1 = n")
    case True
    then have "c = 0" using c by simp
    then have "pas' = []" "pm1 = pm'" using tk(2) by auto
    moreover have "commit_table user off [pa div 4096] t = t(off := commit_entry user (pa div 4096) (t off))"
      by (rule ext) (auto simp: commit_table_def)
    ultimately show ?thesis unfolding iterate_table.simps cb tk(3) using True c \<open>c = 0\<close> by (simp add: fun_upd_def)
  next
    case False
    let ?t = "t(off := commit_entry user (pa div 4096) (t off))"
    have n1: "n - (count + 1) = c" using c by simp
    have "iterate_table (cb_commit cb user) k (off + 1) (addr + 0x1000) (count + 1) n ?t pm1 =
       Inr (True, addr + 0x1000 + 0x1000 * of_nat (n - (count + 1)), n,
         commit_table user (off + 1) (map (\<lambda>a. a div 4096) pas') ?t, pm')"
      by (rule Suc.IH) (use Suc.prems False c tk(2) n1 in auto)
    then have "iterate_table (cb_commit cb user) k (off + 1) (addr + 0x1000) (count + 1) n ?t pm1 =
       Inr (True, addr + 0x1000 * of_nat (Suc c), n, commit_table user off (map (\<lambda>a. a div 4096) pas) t, pm')"
      unfolding commit_table_Cons n1 tk(3) by (simp add: distrib_left)
    then show ?thesis unfolding iterate_table.simps cb c using False by simp
  qed
qed simp

text \<open>An address of a usable table, with the range inside the table.\<close>

definition in_table :: "vspace \<Rightarrow> qword \<Rightarrow> nat \<Rightarrow> bool" where
  "in_table m base n \<longleftrightarrow> pp_present (vs_pdpt m (pdpt_index base)) \<and> pd_present (cur_pdt m (dir_pos base)) \<and>
     \<not> pd_bypass (cur_pdt m (dir_pos base)) \<and> pt_index base + n \<le> 512"

lemma dir_pos_div [simp]: "(dir_pos base) div 512 = pdpt_index base"
  using index_bounds(2) [of base] by simp

lemma imp_iterate_in_table:
  assumes it: "in_table m base n" and b: "base \<noteq> 0" "base AND PAGE_MASK = 0" "drop_bit 39 (LOWADDR base) = 0" "n \<noteq> 0"
    and tab: "iterate_table f (512 - pt_index base) (pt_index base) base 0 n (cur_pt m (dir_pos base)) (vs_pm m) =
      Inr (True, addr', n, t', pm')"
  shows "imp_iterate f base n m = Inr (n, set_pt (dir_pos base) t' (m\<lparr>vs_pm := pm'\<rparr>))"
proof -
  have "dir_pos base < 512 * 512" using index_bounds [of base] by linarith
  then obtain k where k: "512 * 512 - dir_pos base = Suc k" by (metis Suc_diff_Suc)
  show ?thesis using assms unfolding imp_iterate_def Let_def k
    by (simp add: kassert_def in_table_def)
qed

lemma check_low: "user_common_check base n \<Longrightarrow> drop_bit 39 (LOWADDR base) = 0"
proof -
  assume c: "user_common_check base n"
  have "unat base < 2 ^ 39"
    using user_common_check_iff [THEN iffD1, OF c] by linarith
  then have "unat (drop_bit 39 (LOWADDR base)) = 0"
  proof -
    have "LOWADDR base = base AND mask 47" by (simp add: LOWADDR_def mask_eq_exp_minus_1 and.commute)
    then have "unat (LOWADDR base) \<le> unat base" using and_mask_unat [of base 47] by simp
    moreover have "unat (drop_bit 39 (LOWADDR base)) = unat (LOWADDR base) div 2 ^ 39"
      by (subst unat_drop_bit_eq) (rule drop_bit_eq_div)
    ultimately show ?thesis using \<open>unat base < 2 ^ 39\<close> by simp
  qed
  then show ?thesis by (simp add: unat_eq_zero)
qed



definition reserved_space :: vspace where
  "reserved_space = one_page_space\<lparr>vs_pm := pm3_sample,
     vs_pt := (\<lambda>_ _. pte_zero)(9 := (\<lambda>_. pte_zero)(0 := pte_zero\<lparr>pt_preserve := True\<rparr>))\<rparr>"


section \<open>Corner cases of reserving\<close>

text \<open>
  \<open>reserve_fixed\<close> does not test whether the table it meets has a free page at all. On a full table
  \<open>imp_reserve_fixed\<close> stops the kernel with a failed assertion instead of refusing.
\<close>
theorem reserve_fixed_full_table_stops:
  assumes "in_table m base n" "0 < n" "base \<noteq> 0" "base AND PAGE_MASK = 0" "drop_bit 39 (LOWADDR base) = 0"
    and "free_pages (cur_pt m (dir_pos base)) = {}" "table_ok (cur_pdt m (dir_pos base)) (cur_pt m (dir_pos base))"
  shows "reserve_fixed cb base n m = Inl AssertFailed"
proof -
  let ?p = "dir_pos base"
  have "get_max_size (cur_pdt m ?p) = 0"
    using assms(6,7) size_hint_zero by blast
  then have stop: "imp_reserve_fixed (cur_pdt m ?p) t i c = Inl AssertFailed" for t i c
    by (simp add: imp_reserve_fixed_def kassert_def)
  have "?p < 512 * 512" using index_bounds [of base] by linarith
  then obtain k where k: "512 * 512 - ?p = Suc k" by (metis Suc_diff_Suc)
  have "reserve_fixed_loop cb (Suc k) ?p base 0 n m = Inl AssertFailed"
    using assms(1,2) stop by (simp add: need_pdt_def need_pt_def in_table_def)
  then show ?thesis using assms(2-5) unfolding reserve_fixed_def Let_def k by (simp add: kassert_def)
qed

definition full_space :: vspace where
  "full_space = one_page_space\<lparr>vs_pt := (\<lambda>_ _. user_pte)\<rparr>"

theorem reserve_fixed_full_table_stops_witness:
  "reserve_fixed id 0x200000 1 full_space = Inl AssertFailed"
proof -
  have e: "cur_pt full_space (dir_pos 0x200000) = (\<lambda>_. user_pte)" by (simp add: full_space_def cur_pt_def)
  have d: "cur_pdt full_space (dir_pos 0x200000) = pdte_zero\<lparr>pd_present := True, pd_pt_addr := 9\<rparr>"
    by (simp add: full_space_def one_page_space_def cur_pdt_def one_page_index)
  have it: "in_table full_space 0x200000 1"
    unfolding in_table_def d by (simp add: one_page_index full_space_def one_page_space_def pdte_zero_def)
  have nf: "\<not> pt_free user_pte" by (simp add: pt_free_def user_pte_def)
  have "table_inv (pdte_zero\<lparr>pd_present := True, pd_pt_addr := 9\<rparr>) (\<lambda>_. user_pte) []"
    using nf by (simp add: table_inv_def fl_inv_def covers_def max_block_def pdte_zero_def max_size_code_def)
  then have "table_ok (cur_pdt full_space (dir_pos 0x200000)) (cur_pt full_space (dir_pos 0x200000))"
    unfolding d e table_ok_def by blast
  moreover have "free_pages (cur_pt full_space (dir_pos 0x200000)) = {}" unfolding e using nf by (simp add: free_pages_def)
  ultimately show ?thesis
    using reserve_fixed_full_table_stops [OF it, of id] by (simp add: LOWADDR_def)
qed

lemma reserve_any_loop_addr:
  "reserve_any_loop fuel pdt t base count block cur = Inr (res, pdt', t') \<Longrightarrow> 0 < count \<Longrightarrow> res < base + 512 * 4096"
proof (induction fuel arbitrary: block cur)
  case (Suc fuel)
  then show ?case
    by (auto simp: rbind_eq_Inr kassert_eq_Inr Let_def split: if_splits prod.splits)
qed simp

lemma imp_reserve_any_addr:
  "imp_reserve_any pdt t base count = Inr (res, pdt', t') \<Longrightarrow> res < base + 512 * 4096"
  by (auto simp: imp_reserve_any_def kassert_eq_Inr dest: reserve_any_loop_addr split: if_splits)

lemma table_base_less: "i < 512 \<Longrightarrow> table_base pi i + 512 * 4096 \<le> 2 ^ 32"
proof -
  assume i: "i < 512"
  have "table_base pi i = (pi * 512 + i) mod 2048 * 0x200000"
  proof -
    have "pi * 0x40000000 + i * 0x200000 = (pi * 512 + i) * 0x200000" by (simp add: algebra_simps)
    moreover have "(2::nat) ^ 32 = 2048 * 0x200000" by simp
    ultimately show ?thesis unfolding table_base_def by (simp only: mod_mult_mult2)
  qed
  moreover have "(pi * 512 + i) mod 2048 < 2048" by simp
  ultimately show ?thesis by simp
qed

text \<open>
  the address that \<open>reserve_any\<close> computes for a page it takes under the fifth or a later entry of the
  top table lies below 4G: the products are evaluated in 32 bits, so the caller is given an address
  other than the one that was reserved.
\<close>
theorem reserve_any_wraps_above_4G:
  assumes "reserve_any_pdt cb k pi i n m = Inr (res, m')" and "i + k \<le> 512" and "4 \<le> pi"
  shows "res < 2 ^ 32 \<and> res < pi * 0x40000000"
proof -
  have "reserve_any_pdt cb k pi i n m = Inr (res, m') \<Longrightarrow> i + k \<le> 512 \<Longrightarrow> res < 2 ^ 32" for i m
  proof (induction k arbitrary: i m)
    case (Suc k)
    show ?case
    proof (cases "pd_bypass (cur_pdt m (pi * 512 + i))")
      case True
      then show ?thesis using Suc.IH [of "i + 1" m] Suc.prems by simp
    next
      case False
      then obtain ok m1 where m1: "need_pt cb (pi * 512 + i) m = Inr (ok, m1)"
        using Suc.prems(1) by (auto simp: rbind_eq_Inr Let_def)
      show ?thesis
      proof (cases ok)
        case ok: False
        then show ?thesis using Suc.IH [of "i + 1" m1] Suc.prems False m1 by simp
      next
        case ok: True
        let ?p = "pi * 512 + i"
        obtain r cur t where r: "imp_reserve_any (cur_pdt m1 ?p) (cur_pt m1 ?p) (table_base pi i) n = Inr (r, cur, t)"
          using Suc.prems(1) False m1 ok by (auto simp: rbind_eq_Inr Let_def)
        show ?thesis
        proof (cases "r = 0")
          case True
          then show ?thesis using Suc.IH [of "i + 1" "set_pt ?p t (set_pdt ?p cur m1)"] Suc.prems False m1 ok r by (simp add: Let_def)
        next
          case False': False
          then have "res = r" using Suc.prems(1) False m1 ok r by (simp add: Let_def)
          then show ?thesis using imp_reserve_any_addr [OF r] table_base_less [of i pi] Suc.prems(2) by simp
        qed
      qed
    qed
  qed simp
  from this [OF assms(1,2)] assms(3) show ?thesis by simp
qed


text \<open>The fifth entry of the top table, with one fresh page table.\<close>

definition high_space :: vspace where
  "high_space = empty_space\<lparr>
     vs_pdpt := (\<lambda>_. pdpte_zero)(4 := pdpte_zero\<lparr>pp_present := True, pp_pdt_addr := 8\<rparr>),
     vs_pdt := (\<lambda>_ _. pdte_zero)(8 := (\<lambda>_. pdte_zero)(1 := fst fresh_table)),
     vs_pt := (\<lambda>_ _. pte_zero)(7 := snd fresh_table)\<rparr>"

theorem reserve_any_wraps_above_4G_witness:
  "\<exists>res m'. reserve_any_pdt id 1 4 1 5 high_space = Inr (res, m') \<and> res < 4 * 0x40000000"
proof -
  have d: "cur_pdt high_space (4 * 512 + 1) = new_pt_entry 7"
    by (simp add: high_space_def cur_pdt_def fresh_table_def)
  then have t: "cur_pt high_space (4 * 512 + 1) = snd fresh_table"
    unfolding cur_pt_def by (simp add: high_space_def new_pt_entry_def put_max_size_def)
  obtain a pdt' t' where r: "imp_reserve_any (new_pt_entry 7) (snd fresh_table) (table_base 4 1) 5 =
      Inr (table_base 4 1 + a * 4096, pdt', t')"
    using imp_reserve_any_ok [OF fresh_table(2), of 5 "table_base 4 1"] by auto
  have "table_base 4 1 \<noteq> 0" by (simp add: table_base_def)
  then have run: "\<exists>res m'. reserve_any_pdt id (Suc 0) 4 1 5 high_space = Inr (res, m')"
    using r by (simp add: d [simplified] t [simplified] need_pt_def Let_def)
  then obtain res m' where "reserve_any_pdt id 1 4 1 5 high_space = Inr (res, m')" by auto
  then show ?thesis using reserve_any_wraps_above_4G [of id 1 4 1 5 high_space] by auto
qed

text \<open>
  when no address range is left, \<open>kernel_vspace::reserve\<close> does not return 0: it returns the base of
  the high half, which passes its own sanity check, so its callers' tests for failure never fire.
\<close>
theorem kernel_reserve_failure_value:
  assumes "page_count \<noteq> 0" "page_count < 0x200" and "reserve_any cb (unat page_count) m = Inr (0, m')"
  shows "kernel_reserve cb 0 page_count m = Inr (0xFFFF800000000000, m')"
proof -
  have h: "HIGHADDR 0 = 0xFFFF800000000000" by (simp add: HIGHADDR_def)
  have c: "unat page_count < 512" using assms(2) by (simp add: word_less_nat_alt)
  then have "unat (ucast page_count * 0x1000 :: qword) = unat page_count * 4096"
    by (simp add: unat_word_ariths unsigned_ucast_eq take_bit_eq_mod)
  moreover have "LOWADDR (HIGHADDR 0 + x) = x" if "unat x < 2 ^ 39" for x
  proof -
    have lo: "x = take_bit 39 x" using that and_mask_unat [of x 39] by (simp add: take_bit_eq_mask word_unat_eq_iff)
    have "HIGHADDR 0 AND x = 0"
      by (rule bit_eqI, subst lo) (auto simp: HIGHADDR_0 bit_simps)
    then have "HIGHADDR 0 + x = HIGHADDR 0 OR x" by (rule disjunctive_add_eq_or)
    moreover have "LOWADDR (HIGHADDR 0 OR x) = x"
    proof -
      have m: "(0x00007FFFFFFFFFFF :: qword) = mask 47" by (simp add: mask_eq_exp_minus_1)
      show ?thesis unfolding LOWADDR_def HIGHADDR_0 m
        by (intro bit_eqI, subst (1 2) lo) (auto simp: bit_simps)
    qed
    ultimately show ?thesis by simp
  qed
  ultimately have "kernel_common_check (HIGHADDR 0) page_count"
    using assms(1) c unfolding kernel_common_check_def IS_HIGHADDR_def word_less_nat_alt
    by (simp add: h)
  moreover have "\<not> 0x40000 < page_count" using assms(2) by (simp add: word_less_nat_alt)
  ultimately show ?thesis using assms by (simp add: kernel_reserve_def h Let_def)
qed


definition no_memory :: vspace where
  "no_memory = empty_space\<lparr>vs_pm := pm_sample\<lparr>hard_critical_limit := 4\<rparr>\<rparr>"

theorem kernel_reserve_failure_value_witness:
  "kernel_reserve id 0 1 no_memory = Inr (0xFFFF800000000000, no_memory)"
proof -
  have "PM_allocate id NONE (vs_pm no_memory) = Inr (0, vs_pm no_memory)"
    by (simp add: no_memory_def PM_allocate_def critical_check_def pm_sample_def)
  then have "need_pdt id 0 no_memory = Inr (False, no_memory)"
    by (simp add: need_pdt_def new_pdt_def kassert_def no_memory_def empty_space_def pdpte_zero_def)
  then have "reserve_any_loop2 id (Suc 511) 0 1 no_memory = Inr (0, no_memory)"
    unfolding reserve_any_loop2.simps by simp
  then have "reserve_any id (unat (1 :: dword)) no_memory = Inr (0, no_memory)"
    by (simp add: reserve_any_def kassert_def)
  then show ?thesis by (intro kernel_reserve_failure_value) simp_all
qed

section \<open>\<open>map_view\<close>\<close>

lemma map_slot_ok:
  "j < k \<Longrightarrow> tbl (i + j) AND 1 = 0 \<Longrightarrow> \<exists>s. map_slot k i v tbl = Inr (s, tbl(s := v)) \<and> i \<le> s \<and> s < i + k \<and> tbl s AND 1 = 0"
proof (induction k arbitrary: i j)
  case (Suc k)
  show ?case
  proof (cases "tbl i AND 1 = 0")
    case False
    then obtain j' where j': "j = Suc j'" using Suc.prems by (cases j) auto
    have "j' < k" "tbl (i + 1 + j') AND 1 = 0" using Suc.prems j' by auto
    from Suc.IH [OF this] obtain s where
      "map_slot k (i + 1) v tbl = Inr (s, tbl(s := v))" "i + 1 \<le> s" "s < i + 1 + k" "tbl s AND 1 = 0" by blast
    then show ?thesis using False by (intro exI [of _ s]) (simp add: fun_upd_def)
  qed (auto intro: exI [of _ i])
qed simp

text \<open>
  mapping a frame claims a view slot that nobody holds, as long as one is left, stores the frame
  there, and unmapping the view frees exactly that slot: no other slot changes.
\<close>
theorem map_view_round_trip:
  assumes "j < 512" "tbl j AND 1 = 0" and "pa AND PAGE_MASK = 0" "attrib AND 0x7FFFFFFFFFFFF004 = 0"
  shows "\<exists>s va. map_view_map pa attrib None tbl = Inr (Some va, tbl(s := attrib OR pa OR PAGE_PRESENT)) \<and>
     s < 512 \<and> tbl s AND 1 = 0 \<and> va = HIGHADDR 0x200000 + 0x1000 * of_nat s \<and>
     map_view_unmap (Some va) (tbl(s := attrib OR pa OR PAGE_PRESENT)) = Inr (None, tbl(s := 0))"
proof -
  let ?v = "attrib OR pa OR PAGE_PRESENT"
  from map_slot_ok [of j 512 tbl 0 ?v] assms(1,2) obtain s where
    s: "map_slot 512 0 ?v tbl = Inr (s, tbl(s := ?v))" "s < 512" "tbl s AND 1 = 0" by auto
  let ?va = "HIGHADDR 0x200000 + 0x1000 * of_nat s"
  have h: "HIGHADDR 0x200000 = 0xFFFF800000200000" by (simp add: HIGHADDR_def)
  have u: "unat (0x1000 * of_nat s :: qword) = 4096 * s" using s(2) by (simp add: unat_word_ariths unat_of_nat)
  have va: "unat ?va = 0xFFFF800000200000 + 4096 * s"
    using s(2) by (simp add: h unat_word_ariths unat_of_nat)
  have "?va AND PAGE_MASK = 0" unfolding page_mask_dvd va by (simp add: dvd_add_left_iff)
  moreover have "\<not> ?va < HIGHADDR 0x200000" unfolding word_less_nat_alt va by (simp add: h)
  moreover have "unat (drop_bit 12 (?va - HIGHADDR 0x200000)) = s"
    using u by (simp add: unat_drop_bit_eq) (simp add: drop_bit_eq_div)
  moreover have "?v AND 1 \<noteq> 0"
  proof
    assume "?v AND 1 = 0"
    then have "\<not> bit (?v AND 1) 0" by simp
    then show False by (simp add: bit_simps)
  qed
  ultimately have "map_view_unmap (Some ?va) (tbl(s := ?v)) = Inr (None, tbl(s := 0))"
    using s(2) by (simp add: map_view_unmap_def Let_def)
  then show ?thesis using s assms(3,4) by (intro exI [of _ s] exI [of _ ?va]) (simp add: map_view_map_def map_view_unmap_def kassert_def)
qed

theorem map_view_round_trip_witness:
  "\<exists>s va. map_view_map 0x5000 2 None (\<lambda>i. if i < 3 then 1 else 0) = Inr (Some va, (\<lambda>i. if i < 3 then 1 else 0)(s := 0x5003)) \<and>
     s < 512 \<and> 3 \<le> s"
  using map_view_round_trip [of 3 "\<lambda>i. if i < 3 then 1 else 0" "0x5000" 2]
  by (auto split: if_splits)

end
