(* ===== verification/Timer.thy ===== *)
theory Timer
  imports Kernel_Prelude "HOL-Library.Multiset"
begin

text \<open>
  The software timer, \<^verbatim>\<open>kernel/dev/timer.cpp\<close> (class \<open>basic_timer\<close>): a delta queue, in which each entry
  stores the ticks after its predecessor, beside the set of tickets that have not been cancelled.
  The linked list is a list, the hash set a set. A callback and its argument are a number; the code
  runs it with the timer's lock held, so it cannot call back into the timer, and \<open>step\<close> returns the
  callbacks it ran, in order. Programming the hardware (constructor and \<open>set_timer\<close>) is not modelled.
\<close>

section \<open>Model\<close>

record queue_type =
  ticket :: qword
  diff_tick :: nat
  func :: nat
  interval :: nat

record basic_timer =
  conductor :: qword
  record_set :: "qword set"
  delta_queue :: "queue_type list"
  running_us :: qword
  beat_counter :: dword

definition heartbeat_us :: qword where "heartbeat_us = 1000"
definition heartbeat_hz :: nat where "heartbeat_hz = 1000"

fun queue_insert :: "nat \<Rightarrow> queue_type \<Rightarrow> queue_type list \<Rightarrow> queue_type list" where
  "queue_insert delta_tick n [] = [n\<lparr>diff_tick := delta_tick\<rparr>]"
| "queue_insert delta_tick n (it # q) =
     (if delta_tick \<le> diff_tick it
      then n\<lparr>diff_tick := delta_tick\<rparr> # it\<lparr>diff_tick := diff_tick it - delta_tick\<rparr> # q
      else it # queue_insert (delta_tick - diff_tick it) n q)"

definition timer_wait :: "qword \<Rightarrow> nat \<Rightarrow> bool \<Rightarrow> basic_timer \<Rightarrow> qword \<times> basic_timer" where
  "timer_wait us f repeat s =
     (let t = conductor s + 1; total_tick = max (unat (us div heartbeat_us)) 1;
          n = \<lparr>ticket = t, diff_tick = total_tick, func = f, interval = (if repeat then total_tick else 0)\<rparr>
      in (t, s\<lparr>conductor := t, record_set := insert t (record_set s),
               delta_queue := queue_insert total_tick n (delta_queue s)\<rparr>))"

definition timer_cancel :: "qword \<Rightarrow> basic_timer \<Rightarrow> bool \<times> basic_timer" where
  "timer_cancel t s =
     (if t \<notin> record_set s then (False, s) else (True, s\<lparr>record_set := record_set s - {t}\<rparr>))"

text \<open>The first loop of \<open>step\<close>: what is due leaves the queue; periodic entries that fired are pushed to
  the front of a list of their own.\<close>

fun expire :: "qword set \<Rightarrow> nat \<Rightarrow> queue_type list \<Rightarrow> queue_type list \<Rightarrow>
    qword set \<times> queue_type list \<times> queue_type list \<times> queue_type list" where
  "expire rec cnt [] periodic_list = (rec, [], periodic_list, [])"
| "expire rec cnt (cur # q) periodic_list =
     (if cnt < diff_tick cur then (rec, cur\<lparr>diff_tick := diff_tick cur - cnt\<rparr> # q, periodic_list, [])
      else let cnt = cnt - diff_tick cur in
        if ticket cur \<notin> rec then expire rec cnt q periodic_list
        else if interval cur = 0 then
          (let (rec, q, pl, fired) = expire (rec - {ticket cur}) cnt q periodic_list in
           (rec, q, pl, cur # fired))
        else
          (let (rec, q, pl, fired) = expire rec cnt q
             (cur\<lparr>diff_tick := if cnt < interval cur then interval cur - cnt else 0\<rparr> # periodic_list) in
           (rec, q, pl, cur # fired)))"

fun requeue :: "queue_type list \<Rightarrow> queue_type list \<Rightarrow> queue_type list" where
  "requeue [] q = q"
| "requeue (cur # pl) q = requeue pl (queue_insert (diff_tick cur) cur q)"

definition timer_step :: "nat \<Rightarrow> basic_timer \<Rightarrow> (nat list \<times> basic_timer) res" where
  "timer_step cnt s =
     kassert (cnt \<noteq> 0)
      (let (rec, q, pl, fired) = expire (record_set s) cnt (delta_queue s) [] in
       Inr (map func fired, s\<lparr>record_set := rec, delta_queue := requeue pl q\<rparr>))"

definition timer_on_timer :: "basic_timer \<Rightarrow> (nat list \<times> basic_timer) res" where
  "timer_on_timer s = timer_step 1 (s\<lparr>beat_counter := beat_counter s + 1, running_us := running_us s + heartbeat_us\<rparr>)"

definition timer_on_second :: "basic_timer \<Rightarrow> (nat list \<times> basic_timer) res" where
  "timer_on_second s =
     (let adjust_tick = (if heartbeat_hz > unat (beat_counter s) then heartbeat_hz - unat (beat_counter s) else 0);
          s = s\<lparr>beat_counter := 0, running_us := running_us s + heartbeat_us * of_nat adjust_tick\<rparr>
      in if adjust_tick \<noteq> 0 then timer_step adjust_tick s else Inr ([], s))"

section \<open>Deadlines\<close>

text \<open>The abstraction: each ticket with the number of ticks until it is due.\<close>

fun deadlines :: "nat \<Rightarrow> queue_type list \<Rightarrow> (nat \<times> queue_type) list" where
  "deadlines t [] = []"
| "deadlines t (x # q) = (t + diff_tick x, x\<lparr>diff_tick := 0\<rparr>) # deadlines (t + diff_tick x) q"

definition due :: "basic_timer \<Rightarrow> (nat \<times> queue_type) list" where
  "due s = deadlines 0 (delta_queue s)"

lemma deadlines_shift: "deadlines (t + c) q = map (\<lambda>(d, x). (d + c, x)) (deadlines t q)"
proof (induction q arbitrary: t)
  case (Cons x q)
  show ?case using Cons.IH [of "t + diff_tick x"] by (simp add: add.commute add.left_commute)
qed simp

lemma deadlines_ge: "(d, x) \<in> set (deadlines t q) \<Longrightarrow> t \<le> d"
  by (induction q arbitrary: t) (auto dest: add_leD1)

lemma deadlines_tickets: "(d, x) \<in> set (deadlines t q) \<Longrightarrow> ticket x \<in> ticket ` set q"
  by (induction q arbitrary: t) auto

lemma deadlines_sorted: "sorted (map fst (deadlines t q))"
  by (induction q arbitrary: t) (auto dest: deadlines_ge)

lemma queue_insert_deadlines:
  "deadlines t (queue_insert d n q) =
     takeWhile (\<lambda>(e, _). e < t + d) (deadlines t q) @ (t + d, n\<lparr>diff_tick := 0\<rparr>) #
     dropWhile (\<lambda>(e, _). e < t + d) (deadlines t q)"
proof (induction q arbitrary: t d)
  case (Cons x q)
  show ?case
  proof (cases "d \<le> diff_tick x")
    case True
    then show ?thesis by simp
  next
    case False
    then have "t + diff_tick x + (d - diff_tick x) = t + d" by simp
    then show ?thesis using False Cons.IH [of "t + diff_tick x" "d - diff_tick x"] by simp
  qed
qed simp

text \<open>
  setting a timer keeps every other timer's deadline and order and adds one entry that is due
  after the requested number of heartbeats (at least one), under a fresh live ticket.
\<close>
theorem timer_wait_deadline:
  "let (t, s') = timer_wait us f repeat s; k = max (unat (us div heartbeat_us)) 1;
       new = \<lparr>ticket = t, diff_tick = 0, func = f, interval = (if repeat then k else 0)\<rparr>
   in due s' = takeWhile (\<lambda>(e, _). e < k) (due s) @ (k, new) # dropWhile (\<lambda>(e, _). e < k) (due s) \<and>
      record_set s' = insert t (record_set s) \<and> t = conductor s + 1"
  by (simp add: timer_wait_def due_def Let_def queue_insert_deadlines)

section \<open>Expiry\<close>

lemma expire_spec:
  assumes "expire rec c q pl = (rec', q', pl', fired)" "distinct (map ticket q)"
  shows "map (\<lambda>x. x\<lparr>diff_tick := 0\<rparr>) fired =
      map snd (filter (\<lambda>(e, x). ticket x \<in> rec) (takeWhile (\<lambda>(e, _). e \<le> c) (deadlines 0 q))) \<and>
    deadlines 0 q' = map (\<lambda>(e, x). (e - c, x)) (dropWhile (\<lambda>(e, _). e \<le> c) (deadlines 0 q)) \<and>
    rec' = rec - ticket ` set (filter (\<lambda>x. interval x = 0) fired) \<and>
    pl' = rev (map (\<lambda>(e, x). x\<lparr>diff_tick := interval x - (c - e)\<rparr>) (filter (\<lambda>(e, x). interval x \<noteq> 0)
       (filter (\<lambda>(e, x). ticket x \<in> rec) (takeWhile (\<lambda>(e, _). e \<le> c) (deadlines 0 q))))) @ pl"
  using assms
proof (induction rec c q pl arbitrary: rec' q' pl' fired rule: expire.induct)
  case (2 rec c cur q pl)
  define d where "d = diff_tick cur"
  have D: "deadlines 0 (cur # q) = (d, cur\<lparr>diff_tick := 0\<rparr>) # map (\<lambda>(e, x). (e + d, x)) (deadlines 0 q)"
    using deadlines_shift [of 0 d q] by (simp add: d_def)
  show ?case
  proof (cases "c < d")
    case True
    have "deadlines 0 (cur\<lparr>diff_tick := d - c\<rparr> # q) = map (\<lambda>(e, x). (e - c, x)) (deadlines 0 (cur # q))"
      unfolding D using deadlines_shift [of 0 "d - c" q] True by (auto simp: case_prod_beta)
    then show ?thesis using 2(4) True by (auto simp: d_def)
  next
    case False
    have tw: "takeWhile (\<lambda>(e, _). e \<le> c) (deadlines 0 (cur # q)) =
        (d, cur\<lparr>diff_tick := 0\<rparr>) # map (\<lambda>(e, x). (e + d, x)) (takeWhile (\<lambda>(e, _). e \<le> c - d) (deadlines 0 q))"
      unfolding D using False by (simp add: takeWhile_map comp_def case_prod_unfold le_diff_conv2)
    have dw: "map (\<lambda>(e, x). (e - c, x)) (dropWhile (\<lambda>(e, _). e \<le> c) (deadlines 0 (cur # q))) =
        map (\<lambda>(e, x). (e - (c - d), x)) (dropWhile (\<lambda>(e, _). e \<le> c - d) (deadlines 0 q))"
      unfolding D using False by (simp add: dropWhile_map comp_def case_prod_unfold le_diff_conv2)
    define due_q where "due_q = takeWhile (\<lambda>(e, _). e \<le> c - d) (deadlines 0 q)"
    have fresh: "ticket cur \<notin> ticket ` set q" "distinct (map ticket q)" using 2(5) by auto
    have keep: "filter (\<lambda>(e, x). ticket x \<in> rec - {ticket cur}) due_q = filter (\<lambda>(e, x). ticket x \<in> rec) due_q"
    proof (rule filter_cong [OF refl])
      fix y assume "y \<in> set due_q"
      then have "ticket (snd y) \<in> ticket ` set q"
        unfolding due_q_def using set_takeWhileD deadlines_tickets by (metis prod.collapse)
      then show "(case y of (e, x) \<Rightarrow> ticket x \<in> rec - {ticket cur}) = (case y of (e, x) \<Rightarrow> ticket x \<in> rec)"
        using fresh(1) by (auto simp: case_prod_unfold)
    qed
    have fl: "map snd (filter (\<lambda>(e, x). ticket x \<in> rec) (takeWhile (\<lambda>(e, _). e \<le> c) (deadlines 0 (cur # q)))) =
        (if ticket cur \<in> rec then [cur\<lparr>diff_tick := 0\<rparr>] else []) @ map snd (filter (\<lambda>(e, x). ticket x \<in> rec) due_q)"
      unfolding tw due_q_def by (simp add: filter_map comp_def case_prod_unfold)
    have pp: "map (\<lambda>(e, x). x\<lparr>diff_tick := interval x - (c - e)\<rparr>) (filter (\<lambda>(e, x). interval x \<noteq> 0)
       (filter (\<lambda>(e, x). ticket x \<in> rec) (takeWhile (\<lambda>(e, _). e \<le> c) (deadlines 0 (cur # q))))) =
      (if ticket cur \<in> rec \<and> interval cur \<noteq> 0 then [cur\<lparr>diff_tick := interval cur - (c - d)\<rparr>] else []) @
      map (\<lambda>(e, x). x\<lparr>diff_tick := interval x - (c - d - e)\<rparr>) (filter (\<lambda>(e, x). interval x \<noteq> 0)
       (filter (\<lambda>(e, x). ticket x \<in> rec) due_q))"
      unfolding tw due_q_def by (simp add: filter_map comp_def case_prod_unfold add.commute)
    consider "ticket cur \<notin> rec" | "ticket cur \<in> rec" "interval cur = 0" | "ticket cur \<in> rec" "interval cur \<noteq> 0" by blast
    then show ?thesis
    proof cases
      case 1
      then have "expire rec (c - d) q pl = (rec', q', pl', fired)" using 2(4) False by (simp add: d_def)
      from 2(1) [OF _ _ _ this fresh(2)] 1 False show ?thesis
        unfolding fl pp dw due_q_def [symmetric] by (simp add: d_def)
    next
      case 2: 2
      then obtain fired' where f: "expire (rec - {ticket cur}) (c - d) q pl = (rec', q', pl', fired')" "fired = cur # fired'"
        using "2.prems"(1) False by (auto simp: d_def split: prod.splits)
      from "2.IH"(2) [OF _ _ _ _ f(1) fresh(2)] 2 False f(2) show ?thesis
        unfolding fl pp dw due_q_def [symmetric] keep by (auto simp: d_def)
    next
      case 3
      define cur' where "cur' = cur\<lparr>diff_tick := if c - d < interval cur then interval cur - (c - d) else 0\<rparr>"
      obtain fired' where f: "expire rec (c - d) q (cur' # pl) = (rec', q', pl', fired')" "fired = cur # fired'"
        using "2.prems"(1) 3 False unfolding cur'_def d_def by (auto simp: Let_def split: prod.splits)
      from "2.IH"(3) [OF _ _ _ _ f(1) [unfolded cur'_def] fresh(2)] 3 False f(2) show ?thesis
        unfolding fl pp dw due_q_def [symmetric] by (simp add: d_def)
    qed
  qed
qed auto


lemma sorted_takeWhile_filter:
  "sorted (map fst xs) \<Longrightarrow> takeWhile (\<lambda>(e, _). e \<le> c) xs = filter (\<lambda>(e, _). e \<le> c) xs"
  "sorted (map fst xs) \<Longrightarrow> dropWhile (\<lambda>(e, _). e \<le> c) xs = filter (\<lambda>(e, _). c < e) xs" for c :: nat
proof (induction xs)
  case (Cons x xs)
  {
    case 1
    have "filter (\<lambda>(e, _). e \<le> c) xs = []" if "c < fst x" using 1 that by (force simp: filter_empty_conv)
    then show ?case using Cons.IH(1) 1 by (cases x) auto
  next
    case 2
    have "filter (\<lambda>(e, _). c < e) xs = xs" if "c < fst x" using 2 that by (force simp: filter_id_conv)
    then show ?case using Cons.IH(2) 2 by (cases x) auto
  }
qed simp_all

lemma requeue_mset:
  "mset (deadlines 0 (requeue pl q)) = mset (deadlines 0 q) + mset (map (\<lambda>x. (diff_tick x, x\<lparr>diff_tick := 0\<rparr>)) pl)"
proof (induction pl arbitrary: q)
  case (Cons x pl)
  have "mset (deadlines 0 (queue_insert (diff_tick x) x q)) =
      add_mset (diff_tick x, x\<lparr>diff_tick := 0\<rparr>) (mset (deadlines 0 q))"
    unfolding queue_insert_deadlines mset_append mset.simps
    by (simp add: union_code [symmetric] flip: mset_append)
  then show ?case by (simp add: Cons.IH)
qed simp

text \<open>
  C31: advancing the timer by \<open>cnt\<close> ticks runs exactly the callbacks of the live tickets that are due
  within \<open>cnt\<close> ticks, in the order of their deadlines; every other timer comes \<open>cnt\<close> ticks closer,
  periodic ones that fired are due again one interval after their deadline, and one-shot tickets
  that fired are dead.
\<close>
theorem timer_step_fires_due:
  assumes "cnt \<noteq> 0" and "distinct (map ticket (delta_queue s))"
  shows "\<exists>s'. timer_step cnt s =
      Inr (map (\<lambda>(e, x). func x) (filter (\<lambda>(e, x). e \<le> cnt \<and> ticket x \<in> record_set s) (due s)), s') \<and>
    mset (due s') = mset (map (\<lambda>(e, x). (e - cnt, x)) (filter (\<lambda>(e, x). cnt < e) (due s))) +
      mset (map (\<lambda>(e, x). (interval x - (cnt - e), x))
        (filter (\<lambda>(e, x). e \<le> cnt \<and> ticket x \<in> record_set s \<and> interval x \<noteq> 0) (due s))) \<and>
    record_set s' = record_set s - ticket ` {x. \<exists>e. (e, x) \<in> set (due s) \<and> e \<le> cnt \<and> interval x = 0}"
proof -
  obtain rec' q' pl' fired where ex: "expire (record_set s) cnt (delta_queue s) [] = (rec', q', pl', fired)"
    by (cases "expire (record_set s) cnt (delta_queue s) []") auto
  have srt: "sorted (map fst (due s))" by (simp add: due_def deadlines_sorted)
  note spec = expire_spec [OF ex assms(2), folded due_def, unfolded sorted_takeWhile_filter [OF srt] filter_filter]
  define s' where "s' = s\<lparr>record_set := rec', delta_queue := requeue pl' q'\<rparr>"
  have run: "timer_step cnt s = Inr (map func fired, s')"
    using assms(1) ex by (simp add: timer_step_def s'_def kassert_def)
  have "map func fired = map func (map (\<lambda>x. x\<lparr>diff_tick := 0\<rparr>) fired)" by simp
  then have 1: "map func fired = map (\<lambda>(e, x). func x) (filter (\<lambda>(e, x). e \<le> cnt \<and> ticket x \<in> record_set s) (due s))"
    using spec by (simp add: case_prod_unfold conj_commute)
  have zero: "x\<lparr>diff_tick := 0\<rparr> = x" if "(e, x) \<in> set (due s)" for e x
  proof -
    have "(e, x) \<in> set (deadlines t q) \<Longrightarrow> x\<lparr>diff_tick := 0\<rparr> = x" for t q by (induction q arbitrary: t) auto
    then show ?thesis using that by (simp add: due_def)
  qed
  have 2: "mset (due s') = mset (map (\<lambda>(e, x). (e - cnt, x)) (filter (\<lambda>(e, x). cnt < e) (due s))) +
      mset (map (\<lambda>(e, x). (interval x - (cnt - e), x))
        (filter (\<lambda>(e, x). e \<le> cnt \<and> ticket x \<in> record_set s \<and> interval x \<noteq> 0) (due s)))"
  proof -
    have "map (\<lambda>x. (diff_tick x, x\<lparr>diff_tick := 0\<rparr>)) (map (\<lambda>(e, x). x\<lparr>diff_tick := interval x - (cnt - e)\<rparr>)
        (filter (\<lambda>(e, x). e \<le> cnt \<and> ticket x \<in> record_set s \<and> interval x \<noteq> 0) (due s))) =
      map (\<lambda>(e, x). (interval x - (cnt - e), x))
        (filter (\<lambda>(e, x). e \<le> cnt \<and> ticket x \<in> record_set s \<and> interval x \<noteq> 0) (due s))"
      using zero by (auto simp: case_prod_unfold)
    moreover have "pl' = rev (map (\<lambda>(e, x). x\<lparr>diff_tick := interval x - (cnt - e)\<rparr>)
        (filter (\<lambda>(e, x). e \<le> cnt \<and> ticket x \<in> record_set s \<and> interval x \<noteq> 0) (due s)))"
      using spec by (simp add: case_prod_unfold conj_ac)
    ultimately have "mset (map (\<lambda>x. (diff_tick x, x\<lparr>diff_tick := 0\<rparr>)) pl') = mset (map (\<lambda>(e, x). (interval x - (cnt - e), x))
        (filter (\<lambda>(e, x). e \<le> cnt \<and> ticket x \<in> record_set s \<and> interval x \<noteq> 0) (due s)))"
      by (simp only: rev_map [symmetric] mset_rev)
    moreover have "due s' = deadlines 0 (requeue pl' q')" by (simp add: due_def s'_def)
    moreover have "deadlines 0 q' = map (\<lambda>(e, x). (e - cnt, x)) (filter (\<lambda>(e, x). cnt < e) (due s))" using spec by blast
    ultimately show ?thesis using requeue_mset [of pl' q'] by simp
  qed
  have 3: "record_set s' = record_set s - ticket ` {x. \<exists>e. (e, x) \<in> set (due s) \<and> e \<le> cnt \<and> interval x = 0}"
  proof -
    have "ticket ` set (filter (\<lambda>x. interval x = 0) fired) =
        ticket ` set (filter (\<lambda>x. interval x = 0) (map (\<lambda>x. x\<lparr>diff_tick := 0\<rparr>) fired))"
      by (simp add: filter_map image_image comp_def)
    also have "\<dots> = ticket ` {x. \<exists>e. (e, x) \<in> set (due s) \<and> e \<le> cnt \<and> interval x = 0 \<and> ticket x \<in> record_set s}"
      unfolding spec [THEN conjunct1] by (force simp: filter_map)
    finally show ?thesis using spec by (auto simp: s'_def)
  qed
  show ?thesis using run 1 2 3 by auto
qed


definition timer_sample :: basic_timer where
  "timer_sample = \<lparr>conductor = 3, record_set = {1, 2},
     delta_queue = [\<lparr>ticket = 1, diff_tick = 2, func = 10, interval = 0\<rparr>, \<lparr>ticket = 3, diff_tick = 0, func = 30, interval = 0\<rparr>,
       \<lparr>ticket = 2, diff_tick = 1, func = 20, interval = 5\<rparr>],
     running_us = 0, beat_counter = 0\<rparr>"

theorem timer_step_fires_due_witness:
  "\<exists>s'. timer_step 3 timer_sample = Inr ([10, 20], s') \<and>
     mset (due s') = {#(5, \<lparr>ticket = 2, diff_tick = 0, func = 20, interval = 5\<rparr>)#} \<and> record_set s' = {2}"
proof -
  have "distinct (map ticket (delta_queue timer_sample))" by (simp add: timer_sample_def)
  from timer_step_fires_due [OF _ this, of 3] show ?thesis
    by (simp add: due_def timer_sample_def) (fastforce split: if_splits)
qed

end
