(* ===== verification/Pipe.thy ===== *)
theory Pipe
  imports Kernel_Prelude
begin

text \<open>
  Pipes, \<^verbatim>\<open>kernel/sync/pipe.cpp\<close>: a ring buffer of \<open>limit\<close> bytes of which \<open>limit - 1\<close> can be used. Only one
  side may write: the owner process if the mode has \<open>owner_write\<close>, everyone else otherwise. Whether the
  caller is the owner is an argument. \<open>read\<close> and \<open>write\<close> also return whether they wake the waiters.
\<close>

section \<open>Model\<close>

record pipe =
  p_mode :: byte
  p_iostate :: byte
  p_limit :: dword
  p_buffer :: "nat \<Rightarrow> byte"
  p_head :: dword
  p_tail :: dword

abbreviation owner_write :: byte where "owner_write \<equiv> 1"
abbreviation atomic_write :: byte where "atomic_write \<equiv> 0x10"
abbreviation OP_FAILURE :: byte where "OP_FAILURE \<equiv> 4"

definition pipe_new :: "dword \<Rightarrow> byte \<Rightarrow> (nat \<Rightarrow> byte) \<Rightarrow> pipe res" where
  "pipe_new sz m mem = kassert (sz \<noteq> 0)
     (Inr \<lparr>p_mode = m, p_iostate = 0, p_limit = sz, p_buffer = mem, p_head = 0, p_tail = 0\<rparr>)"

definition pipe_is_full :: "pipe \<Rightarrow> bool" where
  "pipe_is_full p \<longleftrightarrow> (p_tail p + 1) mod p_limit p = p_head p"

definition pipe_is_empty :: "pipe \<Rightarrow> bool" where
  "pipe_is_empty p \<longleftrightarrow> p_head p = p_tail p"

definition is_writer :: "bool \<Rightarrow> pipe \<Rightarrow> bool" where
  "is_writer owner p \<longleftrightarrow> owner = (p_mode p AND owner_write \<noteq> 0)"

definition pipe_check :: "bool \<Rightarrow> pipe \<Rightarrow> bool" where
  "pipe_check owner p = (if is_writer owner p then \<not> pipe_is_full p else \<not> pipe_is_empty p)"

primrec read_loop :: "nat \<Rightarrow> pipe \<Rightarrow> byte list \<times> pipe" where
  "read_loop 0 p = ([], p)"
| "read_loop (Suc n) p =
     (if pipe_is_empty p then ([], p)
      else let b = p_buffer p (unat (p_head p)); head = p_head p + 1;
               (bs, p) = read_loop n (p\<lparr>p_head := if head = p_limit p then 0 else head\<rparr>)
           in (b # bs, p))"

definition pipe_read :: "bool \<Rightarrow> nat \<Rightarrow> pipe \<Rightarrow> byte list \<times> bool \<times> pipe" where
  "pipe_read owner n p0 =
     (let p = p0\<lparr>p_iostate := 0\<rparr> in
      if is_writer owner p then ([], False, p\<lparr>p_iostate := OP_FAILURE\<rparr>)
      else let need_notify = pipe_is_full p; (bs, p) = read_loop n p in
        (bs, bs \<noteq> [] \<and> need_notify, p))"

primrec write_loop :: "byte list \<Rightarrow> pipe \<Rightarrow> nat \<times> pipe" where
  "write_loop [] p = (0, p)"
| "write_loop (b # bs) p =
     (if pipe_is_full p then (0, p)
      else let tail = p_tail p + 1;
               (n, p) = write_loop bs (p\<lparr>p_buffer := (p_buffer p)(unat (p_tail p) := b),
                                         p_tail := if tail = p_limit p then 0 else tail\<rparr>)
           in (Suc n, p))"

definition pipe_write :: "bool \<Rightarrow> byte list \<Rightarrow> pipe \<Rightarrow> (nat \<times> bool \<times> pipe) res" where
  "pipe_write owner bs p0 =
     (let p = p0\<lparr>p_iostate := 0\<rparr> in
      if \<not> is_writer owner p then Inr (0, False, p\<lparr>p_iostate := OP_FAILURE\<rparr>)
      else if p_mode p AND atomic_write \<noteq> 0 \<and>
              unat ((p_head p + p_limit p - p_tail p - 1) mod p_limit p) < length bs then Inr (0, False, p)
      else let need_notify = pipe_is_empty p; (n, p) = write_loop bs p in
        kassert (p_mode p AND atomic_write = 0 \<or> n = length bs) (Inr (n, n \<noteq> 0 \<and> need_notify, p)))"

section \<open>The queue a pipe stands for\<close>

definition fill :: "pipe \<Rightarrow> nat" where
  "fill p = (unat (p_tail p) + unat (p_limit p) - unat (p_head p)) mod unat (p_limit p)"

definition contents :: "pipe \<Rightarrow> byte list" where
  "contents p = map (\<lambda>i. p_buffer p ((unat (p_head p) + i) mod unat (p_limit p))) [0..<fill p]"

definition pipe_ok :: "pipe \<Rightarrow> bool" where
  "pipe_ok p \<longleftrightarrow> p_head p < p_limit p \<and> p_tail p < p_limit p"

abbreviation cap :: "pipe \<Rightarrow> nat" where "cap p \<equiv> unat (p_limit p) - 1"

lemma pipe_okD:
  assumes "pipe_ok p"
  shows "unat (p_head p) < unat (p_limit p)" "unat (p_tail p) < unat (p_limit p)" "0 < unat (p_limit p)"
    "unat (p_limit p) < 2 ^ 32"
  using assms unsigned_less [of "p_limit p"] by (auto simp: pipe_ok_def word_less_nat_alt)

text \<open>One step of a position around the ring.\<close>

lemma advance:
  assumes "x < l"
  shows "unat (if x + 1 = l then 0 else x + 1 :: dword) = (unat x + 1) mod unat l"
    "(if x + 1 = l then 0 else x + 1) < l" "unat ((x + 1) mod l) = (unat x + 1) mod unat l"
proof -
  have lt: "unat x < unat l" using assms by (simp add: word_less_nat_alt)
  have "unat l < 2 ^ LENGTH(32)" by (rule unsigned_less)
  then have "unat x + 1 < 2 ^ 32" using lt by simp
  then have u: "unat (x + 1) = unat x + 1" by (simp add: unat_word_ariths)
  have eq: "x + 1 = l \<longleftrightarrow> unat x + 1 = unat l" using u by (simp add: word_unat_eq_iff)
  show "unat (if x + 1 = l then 0 else x + 1 :: dword) = (unat x + 1) mod unat l"
    using lt u eq by (auto simp: mod_if)
  show "(if x + 1 = l then 0 else x + 1) < l" using lt u eq by (auto simp: word_less_nat_alt)
  show "unat ((x + 1) mod l) = (unat x + 1) mod unat l" using u by (simp add: unat_mod_distrib)
qed

lemma fill_less: "pipe_ok p \<Longrightarrow> fill p < unat (p_limit p)"
  using pipe_okD(3) by (simp add: fill_def)

lemma length_contents [simp]: "length (contents p) = fill p"
  by (simp add: contents_def)

text \<open>Distances around a ring of \<open>l\<close> places.\<close>

definition gap :: "nat \<Rightarrow> nat \<Rightarrow> nat \<Rightarrow> nat" where
  "gap l a b = (if a \<le> b then b - a else b + l - a)"

lemma gap_mod:
  assumes "a < l" "b < l"
  shows "(b + l - a) mod l = gap l a b"
proof (cases "a \<le> b")
  case True
  then have "(b + l - a) mod l = (b - a + l) mod l" by simp
  then show ?thesis using True assms by (simp only: gap_def mod_add_self2) simp
qed (use assms in \<open>simp add: gap_def\<close>)

lemma ring_next: "(b::nat) < l \<Longrightarrow> (b + 1) mod l = (if b + 1 = l then 0 else b + 1)"
  by (auto simp: mod_if)

lemma gap_step:
  assumes "a < l" "b < l"
  shows "Suc (gap l a b) < l \<Longrightarrow> gap l a ((b + 1) mod l) = Suc (gap l a b)"
    and "a \<noteq> b \<Longrightarrow> gap l a b = Suc (gap l ((a + 1) mod l) b)"
    and "(b + 1) mod l = a \<longleftrightarrow> gap l a b = l - 1"
  unfolding gap_def ring_next [OF assms(1)] ring_next [OF assms(2)] using assms by (auto split: if_splits)

lemma gap_reach:
  assumes "a < l" "b < l"
  shows "(a + gap l a b) mod l = b" and "i < gap l a b \<Longrightarrow> (a + i) mod l \<noteq> b"
proof -
  show "(a + gap l a b) mod l = b" using assms by (auto simp: gap_def)
  assume i: "i < gap l a b"
  show "(a + i) mod l \<noteq> b"
  proof (cases "a + i < l")
    case True
    then show ?thesis using i assms by (auto simp: gap_def split: if_splits)
  next
    case False
    moreover have "a + i < l + l" using i assms by (auto simp: gap_def split: if_splits)
    ultimately have "(a + i) mod l = a + i - l" by (simp add: le_mod_geq)
    then show ?thesis using i assms False by (auto simp: gap_def split: if_splits)
  qed
qed

lemma fill_gap: "pipe_ok p \<Longrightarrow> fill p = gap (unat (p_limit p)) (unat (p_head p)) (unat (p_tail p))"
  by (simp add: fill_def gap_mod pipe_okD)

lemma empty_iff: "pipe_ok p \<Longrightarrow> pipe_is_empty p \<longleftrightarrow> contents p = []"
proof -
  assume ok: "pipe_ok p"
  have "pipe_is_empty p \<longleftrightarrow> fill p = 0"
    using pipe_okD [OF ok] by (auto simp: fill_gap [OF ok] gap_def pipe_is_empty_def word_unat_eq_iff)
  then show ?thesis by (metis length_0_conv length_contents)
qed

lemma full_iff: "pipe_ok p \<Longrightarrow> pipe_is_full p \<longleftrightarrow> length (contents p) = cap p"
proof -
  assume ok: "pipe_ok p"
  have "pipe_is_full p \<longleftrightarrow> (unat (p_tail p) + 1) mod unat (p_limit p) = unat (p_head p)"
    using advance(3) [of "p_tail p" "p_limit p"] ok by (simp add: pipe_is_full_def pipe_ok_def word_unat_eq_iff)
  then show ?thesis by (simp only: gap_step(3) [OF pipe_okD(1) [OF ok] pipe_okD(2) [OF ok]] fill_gap [OF ok] length_contents)
qed

lemma pop_step:
  assumes ok: "pipe_ok p" and ne: "\<not> pipe_is_empty p"
  defines "p' \<equiv> p\<lparr>p_head := if p_head p + 1 = p_limit p then 0 else p_head p + 1\<rparr>"
  shows "pipe_ok p'" "contents p = p_buffer p (unat (p_head p)) # contents p'"
proof -
  note h = advance [of "p_head p" "p_limit p"] and D = pipe_okD [OF ok]
  show ok': "pipe_ok p'" using ok h(2) by (simp add: p'_def pipe_ok_def)
  have hp: "unat (p_head p') = (unat (p_head p) + 1) mod unat (p_limit p)"
    using h(1) ok by (simp add: p'_def pipe_ok_def)
  have same: "p_tail p' = p_tail p" "p_limit p' = p_limit p" "p_buffer p' = p_buffer p" by (simp_all add: p'_def)
  have "unat (p_head p) \<noteq> unat (p_tail p)" using ne by (simp add: pipe_is_empty_def word_unat_eq_iff)
  then have f: "fill p = Suc (fill p')"
    unfolding fill_gap [OF ok] fill_gap [OF ok'] hp same by (rule gap_step(2) [OF D(1,2)])
  have "(unat (p_head p) + Suc i) mod unat (p_limit p) = (unat (p_head p') + i) mod unat (p_limit p)" for i
    unfolding hp by (metis add.assoc mod_add_left_eq plus_1_eq_Suc)
  then have "map (\<lambda>i. p_buffer p ((unat (p_head p) + i) mod unat (p_limit p))) [Suc 0..<Suc (fill p')] = contents p'"
    unfolding contents_def same map_Suc_upt [symmetric] by simp
  then show "contents p = p_buffer p (unat (p_head p)) # contents p'"
    unfolding contents_def [of p] f upt_conv_Cons [OF zero_less_Suc] using D(1) by simp
qed

lemma push_step:
  fixes b :: byte
  assumes ok: "pipe_ok p" and nf: "\<not> pipe_is_full p"
  defines "p' \<equiv> p\<lparr>p_buffer := (p_buffer p)(unat (p_tail p) := b),
     p_tail := if p_tail p + 1 = p_limit p then 0 else p_tail p + 1\<rparr>"
  shows "pipe_ok p'" "contents p' = contents p @ [b]"
proof -
  note h = advance [of "p_tail p" "p_limit p"] and D = pipe_okD [OF ok]
  show ok': "pipe_ok p'" using ok h(2) by (simp add: p'_def pipe_ok_def)
  have tp: "unat (p_tail p') = (unat (p_tail p) + 1) mod unat (p_limit p)"
    using h(1) ok by (simp add: p'_def pipe_ok_def)
  have same: "p_head p' = p_head p" "p_limit p' = p_limit p" by (simp_all add: p'_def)
  have lt: "Suc (fill p) < unat (p_limit p)" using full_iff [OF ok] nf fill_less [OF ok] by simp
  have f: "fill p' = Suc (fill p)"
    using lt unfolding fill_gap [OF ok] fill_gap [OF ok'] tp same by (rule gap_step(1) [OF D(1,2)])
  have pos: "(unat (p_head p) + fill p) mod unat (p_limit p) = unat (p_tail p)"
    unfolding fill_gap [OF ok] by (rule gap_reach(1) [OF D(1,2)])
  have "(unat (p_head p) + i) mod unat (p_limit p) \<noteq> unat (p_tail p)" if "i < fill p" for i
    using that unfolding fill_gap [OF ok] by (rule gap_reach(2) [OF D(1,2)])
  then show "contents p' = contents p @ [b]"
    unfolding contents_def f same using pos by (simp add: p'_def)
qed

section \<open>The loops refine the queue\<close>

lemma read_loop_ok:
  assumes "pipe_ok p" and "read_loop n p = (bs, p')"
  shows "bs = take n (contents p) \<and> contents p' = drop n (contents p) \<and> pipe_ok p' \<and>
    p_limit p' = p_limit p \<and> p_mode p' = p_mode p \<and> p_iostate p' = p_iostate p"
  using assms
proof (induction n arbitrary: p bs)
  case (Suc n)
  show ?case
  proof (cases "pipe_is_empty p")
    case True
    then show ?thesis using Suc.prems empty_iff by auto
  next
    case False
    note st = pop_step [OF Suc.prems(1) False]
    obtain cs where r: "read_loop n (p\<lparr>p_head := if p_head p + 1 = p_limit p then 0 else p_head p + 1\<rparr>) = (cs, p')"
      and bs: "bs = p_buffer p (unat (p_head p)) # cs"
      using Suc.prems(2) False by (auto simp: Let_def split: prod.splits)
    show ?thesis using Suc.IH [OF st(1) r] st(2) bs by simp
  qed
qed auto

lemma write_loop_ok:
  assumes "pipe_ok p" and "write_loop bs p = (n, p')"
  shows "n = min (length bs) (cap p - length (contents p)) \<and> contents p' = contents p @ take n bs \<and> pipe_ok p' \<and>
    p_limit p' = p_limit p \<and> p_mode p' = p_mode p \<and> p_iostate p' = p_iostate p"
  using assms
proof (induction bs arbitrary: p n)
  case (Cons b bs)
  show ?case
  proof (cases "pipe_is_full p")
    case True
    then show ?thesis using Cons.prems full_iff by auto
  next
    case False
    note st = push_step [OF Cons.prems(1) False, of b]
    obtain m where r: "write_loop bs (p\<lparr>p_buffer := (p_buffer p)(unat (p_tail p) := b),
        p_tail := if p_tail p + 1 = p_limit p then 0 else p_tail p + 1\<rparr>) = (m, p')" and n: "n = Suc m"
      using Cons.prems(2) False by (auto simp: Let_def split: prod.splits)
    have "length (contents p) < cap p"
      using full_iff [OF Cons.prems(1)] False fill_less [OF Cons.prems(1)] by simp
    then show ?thesis using Cons.IH [OF st(1) r] arg_cong [OF st(2), of length] st(2) n by auto
  qed
qed auto

text \<open>The free space the atomic write computes, which is exact while the sums of two positions fit a dword.\<close>

lemma available_ok:
  assumes ok: "pipe_ok p" and small: "p_limit p \<le> 0x80000000"
  shows "unat ((p_head p + p_limit p - p_tail p - 1) mod p_limit p) = cap p - length (contents p)"
proof -
  note D = pipe_okD [OF ok]
  have l: "unat (p_limit p) \<le> 2 ^ 31" using small by (simp add: word_le_nat_alt)
  have s: "unat (p_head p + p_limit p) = unat (p_head p) + unat (p_limit p)"
    using D l by (simp add: unat_word_ariths)
  have t: "unat (p_tail p + 1) = unat (p_tail p) + 1" using D by (simp add: unat_word_ariths)
  have "p_tail p + 1 \<le> p_head p + p_limit p" using s t D by (simp add: word_le_nat_alt)
  then have "unat (p_head p + p_limit p - (p_tail p + 1)) = unat (p_head p) + unat (p_limit p) - (unat (p_tail p) + 1)"
    using s t by (simp add: unat_sub)
  then have "unat ((p_head p + p_limit p - p_tail p - 1) mod p_limit p) =
      (unat (p_head p) + unat (p_limit p) - (unat (p_tail p) + 1)) mod unat (p_limit p)"
    by (simp add: unat_mod_distrib diff_diff_eq)
  also have "\<dots> = gap (unat (p_limit p)) ((unat (p_tail p) + 1) mod unat (p_limit p)) (unat (p_head p))"
  proof (cases "unat (p_tail p) + 1 = unat (p_limit p)")
    case True
    then show ?thesis using D by (simp add: gap_def)
  next
    case False
    then show ?thesis using D gap_mod [of "unat (p_tail p) + 1" "unat (p_limit p)" "unat (p_head p)"] by simp
  qed
  also have "\<dots> = cap p - fill p"
    using D unfolding fill_gap [OF ok] ring_next [OF D(2)] by (auto simp: gap_def)
  finally show ?thesis by simp
qed

section \<open>Properties\<close>

text \<open>C29: Reading: a caller on the reading side obtains the oldest bytes, as many as asked for or as there are,
  they leave the pipe, and the waiters are woken exactly when the pipe was full and something was read. A caller
  on the writing side obtains nothing, the contents stay, and the state says failure.\<close>

theorem pipe_read_fifo:
  assumes ok: "pipe_ok p" and r: "pipe_read owner n p = (bs, wake, p')"
  shows "pipe_ok p' \<and>
    (if is_writer owner p then bs = [] \<and> \<not> wake \<and> contents p' = contents p \<and> p_iostate p' = OP_FAILURE
     else bs = take n (contents p) \<and> contents p' = drop n (contents p) \<and> p_iostate p' = 0 \<and>
       (wake \<longleftrightarrow> bs \<noteq> [] \<and> length (contents p) = cap p))"
proof -
  let ?q = "p\<lparr>p_iostate := 0\<rparr>"
  have q: "pipe_ok ?q" "contents ?q = contents p" "is_writer owner ?q = is_writer owner p"
    "pipe_is_full ?q = pipe_is_full p"
    using ok by (simp_all add: pipe_ok_def contents_def fill_def is_writer_def pipe_is_full_def)
  show ?thesis
  proof (cases "is_writer owner p")
    case True
    then show ?thesis using r ok q(3) by (auto simp: pipe_read_def Let_def pipe_ok_def contents_def fill_def)
  next
    case False
    obtain cs p1 where l: "read_loop n ?q = (cs, p1)" by (cases "read_loop n ?q")
    have "bs = cs \<and> p' = p1 \<and> wake = (cs \<noteq> [] \<and> pipe_is_full p)"
      using r False l q by (simp add: pipe_read_def Let_def) blast
    then show ?thesis using read_loop_ok [OF q(1) l] False q(2) full_iff [OF ok] by simp
  qed
qed

theorem pipe_read_fifo_witness:
  "contents \<lparr>p_mode = 1, p_iostate = 0, p_limit = 4, p_buffer = (\<lambda>i. of_nat (10 + i)), p_head = 3, p_tail = 1\<rparr> = [13, 10] \<and>
   fst (pipe_read False 5 \<lparr>p_mode = 1, p_iostate = 0, p_limit = 4, p_buffer = (\<lambda>i. of_nat (10 + i)), p_head = 3, p_tail = 1\<rparr>)
     = [13, 10]"
proof -
  let ?p = "\<lparr>p_mode = 1, p_iostate = 0, p_limit = 4, p_buffer = (\<lambda>i. of_nat (10 + i)), p_head = 3, p_tail = 1\<rparr> :: pipe"
  have c: "contents ?p = [13, 10]" by (simp add: contents_def fill_def upt_rec)
  have ok: "pipe_ok ?p" by (simp add: pipe_ok_def)
  have w: "\<not> is_writer False ?p" by (simp add: is_writer_def)
  obtain bs wk p' where r: "pipe_read False 5 ?p = (bs, wk, p')" by (metis prod_cases3)
  show ?thesis using pipe_read_fifo [OF ok r] c w r by simp
qed

text \<open>Writing: a caller on the writing side appends its bytes in order. Without \<open>atomic_write\<close> it appends as many
  as fit; with it, and at most 2 GiB of buffer, all of them or none. The waiters are woken exactly when the pipe
  was empty and something was written. The final assertion of the code holds. A caller on the reading side changes nothing and
  the state says failure.\<close>

theorem pipe_write_fifo:
  assumes ok: "pipe_ok p" and small: "p_mode p AND atomic_write = 0 \<or> p_limit p \<le> 0x80000000"
  shows "\<exists>n wake p'. pipe_write owner bs p = Inr (n, wake, p') \<and> pipe_ok p' \<and> contents p' = contents p @ take n bs \<and>
    (wake \<longleftrightarrow> n \<noteq> 0 \<and> contents p = []) \<and>
    (if \<not> is_writer owner p then n = 0 \<and> p_iostate p' = OP_FAILURE
     else p_iostate p' = 0 \<and>
       n = (if p_mode p AND atomic_write \<noteq> 0 \<and> cap p - length (contents p) < length bs then 0
            else min (length bs) (cap p - length (contents p))))"
proof -
  let ?q = "p\<lparr>p_iostate := 0\<rparr>"
  have q: "pipe_ok ?q" "contents ?q = contents p" "is_writer owner ?q = is_writer owner p"
    "pipe_is_empty ?q = pipe_is_empty p"
    using ok by (simp_all add: pipe_ok_def contents_def fill_def is_writer_def pipe_is_empty_def)
  let ?short = "p_mode p AND atomic_write \<noteq> 0 \<and> cap p - length (contents p) < length bs"
  have sh: "(p_mode p AND atomic_write \<noteq> 0 \<and>
      unat ((p_head p + p_limit p - p_tail p - 1) mod p_limit p) < length bs) = ?short"
    using small available_ok [OF ok] by auto
  obtain m p1 where l: "write_loop bs ?q = (m, p1)" by (cases "write_loop bs ?q")
  note w = write_loop_ok [OF q(1) l, unfolded q(2)]
  consider "\<not> is_writer owner p" | "is_writer owner p" "?short" | "is_writer owner p" "\<not> ?short" by blast
  then show ?thesis
  proof cases
    case 3
    then have "pipe_write owner bs p = Inr (m, m \<noteq> 0 \<and> pipe_is_empty p, p1)"
      using sh l w q by (auto simp: pipe_write_def Let_def kassert_def)
    then show ?thesis using 3 w empty_iff [OF ok] by auto
  qed (use sh q ok in \<open>simp_all add: pipe_write_def pipe_ok_def contents_def fill_def\<close>)
qed

theorem pipe_write_fifo_witness:
  "\<exists>wake p'. pipe_write True [7, 8] \<lparr>p_mode = 0x11, p_iostate = 0, p_limit = 4, p_buffer = (\<lambda>i. 0), p_head = 3, p_tail = 3\<rparr> =
     Inr (2, wake, p') \<and> contents p' = [7, 8] \<and> wake"
proof -
  let ?p = "\<lparr>p_mode = 0x11, p_iostate = 0, p_limit = 4, p_buffer = (\<lambda>i. 0), p_head = 3, p_tail = 3\<rparr> :: pipe"
  have c: "contents ?p = []" by (simp add: contents_def fill_def)
  have ok: "pipe_ok ?p" by (simp add: pipe_ok_def)
  have w: "is_writer True ?p" by (simp add: is_writer_def)
  have s: "p_mode ?p AND atomic_write = 0 \<or> p_limit ?p \<le> 0x80000000" by simp
  show ?thesis using pipe_write_fifo [OF ok s, of True "[7, 8]"] c w by auto
qed

end
