(* ===== verification/Spin_Lock.thy ===== *)
theory Spin_Lock
  imports Kernel_Prelude
begin

text \<open>
  The spin lock, \<^verbatim>\<open>kernel/sync/spin_lock.cpp\<close>, on a machine with any number of cores: every access to the
  word \<open>state\<close> is one step of one core, and the steps of the cores interleave freely. A core is at one of
  the program points of \<open>try_lock\<close>, \<open>lock\<close> and \<open>unlock\<close>, with the locals it keeps there. The values of
  the debug build are used, which is the one the makefiles make.
\<close>

section \<open>Model\<close>

datatype lmode = EXCLUSIVE | SHARED

text \<open>The retry counter is present in \<open>lock\<close> and absent in \<open>try_lock\<close>.\<close>

datatype spc =
    Idle
  | TryLock lmode "nat option"
  | TryCas dword "nat option"
  | CheckLock lmode
  | CheckLimit
  | Holding lmode
  | UnlockX
  | UnlockCas dword nat
  | UnlockRead nat

definition x_value :: dword where "x_value = 0x80000000"
definition s_limit :: dword where "s_limit = 0x40"
definition spin_timeout :: nat where "spin_timeout = 0x4000"

definition spin_is_locked :: "dword \<Rightarrow> bool" where "spin_is_locked state \<longleftrightarrow> state \<noteq> 0"
definition spin_is_exclusive :: "dword \<Rightarrow> bool" where "spin_is_exclusive state \<longleftrightarrow> state \<ge> x_value"

definition lock_failed :: "lmode \<Rightarrow> nat option \<Rightarrow> spc res" where
  "lock_failed m cnt = (case cnt of None \<Rightarrow> Inr Idle
     | Some c \<Rightarrow> if c > spin_timeout then bugcheck ''spinlock timeout'' else Inr (TryLock m (Some (c + 1))))"

definition lock_taken :: "lmode \<Rightarrow> nat option \<Rightarrow> spc" where
  "lock_taken m cnt = (case cnt of None \<Rightarrow> Holding m | Some c \<Rightarrow> CheckLock m)"

definition try_lock :: "lmode \<Rightarrow> nat option \<Rightarrow> dword \<Rightarrow> (spc \<times> dword) res" where
  "try_lock m cnt state = (case m of
     EXCLUSIVE \<Rightarrow> if state = 0 then Inr (lock_taken EXCLUSIVE cnt, x_value)
                  else rbind (lock_failed EXCLUSIVE cnt) (\<lambda>pc. Inr (pc, state))
   | SHARED \<Rightarrow> if state \<ge> x_value then
                 kassert (state = x_value) (rbind (lock_failed SHARED cnt) (\<lambda>pc. Inr (pc, state)))
               else if state \<ge> s_limit then bugcheck ''spinlock overflow''
               else Inr (TryCas state cnt, state))"

definition try_lock_cas :: "dword \<Rightarrow> nat option \<Rightarrow> dword \<Rightarrow> (spc \<times> dword) res" where
  "try_lock_cas cur cnt state =
     (if state = cur then Inr (lock_taken SHARED cnt, cur + 1)
      else rbind (lock_failed SHARED cnt) (\<lambda>pc. Inr (pc, state)))"

definition lock_check :: "lmode \<Rightarrow> dword \<Rightarrow> (spc \<times> dword) res" where
  "lock_check m state = (case m of
     EXCLUSIVE \<Rightarrow> kassert (x_value = state) (Inr (Holding EXCLUSIVE, state))
   | SHARED \<Rightarrow> kassert (state \<noteq> 0) (Inr (CheckLimit, state)))"

definition unlock_read :: "dword \<Rightarrow> (spc \<times> dword) res" where
  "unlock_read state =
     (if state = 0 then bugcheck ''spinlock double unlock''
      else if state \<ge> x_value then kassert (state = x_value) (Inr (UnlockX, state))
      else Inr (UnlockCas state 0, state))"

definition unlock_cas :: "dword \<Rightarrow> nat \<Rightarrow> dword \<Rightarrow> (spc \<times> dword) res" where
  "unlock_cas cur cnt state = (if state = cur then Inr (Idle, cur - 1) else Inr (UnlockRead cnt, state))"

definition unlock_reread :: "nat \<Rightarrow> dword \<Rightarrow> (spc \<times> dword) res" where
  "unlock_reread cnt state =
     (if cnt < spin_timeout then Inr (UnlockCas state (cnt + 1), state) else bugcheck ''spinlock timeout'')"

text \<open>The next access of a core that is inside one of the functions, and the calls a core may make.\<close>

fun spin_run :: "spc \<Rightarrow> dword \<Rightarrow> (spc \<times> dword) res" where
  "spin_run (TryLock m cnt) state = try_lock m cnt state"
| "spin_run (TryCas cur cnt) state = try_lock_cas cur cnt state"
| "spin_run (CheckLock m) state = lock_check m state"
| "spin_run CheckLimit state = kassert (state < s_limit) (Inr (Holding SHARED, state))"
| "spin_run UnlockX state = kassert (x_value = state) (Inr (Idle, 0))"
| "spin_run (UnlockCas cur cnt) state = unlock_cas cur cnt state"
| "spin_run (UnlockRead cnt) state = unlock_reread cnt state"
| "spin_run Idle state = Inr (Idle, state)"
| "spin_run (Holding m) state = Inr (Holding m, state)"

record slock =
  l_state :: dword
  l_pc :: "nat \<Rightarrow> spc"
  l_fault :: "fault option"

definition spin_init :: slock where
  "spin_init = \<lparr>l_state = 0, l_pc = (\<lambda>_. Idle), l_fault = None\<rparr>"

definition spin_apply :: "nat \<Rightarrow> (spc \<times> dword) res \<Rightarrow> slock \<Rightarrow> slock" where
  "spin_apply t r s = (case r of Inl e \<Rightarrow> s\<lparr>l_fault := Some e\<rparr>
     | Inr (pc, v) \<Rightarrow> s\<lparr>l_state := v, l_pc := (l_pc s)(t := pc)\<rparr>)"

inductive spin_step :: "slock \<Rightarrow> slock \<Rightarrow> bool" where
  call_lock: "\<lbrakk>l_fault s = None; l_pc s t = Idle\<rbrakk> \<Longrightarrow>
     spin_step s (s\<lparr>l_pc := (l_pc s)(t := TryLock m (Some 0))\<rparr>)"
| call_try_lock: "\<lbrakk>l_fault s = None; l_pc s t = Idle\<rbrakk> \<Longrightarrow>
     spin_step s (s\<lparr>l_pc := (l_pc s)(t := TryLock m None)\<rparr>)"
| call_unlock: "\<lbrakk>l_fault s = None; l_pc s t = Holding m\<rbrakk> \<Longrightarrow>
     spin_step s (spin_apply t (unlock_read (l_state s)) s)"
| run: "l_fault s = None \<Longrightarrow> spin_step s (spin_apply t (spin_run (l_pc s t) (l_state s)) s)"

inductive spin_reachable :: "slock \<Rightarrow> bool" where
  init: "spin_reachable spin_init"
| step: "\<lbrakk>spin_reachable s; spin_step s s'\<rbrakk> \<Longrightarrow> spin_reachable s'"

section \<open>Who holds the lock\<close>

fun owns_x :: "spc \<Rightarrow> bool" where
  "owns_x (CheckLock EXCLUSIVE) = True"
| "owns_x (Holding EXCLUSIVE) = True"
| "owns_x UnlockX = True"
| "owns_x _ = False"

fun owns_s :: "spc \<Rightarrow> bool" where
  "owns_s (CheckLock SHARED) = True"
| "owns_s CheckLimit = True"
| "owns_s (Holding SHARED) = True"
| "owns_s (UnlockCas _ _) = True"
| "owns_s (UnlockRead _) = True"
| "owns_s _ = False"

definition xs_of :: "slock \<Rightarrow> nat set" where "xs_of s = {t. owns_x (l_pc s t)}"
definition ss_of :: "slock \<Rightarrow> nat set" where "ss_of s = {t. owns_s (l_pc s t)}"

fun pc_ok :: "spc \<Rightarrow> bool" where
  "pc_ok (TryCas cur cnt) = (cur < s_limit)"
| "pc_ok (UnlockCas cur cnt) = (cur \<noteq> 0 \<and> cur \<le> s_limit)"
| "pc_ok _ = True"

definition spin_inv :: "slock \<Rightarrow> bool" where
  "spin_inv s \<longleftrightarrow> (\<forall>t. pc_ok (l_pc s t)) \<and> finite (ss_of s) \<and> l_state s \<le> x_value \<and>
     (if l_state s = x_value then ss_of s = {} \<and> (\<exists>t. xs_of s = {t})
      else xs_of s = {} \<and> l_state s \<le> s_limit \<and> unat (l_state s) = card (ss_of s))"

definition benign :: "fault \<Rightarrow> bool" where
  "benign e \<longleftrightarrow> e = Bugcheck ''spinlock timeout'' \<or> e = Bugcheck ''spinlock overflow''"

section \<open>Every step keeps the invariant\<close>

abbreviation moved :: "nat \<Rightarrow> spc \<Rightarrow> dword \<Rightarrow> slock \<Rightarrow> slock" where
  "moved t pc v s \<equiv> s\<lparr>l_state := v, l_pc := (l_pc s)(t := pc)\<rparr>"

lemma owners_moved:
  "xs_of (moved t pc v s) = (if owns_x pc then insert t (xs_of s) else xs_of s - {t})"
  "ss_of (moved t pc v s) = (if owns_s pc then insert t (ss_of s) else ss_of s - {t})"
  by (auto simp: xs_of_def ss_of_def)

lemma not_both: "\<not> (owns_x pc \<and> owns_s pc)"
  by (cases pc rule: owns_x.cases) auto

lemma limits: "s_limit < x_value" "0 < s_limit" "0 < x_value" "unat s_limit = 64" "unat x_value = 0x80000000"
  "x_value \<noteq> 0"
  by (simp_all add: s_limit_def x_value_def)

lemma in_owners: "t \<in> xs_of s \<longleftrightarrow> owns_x (l_pc s t)" "t \<in> ss_of s \<longleftrightarrow> owns_s (l_pc s t)"
  by (simp_all add: xs_of_def ss_of_def)

lemma inv_same:
  assumes inv: "spin_inv s" and "pc_ok pc" "owns_x pc = owns_x (l_pc s t)" "owns_s pc = owns_s (l_pc s t)"
  shows "spin_inv (moved t pc (l_state s) s)"
proof -
  have "xs_of (moved t pc (l_state s) s) = xs_of s" "ss_of (moved t pc (l_state s) s) = ss_of s"
    using assms(3,4) by (auto simp: xs_of_def ss_of_def)
  then show ?thesis using inv assms(2) by (simp add: spin_inv_def)
qed

lemma inv_take_x:
  assumes inv: "spin_inv s" and "l_state s = 0" "pc_ok pc" "owns_x pc"
  shows "spin_inv (moved t pc x_value s)"
proof -
  have "xs_of s = {}" "finite (ss_of s)" "card (ss_of s) = 0"
    using inv assms(2) limits(6) by (auto simp: spin_inv_def split: if_splits)
  then have "xs_of s = {}" "ss_of s = {}" by auto
  then show ?thesis using inv assms(3,4) not_both [of pc] by (auto simp: spin_inv_def owners_moved)
qed

lemma inv_take_s:
  assumes inv: "spin_inv s" and "l_state s < s_limit" "pc_ok pc" "owns_s pc" "\<not> owns_s (l_pc s t)"
  shows "spin_inv (moved t pc (l_state s + 1) s)"
proof -
  have ne: "l_state s \<noteq> x_value" using assms(2) limits by auto
  have u: "unat (l_state s + 1) = unat (l_state s) + 1"
    using assms(2) limits by (simp add: word_less_nat_alt unat_word_ariths)
  then have "l_state s + 1 \<le> s_limit" "l_state s + 1 \<noteq> x_value"
    using assms(2) limits by (auto simp: word_less_nat_alt word_le_nat_alt word_unat_eq_iff)
  moreover have "t \<notin> ss_of s" using assms(5) by (simp add: in_owners)
  moreover have "xs_of s = {}" "finite (ss_of s)" "unat (l_state s) = card (ss_of s)"
    using inv ne by (auto simp: spin_inv_def)
  ultimately show ?thesis
    using inv assms(3,4) not_both [of pc] u limits(1) by (auto simp: spin_inv_def owners_moved)
qed

lemma inv_drop_x:
  assumes inv: "spin_inv s" and "owns_x (l_pc s t)"
  shows "spin_inv (moved t Idle 0 s)" "l_state s = x_value"
proof -
  show x: "l_state s = x_value" using assms by (auto simp: spin_inv_def xs_of_def split: if_splits)
  then obtain u where "xs_of s = {u}" "ss_of s = {}" using inv by (auto simp: spin_inv_def)
  moreover have "t \<in> xs_of s" using assms(2) by (simp add: in_owners)
  ultimately have "xs_of s = {t}" "ss_of s = {}" by auto
  then show "spin_inv (moved t Idle 0 s)"
    using inv limits by (auto simp: spin_inv_def owners_moved)
qed

lemma owner_counted:
  assumes inv: "spin_inv s" and "owns_s (l_pc s t)"
  shows "l_state s \<noteq> 0" "l_state s \<le> s_limit" "l_state s \<noteq> x_value" "xs_of s = {}"
    "finite (ss_of s)" "unat (l_state s) = card (ss_of s)"
proof -
  have t: "t \<in> ss_of s" using assms by (simp add: in_owners)
  then show ne: "l_state s \<noteq> x_value" using inv by (auto simp: spin_inv_def)
  then show "xs_of s = {}" "finite (ss_of s)" "l_state s \<le> s_limit" and c: "unat (l_state s) = card (ss_of s)"
    using inv by (auto simp: spin_inv_def)
  then have "card (ss_of s) \<noteq> 0" using t by auto
  then show "l_state s \<noteq> 0" using c by auto
qed

lemma inv_drop_s:
  assumes inv: "spin_inv s" and own: "owns_s (l_pc s t)"
  shows "spin_inv (moved t Idle (l_state s - 1) s)"
proof -
  note o = owner_counted [OF assms]
  have t: "t \<in> ss_of s" using own by (simp add: in_owners)
  have u: "unat (l_state s - 1) = unat (l_state s) - 1"
    using o(1) by (simp add: unat_minus_one)
  then have "l_state s - 1 \<le> s_limit" "l_state s - 1 \<noteq> x_value"
    using o(2) limits by (auto simp: word_le_nat_alt word_unat_eq_iff)
  then show ?thesis
    using inv o t u limits(1) by (auto simp: spin_inv_def owners_moved)
qed

text \<open>What one step may do: keep the invariant, or stop for one of the reasons the code allows.\<close>

definition step_ok :: "nat \<Rightarrow> slock \<Rightarrow> (spc \<times> dword) res \<Rightarrow> bool" where
  "step_ok t s r \<longleftrightarrow> (case r of Inl e \<Rightarrow> benign e \<or> (e = AssertFailed \<and> l_state s = s_limit)
     | Inr (pc, v) \<Rightarrow> spin_inv (moved t pc v s))"

lemma lock_failed_ok:
  assumes "spin_inv s" "\<not> owns_x (l_pc s t)" "\<not> owns_s (l_pc s t)"
  shows "step_ok t s (rbind (lock_failed m cnt) (\<lambda>pc. Inr (pc, l_state s)))"
  using assms inv_same [OF assms(1), of Idle t] inv_same [OF assms(1), of "TryLock m (Some (the cnt + 1))" t]
  by (auto simp: step_ok_def lock_failed_def benign_def bugcheck_def split: option.splits)

lemma try_lock_ok:
  assumes inv: "spin_inv s" and pc: "l_pc s t = TryLock m cnt"
  shows "step_ok t s (try_lock m cnt (l_state s))"
proof -
  have free: "\<not> owns_x (l_pc s t)" "\<not> owns_s (l_pc s t)" using pc by simp_all
  have le: "l_state s \<le> x_value" using inv by (simp add: spin_inv_def)
  show ?thesis
  proof (cases m)
    case EXCLUSIVE
    then show ?thesis
      using lock_failed_ok [OF inv free] inv_take_x [OF inv, of "lock_taken EXCLUSIVE cnt" t]
      by (auto simp: try_lock_def lock_taken_def step_ok_def split: option.splits)
  next
    case SHARED
    then show ?thesis
      using lock_failed_ok [OF inv free, of SHARED cnt] inv_same [OF inv, of "TryCas (l_state s) cnt" t] free le
      by (auto simp: try_lock_def step_ok_def benign_def bugcheck_def kassert_def)
  qed
qed

lemma try_lock_cas_ok:
  assumes inv: "spin_inv s" and pc: "l_pc s t = TryCas cur cnt"
  shows "step_ok t s (try_lock_cas cur cnt (l_state s))"
proof -
  have free: "\<not> owns_x (l_pc s t)" "\<not> owns_s (l_pc s t)" using pc by simp_all
  have "pc_ok (l_pc s t)" using inv by (simp add: spin_inv_def)
  then have "cur < s_limit" using pc by simp
  then show ?thesis
    using lock_failed_ok [OF inv free] inv_take_s [OF inv, of "lock_taken SHARED cnt" t] free
    by (auto simp: try_lock_cas_def lock_taken_def step_ok_def split: option.splits)
qed

lemma lock_check_ok:
  assumes inv: "spin_inv s" and pc: "l_pc s t = CheckLock m"
  shows "step_ok t s (lock_check m (l_state s))"
proof (cases m)
  case EXCLUSIVE
  then show ?thesis
    using inv_drop_x(2) [OF inv, of t] inv_same [OF inv, of "Holding EXCLUSIVE" t] pc
    by (simp add: lock_check_def step_ok_def)
next
  case SHARED
  then show ?thesis
    using owner_counted(1) [OF inv, of t] inv_same [OF inv, of CheckLimit t] pc
    by (simp add: lock_check_def step_ok_def)
qed

lemma unlock_read_ok:
  assumes inv: "spin_inv s" and pc: "l_pc s t = Holding m"
  shows "step_ok t s (unlock_read (l_state s))"
proof (cases m)
  case EXCLUSIVE
  then show ?thesis
    using inv_drop_x(2) [OF inv, of t] inv_same [OF inv, of UnlockX t] pc limits
    by (simp add: unlock_read_def step_ok_def)
next
  case SHARED
  then have own: "owns_s (l_pc s t)" using pc by simp
  note o = owner_counted [OF inv own]
  have "\<not> l_state s \<ge> x_value" using o(2) limits by auto
  then show ?thesis
    using o inv_same [OF inv, of "UnlockCas (l_state s) 0" t] own not_both [of "l_pc s t"]
    by (simp add: unlock_read_def step_ok_def)
qed

lemma unlock_cas_ok:
  assumes inv: "spin_inv s" and own: "owns_s (l_pc s t)"
  shows "step_ok t s (unlock_cas cur cnt (l_state s))" "step_ok t s (unlock_reread cnt (l_state s))"
  using owner_counted [OF assms] inv_drop_s [OF assms] inv_same [OF inv, of "UnlockRead cnt" t] own not_both [of "l_pc s t"]
    inv_same [OF inv, of "UnlockCas (l_state s) (cnt + 1)" t]
  by (auto simp: unlock_cas_def unlock_reread_def step_ok_def benign_def bugcheck_def)

lemma spin_run_ok:
  assumes inv: "spin_inv s"
  shows "step_ok t s (spin_run (l_pc s t) (l_state s))"
proof (cases "l_pc s t")
  case (TryLock m cnt)
  then show ?thesis using try_lock_ok [OF inv TryLock] by simp
next
  case (TryCas cur cnt)
  then show ?thesis using try_lock_cas_ok [OF inv TryCas] by simp
next
  case (CheckLock m)
  then show ?thesis using lock_check_ok [OF inv CheckLock] by simp
next
  case CheckLimit
  then show ?thesis
    using owner_counted(2) [OF inv, of t] inv_same [OF inv, of "Holding SHARED" t]
    by (auto simp: step_ok_def kassert_def)
next
  case UnlockX
  then show ?thesis using inv_drop_x [OF inv, of t] by (simp add: step_ok_def)
next
  case (UnlockCas cur cnt)
  then show ?thesis using unlock_cas_ok(1) [OF inv, of t] by simp
next
  case (UnlockRead cnt)
  then show ?thesis using unlock_cas_ok(2) [OF inv, of t] by simp
qed (use inv_same [OF inv] in \<open>simp_all add: step_ok_def\<close>)

lemma spin_inv_fault [simp]: "spin_inv (s\<lparr>l_fault := f\<rparr>) = spin_inv s"
  by (simp add: spin_inv_def xs_of_def ss_of_def)

lemma spin_apply_ok:
  assumes "step_ok t s r" "spin_inv s" "l_fault s = None"
  shows "spin_inv (spin_apply t r s) \<and>
    (\<forall>e. l_fault (spin_apply t r s) = Some e \<longrightarrow>
       benign e \<or> (e = AssertFailed \<and> l_state (spin_apply t r s) = s_limit))"
  using assms by (auto simp: step_ok_def spin_apply_def split: sum.splits)

lemma spin_reachable_inv:
  "spin_reachable s \<Longrightarrow> spin_inv s \<and>
     (\<forall>e. l_fault s = Some e \<longrightarrow> benign e \<or> (e = AssertFailed \<and> l_state s = s_limit))"
proof (induction rule: spin_reachable.induct)
  case init
  then show ?case by (simp add: spin_init_def spin_inv_def xs_of_def ss_of_def limits)
next
  case (step s s')
  then have inv: "spin_inv s" by simp
  from step.hyps(2) show ?case
  proof cases
    case (call_lock t m)
    then show ?thesis using inv_same [OF inv, of "TryLock m (Some 0)" t] by simp
  next
    case (call_try_lock t m)
    then show ?thesis using inv_same [OF inv, of "TryLock m None" t] by simp
  next
    case (call_unlock t m)
    then show ?thesis using spin_apply_ok [OF unlock_read_ok [OF inv] inv] by blast
  next
    case (run t)
    then show ?thesis using spin_apply_ok [OF spin_run_ok [OF inv] inv] by blast
  qed
qed

section \<open>Properties\<close>

text \<open>C13: Mutual exclusion, for every interleaving of any number of cores: while a core holds the lock exclusively no other
  core holds it in either mode, and the word says who holds it: \<open>x_value\<close> with one exclusive holder, otherwise the number of
  shared holders.\<close>

theorem spin_lock_mutual_exclusion:
  assumes "spin_reachable s"
  shows "(l_pc s t = Holding EXCLUSIVE \<and> l_pc s u = Holding m \<longrightarrow> t = u) \<and>
    (l_state s = x_value \<longleftrightarrow> (\<exists>t. owns_x (l_pc s t))) \<and>
    (l_state s \<noteq> x_value \<longrightarrow> unat (l_state s) = card {t. owns_s (l_pc s t)} \<and> card {t. owns_s (l_pc s t)} \<le> 64)"
proof -
  have inv: "spin_inv s" using spin_reachable_inv [OF assms] by simp
  have ex: "(\<exists>t. owns_x (l_pc s t)) \<longleftrightarrow> l_state s = x_value"
    using inv by (auto simp: spin_inv_def xs_of_def split: if_splits)
  have "t = u" if "l_pc s t = Holding EXCLUSIVE" "l_pc s u = Holding m"
  proof -
    have "owns_x (l_pc s t)" using that(1) by simp
    then have "l_state s = x_value" using ex by blast
    then obtain w where "ss_of s = {}" "xs_of s = {w}" using inv by (auto simp: spin_inv_def)
    moreover have "t \<in> xs_of s" "u \<in> xs_of s \<or> u \<in> ss_of s"
      using that by (cases m; simp add: in_owners)+
    ultimately show ?thesis by auto
  qed
  then show ?thesis using ex inv limits(4) by (auto simp: spin_inv_def ss_of_def word_le_nat_alt)
qed

theorem spin_lock_mutual_exclusion_witness:
  "spin_reachable (moved 1 (Holding EXCLUSIVE) x_value spin_init) \<and>
   \<not> spin_reachable (moved 2 (Holding SHARED) x_value (moved 1 (Holding EXCLUSIVE) x_value spin_init))"
proof
  let ?s = "moved 1 (TryLock EXCLUSIVE None) 0 spin_init"
  have "spin_step spin_init ?s"
    using call_try_lock [of spin_init 1 EXCLUSIVE] by (simp add: spin_init_def)
  then have r: "spin_reachable ?s" by (rule spin_reachable.step [OF spin_reachable.init])
  have "spin_step ?s (moved 1 (Holding EXCLUSIVE) x_value spin_init)"
    using run [of ?s 1] by (simp add: spin_init_def try_lock_def lock_taken_def spin_apply_def)
  then show "spin_reachable (moved 1 (Holding EXCLUSIVE) x_value spin_init)" by (rule spin_reachable.step [OF r])
  show "\<not> spin_reachable (moved 2 (Holding SHARED) x_value (moved 1 (Holding EXCLUSIVE) x_value spin_init))"
    using spin_lock_mutual_exclusion [of "moved 2 (Holding SHARED) x_value (moved 1 (Holding EXCLUSIVE) x_value spin_init)" 1 2 SHARED]
    by auto
qed

text \<open>A lock used with one \<open>unlock\<close> per successful \<open>lock\<close> or \<open>try_lock\<close> never stops with the double unlock check or with an
  assertion on a corrupt word: the only stops are the two spin timeouts, the overflow check, and the final assertion of a shared
  \<open>lock\<close> when 64 cores hold the lock at once.\<close>

theorem spin_lock_faults:
  assumes "spin_reachable s" and "l_fault s = Some e"
  shows "e = Bugcheck ''spinlock timeout'' \<or> e = Bugcheck ''spinlock overflow'' \<or>
    (e = AssertFailed \<and> card {t. owns_s (l_pc s t)} = 64)"
proof -
  have "spin_inv s" and "benign e \<or> (e = AssertFailed \<and> l_state s = s_limit)"
    using spin_reachable_inv [OF assms(1)] assms(2) by auto
  then show ?thesis using limits by (auto simp: benign_def spin_inv_def ss_of_def split: if_splits)
qed

lemma many_sharers:
  "n \<le> 64 \<Longrightarrow> spin_reachable \<lparr>l_state = of_nat n, l_pc = (\<lambda>t. if t < n then Holding SHARED else Idle), l_fault = None\<rparr>"
proof (induction n)
  case 0
  then show ?case using spin_reachable.init by (simp add: spin_init_def)
next
  case (Suc n)
  let ?s = "\<lparr>l_state = of_nat n, l_pc = (\<lambda>t. if t < n then Holding SHARED else Idle), l_fault = None\<rparr>"
  let ?m = "\<lambda>pc v. moved n pc v ?s"
  have n: "unat (of_nat n :: dword) = n" using Suc.prems by (simp add: unat_of_nat)
  then have lim: "\<not> x_value \<le> of_nat n" "\<not> s_limit \<le> of_nat n"
    using Suc.prems limits by (auto simp: word_le_nat_alt)
  have "spin_step ?s (?m (TryLock SHARED None) (of_nat n))"
    using call_try_lock [of ?s n SHARED] by simp
  then have r: "spin_reachable (?m (TryLock SHARED None) (of_nat n))"
    using Suc by (metis Suc_leD spin_reachable.step)
  have "spin_step (?m (TryLock SHARED None) (of_nat n)) (?m (TryCas (of_nat n) None) (of_nat n))"
    using run [of "?m (TryLock SHARED None) (of_nat n)" n] lim by (simp add: try_lock_def spin_apply_def)
  then have r2: "spin_reachable (?m (TryCas (of_nat n) None) (of_nat n))" by (rule spin_reachable.step [OF r])
  have "spin_step (?m (TryCas (of_nat n) None) (of_nat n)) (?m (Holding SHARED) (of_nat n + 1))"
    using run [of "?m (TryCas (of_nat n) None) (of_nat n)" n] by (simp add: try_lock_cas_def lock_taken_def spin_apply_def)
  then have r3: "spin_reachable (?m (Holding SHARED) (of_nat n + 1))" by (rule spin_reachable.step [OF r2])
  have "?m (Holding SHARED) (of_nat n + 1) =
      \<lparr>l_state = of_nat (Suc n), l_pc = (\<lambda>t. if t < Suc n then Holding SHARED else Idle), l_fault = None\<rparr>"
    by (auto simp: fun_eq_iff)
  with r3 show ?case by (simp only:)
qed

theorem spin_lock_faults_witness:
  "\<exists>s e. spin_reachable s \<and> l_fault s = Some e \<and> e \<noteq> Bugcheck ''spinlock double unlock''"
proof -
  let ?s = "\<lparr>l_state = of_nat 64, l_pc = (\<lambda>t. if t < 64 then Holding SHARED else Idle), l_fault = None\<rparr>"
  let ?s1 = "moved 64 (TryLock SHARED None) (of_nat 64) ?s"
  have "spin_step ?s ?s1" using call_try_lock [of ?s 64 SHARED] by simp
  then have r: "spin_reachable ?s1" by (rule spin_reachable.step [OF many_sharers [OF order_refl]])
  have "spin_step ?s1 (?s1\<lparr>l_fault := Some (Bugcheck ''spinlock overflow'')\<rparr>)"
    using run [of ?s1 64] by (simp add: try_lock_def spin_apply_def x_value_def s_limit_def bugcheck_def)
  then have r: "spin_reachable (?s1\<lparr>l_fault := Some (Bugcheck ''spinlock overflow'')\<rparr>)"
    by (rule spin_reachable.step [OF r])
  show ?thesis using spin_lock_faults [OF r] r by (intro exI [of _ "?s1\<lparr>l_fault := Some (Bugcheck ''spinlock overflow'')\<rparr>"]) auto
qed

end
