(* ===== verification/Handle_Table.thy ===== *)
theory Handle_Table
  imports Kernel_Prelude
begin

text \<open>
  The handle table of a process (class \<open>handle_table\<close> of \<^verbatim>\<open>process/process.cpp\<close>): 2048 slots in four pages that are
  allocated on demand. An object is a number. Whether the kernel address space can provide page \<open>i\<close> is the argument \<open>mem i\<close>.
  \<open>close\<close> and \<open>clear\<close> return the objects whose reference they give up. The reader-writer lock around the
  operations is not repeated here. An access past the end of the array of pages is a stop of the model
  (\<open>out of bounds\<close>), since the code does not check it.
\<close>

section \<open>Model\<close>

type_synonym hpage = "nat \<Rightarrow> nat option"

record handle_table =
  h_count :: dword
  h_top :: dword
  h_table :: "nat \<Rightarrow> hpage option"

definition h_limit :: dword where "h_limit = 0x800"
definition avl_base :: dword where "avl_base = 4"
definition handle_of_page :: dword where "handle_of_page = 0x200"
definition table_pages :: nat where "table_pages = 4"

definition ht_new :: handle_table where
  "ht_new = \<lparr>h_count = 0, h_top = 0, h_table = (\<lambda>_. None)\<rparr>"

definition page_no :: "dword \<Rightarrow> nat" where "page_no index = unat (index div handle_of_page)"
definition slot_no :: "dword \<Rightarrow> nat" where "slot_no index = unat (index mod handle_of_page)"

definition need_page :: "(nat \<Rightarrow> bool) \<Rightarrow> nat \<Rightarrow> handle_table \<Rightarrow> (hpage \<times> handle_table) option" where
  "need_page mem i h = (case h_table h i of
     Some pg \<Rightarrow> Some (pg, h)
   | None \<Rightarrow> if mem i then Some (Map.empty, h\<lparr>h_table := (h_table h)(i \<mapsto> Map.empty)\<rparr>) else None)"

definition set_slot :: "dword \<Rightarrow> nat option \<Rightarrow> hpage \<Rightarrow> handle_table \<Rightarrow> handle_table" where
  "set_slot index v pg h = h\<lparr>h_table := (h_table h)(page_no index \<mapsto> pg(slot_no index := v))\<rparr>"

function put_loop :: "(nat \<Rightarrow> bool) \<Rightarrow> nat \<Rightarrow> dword \<Rightarrow> handle_table \<Rightarrow> dword \<times> handle_table" where
  "put_loop mem ptr index h =
     (if index < h_limit then
        (case need_page mem (page_no index) h of
           None \<Rightarrow> (0, h)
         | Some (pg, h) \<Rightarrow>
             if pg (slot_no index) \<noteq> None then put_loop mem ptr (index + 1) h
             else (index, (set_slot index (Some ptr) pg h)\<lparr>h_count := h_count h + 1, h_top := max (h_top h) (index + 1)\<rparr>))
      else (0, h))"
  by pat_completeness auto

lemma next_index: "index < h_limit \<Longrightarrow> unat (index + 1) = unat index + 1"
  by (simp add: h_limit_def word_less_nat_alt unat_word_ariths)

termination put_loop
  by (relation "measure (\<lambda>(mem, ptr, index, h). unat h_limit - unat index)")
    (auto simp: next_index word_less_nat_alt)

declare put_loop.simps [simp del]

definition ht_put :: "(nat \<Rightarrow> bool) \<Rightarrow> nat \<Rightarrow> handle_table \<Rightarrow> dword \<times> handle_table" where
  "ht_put mem ptr h = put_loop mem ptr (if h_count h * 4 > h_top h * 3 then max avl_base (h_top h) else avl_base) h"

definition ht_assign :: "(nat \<Rightarrow> bool) \<Rightarrow> dword \<Rightarrow> nat option \<Rightarrow> handle_table \<Rightarrow> bool \<times> nat option \<times> handle_table" where
  "ht_assign mem index ptr h =
     (if index \<ge> avl_base \<or> ptr = None then (False, None, h)
      else case need_page mem (page_no index) h of
        None \<Rightarrow> (False, None, h)
      | Some (pg, h) \<Rightarrow>
          let old = pg (slot_no index); h = set_slot index ptr pg h in
          (True, old, if old = None then h\<lparr>h_count := h_count h + 1\<rparr> else h))"

function close_scan :: "(nat \<Rightarrow> hpage option) \<Rightarrow> dword \<Rightarrow> dword res" where
  "close_scan tab index =
     (if index \<ge> avl_base then
        (if page_no index \<ge> table_pages then bugcheck ''out of bounds''
         else case tab (page_no index) of
           None \<Rightarrow> Inr index
         | Some pg \<Rightarrow> if pg (slot_no index) \<noteq> None then Inr index else close_scan tab (index - 1))
      else Inr index)"
  by pat_completeness auto

lemma prev_index: "avl_base \<le> index \<Longrightarrow> unat (index - 1) = unat index - 1 \<and> 0 < unat index"
proof -
  assume "avl_base \<le> index"
  then have u: "4 \<le> unat index" by (simp add: avl_base_def word_le_nat_alt)
  then have "index \<noteq> 0" by auto
  then show ?thesis using u by (simp add: unat_minus_one)
qed

termination close_scan
  by (relation "measure (\<lambda>(tab, index). unat index)") (auto dest: prev_index)

declare close_scan.simps [simp del]

definition ht_close :: "dword \<Rightarrow> handle_table \<Rightarrow> (nat option \<times> handle_table) res" where
  "ht_close index h =
     (if index \<ge> h_limit then Inr (None, h)
      else case h_table h (page_no index) of
        None \<Rightarrow> Inr (None, h)
      | Some pg \<Rightarrow> (case pg (slot_no index) of
            None \<Rightarrow> Inr (None, h)
          | Some ptr \<Rightarrow> kassert (h_count h \<noteq> 0)
              (let h = (set_slot index None pg h)\<lparr>h_count := h_count h - 1\<rparr> in
               if index + 1 \<ge> h_top h then
                 rbind (close_scan (h_table h) (index - 1)) (\<lambda>i. Inr (Some ptr, h\<lparr>h_top := i + 1\<rparr>))
               else Inr (Some ptr, h))))"

definition ht_lookup :: "handle_table \<Rightarrow> dword \<Rightarrow> nat option" where
  "ht_lookup h index =
     (if index \<ge> h_limit then None
      else case h_table h (page_no index) of None \<Rightarrow> None | Some pg \<Rightarrow> pg (slot_no index))"

text \<open>\<open>clear\<close> walks every page and every slot.\<close>

primrec clear_page :: "nat \<Rightarrow> hpage \<Rightarrow> dword \<Rightarrow> (nat list \<times> hpage \<times> dword) res" where
  "clear_page 0 pg cnt = Inr ([], pg, cnt)"
| "clear_page (Suc n) pg cnt = rbind (clear_page n pg cnt) (\<lambda>(ps, pg, cnt).
     case pg n of None \<Rightarrow> Inr (ps, pg, cnt)
     | Some p \<Rightarrow> kassert (cnt \<noteq> 0) (Inr (ps @ [p], pg(n := None), cnt - 1)))"

primrec clear_pages :: "nat \<Rightarrow> handle_table \<Rightarrow> (nat list \<times> handle_table) res" where
  "clear_pages 0 h = Inr ([], h)"
| "clear_pages (Suc n) h = rbind (clear_pages n h) (\<lambda>(ps, h).
     case h_table h n of None \<Rightarrow> Inr (ps, h)
     | Some pg \<Rightarrow> rbind (clear_page (unat handle_of_page) pg (h_count h)) (\<lambda>(qs, pg, cnt).
         Inr (ps @ qs, h\<lparr>h_table := (h_table h)(n \<mapsto> pg), h_count := cnt\<rparr>)))"

definition ht_clear :: "handle_table \<Rightarrow> (nat list \<times> handle_table) res" where
  "ht_clear h = rbind (clear_pages table_pages h) (\<lambda>(ps, h). kassert (h_count h = 0) (Inr (ps, h)))"

text \<open>The destructor; \<open>rel\<close> says which of the pages \<open>vm.release\<close> gives back.\<close>

definition ht_destroy :: "(nat \<Rightarrow> bool) \<Rightarrow> handle_table \<Rightarrow> unit res" where
  "ht_destroy rel h =
     (if h_count h \<noteq> 0 then bugcheck ''deleting non-empty handle_table''
      else if list_all (\<lambda>n. h_table h n = None \<or> rel n) [0..<table_pages] then Inr ()
      else bugcheck ''vm.release failed'')"

section \<open>Slots\<close>

definition slot :: "handle_table \<Rightarrow> nat \<Rightarrow> nat option" where
  "slot h i = (case h_table h (i div 512) of None \<Rightarrow> None | Some pg \<Rightarrow> pg (i mod 512))"

definition used :: "handle_table \<Rightarrow> nat set" where
  "used h = {i. i < 2048 \<and> slot h i \<noteq> None}"

definition ht_inv :: "handle_table \<Rightarrow> bool" where
  "ht_inv h \<longleftrightarrow> unat (h_count h) = card (used h) \<and> unat (h_top h) \<le> 2048 \<and>
     (\<forall>i<2048. 4 \<le> i \<and> slot h i \<noteq> None \<longrightarrow> i < unat (h_top h))"

lemma index_split: "page_no index = unat index div 512" "slot_no index = unat index mod 512"
  by (simp_all add: page_no_def slot_no_def handle_of_page_def unat_div_distrib unat_mod_distrib)

lemma table_limits: "unat h_limit = 2048" "unat avl_base = 4" "unat handle_of_page = 512"
  by (simp_all add: h_limit_def avl_base_def handle_of_page_def)

lemma lookup_slot: "ht_lookup h index = (if unat index < 2048 then slot h (unat index) else None)"
  by (auto simp: ht_lookup_def slot_def index_split word_le_nat_alt table_limits not_le split: option.splits)

lemma need_page_slot:
  assumes "need_page mem i h = Some (pg, h')"
  shows "slot h' j = slot h j" "h_table h' i = Some pg" "h_count h' = h_count h" "h_top h' = h_top h"
    "i = j div 512 \<Longrightarrow> pg (j mod 512) = slot h j"
  using assms by (auto simp: need_page_def slot_def split: option.splits if_splits)

lemma set_slot_slot:
  assumes "h_table h (page_no index) = Some pg"
  shows "slot (set_slot index v pg h) j = (if j = unat index then v else slot h j)"
proof (cases "j div 512 = unat index div 512")
  case True
  then have "j mod 512 = unat index mod 512 \<longleftrightarrow> j = unat index" by (metis div_mult_mod_eq)
  then show ?thesis using assms True by (simp add: slot_def set_slot_def index_split)
next
  case False
  then show ?thesis by (auto simp: slot_def set_slot_def index_split)
qed

lemma slot_fields [simp]: "slot (h\<lparr>h_count := c\<rparr>) = slot h" "slot (h\<lparr>h_top := t\<rparr>) = slot h"
  by (simp_all add: slot_def fun_eq_iff)

lemma finite_used [simp]: "finite (used h)"
  by (simp add: used_def)

lemma card_used: "card (used h) \<le> 2048"
proof -
  have "card (used h) \<le> card {..<2048::nat}" by (rule card_mono) (auto simp: used_def)
  then show ?thesis by simp
qed

section \<open>put\<close>

lemma put_loop_spec:
  assumes "put_loop mem ptr index h = (r, h')" "4 \<le> unat index"
  shows "(r = 0 \<and> slot h' = slot h \<and> h_count h' = h_count h \<and> h_top h' = h_top h \<and>
       ((\<exists>i<4. h_table h i = None \<and> \<not> mem i) \<or> (\<forall>j. unat index \<le> j \<and> j < 2048 \<longrightarrow> slot h j \<noteq> None))) \<or>
    (unat index \<le> unat r \<and> unat r < 2048 \<and> slot h (unat r) = None \<and>
       (\<forall>j. unat index \<le> j \<and> j < unat r \<longrightarrow> slot h j \<noteq> None) \<and> slot h' = (slot h)(unat r := Some ptr) \<and>
       h_count h' = h_count h + 1 \<and> h_top h' = max (h_top h) (r + 1))"
  using assms
proof (induction mem ptr index h arbitrary: r h' rule: put_loop.induct)
  case (1 mem ptr index h)
  show ?case
  proof (cases "index < h_limit")
    case False
    then have "r = 0" "h' = h" using 1(2) by (simp_all add: put_loop.simps [of mem ptr index h])
    moreover have "2048 \<le> unat index" using False by (simp add: word_less_nat_alt table_limits)
    ultimately show ?thesis by auto
  next
    case lim: True
    then have lt: "unat index < 2048" by (simp add: word_less_nat_alt table_limits)
    show ?thesis
    proof (cases "need_page mem (page_no index) h")
      case None
      then have "r = 0" "h' = h" using 1(2) lim by (simp_all add: put_loop.simps [of mem ptr index h])
      moreover have "h_table h (page_no index) = None" "\<not> mem (page_no index)"
        using None by (auto simp: need_page_def split: option.splits if_splits)
      moreover have "page_no index < 4" using lt by (simp add: index_split)
      ultimately show ?thesis by auto
    next
      case (Some x)
      obtain pg h1 where n: "need_page mem (page_no index) h = Some (pg, h1)" using Some by (cases x) auto
      note np = need_page_slot [OF n]
      have sl: "slot h1 = slot h" using np(1) by auto
      have pg: "pg (slot_no index) = slot h (unat index)" using np(5) [of "unat index"] by (simp add: index_split)
      show ?thesis
      proof (cases "pg (slot_no index)")
        case None
        then have r: "r = index" "h' = (set_slot index (Some ptr) pg h1)\<lparr>h_count := h_count h1 + 1, h_top := max (h_top h1) (index + 1)\<rparr>"
          using 1(2) lim n None by (auto simp: put_loop.simps [of mem ptr index h])
        have "slot h' = (slot h)(unat index := Some ptr)"
          unfolding r(2) using set_slot_slot [OF np(2)] sl by (auto simp: fun_eq_iff)
        then show ?thesis using r None pg lt np(3,4) by auto
      next
        case busy: (Some y)
        have rec: "put_loop mem ptr (index + 1) h1 = (r, h')"
          using 1(2) lim n busy by (simp add: put_loop.simps [of mem ptr index h])
        have u: "unat (index + 1) = unat index + 1" by (rule next_index [OF lim])
        have tab: "h_table h1 i = None \<Longrightarrow> h_table h i = None" for i
          using n by (auto simp: need_page_def split: option.splits if_splits)
        have le: "unat index \<le> j \<longleftrightarrow> j = unat index \<or> unat (index + 1) \<le> j" for j using u by auto
        have "4 \<le> unat (index + 1)" using 1(3) u by simp
        from 1(1) [OF lim n refl _ rec this] busy show ?thesis
          unfolding sl np(3,4) using pg busy tab u by (auto simp: le)
      qed
    qed
  qed
qed

lemma used_upd:
  assumes "slot h' = (slot h)(i := v)" "i < 2048"
  shows "used h' = (if v = None then used h - {i} else insert i (used h))"
  using assms by (auto simp: used_def)

lemma inv_bounds: "ht_inv h \<Longrightarrow> unat (h_count h) \<le> 2048"
  using card_used [of h] by (simp add: ht_inv_def)

lemma count_inc: "ht_inv h \<Longrightarrow> unat (h_count h + 1) = unat (h_count h) + 1"
  using inv_bounds [of h] by (simp add: unat_word_ariths)

lemma ht_put_cases:
  assumes inv: "ht_inv h" and r: "ht_put mem ptr h = (r, h')"
  shows "ht_inv h' \<and>
    ((r = 0 \<and> slot h' = slot h \<and>
       ((\<exists>i<4. h_table h i = None \<and> \<not> mem i) \<or> (\<forall>j. max 4 (unat (h_top h)) \<le> j \<and> j < 2048 \<longrightarrow> slot h j \<noteq> None))) \<or>
     (4 \<le> unat r \<and> unat r < 2048 \<and> slot h (unat r) = None \<and> slot h' = (slot h)(unat r := Some ptr)))"
proof -
  define start where "start = (if h_count h * 4 > h_top h * 3 then max avl_base (h_top h) else avl_base)"
  have lo: "4 \<le> unat start" "unat start \<le> max 4 (unat (h_top h))"
    by (auto simp: start_def max_def table_limits word_le_nat_alt)
  have p: "put_loop mem ptr start h = (r, h')" using r by (simp add: ht_put_def start_def)
  from put_loop_spec [OF p lo(1)] show ?thesis
  proof
    assume a: "r = 0 \<and> slot h' = slot h \<and> h_count h' = h_count h \<and> h_top h' = h_top h \<and>
       ((\<exists>i<4. h_table h i = None \<and> \<not> mem i) \<or> (\<forall>j. unat start \<le> j \<and> j < 2048 \<longrightarrow> slot h j \<noteq> None))"
    then have "ht_inv h'" using inv by (simp add: ht_inv_def used_def)
    then show ?thesis using a lo(2) by (meson order_trans)
  next
    assume a: "unat start \<le> unat r \<and> unat r < 2048 \<and> slot h (unat r) = None \<and>
       (\<forall>j. unat start \<le> j \<and> j < unat r \<longrightarrow> slot h j \<noteq> None) \<and> slot h' = (slot h)(unat r := Some ptr) \<and>
       h_count h' = h_count h + 1 \<and> h_top h' = max (h_top h) (r + 1)"
    then have u: "used h' = insert (unat r) (used h)" "unat r \<notin> used h" using used_upd [of h' h "unat r"] by (auto simp: used_def)
    have r1: "unat (r + 1) = unat r + 1" using a by (simp add: unat_word_ariths)
    have "unat (h_count h') = card (used h')" using a u inv count_inc [OF inv] by (simp add: ht_inv_def)
    moreover have "unat (h_top h') = max (unat (h_top h)) (unat r + 1)" using a r1 by (simp add: max_def word_le_nat_alt)
    ultimately have "ht_inv h'" using inv a by (auto simp: ht_inv_def max_def split: if_splits)
    then show ?thesis using a lo(1) by auto
  qed
qed

section \<open>close\<close>

lemma close_scan_ok:
  assumes "unat index < 2048"
  shows "\<exists>i. close_scan (h_table h) index = Inr i \<and> unat i \<le> unat index \<and> (4 \<le> unat index \<longrightarrow> 3 \<le> unat i) \<and>
    (\<forall>j. unat i < j \<and> j \<le> unat index \<longrightarrow> slot h j = None) \<and> (unat index < 4 \<longrightarrow> i = index)"
  using assms
proof (induction "unat index" arbitrary: index rule: less_induct)
  case less
  show ?case
  proof (cases "index \<ge> avl_base")
    case False
    then show ?thesis by (auto simp: close_scan.simps [of _ index] word_le_nat_alt table_limits)
  next
    case True
    then have lo: "4 \<le> unat index" by (simp add: word_le_nat_alt table_limits)
    have pn: "\<not> page_no index \<ge> table_pages" using less.prems by (simp add: index_split table_pages_def)
    have sl: "slot h (unat index) = (case h_table h (page_no index) of None \<Rightarrow> None | Some pg \<Rightarrow> pg (slot_no index))"
      unfolding slot_def index_split ..
    show ?thesis
    proof (cases "\<exists>pg. h_table h (page_no index) = Some pg \<and> pg (slot_no index) = None")
      case False
      then have "close_scan (h_table h) index = Inr index"
        using True pn by (auto simp: close_scan.simps [of _ index] split: option.splits)
      then show ?thesis using lo by auto
    next
      case free: True
      have dec: "unat (index - 1) = unat index - 1" using prev_index [OF True] by simp
      then have s: "unat (index - 1) < unat index" "unat (index - 1) < 2048" using lo less.prems by simp_all
      from less.hyps [OF s] obtain i where i: "close_scan (h_table h) (index - 1) = Inr i" "unat i \<le> unat (index - 1)"
        "4 \<le> unat (index - 1) \<longrightarrow> 3 \<le> unat i" "\<forall>j. unat i < j \<and> j \<le> unat (index - 1) \<longrightarrow> slot h j = None"
        "unat (index - 1) < 4 \<longrightarrow> i = index - 1" by blast
      have eq: "close_scan (h_table h) index = Inr i"
        using True pn free i(1) by (auto simp: close_scan.simps [of _ index])
      have "slot h j = None" if "unat i < j" "j \<le> unat index" for j
      proof (cases "j = unat index")
        case True
        then show ?thesis using free sl by auto
      next
        case False
        then show ?thesis using that i(4) dec by auto
      qed
      moreover have "3 \<le> unat i" using i(3,5) dec lo by (cases "4 \<le> unat index - 1") auto
      ultimately show ?thesis using eq i(2) dec lo by auto
    qed
  qed
qed

lemma ht_close_spec:
  assumes inv: "ht_inv h" and ok: "index \<noteq> 0 \<or> 1 < unat (h_top h) \<or> slot h 0 = None"
  shows "\<exists>h'. ht_close index h = Inr (ht_lookup h index, h') \<and> ht_inv h' \<and>
    slot h' = (if unat index < 2048 then (slot h)(unat index := None) else slot h)"
proof (cases "ht_lookup h index")
  case None
  then have "ht_close index h = Inr (None, h)" by (auto simp: ht_close_def ht_lookup_def split: option.splits if_splits)
  moreover have "(if unat index < 2048 then (slot h)(unat index := None) else slot h) = slot h"
    using None by (auto simp: lookup_slot fun_eq_iff split: if_splits)
  ultimately show ?thesis using inv None by auto
next
  case (Some ptr)
  have lt: "unat index < 2048" "slot h (unat index) = Some ptr" using Some by (auto simp: lookup_slot split: if_splits)
  obtain pg where pg: "h_table h (page_no index) = Some pg" "pg (slot_no index) = Some ptr"
    using Some by (auto simp: ht_lookup_def split: option.splits if_splits)
  define h1 where "h1 = (set_slot index None pg h)\<lparr>h_count := h_count h - 1\<rparr>"
  have sl: "slot h1 = (slot h)(unat index := None)" using set_slot_slot [OF pg(1)] by (auto simp: h1_def fun_eq_iff)
  have us: "used h1 = used h - {unat index}" "unat index \<in> used h" using used_upd [OF sl lt(1)] lt by (simp_all add: used_def)
  have "0 < card (used h)" using us(2) by (auto simp: card_gt_0_iff)
  then have ne: "h_count h \<noteq> 0" using inv by (auto simp: ht_inv_def)
  have cnt: "unat (h_count h1) = card (used h1)" using us inv ne by (simp add: h1_def ht_inv_def unat_minus_one)
  have top: "h_top h1 = h_top h" by (simp add: h1_def set_slot_def)
  have ge: "index < h_limit" using lt(1) by (simp add: word_less_nat_alt table_limits)
  have i1: "unat (index + 1) = unat index + 1" using next_index [OF ge] .
  have eq: "ht_close index h = (if index + 1 \<ge> h_top h then rbind (close_scan (h_table h1) (index - 1)) (\<lambda>i. Inr (Some ptr, h1\<lparr>h_top := i + 1\<rparr>))
      else Inr (Some ptr, h1))"
    using ge [folded not_le] pg ne top unfolding ht_close_def by (simp add: h1_def Let_def)
  show ?thesis
  proof (cases "index + 1 \<ge> h_top h")
    case False
    have "ht_inv h1" using inv cnt top sl by (auto simp: ht_inv_def)
    then show ?thesis using eq False Some sl lt(1) by auto
  next
    case True
    have tp: "unat (h_top h) \<le> unat index + 1" using True i1 by (simp add: word_le_nat_alt)
    have "index \<noteq> 0" using ok tp lt by auto
    then have d: "unat (index - 1) = unat index - 1" "0 < unat index" by (simp_all add: unat_minus_one unat_gt_0)
    then have "unat (index - 1) < 2048" using lt by simp
    from close_scan_ok [OF this, of h1] obtain i where i: "close_scan (h_table h1) (index - 1) = Inr i" "unat i \<le> unat (index - 1)"
      "\<forall>j. unat i < j \<and> j \<le> unat (index - 1) \<longrightarrow> slot h1 j = None" by blast
    have u: "unat (i + 1) = unat i + 1" using i(2) d lt by (simp add: unat_word_ariths)
    have "j < unat (i + 1)" if "j < 2048" "4 \<le> j" "slot h1 j \<noteq> None" for j
    proof (rule ccontr)
      assume "\<not> j < unat (i + 1)"
      then have ij: "unat i < j" using u by simp
      have nj: "j \<noteq> unat index" using that(3) sl by auto
      have "slot h j \<noteq> None" using that(3) sl nj by simp
      then have "j < unat (h_top h)" using inv that(1,2) unfolding ht_inv_def by blast
      then have "j \<le> unat (index - 1)" using tp d nj by simp
      with ij i(3) have "slot h1 j = None" by simp
      then show False using that(3) by simp
    qed
    then have "ht_inv (h1\<lparr>h_top := i + 1\<rparr>)" using cnt u i(2) d lt by (simp add: ht_inv_def used_def)
    then show ?thesis using eq True i(1) Some sl lt(1) by auto
  qed
qed

section \<open>clear\<close>

lemma clear_page_ok:
  assumes "unat cnt = card {i. i < n \<and> pg i \<noteq> None} + rest"
  shows "\<exists>ps cnt'. clear_page n pg cnt = Inr (ps, (\<lambda>i. if i < n then None else pg i), cnt') \<and> unat cnt' = rest \<and>
    ps = List.map_filter pg [0..<n]"
  using assms
proof (induction n arbitrary: rest)
  case (Suc n)
  have fin: "finite {i. i < n \<and> pg i \<noteq> None}" by simp
  have split: "{i. i < Suc n \<and> pg i \<noteq> None} = (if pg n \<noteq> None then insert n {i. i < n \<and> pg i \<noteq> None} else {i. i < n \<and> pg i \<noteq> None})"
    by (auto simp: less_Suc_eq)
  define k where "k = (if pg n \<noteq> None then 1 else 0 :: nat)"
  have "unat cnt = card {i. i < n \<and> pg i \<noteq> None} + (rest + k)" using Suc.prems fin unfolding split k_def by (cases "pg n = None") simp_all
  from Suc.IH [OF this] obtain ps cnt' where c: "clear_page n pg cnt = Inr (ps, (\<lambda>i. if i < n then None else pg i), cnt')"
    "unat cnt' = rest + k" "ps = List.map_filter pg [0..<n]" by blast
  show ?case
  proof (cases "pg n")
    case None
    then have "(\<lambda>i. if i < n then None else pg i) = (\<lambda>i. if i < Suc n then None else pg i)" by (auto simp: fun_eq_iff less_Suc_eq)
    then show ?thesis using c None by (simp add: k_def map_filter_def)
  next
    case (Some p)
    have c0: "cnt' \<noteq> 0" using c(2) Some by (auto simp: k_def)
    then have "unat (cnt' - 1) = rest" using c(2) Some by (simp add: k_def unat_minus_one)
    moreover have "(\<lambda>i. if i < n then None else pg i)(n := None) = (\<lambda>i. if i < Suc n then None else pg i)" by (auto simp: fun_eq_iff less_Suc_eq)
    ultimately show ?thesis using c(1,3) c0 Some by (simp add: map_filter_def)
  qed
qed simp

lemma range_split: "[0..<Suc n * 512] = [0..<n * 512] @ map (\<lambda>j. n * 512 + j) [0..<512]"
proof -
  have "[0..<n * 512 + 512] = [0..<n * 512] @ [n * 512..<n * 512 + 512]" by (rule upt_add_eq_append) simp
  moreover have "[n * 512..<n * 512 + 512] = map (\<lambda>j. j + n * 512) [0..<512]" by (simp only: map_add_upt add.commute)
  ultimately show ?thesis by (simp add: add.commute)
qed

lemma card_range_split:
  "card {i. i < Suc n * 512 \<and> P i} = card {i. i < n * 512 \<and> P i} + card {j. j < (512::nat) \<and> P (n * 512 + j)}"
proof -
  have "{i. i < Suc n * 512 \<and> P i} = {i. i < n * 512 \<and> P i} \<union> (\<lambda>j. n * 512 + j) ` {j. j < 512 \<and> P (n * 512 + j)}"
  proof (intro equalityI subsetI)
    fix i assume i: "i \<in> {i. i < Suc n * 512 \<and> P i}"
    show "i \<in> {i. i < n * 512 \<and> P i} \<union> (\<lambda>j. n * 512 + j) ` {j. j < 512 \<and> P (n * 512 + j)}"
    proof (cases "i < n * 512")
      case False
      then have "i = n * 512 + (i - n * 512)" "i - n * 512 < 512" using i by auto
      then show ?thesis using i by (metis (mono_tags, lifting) UnI2 image_eqI mem_Collect_eq)
    qed (use i in simp)
  qed auto
  moreover have "card ((\<lambda>j. n * 512 + j) ` {j. j < 512 \<and> P (n * 512 + j)}) = card {j. j < 512 \<and> P (n * 512 + j)}"
    by (rule card_image) (simp add: inj_on_def)
  moreover have "{i. i < n * 512 \<and> P i} \<inter> (\<lambda>j. n * 512 + j) ` {j. j < 512 \<and> P (n * 512 + j)} = {}" by auto
  ultimately show ?thesis using card_Un_disjoint [of "{i. i < n * 512 \<and> P i}" "(\<lambda>j. n * 512 + j) ` {j. j < 512 \<and> P (n * 512 + j)}"]
    by simp
qed

lemma map_filter_append_map: "List.map_filter f (xs @ map g ys) = List.map_filter f xs @ List.map_filter (\<lambda>j. f (g j)) ys"
  by (simp add: map_filter_def filter_map comp_def)

lemma map_filter_none: "\<forall>x\<in>set xs. f x = None \<Longrightarrow> List.map_filter f xs = []"
  by (simp add: map_filter_def)

lemma map_filter_eq: "\<forall>x\<in>set xs. f x = g x \<Longrightarrow> List.map_filter f xs = List.map_filter g xs"
  by (induction xs) (auto simp: map_filter_simps split: option.splits)

declare upt_rec_numeral [simp del]


lemma slot_page: "j < 512 \<Longrightarrow> slot h (n * 512 + j) = (case h_table h n of None \<Rightarrow> None | Some pg \<Rightarrow> pg j)"
  by (cases "h_table h n") (simp_all add: slot_def)

lemma clear_pages_ok:
  assumes "unat (h_count h) = card {i. i < n * 512 \<and> slot h i \<noteq> None} + rest"
  shows "\<exists>ps h'. clear_pages n h = Inr (ps, h') \<and> slot h' = (\<lambda>i. if i < n * 512 then None else slot h i) \<and> unat (h_count h') = rest \<and>
    h_top h' = h_top h \<and> ps = List.map_filter (slot h) [0..<n * 512]"
  using assms
proof (induction n arbitrary: rest)
  case (Suc n)
  let ?k = "card {j. j < 512 \<and> slot h (n * 512 + j) \<noteq> None}"
  have "unat (h_count h) = card {i. i < n * 512 \<and> slot h i \<noteq> None} + (?k + rest)"
    using Suc.prems unfolding card_range_split by simp
  from Suc.IH [OF this] obtain ps h1 where c: "clear_pages n h = Inr (ps, h1)" "slot h1 = (\<lambda>i. if i < n * 512 then None else slot h i)"
    "unat (h_count h1) = ?k + rest" "h_top h1 = h_top h" "ps = List.map_filter (slot h) [0..<n * 512]" by blast
  have pg: "slot h (n * 512 + j) = (case h_table h1 n of None \<Rightarrow> None | Some pg \<Rightarrow> pg j)" if "j < 512" for j
    using slot_page [OF that, of h1 n] c(2) by simp
  have mf: "List.map_filter (slot h) [0..<Suc n * 512] = ps @ List.map_filter (\<lambda>j. slot h (n * 512 + j)) [0..<512]"
    unfolding range_split c(5) by (rule map_filter_append_map)
  show ?case
  proof (cases "h_table h1 n")
    case None
    then have no: "slot h (n * 512 + j) = None" if "j < 512" for j using pg [OF that] by simp
    have e: "{j. j < 512 \<and> slot h (n * 512 + j) \<noteq> None} = {}" by (simp add: no cong: conj_cong)
    have "List.map_filter (\<lambda>j. slot h (n * 512 + j)) [0..<512] = []" by (rule map_filter_none, unfold set_upt, rule ballI, rule no) (simp only: atLeastLessThan_iff)
    moreover have "slot h1 = (\<lambda>i. if i < Suc n * 512 then None else slot h i)"
    proof
      fix i
      show "slot h1 i = (if i < Suc n * 512 then None else slot h i)"
        using no [of "i - n * 512"] c(2) by (cases "i < n * 512") auto
    qed
    ultimately show ?thesis using c(1,3,4) None mf e by simp
  next
    case (Some pp)
    have pj: "slot h (n * 512 + j) = pp j" if "j < 512" for j using pg [OF that] Some by simp
    have "{j. j < 512 \<and> slot h (n * 512 + j) \<noteq> None} = {j. j < 512 \<and> pp j \<noteq> None}" by (simp add: pj cong: conj_cong)
    then have "unat (h_count h1) = card {i. i < 512 \<and> pp i \<noteq> None} + rest" using c(3) by simp
    from clear_page_ok [OF this] obtain qs cnt' where q: "clear_page 512 pp (h_count h1) = Inr (qs, (\<lambda>i. if i < 512 then None else pp i), cnt')"
      "unat cnt' = rest" "qs = List.map_filter pp [0..<512]" by blast
    let ?h = "h1\<lparr>h_table := (h_table h1)(n \<mapsto> (\<lambda>i. if i < 512 then None else pp i)), h_count := cnt'\<rparr>"
    have "slot ?h i = (if i < Suc n * 512 then None else slot h i)" for i
    proof (cases "i div 512 = n")
      case True
      then have "i < Suc n * 512" by (metis div_less_iff_less_mult lessI mult.commute zero_less_numeral)
      then show ?thesis using True by (simp add: slot_def)
    next
      case False
      then have "slot ?h i = slot h1 i" by (simp add: slot_def)
      moreover have "i < Suc n * 512 \<longleftrightarrow> i < n * 512" using False by (auto simp: div_nat_eqI)
      ultimately show ?thesis using c(2) by simp
    qed
    moreover have "List.map_filter (\<lambda>j. slot h (n * 512 + j)) [0..<512] = qs"
      unfolding q(3) by (rule map_filter_eq, unfold set_upt, rule ballI, rule pj) (simp only: atLeastLessThan_iff)
    ultimately show ?thesis using c(1,4) q(1,2) Some mf table_limits(3) by (auto simp: fun_eq_iff)
  qed
qed (simp add: map_filter_def)

section \<open>Properties\<close>

lemma ht_new_inv: "ht_inv ht_new"
proof -
  have "used ht_new = {}" by (simp add: used_def slot_def ht_new_def)
  then show ?thesis by (simp add: ht_inv_def slot_def ht_new_def)
qed

text \<open>\<open>put\<close> returns 0 and changes no handle, or a handle from 4 on that was free and now stands for the object, while every other handle
  keeps its meaning. It returns 0 only if a page could not be allocated or every slot from \<open>top\<close> to the limit is taken. The count of
  handles stays exact.\<close>

theorem handle_put_fresh:
  assumes inv: "ht_inv h" and r: "ht_put mem ptr h = (r, h')"
  shows "ht_inv h' \<and>
    (if r = 0 then (\<forall>i. ht_lookup h' i = ht_lookup h i) \<and>
       ((\<exists>i<4. h_table h i = None \<and> \<not> mem i) \<or> (\<forall>i. avl_base \<le> i \<and> h_top h \<le> i \<and> i < h_limit \<longrightarrow> ht_lookup h i \<noteq> None))
     else avl_base \<le> r \<and> r < h_limit \<and> ht_lookup h r = None \<and>
       (\<forall>i. ht_lookup h' i = (if i = r then Some ptr else ht_lookup h i)))"
proof (cases "r = 0")
  case True
  then have c: "ht_inv h'" "slot h' = slot h"
    "(\<exists>i<4. h_table h i = None \<and> \<not> mem i) \<or> (\<forall>j. max 4 (unat (h_top h)) \<le> j \<and> j < 2048 \<longrightarrow> slot h j \<noteq> None)"
    using ht_put_cases [OF inv r] by auto
  then show ?thesis using True by (auto simp: lookup_slot word_le_nat_alt word_less_nat_alt table_limits)
next
  case False
  have c: "ht_inv h'" "4 \<le> unat r" "unat r < 2048" "slot h (unat r) = None" "slot h' = (slot h)(unat r := Some ptr)"
    using ht_put_cases [OF inv r] False by auto
  then show ?thesis using False by (auto simp: lookup_slot word_le_nat_alt word_less_nat_alt table_limits word_unat_eq_iff)
qed

theorem handle_put_fresh_witness:
  "fst (ht_put (\<lambda>_. True) 77 ht_new) = 4 \<and> ht_lookup (snd (ht_put (\<lambda>_. True) 77 ht_new)) 4 = Some 77"
proof -
  have p: "fst (ht_put (\<lambda>_. True) 77 ht_new) = 4"
    by (simp add: ht_put_def ht_new_def put_loop.simps need_page_def avl_base_def h_limit_def)
  obtain r h' where r: "ht_put (\<lambda>_. True) 77 ht_new = (r, h')" by (cases "ht_put (\<lambda>_. True) 77 ht_new")
  show ?thesis using handle_put_fresh [OF ht_new_inv r] p r by simp
qed

text \<open>\<open>close\<close> gives up exactly the object of the handle, and only that handle becomes free; a handle that is out of range or free changes
  nothing. The count stays exact and \<open>top\<close> stays above every used handle. Handle 0 needs more than one
  handle below \<open>top\<close> (the service layer refuses it).\<close>

theorem handle_close_frees:
  assumes "ht_inv h" and "index \<noteq> 0 \<or> 1 < h_top h \<or> ht_lookup h 0 = None"
  shows "\<exists>h'. ht_close index h = Inr (ht_lookup h index, h') \<and> ht_inv h' \<and>
    (\<forall>i. ht_lookup h' i = (if i = index then None else ht_lookup h i))"
proof -
  have "index \<noteq> 0 \<or> 1 < unat (h_top h) \<or> slot h 0 = None"
    using assms(2) by (auto simp: lookup_slot word_less_nat_alt)
  from ht_close_spec [OF assms(1) this] obtain h' where "ht_close index h = Inr (ht_lookup h index, h')" "ht_inv h'"
    "slot h' = (if unat index < 2048 then (slot h)(unat index := None) else slot h)" by blast
  then show ?thesis by (auto simp: lookup_slot word_unat_eq_iff)
qed

theorem handle_close_frees_witness:
  "\<exists>h'. ht_close 9 ht_new = Inr (None, h') \<and> ht_inv h'"
proof -
  have "ht_lookup ht_new 9 = None" by (simp add: ht_lookup_def ht_new_def)
  then show ?thesis using handle_close_frees [OF ht_new_inv, of 9] by auto
qed

lemma handle_clear:
  assumes inv: "ht_inv h"
  shows "\<exists>h'. ht_clear h = Inr (List.map_filter (slot h) [0..<2048], h') \<and> h_count h' = 0 \<and> (\<forall>i. ht_lookup h' i = None) \<and> ht_inv h'"
proof -
  have "unat (h_count h) = card {i. i < table_pages * 512 \<and> slot h i \<noteq> None} + 0"
    using inv by (simp add: ht_inv_def used_def table_pages_def)
  from clear_pages_ok [OF this] obtain h' where h': "clear_pages table_pages h = Inr (List.map_filter (slot h) [0..<table_pages * 512], h')"
    "slot h' = (\<lambda>i. if i < table_pages * 512 then None else slot h i)" "unat (h_count h') = 0" "h_top h' = h_top h" by blast
  have z: "h_count h' = 0" using h'(3) by (simp add: unat_eq_0)
  have none: "slot h' i = None" if "i < 2048" for i using h'(2) that by (simp add: table_pages_def)
  then have "used h' = {}" by (auto simp: used_def)
  then have "ht_inv h'" using inv z none h'(4) by (auto simp: ht_inv_def)
  moreover have "\<forall>i. ht_lookup h' i = None" using none by (simp add: lookup_slot)
  moreover have tp: "table_pages * 512 = 2048" by (simp add: table_pages_def)
  have "ht_clear h = Inr (List.map_filter (slot h) [0..<table_pages * 512], h')" using h'(1) z by (simp add: ht_clear_def)
  ultimately show ?thesis using z unfolding tp by blast
qed

lemma cleared_table_is_deletable:
  assumes "ht_inv h" "\<And>n. rel n"
  shows "\<exists>objs h'. ht_clear h = Inr (objs, h') \<and> ht_destroy rel h' = Inr ()"
proof -
  obtain objs h' where h': "ht_clear h = Inr (objs, h')" "h_count h' = 0" using handle_clear [OF assms(1)] by blast
  moreover have "ht_destroy rel h' = Inr ()" using h'(2) assms(2) by (simp add: ht_destroy_def list_all_iff)
  ultimately show ?thesis by blast
qed

text \<open>\<open>clear\<close> gives up the object of every handle, in order and once per handle, and leaves no handle.\<close>

theorem handle_clear_releases_all:
  assumes "ht_inv h"
  shows "\<exists>h'. ht_clear h = Inr (List.map_filter (slot h) [0..<2048], h') \<and> h_count h' = 0 \<and> (\<forall>i. ht_lookup h' i = None) \<and> ht_inv h'"
  using assms by (rule handle_clear)

theorem handle_clear_releases_all_witness:
  "\<exists>h'. ht_clear ht_new = Inr (List.map_filter (slot ht_new) [0..<2048], h') \<and> h_count h' = 0"
  using handle_clear_releases_all [OF ht_new_inv] by blast

end
