(* ===== verification/Thread_Queue.thy ===== *)
theory Thread_Queue
  imports Kernel_Prelude Timer
begin

text \<open>
  Thread control blocks and the intrusive queues that link them (\<^verbatim>\<open>process/include/thread.hpp\<close>,
  \<open>struct thread_queue\<close> of \<^verbatim>\<open>process/waitable.cpp\<close>). A thread is its id; the field \<open>next\<close> of all
  threads is the map \<open>k_next\<close>, so that linking a queue touches nothing else of the state. A queue is a head and a tail
  pointer: one per waitable object, one per priority of the scheduler, one of the collector. The representation predicate
  \<open>rep\<close> says which list of threads each queue stands for, and the operations are shown to be those of a FIFO queue.
\<close>

section \<open>Threads, queues and the state of the core\<close>

datatype tstate = READY | RUNNING | WAITING | STOPPED
datatype reason = NONE | PASSED | NOTIFY | TIMEOUT | ABANDON

text \<open>A waitable object is a thread or one of the other objects.\<close>

datatype oid = Thr nat | Obj nat
datatype qid = WaitQ oid | ReadyQ nat | GcQ

record tcb =
  t_state :: tstate
  t_critical :: bool
  t_kill :: bool
  t_priority :: nat
  t_reason :: reason
  t_slice :: nat
  t_wait_for :: "oid option"
  t_ticket :: qword

record tqueue =
  q_head :: "nat option"
  q_tail :: "nat option"

record kernel =
  k_tcb :: "nat \<Rightarrow> tcb"
  k_next :: "nat \<Rightarrow> nat option"
  k_q :: "qid \<Rightarrow> tqueue"
  k_ids :: nat
  k_cur :: nat
  k_gc_ptr :: "nat option"
  k_th_gc :: nat
  k_timer :: basic_timer

section \<open>thread\_queue\<close>

definition tq_empty :: "qid \<Rightarrow> kernel \<Rightarrow> bool res" where
  "tq_empty q s = (let Q = k_q s q in
     if q_head Q \<noteq> None then kassert (q_tail Q \<noteq> None) (Inr False) else kassert (q_tail Q = None) (Inr True))"

definition tq_put :: "qid \<Rightarrow> nat \<Rightarrow> kernel \<Rightarrow> kernel res" where
  "tq_put q th s =
     (let n = (k_next s)(th := None); Q = k_q s q in
      case q_tail Q of
        Some lt \<Rightarrow> kassert (q_head Q \<noteq> None \<and> n lt = None)
          (Inr (s\<lparr>k_next := n(lt := Some th), k_q := (k_q s)(q := Q\<lparr>q_tail := Some th\<rparr>)\<rparr>))
      | None \<Rightarrow> kassert (q_head Q = None)
          (Inr (s\<lparr>k_next := n, k_q := (k_q s)(q := \<lparr>q_head = Some th, q_tail = Some th\<rparr>)\<rparr>)))"

definition tq_get :: "qid \<Rightarrow> kernel \<Rightarrow> (nat option \<times> kernel) res" where
  "tq_get q s =
     (let Q = k_q s q in
      case q_head Q of
        Some th \<Rightarrow> kassert (q_tail Q \<noteq> None)
          (let nx = k_next s th in
           kassert (nx \<noteq> None \<or> q_head Q = q_tail Q)
             (Inr (Some th, s\<lparr>k_next := (k_next s)(th := None),
                k_q := (k_q s)(q := \<lparr>q_head = nx, q_tail = (if nx = None then None else q_tail Q)\<rparr>)\<rparr>)))
      | None \<Rightarrow> kassert (q_tail Q = None) (Inr (None, s)))"

definition tq_clear :: "qid \<Rightarrow> kernel \<Rightarrow> kernel" where
  "tq_clear q s = s\<lparr>k_q := (k_q s)(q := \<lparr>q_head = None, q_tail = None\<rparr>)\<rparr>"

text \<open>\<open>waitable::cancel\<close> takes a thread out of the middle of the queue; the search is bounded by the number of threads.\<close>

primrec cancel_find :: "nat \<Rightarrow> (nat \<Rightarrow> nat option) \<Rightarrow> nat \<Rightarrow> nat option \<Rightarrow> nat option res" where
  "cancel_find 0 nx th prev = Inl OutOfFuel"
| "cancel_find (Suc n) nx th prev = (case prev of None \<Rightarrow> Inr None
     | Some p \<Rightarrow> if nx p = Some th then Inr (Some p) else cancel_find n nx th (nx p))"

definition waitable_cancel :: "oid \<Rightarrow> nat \<Rightarrow> kernel \<Rightarrow> kernel res" where
  "waitable_cancel ob th s =
     (let q = WaitQ ob; Q = k_q s q in
      if q_head Q = Some th then rbind (tq_get q s) (\<lambda>(_, s). Inr s)
      else rbind (cancel_find (Suc (k_ids s)) (k_next s) th (q_head Q)) (\<lambda>prev.
        case prev of None \<Rightarrow> bugcheck ''wait_queue corrupted''
        | Some p \<Rightarrow> (case k_next s th of
              Some nx \<Rightarrow> Inr (s\<lparr>k_next := (k_next s)(p := Some nx)\<rparr>)
            | None \<Rightarrow> kassert (q_tail Q = Some th)
                (Inr (s\<lparr>k_next := (k_next s)(p := None), k_q := (k_q s)(q := Q\<lparr>q_tail := Some p\<rparr>)\<rparr>)))))"

section \<open>The lists the queues stand for\<close>

fun chain :: "(nat \<Rightarrow> nat option) \<Rightarrow> nat list \<Rightarrow> bool" where
  "chain n [] = True"
| "chain n [t] = (n t = None)"
| "chain n (t # u # ts) = (n t = Some u \<and> chain n (u # ts))"

definition hd_opt :: "'a list \<Rightarrow> 'a option" where
  "hd_opt xs = (if xs = [] then None else Some (hd xs))"

definition last_opt :: "'a list \<Rightarrow> 'a option" where
  "last_opt xs = (if xs = [] then None else Some (last xs))"

definition is_queue :: "(nat \<Rightarrow> nat option) \<Rightarrow> tqueue \<Rightarrow> nat list \<Rightarrow> bool" where
  "is_queue n Q xs \<longleftrightarrow> q_head Q = hd_opt xs \<and> q_tail Q = last_opt xs \<and> chain n xs"

definition separate :: "(qid \<Rightarrow> nat list) \<Rightarrow> bool" where
  "separate L \<longleftrightarrow> (\<forall>q. distinct (L q)) \<and> (\<forall>q q'. q \<noteq> q' \<longrightarrow> set (L q) \<inter> set (L q') = {})"

definition rep :: "kernel \<Rightarrow> (qid \<Rightarrow> nat list) \<Rightarrow> bool" where
  "rep s L \<longleftrightarrow> (\<forall>q. is_queue (k_next s) (k_q s q) (L q)) \<and> separate L"

definition queued :: "(qid \<Rightarrow> nat list) \<Rightarrow> nat set" where
  "queued L = (\<Union>q. set (L q))"

lemma hd_last_opt [simp]: "hd_opt [] = None" "last_opt [] = None" "hd_opt (x # xs) = Some x"
  "last_opt (xs @ [x]) = Some x" "last_opt [x] = Some x" "last_opt (x # y # xs) = last_opt (y # xs)"
  "hd_opt xs = None \<longleftrightarrow> xs = []" "last_opt xs = None \<longleftrightarrow> xs = []" "None = last_opt xs \<longleftrightarrow> xs = []"
  by (auto simp: hd_opt_def last_opt_def)

lemma last_opt_Some: "last_opt xs = Some t \<longleftrightarrow> xs \<noteq> [] \<and> last xs = t"
  by (auto simp: last_opt_def)

lemma chain_Cons: "chain n (t # ts) \<longleftrightarrow> n t = hd_opt ts \<and> chain n ts"
  by (cases ts) auto

lemma chain_upd_other: "t \<notin> set xs \<Longrightarrow> chain (n(t := v)) xs = chain n xs"
  by (induction n xs rule: chain.induct) auto

lemma chain_append: "chain n (xs @ [t]) \<Longrightarrow> n t = None"
  by (induction xs) (auto simp: chain_Cons)

lemma chain_snoc:
  assumes "chain n xs" "xs \<noteq> []" "distinct xs" "t \<notin> set xs" "n t = None"
  shows "chain (n(last xs := Some t)) (xs @ [t])"
  using assms
proof (induction xs)
  case (Cons x xs)
  show ?case
  proof (cases xs)
    case Nil
    then show ?thesis using Cons.prems by simp
  next
    case (Cons y ys)
    then show ?thesis using Cons.IH Cons.prems by (auto simp: chain_Cons hd_opt_def last_in_set)
  qed
qed simp

lemma is_queue_frame: "t \<notin> set xs \<Longrightarrow> is_queue (n(t := v)) Q xs = is_queue n Q xs"
  by (simp add: is_queue_def chain_upd_other)

lemma repD: "rep s L \<Longrightarrow> is_queue (k_next s) (k_q s q) (L q)" "rep s L \<Longrightarrow> distinct (L q)"
  "rep s L \<Longrightarrow> q \<noteq> q' \<Longrightarrow> set (L q) \<inter> set (L q') = {}"
  by (auto simp: rep_def separate_def)

lemma rep_other [simp]: "rep (s\<lparr>k_tcb := x\<rparr>) L = rep s L" "rep (s\<lparr>k_cur := c\<rparr>) L = rep s L"
  "rep (s\<lparr>k_gc_ptr := g\<rparr>) L = rep s L" "rep (s\<lparr>k_timer := tm\<rparr>) L = rep s L" "rep (s\<lparr>k_ids := i\<rparr>) L = rep s L"
  by (simp_all add: rep_def)

lemma separate_upd:
  assumes "separate L" "distinct xs" "\<And>q'. q' \<noteq> q \<Longrightarrow> set xs \<inter> set (L q') = {}"
  shows "separate (L(q := xs))"
  using assms by (auto simp: separate_def)

lemma separate_sub:
  assumes "separate L" "distinct xs" "set xs \<subseteq> set (L q)"
  shows "separate (L(q := xs))"
proof (rule separate_upd [OF assms(1,2)])
  fix q' assume "q' \<noteq> q"
  then have "set (L q) \<inter> set (L q') = {}" using assms(1) unfolding separate_def by metis
  then show "set xs \<inter> set (L q') = {}" using assms(3) by blast
qed

lemma repI:
  assumes r: "rep s L" and sep: "separate (L(q := xs))" and mine: "is_queue n Q xs"
    and others: "\<And>q'. q' \<noteq> q \<Longrightarrow> is_queue n (k_q s q') (L q') = is_queue (k_next s) (k_q s q') (L q')"
  shows "rep (s\<lparr>k_next := n, k_q := (k_q s)(q := Q)\<rparr>) (L(q := xs))"
  using assms by (auto simp: rep_def)

text \<open>What a queue operation leaves alone: everything but the links.\<close>

definition qframe :: "kernel \<Rightarrow> kernel \<Rightarrow> bool" where
  "qframe s s' \<longleftrightarrow> s' = s\<lparr>k_next := k_next s', k_q := k_q s'\<rparr>"

lemma qframe_intros [simp, intro]: "qframe s s" "qframe s (s\<lparr>k_next := n, k_q := Q\<rparr>)" "qframe s (s\<lparr>k_next := n\<rparr>)"
  by (simp_all add: qframe_def)

lemma qframeD:
  assumes "qframe s s'"
  shows "k_tcb s' = k_tcb s" "k_ids s' = k_ids s" "k_cur s' = k_cur s" "k_gc_ptr s' = k_gc_ptr s" "k_th_gc s' = k_th_gc s"
    "k_timer s' = k_timer s"
  by (subst assms [unfolded qframe_def], simp)+

lemma tq_empty_ok: "rep s L \<Longrightarrow> tq_empty q s = Inr (L q = [])"
  using repD(1) [of s L q] by (cases "L q") (auto simp: tq_empty_def is_queue_def last_opt_def)

lemma tq_put_ok:
  assumes r: "rep s L" and new: "t \<notin> queued L"
  shows "\<exists>s'. tq_put q t s = Inr s' \<and> qframe s s' \<and> rep s' (L(q := L q @ [t]))"
proof -
  have nt: "t \<notin> set (L q')" for q' using new by (auto simp: queued_def)
  have sep: "separate (L(q := L q @ [t]))"
    using r nt by (intro separate_upd) (auto simp: rep_def separate_def)
  show ?thesis
  proof (cases "L q = []")
    case True
    then have "q_head (k_q s q) = None" "q_tail (k_q s q) = None" using repD(1) [OF r, of q] by (auto simp: is_queue_def)
    moreover have "rep (s\<lparr>k_next := (k_next s)(t := None), k_q := (k_q s)(q := \<lparr>q_head = Some t, q_tail = Some t\<rparr>)\<rparr>) (L(q := L q @ [t]))"
      by (rule repI [OF r sep]) (simp_all add: True is_queue_def chain_upd_other nt)
    ultimately show ?thesis by (auto simp: tq_put_def)
  next
    case False
    let ?l = "last (L q)"
    have iq: "q_head (k_q s q) \<noteq> None" "q_tail (k_q s q) = Some ?l" and ch: "chain (k_next s) (L q)"
      using repD(1) [OF r, of q] False by (auto simp: is_queue_def last_opt_def)
    have ml: "?l \<in> set (L q)" using False by simp
    have lt: "?l \<noteq> t" using ml nt by metis
    have nl: "k_next s ?l = None" using chain_append [of "k_next s" "butlast (L q)" ?l] ch False by simp
    have "chain ((k_next s)(t := None, ?l := Some t)) (L q @ [t])"
      using chain_snoc [of "(k_next s)(t := None)" "L q" t] ch False repD(2) [OF r] nt by (simp add: chain_upd_other)
    then have "is_queue ((k_next s)(t := None, ?l := Some t)) ((k_q s q)\<lparr>q_tail := Some t\<rparr>) (L q @ [t])"
      using repD(1) [OF r, of q] False by (auto simp: is_queue_def hd_opt_def)
    moreover have "?l \<notin> set (L q')" if "q' \<noteq> q" for q' using repD(3) [OF r that] ml by blast
    ultimately have "rep (s\<lparr>k_next := (k_next s)(t := None, ?l := Some t), k_q := (k_q s)(q := (k_q s q)\<lparr>q_tail := Some t\<rparr>)\<rparr>) (L(q := L q @ [t]))"
      by (intro repI [OF r sep]) (simp_all add: is_queue_frame nt)
    then show ?thesis using iq nl lt by (auto simp: tq_put_def)
  qed
qed

lemma tq_put_next:
  assumes "rep s L" "tq_put q t s = Inr s'" "u \<noteq> t" "u \<notin> set (L q)"
  shows "k_next s' u = k_next s u"
proof -
  have "q_tail (k_q s q) = last_opt (L q)" using repD(1) [OF assms(1), of q] by (simp add: is_queue_def)
  then have "q_tail (k_q s q) \<noteq> Some u" using assms(4) by (auto simp: last_opt_def)
  then show ?thesis using assms(2,3) by (auto simp: tq_put_def Let_def res_simps split: option.splits)
qed

lemma tq_get_empty: "rep s L \<Longrightarrow> L q = [] \<Longrightarrow> tq_get q s = Inr (None, s)"
  using repD(1) [of s L q] by (auto simp: tq_get_def is_queue_def)

lemma tq_get_ok:
  assumes r: "rep s L" and ne: "L q = t # ts"
  shows "\<exists>s'. tq_get q s = Inr (Some t, s') \<and> qframe s s' \<and> rep s' (L(q := ts))"
proof -
  have iq: "q_head (k_q s q) = Some t" "q_tail (k_q s q) = last_opt (t # ts)" and ch: "k_next s t = hd_opt ts" "chain (k_next s) ts"
    using repD(1) [OF r, of q] ne by (auto simp: is_queue_def chain_Cons)
  have d: "t \<notin> set ts" "distinct ts" using repD(2) [OF r, of q] ne by auto
  have nt: "t \<notin> set (L q')" if "q' \<noteq> q" for q' using repD(3) [OF r that] ne by auto
  have sep: "separate (L(q := ts))"
    using r ne d by (intro separate_sub) (auto simp: rep_def)
  let ?Q = "\<lparr>q_head = k_next s t, q_tail = (if k_next s t = None then None else q_tail (k_q s q))\<rparr>"
  have "is_queue ((k_next s)(t := None)) ?Q ts"
    using iq ch d by (cases ts) (auto simp: is_queue_def chain_upd_other)
  then have "rep (s\<lparr>k_next := (k_next s)(t := None), k_q := (k_q s)(q := ?Q)\<rparr>) (L(q := ts))"
    by (intro repI [OF r sep]) (simp_all add: is_queue_frame nt)
  moreover have "k_next s t \<noteq> None \<or> q_head (k_q s q) = q_tail (k_q s q)" using iq ch by (cases ts) auto
  ultimately show ?thesis using iq by (auto simp: tq_get_def Let_def)
qed

subsection \<open>Taking a thread out of the middle\<close>

lemma cancel_find_hit:
  assumes "chain n (xs @ p # t # ys)" "distinct (xs @ p # t # ys)" "length xs < k"
  shows "cancel_find k n t (hd_opt (xs @ p # t # ys)) = Inr (Some p)"
  using assms
proof (induction xs arbitrary: k)
  case Nil
  then show ?case by (cases k) auto
next
  case (Cons x xs)
  obtain m where k: "k = Suc m" using Cons.prems(3) by (cases k) auto
  have nx: "n x = hd_opt (xs @ p # t # ys)" using Cons.prems(1) by (simp add: chain_Cons)
  have "hd_opt (xs @ p # t # ys) \<noteq> Some t" using Cons.prems(2) by (cases xs) auto
  then show ?case using Cons k nx by (simp add: chain_Cons)
qed

lemma cancel_find_miss:
  assumes "chain n xs" "t \<notin> set xs" "length xs < k"
  shows "cancel_find k n t (hd_opt xs) = Inr None"
  using assms
proof (induction xs arbitrary: k)
  case Nil
  then show ?case by (cases k) auto
next
  case (Cons x xs)
  obtain m where k: "k = Suc m" using Cons.prems(3) by (cases k) auto
  have "n x \<noteq> Some t" using Cons.prems by (cases xs) auto
  then show ?case using Cons k by (simp add: chain_Cons)
qed

lemma chain_del:
  assumes "chain n (xs @ p # t # ys)" "distinct (xs @ p # t # ys)"
  shows "chain (n(p := hd_opt ys)) (xs @ p # ys)"
  using assms
proof (induction xs)
  case Nil
  then show ?case using chain_upd_other [of p ys n "hd_opt ys"] by (auto simp: chain_Cons fun_upd_def)
next
  case (Cons x xs)
  have "hd_opt (xs @ p # t # ys) = hd_opt (xs @ p # ys)" by (cases xs) auto
  then show ?case using Cons by (auto simp: chain_Cons)
qed

lemma chain_last: "chain n (xs @ t # ys) \<Longrightarrow> n t = hd_opt ys"
  by (induction xs) (auto simp: chain_Cons)

lemma split_behind: "t \<in> set xs \<Longrightarrow> hd xs \<noteq> t \<Longrightarrow> \<exists>as p bs. xs = as @ p # t # bs"
proof -
  assume t: "t \<in> set xs" "hd xs \<noteq> t"
  then obtain us vs where x: "xs = us @ t # vs" by (auto dest: split_list)
  then have "us \<noteq> []" using t by auto
  then show ?thesis using x by (metis append.assoc append_Cons append_Nil append_butlast_last_id)
qed

lemma waitable_cancel_ok:
  assumes r: "rep s L" and t: "t \<in> set (L (WaitQ ob))" and fuel: "length (L (WaitQ ob)) \<le> k_ids s"
  shows "\<exists>s'. waitable_cancel ob t s = Inr s' \<and> qframe s s' \<and> rep s' (L(WaitQ ob := remove1 t (L (WaitQ ob))))"
proof -
  let ?q = "WaitQ ob" let ?Q = "k_q s ?q"
  have hd: "q_head ?Q = Some (hd (L ?q))" and tl: "q_tail ?Q = Some (last (L ?q))" and ch: "chain (k_next s) (L ?q)"
    using repD(1) [OF r, of ?q] t by (auto simp: is_queue_def hd_opt_def last_opt_def)
  show ?thesis
  proof (cases "hd (L ?q) = t")
    case True
    then obtain ts where ts: "L ?q = t # ts" using t by (cases "L ?q") auto
    then show ?thesis using tq_get_ok [OF r ts] hd by (auto simp: waitable_cancel_def)
  next
    case False
    obtain xs p ys where x: "L ?q = xs @ p # t # ys" using split_behind [OF t False] by blast
    note ch = ch [unfolded x] and dq = repD(2) [OF r, of ?q, unfolded x]
    have rm: "remove1 t (L ?q) = xs @ p # ys" using dq x by (auto simp: remove1_append)
    have len: "length xs < Suc (k_ids s)" using fuel x by simp
    have "cancel_find (Suc (k_ids s)) (k_next s) t (q_head ?Q) = Inr (Some p)"
      using cancel_find_hit [OF ch dq len] hd x by (simp add: hd_opt_def)
    moreover have nt: "k_next s t = hd_opt ys" using chain_last [of _ "xs @ [p]" t ys] ch by simp
    moreover have "ys = [] \<Longrightarrow> q_tail ?Q = Some t" using tl x by simp
    ultimately have eq: "waitable_cancel ob t s = Inr (s\<lparr>k_next := (k_next s)(p := hd_opt ys),
        k_q := (k_q s)(?q := ?Q\<lparr>q_tail := if ys = [] then Some p else q_tail ?Q\<rparr>)\<rparr>)"
      using hd False by (cases ys) (auto simp: waitable_cancel_def Let_def)
    have sep: "separate (L(?q := xs @ p # ys))"
      using r dq x by (intro separate_sub) (auto simp: rep_def)
    have "is_queue ((k_next s)(p := hd_opt ys)) (?Q\<lparr>q_tail := if ys = [] then Some p else q_tail ?Q\<rparr>) (xs @ p # ys)"
      using chain_del [OF ch dq] hd tl x by (cases xs) (auto simp: is_queue_def last_opt_def)
    moreover have "p \<notin> set (L q')" if "q' \<noteq> ?q" for q' using repD(3) [OF r that] x by auto
    ultimately have "rep (s\<lparr>k_next := (k_next s)(p := hd_opt ys),
        k_q := (k_q s)(?q := ?Q\<lparr>q_tail := if ys = [] then Some p else q_tail ?Q\<rparr>)\<rparr>) (L(?q := xs @ p # ys))"
      by (intro repI [OF r sep]) (simp_all add: is_queue_frame)
    then show ?thesis using eq rm by auto
  qed
qed

lemma waitable_cancel_miss:
  assumes r: "rep s L" and t: "t \<notin> set (L (WaitQ ob))" and fuel: "length (L (WaitQ ob)) \<le> k_ids s"
  shows "waitable_cancel ob t s = bugcheck ''wait_queue corrupted''"
proof -
  have q: "q_head (k_q s (WaitQ ob)) = hd_opt (L (WaitQ ob))" "chain (k_next s) (L (WaitQ ob))"
    using repD(1) [OF r] by (auto simp: is_queue_def)
  have "hd_opt (L (WaitQ ob)) \<noteq> Some t" using t by (cases "L (WaitQ ob)") auto
  then show ?thesis
    using cancel_find_miss [OF q(2) t, of "Suc (k_ids s)"] fuel q(1) by (simp add: waitable_cancel_def)
qed

lemma tq_clear_ok:
  assumes "rep s L"
  shows "rep (tq_clear q s) (L(q := []))"
proof -
  have "separate (L(q := []))" using assms by (intro separate_sub) (auto simp: rep_def)
  then have "rep (s\<lparr>k_next := k_next s, k_q := (k_q s)(q := \<lparr>q_head = None, q_tail = None\<rparr>)\<rparr>) (L(q := []))"
    by (intro repI [OF assms]) (auto simp: is_queue_def)
  then show ?thesis by (simp add: tq_clear_def)
qed

section \<open>The queues are FIFO queues\<close>

text \<open>The contract of a family of queues whose elements may be in one queue only, and what follows for any implementation.\<close>

primrec put_all :: "('q \<Rightarrow> 'e \<Rightarrow> 's \<Rightarrow> 's res) \<Rightarrow> 'q \<Rightarrow> 'e list \<Rightarrow> 's \<Rightarrow> 's res" where
  "put_all put q [] s = Inr s"
| "put_all put q (x # xs) s = rbind (put q x s) (put_all put q xs)"

primrec get_many :: "('q \<Rightarrow> 's \<Rightarrow> ('e option \<times> 's) res) \<Rightarrow> 'q \<Rightarrow> nat \<Rightarrow> 's \<Rightarrow> ('e option list \<times> 's) res" where
  "get_many get q 0 s = Inr ([], s)"
| "get_many get q (Suc n) s = rbind (get q s) (\<lambda>(x, s). rbind (get_many get q n s) (\<lambda>(xs, s). Inr (x # xs, s)))"

locale fifo =
  fixes lists :: "'s \<Rightarrow> ('q \<Rightarrow> 'e list) \<Rightarrow> bool" and put :: "'q \<Rightarrow> 'e \<Rightarrow> 's \<Rightarrow> 's res" and get :: "'q \<Rightarrow> 's \<Rightarrow> ('e option \<times> 's) res"
  assumes put_law: "lists s L \<Longrightarrow> \<forall>q'. x \<notin> set (L q') \<Longrightarrow> \<exists>s'. put q x s = Inr s' \<and> lists s' (L(q := L q @ [x]))"
    and get_law: "lists s L \<Longrightarrow> L q = x # xs \<Longrightarrow> \<exists>s'. get q s = Inr (Some x, s') \<and> lists s' (L(q := xs))"
    and get_none: "lists s L \<Longrightarrow> L q = [] \<Longrightarrow> get q s = Inr (None, s)"
begin

lemma put_all_appends:
  "lists s L \<Longrightarrow> distinct xs \<Longrightarrow> \<forall>q'. set xs \<inter> set (L q') = {} \<Longrightarrow> \<exists>s'. put_all put q xs s = Inr s' \<and> lists s' (L(q := L q @ xs))"
proof (induction xs arbitrary: s L)
  case (Cons x xs)
  obtain s1 where s1: "put q x s = Inr s1" "lists s1 (L(q := L q @ [x]))" using put_law [OF Cons.prems(1)] Cons.prems(3) by fastforce
  have "\<forall>q'. set xs \<inter> set ((L(q := L q @ [x])) q') = {}" using Cons.prems by auto
  moreover have "distinct xs" using Cons.prems(2) by simp
  ultimately obtain s2 where s2: "put_all put q xs s1 = Inr s2" "lists s2 ((L(q := L q @ [x]))(q := (L(q := L q @ [x])) q @ xs))"
    using Cons.IH [OF s1(2)] by blast
  have "(L(q := L q @ [x]))(q := (L(q := L q @ [x])) q @ xs) = L(q := L q @ x # xs)" by simp
  then show ?case using s1(1) s2 by (metis put_all.simps(2) rbind_Inr)
qed auto

lemma get_many_takes:
  "lists s L \<Longrightarrow> n \<le> length (L q) \<Longrightarrow> \<exists>s'. get_many get q n s = Inr (map Some (take n (L q)), s') \<and> lists s' (L(q := drop n (L q)))"
proof (induction n arbitrary: s L)
  case (Suc n)
  then obtain x xs where x: "L q = x # xs" by (cases "L q") auto
  obtain s1 where s1: "get q s = Inr (Some x, s1)" "lists s1 (L(q := xs))" using get_law [OF Suc.prems(1) x] by blast
  have "n \<le> length ((L(q := xs)) q)" using x Suc.prems(2) by simp
  from Suc.IH [OF s1(2) this, unfolded fun_upd_same] obtain s2 where s2: "get_many get q n s1 = Inr (map Some (take n xs), s2)"
    "lists s2 ((L(q := xs))(q := drop n xs))" by blast
  have "(L(q := xs))(q := drop n xs) = L(q := drop (Suc n) (L q))" using x by simp
  then have "lists s2 (L(q := drop (Suc n) (L q)))" using s2(2) by (simp only:)
  moreover have "get_many get q (Suc n) s = Inr (map Some (take (Suc n) (L q)), s2)" using s1(1) s2(1) x by simp
  ultimately show ?case by blast
qed auto

lemma first_in_first_out:
  assumes "lists s L" "distinct xs" "\<forall>q'. set xs \<inter> set (L q') = {}"
  shows "\<exists>s1 s2. put_all put q xs s = Inr s1 \<and> get_many get q (length (L q) + length xs) s1 = Inr (map Some (L q @ xs), s2) \<and>
    lists s2 (L(q := [])) \<and> get q s2 = Inr (None, s2)"
proof -
  obtain s1 where s1: "put_all put q xs s = Inr s1" "lists s1 (L(q := L q @ xs))" using put_all_appends [OF assms] by blast
  from get_many_takes [OF s1(2), of "length (L q) + length xs" q] obtain s2
    where s2: "get_many get q (length (L q) + length xs) s1 = Inr (map Some (L q @ xs), s2)" "lists s2 (L(q := []))" by auto
  then show ?thesis using s1 get_none [OF s2(2), of q] by auto
qed

end

interpretation tq: fifo rep tq_put tq_get
proof unfold_locales
  fix s L x q
  assume "rep s L" "\<forall>q'. x \<notin> set (L q')"
  then show "\<exists>s'. tq_put q x s = Inr s' \<and> rep s' (L(q := L q @ [x]))" using tq_put_ok [of s L x q] by (auto simp: queued_def)
next
  fix s L q x xs
  assume "rep s L" "L q = x # xs"
  then show "\<exists>s'. tq_get q s = Inr (Some x, s') \<and> rep s' (L(q := xs))" using tq_get_ok [of s L q x xs] by auto
qed (rule tq_get_empty)

text \<open>The intrusive thread queues are FIFO queues: threads that are put at the end of a queue come out behind those already there, in
  the order in which they were put, and the queue is empty afterwards; the other queues do not change.\<close>

theorem thread_queue_fifo:
  assumes "rep s L" "distinct ts" "\<forall>q'. set ts \<inter> set (L q') = {}"
  shows "\<exists>s1 s2. put_all tq_put q ts s = Inr s1 \<and>
    get_many tq_get q (length (L q) + length ts) s1 = Inr (map Some (L q @ ts), s2) \<and>
    rep s2 (L(q := [])) \<and> tq_get q s2 = Inr (None, s2)"
  using assms by (rule tq.first_in_first_out)

theorem thread_queue_fifo_witness:
  "\<forall>s. \<exists>s1 s2. put_all tq_put GcQ [4, 2, 9] (s\<lparr>k_q := \<lambda>_. \<lparr>q_head = None, q_tail = None\<rparr>\<rparr>) = Inr s1 \<and>
     get_many tq_get GcQ 3 s1 = Inr ([Some 4, Some 2, Some 9], s2)"
proof
  fix s :: kernel
  have "rep (s\<lparr>k_q := \<lambda>_. \<lparr>q_head = None, q_tail = None\<rparr>\<rparr>) (\<lambda>_. [])" by (simp add: rep_def separate_def is_queue_def)
  from thread_queue_fifo [OF this, of "[4, 2, 9]" GcQ]
  show "\<exists>s1 s2. put_all tq_put GcQ [4, 2, 9] (s\<lparr>k_q := \<lambda>_. \<lparr>q_head = None, q_tail = None\<rparr>\<rparr>) = Inr s1 \<and>
     get_many tq_get GcQ 3 s1 = Inr ([Some 4, Some 2, Some 9], s2)" by (simp add: eval_nat_numeral) blast
qed

end
