(* ===== verification/Sched.thy ===== *)
theory Sched
  imports Thread_Queue
begin

text \<open>
  The scheduler and the state machine of threads: \<^verbatim>\<open>process/core_state.cpp\<close>, \<^verbatim>\<open>process/thread.cpp\<close> and the
  waiting part of \<^verbatim>\<open>process/waitable.cpp\<close>, definitions only. The kernel runs on one core (\<open>core_manager::size\<close> is 1)
  and every operation below runs with interrupts disabled, so an operation is one transition of the state up to the point
  where it switches to another thread; the spin locks the operations take are then never contended and are left out, as
  are register contexts, the page table switch and the CPU time accounting of \<open>irq_switch_to\<close>. Operations are called by a
  thread, not in an interrupt, where the code checks that (\<open>imp_wait\<close>, \<open>sleep\<close>). The loops are bounded
  by the number of threads; the recursion of \<open>signal_one\<close> through the collector's event by \<open>signal_depth\<close>.
\<close>

definition max_slice :: nat where "max_slice = 8"
definition max_priority :: nat where "max_priority = 16"

definition upd :: "nat \<Rightarrow> (tcb \<Rightarrow> tcb) \<Rightarrow> kernel \<Rightarrow> kernel" where
  "upd th f s = s\<lparr>k_tcb := (k_tcb s)(th := f (k_tcb s th))\<rparr>"

abbreviation st_of :: "kernel \<Rightarrow> nat \<Rightarrow> tstate" where "st_of s t \<equiv> t_state (k_tcb s t)"

section \<open>scheduler\<close>

primrec sched_scan :: "nat \<Rightarrow> nat \<Rightarrow> kernel \<Rightarrow> (nat option \<times> kernel) res" where
  "sched_scan 0 i s = Inr (None, s)"
| "sched_scan (Suc n) i s = rbind (tq_get (ReadyQ i) s) (\<lambda>(th, s).
     case th of Some t \<Rightarrow> Inr (Some t, s) | None \<Rightarrow> sched_scan n (Suc i) s)"

definition sched_get :: "nat \<Rightarrow> kernel \<Rightarrow> (nat option \<times> kernel) res" where
  "sched_get level s = sched_scan (min level max_priority) 0 s"

definition sched_put :: "nat \<Rightarrow> kernel \<Rightarrow> kernel res" where
  "sched_put th s = kassert (st_of s th = READY)
     (let index = t_priority (k_tcb s th) in kassert (index < max_priority) (tq_put (ReadyQ index) th s))"

section \<open>Thread states\<close>

text \<open>The requests \<open>set_state\<close> is called with: its second argument is the reason or the ticket.\<close>

datatype treq = ToReady reason | ToRunning | ToWaiting qword "oid option" | ToStopped

definition drop_ticket :: "qword \<Rightarrow> kernel \<Rightarrow> kernel" where
  "drop_ticket tk s = (if tk \<noteq> 0 then s\<lparr>k_timer := snd (timer_cancel tk (k_timer s))\<rparr> else s)"

definition leave_wait :: "nat \<Rightarrow> reason \<Rightarrow> kernel \<Rightarrow> kernel res" where
  "leave_wait th r s =
     (let c = k_tcb s th in case r of
        ABANDON \<Rightarrow> (case t_wait_for c of None \<Rightarrow> Inl AssertFailed
          | Some ob \<Rightarrow> rbind (waitable_cancel ob th s) (\<lambda>s. Inr (drop_ticket (t_ticket c) s)))
      | NOTIFY \<Rightarrow> kassert (t_wait_for c \<noteq> None) (Inr (drop_ticket (t_ticket c) s))
      | TIMEOUT \<Rightarrow> kassert (t_ticket c \<noteq> 0)
          (case t_wait_for c of None \<Rightarrow> Inr s | Some ob \<Rightarrow> waitable_cancel ob th s)
      | _ \<Rightarrow> Inl AssertFailed)"

definition set_state :: "nat \<Rightarrow> treq \<Rightarrow> kernel \<Rightarrow> (bool \<times> kernel) res" where
  "set_state th req s =
     (let c = k_tcb s th in
      if t_state c = STOPPED then Inr (False, s)
      else case req of
        ToReady r \<Rightarrow>
          if t_state c = WAITING then
            rbind (leave_wait th r s) (\<lambda>s.
              Inr (True, upd th (\<lambda>c. c\<lparr>t_reason := r, t_wait_for := None, t_ticket := 0, t_state := READY\<rparr>) s))
          else Inr (True, upd th (\<lambda>c. c\<lparr>t_state := READY\<rparr>) s)
      | ToRunning \<Rightarrow> kassert (t_state c = READY) (Inr (True, upd th (\<lambda>c. c\<lparr>t_state := RUNNING\<rparr>) s))
      | ToWaiting tk ob \<Rightarrow>
          kassert (t_state c = RUNNING) (kassert (tk \<noteq> 0 \<or> ob \<noteq> None)
            (kassert (t_wait_for c = None \<and> t_ticket c = 0)
              (Inr (True, upd th (\<lambda>c. c\<lparr>t_wait_for := ob, t_ticket := tk, t_state := WAITING\<rparr>) s))))
      | ToStopped \<Rightarrow> bugcheck ''thread::set_state bad state'')"

definition set_priority :: "nat \<Rightarrow> nat \<Rightarrow> kernel \<Rightarrow> bool \<times> kernel" where
  "set_priority th val s = (if val \<ge> max_priority then (False, s) else (True, upd th (\<lambda>c. c\<lparr>t_priority := val\<rparr>) s))"

definition gc_put :: "nat \<Rightarrow> kernel \<Rightarrow> kernel res" where
  "gc_put th s = kassert (st_of s th = STOPPED) (tq_put GcQ th s)"

definition on_stop :: "nat \<Rightarrow> kernel \<Rightarrow> kernel res" where
  "on_stop th s = kassert (st_of s th = STOPPED)
     (kassert (t_wait_for (k_tcb s th) = None \<and> t_ticket (k_tcb s th) = 0) (gc_put th s))"

section \<open>Waking threads\<close>

primrec notify_loop :: "nat \<Rightarrow> nat option \<Rightarrow> reason \<Rightarrow> kernel \<Rightarrow> (nat \<times> bool \<times> kernel) res" where
  "notify_loop 0 th r s = Inl OutOfFuel"
| "notify_loop (Suc n) th r s = (case th of None \<Rightarrow> Inr (0, False, s)
     | Some t \<Rightarrow> (let nx = k_next s t in
         rbind (set_state t (ToReady r) s) (\<lambda>(ok, s).
           if ok then rbind (sched_put t s) (\<lambda>s. rbind (notify_loop n nx r s) (\<lambda>(c, g, s). Inr (Suc c, g, s)))
           else rbind (on_stop t s) (\<lambda>s. rbind (notify_loop n nx r s) (\<lambda>(c, g, s). Inr (c, True, s))))))"

text \<open>The collector's event is the object 0.\<close>

definition gc_event :: oid where "gc_event = Obj 0"
definition signal_depth :: nat where "signal_depth = 2"

primrec signal_one :: "nat \<Rightarrow> oid \<Rightarrow> kernel \<Rightarrow> (bool \<times> kernel) res" where
  "signal_one 0 ob s = Inl OutOfFuel"
| "signal_one (Suc n) ob s = rbind (tq_get (WaitQ ob) s) (\<lambda>(ptr, s).
     case ptr of None \<Rightarrow> Inr (False, s)
     | Some t \<Rightarrow> rbind (notify_loop (Suc (k_ids s)) (Some t) NOTIFY s) (\<lambda>(cnt, need_gc, s).
         rbind (if need_gc then rbind (signal_one n gc_event s) (\<lambda>(_, s). Inr s) else Inr s) (\<lambda>s.
           if cnt = 0 then signal_one n ob s else Inr (True, s))))"

definition gc_signal :: "nat option \<Rightarrow> kernel \<Rightarrow> kernel res" where
  "gc_signal target s =
     (if target \<noteq> Some (k_th_gc s) then rbind (signal_one signal_depth gc_event s) (\<lambda>(_, s). Inr s) else Inr s)"

definition imp_notify :: "nat option \<Rightarrow> reason \<Rightarrow> kernel \<Rightarrow> (nat \<times> kernel) res" where
  "imp_notify th r s =
     (if th = None then Inr (0, s)
      else rbind (notify_loop (Suc (k_ids s)) th r s) (\<lambda>(cnt, need_gc, s).
        rbind (if need_gc then gc_signal None s else Inr s) (\<lambda>s. Inr (cnt, s))))"

definition notify :: "oid \<Rightarrow> reason \<Rightarrow> kernel \<Rightarrow> (nat \<times> kernel) res" where
  "notify ob r s = (let ptr = q_head (k_q s (WaitQ ob)) in imp_notify ptr r (tq_clear (WaitQ ob) s))"

section \<open>Switching\<close>

definition irq_switch_to :: "nat \<Rightarrow> kernel \<Rightarrow> kernel res" where
  "irq_switch_to target s =
     (let cur = k_cur s; need_gc = (st_of s cur = STOPPED); gc_th = k_gc_ptr s in
      rbind (case gc_th of None \<Rightarrow> Inr s
             | Some g \<Rightarrow> rbind (on_stop g s) (\<lambda>s. Inr (if need_gc then s else s\<lparr>k_gc_ptr := None\<rparr>))) (\<lambda>s.
      let s = (if need_gc then s\<lparr>k_gc_ptr := Some cur\<rparr> else s) in
      rbind (if gc_th \<noteq> None then gc_signal (Some target) s else Inr s) (\<lambda>s.
      Inr (s\<lparr>k_cur := target\<rparr>))))"

definition switch_to :: "nat \<Rightarrow> kernel \<Rightarrow> kernel res" where
  "switch_to th s = kassert (st_of s th = RUNNING) (irq_switch_to th s)"

text \<open>The loop that \<open>preempt\<close>, \<open>imp_wait\<close> and \<open>sleep\<close> share: take threads off the ready queues until one can run; stopped
  ones go to the collector; \<open>imp_wait\<close> sets the thread that is waited for aside.\<close>

primrec pick_loop :: "nat \<Rightarrow> nat \<Rightarrow> nat option \<Rightarrow> nat option \<Rightarrow> bool \<Rightarrow> kernel \<Rightarrow>
    (nat option \<times> nat option \<times> bool \<times> kernel) res" where
  "pick_loop 0 level aside put_back need_gc s = Inl OutOfFuel"
| "pick_loop (Suc n) level aside put_back need_gc s = rbind (sched_get level s) (\<lambda>(th, s).
     case th of None \<Rightarrow> Inr (None, put_back, need_gc, s)
     | Some t \<Rightarrow>
         if aside = Some t then pick_loop n level aside (Some t) need_gc s
         else rbind (set_state t ToRunning s) (\<lambda>(ok, s).
           if ok then Inr (Some t, put_back, need_gc, s)
           else rbind (on_stop t s) (\<lambda>s. pick_loop n level aside put_back True s)))"

definition pick_try :: "nat \<Rightarrow> kernel \<Rightarrow> (nat option \<times> kernel) res" where
  "pick_try level s = rbind (pick_loop (k_ids s + 2) level None None False s) (\<lambda>(nx, _, need_gc, s).
     rbind (if need_gc then gc_signal nx s else Inr s) (\<lambda>s. Inr (nx, s)))"

text \<open>Where a thread must be found; \<open>sleep\<close> signals the collector without naming the next thread.\<close>

definition pick :: "nat option \<Rightarrow> bool \<Rightarrow> kernel \<Rightarrow> (nat \<times> nat option \<times> kernel) res" where
  "pick aside named s = rbind (pick_loop (k_ids s + 2) max_priority aside None False s) (\<lambda>(nx, put_back, need_gc, s).
     case nx of None \<Rightarrow> bugcheck ''no ready thread''
     | Some t \<Rightarrow> rbind (if need_gc then gc_signal (if named then Some t else None) s else Inr s)
         (\<lambda>s. Inr (t, put_back, s)))"

definition preempt :: "bool \<Rightarrow> kernel \<Rightarrow> kernel res" where
  "preempt lower s =
     (let cur = k_cur s in
      rbind (pick_try (t_priority (k_tcb s cur) + (if lower then 1 else 0)) s) (\<lambda>(nx, s).
      case nx of
        Some t \<Rightarrow> rbind (set_state cur (ToReady NONE) s) (\<lambda>(ok, s).
          rbind (if ok then sched_put cur s else Inr s) (switch_to t))
      | None \<Rightarrow>
          if st_of s cur = STOPPED then rbind (pick None True s) (\<lambda>(t, _, s). switch_to t s)
          else Inr s))"

definition set_slice :: "nat \<Rightarrow> nat \<Rightarrow> kernel \<Rightarrow> kernel" where
  "set_slice th v s = upd th (\<lambda>c. c\<lparr>t_slice := v\<rparr>) s"

definition k_timer_wait :: "qword \<Rightarrow> nat \<Rightarrow> kernel \<Rightarrow> qword \<times> kernel" where
  "k_timer_wait us th s = (let (tk, tm) = timer_wait us th False (k_timer s) in (tk, s\<lparr>k_timer := tm\<rparr>))"

definition imp_wait :: "oid \<Rightarrow> qword \<Rightarrow> kernel \<Rightarrow> kernel res" where
  "imp_wait ob us s =
     (let cur = k_cur s in
      if ob = Thr cur then bugcheck ''waiting on self''
      else rbind (pick (case ob of Thr t \<Rightarrow> Some t | Obj _ \<Rightarrow> None) True s) (\<lambda>(t, put_back, s).
        let (tk, s) = (if us \<noteq> 0 then k_timer_wait us cur (set_slice t max_slice s)
                       else (0, set_slice t max_slice s)) in
        rbind (set_state cur (ToWaiting tk (Some ob)) s) (\<lambda>(ok, s).
        rbind (if ok then tq_put (WaitQ ob) cur (set_slice cur max_slice s) else Inr (drop_ticket tk s)) (\<lambda>s.
        rbind (case put_back of None \<Rightarrow> Inr s | Some p \<Rightarrow> sched_put p s) (switch_to t)))))"

definition sleep :: "qword \<Rightarrow> kernel \<Rightarrow> kernel res" where
  "sleep us s =
     (let cur = k_cur s in
      if us = 0 then preempt True (set_slice cur max_slice s)
      else rbind (pick None False s) (\<lambda>(t, _, s).
        let (tk, s) = k_timer_wait us cur s in
        rbind (set_state cur (ToWaiting tk None) s) (\<lambda>(ok, s).
          switch_to t (if ok then s else drop_ticket tk s))))"

definition thread_on_timer :: "qword \<Rightarrow> nat \<Rightarrow> kernel \<Rightarrow> kernel res" where
  "thread_on_timer tk th s =
     (let cur = k_cur s in
      if t_ticket (k_tcb s th) \<noteq> tk then Inr s
      else rbind (set_state th (ToReady TIMEOUT) s) (\<lambda>(ok, s).
        if \<not> ok then rbind (on_stop th s) (gc_signal None)
        else if t_priority (k_tcb s th) < t_priority (k_tcb s cur) then
          rbind (set_state th ToRunning s) (\<lambda>(ok, s).
            if \<not> ok then bugcheck ''thread state corrupted''
            else rbind (set_state cur (ToReady NONE) s) (\<lambda>(ok, s).
              rbind (if ok then sched_put cur (set_slice cur max_slice s) else Inr s) (switch_to th)))
        else sched_put th s))"

definition core_on_timer :: "kernel \<Rightarrow> kernel res" where
  "core_on_timer s =
     (let cur = k_cur s in
      if st_of s cur \<noteq> STOPPED then
        kassert (st_of s cur = RUNNING)
          (let slice = t_slice (k_tcb s cur) in
           kassert (slice \<le> max_slice)
             (preempt (slice = 0) (set_slice cur (if slice \<noteq> 0 then slice - 1 else max_slice) s)))
      else preempt True s)"

section \<open>Stopping threads\<close>

definition escape :: "nat \<Rightarrow> kernel \<Rightarrow> kernel res" where
  "escape th s = rbind (preempt True s) (\<lambda>s. if k_cur s = th then bugcheck ''failed to escape'' else Inr s)"

definition thread_kill :: "nat \<Rightarrow> kernel \<Rightarrow> kernel res" where
  "thread_kill th s =
     (let cur = k_cur s; c = k_tcb s th in
      if t_critical c then kassert (cur \<noteq> th) (Inr (upd th (\<lambda>c. c\<lparr>t_kill := True\<rparr>) s))
      else kassert (cur \<noteq> th \<or> t_state c = RUNNING)
        (rbind
          (if t_state c = WAITING then
             rbind (case t_wait_for c of None \<Rightarrow> Inr s | Some ob \<Rightarrow> waitable_cancel ob th s) (\<lambda>s.
             let s = upd th (\<lambda>c. c\<lparr>t_state := STOPPED, t_wait_for := None, t_ticket := 0\<rparr>) (drop_ticket (t_ticket c) s) in
             if cur \<noteq> th then rbind (on_stop th s) (gc_signal None) else Inr s)
           else Inr (upd th (\<lambda>c. c\<lparr>t_state := STOPPED\<rparr>) s))
          (\<lambda>s. if cur = th then escape th s else Inr s)))"

definition thread_hold :: "kernel \<Rightarrow> kernel res" where
  "thread_hold s = (let c = k_tcb s (k_cur s) in
     kassert (\<not> t_critical c \<and> \<not> t_kill c) (Inr (upd (k_cur s) (\<lambda>c. c\<lparr>t_critical := True\<rparr>) s)))"

definition thread_drop :: "kernel \<Rightarrow> kernel res" where
  "thread_drop s = (let th = k_cur s; c = k_tcb s th in
     kassert (t_critical c)
       (let s = upd th (\<lambda>c. c\<lparr>t_critical := False\<rparr>) s in
        if \<not> t_kill c then Inr s
        else kassert (t_state c = RUNNING) (escape th (upd th (\<lambda>c. c\<lparr>t_state := STOPPED\<rparr>) s))))"

text \<open>One turn of the collector's loop: the waiters of a collected thread are notified. What \<open>on_gc\<close> does to the process
  and the reference count is part of the process model.\<close>

definition gc_turn :: "kernel \<Rightarrow> (nat option \<times> kernel) res" where
  "gc_turn s = rbind (tq_get GcQ s) (\<lambda>(th, s). case th of None \<Rightarrow> Inr (None, s)
     | Some t \<Rightarrow> rbind (notify (Thr t) NOTIFY s) (\<lambda>(_, s). Inr (Some t, s)))"

text \<open>The constructor of a thread, without its stack and registers, which queues the new thread.\<close>

definition thread_new :: "kernel \<Rightarrow> (nat \<times> kernel) res" where
  "thread_new s = (let th = k_ids s;
     c = \<lparr>t_state = READY, t_critical = False, t_kill = False, t_priority = t_priority (k_tcb s (k_cur s)), t_reason = NONE,
          t_slice = max_slice, t_wait_for = None, t_ticket = 0\<rparr>;
     s = s\<lparr>k_ids := Suc th, k_tcb := (k_tcb s)(th := c)\<rparr>
   in rbind (sched_put th s) (\<lambda>s. Inr (th, s)))"

end
