(* ===== verification/Sched_Inv.thy ===== *)
theory Sched_Inv
  imports Sched
begin

text \<open>
  The invariant of the scheduler and its preservation by the building blocks. Every thread is in exactly one place that
  fits its state: the queue of the object it waits for, the ready queue, the collector's queue, asleep on a timer, or held in
  a set \<open>F\<close> of threads that are in flight (the running thread, the thread the core still has to hand to
  the collector, and during an operation the threads it is moving).
\<close>

section \<open>Where a thread may be\<close>

definition idle_fields :: "tcb \<Rightarrow> bool" where
  "idle_fields c \<longleftrightarrow> t_wait_for c = None \<and> t_ticket c = 0"

fun belongs :: "tcb \<Rightarrow> qid \<Rightarrow> bool" where
  "belongs c (WaitQ ob) = (t_state c = WAITING \<and> t_wait_for c = Some ob)"
| "belongs c (ReadyQ p) = (p < max_priority \<and> (t_state c = READY \<or> t_state c = STOPPED) \<and> idle_fields c)"
| "belongs c GcQ = (t_state c = STOPPED \<and> idle_fields c)"

definition asleep :: "tcb \<Rightarrow> bool" where
  "asleep c \<longleftrightarrow> t_state c = WAITING \<and> t_wait_for c = None \<and> t_ticket c \<noteq> 0"

definition tcb_ok :: "tcb \<Rightarrow> bool" where
  "tcb_ok c \<longleftrightarrow> t_priority c < max_priority \<and> t_slice c \<le> max_slice"

definition wf :: "nat set \<Rightarrow> (qid \<Rightarrow> nat list) \<Rightarrow> kernel \<Rightarrow> bool" where
  "wf F L s \<longleftrightarrow> F \<subseteq> {..<k_ids s} \<and> F \<inter> queued L = {} \<and>
     (\<forall>q. \<forall>t\<in>set (L q). t < k_ids s \<and> belongs (k_tcb s t) q) \<and>
     (\<forall>t<k_ids s. t \<in> F \<or> t \<in> queued L \<or> asleep (k_tcb s t)) \<and>
     (\<forall>t<k_ids s. tcb_ok (k_tcb s t))"

definition K :: "nat set \<Rightarrow> (qid \<Rightarrow> nat list) \<Rightarrow> kernel \<Rightarrow> bool" where
  "K F L s \<longleftrightarrow> rep s L \<and> wf F L s"

definition stopped_ok :: "tcb \<Rightarrow> bool" where
  "stopped_ok c \<longleftrightarrow> t_state c = STOPPED \<and> idle_fields c"

definition woken :: "reason \<Rightarrow> tcb \<Rightarrow> tcb" where
  "woken r c = c\<lparr>t_reason := r, t_wait_for := None, t_ticket := 0, t_state := READY\<rparr>"

lemma KD:
  assumes "K F L s"
  shows "rep s L" "t \<in> F \<Longrightarrow> t < k_ids s" "t \<in> F \<Longrightarrow> t \<notin> queued L" "t \<in> set (L q) \<Longrightarrow> t \<notin> F"
    "t \<in> set (L q) \<Longrightarrow> t < k_ids s" "t \<in> set (L q) \<Longrightarrow> belongs (k_tcb s t) q" "t < k_ids s \<Longrightarrow> tcb_ok (k_tcb s t)"
  using assms by (auto simp: K_def wf_def queued_def)

lemma K_same_queue:
  assumes "K F L s" "t \<in> set (L q)" "t \<in> set (L q')"
  shows "q = q'"
  using repD(3) [OF KD(1) [OF assms(1)], of q q'] assms(2,3) by auto

lemma K_length: "K F L s \<Longrightarrow> length (L q) \<le> k_ids s"
proof -
  assume k: "K F L s"
  have "card (set (L q)) \<le> card {..<k_ids s}" using KD(5) [OF k] by (intro card_mono) auto
  then show ?thesis using repD(2) [OF KD(1) [OF k], of q] by (simp add: distinct_card)
qed

lemma queued_split: "queued L = set (L q) \<union> (\<Union>q'\<in>-{q}. set (L q'))"
  by (auto simp: queued_def)

lemma queued_upd: "queued (L(q := xs)) = set xs \<union> (\<Union>q'\<in>-{q}. set (L q'))"
  by (subst queued_split [of _ q]) auto

lemma K_other [simp]: "K F L (s\<lparr>k_cur := c\<rparr>) = K F L s" "K F L (s\<lparr>k_gc_ptr := g\<rparr>) = K F L s"
  "K F L (s\<lparr>k_timer := tm\<rparr>) = K F L s"
  by (simp_all add: K_def wf_def)

lemma K_drop_ticket [simp]: "K F L (drop_ticket tk s) = K F L s"
  by (simp add: drop_ticket_def)

lemma drop_ticket_sel [simp]: "k_tcb (drop_ticket tk s) = k_tcb s" "k_cur (drop_ticket tk s) = k_cur s"
  "k_gc_ptr (drop_ticket tk s) = k_gc_ptr s" "k_ids (drop_ticket tk s) = k_ids s" "k_th_gc (drop_ticket tk s) = k_th_gc s"
  "k_next (drop_ticket tk s) = k_next s" "k_q (drop_ticket tk s) = k_q s"
  "conductor (k_timer (drop_ticket tk s)) = conductor (k_timer s)"
  by (simp_all add: drop_ticket_def timer_cancel_def)

lemma upd_sel [simp]: "k_tcb (upd t f s) = (k_tcb s)(t := f (k_tcb s t))" "k_cur (upd t f s) = k_cur s"
  "k_gc_ptr (upd t f s) = k_gc_ptr s" "k_ids (upd t f s) = k_ids s" "k_th_gc (upd t f s) = k_th_gc s"
  "k_next (upd t f s) = k_next s" "k_q (upd t f s) = k_q s" "rep (upd t f s) L = rep s L" "k_timer (upd t f s) = k_timer s"
  by (simp_all add: upd_def)

section \<open>Moving one thread\<close>

lemma K_get:
  assumes k: "K F L s" and ne: "L q = t # ts"
  shows "\<exists>s'. tq_get q s = Inr (Some t, s') \<and> qframe s s' \<and> K (insert t F) (L(q := ts)) s'"
proof -
  obtain s' where s': "tq_get q s = Inr (Some t, s')" "qframe s s'" "rep s' (L(q := ts))"
    using tq_get_ok [of s L q t ts] KD(1) [OF k] ne by blast
  have d: "t \<notin> set ts" using repD(2) [OF KD(1) [OF k], of q] ne by auto
  have o: "t \<notin> set (L q')" if "q' \<noteq> q" for q' using repD(3) [OF KD(1) [OF k] that] ne by auto
  have qd: "queued L = insert t (queued (L(q := ts)))" "t \<notin> queued (L(q := ts))"
    using ne d o by (auto simp: queued_upd queued_split [of L q])
  have sub: "u \<in> set ((L(q := ts)) q') \<Longrightarrow> u \<in> set (L q')" for u q' using ne by (auto split: if_splits)
  have "t < k_ids s" using KD(5) [OF k, of t q] ne by simp
  then have "wf (insert t F) (L(q := ts)) s'"
    using k qd sub qframeD [OF s'(2)] unfolding K_def wf_def by (simp only:) blast
  then show ?thesis using s' by (auto simp: K_def)
qed

lemma K_remove:
  assumes k: "K F L s" and mem: "t \<in> set (L (WaitQ ob))"
  shows "\<exists>s'. waitable_cancel ob t s = Inr s' \<and> qframe s s' \<and>
    K (insert t F) (L(WaitQ ob := remove1 t (L (WaitQ ob)))) s'"
proof -
  let ?q = "WaitQ ob" let ?L = "L(?q := remove1 t (L ?q))"
  obtain s' where s': "waitable_cancel ob t s = Inr s'" "qframe s s'" "rep s' ?L"
    using waitable_cancel_ok [OF KD(1) [OF k] mem K_length [OF k]] by blast
  have rm: "set (remove1 t (L ?q)) = set (L ?q) - {t}" using repD(2) [OF KD(1) [OF k]] by simp
  have o: "t \<notin> set (L q')" if "q' \<noteq> ?q" for q' using repD(3) [OF KD(1) [OF k] that] mem by auto
  have qd: "queued L = insert t (queued ?L)" "t \<notin> queued ?L"
    using mem o rm by (auto simp: queued_def split: if_splits)
  have sub: "u \<in> set (?L q') \<Longrightarrow> u \<in> set (L q')" for u q' using rm by (auto split: if_splits)
  have "t < k_ids s" using KD(5) [OF k mem] .
  then have "wf (insert t F) ?L s'"
    using k qd sub qframeD [OF s'(2)] unfolding K_def wf_def by (simp only:) blast
  then show ?thesis using s' by (auto simp: K_def)
qed

lemma K_put:
  assumes k: "K F L s" and t: "t \<in> F" and b: "belongs (k_tcb s t) q"
  shows "\<exists>s'. tq_put q t s = Inr s' \<and> qframe s s' \<and> K (F - {t}) (L(q := L q @ [t])) s' \<and>
    (\<forall>u. u \<noteq> t \<and> u \<notin> queued L \<longrightarrow> k_next s' u = k_next s u)"
proof -
  let ?L = "L(q := L q @ [t])"
  obtain s' where s': "tq_put q t s = Inr s'" "qframe s s'" "rep s' ?L"
    using tq_put_ok [OF KD(1) [OF k] KD(3) [OF k t], of q] by blast
  have qd: "queued ?L = insert t (queued L)" by (auto simp: queued_def split: if_splits)
  have sub: "u \<in> set (?L q') \<Longrightarrow> u \<in> set (L q') \<or> (u = t \<and> q' = q)" for u q' by (auto split: if_splits)
  have "wf (F - {t}) ?L s'"
    using k b t qd sub qframeD [OF s'(2)] unfolding K_def wf_def by (simp only:) blast
  moreover have "\<forall>u. u \<noteq> t \<and> u \<notin> queued L \<longrightarrow> k_next s' u = k_next s u"
    using tq_put_next [OF KD(1) [OF k] s'(1)] by (auto simp: queued_def)
  ultimately show ?thesis using s' by (auto simp: K_def)
qed

lemma K_upd:
  assumes k: "K F L s" and t: "t \<in> F" and "tcb_ok (f (k_tcb s t))"
  shows "K F L (upd t f s)"
proof -
  have "t \<notin> set (L q)" for q using KD(3) [OF k t] by (auto simp: queued_def)
  then show ?thesis using k t assms(3) unfolding K_def wf_def by auto
qed

lemma K_upd_queued:
  assumes k: "K F L s" and t: "t \<in> set (L q)" and "belongs (f (k_tcb s t)) q" "tcb_ok (f (k_tcb s t))"
  shows "K F L (upd t f s)"
proof -
  have one: "q' = q" if "t \<in> set (L q')" for q' using K_same_queue [OF k that t] .
  have "t \<in> queued L" using t by (auto simp: queued_def)
  then show ?thesis using k one assms(3,4) unfolding K_def wf_def by auto
qed

lemma K_asleep:
  assumes k: "K F L s" and "t \<in> F" "asleep (k_tcb s t)"
  shows "K (F - {t}) L s"
  using assms unfolding K_def wf_def by blast

lemma K_awake:
  assumes k: "K F L s" and "t < k_ids s" "t \<notin> queued L"
  shows "K (insert t F) L s"
  using assms unfolding K_def wf_def by blast

lemma sched_put_ok:
  assumes k: "K F L s" and t: "t \<in> F" and st: "st_of s t = READY" "idle_fields (k_tcb s t)"
  shows "\<exists>s'. sched_put t s = Inr s' \<and> qframe s s' \<and>
    K (F - {t}) (L(ReadyQ (t_priority (k_tcb s t)) := L (ReadyQ (t_priority (k_tcb s t))) @ [t])) s' \<and>
    (\<forall>u. u \<noteq> t \<and> u \<notin> queued L \<longrightarrow> k_next s' u = k_next s u)"
proof -
  have p: "t_priority (k_tcb s t) < max_priority" using KD(7) [OF k KD(2) [OF k t]] by (simp add: tcb_ok_def)
  then have "belongs (k_tcb s t) (ReadyQ (t_priority (k_tcb s t)))" using st by simp
  then show ?thesis using K_put [OF k t] p st by (simp add: sched_put_def)
qed

lemma on_stop_ok:
  assumes k: "K F L s" and t: "t \<in> F" and st: "stopped_ok (k_tcb s t)"
  shows "\<exists>s'. on_stop t s = Inr s' \<and> qframe s s' \<and> K (F - {t}) (L(GcQ := L GcQ @ [t])) s'"
  using K_put [OF k t, of GcQ] st by (auto simp: on_stop_def gc_put_def stopped_ok_def idle_fields_def)

section \<open>The scheduler takes the first thread of the most urgent level\<close>

lemma sched_scan_ok:
  assumes k: "K F L s"
  shows "(sched_scan n i s = Inr (None, s) \<and> (\<forall>j. i \<le> j \<and> j < i + n \<longrightarrow> L (ReadyQ j) = [])) \<or>
    (\<exists>p t ts s'. i \<le> p \<and> p < i + n \<and> (\<forall>j. i \<le> j \<and> j < p \<longrightarrow> L (ReadyQ j) = []) \<and> L (ReadyQ p) = t # ts \<and>
       sched_scan n i s = Inr (Some t, s') \<and> qframe s s' \<and> K (insert t F) (L(ReadyQ p := ts)) s')"
proof (induction n arbitrary: i)
  case (Suc n)
  show ?case
  proof (cases "L (ReadyQ i)")
    case Nil
    have le: "i \<le> j \<longleftrightarrow> j = i \<or> Suc i \<le> j" for j by auto
    have eq: "sched_scan (Suc n) i s = sched_scan n (Suc i) s" using tq_get_empty [OF KD(1) [OF k] Nil] by simp
    from Suc.IH [of "Suc i"] show ?thesis
    proof
      assume "\<exists>p t ts s'. Suc i \<le> p \<and> p < Suc i + n \<and> (\<forall>j. Suc i \<le> j \<and> j < p \<longrightarrow> L (ReadyQ j) = []) \<and>
        L (ReadyQ p) = t # ts \<and> sched_scan n (Suc i) s = Inr (Some t, s') \<and> qframe s s' \<and> K (insert t F) (L(ReadyQ p := ts)) s'"
      then obtain p t ts s' where "Suc i \<le> p" "p < Suc i + n" "\<forall>j. Suc i \<le> j \<and> j < p \<longrightarrow> L (ReadyQ j) = []"
        "L (ReadyQ p) = t # ts" "sched_scan n (Suc i) s = Inr (Some t, s')" "qframe s s'" "K (insert t F) (L(ReadyQ p := ts)) s'"
        by blast
      then show ?thesis unfolding eq using Nil
        by - (rule disjI2, rule exI [of _ p], rule exI [of _ t], rule exI [of _ ts], rule exI [of _ s'], auto simp: le fun_upd_def)
    qed (use eq Nil in \<open>auto simp: le\<close>)
  next
    case (Cons t ts)
    then obtain s' where "tq_get (ReadyQ i) s = Inr (Some t, s')" "qframe s s'" "K (insert t F) (L(ReadyQ i := ts)) s'"
      using K_get [OF k Cons] by blast
    then show ?thesis using Cons
      by - (rule disjI2, rule exI [of _ i], rule exI [of _ t], rule exI [of _ ts], rule exI [of _ s'], auto simp: fun_upd_def)
  qed
qed auto

lemma sched_get_ok:
  assumes k: "K F L s"
  shows "(sched_get level s = Inr (None, s) \<and> (\<forall>j < min level max_priority. L (ReadyQ j) = [])) \<or>
    (\<exists>p t ts s'. p < min level max_priority \<and> (\<forall>j<p. L (ReadyQ j) = []) \<and> L (ReadyQ p) = t # ts \<and>
       sched_get level s = Inr (Some t, s') \<and> qframe s s' \<and> K (insert t F) (L(ReadyQ p := ts)) s')"
  using sched_scan_ok [OF k, of "min level max_priority" 0] by (simp add: sched_get_def)

section \<open>Waking\<close>

lemma set_state_notify:
  assumes "st_of s t = WAITING" "t_wait_for (k_tcb s t) \<noteq> None"
  shows "set_state t (ToReady NOTIFY) s = Inr (True, upd t (woken NOTIFY) (drop_ticket (t_ticket (k_tcb s t)) s))"
  using assms by (simp add: set_state_def leave_wait_def Let_def woken_def [abs_def])

lemma tcb_ok_fields [simp]: "tcb_ok (c\<lparr>t_state := x\<rparr>) = tcb_ok c" "tcb_ok (woken r c) = tcb_ok c"
  "tcb_ok (c\<lparr>t_wait_for := w, t_ticket := k, t_state := x\<rparr>) = tcb_ok c"
  "tcb_ok (c\<lparr>t_state := x, t_wait_for := w, t_ticket := k\<rparr>) = tcb_ok c" "tcb_ok (c\<lparr>t_kill := b\<rparr>) = tcb_ok c"
  "tcb_ok (c\<lparr>t_critical := b\<rparr>) = tcb_ok c"
  by (simp_all add: tcb_ok_def woken_def)

lemma woken_sel [simp]: "t_state (woken r c) = READY" "idle_fields (woken r c)" "t_priority (woken r c) = t_priority c"
  "t_reason (woken r c) = r"
  by (simp_all add: woken_def idle_fields_def)

text \<open>What the building blocks below leave alone.\<close>

definition sframe :: "kernel \<Rightarrow> kernel \<Rightarrow> bool" where
  "sframe s s' \<longleftrightarrow> k_cur s' = k_cur s \<and> k_gc_ptr s' = k_gc_ptr s \<and> k_ids s' = k_ids s \<and> k_th_gc s' = k_th_gc s \<and>
     conductor (k_timer s') = conductor (k_timer s)"

lemma sframeD: "sframe s s' \<Longrightarrow> k_cur s' = k_cur s" "sframe s s' \<Longrightarrow> k_gc_ptr s' = k_gc_ptr s"
  "sframe s s' \<Longrightarrow> k_ids s' = k_ids s" "sframe s s' \<Longrightarrow> k_th_gc s' = k_th_gc s"
  by (simp_all add: sframe_def)

lemma sframe_trans: "sframe s s' \<Longrightarrow> sframe s' s'' \<Longrightarrow> sframe s s''"
  by (simp add: sframe_def)

lemma sframe_simps [simp]: "sframe s s" "sframe s (upd t f s)" "sframe s (drop_ticket tk s)"
  by (simp_all add: sframe_def)

lemma qframe_sframe: "qframe s s' \<Longrightarrow> sframe s s'"
  by (simp add: sframe_def qframeD)

text \<open>One waiter that has been taken off its queue becomes ready.\<close>

definition ready_at :: "kernel \<Rightarrow> nat \<Rightarrow> (qid \<Rightarrow> nat list) \<Rightarrow> (qid \<Rightarrow> nat list)" where
  "ready_at s t L = (let q = ReadyQ (t_priority (k_tcb s t)) in L(q := L q @ [t]))"

lemma wake_one:
  assumes k: "K F L s" and t: "t \<in> F" and w: "st_of s t = WAITING" "t_wait_for (k_tcb s t) \<noteq> None"
  shows "\<exists>s1 s'. set_state t (ToReady NOTIFY) s = Inr (True, s1) \<and> sched_put t s1 = Inr s' \<and> sframe s s' \<and>
    k_tcb s' = (k_tcb s)(t := woken NOTIFY (k_tcb s t)) \<and> K (F - {t}) (ready_at s t L) s' \<and>
    (\<forall>u. u \<noteq> t \<and> u \<notin> queued L \<longrightarrow> k_next s' u = k_next s u)"
proof -
  let ?s1 = "upd t (woken NOTIFY) (drop_ticket (t_ticket (k_tcb s t)) s)"
  have "K F L ?s1" using k t KD(7) [OF k KD(2) [OF k t]] by (intro K_upd) simp_all
  from sched_put_ok [OF this t] obtain s' where s': "sched_put t ?s1 = Inr s'" "qframe ?s1 s'"
    "K (F - {t}) (ready_at s t L) s'" "\<forall>u. u \<noteq> t \<and> u \<notin> queued L \<longrightarrow> k_next s' u = k_next ?s1 u"
    by (auto simp: ready_at_def Let_def)
  have "sframe s s'" by (rule sframe_trans [OF _ qframe_sframe [OF s'(2)]]) (simp add: sframe_def)
  then show ?thesis using set_state_notify [OF w] s' qframeD(1) [OF s'(2)] by auto
qed

lemma chain_cong: "\<forall>u\<in>set xs. n u = m u \<Longrightarrow> chain n xs = chain m xs"
  by (induction xs) (auto simp: chain_Cons)

lemma notify_loop_ok:
  assumes "K F L s" "chain (k_next s) xs" "distinct xs" "set xs \<subseteq> F" "length xs < n"
    "\<forall>t\<in>set xs. st_of s t = WAITING \<and> t_wait_for (k_tcb s t) \<noteq> None"
  shows "\<exists>s'. notify_loop n (hd_opt xs) NOTIFY s = Inr (length xs, False, s') \<and> sframe s s' \<and>
    K (F - set xs) (fold (ready_at s) xs L) s' \<and>
    k_tcb s' = (\<lambda>t. if t \<in> set xs then woken NOTIFY (k_tcb s t) else k_tcb s t)"
  using assms
proof (induction xs arbitrary: F L s n)
  case Nil
  then show ?case by (cases n) auto
next
  case (Cons t xs)
  obtain m where n: "n = Suc m" using Cons.prems(5) by (cases n) auto
  have t: "t \<in> F" using Cons.prems(4) by simp
  obtain s1 s2 where s: "set_state t (ToReady NOTIFY) s = Inr (True, s1)" "sched_put t s1 = Inr s2" "sframe s s2"
    "k_tcb s2 = (k_tcb s)(t := woken NOTIFY (k_tcb s t))" "K (F - {t}) (ready_at s t L) s2"
    "\<forall>u. u \<noteq> t \<and> u \<notin> queued L \<longrightarrow> k_next s2 u = k_next s u"
    using wake_one [OF Cons.prems(1) t] Cons.prems(6) by auto
  have xs: "distinct xs" "set xs \<subseteq> F - {t}" "length xs < m" "chain (k_next s) xs" "t \<notin> set xs"
    using Cons.prems n by (auto simp: chain_Cons)
  have "\<forall>u\<in>set xs. k_next s2 u = k_next s u"
    using s(6) xs(2) KD(3) [OF Cons.prems(1)] by blast
  then have ch: "chain (k_next s2) xs" using xs(4) chain_cong by blast
  have w: "\<forall>u\<in>set xs. st_of s2 u = WAITING \<and> t_wait_for (k_tcb s2 u) \<noteq> None"
    using Cons.prems(6) s(4) xs(5) by auto
  from Cons.IH [OF s(5) ch xs(1,2,3) w] obtain s3 where s3:
    "notify_loop m (hd_opt xs) NOTIFY s2 = Inr (length xs, False, s3)" "sframe s2 s3"
    "K (F - {t} - set xs) (fold (ready_at s2) xs (ready_at s t L)) s3"
    "k_tcb s3 = (\<lambda>u. if u \<in> set xs then woken NOTIFY (k_tcb s2 u) else k_tcb s2 u)" by blast
  have r: "ready_at s2 = ready_at s" using s(4) by (auto simp: ready_at_def fun_eq_iff)
  have f: "F - {t} - set xs = F - set (t # xs)" by auto
  have T: "k_tcb s3 = (\<lambda>u. if u \<in> set (t # xs) then woken NOTIFY (k_tcb s u) else k_tcb s u)"
    using s(4) s3(4) xs(5) by (auto simp: fun_eq_iff)
  have "notify_loop n (hd_opt (t # xs)) NOTIFY s = Inr (length (t # xs), False, s3)"
    using Cons.prems(2) s(1,2) s3(1) n by (simp add: chain_Cons)
  moreover have "K (F - set (t # xs)) (fold (ready_at s) (t # xs) L) s3" using s3(3) unfolding r f by simp
  ultimately show ?case using T sframe_trans [OF s(3) s3(2)] by blast
qed

section \<open>Signalling the collector\<close>

lemma chain_single: "K F L s \<Longrightarrow> L q = t # ts \<Longrightarrow> tq_get q s = Inr (Some t, s') \<Longrightarrow> k_next s' t = None"
  using repD(1) [OF KD(1), of F L s q] by (auto simp: tq_get_def is_queue_def Let_def res_simps)

lemma signal_one_ok:
  assumes k: "K F L s"
  shows "\<exists>s' L'. signal_one (Suc n) ob s = Inr (L (WaitQ ob) \<noteq> [], s') \<and> sframe s s' \<and> K F L' s' \<and>
    (case L (WaitQ ob) of [] \<Rightarrow> s' = s \<and> L' = L
     | t # ts \<Rightarrow> L' = ready_at s t (L(WaitQ ob := ts)) \<and> k_tcb s' = (k_tcb s)(t := woken NOTIFY (k_tcb s t)))"
proof (cases "L (WaitQ ob)")
  case Nil
  then show ?thesis using tq_get_empty [OF KD(1) [OF k]] k by auto
next
  case (Cons t ts)
  obtain s1 where s1: "tq_get (WaitQ ob) s = Inr (Some t, s1)" "qframe s s1" "K (insert t F) (L(WaitQ ob := ts)) s1"
    using K_get [OF k Cons] by blast
  have b: "belongs (k_tcb s t) (WaitQ ob)" and nF: "t \<notin> F" using KD(4,6) [OF k, of t "WaitQ ob"] Cons by simp_all
  have w: "\<forall>u\<in>set [t]. st_of s1 u = WAITING \<and> t_wait_for (k_tcb s1 u) \<noteq> None"
    using b qframeD(1) [OF s1(2)] by simp
  have ch: "chain (k_next s1) [t]" using chain_single [OF k Cons s1(1)] by simp
  have ids: "0 < k_ids s1" using KD(2) [OF s1(3), of t] by simp
  obtain s2 where s2: "notify_loop (Suc (k_ids s1)) (hd_opt [t]) NOTIFY s1 = Inr (length [t], False, s2)" "sframe s1 s2"
    "K (insert t F - set [t]) (fold (ready_at s1) [t] (L(WaitQ ob := ts))) s2"
    "k_tcb s2 = (\<lambda>u. if u \<in> set [t] then woken NOTIFY (k_tcb s1 u) else k_tcb s1 u)"
    using notify_loop_ok [OF s1(3) ch _ _ _ w, of "Suc (k_ids s1)"] ids by auto
  have "signal_one (Suc n) ob s = Inr (True, s2)" using s1(1) s2(1) by simp
  moreover have "ready_at s1 = ready_at s" using qframeD(1) [OF s1(2)] by (simp add: ready_at_def [abs_def])
  moreover have "insert t F - set [t] = F" using nF by simp
  moreover have "k_tcb s2 = (k_tcb s)(t := woken NOTIFY (k_tcb s t))"
    using s2(4) qframeD(1) [OF s1(2)] by (auto simp: fun_eq_iff)
  ultimately show ?thesis using s2(2,3) sframe_trans [OF qframe_sframe [OF s1(2)] s2(2)] Cons by auto
qed

text \<open>The part of this that the operations rely on: only a waiting thread changes, and nothing leaves a ready queue.\<close>

definition calm :: "kernel \<Rightarrow> (qid \<Rightarrow> nat list) \<Rightarrow> kernel \<Rightarrow> (qid \<Rightarrow> nat list) \<Rightarrow> bool" where
  "calm s L s' L' \<longleftrightarrow> sframe s s' \<and> (\<forall>p. set (L (ReadyQ p)) \<subseteq> set (L' (ReadyQ p))) \<and>
     (\<forall>t. st_of s t \<noteq> WAITING \<longrightarrow> k_tcb s' t = k_tcb s t)"

lemma calmI [simp, intro]: "calm s L s L"
  by (simp add: calm_def)

lemma signal_calm:
  assumes k: "K F L s"
  shows "\<exists>b s' L'. signal_one (Suc n) ob s = Inr (b, s') \<and> K F L' s' \<and> calm s L s' L' \<and> (\<forall>t\<in>F. k_tcb s' t = k_tcb s t)"
proof -
  obtain s' L' where s': "signal_one (Suc n) ob s = Inr (L (WaitQ ob) \<noteq> [], s')" "sframe s s'" "K F L' s'"
    "case L (WaitQ ob) of [] \<Rightarrow> s' = s \<and> L' = L
     | t # ts \<Rightarrow> L' = ready_at s t (L(WaitQ ob := ts)) \<and> k_tcb s' = (k_tcb s)(t := woken NOTIFY (k_tcb s t))"
    using signal_one_ok [OF k, of n ob] by blast
  have "calm s L s' L' \<and> (\<forall>t\<in>F. k_tcb s' t = k_tcb s t)"
  proof (cases "L (WaitQ ob)")
    case (Cons t ts)
    then have t: "st_of s t = WAITING" "t \<notin> F" using KD(4,6) [OF k, of t "WaitQ ob"] by simp_all
    show ?thesis using s'(2,4) Cons t by (auto simp: calm_def ready_at_def Let_def)
  qed (use s' in auto)
  then show ?thesis using s' by blast
qed

lemma gc_signal_ok:
  assumes k: "K F L s"
  shows "\<exists>s' L'. gc_signal target s = Inr s' \<and> K F L' s' \<and> calm s L s' L' \<and> (\<forall>t\<in>F. k_tcb s' t = k_tcb s t)"
proof (cases "target = Some (k_th_gc s)")
  case True
  then show ?thesis using k by (auto simp: gc_signal_def)
next
  case False
  have "signal_depth = Suc (Suc 0)" by (simp add: signal_depth_def)
  then show ?thesis using signal_calm [OF k, of "Suc 0" gc_event] False by (auto simp: gc_signal_def)
qed

section \<open>Choosing the next thread\<close>

definition readyset :: "(qid \<Rightarrow> nat list) \<Rightarrow> nat set" where
  "readyset L = (\<Union>p. set (L (ReadyQ p)))"

definition passed_over :: "(nat \<Rightarrow> tcb) \<Rightarrow> nat option \<Rightarrow> nat \<Rightarrow> bool" where
  "passed_over T aside u \<longleftrightarrow> t_state (T u) = STOPPED \<or> aside = Some u"

text \<open>The choice: the first thread that can run, at the most urgent level below \<open>level\<close> that has one.\<close>

definition chosen :: "(nat \<Rightarrow> tcb) \<Rightarrow> (qid \<Rightarrow> nat list) \<Rightarrow> nat \<Rightarrow> nat option \<Rightarrow> nat option \<Rightarrow> bool" where
  "chosen T L level aside nx = (case nx of
     None \<Rightarrow> \<forall>p < min level max_priority. \<forall>u\<in>set (L (ReadyQ p)). passed_over T aside u
   | Some t \<Rightarrow> t_state (T t) = READY \<and> aside \<noteq> Some t \<and>
       (\<exists>p us vs. p < min level max_priority \<and> L (ReadyQ p) = us @ t # vs \<and> (\<forall>u\<in>set us. passed_over T aside u) \<and>
          (\<forall>i<p. \<forall>u\<in>set (L (ReadyQ i)). passed_over T aside u)))"

lemma chosen_SomeI:
  assumes "t_state (T t) = READY" "aside \<noteq> Some t" "p < min level max_priority" "L (ReadyQ p) = us @ t # vs"
    "\<forall>u\<in>set us. passed_over T aside u" "\<And>i u. i < p \<Longrightarrow> u \<in> set (L (ReadyQ i)) \<Longrightarrow> passed_over T aside u"
  shows "chosen T L level aside (Some t)"
  using assms unfolding chosen_def option.case by blast

lemma chosen_skip:
  assumes p: "L (ReadyQ p) = t # ts" "passed_over T aside t" "\<forall>j<p. L (ReadyQ j) = []"
    and L': "L' (ReadyQ p) = ts" "\<And>i. i \<noteq> p \<Longrightarrow> L' (ReadyQ i) = L (ReadyQ i)" and c: "chosen T L' level aside nx"
  shows "chosen T L level aside nx"
proof (cases nx)
  case None
  have "passed_over T aside u" if "i < min level max_priority" "u \<in> set (L (ReadyQ i))" for i u
    using c that p L' None by (cases "i = p") (auto simp: chosen_def)
  then show ?thesis using None by (simp add: chosen_def)
next
  case (Some x)
  then obtain k us vs where k: "k < min level max_priority" "L' (ReadyQ k) = us @ x # vs" "\<forall>u\<in>set us. passed_over T aside u"
    "\<forall>i<k. \<forall>u\<in>set (L' (ReadyQ i)). passed_over T aside u" and x: "t_state (T x) = READY" "aside \<noteq> Some x"
    using c by (auto simp: chosen_def)
  have low: "passed_over T aside u" if "i < k" "u \<in> set (L (ReadyQ i))" for i u
    using that k(4) p L' by (cases "i = p") auto
  show ?thesis
  proof (cases "k = p")
    case True
    then have "L (ReadyQ k) = (t # us) @ x # vs" "\<forall>u\<in>set (t # us). passed_over T aside u" using p k L' by auto
    then show ?thesis unfolding Some by (rule chosen_SomeI [OF x k(1) _ _ low])
  next
    case False
    then have "L (ReadyQ k) = us @ x # vs" using k(2) L'(2) by simp
    then show ?thesis unfolding Some by (rule chosen_SomeI [OF x k(1) _ k(3) low])
  qed
qed

lemma readyset_step:
  assumes k: "K F L s" and p: "L (ReadyQ p) = t # ts" and L': "L' (ReadyQ p) = ts" "\<And>i. i \<noteq> p \<Longrightarrow> L' (ReadyQ i) = L (ReadyQ i)"
  shows "readyset L = insert t (readyset L')" "t \<notin> readyset L'" "finite (readyset L)"
proof -
  have "t \<notin> set ts" using repD(2) [OF KD(1) [OF k], of "ReadyQ p"] p by simp
  moreover have "t \<notin> set (L (ReadyQ i))" if "i \<noteq> p" for i using K_same_queue [OF k, of t "ReadyQ p" "ReadyQ i"] that p by auto
  ultimately have "t \<notin> set (L' (ReadyQ i))" for i using L' by (cases "i = p") simp_all
  then show "t \<notin> readyset L'" by (simp add: readyset_def)
  have "set (L (ReadyQ i)) = (if i = p then insert t (set (L' (ReadyQ i))) else set (L' (ReadyQ i)))" for i
    using p L' by simp
  then have "set (L (ReadyQ i)) - {t} = set (L' (ReadyQ i)) - {t}" for i by auto
  then have "x \<in> readyset L \<longleftrightarrow> x \<in> readyset L'" if "x \<noteq> t" for x using that unfolding readyset_def by blast
  moreover have "t \<in> readyset L" using p unfolding readyset_def by (metis UN_I UNIV_I list.set_intros(1))
  ultimately show "readyset L = insert t (readyset L')" by (intro set_eqI) (case_tac "x = t", simp_all)
  have "readyset L \<subseteq> {..<k_ids s}" using KD(5) [OF k] by (auto simp: readyset_def)
  then show "finite (readyset L)" by (rule finite_subset) simp
qed

lemma readyset_card: "K F L s \<Longrightarrow> card (readyset L) \<le> k_ids s"
  using card_mono [of "{..<k_ids s}" "readyset L"] KD(5) [of F L s] by (fastforce simp: readyset_def)

definition kept :: "(nat \<Rightarrow> tcb) \<Rightarrow> (qid \<Rightarrow> nat list) \<Rightarrow> nat option \<Rightarrow> nat option \<Rightarrow> (qid \<Rightarrow> nat list) \<Rightarrow> bool" where
  "kept T L nx aside L' \<longleftrightarrow> (\<forall>p u. u \<in> set (L (ReadyQ p)) \<and> t_state (T u) = READY \<and> nx \<noteq> Some u \<and> aside \<noteq> Some u \<longrightarrow>
     u \<in> set (L' (ReadyQ p)))"

definition picked :: "(nat \<Rightarrow> tcb) \<Rightarrow> nat option \<Rightarrow> (nat \<Rightarrow> tcb)" where
  "picked T nx = (case nx of None \<Rightarrow> T | Some t \<Rightarrow> T(t := (T t)\<lparr>t_state := RUNNING\<rparr>))"

lemma kept_skip:
  assumes "L (ReadyQ p) = t # ts" "L1 (ReadyQ p) = ts" "\<And>i. i \<noteq> p \<Longrightarrow> L1 (ReadyQ i) = L (ReadyQ i)"
    "t_state (T t) \<noteq> READY \<or> nx = Some t \<or> aside = Some t" "kept T L1 nx aside L'"
  shows "kept T L nx aside L'"
  unfolding kept_def
proof (intro allI impI)
  fix q u assume u: "u \<in> set (L (ReadyQ q)) \<and> t_state (T u) = READY \<and> nx \<noteq> Some u \<and> aside \<noteq> Some u"
  then have "u \<in> set (L1 (ReadyQ q))" using assms(1-4) by (cases "q = p") auto
  then show "u \<in> set (L' (ReadyQ q))" using assms(5) u unfolding kept_def by blast
qed

lemma pick_loop_ok:
  assumes "K F L s" "card (readyset L) < n" "set_option pb \<subseteq> F"
  shows "\<exists>nx pb' g' s' L'. pick_loop n level aside pb g s = Inr (nx, pb', g', s') \<and> sframe s s' \<and>
    K (F \<union> set_option nx \<union> set_option pb') L' s' \<and> k_tcb s' = picked (k_tcb s) nx \<and> chosen (k_tcb s) L level aside nx \<and>
    set_option nx \<inter> F = {} \<and> kept (k_tcb s) L nx aside L' \<and>
    (pb' = pb \<or> (pb' = aside \<and> set_option pb' \<inter> F = {} \<and> set_option pb' \<subseteq> readyset L))"
  using assms
proof (induction n arbitrary: F L s pb g)
  case (Suc n)
  note k = Suc.prems(1)
  from sched_get_ok [OF k, of level] show ?case
  proof
    assume "sched_get level s = Inr (None, s) \<and> (\<forall>j<min level max_priority. L (ReadyQ j) = [])"
    then have "pick_loop (Suc n) level aside pb g s = Inr (None, pb, g, s)" "chosen (k_tcb s) L level aside None"
      by (auto simp: chosen_def)
    moreover have "F \<union> set_option None \<union> set_option pb = F" using Suc.prems(3) by auto
    ultimately show ?thesis using k by (intro exI [of _ None] exI [of _ pb] exI [of _ g] exI [of _ s] exI [of _ L])
      (simp add: picked_def kept_def)
  next
    assume "\<exists>p t ts s'. p < min level max_priority \<and> (\<forall>j<p. L (ReadyQ j) = []) \<and> L (ReadyQ p) = t # ts \<and>
       sched_get level s = Inr (Some t, s') \<and> qframe s s' \<and> K (insert t F) (L(ReadyQ p := ts)) s'"
    then obtain p t ts s1 where p: "p < min level max_priority" "\<forall>j<p. L (ReadyQ j) = []" "L (ReadyQ p) = t # ts"
      and s1: "sched_get level s = Inr (Some t, s1)" "qframe s s1" "K (insert t F) (L(ReadyQ p := ts)) s1" by blast
    have T: "k_tcb s1 = k_tcb s" using qframeD(1) [OF s1(2)] .
    have b: "belongs (k_tcb s t) (ReadyQ p)" and nF: "t \<notin> F" using KD(4,6) [OF k, of t "ReadyQ p"] p(3) by simp_all
    have rs: "readyset L = insert t (readyset (L(ReadyQ p := ts)))" "t \<notin> readyset (L(ReadyQ p := ts))" "finite (readyset L)"
      using readyset_step [OF k p(3), of "L(ReadyQ p := ts)"] by auto
    then have card: "card (readyset (L(ReadyQ p := ts))) < n" using Suc.prems(2) by simp
    consider (aside) "aside = Some t" | (stop) "aside \<noteq> Some t" "st_of s t = STOPPED" | (run) "aside \<noteq> Some t" "st_of s t = READY"
      using b by auto
    then show ?thesis
    proof cases
      case aside
      have "set_option (Some t) \<subseteq> insert t F" by simp
      from Suc.IH [OF s1(3) card this, of g] obtain nx pb' g' s' L' where
        r: "pick_loop n level aside (Some t) g s1 = Inr (nx, pb', g', s')" "sframe s1 s'"
        and kk: "K (insert t F \<union> set_option nx \<union> set_option pb') L' s'" and t': "k_tcb s' = picked (k_tcb s1) nx"
        and c: "chosen (k_tcb s1) (L(ReadyQ p := ts)) level aside nx" "set_option nx \<inter> insert t F = {}"
        "kept (k_tcb s1) (L(ReadyQ p := ts)) nx aside L'" and pb0: "pb' = Some t \<or> (pb' = aside \<and> set_option pb' \<inter> insert t F = {} \<and>
          set_option pb' \<subseteq> readyset (L(ReadyQ p := ts)))" by blast
      have pb: "pb' = Some t" using pb0 aside by auto
      have "insert t F \<union> set_option nx \<union> set_option pb' = F \<union> set_option nx \<union> set_option pb'" using pb by auto
      moreover have "chosen (k_tcb s) L level aside nx"
        using chosen_skip [OF p(3) _ p(2) _ _ c(1)] aside T by (simp add: passed_over_def)
      moreover have "kept (k_tcb s) L nx aside L'" using kept_skip [of L p t ts "L(ReadyQ p := ts)" "k_tcb s" nx aside L'] p(3) c(3) aside unfolding T by simp
      moreover have "pick_loop (Suc n) level aside pb g s = Inr (nx, pb', g', s')" using s1(1) aside r(1) by simp
      moreover have "sframe s s'" using sframe_trans [OF qframe_sframe [OF s1(2)] r(2)] .
      moreover have "set_option pb' \<inter> F = {}" "set_option pb' \<subseteq> readyset L" "pb' = aside" using pb nF rs(1) aside by auto
      ultimately show ?thesis using kk t' T c(2) by - (rule exI [of _ nx], rule exI [of _ pb'], rule exI [of _ g'], rule exI [of _ s'], rule exI [of _ L'], simp)
    next
      case stop
      have so: "stopped_ok (k_tcb s1 t)" using b stop T by (simp add: stopped_ok_def)
      obtain s2 where s2: "on_stop t s1 = Inr s2" "qframe s1 s2"
        "K (insert t F - {t}) (L(ReadyQ p := ts, GcQ := (L(ReadyQ p := ts)) GcQ @ [t])) s2"
        using on_stop_ok [OF s1(3) insertI1 so] by blast
      let ?L = "L(ReadyQ p := ts, GcQ := (L(ReadyQ p := ts)) GcQ @ [t])"
      have f: "insert t F - {t} = F" using nF by simp
      have c2: "card (readyset ?L) < n" using card by (simp add: readyset_def)
      have T2: "k_tcb s2 = k_tcb s" using qframeD(1) [OF s2(2)] T by simp
      from Suc.IH [OF s2(3) [unfolded f] c2 Suc.prems(3), of True] obtain nx pb' g' s' L' where
        r: "pick_loop n level aside pb True s2 = Inr (nx, pb', g', s')" "sframe s2 s'" "K (F \<union> set_option nx \<union> set_option pb') L' s'"
        "k_tcb s' = picked (k_tcb s) nx" and c: "chosen (k_tcb s) ?L level aside nx" "set_option nx \<inter> F = {}" "kept (k_tcb s) ?L nx aside L'"
        "pb' = pb \<or> (pb' = aside \<and> set_option pb' \<inter> F = {} \<and> set_option pb' \<subseteq> readyset ?L)" unfolding T2 by blast
      have "pick_loop (Suc n) level aside pb g s = Inr (nx, pb', g', s')"
        using s1(1) stop T s2(1) r(1) by (simp add: set_state_def)
      moreover have "chosen (k_tcb s) L level aside nx"
        using chosen_skip [OF p(3) _ p(2) _ _ c(1)] stop by (simp add: passed_over_def)
      moreover have "kept (k_tcb s) L nx aside L'" using kept_skip [of L p t ts ?L "k_tcb s" nx aside L'] p(3) c(3) stop by simp
      moreover have "readyset ?L \<subseteq> readyset L" using rs(1) by (auto simp: readyset_def)
      then have "pb' = pb \<or> (pb' = aside \<and> set_option pb' \<inter> F = {} \<and> set_option pb' \<subseteq> readyset L)" using c(4) by blast
      moreover have "sframe s s'"
        using sframe_trans [OF qframe_sframe [OF s1(2)] sframe_trans [OF qframe_sframe [OF s2(2)] r(2)]] .
      ultimately show ?thesis using r(3,4) c(2)
        by - (rule exI [of _ nx], rule exI [of _ pb'], rule exI [of _ g'], rule exI [of _ s'], rule exI [of _ L'], simp)
    next
      case run
      let ?s = "upd t (\<lambda>c. c\<lparr>t_state := RUNNING\<rparr>) s1"
      have "K (insert t F) (L(ReadyQ p := ts)) ?s"
        using KD(7) [OF s1(3), of t] KD(2) [OF s1(3), of t] by (intro K_upd [OF s1(3)]) auto
      moreover have "pick_loop (Suc n) level aside pb g s = Inr (Some t, pb, g, ?s)"
        using s1(1) run T by (simp add: set_state_def)
      moreover have "chosen (k_tcb s) L level aside (Some t)" using p run by (intro chosen_SomeI [where us = "[]"]) auto
      moreover have "kept (k_tcb s) L (Some t) aside (L(ReadyQ p := ts))"
        by (rule kept_skip [of L p t ts "L(ReadyQ p := ts)"]) (use p(3) in \<open>auto simp: kept_def\<close>)
      moreover have "k_tcb ?s = picked (k_tcb s) (Some t)" using T by (simp add: picked_def)
      moreover have "sframe s ?s" using sframe_trans [OF qframe_sframe [OF s1(2)]] by simp
      moreover have "F \<union> set_option (Some t) \<union> set_option pb = insert t F" using Suc.prems(3) by auto
      ultimately show ?thesis using nF
        by - (rule exI [of _ "Some t"], rule exI [of _ pb], rule exI [of _ g], rule exI [of _ ?s], rule exI [of _ "L(ReadyQ p := ts)"], simp add: fun_upd_def)
    qed
  qed
qed simp

section \<open>The invariant of the core between operations\<close>

text \<open>\<open>D\<close> is the set of threads that the collector has already taken.\<close>

definition flying :: "nat set \<Rightarrow> kernel \<Rightarrow> nat set" where
  "flying D s = {k_cur s} \<union> set_option (k_gc_ptr s) \<union> D"

definition kinv :: "nat set \<Rightarrow> (qid \<Rightarrow> nat list) \<Rightarrow> kernel \<Rightarrow> bool" where
  "kinv D L s \<longleftrightarrow> K (flying D s) L s \<and> idle_fields (k_tcb s (k_cur s)) \<and>
     (st_of s (k_cur s) = RUNNING \<or> st_of s (k_cur s) = STOPPED) \<and> k_cur s \<notin> D \<and>
     (\<forall>g\<in>set_option (k_gc_ptr s). g \<noteq> k_cur s \<and> g \<notin> D \<and> stopped_ok (k_tcb s g)) \<and>
     (\<forall>d\<in>D. stopped_ok (k_tcb s d))"

text \<open>What \<open>irq_switch_to\<close> needs: the target is running and in flight, and the old thread has been put away unless it has stopped.\<close>

definition leaving :: "kernel \<Rightarrow> nat set" where
  "leaving s = (if st_of s (k_cur s) = STOPPED then {k_cur s} else {})"

lemma switch_to_ok:
  assumes k: "K ({t} \<union> leaving s \<union> set_option (k_gc_ptr s) \<union> D) L s"
    and t: "st_of s t = RUNNING" "idle_fields (k_tcb s t)" "t \<noteq> k_cur s" "t \<notin> D"
    and cur: "st_of s (k_cur s) = STOPPED \<longrightarrow> idle_fields (k_tcb s (k_cur s)) \<and> k_cur s \<notin> D"
    and g: "\<forall>g\<in>set_option (k_gc_ptr s). g \<noteq> k_cur s \<and> g \<noteq> t \<and> g \<notin> D \<and> stopped_ok (k_tcb s g)"
    and d: "\<forall>d\<in>D. stopped_ok (k_tcb s d)"
  shows "\<exists>s' L'. switch_to t s = Inr s' \<and> kinv D L' s' \<and> k_cur s' = t \<and>
    (\<forall>u. st_of s u \<noteq> WAITING \<longrightarrow> k_tcb s' u = k_tcb s u) \<and> k_ids s' = k_ids s"
proof -
  let ?stop = "st_of s (k_cur s) = STOPPED"
  show ?thesis
  proof (cases "k_gc_ptr s")
    case None
    let ?s = "(if ?stop then s\<lparr>k_gc_ptr := Some (k_cur s)\<rparr> else s)\<lparr>k_cur := t\<rparr>"
    have eq: "switch_to t s = Inr ?s" using t(1) None by (simp add: switch_to_def irq_switch_to_def Let_def)
    have "flying D ?s = {t} \<union> leaving s \<union> set_option (k_gc_ptr s) \<union> D" using None by (auto simp: flying_def leaving_def)
    then have "kinv D L ?s" using k t cur None d unfolding kinv_def by (auto simp: stopped_ok_def)
    then show ?thesis using eq by (auto intro!: exI [of _ ?s] exI [of _ L])
  next
    case (Some x)
    have x: "x \<noteq> k_cur s" "x \<noteq> t" "x \<notin> D" "stopped_ok (k_tcb s x)" using g Some by simp_all
    let ?F = "{t} \<union> leaving s \<union> D"
    have "x \<in> {t} \<union> leaving s \<union> set_option (k_gc_ptr s) \<union> D" using Some by simp
    from on_stop_ok [OF k this x(4)] obtain s1 where s1: "on_stop x s = Inr s1" "qframe s s1"
      "K ({t} \<union> leaving s \<union> set_option (k_gc_ptr s) \<union> D - {x}) (L(GcQ := L GcQ @ [x])) s1" by blast
    have "{t} \<union> leaving s \<union> set_option (k_gc_ptr s) \<union> D - {x} = ?F" using x Some by (auto simp: leaving_def)
    then have k1: "K ?F (L(GcQ := L GcQ @ [x])) s1" using s1(3) by simp
    let ?s2 = "s1\<lparr>k_gc_ptr := if ?stop then Some (k_cur s) else None\<rparr>"
    have "K ?F (L(GcQ := L GcQ @ [x])) ?s2" using k1 by simp
    from gc_signal_ok [OF this, of "Some t"] obtain s3 L3 where s3: "gc_signal (Some t) ?s2 = Inr s3" "K ?F L3 s3"
      "calm ?s2 (L(GcQ := L GcQ @ [x])) s3 L3" "\<forall>u\<in>?F. k_tcb s3 u = k_tcb ?s2 u" by blast
    note T = qframeD [OF s1(2)]
    have fr: "k_tcb s3 u = k_tcb s u" if "u \<in> ?F \<or> st_of s u \<noteq> WAITING" for u
      using that s3(3,4) T(1) by (auto simp: calm_def)
    have sf: "sframe ?s2 s3" using s3(3) by (simp add: calm_def)
    have eq: "switch_to t s = Inr (s3\<lparr>k_cur := t\<rparr>)"
      using t(1) Some s1(1) s3(1) T by (auto simp: switch_to_def irq_switch_to_def Let_def)
    have fl: "flying D (s3\<lparr>k_cur := t\<rparr>) = ?F" using sframeD(2) [OF sf] by (auto simp: flying_def leaving_def)
    have "st_of s u \<noteq> WAITING" if "u \<in> D" for u using that d by (auto simp: stopped_ok_def)
    then have "kinv D L3 (s3\<lparr>k_cur := t\<rparr>)"
      unfolding kinv_def fl using s3(2) t cur d fr [of t] fr sframeD(2) [OF sf] by (auto simp: stopped_ok_def)
    then show ?thesis using eq fr sframeD(3) [OF sf] T(2) by (auto intro!: exI [of _ "s3\<lparr>k_cur := t\<rparr>"] exI [of _ L3])
  qed
qed

end
