(* ===== verification/Sched_Ops.thy ===== *)
theory Sched_Ops
  imports Sched_Inv
begin

text \<open>
  The operations of the scheduler as a whole: each returns, keeps the invariant, and does what it is for. The assumption that a
  thread is ready where a thread must be found is what the idle thread provides; without it the code stops with
  \<open>no ready thread\<close>.
\<close>

lemma rbind_Inr_id [simp]: "rbind m Inr = m"
  by (cases m) simp_all

section \<open>Picking and collecting\<close>

definition after_pick :: "nat set \<Rightarrow> (qid \<Rightarrow> nat list) \<Rightarrow> kernel \<Rightarrow> nat \<Rightarrow> nat option \<Rightarrow> nat option \<Rightarrow> nat option \<Rightarrow>
    kernel \<Rightarrow> (qid \<Rightarrow> nat list) \<Rightarrow> bool" where
  "after_pick F L s level aside nx pb s' L' \<longleftrightarrow>
     K (F \<union> set_option nx \<union> set_option pb) L' s' \<and> sframe s s' \<and> chosen (k_tcb s) L level aside nx \<and>
     set_option nx \<inter> F = {} \<and> kept (k_tcb s) L nx aside L' \<and>
     (\<forall>u. u \<in> F \<union> set_option nx \<union> set_option pb \<or> st_of s u \<noteq> WAITING \<longrightarrow> k_tcb s' u = picked (k_tcb s) nx u) \<and>
     (pb = None \<or> (pb = aside \<and> set_option pb \<inter> F = {} \<and> set_option pb \<subseteq> readyset L))"

lemma picked_waiting: "chosen T L level aside nx \<Longrightarrow> t_state (T u) \<noteq> WAITING \<Longrightarrow> t_state (picked T nx u) \<noteq> WAITING"
  by (auto simp: picked_def chosen_def split: option.splits)

lemma pick_signal:
  assumes k: "K F L s"
  shows "\<exists>nx pb g s1. pick_loop (k_ids s + 2) level aside None False s = Inr (nx, pb, g, s1) \<and>
    (\<forall>tg. \<exists>s' L'. (if g then gc_signal tg s1 else Inr s1) = Inr s' \<and> after_pick F L s level aside nx pb s' L')"
proof -
  have "card (readyset L) < k_ids s + 2" using readyset_card [OF k] by simp
  then obtain nx pb g s1 L1 where r: "pick_loop (k_ids s + 2) level aside None False s = Inr (nx, pb, g, s1)" "sframe s s1"
    "K (F \<union> set_option nx \<union> set_option pb) L1 s1" "k_tcb s1 = picked (k_tcb s) nx" "chosen (k_tcb s) L level aside nx"
    "set_option nx \<inter> F = {}" "kept (k_tcb s) L nx aside L1"
    "pb = None \<or> (pb = aside \<and> set_option pb \<inter> F = {} \<and> set_option pb \<subseteq> readyset L)"
    using pick_loop_ok [OF k, of "k_ids s + 2" None level aside False] by auto
  have "\<exists>s' L'. (if g then gc_signal tg s1 else Inr s1) = Inr s' \<and> after_pick F L s level aside nx pb s' L'" for tg
  proof (cases g)
    case True
    obtain s2 L2 where g: "gc_signal tg s1 = Inr s2" "K (F \<union> set_option nx \<union> set_option pb) L2 s2" "calm s1 L1 s2 L2"
      "\<forall>t\<in>F \<union> set_option nx \<union> set_option pb. k_tcb s2 t = k_tcb s1 t"
      using gc_signal_ok [OF r(3)] by blast
    have "\<forall>u. u \<in> F \<union> set_option nx \<union> set_option pb \<or> st_of s u \<noteq> WAITING \<longrightarrow> k_tcb s2 u = picked (k_tcb s) nx u"
      using g(3,4) r(4) picked_waiting [OF r(5)] by (auto simp: calm_def)
    moreover have "kept (k_tcb s) L nx aside L2" using r(7) g(3) unfolding kept_def calm_def by blast
    moreover have "sframe s s2" using r(2) g(3) sframe_trans by (auto simp: calm_def)
    ultimately show ?thesis using True g(1,2) r(5,6,8) unfolding after_pick_def by simp blast
  next
    case False
    then show ?thesis using r unfolding after_pick_def by auto
  qed
  then show ?thesis using r(1) by blast
qed

lemma after_pickD:
  assumes "after_pick F L s level aside nx pb s' L'"
  shows "K (F \<union> set_option nx \<union> set_option pb) L' s'" "sframe s s'" "chosen (k_tcb s) L level aside nx" "set_option nx \<inter> F = {}"
    "kept (k_tcb s) L nx aside L'"
    "u \<in> F \<union> set_option nx \<union> set_option pb \<or> st_of s u \<noteq> WAITING \<Longrightarrow> k_tcb s' u = picked (k_tcb s) nx u"
    "pb = None \<or> (pb = aside \<and> set_option pb \<inter> F = {} \<and> set_option pb \<subseteq> readyset L)"
  using assms unfolding after_pick_def by blast+

lemma pick_try_ok:
  assumes k: "K F L s"
  shows "\<exists>nx s' L'. pick_try level s = Inr (nx, s') \<and> after_pick F L s level None nx None s' L'"
proof -
  obtain nx pb g s1 where r: "pick_loop (k_ids s + 2) level None None False s = Inr (nx, pb, g, s1)"
    "\<forall>tg. \<exists>s' L'. (if g then gc_signal tg s1 else Inr s1) = Inr s' \<and> after_pick F L s level None nx pb s' L'"
    using pick_signal [OF k] by blast
  then obtain s' L' where "(if g then gc_signal nx s1 else Inr s1) = Inr s'" "after_pick F L s level None nx pb s' L'" by blast
  moreover from this have "pb = None" by (auto simp: after_pick_def)
  ultimately show ?thesis using r(1) by (auto simp: pick_try_def)
qed

definition some_ready :: "(qid \<Rightarrow> nat list) \<Rightarrow> kernel \<Rightarrow> nat option \<Rightarrow> bool" where
  "some_ready L s aside \<longleftrightarrow> (\<exists>u\<in>readyset L. st_of s u = READY \<and> aside \<noteq> Some u)"

lemma some_ready_chosen:
  assumes k: "K F L s" and "some_ready L s aside" "chosen (k_tcb s) L max_priority aside nx"
  shows "nx \<noteq> None"
proof
  assume n: "nx = None"
  obtain p u where u: "u \<in> set (L (ReadyQ p))" "st_of s u = READY" "aside \<noteq> Some u"
    using assms(2) by (auto simp: some_ready_def readyset_def)
  have "p < max_priority" using KD(6) [OF k u(1)] by simp
  then have "passed_over (k_tcb s) aside u" using assms(3) n u(1) by (auto simp: chosen_def)
  then show False using u by (simp add: passed_over_def)
qed

lemma pick_ok:
  assumes k: "K F L s" and ready: "some_ready L s aside"
  shows "\<exists>t pb s' L'. pick aside named s = Inr (t, pb, s') \<and> after_pick F L s max_priority aside (Some t) pb s' L'"
proof -
  obtain nx pb g s1 where r: "pick_loop (k_ids s + 2) max_priority aside None False s = Inr (nx, pb, g, s1)"
    "\<forall>tg. \<exists>s' L'. (if g then gc_signal tg s1 else Inr s1) = Inr s' \<and> after_pick F L s max_priority aside nx pb s' L'"
    using pick_signal [OF k] by blast
  obtain t where t: "nx = Some t"
    using r(2) some_ready_chosen [OF k ready] by (metis after_pick_def not_Some_eq)
  obtain s' L' where "(if g then gc_signal (if named then Some t else None) s1 else Inr s1) = Inr s'"
    "after_pick F L s max_priority aside nx pb s' L'" using r(2) by blast
  then show ?thesis using r(1) t by (auto simp: pick_def)
qed

section \<open>Between the choice and the switch\<close>

definition kcore :: "nat set \<Rightarrow> kernel \<Rightarrow> bool" where
  "kcore D s \<longleftrightarrow> idle_fields (k_tcb s (k_cur s)) \<and>
     (st_of s (k_cur s) = RUNNING \<or> st_of s (k_cur s) = STOPPED) \<and> k_cur s \<notin> D \<and>
     (\<forall>g\<in>set_option (k_gc_ptr s). g \<noteq> k_cur s \<and> g \<notin> D \<and> stopped_ok (k_tcb s g)) \<and>
     (\<forall>d\<in>D. stopped_ok (k_tcb s d))"

lemma kinv_eq: "kinv D L s \<longleftrightarrow> K (flying D s) L s \<and> kcore D s"
  unfolding kinv_def kcore_def by blast

definition mid :: "nat set \<Rightarrow> nat set \<Rightarrow> (qid \<Rightarrow> nat list) \<Rightarrow> kernel \<Rightarrow> nat \<Rightarrow> bool" where
  "mid D E L s t \<longleftrightarrow> K (flying D s \<union> {t} \<union> E) L s \<and> kcore D s \<and> t \<notin> flying D s \<and> t \<notin> E \<and> E \<inter> flying D s = {} \<and>
     st_of s t = RUNNING \<and> idle_fields (k_tcb s t)"

lemma kcore_cong:
  assumes "sframe s s'" "\<forall>u\<in>flying D s. k_tcb s' u = k_tcb s u"
  shows "kcore D s' = kcore D s" "flying D s' = flying D s"
proof -
  show "flying D s' = flying D s" using assms(1) by (simp add: sframe_def flying_def)
  have e: "k_cur s' = k_cur s" "k_gc_ptr s' = k_gc_ptr s" using assms(1) by (simp_all add: sframe_def)
  have "k_tcb s' (k_cur s) = k_tcb s (k_cur s)" "\<forall>g\<in>set_option (k_gc_ptr s). k_tcb s' g = k_tcb s g"
    "\<forall>d\<in>D. k_tcb s' d = k_tcb s d" using assms(2) by (auto simp: flying_def)
  then show "kcore D s' = kcore D s" unfolding kcore_def e by simp
qed

lemma chosen_idle: "K F L s \<Longrightarrow> chosen (k_tcb s) L level aside (Some t) \<Longrightarrow> idle_fields (k_tcb s t) \<and> st_of s t = READY \<and> t \<in> readyset L"
proof -
  assume k: "K F L s" and c: "chosen (k_tcb s) L level aside (Some t)"
  then obtain p us vs where p: "L (ReadyQ p) = us @ t # vs" "st_of s t = READY" by (auto simp: chosen_def)
  then have "t \<in> set (L (ReadyQ p))" by simp
  from KD(6) [OF k this] this show ?thesis using p(2) by (auto simp: readyset_def)
qed

lemma after_pick_mid:
  assumes inv: "kinv D L s" and a: "after_pick (flying D s) L s level aside (Some t) pb s' L'"
  shows "mid D (set_option pb) L' s' t"
proof -
  have k: "K (flying D s) L s" and c: "kcore D s" using inv by (simp_all add: kinv_eq)
  have ti: "idle_fields (k_tcb s t)" using chosen_idle [OF k] a by (auto simp: after_pick_def)
  have tF: "t \<notin> flying D s" using a by (auto simp: after_pick_def)
  have tt: "k_tcb s' u = picked (k_tcb s) (Some t) u" if "u \<in> flying D s \<union> {t}" for u using a that unfolding after_pick_def by auto
  have same: "\<forall>u\<in>flying D s. k_tcb s' u = k_tcb s u" using tt tF by (auto simp: picked_def)
  have sf: "sframe s s'" using a by (simp add: after_pick_def)
  note e = kcore_cong [OF sf same]
  have t': "st_of s' t = RUNNING" "idle_fields (k_tcb s' t)" using tt [of t] ti by (simp_all add: picked_def idle_fields_def)
  have "aside \<noteq> Some t" using a by (auto simp: after_pick_def chosen_def)
  then have "t \<notin> set_option pb" "set_option pb \<inter> flying D s = {}" using a by (auto simp: after_pick_def)
  then show ?thesis using a tF t' c unfolding mid_def e after_pick_def by simp
qed

text \<open>An operation is sound when it returns a state that satisfies the invariant again.\<close>

definition sound :: "nat set \<Rightarrow> nat \<Rightarrow> kernel res \<Rightarrow> bool" where
  "sound D ids r \<longleftrightarrow> (\<exists>s' L'. r = Inr s' \<and> kinv D L' s' \<and> k_ids s' = ids)"

lemma soundI: "r = Inr s' \<Longrightarrow> kinv D L' s' \<Longrightarrow> k_ids s' = ids \<Longrightarrow> sound D ids r"
  unfolding sound_def by blast

text \<open>The current thread has been put away or has stopped: switch.\<close>

lemma switch_away:
  assumes m: "mid D {} L s t" and st: "st_of s (k_cur s) = STOPPED"
  shows "\<exists>s' L'. switch_to t s = Inr s' \<and> kinv D L' s' \<and> k_cur s' = t \<and> k_ids s' = k_ids s"
proof -
  have c: "kcore D s" "K (flying D s \<union> {t}) L s" "t \<notin> flying D s" "st_of s t = RUNNING" "idle_fields (k_tcb s t)"
    using m by (auto simp: mid_def)
  have "flying D s \<union> {t} = {t} \<union> leaving s \<union> set_option (k_gc_ptr s) \<union> D" using st by (auto simp: flying_def leaving_def)
  with c(2) have "K ({t} \<union> leaving s \<union> set_option (k_gc_ptr s) \<union> D) L s" by simp
  from switch_to_ok [OF this] c show ?thesis by (auto simp: kcore_def flying_def)
qed

lemma switch_parked:
  assumes k: "K (flying D s - {k_cur s} \<union> {t}) L s" and c: "kcore D s0" "sframe s0 s"
    and same: "\<forall>u\<in>flying D s0 - {k_cur s0}. k_tcb s u = k_tcb s0 u" and st: "st_of s (k_cur s) \<noteq> STOPPED"
    and t: "t \<notin> flying D s" "st_of s t = RUNNING" "idle_fields (k_tcb s t)"
  shows "\<exists>s' L'. switch_to t s = Inr s' \<and> kinv D L' s' \<and> k_cur s' = t \<and> k_ids s' = k_ids s"
proof -
  have e: "k_cur s = k_cur s0" "k_gc_ptr s = k_gc_ptr s0" using c(2) by (simp_all add: sframe_def)
  have n: "k_cur s \<notin> D" "\<forall>g\<in>set_option (k_gc_ptr s). g \<noteq> k_cur s" using c(1) by (auto simp: kcore_def e)
  have "flying D s - {k_cur s} \<union> {t} = {t} \<union> leaving s \<union> set_option (k_gc_ptr s) \<union> D"
    using st n by (auto simp: flying_def leaving_def)
  with k have "K ({t} \<union> leaving s \<union> set_option (k_gc_ptr s) \<union> D) L s" by simp
  moreover have "\<forall>g\<in>set_option (k_gc_ptr s). g \<noteq> k_cur s \<and> g \<noteq> t \<and> g \<notin> D \<and> stopped_ok (k_tcb s g)"
    using c(1) same t(1) by (auto simp: kcore_def e flying_def)
  moreover have "\<forall>d\<in>D. stopped_ok (k_tcb s d)" using c(1) same n(1) unfolding kcore_def e flying_def by (metis DiffI UnCI singletonD)
  ultimately show ?thesis using switch_to_ok [of t s D L] t st by (auto simp: flying_def)
qed

definition harmless :: "(tcb \<Rightarrow> tcb) \<Rightarrow> bool" where
  "harmless f \<longleftrightarrow> (\<forall>c. t_state (f c) = t_state c \<and> idle_fields (f c) = idle_fields c \<and> (tcb_ok c \<longrightarrow> tcb_ok (f c)) \<and>
     t_wait_for (f c) = t_wait_for c)"

lemma harmless_id [simp]: "harmless (\<lambda>c. c)"
  by (simp add: harmless_def)

lemma harmless_slice [simp]: "v \<le> max_slice \<Longrightarrow> harmless (\<lambda>c. c\<lparr>t_slice := v\<rparr>)"
  by (simp add: harmless_def idle_fields_def tcb_ok_def)

lemma upd_id [simp]: "upd t (\<lambda>c. c) s = s"
  by (simp add: upd_def)

lemma yield_ok:
  assumes m: "mid D {} L s t" and f: "harmless f"
  shows "\<exists>s' L'. rbind (set_state (k_cur s) (ToReady NONE) s) (\<lambda>(ok, s2).
      rbind (if ok then sched_put (k_cur s) (upd (k_cur s) f s2) else Inr s2) (switch_to t)) = Inr s' \<and>
    kinv D L' s' \<and> k_cur s' = t \<and> k_ids s' = k_ids s"
proof (cases "st_of s (k_cur s) = STOPPED")
  case True
  then show ?thesis using switch_away [OF m True] by (simp add: set_state_def)
next
  case False
  let ?c = "k_cur s"
  have c: "kcore D s" "K (flying D s \<union> {t}) L s" "t \<notin> flying D s" "st_of s t = RUNNING" "idle_fields (k_tcb s t)"
    using m by (auto simp: mid_def)
  have run: "st_of s ?c = RUNNING" "idle_fields (k_tcb s ?c)" and cF: "?c \<in> flying D s \<union> {t}"
    using c(1) False by (auto simp: kcore_def flying_def)
  let ?s1 = "upd ?c (\<lambda>c. c\<lparr>t_state := READY\<rparr>) s" let ?s2 = "upd ?c f ?s1"
  have ok: "tcb_ok (k_tcb s ?c)" using KD(7) [OF c(2) KD(2) [OF c(2) cF]] .
  have k1: "K (flying D s \<union> {t}) L ?s1" using ok by (intro K_upd [OF c(2) cF]) simp
  have k2: "K (flying D s \<union> {t}) L ?s2" using ok f by (intro K_upd [OF k1 cF]) (simp add: harmless_def)
  have r2: "st_of ?s2 ?c = READY" "idle_fields (k_tcb ?s2 ?c)" using f run unfolding harmless_def by (simp_all) (simp add: idle_fields_def)
  from sched_put_ok [OF k2 cF r2] obtain s3 L3 where s3: "sched_put ?c ?s2 = Inr s3" "qframe ?s2 s3" "K (flying D s \<union> {t} - {?c}) L3 s3"
    by blast
  note q = qframeD [OF s3(2)]
  have sf: "sframe s s3" using q by (simp add: sframe_def)
  have tc: "t \<noteq> ?c" using c(3) by (auto simp: flying_def)
  have fl: "flying D s3 = flying D s" using q by (simp add: flying_def)
  have "K (flying D s3 - {k_cur s3} \<union> {t}) L3 s3" using s3(3) tc q(3) fl by (simp add: insert_Diff_if)
  from switch_parked [OF this c(1) sf] have "\<exists>s' L'. switch_to t s3 = Inr s' \<and> kinv D L' s' \<and> k_cur s' = t \<and> k_ids s' = k_ids s3"
    using q r2 c tc fl by auto
  then show ?thesis using s3(1) run q(2) by (auto simp: set_state_def Let_def)
qed

section \<open>preempt\<close>

lemma preempt_ok:
  assumes inv: "kinv D L s" and ready: "st_of s (k_cur s) = STOPPED \<longrightarrow> some_ready L s None"
  shows "\<exists>s' L'. preempt lower s = Inr s' \<and> kinv D L' s' \<and> k_ids s' = k_ids s \<and>
    (let level = t_priority (k_tcb s (k_cur s)) + (if lower then 1 else 0) in
     if chosen (k_tcb s) L level None None
     then (if st_of s (k_cur s) = STOPPED then k_cur s' \<noteq> k_cur s else k_cur s' = k_cur s)
     else chosen (k_tcb s) L level None (Some (k_cur s')))"
proof -
  let ?level = "t_priority (k_tcb s (k_cur s)) + (if lower then 1 else 0)"
  have k: "K (flying D s) L s" and c: "kcore D s" using inv by (simp_all add: kinv_eq)
  obtain nx s1 L1 where p: "pick_try ?level s = Inr (nx, s1)" and a: "after_pick (flying D s) L s ?level None nx None s1 L1"
    using pick_try_ok [OF k] by blast
  have e: "k_cur s1 = k_cur s" "k_ids s1 = k_ids s" using a by (simp_all add: after_pick_def sframe_def)
  show ?thesis
  proof (cases nx)
    case (Some t)
    have m: "mid D {} L1 s1 t" using after_pick_mid [OF inv a [unfolded Some]] by simp
    have ch: "chosen (k_tcb s) L ?level None (Some t)" using a Some by (simp add: after_pick_def)
    have "\<not> chosen (k_tcb s) L ?level None None"
      using ch by (auto simp: chosen_def passed_over_def)
    then show ?thesis using yield_ok [OF m harmless_id, unfolded upd_id e] p Some ch by (auto simp: preempt_def Let_def)
  next
    case None
    then have T: "\<forall>u. u \<in> flying D s \<or> st_of s u \<noteq> WAITING \<longrightarrow> k_tcb s1 u = k_tcb s u"
      and k1: "K (flying D s) L1 s1" and sf: "sframe s s1" and kp: "kept (k_tcb s) L None None L1"
      and ch: "chosen (k_tcb s) L ?level None None"
      using a by (auto simp: after_pick_def picked_def)
    have same: "\<forall>u\<in>flying D s. k_tcb s1 u = k_tcb s u" using T by blast
    note cg = kcore_cong [OF sf same]
    have inv1: "kinv D L1 s1" using k1 c cg by (simp add: kinv_eq)
    have cur: "st_of s1 (k_cur s) = st_of s (k_cur s)" using same by (simp add: flying_def)
    show ?thesis
    proof (cases "st_of s (k_cur s) = STOPPED")
      case True
      obtain q u where u: "u \<in> set (L (ReadyQ q))" "st_of s u = READY" using ready True by (auto simp: some_ready_def readyset_def)
      have "u \<in> set (L1 (ReadyQ q))" "st_of s1 u = READY" using kp u T by (auto simp: kept_def)
      then have "some_ready L1 s1 None" by (auto simp: some_ready_def readyset_def)
      from pick_ok [OF k1 this, of True] obtain t pb s2 L2 where q: "pick None True s1 = Inr (t, pb, s2)"
        and a2: "after_pick (flying D s1) L1 s1 max_priority None (Some t) pb s2 L2" by (auto simp: cg)
      note d2 = after_pickD [OF a2]
      have "pb = None" using d2(7) by auto
      then have m: "mid D {} L2 s2 t" using after_pick_mid [OF inv1 a2] by simp
      have cu: "k_cur s2 = k_cur s" "k_ids s2 = k_ids s" using d2(2) e by (simp_all add: sframe_def)
      have tF: "k_cur s \<in> flying D s1" "t \<notin> flying D s1" using d2(4) e by (auto simp: flying_def)
      then have "t \<noteq> k_cur s" by metis
      then have "st_of s2 (k_cur s2) = STOPPED" using d2(6) [of "k_cur s"] tF(1) cur True cu by (simp add: picked_def)
      from switch_away [OF m this] obtain s' L' where s': "switch_to t s2 = Inr s'" "kinv D L' s'" "k_cur s' = t" "k_ids s' = k_ids s2"
        by blast
      have "preempt lower s = Inr s'" using s'(1) p None e cur True q by (simp add: preempt_def Let_def)
      then show ?thesis using s' ch True cu \<open>t \<noteq> k_cur s\<close> by (simp add: Let_def) blast
    next
      case False
      then have "preempt lower s = Inr s1" using p None e cur by (simp add: preempt_def Let_def)
      then show ?thesis using inv1 e ch False by (simp add: Let_def) blast
    qed
  qed
qed

lemma preempt_sound:
  "kinv D L s \<Longrightarrow> st_of s (k_cur s) = STOPPED \<longrightarrow> some_ready L s None \<Longrightarrow> sound D (k_ids s) (preempt lower s)"
  using preempt_ok [of D L s lower] unfolding sound_def by blast

lemma set_slice_upd: "set_slice t v s = upd t (\<lambda>c. c\<lparr>t_slice := v\<rparr>) s"
  by (simp add: set_slice_def)

lemma kinv_upd_cur:
  assumes "kinv D L s" and f: "harmless f" and "t = k_cur s"
  shows "kinv D L (upd t f s)"
proof -
  have k: "K (flying D s) L s" and c: "kcore D s" using assms by (simp_all add: kinv_eq)
  have m: "t \<in> flying D s" using assms(3) by (simp add: flying_def)
  have "K (flying D s) L (upd t f s)"
    using KD(7) [OF k KD(2) [OF k m]] f by (intro K_upd [OF k m]) (simp add: harmless_def)
  moreover have "flying D (upd t f s) = flying D s" by (simp add: flying_def)
  moreover have "kcore D (upd t f s)" using c f assms(3) by (auto simp: kcore_def harmless_def)
  ultimately show ?thesis by (simp add: kinv_eq)
qed

lemma some_ready_upd: "harmless f \<Longrightarrow> some_ready L (upd t f s) a = some_ready L s a"
  by (auto simp: some_ready_def harmless_def)

lemma core_on_timer_sound:
  assumes inv: "kinv D L s" and ready: "st_of s (k_cur s) = STOPPED \<longrightarrow> some_ready L s None"
  shows "sound D (k_ids s) (core_on_timer s)"
proof (cases "st_of s (k_cur s) = STOPPED")
  case True
  then show ?thesis using preempt_sound [OF inv] ready by (simp add: core_on_timer_def)
next
  case False
  let ?v = "if t_slice (k_tcb s (k_cur s)) \<noteq> 0 then t_slice (k_tcb s (k_cur s)) - 1 else max_slice"
  have k: "K (flying D s) L s" using inv by (simp add: kinv_eq)
  have "k_cur s < k_ids s" using KD(2) [OF k, of "k_cur s"] by (simp add: flying_def)
  then have sl: "t_slice (k_tcb s (k_cur s)) \<le> max_slice" using KD(7) [OF k] by (simp add: tcb_ok_def)
  then have "kinv D L (set_slice (k_cur s) ?v s)" unfolding set_slice_upd by (intro kinv_upd_cur [OF inv]) auto
  from preempt_sound [OF this] have "sound D (k_ids s) (preempt b (set_slice (k_cur s) ?v s))" for b
    using False by (simp add: set_slice_upd)
  moreover have "st_of s (k_cur s) = RUNNING" using inv False by (auto simp: kinv_def)
  ultimately show ?thesis using sl False by (simp add: core_on_timer_def Let_def)
qed

section \<open>Waiting and sleeping\<close>

lemma K_timer_wait:
  assumes "k_timer_wait us th s = (tk, s')"
  shows "k_tcb s' = k_tcb s" "k_cur s' = k_cur s" "k_gc_ptr s' = k_gc_ptr s" "k_ids s' = k_ids s" "K F L s' = K F L s"
    "tk = conductor (k_timer s) + 1"
  using assms by (auto simp: k_timer_wait_def timer_wait_def Let_def)

text \<open>The current thread starts to wait and the thread that was chosen runs.\<close>

lemma mid_upd:
  assumes m: "mid D E L s t" and f: "harmless f" and u: "u \<in> flying D s \<union> {t} \<union> E"
  shows "mid D E L (upd u f s) t"
proof -
  have k: "K (flying D s \<union> {t} \<union> E) L s" and c: "kcore D s" using m by (simp_all add: mid_def)
  have "K (flying D s \<union> {t} \<union> E) L (upd u f s)"
    using KD(7) [OF k KD(2) [OF k u]] f by (intro K_upd [OF k u]) (simp add: harmless_def)
  moreover have "flying D (upd u f s) = flying D s" by (simp add: flying_def)
  moreover have "kcore D (upd u f s)" using c f unfolding kcore_def stopped_ok_def harmless_def by auto
  ultimately show ?thesis using m f unfolding mid_def harmless_def by auto
qed

lemma mid_timer:
  assumes "k_timer_wait us th s = (tk, s')"
  shows "mid D E L s' t = mid D E L s t"
  using K_timer_wait [OF assms] by (simp add: mid_def flying_def kcore_def)

abbreviation park :: "qword \<Rightarrow> oid option \<Rightarrow> tcb \<Rightarrow> tcb" where
  "park tk ow \<equiv> \<lambda>c. c\<lparr>t_wait_for := ow, t_ticket := tk, t_state := WAITING\<rparr>"

lemma midD:
  assumes "mid D E L s t"
  shows "K (flying D s \<union> {t} \<union> E) L s" "kcore D s" "t \<notin> flying D s" "t \<notin> E" "E \<inter> flying D s = {}" "st_of s t = RUNNING"
    "idle_fields (k_tcb s t)" "k_cur s \<in> flying D s" "t \<noteq> k_cur s"
  using assms by (auto simp: mid_def flying_def)

lemma set_state_wait:
  assumes "st_of s c = RUNNING" "idle_fields (k_tcb s c)" "tk \<noteq> 0 \<or> ow \<noteq> None"
  shows "set_state c (ToWaiting tk ow) s = Inr (True, upd c (park tk ow) s)"
  using assms by (simp add: set_state_def idle_fields_def)

lemma K_park:
  assumes m: "mid D E L s t"
  shows "K (flying D s \<union> {t} \<union> E) L (upd (k_cur s) (park tk ow) s)"
proof -
  note d = midD [OF m]
  have c: "k_cur s \<in> flying D s \<union> {t} \<union> E" using d(8) by simp
  show ?thesis using KD(7) [OF d(1) KD(2) [OF d(1) c]] by (intro K_upd [OF d(1) c]) (simp add: tcb_ok_def)
qed

text \<open>A state after parking, from which the switch succeeds.\<close>

lemma parked_switch:
  assumes m: "mid D E L s t" and k: "K (flying D s - {k_cur s} \<union> {t}) L' s'" and f: "sframe s s'"
    and same: "\<forall>u. u \<noteq> k_cur s \<longrightarrow> k_tcb s' u = k_tcb s u" and w: "st_of s' (k_cur s) \<noteq> STOPPED"
  shows "sound D (k_ids s) (switch_to t s')"
proof -
  note d = midD [OF m]
  have fl: "flying D s' = flying D s" using f by (simp add: flying_def sframe_def)
  note e = sframeD [OF f]
  have "K (flying D s' - {k_cur s'} \<union> {t}) L' s'" using k unfolding fl e .
  from switch_parked [OF this d(2) f] obtain s'' L'' where "switch_to t s' = Inr s''" "kinv D L'' s''" "k_ids s'' = k_ids s'"
    using same w d fl e by auto
  then show ?thesis using e by (auto simp: sound_def)
qed

lemma wait_tail:
  assumes m: "mid D (set_option pb) L s t" and run: "st_of s (k_cur s) = RUNNING"
    and pb: "\<forall>p\<in>set_option pb. st_of s p = READY \<and> idle_fields (k_tcb s p)"
  shows "sound D (k_ids s) (rbind (set_state (k_cur s) (ToWaiting tk (Some ob)) s) (\<lambda>(ok, s1).
      rbind (if ok then tq_put (WaitQ ob) (k_cur s) (set_slice (k_cur s) max_slice s1) else Inr (drop_ticket tk s1)) (\<lambda>s2.
      rbind (case pb of None \<Rightarrow> Inr s2 | Some p \<Rightarrow> sched_put p s2) (switch_to t))))"
proof -
  let ?c = "k_cur s" let ?F = "flying D s \<union> {t} \<union> set_option pb"
  let ?s1 = "upd ?c (park tk (Some ob)) s" let ?s2 = "set_slice ?c max_slice ?s1"
  note d = midD [OF m]
  have c: "?c \<in> ?F" using d(8) by simp
  have st: "set_state ?c (ToWaiting tk (Some ob)) s = Inr (True, ?s1)"
    using d(2) run by (intro set_state_wait) (auto simp: kcore_def)
  have k1: "K ?F L ?s1" by (rule K_park [OF m])
  have k2: "K ?F L ?s2" unfolding set_slice_upd using KD(7) [OF k1 KD(2) [OF k1 c]]
    by (intro K_upd [OF k1 c]) (simp add: tcb_ok_def)
  have "belongs (k_tcb ?s2 ?c) (WaitQ ob)" by (simp add: set_slice_upd)
  from K_put [OF k2 c this] obtain s3 L3 where s3: "tq_put (WaitQ ob) ?c ?s2 = Inr s3" "qframe ?s2 s3" "K (?F - {?c}) L3 s3" by blast
  note q = qframeD [OF s3(2)]
  have T: "\<forall>u. u \<noteq> ?c \<longrightarrow> k_tcb s3 u = k_tcb s u" and w: "st_of s3 ?c = WAITING" and f3: "sframe s s3"
    using q by (auto simp: set_slice_upd sframe_def)
  obtain s4 L4 where s4: "(case pb of None \<Rightarrow> Inr s3 | Some p \<Rightarrow> sched_put p s3) = Inr s4" "qframe s3 s4" "K (?F - {?c} - set_option pb) L4 s4"
  proof (cases pb)
    case (Some p)
    have p: "p \<in> ?F - {?c}" "p \<noteq> ?c" using Some d(5,8) by auto
    have "st_of s3 p = READY" "idle_fields (k_tcb s3 p)" using pb Some T p(2) by auto
    from sched_put_ok [OF s3(3) p(1) this] show ?thesis using that Some by auto
  qed (use s3 that in auto)
  note q4 = qframeD [OF s4(2)]
  have "?F - {?c} - set_option pb = flying D s - {?c} \<union> {t}" using d(3,4,5,9) by blast
  with s4(3) have k4: "K (flying D s - {?c} \<union> {t}) L4 s4" by simp
  have "sound D (k_ids s) (switch_to t s4)"
    by (rule parked_switch [OF m k4 sframe_trans [OF f3 qframe_sframe [OF s4(2)]]]) (use T w q4(1) in auto)
  then show ?thesis using st s3(1) s4(1) by simp
qed

lemma imp_wait_sound:
  assumes inv: "kinv D L s" and run: "st_of s (k_cur s) = RUNNING" and self: "ob \<noteq> Thr (k_cur s)"
    and alive: "\<And>p. ob = Thr p \<Longrightarrow> st_of s p \<noteq> STOPPED"
    and ready: "some_ready L s (case ob of Thr t \<Rightarrow> Some t | Obj _ \<Rightarrow> None)"
  shows "sound D (k_ids s) (imp_wait ob us s)"
proof -
  let ?a = "case ob of Thr t \<Rightarrow> Some t | Obj _ \<Rightarrow> None"
  have k: "K (flying D s) L s" using inv by (simp add: kinv_eq)
  obtain t pb s1 L1 where p: "pick ?a True s = Inr (t, pb, s1)" and a: "after_pick (flying D s) L s max_priority ?a (Some t) pb s1 L1"
    using pick_ok [OF k ready] by blast
  note d = after_pickD [OF a]
  have m: "mid D (set_option pb) L1 s1 t" by (rule after_pick_mid [OF inv a])
  have e: "k_cur s1 = k_cur s" "k_ids s1 = k_ids s" using d(2) by (simp_all add: sframe_def)
  have at: "?a \<noteq> Some t" using d(3) by (simp add: chosen_def)
  have run1: "st_of s1 (k_cur s) = RUNNING"
    using d(6) [of "k_cur s"] run d(4) by (auto simp: picked_def flying_def)
  have pbr: "\<forall>p\<in>set_option pb. st_of s1 p = READY \<and> idle_fields (k_tcb s1 p) \<and> p \<noteq> t"
  proof
    fix x assume x: "x \<in> set_option pb"
    then have pa: "?a = Some x" and rs: "x \<in> readyset L" using d(7) by auto
    then have "ob = Thr x" by (simp split: oid.splits)
    then have "st_of s x \<noteq> STOPPED" by (rule alive)
    moreover obtain q where "x \<in> set (L (ReadyQ q))" using rs by (auto simp: readyset_def)
    ultimately have "st_of s x = READY" "idle_fields (k_tcb s x)" using KD(6) [OF k, of x "ReadyQ q"] by auto
    moreover have "x \<noteq> t" using at pa by auto
    ultimately show "st_of s1 x = READY \<and> idle_fields (k_tcb s1 x) \<and> x \<noteq> t" using d(6) [of x] by (simp add: picked_def)
  qed
  let ?s2 = "set_slice t max_slice s1"
  have m2: "mid D (set_option pb) L1 ?s2 t" unfolding set_slice_upd by (rule mid_upd [OF m]) simp_all
  obtain tk s3 where s3: "(if us \<noteq> 0 then k_timer_wait us (k_cur s) ?s2 else (0, ?s2)) = (tk, s3)" by fastforce
  have "mid D (set_option pb) L1 s3 t \<and> k_tcb s3 = k_tcb ?s2 \<and> k_cur s3 = k_cur ?s2 \<and> k_ids s3 = k_ids ?s2"
  proof (cases "us = 0")
    case False
    then have "k_timer_wait us (k_cur s) ?s2 = (tk, s3)" using s3 by simp
    from mid_timer [OF this] K_timer_wait [OF this] m2 show ?thesis by simp
  qed (use s3 m2 in simp)
  then have s3': "mid D (set_option pb) L1 s3 t" "k_tcb s3 = k_tcb ?s2" "k_cur s3 = k_cur s" "k_ids s3 = k_ids s"
    using e by (simp_all add: set_slice_upd)
  have tc: "t \<noteq> k_cur s" using midD(9) [OF m] e by simp
  have "sound D (k_ids s3) (rbind (set_state (k_cur s3) (ToWaiting tk (Some ob)) s3) (\<lambda>(ok, s1).
      rbind (if ok then tq_put (WaitQ ob) (k_cur s3) (set_slice (k_cur s3) max_slice s1) else Inr (drop_ticket tk s1)) (\<lambda>s2.
      rbind (case pb of None \<Rightarrow> Inr s2 | Some p \<Rightarrow> sched_put p s2) (switch_to t))))"
    by (rule wait_tail [OF s3'(1)]) (use s3'(2,3) run1 tc pbr in \<open>auto simp: set_slice_upd\<close>)
  from this [unfolded s3'(3,4)] show ?thesis using p s3 self by (simp add: imp_wait_def Let_def)
qed

lemma sleep_sound:
  assumes inv: "kinv D L s" and run: "st_of s (k_cur s) = RUNNING" and tickets: "conductor (k_timer s) + 1 \<noteq> 0"
    and ready: "us \<noteq> 0 \<longrightarrow> some_ready L s None"
  shows "sound D (k_ids s) (sleep us s)"
proof (cases "us = 0")
  case True
  have "kinv D L (set_slice (k_cur s) max_slice s)" unfolding set_slice_upd by (rule kinv_upd_cur [OF inv]) simp_all
  from preempt_sound [OF this, of True] show ?thesis using True run by (simp add: sleep_def set_slice_upd)
next
  case False
  have k: "K (flying D s) L s" using inv by (simp add: kinv_eq)
  obtain t pb s1 L1 where p: "pick None False s = Inr (t, pb, s1)" and a: "after_pick (flying D s) L s max_priority None (Some t) pb s1 L1"
    using pick_ok [OF k, of None False] ready False by blast
  note d = after_pickD [OF a]
  have pb: "pb = None" using d(7) by auto
  have m: "mid D {} L1 s1 t" using after_pick_mid [OF inv a] pb by simp
  have e: "k_cur s1 = k_cur s" "k_ids s1 = k_ids s" using d(2) by (simp_all add: sframe_def)
  have run1: "st_of s1 (k_cur s) = RUNNING" using d(6) [of "k_cur s"] run d(4) by (auto simp: picked_def flying_def)
  obtain tk s2 where s2: "k_timer_wait us (k_cur s) s1 = (tk, s2)" by fastforce
  note w = K_timer_wait [OF s2]
  have m2: "mid D {} L1 s2 t" using m mid_timer [OF s2] by simp
  have tk: "tk \<noteq> 0" using w(6) d(2) tickets by (simp add: sframe_def)
  let ?s3 = "upd (k_cur s) (park tk None) s2"
  have st: "set_state (k_cur s) (ToWaiting tk None) s2 = Inr (True, ?s3)"
    using midD(2) [OF m2] w(1,2) e run1 tk by (intro set_state_wait) (auto simp: kcore_def)
  have c: "k_cur s \<in> flying D s2 \<union> {t} \<union> {}" using w(2) e by (simp add: flying_def)
  have "K (flying D s2 \<union> {t} \<union> {}) L1 ?s3" using K_park [OF m2, of tk None] w(2) e by simp
  from K_asleep [OF this c] have "K (flying D s2 \<union> {t} \<union> {} - {k_cur s}) L1 ?s3" using tk by (simp add: asleep_def)
  moreover have "flying D s2 \<union> {t} \<union> {} - {k_cur s} = flying D s2 - {k_cur s2} \<union> {t}" using midD(9) [OF m2] w(2) e by auto
  ultimately have k3: "K (flying D s2 - {k_cur s2} \<union> {t}) L1 ?s3" by simp
  have "sound D (k_ids s2) (switch_to t ?s3)" by (rule parked_switch [OF m2 k3]) (use w(2) e in auto)
  then show ?thesis using False p pb s2 st w(4) e by (simp add: sleep_def Let_def)
qed

section \<open>Waking, expiry and stopping\<close>

lemma gc_signal_sound:
  assumes inv: "kinv D L s"
  shows "sound D (k_ids s) (gc_signal target s)"
proof -
  have k: "K (flying D s) L s" "kcore D s" using inv by (simp_all add: kinv_eq)
  obtain s' L' where s': "gc_signal target s = Inr s'" "K (flying D s) L' s'" "calm s L s' L'" "\<forall>t\<in>flying D s. k_tcb s' t = k_tcb s t"
    using gc_signal_ok [OF k(1)] by blast
  have f: "sframe s s'" using s'(3) by (simp add: calm_def)
  have "kinv D L' s'" using kcore_cong [OF f s'(4)] k(2) s'(2) by (simp add: kinv_eq)
  then show ?thesis using s'(1) sframeD(3) [OF f] by (auto simp: sound_def)
qed

lemma signal_one_sound:
  assumes inv: "kinv D L s"
  shows "\<exists>b s' L'. signal_one (Suc n) ob s = Inr (b, s') \<and> kinv D L' s' \<and> k_ids s' = k_ids s \<and> b = (L (WaitQ ob) \<noteq> [])"
proof -
  have k: "K (flying D s) L s" "kcore D s" using inv by (simp_all add: kinv_eq)
  obtain b s' L' where s': "signal_one (Suc n) ob s = Inr (b, s')" "K (flying D s) L' s'" "calm s L s' L'" "\<forall>t\<in>flying D s. k_tcb s' t = k_tcb s t"
    using signal_calm [OF k(1)] by blast
  have f: "sframe s s'" using s'(3) by (simp add: calm_def)
  have "kinv D L' s'" using kcore_cong [OF f s'(4)] k(2) s'(2) by (simp add: kinv_eq)
  moreover have "b = (L (WaitQ ob) \<noteq> [])" using signal_one_ok [OF k(1), of n ob] s'(1) by auto
  ultimately show ?thesis using s'(1) sframeD(3) [OF f] by auto
qed

lemma notify_ok:
  fixes ob :: oid
  assumes inv: "kinv D L s"
  defines "ws \<equiv> L (WaitQ ob)"
  shows "\<exists>s'. notify ob NOTIFY s = Inr (length ws, s') \<and> kinv D (fold (ready_at s) ws (L(WaitQ ob := []))) s' \<and> k_ids s' = k_ids s \<and>
    k_tcb s' = (\<lambda>t. if t \<in> set ws then woken NOTIFY (k_tcb s t) else k_tcb s t)"
proof -
  have k: "K (flying D s) L s" "kcore D s" using inv by (simp_all add: kinv_eq)
  let ?s = "tq_clear (WaitQ ob) s" let ?F = "flying D s \<union> set ws"
  have sel: "k_tcb ?s = k_tcb s" "k_next ?s = k_next s" "k_ids ?s = k_ids s" "sframe s ?s"
    by (simp_all add: tq_clear_def sframe_def)
  have q: "q_head (k_q s (WaitQ ob)) = hd_opt ws" "chain (k_next ?s) ws" "distinct ws"
    using repD(1,2) [OF KD(1) [OF k(1)], of "WaitQ ob"] by (simp_all add: is_queue_def ws_def sel)
  have b: "\<forall>t\<in>set ws. st_of s t = WAITING \<and> t_wait_for (k_tcb s t) \<noteq> None \<and> t < k_ids s \<and> t \<notin> flying D s"
    using KD(4,5,6) [OF k(1), of _ "WaitQ ob"] by (auto simp: ws_def)
  have nq: "t \<notin> queued (L(WaitQ ob := []))" if "t \<in> set ws" for t
  proof
    assume "t \<in> queued (L(WaitQ ob := []))"
    then obtain q' where "q' \<noteq> WaitQ ob" "t \<in> set (L q')" by (auto simp: queued_upd)
    then show False using repD(3) [OF KD(1) [OF k(1)], of q' "WaitQ ob"] that ws_def by blast
  qed
  have qd: "queued L = set ws \<union> queued (L(WaitQ ob := []))" unfolding queued_upd queued_split [of L "WaitQ ob"] ws_def by simp
  have sub: "u \<in> set (L q')" if "u \<in> set ((L(WaitQ ob := [])) q')" for u q' using that by (cases "q' = WaitQ ob") simp_all
  have w0: "wf (flying D s) L s" using k(1) by (simp add: K_def)
  have "?F \<subseteq> {..<k_ids s}" using w0 b unfolding wf_def by blast
  moreover have "?F \<inter> queued (L(WaitQ ob := [])) = {}" using w0 nq qd unfolding wf_def by blast
  moreover have "\<forall>q. \<forall>t\<in>set ((L(WaitQ ob := [])) q). t < k_ids s \<and> belongs (k_tcb s t) q" using w0 sub unfolding wf_def by blast
  moreover have "\<forall>t<k_ids s. t \<in> ?F \<or> t \<in> queued (L(WaitQ ob := [])) \<or> asleep (k_tcb s t)" using w0 qd unfolding wf_def by blast
  moreover have "\<forall>t<k_ids s. tcb_ok (k_tcb s t)" using w0 unfolding wf_def by blast
  ultimately have "wf ?F (L(WaitQ ob := [])) ?s" unfolding wf_def sel by blast
  then have k': "K ?F (L(WaitQ ob := [])) ?s" using tq_clear_ok [OF KD(1) [OF k(1)]] by (simp add: K_def)
  have len: "length ws < Suc (k_ids ?s)" using K_length [OF k(1), of "WaitQ ob"] sel by (simp add: ws_def less_Suc_eq_le)
  have w: "\<forall>t\<in>set ws. st_of ?s t = WAITING \<and> t_wait_for (k_tcb ?s t) \<noteq> None" using b sel by simp
  obtain s' where s': "notify_loop (Suc (k_ids ?s)) (hd_opt ws) NOTIFY ?s = Inr (length ws, False, s')" "sframe ?s s'"
    "K (?F - set ws) (fold (ready_at ?s) ws (L(WaitQ ob := []))) s'"
    "k_tcb s' = (\<lambda>t. if t \<in> set ws then woken NOTIFY (k_tcb ?s t) else k_tcb ?s t)"
    using notify_loop_ok [OF k' q(2,3) _ len w] by auto
  have "?F - set ws = flying D s" using b by blast
  moreover have "ready_at ?s = ready_at s" using sel by (simp add: ready_at_def [abs_def])
  ultimately have k3: "K (flying D s) (fold (ready_at s) ws (L(WaitQ ob := []))) s'" using s'(3) by simp
  have f: "sframe s s'" using sel(4) s'(2) by (rule sframe_trans)
  have "\<forall>u\<in>flying D s. k_tcb s' u = k_tcb s u" using s'(4) b sel by auto
  from kcore_cong [OF f this] k(2) k3 have inv': "kinv D (fold (ready_at s) ws (L(WaitQ ob := []))) s'" by (simp add: kinv_eq)
  have "notify ob NOTIFY s = Inr (length ws, s')"
  proof (cases "ws = []")
    case True
    then show ?thesis using q(1) s'(1) by (simp add: notify_def imp_notify_def)
  next
    case False
    then show ?thesis using q(1) s'(1) by (simp add: notify_def imp_notify_def)
  qed
  then show ?thesis using inv' s'(4) [unfolded sel] sframeD(3) [OF f] by blast
qed

lemma waiting_place:
  assumes k: "K F L s" and t: "t < k_ids s" "t \<notin> F" "st_of s t = WAITING"
  shows "(\<exists>ob. t_wait_for (k_tcb s t) = Some ob \<and> t \<in> set (L (WaitQ ob))) \<or>
    (t_wait_for (k_tcb s t) = None \<and> t \<notin> queued L)"
proof (cases "t \<in> queued L")
  case True
  then obtain q where q: "t \<in> set (L q)" by (auto simp: queued_def)
  then show ?thesis using KD(6) [OF k q] t(3) by (cases q) auto
next
  case False
  then have "asleep (k_tcb s t)" using k t unfolding K_def wf_def by blast
  then show ?thesis using False by (simp add: asleep_def)
qed

lemma unwait_ok:
  assumes k: "K F L s" and t: "t < k_ids s" "t \<notin> F" "st_of s t = WAITING"
  shows "\<exists>s' L'. (case t_wait_for (k_tcb s t) of None \<Rightarrow> Inr s | Some ob \<Rightarrow> waitable_cancel ob t s) = Inr s' \<and> qframe s s' \<and>
    K (insert t F) L' s'"
  using waiting_place [OF assms]
proof
  assume "\<exists>ob. t_wait_for (k_tcb s t) = Some ob \<and> t \<in> set (L (WaitQ ob))"
  then obtain ob where ob: "t_wait_for (k_tcb s t) = Some ob" "t \<in> set (L (WaitQ ob))" by blast
  show ?thesis using K_remove [OF k ob(2)] ob(1) by auto
next
  assume "t_wait_for (k_tcb s t) = None \<and> t \<notin> queued L"
  then show ?thesis using K_awake [OF k t(1)] by auto
qed

lemma flying_not_waiting: "kcore D s \<Longrightarrow> u \<in> flying D s \<Longrightarrow> st_of s u \<noteq> WAITING \<and> idle_fields (k_tcb s u)"
  by (auto simp: kcore_def flying_def stopped_ok_def)

lemma thread_on_timer_sound:
  assumes inv: "kinv D L s" and th: "th < k_ids s" "tk \<noteq> 0"
  shows "sound D (k_ids s) (thread_on_timer tk th s)"
proof (cases "t_ticket (k_tcb s th) = tk")
  case False
  then show ?thesis using inv by (auto simp: thread_on_timer_def sound_def)
next
  case True
  let ?F = "flying D s"
  have k: "K ?F L s" and c: "kcore D s" using inv by (simp_all add: kinv_eq)
  have ni: "\<not> idle_fields (k_tcb s th)" using True th(2) by (simp add: idle_fields_def)
  then have nF: "th \<notin> ?F" using flying_not_waiting [OF c] by blast
  have w: "st_of s th = WAITING"
  proof (cases "th \<in> queued L")
    case True
    then obtain q where q: "th \<in> set (L q)" by (auto simp: queued_def)
    then show ?thesis using KD(6) [OF k q] ni by (cases q) auto
  next
    case False
    then show ?thesis using k th(1) nF unfolding K_def wf_def asleep_def by blast
  qed
  obtain s1 L1 where s1: "(case t_wait_for (k_tcb s th) of None \<Rightarrow> Inr s | Some ob \<Rightarrow> waitable_cancel ob th s) = Inr s1" "qframe s s1"
    "K (insert th ?F) L1 s1" using unwait_ok [OF k th(1) nF w] by blast
  note q = qframeD [OF s1(2)]
  let ?s2 = "upd th (woken TIMEOUT) s1"
  have "leave_wait th TIMEOUT s = Inr s1" using True th(2) s1(1) by (simp add: leave_wait_def)
  then have st: "set_state th (ToReady TIMEOUT) s = Inr (True, ?s2)" using w by (simp add: set_state_def woken_def [abs_def])
  have k2: "K (insert th ?F) L1 ?s2" using KD(7) [OF s1(3) KD(2) [OF s1(3) insertI1]] by (intro K_upd [OF s1(3)]) simp_all
  have f2: "sframe s ?s2" and same: "\<forall>u\<in>?F. k_tcb ?s2 u = k_tcb s u" using q nF by (auto simp: sframe_def)
  note e = kcore_cong [OF f2 same]
  have tc: "th \<noteq> k_cur s" using nF by (auto simp: flying_def)
  show ?thesis
  proof (cases "t_priority (k_tcb ?s2 th) < t_priority (k_tcb ?s2 (k_cur s))")
    case True
    let ?s3 = "upd th (\<lambda>c. c\<lparr>t_state := RUNNING\<rparr>) ?s2"
    have "K (insert th ?F) L1 ?s3" using KD(7) [OF k2 KD(2) [OF k2 insertI1]] by (intro K_upd [OF k2]) simp_all
    moreover have "sframe s ?s3" "\<forall>u\<in>?F. k_tcb ?s3 u = k_tcb s u" using q nF by (auto simp: sframe_def)
    note e3 = kcore_cong [OF this]
    ultimately have m: "mid D {} L1 ?s3 th" using c nF e3 by (simp add: mid_def idle_fields_def woken_def)
    have cur: "k_cur ?s3 = k_cur s" "k_ids ?s3 = k_ids s" using q by simp_all
    have "set_state th ToRunning ?s2 = Inr (True, ?s3)" by (simp add: set_state_def)
    moreover have "\<exists>s' L'. rbind (set_state (k_cur s) (ToReady NONE) ?s3) (\<lambda>(ok, s).
        rbind (if ok then sched_put (k_cur ?s3) (set_slice (k_cur ?s3) max_slice s) else Inr s) (switch_to th)) = Inr s' \<and>
      kinv D L' s' \<and> k_cur s' = th \<and> k_ids s' = k_ids s"
      using yield_ok [OF m, of "\<lambda>c. c\<lparr>t_slice := max_slice\<rparr>"] unfolding cur set_slice_upd by simp
    ultimately show ?thesis
      using True \<open>t_ticket (k_tcb s th) = tk\<close> st unfolding thread_on_timer_def sound_def cur Let_def by auto
  next
    case False
    have "st_of ?s2 th = READY" "idle_fields (k_tcb ?s2 th)" by simp_all
    from sched_put_ok [OF k2 insertI1 this] obtain s3 L3 where s3: "sched_put th ?s2 = Inr s3" "qframe ?s2 s3" "K (insert th ?F - {th}) L3 s3"
      by blast
    note q3 = qframeD [OF s3(2)]
    have "sframe s s3" "\<forall>u\<in>?F. k_tcb s3 u = k_tcb s u" using f2 same q3 by (auto simp: sframe_def)
    note e3 = kcore_cong [OF this]
    have "insert th ?F - {th} = ?F" using nF by simp
    then have "kinv D L3 s3" using s3(3) e3 c by (simp add: kinv_eq)
    then show ?thesis using False \<open>t_ticket (k_tcb s th) = tk\<close> st s3(1) q q3 by (auto simp: thread_on_timer_def sound_def)
  qed
qed

text \<open>Changes of a thread that matter to no queue.\<close>

lemma kinv_upd_flags:
  assumes inv: "kinv D L s" and f: "\<And>c. t_state (f c) = t_state c" "\<And>c. t_wait_for (f c) = t_wait_for c"
    "\<And>c. t_ticket (f c) = t_ticket c" "\<And>c. tcb_ok c \<Longrightarrow> tcb_ok (f c)"
  shows "kinv D L (upd t f s)"
proof -
  have i: "idle_fields (f c) = idle_fields c" "stopped_ok (f c) = stopped_ok c" "asleep (f c) = asleep c" "belongs (f c) q = belongs c q" for c q
    using f by (simp_all add: idle_fields_def stopped_ok_def asleep_def) (cases q, simp_all add: idle_fields_def)
  then have "K (flying D s) L (upd t f s)" using inv f(4) unfolding kinv_eq K_def wf_def by auto
  moreover have "flying D (upd t f s) = flying D s" by (simp add: flying_def)
  moreover have "kcore D (upd t f s)" using inv i f(1) unfolding kinv_eq kcore_def by auto
  ultimately show ?thesis by (simp add: kinv_eq)
qed

lemma kinv_stop_cur:
  assumes inv: "kinv D L s"
  shows "kinv D L (upd (k_cur s) (\<lambda>c. c\<lparr>t_state := STOPPED\<rparr>) s)"
proof -
  let ?s = "upd (k_cur s) (\<lambda>c. c\<lparr>t_state := STOPPED\<rparr>) s"
  have k: "K (flying D s) L s" and c: "kcore D s" using inv by (simp_all add: kinv_eq)
  have m: "k_cur s \<in> flying D s" by (simp add: flying_def)
  have "K (flying D s) L ?s" using KD(7) [OF k KD(2) [OF k m]] by (intro K_upd [OF k m]) simp
  moreover have "flying D ?s = flying D s" by (simp add: flying_def)
  moreover have "kcore D ?s" using c by (auto simp: kcore_def idle_fields_def)
  ultimately show ?thesis by (simp add: kinv_eq)
qed

lemma escape_sound:
  assumes inv: "kinv D L s" and st: "st_of s (k_cur s) = STOPPED" and ready: "some_ready L s None"
  shows "sound D (k_ids s) (escape (k_cur s) s)"
proof -
  obtain s' L' where s': "preempt True s = Inr s'" "kinv D L' s'" "k_ids s' = k_ids s"
    and ne: "let level = t_priority (k_tcb s (k_cur s)) + (if True then 1 else 0) in
     if chosen (k_tcb s) L level None None
     then (if st_of s (k_cur s) = STOPPED then k_cur s' \<noteq> k_cur s else k_cur s' = k_cur s)
     else chosen (k_tcb s) L level None (Some (k_cur s'))"
    using preempt_ok [OF inv, of True] ready by blast
  have "k_cur s' \<noteq> k_cur s" using ne st by (auto simp: Let_def chosen_def split: if_splits)
  then show ?thesis using s' by (auto simp: escape_def sound_def)
qed

lemma ready_but_cur:
  assumes inv: "kinv D L s" and ready: "some_ready L s None"
  shows "some_ready L (upd (k_cur s) f s) None"
proof -
  obtain u where u: "u \<in> readyset L" "st_of s u = READY" using ready by (auto simp: some_ready_def)
  have "k_cur s \<notin> readyset L"
    using inv KD(3) [of "flying D s" L s "k_cur s"] by (auto simp: kinv_eq flying_def readyset_def queued_def)
  then have "u \<noteq> k_cur s" using u by blast
  then show ?thesis using u unfolding some_ready_def by (intro bexI [of _ u]) simp_all
qed

lemma thread_drop_sound:
  assumes inv: "kinv D L s" and crit: "t_critical (k_tcb s (k_cur s))" "st_of s (k_cur s) = RUNNING" and ready: "some_ready L s None"
  shows "sound D (k_ids s) (thread_drop s)"
proof -
  let ?s = "upd (k_cur s) (\<lambda>c. c\<lparr>t_critical := False\<rparr>) s"
  have i1: "kinv D L ?s" by (rule kinv_upd_flags [OF inv]) simp_all
  let ?s2 = "upd (k_cur ?s) (\<lambda>c. c\<lparr>t_state := STOPPED\<rparr>) ?s"
  have i2: "kinv D L ?s2" by (rule kinv_stop_cur [OF i1])
  have "some_ready L ?s2 None" by (rule ready_but_cur [OF i1 ready_but_cur [OF inv ready]])
  then have "sound D (k_ids s) (escape (k_cur s) ?s2)" using escape_sound [OF i2] by simp
  then show ?thesis using crit i1 by (auto simp: thread_drop_def Let_def sound_def)
qed

lemma thread_hold_sound:
  assumes inv: "kinv D L s" and "\<not> t_critical (k_tcb s (k_cur s))" "\<not> t_kill (k_tcb s (k_cur s))"
  shows "sound D (k_ids s) (thread_hold s)"
proof -
  have "kinv D L (upd (k_cur s) (\<lambda>c. c\<lparr>t_critical := True\<rparr>) s)" by (rule kinv_upd_flags [OF inv]) simp_all
  then show ?thesis using assms(2,3) by (auto simp: thread_hold_def sound_def)
qed

lemma set_priority_sound:
  assumes inv: "kinv D L s"
  shows "sound D (k_ids s) (Inr (snd (set_priority th val s)))"
proof -
  have "kinv D L (upd th (\<lambda>c. c\<lparr>t_priority := val\<rparr>) s)" if "val < max_priority"
    using that by (intro kinv_upd_flags [OF inv]) (simp_all add: tcb_ok_def)
  then show ?thesis using inv by (auto simp: set_priority_def sound_def not_le)
qed

text \<open>Where a thread other than the current one can be when it is killed: already stopped, queued as ready, or waiting.\<close>

lemma kill_waiting:
  assumes inv: "kinv D L s" and th: "th < k_ids s" and w: "st_of s th = WAITING"
  shows "sound D (k_ids s)
    (rbind (case t_wait_for (k_tcb s th) of None \<Rightarrow> Inr s | Some ob \<Rightarrow> waitable_cancel ob th s) (\<lambda>s1.
       rbind (on_stop th (upd th (\<lambda>c. c\<lparr>t_state := STOPPED, t_wait_for := None, t_ticket := 0\<rparr>) (drop_ticket (t_ticket (k_tcb s th)) s1)))
         (gc_signal None)))"
proof -
  let ?F = "flying D s"
  have k: "K ?F L s" and c: "kcore D s" using inv by (simp_all add: kinv_eq)
  have nF: "th \<notin> ?F" using flying_not_waiting [OF c] w by blast
  obtain s1 L1 where s1: "(case t_wait_for (k_tcb s th) of None \<Rightarrow> Inr s | Some ob \<Rightarrow> waitable_cancel ob th s) = Inr s1" "qframe s s1"
    "K (insert th ?F) L1 s1" using unwait_ok [OF k th nF w] by blast
  note q = qframeD [OF s1(2)]
  let ?s2 = "upd th (\<lambda>c. c\<lparr>t_state := STOPPED, t_wait_for := None, t_ticket := 0\<rparr>) (drop_ticket (t_ticket (k_tcb s th)) s1)"
  have k2: "K (insert th ?F) L1 ?s2"
    using KD(7) [OF s1(3) KD(2) [OF s1(3) insertI1]] s1(3) by (intro K_upd) (simp_all add: tcb_ok_def)
  have "stopped_ok (k_tcb ?s2 th)" by (simp add: stopped_ok_def idle_fields_def)
  from on_stop_ok [OF k2 insertI1 this] obtain s3 L3 where s3: "on_stop th ?s2 = Inr s3" "qframe ?s2 s3" "K (insert th ?F - {th}) L3 s3"
    by blast
  note q3 = qframeD [OF s3(2)]
  have f: "sframe s s3" using q q3 by (simp add: sframe_def)
  have "\<forall>u\<in>?F. k_tcb s3 u = k_tcb s u" using q q3 nF by auto
  note e3 = kcore_cong [OF f this]
  have "insert th ?F - {th} = ?F" using nF by simp
  then have "kinv D L3 s3" using s3(3) e3 c by (simp add: kinv_eq)
  from gc_signal_sound [OF this, of None] have "sound D (k_ids s) (gc_signal None s3)" using f by (simp add: sframe_def)
  then show ?thesis using s1(1) s3(1) by simp
qed

lemma thread_kill_sound:
  assumes inv: "kinv D L s" and th: "th < k_ids s"
    and self: "th = k_cur s \<Longrightarrow> \<not> t_critical (k_tcb s th) \<and> st_of s th = RUNNING \<and> some_ready L s None"
  shows "sound D (k_ids s) (thread_kill th s)"
proof -
  have k: "K (flying D s) L s" and c: "kcore D s" using inv by (simp_all add: kinv_eq)
  let ?stop = "upd th (\<lambda>c. c\<lparr>t_state := STOPPED\<rparr>) s"
  consider (crit) "t_critical (k_tcb s th)" | (self) "\<not> t_critical (k_tcb s th)" "th = k_cur s"
    | (wait) "\<not> t_critical (k_tcb s th)" "th \<noteq> k_cur s" "st_of s th = WAITING"
    | (other) "\<not> t_critical (k_tcb s th)" "th \<noteq> k_cur s" "st_of s th \<noteq> WAITING" by blast
  then show ?thesis
  proof cases
    case crit
    have "kinv D L (upd th (\<lambda>c. c\<lparr>t_kill := True\<rparr>) s)" by (rule kinv_upd_flags [OF inv]) simp_all
    moreover have "k_cur s \<noteq> th" using crit assms(3) by auto
    ultimately show ?thesis using crit by (auto simp: thread_kill_def sound_def)
  next
    case self
    then have run: "st_of s th = RUNNING" "some_ready L s None" using assms(3) by simp_all
    have i: "kinv D L ?stop" using kinv_stop_cur [OF inv] self(2) by simp
    have "some_ready L ?stop None" using ready_but_cur [OF inv run(2)] self(2) by simp
    then have "sound D (k_ids s) (escape th ?stop)" using escape_sound [OF i] self(2) by simp
    then show ?thesis using self run by (simp add: thread_kill_def)
  next
    case wait
    then show ?thesis using kill_waiting [OF inv th wait(3)] by (auto simp: thread_kill_def Let_def)
  next
    case other
    have "kinv D L ?stop"
    proof (cases "th \<in> flying D s")
      case True
      then have "st_of s th = STOPPED" using c other(2) by (auto simp: kcore_def flying_def stopped_ok_def)
      then have "(k_tcb s th)\<lparr>t_state := STOPPED\<rparr> = k_tcb s th" by (cases "k_tcb s th") simp
      then have "?stop = s" by (simp add: upd_def)
      then show ?thesis using inv by simp
    next
      case False
      then have "th \<in> queued L" using k th other(3) unfolding K_def wf_def asleep_def by blast
      then obtain q where q: "th \<in> set (L q)" by (auto simp: queued_def)
      have b: "belongs ((k_tcb s th)\<lparr>t_state := STOPPED\<rparr>) q" using KD(6) [OF k q] other(3) by (cases q) (auto simp: idle_fields_def)
      have "K (flying D s) L ?stop" using KD(7) [OF k th] by (intro K_upd_queued [where q = q, OF k q]) (simp_all add: b)
      moreover have "sframe s ?stop" "\<forall>u\<in>flying D s. k_tcb ?stop u = k_tcb s u" using False by auto
      note e = kcore_cong [OF this]
      ultimately show ?thesis using c e by (simp add: kinv_eq)
    qed
    then show ?thesis using other by (auto simp: thread_kill_def sound_def)
  qed
qed

section \<open>Collecting and creating\<close>

lemma gc_turn_ok:
  assumes inv: "kinv D L s"
  shows "case L GcQ of [] \<Rightarrow> gc_turn s = Inr (None, s)
    | t # ts \<Rightarrow> \<exists>s' L'. gc_turn s = Inr (Some t, s') \<and> kinv (insert t D) L' s' \<and> k_ids s' = k_ids s"
proof (cases "L GcQ")
  case Nil
  have "rep s L" using inv by (simp add: kinv_def K_def)
  then show ?thesis using tq_get_empty [of s L GcQ] Nil by (simp add: gc_turn_def)
next
  case (Cons t ts)
  have k: "K (flying D s) L s" and c: "kcore D s" using inv by (simp_all add: kinv_eq)
  obtain s1 where s1: "tq_get GcQ s = Inr (Some t, s1)" "qframe s s1" "K (insert t (flying D s)) (L(GcQ := ts)) s1"
    using K_get [OF k Cons] by blast
  note q = qframeD [OF s1(2)]
  have t: "stopped_ok (k_tcb s t)" "t \<notin> flying D s" using KD(4,6) [OF k, of t GcQ] Cons by (simp_all add: stopped_ok_def)
  have "flying (insert t D) s1 = insert t (flying D s)" using q by (auto simp: flying_def)
  moreover have "kcore (insert t D) s1" using c t q by (auto simp: kcore_def flying_def)
  ultimately have "kinv (insert t D) (L(GcQ := ts)) s1" using s1(3) by (simp add: kinv_eq)
  from notify_ok [OF this, of "Thr t"] show ?thesis using Cons s1(1) q by (fastforce simp: gc_turn_def)
qed

lemma thread_new_ok:
  assumes inv: "kinv D L s"
  shows "\<exists>s' L'. thread_new s = Inr (k_ids s, s') \<and> kinv D L' s' \<and> k_ids s' = Suc (k_ids s) \<and> st_of s' (k_ids s) = READY"
proof -
  let ?t = "k_ids s" let ?F = "flying D s"
  let ?c = "\<lparr>t_state = READY, t_critical = False, t_kill = False, t_priority = t_priority (k_tcb s (k_cur s)), t_reason = NONE,
          t_slice = max_slice, t_wait_for = None, t_ticket = 0\<rparr>"
  let ?s1 = "s\<lparr>k_ids := Suc ?t, k_tcb := (k_tcb s)(?t := ?c)\<rparr>"
  have k: "K ?F L s" and c: "kcore D s" using inv by (simp_all add: kinv_eq)
  have "k_cur s < ?t" using KD(2) [OF k, of "k_cur s"] by (simp add: flying_def)
  then have ok: "tcb_ok ?c" using KD(7) [OF k] by (simp add: tcb_ok_def)
  have nq: "?t \<notin> set (L q)" for q using KD(5) [OF k, of ?t q] by auto
  have old: "t \<noteq> ?t" if "t \<in> set (L q)" for t q using nq that by metis
  have nF: "?t \<notin> ?F" using KD(2) [OF k, of ?t] by auto
  have w: "wf ?F L s" using k by (simp add: K_def)
  have "wf (insert ?t ?F) L ?s1"
    unfolding wf_def
  proof (intro conjI)
    show "insert ?t ?F \<subseteq> {..<k_ids ?s1}" using w by (auto simp: wf_def)
    show "insert ?t ?F \<inter> queued L = {}" using w nq by (auto simp: wf_def queued_def)
    show "\<forall>q. \<forall>t\<in>set (L q). t < k_ids ?s1 \<and> belongs (k_tcb ?s1 t) q" using w old by (fastforce simp: wf_def)
    show "\<forall>t<k_ids ?s1. t \<in> insert ?t ?F \<or> t \<in> queued L \<or> asleep (k_tcb ?s1 t)" using w by (auto simp: wf_def less_Suc_eq)
    show "\<forall>t<k_ids ?s1. tcb_ok (k_tcb ?s1 t)" using w ok by (auto simp: wf_def less_Suc_eq)
  qed
  moreover have "rep ?s1 L" using KD(1) [OF k] by (simp add: rep_def)
  ultimately have k1: "K (insert ?t ?F) L ?s1" by (simp add: K_def)
  have "st_of ?s1 ?t = READY" "idle_fields (k_tcb ?s1 ?t)" by (simp_all add: idle_fields_def)
  from sched_put_ok [OF k1 insertI1 this] obtain s2 L2 where s2: "sched_put ?t ?s1 = Inr s2" "qframe ?s1 s2" "K (insert ?t ?F - {?t}) L2 s2"
    by blast
  note q = qframeD [OF s2(2)]
  have f: "flying D s2 = ?F" using q by (simp add: flying_def)
  have "\<forall>u\<in>?F. k_tcb s2 u = k_tcb s u" using q nF by auto
  then have "kcore D s2" using c q unfolding kcore_def flying_def by auto
  moreover have "insert ?t ?F - {?t} = ?F" using nF by simp
  ultimately have "kinv D L2 s2" using s2(3) f by (simp add: kinv_eq)
  then show ?thesis using s2(1) q by (auto simp: thread_new_def Let_def)
qed

end
