(* ===== verification/Sched_Props.thy ===== *)
theory Sched_Props
  imports Sched_Ops
begin

text \<open>
  The operations of the scheduler as one transition system, and the properties of the whole: the invariant holds after every
  sequence of operations, what it says about where a thread is, which thread runs next, and what a notification does.
\<close>

section \<open>The operations\<close>

datatype kop = Preempt bool | Tick | Wait oid qword | Sleep qword | Notify oid | Signal oid | Expire qword nat | Kill nat
  | Hold | Drop | SetPriority nat nat | GcTurn | Spawn

fun run_op :: "kop \<Rightarrow> kernel \<Rightarrow> kernel res" where
  "run_op (Preempt lower) s = preempt lower s"
| "run_op Tick s = core_on_timer s"
| "run_op (Wait ob us) s = imp_wait ob us s"
| "run_op (Sleep us) s = sleep us s"
| "run_op (Notify ob) s = rbind (notify ob NOTIFY s) (\<lambda>(_, s). Inr s)"
| "run_op (Signal ob) s = rbind (signal_one signal_depth ob s) (\<lambda>(_, s). Inr s)"
| "run_op (Expire tk th) s = thread_on_timer tk th s"
| "run_op (Kill th) s = thread_kill th s"
| "run_op Hold s = thread_hold s"
| "run_op Drop s = thread_drop s"
| "run_op (SetPriority th v) s = Inr (snd (set_priority th v s))"
| "run_op GcTurn s = rbind (gc_turn s) (\<lambda>(_, s). Inr s)"
| "run_op Spawn s = rbind (thread_new s) (\<lambda>(_, s). Inr s)"

text \<open>When an operation may be called: the rules the code states as assertions or stops, and a ready thread (the idle thread)
  where the operation gives up the processor.\<close>

fun allowed :: "kop \<Rightarrow> (qid \<Rightarrow> nat list) \<Rightarrow> kernel \<Rightarrow> bool" where
  "allowed (Preempt lower) L s \<longleftrightarrow> (st_of s (k_cur s) = STOPPED \<longrightarrow> some_ready L s None)"
| "allowed Tick L s \<longleftrightarrow> (st_of s (k_cur s) = STOPPED \<longrightarrow> some_ready L s None)"
| "allowed (Wait ob us) L s \<longleftrightarrow> st_of s (k_cur s) = RUNNING \<and> ob \<noteq> Thr (k_cur s) \<and>
     (case ob of Thr p \<Rightarrow> st_of s p \<noteq> STOPPED | Obj _ \<Rightarrow> True) \<and>
     some_ready L s (case ob of Thr t \<Rightarrow> Some t | Obj _ \<Rightarrow> None)"
| "allowed (Sleep us) L s \<longleftrightarrow> st_of s (k_cur s) = RUNNING \<and> conductor (k_timer s) + 1 \<noteq> 0 \<and> some_ready L s None"
| "allowed (Expire tk th) L s \<longleftrightarrow> th < k_ids s \<and> tk \<noteq> 0"
| "allowed (Kill th) L s \<longleftrightarrow> th < k_ids s \<and>
     (th = k_cur s \<longrightarrow> \<not> t_critical (k_tcb s th) \<and> st_of s th = RUNNING \<and> some_ready L s None)"
| "allowed Hold L s \<longleftrightarrow> \<not> t_critical (k_tcb s (k_cur s)) \<and> \<not> t_kill (k_tcb s (k_cur s))"
| "allowed Drop L s \<longleftrightarrow> t_critical (k_tcb s (k_cur s)) \<and> st_of s (k_cur s) = RUNNING \<and> some_ready L s None"
| "allowed _ L s \<longleftrightarrow> True"

lemma run_op_sound:
  assumes inv: "kinv D L s" and ok: "allowed op L s" and op: "op \<noteq> GcTurn" "op \<noteq> Spawn"
  shows "sound D (k_ids s) (run_op op s)"
proof (cases op)
  case (Notify ob)
  then show ?thesis using notify_ok [OF inv, of ob] by (auto simp: sound_def)
next
  case (Signal ob)
  have "signal_depth = Suc (Suc 0)" by (simp add: signal_depth_def)
  then show ?thesis using signal_one_sound [OF inv, of "Suc 0" ob] Signal by (auto simp: sound_def)
next
  case (Wait ob us)
  then show ?thesis using imp_wait_sound [OF inv, of ob us] ok by (auto split: oid.splits)
qed (use ok op preempt_sound [OF inv] core_on_timer_sound [OF inv] sleep_sound [OF inv] thread_on_timer_sound [OF inv]
      thread_kill_sound [OF inv] thread_hold_sound [OF inv] thread_drop_sound [OF inv] set_priority_sound [OF inv] in auto)

lemma run_op_keeps:
  assumes inv: "kinv D L s" and ok: "allowed op L s"
  shows "\<exists>s' L' D'. run_op op s = Inr s' \<and> kinv D' L' s' \<and> D \<subseteq> D' \<and> k_ids s \<le> k_ids s'"
proof -
  consider "op = GcTurn" | "op = Spawn" | "op \<noteq> GcTurn" "op \<noteq> Spawn" by blast
  then show ?thesis
  proof cases
    case 1
    show ?thesis
    proof (cases "L GcQ")
      case Nil
      then show ?thesis using 1 gc_turn_ok [OF inv] inv by auto
    next
      case (Cons t ts)
      then show ?thesis using 1 gc_turn_ok [OF inv] by (fastforce intro: subset_insertI)
    qed
  next
    case 2
    then show ?thesis using thread_new_ok [OF inv] by fastforce
  next
    case 3
    then show ?thesis using run_op_sound [OF inv ok] unfolding sound_def by (metis order_refl)
  qed
qed

definition sched_inv :: "kernel \<Rightarrow> bool" where
  "sched_inv s \<longleftrightarrow> (\<exists>D L. kinv D L s)"

definition may_run :: "kop \<Rightarrow> kernel \<Rightarrow> bool" where
  "may_run op s \<longleftrightarrow> (\<forall>D L. kinv D L s \<longrightarrow> allowed op L s)"

interpretation sched: component run_op may_run sched_inv
  by unfold_locales (use run_op_keeps in \<open>fastforce simp: sched_inv_def may_run_def\<close>)

section \<open>A small state\<close>

text \<open>The boot thread runs, thread 1 is ready and thread 2 waits for object 7.\<close>

definition plain_tcb :: "tstate \<Rightarrow> tcb" where
  "plain_tcb st = \<lparr>t_state = st, t_critical = False, t_kill = False, t_priority = 3, t_reason = NONE, t_slice = 8,
     t_wait_for = None, t_ticket = 0\<rparr>"

definition small :: kernel where
  "small = \<lparr>k_tcb = (\<lambda>t. if t = 0 then plain_tcb RUNNING else if t = 1 then plain_tcb READY
       else (plain_tcb WAITING)\<lparr>t_wait_for := Some (Obj 7)\<rparr>),
     k_next = (\<lambda>_. None),
     k_q = (\<lambda>q. if q = ReadyQ 3 then \<lparr>q_head = Some 1, q_tail = Some 1\<rparr>
       else if q = WaitQ (Obj 7) then \<lparr>q_head = Some 2, q_tail = Some 2\<rparr> else \<lparr>q_head = None, q_tail = None\<rparr>),
     k_ids = 3, k_cur = 0, k_gc_ptr = None, k_th_gc = 1,
     k_timer = \<lparr>conductor = 0, record_set = {}, delta_queue = [], running_us = 0, beat_counter = 0\<rparr>\<rparr>"

definition small_queues :: "qid \<Rightarrow> nat list" where
  "small_queues = (\<lambda>q. if q = ReadyQ 3 then [1] else if q = WaitQ (Obj 7) then [2] else [])"

lemma small_inv: "kinv {} small_queues small"
proof -
  have r: "rep small small_queues"
    by (auto simp: rep_def separate_def is_queue_def small_def small_queues_def)
  have q: "queued small_queues = {1, 2}" by (auto simp: queued_def small_queues_def split: if_splits)
  have t: "t = 0 \<or> t = 1 \<or> t = 2" if "t < 3" for t :: nat using that by auto
  have "wf {0} small_queues small"
    unfolding wf_def q
    by (auto simp: small_def small_queues_def plain_tcb_def tcb_ok_def max_priority_def max_slice_def idle_fields_def dest!: t)
  then show ?thesis using r by (simp add: kinv_def K_def flying_def small_def plain_tcb_def idle_fields_def)
qed

lemma small_ready: "some_ready small_queues small None"
  by (auto simp: some_ready_def readyset_def small_queues_def small_def plain_tcb_def intro!: exI [of _ 3])

section \<open>Properties\<close>







text \<open>C12: Preemption runs the first thread that can run of the most urgent ready queue below the given level, which is the priority of the
  current thread, plus one if threads of equal priority may take over. If there is none, the current thread goes on, or another
  thread runs if the current one has stopped.\<close>

theorem preempt_runs_most_urgent:
  assumes "kinv D L s" and "st_of s (k_cur s) = STOPPED \<longrightarrow> some_ready L s None"
  shows "\<exists>s' L'. preempt lower s = Inr s' \<and> kinv D L' s' \<and> k_ids s' = k_ids s \<and>
    (let level = t_priority (k_tcb s (k_cur s)) + (if lower then 1 else 0) in
     if \<forall>p < min level max_priority. \<forall>u\<in>set (L (ReadyQ p)). st_of s u = STOPPED
     then (if st_of s (k_cur s) = STOPPED then k_cur s' \<noteq> k_cur s else k_cur s' = k_cur s)
     else \<exists>p us vs. p < min level max_priority \<and> L (ReadyQ p) = us @ k_cur s' # vs \<and> st_of s (k_cur s') = READY \<and>
       (\<forall>u\<in>set us. st_of s u = STOPPED) \<and> (\<forall>i<p. \<forall>u\<in>set (L (ReadyQ i)). st_of s u = STOPPED))"
proof -
  have none: "chosen (k_tcb s) L lv None None \<longleftrightarrow> (\<forall>p < min lv max_priority. \<forall>u\<in>set (L (ReadyQ p)). st_of s u = STOPPED)" for lv
    by (simp add: chosen_def passed_over_def)
  have some: "\<exists>p us vs. p < min lv max_priority \<and> L (ReadyQ p) = us @ t # vs \<and> st_of s t = READY \<and>
       (\<forall>u\<in>set us. st_of s u = STOPPED) \<and> (\<forall>i<p. \<forall>u\<in>set (L (ReadyQ i)). st_of s u = STOPPED)"
    if "chosen (k_tcb s) L lv None (Some t)" for lv t
    using that unfolding chosen_def passed_over_def option.case by blast
  from preempt_ok [OF assms, of lower] obtain s' L' where s': "preempt lower s = Inr s'" "kinv D L' s'" "k_ids s' = k_ids s"
    "let level = t_priority (k_tcb s (k_cur s)) + (if lower then 1 else 0) in
     if chosen (k_tcb s) L level None None
     then (if st_of s (k_cur s) = STOPPED then k_cur s' \<noteq> k_cur s else k_cur s' = k_cur s)
     else chosen (k_tcb s) L level None (Some (k_cur s'))" by blast
  let ?lv = "t_priority (k_tcb s (k_cur s)) + (if lower then 1 else 0)"
  note c = s'(4) [unfolded Let_def none]
  show ?thesis
  proof (cases "\<forall>p < min ?lv max_priority. \<forall>u\<in>set (L (ReadyQ p)). st_of s u = STOPPED")
    case True
    then show ?thesis unfolding Let_def if_P [OF True] using c [unfolded if_P [OF True]] s'(1-3) by blast
  next
    case False
    then show ?thesis unfolding Let_def if_not_P [OF False] using some [OF c [unfolded if_not_P [OF False]]] s'(1-3) by blast
  qed
qed

theorem preempt_runs_most_urgent_witness:
  "\<exists>s'. preempt True small = Inr s' \<and> k_cur s' = 1"
proof -
  have "st_of small (k_cur small) = STOPPED \<longrightarrow> some_ready small_queues small None" using small_ready by blast
  from preempt_runs_most_urgent [OF small_inv this, of True] obtain s' where s': "preempt True small = Inr s'"
    "let level = t_priority (k_tcb small (k_cur small)) + (if True then 1 else 0) in
     if \<forall>p < min level max_priority. \<forall>u\<in>set (small_queues (ReadyQ p)). st_of small u = STOPPED
     then (if st_of small (k_cur small) = STOPPED then k_cur s' \<noteq> k_cur small else k_cur s' = k_cur small)
     else \<exists>p us vs. p < min level max_priority \<and> small_queues (ReadyQ p) = us @ k_cur s' # vs \<and> st_of small (k_cur s') = READY \<and>
       (\<forall>u\<in>set us. st_of small u = STOPPED) \<and> (\<forall>i<p. \<forall>u\<in>set (small_queues (ReadyQ i)). st_of small u = STOPPED)" by blast
  have lv: "min (t_priority (k_tcb small (k_cur small)) + (if True then 1 else 0)) max_priority = 4"
    by (simp add: small_def plain_tcb_def max_priority_def)
  have "1 \<in> set (small_queues (ReadyQ 3)) \<and> st_of small 1 = READY" by (simp add: small_queues_def small_def plain_tcb_def)
  then have n: "\<not> (\<forall>p < 4. \<forall>u\<in>set (small_queues (ReadyQ p)). st_of small u = STOPPED)"
    by (intro notI) (drule spec [of _ 3], auto)
  from s'(2) [unfolded Let_def lv if_not_P [OF n]] have "k_cur s' = 1"
    by (auto simp: small_queues_def Cons_eq_append_conv split: if_splits)
  then show ?thesis using s'(1) by blast
qed

text \<open>C18: A notification empties the wait queue of the object: all its waiters become ready, in the order in which they waited, each at the
  end of the ready queue of its priority, with their timeouts cancelled and the reason recorded; the number of
  waiters is returned and no other thread changes.\<close>

theorem notify_wakes_in_order:
  assumes "kinv D L s"
  shows "\<exists>s'. notify ob NOTIFY s = Inr (length (L (WaitQ ob)), s') \<and>
    kinv D (fold (ready_at s) (L (WaitQ ob)) (L(WaitQ ob := []))) s' \<and>
    k_tcb s' = (\<lambda>t. if t \<in> set (L (WaitQ ob)) then woken NOTIFY (k_tcb s t) else k_tcb s t)"
  using notify_ok [OF assms, of ob] by blast

theorem notify_wakes_in_order_witness:
  "\<exists>s'. notify (Obj 7) NOTIFY small = Inr (1, s') \<and> st_of s' 2 = READY \<and> st_of s' 1 = READY"
  using notify_wakes_in_order [OF small_inv, of "Obj 7"]
  by (auto simp: small_queues_def small_def plain_tcb_def woken_def)

text \<open>A defect: giving up an object that threads wait for (the destructors of events, semaphores and pipes do it with
  the reason \<open>ABANDON\<close>) stops the kernel. The queue is emptied before the waiters are woken, and waking a waiter for this
  reason tries to take it out of that queue once more.\<close>

theorem abandon_with_waiters_stops:
  assumes inv: "kinv D L s" and ne: "L (WaitQ ob) \<noteq> []"
  shows "notify ob ABANDON s = bugcheck ''wait_queue corrupted''"
proof -
  have k: "K (flying D s) L s" using inv by (simp add: kinv_eq)
  let ?s = "tq_clear (WaitQ ob) s"
  obtain t ts where t: "L (WaitQ ob) = t # ts" using ne by (cases "L (WaitQ ob)") auto
  have b: "st_of s t = WAITING" "t_wait_for (k_tcb s t) = Some ob" using KD(6) [OF k, of t "WaitQ ob"] t by simp_all
  have h: "q_head (k_q s (WaitQ ob)) = Some t" using repD(1) [OF KD(1) [OF k], of "WaitQ ob"] t by (simp add: is_queue_def)
  have "waitable_cancel ob t ?s = bugcheck ''wait_queue corrupted''"
    by (rule waitable_cancel_miss [OF tq_clear_ok [OF KD(1) [OF k]]]) simp_all
  moreover have "k_tcb ?s = k_tcb s" by (simp add: tq_clear_def)
  ultimately have "set_state t (ToReady ABANDON) ?s = bugcheck ''wait_queue corrupted''"
    using b by (simp add: set_state_def leave_wait_def)
  then show ?thesis using h by (simp add: notify_def imp_notify_def Let_def)
qed

theorem abandon_with_waiters_stops_witness:
  "notify (Obj 7) ABANDON small = bugcheck ''wait_queue corrupted''"
  by (rule abandon_with_waiters_stops [OF small_inv]) (simp add: small_queues_def)

end
