(* ===== verification/Sync_Objects.thy ===== *)
theory Sync_Objects
  imports Sched_Props
begin

text \<open>
  The waitable objects above the scheduler: reference counts (\<open>acquire\<close>, \<open>relax\<close>, \<open>manage\<close> of \<^verbatim>\<open>process/waitable.cpp\<close>),
  the reader-writer lock (\<^verbatim>\<open>sync/rwlock.cpp\<close>), events (\<^verbatim>\<open>sync/event.cpp\<close>) and semaphores
  (\<^verbatim>\<open>sync/semaphore.cpp\<close>). Each operation runs with interrupts disabled. The state of an object is
  separate from the state of the scheduler; an operation that waits or wakes calls the scheduler.
\<close>

section \<open>Reference counts\<close>

record refobj =
  ref_count :: dword
  named :: bool

definition acquire :: "refobj \<Rightarrow> bool \<times> refobj" where
  "acquire w = (if ref_count w = 0 then (False, w) else (True, w\<lparr>ref_count := ref_count w + 1\<rparr>))"

text \<open>\<open>relax\<close> returns whether references remain; the objects that override it delete themselves otherwise.\<close>

definition relax :: "refobj \<Rightarrow> (bool \<times> refobj) res" where
  "relax w = (if ref_count w = 0 then bugcheck ''relaxing without reference''
     else Inr (ref_count w - 1 \<noteq> 0, w\<lparr>ref_count := ref_count w - 1\<rparr>))"

definition manage :: "refobj \<Rightarrow> refobj res" where
  "manage w = (if ref_count w \<noteq> 0 then bugcheck ''managing object with references''
     else Inr (w\<lparr>ref_count := ref_count w + 1\<rparr>))"

text \<open>Threads and processes start with two references, one for the creator and one for their own life.\<close>

definition manage_active :: "refobj \<Rightarrow> refobj res" where
  "manage_active w = rbind (manage w) (\<lambda>w. let w = w\<lparr>ref_count := ref_count w + 1\<rparr> in kassert (ref_count w = 2) (Inr w))"

text \<open>Events, semaphores and pipes: \<open>manage(ptr)\<close> with a pointer marks the object as named.\<close>

definition manage_named :: "bool \<Rightarrow> refobj \<Rightarrow> refobj res" where
  "manage_named expose w =
     (if expose then (if ref_count w = 0 then bugcheck ''expose non-managed'' else Inr (w\<lparr>named := True\<rparr>))
      else manage w)"

text \<open>Result: still alive, deleted, or deleted after it was erased from the named objects.\<close>

datatype fate = Alive | Deleted | ErasedAndDeleted

definition relax_named :: "refobj \<Rightarrow> (fate \<times> refobj) res" where
  "relax_named w = rbind (relax w) (\<lambda>(res, w).
     Inr (if res then Alive else if named w then ErasedAndDeleted else Deleted, w))"

section \<open>rwlock\<close>

record rwlock =
  rw_owner :: "nat option"
  share_count :: dword

definition rw_new :: rwlock where "rw_new = \<lparr>rw_owner = None, share_count = 0\<rparr>"

definition rw_try_lock :: "nat \<Rightarrow> bool \<Rightarrow> rwlock \<Rightarrow> bool \<times> rwlock" where
  "rw_try_lock th exclusive l =
     (if exclusive then
        (if rw_owner l = None \<and> share_count l = 0 then (True, l\<lparr>rw_owner := Some th\<rparr>) else (False, l))
      else if rw_owner l \<noteq> None then (False, l)
      else (True, l\<lparr>share_count := share_count l + 1\<rparr>))"

text \<open>One round of the loop of \<open>lock\<close>: it takes the lock, or waits on the object and tries again when it is notified.\<close>

definition rw_lock_round :: "oid \<Rightarrow> bool \<Rightarrow> rwlock \<Rightarrow> kernel \<Rightarrow> (bool \<times> rwlock \<times> kernel) res" where
  "rw_lock_round ob exclusive l s =
     (case rw_try_lock (k_cur s) exclusive l of
        (True, l) \<Rightarrow> Inr (True, l, s)
      | (False, l) \<Rightarrow> rbind (imp_wait ob 0 s) (\<lambda>s. Inr (False, l, s)))"

definition rw_downgrade :: "oid \<Rightarrow> rwlock \<Rightarrow> kernel \<Rightarrow> (rwlock \<times> kernel) res" where
  "rw_downgrade ob l s = kassert (rw_owner l \<noteq> None \<and> share_count l = 0)
     (rbind (notify ob NOTIFY s) (\<lambda>(_, s). Inr (l\<lparr>share_count := 1, rw_owner := None\<rparr>, s)))"

definition rw_release :: "nat \<Rightarrow> rwlock \<Rightarrow> (bool \<times> rwlock) res" where
  "rw_release th l =
     (case rw_owner l of
        Some owner \<Rightarrow> kassert (share_count l = 0)
          (if owner \<noteq> th then bugcheck ''releasing non-owning exclusive lock'' else Inr (True, l\<lparr>rw_owner := None\<rparr>))
      | None \<Rightarrow>
          if share_count l = 0 then bugcheck ''releasing free shared lock''
          else Inr (share_count l - 1 = 0, l\<lparr>share_count := share_count l - 1\<rparr>))"

definition rw_unlock :: "oid \<Rightarrow> rwlock \<Rightarrow> kernel \<Rightarrow> (rwlock \<times> kernel) res" where
  "rw_unlock ob l s = rbind (rw_release (k_cur s) l) (\<lambda>(wake, l).
     if wake then rbind (notify ob NOTIFY s) (\<lambda>(_, s). Inr (l, s)) else Inr (l, s))"

definition rw_is_locked :: "rwlock \<Rightarrow> bool" where "rw_is_locked l \<longleftrightarrow> rw_owner l \<noteq> None \<or> share_count l \<noteq> 0"
definition rw_is_exclusive :: "rwlock \<Rightarrow> bool" where "rw_is_exclusive l \<longleftrightarrow> rw_owner l \<noteq> None"

definition rw_destroy :: "rwlock \<Rightarrow> unit res" where
  "rw_destroy l = (if rw_owner l \<noteq> None \<or> share_count l \<noteq> 0 then bugcheck ''deleting active rwlock'' else Inr ())"

section \<open>event\<close>

definition event_new :: "bool \<Rightarrow> bool" where "event_new initial_state = initial_state"

definition event_wait :: "oid \<Rightarrow> qword \<Rightarrow> bool \<Rightarrow> kernel \<Rightarrow> (bool \<times> kernel) res" where
  "event_wait ob us state s = (if state then Inr (True, s) else rbind (imp_wait ob us s) (\<lambda>s. Inr (False, s)))"

definition event_signal_one :: "oid \<Rightarrow> kernel \<Rightarrow> (bool \<times> kernel) res" where
  "event_signal_one ob s = signal_one signal_depth ob s"

definition event_signal_all :: "oid \<Rightarrow> bool \<Rightarrow> kernel \<Rightarrow> (nat \<times> bool \<times> kernel) res" where
  "event_signal_all ob state s = rbind (notify ob NOTIFY s) (\<lambda>(n, s). Inr (n, True, s))"

definition event_reset :: "bool \<Rightarrow> bool" where "event_reset state = False"

definition event_destroy :: "oid \<Rightarrow> kernel \<Rightarrow> (nat \<times> kernel) res" where
  "event_destroy ob s = notify ob ABANDON s"

section \<open>semaphore\<close>

record semaphore =
  total :: dword
  sem_count :: dword

definition sem_new :: "dword \<Rightarrow> semaphore res" where
  "sem_new initial = kassert (initial \<noteq> 0) (Inr \<lparr>total = initial, sem_count = initial\<rparr>)"

definition sem_check :: "semaphore \<Rightarrow> bool \<times> semaphore" where
  "sem_check x = (if sem_count x \<noteq> 0 then (True, x\<lparr>sem_count := sem_count x - 1\<rparr>) else (False, x))"

text \<open>One round of the loop of \<open>wait\<close>.\<close>

definition sem_wait_round :: "oid \<Rightarrow> qword \<Rightarrow> semaphore \<Rightarrow> kernel \<Rightarrow> (bool \<times> semaphore \<times> kernel) res" where
  "sem_wait_round ob us x s =
     (if sem_count x \<noteq> 0 then Inr (True, x\<lparr>sem_count := sem_count x - 1\<rparr>, s)
      else rbind (imp_wait ob us s) (\<lambda>s. Inr (False, x, s)))"

definition sem_release :: "semaphore \<Rightarrow> semaphore" where
  "sem_release x = x\<lparr>sem_count := min (sem_count x + 1) (total x)\<rparr>"

definition sem_signal :: "oid \<Rightarrow> semaphore \<Rightarrow> kernel \<Rightarrow> (bool \<times> semaphore \<times> kernel) res" where
  "sem_signal ob x s = rbind (signal_one signal_depth ob s) (\<lambda>(woken, s). Inr (woken, sem_release x, s))"

section \<open>Locking discipline of the reader-writer lock\<close>

text \<open>The lock with the threads that hold it: a holder releases what it holds, once.\<close>

record rwsys =
  lk :: rwlock
  writer :: "nat option"
  readers :: "nat list"

datatype rwop = TryLock nat bool | Unlock nat

fun rw_step :: "rwop \<Rightarrow> rwsys \<Rightarrow> rwsys res" where
  "rw_step (TryLock th ex) s =
     (case rw_try_lock th ex (lk s) of
        (True, l) \<Rightarrow> Inr (if ex then s\<lparr>lk := l, writer := Some th\<rparr> else s\<lparr>lk := l, readers := th # readers s\<rparr>)
      | (False, l) \<Rightarrow> Inr (s\<lparr>lk := l\<rparr>))"
| "rw_step (Unlock th) s = rbind (rw_release th (lk s)) (\<lambda>(_, l).
     Inr (if writer s = Some th then s\<lparr>lk := l, writer := None\<rparr> else s\<lparr>lk := l, readers := remove1 th (readers s)\<rparr>))"

fun rw_may :: "rwop \<Rightarrow> rwsys \<Rightarrow> bool" where
  "rw_may (TryLock th ex) s \<longleftrightarrow> length (readers s) < 2 ^ 32 - 1"
| "rw_may (Unlock th) s \<longleftrightarrow> writer s = Some th \<or> th \<in> set (readers s)"

definition rw_inv :: "rwsys \<Rightarrow> bool" where
  "rw_inv s \<longleftrightarrow> rw_owner (lk s) = writer s \<and> unat (share_count (lk s)) = length (readers s) \<and>
     (writer s = None \<or> readers s = [])"

lemma rw_step_keeps: "rw_inv s \<Longrightarrow> rw_may x s \<Longrightarrow> \<exists>s'. rw_step x s = Inr s' \<and> rw_inv s'"
proof (cases x)
  case (TryLock th ex)
  assume inv: "rw_inv s" and may: "rw_may x s"
  have z: "share_count (lk s) = 0 \<longleftrightarrow> readers s = []" using inv by (auto simp: rw_inv_def unat_eq_0 [symmetric])
  have inc: "unat (share_count (lk s) + 1) = length (readers s) + 1"
    using inv may TryLock by (simp add: rw_inv_def unat_word_ariths)
  show ?thesis using inv TryLock z inc by (auto simp: rw_try_lock_def rw_inv_def)
next
  case (Unlock th)
  assume inv: "rw_inv s" and may: "rw_may x s"
  have z: "share_count (lk s) = 0 \<longleftrightarrow> readers s = []" using inv by (auto simp: rw_inv_def unat_eq_0 [symmetric])
  show ?thesis
  proof (cases "writer s")
    case None
    then have "th \<in> set (readers s)" using may Unlock by simp
    then have ne: "share_count (lk s) \<noteq> 0" "readers s \<noteq> []" using z by auto
    have "unat (share_count (lk s) - 1) = length (remove1 th (readers s))"
      using inv ne(1) \<open>th \<in> set (readers s)\<close> by (simp add: rw_inv_def unat_minus_one length_remove1)
    then show ?thesis using inv None Unlock ne by (auto simp: rw_release_def rw_inv_def)
  next
    case (Some w)
    then have "w = th" "readers s = []" using may Unlock inv by (auto simp: rw_inv_def)
    then show ?thesis using inv Some Unlock z by (auto simp: rw_release_def rw_inv_def)
  qed
qed

interpretation rw: component rw_step rw_may rw_inv
  by unfold_locales (rule rw_step_keeps)

text \<open>C33: For every sequence of lock attempts and releases in which a thread releases what it holds, the reader-writer lock never stops the kernel,
  never has a writer beside a reader or another writer, and its fields say who holds it.\<close>

theorem rwlock_excludes:
  assumes "legal rw_step rw_may ops \<lparr>lk = rw_new, writer = None, readers = []\<rparr>"
  shows "\<exists>s. exec_ops rw_step ops \<lparr>lk = rw_new, writer = None, readers = []\<rparr> = Inr s \<and> (writer s = None \<or> readers s = []) \<and>
    rw_owner (lk s) = writer s \<and> unat (share_count (lk s)) = length (readers s)"
proof -
  have "rw_inv \<lparr>lk = rw_new, writer = None, readers = []\<rparr>" by (simp add: rw_inv_def rw_new_def)
  from rw.sequence_keeps [OF this assms] show ?thesis by (auto simp: rw_inv_def)
qed

theorem rwlock_excludes_witness:
  "\<exists>s. exec_ops rw_step [TryLock 1 False, TryLock 2 True, Unlock 1, TryLock 2 True, TryLock 3 False]
     \<lparr>lk = rw_new, writer = None, readers = []\<rparr> = Inr s \<and> (writer s = None \<or> readers s = [])"
proof -
  have "legal rw_step rw_may [TryLock 1 False, TryLock 2 True, Unlock 1, TryLock 2 True, TryLock 3 False]
     \<lparr>lk = rw_new, writer = None, readers = []\<rparr>"
    by (simp add: rw_try_lock_def rw_new_def rw_release_def)
  from rwlock_excludes [OF this] show ?thesis by blast
qed

section \<open>Reference counts and semaphores\<close>

text \<open>A user of references: whoever holds one may take another or give it up.\<close>

datatype refop = Acquire | Relax

fun ref_step :: "refop \<Rightarrow> refobj \<times> nat \<Rightarrow> (refobj \<times> nat) res" where
  "ref_step Acquire (w, held) = (case acquire w of (ok, w) \<Rightarrow> Inr (w, if ok then held + 1 else held))"
| "ref_step Relax (w, held) = rbind (relax w) (\<lambda>(more, w). Inr (w, held - 1))"

fun ref_may :: "refop \<Rightarrow> refobj \<times> nat \<Rightarrow> bool" where
  "ref_may Acquire (w, held) \<longleftrightarrow> held < 2 ^ 32 - 1"
| "ref_may Relax (w, held) \<longleftrightarrow> 0 < held"

definition ref_inv :: "refobj \<times> nat \<Rightarrow> bool" where
  "ref_inv x \<longleftrightarrow> unat (ref_count (fst x)) = snd x"

lemma ref_step_keeps: "ref_inv x \<Longrightarrow> ref_may op x \<Longrightarrow> \<exists>x'. ref_step op x = Inr x' \<and> ref_inv x'"
proof (cases x; cases op)
  fix w held assume x: "x = (w, held)" and op: "op = Acquire" and inv: "ref_inv x" and may: "ref_may op x"
  have "unat (ref_count w + 1) = held + 1" using inv may x op by (simp add: ref_inv_def unat_word_ariths)
  then show ?thesis using inv x op by (auto simp: ref_inv_def acquire_def)
next
  fix w held assume x: "x = (w, held)" and op: "op = Relax" and inv: "ref_inv x" and may: "ref_may op x"
  have "ref_count w \<noteq> 0" using inv may x op by (auto simp: ref_inv_def)
  then show ?thesis using inv may x op by (auto simp: ref_inv_def relax_def unat_minus_one)
qed

interpretation refs: component ref_step ref_may ref_inv
  by unfold_locales (rule ref_step_keeps)

text \<open>C34: Reference counting: after \<open>manage\<close>, every sequence of \<open>acquire\<close> and \<open>relax\<close> in which only held references are given up runs without a stop; the
  count equals the references held, so \<open>acquire\<close> fails and the object is deleted exactly when none is left.\<close>

theorem reference_count_exact:
  assumes "ref_count w = 0" and "manage w = Inr w1" and "legal ref_step ref_may ops (w1, 1)"
  shows "\<exists>w2 held. exec_ops ref_step ops (w1, 1) = Inr (w2, held) \<and> unat (ref_count w2) = held \<and>
    (fst (acquire w2) \<longleftrightarrow> held \<noteq> 0) \<and>
    (held \<noteq> 0 \<longrightarrow> (\<exists>w3. relax_named w2 = Inr (if held \<noteq> 1 then Alive else if named w2 then ErasedAndDeleted else Deleted, w3)))"
proof -
  have "ref_inv (w1, 1)" using assms(1,2) by (auto simp: manage_def ref_inv_def)
  from refs.sequence_keeps [OF this assms(3)] obtain w2 held where r: "exec_ops ref_step ops (w1, 1) = Inr (w2, held)" "unat (ref_count w2) = held"
    by (auto simp: ref_inv_def)
  have z: "ref_count w2 = 0 \<longleftrightarrow> held = 0" using r(2) by (auto simp: unat_eq_0)
  have "ref_count w2 - 1 = 0 \<longleftrightarrow> ref_count w2 = 1" by simp
  then have o: "ref_count w2 - 1 = 0 \<longleftrightarrow> held = 1" using r(2) by (simp only: word_unat_eq_iff unsigned_1)
  have "fst (acquire w2) \<longleftrightarrow> held \<noteq> 0" using z by (simp add: acquire_def)
  moreover have "\<exists>w3. relax_named w2 = Inr (if held \<noteq> 1 then Alive else if named w2 then ErasedAndDeleted else Deleted, w3)" if "held \<noteq> 0"
    using that z o by (simp add: relax_named_def relax_def)
  ultimately show ?thesis using r by blast
qed

theorem reference_count_exact_witness:
  "\<exists>w2 held. exec_ops ref_step [Acquire, Relax, Acquire] (\<lparr>ref_count = 1, named = False\<rparr>, 1) = Inr (w2, held) \<and> unat (ref_count w2) = held"
proof -
  have m: "manage \<lparr>ref_count = 0, named = False\<rparr> = Inr \<lparr>ref_count = 1, named = False\<rparr>" by (simp add: manage_def)
  have l: "legal ref_step ref_may [Acquire, Relax, Acquire] (\<lparr>ref_count = 1, named = False\<rparr>, 1)"
    by (simp add: acquire_def relax_def)
  show ?thesis using reference_count_exact [OF _ m l] by simp blast
qed

datatype semop = SemCheck | SemSignal

primrec sem_run :: "semop list \<Rightarrow> semaphore \<Rightarrow> nat \<times> semaphore" where
  "sem_run [] x = (0, x)"
| "sem_run (p # ps) x = (case p of
     SemCheck \<Rightarrow> (let (ok, x) = sem_check x; (n, x) = sem_run ps x in (n + (if ok then 1 else 0), x))
   | SemSignal \<Rightarrow> sem_run ps (sem_release x))"

lemma sem_release_count:
  assumes "sem_count x \<le> total x" "total x \<noteq> - 1"
  shows "unat (sem_count (sem_release x)) = min (unat (sem_count x) + 1) (unat (total x))" "total (sem_release x) = total x"
    "sem_count (sem_release x) \<le> total x"
proof -
  have "unat (total x) < 2 ^ LENGTH(32)" by (rule unsigned_less)
  moreover have "unat (total x) \<noteq> unat (- 1 :: dword)" using assms(2) by (simp only: word_unat_eq_iff not_False_eq_True)
  ultimately have "unat (total x) < 2 ^ 32 - 1" by (simp add: unsigned_minus_1_eq_mask mask_eq_exp_minus_1)
  then have u: "unat (sem_count x + 1) = unat (sem_count x) + 1"
    using assms(1) by (simp add: word_le_nat_alt unat_word_ariths)
  then show "unat (sem_count (sem_release x)) = min (unat (sem_count x) + 1) (unat (total x))"
    by (simp add: sem_release_def min_def word_le_nat_alt)
  show "total (sem_release x) = total x" "sem_count (sem_release x) \<le> total x" by (simp_all add: sem_release_def)
qed

lemma sem_run_bound:
  assumes "sem_count x \<le> total x" "total x \<noteq> - 1" "sem_run ps x = (n, x')"
  shows "sem_count x' \<le> total x' \<and> total x' = total x \<and> n + unat (sem_count x') \<le> unat (sem_count x) + length (filter ((=) SemSignal) ps)"
  using assms
proof (induction ps arbitrary: x n)
  case (Cons p ps)
  show ?case
  proof (cases p)
    case SemSignal
    note r = sem_release_count [OF Cons.prems(1,2)]
    have "sem_count (sem_release x) \<le> total (sem_release x)" "total (sem_release x) \<noteq> - 1" using r Cons.prems(2) by simp_all
    from Cons.IH [OF this, of n] show ?thesis using Cons.prems(3) SemSignal r by auto
  next
    case SemCheck
    obtain m where m: "sem_run ps (snd (sem_check x)) = (m, x')" "n = m + (if fst (sem_check x) then 1 else 0)"
      using Cons.prems(3) SemCheck by (auto simp: Let_def split: prod.splits)
    have dec: "sem_count x \<noteq> 0 \<Longrightarrow> unat (sem_count x - 1) = unat (sem_count x) - 1 \<and> 0 < unat (sem_count x)"
      by (simp add: unat_minus_one unat_gt_0)
    have "sem_count (snd (sem_check x)) \<le> total (snd (sem_check x))" "total (snd (sem_check x)) = total x"
      using Cons.prems(1) dec by (auto simp: sem_check_def word_le_nat_alt)
    from Cons.IH [OF this(1) _ m(1)] this(2) show ?thesis
      using Cons.prems(2) m(2) SemCheck dec by (auto simp: sem_check_def split: if_splits)
  qed
qed auto

text \<open>A semaphore never grants more than its initial permits plus one per signal, and never holds more than its total, unless the total is the
  largest dword.\<close>

theorem semaphore_bounded:
  assumes "sem_new v = Inr x" and "v \<noteq> - 1" and "sem_run ps x = (n, x')"
  shows "sem_count x' \<le> v \<and> n + unat (sem_count x') \<le> unat v + length (filter ((=) SemSignal) ps)"
proof -
  have x: "sem_count x = v" "total x = v" using assms(1) by (auto simp: sem_new_def kassert_def split: if_splits)
  show ?thesis using sem_run_bound [of x ps n x'] assms(2,3) x by auto
qed

theorem semaphore_bounded_witness:
  "fst (sem_run [SemCheck, SemCheck, SemSignal, SemCheck] \<lparr>total = 1, sem_count = 1\<rparr>) \<le> 2"
proof -
  obtain n x' where r: "sem_run [SemCheck, SemCheck, SemSignal, SemCheck] \<lparr>total = 1, sem_count = 1\<rparr> = (n, x')" by fastforce
  have "sem_new 1 = Inr \<lparr>total = 1, sem_count = 1\<rparr>" by (simp add: sem_new_def)
  from semaphore_bounded [OF this _ r] show ?thesis using r by simp
qed

text \<open>A semaphore of the largest size loses all its permits when it is signalled while full.\<close>

lemma semaphore_signal_wraps:
  "sem_count (sem_release \<lparr>total = - 1, sem_count = - 1\<rparr>) = 0"
  by (simp add: sem_release_def)

end
