(* ===== verification/Process.thy ===== *)
theory Process
  imports Handle_Table Sync_Objects
begin

text \<open>
  Processes (\<^verbatim>\<open>process/process.cpp\<close>) and the table of named objects (\<^verbatim>\<open>interface/object.cpp\<close>). A process keeps its
  threads, how many of them have not exited, its state and result, a reference count and the handle table. The
  hash sets of the code are a finite set of thread ids and, where the order of iteration matters, a list. Killing returns the
  threads that \<open>thread::kill\<close> is called on, in the order of iteration. The address space, the image
  and the working directory are not modelled.
\<close>

section \<open>Processes\<close>

datatype pstate = PRunning | PStopped

record process =
  ps_state :: pstate
  ps_result :: dword
  ps_active :: dword
  ps_threads :: "nat list"
  ps_obj :: refobj
  ps_handles :: handle_table

definition NO_RESOURCE :: dword where "NO_RESOURCE = 0x80000006"

definition ps_new :: process where
  "ps_new = \<lparr>ps_state = PRunning, ps_result = NO_RESOURCE, ps_active = 0, ps_threads = [],
     ps_obj = \<lparr>ref_count = 0, named = False\<rparr>, ps_handles = ht_new\<rparr>"

definition ps_spawn :: "nat \<Rightarrow> process \<Rightarrow> nat option \<times> process" where
  "ps_spawn th p = (if ps_state p = PStopped then (None, p)
     else (Some th, p\<lparr>ps_threads := th # ps_threads p, ps_active := ps_active p + 1\<rparr>))"

text \<open>The threads to kill, the caller last.\<close>

definition ps_kill :: "nat \<Rightarrow> dword \<Rightarrow> process \<Rightarrow> nat list \<times> process" where
  "ps_kill this ret_val p =
     (filter (\<lambda>t. t \<noteq> this) (ps_threads p) @ (if this \<in> set (ps_threads p) then [this] else []),
      p\<lparr>ps_state := PStopped, ps_result := ret_val\<rparr>)"

text \<open>Result: the objects whose references are given up, and whether the waiters of the process are notified.\<close>

definition ps_on_exit :: "process \<Rightarrow> (nat list \<times> bool \<times> process) res" where
  "ps_on_exit p = kassert (ps_active p \<noteq> 0 \<and> unat (ps_active p) \<le> length (ps_threads p))
     (let p = p\<lparr>ps_active := ps_active p - 1\<rparr> in
      if ps_active p \<noteq> 0 then Inr ([], False, p)
      else rbind (ht_clear (ps_handles p)) (\<lambda>(objs, h). Inr (objs, True, p\<lparr>ps_state := PStopped, ps_handles := h\<rparr>)))"

text \<open>Result: whether the process has been deleted.\<close>

definition ps_relax :: "process \<Rightarrow> (bool \<times> process) res" where
  "ps_relax p = rbind (relax (ps_obj p)) (\<lambda>(more, w).
     if more then Inr (False, p\<lparr>ps_obj := w\<rparr>)
     else if ps_threads p \<noteq> [] \<or> ps_active p \<noteq> 0 then bugcheck ''deleting non-stop process''
     else Inr (True, p\<lparr>ps_obj := w\<rparr>))"

definition ps_erase :: "nat \<Rightarrow> process \<Rightarrow> (bool \<times> process) res" where
  "ps_erase th p = kassert (unat (ps_active p) \<le> length (ps_threads p))
     (if th \<notin> set (ps_threads p) then bugcheck ''cannot find thread''
      else let p = p\<lparr>ps_threads := remove1 th (ps_threads p)\<rparr> in
        if ps_threads p \<noteq> [] then Inr (False, p)
        else kassert (ps_active p = 0) (ps_relax p))"

definition ps_manage :: "process \<Rightarrow> process res" where
  "ps_manage p = rbind (manage_active (ps_obj p)) (\<lambda>w. Inr (p\<lparr>ps_obj := w\<rparr>))"

definition ps_get_result :: "process \<Rightarrow> dword option" where
  "ps_get_result p = (if ps_state p \<noteq> PStopped then None else Some (ps_result p))"

text \<open>\<open>process_manager::find\<close> and \<open>process::find\<close> share this shape.\<close>

definition pm_find :: "bool \<Rightarrow> (nat \<Rightarrow> process option) \<Rightarrow> nat \<Rightarrow> bool \<times> (nat \<Rightarrow> process option)" where
  "pm_find acq tab i = (case tab i of None \<Rightarrow> (False, tab)
     | Some p \<Rightarrow> if acq then (case acquire (ps_obj p) of (ok, w) \<Rightarrow> (ok, if ok then tab(i \<mapsto> p\<lparr>ps_obj := w\<rparr>) else tab))
                 else (True, tab))"

text \<open>\<open>process_manager::enumerate\<close> over the order of iteration: the next process after \<open>id\<close> that is not process 0.\<close>

definition next_nonzero :: "nat list \<Rightarrow> nat" where
  "next_nonzero order = (case dropWhile (\<lambda>i. i = 0) order of [] \<Rightarrow> 0 | i # _ \<Rightarrow> i)"

definition pm_enumerate :: "nat list \<Rightarrow> nat \<Rightarrow> bool \<times> nat" where
  "pm_enumerate order i =
     (if i = 0 then (True, next_nonzero order)
      else case dropWhile (\<lambda>j. j \<noteq> i) order of [] \<Rightarrow> (False, i) | _ # rest \<Rightarrow> (True, next_nonzero rest))"

section \<open>Named objects\<close>

record named_object =
  ob_name :: string
  ob_obj :: nat
  ob_property :: dword

definition max_name_length :: nat where "max_name_length = 0x1F8"

definition om_put :: "byte \<Rightarrow> string \<Rightarrow> nat \<Rightarrow> refobj \<Rightarrow> dword \<Rightarrow> named_object list \<Rightarrow> (bool \<times> refobj \<times> named_object list) res" where
  "om_put privilege name ob w props tab =
     (if length name \<ge> max_name_length then Inr (False, w, tab)
      else if privilege < ucast props then Inr (False, w, tab)
      else if List.find (\<lambda>e. ob_name e = name) tab = None then Inr (False, w, tab)
      else rbind (manage_named False w) (\<lambda>w. Inr (True, w, \<lparr>ob_name = name, ob_obj = ob, ob_property = props\<rparr> # tab)))"

definition om_get :: "string \<Rightarrow> named_object list \<Rightarrow> named_object option" where
  "om_get name tab = List.find (\<lambda>e. ob_name e = name) tab"

text \<open>The loop of \<open>erase\<close>: after an entry is erased the iterator already stands on the next one and is advanced once more; advancing
  past the end stops.\<close>

fun om_erase :: "nat \<Rightarrow> named_object list \<Rightarrow> named_object list res" where
  "om_erase ob [] = Inr []"
| "om_erase ob (e # tab) =
     (if ob_obj e = ob then
        (case tab of [] \<Rightarrow> bugcheck ''iterator move past the end'' | f # rest \<Rightarrow> rbind (om_erase ob rest) (\<lambda>r. Inr (f # r)))
      else rbind (om_erase ob tab) (\<lambda>r. Inr (e # r)))"

section \<open>Life of a process\<close>

text \<open>The process with the threads that have exited. A thread exits once, before it is erased (\<open>thread::on_gc\<close> calls \<open>on_exit\<close> and then gives up the reference of
  the thread to itself).\<close>

datatype psop = PSpawn nat | PKill nat dword | PExit nat | PErase nat | PAcquire | PRelax

record life =
  l_ps :: process
  l_exited :: "nat set"
  l_held :: nat
  l_deleted :: bool

fun life_step :: "psop \<Rightarrow> life \<Rightarrow> life res" where
  "life_step (PSpawn th) s = Inr (s\<lparr>l_ps := snd (ps_spawn th (l_ps s))\<rparr>)"
| "life_step (PKill this v) s = Inr (s\<lparr>l_ps := snd (ps_kill this v (l_ps s))\<rparr>)"
| "life_step (PExit th) s = rbind (ps_on_exit (l_ps s)) (\<lambda>(_, _, p). Inr (s\<lparr>l_ps := p, l_exited := insert th (l_exited s)\<rparr>))"
| "life_step (PErase th) s = rbind (ps_erase th (l_ps s)) (\<lambda>(gone, p).
     Inr (s\<lparr>l_ps := p, l_exited := l_exited s - {th}, l_deleted := gone\<rparr>))"
| "life_step PAcquire s = (case acquire (ps_obj (l_ps s)) of (ok, w) \<Rightarrow>
     Inr (s\<lparr>l_ps := (l_ps s)\<lparr>ps_obj := w\<rparr>, l_held := if ok then l_held s + 1 else l_held s\<rparr>))"
| "life_step PRelax s = rbind (ps_relax (l_ps s)) (\<lambda>(gone, p). Inr (s\<lparr>l_ps := p, l_held := l_held s - 1, l_deleted := gone\<rparr>))"

fun life_may :: "psop \<Rightarrow> life \<Rightarrow> bool" where
  "life_may (PSpawn th) s \<longleftrightarrow> \<not> l_deleted s \<and> th \<notin> set (ps_threads (l_ps s)) \<and> length (ps_threads (l_ps s)) < 2 ^ 32 - 1"
| "life_may (PKill this v) s \<longleftrightarrow> \<not> l_deleted s"
| "life_may (PExit th) s \<longleftrightarrow> th \<in> set (ps_threads (l_ps s)) - l_exited s"
| "life_may (PErase th) s \<longleftrightarrow> th \<in> l_exited s"
| "life_may PAcquire s \<longleftrightarrow> \<not> l_deleted s \<and> l_held s < 2 ^ 32 - 2"
| "life_may PRelax s \<longleftrightarrow> 0 < l_held s"

definition life_inv :: "life \<Rightarrow> bool" where
  "life_inv s \<longleftrightarrow> (let p = l_ps s in distinct (ps_threads p) \<and> l_exited s \<subseteq> set (ps_threads p) \<and>
     unat (ps_active p) = length (ps_threads p) - card (l_exited s) \<and> ht_inv (ps_handles p) \<and>
     (ps_active p = 0 \<longrightarrow> ps_state p = PStopped \<and> h_count (ps_handles p) = 0) \<and>
     unat (ref_count (ps_obj p)) = l_held s + (if ps_threads p = [] then 0 else 1) \<and>
     (l_deleted s \<longleftrightarrow> ps_threads p = [] \<and> l_held s = 0))"

lemma life_invD:
  assumes "life_inv s"
  shows "distinct (ps_threads (l_ps s))" "l_exited s \<subseteq> set (ps_threads (l_ps s))"
    "unat (ps_active (l_ps s)) = length (ps_threads (l_ps s)) - card (l_exited s)" "ht_inv (ps_handles (l_ps s))"
    "ps_active (l_ps s) = 0 \<longrightarrow> ps_state (l_ps s) = PStopped \<and> h_count (ps_handles (l_ps s)) = 0"
    "unat (ref_count (ps_obj (l_ps s))) = l_held s + (if ps_threads (l_ps s) = [] then 0 else 1)"
    "l_deleted s \<longleftrightarrow> ps_threads (l_ps s) = [] \<and> l_held s = 0" "finite (l_exited s)" "card (l_exited s) \<le> length (ps_threads (l_ps s))"
proof -
  show "distinct (ps_threads (l_ps s))" "unat (ps_active (l_ps s)) = length (ps_threads (l_ps s)) - card (l_exited s)" "ht_inv (ps_handles (l_ps s))"
    "ps_active (l_ps s) = 0 \<longrightarrow> ps_state (l_ps s) = PStopped \<and> h_count (ps_handles (l_ps s)) = 0"
    "unat (ref_count (ps_obj (l_ps s))) = l_held s + (if ps_threads (l_ps s) = [] then 0 else 1)"
    "l_deleted s \<longleftrightarrow> ps_threads (l_ps s) = [] \<and> l_held s = 0" using assms by (simp_all add: life_inv_def Let_def)
  show sub: "l_exited s \<subseteq> set (ps_threads (l_ps s))" using assms by (simp add: life_inv_def Let_def)
  then show "finite (l_exited s)" by (rule finite_subset) simp
  show "card (l_exited s) \<le> length (ps_threads (l_ps s))" using card_mono [OF _ sub] card_length le_trans by blast
qed

lemma exited_less:
  assumes "life_inv s" "th \<in> set (ps_threads (l_ps s)) - l_exited s"
  shows "card (l_exited s) < length (ps_threads (l_ps s))"
proof -
  note d = life_invD [OF assms(1)]
  have "card (l_exited s) < card (set (ps_threads (l_ps s)))" using assms(2) d(2) by (intro psubset_card_mono) auto
  then show ?thesis using d(1) by (simp add: distinct_card)
qed

lemma life_exit:
  assumes inv: "life_inv s" and th: "th \<in> set (ps_threads (l_ps s)) - l_exited s"
  shows "\<exists>s'. life_step (PExit th) s = Inr s' \<and> life_inv s'"
proof -
  note d = life_invD [OF inv] and lt = exited_less [OF inv th]
  let ?p = "l_ps s"
  have a: "ps_active ?p \<noteq> 0" "unat (ps_active ?p) \<le> length (ps_threads ?p)" using d(3) lt by auto
  have dec: "unat (ps_active ?p - 1) = length (ps_threads ?p) - card (insert th (l_exited s))"
    using a(1) d(3,8) th by (simp add: unat_minus_one)
  show ?thesis
  proof (cases "ps_active ?p - 1 = 0")
    case False
    then show ?thesis using a d dec th by (auto simp: ps_on_exit_def life_inv_def Let_def)
  next
    case True
    let ?p1 = "?p\<lparr>ps_active := ps_active ?p - 1\<rparr>"
    obtain h' where h': "ht_clear (ps_handles ?p) = Inr (List.map_filter (slot (ps_handles ?p)) [0..<2048], h')" "h_count h' = 0" "ht_inv h'"
      using handle_clear [OF d(4)] by blast
    then show ?thesis using a d dec th True by (auto simp: ps_on_exit_def life_inv_def Let_def)
  qed
qed

lemma ps_relax_held:
  assumes "unat (ref_count (ps_obj p)) = n + (if ps_threads p = [] then 0 else 1)" "0 < n" "ps_threads p = [] \<longrightarrow> ps_active p = 0"
  shows "\<exists>w. ps_relax p = Inr (ps_threads p = [] \<and> n = 1, p\<lparr>ps_obj := w\<rparr>) \<and> unat (ref_count w) = n - 1 + (if ps_threads p = [] then 0 else 1)"
proof -
  let ?w = "ps_obj p"
  have ne: "ref_count ?w \<noteq> 0" using assms(1,2) by auto
  have u: "unat (ref_count ?w - 1) = unat (ref_count ?w) - 1" using ne by (simp add: unat_minus_one)
  have z: "ref_count ?w - 1 = 0 \<longleftrightarrow> ps_threads p = [] \<and> n = 1"
  proof -
    have "ref_count ?w - 1 = 0 \<longleftrightarrow> unat (ref_count ?w - 1) = 0" by (simp only: unat_eq_0)
    then show ?thesis unfolding u using assms(1,2) by auto
  qed
  have r: "relax ?w = Inr (\<not> (ps_threads p = [] \<and> n = 1), ?w\<lparr>ref_count := ref_count ?w - 1\<rparr>)" using ne z by (simp add: relax_def)
  show ?thesis
    by (rule exI [of _ "?w\<lparr>ref_count := ref_count ?w - 1\<rparr>"]) (use r u assms in \<open>auto simp: ps_relax_def\<close>)
qed

lemma life_erase:
  assumes inv: "life_inv s" and th: "th \<in> l_exited s"
  shows "\<exists>s'. life_step (PErase th) s = Inr s' \<and> life_inv s'"
proof -
  note d = life_invD [OF inv]
  let ?p = "l_ps s" let ?ts = "remove1 th (ps_threads (l_ps s))" let ?p1 = "?p\<lparr>ps_threads := ?ts\<rparr>"
  have mem: "th \<in> set (ps_threads ?p)" using th d(2) by blast
  have ts: "length ?ts = length (ps_threads ?p) - 1" "set ?ts = set (ps_threads ?p) - {th}" "distinct ?ts" "ps_threads ?p \<noteq> []"
    using mem d(1) by (auto simp: length_remove1)
  have ce: "card (l_exited s - {th}) = card (l_exited s) - 1" "0 < card (l_exited s)" using th d(8) by (auto simp: card_gt_0_iff)
  have act: "unat (ps_active ?p) = length ?ts - card (l_exited s - {th})" using d(3,9) ts(1) ce by simp
  have sub: "l_exited s - {th} \<subseteq> set ?ts" using d(2) ts(2) by blast
  have le: "unat (ps_active ?p) \<le> length (ps_threads ?p)" using d(3) by simp
  show ?thesis
  proof (cases "?ts = []")
    case False
    then have "life_step (PErase th) s = Inr (s\<lparr>l_ps := ?p1, l_exited := l_exited s - {th}, l_deleted := False\<rparr>)"
      using mem le by (simp add: ps_erase_def)
    moreover have "life_inv (s\<lparr>l_ps := ?p1, l_exited := l_exited s - {th}, l_deleted := False\<rparr>)"
      unfolding life_inv_def Let_def using d(4,5,6) ts act sub False by simp
    ultimately show ?thesis by blast
  next
    case True
    then have zero: "ps_active ?p = 0" using act by (simp add: unat_eq_0)
    have ex: "l_exited s - {th} = {}" using sub True by simp
    let ?w = "ps_obj ?p"
    have rc: "unat (ref_count ?w) = l_held s + 1" using d(6) ts(4) by simp
    then have ne: "ref_count ?w \<noteq> 0" by auto
    have u: "unat (ref_count ?w - 1) = l_held s" using ne rc by (simp add: unat_minus_one)
    have z: "ref_count ?w - 1 = 0 \<longleftrightarrow> l_held s = 0" using u by (metis unat_eq_0)
    let ?p2 = "?p1\<lparr>ps_obj := ?w\<lparr>ref_count := ref_count ?w - 1\<rparr>\<rparr>"
    have "ps_relax ?p1 = Inr (l_held s = 0, ?p2)"
      using ne z True zero by (auto simp: ps_relax_def relax_def)
    then have "life_step (PErase th) s = Inr (s\<lparr>l_ps := ?p2, l_exited := l_exited s - {th}, l_deleted := (l_held s = 0)\<rparr>)"
      using mem le True zero by (simp add: ps_erase_def)
    moreover have "life_inv (s\<lparr>l_ps := ?p2, l_exited := l_exited s - {th}, l_deleted := (l_held s = 0)\<rparr>)"
      unfolding life_inv_def Let_def using d(4,5) True zero ex u by simp
    ultimately show ?thesis by blast
  qed
qed

lemma life_spawn:
  assumes inv: "life_inv s" and may: "life_may (PSpawn th) s"
  shows "\<exists>s'. life_step (PSpawn th) s = Inr s' \<and> life_inv s'"
proof (cases "ps_state (l_ps s) = PStopped")
  case True
  then show ?thesis using inv by (simp add: ps_spawn_def)
next
  case False
  note d = life_invD [OF inv]
  have ne: "ps_active (l_ps s) \<noteq> 0" using d(5) False by auto
  then have "ps_threads (l_ps s) \<noteq> []" using d(3) by (auto simp: unat_eq_0)
  moreover have "Suc (length (ps_threads (l_ps s)) - card (l_exited s)) < 2 ^ 32" using may by auto
  then have "unat (ps_active (l_ps s) + 1) = Suc (length (ps_threads (l_ps s))) - card (l_exited s)"
    using d(3,9) by (simp add: unat_word_ariths Suc_diff_le)
  moreover from this have "ps_active (l_ps s) + 1 \<noteq> 0" using d(9) by auto
  ultimately show ?thesis using d may False by (auto simp: ps_spawn_def life_inv_def Let_def)
qed

lemma life_step_keeps:
  assumes inv: "life_inv s" and may: "life_may x s"
  shows "\<exists>s'. life_step x s = Inr s' \<and> life_inv s'"
proof (cases x)
  case (PSpawn th)
  then show ?thesis using life_spawn inv may by blast
next
  case (PKill this v)
  then show ?thesis using inv by (auto simp: ps_kill_def life_inv_def Let_def)
next
  case (PExit th)
  then show ?thesis using life_exit [OF inv] may by simp
next
  case (PErase th)
  then show ?thesis using life_erase [OF inv] may by simp
next
  case PAcquire
  note d = life_invD [OF inv]
  have ne: "ref_count (ps_obj (l_ps s)) \<noteq> 0" using d(6,7) may PAcquire by auto
  have "unat (ref_count (ps_obj (l_ps s)) + 1) = unat (ref_count (ps_obj (l_ps s))) + 1"
    using d(6) may PAcquire by (auto simp: unat_word_ariths)
  then show ?thesis using d ne PAcquire may by (auto simp: acquire_def life_inv_def Let_def)
next
  case PRelax
  note d = life_invD [OF inv]
  have "ps_threads (l_ps s) = [] \<longrightarrow> ps_active (l_ps s) = 0" using d(3) by (auto simp: unat_eq_0)
  then obtain w where w: "ps_relax (l_ps s) = Inr (ps_threads (l_ps s) = [] \<and> l_held s = 1, (l_ps s)\<lparr>ps_obj := w\<rparr>)"
    "unat (ref_count w) = l_held s - 1 + (if ps_threads (l_ps s) = [] then 0 else 1)"
    using ps_relax_held [OF d(6)] may PRelax by auto
  then show ?thesis using d PRelax may by (auto simp: life_inv_def Let_def)
qed

interpretation life: component life_step life_may life_inv
  by unfold_locales (rule life_step_keeps)

definition life_start :: "nat \<Rightarrow> life" where
  "life_start th = \<lparr>l_ps = (snd (ps_spawn th ps_new))\<lparr>ps_obj := \<lparr>ref_count = 2, named = False\<rparr>\<rparr>, l_exited = {}, l_held = 1, l_deleted = False\<rparr>"

lemma life_start_inv: "life_inv (life_start th)"
  using ht_new_inv by (simp add: life_start_def life_inv_def Let_def ps_spawn_def ps_new_def)



text \<open>A defect: no name can ever be published. \<open>put\<close> refuses a name that is not in the table yet, so from the empty table no sequence of
  requests registers anything.\<close>

theorem named_objects_never_published:
  "om_put privilege name ob w props [] = Inr (False, w, [])"
  by (simp add: om_put_def)

text \<open>A second defect: erasing the object of the last entry advances an iterator past the end, which stops the kernel.\<close>

lemma erase_last_entry_stops:
  "\<forall>e\<in>set es. ob_obj e \<noteq> ob \<Longrightarrow> ob_obj l = ob \<Longrightarrow> om_erase ob (es @ [l]) = bugcheck ''iterator move past the end''"
  by (induction es) auto

end
