(* ===== verification/Display.thy ===== *)
theory Display
  imports Kernel_Prelude
begin

text \<open>
  The linear frame buffer (\<^verbatim>\<open>dev/display.cpp\<close>). The memory of the adapter is a function from the index
  of a 32-bit pixel to its value; \<open>line_size\<close> is the length of a scan line in bytes. The rows of a
  rectangle are written by the two nested loops of \<open>fill\<close> and \<open>draw\<close>, with the destination pointer as an index.
\<close>

unbundle bit_operations_syntax

record rectangle =
  r_left :: hword
  r_top :: hword
  r_right :: hword
  r_bottom :: hword

record video_memory =
  v_width :: hword
  v_height :: hword
  v_line_size :: hword
  v_pixels :: "nat \<Rightarrow> dword"

text \<open>The geometry the boot loader reports; the constructor accepts 32-bit pixels on aligned lines that hold a row.\<close>

definition video_new :: "nat \<Rightarrow> hword \<Rightarrow> hword \<Rightarrow> hword \<Rightarrow> (nat \<Rightarrow> dword) \<Rightarrow> video_memory res" where
  "video_new bpp width height scanline mem =
     (if bpp \<noteq> 32 then bugcheck ''bpp not implemented''
      else if unat width * bpp div 8 > unat scanline then bugcheck ''invalid line size''
      else if scanline AND 3 \<noteq> 0 then bugcheck ''line size not DWORD aligned''
      else Inr \<lparr>v_width = width, v_height = height, v_line_size = scanline, v_pixels = mem\<rparr>)"

definition line_pixels :: "video_memory \<Rightarrow> nat" where
  "line_pixels v = unat (v_line_size v) div 4"

primrec fill_row :: "nat \<Rightarrow> nat \<Rightarrow> (nat \<Rightarrow> dword) \<Rightarrow> (nat \<Rightarrow> dword) \<Rightarrow> (nat \<Rightarrow> dword)" where
  "fill_row 0 dst src mem = mem"
| "fill_row (Suc i) dst src mem = (fill_row i dst src mem)(dst + i := 0x00FFFFFF AND src i)"

primrec fill_rows :: "nat \<Rightarrow> nat \<Rightarrow> nat \<Rightarrow> nat \<Rightarrow> (nat \<Rightarrow> nat \<Rightarrow> dword) \<Rightarrow> (nat \<Rightarrow> dword) \<Rightarrow> (nat \<Rightarrow> dword)" where
  "fill_rows 0 w pitch dst src mem = mem"
| "fill_rows (Suc n) w pitch dst src mem = fill_rows n w pitch (dst + pitch) (\<lambda>line. src (Suc line)) (fill_row w dst (src 0) mem)"

definition rect_first :: "video_memory \<Rightarrow> rectangle \<Rightarrow> nat" where
  "rect_first v rect = line_pixels v * unat (r_top rect) + unat (r_left rect)"

definition rect_width :: "rectangle \<Rightarrow> nat" where "rect_width rect = unat (r_right rect) - unat (r_left rect)"
definition rect_height :: "rectangle \<Rightarrow> nat" where "rect_height rect = unat (r_bottom rect) - unat (r_top rect)"

definition video_fill :: "rectangle \<Rightarrow> dword \<Rightarrow> video_memory \<Rightarrow> bool \<times> video_memory" where
  "video_fill rect color v =
     (if r_left rect \<ge> r_right rect \<or> r_top rect \<ge> r_bottom rect then (False, v)
      else if r_right rect > v_width v \<or> r_bottom rect > v_height v then (False, v)
      else (True, v\<lparr>v_pixels := fill_rows (rect_height rect) (rect_width rect) (line_pixels v) (rect_first v rect)
              (\<lambda>_ _. color) (v_pixels v)\<rparr>))"

text \<open>The source of \<open>draw\<close> is \<open>None\<close> for a null pointer; line \<open>k\<close> of the image starts at \<open>k * advance\<close>.\<close>

definition video_draw :: "rectangle \<Rightarrow> (nat \<Rightarrow> dword) option \<Rightarrow> hword \<Rightarrow> video_memory \<Rightarrow> bool \<times> video_memory" where
  "video_draw rect sor advance v = (case sor of None \<Rightarrow> (False, v) | Some img \<Rightarrow>
     if r_left rect \<ge> r_right rect \<or> r_top rect \<ge> r_bottom rect then (False, v)
     else if r_right rect > v_width v \<or> r_bottom rect > v_height v then (False, v)
     else if rect_width rect > unat advance then (False, v)
     else (True, v\<lparr>v_pixels := fill_rows (rect_height rect) (rect_width rect) (line_pixels v) (rect_first v rect)
             (\<lambda>line i. img (line * unat advance + i)) (v_pixels v)\<rparr>))"

section \<open>The loops\<close>

lemma fill_row_spec: "fill_row n dst src mem a = (if dst \<le> a \<and> a < dst + n then 0x00FFFFFF AND src (a - dst) else mem a)"
  by (induction n) (auto simp: less_Suc_eq)

text \<open>Rows do not overlap when the pitch is at least the width: a pixel has one row and one column.\<close>

lemma fill_rows_spec:
  assumes "w \<le> pitch" "0 < w"
  shows "fill_rows n w pitch dst src mem a =
    (if dst \<le> a \<and> (a - dst) div pitch < n \<and> (a - dst) mod pitch < w
     then 0x00FFFFFF AND src ((a - dst) div pitch) ((a - dst) mod pitch) else mem a)"
proof (induction n arbitrary: dst src mem)
  case 0
  then show ?case by simp
next
  case (Suc n)
  have p: "0 < pitch" using assms by simp
  consider (before) "a < dst" | (first) "dst \<le> a" "a - dst < pitch" | (later) "dst + pitch \<le> a" by linarith
  then show ?case
  proof cases
    case before
    then show ?thesis by (simp add: Suc fill_row_spec)
  next
    case first
    then have q: "(a - dst) div pitch = 0" "(a - dst) mod pitch = a - dst" by simp_all
    have "\<not> dst + pitch \<le> a" using first by simp
    then show ?thesis using first assms by (auto simp: Suc fill_row_spec q)
  next
    case later
    then obtain b where b: "a = dst + pitch + b" by (metis le_Suc_ex)
    have "(a - dst) div pitch = Suc (b div pitch)" "(a - dst) mod pitch = b mod pitch" "\<not> a < dst + w" "a - (dst + pitch) = b" "dst + pitch \<le> a"
      using p b assms by (simp_all add: add.assoc div_add_self1)
    then show ?thesis by (simp add: Suc fill_row_spec)
  qed
qed

definition in_rect :: "rectangle \<Rightarrow> nat \<Rightarrow> nat \<Rightarrow> bool" where
  "in_rect rect x y \<longleftrightarrow> unat (r_left rect) \<le> x \<and> x < unat (r_right rect) \<and> unat (r_top rect) \<le> y \<and> y < unat (r_bottom rect)"

definition video_ok :: "video_memory \<Rightarrow> bool" where
  "video_ok v \<longleftrightarrow> unat (v_width v) * 4 \<le> unat (v_line_size v)"

definition pixel :: "video_memory \<Rightarrow> nat \<Rightarrow> nat \<Rightarrow> dword" where
  "pixel v x y = v_pixels v (line_pixels v * y + x)"

text \<open>What both loops do to the screen: the pixels of the rectangle take their new values, the other pixels of the lines,
  the padding behind the visible part included, keep theirs.\<close>

lemma fill_rows_pixel:
  assumes ok: "video_ok v" and r: "r_left rect < r_right rect" "r_top rect < r_bottom rect" "r_right rect \<le> v_width v" and x: "x < line_pixels v"
  shows "fill_rows (rect_height rect) (rect_width rect) (line_pixels v) (rect_first v rect) src (v_pixels v) (line_pixels v * y + x) =
    (if in_rect rect x y then 0x00FFFFFF AND src (y - unat (r_top rect)) (x - unat (r_left rect)) else pixel v x y)"
proof -
  let ?p = "line_pixels v" and ?l = "unat (r_left rect)" and ?t = "unat (r_top rect)" and ?r = "unat (r_right rect)" and ?b = "unat (r_bottom rect)"
  have b: "?l < ?r" "?t < ?b" "?r \<le> ?p" using r ok by (auto simp: word_less_nat_alt word_le_nat_alt video_ok_def line_pixels_def)
  have w: "rect_width rect \<le> ?p" "0 < rect_width rect" using b by (auto simp: rect_width_def)
  let ?a = "?p * y + x" and ?f = "rect_first v rect"
  note spec = fill_rows_spec [OF w, of "rect_height rect" ?f src "v_pixels v" ?a]
  show ?thesis
  proof (cases "?f \<le> ?a")
    case False
    then have "\<not> in_rect rect x y"
      by (auto simp: in_rect_def rect_first_def dest: mult_le_mono2 [of _ _ ?p])
    then show ?thesis using False by (simp add: spec pixel_def)
  next
    case True
    have yt: "?t \<le> y"
    proof (rule ccontr)
      assume "\<not> ?t \<le> y"
      then have "?p * Suc y \<le> ?p * ?t" by (intro mult_le_mono2) simp
      then show False using True x by (simp add: rect_first_def)
    qed
    define d where "d = y - ?t"
    have y: "y = ?t + d" using yt by (simp add: d_def)
    show ?thesis
    proof (cases "?l \<le> x")
      case lx: True
      then have "?a - ?f = ?p * d + (x - ?l)" by (simp add: y algebra_simps rect_first_def)
      moreover have "(?p * d + (x - ?l)) div ?p = d" "(?p * d + (x - ?l)) mod ?p = x - ?l" using x by simp_all
      ultimately have q: "(?a - ?f) div ?p = d" "(?a - ?f) mod ?p = x - ?l" by simp_all
      have "in_rect rect x y \<longleftrightarrow> d < rect_height rect \<and> x - ?l < rect_width rect"
        using lx b yt by (auto simp: in_rect_def rect_width_def rect_height_def d_def)
      then show ?thesis using True unfolding spec q pixel_def d_def by simp
    next
      case lx: False
      then have "0 < d" using True y by (cases d) (auto simp: rect_first_def)
      then obtain d' where d': "d = Suc d'" by (cases d) auto
      have "?a - ?f = ?p * d' + (?p + x - ?l)" using lx b by (simp add: y d' algebra_simps rect_first_def)
      moreover have "?p + x - ?l < ?p" using lx b by simp
      ultimately have "(?a - ?f) mod ?p = ?p + x - ?l" by simp
      moreover have "rect_width rect \<le> ?p + x - ?l" using b by (simp add: rect_width_def)
      ultimately show ?thesis using lx unfolding spec pixel_def by (simp add: in_rect_def)
    qed
  qed
qed

section \<open>Properties\<close>

lemma draw_pixels:
  assumes "video_ok v" "video_draw rect sor advance v = (ok, v')" "x < line_pixels v"
  shows "(ok \<longleftrightarrow> sor \<noteq> None \<and> r_left rect < r_right rect \<and> r_top rect < r_bottom rect \<and> r_right rect \<le> v_width v \<and>
       r_bottom rect \<le> v_height v \<and> rect_width rect \<le> unat advance) \<and>
    pixel v' x y = (if ok \<and> in_rect rect x y
      then 0x00FFFFFF AND the sor ((y - unat (r_top rect)) * unat advance + (x - unat (r_left rect))) else pixel v x y)"
  using assms fill_rows_pixel [OF assms(1) _ _ _ assms(3)]
  by (auto simp: video_draw_def pixel_def line_pixels_def split: option.splits if_splits)

lemma draw_geometry: "video_draw rect sor advance v = (ok, v') \<Longrightarrow> v_width v' = v_width v \<and> v_height v' = v_height v \<and> v_line_size v' = v_line_size v"
  by (auto simp: video_draw_def split: option.splits if_splits)

text \<open>\<open>draw\<close> on a screen whose lines hold a row refuses a null image, an empty rectangle, one that leaves the screen and one that is wider
  than the lines of the image, without touching the screen. Otherwise it copies the image, 24 bits of each pixel, into exactly the rectangle.\<close>

theorem draw_changes_rectangle:
  assumes "video_ok v" "video_draw rect sor advance v = (ok, v')" "x < line_pixels v"
  shows "(ok \<longleftrightarrow> sor \<noteq> None \<and> r_left rect < r_right rect \<and> r_top rect < r_bottom rect \<and> r_right rect \<le> v_width v \<and>
       r_bottom rect \<le> v_height v \<and> rect_width rect \<le> unat advance) \<and>
    pixel v' x y = (if ok \<and> in_rect rect x y
      then 0x00FFFFFF AND the sor ((y - unat (r_top rect)) * unat advance + (x - unat (r_left rect))) else pixel v x y)"
  by (rule draw_pixels [OF assms])

theorem draw_changes_rectangle_witness:
  "\<exists>v'. video_draw \<lparr>r_left = 1, r_top = 1, r_right = 3, r_bottom = 2\<rparr> (Some (\<lambda>i. of_nat i + 0xFF000007)) 2
      \<lparr>v_width = 4, v_height = 2, v_line_size = 32, v_pixels = \<lambda>_. 0\<rparr> = (True, v') \<and> pixel v' 2 1 = 8 \<and> pixel v' 3 1 = 0"
proof -
  let ?v = "\<lparr>v_width = 4, v_height = 2, v_line_size = 32, v_pixels = \<lambda>_. 0\<rparr> :: video_memory"
  let ?r = "\<lparr>r_left = 1, r_top = 1, r_right = 3, r_bottom = 2\<rparr> :: rectangle"
  have ok: "video_ok ?v" by (simp add: video_ok_def)
  obtain b v' where v': "video_draw ?r (Some (\<lambda>i. of_nat i + 0xFF000007)) 2 ?v = (b, v')" by (meson prod.exhaust)
  note p = draw_changes_rectangle [OF ok v']
  have l: "line_pixels ?v = 8" by (simp add: line_pixels_def)
  have "b" using p [of 2 1] l by (simp add: rect_width_def)
  then show ?thesis using v' p [of 2 1] p [of 3 1] l by (auto simp: in_rect_def pixel_def)
qed

text \<open>\<open>fill\<close> colours exactly the rectangle.\<close>

lemma fill_changes_rectangle:
  assumes "video_ok v" "video_fill rect color v = (ok, v')" "x < line_pixels v"
  shows "(ok \<longleftrightarrow> r_left rect < r_right rect \<and> r_top rect < r_bottom rect \<and> r_right rect \<le> v_width v \<and> r_bottom rect \<le> v_height v) \<and>
    pixel v' x y = (if ok \<and> in_rect rect x y then 0x00FFFFFF AND color else pixel v x y)"
  using assms fill_rows_pixel [OF assms(1) _ _ _ assms(3)]
  by (auto simp: video_fill_def pixel_def line_pixels_def split: if_splits)

text \<open>Every screen the constructor accepts has lines that hold a row.\<close>

lemma video_new_ok: "video_new bpp width height scanline mem = Inr v \<Longrightarrow> video_ok v"
  by (auto simp: video_new_def video_ok_def split: if_splits)

end
