(* ===== verification/Disk_Cache.thy ===== *)
theory Disk_Cache
  imports Kernel_Prelude
begin

text \<open>
  The sector cache of the disk (\<^verbatim>\<open>dev/disk_interface.cpp\<close>). A slot caches a page of eight sectors; bit \<open>k\<close> of
  \<open>valid\<close> and \<open>dirty\<close> is about sector \<open>k\<close>. The medium is a function from sector numbers to sectors. The
  disk controller is a parameter: \<open>rd\<close> and \<open>wr\<close> say for which sector and length its commands succeed. A call of
  \<open>get\<close> is one round of its loop: it returns a locked slot, fails, or has to wait for other threads and tries again.
  \<open>view\<close> is the contents of the disk as a client sees it, and the properties state that the cache is coherent: no operation of the cache changes it
  but the writes of the clients.
\<close>

unbundle bit_operations_syntax

type_synonym sector = "nat \<Rightarrow> byte"
type_synonym io = "qword \<Rightarrow> nat \<Rightarrow> bool"

record dslot =
  lba_base :: qword
  valid :: byte
  dirty :: byte
  timestamp :: qword
  locked :: bool
  page :: "nat \<Rightarrow> sector"

record disk =
  slots :: "dslot list"
  media :: "qword \<Rightarrow> sector"

section \<open>Slots\<close>

definition page_lba :: "qword \<Rightarrow> qword" where "page_lba lba = align_down lba 8"

definition slot_match :: "qword \<Rightarrow> dslot \<Rightarrow> bool" where
  "slot_match al c \<longleftrightarrow> valid c \<noteq> 0 \<and> lba_base c = al"

text \<open>Sectors \<open>[head, i)\<close> of the page go to the medium.\<close>

definition write_run :: "dslot \<Rightarrow> nat \<Rightarrow> nat \<Rightarrow> (qword \<Rightarrow> sector) \<Rightarrow> (qword \<Rightarrow> sector)" where
  "write_run c head i m = (\<lambda>l. let k = unat (l - lba_base c) in if head \<le> k \<and> k < i then page c k else m l)"

primrec flush_loop :: "io \<Rightarrow> dslot \<Rightarrow> nat \<Rightarrow> nat \<Rightarrow> nat \<Rightarrow> (qword \<Rightarrow> sector) \<Rightarrow> bool \<times> (qword \<Rightarrow> sector)" where
  "flush_loop wr c 0 i head m = (True, m)"
| "flush_loop wr c (Suc n) i head m =
     (if dirty c AND push_bit i 1 = 0 then
        (if head \<noteq> i then
           (if wr (lba_base c + of_nat head) (i - head) then flush_loop wr c n (Suc i) (Suc i) (write_run c head i m)
            else (False, m))
         else flush_loop wr c n (Suc i) (Suc i) m)
      else flush_loop wr c n (Suc i) head m)"

definition slot_flush :: "io \<Rightarrow> dslot \<Rightarrow> (qword \<Rightarrow> sector) \<Rightarrow> (bool \<times> dslot \<times> (qword \<Rightarrow> sector)) res" where
  "slot_flush wr c m = kassert (locked c)
     (if dirty c = 0 then Inr (True, c, m)
      else case flush_loop wr c 9 0 0 m of
        (True, m) \<Rightarrow> Inr (True, c\<lparr>dirty := 0\<rparr>, m)
      | (False, m) \<Rightarrow> Inr (False, c, m))"

definition slot_reload :: "io \<Rightarrow> io \<Rightarrow> qword \<Rightarrow> qword \<Rightarrow> dslot \<Rightarrow> (qword \<Rightarrow> sector) \<Rightarrow> (bool \<times> dslot \<times> (qword \<Rightarrow> sector)) res" where
  "slot_reload rd wr now al c m = kassert (locked c \<and> al = page_lba al)
     (rbind (slot_flush wr c m) (\<lambda>(ok, c, m).
        if \<not> ok then Inr (False, c, m)
        else let c = c\<lparr>valid := 0, lba_base := al\<rparr> in
          if \<not> rd al 8 then Inr (False, c, m)
          else Inr (True, c\<lparr>page := \<lambda>k. m (al + of_nat k), valid := 0xFF, timestamp := now\<rparr>, m)))"

definition slot_load :: "io \<Rightarrow> io \<Rightarrow> qword \<Rightarrow> qword \<Rightarrow> dslot \<Rightarrow> (qword \<Rightarrow> sector) \<Rightarrow> (bool \<times> dslot \<times> (qword \<Rightarrow> sector)) res" where
  "slot_load rd wr now lba c m = kassert (locked c \<and> lba_base c = page_lba lba)
     (if valid c = 0xFF then Inr (True, c, m)
      else kassert (dirty c \<noteq> 0) (slot_reload rd wr now (lba_base c) c m))"

primrec mark_bits :: "nat \<Rightarrow> nat \<Rightarrow> byte \<Rightarrow> byte res" where
  "mark_bits 0 off d = Inr d"
| "mark_bits (Suc n) off d = rbind (mark_bits n off d) (\<lambda>d. kassert (off + n < 8) (Inr (d OR push_bit (off + n) 1)))"

definition zero_sectors :: "nat \<Rightarrow> nat \<Rightarrow> (nat \<Rightarrow> sector) \<Rightarrow> (nat \<Rightarrow> sector)" where
  "zero_sectors off n pg = (\<lambda>k. if off \<le> k \<and> k < off + n then (\<lambda>_. 0) else pg k)"

definition slot_store :: "io \<Rightarrow> qword \<Rightarrow> qword \<Rightarrow> nat \<Rightarrow> dslot \<Rightarrow> (qword \<Rightarrow> sector) \<Rightarrow> (bool \<times> dslot \<times> (qword \<Rightarrow> sector)) res" where
  "slot_store wr now lba count c m = kassert (locked c)
     (rbind (if page_lba lba \<noteq> lba_base c
             then rbind (slot_flush wr c m) (\<lambda>(ok, c, m).
               Inr (ok, if ok then c\<lparr>valid := 0, lba_base := page_lba lba\<rparr> else c, m))
             else Inr (True, c, m)) (\<lambda>(ok, c, m).
        if \<not> ok then Inr (False, c, m)
        else let off = unat (lba - lba_base c) in
          rbind (mark_bits count off (dirty c)) (\<lambda>d.
            Inr (True, c\<lparr>dirty := d, page := zero_sectors off count (page c), valid := valid c OR d, timestamp := now\<rparr>, m))))"

definition slot_data :: "dslot \<Rightarrow> qword \<Rightarrow> sector res" where
  "slot_data c lba = kassert (valid c \<noteq> 0 \<and> lba_base c = page_lba lba) (Inr (page c (unat (lba - lba_base c))))"

section \<open>The table\<close>

definition dm_count :: "qword \<Rightarrow> nat" where
  "dm_count lba = (let top = align_up lba 8 in if top = lba then 8 else unat (top - lba))"

datatype scan_result = Match nat | Oldest "(nat \<times> qword) option"

primrec scan_slots :: "qword \<Rightarrow> dslot list \<Rightarrow> nat \<Rightarrow> (nat \<times> qword) option \<Rightarrow> scan_result" where
  "scan_slots al [] index target = Oldest target"
| "scan_slots al (c # cs) index target =
     (if slot_match al c then Match index
      else scan_slots al cs (Suc index)
        (if locked c then target
         else case target of None \<Rightarrow> Some (index, timestamp c)
           | Some (j, t) \<Rightarrow> if t > timestamp c then Some (index, timestamp c) else target))"

datatype got = Slot nat | Null | Again

definition use_slot :: "nat \<Rightarrow> (dslot \<Rightarrow> (qword \<Rightarrow> sector) \<Rightarrow> (bool \<times> dslot \<times> (qword \<Rightarrow> sector)) res) \<Rightarrow> disk \<Rightarrow> (got \<times> disk) res" where
  "use_slot i f d = rbind (f ((slots d ! i)\<lparr>locked := True\<rparr>) (media d)) (\<lambda>(ok, c, m).
     Inr (if ok then Slot i else Null, d\<lparr>slots := (slots d)[i := c], media := m\<rparr>))"

definition dm_get :: "io \<Rightarrow> io \<Rightarrow> qword \<Rightarrow> qword \<Rightarrow> nat \<Rightarrow> bool \<Rightarrow> disk \<Rightarrow> (got \<times> disk) res" where
  "dm_get rd wr now lba count write d =
     (if count > dm_count lba then bugcheck ''disk_interface::get bad param''
      else case scan_slots (page_lba lba) (slots d) 0 None of
        Match i \<Rightarrow> if locked (slots d ! i) then Inr (Again, d)
          else if write then use_slot i (slot_store wr now lba count) d
          else use_slot i (slot_load rd wr now lba) d
      | Oldest None \<Rightarrow> Inr (Again, d)
      | Oldest (Some (i, _)) \<Rightarrow>
          if write then use_slot i (slot_store wr now lba count) d
          else use_slot i (slot_reload rd wr now (page_lba lba)) d)"

primrec upgrade_bits :: "byte \<Rightarrow> nat \<Rightarrow> nat \<Rightarrow> byte \<Rightarrow> byte res" where
  "upgrade_bits v 0 off d = Inr d"
| "upgrade_bits v (Suc n) off d = rbind (upgrade_bits v n off d) (\<lambda>d.
     kassert (off + n < 8 \<and> v AND push_bit (off + n) 1 \<noteq> 0) (Inr (d OR push_bit (off + n) 1)))"

definition dm_upgrade :: "nat \<Rightarrow> qword \<Rightarrow> nat \<Rightarrow> disk \<Rightarrow> disk res" where
  "dm_upgrade i lba count d = kassert (i < length (slots d) \<and> locked (slots d ! i))
     (let c = slots d ! i in
      if page_lba lba \<noteq> lba_base c \<or> count > dm_count lba then bugcheck ''disk_interface::upgrade bad param''
      else rbind (upgrade_bits (valid c) count (unat (lba - lba_base c)) (dirty c)) (\<lambda>b.
        Inr (d\<lparr>slots := (slots d)[i := c\<lparr>dirty := b\<rparr>]\<rparr>)))"

text \<open>The result of the flush is not looked at; the waiters of the table are notified by the caller.\<close>

definition dm_relax :: "io \<Rightarrow> nat \<Rightarrow> bool \<Rightarrow> disk \<Rightarrow> disk res" where
  "dm_relax wr i flush d = kassert (i < length (slots d))
     (rbind (if flush \<and> dirty (slots d ! i) \<noteq> 0 then slot_flush wr (slots d ! i) (media d)
             else Inr (True, slots d ! i, media d)) (\<lambda>(_, c, m).
        if \<not> locked c then bugcheck ''releasing free shared lock''
        else Inr (d\<lparr>slots := (slots d)[i := c\<lparr>locked := False\<rparr>], media := m\<rparr>)))"

primrec dm_flush_from :: "io \<Rightarrow> nat \<Rightarrow> disk \<Rightarrow> disk res" where
  "dm_flush_from wr 0 d = Inr d"
| "dm_flush_from wr (Suc n) d = rbind (dm_flush_from wr n d) (\<lambda>d.
     let c = slots d ! n in
     if locked c then Inr d
     else rbind (slot_flush wr (c\<lparr>locked := True\<rparr>) (media d)) (\<lambda>(_, c, m).
       Inr (d\<lparr>slots := (slots d)[n := c\<lparr>locked := False\<rparr>], media := m\<rparr>)))"

definition dm_flush :: "io \<Rightarrow> disk \<Rightarrow> disk res" where
  "dm_flush wr d = dm_flush_from wr (length (slots d)) d"

text \<open>What the holder of a slot does through the pointer \<open>data\<close> returns.\<close>

definition poke :: "nat \<Rightarrow> qword \<Rightarrow> sector \<Rightarrow> disk \<Rightarrow> disk" where
  "poke i lba sec d = (let c = slots d ! i in
     d\<lparr>slots := (slots d)[i := c\<lparr>page := (page c)(unat (lba - lba_base c) := sec)\<rparr>]\<rparr>)"

section \<open>Coherence\<close>

definition slot_ok :: "(qword \<Rightarrow> sector) \<Rightarrow> dslot \<Rightarrow> bool" where
  "slot_ok m c \<longleftrightarrow> (valid c \<noteq> 0 \<longrightarrow> page_lba (lba_base c) = lba_base c) \<and> (\<forall>k. bit (dirty c) k \<longrightarrow> bit (valid c) k) \<and>
     (\<forall>k<8. bit (valid c) k \<and> \<not> bit (dirty c) k \<longrightarrow> page c k = m (lba_base c + of_nat k))"

definition slot_view :: "(qword \<Rightarrow> sector) \<Rightarrow> dslot \<Rightarrow> nat \<Rightarrow> sector" where
  "slot_view m c k = (if bit (valid c) k then page c k else m (lba_base c + of_nat k))"

definition own_view :: "(qword \<Rightarrow> sector) \<Rightarrow> dslot \<Rightarrow> qword \<Rightarrow> sector" where
  "own_view m c l = (if slot_match (page_lba l) c then slot_view m c (unat (l - page_lba l)) else m l)"

definition view :: "disk \<Rightarrow> qword \<Rightarrow> sector" where
  "view d l = (case List.find (slot_match (page_lba l)) (slots d) of
     None \<Rightarrow> media d l | Some c \<Rightarrow> slot_view (media d) c (unat (l - page_lba l)))"

definition dm_inv :: "disk \<Rightarrow> bool" where
  "dm_inv d \<longleftrightarrow> (\<forall>c\<in>set (slots d). slot_ok (media d) c) \<and>
     (\<forall>i<length (slots d). \<forall>j<length (slots d). i \<noteq> j \<longrightarrow> valid (slots d ! i) \<noteq> 0 \<longrightarrow>
        \<not> slot_match (lba_base (slots d ! i)) (slots d ! j))"

lemma bit_test: "(d AND 2 ^ i = 0) \<longleftrightarrow> \<not> bit d i" for d :: byte
  by (rule and_exp_eq_0_iff_not_bit)

lemma bit_nonzero: "bit d k \<Longrightarrow> d \<noteq> (0 :: byte)"
  by auto

lemma bit_byte: "bit (d :: byte) k \<Longrightarrow> k < 8"
  using bit_imp_le_length [of d k] by simp

lemma unat_page_lba: "unat (page_lba l) = unat l div 8 * 8"
  using unat_align_down [of 3 l] by (simp add: page_lba_def)

lemma page_lba_idem [simp]: "page_lba (page_lba l) = page_lba l"
  by (simp add: word_unat_eq_iff unat_page_lba)

lemma page_off: "unat (l - page_lba l) = unat l mod 8"
proof -
  have "page_lba l \<le> l" by (simp add: word_le_nat_alt unat_page_lba)
  then have "unat (l - page_lba l) = unat l - unat l div 8 * 8" by (simp add: unat_sub unat_page_lba)
  then show ?thesis by (simp add: minus_div_mult_eq_mod)
qed

lemma sector_off_less: "unat (l - page_lba l) < 8"
  by (simp add: page_off)

lemma page_split: "l = page_lba l + of_nat (unat (l - page_lba l))"
  by simp

lemma in_page:
  assumes "page_lba a = a" "k < 8"
  shows "page_lba (a + of_nat k) = a" "unat (a + of_nat k - a) = k"
proof -
  define q where "q = unat a div 8"
  have d: "unat a = q * 8" using assms(1) unat_page_lba [of a] by (simp add: q_def)
  have "unat a < 2 ^ LENGTH(64)" by (rule unsigned_less)
  then have lt: "unat a + k < 2 ^ 64" using assms(2) unfolding d by simp
  have kk: "unat (of_nat k :: qword) = k" using assms(2) by (simp add: unat_of_nat)
  have u: "unat (a + of_nat k) = unat a + k" using lt by (simp add: unat_word_ariths kk)
  have "unat (page_lba (a + of_nat k)) = unat a" using assms(2) unfolding unat_page_lba u d by simp
  then show "page_lba (a + of_nat k) = a" by (simp add: word_unat_eq_iff)
  show "unat (a + of_nat k - a) = k" using kk by simp
qed

lemma slot_okD:
  assumes "slot_ok m c"
  shows "valid c \<noteq> 0 \<Longrightarrow> page_lba (lba_base c) = lba_base c" "bit (dirty c) k \<Longrightarrow> bit (valid c) k"
    "k < 8 \<Longrightarrow> bit (valid c) k \<Longrightarrow> \<not> bit (dirty c) k \<Longrightarrow> page c k = m (lba_base c + of_nat k)"
  using assms by (auto simp: slot_ok_def)

text \<open>One slot: what it shows of its own page.\<close>

lemma own_view_hit:
  assumes "slot_match (page_lba l) c"
  shows "own_view m c l = (if bit (valid c) (unat (l - page_lba l)) then page c (unat (l - page_lba l)) else m l)"
proof -
  have "lba_base c + of_nat (unat (l - page_lba l)) = l" using assms page_split [of l] by (simp add: slot_match_def)
  then show ?thesis using assms by (simp add: own_view_def slot_view_def)
qed

lemma own_view_miss: "\<not> slot_match (page_lba l) c \<Longrightarrow> own_view m c l = m l"
  by (simp add: own_view_def)

section \<open>Flushing\<close>

definition flushed :: "dslot \<Rightarrow> (qword \<Rightarrow> sector) \<Rightarrow> (qword \<Rightarrow> sector) \<Rightarrow> bool" where
  "flushed c m m' \<longleftrightarrow> (\<forall>l. m' l = m l \<or> (bit (dirty c) (unat (l - lba_base c)) \<and> m' l = page c (unat (l - lba_base c))))"

lemma write_run_flushed:
  assumes "flushed c m0 m" "\<And>k. head \<le> k \<Longrightarrow> k < i \<Longrightarrow> bit (dirty c) k"
  shows "flushed c m0 (write_run c head i m)"
  using assms by (auto simp: flushed_def write_run_def Let_def)

lemma flush_loop_spec:
  assumes "n + i = 9" "head \<le> i" "\<And>k. head \<le> k \<Longrightarrow> k < i \<Longrightarrow> bit (dirty c) k" "flushed c m0 m"
    "\<And>l. bit (dirty c) (unat (l - lba_base c)) \<Longrightarrow> unat (l - lba_base c) < head \<Longrightarrow> m l = page c (unat (l - lba_base c))"
    "flush_loop wr c n i head m = (ok, m')"
  shows "flushed c m0 m' \<and> (ok \<longrightarrow> (\<forall>l. bit (dirty c) (unat (l - lba_base c)) \<longrightarrow> m' l = page c (unat (l - lba_base c))))"
  using assms
proof (induction n arbitrary: i head m)
  case 0
  have "\<not> bit (dirty c) 8" using bit_byte [of "dirty c" 8] by auto
  then have "\<not> head \<le> 8" using 0(1) 0(3) [of 8] by auto
  then have "bit (dirty c) k \<Longrightarrow> k < head" for k using bit_byte [of "dirty c" k] by simp
  then show ?case using 0(4,5,6) by auto
next
  case (Suc n)
  show ?case
  proof (cases "bit (dirty c) i")
    case True
    then have "flush_loop wr c n (Suc i) head m = (ok, m')" using Suc.prems(6) by (simp add: bit_test)
    then show ?thesis using Suc.prems True by (intro Suc.IH [of "Suc i" head m]) (auto simp: less_Suc_eq)
  next
    case clean: False
    show ?thesis
    proof (cases "head = i")
      case True
      then have r: "flush_loop wr c n (Suc i) (Suc i) m = (ok, m')" using Suc.prems(6) clean by (simp add: bit_test)
      show ?thesis using Suc.prems True clean r by (intro Suc.IH [of "Suc i" "Suc i" m]) (auto simp: less_Suc_eq)
    next
      case False
      show ?thesis
      proof (cases "wr (lba_base c + of_nat head) (i - head)")
        case True
        let ?m = "write_run c head i m"
        have r: "flush_loop wr c n (Suc i) (Suc i) ?m = (ok, m')" using Suc.prems(6) clean False True by (simp add: bit_test)
        have f: "flushed c m0 ?m" by (rule write_run_flushed [OF Suc.prems(4,3)])
        have w: "?m l = page c (unat (l - lba_base c))" if "bit (dirty c) (unat (l - lba_base c))" "unat (l - lba_base c) < Suc i" for l
        proof (cases "unat (l - lba_base c) < head")
          case True
          then show ?thesis using Suc.prems(5) that(1) by (simp add: write_run_def Let_def)
        next
          case False
          have "unat (l - lba_base c) \<noteq> i" using clean that(1) by metis
          then show ?thesis using False that(2) by (simp add: write_run_def Let_def)
        qed
        show ?thesis using Suc.prems(1) f w r by (intro Suc.IH [of "Suc i" "Suc i" ?m]) (auto simp: less_Suc_eq)
      next
        case nwr: False
        then show ?thesis using Suc.prems(4,6) clean False by (simp add: bit_test)
      qed
    qed
  qed
qed

lemma slot_flush_ok:
  assumes "slot_flush wr c m = Inr (ok, c', m')"
  shows "flushed c m m'" "c' = (if ok then c\<lparr>dirty := 0\<rparr> else c)"
    "ok \<Longrightarrow> bit (dirty c) (unat (l - lba_base c)) \<Longrightarrow> m' l = page c (unat (l - lba_base c))"
proof -
  have lk: "locked c" using assms by (auto simp: slot_flush_def kassert_eq_Inr)
  obtain b m1 where r: "flush_loop wr c 9 0 0 m = (b, m1)" by (meson prod.exhaust)
  have sp: "flushed c m m1 \<and> (b \<longrightarrow> (\<forall>l. bit (dirty c) (unat (l - lba_base c)) \<longrightarrow> m1 l = page c (unat (l - lba_base c))))"
    by (rule flush_loop_spec [OF _ _ _ _ _ r]) (simp_all add: flushed_def)
  show "flushed c m m'" "c' = (if ok then c\<lparr>dirty := 0\<rparr> else c)"
    using assms lk r sp by (cases "dirty c = 0"; cases b; auto simp: slot_flush_def flushed_def)+
  show "m' l = page c (unat (l - lba_base c))" if "ok" "bit (dirty c) (unat (l - lba_base c))"
    using assms lk r sp that by (cases b) (auto simp: slot_flush_def split: if_splits)
qed

lemma flushed_page:
  assumes "slot_ok m c" "flushed c m m'" "m' l \<noteq> m l"
  shows "slot_match (page_lba l) c" "bit (dirty c) (unat (l - lba_base c))" "m' l = page c (unat (l - lba_base c))"
proof -
  show b: "bit (dirty c) (unat (l - lba_base c))" and "m' l = page c (unat (l - lba_base c))"
    using assms(2,3) by (auto simp: flushed_def)
  have v: "valid c \<noteq> 0" using slot_okD(2) [OF assms(1) b] by auto
  have "page_lba (lba_base c + of_nat (unat (l - lba_base c))) = lba_base c"
    using slot_okD(1) [OF assms(1) v] bit_byte [OF b] by (rule in_page)
  then show "slot_match (page_lba l) c" using v by (simp add: slot_match_def)
qed

text \<open>What an operation on a slot may do: the medium changes only under the slot, the slot stays consistent, and the disk as
  seen through the slot changes only at the sectors \<open>W\<close>, which become \<open>z\<close>.\<close>

definition steady :: "qword set \<Rightarrow> sector \<Rightarrow> dslot \<Rightarrow> (qword \<Rightarrow> sector) \<Rightarrow> dslot \<Rightarrow> (qword \<Rightarrow> sector) \<Rightarrow> bool" where
  "steady W z c m c' m' \<longleftrightarrow> slot_ok m' c' \<and> (\<forall>l. m' l \<noteq> m l \<longrightarrow> slot_match (page_lba l) c) \<and>
     (\<forall>l. own_view m' c' l = (if l \<in> W then z else own_view m c l))"

lemma flush_steady:
  assumes ok: "slot_ok m c" and f: "slot_flush wr c m = Inr (r, c', m')"
  shows "steady {} z c m c' m'" "valid c' = valid c" "lba_base c' = lba_base c" "locked c'" "r \<Longrightarrow> dirty c' = 0" "page c' = page c" "\<not> r \<Longrightarrow> c' = c"
proof -
  note g = slot_flush_ok [OF f]
  show vb: "valid c' = valid c" "lba_base c' = lba_base c" "page c' = page c" and "r \<Longrightarrow> dirty c' = 0" "\<not> r \<Longrightarrow> c' = c" using g(2) by auto
  show "locked c'" using f g(2) by (auto simp: slot_flush_def kassert_eq_Inr)
  have clean: "m' (lba_base c + of_nat k) = page c k" if "bit (valid c) k" "\<not> bit (dirty c') k" "k < 8" for k
  proof -
    have v: "valid c \<noteq> 0" using that(1) by auto
    note p = in_page [OF slot_okD(1) [OF ok v] that(3)]
    show ?thesis
    proof (cases "bit (dirty c) k")
      case True
      then have "r" using that(2) g(2) by (cases r) auto
      then show ?thesis using g(3) [of "lba_base c + of_nat k"] True p(2) by simp
    next
      case False
      then have "m' (lba_base c + of_nat k) = m (lba_base c + of_nat k)"
        using flushed_page(2) [OF ok g(1), of "lba_base c + of_nat k"] p(2) by auto
      then show ?thesis using slot_okD(3) [OF ok that(3,1) False] by simp
    qed
  qed
  have "slot_ok m' c'" unfolding slot_ok_def vb using slot_okD(1,2) [OF ok] clean g(2) by (auto split: if_splits)
  moreover have "own_view m' c' l = own_view m c l" for l
  proof (cases "slot_match (page_lba l) c")
    case False
    then show ?thesis using flushed_page(1) [OF ok g(1), of l] vb by (auto simp: own_view_miss slot_match_def)
  next
    case True
    have hit: "slot_match (page_lba l) c'" using True vb by (simp add: slot_match_def)
    have "m' l = m l" if "\<not> bit (valid c) (unat (l - page_lba l))"
    proof (rule ccontr)
      assume "m' l \<noteq> m l"
      from flushed_page(2) [OF ok g(1) this] have "bit (dirty c) (unat (l - page_lba l))" using True by (simp add: slot_match_def)
      then show False using slot_okD(2) [OF ok] that by blast
    qed
    then show ?thesis unfolding own_view_hit [OF True] own_view_hit [OF hit] using vb by simp
  qed
  ultimately show "steady {} z c m c' m'" using flushed_page(1) [OF ok g(1)] by (simp add: steady_def)
qed

text \<open>A slot without dirty sectors shows what is on the medium.\<close>

lemma own_view_clean:
  assumes "slot_ok m c" "dirty c = 0"
  shows "own_view m c l = m l"
proof (cases "slot_match (page_lba l) c")
  case False
  then show ?thesis by (rule own_view_miss)
next
  case True
  then have "page_lba l = lba_base c" by (simp add: slot_match_def)
  then show ?thesis unfolding own_view_hit [OF True]
    using slot_okD(3) [OF assms(1) sector_off_less, of l] assms(2) page_split [of l] by auto
qed

lemma full_page: "k < 8 \<Longrightarrow> bit (0xFF :: byte) k"
proof -
  assume "k < 8"
  then have "k = 0 \<or> k = 1 \<or> k = 2 \<or> k = 3 \<or> k = 4 \<or> k = 5 \<or> k = 6 \<or> k = 7" by linarith
  then show ?thesis by auto
qed

lemma reload_steady:
  assumes ok: "slot_ok m c" and r: "slot_reload rd wr now al c m = Inr (r, c', m')"
  shows "steady {} z c m c' m'" "valid c' \<noteq> 0 \<Longrightarrow> lba_base c' = al \<or> (valid c \<noteq> 0 \<and> lba_base c' = lba_base c)" "locked c'"
    "r \<Longrightarrow> valid c' = 0xFF \<and> lba_base c' = al"
proof -
  from r obtain b c1 m1 where f: "slot_flush wr c m = Inr (b, c1, m1)" and al: "page_lba al = al"
    by (auto simp: slot_reload_def kassert_eq_Inr rbind_eq_Inr)
  note fs = flush_steady [OF ok f]
  have st: "steady {} z c m c1 m1" by (rule fs(1))
  have n: "slot_ok m1 c1" "\<And>l. own_view m1 c1 l = own_view m c l" "\<And>l. m1 l \<noteq> m l \<Longrightarrow> slot_match (page_lba l) c" using st by (auto simp: steady_def)
  have lk: "locked c" using r by (auto simp: slot_reload_def kassert_eq_Inr)
  have "(\<not> b \<and> r = False \<and> c' = c1 \<and> m' = m1) \<or> (b \<and> r = False \<and> c' = c1\<lparr>valid := 0, lba_base := al\<rparr> \<and> m' = m1) \<or>
    (b \<and> r \<and> c' = c1\<lparr>valid := 0xFF, lba_base := al, page := \<lambda>k. m1 (al + of_nat k), timestamp := now\<rparr> \<and> m' = m1)"
    using r f al lk by (cases b; cases "rd al 8") (simp_all add: slot_reload_def, auto)
  then consider (nof) "\<not> b" "r = False" "c' = c1" "m' = m1" | (nord) "b" "r = False" "c' = c1\<lparr>valid := 0, lba_base := al\<rparr>" "m' = m1"
    | (good) "b" "r" "c' = c1\<lparr>valid := 0xFF, lba_base := al, page := \<lambda>k. m1 (al + of_nat k), timestamp := now\<rparr>" "m' = m1"
    by blast
  then have all: "steady {} z c m c' m' \<and> (valid c' \<noteq> 0 \<longrightarrow> lba_base c' = al \<or> (valid c \<noteq> 0 \<and> lba_base c' = lba_base c)) \<and> locked c' \<and>
    (r \<longrightarrow> valid c' = 0xFF \<and> lba_base c' = al)"
  proof cases
    case nof
    then show ?thesis using st fs(2,3,4) by auto
  next
    case nord
    have d0: "dirty c1 = 0" using fs(5) nord by simp
    have "slot_ok m1 c'" using d0 nord by (simp add: slot_ok_def)
    moreover have "own_view m1 c' l = own_view m c l" for l
      using own_view_clean [OF n(1) d0] own_view_clean [OF calculation] d0 nord n(2) by simp
    ultimately show ?thesis using n(3) nord fs(4) by (auto simp: steady_def)
  next
    case good
    have d0: "dirty c1 = 0" using fs(5) good by simp
    have "slot_ok m1 c'" using d0 good al by (simp add: slot_ok_def)
    moreover have "own_view m1 c' l = own_view m c l" for l
      using own_view_clean [OF n(1) d0] own_view_clean [OF calculation] d0 good n(2) by simp
    ultimately show ?thesis using n(3) good fs(4) by (auto simp: steady_def)
  qed
  show "steady {} z c m c' m'" "valid c' \<noteq> 0 \<Longrightarrow> lba_base c' = al \<or> (valid c \<noteq> 0 \<and> lba_base c' = lba_base c)" "locked c'"
    "r \<Longrightarrow> valid c' = 0xFF \<and> lba_base c' = al" using all by blast+
qed

lemma load_steady:
  assumes ok: "slot_ok m c" and r: "slot_load rd wr now lba c m = Inr (r, c', m')"
  shows "steady {} z c m c' m'" "valid c' \<noteq> 0 \<Longrightarrow> lba_base c' = lba_base c" "locked c'" "r \<Longrightarrow> valid c' = 0xFF \<and> lba_base c' = page_lba lba"
proof -
  have b: "locked c" "lba_base c = page_lba lba" using r by (auto simp: slot_load_def kassert_eq_Inr)
  have "steady {} z c m c' m' \<and> (valid c' \<noteq> 0 \<longrightarrow> lba_base c' = lba_base c) \<and> locked c' \<and> (r \<longrightarrow> valid c' = 0xFF \<and> lba_base c' = page_lba lba)"
  proof (cases "valid c = 0xFF")
    case True
    then show ?thesis using r b ok by (auto simp: slot_load_def steady_def)
  next
    case False
    then have "slot_reload rd wr now (lba_base c) c m = Inr (r, c', m')" using r b by (auto simp: slot_load_def kassert_eq_Inr)
    from reload_steady [OF ok this] b(2) show ?thesis by auto
  qed
  then show "steady {} z c m c' m'" "valid c' \<noteq> 0 \<Longrightarrow> lba_base c' = lba_base c" "locked c'" "r \<Longrightarrow> valid c' = 0xFF \<and> lba_base c' = page_lba lba"
    by blast+
qed

lemma mark_bits_ok: "mark_bits n off d = Inr d' \<Longrightarrow> bit d' k \<longleftrightarrow> bit d k \<or> (off \<le> k \<and> k < off + n)"
proof (induction n arbitrary: d')
  case (Suc n)
  then obtain d1 where d1: "mark_bits n off d = Inr d1" "off + n < 8" "d' = d1 OR 2 ^ (off + n)"
    by (auto simp: rbind_eq_Inr kassert_eq_Inr)
  have "bit (d1 OR 2 ^ (off + n)) k \<longleftrightarrow> bit d1 k \<or> k = off + n" using d1(2) by (auto simp: bit_simps)
  then show ?case using Suc.IH [OF d1(1)] d1(3) by auto
qed auto

lemma mark_bits_bound: "mark_bits n off d = Inr d' \<Longrightarrow> n = 0 \<or> off + n \<le> 8"
  by (cases n) (auto simp: rbind_eq_Inr kassert_eq_Inr)

lemma same_page_range:
  assumes "page_lba l = page_lba lba"
  shows "unat lba \<le> unat l \<and> unat l < unat lba + n \<longleftrightarrow>
    unat (lba - page_lba lba) \<le> unat (l - page_lba l) \<and> unat (l - page_lba l) < unat (lba - page_lba lba) + n"
proof -
  have "unat l div 8 = unat lba div 8" using arg_cong [OF assms, of unat] unfolding unat_page_lba by simp
  moreover have "unat l = 8 * (unat l div 8) + unat l mod 8" "unat lba = 8 * (unat lba div 8) + unat lba mod 8" by simp_all
  ultimately show ?thesis unfolding page_off by linarith
qed

lemma zero_steady:
  assumes ok: "slot_ok m c" and b: "lba_base c = page_lba lba" and mk: "mark_bits n (unat (lba - page_lba lba)) (dirty c) = Inr d"
  shows "steady {l. page_lba l = page_lba lba \<and> unat lba \<le> unat l \<and> unat l < unat lba + n} (\<lambda>_. 0) c m
    (c\<lparr>dirty := d, page := zero_sectors (unat (lba - page_lba lba)) n (page c), valid := valid c OR d, timestamp := now\<rparr>) m"
proof -
  let ?o = "unat (lba - page_lba lba)"
  let ?c = "c\<lparr>dirty := d, page := zero_sectors ?o n (page c), valid := valid c OR d, timestamp := now\<rparr>"
  have d: "bit d k \<longleftrightarrow> bit (dirty c) k \<or> (?o \<le> k \<and> k < ?o + n)" for k by (rule mark_bits_ok [OF mk])
  have "slot_ok m ?c"
    using slot_okD(3) [OF ok] b unfolding slot_ok_def by (auto simp: bit_or_iff d zero_sectors_def)
  moreover have "own_view m ?c l = (if page_lba l = page_lba lba \<and> unat lba \<le> unat l \<and> unat l < unat lba + n then \<lambda>_. 0 else own_view m c l)" for l
  proof (cases "page_lba l = page_lba lba")
    case False
    then show ?thesis using b by (simp add: own_view_def slot_match_def)
  next
    case same: True
    let ?k = "unat (l - page_lba l)"
    note rg = same_page_range [OF same, of n]
    have k: "lba_base c + of_nat ?k = l" using b same page_split [of l] by simp
    show ?thesis
    proof (cases "?o \<le> ?k \<and> ?k < ?o + n")
      case True
      then have bd: "bit d ?k" using d by blast
      then have "bit (valid c OR d) ?k" by (simp add: bit_or_iff)
      then have "slot_match (page_lba l) ?c" using b same by (auto simp: slot_match_def)
      then show ?thesis using True bd rg same by (simp add: own_view_hit bit_or_iff zero_sectors_def)
    next
      case False
      then have bd: "bit d ?k \<longleftrightarrow> bit (dirty c) ?k" using d by blast
      then have v: "bit (valid c OR d) ?k \<longleftrightarrow> bit (valid c) ?k" using slot_okD(2) [OF ok] by (auto simp: bit_or_iff)
      have "own_view m ?c l = (if bit (valid c) ?k then page c ?k else m l)"
        using v False b same k by (auto simp: own_view_def slot_view_def zero_sectors_def slot_match_def)
      moreover have "own_view m c l = (if bit (valid c) ?k then page c ?k else m l)"
        using b same k by (auto simp: own_view_def slot_view_def slot_match_def)
      ultimately show ?thesis using False rg by auto
    qed
  qed
  ultimately show ?thesis by (simp add: steady_def)
qed

lemma store_steady:
  assumes ok: "slot_ok m c" and r: "slot_store wr now lba count c m = Inr (r, c', m')"
  defines "W \<equiv> if r then {l. page_lba l = page_lba lba \<and> unat lba \<le> unat l \<and> unat l < unat lba + count} else {}"
  shows "steady W (\<lambda>_. 0) c m c' m'" "valid c' \<noteq> 0 \<Longrightarrow> lba_base c' = page_lba lba \<or> (valid c \<noteq> 0 \<and> lba_base c' = lba_base c)" "locked c'"
    "r \<Longrightarrow> lba_base c' = page_lba lba \<and> (\<forall>k. unat (lba - page_lba lba) \<le> k \<and> k < unat (lba - page_lba lba) + count \<longrightarrow> bit (valid c') k)"
proof -
  define mid where "mid = (if page_lba lba \<noteq> lba_base c
             then rbind (slot_flush wr c m) (\<lambda>(ok, c, m). Inr (ok, if ok then c\<lparr>valid := 0, lba_base := page_lba lba\<rparr> else c, m))
             else Inr (True, c, m))"
  have lk: "locked c" using r by (auto simp: slot_store_def kassert_eq_Inr)
  from r obtain b c1 m1 where mid: "mid = Inr (b, c1, m1)" by (auto simp: slot_store_def kassert_eq_Inr rbind_eq_Inr mid_def [symmetric])
  have half: "steady {} z c m c1 m1 \<and> locked c1 \<and> (b \<longrightarrow> lba_base c1 = page_lba lba) \<and> (\<not> b \<longrightarrow> valid c1 = valid c \<and> lba_base c1 = lba_base c)" for z
  proof (cases "page_lba lba = lba_base c")
    case True
    then show ?thesis using mid ok lk by (auto simp: mid_def steady_def)
  next
    case False
    then obtain b' c0 where f: "slot_flush wr c m = Inr (b', c0, m1)" "b = b'" "c1 = (if b then c0\<lparr>valid := 0, lba_base := page_lba lba\<rparr> else c0)"
      using mid by (auto simp: mid_def rbind_eq_Inr)
    note fs = flush_steady [OF ok f(1)]
    show ?thesis
    proof (cases b)
      case True
      have d0: "dirty c0 = 0" using fs(5) f(2) True by simp
      have s0: "slot_ok m1 c0" "\<And>l. own_view m1 c0 l = own_view m c l" using fs(1) [of z] by (auto simp: steady_def)
      have "slot_ok m1 c1" using d0 f(3) True by (simp add: slot_ok_def)
      moreover have "own_view m1 c1 l = own_view m c l" for l
        using own_view_clean [OF s0(1) d0] own_view_clean [OF calculation] d0 f(3) s0(2) True by simp
      ultimately show ?thesis using fs(1) [of z] fs(4) f(3) True by (auto simp: steady_def)
    next
      case False
      then show ?thesis using fs f(3) by auto
    qed
  qed
  have "steady W (\<lambda>_. 0) c m c' m' \<and> (valid c' \<noteq> 0 \<longrightarrow> lba_base c' = page_lba lba \<or> (valid c \<noteq> 0 \<and> lba_base c' = lba_base c)) \<and> locked c' \<and>
    (r \<longrightarrow> lba_base c' = page_lba lba \<and> (\<forall>k. unat (lba - page_lba lba) \<le> k \<and> k < unat (lba - page_lba lba) + count \<longrightarrow> bit (valid c') k))"
  proof (cases b)
    case False
    then have "r = False" "c' = c1" "m' = m1" using r lk mid by (auto simp: slot_store_def mid_def [symmetric])
    then show ?thesis using half False by (auto simp: W_def)
  next
    case True
    then have lb: "lba_base c1 = page_lba lba" using half by blast
    from True obtain d where d: "mark_bits count (unat (lba - page_lba lba)) (dirty c1) = Inr d" "r" "m' = m1"
      "c' = c1\<lparr>dirty := d, page := zero_sectors (unat (lba - page_lba lba)) count (page c1), valid := valid c1 OR d, timestamp := now\<rparr>"
      using r lk mid lb by (auto simp: slot_store_def mid_def [symmetric] rbind_eq_Inr Let_def)
    have sm: "slot_ok m1 c1" using half by (simp add: steady_def)
    have "steady W (\<lambda>_. 0) c1 m1 c' m'" unfolding d(3,4) W_def using zero_steady [OF sm lb d(1)] d(2) by simp
    then have "steady W (\<lambda>_. 0) c m c' m'" using half d(3) by (simp add: steady_def)
    moreover have "bit d k" if "unat (lba - page_lba lba) \<le> k" "k < unat (lba - page_lba lba) + count" for k
      using mark_bits_ok [OF d(1), of k] that by blast
    ultimately show ?thesis using d(4) lb half by (auto simp: bit_or_iff)
  qed
  then show "steady W (\<lambda>_. 0) c m c' m'" "valid c' \<noteq> 0 \<Longrightarrow> lba_base c' = page_lba lba \<or> (valid c \<noteq> 0 \<and> lba_base c' = lba_base c)" "locked c'"
    "r \<Longrightarrow> lba_base c' = page_lba lba \<and> (\<forall>k. unat (lba - page_lba lba) \<le> k \<and> k < unat (lba - page_lba lba) + count \<longrightarrow> bit (valid c') k)"
    by blast+
qed

section \<open>The table as a whole\<close>

lemma dm_invD:
  assumes "dm_inv d" "i < length (slots d)"
  shows "slot_ok (media d) (slots d ! i)"
    "j < length (slots d) \<Longrightarrow> slot_match al (slots d ! i) \<Longrightarrow> slot_match al (slots d ! j) \<Longrightarrow> i = j"
  using assms by (auto simp: dm_inv_def slot_match_def)

lemma view_hit:
  assumes inv: "dm_inv d" and i: "i < length (slots d)" "slot_match (page_lba l) (slots d ! i)"
  shows "view d l = own_view (media d) (slots d ! i) l"
proof -
  have "List.find (slot_match (page_lba l)) (slots d) \<noteq> None" using i nth_mem by (auto simp: find_None_iff)
  then obtain c where c: "List.find (slot_match (page_lba l)) (slots d) = Some c" by blast
  then obtain j where j: "j < length (slots d)" "slot_match (page_lba l) c" "c = slots d ! j" by (auto simp: find_Some_iff)
  then have "c = slots d ! i" using dm_invD(2) [OF inv i(1) j(1) i(2)] by simp
  then show ?thesis using c i(2) by (simp add: view_def own_view_def)
qed

lemma view_miss: "\<forall>i<length (slots d). \<not> slot_match (page_lba l) (slots d ! i) \<Longrightarrow> view d l = media d l"
  by (auto simp: view_def find_Some_iff split: option.splits)

lemma view_only:
  assumes "dm_inv d" "i < length (slots d)" "\<forall>j<length (slots d). j \<noteq> i \<longrightarrow> \<not> slot_match (page_lba l) (slots d ! j)"
  shows "view d l = own_view (media d) (slots d ! i) l"
proof (cases "slot_match (page_lba l) (slots d ! i)")
  case True
  then show ?thesis using view_hit assms by blast
next
  case False
  then have "\<forall>j<length (slots d). \<not> slot_match (page_lba l) (slots d ! j)" using assms(3) by metis
  then show ?thesis using view_miss False by (simp add: own_view_miss)
qed

text \<open>An operation on one slot that is steady there is steady for the whole table.\<close>

lemma table_step:
  assumes inv: "dm_inv d" and i: "i < length (slots d)" and st: "steady W z (slots d ! i) (media d) c' m'"
    and own: "valid c' \<noteq> 0 \<Longrightarrow> \<forall>j<length (slots d). j \<noteq> i \<longrightarrow> \<not> slot_match (lba_base c') (slots d ! j)"
    and W: "\<And>l j. l \<in> W \<Longrightarrow> j < length (slots d) \<Longrightarrow> j \<noteq> i \<Longrightarrow> \<not> slot_match (page_lba l) (slots d ! j)"
  defines "d' \<equiv> d\<lparr>slots := (slots d)[i := c'], media := m'\<rparr>"
  shows "dm_inv d'" "view d' l = (if l \<in> W then z else view d l)"
proof -
  let ?c = "slots d ! i"
  have ok: "slot_ok m' c'" and md: "\<And>l. m' l \<noteq> media d l \<Longrightarrow> slot_match (page_lba l) ?c"
    and ov: "\<And>l. own_view m' c' l = (if l \<in> W then z else own_view (media d) ?c l)" using st by (auto simp: steady_def)
  have keep: "m' l = media d l" if "j < length (slots d)" "j \<noteq> i" "slot_match (page_lba l) (slots d ! j)" for j l
    using md dm_invD(2) [OF inv i that(1) _ that(3)] that(2) by metis
  have other: "slot_ok m' (slots d ! j)" if j: "j < length (slots d)" "j \<noteq> i" for j
  proof -
    let ?s = "slots d ! j"
    have o: "slot_ok (media d) ?s" by (rule dm_invD(1) [OF inv j(1)])
    have "m' (lba_base ?s + of_nat k) = media d (lba_base ?s + of_nat k)" if "bit (valid ?s) k" "k < 8" for k
    proof -
      have v: "valid ?s \<noteq> 0" using that(1) by auto
      then have "slot_match (page_lba (lba_base ?s + of_nat k)) ?s" using in_page(1) [OF slot_okD(1) [OF o v] that(2)] by (simp add: slot_match_def)
      then show ?thesis using keep j by blast
    qed
    then show ?thesis using o by (auto simp: slot_ok_def)
  qed
  show inv': "dm_inv d'"
    unfolding dm_inv_def d'_def
  proof (intro conjI ballI allI impI)
    fix c assume "c \<in> set (slots (d\<lparr>slots := (slots d)[i := c'], media := m'\<rparr>))"
    then obtain j where "j < length (slots d)" "c = (slots d)[i := c'] ! j" by (auto simp: in_set_conv_nth)
    then show "slot_ok (media (d\<lparr>slots := (slots d)[i := c'], media := m'\<rparr>)) c" using ok other [of j] by (cases "j = i") auto
  next
    fix j k assume jk: "j < length (slots (d\<lparr>slots := (slots d)[i := c'], media := m'\<rparr>))" "k < length (slots (d\<lparr>slots := (slots d)[i := c'], media := m'\<rparr>))" "j \<noteq> k"
      "valid (slots (d\<lparr>slots := (slots d)[i := c'], media := m'\<rparr>) ! j) \<noteq> 0"
    have sym: "slot_match (lba_base x) y \<longleftrightarrow> valid y \<noteq> 0 \<and> lba_base y = lba_base x" for x y by (auto simp: slot_match_def)
    show "\<not> slot_match (lba_base (slots (d\<lparr>slots := (slots d)[i := c'], media := m'\<rparr>) ! j)) (slots (d\<lparr>slots := (slots d)[i := c'], media := m'\<rparr>) ! k)"
      using jk own inv i by (cases "j = i"; cases "k = i") (auto simp: sym dm_inv_def)
  qed
  show "view d' l = (if l \<in> W then z else view d l)"
  proof (cases "\<exists>j<length (slots d). j \<noteq> i \<and> slot_match (page_lba l) (slots d ! j)")
    case True
    then obtain j where j: "j < length (slots d)" "j \<noteq> i" "slot_match (page_lba l) (slots d ! j)" by blast
    have "view d l = own_view (media d) (slots d ! j) l" by (rule view_hit [OF inv j(1,3)])
    moreover have "view d' l = own_view m' (slots d ! j) l" using view_hit [OF inv', of j l] j by (simp add: d'_def)
    moreover have "l \<notin> W" using W [OF _ j(1,2)] j(3) by blast
    ultimately show ?thesis using keep [OF j] by (simp add: own_view_hit [OF j(3)])
  next
    case False
    have "view d l = own_view (media d) ?c l" by (rule view_only [OF inv i]) (use False in blast)
    moreover have "view d' l = own_view m' c' l"
      using view_only [OF inv', of i l] i False by (auto simp: d'_def nth_list_update)
    ultimately show ?thesis using ov by simp
  qed
qed

lemma scan_match: "scan_slots al cs n t = Match i \<Longrightarrow> n \<le> i \<and> i - n < length cs \<and> slot_match al (cs ! (i - n))"
proof (induction cs arbitrary: n t)
  case (Cons c cs)
  show ?case
  proof (cases "slot_match al c")
    case False
    then obtain t' where "scan_slots al cs (Suc n) t' = Match i" using Cons.prems by simp
    from Cons.IH [OF this] show ?thesis by (auto simp: nth_Cons' Suc_diff_le less_Suc_eq_0_disj diff_Suc split: nat.splits)
  qed (use Cons.prems in auto)
qed simp

lemma scan_oldest:
  "scan_slots al cs n t = Oldest r \<Longrightarrow> (\<forall>c\<in>set cs. \<not> slot_match al c) \<and>
     (\<forall>i ts. r = Some (i, ts) \<longrightarrow> t = Some (i, ts) \<or> (n \<le> i \<and> i - n < length cs \<and> \<not> locked (cs ! (i - n))))"
proof (induction cs arbitrary: n t)
  case (Cons c cs)
  let ?t = "if locked c then t else case t of None \<Rightarrow> Some (n, timestamp c) | Some (j, u) \<Rightarrow> if u > timestamp c then Some (n, timestamp c) else t"
  have no: "\<not> slot_match al c" and rest: "scan_slots al cs (Suc n) ?t = Oldest r" using Cons.prems by (auto split: if_splits)
  note ih = Cons.IH [OF rest]
  have "t = Some (i, ts) \<or> (n \<le> i \<and> i - n < length (c # cs) \<and> \<not> locked ((c # cs) ! (i - n)))" if "r = Some (i, ts)" for i ts
  proof (cases "?t = Some (i, ts)")
    case True
    then show ?thesis by (auto split: if_splits option.splits prod.splits)
  next
    case False
    then have "Suc n \<le> i" "i - Suc n < length cs" "\<not> locked (cs ! (i - Suc n))" using ih that by auto
    then show ?thesis by (auto simp: nth_Cons' Suc_diff_Suc)
  qed
  then show ?case using no ih by auto
qed simp

lemma lock_slot_ok: "slot_ok m (c\<lparr>locked := b\<rparr>) = slot_ok m c" "own_view m (c\<lparr>locked := b\<rparr>) l = own_view m c l"
  "slot_match al (c\<lparr>locked := b\<rparr>) = slot_match al c" "steady W z (c\<lparr>locked := b\<rparr>) m c' m' = steady W z c m c' m'"
  "steady W z c m (c'\<lparr>locked := b\<rparr>) m' = steady W z c m c' m'"
  by (simp_all add: slot_ok_def own_view_def slot_match_def slot_view_def steady_def)

text \<open>The slot that \<open>get\<close> works on: the one that caches the page, or one that may be reused because no slot caches it.\<close>

lemma use_slot_step:
  assumes inv: "dm_inv d" and i: "i < length (slots d)" and u: "use_slot i f d = Inr (g, d')"
    and al: "\<And>j. j < length (slots d) \<Longrightarrow> j \<noteq> i \<Longrightarrow> \<not> slot_match al (slots d ! j)"
    and f: "\<And>r c' m'. f ((slots d ! i)\<lparr>locked := True\<rparr>) (media d) = Inr (r, c', m') \<Longrightarrow>
       steady (W r) z ((slots d ! i)\<lparr>locked := True\<rparr>) (media d) c' m' \<and>
       (valid c' \<noteq> 0 \<longrightarrow> lba_base c' = al \<or> (valid (slots d ! i) \<noteq> 0 \<and> lba_base c' = lba_base (slots d ! i)))"
    and W: "\<And>r l. l \<in> W r \<Longrightarrow> page_lba l = al"
  shows "dm_inv d'" "view d' l = (if l \<in> W (g = Slot i) then z else view d l)" "length (slots d') = length (slots d)"
proof -
  from u obtain r c' m' where r: "f ((slots d ! i)\<lparr>locked := True\<rparr>) (media d) = Inr (r, c', m')"
    and g: "g = (if r then Slot i else Null)" and d': "d' = d\<lparr>slots := (slots d)[i := c'], media := m'\<rparr>"
    by (auto simp: use_slot_def rbind_eq_Inr)
  have st: "steady (W r) z (slots d ! i) (media d) c' m'" using f [OF r] by (simp add: lock_slot_ok)
  have own: "valid c' \<noteq> 0 \<Longrightarrow> \<forall>j<length (slots d). j \<noteq> i \<longrightarrow> \<not> slot_match (lba_base c') (slots d ! j)"
    using f [OF r] al inv i by (auto simp: dm_inv_def)
  have w: "\<not> slot_match (page_lba l) (slots d ! j)" if "l \<in> W r" "j < length (slots d)" "j \<noteq> i" for l j using W [OF that(1)] al that by simp
  note t = table_step [OF inv i st own w]
  have "(g = Slot i) = r" using g by auto
  then show "dm_inv d'" "view d' l = (if l \<in> W (g = Slot i) then z else view d l)" "length (slots d') = length (slots d)"
    using t d' by simp_all
qed

lemma page_next: "page_lba (page_lba l + 8) = page_lba l + 8"
proof -
  define q where "q = unat l div 8"
  have p: "unat (page_lba l) = q * 8" by (simp add: unat_page_lba q_def)
  have "unat l < 2 ^ LENGTH(64)" by (rule unsigned_less)
  then have q: "q < 2 ^ 61" by (simp add: q_def)
  have u: "unat (page_lba l + 8) = (if q + 1 = 2 ^ 61 then 0 else (q + 1) * 8)"
    using q by (auto simp: unat_word_ariths p)
  have "unat (page_lba (page_lba l + 8)) = unat (page_lba l + 8)" unfolding unat_page_lba u by simp
  then show ?thesis by (simp add: word_unat_eq_iff)
qed

lemma dm_count_eq: "dm_count lba = 8 - unat lba mod 8"
proof -
  define off where "off = unat lba mod 8"
  have lba: "lba = page_lba lba + of_nat off" using page_split [of lba] unfolding off_def page_off [symmetric] .
  have off: "off < 8" by (simp add: off_def)
  have up: "align_up lba 8 = page_lba (lba + 7)" by (simp add: align_up_def page_lba_def add_diff_eq add.commute)
  show ?thesis
  proof (cases "off = 0")
    case True
    then have "page_lba lba = lba" using lba by simp
    then have "align_up lba 8 = lba" unfolding up using in_page(1) [of lba 7] by simp
    then show ?thesis using True by (simp add: dm_count_def off_def)
  next
    case False
    then obtain o' where o': "off = Suc o'" by (cases off) auto
    have e7: "lba + 7 = page_lba lba + 8 + of_nat o'" by (subst lba) (simp add: o')
    have o7: "o' < 8" using off o' by simp
    have top: "align_up lba 8 = page_lba lba + 8" unfolding up e7 by (rule in_page(1) [OF page_next o7])
    have "page_lba lba + 8 - lba = 8 - of_nat off" by (subst (2) lba) simp
    moreover have "unat (8 - of_nat off :: qword) = 8 - off"
      using off by (subst unat_sub) (simp_all add: word_le_nat_alt unat_of_nat)
    ultimately have u: "unat (page_lba lba + 8 - lba) = 8 - off" by (simp only:)
    then have "page_lba lba + 8 \<noteq> lba" using off by auto
    then show ?thesis using u top unfolding dm_count_def Let_def off_def by simp
  qed
qed

lemma in_range:
  assumes "k < n" "n \<le> dm_count lba"
  shows "page_lba (lba + of_nat k) = page_lba lba" "unat (lba + of_nat k - page_lba lba) = unat (lba - page_lba lba) + k"
    "unat (lba + of_nat k) = unat lba + k"
proof -
  let ?o = "unat (lba - page_lba lba)"
  have lt: "?o + k < 8" using assms unfolding dm_count_eq page_off by simp
  have e: "lba + of_nat k = page_lba lba + of_nat (?o + k)" using page_split [of lba] by simp
  have p1: "page_lba (lba + of_nat k) = page_lba lba" unfolding e by (rule in_page(1) [OF page_lba_idem lt])
  have p2: "unat (lba + of_nat k - page_lba lba) = ?o + k" unfolding e by (rule in_page(2) [OF page_lba_idem lt])
  note p = p1 p2
  show "page_lba (lba + of_nat k) = page_lba lba" "unat (lba + of_nat k - page_lba lba) = ?o + k" by (fact p1, fact p2)
  have "unat (lba + of_nat k) mod 8 = ?o + k" using p page_off [of "lba + of_nat k"] by simp
  moreover have "unat (lba + of_nat k) div 8 = unat lba div 8" using arg_cong [OF p(1), of unat] unfolding unat_page_lba by simp
  ultimately show "unat (lba + of_nat k) = unat lba + k" using div_mult_mod_eq [of "unat (lba + of_nat k)" 8] div_mult_mod_eq [of "unat lba" 8] page_off [of lba] by linarith
qed

definition sectors :: "qword \<Rightarrow> nat \<Rightarrow> qword set" where
  "sectors lba n = {l. page_lba l = page_lba lba \<and> unat lba \<le> unat l \<and> unat l < unat lba + n}"

lemma data_view:
  assumes inv: "dm_inv d" and i: "i < length (slots d)" and b: "lba_base (slots d ! i) = page_lba lba"
    and v: "\<And>k. k < n \<Longrightarrow> bit (valid (slots d ! i)) (unat (lba - page_lba lba) + k)" and k: "k < n" "n \<le> dm_count lba"
  shows "slot_data (slots d ! i) (lba + of_nat k) = Inr (view d (lba + of_nat k))"
proof -
  let ?c = "slots d ! i" and ?l = "lba + of_nat k"
  note r = in_range [OF k]
  have bt: "bit (valid ?c) (unat (?l - page_lba ?l))" using v [OF k(1)] r by simp
  then have m: "slot_match (page_lba ?l) ?c" using b r(1) by (auto simp: slot_match_def)
  have "view d ?l = page ?c (unat (?l - page_lba ?l))" using view_hit [OF inv i m] own_view_hit [OF m] bt by simp
  then show ?thesis using m b r by (simp add: slot_data_def slot_match_def)
qed

text \<open>The contract of the three ways to fill a slot.\<close>

definition fills :: "qword \<Rightarrow> nat \<Rightarrow> bool \<Rightarrow> (dslot \<Rightarrow> (qword \<Rightarrow> sector) \<Rightarrow> (bool \<times> dslot \<times> (qword \<Rightarrow> sector)) res) \<Rightarrow> bool" where
  "fills lba n write f \<longleftrightarrow> (\<forall>c m r c' m'. slot_ok m c \<and> f c m = Inr (r, c', m') \<longrightarrow>
     steady (if write \<and> r then sectors lba n else {}) (\<lambda>_. 0) c m c' m' \<and>
     (valid c' \<noteq> 0 \<longrightarrow> lba_base c' = page_lba lba \<or> (valid c \<noteq> 0 \<and> lba_base c' = lba_base c)) \<and> locked c' \<and>
     (r \<longrightarrow> lba_base c' = page_lba lba \<and> (\<forall>k<n. bit (valid c') (unat (lba - page_lba lba) + k))))"

lemma fills_intros:
  assumes "n \<le> dm_count lba"
  shows "fills lba n True (slot_store wr now lba n)" "fills lba n False (slot_load rd wr now lba)" "fills lba n False (slot_reload rd wr now (page_lba lba))"
proof -
  have full: "\<forall>k<n. bit (0xFF :: byte) (unat (lba - page_lba lba) + k)" using assms full_page unfolding dm_count_eq page_off by auto
  show "fills lba n True (slot_store wr now lba n)"
    unfolding fills_def
  proof (intro allI impI)
    fix c m r c' m' assume a: "slot_ok m c \<and> slot_store wr now lba n c m = Inr (r, c', m')"
    note st = store_steady [OF conjunct1 [OF a] conjunct2 [OF a]]
    show "steady (if True \<and> r then sectors lba n else {}) (\<lambda>_. 0) c m c' m' \<and>
     (valid c' \<noteq> 0 \<longrightarrow> lba_base c' = page_lba lba \<or> (valid c \<noteq> 0 \<and> lba_base c' = lba_base c)) \<and> locked c' \<and>
     (r \<longrightarrow> lba_base c' = page_lba lba \<and> (\<forall>k<n. bit (valid c') (unat (lba - page_lba lba) + k)))"
      using st(1,2,3,4) unfolding sectors_def by (cases r) simp_all
  qed
  show "fills lba n False (slot_load rd wr now lba)"
    unfolding fills_def
  proof (intro allI impI)
    fix c m r c' m' assume a: "slot_ok m c \<and> slot_load rd wr now lba c m = Inr (r, c', m')"
    have b: "lba_base c = page_lba lba" using a by (auto simp: slot_load_def kassert_eq_Inr)
    show "steady (if False \<and> r then sectors lba n else {}) (\<lambda>_. 0) c m c' m' \<and>
     (valid c' \<noteq> 0 \<longrightarrow> lba_base c' = page_lba lba \<or> (valid c \<noteq> 0 \<and> lba_base c' = lba_base c)) \<and> locked c' \<and>
     (r \<longrightarrow> lba_base c' = page_lba lba \<and> (\<forall>k<n. bit (valid c') (unat (lba - page_lba lba) + k)))"
      using load_steady [of m c rd wr now lba r c' m'] a b full by auto
  qed
  show "fills lba n False (slot_reload rd wr now (page_lba lba))"
    unfolding fills_def
  proof (intro allI impI)
    fix c m r c' m' assume a: "slot_ok m c \<and> slot_reload rd wr now (page_lba lba) c m = Inr (r, c', m')"
    note st = reload_steady [OF conjunct1 [OF a] conjunct2 [OF a]]
    show "steady (if False \<and> r then sectors lba n else {}) (\<lambda>_. 0) c m c' m' \<and>
     (valid c' \<noteq> 0 \<longrightarrow> lba_base c' = page_lba lba \<or> (valid c \<noteq> 0 \<and> lba_base c' = lba_base c)) \<and> locked c' \<and>
     (r \<longrightarrow> lba_base c' = page_lba lba \<and> (\<forall>k<n. bit (valid c') (unat (lba - page_lba lba) + k)))"
      using st full by (cases r) simp_all
  qed
qed

lemma fill_slot:
  assumes inv: "dm_inv d" and i: "i < length (slots d)" and u: "use_slot i f d = Inr (g, d')" and n: "n \<le> dm_count lba"
    and al: "\<And>j. j < length (slots d) \<Longrightarrow> j \<noteq> i \<Longrightarrow> \<not> slot_match (page_lba lba) (slots d ! j)" and f: "fills lba n write f"
  shows "dm_inv d' \<and> (\<forall>l. view d' l = (if write \<and> g = Slot i \<and> l \<in> sectors lba n then \<lambda>_. 0 else view d l)) \<and>
    (g = Slot i \<or> g = Null) \<and> (g = Slot i \<longrightarrow> i < length (slots d') \<and> locked (slots d' ! i) \<and>
      (\<forall>k<n. slot_data (slots d' ! i) (lba + of_nat k) = Inr (view d' (lba + of_nat k))))"
proof -
  have ok: "slot_ok (media d) ((slots d ! i)\<lparr>locked := True\<rparr>)" using dm_invD(1) [OF inv i] by (simp add: lock_slot_ok)
  from u obtain r c' m' where r: "f ((slots d ! i)\<lparr>locked := True\<rparr>) (media d) = Inr (r, c', m')"
    and g: "g = (if r then Slot i else Null)" and d': "d' = d\<lparr>slots := (slots d)[i := c'], media := m'\<rparr>"
    by (auto simp: use_slot_def rbind_eq_Inr)
  note fl = f [unfolded fills_def, rule_format, OF conjI [OF ok r]]
  have spec: "steady (if write \<and> r then sectors lba n else {}) (\<lambda>_. 0) ((slots d ! i)\<lparr>locked := True\<rparr>) (media d) c' m' \<and>
       (valid c' \<noteq> 0 \<longrightarrow> lba_base c' = page_lba lba \<or> (valid (slots d ! i) \<noteq> 0 \<and> lba_base c' = lba_base (slots d ! i)))"
    if "f ((slots d ! i)\<lparr>locked := True\<rparr>) (media d) = Inr (r, c', m')" for r c' m'
    using f [unfolded fills_def, rule_format, OF conjI [OF ok that]] by simp
  note st = use_slot_step [OF inv i u al, where W = "\<lambda>r. if write \<and> r then sectors lba n else {}" and z = "\<lambda>_. 0", OF _ _ spec]
  have w: "l \<in> (if write \<and> r then sectors lba n else {}) \<Longrightarrow> page_lba l = page_lba lba" for r l
    by (auto simp: sectors_def split: if_splits)
  have inv': "dm_inv d'" and vw: "\<And>l. view d' l = (if l \<in> (if write \<and> g = Slot i then sectors lba n else {}) then \<lambda>_. 0 else view d l)"
    using st w by blast+
  have "slot_data (slots d' ! i) (lba + of_nat k) = Inr (view d' (lba + of_nat k))" if "g = Slot i" "k < n" for k
    by (rule data_view [OF inv' _ _ _ that(2) n]) (use fl g d' i that in \<open>auto split: if_splits\<close>)
  then show ?thesis using inv' vw g d' i fl by (auto split: if_splits)
qed

lemma get_spec:
  assumes inv: "dm_inv d" and g: "dm_get rd wr now lba count write d = Inr (g, d')"
  shows "dm_inv d'" "view d' l = (if write \<and> g \<noteq> Null \<and> g \<noteq> Again \<and> l \<in> sectors lba count then \<lambda>_. 0 else view d l)"
    "g = Slot i \<Longrightarrow> i < length (slots d') \<and> locked (slots d' ! i) \<and>
       (\<forall>k<count. slot_data (slots d' ! i) (lba + of_nat k) = Inr (view d' (lba + of_nat k)))"
proof -
  let ?al = "page_lba lba"
  have n: "count \<le> dm_count lba" using g by (auto simp: dm_get_def split: if_splits)
  have go: "dm_inv d' \<and> (\<forall>l. view d' l = (if write \<and> g \<noteq> Null \<and> g \<noteq> Again \<and> l \<in> sectors lba count then \<lambda>_. 0 else view d l)) \<and>
      (\<forall>i. g = Slot i \<longrightarrow> i < length (slots d') \<and> locked (slots d' ! i) \<and>
       (\<forall>k<count. slot_data (slots d' ! i) (lba + of_nat k) = Inr (view d' (lba + of_nat k))))"
    if "i < length (slots d)" "use_slot i f d = Inr (g, d')" "fills lba count write f"
      "\<And>j. j < length (slots d) \<Longrightarrow> j \<noteq> i \<Longrightarrow> \<not> slot_match ?al (slots d ! j)" for i f
    using fill_slot [OF inv that(1,2) n that(4,3)] by auto
  have "dm_inv d' \<and> (\<forall>l. view d' l = (if write \<and> g \<noteq> Null \<and> g \<noteq> Again \<and> l \<in> sectors lba count then \<lambda>_. 0 else view d l)) \<and>
      (\<forall>i. g = Slot i \<longrightarrow> i < length (slots d') \<and> locked (slots d' ! i) \<and>
       (\<forall>k<count. slot_data (slots d' ! i) (lba + of_nat k) = Inr (view d' (lba + of_nat k))))"
  proof (cases "scan_slots ?al (slots d) 0 None")
    case (Match i)
    then have i: "i < length (slots d)" "slot_match ?al (slots d ! i)" using scan_match [OF Match] by auto
    then have ot: "\<And>j. j < length (slots d) \<Longrightarrow> j \<noteq> i \<Longrightarrow> \<not> slot_match ?al (slots d ! j)" using dm_invD(2) [OF inv i(1)] by blast
    show ?thesis
    proof (cases "locked (slots d ! i)")
      case True
      then have "g = Again \<and> d' = d" using g n Match by (simp add: dm_get_def)
      then show ?thesis using inv by simp
    next
      case False
      then have "use_slot i (if write then slot_store wr now lba count else slot_load rd wr now lba) d = Inr (g, d')"
        using g n Match by (auto simp: dm_get_def split: if_splits)
      then show ?thesis using i(1) fills_intros [OF n] ot by (intro go) auto
    qed
  next
    case (Oldest t)
    show ?thesis
    proof (cases t)
      case None
      then have "g = Again \<and> d' = d" using g n Oldest by (simp add: dm_get_def)
      then show ?thesis using inv by simp
    next
      case (Some it)
      obtain i ts where it: "it = (i, ts)" by (cases it)
      have i: "i < length (slots d)" and ot: "\<And>j. j < length (slots d) \<Longrightarrow> \<not> slot_match ?al (slots d ! j)"
        using scan_oldest [OF Oldest] Some it by auto
      have "use_slot i (if write then slot_store wr now lba count else slot_reload rd wr now ?al) d = Inr (g, d')"
        using g n Oldest Some it by (auto simp: dm_get_def split: if_splits)
      then show ?thesis using i fills_intros [OF n] ot by (intro go) auto
    qed
  qed
  then show "dm_inv d'" "view d' l = (if write \<and> g \<noteq> Null \<and> g \<noteq> Again \<and> l \<in> sectors lba count then \<lambda>_. 0 else view d l)"
    "g = Slot i \<Longrightarrow> i < length (slots d') \<and> locked (slots d' ! i) \<and>
       (\<forall>k<count. slot_data (slots d' ! i) (lba + of_nat k) = Inr (view d' (lba + of_nat k)))" by blast+
qed

lemma flush_step:
  assumes inv: "dm_inv d" and i: "i < length (slots d)" and f: "slot_flush wr ((slots d ! i)\<lparr>locked := b\<rparr>) (media d) = Inr (r, c', m')"
  shows "dm_inv (d\<lparr>slots := (slots d)[i := c'\<lparr>locked := b'\<rparr>], media := m'\<rparr>)"
    "view (d\<lparr>slots := (slots d)[i := c'\<lparr>locked := b'\<rparr>], media := m'\<rparr>) l = view d l"
proof -
  have ok: "slot_ok (media d) ((slots d ! i)\<lparr>locked := b\<rparr>)" using dm_invD(1) [OF inv i] by (simp add: lock_slot_ok)
  note fs = flush_steady [OF ok f]
  have st: "steady {} (\<lambda>_. 0) (slots d ! i) (media d) (c'\<lparr>locked := b'\<rparr>) m'" using fs(1) by (simp add: lock_slot_ok)
  have own: "valid (c'\<lparr>locked := b'\<rparr>) \<noteq> 0 \<Longrightarrow> \<forall>j<length (slots d). j \<noteq> i \<longrightarrow> \<not> slot_match (lba_base (c'\<lparr>locked := b'\<rparr>)) (slots d ! j)"
    using fs(2,3) inv i by (auto simp: dm_inv_def)
  from table_step [OF inv i st own] show "dm_inv (d\<lparr>slots := (slots d)[i := c'\<lparr>locked := b'\<rparr>], media := m'\<rparr>)"
    "view (d\<lparr>slots := (slots d)[i := c'\<lparr>locked := b'\<rparr>], media := m'\<rparr>) l = view d l" by auto
qed

lemma relax_spec:
  assumes inv: "dm_inv d" and r: "dm_relax wr i flush d = Inr d'"
  shows "dm_inv d'" "view d' l = view d l"
proof -
  have i: "i < length (slots d)" using r by (auto simp: dm_relax_def kassert_eq_Inr)
  have same: "steady {} (\<lambda>_. 0) (slots d ! i) (media d) ((slots d ! i)\<lparr>locked := False\<rparr>) (media d)"
    using dm_invD(1) [OF inv i] by (simp add: steady_def lock_slot_ok)
  have own: "valid ((slots d ! i)\<lparr>locked := False\<rparr>) \<noteq> 0 \<Longrightarrow> \<forall>j<length (slots d). j \<noteq> i \<longrightarrow> \<not> slot_match (lba_base ((slots d ! i)\<lparr>locked := False\<rparr>)) (slots d ! j)"
    using inv i by (auto simp: dm_inv_def)
  note idle = table_step [OF inv i same own]
  have lk: "(slots d ! i)\<lparr>locked := locked (slots d ! i)\<rparr> = slots d ! i" by simp
  show "dm_inv d'" "view d' l = view d l"
    using r i idle flush_step [OF inv i, where b = "locked (slots d ! i)" and wr = wr, unfolded lk]
    by (auto simp: dm_relax_def rbind_eq_Inr split: if_splits)
qed

lemma slot_flush_total: "locked c \<Longrightarrow> \<exists>r c' m'. slot_flush wr c m = Inr (r, c', m')"
  by (cases "flush_loop wr c 9 0 0 m"; cases "fst (flush_loop wr c 9 0 0 m)") (auto simp: slot_flush_def)

lemma flush_from_spec:
  assumes "dm_inv d" "n \<le> length (slots d)"
  shows "\<exists>d'. dm_flush_from wr n d = Inr d' \<and> dm_inv d' \<and> view d' = view d \<and> length (slots d') = length (slots d) \<and>
    (\<forall>i<length (slots d). n \<le> i \<longrightarrow> slots d' ! i = slots d ! i) \<and> map locked (slots d') = map locked (slots d) \<and>
    ((\<forall>l k. wr l k) \<longrightarrow> (\<forall>i<n. \<not> locked (slots d ! i) \<longrightarrow> dirty (slots d' ! i) = 0))"
  using assms(2)
proof (induction n)
  case 0
  then show ?case using assms(1) by simp
next
  case (Suc n)
  then obtain d1 where d1: "dm_flush_from wr n d = Inr d1" "dm_inv d1" "view d1 = view d" "length (slots d1) = length (slots d)"
    "\<forall>i<length (slots d). n \<le> i \<longrightarrow> slots d1 ! i = slots d ! i" "map locked (slots d1) = map locked (slots d)"
    "(\<forall>l k. wr l k) \<longrightarrow> (\<forall>i<n. \<not> locked (slots d ! i) \<longrightarrow> dirty (slots d1 ! i) = 0)" by auto
  have n: "n < length (slots d1)" using Suc.prems d1(4) by simp
  have lk: "locked (slots d1 ! n) = locked (slots d ! n)" using d1(5) Suc.prems by simp
  show ?case
  proof (cases "locked (slots d1 ! n)")
    case True
    then show ?thesis using d1 lk by (auto simp: less_Suc_eq)
  next
    case False
    obtain r c' m' where f: "slot_flush wr ((slots d1 ! n)\<lparr>locked := True\<rparr>) (media d1) = Inr (r, c', m')"
      using slot_flush_total [of "(slots d1 ! n)\<lparr>locked := True\<rparr>" wr "media d1"] by auto
    let ?d = "d1\<lparr>slots := (slots d1)[n := c'\<lparr>locked := False\<rparr>], media := m'\<rparr>"
    note fl = flush_step [OF d1(2) n f, where b' = False]
    have run: "dm_flush_from wr (Suc n) d = Inr ?d" using d1(1) False f by (simp add: Let_def)
    have all: "dirty c' = 0" if "\<forall>l k. wr l k"
    proof -
      have "fst (flush_loop wr c k a h m)" for c k a h m using that by (induction k arbitrary: a h m) auto
      then obtain m2 where "flush_loop wr ((slots d1 ! n)\<lparr>locked := True\<rparr>) 9 0 0 (media d1) = (True, m2)" by (metis prod.collapse)
      then have "r" using f by (auto simp: slot_flush_def split: if_splits)
      then show ?thesis using flush_steady(5) [OF _ f] dm_invD(1) [OF d1(2) n] by (simp add: lock_slot_ok)
    qed
    have len: "(slots d1)[n := c'\<lparr>locked := False\<rparr>] ! i = (if i = n then c'\<lparr>locked := False\<rparr> else slots d1 ! i)" for i using n by simp
    have eq: "locked (slots d1 ! i) = locked (slots d ! i)" if "i < length (slots d)" for i
      using arg_cong [OF d1(6), of "\<lambda>xs. xs ! i"] d1(4) that by simp
    have "map locked ((slots d1)[n := c'\<lparr>locked := False\<rparr>]) = map locked (slots d)"
      using d1(4) n False lk eq by (intro nth_equalityI) (auto simp: nth_list_update)
    moreover have "view ?d = view d" using fl(2) d1(3) by auto
    ultimately show ?thesis using run fl(1) d1(4,5,7) all n by (auto simp: len less_Suc_eq)
  qed
qed

section \<open>Properties\<close>


definition one_slot :: disk where
  "one_slot = \<lparr>slots = [\<lparr>lba_base = 0, valid = 0, dirty = 0, timestamp = 0, locked = False, page = \<lambda>_ _. 0\<rparr>], media = \<lambda>l _. ucast l\<rparr>"

lemma one_slot_inv: "dm_inv one_slot"
  by (simp add: dm_inv_def one_slot_def slot_ok_def)




text \<open>A defect. A sector that is overwritten without its page being read, then written back by the periodic flush, leaves a slot that is partly valid and clean.
  Reading the page again fails the assertion of \<open>load\<close> and stops the kernel.\<close>

theorem overwrite_flush_read_stops:
  "rbind (dm_get rd wr 1 8 1 True one_slot) (\<lambda>(_, d). rbind (dm_relax wr 0 False d) (\<lambda>d.
     rbind (dm_flush (\<lambda>_ _. True) d) (\<lambda>d. dm_get rd wr 2 8 1 False d))) = Inl AssertFailed"
proof -
  let ?c = "\<lparr>lba_base = 8, valid = 1, dirty = 1, timestamp = 1, locked = True, page = zero_sectors 0 1 (\<lambda>_ _. 0)\<rparr> :: dslot"
  have p: "page_lba 8 = 8" "dm_count 8 = 8" by (simp_all add: page_lba_def align_down_def dm_count_eq)
  have w: "dm_get rd wr 1 8 1 True one_slot = Inr (Slot 0, one_slot\<lparr>slots := [?c]\<rparr>)"
    by (simp add: dm_get_def one_slot_def slot_match_def p use_slot_def slot_store_def slot_flush_def)
  have r: "dm_relax wr 0 False (one_slot\<lparr>slots := [?c]\<rparr>) = Inr (one_slot\<lparr>slots := [?c\<lparr>locked := False\<rparr>]\<rparr>)"
    by (simp add: dm_relax_def one_slot_def)
  obtain m' where f: "dm_flush (\<lambda>_ _. True) (one_slot\<lparr>slots := [?c\<lparr>locked := False\<rparr>]\<rparr>) = Inr \<lparr>slots = [?c\<lparr>locked := False, dirty := 0\<rparr>], media = m'\<rparr>"
    by (simp add: dm_flush_def slot_flush_def one_slot_def eval_nat_numeral)
  have l: "dm_get rd wr 2 8 1 False \<lparr>slots = [?c\<lparr>locked := False, dirty := 0\<rparr>], media = m'\<rparr> = Inl AssertFailed"
    by (simp add: dm_get_def slot_match_def p use_slot_def slot_load_def kassert_def)
  show ?thesis using w r f l by simp
qed

text \<open>A second defect: when the controller fails, \<open>get\<close> returns no slot but leaves the one it worked on locked, and nobody is left to unlock it.\<close>

lemma failed_get_keeps_lock:
  assumes inv: "dm_inv d" and g: "dm_get rd wr now lba count write d = Inr (Null, d')"
  shows "\<exists>i<length (slots d). \<not> locked (slots d ! i) \<and> locked (slots d' ! i)"
proof -
  have n: "count \<le> dm_count lba" using g by (auto simp: dm_get_def split: if_splits)
  have go: ?thesis if "i < length (slots d)" "\<not> locked (slots d ! i)" "use_slot i f d = Inr (Null, d')" "fills lba count write f" for i f
  proof -
    have ok: "slot_ok (media d) ((slots d ! i)\<lparr>locked := True\<rparr>)" using dm_invD(1) [OF inv that(1)] by (simp add: lock_slot_ok)
    from that(3) obtain r c' m' where r: "f ((slots d ! i)\<lparr>locked := True\<rparr>) (media d) = Inr (r, c', m')"
      and d': "d' = d\<lparr>slots := (slots d)[i := c'], media := m'\<rparr>" by (auto simp: use_slot_def rbind_eq_Inr)
    have "locked c'" using that(4) ok r unfolding fills_def by blast
    then show ?thesis using that(1,2) d' by auto
  qed
  show ?thesis
  proof (cases "scan_slots (page_lba lba) (slots d) 0 None")
    case (Match i)
    have i: "i < length (slots d)" using scan_match [OF Match] by simp
    have lk: "\<not> locked (slots d ! i)" using g n Match by (auto simp: dm_get_def)
    have "use_slot i (if write then slot_store wr now lba count else slot_load rd wr now lba) d = Inr (Null, d')"
      using g n Match lk by (auto simp: dm_get_def split: if_splits)
    then show ?thesis using fills_intros [OF n] by (intro go [OF i lk]) auto
  next
    case (Oldest t)
    then obtain i ts where t: "t = Some (i, ts)" using g n by (cases t) (auto simp: dm_get_def)
    have i: "i < length (slots d)" "\<not> locked (slots d ! i)" using scan_oldest [OF Oldest] t by auto
    have "use_slot i (if write then slot_store wr now lba count else slot_reload rd wr now (page_lba lba)) d = Inr (Null, d')"
      using g n Oldest t by (auto simp: dm_get_def split: if_splits)
    then show ?thesis using fills_intros [OF n] by (intro go [OF i]) auto
  qed
qed

end
