(* ===== verification/Exfat.thy ===== *)
theory Exfat
  imports Disk_Cache
begin

text \<open>
  The exFAT volume (\<^verbatim>\<open>filesystem/exfat.cpp\<close>, \<^verbatim>\<open>include/exfat.hpp\<close>): the boot record, the file allocation table,
  the allocation bitmap and the cluster chains of files with their cache. The disk is what the sector cache shows (\<open>view\<close> of
  \<open>Disk_Cache\<close>): a function from sector numbers to sectors; \<open>bad\<close> says which sectors cannot be read. Numbers are stored little-endian.
\<close>

type_synonym volume = "qword \<Rightarrow> sector"

section \<open>Little-endian numbers in a sector\<close>

primrec get_le :: "nat \<Rightarrow> sector \<Rightarrow> nat \<Rightarrow> nat" where
  "get_le 0 f off = 0"
| "get_le (Suc n) f off = unat (f off) + 256 * get_le n f (Suc off)"

definition put_le :: "nat \<Rightarrow> nat \<Rightarrow> nat \<Rightarrow> sector \<Rightarrow> sector" where
  "put_le n off v f = (\<lambda>a. if off \<le> a \<and> a < off + n then of_nat (v div 256 ^ (a - off)) else f a)"

lemma get_put_le: "get_le n (put_le n off v f) off = v mod 256 ^ n"
proof -
  have "get_le k (put_le n off v f) (off + (n - k)) = v div 256 ^ (n - k) mod 256 ^ k" if "k \<le> n" for k
    using that
  proof (induction k)
    case (Suc k)
    define j where "j = n - Suc k"
    have j: "n - k = Suc j" "j < n" using Suc.prems by (auto simp: j_def)
    have b: "unat (put_le n off v f (off + j)) = v div 256 ^ j mod 256" using j(2) by (simp add: put_le_def unat_of_nat)
    have "v div 256 ^ j mod 256 + 256 * (v div 256 ^ Suc j mod 256 ^ k) = v div 256 ^ j mod 256 ^ Suc k"
      by (simp add: mod_mult2_eq div_mult2_eq [symmetric] mult.commute)
    then show ?case using Suc j b by (simp add: j_def [symmetric])
  qed simp
  from this [of n] show ?thesis by simp
qed

lemma get_put_le_other: "off + n \<le> i \<or> i + k \<le> off \<Longrightarrow> get_le k (put_le n off v f) i = get_le k f i"
  by (induction k arbitrary: i) (auto simp: put_le_def)

lemma get_le_bound: "get_le n f off < 256 ^ n"
proof (induction n arbitrary: off)
  case (Suc n)
  have "unat (f off) < 2 ^ LENGTH(8)" by (rule unsigned_less)
  then show ?case using Suc [of "Suc off"] by simp
qed simp

section \<open>The volume\<close>

record exfat =
  fs_base :: qword
  fs_top :: qword
  fs_table :: qword
  fs_bitmap :: qword
  fs_heap :: qword
  fs_cluster_count :: dword
  fs_cluster_shift :: byte
  fs_volume_state :: byte
  fs_flags :: hword
  fs_bmp_last :: dword

definition element_per_sector :: dword where "element_per_sector = 128"
definition bit_per_sector :: dword where "bit_per_sector = 4096"
definition record_size :: dword where "record_size = 0x20"

definition fs_cluster_size :: "exfat \<Rightarrow> dword" where
  "fs_cluster_size fs = push_bit (unat (fs_cluster_shift fs)) 1"

definition lba_of_fat :: "exfat \<Rightarrow> dword \<Rightarrow> qword" where
  "lba_of_fat fs sector =
     (if sector < align_up (fs_cluster_count fs + 2) element_per_sector div element_per_sector
      then fs_table fs + ucast sector else 0)"

definition lba_of_cluster :: "exfat \<Rightarrow> dword \<Rightarrow> qword res" where
  "lba_of_cluster fs cluster = kassert (2 \<le> cluster \<and> cluster < 0xFFFFFFF7)
     (if cluster - 2 \<ge> fs_cluster_count fs then Inr 0
      else Inr (fs_heap fs + ucast (cluster - 2) * (ucast (fs_cluster_size fs) div 0x200)))"

section \<open>The file allocation table\<close>

text \<open>\<open>fr_slot\<close> is the slot pointer of the reader: the sector it stands for and whether the reader still holds the slot.
  Giving a slot up twice stops the kernel.\<close>

record fat_reader =
  fr_sector :: dword
  fr_lba :: qword
  fr_slot :: "(qword \<times> bool) option"

definition fr_new :: fat_reader where "fr_new = \<lparr>fr_sector = 0, fr_lba = 0, fr_slot = None\<rparr>"

definition fr_relax :: "fat_reader \<Rightarrow> fat_reader res" where
  "fr_relax r = (case fr_slot r of None \<Rightarrow> Inr r
     | Some (l, held) \<Rightarrow> if held then Inr (r\<lparr>fr_slot := Some (l, False)\<rparr>) else bugcheck ''releasing free shared lock'')"

definition fat_load :: "exfat \<Rightarrow> (qword \<Rightarrow> bool) \<Rightarrow> dword \<Rightarrow> fat_reader \<Rightarrow> (bool \<times> fat_reader) res" where
  "fat_load fs bad cluster r =
     (let sector = cluster div element_per_sector in
      if fr_slot r = None \<or> fr_sector r \<noteq> sector then
        rbind (fr_relax r) (\<lambda>r.
          let r = r\<lparr>fr_lba := lba_of_fat fs sector\<rparr> in
          if fr_lba r = 0 then Inr (False, r)
          else if bad (fr_lba r) then Inr (False, r\<lparr>fr_slot := None\<rparr>)
          else Inr (True, r\<lparr>fr_slot := Some (fr_lba r, True), fr_sector := sector\<rparr>))
      else Inr (True, r))"

definition fat_offset :: "dword \<Rightarrow> nat" where "fat_offset cluster = 4 * unat (cluster mod element_per_sector)"

definition fat_get :: "exfat \<Rightarrow> (qword \<Rightarrow> bool) \<Rightarrow> volume \<Rightarrow> dword \<Rightarrow> fat_reader \<Rightarrow> (dword \<times> fat_reader) res" where
  "fat_get fs bad m cluster r = kassert (2 \<le> cluster)
     (rbind (fat_load fs bad cluster r) (\<lambda>(ok, r).
        Inr (if ok then of_nat (get_le 4 (m (fr_lba r)) (fat_offset cluster)) else 0, r)))"

definition fat_put :: "exfat \<Rightarrow> (qword \<Rightarrow> bool) \<Rightarrow> dword \<Rightarrow> dword \<Rightarrow> volume \<Rightarrow> fat_reader \<Rightarrow> (bool \<times> volume \<times> fat_reader) res" where
  "fat_put fs bad tail next m r = kassert (2 \<le> next)
     (rbind (fat_load fs bad next r) (\<lambda>(ok, r).
        if \<not> ok then Inr (False, m, r)
        else let m = m(fr_lba r := put_le 4 (fat_offset next) 0xFFFFFFFF (m (fr_lba r))) in
          if tail = 0 then Inr (True, m, r)
          else kassert (2 \<le> tail) (rbind (fat_load fs bad tail r) (\<lambda>(ok, r).
            if \<not> ok then Inr (False, m, r)
            else if get_le 4 (m (fr_lba r)) (fat_offset tail) < 0xFFFFFFF8 then Inr (False, m, r)
            else Inr (True, m(fr_lba r := put_le 4 (fat_offset tail) (unat next) (m (fr_lba r))), r)))))"

text \<open>The entry of a cluster, which the reader returns however it got to the sector.\<close>

definition fat_entry :: "exfat \<Rightarrow> (qword \<Rightarrow> bool) \<Rightarrow> volume \<Rightarrow> dword \<Rightarrow> dword" where
  "fat_entry fs bad m cluster =
     (let lba = lba_of_fat fs (cluster div element_per_sector) in
      if lba = 0 \<or> bad lba then 0 else of_nat (get_le 4 (m lba) (fat_offset cluster)))"

text \<open>A reader that holds what its fields say, which every successful sequence of reads keeps.\<close>

definition fr_ok :: "exfat \<Rightarrow> (qword \<Rightarrow> bool) \<Rightarrow> fat_reader \<Rightarrow> bool" where
  "fr_ok fs bad r \<longleftrightarrow> (case fr_slot r of None \<Rightarrow> True
     | Some (l, held) \<Rightarrow> held \<and> l = fr_lba r \<and> l = lba_of_fat fs (fr_sector r) \<and> l \<noteq> 0 \<and> \<not> bad l)"

definition in_table :: "exfat \<Rightarrow> dword \<Rightarrow> bool" where
  "in_table fs cluster \<longleftrightarrow> 2 \<le> cluster \<and> lba_of_fat fs (cluster div element_per_sector) \<noteq> 0"

lemma fr_new_ok [simp]: "fr_ok fs bad fr_new"
  by (simp add: fr_ok_def fr_new_def)

lemma fat_load_ok:
  assumes "fr_ok fs bad r" "in_table fs cluster"
  shows "\<exists>r'. fat_load fs bad cluster r = Inr (\<not> bad (lba_of_fat fs (cluster div element_per_sector)), r') \<and> fr_ok fs bad r' \<and>
    (\<not> bad (lba_of_fat fs (cluster div element_per_sector)) \<longrightarrow> fr_lba r' = lba_of_fat fs (cluster div element_per_sector))"
  using assms by (auto simp: fat_load_def fr_relax_def fr_ok_def in_table_def Let_def split: option.splits)

lemma fat_get_ok:
  assumes "fr_ok fs bad r" "in_table fs cluster"
  shows "\<exists>r'. fat_get fs bad m cluster r = Inr (fat_entry fs bad m cluster, r') \<and> fr_ok fs bad r'"
proof -
  from fat_load_ok [OF assms] obtain r' where r': "fat_load fs bad cluster r = Inr (\<not> bad (lba_of_fat fs (cluster div element_per_sector)), r')"
    "fr_ok fs bad r'" "\<not> bad (lba_of_fat fs (cluster div element_per_sector)) \<longrightarrow> fr_lba r' = lba_of_fat fs (cluster div element_per_sector)" by blast
  then show ?thesis using assms(2) by (auto simp: fat_get_def fat_entry_def in_table_def Let_def)
qed

lemma fr_relax_ok: "fr_ok fs bad r \<Longrightarrow> \<exists>r'. fr_relax r = Inr r'"
  by (auto simp: fr_relax_def fr_ok_def split: option.splits)

section \<open>Cluster chains\<close>

text \<open>The lines of the cache in descending order of their index, and the same lines in the order of their last use; an iterator to a line is
  its index.\<close>

record chain =
  ch_first :: dword
  ch_linear :: bool
  ch_lines :: "(dword \<times> dword) list"
  ch_lru :: "dword list"

definition chain_limit :: nat where "chain_limit = 4"

definition chain_new :: "dword \<Rightarrow> bool \<Rightarrow> chain" where
  "chain_new head l = \<lparr>ch_first = head, ch_linear = l, ch_lines = [], ch_lru = []\<rparr>"

definition tail_mark :: dword where "tail_mark = 0xFFFFFFF8"

primrec chain_walk :: "exfat \<Rightarrow> (qword \<Rightarrow> bool) \<Rightarrow> volume \<Rightarrow> nat \<Rightarrow> dword \<Rightarrow> fat_reader \<Rightarrow> (dword option \<times> fat_reader) res" where
  "chain_walk fs bad m 0 cluster r = Inr (Some cluster, r)"
| "chain_walk fs bad m (Suc n) cluster r = rbind (fat_get fs bad m cluster r) (\<lambda>(next, r).
     if next = 0 \<or> next \<ge> tail_mark then Inr (None, r) else chain_walk fs bad m n next r)"

fun nearest_line :: "dword \<Rightarrow> dword \<times> dword \<Rightarrow> (dword \<times> dword) list \<Rightarrow> dword \<times> dword" where
  "nearest_line index start [] = start"
| "nearest_line index start (l # ls) = (if fst l < index then l else nearest_line index start ls)"

fun insert_line :: "dword \<times> dword \<Rightarrow> (dword \<times> dword) list \<Rightarrow> (dword \<times> dword) list" where
  "insert_line x [] = [x]"
| "insert_line x (l # ls) = (if fst l < fst x then x # l # ls else l # insert_line x ls)"

primrec evict :: "nat \<Rightarrow> chain \<Rightarrow> chain" where
  "evict 0 ch = ch"
| "evict (Suc n) ch = (if length (ch_lru ch) > chain_limit
     then evict n (ch\<lparr>ch_lines := filter (\<lambda>l. fst l \<noteq> last (ch_lru ch)) (ch_lines ch), ch_lru := butlast (ch_lru ch)\<rparr>) else ch)"

text \<open>The assertion of the search loop, on the lines up to the one it stops at, and the check of the lines in the test build.\<close>

fun lines_visited :: "dword \<Rightarrow> (dword \<times> dword) list \<Rightarrow> bool" where
  "lines_visited index [] = True"
| "lines_visited index (l # ls) = (fst l \<noteq> 0 \<and> (fst l < index \<or> lines_visited index ls))"

fun lines_ok :: "(dword \<times> dword) list \<Rightarrow> bool" where
  "lines_ok [] = True"
| "lines_ok [l] = (fst l \<noteq> 0)"
| "lines_ok (l # k # ls) = (fst l \<noteq> 0 \<and> fst k < fst l \<and> lines_ok (k # ls))"

definition chain_get :: "exfat \<Rightarrow> (qword \<Rightarrow> bool) \<Rightarrow> volume \<Rightarrow> dword \<Rightarrow> chain \<Rightarrow> (dword \<times> chain) res" where
  "chain_get fs bad m index ch =
     (if ch_first ch = 0 then Inr (0, ch)
      else if ch_linear ch then Inr (ch_first ch + index, ch)
      else if index = 0 then Inr (ch_first ch, ch)
      else if index \<in> set (ch_lru ch) then
        (case map_of (ch_lines ch) index of None \<Rightarrow> bugcheck ''dangling iterator''
         | Some cluster \<Rightarrow> Inr (cluster, ch\<lparr>ch_lru := index # remove1 index (ch_lru ch)\<rparr>))
      else kassert (lines_visited index (ch_lines ch))
        (let (i, c) = nearest_line index (0, ch_first ch) (ch_lines ch) in
         rbind (chain_walk fs bad m (unat index - unat i) c fr_new) (\<lambda>(res, r).
           rbind (fr_relax r) (\<lambda>_. case res of None \<Rightarrow> Inr (0, ch)
             | Some cluster \<Rightarrow>
                 let ch = ch\<lparr>ch_lines := insert_line (index, cluster) (ch_lines ch), ch_lru := index # ch_lru ch\<rparr> in
                 kassert (lines_ok (ch_lines ch))
                   (let ch = evict (length (ch_lru ch)) ch in
                    kassert (length (ch_lru ch) = length (ch_lines ch)) (Inr (cluster, ch)))))))"

section \<open>The chain the cache stands for\<close>

primrec chain_at :: "exfat \<Rightarrow> (qword \<Rightarrow> bool) \<Rightarrow> volume \<Rightarrow> dword \<Rightarrow> nat \<Rightarrow> dword option" where
  "chain_at fs bad m first 0 = Some first"
| "chain_at fs bad m first (Suc i) = (case chain_at fs bad m first i of None \<Rightarrow> None
     | Some c \<Rightarrow> let next = fat_entry fs bad m c in if next = 0 \<or> next \<ge> tail_mark then None else Some next)"

definition chain_wf :: "exfat \<Rightarrow> (qword \<Rightarrow> bool) \<Rightarrow> volume \<Rightarrow> dword \<Rightarrow> bool" where
  "chain_wf fs bad m first \<longleftrightarrow> (\<forall>i c. chain_at fs bad m first i = Some c \<longrightarrow> in_table fs c)"

definition lines_inv :: "exfat \<Rightarrow> (qword \<Rightarrow> bool) \<Rightarrow> volume \<Rightarrow> chain \<Rightarrow> bool" where
  "lines_inv fs bad m ch \<longleftrightarrow> sorted_wrt (\<lambda>a b. fst b < fst a) (ch_lines ch) \<and> (\<forall>l\<in>set (ch_lines ch). fst l \<noteq> 0) \<and>
     distinct (ch_lru ch) \<and> set (ch_lru ch) = fst ` set (ch_lines ch) \<and>
     (\<forall>(i, c)\<in>set (ch_lines ch). chain_at fs bad m (ch_first ch) (unat i) = Some c)"

definition chain_inv :: "exfat \<Rightarrow> (qword \<Rightarrow> bool) \<Rightarrow> volume \<Rightarrow> chain \<Rightarrow> bool" where
  "chain_inv fs bad m ch \<longleftrightarrow> lines_inv fs bad m ch \<and> length (ch_lru ch) \<le> chain_limit"

lemma chain_at_None: "chain_at fs bad m first i = None \<Longrightarrow> chain_at fs bad m first (i + n) = None"
  by (induction n) auto

lemma chain_walk_ok:
  assumes "chain_wf fs bad m first" "chain_at fs bad m first i = Some c" "fr_ok fs bad r"
  shows "\<exists>r'. chain_walk fs bad m n c r = Inr (chain_at fs bad m first (i + n), r') \<and> fr_ok fs bad r'"
  using assms(2,3)
proof (induction n arbitrary: i c r)
  case 0
  then show ?case by simp
next
  case (Suc n)
  have "in_table fs c" using assms(1) Suc.prems(1) by (auto simp: chain_wf_def)
  from fat_get_ok [OF Suc.prems(2) this, of m] obtain r1 where
    r1: "fat_get fs bad m c r = Inr (fat_entry fs bad m c, r1)" "fr_ok fs bad r1" by blast
  show ?case
  proof (cases "fat_entry fs bad m c = 0 \<or> tail_mark \<le> fat_entry fs bad m c")
    case True
    then have "chain_at fs bad m first (Suc i) = None" using Suc.prems(1) by (simp add: Let_def)
    then have "chain_at fs bad m first (Suc i + n) = None" by (rule chain_at_None)
    then show ?thesis using True r1 by simp
  next
    case False
    then have "chain_at fs bad m first (Suc i) = Some (fat_entry fs bad m c)" using Suc.prems(1) by (simp add: Let_def)
    from Suc.IH [OF this r1(2)] False r1(1) show ?thesis by simp
  qed
qed

lemma nearest_line_cases: "nearest_line index start ls = start \<or> (nearest_line index start ls \<in> set ls \<and> fst (nearest_line index start ls) < index)"
  by (induction ls) auto

lemma insert_line_set [simp]: "set (insert_line x ls) = insert x (set ls)"
  by (induction ls) auto

lemma insert_line_sorted:
  "sorted_wrt (\<lambda>a b. fst b < fst a) ls \<Longrightarrow> fst x \<notin> fst ` set ls \<Longrightarrow> sorted_wrt (\<lambda>a b. fst b < fst a) (insert_line x ls)"
  for ls :: "(dword \<times> dword) list"
proof (induction ls)
  case (Cons l ls)
  have "fst x < fst l \<or> fst l < fst x" using Cons.prems(2) by (metis image_eqI insert_iff linorder_neqE list.set(2))
  then show ?case using Cons by auto
qed simp

lemma lines_ok_sorted: "sorted_wrt (\<lambda>a b. fst b < fst a) ls \<Longrightarrow> \<forall>l\<in>set ls. fst l \<noteq> 0 \<Longrightarrow> lines_ok ls"
  by (induction ls rule: lines_ok.induct) auto

lemma lines_visited_ok: "\<forall>l\<in>set ls. fst l \<noteq> 0 \<Longrightarrow> lines_visited index ls"
  by (induction ls) auto

lemma sorted_lines_distinct: "sorted_wrt (\<lambda>a b. fst b < fst a) ls \<Longrightarrow> distinct (map fst ls)" for ls :: "(dword \<times> dword) list"
  by (induction ls) auto

lemma lines_inv_length:
  assumes "lines_inv fs bad m ch"
  shows "length (ch_lru ch) = length (ch_lines ch)"
proof -
  have "length (ch_lru ch) = card (set (map fst (ch_lines ch)))" using assms by (simp add: lines_inv_def distinct_card [symmetric])
  moreover have "distinct (map fst (ch_lines ch))" using assms sorted_lines_distinct by (simp add: lines_inv_def)
  then have "card (set (map fst (ch_lines ch))) = length (ch_lines ch)" using distinct_card [of "map fst (ch_lines ch)"] by simp
  ultimately show ?thesis by simp
qed

lemma evict_inv:
  "lines_inv fs bad m ch \<Longrightarrow> length (ch_lru ch) \<le> chain_limit + n \<Longrightarrow>
     chain_inv fs bad m (evict n ch) \<and> ch_first (evict n ch) = ch_first ch \<and> ch_linear (evict n ch) = ch_linear ch"
proof (induction n arbitrary: ch)
  case 0
  then show ?case by (simp add: chain_inv_def)
next
  case (Suc n)
  show ?case
  proof (cases "length (ch_lru ch) > chain_limit")
    case True
    let ?ch = "ch\<lparr>ch_lines := filter (\<lambda>l. fst l \<noteq> last (ch_lru ch)) (ch_lines ch), ch_lru := butlast (ch_lru ch)\<rparr>"
    obtain xs x where lru: "ch_lru ch = xs @ [x]" using True by (cases "ch_lru ch" rule: rev_cases) auto
    have "set xs = fst ` set (ch_lines ch) - {x}" using Suc.prems(1) lru by (auto simp: lines_inv_def)
    then have "lines_inv fs bad m ?ch" using Suc.prems(1) lru by (auto simp: lines_inv_def sorted_wrt_filter)
    moreover have "length (ch_lru ?ch) \<le> chain_limit + n" using Suc.prems(2) by simp
    ultimately show ?thesis using Suc.IH True by simp
  next
    case False
    then show ?thesis using Suc.prems(1) by (simp add: chain_inv_def)
  qed
qed

definition chain_ref :: "exfat \<Rightarrow> (qword \<Rightarrow> bool) \<Rightarrow> volume \<Rightarrow> dword \<Rightarrow> chain \<Rightarrow> dword" where
  "chain_ref fs bad m index ch =
     (if ch_first ch = 0 then 0 else if ch_linear ch then ch_first ch + index
      else case chain_at fs bad m (ch_first ch) (unat index) of None \<Rightarrow> 0 | Some c \<Rightarrow> c)"

lemma chain_get_ok:
  assumes inv: "chain_inv fs bad m ch" and wfc: "chain_wf fs bad m (ch_first ch)"
  shows "\<exists>ch'. chain_get fs bad m index ch = Inr (chain_ref fs bad m index ch, ch') \<and> chain_inv fs bad m ch' \<and>
    ch_first ch' = ch_first ch \<and> ch_linear ch' = ch_linear ch"
proof -
  have li: "lines_inv fs bad m ch" and len: "length (ch_lru ch) \<le> chain_limit" using inv by (auto simp: chain_inv_def)
  have so: "sorted_wrt (\<lambda>a b. fst b < fst a) (ch_lines ch)" and nz: "\<forall>l\<in>set (ch_lines ch). fst l \<noteq> 0" and di: "distinct (ch_lru ch)"
    and se: "set (ch_lru ch) = fst ` set (ch_lines ch)" and at: "\<forall>(i, c)\<in>set (ch_lines ch). chain_at fs bad m (ch_first ch) (unat i) = Some c"
    using li by (auto simp: lines_inv_def)
  show ?thesis
  proof (cases "ch_first ch = 0 \<or> ch_linear ch \<or> index = 0")
    case True
    then show ?thesis using inv by (auto simp: chain_get_def chain_ref_def)
  next
    case False
    show ?thesis
    proof (cases "index \<in> set (ch_lru ch)")
      case True
      then obtain c where c: "(index, c) \<in> set (ch_lines ch)" using se by auto
      then have "map_of (ch_lines ch) index = Some c" using sorted_lines_distinct [OF so] by simp
      moreover have "chain_at fs bad m (ch_first ch) (unat index) = Some c" using at c by auto
      moreover have "chain_inv fs bad m (ch\<lparr>ch_lru := index # remove1 index (ch_lru ch)\<rparr>)"
      proof -
        have "Suc (length (ch_lru ch) - 1) = length (ch_lru ch)" using length_pos_if_in_set [OF True] by simp
        moreover have "lines_inv fs bad m (ch\<lparr>ch_lru := index # remove1 index (ch_lru ch)\<rparr>)"
          using li True di by (simp add: lines_inv_def insert_absorb)
        ultimately show ?thesis using len True by (simp add: chain_inv_def length_remove1)
      qed
      ultimately show ?thesis using False True by (simp add: chain_get_def chain_ref_def)
    next
      case miss: False
      obtain i c where ic: "nearest_line index (0, ch_first ch) (ch_lines ch) = (i, c)" by (meson prod.exhaust)
      have start: "chain_at fs bad m (ch_first ch) (unat i) = Some c \<and> i < index"
        using nearest_line_cases [of index "(0, ch_first ch)" "ch_lines ch"] ic at False by (auto simp: word_neq_0_conv)
      obtain r where r: "chain_walk fs bad m (unat index - unat i) c fr_new = Inr (chain_at fs bad m (ch_first ch) (unat i + (unat index - unat i)), r)"
        "fr_ok fs bad r" using chain_walk_ok [OF wfc conjunct1 [OF start] fr_new_ok] by blast
      have sum: "unat i + (unat index - unat i) = unat index" using start by (simp add: word_less_nat_alt)
      obtain r' where r': "fr_relax r = Inr r'" using fr_relax_ok [OF r(2)] by blast
      note pre = False miss lines_visited_ok [OF nz, of index] ic r(1) r'
      show ?thesis
      proof (cases "chain_at fs bad m (ch_first ch) (unat index)")
        case None
        then show ?thesis using pre sum inv by (simp add: chain_get_def chain_ref_def)
      next
        case (Some cl)
        let ?ch = "ch\<lparr>ch_lines := insert_line (index, cl) (ch_lines ch), ch_lru := index # ch_lru ch\<rparr>"
        have new: "index \<notin> fst ` set (ch_lines ch)" using miss se by simp
        have l1: "lines_inv fs bad m ?ch"
          using so nz di se at new Some False miss insert_line_sorted [OF so, of "(index, cl)"] by (auto simp: lines_inv_def)
        have lo: "lines_ok (ch_lines ?ch)" using l1 by (intro lines_ok_sorted) (auto simp: lines_inv_def)
        note ev = evict_inv [OF l1, of "length (ch_lru ?ch)"]
        have le: "length (ch_lru (evict (length (ch_lru ?ch)) ?ch)) = length (ch_lines (evict (length (ch_lru ?ch)) ?ch))"
          using ev by (intro lines_inv_length [of fs bad m]) (simp add: chain_inv_def del: evict.simps)
        then show ?thesis using pre sum Some lo ev by (simp add: chain_get_def chain_ref_def Let_def del: evict.simps)
      qed
    qed
  qed
qed

section \<open>The allocation bitmap\<close>

text \<open>Positions stay below \<open>cluster_count\<close>, so they are natural numbers; bit \<open>pos\<close> of the array of 64-bit words of a sector is
  bit \<open>pos mod 8\<close> of byte \<open>pos div 8\<close>.\<close>

definition bmp_lba :: "exfat \<Rightarrow> nat \<Rightarrow> qword" where "bmp_lba fs pos = fs_bitmap fs + of_nat (pos div 4096)"

definition bmp_bit :: "exfat \<Rightarrow> volume \<Rightarrow> nat \<Rightarrow> bool" where
  "bmp_bit fs m pos = bit (m (bmp_lba fs pos) (pos mod 4096 div 8)) (pos mod 8)"

definition bmp_set :: "exfat \<Rightarrow> nat \<Rightarrow> bool \<Rightarrow> volume \<Rightarrow> volume" where
  "bmp_set fs pos v m = (let l = bmp_lba fs pos; k = pos mod 4096 div 8 in
     m(l := (m l)(k := if v then set_bit (pos mod 8) (m l k) else unset_bit (pos mod 8) (m l k))))"

abbreviation clusters :: "exfat \<Rightarrow> nat" where "clusters fs \<equiv> unat (fs_cluster_count fs)"

text \<open>The inner loop up to the end of the sector: whether a free cluster was found, and the position.\<close>

primrec alloc_scan :: "exfat \<Rightarrow> volume \<Rightarrow> nat \<Rightarrow> nat \<Rightarrow> bool \<times> nat" where
  "alloc_scan fs m 0 pos = (False, pos)"
| "alloc_scan fs m (Suc n) pos =
     (if pos \<ge> clusters fs then (False, pos)
      else if \<not> bmp_bit fs m pos then (True, pos)
      else alloc_scan fs m n (Suc pos))"

primrec alloc_loop :: "exfat \<Rightarrow> (qword \<Rightarrow> bool) \<Rightarrow> volume \<Rightarrow> nat \<Rightarrow> nat \<Rightarrow> nat \<Rightarrow> nat option res" where
  "alloc_loop fs bad m initial 0 pos = Inl OutOfFuel"
| "alloc_loop fs bad m initial (Suc n) pos =
     (if bad (bmp_lba fs pos) then Inr None
      else case alloc_scan fs m (4096 - pos mod 4096) pos of
        (True, p) \<Rightarrow> Inr (Some p)
      | (False, p) \<Rightarrow>
          let p = (if p \<ge> clusters fs then 0 else p) in
          if p \<noteq> initial then alloc_loop fs bad m initial n p else Inr None)"

definition alloc_get :: "exfat \<Rightarrow> (qword \<Rightarrow> bool) \<Rightarrow> volume \<Rightarrow> (dword \<times> exfat \<times> volume) res" where
  "alloc_get fs bad m =
     (let pos = unat (fs_bmp_last fs) in
      rbind (alloc_loop fs bad m (pos div 4096 * 4096) (clusters fs div 4096 + 3) pos) (\<lambda>r.
        case r of None \<Rightarrow> Inr (0, fs, m)
        | Some p \<Rightarrow> Inr (of_nat p + 2, fs\<lparr>fs_bmp_last := of_nat p\<rparr>, bmp_set fs p True m)))"

definition alloc_put :: "exfat \<Rightarrow> (qword \<Rightarrow> bool) \<Rightarrow> dword \<Rightarrow> volume \<Rightarrow> (bool \<times> volume) res" where
  "alloc_put fs bad cluster m = kassert (2 \<le> cluster)
     (let pos = unat (cluster - 2) in
      if bad (bmp_lba fs pos) then Inr (False, m)
      else if bmp_bit fs m pos then Inr (True, bmp_set fs pos False m)
      else Inr (False, m))"

lemma byte_split: "x div 8 = 512 * (x div 4096) + x mod 4096 div 8" for x :: nat
proof -
  have "x div 8 = (8 * (512 * (x div 4096)) + x mod 4096) div 8" by simp
  also have "\<dots> = 512 * (x div 4096) + x mod 4096 div 8" by (simp only: div_mult_self4)
  finally show ?thesis .
qed

lemma bmp_lba_inj:
  assumes "p < 2 ^ 32" "q < 2 ^ 32" "bmp_lba fs p = bmp_lba fs q"
  shows "p div 4096 = q div 4096"
proof -
  have "(of_nat (p div 4096) :: qword) = of_nat (q div 4096)" using assms(3) by (simp add: bmp_lba_def)
  then have "unat (of_nat (p div 4096) :: qword) = unat (of_nat (q div 4096) :: qword)" by (rule arg_cong)
  moreover have "p div 4096 < 2 ^ 64" "q div 4096 < 2 ^ 64" using assms(1,2) by (simp_all add: less_le_trans [OF div_le_dividend [THEN le_less_trans]])
  ultimately show ?thesis by (simp add: unat_of_nat)
qed

lemma bmp_set_bit:
  assumes "p < 2 ^ 32" "q < 2 ^ 32"
  shows "bmp_bit fs (bmp_set fs p v m) q = (if q = p then v else bmp_bit fs m q)"
proof (cases "bmp_lba fs p = bmp_lba fs q \<and> p mod 4096 div 8 = q mod 4096 div 8")
  case True
  have "p div 8 = q div 8" using True bmp_lba_inj [OF assms conjunct1 [OF True]] byte_split [of p] byte_split [of q] by simp
  then have same: "p mod 8 = q mod 8 \<longleftrightarrow> q = p" by (metis div_mult_mod_eq)
  let ?x = "m (bmp_lba fs q) (q mod 4096 div 8)"
  have "bmp_bit fs (bmp_set fs p v m) q = bit (if v then set_bit (p mod 8) ?x else unset_bit (p mod 8) ?x) (q mod 8)"
    using True by (simp add: bmp_bit_def bmp_set_def Let_def)
  also have "\<dots> = (if p mod 8 = q mod 8 then v else bit ?x (q mod 8))"
    by (simp add: bit_set_bit_iff bit_unset_bit_iff possible_bit_word)
  finally show ?thesis using same by (simp add: bmp_bit_def)
next
  case False
  then show ?thesis by (auto simp: bmp_bit_def bmp_set_def Let_def)
qed

lemma alloc_scan_spec:
  "alloc_scan fs m n pos = (b, p) \<Longrightarrow> (\<forall>i. pos \<le> i \<and> i < p \<longrightarrow> bmp_bit fs m i) \<and> pos \<le> p \<and> p \<le> pos + n \<and>
     (if b then p < clusters fs \<and> \<not> bmp_bit fs m p else p = pos + n \<or> clusters fs \<le> p)"
proof (induction n arbitrary: pos)
  case (Suc n)
  show ?case
  proof (cases "clusters fs \<le> pos \<or> \<not> bmp_bit fs m pos")
    case True
    then show ?thesis using Suc.prems by (auto split: if_splits)
  next
    case False
    then have "alloc_scan fs m n (Suc pos) = (b, p)" using Suc.prems by simp
    note ih = Suc.IH [OF this]
    have "bmp_bit fs m i" if "pos \<le> i" "i < p" for i using ih False that by (cases "i = pos") auto
    then show ?thesis using ih by auto
  qed
qed auto

definition found_or_full :: "exfat \<Rightarrow> (qword \<Rightarrow> bool) \<Rightarrow> volume \<Rightarrow> nat option \<Rightarrow> (nat \<Rightarrow> bool) \<Rightarrow> bool" where
  "found_or_full fs bad m r S \<longleftrightarrow> (case r of Some p \<Rightarrow> p < clusters fs \<and> \<not> bmp_bit fs m p
     | None \<Rightarrow> (\<exists>pos. bad (bmp_lba fs pos)) \<or> (\<forall>i. S i \<longrightarrow> bmp_bit fs m i))"

text \<open>After the wrap: the sectors before the one the search started in.\<close>

lemma alloc_loop_low:
  assumes "initial = 4096 * s" "initial < clusters fs" "pos = 4096 * k" "k < s" "s - k \<le> n"
  shows "\<exists>r. alloc_loop fs bad m initial n pos = Inr r \<and> found_or_full fs bad m r (\<lambda>i. pos \<le> i \<and> i < initial)"
  using assms(3,4,5)
proof (induction n arbitrary: pos k)
  case (Suc n)
  obtain b p where sc: "alloc_scan fs m 4096 pos = (b, p)" by (meson prod.exhaust)
  note sp = alloc_scan_spec [OF sc]
  have md: "4096 - pos mod 4096 = 4096" using Suc.prems(1) by simp
  have up: "pos + 4096 \<le> initial" using Suc.prems assms(1) by simp
  show ?case
  proof (cases "bad (bmp_lba fs pos)")
    case True
    then show ?thesis by (auto simp: found_or_full_def)
  next
    case good: False
    show ?thesis
    proof (cases b)
      case True
      then show ?thesis using sc sp md good by (auto simp: found_or_full_def)
    next
      case nb: False
      then have p: "p = pos + 4096" using sp up assms(2) by auto
      have full: "\<forall>i. pos \<le> i \<and> i < pos + 4096 \<longrightarrow> bmp_bit fs m i" using sp p by simp
      show ?thesis
      proof (cases "p = initial")
        case True
        then show ?thesis using sc md good nb p assms(2) full by (auto simp: found_or_full_def Let_def)
      next
        case False
        have k: "p = 4096 * Suc k" "Suc k < s" "s - Suc k \<le> n" using p Suc.prems assms(1) False by auto
        from Suc.IH [OF k] obtain r where r: "alloc_loop fs bad m initial n p = Inr r" "found_or_full fs bad m r (\<lambda>i. p \<le> i \<and> i < initial)" by blast
        have "found_or_full fs bad m r (\<lambda>i. pos \<le> i \<and> i < initial)"
          using r(2) full p by (auto simp: found_or_full_def split: option.splits) (metis not_le)
        then show ?thesis using sc md good nb False r(1) up p assms(2) by (auto simp: Let_def)
      qed
    qed
  qed
qed simp

lemma alloc_loop_high:
  assumes i: "initial = 4096 * s" "initial < clusters fs"
  shows "initial \<le> pos \<Longrightarrow> pos < clusters fs \<Longrightarrow> clusters fs div 4096 + s + 2 \<le> n + pos div 4096 \<Longrightarrow>
    \<exists>r. alloc_loop fs bad m initial n pos = Inr r \<and> found_or_full fs bad m r (\<lambda>i. (pos \<le> i \<and> i < clusters fs) \<or> i < initial)"
proof (induction n arbitrary: pos)
  case 0
  have "pos div 4096 \<le> clusters fs div 4096" using 0(2) by (intro div_le_mono) simp
  then show ?case using 0(3) by simp
next
  case (Suc n)
  obtain b p where sc: "alloc_scan fs m (4096 - pos mod 4096) pos = (b, p)" by (meson prod.exhaust)
  note sp = alloc_scan_spec [OF sc]
  show ?case
  proof (cases "bad (bmp_lba fs pos) \<or> b")
    case True
    then show ?thesis using sc sp by (cases "bad (bmp_lba fs pos)") (auto simp: found_or_full_def)
  next
    case False
    show ?thesis
    proof (cases "clusters fs \<le> p")
      case True
      then have full: "\<forall>i. pos \<le> i \<and> i < clusters fs \<longrightarrow> bmp_bit fs m i" using sp by auto
      show ?thesis
      proof (cases "s = 0")
        case True
        then show ?thesis using sc False \<open>clusters fs \<le> p\<close> i full by (auto simp: found_or_full_def Let_def)
      next
        case s: False
        have "pos div 4096 \<le> clusters fs div 4096" using Suc.prems(2) by (intro div_le_mono) simp
        then have fuel: "s - 0 \<le> n" using Suc.prems(3) by simp
        from alloc_loop_low [OF i, of 0 0 n bad m] s fuel obtain r where r: "alloc_loop fs bad m initial n 0 = Inr r"
          "found_or_full fs bad m r (\<lambda>i. i < initial)" by auto
        have "found_or_full fs bad m r (\<lambda>i. (pos \<le> i \<and> i < clusters fs) \<or> i < initial)"
          using r(2) full by (auto simp: found_or_full_def split: option.splits)
        then show ?thesis using sc False \<open>clusters fs \<le> p\<close> r(1) i s by (auto simp: Let_def)
      qed
    next
      case low: False
      then have p: "p = pos + (4096 - pos mod 4096)" using sp False by auto
      have md: "pos mod 4096 < 4096" by simp
      have sum: "p + pos mod 4096 = pos + 4096" using p md by simp
      obtain a r where ar: "pos div 4096 = a" "pos mod 4096 = r" "pos = 4096 * a + r" using mult_div_mod_eq [of 4096 pos] by metis
      have q: "p = 4096 * (pos div 4096 + 1)" using sum unfolding ar(1,2) using ar(3) by simp
      have full: "\<forall>i. pos \<le> i \<and> i < p \<longrightarrow> bmp_bit fs m i" using sp by simp
      have gt: "initial < p" using Suc.prems(1) sum md by linarith
      have "clusters fs div 4096 + s + 2 \<le> n + p div 4096" using Suc.prems(3) q by simp
      then obtain r where r: "alloc_loop fs bad m initial n p = Inr r" "found_or_full fs bad m r (\<lambda>i. (p \<le> i \<and> i < clusters fs) \<or> i < initial)"
        using Suc.IH [of p] gt low by auto
      have "found_or_full fs bad m r (\<lambda>i. (pos \<le> i \<and> i < clusters fs) \<or> i < initial)"
        using r(2) full by (auto simp: found_or_full_def split: option.splits) (metis not_le)
      then show ?thesis using sc False low r(1) gt by (auto simp: Let_def)
    qed
  qed
qed

lemma alloc_get_ok:
  assumes last: "fs_bmp_last fs < fs_cluster_count fs" and cnt: "fs_cluster_count fs \<le> 0xFFFFFFF5"
  defines "start \<equiv> unat (fs_bmp_last fs)"
  shows "\<exists>c fs' m'. alloc_get fs bad m = Inr (c, fs', m') \<and>
    (if c = 0 then fs' = fs \<and> m' = m \<and> ((\<exists>pos. bad (bmp_lba fs pos)) \<or>
         (\<forall>i<clusters fs. start \<le> i \<or> i < start div 4096 * 4096 \<longrightarrow> bmp_bit fs m i))
     else \<exists>p<clusters fs. c = of_nat p + 2 \<and> \<not> bmp_bit fs m p \<and> fs' = fs\<lparr>fs_bmp_last := of_nat p\<rparr> \<and>
         (\<forall>i<clusters fs. bmp_bit fs m' i = (i = p \<or> bmp_bit fs m i)))"
proof -
  let ?s = "start div 4096"
  have st: "start < clusters fs" using last by (simp add: start_def word_less_nat_alt)
  have ini: "4096 * ?s = 4096 * ?s" "4096 * ?s < clusters fs" using st mult_div_mod_eq [of 4096 start] by auto
  have fuel: "clusters fs div 4096 + ?s + 2 \<le> clusters fs div 4096 + 3 + start div 4096" by simp
  from alloc_loop_high [OF ini _ st fuel, of bad m] obtain r where
    r: "alloc_loop fs bad m (?s * 4096) (clusters fs div 4096 + 3) start = Inr r"
       "found_or_full fs bad m r (\<lambda>i. (start \<le> i \<and> i < clusters fs) \<or> i < ?s * 4096)" by (auto simp: mult.commute)
  show ?thesis
  proof (cases r)
    case None
    then have "alloc_get fs bad m = Inr (0, fs, m)" using r(1) by (simp add: alloc_get_def start_def)
    then show ?thesis using r(2) None by (auto simp: found_or_full_def)
  next
    case (Some p)
    have p: "p < clusters fs" "\<not> bmp_bit fs m p" using r(2) Some by (auto simp: found_or_full_def)
    have c: "clusters fs \<le> 0xFFFFFFF5" using cnt by (simp add: word_le_nat_alt)
    have "unat (of_nat p + 2 :: dword) = p + 2" using p(1) c by (simp add: unat_word_ariths unat_of_nat)
    then have nz: "(of_nat p + 2 :: dword) \<noteq> 0" by auto
    have "alloc_get fs bad m = Inr (of_nat p + 2, fs\<lparr>fs_bmp_last := of_nat p\<rparr>, bmp_set fs p True m)"
      using r(1) Some by (simp add: alloc_get_def start_def)
    moreover have "\<forall>i<clusters fs. bmp_bit fs (bmp_set fs p True m) i = (i = p \<or> bmp_bit fs m i)" using bmp_set_bit [of p] p(1) c by auto
    ultimately show ?thesis using nz p by auto
  qed
qed

lemma alloc_put_ok:
  assumes "2 \<le> cluster" "\<not> bad (bmp_lba fs (unat (cluster - 2)))"
  shows "\<exists>m'. alloc_put fs bad cluster m = Inr (bmp_bit fs m (unat (cluster - 2)), m') \<and>
    (\<forall>i<2 ^ 32. bmp_bit fs m' i = (i \<noteq> unat (cluster - 2) \<and> bmp_bit fs m i))"
proof -
  have "unat (cluster - 2) < 2 ^ LENGTH(32)" by (rule unsigned_less)
  then show ?thesis using assms bmp_set_bit [of "unat (cluster - 2)"] by (auto simp: alloc_put_def Let_def)
qed

section \<open>Growing a chain\<close>

text \<open>Follow the chain from a line towards \<open>index\<close>: \<open>None\<close> when an entry cannot be read, otherwise the line where the walk stops.\<close>

primrec expand_walk :: "exfat \<Rightarrow> (qword \<Rightarrow> bool) \<Rightarrow> volume \<Rightarrow> nat \<Rightarrow> dword \<times> dword \<Rightarrow> fat_reader \<Rightarrow> ((dword \<times> dword) option \<times> fat_reader) res" where
  "expand_walk fs bad m 0 l r = Inr (Some l, r)"
| "expand_walk fs bad m (Suc n) l r = rbind (fat_get fs bad m (snd l) r) (\<lambda>(next, r).
     if next = 0 then Inr (None, r)
     else if next \<ge> tail_mark then Inr (Some l, r)
     else expand_walk fs bad m n (fst l + 1, next) r)"

primrec expand_alloc :: "nat \<Rightarrow> (qword \<Rightarrow> bool) \<Rightarrow> dword \<Rightarrow> dword \<times> dword \<Rightarrow> chain \<Rightarrow> exfat \<Rightarrow> volume \<Rightarrow> fat_reader \<Rightarrow>
    (bool \<times> chain \<times> exfat \<times> volume \<times> fat_reader) res" where
  "expand_alloc 0 bad index tail ch fs m r = Inl OutOfFuel"
| "expand_alloc (Suc n) bad index tail ch fs m r = rbind (alloc_get fs bad m) (\<lambda>(next, fs, m).
     if next = 0 then Inr (False, ch, fs, m, r)
     else rbind (fat_put fs bad (snd tail) next m r) (\<lambda>(ok, m, r).
       if \<not> ok then Inr (False, ch, fs, m, r)
       else let (ch, i) = (if ch_first ch = 0 then (ch\<lparr>ch_first := next\<rparr>, fst tail) else (ch, fst tail + 1)) in
         if i < index then expand_alloc n bad index (i, next) ch fs m r else Inr (True, ch, fs, m, r)))"

definition chain_expand :: "(qword \<Rightarrow> bool) \<Rightarrow> dword \<Rightarrow> chain \<Rightarrow> exfat \<Rightarrow> volume \<Rightarrow> (bool \<times> chain \<times> exfat \<times> volume) res" where
  "chain_expand bad index ch fs m =
     (if ch_linear ch then Inr (False, ch, fs, m)
      else let start = (case ch_lines ch of [] \<Rightarrow> (0, ch_first ch) | l # _ \<Rightarrow> l);
               grow = (\<lambda>tail r. rbind (expand_alloc (unat index + 2) bad index tail ch fs m r) (\<lambda>(ok, ch, fs, m, r).
                 rbind (fr_relax r) (\<lambda>_. Inr (ok, ch, fs, m)))) in
        if index = 0 then grow (0, ch_first ch) fr_new
        else if fst start \<ge> index then Inr (True, ch, fs, m)
        else rbind (expand_walk fs bad m (unat index - unat (fst start)) start fr_new) (\<lambda>(t, r). case t of
            None \<Rightarrow> rbind (fr_relax r) (\<lambda>_. Inr (False, ch, fs, m))
          | Some tail \<Rightarrow> if fst tail \<ge> index then rbind (fr_relax r) (\<lambda>_. Inr (True, ch, fs, m)) else grow tail r))"

lemma fat_place_inj:
  assumes "lba_of_fat fs (a div element_per_sector) = lba_of_fat fs (b div element_per_sector)" "in_table fs a" "in_table fs b" "a \<noteq> b"
  shows "fat_offset a + 4 \<le> fat_offset b \<or> fat_offset b + 4 \<le> fat_offset a"
proof -
  have "(ucast (a div element_per_sector) :: qword) = ucast (b div element_per_sector)"
    using assms(1-3) by (auto simp: lba_of_fat_def in_table_def split: if_splits)
  then have "unat (ucast (a div element_per_sector) :: qword) = unat (ucast (b div element_per_sector) :: qword)" by simp
  moreover have "unat (ucast x :: qword) = unat x" for x :: dword
  proof -
    have "unat x < 2 ^ LENGTH(32)" by (rule unsigned_less)
    then show ?thesis by (simp add: unsigned_ucast_eq take_bit_nat_eq_self)
  qed
  ultimately have "unat (a div element_per_sector) = unat (b div element_per_sector)" by simp
  then have "unat a div 128 = unat b div 128" by (simp add: unat_div_distrib element_per_sector_def)
  moreover have "unat a \<noteq> unat b" using assms(4) by (simp add: word_unat_eq_iff)
  ultimately have "unat a mod 128 \<noteq> unat b mod 128" by (metis div_mult_mod_eq)
  then have "unat a mod 128 < unat b mod 128 \<or> unat b mod 128 < unat a mod 128" by linarith
  then show ?thesis by (auto simp: fat_offset_def unat_mod_distrib element_per_sector_def)
qed

text \<open>Writing the entry of one cluster.\<close>

definition fat_write :: "exfat \<Rightarrow> dword \<Rightarrow> nat \<Rightarrow> volume \<Rightarrow> volume" where
  "fat_write fs c v m = (let l = lba_of_fat fs (c div element_per_sector) in m(l := put_le 4 (fat_offset c) v (m l)))"

lemma fat_write_entry:
  assumes "in_table fs c" "\<not> bad (lba_of_fat fs (c div element_per_sector))" "v < 2 ^ 32" "in_table fs b"
  shows "fat_entry fs bad (fat_write fs c v m) b = (if b = c then of_nat v else fat_entry fs bad m b)"
proof (cases "b = c")
  case True
  then show ?thesis using assms by (simp add: fat_entry_def fat_write_def Let_def get_put_le in_table_def)
next
  case False
  then show ?thesis
    using fat_place_inj [OF _ assms(1,4)] get_put_le_other [of "fat_offset c" 4 "fat_offset b" 4]
    by (auto simp: fat_entry_def fat_write_def Let_def)
qed

lemma fat_put_ok:
  assumes r: "fr_ok fs bad r" and n: "in_table fs next" "\<not> bad (lba_of_fat fs (next div element_per_sector))"
    and t: "in_table fs tail" "\<not> bad (lba_of_fat fs (tail div element_per_sector))" and e: "fat_entry fs bad m tail \<ge> tail_mark" and ne: "tail \<noteq> next"
  shows "\<exists>r'. fat_put fs bad tail next m r = Inr (True, fat_write fs tail (unat next) (fat_write fs next 0xFFFFFFFF m), r') \<and> fr_ok fs bad r'"
proof -
  from fat_load_ok [OF r n(1)] n(2) obtain r1 where r1: "fat_load fs bad next r = Inr (True, r1)" "fr_ok fs bad r1" "fr_lba r1 = lba_of_fat fs (next div element_per_sector)" by auto
  from fat_load_ok [OF r1(2) t(1)] t(2) obtain r2 where r2: "fat_load fs bad tail r1 = Inr (True, r2)" "fr_ok fs bad r2" "fr_lba r2 = lba_of_fat fs (tail div element_per_sector)" by auto
  let ?m = "fat_write fs next 0xFFFFFFFF m"
  have m: "m(fr_lba r1 := put_le 4 (fat_offset next) 0xFFFFFFFF (m (fr_lba r1))) = ?m" by (simp add: fat_write_def r1(3) Let_def)
  have "fat_entry fs bad ?m tail = fat_entry fs bad m tail" using fat_write_entry [of fs "next" bad "0xFFFFFFFF" tail m] n t(1) ne by simp
  then have "tail_mark \<le> (of_nat (get_le 4 (?m (fr_lba r2)) (fat_offset tail)) :: dword)"
    using e t by (auto simp: fat_entry_def Let_def r2(3) in_table_def)
  moreover have "get_le 4 (?m (fr_lba r2)) (fat_offset tail) < 2 ^ 32" using get_le_bound [of 4] by simp
  ultimately have ge: "\<not> get_le 4 (?m (fr_lba r2)) (fat_offset tail) < 0xFFFFFFF8"
    by (simp add: tail_mark_def word_le_nat_alt unat_of_nat)
  have z: "tail \<noteq> 0" "2 \<le> tail" "2 \<le> next" using t(1) n(1) by (auto simp: in_table_def)
  have "fat_put fs bad tail next m r = Inr (True, ?m(fr_lba r2 := put_le 4 (fat_offset tail) (unat next) (?m (fr_lba r2))), r2)"
    using r1(1) r2(1) z ge m by (simp add: fat_put_def Let_def)
  then show ?thesis using r2(2,3) by (simp add: fat_write_def [of fs tail] Let_def)
qed

lemma chain_at_cong:
  assumes "\<And>j c. j < i \<Longrightarrow> chain_at fs bad m first j = Some c \<Longrightarrow> fat_entry fs bad m' c = fat_entry fs bad m c"
  shows "chain_at fs bad m' first i = chain_at fs bad m first i"
  using assms
proof (induction i)
  case (Suc i)
  have "chain_at fs bad m' first i = chain_at fs bad m first i" by (rule Suc.IH, rule Suc.prems) auto
  then show ?case using Suc.prems [of i] by (auto split: option.splits)
qed simp

lemma unat_next: "a < b \<Longrightarrow> unat (a + 1) = unat a + 1" for a b :: dword
proof -
  assume "a < b"
  moreover have "unat b < 2 ^ LENGTH(32)" by (rule unsigned_less)
  ultimately show ?thesis by (simp add: word_less_nat_alt unat_word_ariths)
qed

lemma not_fuel [simp]: "kassert b x = Inl OutOfFuel \<longleftrightarrow> b \<and> x = Inl OutOfFuel" "bugcheck msg \<noteq> Inl OutOfFuel"
  by (auto simp: kassert_def bugcheck_def)

lemma rbind_fuel: "rbind x f = Inl OutOfFuel \<longleftrightarrow> x = Inl OutOfFuel \<or> (\<exists>y. x = Inr y \<and> f y = Inl OutOfFuel)"
  by (cases x) auto

lemma fat_no_fuel: "fr_relax r \<noteq> Inl OutOfFuel" "fat_load fs bad c r \<noteq> Inl OutOfFuel" "fat_get fs bad m c r \<noteq> Inl OutOfFuel" "fat_put fs bad t n m r \<noteq> Inl OutOfFuel"
proof -
  show a: "fr_relax r \<noteq> Inl OutOfFuel" for r by (auto simp: fr_relax_def split: option.splits)
  show b: "fat_load fs bad c r \<noteq> Inl OutOfFuel" for c r by (auto simp: fat_load_def rbind_fuel a Let_def split: if_splits)
  show "fat_get fs bad m c r \<noteq> Inl OutOfFuel" by (auto simp: fat_get_def rbind_fuel b)
  show "fat_put fs bad t n m r \<noteq> Inl OutOfFuel" by (auto simp: fat_put_def rbind_fuel b Let_def split: if_splits)
qed

lemma expand_walk_no_fuel: "expand_walk fs bad m n l r \<noteq> Inl OutOfFuel"
  by (induction n arbitrary: l r) (auto simp: rbind_fuel fat_no_fuel split: if_splits)

lemma expand_alloc_no_fuel:
  "fs_bmp_last fs < fs_cluster_count fs \<Longrightarrow> fs_cluster_count fs \<le> 0xFFFFFFF5 \<Longrightarrow>
     unat index - unat (fst tail) + (if ch_first ch = 0 then 1 else 0) < n \<Longrightarrow> fst tail < index \<or> index = 0 \<Longrightarrow> expand_alloc n bad index tail ch fs m r \<noteq> Inl OutOfFuel"
proof (induction n arbitrary: tail ch fs m r)
  case (Suc n)
  from alloc_get_ok [OF Suc.prems(1,2), of bad m] obtain c fs1 m1 where g: "alloc_get fs bad m = Inr (c, fs1, m1)"
    "c \<noteq> 0 \<longrightarrow> (\<exists>p<clusters fs. fs1 = fs\<lparr>fs_bmp_last := of_nat p\<rparr>)" by (auto split: if_splits)
  show ?case
  proof (cases "c = 0")
    case True
    then show ?thesis using g by simp
  next
    case False
    then obtain p where p: "p < clusters fs" "fs1 = fs\<lparr>fs_bmp_last := of_nat p\<rparr>" using g(2) by blast
    have lt: "fs_bmp_last fs1 < fs_cluster_count fs1" "fs_cluster_count fs1 \<le> 0xFFFFFFF5"
      using p Suc.prems(2) unsigned_less [of "fs_cluster_count fs"] by (auto simp: word_less_nat_alt unat_of_nat)
    have step: "expand_alloc n bad index (i, c) ch' fs1 m2 r2 \<noteq> Inl OutOfFuel"
      if "i < index" "(ch', i) = (if ch_first ch = 0 then (ch\<lparr>ch_first := c\<rparr>, fst tail) else (ch, fst tail + 1))" for i ch' m2 r2
    proof (rule Suc.IH [OF lt])
      show "unat index - unat (fst (i, c)) + (if ch_first ch' = 0 then 1 else 0) < n"
      proof (cases "ch_first ch = 0")
        case True
        then show ?thesis using that Suc.prems(3) False by simp
      next
        case nz: False
        have "fst tail < index" using Suc.prems(4) that(1) by auto
        moreover from this have "unat (fst tail + 1) = unat (fst tail) + 1" by (rule unat_next)
        ultimately show ?thesis using that nz Suc.prems(3) by (auto simp: word_less_nat_alt)
      qed
      show "fst (i, c) < index \<or> index = 0" using that by simp
    qed
    show ?thesis using g(1) False step by (auto simp: rbind_fuel fat_no_fuel Let_def split: if_splits)
  qed
qed simp

lemma expand_walk_result:
  "expand_walk fs bad m n l r = Inr (Some t, r') \<Longrightarrow> n = unat index - unat (fst l) \<Longrightarrow> fst l < index \<Longrightarrow> fst t < index \<or> fst t = index"
proof (induction n arbitrary: l r)
  case (Suc n)
  have u: "unat (fst l + 1) = unat (fst l) + 1" using Suc.prems(3) by (rule unat_next)
  from Suc.prems(1) consider "t = l" | nx r1 where "expand_walk fs bad m n (fst l + 1, nx) r1 = Inr (Some t, r')"
    by (auto simp: rbind_eq_Inr split: if_splits)
  then show ?case
  proof cases
    case 1
    then show ?thesis using Suc.prems(3) by simp
  next
    case 2
    show ?thesis
    proof (cases "fst l + 1 = index")
      case True
      then have "n = 0" using Suc.prems(2) u by (simp flip: True)
      then show ?thesis using 2 True by auto
    next
      case False
      then have "fst l + 1 < index" using Suc.prems(3) u by (simp add: word_less_nat_alt word_unat_eq_iff)
      then show ?thesis using Suc.IH [OF 2] Suc.prems(2) u by simp
    qed
  qed
qed (simp add: word_less_nat_alt)

lemma chain_expand_no_fuel:
  assumes "fs_bmp_last fs < fs_cluster_count fs" "fs_cluster_count fs \<le> 0xFFFFFFF5"
  shows "chain_expand bad index ch fs m \<noteq> Inl OutOfFuel"
proof -
  let ?start = "case ch_lines ch of [] \<Rightarrow> (0, ch_first ch) | l # _ \<Rightarrow> l"
  have grow: "rbind (expand_alloc (unat index + 2) bad index tail ch fs m r) (\<lambda>(ok, ch, fs, m, r). rbind (fr_relax r) (\<lambda>_. Inr (ok, ch, fs, m))) \<noteq> Inl OutOfFuel"
    if "fst tail < index \<or> index = 0" for tail r
  proof -
    have "expand_alloc (unat index + 2) bad index tail ch fs m r \<noteq> Inl OutOfFuel"
      by (rule expand_alloc_no_fuel [OF assms _ that]) (simp add: less_Suc_eq_le le_SucI)
    then show ?thesis by (auto simp: rbind_fuel fat_no_fuel simp del: expand_alloc.simps)
  qed
  show ?thesis
  proof (cases "ch_linear ch \<or> index = 0 \<or> fst ?start \<ge> index")
    case True
    then show ?thesis using grow [of "(0, ch_first ch)" fr_new] by (auto simp: chain_expand_def Let_def)
  next
    case False
    show ?thesis
    proof (cases "expand_walk fs bad m (unat index - unat (fst ?start)) ?start fr_new")
      case (Inl e)
      then have "e \<noteq> OutOfFuel" using expand_walk_no_fuel by metis
      then show ?thesis using False Inl by (auto simp: chain_expand_def Let_def)
    next
      case (Inr tr)
      obtain t r where tr: "tr = (t, r)" by (cases tr)
      show ?thesis
      proof (cases t)
        case None
        then show ?thesis using False Inr tr by (auto simp: chain_expand_def Let_def rbind_fuel fat_no_fuel)
      next
        case (Some tail)
        have "fst tail < index \<or> fst tail = index" using expand_walk_result [OF Inr [unfolded tr Some] refl] False by auto
        then show ?thesis using False Inr tr Some grow [of tail r] by (auto simp: chain_expand_def Let_def rbind_fuel fat_no_fuel)
      qed
    qed
  qed
qed

section \<open>Properties\<close>

text \<open>C7: The cache of a cluster chain is transparent: on a table whose chain stays inside the table, \<open>cluster_chain::get\<close> returns the cluster
  that following the table from the first cluster gives (0 past the end), whatever has been looked up before, and keeps the cache sorted, complete and within its limit.\<close>

theorem chain_cache_transparent:
  assumes "chain_inv fs bad m ch" "chain_wf fs bad m (ch_first ch)"
  shows "\<exists>ch'. chain_get fs bad m index ch = Inr (chain_ref fs bad m index ch, ch') \<and> chain_inv fs bad m ch' \<and>
    ch_first ch' = ch_first ch \<and> ch_linear ch' = ch_linear ch"
  using assms by (rule chain_get_ok)

definition small_fs :: exfat where
  "small_fs = \<lparr>fs_base = 0, fs_top = 100, fs_table = 30, fs_bitmap = 40, fs_heap = 50, fs_cluster_count = 40, fs_cluster_shift = 9,
     fs_volume_state = 0, fs_flags = 0, fs_bmp_last = 0\<rparr>"

definition small_volume :: volume where
  "small_volume = fat_write small_fs 5 0xFFFFFFFF (fat_write small_fs 9 5 (\<lambda>_ _. 0))"

lemma small_table: "in_table small_fs c \<longleftrightarrow> 2 \<le> c \<and> c < 128"
proof -
  have "c div 128 < 1 \<longleftrightarrow> c < 128" by (simp add: word_less_nat_alt unat_div_distrib div_eq_0_iff)
  moreover have "lba_of_fat small_fs s \<noteq> 0 \<longleftrightarrow> s < 1" for s
    by (auto simp: lba_of_fat_def small_fs_def element_per_sector_def align_up_def align_down_def word_less_nat_alt unat_eq_0)
  ultimately show ?thesis by (simp add: in_table_def element_per_sector_def)
qed

lemma small_entries: "in_table small_fs b \<Longrightarrow> fat_entry small_fs (\<lambda>_. False) small_volume b = (if b = 5 then 0xFFFFFFFF else if b = 9 then 5 else 0)"
proof -
  assume b: "in_table small_fs b"
  have z: "fat_entry small_fs (\<lambda>_. False) (\<lambda>_ _. 0) b = 0" by (simp add: fat_entry_def Let_def eval_nat_numeral)
  show ?thesis unfolding small_volume_def
    using fat_write_entry [of small_fs 5 "\<lambda>_. False" "0xFFFFFFFF" b] fat_write_entry [of small_fs 9 "\<lambda>_. False" 5 b] b z by (auto simp: small_table)
qed

lemma small_chain: "chain_at small_fs (\<lambda>_. False) small_volume 9 i = (if i = 0 then Some 9 else if i = 1 then Some 5 else None)"
proof (induction i)
  case (Suc i)
  have e: "fat_entry small_fs (\<lambda>_. False) small_volume 9 = 5" "fat_entry small_fs (\<lambda>_. False) small_volume 5 = 0xFFFFFFFF"
    using small_entries by (simp_all add: small_table)
  show ?case using Suc by (auto simp: e Let_def tail_mark_def)
qed simp

lemma small_chain_wf: "chain_wf small_fs (\<lambda>_. False) small_volume 9"
  by (auto simp: chain_wf_def small_chain small_table split: if_splits)

theorem chain_cache_transparent_witness:
  "\<exists>ch'. chain_get small_fs (\<lambda>_. False) small_volume 1 (chain_new 9 False) = Inr (5, ch') \<and> chain_inv small_fs (\<lambda>_. False) small_volume ch'"
proof -
  have "chain_inv small_fs (\<lambda>_. False) small_volume (chain_new 9 False)" by (simp add: chain_inv_def lines_inv_def chain_new_def)
  from chain_cache_transparent [OF this, of 1] small_chain_wf show ?thesis by (auto simp: chain_ref_def chain_new_def small_chain simp del: chain_at.simps)
qed

text \<open>C26: Appending a cluster extends the chain by exactly that cluster: when \<open>tail\<close> ends the chain and \<open>next\<close> is not on it, \<open>fat_reader::put\<close> succeeds,
  the clusters up to \<open>tail\<close> stay, \<open>next\<close> follows and ends the chain.\<close>

theorem append_extends_chain:
  assumes "chain_wf fs bad m first" "chain_at fs bad m first k = Some tail" "fat_entry fs bad m tail \<ge> tail_mark"
    "\<forall>i. chain_at fs bad m first i \<noteq> Some next" "in_table fs next" "next < tail_mark"
    "\<not> bad (lba_of_fat fs (tail div element_per_sector))" "\<not> bad (lba_of_fat fs (next div element_per_sector))" "fr_ok fs bad r"
  shows "\<exists>m' r'. fat_put fs bad tail next m r = Inr (True, m', r') \<and> fr_ok fs bad r' \<and>
    (\<forall>i\<le>k. chain_at fs bad m' first i = chain_at fs bad m first i) \<and> chain_at fs bad m' first (k + 1) = Some next \<and> chain_at fs bad m' first (k + 2) = None"
proof -
  have t: "in_table fs tail" using assms(1,2) by (auto simp: chain_wf_def)
  have ne: "tail \<noteq> next" using assms(2,4) by blast
  let ?m = "fat_write fs tail (unat next) (fat_write fs next 0xFFFFFFFF m)"
  have lt: "unat next < 2 ^ 32" using unsigned_less [of "next" ] by simp
  have en: "fat_entry fs bad ?m b = (if b = tail then next else if b = next then 0xFFFFFFFF else fat_entry fs bad m b)" if "in_table fs b" for b
    using fat_write_entry [of fs tail bad "unat next" b] fat_write_entry [of fs "next" bad "0xFFFFFFFF" b m] t assms(5,7,8) lt that by simp
  have none: "chain_at fs bad m first (Suc k) = None" using assms(2,3) by (simp add: Let_def)
  have keep: "chain_at fs bad ?m first i = chain_at fs bad m first i" if "i \<le> k" for i
  proof (rule chain_at_cong)
    fix j c assume j: "j < i" "chain_at fs bad m first j = Some c"
    have "c \<noteq> tail"
    proof
      assume "c = tail"
      then have "chain_at fs bad m first (Suc j) = None" using j(2) assms(3) by (simp add: Let_def)
      from chain_at_None [OF this, of "k - Suc j"] show False using j(1) that assms(2) by simp
    qed
    moreover have "c \<noteq> next" using assms(4) j(2) by blast
    moreover have "in_table fs c" using assms(1) j(2) by (auto simp: chain_wf_def)
    ultimately show "fat_entry fs bad ?m c = fat_entry fs bad m c" by (simp add: en)
  qed
  have nz: "next \<noteq> 0" using assms(5) by (auto simp: in_table_def)
  have s1: "chain_at fs bad ?m first (k + 1) = Some next"
    using keep [of k] assms(2,6) en [OF t] nz by (simp add: Let_def)
  have "chain_at fs bad ?m first (k + 2) = None"
    using s1 en [OF assms(5)] ne by (simp add: Let_def tail_mark_def)
  moreover obtain r' where "fat_put fs bad tail next m r = Inr (True, ?m, r')" "fr_ok fs bad r'"
    using fat_put_ok [OF assms(9,5,8) t assms(7,3) ne] by blast
  ultimately show ?thesis using keep s1 by blast
qed

theorem append_extends_chain_witness:
  "\<exists>m' r'. fat_put small_fs (\<lambda>_. False) 5 7 small_volume fr_new = Inr (True, m', r') \<and>
     chain_at small_fs (\<lambda>_. False) m' 9 2 = Some 7 \<and> chain_at small_fs (\<lambda>_. False) m' 9 3 = None"
proof -
  have e: "tail_mark \<le> fat_entry small_fs (\<lambda>_. False) small_volume 5" using small_entries [of 5] by (simp add: small_table tail_mark_def)
  have h: "\<forall>i. chain_at small_fs (\<lambda>_. False) small_volume 9 i \<noteq> Some 7" by (simp add: small_chain)
  have c: "chain_at small_fs (\<lambda>_. False) small_volume 9 1 = Some 5" by (simp only: small_chain) simp
  have t: "in_table small_fs 7" "(7 :: dword) < tail_mark" by (simp_all add: small_table tail_mark_def)
  from append_extends_chain [OF small_chain_wf c e h t, of fr_new] obtain m' r' where
    "fat_put small_fs (\<lambda>_. False) 5 7 small_volume fr_new = Inr (True, m', r')"
    "chain_at small_fs (\<lambda>_. False) m' 9 (1 + 1) = Some 7" "chain_at small_fs (\<lambda>_. False) m' 9 (1 + 2) = None" by auto
  moreover have "(1 :: nat) + 1 = 2" "(1 :: nat) + 2 = 3" by simp_all
  ultimately show ?thesis by metis
qed

text \<open>C27: \<open>allocator::get\<close> always ends. It takes a cluster that was free, marks exactly that one and returns its number; or it returns 0 and changes nothing, and then
  a sector of the bitmap cannot be read or every cluster it looked at is taken: all but those between the start of the sector of the last allocation and the last allocation.\<close>

theorem allocator_takes_free_cluster:
  assumes "fs_bmp_last fs < fs_cluster_count fs" "fs_cluster_count fs \<le> 0xFFFFFFF5"
  shows "\<exists>c fs' m'. alloc_get fs bad m = Inr (c, fs', m') \<and>
    (if c = 0 then fs' = fs \<and> m' = m \<and> ((\<exists>pos. bad (bmp_lba fs pos)) \<or>
         (\<forall>i<clusters fs. unat (fs_bmp_last fs) \<le> i \<or> i < unat (fs_bmp_last fs) div 4096 * 4096 \<longrightarrow> bmp_bit fs m i))
     else \<exists>p<clusters fs. c = of_nat p + 2 \<and> \<not> bmp_bit fs m p \<and> fs' = fs\<lparr>fs_bmp_last := of_nat p\<rparr> \<and>
         (\<forall>i<clusters fs. bmp_bit fs m' i = (i = p \<or> bmp_bit fs m i)))"
  using assms by (rule alloc_get_ok)

theorem allocator_takes_free_cluster_witness:
  "\<exists>c fs' m'. alloc_get small_fs (\<lambda>_. False) (\<lambda>_ _. 0) = Inr (c, fs', m') \<and> c \<noteq> 0 \<and> (\<exists>p<40. c = of_nat p + 2 \<and> bmp_bit small_fs m' p)"
proof -
  have c: "clusters small_fs = 40" "unat (fs_bmp_last small_fs) = 0" by (simp_all add: small_fs_def)
  have "fs_bmp_last small_fs < fs_cluster_count small_fs" "fs_cluster_count small_fs \<le> 0xFFFFFFF5" by (simp_all add: small_fs_def)
  from allocator_takes_free_cluster [OF this, of "\<lambda>_. False" "\<lambda>_ _. 0"] obtain c fs' m' where
    g: "alloc_get small_fs (\<lambda>_. False) (\<lambda>_ _. 0) = Inr (c, fs', m')"
    "if c = 0 then fs' = small_fs \<and> m' = (\<lambda>_ _. 0) \<and> (\<forall>i<40. bmp_bit small_fs (\<lambda>_ _. 0) i)
     else \<exists>p<40. c = of_nat p + 2 \<and> \<not> bmp_bit small_fs (\<lambda>_ _. 0) p \<and> fs' = small_fs\<lparr>fs_bmp_last := of_nat p\<rparr> \<and>
         (\<forall>i<40. bmp_bit small_fs m' i = (i = p \<or> bmp_bit small_fs (\<lambda>_ _. 0) i))" unfolding c by (simp cong: if_cong) blast
  have "\<not> bmp_bit small_fs (\<lambda>_ _. 0) 0" by (simp add: bmp_bit_def)
  then show ?thesis using g by (auto split: if_splits)
qed

text \<open>\<open>cluster_chain::expand\<close> ends, whatever the table and the bitmap hold: it never runs out of the steps its index allows.\<close>

theorem expand_terminates:
  assumes "fs_bmp_last fs < fs_cluster_count fs" "fs_cluster_count fs \<le> 0xFFFFFFF5"
  shows "chain_expand bad index ch fs m \<noteq> Inl OutOfFuel"
  using assms by (rule chain_expand_no_fuel)

theorem expand_terminates_witness:
  "chain_expand (\<lambda>_. False) 3 (chain_new 9 False) small_fs small_volume \<noteq> Inl OutOfFuel"
  using expand_terminates [of small_fs] by (simp add: small_fs_def)

text \<open>A defect: growing an empty file to more than one cluster at once, which writing behind the first cluster of a new file does,
  reads the table entry of cluster 0 and fails an assertion.\<close>

theorem expand_empty_file_stops:
  assumes "index \<noteq> 0"
  shows "chain_expand bad index (chain_new 0 False) fs m = Inl AssertFailed"
proof -
  obtain n where n: "unat index = Suc n" using assms by (metis not0_implies_Suc unat_eq_0)
  then have "\<not> index \<le> 0" by (simp add: word_le_nat_alt)
  then show ?thesis using assms n by (simp add: chain_expand_def chain_new_def Let_def fat_get_def kassert_def)
qed

theorem expand_empty_file_stops_witness:
  "chain_expand (\<lambda>_. False) 1 (chain_new 0 False) small_fs small_volume = Inl AssertFailed"
  using expand_empty_file_stops [of 1] by simp

text \<open>A second defect: a table entry that leads out of the table makes the reader give its slot up twice.\<close>

lemma out_of_table_stops:
  assumes "in_table fs a" "\<not> bad (lba_of_fat fs (a div element_per_sector))" "2 \<le> b" "lba_of_fat fs (b div element_per_sector) = 0"
  shows "rbind (fat_get fs bad m a fr_new) (\<lambda>(_, r). rbind (fat_get fs bad m b r) (\<lambda>(_, r). fr_relax r)) = bugcheck ''releasing free shared lock''"
proof -
  have "a div element_per_sector \<noteq> b div element_per_sector" using assms(1,4) by (metis in_table_def)
  then show ?thesis using assms by (simp add: fat_get_def fat_load_def fr_new_def fr_relax_def in_table_def Let_def)
qed

end
