(* ===== verification/Exfat_Boot.thy ===== *)
theory Exfat_Boot
  imports Exfat
begin

text \<open>
  Mounting an exFAT volume (\<open>parse_header\<close>, \<open>thread_init\<close>, \<open>set_rw\<close>, \<open>stop\<close> and \<open>task\<close> of \<^verbatim>\<open>filesystem/exfat.cpp\<close>): the boot record is read and
  checked, the partition is looked up in the master boot record when the disk itself is not a volume, the checksum of the boot area and the root directory are read.
  Every failure of \<open>thread_init\<close> stops the kernel. The worker threads it starts and the root folder it creates are those of other components.
\<close>

section \<open>The boot record\<close>

record exfat_header =
  h_fs_name :: "byte list"
  h_zero :: "byte list"
  h_base :: qword
  h_limit :: qword
  h_fat_offset :: dword
  h_fat_length :: dword
  h_cluster_offset :: dword
  h_cluster_count :: dword
  h_root_dir :: dword
  h_version :: hword
  h_flags :: hword
  h_sector_shift :: byte
  h_cluster_shift :: byte
  h_fat_count :: byte
  h_signature :: hword

definition read_header :: "sector \<Rightarrow> exfat_header" where
  "read_header f = \<lparr>h_fs_name = map f [3..<11], h_zero = map f [11..<64], h_base = of_nat (get_le 8 f 0x40), h_limit = of_nat (get_le 8 f 0x48),
     h_fat_offset = of_nat (get_le 4 f 0x50), h_fat_length = of_nat (get_le 4 f 0x54), h_cluster_offset = of_nat (get_le 4 f 0x58),
     h_cluster_count = of_nat (get_le 4 f 0x5C), h_root_dir = of_nat (get_le 4 f 0x60), h_version = of_nat (get_le 2 f 0x68), h_flags = of_nat (get_le 2 f 0x6A),
     h_sector_shift = f 0x6C, h_cluster_shift = f 0x6D, h_fat_count = f 0x6E, h_signature = of_nat (get_le 2 f 0x1FE)\<rparr>"

definition exfat_name :: "byte list" where "exfat_name = map (\<lambda>c. of_nat (of_char c)) ''EXFAT   ''"

text \<open>The result is 0 for a record that is refused; fields that were assigned before the refusal keep their new values, as in the code.\<close>

definition parse_layout :: "exfat_header \<Rightarrow> exfat \<Rightarrow> dword \<times> exfat" where
  "parse_layout h fs =
     (if h_fat_offset h < 24 \<or> h_fat_length h = 0 \<or> h_cluster_offset h = 0 \<or> h_cluster_count h = 0 then (0, fs)
      else let one = (h_flags h AND 1 = 0);
               fs = fs\<lparr>fs_cluster_count := h_cluster_count h, fs_cluster_shift := 9 + h_cluster_shift h,
                       fs_table := fs_base fs + ucast (h_fat_offset h), fs_heap := fs_base fs + ucast (h_cluster_offset h)\<rparr> in
        if h_fat_count h \<noteq> 2 \<and> \<not> (h_fat_count h = 1 \<and> one) then (0, fs)
        else let fs = (if h_fat_count h = 2 \<and> \<not> one then fs\<lparr>fs_table := fs_table fs + ucast (h_fat_length h)\<rparr> else fs) in
          if align_up (ucast (2 + fs_cluster_count fs) * 4 :: qword) 0x200 div 0x200 > ucast (h_fat_length h) then (0, fs)
          else if fs_table fs + ucast (h_fat_length h * ucast (h_fat_count h)) > fs_heap fs then (0, fs)
          else if fs_heap fs + ucast (fs_cluster_count fs) * push_bit (unat (h_cluster_shift h)) 1 > fs_top fs then (0, fs)
          else if h_root_dir h < 2 then (0, fs)
          else ((if one then 0 else 0x80000000) OR h_root_dir h, fs))"

definition parse_header :: "exfat_header \<Rightarrow> exfat \<Rightarrow> dword \<times> exfat" where
  "parse_header h fs =
     (if h_signature h \<noteq> 0xAA55 \<or> h_fs_name h \<noteq> exfat_name \<or> list_ex (\<lambda>b. b \<noteq> 0) (h_zero h) \<or> h_version h \<noteq> 0x0100 \<or> h_sector_shift h \<noteq> 9 \<or>
         h_base h \<noteq> fs_base fs \<or> (fs_top fs \<noteq> 0 \<and> h_base h + h_limit h > fs_top fs) then (0, fs)
      else parse_layout h (fs\<lparr>fs_top := h_base h + h_limit h\<rparr>))"

section \<open>The master boot record and the checksum\<close>

text \<open>Entry \<open>k\<close> of the partition table: an active exFAT entry is taken, inactive entries and active ones of another type are skipped, any other state byte ends the search.\<close>

primrec mbr_find :: "nat \<Rightarrow> nat \<Rightarrow> sector \<Rightarrow> (qword \<times> qword) option" where
  "mbr_find 0 off f = None"
| "mbr_find (Suc n) off f =
     (if f off = 0x80 \<and> f (off + 4) = 0x07 then
        Some (of_nat (get_le 4 f (off + 8)), of_nat (get_le 4 f (off + 8)) + of_nat (get_le 4 f (off + 12)))
      else if f off = 0x80 \<or> f off = 0 then mbr_find n (off + 0x10) f
      else None)"

definition rot_right :: "dword \<Rightarrow> dword" where
  "rot_right acc = (if acc AND 1 \<noteq> 0 then 0x80000000 else 0) OR drop_bit 1 acc"

primrec sector_sum :: "nat \<Rightarrow> nat \<Rightarrow> sector \<Rightarrow> dword \<Rightarrow> dword" where
  "sector_sum 0 sec f acc = acc"
| "sector_sum (Suc i) sec f acc =
     (let acc = sector_sum i sec f acc in
      if sec = 0 \<and> (i = 0x6A \<or> i = 0x6B \<or> i = 0x70) then acc else rot_right acc + ucast (f i))"

primrec boot_sum :: "nat \<Rightarrow> qword \<Rightarrow> volume \<Rightarrow> dword" where
  "boot_sum 0 base m = 0"
| "boot_sum (Suc sec) base m = sector_sum 512 sec (m (base + of_nat sec)) (boot_sum sec base m)"

section \<open>The root directory\<close>

text \<open>The records of one sector: the position of the end mark, if there is one, and the allocation bitmap found so far.\<close>

primrec root_records :: "exfat \<Rightarrow> byte \<Rightarrow> sector \<Rightarrow> nat \<Rightarrow> nat \<Rightarrow> qword \<Rightarrow> (nat option \<times> qword) res" where
  "root_records fs fat_index f 0 k bmp = Inr (None, bmp)"
| "root_records fs fat_index f (Suc n) k bmp =
     (let off = 0x20 * k in
      if f off = 0 then Inr (Some k, bmp)
      else rbind (if f off = 0x81 \<and> fat_index = f (off + 1) AND 1 \<and> unat (align_up (fs_cluster_count fs) 8 div 8) \<le> get_le 8 f (off + 0x18)
                  then lba_of_cluster fs (of_nat (get_le 4 f (off + 0x14))) else Inr bmp) (\<lambda>bmp.
        root_records fs fat_index f n (Suc k) bmp))"

primrec root_scan :: "nat \<Rightarrow> exfat \<Rightarrow> (qword \<Rightarrow> bool) \<Rightarrow> volume \<Rightarrow> byte \<Rightarrow> dword \<Rightarrow> nat \<Rightarrow> qword \<Rightarrow> (nat \<times> qword) res" where
  "root_scan 0 fs bad m fat_index cluster index bmp = Inl OutOfFuel"
| "root_scan (Suc n) fs bad m fat_index cluster index bmp =
     rbind (lba_of_cluster fs cluster) (\<lambda>lba.
       if lba = 0 \<or> bad lba then bugcheck ''failed reading exFAT root directory''
       else rbind (root_records fs fat_index (m lba) 16 0 bmp) (\<lambda>(stop, bmp). case stop of
           Some k \<Rightarrow> Inr (index + k, bmp)
         | None \<Rightarrow>
             let lba = lba_of_fat fs (cluster div element_per_sector) in
             if lba = 0 \<or> bad lba then bugcheck ''failed reading exFAT root directory''
             else let next = of_nat (get_le 4 (m lba) (fat_offset cluster)) in
               if next < tail_mark then root_scan n fs bad m fat_index next (index + 16) bmp
               else bugcheck ''failed reading exFAT root directory''))"

definition locate_volume :: "(qword \<Rightarrow> bool) \<Rightarrow> volume \<Rightarrow> exfat \<Rightarrow> (dword \<times> exfat) res" where
  "locate_volume bad m fs =
     (if bad 0 then bugcheck ''failed reading exFAT header''
      else let (root, fs) = parse_header (read_header (m 0)) (fs\<lparr>fs_base := 0\<rparr>) in
        if root \<noteq> 0 then Inr (root, fs)
        else if get_le 2 (m 0) 0x1FE \<noteq> 0xAA55 then bugcheck ''boot partition bad signature''
        else case mbr_find 4 0x1BE (m 0) of
          None \<Rightarrow> bugcheck ''failed to locate exFAT partition in MBR''
        | Some (base, limit) \<Rightarrow>
            if base = 0 then bugcheck ''failed to locate exFAT partition in MBR''
            else let fs = fs\<lparr>fs_base := base, fs_top := limit\<rparr> in
              if bad base then bugcheck ''failed reading exFAT header''
              else let (root, fs) = parse_header (read_header (m base)) fs in
                if root \<noteq> 0 then Inr (root, fs) else bugcheck ''failed to locate exFAT partition'')"

text \<open>Result: the volume, the first cluster of the root directory and its size in bytes.\<close>

definition mount :: "nat \<Rightarrow> (qword \<Rightarrow> bool) \<Rightarrow> volume \<Rightarrow> exfat \<Rightarrow> (exfat \<times> dword \<times> nat) res" where
  "mount fuel bad m fs = rbind (locate_volume bad m fs) (\<lambda>(root, fs).
     if list_ex (\<lambda>k. bad (fs_base fs + of_nat k)) [1..<12] then bugcheck ''failed reading exFAT boot area''
     else if of_nat (get_le 4 (m (fs_base fs + 11)) 0) \<noteq> boot_sum 11 (fs_base fs) m then bugcheck ''exFAT checksum mismatch''
     else let fat_index = (if root AND 0x80000000 \<noteq> 0 then 1 else 0); root = root AND 0x7FFFFFFF in
       if root = 0 then bugcheck ''failed locating root directory''
       else rbind (root_scan fuel fs bad m fat_index root 0 0) (\<lambda>(index, bmp).
         if bmp = 0 \<or> bmp \<ge> fs_top fs then bugcheck ''exFAT invalid allocation bitmap''
         else Inr (fs\<lparr>fs_bitmap := bmp\<rparr>, root, 0x20 * index)))"

section \<open>Writing state\<close>

abbreviation ALLOW_WRITE :: hword where "ALLOW_WRITE \<equiv> 2"
abbreviation STOPPING :: hword where "STOPPING \<equiv> 0x80"

definition set_dirty :: "bool \<Rightarrow> sector \<Rightarrow> sector" where
  "set_dirty v f = f(0x6A := if v then f 0x6A OR 2 else f 0x6A AND NOT 2)"

definition set_rw :: "(qword \<Rightarrow> bool) \<Rightarrow> bool \<Rightarrow> exfat \<Rightarrow> volume \<Rightarrow> bool \<times> exfat \<times> volume" where
  "set_rw bad force fs m =
     (if fs_flags fs \<noteq> 0 then (False, fs, m)
      else let fs = fs\<lparr>fs_flags := ALLOW_WRITE\<rparr> in
        if bad (fs_base fs) then (False, fs, m)
        else let v = m (fs_base fs) 0x6A AND 2; fs = fs\<lparr>fs_volume_state := v\<rparr> in
          (v = 0, fs, if v = 0 \<or> force then m(fs_base fs := set_dirty True (m (fs_base fs))) else m))"

definition fs_stop :: "(qword \<Rightarrow> bool) \<Rightarrow> exfat \<Rightarrow> volume \<Rightarrow> bool \<times> exfat \<times> volume" where
  "fs_stop bad fs m =
     (if fs_flags fs \<noteq> ALLOW_WRITE then (False, fs, m)
      else let fs = fs\<lparr>fs_flags := ALLOW_WRITE OR STOPPING\<rparr> in
        if fs_volume_state fs \<noteq> 0 then (True, fs, m)
        else if bad (fs_base fs) then (False, fs, m)
        else (True, fs, m(fs_base fs := set_dirty False (m (fs_base fs)))))"

definition is_rw :: "exfat \<Rightarrow> bool" where "is_rw fs \<longleftrightarrow> fs_flags fs AND ALLOW_WRITE \<noteq> 0"
definition is_running :: "exfat \<Rightarrow> bool" where "is_running fs \<longleftrightarrow> fs_flags fs AND STOPPING = 0"

section \<open>Properties\<close>

lemma sector_sum_cong:
  "(\<And>i. i < n \<Longrightarrow> \<not> (sec = 0 \<and> (i = 0x6A \<or> i = 0x6B \<or> i = 0x70)) \<Longrightarrow> f i = g i) \<Longrightarrow> sector_sum n sec f acc = sector_sum n sec g acc"
  by (induction n) (auto simp: Let_def)

lemma boot_sum_dirty:
  assumes "n \<le> 12"
  shows "boot_sum n base (m(base := set_dirty v (m base))) = boot_sum n base m"
  using assms
proof (induction n)
  case (Suc n)
  let ?m = "m(base := set_dirty v (m base))"
  have "sector_sum 512 n (?m (base + of_nat n)) acc = sector_sum 512 n (m (base + of_nat n)) acc" for acc
  proof (cases "n = 0")
    case True
    show ?thesis by (rule sector_sum_cong) (auto simp: True set_dirty_def)
  next
    case False
    then have "(of_nat n :: qword) \<noteq> 0" using Suc.prems by (simp add: word_unat_eq_iff unat_of_nat)
    then show ?thesis by simp
  qed
  then show ?case using Suc by simp
qed simp

text \<open>The flag that marks a volume as being written is outside the checksum of the boot area, and stopping a volume that was clean when it was made writable
  restores its boot record: \<open>set_rw\<close> marks it, no second \<open>set_rw\<close> succeeds, and \<open>stop\<close> gives back the original contents of the disk.\<close>

theorem rw_round_trip:
  assumes "fs_flags fs = 0" "m (fs_base fs) 0x6A AND 2 = 0" "\<not> bad (fs_base fs)"
  shows "\<exists>fs1 m1 fs2. set_rw bad force fs m = (True, fs1, m1) \<and> is_rw fs1 \<and> is_running fs1 \<and> m1 (fs_base fs) 0x6A AND 2 \<noteq> 0 \<and>
    boot_sum 11 (fs_base fs) m1 = boot_sum 11 (fs_base fs) m \<and> \<not> fst (set_rw bad force fs1 m1) \<and>
    fs_stop bad fs1 m1 = (True, fs2, m) \<and> \<not> is_running fs2"
proof -
  let ?b = "m (fs_base fs) 0x6A"
  let ?m = "m(fs_base fs := set_dirty True (m (fs_base fs)))"
  have or_and: "(?b OR 2) AND 2 = 2" by (auto intro!: bit_eqI simp: bit_simps)
  have n2: "\<not> bit ?b 1"
  proof
    assume "bit ?b 1"
    then have "bit (?b AND 2) 1" by (simp add: bit_simps)
    then show False using assms(2) by simp
  qed
  have clear: "(?b OR 2) AND NOT 2 = ?b"
  proof (rule bit_eqI)
    fix n show "bit ((?b OR 2) AND NOT 2) n = bit ?b n" using n2 bit_byte [of ?b n] by (cases "n = 1") (auto simp: bit_simps bit_2_iff)
  qed
  have restore: "(set_dirty True (m (fs_base fs)))(0x6A := ?b) = m (fs_base fs)" by (simp add: set_dirty_def)
  have "set_rw bad force fs m = (True, fs\<lparr>fs_flags := 2, fs_volume_state := 0\<rparr>, ?m)"
    using assms by (simp add: set_rw_def Let_def)
  moreover have "fs_stop bad (fs\<lparr>fs_flags := 2, fs_volume_state := 0\<rparr>) ?m = (True, fs\<lparr>fs_flags := 0x82, fs_volume_state := 0\<rparr>, m)"
    using assms clear restore by (simp add: fs_stop_def Let_def set_dirty_def)
  moreover have "boot_sum 11 (fs_base fs) ?m = boot_sum 11 (fs_base fs) m" by (rule boot_sum_dirty) simp
  moreover have "\<not> fst (set_rw bad force (fs\<lparr>fs_flags := 2, fs_volume_state := 0\<rparr>) ?m)" by (simp add: set_rw_def)
  ultimately show ?thesis using or_and by (auto simp: is_rw_def is_running_def set_dirty_def)
qed

theorem rw_round_trip_witness:
  "\<exists>fs1 m1 fs2. set_rw (\<lambda>_. False) False small_fs (\<lambda>_ _. 0) = (True, fs1, m1) \<and> fs_stop (\<lambda>_. False) fs1 m1 = (True, fs2, \<lambda>_ _. 0)"
  using rw_round_trip [of small_fs "\<lambda>_ _. 0" "\<lambda>_. False" False] by (auto simp: small_fs_def)

text \<open>What an accepted record promises, over natural numbers. The sizes that the code adds and multiplies in 32 and 64 bits must fit.\<close>

definition sizes_fit :: "exfat_header \<Rightarrow> exfat \<Rightarrow> bool" where
  "sizes_fit h fs \<longleftrightarrow> unat (fs_base fs) < 2 ^ 60 \<and> unat (h_cluster_count h) \<le> 0xFFFFFF00 \<and> unat (h_cluster_shift h) \<le> 16 \<and>
     unat (h_fat_length h) * unat (h_fat_count h) < 2 ^ 32"

lemma unat_up: "unat (ucast x :: qword) = unat x" for x :: dword
proof -
  have "unat x < 2 ^ LENGTH(32)" by (rule unsigned_less)
  then show ?thesis by (simp add: unsigned_ucast_eq take_bit_nat_eq_self)
qed

lemma unat_up_byte: "unat (ucast x :: dword) = unat x" for x :: byte
proof -
  have "unat x < 2 ^ LENGTH(8)" by (rule unsigned_less)
  then show ?thesis by (simp add: unsigned_ucast_eq take_bit_nat_eq_self)
qed

lemma unat_add_fit: "unat a + unat b < 2 ^ 64 \<Longrightarrow> unat (a + b) = unat a + unat b" for a b :: qword
  by (simp add: unat_word_ariths)

lemma ceil_div: "((x :: nat) + (k - 1)) div k * k div k = (x + (k - 1)) div k"
  by (cases "k = 0") simp_all

definition layout_ok :: "exfat_header \<Rightarrow> exfat \<Rightarrow> bool" where
  "layout_ok h fs \<longleftrightarrow> 0 < clusters fs \<and> clusters fs \<le> 0xFFFFFF00 \<and> 24 \<le> unat (fs_table fs) \<and> unat (fs_cluster_shift fs) \<le> 25 \<and> 9 \<le> unat (fs_cluster_shift fs) \<and>
     unat (fs_table fs) + (clusters fs + 2 + 127) div 128 \<le> unat (fs_heap fs) \<and>
     unat (fs_heap fs) + clusters fs * 2 ^ (unat (fs_cluster_shift fs) - 9) \<le> unat (fs_top fs)"

lemma parse_layout_ok:
  assumes p: "parse_layout h fs = (r, fs')" "r \<noteq> 0" and fit: "sizes_fit h fs"
  shows "layout_ok h fs'"
proof -
  let ?c = "h_cluster_count h" and ?len = "h_fat_length h" and ?n = "h_fat_count h" and ?sh = "unat (h_cluster_shift h)"
  let ?t = "fs_base fs + ucast (h_fat_offset h) :: qword" and ?hp = "fs_base fs + ucast (h_cluster_offset h) :: qword"
  define t' where "t' = (if ?n = 2 \<and> h_flags h AND 1 \<noteq> 0 then ?t + ucast ?len else ?t)"
  have f: "24 \<le> h_fat_offset h" "?c \<noteq> 0" "?n = 2 \<or> ?n = 1" "fs_cluster_count fs' = ?c" "fs_cluster_shift fs' = 9 + h_cluster_shift h" "fs_heap fs' = ?hp"
    "fs_table fs' = t'" "fs_top fs' = fs_top fs"
    and a: "align_up (ucast (2 + ?c) * 4 :: qword) 0x200 div 0x200 \<le> ucast ?len" and b: "t' + ucast (?len * ucast ?n) \<le> ?hp"
    and c: "?hp + ucast ?c * push_bit ?sh 1 \<le> fs_top fs"
    using p unfolding t'_def by (auto simp: parse_layout_def Let_def not_less split: if_splits)
  have base: "unat (fs_base fs) < 2 ^ 60" and cnt: "unat ?c \<le> 0xFFFFFF00" and sh: "?sh \<le> 16" and ln: "unat ?len * unat ?n < 2 ^ 32"
    using fit by (auto simp: sizes_fit_def)
  have d32: "unat x < 2 ^ 32" for x :: dword using unsigned_less [of x] by simp
  have ut: "unat ?t = unat (fs_base fs) + unat (h_fat_offset h)" "unat ?hp = unat (fs_base fs) + unat (h_cluster_offset h)"
    using base d32 [of "h_fat_offset h"] d32 [of "h_cluster_offset h"] by (simp_all add: unat_add_fit unat_up)
  have t': "24 \<le> unat t'" "unat t' < 2 ^ 62"
    using ut(1) base d32 [of "h_fat_offset h"] d32 [of ?len] f(1) by (auto simp: t'_def unat_add_fit unat_up word_le_nat_alt)
  have "unat (ucast (?len * ucast ?n) :: qword) = unat ?len * unat ?n" using ln by (simp add: unat_up unat_word_ariths unat_up_byte)
  then have "unat t' + unat ?len * unat ?n \<le> unat ?hp" using b t'(2) ln by (simp add: word_le_nat_alt unat_add_fit)
  moreover have "unat ?len \<le> unat ?len * unat ?n" using f(3) by auto
  ultimately have tl: "unat t' + unat ?len \<le> unat ?hp" by linarith
  have c2: "unat (2 + ?c) = unat ?c + 2" using cnt by (simp add: unat_word_ariths)
  have x4: "unat (ucast (2 + ?c) * 4 :: qword) = 4 * (unat ?c + 2)" using cnt by (simp add: unat_word_ariths unat_up c2)
  have "unat (align_up (ucast (2 + ?c) * 4 :: qword) (2 ^ 9)) = (4 * (unat ?c + 2) + (2 ^ 9 - 1)) div 2 ^ 9 * 2 ^ 9"
    using unat_align_up [of 9 "ucast (2 + ?c) * 4 :: qword"] cnt x4 by simp
  then have "(4 * (unat ?c + 2) + 511) div 512 \<le> unat ?len" using a by (simp add: word_le_nat_alt unat_div_distrib unat_up)
  moreover have "(4 * y + 511) div 512 = (y + 127) div 128" for y :: nat
  proof -
    have "(4 * y + 511) div 512 = (4 * y + 511) div 4 div 128" by (simp add: div_mult2_eq [symmetric])
    also have "(4 * y + 511) div 4 = y + 127" by simp
    finally show ?thesis .
  qed
  ultimately have fat: "unat t' + (unat ?c + 2 + 127) div 128 \<le> unat ?hp" using tl by simp
  have "unat (push_bit ?sh 1 :: qword) = 2 ^ ?sh" using sh by (simp add: push_bit_eq_mult unat_pow2)
  moreover have "unat ?c * 2 ^ ?sh < 2 ^ 48"
  proof -
    have "(2 :: nat) ^ ?sh \<le> 2 ^ 16" using sh by (intro power_increasing) simp_all
    then have "unat ?c * 2 ^ ?sh \<le> 0xFFFFFF00 * 2 ^ 16" using cnt by (intro mult_le_mono)
    then show ?thesis by simp
  qed
  ultimately have "unat ?hp + unat ?c * 2 ^ ?sh \<le> unat (fs_top fs)"
    using c ut(2) base d32 [of "h_cluster_offset h"] by (simp add: word_le_nat_alt unat_add_fit unat_word_ariths unat_up)
  moreover have "unat (9 + h_cluster_shift h) = 9 + ?sh" using sh by (simp add: unat_word_ariths)
  ultimately show ?thesis using f fat t' cnt sh by (auto simp: layout_ok_def word_gt_0_no unat_gt_0)
qed

lemma layout_fat:
  assumes "layout_ok h fs" "2 \<le> c" "unat c < clusters fs + 2"
  shows "unat (lba_of_fat fs (c div element_per_sector)) < unat (fs_heap fs) \<and> fs_table fs \<le> lba_of_fat fs (c div element_per_sector) \<and> in_table fs c"
proof -
  have l: "clusters fs \<le> 0xFFFFFF00" "24 \<le> unat (fs_table fs)" "unat (fs_table fs) + (clusters fs + 2 + 127) div 128 \<le> unat (fs_heap fs)"
    using assms(1) by (auto simp: layout_ok_def)
  have u2: "unat (fs_cluster_count fs + 2) = clusters fs + 2" using l(1) by (simp add: unat_word_ariths)
  have "unat (align_up (fs_cluster_count fs + 2) (2 ^ 7)) = (clusters fs + 2 + (2 ^ 7 - 1)) div 2 ^ 7 * 2 ^ 7"
    using unat_align_up [of 7 "fs_cluster_count fs + 2"] l(1) u2 by simp
  then have up: "unat (align_up (fs_cluster_count fs + 2) element_per_sector div element_per_sector) = (clusters fs + 129) div 128"
    by (simp add: element_per_sector_def unat_div_distrib)
  have q: "unat (c div element_per_sector) = unat c div 128" by (simp add: element_per_sector_def unat_div_distrib)
  have "unat c div 128 \<le> (clusters fs + 1) div 128" using assms(3) by (intro div_le_mono) simp
  also have "\<dots> < (clusters fs + 129) div 128" using div_add_self2 [of 128 "clusters fs + 1"] by simp
  finally have lt: "unat c div 128 < (clusters fs + 129) div 128" .
  then have in_t: "c div element_per_sector < align_up (fs_cluster_count fs + 2) element_per_sector div element_per_sector" by (simp add: word_less_nat_alt up q)
  then have lba: "lba_of_fat fs (c div element_per_sector) = fs_table fs + ucast (c div element_per_sector)" by (simp add: lba_of_fat_def)
  have hp: "unat (fs_heap fs) < 2 ^ 64" using unsigned_less [of "fs_heap fs"] by simp
  have u: "unat (fs_table fs + ucast (c div element_per_sector)) = unat (fs_table fs) + unat c div 128"
    using lt l(3) hp by (subst unat_add_fit) (simp_all add: unat_up q)
  then have nz: "fs_table fs + ucast (c div element_per_sector) \<noteq> 0" using l(2) by auto
  show ?thesis using assms(2) nz lt l(3) unfolding in_table_def lba by (simp add: word_le_nat_alt u)
qed

lemma layout_cluster:
  assumes "layout_ok h fs" "2 \<le> c" "unat c < clusters fs + 2"
  shows "\<exists>lba. lba_of_cluster fs c = Inr lba \<and> fs_heap fs \<le> lba \<and> unat lba + unat (fs_cluster_size fs) div 512 \<le> unat (fs_top fs)"
proof -
  let ?s = "unat (fs_cluster_shift fs)"
  have l: "clusters fs \<le> 0xFFFFFF00" "?s \<le> 25" "9 \<le> ?s" "unat (fs_heap fs) + clusters fs * 2 ^ (?s - 9) \<le> unat (fs_top fs)"
    using assms(1) by (auto simp: layout_ok_def)
  have c2: "unat (c - 2) = unat c - 2" using assms(2) by (simp add: unat_sub)
  have ge: "2 \<le> unat c" using assms(2) by (simp add: word_le_nat_alt)
  have cs: "unat (fs_cluster_size fs) = 2 ^ ?s" using l(2) by (simp add: fs_cluster_size_def push_bit_eq_mult unat_pow2)
  have dv: "(2 :: nat) ^ ?s div 512 = 2 ^ (?s - 9)"
  proof -
    have "(2 :: nat) ^ ?s = 2 ^ (?s - 9 + 9)" using l(3) by simp
    also have "\<dots> = 2 ^ (?s - 9) * 2 ^ 9" by (rule power_add)
    finally have "(2 :: nat) ^ ?s = 2 ^ (?s - 9) * 2 ^ 9" .
    then show ?thesis by simp
  qed
  have sec: "unat (ucast (fs_cluster_size fs) div 0x200 :: qword) = 2 ^ (?s - 9)" by (simp add: unat_div_distrib unat_up cs dv)
  have tp: "unat (fs_top fs) < 2 ^ 64" using unsigned_less [of "fs_top fs"] by simp
  have "(unat c - 2) * 2 ^ (?s - 9) + 2 ^ (?s - 9) = (unat c - 1) * 2 ^ (?s - 9)" using ge by (simp add: algebra_simps)
  also have "\<dots> \<le> clusters fs * 2 ^ (?s - 9)" using assms(3) ge by (intro mult_le_mono1) simp
  finally have fits: "(unat c - 2) * 2 ^ (?s - 9) + 2 ^ (?s - 9) \<le> clusters fs * 2 ^ (?s - 9)" .
  have small: "(unat c - 2) * 2 ^ (?s - 9) < 2 ^ 64" using fits l(4) tp by linarith
  have prod: "unat (ucast (c - 2) * (ucast (fs_cluster_size fs) div 0x200) :: qword) = (unat c - 2) * 2 ^ (?s - 9)"
    unfolding unat_word_ariths(2) unat_up c2 sec using small by simp
  have u: "unat (fs_heap fs + ucast (c - 2) * (ucast (fs_cluster_size fs) div 0x200)) = unat (fs_heap fs) + (unat c - 2) * 2 ^ (?s - 9)"
    using fits l(4) tp by (subst unat_add_fit) (simp_all add: prod)
  have "c < 0xFFFFFFF7" "\<not> fs_cluster_count fs \<le> c - 2" using assms(3) l(1) ge by (simp_all add: word_less_nat_alt word_le_nat_alt c2)
  then have "lba_of_cluster fs c = Inr (fs_heap fs + ucast (c - 2) * (ucast (fs_cluster_size fs) div 0x200))"
    using assms(2) by (simp add: lba_of_cluster_def)
  then show ?thesis using fits l(4) by (simp add: word_le_nat_alt u cs dv)
qed


definition good_header :: exfat_header where
  "good_header = \<lparr>h_fs_name = exfat_name, h_zero = replicate 53 0, h_base = 0, h_limit = 1000, h_fat_offset = 24, h_fat_length = 8, h_cluster_offset = 64,
     h_cluster_count = 100, h_root_dir = 4, h_version = 0x0100, h_flags = 0, h_sector_shift = 9, h_cluster_shift = 3, h_fat_count = 1, h_signature = 0xAA55\<rparr>"


text \<open>A limit of \<open>thread_init\<close>: it reads only the first sector of each cluster of the root directory. When that sector is full and the cluster is the last one, mounting
  stops the kernel, whatever the other sectors of the cluster hold.\<close>

lemma full_first_root_sector_stops:
  assumes "lba_of_cluster fs c = Inr lba" "lba \<noteq> 0" "\<not> bad lba" "root_records fs fi (m lba) 16 0 bmp = Inr (None, bmp')"
    "in_table fs c" "tail_mark \<le> fat_entry fs bad m c"
  shows "root_scan (Suc n) fs bad m fi c index bmp = bugcheck ''failed reading exFAT root directory''"
proof -
  have "tail_mark \<noteq> 0" by (simp add: tail_mark_def)
  then have "\<not> bad (lba_of_fat fs (c div element_per_sector))" using assms(6) by (auto simp: fat_entry_def Let_def tail_mark_def)
  then show ?thesis using assms by (auto simp: fat_entry_def Let_def in_table_def not_less)
qed

end
