(* ===== verification/Exfat_Dir.thy ===== *)
theory Exfat_Dir
  imports Exfat
begin

text \<open>
  Directories (\<open>folder_instance::reader\<close> and \<open>file_instance::get_lba\<close> of \<^verbatim>\<open>filesystem/instance.cpp\<close>, \<open>name_hash\<close> and \<open>name_equal\<close> of \<^verbatim>\<open>include/exfat.hpp\<close>). A record is a list of 32 bytes. The reader collects the
  records of a file: a file record (type \<open>0x85\<close>), a stream record (\<open>0xC0\<close>) and name records (\<open>0xC1\<close>), and checks their checksum.
\<close>

type_synonym drec = "byte list"

abbreviation ALLOW_FILE :: byte where "ALLOW_FILE \<equiv> 8"
abbreviation ALLOW_FOLDER :: byte where "ALLOW_FOLDER \<equiv> 0x10"
abbreviation CHECK_HASH :: byte where "CHECK_HASH \<equiv> 0x40"
abbreviation FOLDER :: byte where "FOLDER \<equiv> 0x10"
abbreviation EOF_FAILURE :: byte where "EOF_FAILURE \<equiv> 1"
abbreviation FS_FAILURE :: byte where "FS_FAILURE \<equiv> 0x10"
abbreviation MEDIA_FAILURE :: byte where "MEDIA_FAILURE \<equiv> 0x20"

section \<open>Names\<close>

definition upcase :: "byte \<Rightarrow> byte" where
  "upcase ch = (if 0x61 \<le> ch \<and> ch \<le> 0x7A then ch AND NOT 0x20 else ch)"

definition rot16 :: "hword \<Rightarrow> hword" where
  "rot16 s = (if s AND 1 \<noteq> 0 then 0x8000 else 0) OR drop_bit 1 s"

fun name_hash_loop :: "byte list \<Rightarrow> hword \<Rightarrow> hword" where
  "name_hash_loop [] s = s"
| "name_hash_loop (ch # str) s = name_hash_loop str (rot16 (rot16 s + ucast (upcase ch)))"

definition name_hash :: "byte list \<Rightarrow> hword" where "name_hash str = name_hash_loop str 0"

definition char_equal :: "byte \<Rightarrow> byte \<Rightarrow> bool" where
  "char_equal x y \<longleftrightarrow> x = y \<or> (x XOR y = 0x20 \<and> 0x41 \<le> x AND NOT 0x20 \<and> x AND NOT 0x20 \<le> 0x5A)"

definition name_equal :: "byte list \<Rightarrow> byte list \<Rightarrow> bool" where
  "name_equal a b \<longleftrightarrow> length a = length b \<and> match_loop char_equal a b (length a) = length a"

section \<open>Locating sectors\<close>

definition inst_lba :: "exfat \<Rightarrow> (qword \<Rightarrow> bool) \<Rightarrow> volume \<Rightarrow> qword \<Rightarrow> chain \<Rightarrow> (qword \<times> chain) res" where
  "inst_lba fs bad m offset ch =
     (let size = ucast (fs_cluster_size fs) :: qword in
      rbind (chain_get fs bad m (ucast (offset div size)) ch) (\<lambda>(cluster, ch).
        if cluster = 0 then Inr (0, ch)
        else rbind (lba_of_cluster fs cluster) (\<lambda>base. Inr (if base \<noteq> 0 then base + offset mod size div 0x200 else 0, ch))))"

section \<open>The reader\<close>

fun checksum_loop :: "nat \<Rightarrow> byte list \<Rightarrow> hword \<Rightarrow> hword" where
  "checksum_loop i [] s = s"
| "checksum_loop i (b # bs) s = checksum_loop (Suc i) bs (if i = 2 \<or> i = 3 then s else rot16 s + ucast b)"

definition checksum :: "drec list \<Rightarrow> hword" where "checksum recs = checksum_loop 0 (concat recs) 0"

definition rec_word :: "drec \<Rightarrow> nat \<Rightarrow> hword" where
  "rec_word r i = ucast (r ! i) OR push_bit 8 (ucast (r ! (i + 1)))"

datatype dstep = More "drec list" | Found "drec list" | Stop

text \<open>One record; \<open>More\<close> carries the list for the next record.\<close>

definition step_record :: "byte \<Rightarrow> hword \<Rightarrow> drec \<Rightarrow> drec list \<Rightarrow> dstep" where
  "step_record mode hash r lst =
     (let type = r ! 0 in
      if type = 0 then Stop
      else if mode \<noteq> 0 \<and> type > 0x80 then
        (if type = 0x85 then
           (if r ! 1 < 2 then More []
            else if (if r ! 4 AND FOLDER \<noteq> 0 then ALLOW_FOLDER else ALLOW_FILE) AND mode = 0 then More []
            else More [r])
         else if type = 0xC0 then
           (if length lst \<noteq> 1 then More []
            else if mode AND CHECK_HASH \<noteq> 0 \<and> hash \<noteq> rec_word r 4 then More []
            else More (lst @ [r]))
         else if type = 0xC1 then
           (if length lst < 2 then More []
            else let lst = lst @ [r] in
              if length lst < unat (hd lst ! 1) then More lst
              else if checksum lst \<noteq> rec_word (hd lst) 2 then More []
              else Found lst)
         else More [])
      else More [])"

text \<open>The records of a sector from \<open>index\<close> to its end. Result: a status, the index and the list, or the index and list to go on with.\<close>

primrec step_sector :: "byte \<Rightarrow> hword \<Rightarrow> (nat \<Rightarrow> drec) \<Rightarrow> nat \<Rightarrow> nat \<Rightarrow> drec list \<Rightarrow> byte option \<times> nat \<times> drec list" where
  "step_sector mode hash recs 0 index lst = (None, index, lst)"
| "step_sector mode hash recs (Suc n) index lst =
     (case step_record mode hash (recs (index mod 16)) lst of
        Stop \<Rightarrow> (Some EOF_FAILURE, index, lst)
      | Found lst \<Rightarrow> (Some 0, Suc index, lst)
      | More lst \<Rightarrow> step_sector mode hash recs n (Suc index) lst)"

definition sector_rec :: "sector \<Rightarrow> nat \<Rightarrow> drec" where
  "sector_rec f k = map (\<lambda>i. f (0x20 * k + i)) [0..<0x20]"

text \<open>\<open>limit\<close> is the number of records in the valid part of the directory; at most one sector is read per turn.\<close>

primrec dir_step :: "nat \<Rightarrow> exfat \<Rightarrow> (qword \<Rightarrow> bool) \<Rightarrow> volume \<Rightarrow> byte \<Rightarrow> hword \<Rightarrow> nat \<Rightarrow> nat \<Rightarrow> drec list \<Rightarrow> chain \<Rightarrow>
    (byte \<times> nat \<times> drec list \<times> chain) res" where
  "dir_step 0 fs bad m mode hash limit index lst ch = Inl OutOfFuel"
| "dir_step (Suc n) fs bad m mode hash limit index lst ch =
     (if index \<ge> limit then Inr (EOF_FAILURE, index, [], ch)
      else rbind (inst_lba fs bad m (of_nat (index * 0x20)) ch) (\<lambda>(lba, ch).
        if lba = 0 then Inr (FS_FAILURE, index, [], ch)
        else if bad lba then Inr (MEDIA_FAILURE, index, [], ch)
        else case step_sector mode hash (sector_rec (m lba)) (16 - index mod 16) index lst of
            (Some stat, index, lst) \<Rightarrow> Inr (stat, index, if stat \<noteq> 0 then [] else lst, ch)
          | (None, index, lst) \<Rightarrow> dir_step n fs bad m mode hash limit index lst ch))"

text \<open>The name in the records of a file; empty when the records are not complete or a character does not fit a byte.\<close>

definition name_size :: "drec list \<Rightarrow> nat" where "name_size lst = unat (lst ! 1 ! 3)"
definition entrance_size :: "drec list \<Rightarrow> nat" where "entrance_size lst = unat (lst ! 0 ! 1)"

primrec name_chars :: "nat \<Rightarrow> drec list \<Rightarrow> byte list option" where
  "name_chars 0 lst = Some []"
| "name_chars (Suc i) lst = (case name_chars i lst of None \<Rightarrow> None
     | Some cs \<Rightarrow>
         if 2 + i div 15 > entrance_size lst then None
         else let ch = rec_word (lst ! (2 + i div 15)) (2 + 2 * (i mod 15)) in
           if ch = 0 \<or> ch AND 0xFF00 \<noteq> 0 then None else Some (cs @ [ucast ch]))"

definition get_name :: "bool \<Rightarrow> drec list \<Rightarrow> byte list" where
  "get_name label_folder lst =
     (if length lst < 2 \<or> entrance_size lst + 1 \<noteq> length lst then []
      else case name_chars (name_size lst) lst of None \<Rightarrow> []
        | Some cs \<Rightarrow> cs @ (if label_folder \<and> lst ! 0 ! 4 AND FOLDER \<noteq> 0 then [0x2F] else []))"

section \<open>Names that are equal have equal hashes\<close>

lemma bit_0x20: "bit (0x20 :: byte) n \<longleftrightarrow> n = 5"
proof -
  have "(0x20 :: byte) = 2 ^ 5" by simp
  then show ?thesis by (simp only: bit_exp_iff possible_bit_word) auto
qed

lemma clear_bit5:
  assumes "u AND 0x20 = 0"
  shows "(u OR 0x20) AND NOT 0x20 = (u :: byte)"
proof (rule bit_eqI)
  fix n
  have "\<not> bit (u AND 0x20) 5" using assms by simp
  then have "\<not> bit u 5" by (simp add: bit_and_iff bit_0x20)
  then show "bit ((u OR 0x20) AND NOT 0x20) n = bit u n"
    unfolding bit_and_iff bit_or_iff bit_not_iff bit_0x20 possible_bit_word using bit_byte [of u n] by (cases "n = 5") auto
qed

lemma bit5_cases:
  "bit x 5 \<Longrightarrow> x = (x AND NOT 0x20) OR 0x20 \<and> x XOR 0x20 = x AND NOT 0x20"
  "\<not> bit x 5 \<Longrightarrow> x = x AND NOT 0x20 \<and> x XOR 0x20 = (x AND NOT 0x20) OR 0x20" for x :: byte
proof -
  have b: "bit (x AND NOT 0x20) n \<longleftrightarrow> bit x n \<and> n \<noteq> 5" "bit (x XOR 0x20) n \<longleftrightarrow> (if n = 5 then \<not> bit x 5 else bit x n)"
    "bit ((x AND NOT 0x20) OR 0x20) n \<longleftrightarrow> bit x n \<or> n = 5" for n
    unfolding bit_and_iff bit_or_iff bit_xor_iff bit_not_iff bit_0x20 possible_bit_word using bit_byte [of x n] by auto
  show "x = (x AND NOT 0x20) OR 0x20 \<and> x XOR 0x20 = x AND NOT 0x20" if "bit x 5"
    using that by (intro conjI bit_eqI; unfold b) auto
  show "x = x AND NOT 0x20 \<and> x XOR 0x20 = (x AND NOT 0x20) OR 0x20" if "\<not> bit x 5"
    using that by (intro conjI bit_eqI; unfold b) auto
qed

lemma letter_cases:
  assumes "0x41 \<le> u" "u \<le> 0x5A" "u AND 0x20 = 0"
  shows "upcase u = u" "upcase (u OR 0x20) = u"
proof -
  show "upcase u = u" using assms(2) by (auto simp: upcase_def word_le_nat_alt)
  have s: "u OR 0x20 = u + 0x20" using assms(3) by (simp add: disjunctive_add_eq_or)
  have b: "0x41 \<le> unat u" "unat u \<le> 0x5A" using assms(1,2) by (simp_all add: word_le_nat_alt)
  then have "unat (u + 0x20) = unat u + 0x20" by (simp add: unat_word_ariths)
  then have r: "0x61 \<le> u OR 0x20" "u OR 0x20 \<le> 0x7A" using b unfolding s by (simp_all add: word_le_nat_alt)
  have "(u OR 0x20) AND NOT 0x20 = u" using assms(3) by (rule clear_bit5)
  then show "upcase (u OR 0x20) = u" using r by (simp add: upcase_def)
qed

lemma char_equal_upcase:
  assumes "char_equal x y"
  shows "upcase x = upcase y"
proof (cases "x = y")
  case False
  let ?u = "x AND NOT 0x20"
  have xy: "y = x XOR 0x20" and r: "0x41 \<le> ?u" "?u \<le> 0x5A"
    using assms False by (auto simp: char_equal_def) (metis xor.assoc xor.left_neutral xor_self_eq)
  have z: "?u AND 0x20 = 0" by (simp add: and.assoc)
  note c = letter_cases [OF r z]
  show ?thesis
  proof (cases "bit x 5")
    case True
    then have "x = ?u OR 0x20" "y = ?u" using bit5_cases [of x] xy by auto
    then show ?thesis using c by simp
  next
    case False
    then have "x = ?u" "y = ?u OR 0x20" using bit5_cases [of x] xy by auto
    then show ?thesis using c by simp
  qed
qed simp

lemma name_hash_loop_cong: "map upcase a = map upcase b \<Longrightarrow> name_hash_loop a s = name_hash_loop b s"
proof (induction a arbitrary: b s)
  case (Cons x a)
  then obtain y c where "b = y # c" "upcase x = upcase y" "map upcase a = map upcase c" by (cases b) auto
  then show ?case using Cons.IH [of c] by simp
qed simp

lemma name_equal_upcase: "name_equal a b \<Longrightarrow> map upcase a = map upcase b"
  by (auto simp: name_equal_def match_loop_full char_equal_upcase intro!: nth_equalityI)

section \<open>What the reader returns\<close>

definition file_rec :: "byte \<Rightarrow> drec \<Rightarrow> bool" where
  "file_rec mode r \<longleftrightarrow> r ! 0 = 0x85 \<and> 2 \<le> r ! 1 \<and> (if r ! 4 AND FOLDER \<noteq> 0 then ALLOW_FOLDER else ALLOW_FILE) AND mode \<noteq> 0"

definition stream_rec :: "byte \<Rightarrow> hword \<Rightarrow> drec \<Rightarrow> bool" where
  "stream_rec mode hash r \<longleftrightarrow> r ! 0 = 0xC0 \<and> (mode AND CHECK_HASH \<noteq> 0 \<longrightarrow> rec_word r 4 = hash)"

definition collecting :: "byte \<Rightarrow> hword \<Rightarrow> drec list \<Rightarrow> bool" where
  "collecting mode hash lst \<longleftrightarrow> lst = [] \<or> (\<exists>f. lst = [f] \<and> file_rec mode f) \<or>
     (\<exists>f t ns. lst = f # t # ns \<and> file_rec mode f \<and> stream_rec mode hash t \<and> (\<forall>n\<in>set ns. n ! 0 = 0xC1) \<and> (ns = [] \<or> length lst < unat (f ! 1)))"

definition entry_ok :: "byte \<Rightarrow> hword \<Rightarrow> drec list \<Rightarrow> bool" where
  "entry_ok mode hash lst \<longleftrightarrow> (\<exists>f t ns. lst = f # t # ns \<and> file_rec mode f \<and> stream_rec mode hash t \<and> ns \<noteq> [] \<and> (\<forall>n\<in>set ns. n ! 0 = 0xC1) \<and>
     checksum lst = rec_word f 2 \<and> length lst = max 3 (unat (f ! 1)))"

lemma step_record_types:
  shows "\<not> (mode \<noteq> 0 \<and> (r ! 0 = 0x85 \<or> r ! 0 = 0xC0 \<or> r ! 0 = 0xC1)) \<Longrightarrow> step_record mode hash r lst = Stop \<or> step_record mode hash r lst = More []"
    "mode \<noteq> 0 \<Longrightarrow> r ! 0 = 0x85 \<Longrightarrow> step_record mode hash r lst = (if file_rec mode r then More [r] else More [])"
    "mode \<noteq> 0 \<Longrightarrow> r ! 0 = 0xC0 \<Longrightarrow> step_record mode hash r lst = (if length lst = 1 \<and> stream_rec mode hash r then More (lst @ [r]) else More [])"
    "mode \<noteq> 0 \<Longrightarrow> r ! 0 = 0xC1 \<Longrightarrow> step_record mode hash r lst = (if length lst < 2 then More []
       else if length (lst @ [r]) < unat (hd (lst @ [r]) ! 1) then More (lst @ [r])
       else if checksum (lst @ [r]) \<noteq> rec_word (hd (lst @ [r])) 2 then More [] else Found (lst @ [r]))"
proof -
  show "\<not> (mode \<noteq> 0 \<and> (r ! 0 = 0x85 \<or> r ! 0 = 0xC0 \<or> r ! 0 = 0xC1)) \<Longrightarrow> step_record mode hash r lst = Stop \<or> step_record mode hash r lst = More []"
    unfolding step_record_def Let_def by presburger
  have lt: "(0x80 :: byte) < 0x85" "(0x80 :: byte) < 0xC0" "(0x80 :: byte) < 0xC1" by simp_all
  show "mode \<noteq> 0 \<Longrightarrow> r ! 0 = 0x85 \<Longrightarrow> step_record mode hash r lst = (if file_rec mode r then More [r] else More [])"
    by (simp add: step_record_def file_rec_def not_less [symmetric])
  show "mode \<noteq> 0 \<Longrightarrow> r ! 0 = 0xC0 \<Longrightarrow> step_record mode hash r lst = (if length lst = 1 \<and> stream_rec mode hash r then More (lst @ [r]) else More [])"
    by (auto simp: step_record_def stream_rec_def)
  show "mode \<noteq> 0 \<Longrightarrow> r ! 0 = 0xC1 \<Longrightarrow> step_record mode hash r lst = (if length lst < 2 then More []
       else if length (lst @ [r]) < unat (hd (lst @ [r]) ! 1) then More (lst @ [r])
       else if checksum (lst @ [r]) \<noteq> rec_word (hd (lst @ [r])) 2 then More [] else Found (lst @ [r]))"
    by (simp add: step_record_def Let_def)
qed

lemma step_record_ok:
  assumes "collecting mode hash lst"
  shows "case step_record mode hash r lst of Stop \<Rightarrow> True | More l \<Rightarrow> collecting mode hash l | Found l \<Rightarrow> entry_ok mode hash l"
proof (cases "mode \<noteq> 0 \<and> (r ! 0 = 0x85 \<or> r ! 0 = 0xC0 \<or> r ! 0 = 0xC1)")
  case False
  then have "step_record mode hash r lst = Stop \<or> step_record mode hash r lst = More []" by (rule step_record_types(1))
  then show ?thesis by (auto simp: collecting_def)
next
  case True
  have nil: "collecting mode hash []" by (simp add: collecting_def)
  from True consider (c1) "r ! 0 = 0x85" | (c2) "r ! 0 = 0xC0" | (c3) "r ! 0 = 0xC1" by blast
  then show ?thesis
  proof cases
    case c1
    then show ?thesis using step_record_types(2) [of mode r hash lst] True nil by (simp add: collecting_def)
  next
    case c2
    show ?thesis
    proof (cases "length lst = 1 \<and> stream_rec mode hash r")
      case yes: True
      then obtain f where "lst = [f]" "file_rec mode f" using assms by (auto simp: collecting_def)
      then show ?thesis using yes c2 True step_record_types(3) [of mode r hash lst] by (simp add: collecting_def)
    next
      case False
      then have "step_record mode hash r lst = More []" using c2 True step_record_types(3) [of mode r hash lst] by simp
      then show ?thesis using nil by simp
    qed
  next
    case c3
    show ?thesis
    proof (cases "length lst < 2")
      case short: True
      then have "step_record mode hash r lst = More []" using c3 True step_record_types(4) [of mode r hash lst] by simp
      then show ?thesis using nil by simp
    next
      case False
      then obtain f t ns where l: "lst = f # t # ns" "file_rec mode f" "stream_rec mode hash t" "\<forall>n\<in>set ns. n ! 0 = 0xC1" "ns = [] \<or> length lst < unat (f ! 1)"
        using assms by (auto simp: collecting_def)
      have two: "2 \<le> unat (f ! 1)" using l(2) by (simp add: file_rec_def word_le_nat_alt)
      note st = step_record_types(4) [of mode r hash lst]
      consider (a) "length (lst @ [r]) < unat (f ! 1)" "step_record mode hash r lst = More (lst @ [r])" | (b) "step_record mode hash r lst = More []"
        | (c) "\<not> length (lst @ [r]) < unat (f ! 1)" "checksum (lst @ [r]) = rec_word f 2" "step_record mode hash r lst = Found (lst @ [r])"
        using st True c3 False l(1) by (cases "length (lst @ [r]) < unat (f ! 1)"; cases "checksum (lst @ [r]) = rec_word f 2") simp_all
      then show ?thesis
      proof cases
        case a
        then show ?thesis using l c3 by (auto simp: collecting_def)
      next
        case b
        then show ?thesis using nil by simp
      next
        case c
        have "length (lst @ [r]) = max 3 (unat (f ! 1))" using l(1,5) c(1) two by (auto simp: max_def)
        then show ?thesis using l c c3 by (simp add: entry_ok_def)
      qed
    qed
  qed
qed

lemma step_sector_ok:
  "collecting mode hash lst \<Longrightarrow> step_sector mode hash recs n index lst = (st, index', lst') \<Longrightarrow>
     index \<le> index' \<and> index' \<le> index + n \<and> (st = None \<longrightarrow> index' = index + n \<and> collecting mode hash lst') \<and> (st = Some 0 \<longrightarrow> entry_ok mode hash lst')"
proof (induction n arbitrary: index lst)
  case (Suc n)
  note ok = step_record_ok [OF Suc.prems(1), of "recs (index mod 16)"]
  show ?case
  proof (cases "step_record mode hash (recs (index mod 16)) lst")
    case (More l)
    then have "step_sector mode hash recs n (Suc index) l = (st, index', lst')" "collecting mode hash l" using Suc.prems(2) ok by auto
    from Suc.IH [OF this(2,1)] show ?thesis by auto
  qed (use Suc.prems(2) ok in auto)
qed auto

lemma dir_step_ok:
  "collecting mode hash lst \<Longrightarrow> dir_step n fs bad m mode hash limit index lst ch = Inr (stat, index', lst', ch') \<Longrightarrow>
     index \<le> index' \<and> (stat = 0 \<longrightarrow> entry_ok mode hash lst') \<and> (stat \<noteq> 0 \<longrightarrow> lst' = [])"
proof (induction n arbitrary: index lst ch)
  case (Suc n)
  show ?case
  proof (cases "index \<ge> limit")
    case True
    then show ?thesis using Suc.prems(2) by auto
  next
    case False
    then obtain lba ch1 where lb: "inst_lba fs bad m (of_nat (index * 0x20)) ch = Inr (lba, ch1)" using Suc.prems(2) by (auto simp: rbind_eq_Inr)
    obtain st i1 l1 where ss: "step_sector mode hash (sector_rec (m lba)) (16 - index mod 16) index lst = (st, i1, l1)" by (metis prod_cases3)
    note so = step_sector_ok [OF Suc.prems(1) ss]
    show ?thesis
    proof (cases "lba = 0 \<or> bad lba")
      case True
      then show ?thesis using Suc.prems(2) False lb by (auto split: if_splits)
    next
      case ok: False
      show ?thesis
      proof (cases st)
        case None
        then have "dir_step n fs bad m mode hash limit i1 l1 ch1 = Inr (stat, index', lst', ch')" using Suc.prems(2) False lb ok ss by simp
        from Suc.IH [OF _ this] so None show ?thesis by auto
      next
        case (Some k)
        then show ?thesis using Suc.prems(2) False lb ok ss so by (auto split: if_splits)
      qed
    qed
  qed
qed simp

lemma chain_walk_no_fuel: "chain_walk fs bad m n c r \<noteq> Inl OutOfFuel"
  by (induction n arbitrary: c r) (auto simp: rbind_fuel fat_no_fuel split: if_splits)

lemma inst_lba_no_fuel: "inst_lba fs bad m off ch \<noteq> Inl OutOfFuel"
  by (auto simp: inst_lba_def chain_get_def lba_of_cluster_def rbind_fuel fat_no_fuel chain_walk_no_fuel Let_def split: if_splits option.splits prod.splits)

lemma dir_step_no_fuel: "collecting mode hash lst \<Longrightarrow> limit - index < n \<Longrightarrow> dir_step n fs bad m mode hash limit index lst ch \<noteq> Inl OutOfFuel"
proof (induction n arbitrary: index lst ch)
  case (Suc n)
  show ?case
  proof (cases "index \<ge> limit")
    case False
    show ?thesis
    proof (cases "inst_lba fs bad m (of_nat (index * 0x20)) ch")
      case (Inl e)
      then have "e \<noteq> OutOfFuel" using inst_lba_no_fuel by metis
      then show ?thesis using Inl False by simp
    next
      case (Inr lc)
      obtain lba ch1 where lc: "lc = (lba, ch1)" by (cases lc)
      obtain st i1 l1 where ss: "step_sector mode hash (sector_rec (m lba)) (16 - index mod 16) index lst = (st, i1, l1)" by (metis prod_cases3)
      note so = step_sector_ok [OF Suc.prems(1) ss]
      show ?thesis
      proof (cases st)
        case None
        then have "index < i1" "collecting mode hash l1" using so by auto
        then have "dir_step n fs bad m mode hash limit i1 l1 ch1 \<noteq> Inl OutOfFuel" using Suc.prems(2) False by (intro Suc.IH) auto
        then show ?thesis using Inr lc ss None False by auto
      qed (use Inr lc ss False in auto)
    qed
  qed auto
qed simp

section \<open>Properties\<close>

text \<open>Looking up a name by its hash is sound: names that \<open>name_equal\<close> identifies, which differ only in the case of ASCII letters, have the same hash.\<close>

theorem name_hash_respects_equality:
  assumes "name_equal a b"
  shows "name_hash a = name_hash b"
  using name_hash_loop_cong [OF name_equal_upcase [OF assms]] by (simp add: name_hash_def)

theorem name_hash_respects_equality_witness:
  "name_hash [0x41, 0x62] = name_hash [0x61, 0x42]"
proof -
  have "name_equal [0x41, 0x62] [0x61, 0x42]" by (simp add: name_equal_def char_equal_def)
  then show ?thesis by (rule name_hash_respects_equality)
qed


definition dir_sector :: sector where
  "dir_sector i = (if i = 0 then 0x85 else if i = 1 then 3 else if i = 2 then 0x5A else if i = 3 then 0x07 else if i = 0x20 then 0xC0 else if i = 0x40 then 0xC1 else 0)"

definition dir_recs :: "drec list" where
  "dir_recs = [[0x85, 3, 0x5A, 0x07] @ replicate 28 0, 0xC0 # replicate 31 0, 0xC1 # replicate 31 0]"

lemma dir_sector_scan: "step_sector 8 0 (sector_rec dir_sector) 16 0 [] = (Some 0, 3, dir_recs)"
  by code_simp

lemma dir_example:
  "\<exists>ch'. dir_step 4 small_fs (\<lambda>_. False) (\<lambda>_. dir_sector) 8 0 3 0 [] (chain_new 2 True) = Inr (0, 3, dir_recs, ch')"
proof -
  have "inst_lba small_fs (\<lambda>_. False) (\<lambda>_. dir_sector) 0 (chain_new 2 True) = Inr (50, chain_new 2 True)"
    by (simp add: inst_lba_def chain_get_def chain_new_def lba_of_cluster_def small_fs_def)
  moreover have "(4 :: nat) = Suc 3" by simp
  ultimately show ?thesis using dir_sector_scan by (simp only: dir_step.simps) simp
qed


text \<open>A defect: the scan stops one record too early for names of more than 15 characters. A file with three or more secondary records that the scan returns has an empty name, so it can
  be neither listed nor opened.\<close>

theorem long_names_unreadable:
  assumes "dir_step n fs bad m mode hash limit index [] ch = Inr (0, index', lst, ch')" "3 \<le> entrance_size lst"
  shows "get_name label_folder lst = []"
proof -
  have "collecting mode hash []" by (simp add: collecting_def)
  from dir_step_ok [OF this assms(1)] have "entry_ok mode hash lst" by simp
  then have "length lst = max 3 (entrance_size lst)" by (auto simp: entry_ok_def entrance_size_def)
  then show ?thesis using assms(2) by (simp add: get_name_def)
qed

theorem long_names_unreadable_witness:
  "\<exists>ch'. dir_step 4 small_fs (\<lambda>_. False) (\<lambda>_. dir_sector) 8 0 3 0 [] (chain_new 2 True) = Inr (0, 3, dir_recs, ch') \<and> get_name False dir_recs = []"
proof -
  have "3 \<le> entrance_size dir_recs" by (simp add: entrance_size_def dir_recs_def)
  then show ?thesis using dir_example long_names_unreadable by blast
qed

end
