(* ===== verification/Rtc.thy ===== *)
theory Rtc
  imports Kernel_Prelude
begin

text \<open>
  The real-time clock, \<^verbatim>\<open>kernel/dev/rtc.cpp\<close> (class \<open>RTC\<close>): the clock registers are read after every update interrupt, and the
  calendar date they hold becomes the number of seconds since 1970. The registers are a function from the index written to
  port 0x70 to the byte read from port 0x71. The specification counts days of the Gregorian calendar year by year and month by
  month.
\<close>

section \<open>The clock\<close>

record rtc =
  r_time :: qword
  r_mode :: byte
  r_century_index :: byte
  r_reload :: bool
  r_func :: "nat option"
  r_userdata :: nat

text \<open>The constructor: \<open>flags\<close> and \<open>century\<close> come from the ACPI table, \<open>version\<close> is 0 when there is none. The result has
  the value written back to status register B.\<close>

definition RTC_ctor :: "nat \<Rightarrow> hword \<Rightarrow> byte \<Rightarrow> (byte \<Rightarrow> byte) \<Rightarrow> (byte \<times> rtc) res" where
  "RTC_ctor version flags century reg =
     (if version \<noteq> 0 \<and> flags AND 0x20 \<noteq> 0 then bugcheck ''RTC not present''
      else let mode = (reg 0x8B AND 0x1E) OR 0x10 in
        Inr (mode, \<lparr>r_time = 0, r_mode = mode, r_century_index = century, r_reload = True, r_func = None, r_userdata = 0\<rparr>))"

definition RTC_set_handler :: "nat \<Rightarrow> nat \<Rightarrow> rtc \<Rightarrow> rtc res" where
  "RTC_set_handler cb ud c = (case r_func c of
     None \<Rightarrow> Inr (c\<lparr>r_userdata := ud, r_func := Some cb\<rparr>)
   | Some f \<Rightarrow> bugcheck ''invalid RTC::set_handler call'')"

definition RTC_set_reload :: "rtc \<Rightarrow> rtc" where
  "RTC_set_reload c = c\<lparr>r_reload := True\<rparr>"

definition RTC_convert :: "byte \<Rightarrow> byte \<Rightarrow> byte" where
  "RTC_convert mode val = (if mode AND 0x04 \<noteq> 0 then val else drop_bit 4 val * 10 + (val AND 0x0F))"

definition read_hour :: "byte \<Rightarrow> byte \<Rightarrow> byte" where
  "read_hour mode hour =
     (if mode AND 0x02 \<noteq> 0 then RTC_convert mode hour
      else let pm = (hour AND 0x80 \<noteq> 0); hour = RTC_convert mode (hour AND 0x7F);
               hour = (if pm then hour + 12 else hour)
        in if hour = 24 then 0 else hour)"

definition month_table :: "dword list" where
  "month_table = [0, 31, 59, 90, 120, 151, 181, 212, 243, 273, 304, 334]"

definition posix_days :: "dword \<Rightarrow> nat \<Rightarrow> dword \<Rightarrow> dword" where
  "posix_days cur_year month date =
     (let leap_count = (cur_year - 1969) div 4;
          leap_count = (if cur_year > 2100
            then let century_count = (cur_year - 1) div 100 - 20 in leap_count - (century_count - century_count div 4)
            else leap_count);
          days_of_year = month_table ! (month - 1) + date - 1;
          leap_count = (if month > 2
            then let is_leap = (if cur_year mod 100 \<noteq> 0 then cur_year mod 400 = 0 else cur_year mod 4 = 0)
              in leap_count + (if is_leap then 1 else 0)
            else leap_count)
      in (cur_year - 1970) * 365 + leap_count + days_of_year)"

definition date_valid :: "byte \<Rightarrow> byte \<Rightarrow> byte \<Rightarrow> byte \<Rightarrow> byte \<Rightarrow> byte \<Rightarrow> byte \<Rightarrow> bool" where
  "date_valid century year month date hour minute second \<longleftrightarrow>
     \<not> (century < 20 \<or> year > 99 \<or> month = 0 \<or> month > 12 \<or> date = 0 \<or> date > 31 \<or> hour > 23 \<or> minute > 59 \<or> second > 59)"

text \<open>The update interrupt. Result: whether \<open>timer.on_second\<close> is called.\<close>

definition RTC_update :: "(byte \<Rightarrow> byte) \<Rightarrow> rtc \<Rightarrow> bool \<times> rtc" where
  "RTC_update reg c =
     (if reg 0x0C AND 0x10 = 0 then (False, c)
      else let second = RTC_convert (r_mode c) (reg 0);
               time = (if r_reload c then r_time c else r_time c + 1)
        in if \<not> r_reload c \<and> time AND 0x03 = ucast second AND 0x03 then (True, c\<lparr>r_time := time\<rparr>)
        else let minute = RTC_convert (r_mode c) (reg 2);
                 hour = read_hour (r_mode c) (reg 4);
                 date = RTC_convert (r_mode c) (reg 7);
                 month = RTC_convert (r_mode c) (reg 8);
                 year = RTC_convert (r_mode c) (reg 9);
                 century = (if r_century_index c \<noteq> 0 then RTC_convert (r_mode c) (reg (r_century_index c)) else 20)
          in if \<not> date_valid century year month date hour minute second then (False, c\<lparr>r_time := time\<rparr>)
          else let cur_year = ucast century * 100 + ucast year;
                   total_days = posix_days cur_year (unat month) (ucast date)
            in (True, c\<lparr>r_time := ucast total_days * 86400 +
                 ucast hour * 3600 + ucast minute * 60 + ucast second, r_reload := False\<rparr>))"

text \<open>The interrupt handler. Result: whether the timer is told, and the call of the registered handler with its arguments.\<close>

definition RTC_on_irq :: "(byte \<Rightarrow> byte) \<Rightarrow> rtc \<Rightarrow> (bool \<times> (nat \<times> qword \<times> nat) option) \<times> rtc" where
  "RTC_on_irq reg c = (let (sec, c) = RTC_update reg c in
     ((sec, map_option (\<lambda>f. (f, r_time c, r_userdata c)) (r_func c)), c))"


section \<open>The calendar\<close>

definition is_leap :: "nat \<Rightarrow> bool" where
  "is_leap y \<longleftrightarrow> y mod 4 = 0 \<and> (y mod 100 \<noteq> 0 \<or> y mod 400 = 0)"

definition days_in_month :: "nat \<Rightarrow> nat \<Rightarrow> nat" where
  "days_in_month y m = (if m = 2 then (if is_leap y then 29 else 28) else if m \<in> {4, 6, 9, 11} then 30 else 31)"

definition year_days :: "nat \<Rightarrow> nat" where
  "year_days y = (\<Sum>m\<leftarrow>[1..<13]. days_in_month y m)"

text \<open>Days from the first of January 1970 to a date.\<close>

definition civil_days :: "nat \<Rightarrow> nat \<Rightarrow> nat \<Rightarrow> nat" where
  "civil_days y m d = (\<Sum>k\<leftarrow>[1970..<y]. year_days k) + (\<Sum>k\<leftarrow>[1..<m]. days_in_month y k) + (d - 1)"

text \<open>How far the code's leap day is off, from March on.\<close>

definition leap_error :: "nat \<Rightarrow> nat \<Rightarrow> int" where
  "leap_error y m = (if m > 2 \<and> y mod 4 = 0 \<and> y mod 100 \<noteq> 0 then - 1
     else if m > 2 \<and> y mod 100 = 0 \<and> y mod 400 \<noteq> 0 then 1 else 0)"

lemma year_days: "year_days y = (if is_leap y then 366 else 365)"
  by (simp add: year_days_def upt_conv_Cons days_in_month_def)

lemma leap_step:
  "Suc y div 4 + Suc y div 400 + y div 100 = y div 4 + y div 400 + Suc y div 100 + (if is_leap (Suc y) then 1 else 0)"
proof -
  have "Suc y mod 400 = 0 \<Longrightarrow> Suc y mod 100 = 0" "Suc y mod 100 = 0 \<Longrightarrow> Suc y mod 4 = 0"
    using mod_mod_cancel [of 100 400 "Suc y"] mod_mod_cancel [of 4 100 "Suc y"] by simp_all
  then show ?thesis by (auto simp: is_leap_def div_Suc)
qed

lemma years_closed: "(\<Sum>k\<leftarrow>[1970..<1970 + n]. year_days k) + 477 + (1969 + n) div 100 =
    n * 365 + (1969 + n) div 4 + (1969 + n) div 400"
proof (induction n)
  case 0
  then show ?case by simp
next
  case (Suc n)
  have "[1970..<1970 + Suc n] = [1970..<1970 + n] @ [1970 + n]"
    unfolding add_Suc_right by (rule upt_Suc_append) simp
  then show ?case using Suc leap_step [of "1969 + n"] by (simp add: year_days split: if_splits)
qed

lemma months_closed:
  assumes "1 \<le> m" "m \<le> 12"
  shows "(\<Sum>k\<leftarrow>[1..<m]. days_in_month y k) = unat (month_table ! (m - 1)) + (if m > 2 \<and> is_leap y then 1 else 0)"
proof -
  have "\<forall>m\<in>set [1..<13]. (\<Sum>k\<leftarrow>[1..<m]. days_in_month y k) =
      unat (month_table ! (m - 1)) + (if m > 2 \<and> is_leap y then 1 else 0)"
    by (simp add: upt_conv_Cons days_in_month_def month_table_def del: set_upt)
  then show ?thesis using assms by simp
qed

lemma month_table_bound: "m \<le> 12 \<Longrightarrow> 1 \<le> m \<Longrightarrow> unat (month_table ! (m - 1)) \<le> 334"
proof -
  assume "m \<le> 12" "1 \<le> m"
  moreover have "\<forall>k\<in>set month_table. unat k \<le> 334" "length month_table = 12" by (simp_all add: month_table_def)
  ultimately show ?thesis by simp
qed

text \<open>Words below a bound that rules out wrap-around compute as natural numbers.\<close>

lemma unat_dword_ops:
  fixes a b :: dword
  shows "unat a + unat b < 4294967296 \<Longrightarrow> unat (a + b) = unat a + unat b"
    "unat b \<le> unat a \<Longrightarrow> unat (a - b) = unat a - unat b"
    "unat a * unat b < 4294967296 \<Longrightarrow> unat (a * b) = unat a * unat b"
  by (simp_all add: unat_word_ariths unat_sub word_le_nat_alt)

definition leaps_before :: "nat \<Rightarrow> nat" where
  "leaps_before y = (y - 1969) div 4 - (if y > 2100 then ((y - 1) div 100 - 20) - ((y - 1) div 100 - 20) div 4 else 0)"

lemma diff_mult_div: "0 < c \<Longrightarrow> (n - c * k) div c = n div c - (k :: nat)"
  by (cases "c * k \<le> n") (auto dest!: le_Suc_ex simp: not_le less_mult_imp_div_less mult.commute less_imp_le)

lemma leaps_before:
  assumes "2000 \<le> y"
  shows "leaps_before y + 477 + (y - 1) div 100 = (y - 1) div 4 + (y - 1) div 400"
proof -
  define x where "x = y - 1"
  have x: "1999 \<le> x" "y = Suc x" using assms by (simp_all add: x_def)
  have q: "(x - 1968) div 4 = x div 4 - 492" using diff_mult_div [of 4 x 492] by simp
  have c: "x div 400 = (x div 100) div 4" by (simp add: div_mult2_eq [symmetric])
  have b: "x div 100 \<le> x div 4" by (rule div_le_mono2) simp_all
  have m: "499 \<le> x div 4" "19 \<le> x div 100" using x div_le_mono [of 1999 x 4] div_le_mono [of 1999 x 100] by simp_all
  show ?thesis
  proof (cases "2100 \<le> x")
    case True
    then have "21 \<le> x div 100" using div_le_mono [of 2100 x 100] by simp
    then obtain k where k: "x div 100 = 21 + k" using le_Suc_ex by blast
    have "x div 100 * 25 \<le> x div 4" using div_le_mono [of "x div 100 * 100" x 4] by simp
    moreover define j where "j = Suc k div 4"
    moreover have "(21 + k) div 4 = 5 + j" unfolding j_def by presburger
    moreover have "j \<le> Suc k" by (simp add: j_def)
    moreover have "leaps_before y = (x div 4 - 492) - (Suc k - j)" using True by (simp add: leaps_before_def x q k j_def)
    ultimately show ?thesis using x(2) k c m by simp
  next
    case False
    then have "x div 100 \<le> 20" using div_le_mono [of x 2099 100] by simp
    then have "x div 100 = 19 \<or> x div 100 = 20" using m by linarith
    then show ?thesis using x q c m(1) False by (elim disjE) (simp_all add: leaps_before_def)
  qed
qed


lemma unat_2100: "unat (2100 :: dword) = 2100"
  by simp

lemma posix_days_nat:
  fixes Y D :: dword
  assumes y: "2000 \<le> unat Y" "unat Y < 30000" and m: "1 \<le> m" "m \<le> 12" and d: "1 \<le> unat D" "unat D \<le> 31"
  shows "unat (posix_days Y m D) = (unat Y - 1970) * 365 + (leaps_before (unat Y) +
     (if m > 2 \<and> (if unat Y mod 100 \<noteq> 0 then unat Y mod 400 = 0 else unat Y mod 4 = 0) then 1 else 0)) +
     (unat (month_table ! (m - 1)) + unat D - 1)"
proof -
  define cc where "cc = (Y - 1) div 100 - 20"
  define l where "l = (if Y > 2100 then (Y - 1969) div 4 - (cc - cc div 4) else (Y - 1969) div 4)"
  define t where "t = month_table ! (m - 1)"
  define b :: dword where "b = (if m > 2 \<and> (if Y mod 100 \<noteq> 0 then Y mod 400 = 0 else Y mod 4 = 0) then 1 else 0)"
  have sub: "unat (Y - 1969) = unat Y - 1969" "unat (Y - 1970) = unat Y - 1970" "unat (Y - 1) = unat Y - 1"
    using y by (simp_all add: unat_dword_ops)
  have l4: "unat ((Y - 1969) div 4) = (unat Y - 1969) div 4" by (simp add: unat_div sub)
  have "unat cc = (unat Y - 1) div 100 - 20" if "Y > 2100"
  proof -
    have "2100 \<le> unat Y - 1" using that by (simp add: word_less_nat_alt)
    then have "20 \<le> (unat Y - 1) div 100" using div_le_mono [of 2100 "unat Y - 1" 100] by simp
    then show ?thesis unfolding cc_def by (subst unat_dword_ops(2)) (simp_all add: unat_div sub)
  qed
  moreover have "unat (cc - cc div 4) = unat cc - unat cc div 4" by (subst unat_dword_ops(2)) (simp_all add: unat_div)
  moreover have le: "((unat Y - 1) div 100 - 20) - ((unat Y - 1) div 100 - 20) div 4 \<le> (unat Y - 1969) div 4" if "Y > 2100"
  proof -
    have "(unat Y - 1) div 100 - 20 = (unat Y - 2001) div 100" using diff_mult_div [of 100 "unat Y - 1" 20] by simp
    also have "\<dots> \<le> (unat Y - 1969) div 100" by (rule div_le_mono) simp
    also have "\<dots> \<le> (unat Y - 1969) div 4" by (rule div_le_mono2) simp_all
    finally show ?thesis by (rule le_trans [OF diff_le_self])
  qed
  ultimately have "unat ((Y - 1969) div 4 - (cc - cc div 4)) = leaps_before (unat Y)" if "Y > 2100"
    using l4 that by (subst unat_dword_ops(2)) (simp_all only: leaps_before_def word_less_nat_alt unat_2100 if_True)
  then have l: "unat l = leaps_before (unat Y)" using l4 by (simp add: l_def leaps_before_def word_less_nat_alt)
  have "leaps_before (unat Y) \<le> (unat Y - 1969) div 4" unfolding leaps_before_def by (rule diff_le_self)
  also have "\<dots> \<le> unat Y" by (rule le_trans [OF div_le_dividend]) simp
  finally have lb: "unat l \<le> 30000" using y l by simp
  have b: "unat b = (if m > 2 \<and> (if unat Y mod 100 \<noteq> 0 then unat Y mod 400 = 0 else unat Y mod 4 = 0) then 1 else 0)"
    by (simp add: b_def word_unat_eq_iff unat_mod)
  have t: "unat t \<le> 334" unfolding t_def by (rule month_table_bound [OF m(2,1)])
  have td: "unat (t + D - 1) = unat t + unat D - 1" using t d by (simp add: unat_dword_ops)
  have eq: "posix_days Y m D = (Y - 1970) * 365 + (l + b) + (t + D - 1)"
    by (simp add: posix_days_def l_def b_def cc_def t_def Let_def)
  have p: "unat ((Y - 1970) * 365) = (unat Y - 1970) * 365" using y by (subst unat_dword_ops(3)) (simp_all add: sub)
  have b1: "unat b \<le> 1" using b by (simp split: if_split_asm)
  have q: "unat (l + b) = unat l + unat b" by (rule unat_dword_ops(1)) (use lb b1 in linarith)
  have r: "unat ((Y - 1970) * 365 + (l + b)) = (unat Y - 1970) * 365 + (unat l + unat b)"
    unfolding p [symmetric] q [symmetric] by (rule unat_dword_ops(1)) (use y lb b1 in \<open>unfold p q, linarith\<close>)
  have "unat (posix_days Y m D) = (unat Y - 1970) * 365 + (unat l + unat b) + (unat t + unat D - 1)"
    unfolding eq r [symmetric] td [symmetric] by (rule unat_dword_ops(1)) (use y lb b1 t d in \<open>unfold r td, linarith\<close>)
  then show ?thesis by (simp add: l b t_def)
qed

lemma posix_days_civil:
  fixes Y D :: dword
  assumes y: "2000 \<le> unat Y" "unat Y < 30000" and m: "1 \<le> m" "m \<le> 12" and d: "1 \<le> unat D" "unat D \<le> 31"
  shows "int (unat (posix_days Y m D)) = int (civil_days (unat Y) m (unat D)) + leap_error (unat Y) m"
proof -
  obtain n where n: "unat Y = 1970 + n" using y le_Suc_ex [of 1970 "unat Y"] by auto
  have "unat Y mod 400 = 0 \<Longrightarrow> unat Y mod 100 = 0" "unat Y mod 100 = 0 \<Longrightarrow> unat Y mod 4 = 0"
    using mod_mod_cancel [of 100 400 "unat Y"] mod_mod_cancel [of 4 100 "unat Y"] by simp_all
  then have lp: "int (if m > 2 \<and> (if unat Y mod 100 \<noteq> 0 then unat Y mod 400 = 0 else unat Y mod 4 = 0) then 1 else 0) =
      int (if m > 2 \<and> is_leap (unat Y) then 1 else 0) + leap_error (unat Y) m"
    by (auto simp: leap_error_def is_leap_def)
  have "leaps_before (unat Y) + 365 * n = (\<Sum>k\<leftarrow>[1970..<unat Y]. year_days k)"
    using years_closed [of n] leaps_before [OF y(1)] by (simp add: n)
  then show ?thesis
    using lp d unfolding posix_days_nat [OF assms] civil_days_def months_closed [OF m] by (simp add: n)
qed


section \<open>Properties\<close>

text \<open>When the registers are read: an update interrupt, and either no valid time yet or a second that does not follow.\<close>

definition reads_date :: "(byte \<Rightarrow> byte) \<Rightarrow> rtc \<Rightarrow> bool" where
  "reads_date reg c \<longleftrightarrow> reg 0x0C AND 0x10 \<noteq> 0 \<and>
     (r_reload c \<or> (r_time c + 1) AND 0x03 \<noteq> ucast (RTC_convert (r_mode c) (reg 0)) AND 0x03)"

definition century_of :: "(byte \<Rightarrow> byte) \<Rightarrow> rtc \<Rightarrow> byte" where
  "century_of reg c = (if r_century_index c \<noteq> 0 then RTC_convert (r_mode c) (reg (r_century_index c)) else 20)"

definition clock_valid :: "(byte \<Rightarrow> byte) \<Rightarrow> rtc \<Rightarrow> bool" where
  "clock_valid reg c = (let v = \<lambda>i. RTC_convert (r_mode c) (reg i) in
     date_valid (century_of reg c) (v 9) (v 8) (v 7) (read_hour (r_mode c) (reg 4)) (v 2) (v 0))"

lemma RTC_update_reads:
  assumes "reads_date reg c"
  shows "RTC_update reg c = (let v = \<lambda>i. RTC_convert (r_mode c) (reg i); hour = read_hour (r_mode c) (reg 4) in
     if clock_valid reg c
     then (True, c\<lparr>r_time := ucast (posix_days (ucast (century_of reg c) * 100 + ucast (v 9)) (unat (v 8)) (ucast (v 7))) * 86400 +
         ucast hour * 3600 + ucast (v 2) * 60 + ucast (v 0), r_reload := False\<rparr>)
     else (False, c\<lparr>r_time := if r_reload c then r_time c else r_time c + 1\<rparr>))"
  using assms by (cases "r_reload c") (simp_all add: RTC_update_def reads_date_def clock_valid_def century_of_def Let_def)

lemma unat_qword_sum:
  fixes a b c d :: nat
  assumes "a < 2 ^ 32" "b \<le> 23" "c \<le> 59" "d \<le> 59"
  shows "unat (of_nat a * 86400 + of_nat b * 3600 + of_nat c * 60 + of_nat d :: qword) = a * 86400 + b * 3600 + c * 60 + d"
proof -
  have "(of_nat a * 86400 + of_nat b * 3600 + of_nat c * 60 + of_nat d :: qword) = of_nat (a * 86400 + b * 3600 + c * 60 + d)"
    by simp
  then show ?thesis using assms by (simp only: unat_of_nat) (simp add: take_bit_eq_mod)
qed

lemma unat_byte_up: "unat (ucast b :: dword) = unat b" for b :: byte
proof -
  have "unat b < 2 ^ LENGTH(8)" by (rule unsigned_less)
  then show ?thesis by (simp add: unsigned_ucast_eq take_bit_nat_eq_self)
qed

lemma unat_year:
  fixes c y :: byte
  shows "unat (ucast c * 100 + ucast y :: dword) = unat c * 100 + unat y"
proof -
  have "unat c < 256" "unat y < 256" using unsigned_less [of c] unsigned_less [of y] by simp_all
  then show ?thesis by (simp add: unat_word_ariths unsigned_ucast_eq take_bit_eq_mod)
qed

text \<open>
  when the registers hold a date that passes the check, the time the clock takes over is the number of seconds from 1970 to
  that date, in the century and hour the registers select; from March on the day is one too early in the leap years and one
  too late in the century years that are not leap years.
\<close>

theorem rtc_time_of_date:
  assumes "reads_date reg c" "clock_valid reg c"
  shows "let v = \<lambda>i. unat (RTC_convert (r_mode c) (reg i)); y = unat (century_of reg c) * 100 + v 9 in
     fst (RTC_update reg c) \<and> \<not> r_reload (snd (RTC_update reg c)) \<and>
     int (unat (r_time (snd (RTC_update reg c)))) =
       (int (civil_days y (v 8) (v 7)) + leap_error y (v 8)) * 86400 +
       int (unat (read_hour (r_mode c) (reg 4)) * 3600 + v 2 * 60 + v 0)"
proof -
  define v where "v i = RTC_convert (r_mode c) (reg i)" for i
  define Y :: dword where "Y = ucast (century_of reg c) * 100 + ucast (v 9)"
  define h where "h = read_hour (r_mode c) (reg 4)"
  have Y: "unat Y = unat (century_of reg c) * 100 + unat (v 9)" by (simp add: Y_def unat_year)
  have va: "20 \<le> unat (century_of reg c)" "unat (v 9) \<le> 99" "1 \<le> unat (v 8)" "unat (v 8) \<le> 12" "1 \<le> unat (v 7)" "unat (v 7) \<le> 31"
    "unat h \<le> 23" "unat (v 2) \<le> 59" "unat (v 0) \<le> 59"
    using assms(2) by (auto simp: clock_valid_def date_valid_def v_def h_def Let_def word_less_nat_alt not_less unat_gt_0 Suc_le_eq)
  have "unat (century_of reg c) < 256" using unsigned_less [of "century_of reg c"] by simp
  then have Yb: "2000 \<le> unat Y" "unat Y < 30000" using Y va by simp_all
  have D: "unat (ucast (v 7) :: dword) = unat (v 7)" by (simp add: unat_byte_up)
  have p: "int (unat (posix_days Y (unat (v 8)) (ucast (v 7)))) =
      int (civil_days (unat Y) (unat (v 8)) (unat (v 7))) + leap_error (unat Y) (unat (v 8))"
    using posix_days_civil [OF Yb va(3,4)] va(5,6) D by simp
  have u: "RTC_update reg c = (True, c\<lparr>r_time := ucast (posix_days Y (unat (v 8)) (ucast (v 7))) * 86400 +
      ucast h * 3600 + ucast (v 2) * 60 + ucast (v 0), r_reload := False\<rparr>)"
    using RTC_update_reads [OF assms(1)] assms(2) by (simp add: v_def Y_def h_def Let_def)
  have "unat (ucast (posix_days Y (unat (v 8)) (ucast (v 7))) * 86400 + ucast h * 3600 + ucast (v 2) * 60 + ucast (v 0) :: qword) =
      unat (posix_days Y (unat (v 8)) (ucast (v 7))) * 86400 + unat h * 3600 + unat (v 2) * 60 + unat (v 0)"
    using unat_qword_sum [of "unat (posix_days Y (unat (v 8)) (ucast (v 7)))" "unat h" "unat (v 2)" "unat (v 0)"] va
      unsigned_less [of "posix_days Y (unat (v 8)) (ucast (v 7))"]
    by simp
  then show ?thesis using p by (simp add: u Y v_def h_def Let_def)
qed


text \<open>29 February 2024, 13:45:30, in packed decimal and 24-hour mode.\<close>

definition clock_sample :: "byte \<Rightarrow> byte" where
  "clock_sample i = (if i = 0x0C then 0x10 else if i = 0 then 0x30 else if i = 2 then 0x45 else if i = 4 then 0x13
     else if i = 7 then 0x29 else if i = 8 then 0x02 else if i = 9 then 0x24 else 0)"

definition rtc_sample :: rtc where
  "rtc_sample = \<lparr>r_time = 0, r_mode = 0x12, r_century_index = 0, r_reload = True, r_func = None, r_userdata = 0\<rparr>"

theorem rtc_time_of_date_witness:
  "reads_date clock_sample rtc_sample \<and> clock_valid clock_sample rtc_sample \<and>
   r_time (snd (RTC_update clock_sample rtc_sample)) = 1709214330"
proof -
  have a: "reads_date clock_sample rtc_sample" by code_simp
  have b: "clock_valid clock_sample rtc_sample" by code_simp
  have "civil_days 2024 2 29 = 19782"
    using years_closed [of 54] months_closed [of 2 2024] by (simp add: civil_days_def month_table_def)
  then have "int (unat (r_time (snd (RTC_update clock_sample rtc_sample)))) = 1709214330"
    using rtc_time_of_date [OF a b]
    by (simp add: Let_def clock_sample_def rtc_sample_def RTC_convert_def read_hour_def century_of_def leap_error_def)
  then show ?thesis using a b by (simp add: word_uint_eq_iff)
qed

text \<open>The hour register of a 12-hour clock: 12, 1, ..., 11 with the top bit set after noon.\<close>

definition twelve_hour :: "bool \<Rightarrow> nat \<Rightarrow> byte" where
  "twelve_hour binary h =
     (let k = (if h mod 12 = 0 then 12 else h mod 12); b = (if binary then k else k div 10 * 16 + k mod 10)
      in of_nat (if h \<ge> 12 then b + 0x80 else b))"

lemma twelve_hour_reads:
  "\<forall>bin\<in>set [True, False]. \<forall>h\<in>set [0..<24]. unat (read_hour (if bin then 4 else 0) (twelve_hour bin h)) =
     (if h = 0 then 12 else if h = 12 then 0 else h)"
  by (simp add: upt_conv_Cons read_hour_def RTC_convert_def twelve_hour_def Let_def del: set_upt)

text \<open>
  on a clock in 12-hour mode every hour is read as it is, except that noon is read as midnight and midnight as noon.
\<close>

theorem rtc_noon_is_midnight:
  assumes "mode AND 0x02 = 0" "h < 24"
  shows "unat (read_hour mode (twelve_hour (mode AND 0x04 \<noteq> 0) h)) = (if h = 0 then 12 else if h = 12 then 0 else h)"
proof -
  have "read_hour mode = read_hour (if mode AND 0x04 \<noteq> 0 then 4 else 0)"
    using assms(1) by (simp add: read_hour_def RTC_convert_def fun_eq_iff)
  then show ?thesis using twelve_hour_reads assms(2) by (cases "mode AND 0x04 \<noteq> 0") simp_all
qed

theorem rtc_noon_is_midnight_witness: "unat (read_hour 0x10 (twelve_hour False 12)) = 0"
  using rtc_noon_is_midnight [of "0x10" 12] by simp

end
