(* ===== verification/File_Queue.thy ===== *)
theory File_Queue
  imports Sync_Objects Exfat_Boot
begin

text \<open>
  Open files and the queue of their requests: class \<open>file\<close> (\<^verbatim>\<open>filesystem/file.cpp\<close>), \<open>exfat::task\<close> and the thread pool
  of \<^verbatim>\<open>filesystem/worker.cpp\<close>. A read or write only records the request in the file and queues the file; a worker thread takes
  it from the queue, does the transfer (\<open>File_Work\<close>) and marks the file as idle again. Files and processes are numbers;
  the queue is linked through the field \<open>next\<close> of the files.
\<close>

abbreviation OP_FAILURE :: hword where "OP_FAILURE \<equiv> 4"
abbreviation MEM_FAILURE :: hword where "MEM_FAILURE \<equiv> 8"
abbreviation COMMAND_READ :: hword where "COMMAND_READ \<equiv> 1"
abbreviation COMMAND_WRITE :: hword where "COMMAND_WRITE \<equiv> 2"
abbreviation COMMAND_LIST :: hword where "COMMAND_LIST \<equiv> 3"

section \<open>Files\<close>

record file_t =
  f_obj :: refobj
  f_folder :: bool
  f_host :: nat
  f_offset :: qword
  f_buffer :: qword
  f_length :: dword
  f_iostate :: hword
  f_command :: hword

definition file_new :: "bool \<Rightarrow> nat \<Rightarrow> file_t" where
  "file_new folder ps = \<lparr>f_obj = \<lparr>ref_count = 1, named = False\<rparr>, f_folder = folder, f_host = ps, f_offset = 0, f_buffer = 0,
     f_length = 0, f_iostate = 0, f_command = 0\<rparr>"

definition file_duplicate :: "nat \<Rightarrow> file_t \<Rightarrow> file_t" where
  "file_duplicate ps f = file_new (f_folder f) ps"

definition file_check :: "file_t \<Rightarrow> bool" where "file_check f \<longleftrightarrow> f_command f \<noteq> 0"

text \<open>\<open>None\<close>: the caller waits for the file.\<close>

definition file_wait :: "file_t \<Rightarrow> reason option" where
  "file_wait f = (if f_command f = 0 then Some PASSED else None)"

definition file_result :: "file_t \<Rightarrow> dword" where
  "file_result f = (if f_command f \<noteq> 0 then 0 else f_length f)"

definition file_state :: "file_t \<Rightarrow> byte" where "file_state f = ucast (f_iostate f)"

definition file_tell :: "file_t \<Rightarrow> qword" where "file_tell f = f_offset f"

definition file_seek :: "qword \<Rightarrow> file_t \<Rightarrow> bool \<times> file_t" where
  "file_seek off f = (if f_command f \<noteq> 0 then (False, f) else (True, f\<lparr>f_offset := off\<rparr>))"

definition io_fail :: "hword \<Rightarrow> file_t \<Rightarrow> file_t" where
  "io_fail e f = f\<lparr>f_iostate := f_iostate f OR e\<rparr>"

text \<open>The part of \<open>read\<close> and \<open>write\<close> under the lock of the file: the request is recorded, or refused.\<close>

definition start_read :: "qword \<Rightarrow> dword \<Rightarrow> file_t \<Rightarrow> bool \<times> file_t" where
  "start_read dst len f =
     (if f_command f \<noteq> 0 then (False, io_fail OP_FAILURE f)
      else (True, f\<lparr>f_buffer := dst, f_length := len, f_command := if f_folder f then COMMAND_LIST else COMMAND_READ,
        f_iostate := 0\<rparr>))"

definition start_write :: "qword \<Rightarrow> dword \<Rightarrow> file_t \<Rightarrow> bool \<times> file_t" where
  "start_write sor len f =
     (if f_command f \<noteq> 0 \<or> f_folder f then (False, io_fail OP_FAILURE f)
      else (True, f\<lparr>f_buffer := sor, f_length := len, f_command := COMMAND_WRITE, f_iostate := 0\<rparr>))"

text \<open>The end of a request; the waiters of the file are notified.\<close>

definition file_idle :: "file_t \<Rightarrow> file_t" where "file_idle f = f\<lparr>f_command := 0\<rparr>"

section \<open>The pool\<close>

record pool =
  p_file :: "nat \<Rightarrow> file_t"
  p_proc :: "nat \<Rightarrow> refobj"
  p_next :: "nat \<Rightarrow> nat option"
  p_list :: tqueue
  p_stopping :: bool
  p_workers :: dword

definition set_file :: "nat \<Rightarrow> file_t \<Rightarrow> pool \<Rightarrow> pool" where
  "set_file i f s = s\<lparr>p_file := (p_file s)(i := f)\<rparr>"

definition list_append :: "nat \<Rightarrow> pool \<Rightarrow> pool res" where
  "list_append i s =
     (let n = (p_next s)(i := None); Q = p_list s in
      case q_tail Q of
        Some lt \<Rightarrow> kassert (q_head Q \<noteq> None \<and> n lt = None)
          (Inr (s\<lparr>p_next := n(lt := Some i), p_list := Q\<lparr>q_tail := Some i\<rparr>\<rparr>))
      | None \<Rightarrow> kassert (q_head Q = None) (Inr (s\<lparr>p_next := n, p_list := \<lparr>q_head = Some i, q_tail = Some i\<rparr>\<rparr>)))"

definition list_take :: "pool \<Rightarrow> (nat option \<times> pool) res" where
  "list_take s =
     (let Q = p_list s in case q_head Q of
        None \<Rightarrow> Inr (None, s)
      | Some i \<Rightarrow> kassert (q_tail Q \<noteq> None)
          (let n = p_next s i in
           if q_tail Q = Some i then kassert (n = None)
             (Inr (Some i, s\<lparr>p_next := (p_next s)(i := None), p_list := \<lparr>q_head = n, q_tail = None\<rparr>\<rparr>))
           else kassert (n \<noteq> None)
             (Inr (Some i, s\<lparr>p_next := (p_next s)(i := None), p_list := Q\<lparr>q_head := n\<rparr>\<rparr>))))"

text \<open>\<open>put\<close> signals one waiting worker after it has queued the file.\<close>

definition pool_put :: "nat \<Rightarrow> pool \<Rightarrow> pool res" where
  "pool_put i s =
     (let f = p_file s i in
      kassert (f_command f \<noteq> 0)
        (list_append i (s\<lparr>p_file := (p_file s)(i := f\<lparr>f_obj := snd (acquire (f_obj f))\<rparr>),
           p_proc := (p_proc s)(f_host f := snd (acquire (p_proc s (f_host f))))\<rparr>)))"

text \<open>One turn of the loop of \<open>get\<close>.\<close>

datatype got_request = Work nat | Quit | Wait_Signal

definition pool_get :: "pool \<Rightarrow> (got_request \<times> pool) res" where
  "pool_get s =
     (if p_stopping s then kassert (p_workers s \<noteq> 0) (Inr (Quit, s\<lparr>p_workers := p_workers s - 1\<rparr>))
      else rbind (list_take s) (\<lambda>(r, s). Inr (case r of Some i \<Rightarrow> Work i | None \<Rightarrow> Wait_Signal, s)))"

definition pool_launch :: "dword \<Rightarrow> pool \<Rightarrow> pool" where
  "pool_launch n s = (if p_stopping s then s else s\<lparr>p_workers := p_workers s + n\<rparr>)"

definition pool_stop :: "pool \<Rightarrow> pool" where "pool_stop s = s\<lparr>p_stopping := True\<rparr>"

text \<open>\<open>exfat::task\<close>. Result: whether the request was queued; otherwise the file is idle and its waiters are notified.\<close>

definition task :: "exfat \<Rightarrow> nat \<Rightarrow> pool \<Rightarrow> (bool \<times> pool) res" where
  "task fs i s =
     (let f = p_file s i in
      if is_running fs \<and> (f_command f \<noteq> COMMAND_WRITE \<or> is_rw fs) then rbind (pool_put i s) (\<lambda>s. Inr (True, s))
      else Inr (False, set_file i (file_idle ((io_fail OP_FAILURE f)\<lparr>f_length := 0\<rparr>)) s))"

definition file_read :: "exfat \<Rightarrow> nat \<Rightarrow> qword \<Rightarrow> dword \<Rightarrow> pool \<Rightarrow> (bool \<times> pool) res" where
  "file_read fs i dst len s = (case start_read dst len (p_file s i) of
     (False, f) \<Rightarrow> Inr (False, set_file i f s)
   | (True, f) \<Rightarrow> task fs i (set_file i f s))"

definition file_write :: "exfat \<Rightarrow> nat \<Rightarrow> qword \<Rightarrow> dword \<Rightarrow> pool \<Rightarrow> (bool \<times> pool) res" where
  "file_write fs i sor len s = (case start_write sor len (p_file s i) of
     (False, f) \<Rightarrow> Inr (False, set_file i f s)
   | (True, f) \<Rightarrow> task fs i (set_file i f s))"

text \<open>\<open>file::relax\<close> deletes the file with its last reference. Result: whether references remain.\<close>

definition file_relax :: "nat \<Rightarrow> pool \<Rightarrow> (bool \<times> pool) res" where
  "file_relax i s =
     (let f = p_file s i in
      rbind (relax (f_obj f)) (\<lambda>(alive, w).
        if alive then Inr (True, set_file i (f\<lparr>f_obj := w\<rparr>) s)
        else kassert (f_command f = 0 \<and> p_next s i = None) (Inr (False, set_file i (f\<lparr>f_obj := w\<rparr>) s))))"

text \<open>The end of a turn of \<open>thread_worker\<close>: the request ends, the waiters of the file are notified and the references to the
  process and to the file are given up. Result: whether they still exist.\<close>

definition worker_end :: "nat \<Rightarrow> pool \<Rightarrow> (bool \<times> bool \<times> pool) res" where
  "worker_end i s =
     (let s = set_file i (file_idle (p_file s i)) s; ps = f_host (p_file s i) in
      rbind (relax (p_proc s ps)) (\<lambda>(ps_alive, w).
      rbind (file_relax i (s\<lparr>p_proc := (p_proc s)(ps := w)\<rparr>)) (\<lambda>(f_alive, s). Inr (ps_alive, f_alive, s))))"

section \<open>The queue is a FIFO queue\<close>

definition pool_lists :: "pool \<Rightarrow> (unit \<Rightarrow> nat list) \<Rightarrow> bool" where
  "pool_lists s L \<longleftrightarrow> is_queue (p_next s) (p_list s) (L ()) \<and> distinct (L ())"

lemma is_queue_append:
  assumes q: "is_queue n Q xs" and d: "distinct xs" "t \<notin> set xs" and ne: "xs \<noteq> []"
  shows "is_queue (n(t := None, last xs := Some t)) (Q\<lparr>q_tail := Some t\<rparr>) (xs @ [t])" "n (last xs) = None"
    "q_tail Q = Some (last xs)" "q_head Q \<noteq> None"
proof -
  have ch: "chain n xs" using q by (simp add: is_queue_def)
  show "n (last xs) = None" using chain_append [of n "butlast xs" "last xs"] ch ne by simp
  show "q_tail Q = Some (last xs)" "q_head Q \<noteq> None" using q ne by (auto simp: is_queue_def last_opt_def)
  have "chain (n(t := None, last xs := Some t)) (xs @ [t])"
    using chain_snoc [of "n(t := None)" xs t] ch d ne by (simp add: chain_upd_other)
  then show "is_queue (n(t := None, last xs := Some t)) (Q\<lparr>q_tail := Some t\<rparr>) (xs @ [t])"
    using q ne by (auto simp: is_queue_def hd_opt_def)
qed

lemma list_append_ok:
  assumes "pool_lists s L" "i \<notin> set (L ())"
  shows "\<exists>s'. list_append i s = Inr s' \<and> pool_lists s' (L(() := L () @ [i])) \<and> s' = s\<lparr>p_next := p_next s', p_list := p_list s'\<rparr>"
proof (cases "L () = []")
  case True
  then show ?thesis using assms by (auto simp: pool_lists_def list_append_def is_queue_def)
next
  case False
  note q = is_queue_append [of "p_next s" "p_list s" "L ()" i]
  have "last (L ()) \<noteq> i" using False assms(2) last_in_set by metis
  then show ?thesis using q assms False by (auto simp: pool_lists_def list_append_def)
qed

lemma list_take_ok:
  assumes "pool_lists s L" "L () = x # xs"
  shows "\<exists>s'. list_take s = Inr (Some x, s') \<and> pool_lists s' (L(() := xs)) \<and> s' = s\<lparr>p_next := p_next s', p_list := p_list s'\<rparr>"
proof -
  have q: "q_head (p_list s) = Some x" "q_tail (p_list s) = last_opt (x # xs)" "p_next s x = hd_opt xs" "chain (p_next s) xs"
    and d: "x \<notin> set xs" "distinct xs"
    using assms by (auto simp: pool_lists_def is_queue_def chain_Cons)
  show ?thesis
  proof (cases "xs = []")
    case True
    then show ?thesis using q d by (simp add: list_take_def pool_lists_def is_queue_def)
  next
    case False
    then have "q_tail (p_list s) \<noteq> Some x" "last_opt (x # xs) = last_opt xs" using q d by (auto simp: last_opt_def)
    then show ?thesis using q d False
      by (auto simp: list_take_def pool_lists_def is_queue_def chain_upd_other hd_opt_def)
  qed
qed

lemma list_take_empty: "pool_lists s L \<Longrightarrow> L () = [] \<Longrightarrow> list_take s = Inr (None, s)"
  by (simp add: pool_lists_def is_queue_def list_take_def)

interpretation rq: fifo pool_lists "\<lambda>q. list_append" "\<lambda>q. list_take"
proof unfold_locales
  fix s L and x :: nat and q :: unit
  assume "pool_lists s L" "\<forall>q'. x \<notin> set (L q')"
  then show "\<exists>s'. list_append x s = Inr s' \<and> pool_lists s' (L(q := L q @ [x]))" using list_append_ok [of s L x] by auto
next
  fix s L and q :: unit and x xs
  assume "pool_lists s L" "L q = x # xs"
  then show "\<exists>s'. list_take s = Inr (Some x, s') \<and> pool_lists s' (L(q := xs))" using list_take_ok [of s L x xs] by auto
next
  fix s L and q :: unit
  assume "pool_lists s L" "L q = []"
  then show "list_take s = Inr (None, s)" by (simp add: list_take_empty)
qed


section \<open>Requests are never lost\<close>

text \<open>The pool with the files the workers hold and, for each file and process, the number of references held elsewhere.\<close>

record pstate =
  ps_pool :: pool
  ps_work :: "nat list"
  ps_files :: "nat \<Rightarrow> nat"
  ps_procs :: "nat \<Rightarrow> nat"

datatype pool_op =
    Read exfat nat qword dword
  | Write exfat nat qword dword
  | Seek nat qword
  | Close nat
  | Launch dword
  | Stop_Pool
  | Next_Request
  | Transfer nat qword dword hword
  | Finish nat

text \<open>\<open>Transfer\<close> is what the work on a request does to its file.\<close>

definition pool_step :: "pool_op \<Rightarrow> pstate \<Rightarrow> pstate res" where
  "pool_step x g = (let s = ps_pool g in case x of
     Read fs i dst len \<Rightarrow> rbind (file_read fs i dst len s) (\<lambda>(_, s). Inr (g\<lparr>ps_pool := s\<rparr>))
   | Write fs i sor len \<Rightarrow> rbind (file_write fs i sor len s) (\<lambda>(_, s). Inr (g\<lparr>ps_pool := s\<rparr>))
   | Seek i off \<Rightarrow> Inr (g\<lparr>ps_pool := set_file i (snd (file_seek off (p_file s i))) s\<rparr>)
   | Close i \<Rightarrow> rbind (file_relax i s) (\<lambda>(_, s). Inr (g\<lparr>ps_pool := s, ps_files := (ps_files g)(i := ps_files g i - 1)\<rparr>))
   | Launch n \<Rightarrow> Inr (g\<lparr>ps_pool := pool_launch n s\<rparr>)
   | Stop_Pool \<Rightarrow> Inr (g\<lparr>ps_pool := pool_stop s\<rparr>)
   | Next_Request \<Rightarrow> rbind (pool_get s) (\<lambda>(r, s).
       Inr (g\<lparr>ps_pool := s, ps_work := (case r of Work i \<Rightarrow> i # ps_work g | _ \<Rightarrow> ps_work g)\<rparr>))
   | Transfer i off len st \<Rightarrow> Inr (g\<lparr>ps_pool := set_file i ((p_file s i)\<lparr>f_offset := off, f_length := len, f_iostate := st\<rparr>) s\<rparr>)
   | Finish i \<Rightarrow> rbind (worker_end i s) (\<lambda>(_, _, s). Inr (g\<lparr>ps_pool := s, ps_work := remove1 i (ps_work g)\<rparr>)))"

definition pool_may :: "pool_op \<Rightarrow> pstate \<Rightarrow> bool" where
  "pool_may x g = (let s = ps_pool g; callable = \<lambda>i. ps_files g i \<noteq> 0 \<and> ps_procs g (f_host (p_file s i)) \<noteq> 0 \<and>
       unat (ref_count (f_obj (p_file s i))) < 2 ^ 32 - 1 \<and> unat (ref_count (p_proc s (f_host (p_file s i)))) < 2 ^ 32 - 1 in
     case x of
       Read fs i dst len \<Rightarrow> callable i
     | Write fs i sor len \<Rightarrow> callable i
     | Seek i off \<Rightarrow> ps_files g i \<noteq> 0
     | Close i \<Rightarrow> ps_files g i \<noteq> 0
     | Launch n \<Rightarrow> True
     | Stop_Pool \<Rightarrow> True
     | Next_Request \<Rightarrow> p_stopping s \<longrightarrow> p_workers s \<noteq> 0
     | Transfer i off len st \<Rightarrow> i \<in> set (ps_work g)
     | Finish i \<Rightarrow> i \<in> set (ps_work g))"

definition pending :: "pool \<Rightarrow> nat \<Rightarrow> bool" where "pending s i \<longleftrightarrow> f_command (p_file s i) \<noteq> 0"

definition hosted :: "pool \<Rightarrow> nat \<Rightarrow> nat list \<Rightarrow> nat" where
  "hosted s p is = length (filter (\<lambda>i. f_host (p_file s i) = p) is)"

definition pool_ok :: "pstate \<Rightarrow> nat list \<Rightarrow> bool" where
  "pool_ok g xs \<longleftrightarrow> (let s = ps_pool g; w = ps_work g in
     pool_lists s (\<lambda>_. xs) \<and> distinct (xs @ w) \<and> (\<forall>i. pending s i \<longleftrightarrow> i \<in> set (xs @ w)) \<and> (\<forall>i. i \<notin> set xs \<longrightarrow> p_next s i = None) \<and>
     (\<forall>i. unat (ref_count (f_obj (p_file s i))) = ps_files g i + (if i \<in> set (xs @ w) then 1 else 0)) \<and>
     (\<forall>p. unat (ref_count (p_proc s p)) = ps_procs g p + hosted s p (xs @ w)))"

definition pool_inv :: "pstate \<Rightarrow> bool" where "pool_inv g \<longleftrightarrow> (\<exists>xs. pool_ok g xs)"


lemma pool_okD:
  assumes "pool_ok g xs"
  shows "pool_lists (ps_pool g) (\<lambda>_. xs)" "distinct (xs @ ps_work g)" "pending (ps_pool g) i \<longleftrightarrow> i \<in> set (xs @ ps_work g)"
    "i \<notin> set xs \<Longrightarrow> p_next (ps_pool g) i = None"
    "unat (ref_count (f_obj (p_file (ps_pool g) i))) = ps_files g i + (if i \<in> set (xs @ ps_work g) then 1 else 0)"
    "unat (ref_count (p_proc (ps_pool g) p)) = ps_procs g p + hosted (ps_pool g) p (xs @ ps_work g)"
  using assms unfolding pool_ok_def Let_def by blast+

lemma pool_okI:
  assumes "pool_lists (ps_pool g) (\<lambda>_. xs)" "distinct (xs @ ps_work g)" "\<And>i. pending (ps_pool g) i \<longleftrightarrow> i \<in> set (xs @ ps_work g)"
    "\<And>i. i \<notin> set xs \<Longrightarrow> p_next (ps_pool g) i = None"
    "\<And>i. unat (ref_count (f_obj (p_file (ps_pool g) i))) = ps_files g i + (if i \<in> set (xs @ ps_work g) then 1 else 0)"
    "\<And>p. unat (ref_count (p_proc (ps_pool g) p)) = ps_procs g p + hosted (ps_pool g) p (xs @ ps_work g)"
  shows "pool_ok g xs"
  using assms unfolding pool_ok_def Let_def by blast

lemma pool_lists_other [simp]: "pool_lists (s\<lparr>p_file := x\<rparr>) L = pool_lists s L" "pool_lists (s\<lparr>p_proc := y\<rparr>) L = pool_lists s L"
  "pool_lists (s\<lparr>p_stopping := b\<rparr>) L = pool_lists s L" "pool_lists (s\<lparr>p_workers := n\<rparr>) L = pool_lists s L"
  by (simp_all add: pool_lists_def)

lemma hosted_cong: "(\<And>i. i \<in> set is \<Longrightarrow> f_host (p_file s i) = f_host (p_file s' i)) \<Longrightarrow> hosted s p is = hosted s' p is"
  unfolding hosted_def by (rule arg_cong [where f = length], rule filter_cong) auto

lemma hosted_Cons: "hosted s p (i # is) = (if f_host (p_file s i) = p then 1 else 0) + hosted s p is"
  by (simp add: hosted_def)

lemma hosted_append: "hosted s p (is @ js) = hosted s p is + hosted s p js"
  by (simp add: hosted_def)

lemma hosted_remove1: "i \<in> set is \<Longrightarrow> hosted s p is = (if f_host (p_file s i) = p then 1 else 0) + hosted s p (remove1 i is)"
  by (induction "is") (auto simp: hosted_def)

text \<open>Changing a file without touching the request flag, the references and the process.\<close>

lemma pool_ok_touch:
  assumes "pool_ok g xs" "f_command f \<noteq> 0 \<longleftrightarrow> pending (ps_pool g) i" "f_obj f = f_obj (p_file (ps_pool g) i)"
    "f_host f = f_host (p_file (ps_pool g) i)"
  shows "pool_ok (g\<lparr>ps_pool := set_file i f (ps_pool g)\<rparr>) xs"
proof -
  have "hosted (set_file i f (ps_pool g)) p js = hosted (ps_pool g) p js" for p js
    by (rule hosted_cong) (simp add: set_file_def assms(4))
  then show ?thesis using assms(1-3) by (auto simp: pool_ok_def Let_def set_file_def pending_def)
qed

lemma unat_inc: "unat x < 2 ^ 32 - 1 \<Longrightarrow> unat (x + 1) = unat x + 1" for x :: dword
  by (simp add: unat_word_ariths)

lemma unat_dec: "x \<noteq> 0 \<Longrightarrow> unat (x - 1) = unat x - 1" for x :: dword
  by (simp add: unat_minus_one)

lemma pool_put_ok:
  assumes ok: "pool_ok g xs" and idle: "\<not> pending (ps_pool g) i" and f: "f_command f \<noteq> 0" "f_obj f = f_obj (p_file (ps_pool g) i)"
      "f_host f = f_host (p_file (ps_pool g) i)"
    and held: "ps_files g i \<noteq> 0" "ps_procs g (f_host f) \<noteq> 0"
    and room: "unat (ref_count (f_obj f)) < 2 ^ 32 - 1" "unat (ref_count (p_proc (ps_pool g) (f_host f))) < 2 ^ 32 - 1"
  shows "\<exists>s'. pool_put i (set_file i f (ps_pool g)) = Inr s' \<and> pool_ok (g\<lparr>ps_pool := s'\<rparr>) (xs @ [i])"
proof -
  let ?s = "ps_pool g"
  note d = pool_okD [OF ok]
  have ni: "i \<notin> set xs" "i \<notin> set (ps_work g)" using idle d(3) [of i] by auto
  have fr: "ref_count (f_obj f) \<noteq> 0" using d(5) [of i] held(1) f(2) by (auto simp: unat_eq_0 [symmetric])
  have pr: "ref_count (p_proc ?s (f_host f)) \<noteq> 0" using d(6) [of "f_host f"] held(2) by (auto simp: unat_eq_0 [symmetric])
  define w where "w = f_obj f\<lparr>ref_count := ref_count (f_obj f) + 1\<rparr>"
  define v where "v = (p_proc ?s (f_host f))\<lparr>ref_count := ref_count (p_proc ?s (f_host f)) + 1\<rparr>"
  define s1 where "s1 = ?s\<lparr>p_file := (p_file ?s)(i := f\<lparr>f_obj := w\<rparr>), p_proc := (p_proc ?s)(f_host f := v)\<rparr>"
  have e: "pool_put i (set_file i f ?s) = list_append i s1"
    using f(1) fr pr by (simp add: pool_put_def set_file_def acquire_def s1_def w_def v_def Let_def)
  have "pool_lists s1 (\<lambda>_. xs)" using d(1) by (simp add: s1_def)
  from list_append_ok [OF this] ni obtain s' where s': "list_append i s1 = Inr s'" "pool_lists s' ((\<lambda>_. xs)(() := xs @ [i]))"
    "s' = s1\<lparr>p_next := p_next s', p_list := p_list s'\<rparr>" by auto
  have "(\<lambda>_. xs)(() := xs @ [i]) = (\<lambda>_. xs @ [i])" by (rule ext) simp
  then have L: "pool_lists s' (\<lambda>_. xs @ [i])" using s'(2) by simp
  have fl: "p_file s' = (p_file ?s)(i := f\<lparr>f_obj := w\<rparr>)" "p_proc s' = (p_proc ?s)(f_host f := v)"
    by (subst s'(3), simp add: s1_def)+
  have nx: "j \<notin> set (xs @ [i]) \<Longrightarrow> p_next s' j = None" for j
    using s'(1) d(4) [of j] d(1) by (auto simp: list_append_def s1_def pool_lists_def is_queue_def last_opt_def kassert_def
        split: option.splits if_splits)
  have h: "hosted s' p js = hosted ?s p js" for p js by (rule hosted_cong) (simp add: fl f(3))
  have u: "unat (ref_count w) = unat (ref_count (f_obj f)) + 1" "unat (ref_count v) = unat (ref_count (p_proc ?s (f_host f))) + 1"
    using room by (simp_all add: w_def v_def unat_inc)
  have "pool_ok (g\<lparr>ps_pool := s'\<rparr>) (xs @ [i])"
  proof (rule pool_okI, goal_cases)
    case 1 show ?case using L by simp
  next
    case 2 show ?case using d(2) ni by auto
  next
    case (3 j) show ?case using d(3) [of j] f(1) by (auto simp: pending_def fl)
  next
    case (4 j) then show ?case using nx by simp
  next
    case (5 j) show ?case using d(5) [of j] ni u(1) f(2) by (auto simp: fl)
  next
    case (6 p) show ?case using d(6) [of p] u(2) f(3) by (simp add: fl h hosted_append hosted_Cons) (auto simp: hosted_def)
  qed
  then show ?thesis using e s'(1) by auto
qed


lemma task_ok:
  assumes ok: "pool_ok g xs" and idle: "\<not> pending (ps_pool g) i" and f: "f_command f \<noteq> 0" "f_obj f = f_obj (p_file (ps_pool g) i)"
      "f_host f = f_host (p_file (ps_pool g) i)"
    and held: "ps_files g i \<noteq> 0" "ps_procs g (f_host f) \<noteq> 0"
    and room: "unat (ref_count (f_obj f)) < 2 ^ 32 - 1" "unat (ref_count (p_proc (ps_pool g) (f_host f))) < 2 ^ 32 - 1"
  shows "\<exists>b s'. task fs i (set_file i f (ps_pool g)) = Inr (b, s') \<and> pool_inv (g\<lparr>ps_pool := s'\<rparr>)"
proof (cases "is_running fs \<and> (f_command f \<noteq> COMMAND_WRITE \<or> is_rw fs)")
  case True
  then show ?thesis using pool_put_ok [OF assms] by (auto simp: task_def set_file_def pool_inv_def Let_def)
next
  case False
  define h where "h = file_idle ((io_fail OP_FAILURE f)\<lparr>f_length := 0\<rparr>)"
  have "task fs i (set_file i f (ps_pool g)) = Inr (False, set_file i h (ps_pool g))"
    using False by (auto simp: task_def set_file_def h_def Let_def)
  moreover have "pool_ok (g\<lparr>ps_pool := set_file i h (ps_pool g)\<rparr>) xs"
    by (rule pool_ok_touch [OF ok]) (use idle f in \<open>simp_all add: h_def file_idle_def io_fail_def\<close>)
  ultimately show ?thesis by (auto simp: pool_inv_def)
qed

lemma pool_get_ok:
  assumes ok: "pool_ok g xs" and may: "p_stopping (ps_pool g) \<longrightarrow> p_workers (ps_pool g) \<noteq> 0"
  shows "\<exists>r s'. pool_get (ps_pool g) = Inr (r, s') \<and>
    pool_inv (g\<lparr>ps_pool := s', ps_work := (case r of Work i \<Rightarrow> i # ps_work g | _ \<Rightarrow> ps_work g)\<rparr>)"
proof -
  let ?s = "ps_pool g"
  note d = pool_okD [OF ok]
  consider (q) "p_stopping ?s" | (e) "\<not> p_stopping ?s" "xs = []" | (w) x ys where "\<not> p_stopping ?s" "xs = x # ys" by (cases xs) auto
  then show ?thesis
  proof cases
    case q
    have "pool_ok (g\<lparr>ps_pool := ?s\<lparr>p_workers := p_workers ?s - 1\<rparr>\<rparr>) xs"
      using ok by (simp add: pool_ok_def pending_def hosted_def Let_def)
    then show ?thesis using q may by (auto simp: pool_get_def pool_inv_def)
  next
    case e
    have "pool_get ?s = Inr (Wait_Signal, ?s)" using e list_take_empty [OF d(1)] by (simp add: pool_get_def)
    then show ?thesis using ok by (auto simp: pool_inv_def)
  next
    case w
    from list_take_ok [OF d(1), of x ys] w obtain s' where s': "list_take ?s = Inr (Some x, s')" "pool_lists s' ((\<lambda>_. xs)(() := ys))"
      "s' = ?s\<lparr>p_next := p_next s', p_list := p_list s'\<rparr>" by auto
    have "(\<lambda>_. xs)(() := ys) = (\<lambda>_. ys)" by (rule ext) simp
    then have L: "pool_lists s' (\<lambda>_. ys)" using s'(2) by simp
    have fl: "p_file s' = p_file ?s" "p_proc s' = p_proc ?s" by (subst s'(3), simp)+
    have nx: "p_next s' = (p_next ?s)(x := None)"
      using s'(1) by (auto simp: list_take_def kassert_def Let_def split: option.splits if_splits)
    have h: "hosted s' p (ys @ x # ps_work g) = hosted ?s p (xs @ ps_work g)" for p
      using w(2) by (simp add: hosted_append hosted_Cons hosted_def fl)
    have "pool_ok (g\<lparr>ps_pool := s', ps_work := x # ps_work g\<rparr>) ys"
      using L d(2) d(3) d(4) d(5) d(6) h w(2) by (auto simp: pool_ok_def Let_def fl nx pending_def)
    then show ?thesis using s'(1) w(1) by (auto simp: pool_get_def pool_inv_def)
  qed
qed

lemma file_relax_ok:
  assumes ok: "pool_ok g xs" and held: "ps_files g i \<noteq> 0"
  shows "\<exists>b s'. file_relax i (ps_pool g) = Inr (b, s') \<and> pool_ok (g\<lparr>ps_pool := s', ps_files := (ps_files g)(i := ps_files g i - 1)\<rparr>) xs"
proof -
  let ?s = "ps_pool g" let ?f = "p_file (ps_pool g) i"
  note d = pool_okD [OF ok]
  define w where "w = f_obj ?f\<lparr>ref_count := ref_count (f_obj ?f) - 1\<rparr>"
  have nz: "ref_count (f_obj ?f) \<noteq> 0" using d(5) [of i] held by (auto simp: unat_eq_0 [symmetric])
  have u: "unat (ref_count w) = unat (ref_count (f_obj ?f)) - 1" using nz by (simp add: w_def unat_dec)
  have last: "f_command ?f = 0 \<and> p_next ?s i = None" if "ref_count (f_obj ?f) = 1"
  proof -
    have "i \<notin> set (xs @ ps_work g)" using d(5) [of i] that held by (auto split: if_splits)
    then show ?thesis using d(3,4) [of i] by (auto simp: pending_def)
  qed
  have e: "\<exists>b. file_relax i ?s = Inr (b, set_file i (?f\<lparr>f_obj := w\<rparr>) ?s)"
    using nz last by (auto simp: file_relax_def relax_def w_def Let_def kassert_def)
  have "hosted (set_file i (?f\<lparr>f_obj := w\<rparr>) ?s) p js = hosted ?s p js" for p js by (rule hosted_cong) (simp add: set_file_def)
  then have "pool_ok (g\<lparr>ps_pool := set_file i (?f\<lparr>f_obj := w\<rparr>) ?s, ps_files := (ps_files g)(i := ps_files g i - 1)\<rparr>) xs"
    using d u held by (auto simp: pool_ok_def Let_def set_file_def pending_def)
  then show ?thesis using e by blast
qed

lemma worker_end_ok:
  assumes ok: "pool_ok g xs" and w: "i \<in> set (ps_work g)"
  shows "\<exists>a b s'. worker_end i (ps_pool g) = Inr (a, b, s') \<and> pool_ok (g\<lparr>ps_pool := s', ps_work := remove1 i (ps_work g)\<rparr>) xs"
proof -
  let ?s = "ps_pool g" let ?f = "p_file (ps_pool g) i"
  note d = pool_okD [OF ok]
  have ni: "i \<notin> set xs" "distinct (ps_work g)" using d(2) w by auto
  have hr: "hosted ?s p (xs @ ps_work g) = (if f_host ?f = p then 1 else 0) + hosted ?s p (xs @ remove1 i (ps_work g))" for p
    using hosted_remove1 [OF w, of ?s p] by (simp add: hosted_append)
  define v where "v = (p_proc ?s (f_host ?f))\<lparr>ref_count := ref_count (p_proc ?s (f_host ?f)) - 1\<rparr>"
  have pz: "ref_count (p_proc ?s (f_host ?f)) \<noteq> 0" using d(6) [of "f_host ?f"] hr [of "f_host ?f"] by (auto simp: unat_eq_0 [symmetric])
  have uv: "unat (ref_count v) = unat (ref_count (p_proc ?s (f_host ?f))) - 1" using pz by (simp add: v_def unat_dec)
  define s1 where "s1 = (set_file i (file_idle ?f) ?s)\<lparr>p_proc := (p_proc ?s)(f_host ?f := v)\<rparr>"
  define g1 where "g1 = g\<lparr>ps_pool := s1, ps_work := remove1 i (ps_work g), ps_files := (ps_files g)(i := ps_files g i + 1)\<rparr>"
  have h: "hosted s1 p js = hosted ?s p js" for p js by (rule hosted_cong) (simp add: s1_def set_file_def file_idle_def)
  have fo: "f_obj (p_file s1 j) = f_obj (p_file ?s j)" for j by (simp add: s1_def set_file_def file_idle_def)
  have rm: "set (remove1 i (ps_work g)) = set (ps_work g) - {i}" using ni(2) by simp
  have ok1: "pool_ok g1 xs"
  proof (rule pool_okI, goal_cases)
    case 1 show ?case using d(1) by (simp add: g1_def s1_def set_file_def)
  next
    case 2 show ?case using d(2) rm by (auto simp: g1_def)
  next
    case (3 j) show ?case using d(3) [of j] ni rm by (auto simp: g1_def pending_def s1_def set_file_def file_idle_def)
  next
    case (4 j) then show ?case using d(4) [of j] by (simp add: g1_def s1_def set_file_def)
  next
    case (5 j) show ?case using d(5) [of j] ni w rm by (auto simp: g1_def fo)
  next
    case (6 p) show ?case using d(6) [of p] hr [of p] uv by (simp add: g1_def h) (auto simp: s1_def set_file_def)
  qed
  have "ps_files g1 i \<noteq> 0" by (simp add: g1_def)
  from file_relax_ok [OF ok1 this] obtain b s' where s': "file_relax i s1 = Inr (b, s')"
    "pool_ok (g1\<lparr>ps_pool := s', ps_files := (ps_files g1)(i := ps_files g1 i - 1)\<rparr>) xs" by (auto simp: g1_def)
  have "g1\<lparr>ps_pool := s', ps_files := (ps_files g1)(i := ps_files g1 i - 1)\<rparr> = g\<lparr>ps_pool := s', ps_work := remove1 i (ps_work g)\<rparr>"
    by (simp add: g1_def)
  moreover have "\<exists>a. worker_end i ?s = Inr (a, b, s')"
    using s'(1) pz by (auto simp: worker_end_def relax_def s1_def v_def set_file_def file_idle_def Let_def)
  ultimately show ?thesis using s'(2) by auto
qed


lemma pool_request_ok:
  assumes ok: "pool_ok g xs" and may: "ps_files g i \<noteq> 0" "ps_procs g (f_host (p_file (ps_pool g) i)) \<noteq> 0"
      "unat (ref_count (f_obj (p_file (ps_pool g) i))) < 2 ^ 32 - 1"
      "unat (ref_count (p_proc (ps_pool g) (f_host (p_file (ps_pool g) i)))) < 2 ^ 32 - 1"
    and st: "st (p_file (ps_pool g) i) = (b, f)" "f_obj f = f_obj (p_file (ps_pool g) i)" "f_host f = f_host (p_file (ps_pool g) i)"
      "b \<Longrightarrow> \<not> pending (ps_pool g) i \<and> f_command f \<noteq> 0" "\<not> b \<Longrightarrow> f_command f = f_command (p_file (ps_pool g) i)"
  shows "\<exists>r s'. (case st (p_file (ps_pool g) i) of (False, f) \<Rightarrow> Inr (False, set_file i f (ps_pool g))
      | (True, f) \<Rightarrow> task fs i (set_file i f (ps_pool g))) = Inr (r, s') \<and> pool_inv (g\<lparr>ps_pool := s'\<rparr>)"
proof (cases b)
  case True
  then show ?thesis using st may task_ok [OF ok, of i f fs] by simp
next
  case False
  then have "pool_ok (g\<lparr>ps_pool := set_file i f (ps_pool g)\<rparr>) xs"
    using st by (intro pool_ok_touch [OF ok]) (auto simp: pending_def)
  then show ?thesis using st(1) False by (auto simp: pool_inv_def)
qed

lemma pool_step_keeps:
  assumes "pool_inv g" "pool_may x g"
  shows "\<exists>g'. pool_step x g = Inr g' \<and> pool_inv g'"
proof -
  obtain xs where ok: "pool_ok g xs" using assms(1) by (auto simp: pool_inv_def)
  show ?thesis
  proof (cases x)
    case (Read fs i dst len)
    obtain b f where st: "start_read dst len (p_file (ps_pool g) i) = (b, f)" by (cases "start_read dst len (p_file (ps_pool g) i)")
    have "\<exists>r s'. file_read fs i dst len (ps_pool g) = Inr (r, s') \<and> pool_inv (g\<lparr>ps_pool := s'\<rparr>)"
      unfolding file_read_def
      by (rule pool_request_ok [where st = "start_read dst len" and b = b and f = f, OF ok])
        (use st assms(2) Read in \<open>auto simp: start_read_def io_fail_def pending_def pool_may_def Let_def split: if_splits\<close>)
    then show ?thesis using Read by (auto simp: pool_step_def Let_def)
  next
    case (Write fs i sor len)
    obtain b f where st: "start_write sor len (p_file (ps_pool g) i) = (b, f)" by (cases "start_write sor len (p_file (ps_pool g) i)")
    have "\<exists>r s'. file_write fs i sor len (ps_pool g) = Inr (r, s') \<and> pool_inv (g\<lparr>ps_pool := s'\<rparr>)"
      unfolding file_write_def
      by (rule pool_request_ok [where st = "start_write sor len" and b = b and f = f, OF ok])
        (use st assms(2) Write in \<open>auto simp: start_write_def io_fail_def pending_def pool_may_def Let_def split: if_splits\<close>)
    then show ?thesis using Write by (auto simp: pool_step_def Let_def)
  next
    case (Seek i off)
    have "pool_ok (g\<lparr>ps_pool := set_file i (snd (file_seek off (p_file (ps_pool g) i))) (ps_pool g)\<rparr>) xs"
      by (rule pool_ok_touch [OF ok]) (auto simp: file_seek_def pending_def)
    then show ?thesis using Seek by (auto simp: pool_step_def pool_inv_def Let_def)
  next
    case (Close i)
    then show ?thesis using file_relax_ok [OF ok, of i] assms(2) by (auto simp: pool_step_def pool_may_def pool_inv_def Let_def)
  next
    case (Launch n)
    have "pool_ok (g\<lparr>ps_pool := pool_launch n (ps_pool g)\<rparr>) xs"
      using ok by (simp add: pool_ok_def pool_launch_def pending_def hosted_def Let_def)
    then show ?thesis using Launch by (auto simp: pool_step_def pool_inv_def Let_def)
  next
    case Stop_Pool
    have "pool_ok (g\<lparr>ps_pool := pool_stop (ps_pool g)\<rparr>) xs"
      using ok by (simp add: pool_ok_def pool_stop_def pending_def hosted_def Let_def)
    then show ?thesis using Stop_Pool by (auto simp: pool_step_def pool_inv_def Let_def)
  next
    case Next_Request
    then show ?thesis using pool_get_ok [OF ok] assms(2) by (auto simp: pool_step_def pool_may_def Let_def)
  next
    case (Transfer i off len st)
    have "pool_ok (g\<lparr>ps_pool := set_file i ((p_file (ps_pool g) i)\<lparr>f_offset := off, f_length := len, f_iostate := st\<rparr>) (ps_pool g)\<rparr>) xs"
      by (rule pool_ok_touch [OF ok]) (auto simp: pending_def)
    then show ?thesis using Transfer by (auto simp: pool_step_def pool_inv_def Let_def)
  next
    case (Finish i)
    then show ?thesis using worker_end_ok [OF ok, of i] assms(2) by (auto simp: pool_step_def pool_may_def pool_inv_def Let_def)
  qed
qed

interpretation requests: component pool_step pool_may pool_inv
  by unfold_locales (rule pool_step_keeps)

section \<open>Properties\<close>


definition pool_start :: pstate where
  "pool_start = \<lparr>ps_pool = \<lparr>p_file = (\<lambda>_. file_new False 0), p_proc = (\<lambda>_. \<lparr>ref_count = 2, named = False\<rparr>), p_next = (\<lambda>_. None),
       p_list = \<lparr>q_head = None, q_tail = None\<rparr>, p_stopping = False, p_workers = 2\<rparr>,
     ps_work = [], ps_files = (\<lambda>_. 1), ps_procs = (\<lambda>_. 2)\<rparr>"

definition pool_script :: "pool_op list" where
  "pool_script = [Read small_fs 5 0x1000 16, Read small_fs 3 0x2000 16, Close 5, Next_Request, Transfer 5 16 16 0, Finish 5, Next_Request]"

lemma pool_start_inv: "pool_inv pool_start"
  unfolding pool_inv_def
  by (rule exI [of _ "[]"], rule pool_okI)
    (simp_all add: pool_start_def pool_lists_def is_queue_def pending_def file_new_def hosted_def)


end
