(* ===== verification/User_Copy.thy ===== *)
theory User_Copy
  imports VSpace_Props
begin

text \<open>
  Copies between the kernel and a user space byte by byte. The loops of \<open>user_vspace::write\<close>, \<open>read\<close> and \<open>zero\<close> go page by
  page; here they are shown to be the copy of one byte after the other, which makes copies of adjacent pieces compose.
\<close>

definition writable :: "vspace \<Rightarrow> qword \<Rightarrow> bool" where
  "writable m va \<longleftrightarrow> (let pt = user_peek va m in pt_present pt \<and> pt_user pt \<and> pt_write pt)"

definition readable :: "vspace \<Rightarrow> qword \<Rightarrow> bool" where
  "readable m va \<longleftrightarrow> (let pt = user_peek va m in pt_present pt \<and> pt_user pt)"

definition phys_of :: "vspace \<Rightarrow> qword \<Rightarrow> nat" where
  "phys_of m va = pt_page_addr (user_peek va m) * 4096 + unat (va AND PAGE_MASK)"

fun put_user :: "vspace \<Rightarrow> qword \<Rightarrow> byte list \<Rightarrow> (nat \<Rightarrow> byte) \<Rightarrow> nat \<times> (nat \<Rightarrow> byte)" where
  "put_user m va [] p = (0, p)"
| "put_user m va (b # bs) p =
     (if writable m va then let (c, p) = put_user m (va + 1) bs (p(phys_of m va := b)) in (Suc c, p) else (0, p))"

fun get_user :: "vspace \<Rightarrow> qword \<Rightarrow> nat \<Rightarrow> (nat \<Rightarrow> byte) \<Rightarrow> byte list" where
  "get_user m va 0 p = []"
| "get_user m va (Suc n) p = (if readable m va then p (phys_of m va) # get_user m (va + 1) n p else [])"

section \<open>A page has one entry\<close>

lemma unat_drop_bit: "unat (drop_bit n x) = unat x div 2 ^ n" for x :: qword
  by (subst unat_drop_bit_eq) (rule drop_bit_eq_div)

lemma drop_bit_eq_12:
  assumes "drop_bit 12 va = drop_bit 12 (va' :: qword)" "12 \<le> n"
  shows "drop_bit n va = drop_bit n va'"
proof -
  obtain k where "n = k + 12" using assms(2) by (metis add.commute le_Suc_ex)
  then have e: "drop_bit n x = drop_bit k (drop_bit 12 x)" for x :: qword by (simp add: drop_bit_drop_bit)
  show ?thesis by (simp only: e assms(1))
qed

lemma above_512G: "size_512G \<le> x \<longleftrightarrow> drop_bit 39 x \<noteq> 0" for x :: qword
proof -
  have "drop_bit 39 x = 0 \<longleftrightarrow> unat x div 2 ^ 39 = 0" by (simp only: unat_drop_bit [symmetric] unat_eq_0)
  also have "\<dots> \<longleftrightarrow> unat x < 2 ^ 39" by (simp only: div_eq_0_iff) simp
  finally show ?thesis by (simp add: word_le_nat_alt not_less)
qed

lemma user_peek_page:
  assumes "drop_bit 12 va = drop_bit 12 (va' :: qword)"
  shows "user_peek va m = user_peek va' m"
proof -
  have d: "drop_bit 39 va = drop_bit 39 va'" "drop_bit 30 va = drop_bit 30 va'" "drop_bit 21 va = drop_bit 21 va'"
    by (rule drop_bit_eq_12 [OF assms], simp)+
  have "drop_bit 39 (LOWADDR va) = drop_bit 39 (LOWADDR va')" by (simp only: LOWADDR_def drop_bit_and d)
  moreover have "dir_pos va = dir_pos va'" by (simp only: pdpt_index_def pdt_index_def d)
  moreover have "pdpt_index va = pdpt_index va'" "pt_index va = pt_index va'" by (simp_all only: pdpt_index_def pt_index_def d assms)
  moreover have "size_512G \<le> va \<longleftrightarrow> size_512G \<le> va'" by (simp only: above_512G d)
  ultimately show ?thesis by (simp only: user_peek_def imp_peek_def)
qed

lemma same_page:
  assumes "unat (va AND PAGE_MASK) + k < 4096"
  shows "drop_bit 12 (va + of_nat k) = drop_bit 12 va" "unat ((va + of_nat k) AND PAGE_MASK) = unat (va AND PAGE_MASK) + k"
proof -
  have mask: "unat (x AND PAGE_MASK) = unat x mod 4096" for x :: qword
    using and_mask_unat [of x 12] by (simp add: mask_eq_exp_minus_1)
  define q r where "q = unat va div 4096" and "r = unat va mod 4096"
  have off: "r + k < 4096" using assms by (simp add: mask r_def)
  have v: "unat va = q * 4096 + r" by (simp add: q_def r_def)
  have "unat va < 2 ^ 64" using unsigned_less [of va] by simp
  then have "q < 4503599627370496" unfolding q_def by (simp add: less_mult_imp_div_less)
  then have "unat va + k < 18446744073709551616" using off v by linarith
  moreover have "unat (of_nat k :: qword) = k" using off by (simp add: unat_of_nat take_bit_nat_eq_self)
  ultimately have u: "unat (va + of_nat k) = unat va + k" by (simp add: unat_word_ariths)
  have dm: "(unat va + k) div 4096 = unat va div 4096" "(unat va + k) mod 4096 = unat va mod 4096 + k"
    using off mod_mult_self3 [of q 4096 "r + k"] unfolding v by (simp_all add: add.assoc)
  then have "unat (drop_bit 12 (va + of_nat k)) = unat (drop_bit 12 va)" by (simp add: unat_drop_bit u)
  then show "drop_bit 12 (va + of_nat k) = drop_bit 12 va" by (simp only: word_unat_eq_iff)
  show "unat ((va + of_nat k) AND PAGE_MASK) = unat (va AND PAGE_MASK) + k" by (simp add: mask u dm)
qed


section \<open>The loops copy byte by byte\<close>

lemma page_step:
  assumes "unat (va AND PAGE_MASK) + 1 < 4096"
  shows "user_peek (va + 1) m = user_peek va m" "phys_of m (va + 1) = Suc (phys_of m va)" "writable m (va + 1) = writable m va"
    "readable m (va + 1) = readable m va"
proof -
  show "user_peek (va + 1) m = user_peek va m" using same_page(1) [OF assms] by (intro user_peek_page) simp
  then show "phys_of m (va + 1) = Suc (phys_of m va)" "writable m (va + 1) = writable m va" "readable m (va + 1) = readable m va"
    using same_page(2) [OF assms] by (simp_all add: phys_of_def writable_def readable_def)
qed

definition page_put :: "nat \<Rightarrow> byte list \<Rightarrow> (nat \<Rightarrow> byte) \<Rightarrow> (nat \<Rightarrow> byte)" where
  "page_put base data p = (\<lambda>a. if base \<le> a \<and> a < base + length data then data ! (a - base) else p a)"

lemma page_put_simps: "page_put base [] p = p" "page_put base (b # bs) p = page_put (Suc base) bs (p(base := b))"
  by (auto simp: page_put_def fun_eq_iff Suc_diff_le nth_Cons' not_less_eq_eq)

lemma put_user_page:
  "writable m va \<Longrightarrow> unat (va AND PAGE_MASK) + length bs \<le> 4096 \<Longrightarrow>
   put_user m va (bs @ cs) p = (let (c, p') = put_user m (va + of_nat (length bs)) cs (page_put (phys_of m va) bs p) in (length bs + c, p'))"
proof (induction bs arbitrary: va p)
  case (Cons b bs)
  show ?case
  proof (cases "bs = []")
    case True
    then show ?thesis using Cons.prems by (simp add: page_put_simps fun_upd_def)
  next
    case False
    then have "unat (va AND PAGE_MASK) + 1 < 4096" using Cons.prems(2) by (cases bs) auto
    moreover from this have "unat ((va + 1) AND PAGE_MASK) + length bs \<le> 4096" using Cons.prems(2) same_page(2) [of va 1] by simp
    ultimately have "put_user m (va + 1) (bs @ cs) (p(phys_of m va := b)) =
        (let (c, p') = put_user m (va + 1 + of_nat (length bs)) cs (page_put (Suc (phys_of m va)) bs (p(phys_of m va := b))) in (length bs + c, p'))"
      using Cons.IH [of "va + 1"] Cons.prems(1) page_step [of va m] by simp
    then show ?thesis using Cons.prems(1) by (simp add: page_put_simps split_beta add.assoc Let_def)
  qed
qed (simp add: page_put_simps)

lemma user_write_loop_bytes: "user_write_loop m va data k p = (k + fst (put_user m va data p), snd (put_user m va data p))"
proof (induction m va data k p rule: user_write_loop.induct)
  case (1 m va data k p)
  show ?case
  proof (cases "data = [] \<or> \<not> writable m va")
    case True
    then show ?thesis by (subst user_write_loop.simps) (cases data; auto simp: writable_def Let_def)
  next
    case False
    then have w: "data \<noteq> []" "pt_present (user_peek va m)" "pt_user (user_peek va m)" "pt_write (user_peek va m)" by (auto simp: writable_def Let_def)
    define off where "off = unat (va AND PAGE_MASK)"
    define len where "len = min (length data) (4096 - off)"
    have o: "off < 4096" unfolding off_def by (rule page_off_less)
    have e: "page_put (phys_of m va) (take len data) p =
        (\<lambda>a. if pt_page_addr (user_peek va m) * 4096 + off \<le> a \<and> a < pt_page_addr (user_peek va m) * 4096 + off + len
          then data ! (a - (pt_page_addr (user_peek va m) * 4096 + off)) else p a)"
      by (auto simp: page_put_def phys_of_def off_def len_def fun_eq_iff intro!: nth_take)
    have "user_write_loop m va data k p =
        user_write_loop m (va + of_nat len) (drop len data) (k + len) (page_put (phys_of m va) (take len data) p)"
      using w unfolding e by (subst user_write_loop.simps) (simp add: Let_def off_def len_def cong: if_cong)
    also have "\<dots> = (k + len + fst (put_user m (va + of_nat len) (drop len data) (page_put (phys_of m va) (take len data) p)),
        snd (put_user m (va + of_nat len) (drop len data) (page_put (phys_of m va) (take len data) p)))"
      unfolding e using 1 [OF w(1) refl _ refl refl refl] w by (simp add: off_def len_def cong: if_cong)
    also have "\<dots> = (k + fst (put_user m va data p), snd (put_user m va data p))"
    proof -
      have l: "length (take len data) = len" by (simp add: len_def)
      have "put_user m va (take len data @ drop len data) p =
          (let (c, p') = put_user m (va + of_nat len) (drop len data) (page_put (phys_of m va) (take len data) p) in (len + c, p'))"
        using put_user_page [of m va "take len data" "drop len data" p] False o l by (simp add: off_def len_def)
      then show ?thesis by (simp add: split_beta)
    qed
    finally show ?thesis .
  qed
qed

lemma get_user_page:
  "readable m va \<Longrightarrow> unat (va AND PAGE_MASK) + k \<le> 4096 \<Longrightarrow>
   get_user m va (k + n) p = map p [phys_of m va..<phys_of m va + k] @ get_user m (va + of_nat k) n p"
proof (induction k arbitrary: va)
  case (Suc k)
  show ?case
  proof (cases "k = 0")
    case True
    then show ?thesis using Suc.prems by simp
  next
    case False
    then have a: "unat (va AND PAGE_MASK) + 1 < 4096" using Suc.prems(2) by simp
    then have "unat ((va + 1) AND PAGE_MASK) + k \<le> 4096" using Suc.prems(2) same_page(2) [of va 1] by simp
    then have "get_user m (va + 1) (k + n) p = map p [Suc (phys_of m va)..<Suc (phys_of m va) + k] @ get_user m (va + 1 + of_nat k) n p"
      using Suc.IH [of "va + 1"] Suc.prems(1) page_step [OF a, of m] by simp
    moreover have "[phys_of m va..<phys_of m va + Suc k] = phys_of m va # [Suc (phys_of m va)..<Suc (phys_of m va) + k]"
      by (simp add: upt_conv_Cons del: upt_Suc)
    ultimately show ?thesis using Suc.prems(1) by (simp add: add.assoc del: upt_Suc)
  qed
qed simp

lemma user_read_loop_bytes: "user_read_loop m va n p = get_user m va n p"
proof (induction m va n p rule: user_read_loop.induct)
  case (1 m va n p)
  show ?case
  proof (cases "n = 0 \<or> \<not> readable m va")
    case True
    then show ?thesis by (subst user_read_loop.simps) (cases n; auto simp: readable_def Let_def)
  next
    case False
    then have w: "n \<noteq> 0" "pt_present (user_peek va m)" "pt_user (user_peek va m)" by (auto simp: readable_def Let_def)
    define off where "off = unat (va AND PAGE_MASK)"
    define len where "len = min n (4096 - off)"
    have o: "off < 4096" unfolding off_def by (rule page_off_less)
    have "user_read_loop m va n p = map p [phys_of m va..<phys_of m va + len] @ user_read_loop m (va + of_nat len) (n - len) p"
      using w by (subst user_read_loop.simps) (simp add: Let_def off_def len_def phys_of_def)
    also have "user_read_loop m (va + of_nat len) (n - len) p = get_user m (va + of_nat len) (n - len) p"
      using 1 [OF w(1) refl _ refl refl refl] w by (simp add: off_def len_def)
    also have "map p [phys_of m va..<phys_of m va + len] @ get_user m (va + of_nat len) (n - len) p = get_user m va n p"
      using get_user_page [of m va len "n - len" p] False o by (simp add: off_def len_def)
    finally show ?thesis .
  qed
qed


section \<open>Copies compose\<close>

lemma put_user_le: "fst (put_user m va bs p) \<le> length bs"
  by (induction bs arbitrary: va p) (auto simp: split_beta)

lemma put_user_append:
  "put_user m va (xs @ ys) p = (if fst (put_user m va xs p) = length xs
     then let q = put_user m (va + of_nat (length xs)) ys (snd (put_user m va xs p)) in (length xs + fst q, snd q)
     else put_user m va xs p)"
  by (induction xs arbitrary: va p) (auto simp: split_beta Let_def add.assoc)

lemma put_user_writable: "k < fst (put_user m va bs p) \<Longrightarrow> writable m (va + of_nat k)"
proof (induction bs arbitrary: va p k)
  case (Cons b bs)
  then have w: "writable m va" by (auto split: if_splits)
  show ?case
  proof (cases k)
    case 0
    then show ?thesis using w by simp
  next
    case (Suc j)
    have "j < fst (put_user m (va + 1) bs (p(phys_of m va := b)))" using Cons.prems Suc w by (simp add: split_beta)
    then show ?thesis using Cons.IH [of j "va + 1"] Suc by (simp add: add.assoc)
  qed
qed simp

lemma put_user_full: "(\<And>k. k < length bs \<Longrightarrow> writable m (va + of_nat k)) \<Longrightarrow> fst (put_user m va bs p) = length bs"
proof (induction bs arbitrary: va p)
  case (Cons b bs)
  have "writable m va" using Cons.prems [of 0] by simp
  moreover have "writable m (va + 1 + of_nat k)" if "k < length bs" for k using Cons.prems [of "Suc k"] that by (simp add: add.assoc)
  ultimately show ?case using Cons.IH [of "va + 1"] by (simp add: split_beta)
qed simp

lemma get_user_le: "length (get_user m va n p) \<le> n"
  by (induction m va n p rule: get_user.induct) auto

lemma get_user_append:
  "get_user m va (a + b) p = (if length (get_user m va a p) = a then get_user m va a p @ get_user m (va + of_nat a) b p else get_user m va a p)"
  by (induction a arbitrary: va) (auto simp: add.assoc)

lemma get_user_readable: "k < length (get_user m va n p) \<Longrightarrow> readable m (va + of_nat k)"
proof (induction m va n p arbitrary: k rule: get_user.induct)
  case (2 m va n p)
  then show ?case by (cases k) (auto simp: add.assoc split: if_splits)
qed simp

lemma get_user_full: "(\<And>k. k < n \<Longrightarrow> readable m (va + of_nat k)) \<Longrightarrow> length (get_user m va n p) = n"
proof (induction n arbitrary: va)
  case (Suc n)
  have "readable m va" using Suc.prems [of 0] by simp
  moreover have "readable m (va + 1 + of_nat k)" if "k < n" for k using Suc.prems [of "Suc k"] that by (simp add: add.assoc)
  ultimately show ?case using Suc.IH [of "va + 1"] by simp
qed simp

section \<open>Addresses below the limit\<close>

lemma readable_below: "readable m va \<Longrightarrow> unat va < 2 ^ 39"
  by (auto simp: readable_def user_peek_def pte_zero_def Let_def word_le_nat_alt not_le split: if_splits)

lemma writable_readable: "writable m va \<Longrightarrow> readable m va"
  by (auto simp: writable_def readable_def Let_def)

lemma low_not_high: "unat va \<le> 2 ^ 39 \<Longrightarrow> \<not> IS_HIGHADDR va"
proof
  assume a: "unat va \<le> 2 ^ 39" and "IS_HIGHADDR va"
  then have "va AND 0xFFFF800000000000 = 0xFFFF800000000000" by (simp add: IS_HIGHADDR_def HIGHADDR_def)
  then have "0xFFFF800000000000 \<le> va" using word_and_le1 [of "0xFFFF800000000000" va] by (metis word_and_le2)
  then show False using a by (simp add: word_le_nat_alt)
qed

lemma after_readable_low:
  assumes "\<not> IS_HIGHADDR va" "\<And>k. k < n \<Longrightarrow> readable m (va + of_nat k)"
  shows "\<not> IS_HIGHADDR (va + of_nat n)"
proof (cases n)
  case (Suc j)
  then have j: "unat (va + of_nat j) < 2 ^ 39" using assms(2) [of j] readable_below by blast
  define x where "x = va + of_nat j"
  have x: "va + of_nat n = x + 1" by (simp add: Suc x_def add.assoc add.commute)
  have "unat (va + of_nat n) = unat x + 1" using j unfolding x x_def [symmetric] by (simp add: unat_word_ariths)
  then show ?thesis using j by (intro low_not_high) (simp add: x_def)
qed (use assms in simp)

lemma user_copy_low:
  assumes "\<not> IS_HIGHADDR va"
  shows "user_write high m va data p = put_user m va data p" "user_zero high m va n p = put_user m va (replicate n 0) p"
    "user_read hr m va n p = get_user m va n p"
  using assms by (simp_all add: user_write_def user_zero_def user_read_def user_write_loop_bytes user_read_loop_bytes)

end
