(* ===== verification/File_Work.thy ===== *)
theory File_Work
  imports File_Queue Exfat_Dir User_Copy
begin

text \<open>
  The work of the file system threads, \<^verbatim>\<open>filesystem/worker.cpp\<close>: reading, listing and writing, over the cluster chain of the
  file, the sectors of the volume as the cache shows them and the address space of the process that asked; and the parts of
  \<^verbatim>\<open>filesystem/instance.cpp\<close> that writing needs (\<open>get_lba\<close> with expansion, \<open>set_size\<close>, \<open>update_size\<close>, \<open>update_chain\<close>).
  \<open>high\<close> stands for the copy of kernel addresses, \<open>bad\<close> for the sectors the disk cannot read.
\<close>

type_synonym phys = "nat \<Rightarrow> byte"
type_synonym high_write = "qword \<Rightarrow> byte list \<Rightarrow> phys \<Rightarrow> phys"
type_synonym high_read = "qword \<Rightarrow> nat \<Rightarrow> phys \<Rightarrow> byte list"

section \<open>Instances\<close>

record instance_t =
  in_clusters :: Exfat.chain
  in_valid_size :: qword
  in_alloc_size :: qword
  in_rec_index :: dword

text \<open>The records of one file as the reader left them, written back over the first two.\<close>

definition put_sector :: "nat \<Rightarrow> byte list \<Rightarrow> sector \<Rightarrow> sector" where
  "put_sector off data f = (\<lambda>i. if off \<le> i \<and> i < off + length data then data ! (i - off) else f i)"

definition with_checksum :: "drec list \<Rightarrow> drec list" where
  "with_checksum lst = (let s = checksum lst in
     (hd lst)[2 := ucast s, 3 := ucast (drop_bit 8 s)] # tl lst)"

text \<open>The copy of both records is taken to fit the sector when the first one does; when it does not, bytes outside the sector
  are overwritten, which the model treats as a stop.\<close>

definition reader_update :: "exfat \<Rightarrow> (qword \<Rightarrow> bool) \<Rightarrow> nat \<Rightarrow> nat \<Rightarrow> nat \<Rightarrow> drec list \<Rightarrow> Exfat.chain \<Rightarrow> volume \<Rightarrow>
    (bool \<times> Exfat.chain \<times> volume) res" where
  "reader_update fs bad limit base index lst ch m =
     (if length lst < 2 \<or> entrance_size lst + 1 \<noteq> length lst then Inr (False, ch, m)
      else if base + entrance_size lst + 1 \<noteq> index \<or> index > limit then Inr (False, ch, m)
      else let lst = with_checksum lst; off = base * 0x20 mod 2 ^ 32 in
        rbind (inst_lba fs bad m (of_nat off) ch) (\<lambda>(lba, ch).
        if lba = 0 \<or> bad lba then Inr (False, ch, m)
        else if off mod 0x200 \<le> 0x200 - 0x20 then
          (if off mod 0x200 + 0x40 > 0x200 then bugcheck ''copy past the end of the sector''
           else Inr (True, ch, m(lba := put_sector (off mod 0x200) (lst ! 0 @ lst ! 1) (m lba))))
        else let m = m(lba := put_sector (off mod 0x200) (lst ! 0) (m lba)); off = (off + 0x20) mod 2 ^ 32 in
          rbind (inst_lba fs bad m (of_nat off) ch) (\<lambda>(lba, ch).
          if lba = 0 \<or> bad lba then Inr (False, ch, m)
          else Inr (True, ch, m(lba := put_sector (off mod 0x200) (lst ! 1) (m lba))))))"

text \<open>\<open>update_size\<close> and \<open>update_chain\<close> find the records of the instance and write two of them back after a change.\<close>

definition update_records :: "exfat \<Rightarrow> (qword \<Rightarrow> bool) \<Rightarrow> nat \<Rightarrow> (drec \<Rightarrow> drec) \<Rightarrow> instance_t \<Rightarrow> volume \<Rightarrow>
    (bool \<times> instance_t \<times> volume) res" where
  "update_records fs bad i change par m =
     (let limit = unat (in_valid_size par div 0x20) mod 2 ^ 32 in
      rbind (dir_step (Suc limit) fs bad m (ALLOW_FILE OR ALLOW_FOLDER) 0 limit i [] (in_clusters par)) (\<lambda>(stat, index, lst, ch).
        if stat \<noteq> 0 then Inr (False, par\<lparr>in_clusters := ch\<rparr>, m)
        else kassert (2 \<le> length lst)
          (if i + entrance_size lst + 1 \<noteq> index then Inr (False, par\<lparr>in_clusters := ch\<rparr>, m)
           else rbind (reader_update fs bad limit i index (lst[1 := change (lst ! 1)]) ch m) (\<lambda>(ok, ch, m).
             Inr (ok, par\<lparr>in_clusters := ch\<rparr>, m)))))"

definition put_bytes :: "nat \<Rightarrow> nat \<Rightarrow> nat \<Rightarrow> drec \<Rightarrow> drec" where
  "put_bytes n v off r = fold (\<lambda>k r. r[off + k := of_nat (v div 256 ^ k)]) [0..<n] r"

text \<open>In the stream record the valid size is at offset 8, the first cluster at 0x14 and the allocated size at 0x18.\<close>

definition update_size :: "exfat \<Rightarrow> (qword \<Rightarrow> bool) \<Rightarrow> instance_t \<Rightarrow> instance_t \<Rightarrow> volume \<Rightarrow> (bool \<times> instance_t \<times> volume) res" where
  "update_size fs bad inst par m = update_records fs bad (unat (in_rec_index inst))
     (\<lambda>r. put_bytes 8 (unat (in_alloc_size inst)) 0x18 (put_bytes 8 (unat (in_valid_size inst)) 8 r)) par m"

definition update_chain :: "exfat \<Rightarrow> (qword \<Rightarrow> bool) \<Rightarrow> instance_t \<Rightarrow> dword \<Rightarrow> instance_t \<Rightarrow> volume \<Rightarrow> (bool \<times> instance_t \<times> volume) res" where
  "update_chain fs bad inst head par m = update_records fs bad (unat (in_rec_index inst)) (put_bytes 4 (unat head) 0x14) par m"

definition set_size :: "exfat \<Rightarrow> (qword \<Rightarrow> bool) \<Rightarrow> qword \<Rightarrow> qword \<Rightarrow> instance_t \<Rightarrow> instance_t \<Rightarrow> volume \<Rightarrow>
    (bool \<times> instance_t \<times> instance_t \<times> volume) res" where
  "set_size fs bad vs sz inst par m =
     (if in_valid_size inst \<noteq> vs \<or> in_alloc_size inst \<noteq> sz
      then let inst = inst\<lparr>in_valid_size := vs, in_alloc_size := sz\<rparr> in
        rbind (update_size fs bad inst par m) (\<lambda>(ok, par, m). Inr (ok, inst, par, m))
      else Inr (True, inst, par, m))"

text \<open>\<open>get_lba\<close> with \<open>expand\<close>: look up, expand, look up again; \<open>n\<close> bounds the turns.\<close>

record fsys =
  s_fs :: exfat
  s_vol :: volume
  s_parent :: instance_t

primrec lba_expand :: "nat \<Rightarrow> (qword \<Rightarrow> bool) \<Rightarrow> qword \<Rightarrow> instance_t \<Rightarrow> fsys \<Rightarrow> (qword \<times> instance_t \<times> fsys) res" where
  "lba_expand 0 bad offset inst s = Inl OutOfFuel"
| "lba_expand (Suc n) bad offset inst s =
     (let size = ucast (fs_cluster_size (s_fs s)) :: qword; index = ucast (offset div size) :: dword in
      rbind (chain_get (s_fs s) bad (s_vol s) index (in_clusters inst)) (\<lambda>(cluster, ch).
      let inst = inst\<lparr>in_clusters := ch\<rparr> in
      if cluster \<noteq> 0 then rbind (lba_of_cluster (s_fs s) cluster) (\<lambda>base.
        Inr (if base \<noteq> 0 then base + offset mod size div 0x200 else 0, inst, s))
      else rbind (chain_expand bad index (in_clusters inst) (s_fs s) (s_vol s)) (\<lambda>(ok, ch, fs, m).
        let inst = inst\<lparr>in_clusters := ch\<rparr>; s = s\<lparr>s_fs := fs, s_vol := m\<rparr> in
        if \<not> ok then Inr (0, inst, s)
        else if offset div size \<noteq> 0 then lba_expand n bad offset inst s
        else rbind (chain_get fs bad m 0 ch) (\<lambda>(head, ch).
          let inst = inst\<lparr>in_clusters := ch\<rparr> in
          rbind (update_chain fs bad inst head (s_parent s) m) (\<lambda>(ok, par, m).
          let s = s\<lparr>s_parent := par, s_vol := m\<rparr> in
          if \<not> ok then Inr (0, inst, s) else lba_expand n bad offset inst s)))))"

section \<open>Reading\<close>

definition sector_bytes :: "volume \<Rightarrow> qword \<Rightarrow> nat \<Rightarrow> nat \<Rightarrow> byte list" where
  "sector_bytes m lba off n = map (\<lambda>k. m (lba + of_nat ((off + k) div 0x200)) ((off + k) mod 0x200)) [0..<n]"

definition read_size :: "exfat \<Rightarrow> qword \<Rightarrow> qword \<Rightarrow> dword \<Rightarrow> qword \<Rightarrow> qword" where
  "read_size fs lba offset rest vsize =
     (let off = offset AND 0x1FF; size = ucast (fs_cluster_size fs);
          n = min (of_nat (dm_count lba * 0x200) - off) (ucast rest)
      in min (min n (vsize - offset)) (size - offset mod size))"

primrec worker_read_loop :: "nat \<Rightarrow> exfat \<Rightarrow> (qword \<Rightarrow> bool) \<Rightarrow> volume \<Rightarrow> high_write \<Rightarrow> vspace \<Rightarrow> instance_t \<Rightarrow> qword \<Rightarrow> dword \<Rightarrow> file_t \<Rightarrow>
    phys \<Rightarrow> (dword \<times> file_t \<times> instance_t \<times> phys) res" where
  "worker_read_loop 0 fs bad m high vs inst dst len f p = Inl OutOfFuel"
| "worker_read_loop (Suc n) fs bad m high vs inst dst len f p =
     (if \<not> len < f_length f then Inr (len, f, inst, p)
      else if f_offset f \<ge> in_alloc_size inst then Inr (len, io_fail (ucast EOF_FAILURE) f, inst, p)
      else if f_offset f \<ge> in_valid_size inst then
        let sz = min (in_alloc_size inst - in_valid_size inst) (ucast (f_length f - len)) :: qword;
            (c, p) = user_zero high vs dst (unat sz) p in
        if c \<noteq> unat sz then Inr (len + of_nat c, io_fail MEM_FAILURE f, inst, p)
        else worker_read_loop n fs bad m high vs inst dst (len + of_nat c) f p
      else rbind (inst_lba fs bad m (f_offset f) (in_clusters inst)) (\<lambda>(lba, ch).
        let inst = inst\<lparr>in_clusters := ch\<rparr> in
        if lba = 0 then Inr (len, io_fail (ucast FS_FAILURE) f, inst, p)
        else let sz = read_size fs lba (f_offset f) (f_length f - len) (in_valid_size inst) in
          kassert (sz \<noteq> 0)
            (if bad lba then Inr (len, io_fail (ucast MEDIA_FAILURE) f, inst, p)
             else let (c, p) = user_write high vs dst (sector_bytes m lba (unat (f_offset f AND 0x1FF)) (unat sz)) p;
                      f = f\<lparr>f_offset := f_offset f + of_nat c\<rparr> in
               if c \<noteq> unat sz then Inr (len + of_nat c, io_fail MEM_FAILURE f, inst, p)
               else worker_read_loop n fs bad m high vs inst (dst + of_nat c) (len + of_nat c) f p)))"

definition worker_read :: "exfat \<Rightarrow> (qword \<Rightarrow> bool) \<Rightarrow> volume \<Rightarrow> high_write \<Rightarrow> vspace \<Rightarrow> instance_t \<Rightarrow> file_t \<Rightarrow> phys \<Rightarrow>
    (file_t \<times> instance_t \<times> phys) res" where
  "worker_read fs bad m high vs inst f p =
     kassert (f_command f = COMMAND_READ \<and> \<not> f_folder f)
       (if f_buffer f = 0 \<or> f_length f = 0 then Inr ((io_fail MEM_FAILURE f)\<lparr>f_length := 0\<rparr>, inst, p)
        else kassert (in_alloc_size inst \<ge> in_valid_size inst)
          (rbind (worker_read_loop (Suc (unat (f_length f))) fs bad m high vs inst (f_buffer f) 0 f p) (\<lambda>(len, f, inst, p).
            Inr (f\<lparr>f_length := len\<rparr>, inst, p))))"

section \<open>Listing\<close>

definition worker_list :: "exfat \<Rightarrow> (qword \<Rightarrow> bool) \<Rightarrow> volume \<Rightarrow> high_write \<Rightarrow> vspace \<Rightarrow> instance_t \<Rightarrow> file_t \<Rightarrow> phys \<Rightarrow>
    (file_t \<times> instance_t \<times> phys) res" where
  "worker_list fs bad m high vs inst f p =
     kassert (f_command f = COMMAND_LIST \<and> f_folder f)
       (if f_buffer f = 0 \<or> f_length f = 0 then Inr ((io_fail MEM_FAILURE f)\<lparr>f_length := 0\<rparr>, inst, p)
        else if f_offset f AND 0x1F \<noteq> 0 then Inr ((io_fail OP_FAILURE f)\<lparr>f_length := 0\<rparr>, inst, p)
        else let limit = unat (in_valid_size inst div 0x20) mod 2 ^ 32; start = unat (f_offset f div 0x20) mod 2 ^ 32 in
          rbind (dir_step (Suc limit) fs bad m (ALLOW_FILE OR ALLOW_FOLDER) 0 limit start [] (in_clusters inst)) (\<lambda>(stat, index, lst, ch).
            let inst = inst\<lparr>in_clusters := ch\<rparr>; f = f\<lparr>f_offset := ucast (of_nat index * record_size)\<rparr> in
            if stat \<noteq> 0 then Inr ((io_fail (ucast stat) f)\<lparr>f_length := 0\<rparr>, inst, p)
            else let name = get_name True lst;
                     (f, sz) = (if unat (f_length f) < length name then (io_fail MEM_FAILURE f, unat (f_length f)) else (f, length name));
                     (c, p) = user_write high vs (f_buffer f) (take sz name) p;
                     f = f\<lparr>f_length := of_nat c\<rparr> in
              Inr (if c \<noteq> sz then io_fail MEM_FAILURE f else f, inst, p)))"

section \<open>Writing\<close>

definition write_size :: "exfat \<Rightarrow> qword \<Rightarrow> qword \<Rightarrow> dword \<Rightarrow> qword" where
  "write_size fs lba offset rest =
     (let off = offset AND 0x1FF; size = ucast (fs_cluster_size fs)
      in min (min (of_nat (dm_count lba * 0x200) - off) (ucast rest)) (size - offset mod size))"

text \<open>Bytes written into the sectors from \<open>lba\<close> on.\<close>

definition put_run :: "qword \<Rightarrow> nat \<Rightarrow> byte list \<Rightarrow> volume \<Rightarrow> volume" where
  "put_run lba off data m = (\<lambda>l i. let k = unat (l - lba) * 0x200 + i in
     if i < 0x200 \<and> off \<le> k \<and> k < off + length data then data ! (k - off) else m l i)"

text \<open>An overwriting \<open>get\<close> hands out zeroed sectors; otherwise the sectors keep what was there.\<close>

definition zero_run :: "qword \<Rightarrow> nat \<Rightarrow> volume \<Rightarrow> volume" where
  "zero_run lba n m = put_run lba 0 (replicate (n * 0x200) 0) m"

primrec worker_write_loop :: "nat \<Rightarrow> (qword \<Rightarrow> bool) \<Rightarrow> high_read \<Rightarrow> vspace \<Rightarrow> phys \<Rightarrow> instance_t \<Rightarrow> qword \<Rightarrow> dword \<Rightarrow> qword \<Rightarrow> qword \<Rightarrow>
    file_t \<Rightarrow> fsys \<Rightarrow> (dword \<times> qword \<times> qword \<times> file_t \<times> instance_t \<times> fsys) res" where
  "worker_write_loop 0 bad high vs p inst sor len vsize sz f s = Inl OutOfFuel"
| "worker_write_loop (Suc n) bad high vs p inst sor len vsize sz f s =
     (if \<not> len < f_length f then Inr (len, vsize, sz, f, inst, s)
      else rbind (lba_expand 2 bad (f_offset f) inst s) (\<lambda>(lba, inst, s).
        if lba = 0 then Inr (len, vsize, sz, io_fail (ucast FS_FAILURE) f, inst, s)
        else let off = unat (f_offset f AND 0x1FF); t = write_size (s_fs s) lba (f_offset f) (f_length f - len) in
          kassert (t \<noteq> 0)
            (let count = unat (align_up t 0x200 div 0x200); overwrite = (off = 0 \<and> count * 0x200 = unat t) in
             if bad lba then Inr (len, vsize, sz, io_fail (ucast MEDIA_FAILURE) f, inst, s)
             else let data = user_read high vs sor (unat t) p; c = length data;
                      m = (if overwrite then zero_run lba count (s_vol s) else s_vol s);
                      s = s\<lparr>s_vol := put_run lba off data m\<rparr>;
                      f = f\<lparr>f_offset := f_offset f + of_nat c\<rparr>;
                      vsize = max vsize (f_offset f); sz = max sz vsize in
               if c \<noteq> unat t then Inr (len + of_nat c, vsize, sz, io_fail MEM_FAILURE f, inst, s)
               else worker_write_loop n bad high vs p inst (sor + of_nat c) (len + of_nat c) vsize sz f s)))"

definition worker_write :: "(qword \<Rightarrow> bool) \<Rightarrow> high_read \<Rightarrow> vspace \<Rightarrow> phys \<Rightarrow> instance_t \<Rightarrow> file_t \<Rightarrow> fsys \<Rightarrow>
    (file_t \<times> instance_t \<times> fsys) res" where
  "worker_write bad high vs p inst f s =
     kassert (f_command f = COMMAND_WRITE \<and> \<not> f_folder f)
       (if f_buffer f = 0 \<or> f_length f = 0 then Inr ((io_fail MEM_FAILURE f)\<lparr>f_length := 0\<rparr>, inst, s)
        else kassert (in_alloc_size inst \<ge> in_valid_size inst)
          (rbind (worker_write_loop (Suc (unat (f_length f))) bad high vs p inst (f_buffer f) 0 (in_valid_size inst) (in_alloc_size inst) f s)
            (\<lambda>(len, vsize, sz, f, inst, s).
            rbind (set_size (s_fs s) bad vsize sz inst (s_parent s) (s_vol s)) (\<lambda>(ok, inst, par, m).
              Inr ((if ok then f else io_fail (ucast FS_FAILURE) f)\<lparr>f_length := len\<rparr>, inst, s\<lparr>s_parent := par, s_vol := m\<rparr>)))))"

section \<open>The dispatcher\<close>

text \<open>The switch of \<open>thread_worker\<close>; the case of a listing runs on into the default.\<close>

definition dispatch :: "(qword \<Rightarrow> bool) \<Rightarrow> high_write \<Rightarrow> high_read \<Rightarrow> vspace \<Rightarrow> instance_t \<Rightarrow> file_t \<Rightarrow> phys \<Rightarrow> fsys \<Rightarrow>
    (file_t \<times> instance_t \<times> phys \<times> fsys) res" where
  "dispatch bad hw hr vs inst f p s =
     (if f_command f = COMMAND_READ then
        rbind (worker_read (s_fs s) bad (s_vol s) hw vs inst f p) (\<lambda>(f, inst, p). Inr (f, inst, p, s))
      else if f_command f = COMMAND_WRITE then
        rbind (worker_write bad hr vs p inst f s) (\<lambda>(f, inst, s). Inr (f, inst, p, s))
      else if f_command f = COMMAND_LIST then
        rbind (worker_list (s_fs s) bad (s_vol s) hw vs inst f p) (\<lambda>(f, inst, p). Inr (io_fail OP_FAILURE f, inst, p, s))
      else Inr (io_fail OP_FAILURE f, inst, p, s))"

end
