(* ===== verification/File_Props.thy ===== *)
theory File_Props
  imports File_Work
begin

text \<open>
  What the file system threads do: a read inside the written part of a file is one copy of the bytes of the file into the
  buffer of the process, a write is one copy the other way, and the loops end; and how reads past the written part and
  listings behave.
\<close>

section \<open>The bytes of a file\<close>

definition cluster_bytes :: "exfat \<Rightarrow> nat" where "cluster_bytes fs = 2 ^ unat (fs_cluster_shift fs)"

definition cluster_at :: "exfat \<Rightarrow> (qword \<Rightarrow> bool) \<Rightarrow> volume \<Rightarrow> Exfat.chain \<Rightarrow> nat \<Rightarrow> dword" where
  "cluster_at fs bad m ch o' = chain_ref fs bad m (of_nat (o' div cluster_bytes fs)) ch"

definition cluster_lba :: "exfat \<Rightarrow> dword \<Rightarrow> qword" where
  "cluster_lba fs c = fs_heap fs + ucast (c - 2) * (ucast (fs_cluster_size fs) div 0x200)"

definition file_lba :: "exfat \<Rightarrow> (qword \<Rightarrow> bool) \<Rightarrow> volume \<Rightarrow> Exfat.chain \<Rightarrow> nat \<Rightarrow> qword" where
  "file_lba fs bad m ch o' = cluster_lba fs (cluster_at fs bad m ch o') + of_nat (o' mod cluster_bytes fs div 0x200)"

definition file_byte :: "exfat \<Rightarrow> (qword \<Rightarrow> bool) \<Rightarrow> volume \<Rightarrow> Exfat.chain \<Rightarrow> nat \<Rightarrow> byte" where
  "file_byte fs bad m ch o' = m (file_lba fs bad m ch o') (o' mod 0x200)"

text \<open>The byte has a place on the volume that can be read.\<close>

definition placed :: "exfat \<Rightarrow> (qword \<Rightarrow> bool) \<Rightarrow> volume \<Rightarrow> Exfat.chain \<Rightarrow> nat \<Rightarrow> bool" where
  "placed fs bad m ch o' \<longleftrightarrow> (let c = cluster_at fs bad m ch o' in 2 \<le> c \<and> c < 0xFFFFFFF7 \<and> c - 2 < fs_cluster_count fs \<and>
     cluster_lba fs c \<noteq> 0 \<and> file_lba fs bad m ch o' \<noteq> 0 \<and> \<not> bad (file_lba fs bad m ch o'))"

definition fs_ok :: "exfat \<Rightarrow> bool" where
  "fs_ok fs \<longleftrightarrow> 9 \<le> unat (fs_cluster_shift fs) \<and> unat (fs_cluster_shift fs) \<le> 31"

lemma of_nat_unat_ucast: "(of_nat (unat w) :: 'b::len word) = ucast w" for w :: "'a::len word"
  by (simp add: word_unat_eq_iff unat_of_nat unsigned_ucast_eq)

lemma of_nat_unat_self: "of_nat (unat w) = w" for w :: "'a::len word"
  by (simp add: of_nat_unat_ucast)

lemma unat_limits: "unat d < 4294967296" "unat q < 18446744073709551616" for d :: dword and q :: qword
  using unsigned_less [of d, where 'a = nat] unsigned_less [of q, where 'a = nat] by simp_all

lemma unat_dword_add: "unat a + unat b < 4294967296 \<Longrightarrow> unat (a + b) = unat a + unat b" for a b :: dword
  by (simp add: unat_word_ariths)

lemma unat_min: "unat (min a b) = min (unat a) (unat b)" for a b :: "'a::len word"
  by (simp add: min_def word_le_nat_alt)

lemma cluster_size_qword:
  assumes "fs_ok fs"
  shows "unat (ucast (fs_cluster_size fs) :: qword) = cluster_bytes fs"
proof -
  let ?s = "unat (fs_cluster_shift fs)"
  have s: "?s < 32" using assms by (simp add: fs_ok_def)
  have "unat (fs_cluster_size fs) = 2 ^ ?s"
    using unat_pow2 [of ?s, where 'a = 32] s by (simp add: fs_cluster_size_def push_bit_eq_mult)
  then show ?thesis by (simp add: unat_up cluster_bytes_def)
qed

lemma cluster_bytes_facts: "fs_ok fs \<Longrightarrow> 0 < cluster_bytes fs \<and> 0x200 dvd cluster_bytes fs \<and> cluster_bytes fs \<le> 2 ^ 31"
  using le_imp_power_dvd [of 9 "unat (fs_cluster_shift fs)" "2 :: nat"] power_increasing [of "unat (fs_cluster_shift fs)" 31 "2 :: nat"]
  by (simp add: fs_ok_def cluster_bytes_def)

lemma inst_lba_place:
  assumes ok: "fs_ok fs" and inv: "chain_inv fs bad m ch" "chain_wf fs bad m (ch_first ch)" and pl: "placed fs bad m ch (unat offset)"
  shows "\<exists>ch'. inst_lba fs bad m offset ch = Inr (file_lba fs bad m ch (unat offset), ch') \<and> chain_inv fs bad m ch' \<and>
    ch_first ch' = ch_first ch \<and> ch_linear ch' = ch_linear ch"
proof -
  let ?S = "ucast (fs_cluster_size fs) :: qword"
  let ?c = "cluster_at fs bad m ch (unat offset)"
  have i: "(ucast (offset div ?S) :: dword) = of_nat (unat offset div cluster_bytes fs)"
  proof -
    have "unat (offset div ?S) = unat offset div cluster_bytes fs" by (simp only: unat_div cluster_size_qword [OF ok])
    then show ?thesis by (metis of_nat_unat_ucast)
  qed
  have d: "offset mod ?S div 0x200 = of_nat (unat offset mod cluster_bytes fs div 0x200)"
  proof -
    have "unat (offset mod ?S div 0x200) = unat offset mod cluster_bytes fs div 0x200"
      by (simp only: unat_div unat_mod cluster_size_qword [OF ok]) simp
    then show ?thesis by (metis of_nat_unat_self)
  qed
  obtain ch' where g: "chain_get fs bad m (ucast (offset div ?S)) ch = Inr (?c, ch')" "chain_inv fs bad m ch'"
    "ch_first ch' = ch_first ch" "ch_linear ch' = ch_linear ch"
    using chain_get_ok [OF inv, of "ucast (offset div ?S)"] by (auto simp: cluster_at_def i)
  have c: "2 \<le> ?c" "?c < 0xFFFFFFF7" "\<not> ?c - 2 \<ge> fs_cluster_count fs" "cluster_lba fs ?c \<noteq> 0" using pl by (auto simp: placed_def Let_def)
  then have "?c \<noteq> 0" by auto
  then have "inst_lba fs bad m offset ch = Inr (file_lba fs bad m ch (unat offset), ch')"
    using g(1) c d by (simp add: inst_lba_def lba_of_cluster_def Let_def cluster_lba_def file_lba_def)
  then show ?thesis using g by blast
qed


lemma in_cluster:
  assumes ok: "fs_ok fs" and k: "o' mod cluster_bytes fs + k < cluster_bytes fs"
  shows "(o' + k) div cluster_bytes fs = o' div cluster_bytes fs" "(o' + k) mod cluster_bytes fs = o' mod cluster_bytes fs + k"
    "(o' mod cluster_bytes fs + k) div 0x200 = o' mod cluster_bytes fs div 0x200 + (o' mod 0x200 + k) div 0x200"
proof -
  let ?S = "cluster_bytes fs"
  define q r where "q = o' div ?S" and "r = o' mod ?S"
  have o: "o' = q * ?S + r" by (simp add: q_def r_def)
  have k': "r + k < ?S" using k by (simp add: r_def)
  then have e: "o' + k = q * ?S + (r + k)" by (simp add: o)
  show "(o' + k) div ?S = o' div ?S" unfolding e q_def [symmetric] using k' by simp
  show "(o' + k) mod ?S = o' mod ?S + k" unfolding e r_def [symmetric] using k' by simp
  have "r mod 0x200 = o' mod 0x200" unfolding r_def using cluster_bytes_facts [OF ok] by (simp add: mod_mod_cancel)
  then have "r + k = r div 0x200 * 0x200 + (o' mod 0x200 + k)" using div_mult_mod_eq [of r "0x200"] by simp
  then have "(r + k) div 0x200 = (r div 0x200 * 0x200 + (o' mod 0x200 + k)) div 0x200" by simp
  also have "\<dots> = r div 0x200 + (o' mod 0x200 + k) div 0x200" by (rule div_mult_self3) simp
  finally show "(o' mod ?S + k) div 0x200 = o' mod ?S div 0x200 + (o' mod 0x200 + k) div 0x200" by (simp add: r_def)
qed

lemma sector_bytes_file:
  assumes ok: "fs_ok fs" and n: "n \<le> cluster_bytes fs - o' mod cluster_bytes fs"
  shows "sector_bytes m (file_lba fs bad m ch o') (o' mod 0x200) n = map (file_byte fs bad m ch) [o'..<o' + n]"
proof -
  have "m (file_lba fs bad m ch o' + of_nat ((o' mod 0x200 + k) div 0x200)) ((o' mod 0x200 + k) mod 0x200) = file_byte fs bad m ch (o' + k)"
    if "k < n" for k
  proof -
    have "o' mod cluster_bytes fs + k < cluster_bytes fs" using that n cluster_bytes_facts [OF ok] mod_less_divisor [of "cluster_bytes fs" o'] by linarith
    note c = in_cluster [OF ok this]
    show ?thesis unfolding file_byte_def file_lba_def cluster_at_def c(1,2) by (simp add: c(3) add.assoc mod_add_left_eq)
  qed
  then show ?thesis unfolding sector_bytes_def by (intro nth_equalityI) simp_all
qed

lemma room_in_page: "unat (of_nat (dm_count lba * 0x200) - (offset AND 0x1FF)) = dm_count lba * 0x200 - unat offset mod 0x200" for offset :: qword
proof -
  have a: "unat (offset AND 0x1FF) = unat offset mod 0x200" using and_mask_unat [of offset 9] by (simp add: mask_eq_exp_minus_1)
  have dc: "1 \<le> dm_count lba" "dm_count lba \<le> 8" by (simp_all add: dm_count_eq)
  have c: "unat (of_nat (dm_count lba * 0x200) :: qword) = dm_count lba * 0x200"
    using dc by (simp only: unat_of_nat) (simp add: take_bit_nat_eq_self)
  have "offset AND 0x1FF \<le> of_nat (dm_count lba * 0x200)"
    unfolding word_le_nat_alt a c using dc mod_less_divisor [of "0x200" "unat offset"] by linarith
  then show ?thesis by (simp only: unat_sub a c)
qed

lemma room_in_cluster:
  assumes ok: "fs_ok fs"
  shows "unat (ucast (fs_cluster_size fs) - offset mod ucast (fs_cluster_size fs) :: qword) = cluster_bytes fs - unat offset mod cluster_bytes fs"
proof -
  let ?S = "ucast (fs_cluster_size fs) :: qword"
  have m: "unat (offset mod ?S) = unat offset mod cluster_bytes fs" by (simp add: unat_mod cluster_size_qword [OF ok])
  then have "offset mod ?S \<le> ?S" using cluster_bytes_facts [OF ok] by (simp add: word_le_nat_alt cluster_size_qword [OF ok])
  then show ?thesis by (simp only: unat_sub m cluster_size_qword [OF ok])
qed

lemma read_size_nat:
  assumes ok: "fs_ok fs" and v: "offset < vsize"
  shows "unat (read_size fs lba offset rest vsize) = min (min (min (dm_count lba * 0x200 - unat offset mod 0x200) (unat rest)) (unat vsize - unat offset))
    (cluster_bytes fs - unat offset mod cluster_bytes fs)"
proof -
  have "unat (vsize - offset) = unat vsize - unat offset" using v by (simp add: unat_sub)
  then show ?thesis unfolding read_size_def Let_def by (simp only: unat_min room_in_page room_in_cluster [OF ok] unat_up)
qed

lemma write_size_nat:
  assumes ok: "fs_ok fs"
  shows "unat (write_size fs lba offset rest) = min (min (dm_count lba * 0x200 - unat offset mod 0x200) (unat rest))
    (cluster_bytes fs - unat offset mod cluster_bytes fs)"
  unfolding write_size_def Let_def by (simp only: unat_min room_in_page room_in_cluster [OF ok] unat_up)

section \<open>Reading the written part\<close>

lemma min_parts: "N = min (min (min a r) v) c \<Longrightarrow> 1 \<le> a \<Longrightarrow> 1 \<le> r \<Longrightarrow> r \<le> v \<Longrightarrow> 1 \<le> c \<Longrightarrow> 1 \<le> N \<and> N \<le> r \<and> N \<le> c" for N :: nat
  by simp

lemma place_cong:
  assumes "ch_first ch' = ch_first ch" "ch_linear ch' = ch_linear ch"
  shows "file_lba fs bad m ch' = file_lba fs bad m ch" "file_byte fs bad m ch' = file_byte fs bad m ch" "placed fs bad m ch' = placed fs bad m ch"
proof -
  have "cluster_at fs bad m ch' = cluster_at fs bad m ch" by (rule ext) (simp add: cluster_at_def chain_ref_def assms)
  then show f: "file_lba fs bad m ch' = file_lba fs bad m ch" by (intro ext) (simp add: file_lba_def)
  show "file_byte fs bad m ch' = file_byte fs bad m ch" by (intro ext) (simp add: file_byte_def f)
  show "placed fs bad m ch' = placed fs bad m ch"
    by (intro ext) (simp add: placed_def f cluster_at_def chain_ref_def assms)
qed

text \<open>The result of a transfer of \<open>r\<close> bytes of which \<open>c\<close> were copied.\<close>

definition moved :: "nat \<Rightarrow> nat \<Rightarrow> file_t \<Rightarrow> file_t" where
  "moved r c f = f\<lparr>f_offset := f_offset f + of_nat c, f_iostate := f_iostate f OR (if c = r then 0 else MEM_FAILURE)\<rparr>"

lemma moved_simps: "moved r r f = f\<lparr>f_offset := f_offset f + of_nat r\<rparr>"
  "c \<noteq> r \<Longrightarrow> moved r c f = io_fail MEM_FAILURE (f\<lparr>f_offset := f_offset f + of_nat c\<rparr>)"
  by (simp_all add: moved_def io_fail_def)

lemma moved_add: "moved r c (f\<lparr>f_offset := f_offset f + of_nat n\<rparr>) = moved (n + r) (n + c) f"
  by (simp add: moved_def add.assoc)

lemma worker_read_loop_copies:
  assumes "fs_ok fs" "chain_inv fs bad m (in_clusters inst)" "chain_wf fs bad m (ch_first (in_clusters inst))" "\<not> IS_HIGHADDR dst"
    "len \<le> f_length f" "r = unat (f_length f - len)" "r < n" "in_valid_size inst \<le> in_alloc_size inst"
    "unat (f_offset f) + r \<le> unat (in_valid_size inst)"
    "\<And>k. k < r \<Longrightarrow> placed fs bad m (in_clusters inst) (unat (f_offset f) + k)"
  shows "\<exists>ch'. let q = put_user vs dst (map (file_byte fs bad m (in_clusters inst)) [unat (f_offset f)..<unat (f_offset f) + r]) p in
    worker_read_loop n fs bad m high vs inst dst len f p =
      Inr (len + of_nat (fst q), moved r (fst q) f, inst\<lparr>in_clusters := ch'\<rparr>, snd q)"
  using assms
proof (induction n arbitrary: inst dst len f p r)
  case (Suc n)
  show ?case
  proof (cases "r = 0")
    case True
    then have "\<not> len < f_length f" using Suc.prems(5,6) by (simp add: unat_eq_0)
    then show ?thesis using True by (intro exI [of _ "in_clusters inst"]) (simp add: moved_simps Let_def)
  next
    case False
    let ?o = "unat (f_offset f)" and ?ch = "in_clusters inst" and ?S = "cluster_bytes fs"
    have lt: "len < f_length f" using False Suc.prems(5,6) by (auto simp: le_less)
    have ov: "f_offset f < in_valid_size inst" using Suc.prems(9) False by (simp add: word_less_nat_alt)
    obtain ch' where lba: "inst_lba fs bad m (f_offset f) ?ch = Inr (file_lba fs bad m ?ch ?o, ch')" "chain_inv fs bad m ch'"
      "ch_first ch' = ch_first ?ch" "ch_linear ch' = ch_linear ?ch"
      using inst_lba_place [OF Suc.prems(1-3)] Suc.prems(10) [of 0] False by auto
    note pc = place_cong [OF lba(3,4)]
    have pl: "file_lba fs bad m ?ch ?o \<noteq> 0" "\<not> bad (file_lba fs bad m ?ch ?o)" using Suc.prems(10) [of 0] False by (auto simp: placed_def Let_def)
    define sz where "sz = read_size fs (file_lba fs bad m ?ch ?o) (f_offset f) (f_length f - len) (in_valid_size inst)"
    have dc: "1 \<le> dm_count (file_lba fs bad m ?ch ?o)" by (simp add: dm_count_eq)
    have pos: "1 \<le> dm_count (file_lba fs bad m ?ch ?o) * 0x200 - ?o mod 0x200" "1 \<le> ?S - ?o mod ?S" "1 \<le> r" "r \<le> unat (in_valid_size inst) - ?o"
      using dc False Suc.prems(9) cluster_bytes_facts [OF Suc.prems(1)] mod_less_divisor [of "0x200" ?o] mod_less_divisor [of ?S ?o] by linarith+
    have "unat sz = min (min (min (dm_count (file_lba fs bad m ?ch ?o) * 0x200 - ?o mod 0x200) r) (unat (in_valid_size inst) - ?o)) (?S - ?o mod ?S)"
      unfolding sz_def Suc.prems(6) by (rule read_size_nat [OF Suc.prems(1) ov])
    moreover obtain N where N: "unat sz = N" by simp
    ultimately have szn: "1 \<le> N" "N \<le> r" "N \<le> ?S - ?o mod ?S" using min_parts [OF _ pos(1,3,4,2), of N] by blast+
    have ma: "unat (f_offset f AND 0x1FF) = ?o mod 0x200" using and_mask_unat [of "f_offset f" 9] by (simp add: mask_eq_exp_minus_1)
    define b where "b = map (file_byte fs bad m ?ch) [?o..<?o + N]"
    have sb: "sector_bytes m (file_lba fs bad m ?ch ?o) (unat (f_offset f AND 0x1FF)) N = b"
      unfolding b_def ma by (rule sector_bytes_file [OF Suc.prems(1) szn(3)])
    have lb: "length b = N" by (simp add: b_def)
    define q where "q = put_user vs dst b p"
    define f1 where "f1 = f\<lparr>f_offset := f_offset f + of_nat (fst q)\<rparr>"
    have step: "worker_read_loop (Suc n) fs bad m high vs inst dst len f p =
        (if fst q \<noteq> N then Inr (len + of_nat (fst q), io_fail MEM_FAILURE f1, inst\<lparr>in_clusters := ch'\<rparr>, snd q)
         else worker_read_loop n fs bad m high vs (inst\<lparr>in_clusters := ch'\<rparr>) (dst + of_nat (fst q)) (len + of_nat (fst q)) f1 (snd q))"
    proof -
      have "sz \<noteq> 0" using szn(1) N by auto
      moreover have "\<not> in_alloc_size inst \<le> f_offset f" "\<not> in_valid_size inst \<le> f_offset f" using ov Suc.prems(8) by auto
      moreover have "user_write high vs dst b p = q" by (simp add: q_def user_copy_low(1) [OF Suc.prems(4)])
      ultimately show ?thesis
        using lt lba(1) pl sb by (simp add: sz_def [symmetric] N f1_def Let_def split_beta)
    qed
    define whole where "whole = map (file_byte fs bad m ?ch) [?o..<?o + r]"
    have "[?o..<?o + r] = [?o..<?o + N] @ [?o + N..<?o + r]" using szn(2) upt_add_eq_append [of ?o "?o + N" "r - N"] by simp
    then have w: "whole = b @ map (file_byte fs bad m ?ch) [?o + N..<?o + r]" by (simp add: whole_def b_def)
    show ?thesis
    proof (cases "fst q = N")
      case False
      then have pw: "put_user vs dst whole p = q" unfolding w by (subst put_user_append) (simp add: q_def [symmetric] lb)
      have "fst q \<noteq> r" using False szn(2) put_user_le [of vs dst b p] by (simp add: q_def [symmetric] lb)
      then show ?thesis using step False unfolding whole_def [symmetric] pw
        by (intro exI [of _ ch']) (simp add: moved_simps f1_def Let_def)
    next
      case full: True
      let ?r' = "r - N"
      have nh: "\<not> IS_HIGHADDR (dst + of_nat (N))"
        by (rule after_readable_low [OF Suc.prems(4)]) (use full in \<open>auto simp: q_def intro!: writable_readable put_user_writable [where p = p and bs = b]\<close>)
      have szd: "unat (of_nat (N) :: dword) = N"
        using szn(2) Suc.prems(6) unat_limits(1) [of "f_length f - len"] by (simp add: unat_of_nat take_bit_nat_eq_self)
      have sub: "unat (f_length f - len) = unat (f_length f) - unat len" using Suc.prems(5) by (simp add: unat_sub)
      have len': "unat (len + of_nat (N)) = unat len + N"
        using szn(2) Suc.prems(6) sub unat_limits(1) [of "f_length f"] Suc.prems(5) szd by (subst unat_dword_add) (auto simp: word_le_nat_alt)
      have le': "len + of_nat (N) \<le> f_length f" using len' szn(2) Suc.prems(5,6) sub by (simp add: word_le_nat_alt)
      have rest: "?r' = unat (f_length f - (len + of_nat (N)))" using le' len' Suc.prems(6) sub by (simp add: unat_sub)
      have off': "unat (f_offset f1) = ?o + N"
      proof -
        have "unat (of_nat N :: qword) = N" using N unat_limits(2) [of sz] by (simp add: unat_of_nat take_bit_nat_eq_self)
        then show ?thesis using Suc.prems(9) szn(2) unat_limits(2) [of "in_valid_size inst"] by (simp add: f1_def full unat_add_fit)
      qed
      have pl': "placed fs bad m ch' (unat (f_offset f1) + k)" if "k < ?r'" for k
        using Suc.prems(10) [of "N + k"] that unfolding off' pc by (simp add: add.assoc)
      obtain ch'' where ih: "worker_read_loop n fs bad m high vs (inst\<lparr>in_clusters := ch'\<rparr>) (dst + of_nat (N)) (len + of_nat (N)) f1 (snd q) =
          (let q' = put_user vs (dst + of_nat (N)) (map (file_byte fs bad m ?ch) [?o + N..<?o + r]) (snd q) in
           Inr (len + of_nat (N) + of_nat (fst q'), moved ?r' (fst q') f1, inst\<lparr>in_clusters := ch''\<rparr>, snd q'))"
      proof -
        have e: "unat (f_offset f1) + ?r' = ?o + r" using off' szn(2) by simp
        have "\<exists>ch''. let q' = put_user vs (dst + of_nat (N)) (map (file_byte fs bad m ch') [unat (f_offset f1)..<unat (f_offset f1) + ?r']) (snd q) in
            worker_read_loop n fs bad m high vs (inst\<lparr>in_clusters := ch'\<rparr>) (dst + of_nat (N)) (len + of_nat (N)) f1 (snd q) =
            Inr (len + of_nat (N) + of_nat (fst q'), moved ?r' (fst q') f1, (inst\<lparr>in_clusters := ch'\<rparr>)\<lparr>in_clusters := ch''\<rparr>, snd q')"
          using Suc.IH [of "inst\<lparr>in_clusters := ch'\<rparr>" "dst + of_nat (N)" "len + of_nat (N)" f1 ?r' "snd q"]
            Suc.prems(1,3,7,8,9) lba(2,3) nh le' rest pl' szn(1,2) e by (simp add: f1_def)
        then obtain ch'' where "let q' = put_user vs (dst + of_nat N) (map (file_byte fs bad m ?ch) [?o + N..<?o + r]) (snd q) in
            worker_read_loop n fs bad m high vs (inst\<lparr>in_clusters := ch'\<rparr>) (dst + of_nat N) (len + of_nat N) f1 (snd q) =
            Inr (len + of_nat N + of_nat (fst q'), moved ?r' (fst q') f1, inst\<lparr>in_clusters := ch''\<rparr>, snd q')"
          unfolding off' pc using szn(2) by auto
        then show ?thesis using that [of ch''] by (simp add: Let_def)
      qed
      define q' where "q' = put_user vs (dst + of_nat (N)) (map (file_byte fs bad m ?ch) [?o + N..<?o + r]) (snd q)"
      have pw: "put_user vs dst whole p = (N + fst q', snd q')"
        unfolding w by (subst put_user_append) (simp add: q_def [symmetric] lb full q'_def Let_def)
      have "moved ?r' (fst q') f1 = moved r (N + fst q') f" using moved_add [of ?r' "fst q'" f "N"] szn(2) by (simp add: f1_def full)
      then show ?thesis using step full ih unfolding whole_def [symmetric] pw q'_def [symmetric]
        by (intro exI [of _ ch'']) (simp add: Let_def add.assoc)
    qed
  qed
qed simp


section \<open>The loops end\<close>

lemma advance_len:
  fixes L len :: dword
  assumes "len < L" "1 \<le> c" "c \<le> unat (L - len)"
  shows "len + of_nat c \<le> L" "unat (L - (len + of_nat c)) = unat (L - len) - c"
proof -
  have sub: "unat (L - len) = unat L - unat len" using assms(1) by (simp add: unat_sub)
  have "unat (of_nat c :: dword) = c" using assms(3) unat_limits(1) [of "L - len"] by (simp add: unat_of_nat take_bit_nat_eq_self)
  then have u: "unat (len + of_nat c) = unat len + c"
    using assms(1,3) sub unat_limits(1) [of L] by (subst unat_dword_add) (auto simp: word_less_nat_alt)
  then show le: "len + of_nat c \<le> L" using assms(1,3) sub by (simp add: word_le_nat_alt word_less_nat_alt)
  show "unat (L - (len + of_nat c)) = unat (L - len) - c" using le u sub by (simp add: unat_sub)
qed

lemma worker_read_loop_ends:
  "len \<le> f_length f \<Longrightarrow> unat (f_length f - len) < n \<Longrightarrow> worker_read_loop n fs bad m high vs inst dst len f p \<noteq> Inl OutOfFuel"
proof (induction n arbitrary: inst dst len f p)
  case (Suc n)
  show ?case
  proof (cases "len < f_length f")
    case lt: True
    consider (eof) "in_alloc_size inst \<le> f_offset f" | (gap) "f_offset f < in_alloc_size inst" "in_valid_size inst \<le> f_offset f"
      | (data) "f_offset f < in_alloc_size inst" "f_offset f < in_valid_size inst" by force
    then show ?thesis
    proof cases
      case eof
      then show ?thesis using lt by simp
    next
      case gap
      define sz where "sz = min (in_alloc_size inst - in_valid_size inst) (ucast (f_length f - len)) "
      have "in_alloc_size inst - in_valid_size inst \<noteq> 0" using gap by auto
      moreover have "unat (ucast (f_length f - len) :: qword) \<noteq> 0" using lt unfolding unat_up by (auto simp: unat_eq_0)
      ultimately have 1: "1 \<le> unat sz" "unat sz \<le> unat (f_length f - len)"
        unfolding sz_def unat_min by (auto simp: unat_up unat_eq_0 Suc_le_eq unat_gt_0)
      obtain c p' where z: "user_zero high vs dst (unat sz) p = (c, p')" by fastforce
      show ?thesis
      proof (cases "c = unat sz")
        case True
        have "worker_read_loop n fs bad m high vs inst dst (len + of_nat (unat sz)) f p' \<noteq> Inl OutOfFuel"
          by (rule Suc.IH) (use advance_len [OF lt 1] Suc.prems 1 in simp_all)
        then show ?thesis using lt gap z True by (simp add: sz_def [symmetric] Let_def split_beta)
      qed (use lt gap z in \<open>simp add: sz_def [symmetric] Let_def split_beta\<close>)
    next
      case data
      show ?thesis
      proof (cases "inst_lba fs bad m (f_offset f) (in_clusters inst)")
        case (Inl e)
        then show ?thesis using lt data inst_lba_no_fuel [of fs bad m "f_offset f" "in_clusters inst"] by auto
      next
        case (Inr a)
        obtain lba ch where a: "a = (lba, ch)" by (cases a)
        define sz where "sz = read_size fs lba (f_offset f) (f_length f - len) (in_valid_size inst)"
        have "sz \<le> ucast (f_length f - len)" unfolding sz_def read_size_def Let_def by (meson min.cobounded1 min.cobounded2 order_trans)
        then have 2: "unat sz \<le> unat (f_length f - len)" by (simp add: word_le_nat_alt unat_up)
        obtain c p' where w: "user_write high vs dst (sector_bytes m lba (unat (f_offset f AND 0x1FF)) (unat sz)) p = (c, p')" by fastforce
        define f1 where "f1 = f\<lparr>f_offset := f_offset f + of_nat c\<rparr>"
        show ?thesis
        proof (cases "lba = 0 \<or> sz = 0 \<or> bad lba \<or> c \<noteq> unat sz")
          case True
          then show ?thesis using lt data Inr a w by (auto simp: sz_def [symmetric] f1_def [symmetric] Let_def kassert_def)
        next
          case False
          then have 1: "1 \<le> unat sz" "c = unat sz" by (auto simp: Suc_le_eq unat_gt_0)
          have "worker_read_loop n fs bad m high vs (inst\<lparr>in_clusters := ch\<rparr>) (dst + of_nat c) (len + of_nat c) f1 p' \<noteq> Inl OutOfFuel"
            by (rule Suc.IH) (use advance_len [OF lt 1(1) 2] 1 2 Suc.prems in \<open>simp_all add: f1_def\<close>)
          moreover have "\<not> in_alloc_size inst \<le> f_offset f" "\<not> in_valid_size inst \<le> f_offset f" using data by auto
          ultimately show ?thesis using lt Inr a w False by (simp add: sz_def [symmetric] f1_def Let_def split_beta)
        qed
      qed
    qed
  qed simp
qed simp

section \<open>Reading past the written part\<close>

lemma put_user_same: "(\<And>k. k < length bs \<Longrightarrow> p (phys_of m (va + of_nat k)) = bs ! k) \<Longrightarrow> snd (put_user m va bs p) = p"
proof (induction bs arbitrary: va p)
  case (Cons b bs)
  have "p(phys_of m va := b) = p" using Cons.prems [of 0] by (simp add: fun_upd_idem)
  moreover have "p (phys_of m (va + 1 + of_nat k)) = bs ! k" if "k < length bs" for k
    using Cons.prems [of "Suc k"] that by (simp add: add.assoc)
  ultimately show ?case using Cons.IH [of p "va + 1"] by (simp add: split_beta)
qed simp

lemma put_user_zero_keeps: "p a = 0 \<Longrightarrow> snd (put_user m va (replicate n 0) p) a = 0"
  by (induction n arbitrary: va p) (auto simp: split_beta)

lemma put_user_zeroes: "k < fst (put_user m va (replicate n 0) p) \<Longrightarrow> snd (put_user m va (replicate n 0) p) (phys_of m (va + of_nat k)) = 0"
proof (induction n arbitrary: va p k)
  case (Suc n)
  then have w: "writable m va" by (auto split: if_splits)
  show ?case
  proof (cases k)
    case 0
    then show ?thesis using w put_user_zero_keeps [of "p(phys_of m va := 0)" "phys_of m va"] by (simp add: split_beta)
  next
    case (Suc j)
    then show ?thesis using Suc.IH [of j "va + 1" "p(phys_of m va := 0)"] Suc.prems w by (simp add: split_beta add.assoc fun_upd_def)
  qed
qed simp


lemma worker_read_loop_gap:
  fixes inst dst f vs
  defines "G \<equiv> unat (in_alloc_size inst - in_valid_size inst)"
  assumes gap: "in_valid_size inst \<le> f_offset f" "f_offset f < in_alloc_size inst" and low: "\<not> IS_HIGHADDR dst"
    and w: "\<And>k. k < min G (unat (f_length f)) \<Longrightarrow> writable vs (dst + of_nat k)"
  shows "len < f_length f \<Longrightarrow> unat (f_length f - len) < n \<Longrightarrow>
    len = 0 \<or> (\<forall>k<G. p (phys_of vs (dst + of_nat k)) = 0) \<Longrightarrow>
    worker_read_loop n fs bad m high vs inst dst len f p =
      Inr (f_length f, f, inst, snd (put_user vs dst (replicate (min G (unat (f_length f - len))) 0) p))"
proof (induction n arbitrary: len p)
  case (Suc n)
  define R where "R = unat (f_length f - len)"
  have sub: "R = unat (f_length f) - unat len" using Suc.prems(1) by (simp add: R_def unat_sub)
  have R: "1 \<le> R" "R \<le> unat (f_length f)" using Suc.prems(1) sub by (auto simp: word_less_nat_alt)
  have G: "1 \<le> G" using gap by (auto simp: G_def Suc_le_eq unat_gt_0)
  define sz where "sz = min (in_alloc_size inst - in_valid_size inst) (ucast (f_length f - len))"
  have sz: "unat sz = min G R" by (simp add: sz_def unat_min unat_up G_def R_def)
  define q where "q = put_user vs dst (replicate (min G R) 0) p"
  have fq: "fst q = min G R" unfolding q_def by (subst put_user_full) (use w R in auto)
  have z: "user_zero high vs dst (unat sz) p = q" by (simp add: sz q_def user_copy_low(2) [OF low])
  have c1: "1 \<le> min G R" "min G R \<le> unat (f_length f - len)" using R G by (simp_all add: R_def)
  note adv = advance_len [OF Suc.prems(1) c1]
  have step: "worker_read_loop (Suc n) fs bad m high vs inst dst len f p =
      worker_read_loop n fs bad m high vs inst dst (len + of_nat (min G R)) f (snd q)"
  proof -
    have "\<not> in_alloc_size inst \<le> f_offset f" using gap(2) by auto
    then show ?thesis using Suc.prems(1) gap(1) z sz fq by (simp add: sz_def [symmetric] Let_def split_beta)
  qed
  show ?case
  proof (cases "R \<le> G")
    case True
    then have e: "min G R = R" by simp
    then have "unat (f_length f - (len + of_nat R)) = 0" using adv by (simp add: R_def)
    then have "len + of_nat R = f_length f" by (simp add: unat_eq_0)
    moreover have "0 < n" using Suc.prems(2) R by (simp add: R_def)
    then obtain n' where "n = Suc n'" by (cases n) auto
    ultimately show ?thesis using step unfolding e R_def [symmetric] q_def by simp
  next
    case False
    then have e: "min G R = G" by simp
    have lt: "len + of_nat G < f_length f" using adv False unfolding e R_def [symmetric] by (auto simp: le_less unat_eq_0)
    have zq: "snd q (phys_of vs (dst + of_nat k)) = 0" if "k < G" for k
      using put_user_zeroes [of k vs dst "min G R" p] that fq e by (simp add: q_def)
    have "snd (put_user vs dst (replicate (min G (unat (f_length f - (len + of_nat G)))) 0) (snd q)) = snd q"
      by (rule put_user_same) (use zq in auto)
    moreover have "unat (f_length f - (len + of_nat G)) < n" using adv(2) [unfolded e] Suc.prems(2) G R(1) unfolding R_def by linarith
    ultimately show ?thesis using step Suc.IH [OF lt] zq unfolding e R_def [symmetric] q_def by simp
  qed
qed simp

section \<open>Properties\<close>

lemma read_copies:
  assumes "fs_ok fs" "chain_inv fs bad m (in_clusters inst)" "chain_wf fs bad m (ch_first (in_clusters inst))"
    "f_command f = COMMAND_READ" "\<not> f_folder f" "f_buffer f \<noteq> 0" "\<not> IS_HIGHADDR (f_buffer f)" "f_length f \<noteq> 0"
    "in_valid_size inst \<le> in_alloc_size inst" "unat (f_offset f) + unat (f_length f) \<le> unat (in_valid_size inst)"
    "\<And>k. k < unat (f_length f) \<Longrightarrow> placed fs bad m (in_clusters inst) (unat (f_offset f) + k)"
    "user_write high vs (f_buffer f)
       (map (file_byte fs bad m (in_clusters inst)) [unat (f_offset f)..<unat (f_offset f) + unat (f_length f)]) p = (c, p')"
  shows "\<exists>f' inst'. worker_read fs bad m high vs inst f p = Inr (f', inst', p') \<and> c \<le> unat (f_length f) \<and>
    f_length f' = of_nat c \<and> f_offset f' = f_offset f + of_nat c \<and>
    f_iostate f' = (if c = unat (f_length f) then f_iostate f else f_iostate f OR MEM_FAILURE) \<and>
    in_valid_size inst' = in_valid_size inst \<and> in_alloc_size inst' = in_alloc_size inst"
proof -
  let ?d = "map (file_byte fs bad m (in_clusters inst)) [unat (f_offset f)..<unat (f_offset f) + unat (f_length f)]"
  have q: "put_user vs (f_buffer f) ?d p = (c, p')" using assms(12) by (simp add: user_copy_low(1) [OF assms(7)])
  have "c \<le> unat (f_length f)" using put_user_le [of vs "f_buffer f" ?d p] q by simp
  moreover obtain ch' where "worker_read_loop (Suc (unat (f_length f))) fs bad m high vs inst (f_buffer f) 0 f p =
      Inr (of_nat c, moved (unat (f_length f)) c f, inst\<lparr>in_clusters := ch'\<rparr>, p')"
    using worker_read_loop_copies [OF assms(1-3,7), of 0 f "unat (f_length f)" "Suc (unat (f_length f))" vs p high] assms(9-11) q
    by (auto simp: Let_def)
  ultimately show ?thesis using assms(4-6,8,9) by (simp add: worker_read_def moved_def del: worker_read_loop.simps)
qed


text \<open>
  a read request always ends: with any volume, sizes, buffer and failing sectors, the loop of \<open>worker_read\<close> makes at most as many
  turns as bytes are asked for.
\<close>

theorem worker_read_ends: "worker_read fs bad m high vs inst f p \<noteq> Inl OutOfFuel"
proof -
  have "worker_read_loop (Suc (unat (f_length f))) fs bad m high vs inst (f_buffer f) 0 f p \<noteq> Inl OutOfFuel"
    by (rule worker_read_loop_ends) simp_all
  then show ?thesis by (auto simp: worker_read_def kassert_def rbind_fuel)
qed

text \<open>
  a read request that starts behind the written part of a file, but inside its size, reports as many bytes as were asked for,
  even past the end of the file, while the offset stays where it is and no end of file is reported; only the first bytes of the
  buffer are written, as many as the unwritten part of the file is long.
\<close>

theorem read_of_gap_stays:
  assumes "f_command f = COMMAND_READ" "\<not> f_folder f" "f_buffer f \<noteq> 0" "\<not> IS_HIGHADDR (f_buffer f)" "f_length f \<noteq> 0"
    "in_valid_size inst \<le> f_offset f" "f_offset f < in_alloc_size inst"
    "\<And>k. k < min (unat (in_alloc_size inst - in_valid_size inst)) (unat (f_length f)) \<Longrightarrow> writable vs (f_buffer f + of_nat k)"
  shows "worker_read fs bad m high vs inst f p = Inr (f, inst, snd (user_write high vs (f_buffer f)
    (replicate (min (unat (in_alloc_size inst - in_valid_size inst)) (unat (f_length f))) 0) p))"
proof -
  have "worker_read_loop (Suc (unat (f_length f))) fs bad m high vs inst (f_buffer f) 0 f p = Inr (f_length f, f, inst,
      snd (put_user vs (f_buffer f) (replicate (min (unat (in_alloc_size inst - in_valid_size inst)) (unat (f_length f - 0))) 0) p))"
    by (rule worker_read_loop_gap) (use assms in \<open>auto simp: word_gt_0\<close>)
  moreover have "in_valid_size inst \<le> in_alloc_size inst" using assms(6,7) by auto
  ultimately show ?thesis using assms(1-5) by (simp add: worker_read_def user_copy_low(1) [OF assms(4)] del: worker_read_loop.simps)
qed


section \<open>A small file\<close>

text \<open>A file of two clusters, 9 and 5, whose first 600 of 1000 bytes have been written, and a read into the only page of a
  process.\<close>

definition small_inst :: instance_t where
  "small_inst = \<lparr>in_clusters = chain_new 9 False, in_valid_size = 600, in_alloc_size = 1000, in_rec_index = 0\<rparr>"

definition small_read :: "qword \<Rightarrow> file_t" where
  "small_read off = (file_new False 0)\<lparr>f_offset := off, f_buffer := 0x200000, f_length := 4, f_command := COMMAND_READ\<rparr>"

lemma small_fs_ok: "fs_ok small_fs" "cluster_bytes small_fs = 0x200"
  by (simp_all add: fs_ok_def cluster_bytes_def small_fs_def)

lemma small_chain_inv: "chain_inv small_fs (\<lambda>_. False) small_volume (chain_new 9 False)"
  by (simp add: chain_inv_def lines_inv_def chain_new_def)

lemma small_cluster: "k < 1024 \<Longrightarrow> cluster_at small_fs (\<lambda>_. False) small_volume (chain_new 9 False) k = (if k < 0x200 then 9 else 5)"
proof -
  assume k: "k < 1024"
  have "k div 0x200 = (if k < 0x200 then 0 else 1)" using k by auto
  then show ?thesis
    by (simp add: cluster_at_def chain_ref_def small_fs_ok chain_new_def small_chain del: chain_at.simps)
qed

lemma small_cluster_lba: "cluster_lba small_fs c = 50 + ucast (c - 2)"
  by (simp add: cluster_lba_def fs_cluster_size_def small_fs_def)

lemma small_place: "k < 1024 \<Longrightarrow> file_lba small_fs (\<lambda>_. False) small_volume (chain_new 9 False) k = (if k < 0x200 then 57 else 53)"
  by (simp add: file_lba_def small_cluster small_fs_ok small_cluster_lba)

lemma small_placed: "k < 1024 \<Longrightarrow> placed small_fs (\<lambda>_. False) small_volume (chain_new 9 False) k"
proof -
  assume "k < 1024"
  moreover have "fs_cluster_count small_fs = 40" by (simp add: small_fs_def)
  ultimately show ?thesis by (simp add: placed_def small_cluster small_place small_cluster_lba Let_def)
qed

lemma one_page_writable: "k < 4096 \<Longrightarrow> writable one_page_space (0x200000 + of_nat k)"
proof -
  assume "k < 4096"
  then have "user_peek (0x200000 + of_nat k) one_page_space = user_peek 0x200000 one_page_space"
    by (intro user_peek_page same_page) simp
  then show ?thesis by (simp add: writable_def one_page_peek user_pte_def)
qed

lemma one_page_low: "\<not> IS_HIGHADDR 0x200000"
  by (rule low_not_high) simp

lemma ch_first_new: "ch_first (chain_new c b) = c"
  by (simp add: chain_new_def)


theorem read_of_gap_stays_witness:
  "\<exists>p'. worker_read small_fs (\<lambda>_. False) small_volume (\<lambda>_ _ p. p) one_page_space small_inst ((small_read 999)\<lparr>f_length := 1000\<rparr>) (\<lambda>_. 7) =
     Inr ((small_read 999)\<lparr>f_length := 1000\<rparr>, small_inst, p')"
  by (rule exI, rule read_of_gap_stays)
    (use one_page_low one_page_writable in \<open>simp_all add: small_inst_def small_read_def file_new_def\<close>)

text \<open>
  a listing always ends with the operation failure bit set, also when a name has been delivered, because the case of the
  dispatcher runs on into the default.
\<close>

theorem listing_reports_failure:
  assumes "f_command f = COMMAND_LIST" "dispatch bad hw hr vs inst f p s = Inr (f', inst', p', s')"
  shows "f_iostate f' AND OP_FAILURE = OP_FAILURE"
  using assms by (auto simp: dispatch_def res_simps io_fail_def and.assoc bit.conj_disj_distrib2)


definition small_dir :: instance_t where
  "small_dir = \<lparr>in_clusters = chain_new 9 True, in_valid_size = 0x60, in_alloc_size = 0x200, in_rec_index = 0\<rparr>"

definition dir_system :: fsys where
  "dir_system = \<lparr>s_fs = small_fs, s_vol = (\<lambda>_. dir_sector), s_parent = small_dir\<rparr>"

definition small_list :: file_t where
  "small_list = (file_new True 0)\<lparr>f_buffer := 0x200000, f_length := 16, f_command := COMMAND_LIST\<rparr>"

lemma small_listing: "dir_step 4 small_fs (\<lambda>_. False) (\<lambda>_. dir_sector) 0x18 0 3 0 [] (chain_new 9 True) = Inr (0, 3, dir_recs, chain_new 9 True)"
proof -
  have "step_sector 0x18 0 (sector_rec dir_sector) 16 0 [] = (Some 0, 3, dir_recs)" by code_simp
  moreover have "inst_lba small_fs (\<lambda>_. False) (\<lambda>_. dir_sector) 0 (chain_new 9 True) = Inr (57, chain_new 9 True)" by code_simp
  ultimately have "dir_step (Suc 3) small_fs (\<lambda>_. False) (\<lambda>_. dir_sector) 0x18 0 3 0 [] (chain_new 9 True) = Inr (0, 3, dir_recs, chain_new 9 True)"
    unfolding dir_step.simps(2) by simp
  then show ?thesis by simp
qed

theorem listing_reports_failure_witness:
  "\<exists>f' inst' p' s'. dispatch (\<lambda>_. False) (\<lambda>_ _ p. p) (\<lambda>_ _ _. []) one_page_space small_dir small_list (\<lambda>_. 7) dir_system = Inr (f', inst', p', s') \<and>
     f_offset f' = 0x60 \<and> f_iostate f' AND OP_FAILURE = OP_FAILURE"
proof -
  have "get_name True dir_recs = []" by code_simp
  then obtain f' inst' p' s' where r: "dispatch (\<lambda>_. False) (\<lambda>_ _ p. p) (\<lambda>_ _ _. []) one_page_space small_dir small_list (\<lambda>_. 7) dir_system =
      Inr (f', inst', p', s')" "f_offset f' = 0x60"
    using small_listing one_page_low
    by (simp add: dispatch_def worker_list_def small_list_def file_new_def small_dir_def dir_system_def user_copy_low io_fail_def record_size_def del: dir_step.simps)
  moreover have "f_command small_list = COMMAND_LIST" by (simp add: small_list_def)
  ultimately show ?thesis using listing_reports_failure [OF _ r(1)] by blast
qed

end
