(* ===== verification/File_Write.thy ===== *)
theory File_Write
  imports File_Props
begin

text \<open>
  Writing inside the written part of a file: the bytes of the process replace exactly the bytes of the file from the offset on, and
  a read at the same place gives them back.
\<close>

section \<open>Changing bytes of a file\<close>

definition poke_byte :: "qword \<Rightarrow> nat \<Rightarrow> byte \<Rightarrow> volume \<Rightarrow> volume" where
  "poke_byte l i b m = m(l := (m l)(i := b))"

fun file_put :: "(nat \<Rightarrow> qword) \<Rightarrow> nat \<Rightarrow> byte list \<Rightarrow> volume \<Rightarrow> volume" where
  "file_put L o' [] m = m"
| "file_put L o' (b # bs) m = file_put L (Suc o') bs (poke_byte (L o') (o' mod 0x200) b m)"

lemma file_put_append: "file_put L o' (xs @ ys) m = file_put L (o' + length xs) ys (file_put L o' xs m)"
  by (induction xs arbitrary: o' m) simp_all

lemma file_put_other: "(\<And>k. k < length bs \<Longrightarrow> L (o' + k) \<noteq> l \<or> (o' + k) mod 0x200 \<noteq> i) \<Longrightarrow> file_put L o' bs m l i = m l i"
proof (induction bs arbitrary: o' m)
  case (Cons b bs)
  have "file_put L (Suc o') bs (poke_byte (L o') (o' mod 0x200) b m) l i = poke_byte (L o') (o' mod 0x200) b m l i"
    by (rule Cons.IH) (use Cons.prems [of "Suc _"] in auto)
  moreover have "L o' \<noteq> l \<or> o' mod 0x200 \<noteq> i" using Cons.prems [of 0] by simp
  ultimately show ?case by (auto simp: poke_byte_def)
qed simp

lemma file_put_get:
  assumes "inj_on (\<lambda>k. (L k, k mod 0x200)) {o'..<o' + length bs}" "k < length bs"
  shows "file_put L o' bs m (L (o' + k)) ((o' + k) mod 0x200) = bs ! k"
  using assms
proof (induction bs arbitrary: o' m k)
  case (Cons b bs)
  have inj: "inj_on (\<lambda>k. (L k, k mod 0x200)) {Suc o'..<Suc o' + length bs}" using Cons.prems(1) by (rule inj_on_subset) auto
  show ?case
  proof (cases k)
    case 0
    have "file_put L (Suc o') bs (poke_byte (L o') (o' mod 0x200) b m) (L o') (o' mod 0x200) = poke_byte (L o') (o' mod 0x200) b m (L o') (o' mod 0x200)"
    proof (rule file_put_other)
      fix j assume "j < length bs"
      then show "L (Suc o' + j) \<noteq> L o' \<or> (Suc o' + j) mod 0x200 \<noteq> o' mod 0x200"
        using inj_onD [OF Cons.prems(1), of "Suc o' + j" o'] by auto
    qed
    then show ?thesis using 0 by (simp add: poke_byte_def)
  next
    case (Suc j)
    then show ?thesis using Cons.IH [OF inj, of j] Cons.prems(2) by simp
  qed
qed simp

lemma file_put_sector: "(\<And>k. k < length bs \<Longrightarrow> L (o' + k) \<noteq> l) \<Longrightarrow> file_put L o' bs m l = m l"
  by (rule ext, rule file_put_other) blast

lemma put_run_snoc:
  assumes "off + length bs < 2 ^ 64"
  shows "put_run lba off (bs @ [b]) m = poke_byte (lba + of_nat ((off + length bs) div 0x200)) ((off + length bs) mod 0x200) b (put_run lba off bs m)"
proof (intro ext)
  fix l i
  define n where "n = off + length bs"
  have j: "l = lba + of_nat (n div 0x200) \<longleftrightarrow> unat (l - lba) = n div 0x200"
  proof -
    have "n div 0x200 < 2 ^ 64" using assms unfolding n_def by simp
    then have "unat (of_nat (n div 0x200) :: qword) = n div 0x200" by (simp only: unat_of_nat) (simp add: take_bit_nat_eq_self)
    moreover have "l = lba + of_nat (n div 0x200) \<longleftrightarrow> l - lba = of_nat (n div 0x200)" by (auto simp: algebra_simps)
    ultimately show ?thesis by (simp only: word_unat_eq_iff)
  qed
  define u where "u = unat (l - lba)"
  have k: "(i < 0x200 \<and> u * 0x200 + i = n) \<longleftrightarrow> u = n div 0x200 \<and> i = n mod 0x200" by auto
  have e: "put_run lba off bs' m l i = (if i < 0x200 \<and> off \<le> u * 0x200 + i \<and> u * 0x200 + i < off + length bs' then bs' ! (u * 0x200 + i - off) else m l i)" for bs'
    by (simp add: put_run_def u_def Let_def)
  show "put_run lba off (bs @ [b]) m l i = poke_byte (lba + of_nat ((off + length bs) div 0x200)) ((off + length bs) mod 0x200) b (put_run lba off bs m) l i"
  proof (cases "i < 0x200 \<and> u * 0x200 + i = n")
    case True
    then have "l = lba + of_nat (n div 0x200)" "i = n mod 0x200" using j k by (simp_all add: u_def)
    then show ?thesis unfolding n_def [symmetric] e using True by (simp add: poke_byte_def n_def)
  next
    case False
    then have "\<not> (l = lba + of_nat (n div 0x200) \<and> i = n mod 0x200)" using j [folded u_def] k by blast
    then have "poke_byte (lba + of_nat (n div 0x200)) (n mod 0x200) b (put_run lba off bs m) l i = put_run lba off bs m l i"
      by (auto simp: poke_byte_def)
    moreover have "(u * 0x200 + i < off + length (bs @ [b]) \<and> i < 0x200) = (u * 0x200 + i < off + length bs \<and> i < 0x200)" using False by (auto simp: n_def)
    ultimately show ?thesis unfolding e n_def by (auto simp: nth_append)
  qed
qed

lemma put_run_file:
  assumes "\<And>k. k < length bs \<Longrightarrow> L (o' + k) = lba + of_nat ((off + k) div 0x200) \<and> (o' + k) mod 0x200 = (off + k) mod 0x200" "off + length bs < 2 ^ 64"
  shows "put_run lba off bs m = file_put L o' bs m"
  using assms
proof (induction bs rule: rev_induct)
  case Nil
  show ?case by (intro ext) (auto simp: put_run_def Let_def)
next
  case (snoc b bs)
  have "put_run lba off bs m = file_put L o' bs m" by (rule snoc.IH) (use snoc.prems in auto)
  then show ?case using put_run_snoc [of off bs lba b m] snoc.prems(1) [of "length bs"] snoc.prems(2) by (simp add: file_put_append)
qed


section \<open>The allocation table stays\<close>

definition same_table :: "exfat \<Rightarrow> volume \<Rightarrow> volume \<Rightarrow> bool" where
  "same_table fs m m' \<longleftrightarrow> (\<forall>s. lba_of_fat fs s \<noteq> 0 \<longrightarrow> m' (lba_of_fat fs s) = m (lba_of_fat fs s))"

lemma same_table_chain:
  assumes "same_table fs m m'"
  shows "chain_at fs bad m' c0 i = chain_at fs bad m c0 i" "chain_ref fs bad m' index ch = chain_ref fs bad m index ch"
    "chain_wf fs bad m' c0 = chain_wf fs bad m c0" "chain_inv fs bad m' ch = chain_inv fs bad m ch"
    "file_lba fs bad m' ch = file_lba fs bad m ch" "placed fs bad m' ch = placed fs bad m ch"
proof -
  have e: "fat_entry fs bad m' = fat_entry fs bad m" using assms by (intro ext) (auto simp: fat_entry_def same_table_def Let_def)
  have c: "chain_at fs bad m' = chain_at fs bad m"
  proof (intro ext)
    fix c0 i
    show "chain_at fs bad m' c0 i = chain_at fs bad m c0 i" by (induction i) (simp_all add: e split: option.split)
  qed
  show "chain_at fs bad m' c0 i = chain_at fs bad m c0 i" by (simp add: c)
  have r: "chain_ref fs bad m' = chain_ref fs bad m" by (intro ext) (simp add: chain_ref_def c)
  then show "chain_ref fs bad m' index ch = chain_ref fs bad m index ch" by simp
  show "chain_wf fs bad m' c0 = chain_wf fs bad m c0" "chain_inv fs bad m' ch = chain_inv fs bad m ch"
    by (simp_all add: chain_wf_def chain_inv_def lines_inv_def c)
  show f: "file_lba fs bad m' ch = file_lba fs bad m ch" by (intro ext) (simp add: file_lba_def cluster_at_def r)
  show "placed fs bad m' ch = placed fs bad m ch" by (intro ext) (simp add: placed_def cluster_at_def r f)
qed

lemma same_table_refl: "same_table fs m m"
  by (simp add: same_table_def)

lemma same_table_put:
  assumes "\<And>k s. k < length bs \<Longrightarrow> lba_of_fat fs s \<noteq> 0 \<Longrightarrow> L (o' + k) \<noteq> lba_of_fat fs s"
  shows "same_table fs m (file_put L o' bs m)"
  unfolding same_table_def using assms by (intro allI impI file_put_sector) auto

section \<open>One piece\<close>

lemma min_parts2: "N = min (min a r) c \<Longrightarrow> 1 \<le> a \<Longrightarrow> 1 \<le> r \<Longrightarrow> 1 \<le> c \<Longrightarrow> 1 \<le> N \<and> N \<le> r \<and> N \<le> c \<and> N \<le> a" for N :: nat
  by (simp add: min_def)

lemma lba_expand_found:
  assumes "inst_lba (s_fs s) bad (s_vol s) offset (in_clusters inst) = Inr (lba, ch)" "lba \<noteq> 0"
  shows "lba_expand (Suc n) bad offset inst s = Inr (lba, inst\<lparr>in_clusters := ch\<rparr>, s)"
  using assms by (auto simp: inst_lba_def Let_def rbind_eq_Inr split: if_splits)


text \<open>One turn of the loop, when the process can read its buffer: the piece replaces the bytes of the file.\<close>

lemma write_piece:
  assumes ok: "fs_ok fs" and n: "n \<le> cluster_bytes fs - o' mod cluster_bytes fs" "n \<le> dm_count lba * 0x200" and l: "length bs = n"
    and lba: "lba = file_lba fs bad m ch o'"
  shows "put_run lba (o' mod 0x200) bs (if o' mod 0x200 = 0 \<and> cnt * 0x200 = n then zero_run lba cnt m0 else m0) =
    file_put (file_lba fs bad m ch) o' bs m0"
proof -
  have dc: "dm_count lba \<le> 8" by (simp add: dm_count_eq)
  have k: "file_lba fs bad m ch (o' + k) = lba + of_nat ((o' mod 0x200 + k) div 0x200) \<and> (o' + k) mod 0x200 = (o' mod 0x200 + k) mod 0x200"
    if "k < n" for k
  proof -
    have "o' mod cluster_bytes fs + k < cluster_bytes fs" using that n(1) cluster_bytes_facts [OF ok] mod_less_divisor [of "cluster_bytes fs" o'] by linarith
    note c = in_cluster [OF ok this]
    show ?thesis unfolding lba file_lba_def cluster_at_def c(1,2) by (simp add: c(3) add.assoc mod_add_left_eq)
  qed
  have small: "o' mod 0x200 + length bs < 2 ^ 64" using n(2) dc l mod_less_divisor [of "0x200" o'] by simp
  have z: "put_run lba 0 bs (put_run lba 0 zs m0) = put_run lba 0 bs m0" if "length zs = length bs" for zs
    using that by (intro ext) (simp add: put_run_def Let_def)
  have "put_run lba (o' mod 0x200) bs m0 = file_put (file_lba fs bad m ch) o' bs m0"
    by (rule put_run_file) (use k l small in auto)
  then show ?thesis using z [of "replicate (cnt * 0x200) 0"] l by (auto simp: zero_run_def)
qed

text \<open>The cache of the chain may have changed, the chain has not.\<close>

definition same_chain :: "exfat \<Rightarrow> (qword \<Rightarrow> bool) \<Rightarrow> volume \<Rightarrow> Exfat.chain \<Rightarrow> Exfat.chain \<Rightarrow> bool" where
  "same_chain fs bad m ch ch' \<longleftrightarrow> chain_inv fs bad m ch' \<and> ch_first ch' = ch_first ch \<and> ch_linear ch' = ch_linear ch"

lemma worker_write_loop_puts:
  assumes "fs_ok (s_fs s)" "chain_inv (s_fs s) bad m (in_clusters inst)" "chain_wf (s_fs s) bad m (ch_first (in_clusters inst))"
    "same_table (s_fs s) m (s_vol s)" "\<not> IS_HIGHADDR sor" "len \<le> f_length f" "r = unat (f_length f - len)" "r < n" "vsize \<le> sz"
    "unat (f_offset f) + r \<le> unat vsize"
    "\<And>k. k < r \<Longrightarrow> placed (s_fs s) bad m (in_clusters inst) (unat (f_offset f) + k)"
    "\<And>k i. k < r \<Longrightarrow> lba_of_fat (s_fs s) i \<noteq> 0 \<Longrightarrow> file_lba (s_fs s) bad m (in_clusters inst) (unat (f_offset f) + k) \<noteq> lba_of_fat (s_fs s) i"
    "\<And>k. k < r \<Longrightarrow> readable vs (sor + of_nat k)"
  shows "\<exists>ch'. worker_write_loop n bad high vs p inst sor len vsize sz f s =
      Inr (f_length f, vsize, sz, f\<lparr>f_offset := f_offset f + of_nat r\<rparr>, inst\<lparr>in_clusters := ch'\<rparr>,
        s\<lparr>s_vol := file_put (file_lba (s_fs s) bad m (in_clusters inst)) (unat (f_offset f)) (get_user vs sor r p) (s_vol s)\<rparr>) \<and>
      same_chain (s_fs s) bad m (in_clusters inst) ch'"
  using assms
proof (induction n arbitrary: inst sor len f s r)
  case (Suc n)
  let ?fs = "s_fs s" and ?o = "unat (f_offset f)" and ?ch = "in_clusters inst" and ?S = "cluster_bytes (s_fs s)"
  show ?case
  proof (cases "r = 0")
    case True
    then have "len = f_length f" using Suc.prems(6,7) by (simp add: unat_eq_0)
    then show ?thesis using True Suc.prems(2) by (intro exI [of _ ?ch]) (simp add: same_chain_def)
  next
    case False
    have lt: "len < f_length f" using False Suc.prems(6,7) by (auto simp: le_less)
    note st = same_table_chain [OF Suc.prems(4)]
    obtain ch' where lba: "inst_lba ?fs bad (s_vol s) (f_offset f) ?ch = Inr (file_lba ?fs bad m ?ch ?o, ch')" "chain_inv ?fs bad m ch'"
      "ch_first ch' = ch_first ?ch" "ch_linear ch' = ch_linear ?ch"
      using inst_lba_place [OF Suc.prems(1), of bad "s_vol s" ?ch "f_offset f"] Suc.prems(2,3) Suc.prems(11) [of 0] False by (auto simp: st)
    note pc = place_cong [OF lba(3,4)]
    define lb where "lb = file_lba ?fs bad m ?ch ?o"
    have pl: "lb \<noteq> 0" "\<not> bad lb" using Suc.prems(11) [of 0] False by (auto simp: placed_def lb_def Let_def)
    define t where "t = write_size ?fs lb (f_offset f) (f_length f - len)"
    have dc: "1 \<le> dm_count lb" by (simp add: dm_count_eq)
    have pos: "1 \<le> dm_count lb * 0x200 - ?o mod 0x200" "1 \<le> ?S - ?o mod ?S" "1 \<le> r"
      using dc False cluster_bytes_facts [OF Suc.prems(1)] mod_less_divisor [of "0x200" ?o] mod_less_divisor [of ?S ?o] by linarith+
    have "unat t = min (min (dm_count lb * 0x200 - ?o mod 0x200) r) (?S - ?o mod ?S)"
      unfolding t_def Suc.prems(7) by (rule write_size_nat [OF Suc.prems(1)])
    moreover obtain N where N: "unat t = N" by simp
    ultimately have tn: "1 \<le> N" "N \<le> r" "N \<le> ?S - ?o mod ?S" "N \<le> dm_count lb * 0x200 - ?o mod 0x200"
      using min_parts2 [OF _ pos(1,3,2), of N] by blast+
    have ma: "unat (f_offset f AND 0x1FF) = ?o mod 0x200" using and_mask_unat [of "f_offset f" 9] by (simp add: mask_eq_exp_minus_1)
    define data where "data = get_user vs sor N p"
    have ld: "length data = N" unfolding data_def by (rule get_user_full) (use Suc.prems(13) tn(2) in auto)
    define f1 where "f1 = f\<lparr>f_offset := f_offset f + of_nat N\<rparr>"
    define s1 where "s1 = s\<lparr>s_vol := file_put (file_lba ?fs bad m ?ch) ?o data (s_vol s)\<rparr>"
    have tq: "unat (of_nat N :: qword) = N" using N unat_limits(2) [of t] by (simp add: unat_of_nat take_bit_nat_eq_self)
    have off': "unat (f_offset f1) = ?o + N" using Suc.prems(10) tn(2) unat_limits(2) [of vsize] tq by (simp add: f1_def unat_add_fit)
    have mx: "max vsize (f_offset f1) = vsize" "max sz vsize = sz"
    proof -
      have "f_offset f1 \<le> vsize" using Suc.prems(10) off' tn(2) by (simp add: word_le_nat_alt)
      then show "max vsize (f_offset f1) = vsize" "max sz vsize = sz" using Suc.prems(9) by simp_all
    qed
    have step: "worker_write_loop (Suc n) bad high vs p inst sor len vsize sz f s =
        worker_write_loop n bad high vs p (inst\<lparr>in_clusters := ch'\<rparr>) (sor + of_nat N) (len + of_nat N) vsize sz f1 s1"
    proof -
      define cnt where "cnt = unat (align_up t 0x200 div 0x200)"
      have "t \<noteq> 0" using tn(1) N by auto
      moreover have "user_read high vs sor N p = data" by (simp add: data_def user_copy_low(3) [OF Suc.prems(5)])
      moreover have "lba_expand (Suc (Suc 0)) bad (f_offset f) inst s = Inr (lb, inst\<lparr>in_clusters := ch'\<rparr>, s)"
        by (rule lba_expand_found) (use lba(1) pl in \<open>simp_all add: lb_def\<close>)
      moreover have "put_run lb (?o mod 0x200) data (if ?o mod 0x200 = 0 \<and> cnt * 0x200 = N then zero_run lb cnt (s_vol s) else s_vol s) =
          file_put (file_lba ?fs bad m ?ch) ?o data (s_vol s)"
        by (rule write_piece [OF Suc.prems(1) tn(3) _ ld lb_def]) (use tn(4) in linarith)
      ultimately show ?thesis
        using lt pl ld mx by (simp add: t_def [symmetric] N ma cnt_def [symmetric] f1_def s1_def numeral_2_eq_2 Let_def del: lba_expand.simps) (auto split: if_splits)
    qed
    note adv = advance_len [OF lt tn(1) tn(2) [unfolded Suc.prems(7)]]
    have nh: "\<not> IS_HIGHADDR (sor + of_nat N)"
      by (rule after_readable_low [where m = vs, OF Suc.prems(5)]) (use Suc.prems(13) tn(2) in auto)
    have nt: "lba_of_fat ?fs i \<noteq> 0 \<Longrightarrow> file_lba ?fs bad m ?ch (?o + k) \<noteq> lba_of_fat ?fs i" if "k < r" for k i
      using Suc.prems(12) [OF that] by blast
    have st1: "same_table ?fs m (s_vol s1)"
      using Suc.prems(4) same_table_put [of data ?fs "file_lba ?fs bad m ?ch" ?o "s_vol s"] nt ld tn(2)
      by (auto simp: same_table_def s1_def)
    have "\<exists>ch''. worker_write_loop n bad high vs p (inst\<lparr>in_clusters := ch'\<rparr>) (sor + of_nat N) (len + of_nat N) vsize sz f1 s1 =
        Inr (f_length f1, vsize, sz, f1\<lparr>f_offset := f_offset f1 + of_nat (r - N)\<rparr>, (inst\<lparr>in_clusters := ch'\<rparr>)\<lparr>in_clusters := ch''\<rparr>,
          s1\<lparr>s_vol := file_put (file_lba (s_fs s1) bad m (in_clusters (inst\<lparr>in_clusters := ch'\<rparr>))) (unat (f_offset f1))
            (get_user vs (sor + of_nat N) (r - N) p) (s_vol s1)\<rparr>) \<and>
        same_chain (s_fs s1) bad m (in_clusters (inst\<lparr>in_clusters := ch'\<rparr>)) ch''"
    proof (rule Suc.IH)
      show "k < r - N \<Longrightarrow> placed (s_fs s1) bad m (in_clusters (inst\<lparr>in_clusters := ch'\<rparr>)) (unat (f_offset f1) + k)" for k
        using Suc.prems(11) [of "N + k"] unfolding off' by (simp add: s1_def pc add.assoc)
      show "k < r - N \<Longrightarrow> lba_of_fat (s_fs s1) i \<noteq> 0 \<Longrightarrow>
          file_lba (s_fs s1) bad m (in_clusters (inst\<lparr>in_clusters := ch'\<rparr>)) (unat (f_offset f1) + k) \<noteq> lba_of_fat (s_fs s1) i" for k i
        using nt [of "N + k" i] unfolding off' by (simp add: s1_def pc add.assoc)
      show "k < r - N \<Longrightarrow> readable vs (sor + of_nat N + of_nat k)" for k using Suc.prems(13) [of "N + k"] by (simp add: add.assoc)
    qed (use Suc.prems adv st1 nh lba(2,3) off' tn in \<open>simp_all add: s1_def f1_def\<close>)
    then obtain ch'' where ih: "worker_write_loop n bad high vs p (inst\<lparr>in_clusters := ch'\<rparr>) (sor + of_nat N) (len + of_nat N) vsize sz f1 s1 =
        Inr (f_length f, vsize, sz, f\<lparr>f_offset := f_offset f + of_nat N + of_nat (r - N)\<rparr>, inst\<lparr>in_clusters := ch''\<rparr>,
          s\<lparr>s_vol := file_put (file_lba ?fs bad m ?ch) (?o + N) (get_user vs (sor + of_nat N) (r - N) p)
            (file_put (file_lba ?fs bad m ?ch) ?o data (s_vol s))\<rparr>)" "same_chain ?fs bad m ch' ch''"
      unfolding off' by (auto simp: s1_def f1_def pc)
    have "get_user vs sor r p = data @ get_user vs (sor + of_nat N) (r - N) p"
      using get_user_append [of vs sor N "r - N" p] ld tn(2) by (simp add: data_def)
    moreover have "(of_nat N + of_nat (r - N) :: qword) = of_nat r" using tn(2) by (simp add: of_nat_diff)
    moreover have "same_chain ?fs bad m ?ch ch''" using ih(2) lba(3,4) by (simp add: same_chain_def)
    ultimately show ?thesis using step ih(1) ld by (intro exI [of _ ch'']) (simp add: file_put_append add.assoc)
  qed
qed simp


section \<open>Properties\<close>

text \<open>What a write inside the written part of a file needs: a chain that covers the range, no two bytes at one place, none in the
  allocation table.\<close>

definition range_ok :: "exfat \<Rightarrow> (qword \<Rightarrow> bool) \<Rightarrow> volume \<Rightarrow> Exfat.chain \<Rightarrow> nat \<Rightarrow> nat \<Rightarrow> bool" where
  "range_ok fs bad m ch o' n \<longleftrightarrow> fs_ok fs \<and> chain_inv fs bad m ch \<and> chain_wf fs bad m (ch_first ch) \<and>
     (\<forall>k\<in>{o'..<o' + n}. placed fs bad m ch k \<and> (\<forall>i. lba_of_fat fs i \<noteq> 0 \<longrightarrow> file_lba fs bad m ch k \<noteq> lba_of_fat fs i)) \<and>
     inj_on (\<lambda>k. (file_lba fs bad m ch k, k mod 0x200)) {o'..<o' + n}"

lemma write_replaces:
  assumes ok: "range_ok (s_fs s) bad (s_vol s) (in_clusters inst) (unat (f_offset f)) (unat (f_length f))"
    and f: "f_command f = COMMAND_WRITE" "\<not> f_folder f" "f_buffer f \<noteq> 0" "\<not> IS_HIGHADDR (f_buffer f)" "f_length f \<noteq> 0"
    and v: "in_valid_size inst \<le> in_alloc_size inst" "unat (f_offset f) + unat (f_length f) \<le> unat (in_valid_size inst)"
    and r: "\<And>k. k < unat (f_length f) \<Longrightarrow> readable vs (f_buffer f + of_nat k)"
  shows "\<exists>ch'. worker_write bad high vs p inst f s = Inr (f\<lparr>f_offset := f_offset f + ucast (f_length f)\<rparr>, inst\<lparr>in_clusters := ch'\<rparr>,
    s\<lparr>s_vol := file_put (file_lba (s_fs s) bad (s_vol s) (in_clusters inst)) (unat (f_offset f))
      (user_read high vs (f_buffer f) (unat (f_length f)) p) (s_vol s)\<rparr>) \<and> same_chain (s_fs s) bad (s_vol s) (in_clusters inst) ch'"
proof -
  have "\<exists>ch'. worker_write_loop (Suc (unat (f_length f))) bad high vs p inst (f_buffer f) 0 (in_valid_size inst) (in_alloc_size inst) f s =
      Inr (f_length f, in_valid_size inst, in_alloc_size inst, f\<lparr>f_offset := f_offset f + of_nat (unat (f_length f))\<rparr>, inst\<lparr>in_clusters := ch'\<rparr>,
        s\<lparr>s_vol := file_put (file_lba (s_fs s) bad (s_vol s) (in_clusters inst)) (unat (f_offset f)) (get_user vs (f_buffer f) (unat (f_length f)) p) (s_vol s)\<rparr>) \<and>
      same_chain (s_fs s) bad (s_vol s) (in_clusters inst) ch'"
    by (rule worker_write_loop_puts) (use assms in \<open>auto simp: range_ok_def same_table_refl\<close>)
  then obtain ch' where "worker_write_loop (Suc (unat (f_length f))) bad high vs p inst (f_buffer f) 0 (in_valid_size inst) (in_alloc_size inst) f s =
      Inr (f_length f, in_valid_size inst, in_alloc_size inst, f\<lparr>f_offset := f_offset f + ucast (f_length f)\<rparr>, inst\<lparr>in_clusters := ch'\<rparr>,
        s\<lparr>s_vol := file_put (file_lba (s_fs s) bad (s_vol s) (in_clusters inst)) (unat (f_offset f)) (get_user vs (f_buffer f) (unat (f_length f)) p) (s_vol s)\<rparr>)"
    and sc: "same_chain (s_fs s) bad (s_vol s) (in_clusters inst) ch'"
    by (auto simp: of_nat_unat_ucast)
  then have "worker_write bad high vs p inst f s = Inr (f\<lparr>f_offset := f_offset f + ucast (f_length f)\<rparr>, inst\<lparr>in_clusters := ch'\<rparr>,
      s\<lparr>s_vol := file_put (file_lba (s_fs s) bad (s_vol s) (in_clusters inst)) (unat (f_offset f))
        (user_read high vs (f_buffer f) (unat (f_length f)) p) (s_vol s)\<rparr>)"
    using f v(1) by (simp add: worker_write_def set_size_def user_copy_low(3) [OF f(4)] del: worker_write_loop.simps)
  then show ?thesis using sc by blast
qed

text \<open>
  a write request inside the written part of a file replaces exactly the bytes of the file in the range by the bytes in the buffer
  of the process: the file reads back as the buffer there, every other byte of the file is the same and so is the allocation
  table.
\<close>

theorem write_replaces_range:
  assumes "range_ok (s_fs s) bad (s_vol s) (in_clusters inst) (unat (f_offset f)) (unat (f_length f))"
    and "f_command f = COMMAND_WRITE" "\<not> f_folder f" "f_buffer f \<noteq> 0" "\<not> IS_HIGHADDR (f_buffer f)" "f_length f \<noteq> 0"
    and "in_valid_size inst \<le> in_alloc_size inst" "unat (f_offset f) + unat (f_length f) \<le> unat (in_valid_size inst)"
    and "\<And>k. k < unat (f_length f) \<Longrightarrow> readable vs (f_buffer f + of_nat k)"
    and "inj_on (\<lambda>k. (file_lba (s_fs s) bad (s_vol s) (in_clusters inst) k, k mod 0x200)) A" "{unat (f_offset f)..<unat (f_offset f) + unat (f_length f)} \<subseteq> A"
  shows "\<exists>f' inst' s'. worker_write bad high vs p inst f s = Inr (f', inst', s') \<and> f_length f' = f_length f \<and> f_iostate f' = f_iostate f \<and>
    f_offset f' = f_offset f + ucast (f_length f) \<and> s_fs s' = s_fs s \<and> same_table (s_fs s) (s_vol s) (s_vol s') \<and>
    (\<forall>k<unat (f_length f). file_byte (s_fs s) bad (s_vol s') (in_clusters inst) (unat (f_offset f) + k) =
      user_read high vs (f_buffer f) (unat (f_length f)) p ! k) \<and>
    (\<forall>k\<in>A - {unat (f_offset f)..<unat (f_offset f) + unat (f_length f)}.
      file_byte (s_fs s) bad (s_vol s') (in_clusters inst) k = file_byte (s_fs s) bad (s_vol s) (in_clusters inst) k)"
proof -
  let ?fs = "s_fs s" and ?m = "s_vol s" and ?ch = "in_clusters inst" and ?o = "unat (f_offset f)" and ?n = "unat (f_length f)"
  let ?L = "file_lba ?fs bad ?m ?ch"
  define d where "d = user_read high vs (f_buffer f) ?n p"
  define m' where "m' = file_put ?L ?o d ?m"
  have ld: "length d = ?n" unfolding d_def user_copy_low(3) [OF assms(5)] by (rule get_user_full) (use assms(9) in auto)
  obtain ch' where w: "worker_write bad high vs p inst f s = Inr (f\<lparr>f_offset := f_offset f + ucast (f_length f)\<rparr>, inst\<lparr>in_clusters := ch'\<rparr>, s\<lparr>s_vol := m'\<rparr>)"
    using write_replaces [OF assms(1-9), of high p] by (auto simp: m'_def d_def)
  have st: "same_table ?fs ?m m'" unfolding m'_def by (rule same_table_put) (use assms(1) ld in \<open>auto simp: range_ok_def\<close>)
  note c = same_table_chain(5) [OF st, of bad ?ch]
  have "file_byte ?fs bad m' ?ch (?o + k) = d ! k" if "k < ?n" for k
  proof -
    have "m' (?L (?o + k)) ((?o + k) mod 0x200) = d ! k"
      unfolding m'_def by (rule file_put_get) (use assms(1) ld that in \<open>auto simp: range_ok_def\<close>)
    then show ?thesis by (simp add: file_byte_def c)
  qed
  moreover have "file_byte ?fs bad m' ?ch k = file_byte ?fs bad ?m ?ch k" if k: "k \<in> A - {?o..<?o + ?n}" for k
  proof -
    have "m' (?L k) (k mod 0x200) = ?m (?L k) (k mod 0x200)"
      unfolding m'_def
    proof (rule file_put_other)
      fix j assume j: "j < length d"
      then have "?o + j \<in> A" "?o + j \<noteq> k" using assms(11) ld k by auto
      then show "?L (?o + j) \<noteq> ?L k \<or> (?o + j) mod 0x200 \<noteq> k mod 0x200" using inj_onD [OF assms(10), of "?o + j" k] k by blast
    qed
    then show ?thesis by (simp add: file_byte_def c)
  qed
  ultimately show ?thesis using w st by (intro exI [of _ "f\<lparr>f_offset := f_offset f + ucast (f_length f)\<rparr>"] exI [of _ "inst\<lparr>in_clusters := ch'\<rparr>"] exI [of _ "s\<lparr>s_vol := m'\<rparr>"])
    (simp add: d_def)
qed




text \<open>Writing back the records of a file whose first record is the last one of a sector copies past the sector.\<close>

lemma update_at_sector_end_overruns:
  assumes "2 \<le> length lst" "entrance_size lst + 1 = length lst" "base mod 16 = 15" "base < 2 ^ 27" "index = base + length lst" "index \<le> limit"
    "inst_lba fs bad m (of_nat (base * 0x20)) ch = Inr (lba, ch')" "lba \<noteq> 0" "\<not> bad lba"
  shows "reader_update fs bad limit base index lst ch m = bugcheck ''copy past the end of the sector''"
proof -
  have "base * 0x20 mod 2 ^ 32 = base * 0x20" using assms(4) by simp
  moreover have "base * 0x20 mod 0x200 = 0x1E0" using assms(3) mod_mult_mult2 [of base "0x20" 16] by simp
  ultimately show ?thesis using assms by (simp add: reader_update_def Let_def)
qed

section \<open>The small file again\<close>

definition small_write :: file_t where
  "small_write = (small_read 510)\<lparr>f_command := COMMAND_WRITE\<rparr>"

definition small_system :: fsys where
  "small_system = \<lparr>s_fs = small_fs, s_vol = small_volume, s_parent = small_inst\<rparr>"

lemma small_inj: "inj_on (\<lambda>k. (file_lba small_fs (\<lambda>_. False) small_volume (chain_new 9 False) k, k mod 0x200)) {0..<1024}"
proof (rule inj_onI)
  fix a b :: nat
  assume ab: "a \<in> {0..<1024}" "b \<in> {0..<1024}"
    and e: "(file_lba small_fs (\<lambda>_. False) small_volume (chain_new 9 False) a, a mod 0x200) = (file_lba small_fs (\<lambda>_. False) small_volume (chain_new 9 False) b, b mod 0x200)"
  have "(a < 0x200) = (b < 0x200)" using ab e by (auto simp: small_place split: if_splits)
  moreover have "x div 0x200 = (if x < 0x200 then 0 else 1)" if "x \<in> {0..<1024}" for x :: nat using that by auto
  ultimately have "a div 0x200 = b div 0x200" using ab by simp
  then show "a = b" using e by (metis Pair_inject div_mult_mod_eq)
qed

lemma small_table_lba: "lba_of_fat small_fs i \<noteq> 0 \<Longrightarrow> lba_of_fat small_fs i = 30"
proof -
  have "align_up (fs_cluster_count small_fs + 2) element_per_sector div element_per_sector = 1" "fs_table small_fs = 30"
    by (simp_all add: small_fs_def element_per_sector_def align_up_def align_down_def)
  moreover have "i < 1 \<Longrightarrow> i = 0" by (simp add: word_less_nat_alt unat_eq_0)
  ultimately show "lba_of_fat small_fs i \<noteq> 0 \<Longrightarrow> lba_of_fat small_fs i = 30" by (auto simp: lba_of_fat_def split: if_splits)
qed

lemma small_range: "o' + n \<le> 1024 \<Longrightarrow> range_ok small_fs (\<lambda>_. False) small_volume (chain_new 9 False) o' n"
proof -
  assume b: "o' + n \<le> 1024"
  have "file_lba small_fs (\<lambda>_. False) small_volume (chain_new 9 False) k \<noteq> lba_of_fat small_fs i" if "k < 1024" "lba_of_fat small_fs i \<noteq> 0" for k i
    using small_table_lba [OF that(2)] that(1) by (simp add: small_place)
  moreover have "inj_on (\<lambda>k. (file_lba small_fs (\<lambda>_. False) small_volume (chain_new 9 False) k, k mod 0x200)) {o'..<o' + n}"
    by (rule inj_on_subset [OF small_inj]) (use b in auto)
  ultimately show ?thesis using b small_fs_ok small_chain_inv small_chain_wf small_placed by (auto simp: range_ok_def ch_first_new)
qed

lemma one_page_readable: "k < 4096 \<Longrightarrow> readable one_page_space (0x200000 + of_nat k)"
  by (rule writable_readable) (rule one_page_writable)

theorem write_replaces_range_witness:
  "\<exists>f' inst' s'. worker_write (\<lambda>_. False) (\<lambda>_ _ _. []) one_page_space (\<lambda>_. 7) small_inst small_write small_system = Inr (f', inst', s') \<and>
     f_length f' = 4 \<and> file_byte small_fs (\<lambda>_. False) (s_vol s') (chain_new 9 False) 600 = file_byte small_fs (\<lambda>_. False) small_volume (chain_new 9 False) 600"
proof -
  note w = write_replaces_range [where s = small_system and inst = small_inst and f = small_write and vs = one_page_space and A = "{0..<1024}" and
      bad = "\<lambda>_. False" and high = "\<lambda>_ _ _. []" and p = "\<lambda>_. 7"]
  show ?thesis
    using w small_range [of 510 4] small_inj one_page_low one_page_readable
    by (fastforce simp: small_system_def small_inst_def small_write_def small_read_def file_new_def)
qed


end
