(* ===== verification/Path_Walk.thy ===== *)
theory Path_Walk
  imports Exfat_Dir
begin

text \<open>
  The tree of open files and folders and the walk along a path: the reference counts of \<open>file_instance\<close> and the table of open
  instances of \<open>folder_instance\<close> (\<^verbatim>\<open>filesystem/instance.cpp\<close>), \<open>imp_open\<close>, \<open>open\<close> and \<open>open_wd\<close> of class \<open>file\<close>
  (\<^verbatim>\<open>filesystem/file.cpp\<close>). Instances are numbers, given out in the order of their creation. Every open child holds a
  reference to its folder. A thread that asks for a lock it holds itself never returns, which the model treats as a stop.
\<close>

section \<open>Instances\<close>

record node =
  n_ref :: dword
  n_parent :: "nat option"
  n_name :: "byte list"
  n_folder :: bool
  n_table :: "nat list"

record tree =
  t_node :: "nat \<Rightarrow> node"
  t_fresh :: nat
  t_root :: nat

definition set_node :: "nat \<Rightarrow> node \<Rightarrow> tree \<Rightarrow> tree" where
  "set_node i nd t = t\<lparr>t_node := (t_node t)(i := nd)\<rparr>"

definition inst_acquire :: "nat \<Rightarrow> tree \<Rightarrow> tree" where
  "inst_acquire i t = set_node i ((t_node t i)\<lparr>n_ref := n_ref (t_node t i) + 1\<rparr>) t"

definition table_find :: "byte list \<Rightarrow> nat list \<Rightarrow> tree \<Rightarrow> nat option" where
  "table_find str js t = find (\<lambda>j. name_equal (n_name (t_node t j)) str) js"

text \<open>The destructors and \<open>folder_instance::close\<close>, which deletes the folder with its last reference. \<open>held\<close> is an instance
  whose lock the thread holds.\<close>

primrec inst_delete :: "nat \<Rightarrow> nat option \<Rightarrow> nat \<Rightarrow> tree \<Rightarrow> tree res" where
  "inst_delete 0 held i t = Inl OutOfFuel"
| "inst_delete (Suc n) held i t =
     (let nd = t_node t i in
      kassert (n_folder nd \<longrightarrow> n_table nd = [])
        (case n_parent nd of None \<Rightarrow> Inl AssertFailed
         | Some p \<Rightarrow>
             if held = Some p then bugcheck ''waits for its own lock''
             else let q = t_node t p in
               kassert (table_find (n_name nd) (n_table q) t = Some i \<and> n_ref q \<noteq> 0)
                 (let q = q\<lparr>n_table := remove1 i (n_table q), n_ref := n_ref q - 1\<rparr>; t = set_node p q t in
                  if n_ref q \<noteq> 0 then Inr t else inst_delete n held p t)))"

definition inst_relax :: "nat option \<Rightarrow> nat \<Rightarrow> tree \<Rightarrow> tree res" where
  "inst_relax held i t =
     (let nd = t_node t i in
      kassert (n_ref nd \<noteq> 0)
        (let nd = nd\<lparr>n_ref := n_ref nd - 1\<rparr>; t = set_node i nd t in
         if n_ref nd \<noteq> 0 then Inr t else inst_delete (Suc i) held i t))"

text \<open>What the volume has under a name in a folder: the name as it is stored and whether it is a folder.\<close>

type_synonym lookup = "nat \<Rightarrow> byte list \<Rightarrow> byte \<Rightarrow> (byte list \<times> bool) option"

definition allowed :: "bool \<Rightarrow> byte \<Rightarrow> bool" where
  "allowed folder mode \<longleftrightarrow> (if folder then mode AND ALLOW_FOLDER else mode AND ALLOW_FILE) \<noteq> 0"

definition inst_open :: "lookup \<Rightarrow> nat \<Rightarrow> byte list \<Rightarrow> byte \<Rightarrow> tree \<Rightarrow> nat option \<times> tree" where
  "inst_open disk cur str mode t =
     (case table_find str (n_table (t_node t cur)) t of
        Some j \<Rightarrow> if \<not> allowed (n_folder (t_node t j)) mode then (None, t) else (Some j, inst_acquire j t)
      | None \<Rightarrow> (case disk cur str mode of None \<Rightarrow> (None, t)
          | Some (name, folder) \<Rightarrow>
              let j = t_fresh t; c = t_node t cur;
                  t = set_node cur (c\<lparr>n_table := j # n_table c, n_ref := n_ref c + 1\<rparr>)
                    (set_node j \<lparr>n_ref = 1, n_parent = Some cur, n_name = name, n_folder = folder, n_table = []\<rparr> t)
              in (Some j, t\<lparr>t_fresh := Suc j\<rparr>)))"

text \<open>The search of \<open>folder_instance::open\<close> on the volume, from the record \<open>index\<close> on.\<close>

primrec folder_find :: "nat \<Rightarrow> exfat \<Rightarrow> (qword \<Rightarrow> bool) \<Rightarrow> volume \<Rightarrow> byte \<Rightarrow> byte list \<Rightarrow> nat \<Rightarrow> nat \<Rightarrow> chain \<Rightarrow> (drec list \<times> nat) option res" where
  "folder_find 0 fs bad m mode str limit index ch = Inl OutOfFuel"
| "folder_find (Suc n) fs bad m mode str limit index ch =
     rbind (dir_step (Suc limit) fs bad m (mode OR CHECK_HASH) (name_hash str) limit index [] ch) (\<lambda>(stat, index, lst, ch).
       if stat \<noteq> 0 then Inr None
       else if \<not> name_equal (get_name False lst) str then folder_find n fs bad m mode str limit index ch
       else Inr (Some (lst, index)))"

fun le_value :: "byte list \<Rightarrow> nat" where
  "le_value [] = 0"
| "le_value (b # bs) = unat b + 256 * le_value bs"

definition rec_qword :: "drec \<Rightarrow> nat \<Rightarrow> qword" where
  "rec_qword r i = of_nat (le_value (take 8 (drop i r)))"

text \<open>The entry that was found, unless its sizes are corrupted.\<close>

definition found_entry :: "(drec list \<times> nat) option res \<Rightarrow> (byte list \<times> bool) option" where
  "found_entry r =
     (case r of Inr (Some (lst, _)) \<Rightarrow>
        let folder = lst ! 0 ! 4 AND FOLDER \<noteq> 0; valid_size = rec_qword (lst ! 1) 8; alloc_size = rec_qword (lst ! 1) 0x18 in
        if (if folder then valid_size \<noteq> alloc_size else valid_size > alloc_size) then None
        else Some (get_name False lst, folder)
      | _ \<Rightarrow> None)"

text \<open>The volume as the folders see it: \<open>clus\<close> and \<open>lims\<close> give the clusters and the number of records of every open folder.\<close>

definition volume_lookup :: "exfat \<Rightarrow> (qword \<Rightarrow> bool) \<Rightarrow> volume \<Rightarrow> (nat \<Rightarrow> chain) \<Rightarrow> (nat \<Rightarrow> nat) \<Rightarrow> lookup" where
  "volume_lookup fs bad m clus lims cur str mode =
     found_entry (folder_find (Suc (lims cur)) fs bad m mode str (lims cur) 0 (clus cur))"

section \<open>Paths\<close>

abbreviation SLASH :: byte where "SLASH \<equiv> 0x2F"
abbreviation DOT :: byte where "DOT \<equiv> 0x2E"

definition walk_next :: "lookup \<Rightarrow> nat \<Rightarrow> byte list \<Rightarrow> byte \<Rightarrow> tree \<Rightarrow> nat option \<times> tree" where
  "walk_next disk cur name mode t =
     (if name = [DOT] then (Some cur, t)
      else if name = [DOT, DOT] then (case n_parent (t_node t cur) of None \<Rightarrow> (None, t) | Some p \<Rightarrow> (Some p, inst_acquire p t))
      else inst_open disk cur name mode t)"

function imp_open :: "lookup \<Rightarrow> nat \<Rightarrow> byte list \<Rightarrow> byte \<Rightarrow> tree \<Rightarrow> (nat option \<times> tree) res" where
  "imp_open disk cur path mode t =
     (let fail = (\<lambda>t. rbind (inst_relax None cur t) (\<lambda>t. Inr (None, t))) in
      if path = [] then (if mode AND ALLOW_FOLDER \<noteq> 0 then Inr (Some cur, t) else fail t)
      else let name = takeWhile (\<lambda>c. c \<noteq> SLASH) path; rest = dropWhile (\<lambda>c. c \<noteq> SLASH) path in
        if name = [] then fail t
        else case walk_next disk cur name (if rest = [] then mode else ALLOW_FOLDER) t of
            (None, t) \<Rightarrow> fail t
          | (Some j, t) \<Rightarrow>
              if rest = [] then rbind (inst_relax None cur t) (\<lambda>t. Inr (Some j, t))
              else kassert (n_folder (t_node t j))
                (if j \<noteq> cur then rbind (inst_relax (Some j) cur t) (\<lambda>t. imp_open disk j (tl rest) mode t)
                 else imp_open disk cur (tl rest) mode t))"
  by pat_completeness auto
termination imp_open
proof (relation "measure (\<lambda>(disk, cur, path, mode, t). length path)", goal_cases)
  case 1
  show ?case by simp
next
  case (2 disk cur path mode t fail name rest)
  then show ?case using length_dropWhile_le [of "\<lambda>c. c \<noteq> SLASH" path] by (cases path) (auto simp: less_Suc_eq_le intro: le_less_trans)
next
  case (3 disk cur path mode t fail name rest)
  then show ?case using length_dropWhile_le [of "\<lambda>c. c \<noteq> SLASH" path] by (cases path) (auto simp: less_Suc_eq_le intro: le_less_trans)
qed

declare imp_open.simps [simp del]

text \<open>\<open>file::open\<close>: \<open>wd\<close> is the working directory of the process, already acquired; mode 0x80 looks a plain name up in \<open>/bin\<close>.\<close>

definition file_open :: "lookup \<Rightarrow> nat option \<Rightarrow> byte list \<Rightarrow> byte \<Rightarrow> tree \<Rightarrow> (nat option \<times> tree) res" where
  "file_open disk wd path mode t =
     (if path = [] then Inr (None, t)
      else if hd path = SLASH then imp_open disk (t_root t) (tl path) mode (inst_acquire (t_root t) t)
      else if mode AND 0x80 \<noteq> 0 \<and> find_first_of path SLASH = length path then
        (case inst_open disk (t_root t) [0x62, 0x69, 0x6E] ALLOW_FOLDER t of
           (None, t) \<Rightarrow> Inl AssertFailed
         | (Some b, t) \<Rightarrow> kassert (n_folder (t_node t b)) (imp_open disk b path mode t))
      else case wd of None \<Rightarrow> Inr (None, t) | Some c \<Rightarrow> imp_open disk c path mode t)"

definition open_wd :: "lookup \<Rightarrow> nat option \<Rightarrow> byte list \<Rightarrow> tree \<Rightarrow> (nat option \<times> tree) res" where
  "open_wd disk cwd path t =
     kassert (path \<noteq> [])
       (let (cwd, path) = (if hd path = SLASH then (Some (t_root t), tl path) else (cwd, path)) in
        case cwd of None \<Rightarrow> Inr (None, t)
        | Some c \<Rightarrow> rbind (imp_open disk c path ALLOW_FOLDER (inst_acquire c t)) (\<lambda>(r, t).
            kassert (case r of None \<Rightarrow> True | Some j \<Rightarrow> n_folder (t_node t j)) (Inr (r, t))))"

text \<open>\<open>get_path\<close>: the names from the root down; the root alone is a slash.\<close>

primrec imp_get_path :: "nat \<Rightarrow> nat \<Rightarrow> tree \<Rightarrow> byte list" where
  "imp_get_path 0 i t = []"
| "imp_get_path (Suc n) i t = (case n_parent (t_node t i) of None \<Rightarrow> []
     | Some p \<Rightarrow> imp_get_path n p t @ [SLASH] @ n_name (t_node t i))"

definition get_path :: "nat \<Rightarrow> tree \<Rightarrow> byte list" where
  "get_path i t = (let s = imp_get_path (Suc i) i t in if s = [] then [SLASH] else s)"


section \<open>Equality of names\<close>

lemma lower_letter:
  assumes "0x61 \<le> z" "z \<le> (0x7A :: byte)"
  shows "z XOR (z AND NOT 0x20) = 0x20" "0x41 \<le> z AND NOT 0x20" "z AND NOT 0x20 \<le> 0x5A" "(z AND NOT 0x20) OR 0x20 = z"
proof -
  have all: "\<forall>n\<in>set [0x61..<0x7B]. (of_nat n :: byte) XOR (of_nat n AND NOT 0x20) = 0x20 \<and> 0x41 \<le> (of_nat n :: byte) AND NOT 0x20 \<and>
      (of_nat n :: byte) AND NOT 0x20 \<le> 0x5A \<and> ((of_nat n :: byte) AND NOT 0x20) OR 0x20 = of_nat n" by code_simp
  obtain N where N: "unat z = N" by simp
  then have z: "z = of_nat N" unfolding N [symmetric] by simp
  have "N \<in> set [0x61..<0x7B]" unfolding set_upt using assms N by (simp add: word_le_nat_alt)
  from bspec [OF all this] show "z XOR (z AND NOT 0x20) = 0x20" "0x41 \<le> z AND NOT 0x20" "z AND NOT 0x20 \<le> 0x5A" "(z AND NOT 0x20) OR 0x20 = z"
    unfolding z by blast+
qed

lemma upcase_char_equal:
  assumes "upcase x = upcase y"
  shows "char_equal x y"
proof -
  define L where "L = (\<lambda>z :: byte. 0x61 \<le> z \<and> z \<le> 0x7A)"
  have up: "upcase z = (if L z then z AND NOT 0x20 else z)" for z by (simp add: upcase_def L_def)
  have l: "z XOR (z AND NOT 0x20) = 0x20" "0x41 \<le> z AND NOT 0x20" "z AND NOT 0x20 \<le> 0x5A" "(z AND NOT 0x20) OR 0x20 = z" if "L z" for z
    using lower_letter [of z] that unfolding L_def by blast+
  have idem: "(z AND NOT 0x20) AND NOT 0x20 = z AND NOT 0x20" for z :: byte by (simp add: and.assoc)
  show ?thesis
  proof (cases "L x"; cases "L y")
    assume "L x" "L y"
    then have "x = y" using assms l(4) [of x] l(4) [of y] by (simp add: up)
    then show ?thesis by (simp add: char_equal_def)
  next
    assume a: "L x" "\<not> L y"
    then have y: "y = x AND NOT 0x20" using assms by (simp add: up)
    show ?thesis unfolding char_equal_def y using l(1-3) [OF a(1)] by simp
  next
    assume a: "\<not> L x" "L y"
    then have x: "x = y AND NOT 0x20" using assms by (simp add: up)
    have "x XOR y = y XOR x" by (rule xor.commute)
    then show ?thesis unfolding char_equal_def unfolding x idem using l(1-3) [OF a(2)] by simp
  next
    assume "\<not> L x" "\<not> L y"
    then show ?thesis using assms by (simp add: up char_equal_def)
  qed
qed

lemma name_equal_iff: "name_equal a b \<longleftrightarrow> map upcase a = map upcase b"
proof
  assume e: "map upcase a = map upcase b"
  then have len: "length a = length b" by (metis length_map)
  have "char_equal (a ! i) (b ! i)" if "i < length a" for i
    using upcase_char_equal that len e by (metis nth_map)
  then show "name_equal a b" by (simp add: name_equal_def match_loop_full len)
qed (rule name_equal_upcase)


section \<open>The tree of open instances\<close>

abbreviation (input) ref where "ref t i \<equiv> n_ref (t_node t i)"
abbreviation (input) parent_of where "parent_of t i \<equiv> n_parent (t_node t i)"
abbreviation (input) tab where "tab t i \<equiv> n_table (t_node t i)"
abbreviation (input) key where "key t i \<equiv> map upcase (n_name (t_node t i))"

text \<open>\<open>H i\<close> is the number of references to instance \<open>i\<close> from outside the tree: open files, working directories, a walk.\<close>

definition tree_inv :: "(nat \<Rightarrow> nat) \<Rightarrow> tree \<Rightarrow> bool" where
  "tree_inv H t \<longleftrightarrow>
     parent_of t (t_root t) = None \<and> n_folder (t_node t (t_root t)) \<and> 1 \<le> H (t_root t) \<and>
     (\<forall>i. unat (ref t i) = H i + length (tab t i)) \<and>
     (\<forall>i j. j \<in> set (tab t i) \<longleftrightarrow> ref t j \<noteq> 0 \<and> parent_of t j = Some i) \<and>
     (\<forall>i. distinct (tab t i)) \<and>
     (\<forall>i p. ref t i \<noteq> 0 \<and> parent_of t i = Some p \<longrightarrow> p < i) \<and>
     (\<forall>i. ref t i \<noteq> 0 \<and> parent_of t i = None \<longrightarrow> i = t_root t) \<and>
     (\<forall>i. \<not> n_folder (t_node t i) \<longrightarrow> tab t i = []) \<and>
     (\<forall>i. ref t i \<noteq> 0 \<longrightarrow> i < t_fresh t) \<and>
     (\<forall>p i j. i \<in> set (tab t p) \<and> j \<in> set (tab t p) \<and> key t i = key t j \<longrightarrow> i = j)"

lemma tree_invD:
  assumes "tree_inv H t"
  shows "parent_of t (t_root t) = None" "n_folder (t_node t (t_root t))" "1 \<le> H (t_root t)"
    "unat (ref t i) = H i + length (tab t i)"
    "j \<in> set (tab t i) \<longleftrightarrow> ref t j \<noteq> 0 \<and> parent_of t j = Some i"
    "distinct (tab t i)"
    "ref t i \<noteq> 0 \<Longrightarrow> parent_of t i = Some p \<Longrightarrow> p < i"
    "ref t i \<noteq> 0 \<Longrightarrow> parent_of t i = None \<Longrightarrow> i = t_root t"
    "\<not> n_folder (t_node t i) \<Longrightarrow> tab t i = []"
    "ref t i \<noteq> 0 \<Longrightarrow> i < t_fresh t"
    "i \<in> set (tab t p) \<Longrightarrow> j \<in> set (tab t p) \<Longrightarrow> key t i = key t j \<Longrightarrow> i = j"
  using assms unfolding tree_inv_def by (elim conjE, assumption | elim conjE, simp | elim conjE, blast)+

lemma tree_invI:
  assumes "parent_of t (t_root t) = None" "n_folder (t_node t (t_root t))" "1 \<le> H (t_root t)"
    "\<And>i. unat (ref t i) = H i + length (tab t i)"
    "\<And>i j. j \<in> set (tab t i) \<longleftrightarrow> ref t j \<noteq> 0 \<and> parent_of t j = Some i"
    "\<And>i. distinct (tab t i)"
    "\<And>i p. ref t i \<noteq> 0 \<Longrightarrow> parent_of t i = Some p \<Longrightarrow> p < i"
    "\<And>i. ref t i \<noteq> 0 \<Longrightarrow> parent_of t i = None \<Longrightarrow> i = t_root t"
    "\<And>i. \<not> n_folder (t_node t i) \<Longrightarrow> tab t i = []"
    "\<And>i. ref t i \<noteq> 0 \<Longrightarrow> i < t_fresh t"
    "\<And>p i j. i \<in> set (tab t p) \<Longrightarrow> j \<in> set (tab t p) \<Longrightarrow> key t i = key t j \<Longrightarrow> i = j"
  shows "tree_inv H t"
  unfolding tree_inv_def by (intro conjI allI impI; (elim conjE)?; fact assms | rule assms; assumption)

lemma set_node_simps [simp]:
  "t_node (set_node i nd t) j = (if j = i then nd else t_node t j)" "t_fresh (set_node i nd t) = t_fresh t" "t_root (set_node i nd t) = t_root t"
  by (simp_all add: set_node_def)

text \<open>What no operation changes in an instance that exists.\<close>

definition same_shape :: "tree \<Rightarrow> tree \<Rightarrow> bool" where
  "same_shape t t' \<longleftrightarrow> t_root t' = t_root t \<and> t_fresh t \<le> t_fresh t' \<and>
     (\<forall>i<t_fresh t. parent_of t' i = parent_of t i \<and> n_name (t_node t' i) = n_name (t_node t i) \<and> n_folder (t_node t' i) = n_folder (t_node t i))"

lemma same_shape_refl [simp]: "same_shape t t"
  by (simp add: same_shape_def)

lemma same_shape_trans: "same_shape a b \<Longrightarrow> same_shape b c \<Longrightarrow> same_shape a c"
  unfolding same_shape_def by (metis order.trans order_less_le_trans)

definition shrinks :: "tree \<Rightarrow> tree \<Rightarrow> bool" where
  "shrinks t t' \<longleftrightarrow> same_shape t t' \<and> (\<forall>i. ref t' i \<le> ref t i)"

lemma shrinks_refl [simp]: "shrinks t t"
  by (simp add: shrinks_def)

lemma shrinks_trans: "shrinks a b \<Longrightarrow> shrinks b c \<Longrightarrow> shrinks a c"
  unfolding shrinks_def by (meson same_shape_trans order.trans)

lemma live_ref:
  assumes "tree_inv H t" "1 \<le> H i"
  shows "ref t i \<noteq> 0"
  using tree_invD(4) [OF assms(1), of i] assms(2) by auto

lemma inst_acquire_ok:
  assumes "tree_inv H t" "ref t i \<noteq> 0" "unat (ref t i) + 1 < 2 ^ 32"
  shows "tree_inv (H(i := Suc (H i))) (inst_acquire i t)"
proof -
  have r: "unat (ref t i + 1) = Suc (unat (ref t i))" using assms(3) by (simp add: unat_word_ariths)
  then have nz: "ref t i + 1 \<noteq> 0" by auto
  note D = tree_invD [OF assms(1)]
  define t' where "t' = inst_acquire i t"
  have f: "parent_of t' j = parent_of t j" "tab t' j = tab t j" "n_name (t_node t' j) = n_name (t_node t j)" "n_folder (t_node t' j) = n_folder (t_node t j)"
    "t_root t' = t_root t" "t_fresh t' = t_fresh t" "ref t' j = (if j = i then ref t i + 1 else ref t j)" "(ref t' j = 0) = (ref t j = 0)" for j
    using nz assms(2) by (simp_all add: t'_def inst_acquire_def)
  have "tree_inv (H(i := Suc (H i))) t'"
  proof (rule tree_invI)
    show "unat (ref t' j) = (H(i := Suc (H i))) j + length (tab t' j)" for j using D(4) [of j] D(4) [of i] r by (simp add: f(2,7))
  qed (use D(1-3) in \<open>simp add: f\<close>, use D(1-3) in \<open>simp add: f\<close>, use D(1-3) in \<open>simp add: f\<close>, simp_all add: f(1-6,8) D)
  then show ?thesis by (simp add: t'_def)
qed


lemma open_new_ok:
  assumes "tree_inv H t" "ref t cur \<noteq> 0" "n_folder (t_node t cur)" "unat (ref t cur) + 1 < 2 ^ 32"
    and new: "\<And>j. j \<in> set (tab t cur) \<Longrightarrow> key t j \<noteq> map upcase name" and k: "k = t_fresh t"
    and t': "t' = (set_node cur ((t_node t cur)\<lparr>n_table := k # tab t cur, n_ref := ref t cur + 1\<rparr>)
      (set_node k \<lparr>n_ref = 1, n_parent = Some cur, n_name = name, n_folder = folder, n_table = []\<rparr> t))\<lparr>t_fresh := Suc k\<rparr>"
  shows "tree_inv (H(k := 1)) t'" "same_shape t t'"
proof -
  note D = tree_invD [OF assms(1)]
  have lt: "cur < k" using D(10) [OF assms(2)] k by simp
  have dead: "ref t k = 0" using D(10) [of k] k by auto
  have Hk: "H k = 0" "tab t k = []" using D(4) [of k] dead by simp_all
  have nin: "k \<notin> set (tab t i)" for i using D(5) [of k i] dead by simp
  have r: "unat (ref t cur + 1) = Suc (unat (ref t cur))" using assms(4) by (simp add: unat_word_ariths)
  then have nz: "ref t cur + 1 \<noteq> 0" by auto
  have f: "parent_of t' j = (if j = k then Some cur else parent_of t j)" "tab t' j = (if j = cur then k # tab t cur else tab t j)"
    "n_name (t_node t' j) = (if j = k then name else n_name (t_node t j))" "n_folder (t_node t' j) = (if j = k then folder else n_folder (t_node t j))"
    "t_root t' = t_root t" "t_fresh t' = Suc k" "ref t' j = (if j = k then 1 else if j = cur then ref t cur + 1 else ref t j)"
    "(ref t' j = 0) = (j \<noteq> k \<and> ref t j = 0)" for j
    using lt nz assms(2) Hk by (simp_all add: t')
  have root: "t_root t \<noteq> k" using D(3) Hk by auto
  show "tree_inv (H(k := 1)) t'"
  proof (rule tree_invI)
    show "unat (ref t' j) = (H(k := 1)) j + length (tab t' j)" for j using D(4) [of j] D(4) [of cur] r lt Hk by (auto simp: f(2,7))
    show "j \<in> set (tab t' i) \<longleftrightarrow> ref t' j \<noteq> 0 \<and> parent_of t' j = Some i" for i j
      using D(5) [of j i] nin lt by (auto simp: f(1,2,8) split: if_splits)
    show "distinct (tab t' i)" for i using D(6) [of i] D(6) [of cur] nin by (simp add: f(2))
    show "p < i" if "ref t' i \<noteq> 0" "parent_of t' i = Some p" for i p using that D(7) [of i p] lt by (auto simp: f(1,8) split: if_splits)
    show "i = t_root t'" if "ref t' i \<noteq> 0" "parent_of t' i = None" for i using that D(8) [of i] by (auto simp: f(1,5,8) split: if_splits)
    show "tab t' i = []" if "\<not> n_folder (t_node t' i)" for i using that D(9) [of i] assms(3) lt Hk by (auto simp: f(2,4) split: if_splits)
    show "i < t_fresh t'" if "ref t' i \<noteq> 0" for i using that D(10) [of i] k by (auto simp: f(6,8) less_Suc_eq split: if_splits)
    show "i = j" if "i \<in> set (tab t' p)" "j \<in> set (tab t' p)" "key t' i = key t' j" for p i j
      using that D(11) [of i p j] new nin lt by (auto simp: f(2,3) split: if_splits)
  qed (use D(1-3) root Hk in \<open>simp_all add: f\<close>)
  show "same_shape t t'" using k by (simp add: same_shape_def f)
qed

lemma detach_ok:
  assumes "tree_inv H t" "H i = 1" "tab t i = []" "parent_of t i = Some p" "r \<noteq> 0" "unat r = h + (length (tab t p) - 1)" "p = t_root t \<Longrightarrow> 1 \<le> h"
    and t': "t' = set_node p ((t_node t p)\<lparr>n_table := remove1 i (tab t p), n_ref := r\<rparr>) (set_node i ((t_node t i)\<lparr>n_ref := 0\<rparr>) t)"
  shows "tree_inv (H(i := 0, p := h)) t'"
proof -
  note D = tree_invD [OF assms(1)]
  have ri: "ref t i \<noteq> 0" by (rule live_ref [OF assms(1)]) (simp add: assms(2))
  have lt: "p < i" by (rule D(7) [OF ri assms(4)])
  have iin: "i \<in> set (tab t p)" using D(5) [of i p] ri assms(4) by simp
  have ne: "ref t p \<noteq> 0" using D(4) [of p] iin by (cases "tab t p") auto
  have f: "parent_of t' j = parent_of t j" "tab t' j = (if j = p then remove1 i (tab t p) else tab t j)"
    "n_name (t_node t' j) = n_name (t_node t j)" "n_folder (t_node t' j) = n_folder (t_node t j)" "t_root t' = t_root t" "t_fresh t' = t_fresh t"
    "ref t' j = (if j = p then r else if j = i then 0 else ref t j)" "(ref t' j = 0) = (j = i \<or> ref t j = 0)" for j
    using lt ne assms(5) by (auto simp: t')
  have mem: "j \<in> set (tab t' q) \<longleftrightarrow> j \<noteq> i \<and> j \<in> set (tab t q)" for j q
    using D(5) [of i q] D(6) [of p] assms(4) by (auto simp: f(2))
  show ?thesis
  proof (rule tree_invI)
    show "unat (ref t' j) = (H(i := 0, p := h)) j + length (tab t' j)" for j
      using D(4) [of j] assms(3,6) lt iin by (simp add: f(2,7) length_remove1)
    show "j \<in> set (tab t' q) \<longleftrightarrow> ref t' j \<noteq> 0 \<and> parent_of t' j = Some q" for q j using D(5) [of j q] by (auto simp: mem f(1,8))
    show "distinct (tab t' q)" for q using D(6) [of q] D(6) [of p] by (simp add: f(2))
    show "q < j" if "ref t' j \<noteq> 0" "parent_of t' j = Some q" for j q using that D(7) [of j q] by (auto simp: f(1,8))
    show "j = t_root t'" if "ref t' j \<noteq> 0" "parent_of t' j = None" for j using that D(8) [of j] by (auto simp: f(1,5,8))
    show "tab t' j = []" if "\<not> n_folder (t_node t' j)" for j using that D(9) [of j] by (auto simp: f(2,4))
    show "j < t_fresh t'" if "ref t' j \<noteq> 0" for j using that D(10) [of j] by (auto simp: f(6,8))
    show "j = l" if "j \<in> set (tab t' q)" "l \<in> set (tab t' q)" "key t' j = key t' l" for q j l
      using that D(11) [of j q l] by (auto simp: mem f(3))
    show "1 \<le> (H(i := 0, p := h)) (t_root t')" using D(1,3) assms(4,7) by (auto simp: f(5))
  qed (use D(1-2) in \<open>simp_all add: f\<close>)
qed

lemma table_find_self:
  assumes "tree_inv H t" "i \<in> set (tab t p)" "\<And>j. n_name (t_node t' j) = n_name (t_node t j)" "tab t' p = tab t p"
  shows "table_find (n_name (t_node t i)) (tab t p) t' = Some i"
proof -
  obtain j where j: "table_find (n_name (t_node t i)) (tab t p) t' = Some j"
  proof (cases "table_find (n_name (t_node t i)) (tab t p) t'")
    case None
    then have "\<not> name_equal (n_name (t_node t' i)) (n_name (t_node t i))" using assms(2) by (auto simp: table_find_def find_None_iff)
    then show ?thesis by (simp add: name_equal_iff assms(3))
  qed
  then have "j \<in> set (tab t p)" "key t j = key t i" by (auto simp: table_find_def find_Some_iff name_equal_iff assms(3))
  then have "j = i" using tree_invD(11) [OF assms(1)] assms(2) by blast
  then show ?thesis using j by simp
qed


lemma inst_delete_ok:
  assumes "tree_inv H t" "H i = 1" "tab t i = []" "i \<noteq> t_root t" "i \<le> n"
  shows "\<exists>t'. inst_delete (Suc n) None i (set_node i ((t_node t i)\<lparr>n_ref := 0\<rparr>) t) = Inr t' \<and> tree_inv (H(i := 0)) t' \<and> shrinks t t'"
  using assms
proof (induction n arbitrary: i H t)
  case (Suc n)
  note D = tree_invD [OF Suc.prems(1)]
  have ri: "ref t i \<noteq> 0" by (rule live_ref [OF Suc.prems(1)]) (simp add: Suc.prems(2))
  obtain p where p: "parent_of t i = Some p" using D(8) [OF ri] Suc.prems(4) by (cases "parent_of t i") auto
  have lt: "p < i" by (rule D(7) [OF ri p])
  have iin: "i \<in> set (tab t p)" using D(5) [of i p] ri p by simp
  then have len: "1 \<le> length (tab t p)" by (cases "tab t p") auto
  have ne: "ref t p \<noteq> 0" using D(4) [of p] len by auto
  define t0 where "t0 = set_node i ((t_node t i)\<lparr>n_ref := 0\<rparr>) t"
  define t1 where "t1 = (\<lambda>r. set_node p ((t_node t p)\<lparr>n_table := remove1 i (tab t p), n_ref := r\<rparr>) t0)"
  have tf: "table_find (n_name (t_node t i)) (tab t p) t0 = Some i"
    by (rule table_find_self [OF Suc.prems(1) iin]) (use lt in \<open>simp_all add: t0_def\<close>)
  have st: "inst_delete (Suc (Suc n)) None i t0 = (if ref t p - 1 \<noteq> 0 then Inr (t1 (ref t p - 1)) else inst_delete (Suc n) None p (t1 (ref t p - 1)))"
    using tf ne lt by (subst inst_delete.simps(2)) (simp add: t0_def t1_def Suc.prems(3) p Let_def del: inst_delete.simps)
  have shape: "shrinks t (t1 r)" if "r \<le> ref t p" for r using lt that by (simp add: shrinks_def same_shape_def t1_def t0_def)
  have dec: "unat (ref t p - 1) = H p + (length (tab t p) - 1)" using D(4) [of p] ne len by (simp add: unat_minus_one)
  have less: "ref t p - 1 \<le> ref t p" using ne by (simp add: word_le_nat_alt unat_minus_one)
  show ?case
  proof (cases "ref t p - 1 = 0")
    case False
    have "tree_inv (H(i := 0, p := H p)) (t1 (ref t p - 1))"
      by (rule detach_ok [OF Suc.prems(1-3) p _ dec]) (use False D(3) in \<open>auto simp: t1_def t0_def word_neq_0_conv\<close>)
    moreover have "H(i := 0, p := H p) = H(i := 0)" using lt by (auto simp: fun_eq_iff)
    ultimately have "tree_inv (H(i := 0)) (t1 (ref t p - 1))" by (simp only:)
    moreover have "inst_delete (Suc (Suc n)) None i t0 = Inr (t1 (ref t p - 1))" unfolding st using False by (rule if_P)
    ultimately show ?thesis using shape [OF less] unfolding t0_def [symmetric] by blast
  next
    case True
    have H0: "H p = 0" "length (tab t p) = 1" using dec True len by auto
    have root: "p \<noteq> t_root t" using H0 D(3) by auto
    have inv: "tree_inv (H(i := 0, p := 1)) (t1 1)"
      by (rule detach_ok [OF Suc.prems(1-3) p]) (use H0 in \<open>auto simp: t1_def t0_def\<close>)
    have one: "1 \<le> ref t p" using ne by (simp add: word_le_nat_alt unat_gt_0 Suc_le_eq)
    have em: "remove1 i (tab t p) = []" using H0(2) iin by (simp add: length_remove1 flip: length_0_conv)
    have zero: "set_node p ((t_node (t1 1) p)\<lparr>n_ref := 0\<rparr>) (t1 1) = t1 0" by (simp add: t1_def set_node_def)
    have ex: "\<exists>t'. inst_delete (Suc n) None p (t1 0) = Inr t' \<and> tree_inv ((H(i := 0, p := 1))(p := 0)) t' \<and> shrinks (t1 1) t'"
      unfolding zero [symmetric] by (rule Suc.IH [OF inv]) (use em root lt Suc.prems(5) in \<open>simp_all add: t1_def t0_def\<close>)
    then obtain t' where t': "inst_delete (Suc n) None p (t1 0) = Inr t'" "tree_inv ((H(i := 0, p := 1))(p := 0)) t'" "shrinks (t1 1) t'" by blast
    have "(H(i := 0, p := 1))(p := 0) = H(i := 0)" using H0 lt by (auto simp: fun_eq_iff)
    then have "tree_inv (H(i := 0)) t'" using t'(2) by (simp only:)
    moreover have "inst_delete (Suc (Suc n)) None i t0 = Inr t'" unfolding st using True t'(1) by (simp del: inst_delete.simps)
    ultimately show ?thesis using shrinks_trans [OF shape [OF one] t'(3)] unfolding t0_def [symmetric] by blast
  qed
next
  case 0
  then have "i = 0" by simp
  then have ri: "ref t 0 \<noteq> 0" using live_ref [OF 0(1), of 0] 0(2) by simp
  then obtain p where "parent_of t 0 = Some p" using tree_invD(8) [OF 0(1) ri] 0(4) \<open>i = 0\<close> by (cases "parent_of t 0") auto
  then show ?case using tree_invD(7) [OF 0(1) ri] by blast
qed

lemma inst_relax_ok:
  assumes "tree_inv H t" "1 \<le> H i" "i = t_root t \<Longrightarrow> 2 \<le> H i" "held = None \<or> tab t i \<noteq> []"
  shows "\<exists>t'. inst_relax held i t = Inr t' \<and> tree_inv (H(i := H i - 1)) t' \<and> shrinks t t'"
proof -
  note D = tree_invD [OF assms(1)]
  have ri: "ref t i \<noteq> 0" by (rule live_ref [OF assms(1,2)])
  have dec: "unat (ref t i - 1) = H i - 1 + length (tab t i)" using D(4) [of i] ri assms(2) by (simp add: unat_minus_one)
  define t' where "t' = set_node i ((t_node t i)\<lparr>n_ref := ref t i - 1\<rparr>) t"
  have less: "ref t i - 1 \<le> ref t i" using ri by (simp add: word_le_nat_alt unat_minus_one)
  show ?thesis
  proof (cases "ref t i - 1 = 0")
    case False
    have f: "parent_of t' j = parent_of t j" "tab t' j = tab t j" "n_name (t_node t' j) = n_name (t_node t j)" "n_folder (t_node t' j) = n_folder (t_node t j)"
      "t_root t' = t_root t" "t_fresh t' = t_fresh t" "ref t' j = (if j = i then ref t i - 1 else ref t j)" "(ref t' j = 0) = (ref t j = 0)" for j
      using False ri by (simp_all add: t'_def)
    have "tree_inv (H(i := H i - 1)) t'"
    proof (rule tree_invI)
      show "unat (ref t' j) = (H(i := H i - 1)) j + length (tab t' j)" for j using D(4) [of j] dec by (simp add: f(2,7))
      show "1 \<le> (H(i := H i - 1)) (t_root t')" using D(3) assms(3) by (auto simp: f(5))
    qed (use D(1-2) in \<open>simp add: f\<close>, use D(1-2) in \<open>simp add: f\<close>, simp_all add: f(1-6,8) D)
    moreover have "shrinks t t'" using less by (simp add: shrinks_def same_shape_def f)
    ultimately show ?thesis using False ri unfolding inst_relax_def Let_def by (simp add: t'_def)
  next
    case True
    then have "H i - 1 + length (tab t i) = 0" using dec by simp
    then have "H i = 1" "length (tab t i) = 0" using assms(2) by linarith+
    then have z: "H i = 1" "tab t i = []" by simp_all
    then have h: "held = None" "i \<noteq> t_root t" using assms(3,4) by auto
    from inst_delete_ok [OF assms(1) z h(2), of i] show ?thesis
      using True ri z h unfolding inst_relax_def Let_def by (simp del: inst_delete.simps)
  qed
qed


section \<open>Looking names up\<close>

text \<open>What opening relies on of the search in a folder: an entry it returns has the name that was asked for, up to the case of
  letters, and is of a kind the mode allows.\<close>

locale name_lookup =
  fixes disk :: lookup
  assumes found: "disk cur str mode = Some (name, folder) \<Longrightarrow> name_equal name str \<and> allowed folder mode"
begin

lemma inst_open_ok:
  assumes "tree_inv H t" "ref t cur \<noteq> 0" "n_folder (t_node t cur)" "\<And>i. unat (ref t i) + 1 < 2 ^ 32" "inst_open disk cur str mode t = (r, t')"
  shows "case r of None \<Rightarrow> t' = t
    | Some j \<Rightarrow> tree_inv (H(j := Suc (H j))) t' \<and> same_shape t t' \<and> parent_of t' j = Some cur \<and> name_equal (n_name (t_node t' j)) str \<and>
        allowed (n_folder (t_node t' j)) mode \<and> (\<forall>i. unat (ref t' i) \<le> unat (ref t i) + 1)"
proof -
  note D = tree_invD [OF assms(1)]
  show ?thesis
  proof (cases "table_find str (tab t cur) t")
    case (Some j)
    then have j: "j \<in> set (tab t cur)" "name_equal (n_name (t_node t j)) str" by (auto simp: table_find_def find_Some_iff)
    then have pj: "ref t j \<noteq> 0" "parent_of t j = Some cur" using D(5) [of j cur] by auto
    have u: "unat (ref t j + 1) = unat (ref t j) + 1" using assms(4) [of j] by (simp add: unat_word_ariths)
    show ?thesis
    proof (cases "allowed (n_folder (t_node t j)) mode")
      case True
      then have r: "r = Some j" "t' = inst_acquire j t" using assms(5) Some by (auto simp: inst_open_def)
      show ?thesis using inst_acquire_ok [OF assms(1) pj(1) assms(4)] pj j True u unfolding r
        by (auto simp: inst_acquire_def same_shape_def)
    next
      case False
      then show ?thesis using assms(5) Some by (auto simp: inst_open_def)
    qed
  next
    case None
    then have new: "key t j \<noteq> map upcase str" if "j \<in> set (tab t cur)" for j
      using that by (auto simp: table_find_def find_None_iff name_equal_iff)
    show ?thesis
    proof (cases "disk cur str mode")
      case no: None
      then show ?thesis using assms(5) None by (auto simp: inst_open_def)
    next
      case (Some nf)
      obtain name folder where nf: "nf = (name, folder)" by (cases nf)
      note fd = found [OF Some [unfolded nf]]
      have key: "map upcase name = map upcase str" using fd by (simp add: name_equal_iff)
      have "ref t (t_fresh t) = 0" using D(10) [of "t_fresh t"] by auto
      then have dead: "H (t_fresh t) = 0" "ref t (t_fresh t) = 0" using D(4) [of "t_fresh t"] by auto
      have ne: "cur \<noteq> t_fresh t" using dead assms(2) by auto
      define t1 where "t1 = (set_node cur ((t_node t cur)\<lparr>n_table := t_fresh t # tab t cur, n_ref := ref t cur + 1\<rparr>)
        (set_node (t_fresh t) \<lparr>n_ref = 1, n_parent = Some cur, n_name = name, n_folder = folder, n_table = []\<rparr> t))\<lparr>t_fresh := Suc (t_fresh t)\<rparr>"
      have r: "r = Some (t_fresh t)" "t' = t1" using assms(5) None Some nf by (auto simp: inst_open_def t1_def Let_def)
      note ok = open_new_ok [OF assms(1-3) assms(4) new [folded key] refl t1_def, simplified]
      have u: "unat (ref t cur + 1) = unat (ref t cur) + 1" using assms(4) [of cur] by (simp add: unat_word_ariths)
      show ?thesis unfolding r using ok fd dead ne u by (auto simp: t1_def)
    qed
  qed
qed

end

lemma folder_find_found:
  assumes "folder_find n fs bad m mode str limit index ch = Inr (Some (lst, index'))"
  shows "name_equal (get_name False lst) str \<and> (\<exists>hash. entry_ok (mode OR CHECK_HASH) hash lst)"
  using assms
proof (induction n arbitrary: index ch)
  case (Suc n)
  then obtain stat i l c where st: "dir_step (Suc limit) fs bad m (mode OR CHECK_HASH) (name_hash str) limit index [] ch = Inr (stat, i, l, c)"
    by (auto simp: rbind_eq_Inr simp del: dir_step.simps)
  have "entry_ok (mode OR CHECK_HASH) (name_hash str) l" if "stat = 0" using dir_step_ok [OF _ st] that by (simp add: collecting_def)
  then show ?case using Suc st by (auto simp del: dir_step.simps split: if_splits)
qed simp

text \<open>The search ends: every record set it passes over advances the index, so as many turns as the folder has records are enough.\<close>

lemma step_sector_advances: "step_sector mode hash recs n index lst = (Some 0, index', lst') \<Longrightarrow> index < index'"
  by (induction n arbitrary: index lst) (auto split: dstep.splits dest: Suc_lessD)

lemma dir_step_advances:
  "collecting mode hash lst \<Longrightarrow> dir_step n fs bad m mode hash limit index lst ch = Inr (0, index', lst', ch') \<Longrightarrow> index < limit \<and> index < index'"
proof (induction n arbitrary: index lst ch)
  case (Suc n)
  show ?case
  proof (cases "index \<ge> limit")
    case True
    then show ?thesis using Suc.prems(2) by auto
  next
    case False
    then obtain lba ch1 where lb: "inst_lba fs bad m (of_nat (index * 0x20)) ch = Inr (lba, ch1)" using Suc.prems(2) by (auto simp: rbind_eq_Inr)
    obtain st i1 l1 where ss: "step_sector mode hash (sector_rec (m lba)) (16 - index mod 16) index lst = (st, i1, l1)" by (metis prod_cases3)
    note so = step_sector_ok [OF Suc.prems(1) ss]
    show ?thesis
    proof (cases st)
      case None
      then have "dir_step n fs bad m mode hash limit i1 l1 ch1 = Inr (0, index', lst', ch')" using Suc.prems(2) False lb ss by (auto split: if_splits)
      from Suc.IH [OF _ this] so None False show ?thesis by auto
    next
      case (Some k)
      then show ?thesis using Suc.prems(2) False lb ss step_sector_advances [of mode hash "sector_rec (m lba)" "16 - index mod 16" index lst i1 l1]
        by (auto split: if_splits)
    qed
  qed
qed simp

lemma folder_find_no_fuel: "limit - index < n \<Longrightarrow> folder_find n fs bad m mode str limit index ch \<noteq> Inl OutOfFuel"
proof (induction n arbitrary: index ch)
  case (Suc n)
  have col: "collecting (mode OR CHECK_HASH) (name_hash str) []" by (simp add: collecting_def)
  have nf: "dir_step (Suc limit) fs bad m (mode OR CHECK_HASH) (name_hash str) limit index [] ch \<noteq> Inl OutOfFuel"
    by (rule dir_step_no_fuel [OF col]) simp
  show ?case
  proof (cases "dir_step (Suc limit) fs bad m (mode OR CHECK_HASH) (name_hash str) limit index [] ch")
    case (Inl e)
    then show ?thesis using nf by (simp del: dir_step.simps)
  next
    case (Inr x)
    obtain stat i l c where x: "x = (stat, i, l, c)" by (metis prod_cases4)
    have "folder_find n fs bad m mode str limit i c \<noteq> Inl OutOfFuel" if "stat = 0"
      by (rule Suc.IH) (use dir_step_advances [OF col Inr [unfolded x that]] Suc.prems in linarith)
    then show ?thesis using Inr x by (simp del: dir_step.simps)
  qed
qed simp

lemma mode_without_hash: "ALLOW_FOLDER AND (mode OR CHECK_HASH) = mode AND ALLOW_FOLDER" "ALLOW_FILE AND (mode OR CHECK_HASH) = mode AND ALLOW_FILE"
  by (simp_all add: bit.conj_disj_distrib ac_simps)

interpretation volume_names: name_lookup "volume_lookup fs bad m clus lims"
proof
  fix cur str mode name folder
  assume "volume_lookup fs bad m clus lims cur str mode = Some (name, folder)"
  then obtain lst i where l: "folder_find (Suc (lims cur)) fs bad m mode str (lims cur) 0 (clus cur) = Inr (Some (lst, i))"
      and n: "name = get_name False lst" "folder = (lst ! 0 ! 4 AND FOLDER \<noteq> 0)"
    by (auto simp: volume_lookup_def found_entry_def Let_def split: sum.splits option.splits if_splits simp del: folder_find.simps)
  from folder_find_found [OF l] obtain hash where e: "name_equal (get_name False lst) str" "entry_ok (mode OR CHECK_HASH) hash lst" by blast
  then have "file_rec (mode OR CHECK_HASH) (lst ! 0)" by (auto simp: entry_ok_def)
  then have "allowed folder mode" unfolding n allowed_def file_rec_def by (auto simp: mode_without_hash split: if_splits)
  then show "name_equal name str \<and> allowed folder mode" using e n by simp
qed


section \<open>Walking a path\<close>

fun comps :: "byte list \<Rightarrow> byte list list" where
  "comps [] = [[]]"
| "comps (c # cs) = (if c = SLASH then [] # comps cs else (c # hd (comps cs)) # tl (comps cs))"

lemma comps_ne [simp]: "comps path \<noteq> []"
  by (cases path) auto

lemma comps_split: "comps path = takeWhile (\<lambda>c. c \<noteq> SLASH) path # (case dropWhile (\<lambda>c. c \<noteq> SLASH) path of [] \<Rightarrow> [] | _ # p \<Rightarrow> comps p)"
  by (induction path) auto

text \<open>Paths without \<open>..\<close> that do not end in \<open>.\<close>; the names they consist of.\<close>

definition plain :: "byte list \<Rightarrow> bool" where
  "plain path \<longleftrightarrow> [DOT, DOT] \<notin> set (comps path) \<and> last (comps path) \<noteq> [DOT]"

definition names_of :: "byte list \<Rightarrow> byte list list" where
  "names_of path = filter (\<lambda>c. c \<noteq> [] \<and> c \<noteq> [DOT]) (comps path)"

text \<open>Following the open children from \<open>i\<close> by these names leads to \<open>j\<close>.\<close>

fun descends :: "tree \<Rightarrow> nat \<Rightarrow> byte list list \<Rightarrow> nat \<Rightarrow> bool" where
  "descends t i [] j \<longleftrightarrow> i = j"
| "descends t i (n # ns) j \<longleftrightarrow> (\<exists>k<t_fresh t. parent_of t k = Some i \<and> name_equal (n_name (t_node t k)) n \<and> descends t k ns j)"

definition give :: "nat \<Rightarrow> (nat \<Rightarrow> nat) \<Rightarrow> nat \<Rightarrow> nat" where "give i H = H(i := H i - 1)"
definition take_ref :: "nat \<Rightarrow> (nat \<Rightarrow> nat) \<Rightarrow> nat \<Rightarrow> nat" where "take_ref i H = H(i := Suc (H i))"

lemma give_take [simp]: "give i (take_ref i H) = H" "1 \<le> H i \<Longrightarrow> take_ref i (give i H) = H"
  by (auto simp: give_def take_ref_def fun_eq_iff)

lemma give_take_swap: "i \<noteq> j \<Longrightarrow> give i (take_ref j H) = take_ref j (give i H)"
  by (auto simp: give_def take_ref_def fun_eq_iff)

lemma relax_ok:
  assumes "tree_inv H t" "1 \<le> H i" "i = t_root t \<Longrightarrow> 2 \<le> H i" "held = None \<or> tab t i \<noteq> []"
  obtains t' where "inst_relax held i t = Inr t'" "tree_inv (give i H) t'" "shrinks t t'"
  using inst_relax_ok [OF assms] unfolding give_def by blast

lemma descends_shape: "descends t i ns j \<Longrightarrow> same_shape t t' \<Longrightarrow> descends t' i ns j"
proof (induction ns arbitrary: i)
  case (Cons n ns)
  then obtain k where k: "k < t_fresh t" "parent_of t k = Some i" "name_equal (n_name (t_node t k)) n" "descends t k ns j" by auto
  then have "k < t_fresh t'" "parent_of t' k = Some i" "name_equal (n_name (t_node t' k)) n"
    using Cons.prems(2) unfolding same_shape_def by (auto intro: less_le_trans)
  then show ?case using Cons.IH [OF k(4) Cons.prems(2)] by auto
qed simp

lemma split_at_slash:
  "SLASH \<notin> set name \<Longrightarrow> takeWhile (\<lambda>c. c \<noteq> SLASH) (name @ SLASH # rest) = name" "SLASH \<notin> set name \<Longrightarrow> dropWhile (\<lambda>c. c \<noteq> SLASH) (name @ SLASH # rest) = SLASH # rest"
  "SLASH \<notin> set name \<Longrightarrow> takeWhile (\<lambda>c. c \<noteq> SLASH) name = name" "SLASH \<notin> set name \<Longrightarrow> dropWhile (\<lambda>c. c \<noteq> SLASH) name = []"
  by (induction name) auto

text \<open>One turn of the loop on a component that is not the last.\<close>

lemma imp_open_step:
  assumes "path = name @ SLASH # rest" "SLASH \<notin> set name" "name \<noteq> []"
  shows "imp_open disk cur path mode t =
    (case walk_next disk cur name ALLOW_FOLDER t of
       (None, t) \<Rightarrow> rbind (inst_relax None cur t) (\<lambda>t. Inr (None, t))
     | (Some j, t) \<Rightarrow> kassert (n_folder (t_node t j))
         (if j \<noteq> cur then rbind (inst_relax (Some j) cur t) (\<lambda>t. imp_open disk j rest mode t) else imp_open disk cur rest mode t))"
  using assms(3) unfolding assms(1) by (subst imp_open.simps) (simp add: Let_def split_at_slash assms(2) split: prod.split option.split)

lemma imp_open_last:
  assumes "SLASH \<notin> set path" "path \<noteq> []"
  shows "imp_open disk cur path mode t =
    (case walk_next disk cur path mode t of
       (None, t) \<Rightarrow> rbind (inst_relax None cur t) (\<lambda>t. Inr (None, t))
     | (Some j, t) \<Rightarrow> rbind (inst_relax None cur t) (\<lambda>t. Inr (Some j, t)))"
  using assms(2) by (subst imp_open.simps) (simp add: Let_def split_at_slash assms(1) split: prod.split option.split)

lemma imp_open_slash:
  "imp_open disk cur (SLASH # rest) mode t = rbind (inst_relax None cur t) (\<lambda>t. Inr (None, t))"
  "imp_open disk cur [] mode t = (if mode AND ALLOW_FOLDER \<noteq> 0 then Inr (Some cur, t) else rbind (inst_relax None cur t) (\<lambda>t. Inr (None, t)))"
  by (subst imp_open.simps, simp add: Let_def)+

lemma path_cases:
  obtains (empty) "path = []" | (slash) rest where "path = SLASH # rest"
  | (last) "path \<noteq> []" "SLASH \<notin> set path" "comps path = [path]"
  | (step) name rest where "path = name @ SLASH # rest" "SLASH \<notin> set name" "name \<noteq> []" "comps path = name # comps rest"
proof (cases "SLASH \<in> set path")
  case True
  then obtain name rest where p: "path = name @ SLASH # rest" "SLASH \<notin> set name" using split_list_first by metis
  then have "comps path = name # comps rest" by (simp add: comps_split [of "name @ SLASH # rest"] split_at_slash)
  then show ?thesis using p that by (cases "name = []") auto
next
  case False
  then have "comps path = [path]" by (simp add: comps_split [of path] split_at_slash)
  then show ?thesis using False that by (cases "path = []") auto
qed


definition opened :: "tree \<Rightarrow> (nat \<Rightarrow> nat) \<Rightarrow> nat \<Rightarrow> byte list list \<Rightarrow> byte \<Rightarrow> (nat option \<times> tree) res \<Rightarrow> bool" where
  "opened t H cur ns mode r \<longleftrightarrow> (\<exists>t'. same_shape t t' \<and> (r = Inr (None, t') \<and> tree_inv (give cur H) t' \<or>
     (\<exists>j. r = Inr (Some j, t') \<and> tree_inv (take_ref j (give cur H)) t' \<and> allowed (n_folder (t_node t' j)) mode \<and> descends t' cur ns j)))"

lemma opened_up:
  assumes "opened t2 H' j ns mode r" "same_shape t t2" "parent_of t2 j = Some cur" "name_equal (n_name (t_node t2 j)) name" "j < t_fresh t2" "give j H' = give cur H"
  shows "opened t H cur (name # ns) mode r"
proof -
  have "descends t' cur (name # ns) k" if "same_shape t2 t'" "descends t' j ns k" for t' k
    using that assms(3-5) unfolding same_shape_def by (auto intro: less_le_trans)
  then show ?thesis using assms(1,6) same_shape_trans [OF assms(2)] unfolding opened_def by metis
qed

context name_lookup
begin

text \<open>One step down into an open or newly opened child.\<close>

lemma walk_next_ok:
  assumes "tree_inv H t" "1 \<le> H cur" "n_folder (t_node t cur)" "\<And>i. unat (ref t i) + 1 < 2 ^ 32" "name \<noteq> [DOT]" "name \<noteq> [DOT, DOT]"
    "walk_next disk cur name mode t = (Some j, t')"
  shows "tree_inv (take_ref j H) t'" "same_shape t t'" "j < t_fresh t'" "parent_of t' j = Some cur" "name_equal (n_name (t_node t' j)) name"
    "allowed (n_folder (t_node t' j)) mode" "\<And>i. unat (ref t' i) \<le> unat (ref t i) + 1" "j \<noteq> cur" "tab t' cur \<noteq> []" "j \<noteq> t_root t'"
proof -
  have "inst_open disk cur name mode t = (Some j, t')" using assms(5-7) by (simp add: walk_next_def)
  from inst_open_ok [OF assms(1) live_ref [OF assms(1,2)] assms(3,4) this] show
    ok: "tree_inv (take_ref j H) t'" "same_shape t t'" "parent_of t' j = Some cur" "name_equal (n_name (t_node t' j)) name"
      "allowed (n_folder (t_node t' j)) mode" "\<And>i. unat (ref t' i) \<le> unat (ref t i) + 1" by (auto simp: take_ref_def)
  note D = tree_invD [OF ok(1)]
  have rj: "ref t' j \<noteq> 0" by (rule live_ref [OF ok(1)]) (simp add: take_ref_def)
  show "j < t_fresh t'" by (rule D(10) [OF rj])
  show "j \<noteq> cur" using D(7) [OF rj ok(3)] by simp
  show "tab t' cur \<noteq> []" using D(5) [of j cur] rj ok(3) by auto
  show "j \<noteq> t_root t'" using D(1) ok(3) by auto
qed

lemma walk_next_none:
  assumes "tree_inv H t" "1 \<le> H cur" "n_folder (t_node t cur)" "\<And>i. unat (ref t i) + 1 < 2 ^ 32" "name \<noteq> [DOT]" "name \<noteq> [DOT, DOT]"
    "walk_next disk cur name mode t = (None, t')"
  shows "t' = t"
proof -
  have "inst_open disk cur name mode t = (None, t')" using assms(5-7) by (simp add: walk_next_def)
  from inst_open_ok [OF assms(1) live_ref [OF assms(1,2)] assms(3,4) this] show ?thesis by simp
qed


lemma plain_open:
  assumes "tree_inv H t" "1 \<le> H cur" "cur = t_root t \<Longrightarrow> 2 \<le> H cur" "n_folder (t_node t cur)" "\<And>i. unat (ref t i) + length path + 1 < 2 ^ 32" "plain path"
  shows "opened t H cur (names_of path) mode (imp_open disk cur path mode t)"
  using assms
proof (induction path arbitrary: cur H t rule: measure_induct_rule [where f = length])
  case (less path)
  note prems = less.prems
  have room: "unat (ref t i) + 1 < 2 ^ 32" for i using prems(5) [of i] by linarith
  have fail: "opened t H cur ns mode (rbind (inst_relax None cur t) (\<lambda>t. Inr (None, t)))" for ns
    using relax_ok [OF prems(1-3), of None] unfolding opened_def shrinks_def by (metis rbind_Inr)
  show ?case
  proof (cases path rule: path_cases)
    case empty
    have "opened t H cur (names_of path) mode (Inr (Some cur, t))" if "mode AND ALLOW_FOLDER \<noteq> 0"
      using that prems(1,2,4) empty unfolding opened_def by (auto simp: allowed_def names_of_def)
    then show ?thesis using fail unfolding empty imp_open_slash by simp
  next
    case (slash rest)
    then show ?thesis using fail by (simp add: imp_open_slash)
  next
    case last
    then have name: "path \<noteq> [DOT]" "path \<noteq> [DOT, DOT]" "names_of path = [path]" using prems(6) by (auto simp: plain_def names_of_def)
    obtain r t1 where w: "walk_next disk cur path mode t = (r, t1)" by (cases "walk_next disk cur path mode t")
    show ?thesis
    proof (cases r)
      case None
      then have "t1 = t" using walk_next_none [OF prems(1,2,4) room name(1,2)] w by simp
      then show ?thesis using fail w None by (simp add: imp_open_last last)
    next
      case (Some j)
      note ok = walk_next_ok [OF prems(1,2,4) room name(1,2) w [unfolded Some]]
      obtain t2 where r: "inst_relax None cur t1 = Inr t2" "tree_inv (give cur (take_ref j H)) t2" "shrinks t1 t2"
        by (rule relax_ok [OF ok(1), of cur None]) (use ok prems(2,3) in \<open>auto simp: take_ref_def same_shape_def\<close>)
      have "descends t1 cur [path] j" using ok(3-5) by auto
      then have "descends t2 cur [path] j" using descends_shape r(3) unfolding shrinks_def by blast
      moreover have "n_folder (t_node t2 j) = n_folder (t_node t1 j)" using r(3) ok(3) unfolding shrinks_def same_shape_def by blast
      ultimately show ?thesis using r w Some ok(2,6,8) same_shape_trans name(3)
        unfolding opened_def imp_open_last [OF last(2,1)] by (auto simp: give_take_swap shrinks_def simp del: descends.simps)
    qed
  next
    case (step name rest)
    then have pl: "name \<noteq> [DOT, DOT]" "plain rest" using prems(6) by (auto simp: plain_def)
    have len: "length rest < length path" using step by simp
    show ?thesis
    proof (cases "name = [DOT]")
      case True
      then have "imp_open disk cur path mode t = imp_open disk cur rest mode t" using prems(4) by (simp add: imp_open_step [OF step(1-3)] walk_next_def)
      moreover have "names_of path = names_of rest" using True step(4) by (simp add: names_of_def)
      moreover have "unat (ref t i) + length rest + 1 < 2 ^ 32" for i using prems(5) [of i] len by linarith
      ultimately show ?thesis using less.IH [OF len prems(1-4) _ pl(2)] by simp
    next
      case False
      obtain r t1 where w: "walk_next disk cur name ALLOW_FOLDER t = (r, t1)" by (cases "walk_next disk cur name ALLOW_FOLDER t")
      show ?thesis
      proof (cases r)
        case None
        then have "t1 = t" using walk_next_none [OF prems(1,2,4) room False pl(1)] w by simp
        then show ?thesis using fail w None by (simp add: imp_open_step [OF step(1-3)])
      next
        case (Some j)
        note ok = walk_next_ok [OF prems(1,2,4) room False pl(1) w [unfolded Some]]
        have nj: "n_folder (t_node t1 j)" using ok(6) by (simp add: allowed_def split: if_splits)
        obtain t2 where r: "inst_relax (Some j) cur t1 = Inr t2" "tree_inv (give cur (take_ref j H)) t2" "shrinks t1 t2"
          by (rule relax_ok [OF ok(1), of cur "Some j"]) (use ok prems(2,3) in \<open>auto simp: take_ref_def same_shape_def\<close>)
        have sh: "n_folder (t_node t2 j)" "parent_of t2 j = Some cur" "name_equal (n_name (t_node t2 j)) name" "j < t_fresh t2" "j \<noteq> t_root t2"
          using r(3) ok(3-5,10) nj unfolding shrinks_def same_shape_def by auto
        have rm: "unat (ref t2 i) + length rest + 1 < 2 ^ 32" for i
        proof -
          have "unat (ref t2 i) \<le> unat (ref t1 i)" using r(3) by (simp add: shrinks_def word_le_nat_alt)
          then show ?thesis using ok(7) [of i] prems(5) [of i] step(1) len by simp
        qed
        have one: "1 \<le> give cur (take_ref j H) j" using ok(8) by (simp add: give_def take_ref_def)
        have "opened t2 (give cur (take_ref j H)) j (names_of rest) mode (imp_open disk j rest mode t2)"
          by (rule less.IH [OF len r(2) one _ sh(1) rm pl(2)]) (use sh(5) in simp)
        moreover have "imp_open disk cur path mode t = imp_open disk j rest mode t2" using w Some nj ok(8) r(1) by (simp add: imp_open_step [OF step(1-3)])
        moreover have "give j (give cur (take_ref j H)) = give cur H" using ok(8) by (simp add: give_take_swap give_def take_ref_def fun_eq_iff)
        moreover have "names_of path = name # names_of rest" using step False by (simp add: names_of_def)
        ultimately show ?thesis using opened_up [OF _ _ sh(2-4)] same_shape_trans [OF ok(2)] r(3) unfolding shrinks_def by metis
      qed
    qed
  qed
qed

end


section \<open>Opening the path of an instance\<close>

fun lineage :: "tree \<Rightarrow> nat \<Rightarrow> nat list \<Rightarrow> bool" where
  "lineage t cur [] \<longleftrightarrow> True"
| "lineage t cur (k # ks) \<longleftrightarrow> k < t_fresh t \<and> parent_of t k = Some cur \<and> lineage t k ks"

fun join :: "byte list list \<Rightarrow> byte list" where
  "join [] = []"
| "join [n] = n"
| "join (n # ns) = n @ SLASH # join ns"

text \<open>Names that stand for themselves in a path.\<close>

definition proper :: "byte list \<Rightarrow> bool" where
  "proper name \<longleftrightarrow> name \<noteq> [] \<and> SLASH \<notin> set name \<and> name \<noteq> [DOT] \<and> name \<noteq> [DOT, DOT]"

abbreviation (input) names where "names t ks \<equiv> map (\<lambda>k. n_name (t_node t k)) ks"

lemma lineage_snoc: "lineage t cur (ks @ [i]) \<longleftrightarrow> lineage t cur ks \<and> i < t_fresh t \<and> parent_of t i = Some (last (cur # ks))"
  by (induction ks arbitrary: cur) auto

lemma lineage_shape: "lineage t cur ks \<Longrightarrow> same_shape t t' \<Longrightarrow> lineage t' cur ks"
  by (induction ks arbitrary: cur) (auto simp: same_shape_def intro: less_le_trans)

lemma lineage_names: "lineage t cur ks \<Longrightarrow> same_shape t t' \<Longrightarrow> names t' ks = names t ks"
  by (induction ks arbitrary: cur) (auto simp: same_shape_def)

lemma lineage_live:
  "tree_inv H t \<Longrightarrow> lineage t cur (k # ks) \<Longrightarrow> ref t (last (k # ks)) \<noteq> 0 \<Longrightarrow> ref t k \<noteq> 0 \<and> (ks \<noteq> [] \<longrightarrow> n_folder (t_node t k))"
proof (induction ks arbitrary: cur k)
  case (Cons l ks)
  then have l: "ref t l \<noteq> 0" "parent_of t l = Some k" using Cons.IH [of k l] by auto
  then have "l \<in> set (tab t k)" using tree_invD(5) [OF Cons.prems(1), of l k] by simp
  then show ?case using tree_invD(4,9) [OF Cons.prems(1), of k] by (cases "tab t k") auto
qed auto

lemma lineage_above: "tree_inv H t \<Longrightarrow> lineage t cur (k # ks) \<Longrightarrow> ref t (last (k # ks)) \<noteq> 0 \<Longrightarrow> cur < last (k # ks)"
proof (induction ks arbitrary: cur k)
  case (Cons l ks)
  have "cur < k" using lineage_live [OF Cons.prems] tree_invD(7) [OF Cons.prems(1), of k cur] Cons.prems(2) by auto
  moreover have "k < last (l # ks)" using Cons by auto
  ultimately show ?case by auto
qed (use tree_invD(7) in auto)

lemma open_child:
  assumes "tree_inv H t" "ref t k \<noteq> 0" "parent_of t k = Some cur" "proper (n_name (t_node t k))" "allowed (n_folder (t_node t k)) mode"
  shows "walk_next disk cur (n_name (t_node t k)) mode t = (Some k, inst_acquire k t)"
proof -
  have "k \<in> set (tab t cur)" using tree_invD(5) [OF assms(1), of k cur] assms(2,3) by simp
  from table_find_self [OF assms(1) this refl refl] show ?thesis using assms(4,5) by (simp add: walk_next_def proper_def inst_open_def)
qed

context name_lookup
begin

lemma open_lineage:
  assumes "tree_inv H t" "1 \<le> H cur" "cur = t_root t \<Longrightarrow> 2 \<le> H cur" "n_folder (t_node t cur)"
    "\<And>i. unat (ref t i) + length ks + 1 < 2 ^ 32" "lineage t cur (k # ks)" "1 \<le> H (last (k # ks))" "\<forall>n\<in>set (names t (k # ks)). proper n"
    "allowed (n_folder (t_node t (last (k # ks)))) mode"
  shows "\<exists>t'. imp_open disk cur (join (names t (k # ks))) mode t = Inr (Some (last (k # ks)), t') \<and> tree_inv (take_ref (last (k # ks)) (give cur H)) t' \<and> same_shape t t'"
  using assms
proof (induction ks arbitrary: cur k H t)
  case Nil
  note prems = Nil.prems
  let ?n = "n_name (t_node t k)"
  have k: "ref t k \<noteq> 0" "parent_of t k = Some cur" "proper ?n" using live_ref [OF prems(1)] prems(6-8) by auto
  then have w: "walk_next disk cur ?n mode t = (Some k, inst_acquire k t)" using open_child [OF prems(1)] prems(9) by simp
  have room: "unat (ref t i) + 1 < 2 ^ 32" for i using prems(5) [of i] by simp
  note ok = walk_next_ok [OF prems(1,2,4) room _ _ w]
  have p: "?n \<noteq> [DOT]" "?n \<noteq> [DOT, DOT]" "?n \<noteq> []" "SLASH \<notin> set ?n" using k(3) by (auto simp: proper_def)
  obtain t2 where r: "inst_relax None cur (inst_acquire k t) = Inr t2" "tree_inv (give cur (take_ref k H)) t2" "shrinks (inst_acquire k t) t2"
    by (rule relax_ok [OF ok(1) [OF p(1,2)], of cur None]) (use ok(8) [OF p(1,2)] prems(2,3) in \<open>auto simp: take_ref_def inst_acquire_def\<close>)
  show ?case using w r ok(2,8) [OF p(1,2)] same_shape_trans by (auto simp: imp_open_last [OF p(4,3)] give_take_swap shrinks_def)
next
  case (Cons l ks)
  note prems = Cons.prems
  let ?n = "n_name (t_node t k)" and ?i = "last (l # ks)"
  have live: "ref t ?i \<noteq> 0" by (rule live_ref [OF prems(1)]) (use prems(7) in simp)
  have k: "ref t k \<noteq> 0" "n_folder (t_node t k)" "parent_of t k = Some cur" "proper ?n" using lineage_live [OF prems(1,6)] live prems(6,8) by auto
  then have w: "walk_next disk cur ?n ALLOW_FOLDER t = (Some k, inst_acquire k t)" using open_child [OF prems(1)] by (simp add: allowed_def)
  have room: "unat (ref t i) + 1 < 2 ^ 32" for i using prems(5) [of i] by simp
  have p: "?n \<noteq> [DOT]" "?n \<noteq> [DOT, DOT]" "?n \<noteq> []" "SLASH \<notin> set ?n" using k(4) by (auto simp: proper_def)
  note ok = walk_next_ok [OF prems(1,2,4) room p(1,2) w]
  obtain t2 where r: "inst_relax (Some k) cur (inst_acquire k t) = Inr t2" "tree_inv (give cur (take_ref k H)) t2" "shrinks (inst_acquire k t) t2"
    by (rule relax_ok [OF ok(1), of cur "Some k"]) (use ok(8,9) prems(2,3) in \<open>auto simp: take_ref_def inst_acquire_def\<close>)
  have sh: "same_shape t t2" using same_shape_trans ok(2) r(3) unfolding shrinks_def by blast
  have lin: "lineage t2 k (l # ks)" using lineage_shape [OF _ sh, of k "l # ks"] prems(6) by simp
  have nm: "names t2 (l # ks) = names t (l # ks)" using lineage_names [OF _ sh, of k "l # ks"] prems(6) by simp
  have il: "?i < t_fresh t" "cur < ?i" using tree_invD(10) [OF prems(1) live] lineage_above [OF prems(1,6)] live by auto
  have step: "imp_open disk cur (join (names t (k # l # ks))) mode t = imp_open disk k (join (names t2 (l # ks))) mode t2"
    unfolding nm using w k(2) r(1) ok(8) imp_open_step [OF refl p(4,3), of disk cur "join (names t (l # ks))" mode t]
    by (auto simp: inst_acquire_def split: if_splits)
  have rm: "unat (ref t2 i) + length ks + 1 < 2 ^ 32" for i
  proof -
    have "unat (ref t2 i) \<le> unat (ref (inst_acquire k t) i)" using r(3) by (simp add: shrinks_def word_le_nat_alt)
    then show ?thesis using ok(7) [of i] prems(5) [of i] by simp
  qed
  have "\<exists>t'. imp_open disk k (join (names t2 (l # ks))) mode t2 = Inr (Some ?i, t') \<and> tree_inv (take_ref ?i (give k (give cur (take_ref k H)))) t' \<and> same_shape t2 t'"
  proof (rule Cons.IH [OF r(2) _ _ _ rm lin])
    show "n_folder (t_node t2 k)" using sh k(2) tree_invD(10) [OF prems(1) k(1)] by (simp add: same_shape_def)
    show "2 \<le> give cur (take_ref k H) k" if "k = t_root t2" using that ok(10) r(3) by (simp add: shrinks_def same_shape_def)
    show "\<forall>n\<in>set (names t2 (l # ks)). proper n" using nm prems(8) by simp
    show "allowed (n_folder (t_node t2 ?i)) mode" using prems(9) sh il(1) by (simp add: same_shape_def)
  qed (use ok(8) prems(7) il in \<open>auto simp: give_def take_ref_def\<close>)
  moreover have "give k (give cur (take_ref k H)) = give cur H" using ok(8) by (simp add: give_def take_ref_def fun_eq_iff)
  ultimately show ?case unfolding step using same_shape_trans [OF sh] by (metis last_ConsR list.distinct(1))
qed

end


lemma imp_get_path_lineage:
  assumes "tree_inv H t" "ref t i \<noteq> 0" "i \<noteq> t_root t" "i < n"
  shows "\<exists>ks. lineage t (t_root t) (ks @ [i]) \<and> imp_get_path n i t = concat (map (\<lambda>k. SLASH # n_name (t_node t k)) (ks @ [i])) \<and> (\<forall>k\<in>set (ks @ [i]). ref t k \<noteq> 0 \<and> k \<noteq> t_root t)"
  using assms
proof (induction n arbitrary: i)
  case (Suc n)
  note D = tree_invD [OF Suc.prems(1)]
  obtain p where p: "parent_of t i = Some p" using D(8) [OF Suc.prems(2)] Suc.prems(3) by (cases "parent_of t i") auto
  have lt: "p < i" "i < t_fresh t" by (rule D(7) [OF Suc.prems(2) p], rule D(10) [OF Suc.prems(2)])
  have "i \<in> set (tab t p)" using D(5) [of i p] Suc.prems(2) p by simp
  then have rp: "ref t p \<noteq> 0" using D(4) [of p] by (cases "tab t p") auto
  show ?case
  proof (cases "p = t_root t")
    case True
    then have "imp_get_path n p t = []" using D(1) by (cases n) simp_all
    then show ?thesis using p True lt Suc.prems(2,3) by (intro exI [of _ "[]"]) simp
  next
    case False
    then obtain ks where "lineage t (t_root t) (ks @ [p])" "imp_get_path n p t = concat (map (\<lambda>k. SLASH # n_name (t_node t k)) (ks @ [p]))"
      "\<forall>k\<in>set (ks @ [p]). ref t k \<noteq> 0 \<and> k \<noteq> t_root t"
      using Suc.IH [OF Suc.prems(1) rp] lt Suc.prems(4) by auto
    then show ?thesis using p lt Suc.prems(2,3) by (intro exI [of _ "ks @ [p]"]) (auto simp: lineage_snoc [of t "t_root t" "ks @ [p]" i, simplified])
  qed
qed simp

lemma concat_join: "ns \<noteq> [] \<Longrightarrow> concat (map (\<lambda>n. SLASH # n) ns) = SLASH # join ns"
  by (induction ns rule: join.induct) auto

lemma length_join: "length ns \<le> Suc (length (join ns))"
  by (induction ns rule: join.induct) auto

context name_lookup
begin

lemma open_own:
  assumes "tree_inv H t" "1 \<le> H i" "\<And>k. ref t k \<noteq> 0 \<Longrightarrow> k \<noteq> t_root t \<Longrightarrow> proper (n_name (t_node t k))"
    "\<And>k. unat (ref t k) + length (get_path i t) + 2 < 2 ^ 32" "allowed (n_folder (t_node t i)) mode"
  shows "\<exists>t'. file_open disk wd (get_path i t) mode t = Inr (Some i, t') \<and> tree_inv (take_ref i H) t'"
proof -
  note D = tree_invD [OF assms(1)]
  let ?r = "t_root t"
  have rr: "ref t ?r \<noteq> 0" by (rule live_ref [OF assms(1) D(3)])
  have ok: "tree_inv (take_ref ?r H) (inst_acquire ?r t)" unfolding take_ref_def by (rule inst_acquire_ok [OF assms(1) rr]) (use assms(4) [of ?r] in linarith)
  have sh: "same_shape t (inst_acquire ?r t)" by (simp add: same_shape_def inst_acquire_def)
  have ri: "ref t i \<noteq> 0" by (rule live_ref [OF assms(1,2)])
  show ?thesis
  proof (cases "i = ?r")
    case True
    then have "get_path i t = [SLASH]" using D(1) by (simp add: get_path_def)
    moreover have "mode AND ALLOW_FOLDER \<noteq> 0" using assms(5) D(2) True by (simp add: allowed_def)
    ultimately show ?thesis using ok True by (simp add: file_open_def imp_open_slash)
  next
    case False
    obtain ks where ks: "lineage t ?r (ks @ [i])" "imp_get_path (Suc i) i t = concat (map (\<lambda>k. SLASH # n_name (t_node t k)) (ks @ [i]))"
      "\<forall>k\<in>set (ks @ [i]). ref t k \<noteq> 0 \<and> k \<noteq> ?r"
      using imp_get_path_lineage [OF assms(1) ri False, of "Suc i"] by auto
    have "imp_get_path (Suc i) i t = SLASH # join (names t (ks @ [i]))" using concat_join [of "names t (ks @ [i])"] ks(2) by (simp add: comp_def)
    then have path: "get_path i t = SLASH # join (names t (ks @ [i]))" by (simp add: get_path_def Let_def)
    obtain k ls where kl: "ks @ [i] = k # ls" "last (k # ls) = i" by (cases "ks @ [i]") (auto, metis last_snoc last.simps)
    have len: "length ls \<le> length (get_path i t)" unfolding path kl(1) using length_join [of "names t (k # ls)"] by simp
    define t1 where "t1 = inst_acquire ?r t"
    have f: "n_folder (t_node t1 j) = n_folder (t_node t j)" "n_name (t_node t1 j) = n_name (t_node t j)" "t_root t1 = ?r"
      "unat (ref t1 j) \<le> unat (ref t j) + 1" for j
      using assms(4) [of ?r] by (simp_all add: t1_def inst_acquire_def unat_word_ariths)
    have "\<exists>t'. imp_open disk ?r (join (names t1 (k # ls))) mode t1 = Inr (Some (last (k # ls)), t') \<and> tree_inv (take_ref (last (k # ls)) (give ?r (take_ref ?r H))) t' \<and> same_shape t1 t'"
    proof (rule open_lineage [OF ok [folded t1_def]])
      show "lineage t1 ?r (k # ls)" using lineage_shape [OF ks(1) sh] kl by (simp add: t1_def)
      show "unat (ref t1 j) + length ls + 1 < 2 ^ 32" for j using f(4) [of j] assms(4) [of j] len by linarith
      show "\<forall>n\<in>set (names t1 (k # ls)). proper n" using assms(3) ks(3) unfolding kl(1) by (auto simp: f)
    qed (use D(2,3) assms(2,5) kl in \<open>auto simp: take_ref_def f\<close>)
    moreover have "names t1 (k # ls) = names t (ks @ [i])" unfolding kl(1) by (simp add: f(2))
    ultimately show ?thesis unfolding kl(2) path by (auto simp: file_open_def t1_def simp del: list.map)
  qed
qed

end


section \<open>Properties\<close>


text \<open>C21: The path \<open>get_path\<close> prints for an open instance opens that same instance, with one more reference, whatever the working
  directory is: names that stand for themselves in a path round-trip through the tree.\<close>

theorem path_round_trip:
  assumes "tree_inv H t" and "1 \<le> H i" and "\<forall>k. n_ref (t_node t k) \<noteq> 0 \<and> k \<noteq> t_root t \<longrightarrow> proper (n_name (t_node t k))"
    and "\<forall>k. unat (n_ref (t_node t k)) + length (get_path i t) + 2 < 2 ^ 32" and "allowed (n_folder (t_node t i)) mode"
  shows "\<exists>t'. file_open (volume_lookup fs bad m clus lims) wd (get_path i t) mode t = Inr (Some i, t') \<and> tree_inv (take_ref i H) t'"
  using assms by (intro volume_names.open_own) auto

text \<open>A path that goes down into a folder nobody else has open and up again never returns: giving the folder up closes it, which
  takes the lock of its parent, and the walk holds that lock.\<close>

theorem up_from_private_folder_hangs:
  assumes "tree_inv H t" and "H cur = 1" and "n_table (t_node t cur) = []" and "cur \<noteq> t_root t"
  shows "imp_open disk cur ([DOT, DOT, SLASH] @ rest) mode t = bugcheck ''waits for its own lock''"
proof -
  note D = tree_invD [OF assms(1)]
  have "unat (ref t cur) = unat (1 :: dword)" using D(4) [of cur] assms(2,3) by simp
  then have rc: "ref t cur = 1" by (simp only: word_unat_eq_iff)
  obtain p where p: "parent_of t cur = Some p" using D(8) [of cur] rc assms(4) by (cases "parent_of t cur") auto
  have lt: "p < cur" using D(7) [OF _ p] rc by simp
  have "cur \<in> set (tab t p)" using D(5) [of cur p] rc p by simp
  then have fp: "n_folder (t_node t p)" using D(9) [of p] by (cases "n_folder (t_node t p)") auto
  have w: "walk_next disk cur [DOT, DOT] ALLOW_FOLDER t = (Some p, inst_acquire p t)" using p by (simp add: walk_next_def)
  have "inst_relax (Some p) cur (inst_acquire p t) = bugcheck ''waits for its own lock''"
    using rc p lt assms(3) by (simp add: inst_relax_def inst_acquire_def Let_def)
  then show ?thesis using w fp lt imp_open_step [of "[DOT, DOT, SLASH] @ rest" "[DOT, DOT]" rest disk cur mode t]
    by (simp add: inst_acquire_def bugcheck_def)
qed

text \<open>A path that ends in \<open>.\<close> gives back the folder after its reference was given up: when it was the last one, the result is deleted.\<close>

lemma dot_returns_deleted:
  assumes "tree_inv H t" and "H cur = 1" and "n_table (t_node t cur) = []" and "cur \<noteq> t_root t"
  shows "\<exists>t'. imp_open disk cur [DOT] mode t = Inr (Some cur, t') \<and> n_ref (t_node t' cur) = 0"
proof -
  have "walk_next disk cur [DOT] mode t = (Some cur, t)" by (simp add: walk_next_def)
  moreover obtain t' where t': "inst_relax None cur t = Inr t'" "tree_inv (give cur H) t'" "shrinks t t'"
    by (rule relax_ok [OF assms(1), of cur None]) (use assms in auto)
  ultimately have "imp_open disk cur [DOT] mode t = Inr (Some cur, t')" by (simp add: imp_open_last)
  moreover have "j \<notin> set (tab t' cur)" for j
  proof
    assume "j \<in> set (tab t' cur)"
    then have j: "ref t' j \<noteq> 0" "parent_of t' j = Some cur" using tree_invD(5) [OF t'(2), of j cur] by auto
    have "ref t' j \<le> ref t j" using t'(3) by (simp add: shrinks_def)
    then have rj: "ref t j \<noteq> 0" using j(1) by auto
    then have "parent_of t j = Some cur" using t'(3) j(2) tree_invD(10) [OF assms(1) rj] by (simp add: shrinks_def same_shape_def)
    then show False using rj tree_invD(5) [OF assms(1), of j cur] assms(3) by simp
  qed
  then have "tab t' cur = []" by (meson ex_in_conv set_empty)
  ultimately show ?thesis using tree_invD(4) [OF t'(2), of cur] assms(2) by (auto simp: give_def unat_eq_0)
qed


text \<open>A small tree: the root, a folder \<open>bin\<close> that is open, and the file \<open>a\<close> in it.\<close>

definition small_tree :: tree where
  "small_tree = \<lparr>t_node = (\<lambda>_. \<lparr>n_ref = 0, n_parent = None, n_name = [], n_folder = False, n_table = []\<rparr>)(
     0 := \<lparr>n_ref = 3, n_parent = None, n_name = [], n_folder = True, n_table = [1]\<rparr>,
     1 := \<lparr>n_ref = 2, n_parent = Some 0, n_name = [0x62, 0x69, 0x6E], n_folder = True, n_table = [2]\<rparr>,
     2 := \<lparr>n_ref = 1, n_parent = Some 1, n_name = [0x61], n_folder = False, n_table = []\<rparr>,
     3 := \<lparr>n_ref = 0, n_parent = None, n_name = [], n_folder = False, n_table = []\<rparr>), t_fresh = 3, t_root = 0\<rparr>"

definition small_refs :: "nat \<Rightarrow> nat" where "small_refs = (\<lambda>_. 0)(0 := 2, 1 := 1, 2 := 1)"

lemma small_node:
  "t_node small_tree i = (if i = 0 then \<lparr>n_ref = 3, n_parent = None, n_name = [], n_folder = True, n_table = [1]\<rparr>
     else if i = 1 then \<lparr>n_ref = 2, n_parent = Some 0, n_name = [0x62, 0x69, 0x6E], n_folder = True, n_table = [2]\<rparr>
     else if i = 2 then \<lparr>n_ref = 1, n_parent = Some 1, n_name = [0x61], n_folder = False, n_table = []\<rparr>
     else \<lparr>n_ref = 0, n_parent = None, n_name = [], n_folder = False, n_table = []\<rparr>)" "t_fresh small_tree = 3" "t_root small_tree = 0"
  by (auto simp: small_tree_def)

lemma small_tree_inv: "tree_inv small_refs small_tree"
  by (rule tree_invI) (auto simp: small_node small_refs_def split: if_splits)


theorem path_round_trip_witness:
  "\<exists>t'. file_open (volume_lookup small_fs (\<lambda>_. False) small_volume (\<lambda>_. chain_new 9 False) (\<lambda>_. 0)) None (get_path 2 small_tree) ALLOW_FILE small_tree = Inr (Some 2, t') \<and>
     get_path 2 small_tree = [0x2F, 0x62, 0x69, 0x6E, 0x2F, 0x61] \<and> tree_inv (take_ref 2 small_refs) t'"
proof -
  have path: "get_path 2 small_tree = [0x2F, 0x62, 0x69, 0x6E, 0x2F, 0x61]" by (simp add: get_path_def small_node numeral_2_eq_2)
  have "\<exists>t'. file_open (volume_lookup small_fs (\<lambda>_. False) small_volume (\<lambda>_. chain_new 9 False) (\<lambda>_. 0)) None (get_path 2 small_tree) ALLOW_FILE small_tree = Inr (Some 2, t') \<and>
     tree_inv (take_ref 2 small_refs) t'"
    by (rule path_round_trip [OF small_tree_inv]) (use path in \<open>auto simp: small_node small_refs_def proper_def allowed_def\<close>)
  then show ?thesis using path by simp
qed

definition private_refs :: "nat \<Rightarrow> nat" where "private_refs = (\<lambda>_. 0)(0 := 1, 1 := 1)"
definition private_tree :: tree where
  "private_tree = \<lparr>t_node = (\<lambda>_. \<lparr>n_ref = 0, n_parent = None, n_name = [], n_folder = False, n_table = []\<rparr>)(
     0 := \<lparr>n_ref = 2, n_parent = None, n_name = [], n_folder = True, n_table = [1]\<rparr>,
     1 := \<lparr>n_ref = 1, n_parent = Some 0, n_name = [0x62, 0x69, 0x6E], n_folder = True, n_table = []\<rparr>), t_fresh = 2, t_root = 0\<rparr>"

theorem up_from_private_folder_hangs_witness:
  "imp_open (\<lambda>_ _ _. None) 1 [0x2E, 0x2E, 0x2F, 0x61] ALLOW_FILE private_tree = bugcheck ''waits for its own lock''"
proof -
  have "tree_inv private_refs private_tree" by (rule tree_invI) (auto simp: private_tree_def private_refs_def split: if_splits)
  from up_from_private_folder_hangs [OF this, of 1 "\<lambda>_ _ _. None" "[0x61]" ALLOW_FILE] show ?thesis by (simp add: private_tree_def private_refs_def)
qed

end
