(* ===== verification/Service_Check.thy ===== *)
theory Service_Check
  imports User_Copy
begin

text \<open>
  How the kernel takes memory from user space: \<open>service_provider::check\<close> (\<^verbatim>\<open>interface/service.cpp\<close>), which every system call with
  a buffer uses, and \<open>user_exception\<close> (\<^verbatim>\<open>interface/bridge.cpp\<close>), which builds the frame of an exception handler on the user stack.
  A store to memory that is not writable is a stop of the model.
\<close>

section \<open>Model\<close>

abbreviation page_q :: qword where "page_q \<equiv> 0x1000"

text \<open>The loop of \<open>check\<close> over the pages of the buffer.\<close>

primrec check_loop :: "nat \<Rightarrow> vspace \<Rightarrow> bool \<Rightarrow> qword \<Rightarrow> qword \<Rightarrow> bool res" where
  "check_loop 0 m w va tail = Inl OutOfFuel"
| "check_loop (Suc n) m w va tail =
     (if \<not> va < tail then Inr True
      else let pt = user_peek va m in
        if \<not> pt_present pt \<or> \<not> pt_user pt then Inr False
        else if w \<and> \<not> pt_write pt then Inr False
        else check_loop n m w (va + page_q) tail)"

definition check_buffer :: "vspace \<Rightarrow> qword \<Rightarrow> dword \<Rightarrow> bool \<Rightarrow> bool res" where
  "check_buffer m ptr len w =
     (let tail = ptr + ucast len; va = align_down ptr page_q in
      rbind (check_loop (unat len div 4096 + 3) m w va tail) (\<lambda>ok.
        if \<not> ok then Inr False else kassert (tail AND HIGHADDR 0 = 0) (Inr True)))"

definition qword_bytes :: "qword \<Rightarrow> byte list" where
  "qword_bytes x = map (\<lambda>k. ucast (drop_bit (8 * k) x)) [0..<8]"

text \<open>Result: whether the exception is passed on, then the instruction pointer, the stack pointer, the handler and the memory.\<close>

definition user_exception :: "vspace \<Rightarrow> qword \<Rightarrow> qword \<Rightarrow> qword \<Rightarrow> dword \<Rightarrow> (nat \<Rightarrow> byte) \<Rightarrow> (bool \<times> qword \<times> qword \<times> qword \<times> (nat \<Rightarrow> byte)) res" where
  "user_exception m handler rip rsp errcode phys =
     (if handler = 0 \<or> handler AND HIGHADDR 0 \<noteq> 0 then Inr (False, rip, rsp, handler, phys)
      else let aligned_rsp = align_down rsp 8 - 0x10; pt = user_peek aligned_rsp m in
        if \<not> pt_present pt \<or> \<not> pt_write pt \<or> \<not> pt_user pt then Inr (False, rip, rsp, handler, phys)
        else let pt = user_peek (aligned_rsp + 8) m in
          if align_down (aligned_rsp + 0x20) page_q \<noteq> aligned_rsp \<and> (\<not> pt_present pt \<or> \<not> pt_write pt \<or> \<not> pt_user pt)
          then Inr (False, rip, rsp, handler, phys)
          else let frame = qword_bytes rip @ qword_bytes (ucast errcode); (c, phys) = put_user m aligned_rsp frame phys in
            if c \<noteq> length frame then bugcheck ''page fault in the kernel''
            else Inr (True, handler, aligned_rsp, 0, phys))"

section \<open>Pages\<close>

definition accessible :: "bool \<Rightarrow> vspace \<Rightarrow> qword \<Rightarrow> bool" where
  "accessible w m va \<longleftrightarrow> (if w then writable m va else readable m va)"

lemma accessible_page: "drop_bit 12 va = drop_bit 12 va' \<Longrightarrow> accessible w m va = accessible w m va'"
  using user_peek_page [of va va' m] by (simp add: accessible_def writable_def readable_def)

lemma accessible_below: "accessible w m va \<Longrightarrow> unat va < 2 ^ 39"
  using readable_below [of m va] by (auto simp: accessible_def writable_def readable_def Let_def split: if_splits)

lemma check_loop_Suc: "check_loop (Suc n) m w va tail = (if \<not> va < tail then Inr True else if accessible w m va then check_loop n m w (va + page_q) tail else Inr False)"
  by (auto simp: accessible_def writable_def readable_def Let_def)

lemma page_down: "unat (align_down x page_q) = unat x div 4096 * 4096"
  using unat_align_down [of 12 x] by simp

lemma nat_page:
  assumes "a div 4096 = b div (4096 :: nat)" "a < 2 ^ 64" "b < 2 ^ 64"
  shows "drop_bit 12 (of_nat a :: qword) = drop_bit 12 (of_nat b)"
proof -
  have "unat (of_nat a :: qword) = a" "unat (of_nat b :: qword) = b" using assms(2,3) by (simp_all add: unat_of_nat take_bit_nat_eq_self)
  then show ?thesis using assms(1) by (simp add: word_unat_eq_iff unat_drop_bit)
qed

text \<open>From a page boundary: the loop looks at one address of every page up to the end.\<close>

lemma check_loop_pages:
  assumes "a mod 4096 = 0" "t < 2 ^ 64" "a < 2 ^ 64" "t \<le> a + n * 4096"
  shows "check_loop (Suc n) m w (of_nat a) (of_nat t) = Inr (\<forall>x. a \<le> x \<and> x < t \<longrightarrow> accessible w m (of_nat x))"
  using assms
proof (induction n arbitrary: a)
  case 0
  have "\<not> (of_nat a :: qword) < of_nat t" using 0 by (simp add: word_less_nat_alt unat_of_nat take_bit_nat_eq_self)
  then show ?case using 0 by (simp; linarith?)
next
  case (Suc n)
  have u: "unat (of_nat a :: qword) = a" "unat (of_nat t :: qword) = t" using Suc.prems by (simp_all add: unat_of_nat take_bit_nat_eq_self)
  show ?case
  proof (cases "a < t \<and> accessible w m (of_nat a)")
    case False
    then show ?thesis by (auto simp: check_loop_Suc word_less_nat_alt u simp del: check_loop.simps)
  next
    case True
    have lt: "a < 2 ^ 39" using accessible_below [of w m "of_nat a"] True u by simp
    have next': "(of_nat a :: qword) + page_q = of_nat (a + 4096)" by simp
    have page: "accessible w m (of_nat x)" if "a \<le> x" "x < a + 4096" for x
    proof -
      obtain q where q: "a = 4096 * q" using Suc.prems(1) by (meson mod_0_imp_dvd dvdE)
      then have "x div 4096 = q" using that by (intro div_nat_eqI) simp_all
      then have "x div 4096 = a div 4096" using q by simp
      then show ?thesis using accessible_page [OF nat_page [of x a]] that lt Suc.prems(3) True by simp
    qed
    have "check_loop (Suc n) m w (of_nat (a + 4096)) (of_nat t) = Inr (\<forall>x. a + 4096 \<le> x \<and> x < t \<longrightarrow> accessible w m (of_nat x))"
      by (rule Suc.IH) (use Suc.prems lt in simp_all)
    moreover have "(\<forall>x. a + 4096 \<le> x \<and> x < t \<longrightarrow> accessible w m (of_nat x)) \<longleftrightarrow> (\<forall>x. a \<le> x \<and> x < t \<longrightarrow> accessible w m (of_nat x))"
      using page by (meson linorder_not_less order_trans le_add1)
    ultimately show ?thesis using True u unfolding check_loop_Suc [of "Suc n"] next' by (simp add: word_less_nat_alt del: check_loop.simps)
  qed
qed


lemma word_limits: "unat (x :: dword) < 2 ^ 32" "unat (y :: qword) < 2 ^ 64"
  using unsigned_less [of x] unsigned_less [of y] by auto

section \<open>Properties\<close>

lemma high_mask: "unat x < 2 ^ 47 \<Longrightarrow> x AND HIGHADDR 0 = 0" for x :: qword
proof -
  assume "unat x < 2 ^ 47"
  then have "x < 2 ^ 47" by (simp add: word_less_nat_alt)
  then have e: "x AND mask 47 = x" by (rule less_mask_eq)
  have z: "mask 47 AND HIGHADDR 0 = (0 :: qword)" by (simp add: HIGHADDR_def mask_eq_exp_minus_1)
  have "x AND HIGHADDR 0 = (x AND mask 47) AND HIGHADDR 0" by (simp only: e)
  also have "\<dots> = x AND (mask 47 AND HIGHADDR 0)" by (rule and.assoc)
  finally show ?thesis by (simp only: z and_zero_eq)
qed

lemma check_buffer_exact:
  assumes "0 < len" "unat ptr + unat len < 2 ^ 64"
  shows "check_buffer m ptr len w = Inr (\<forall>k<unat len. accessible w m (ptr + of_nat k))"
proof -
  obtain P L where PL: "unat ptr = P" "unat len = L" by simp
  have ptr: "ptr = of_nat P" unfolding PL(1) [symmetric] by simp
  have L: "0 < L" "P + L < 2 ^ 64" using assms PL by (auto simp: word_less_nat_alt)
  define a where "a = P div 4096 * 4096"
  have a: "a \<le> P" "P < a + 4096" "a mod 4096 = 0" unfolding a_def using div_mult_mod_eq [of P 4096] mod_less_divisor [of 4096 P] by simp_all
  have ua: "unat (of_nat a :: qword) = a" using L a(1) by (simp add: unat_of_nat take_bit_nat_eq_self)
  have al: "align_down ptr page_q = of_nat a"
    using page_down [of ptr] ua unfolding PL(1) a_def [symmetric] by (simp only: word_unat_eq_iff)
  have tail: "ptr + ucast len = of_nat (P + L)"
    unfolding ptr PL(2) [symmetric] by simp
  have "L < 4096 * (L div 4096) + 4096" using div_mult_mod_eq [of L 4096] mod_less_divisor [of 4096 L] by linarith
  then have enough: "P + L \<le> a + (L div 4096 + 2) * 4096" using a(2) by (simp add: algebra_simps)
  have loop: "check_loop (L div 4096 + 3) m w (of_nat a) (of_nat (P + L)) = Inr (\<forall>x. a \<le> x \<and> x < P + L \<longrightarrow> accessible w m (of_nat x))"
    using check_loop_pages [of a "P + L" "L div 4096 + 2" m w] a L(2) enough by (simp add: numeral_3_eq_3 numeral_2_eq_2 del: check_loop.simps)
  have eq: "(\<forall>x. a \<le> x \<and> x < P + L \<longrightarrow> accessible w m (of_nat x)) \<longleftrightarrow> (\<forall>k<L. accessible w m (ptr + of_nat k))" (is "?A \<longleftrightarrow> ?B")
  proof
    assume ?A
    then show ?B unfolding ptr using a(1) by (metis of_nat_add add_less_cancel_left le_add1 order_trans)
  next
    assume B: ?B
    have first: "accessible w m (of_nat P)" using spec [OF B, of 0] L(1) unfolding ptr by simp
    show ?A
    proof (intro allI impI)
      fix x assume x: "a \<le> x \<and> x < P + L"
      show "accessible w m (of_nat x)"
      proof (cases "P \<le> x")
        case True
        then have "x = P + (x - P)" "x - P < L" using x by auto
        then show ?thesis using B unfolding ptr by (metis of_nat_add)
      next
        case False
        then have "x div 4096 = P div 4096" using x a unfolding a_def by (metis div_le_mono div_mult_self_is_m le_antisym linear zero_less_numeral)
        then show ?thesis using accessible_page [OF nat_page [of x P]] first x L(2) False by simp
      qed
    qed
  qed
  have low: "of_nat (P + L) AND HIGHADDR 0 = 0" if ?B
  proof -
    obtain K where K: "L = Suc K" using L(1) by (cases L) auto
    have u: "unat (of_nat n :: qword) = n" if "n < 2 ^ 64" for n using that by (simp add: unat_of_nat take_bit_nat_eq_self)
    have "accessible w m (of_nat (P + K))" using that K unfolding ptr of_nat_add by blast
    from accessible_below [OF this] have "P + K < 2 ^ 39" using u [of "P + K"] L(2) K by linarith
    then have "unat (of_nat (P + L) :: qword) < 2 ^ 47" unfolding u [OF L(2)] using K by simp
    then show ?thesis by (rule high_mask)
  qed
  show ?thesis unfolding check_buffer_def Let_def al tail PL(2) loop eq using low by (auto simp del: of_nat_add)
qed


text \<open>C39: A buffer that wraps around is accepted whatever is mapped: the end of the buffer is below its start, so no page is looked at. The
  pointer lies in the upper half, where the kernel is.\<close>

theorem check_accepts_wrapping_buffer:
  assumes "2 ^ 64 \<le> unat ptr + unat len"
  shows "check_buffer m ptr len w = Inr True \<and> IS_HIGHADDR ptr"
proof -
  obtain P L where PL: "unat ptr = P" "unat len = L" by simp
  have lt: "P < 2 ^ 64" "L < 2 ^ 32" using PL word_limits(2) [of ptr] word_limits(1) [of len] by simp_all
  have "unat (ucast len :: qword) = L" using lt(2) unfolding PL(2) [symmetric] by (simp add: unsigned_ucast_eq take_bit_nat_eq_self)
  then have "unat (ptr + ucast len) = (P + L) mod 2 ^ 64" by (simp add: unat_word_ariths PL)
  also have "\<dots> = P + L - 2 ^ 64" using assms lt unfolding PL by (simp add: le_mod_geq)
  finally have tail: "unat (ptr + ucast len) = P + L - 2 ^ 64" .
  have "P < P div 4096 * 4096 + 4096" using div_mult_mod_eq [of P 4096] mod_less_divisor [of 4096 P] by linarith
  then have "\<not> align_down ptr page_q < ptr + ucast len"
    unfolding word_less_nat_alt page_down tail PL(1) using assms lt unfolding PL by simp
  moreover have "(ptr + ucast len) AND HIGHADDR 0 = 0" by (rule high_mask) (use tail lt in simp)
  ultimately have acc: "check_buffer m ptr len w = Inr True" by (simp add: check_buffer_def numeral_3_eq_3)
  have "NOT ptr = 0xFFFFFFFFFFFFFFFF - ptr" by (simp add: not_eq_complement)
  then have "unat (NOT ptr) = 0xFFFFFFFFFFFFFFFF - P" using lt(1) by (simp add: unat_sub word_le_nat_alt PL)
  then have "unat (NOT ptr) < 2 ^ 32" using assms lt unfolding PL by simp
  then have z: "NOT ptr AND HIGHADDR 0 = 0" by (intro high_mask) simp
  have "HIGHADDR 0 = (ptr OR NOT ptr) AND HIGHADDR 0" by simp
  also have "\<dots> = (ptr AND HIGHADDR 0) OR (NOT ptr AND HIGHADDR 0)" by (rule bit.conj_disj_distrib2)
  finally have "ptr AND HIGHADDR 0 = HIGHADDR 0" unfolding z by simp
  then show ?thesis using acc by (simp add: IS_HIGHADDR_def)
qed

lemma check_stops_at_high_end:
  assumes "ptr AND HIGHADDR 0 \<noteq> 0" "ptr AND PAGE_MASK = 0"
  shows "check_buffer m ptr 0 w = Inl AssertFailed"
proof -
  have "ptr = (ptr AND PAGE_MASK) OR (ptr AND NOT PAGE_MASK)" by (simp flip: bit.conj_disj_distrib)
  then have "align_down ptr page_q = ptr" using assms(2) by (simp add: align_down_def)
  then show ?thesis using assms(1) by (simp add: check_buffer_def numeral_3_eq_3 kassert_def)
qed


lemma same_page_8:
  assumes "unat x mod 8 = 0" "k < 8"
  shows "drop_bit 12 (x + of_nat k) = drop_bit 12 (x :: qword)"
proof -
  have "unat x mod 4096 mod 8 = 0" using assms(1) by (simp add: mod_mod_cancel)
  then obtain q where q: "unat x mod 4096 = 8 * q" by (meson mod_0_imp_dvd dvdE)
  have "8 * q < 4096" unfolding q [symmetric] by simp
  then have "q \<le> 511" by simp
  then have "unat x mod 4096 + k < 4096" unfolding q using assms(2) by linarith
  moreover have "unat (x AND PAGE_MASK) = unat x mod 4096" using and_mask_unat [of x 12] by (simp add: mask_eq_exp_minus_1)
  ultimately show ?thesis by (intro same_page) simp
qed

lemma add_mod_8: "unat x mod 8 = 0 \<Longrightarrow> unat y mod 8 = 0 \<Longrightarrow> unat (x + y) mod 8 = 0" for x y :: qword
proof -
  assume a: "unat x mod 8 = 0" "unat y mod 8 = 0"
  have "unat (x + y) mod 8 = (unat x + unat y) mod 8" by (simp add: unat_word_ariths mod_mod_cancel)
  then show ?thesis using a by (metis add.right_neutral mod_add_eq mod_0)
qed

lemma frame_aligned: "unat (align_down rsp 8 - 0x10) mod 8 = 0" "unat (align_down rsp 8 - 0x10 + 8) mod 8 = 0" for rsp :: qword
proof -
  have z: "unat (align_down rsp 8) mod 8 = 0" using unat_align_down [of 3 rsp] by simp
  have "align_down rsp 8 - 0x10 = align_down rsp 8 + 0xFFFFFFFFFFFFFFF0" by simp
  moreover have "unat (0xFFFFFFFFFFFFFFF0 :: qword) mod 8 = 0" by simp
  ultimately show a: "unat (align_down rsp 8 - 0x10) mod 8 = 0" using add_mod_8 [OF z] by (simp only:)
  show "unat (align_down rsp 8 - 0x10 + 8) mod 8 = 0" by (rule add_mod_8 [OF a]) simp
qed

lemma put_user_all: "(\<And>k. k < length bs \<Longrightarrow> writable m (va + of_nat k)) \<Longrightarrow> fst (put_user m va bs p) = length bs"
proof (induction bs arbitrary: va p)
  case (Cons b bs)
  have "writable m va" using Cons.prems [of 0] by simp
  moreover have "writable m (va + 1 + of_nat k)" if "k < length bs" for k using Cons.prems [of "Suc k"] that by (simp add: add.assoc)
  from Cons.IH [OF this] have "fst (put_user m (va + 1) bs (p(phys_of m va := b))) = length bs" .
  ultimately show ?case by (simp add: case_prod_beta)
qed simp

text \<open>The frame of an exception handler: when the exception is passed on, every byte of the frame was user memory that can be written,
  the stack pointer is the frame, the handler is used up, and user memory has the interrupted instruction pointer and the code in it.
  The kernel does not fault on the way, whatever the stack pointer was.\<close>

theorem exception_frame_in_user_memory:
  "\<exists>ok rip' rsp' handler' phys'. user_exception m handler rip rsp errcode phys = Inr (ok, rip', rsp', handler', phys') \<and>
     (if ok then rip' = handler \<and> rsp' = align_down rsp 8 - 0x10 \<and> handler' = 0 \<and> \<not> IS_HIGHADDR handler \<and> list_all (\<lambda>k. writable m (rsp' + of_nat k)) [0..<16] \<and>
        put_user m rsp' (qword_bytes rip @ qword_bytes (ucast errcode)) phys = (16, phys')
      else rip' = rip \<and> rsp' = rsp \<and> handler' = handler \<and> phys' = phys)"
proof (cases "handler = 0 \<or> handler AND HIGHADDR 0 \<noteq> 0")
  case True
  then have "user_exception m handler rip rsp errcode phys = Inr (False, rip, rsp, handler, phys)" by (simp add: user_exception_def)
  then show ?thesis by (intro exI conjI) auto
next
  case hd: False
  define a where "a = align_down rsp 8 - 0x10"
  have al: "unat a mod 8 = 0" "unat (a + 8) mod 8 = 0" using frame_aligned unfolding a_def by blast+
  let ?frame = "qword_bytes rip @ qword_bytes (ucast errcode)"
  have refused: "user_exception m handler rip rsp errcode phys = Inr (False, rip, rsp, handler, phys)"
    if "\<not> writable m a \<or> align_down (a + 0x20) page_q \<noteq> a \<and> \<not> writable m (a + 8)"
    using that hd unfolding user_exception_def Let_def a_def [symmetric] writable_def by auto
  show ?thesis
  proof (cases "\<not> writable m a \<or> align_down (a + 0x20) page_q \<noteq> a \<and> \<not> writable m (a + 8)")
    case True
    from refused [OF this] show ?thesis by (intro exI conjI) auto
  next
    case ok: False
    have "writable m (a + 8)"
    proof (cases "align_down (a + 0x20) page_q = a")
      case True
      have "unat a mod 4096 = 0" using page_down [of "a + 0x20"] unfolding True by simp
      then have "unat (a AND PAGE_MASK) + 8 < 4096" using and_mask_unat [of a 12] by (simp add: mask_eq_exp_minus_1)
      from same_page(1) [OF this] show ?thesis using accessible_page [of "a + 8" a True m] ok by (simp add: accessible_def)
    qed (use ok in simp)
    then have w: "writable m (a + of_nat k)" if "k < 16" for k
    proof (cases "k < 8")
      case True
      then show ?thesis using accessible_page [OF same_page_8 [OF al(1)], of k True m] ok by (simp add: accessible_def)
    next
      case False
      then have "a + of_nat k = a + 8 + of_nat (k - 8)" by simp
      moreover have "writable m (a + 8 + of_nat (k - 8))"
        using accessible_page [OF same_page_8 [OF al(2)], of "k - 8" True m] that False \<open>writable m (a + 8)\<close> by (simp only: accessible_def if_True)
      ultimately show ?thesis by (simp only:)
    qed
    have len: "length ?frame = 16" by (simp add: qword_bytes_def)
    obtain phys' where p: "put_user m a ?frame phys = (16, phys')" using put_user_all [of ?frame m a phys] w len by (metis prod.collapse)
    have "user_exception m handler rip rsp errcode phys = Inr (True, handler, a, 0, phys')"
      using ok hd p len unfolding user_exception_def Let_def a_def [symmetric] writable_def by auto
    moreover have "\<not> IS_HIGHADDR handler" using hd by (auto simp: IS_HIGHADDR_def HIGHADDR_def)
    ultimately show ?thesis using p w unfolding a_def by (auto simp: list_all_iff)
  qed
qed



theorem check_accepts_wrapping_buffer_witness:
  "check_buffer one_page_space 0xFFFFFFFFFFFFF000 0x2000 True = Inr True \<and> IS_HIGHADDR 0xFFFFFFFFFFFFF000 \<and> \<not> writable one_page_space 0xFFFFFFFFFFFFF000"
  using check_accepts_wrapping_buffer [of "0xFFFFFFFFFFFFF000" "0x2000" one_page_space True]
  by (auto simp: writable_def user_peek_def pte_zero_def)

end
