(* ===== verification/Service.thy ===== *)
theory Service
  imports Service_Check Process File_Queue Pipe
begin

text \<open>
  The system call layer (\<^verbatim>\<open>interface/service.cpp\<close>, \<open>kernel_service\<close> of \<^verbatim>\<open>interface/bridge.cpp\<close>) for one calling thread. A call
  builds a \<open>service_provider\<close>, runs one handler and destroys the provider; the flags of the provider say which locks the
  destructor gives back. Kernel objects are numbers; \<open>v_ref\<close> has their reference counts and \<open>v_obj\<close> what they are. The
  handle table, the scheduler, pipes, files, semaphores, events and the address space are the components of the other theories.
  \<open>v_shared\<close> is how many times this call has locked the handle table for reading; an operation that locks it for
  writing then waits for its own thread, which is a stop of the model.
\<close>

section \<open>Objects\<close>

record pinfo =
  pi_id :: dword
  pi_privilege :: byte
  pi_state :: Process.pstate
  pi_result :: dword

datatype body = Thread_Body nat | Process_Body pinfo | File_Body nat | Pipe_Body pipe nat | Sem_Body semaphore | Event_Body bool

abbreviation OBJ_UNKNOWN :: dword where "OBJ_UNKNOWN \<equiv> 0"
abbreviation OBJ_THREAD :: dword where "OBJ_THREAD \<equiv> 1"
abbreviation OBJ_PROCESS :: dword where "OBJ_PROCESS \<equiv> 2"
abbreviation OBJ_STREAM :: dword where "OBJ_STREAM \<equiv> 3"
abbreviation OBJ_FILE :: dword where "OBJ_FILE \<equiv> 4"
abbreviation OBJ_PIPE :: dword where "OBJ_PIPE \<equiv> 5"
abbreviation OBJ_SEMAPHORE :: dword where "OBJ_SEMAPHORE \<equiv> 6"
abbreviation OBJ_EVENT :: dword where "OBJ_EVENT \<equiv> 7"

fun obj_type :: "body \<Rightarrow> dword" where
  "obj_type (Thread_Body _) = OBJ_THREAD"
| "obj_type (Process_Body _) = OBJ_PROCESS"
| "obj_type (File_Body _) = OBJ_FILE"
| "obj_type (Pipe_Body _ _) = OBJ_PIPE"
| "obj_type (Sem_Body _) = OBJ_SEMAPHORE"
| "obj_type (Event_Body _) = OBJ_EVENT"

abbreviation SUCCESS :: dword where "SUCCESS \<equiv> 0"
abbreviation FAILED :: dword where "FAILED \<equiv> 0x80000000"
abbreviation BAD_PARAM :: dword where "BAD_PARAM \<equiv> 0x80000001"
abbreviation BAD_BUFFER :: dword where "BAD_BUFFER \<equiv> 0x80000002"
abbreviation DENIED :: dword where "DENIED \<equiv> 0x80000005"
abbreviation BAD_HANDLE :: dword where "BAD_HANDLE \<equiv> 0x80000007"
abbreviation NOT_FOUND :: dword where "NOT_FOUND \<equiv> 0x80000008"
abbreviation SHELL :: byte where "SHELL \<equiv> 0x20"
abbreviation shell_priority :: byte where "shell_priority \<equiv> 5"
abbreviation idle_priority :: byte where "idle_priority \<equiv> 0x0F"

definition pack_qword :: "dword \<Rightarrow> dword \<Rightarrow> qword" where
  "pack_qword a b = ucast a OR push_bit 32 (ucast b)"

section \<open>The provider\<close>

record svc =
  v_handles :: handle_table
  v_ref :: "nat \<Rightarrow> refobj"
  v_obj :: "nat \<Rightarrow> body"
  v_fresh :: nat
  v_names :: "named_object list"
  v_pids :: "dword \<Rightarrow> nat option"
  v_thread :: nat
  v_process :: nat
  v_privilege :: byte
  v_handler :: qword
  v_stack_preserve :: dword
  v_kern :: kernel
  v_vs :: vspace
  v_phys :: "nat \<Rightarrow> byte"
  v_pool :: pool
  v_hold_memory :: bool
  v_hold_handle :: bool
  v_skip_critical :: bool
  v_shared :: nat

definition svc_enter :: "svc \<Rightarrow> svc res" where
  "svc_enter s = rbind (thread_hold (v_kern s)) (\<lambda>k.
     Inr (s\<lparr>v_kern := k, v_hold_memory := False, v_hold_handle := False, v_skip_critical := False, v_shared := 0\<rparr>))"

definition unlock_handles :: "svc \<Rightarrow> svc res" where
  "unlock_handles s = kassert (v_shared s \<noteq> 0) (Inr (s\<lparr>v_shared := v_shared s - 1\<rparr>))"

definition svc_leave :: "svc \<Rightarrow> svc res" where
  "svc_leave s =
     (let s = s\<lparr>v_hold_memory := False\<rparr> in
      rbind (if v_hold_handle s then unlock_handles s else Inr s) (\<lambda>s.
        let s = s\<lparr>v_hold_handle := False\<rparr> in
        if v_skip_critical s then Inr s
        else rbind (thread_drop (v_kern s)) (\<lambda>k. Inr (s\<lparr>v_kern := k\<rparr>))))"

definition svc_check :: "qword \<Rightarrow> dword \<Rightarrow> bool \<Rightarrow> svc \<Rightarrow> (bool \<times> svc) res" where
  "svc_check ptr len w s =
     (let s = s\<lparr>v_hold_memory := True\<rparr> in rbind (check_buffer (v_vs s) ptr len w) (\<lambda>ok. Inr (ok, s)))"

definition svc_get :: "dword \<Rightarrow> dword \<Rightarrow> svc \<Rightarrow> nat option \<times> svc" where
  "svc_get handle type s =
     (let s = (if v_hold_handle s then s else s\<lparr>v_shared := v_shared s + 1, v_hold_handle := True\<rparr>) in
      if handle = 0 then (None, s)
      else case ht_lookup (v_handles s) handle of
          None \<Rightarrow> (None, s)
        | Some ptr \<Rightarrow>
            let objtype = obj_type (v_obj s ptr) in
            if type \<noteq> OBJ_UNKNOWN \<and> objtype \<noteq> type \<and> (type \<noteq> OBJ_STREAM \<or> objtype \<noteq> OBJ_PIPE \<and> objtype \<noteq> OBJ_FILE)
            then (None, s) else (Some ptr, s))"

text \<open>\<open>handle_table::put\<close>, \<open>handle_table::close\<close>, \<open>waitable::acquire\<close> and \<open>relax\<close> on the objects of the provider.\<close>

definition put_handle :: "(nat \<Rightarrow> bool) \<Rightarrow> nat \<Rightarrow> svc \<Rightarrow> (dword \<times> svc) res" where
  "put_handle mem ob s =
     (if v_shared s \<noteq> 0 then bugcheck ''waits for its own lock''
      else let (h, t) = ht_put mem ob (v_handles s) in Inr (h, s\<lparr>v_handles := t\<rparr>))"

definition acquire_obj :: "nat \<Rightarrow> svc \<Rightarrow> bool \<times> svc" where
  "acquire_obj ob s = (let (ok, w) = acquire (v_ref s ob) in (ok, s\<lparr>v_ref := (v_ref s)(ob := w)\<rparr>))"

definition relax_obj :: "nat \<Rightarrow> svc \<Rightarrow> svc res" where
  "relax_obj ob s = rbind (relax (v_ref s ob)) (\<lambda>(_, w). Inr (s\<lparr>v_ref := (v_ref s)(ob := w)\<rparr>))"

text \<open>A handle for an object the caller holds a reference to; without a slot the reference is given up again.\<close>

definition give_handle :: "(nat \<Rightarrow> bool) \<Rightarrow> nat \<Rightarrow> svc \<Rightarrow> (dword \<times> svc) res" where
  "give_handle mem ob s = rbind (put_handle mem ob s) (\<lambda>(h, s). if h \<noteq> 0 then Inr (h, s) else rbind (relax_obj ob s) (\<lambda>s. Inr (0, s)))"

definition handle_result :: "(dword \<times> svc) res \<Rightarrow> (qword \<times> svc) res" where
  "handle_result r = rbind r (\<lambda>(h, s). Inr (if h \<noteq> 0 then pack_qword SUCCESS h else ucast NO_RESOURCE, s))"

section \<open>Handlers\<close>

text \<open>What becomes of the caller: a result, a wait for an object with a time limit, or the end of the thread.\<close>

datatype outcome = Return qword | Waits nat qword | Gone

type_synonym handler = "svc \<Rightarrow> (outcome \<times> svc) res"

definition status :: "dword \<Rightarrow> svc \<Rightarrow> (outcome \<times> svc) res" where
  "status c s = Inr (Return (ucast c), s)"

definition returns :: "(qword \<times> svc) res \<Rightarrow> (outcome \<times> svc) res" where
  "returns r = rbind r (\<lambda>(v, s). Inr (Return v, s))"

subsection \<open>Threads\<close>

definition sv_get_thread :: "(nat \<Rightarrow> bool) \<Rightarrow> handler" where
  "sv_get_thread mem s =
     (let (res, s) = acquire_obj (v_thread s) s in
      kassert res (returns (rbind (give_handle mem (v_thread s) s) (\<lambda>(h, s). Inr (ucast h, s)))))"

definition sv_thread_id :: "dword \<Rightarrow> handler" where
  "sv_thread_id handle s =
     (case svc_get handle OBJ_THREAD s of
        (None, s) \<Rightarrow> status 0 s
      | (Some ob, s) \<Rightarrow> (case v_obj s ob of Thread_Body t \<Rightarrow> status (of_nat t) s | _ \<Rightarrow> Inl AssertFailed))"

definition sv_get_handler :: handler where "sv_get_handler s = Inr (Return (v_handler s), s)"

definition sv_get_priority :: "dword \<Rightarrow> handler" where
  "sv_get_priority handle s =
     (case svc_get handle OBJ_THREAD s of
        (None, s) \<Rightarrow> status BAD_HANDLE s
      | (Some ob, s) \<Rightarrow> (case v_obj s ob of Thread_Body t \<Rightarrow> status (of_nat (t_priority (k_tcb (v_kern s) t))) s | _ \<Rightarrow> Inl AssertFailed))"

text \<open>The thread leaves the kernel without running the destructor of the provider.\<close>

definition sv_exit_thread :: handler where
  "sv_exit_thread s =
     (let this = k_cur (v_kern s) in
      rbind (thread_drop (v_kern s)) (\<lambda>k. rbind (thread_kill this k) (\<lambda>k. Inr (Gone, s\<lparr>v_kern := k\<rparr>))))"

definition sv_kill_thread :: "dword \<Rightarrow> handler" where
  "sv_kill_thread handle s =
     (case svc_get handle OBJ_THREAD s of
        (None, s) \<Rightarrow> status BAD_HANDLE s
      | (Some ob, s) \<Rightarrow>
          if ob = v_thread s then sv_exit_thread s
          else case v_obj s ob of
              Thread_Body t \<Rightarrow> rbind (thread_kill t (v_kern s)) (\<lambda>k. status SUCCESS (s\<lparr>v_kern := k\<rparr>))
            | _ \<Rightarrow> Inl AssertFailed)"

definition sv_set_handler :: "qword \<Rightarrow> handler" where
  "sv_set_handler handler s = (if handler AND HIGHADDR 0 \<noteq> 0 then status BAD_PARAM s else status SUCCESS (s\<lparr>v_handler := handler\<rparr>))"

definition sv_set_priority :: "dword \<Rightarrow> byte \<Rightarrow> handler" where
  "sv_set_priority handle val s =
     (case svc_get handle OBJ_THREAD s of
        (None, s) \<Rightarrow> status BAD_HANDLE s
      | (Some ob, s) \<Rightarrow>
          if val \<ge> idle_priority \<or> val < shell_priority then status BAD_PARAM s
          else if val \<le> shell_priority \<and> v_privilege s > SHELL then status DENIED s
          else case v_obj s ob of
              Thread_Body t \<Rightarrow> (let (ok, k) = set_priority t (unat val) (v_kern s) in status (if ok then SUCCESS else BAD_PARAM) (s\<lparr>v_kern := k\<rparr>))
            | _ \<Rightarrow> Inl AssertFailed)"

text \<open>\<open>spawn\<close> gives the thread and a new kernel, or nothing when the process has stopped; the stack is reserved with a guard page. The
  relax of the missing thread is a stop.\<close>

definition sv_create_thread :: "(nat \<Rightarrow> bool) \<Rightarrow> (pm \<Rightarrow> pm) \<Rightarrow> qword \<Rightarrow> dword \<Rightarrow> handler" where
  "sv_create_thread mem cb entry stk_size s =
     (if entry AND HIGHADDR 0 \<noteq> 0 then status BAD_PARAM s
      else
        let stk_size = (if stk_size = 0 then v_stack_preserve s else stk_size);
            n = max 1 (align_up stk_size 0x1000 div 0x1000) in
        rbind (user_reserve cb 0 (n + 1) (v_vs s)) (\<lambda>(stk_base, m).
          let s = s\<lparr>v_vs := m\<rparr> in
          if stk_base = 0 then status NO_RESOURCE s
          else rbind (user_commit cb (stk_base + ucast n * page_q) 1 (v_vs s)) (\<lambda>(res, m).
            let s = s\<lparr>v_vs := m\<rparr> in
            if \<not> res then rbind (user_release stk_base (n + 1) (v_vs s)) (\<lambda>(_, m). status NO_RESOURCE (s\<lparr>v_vs := m\<rparr>))
            else case v_obj s (v_process s) of
                Process_Body p \<Rightarrow>
                  if pi_state p = PStopped then bugcheck ''null pointer''
                  else rbind (thread_new (v_kern s)) (\<lambda>(t, k).
                    rbind (manage_active \<lparr>ref_count = 0, named = False\<rparr>) (\<lambda>w.
                      let ob = v_fresh s;
                          s = s\<lparr>v_kern := k, v_fresh := Suc ob, v_obj := (v_obj s)(ob := Thread_Body t), v_ref := (v_ref s)(ob := w)\<rparr> in
                      returns (handle_result (give_handle mem ob s))))
              | _ \<Rightarrow> Inl AssertFailed)))"

subsection \<open>Waiting and signalling\<close>

text \<open>\<open>check\<close> of the object: whether a wait would pass, which takes a unit of a semaphore.\<close>

definition obj_check :: "nat \<Rightarrow> svc \<Rightarrow> bool \<times> svc" where
  "obj_check ob s =
     (case v_obj s ob of
        Thread_Body t \<Rightarrow> (t_state (k_tcb (v_kern s) t) = STOPPED, s)
      | Process_Body p \<Rightarrow> (pi_state p = PStopped, s)
      | File_Body i \<Rightarrow> (file_check (p_file (v_pool s) i), s)
      | Pipe_Body p owner \<Rightarrow> (pipe_check (owner = v_process s) p, s)
      | Sem_Body x \<Rightarrow> (let (ok, x) = sem_check x in (ok, s\<lparr>v_obj := (v_obj s)(ob := Sem_Body x)\<rparr>))
      | Event_Body b \<Rightarrow> (b, s))"

definition sv_wait_for :: "dword \<Rightarrow> qword \<Rightarrow> dword \<Rightarrow> handler" where
  "sv_wait_for handle us nowait s =
     (case svc_get handle OBJ_UNKNOWN s of
        (None, s) \<Rightarrow> status BAD_HANDLE s
      | (Some ob, s) \<Rightarrow>
          if nowait \<noteq> 0 then (let (ok, s) = obj_check ob s in status (if ok then 1 else 0) s)
          else if ob = v_thread s then status FAILED s
          else kassert (v_hold_handle s)
            (rbind (unlock_handles (s\<lparr>v_hold_handle := False, v_skip_critical := True\<rparr>)) (\<lambda>s.
              rbind (thread_drop (v_kern s)) (\<lambda>k. Inr (Waits ob us, s\<lparr>v_kern := k\<rparr>)))))"

definition sv_signal :: "dword \<Rightarrow> dword \<Rightarrow> handler" where
  "sv_signal handle mode s =
     (case svc_get handle OBJ_UNKNOWN s of
        (None, s) \<Rightarrow> status BAD_HANDLE s
      | (Some ob, s) \<Rightarrow>
          (case v_obj s ob of
             Sem_Body x \<Rightarrow> rbind (sem_signal (Obj ob) x (v_kern s)) (\<lambda>(woken, x, k).
               status (if woken then 1 else 0) (s\<lparr>v_kern := k, v_obj := (v_obj s)(ob := Sem_Body x)\<rparr>))
           | Event_Body b \<Rightarrow>
               if mode = 0 then status 0 (s\<lparr>v_obj := (v_obj s)(ob := Event_Body (event_reset b))\<rparr>)
               else if mode = 1 then rbind (event_signal_one (Obj ob) (v_kern s)) (\<lambda>(woken, k). status (if woken then 1 else 0) (s\<lparr>v_kern := k\<rparr>))
               else rbind (event_signal_all (Obj ob) b (v_kern s)) (\<lambda>(n, b, k).
                 status (of_nat n) (s\<lparr>v_kern := k, v_obj := (v_obj s)(ob := Event_Body b)\<rparr>))
           | _ \<Rightarrow> status BAD_HANDLE s))"

subsection \<open>Processes\<close>

definition sv_get_process :: "(nat \<Rightarrow> bool) \<Rightarrow> handler" where
  "sv_get_process mem s =
     (let (res, s) = acquire_obj (v_process s) s in
      kassert res (returns (rbind (give_handle mem (v_process s) s) (\<lambda>(h, s). Inr (ucast h, s)))))"

definition sv_process_id :: "dword \<Rightarrow> handler" where
  "sv_process_id handle s =
     (case svc_get handle OBJ_PROCESS s of
        (None, s) \<Rightarrow> status 0 s
      | (Some ob, s) \<Rightarrow> (case v_obj s ob of Process_Body p \<Rightarrow> status (pi_id p) s | _ \<Rightarrow> Inl AssertFailed))"

definition sv_process_result :: "dword \<Rightarrow> handler" where
  "sv_process_result handle s =
     (case svc_get handle OBJ_PROCESS s of
        (None, s) \<Rightarrow> status BAD_HANDLE s
      | (Some ob, s) \<Rightarrow>
          (case v_obj s ob of
             Process_Body p \<Rightarrow> if pi_state p \<noteq> PStopped then status FAILED s else Inr (Return (pack_qword SUCCESS (pi_result p)), s)
           | _ \<Rightarrow> Inl AssertFailed))"

definition sv_open_process :: "(nat \<Rightarrow> bool) \<Rightarrow> dword \<Rightarrow> handler" where
  "sv_open_process mem i s =
     (case v_pids s i of
        None \<Rightarrow> status BAD_PARAM s
      | Some ob \<Rightarrow>
          let (ok, s) = acquire_obj ob s in
          if \<not> ok then status BAD_PARAM s
          else case v_obj s ob of
              Process_Body p \<Rightarrow>
                if v_privilege s > pi_privilege p then rbind (relax_obj ob s) (status DENIED)
                else returns (handle_result (give_handle mem ob s))
            | _ \<Rightarrow> Inl AssertFailed)"

subsection \<open>Handles and objects\<close>

definition sv_handle_type :: "dword \<Rightarrow> handler" where
  "sv_handle_type handle s =
     (case svc_get handle OBJ_UNKNOWN s of (None, s) \<Rightarrow> status OBJ_UNKNOWN s | (Some ob, s) \<Rightarrow> status (obj_type (v_obj s ob)) s)"

text \<open>The name is read where the buffer is mapped; a fault in the copy is a stop.\<close>

definition sv_open_handle :: "(nat \<Rightarrow> bool) \<Rightarrow> qword \<Rightarrow> dword \<Rightarrow> handler" where
  "sv_open_handle mem buffer len s =
     rbind (svc_check buffer len False s) (\<lambda>(ok, s).
       if \<not> ok \<or> len = 0 then status BAD_BUFFER s
       else let name = get_user (v_vs s) buffer (unat len) (v_phys s) in
         if length name \<noteq> unat len then bugcheck ''page fault in the kernel''
         else case om_get (map (\<lambda>b. char_of (unat b)) name) (v_names s) of
             None \<Rightarrow> status NOT_FOUND s
           | Some e \<Rightarrow>
               if v_privilege s > ucast (ob_property e) then status DENIED s
               else let (ok, s) = acquire_obj (ob_obj e) s in
                 if \<not> ok then status NOT_FOUND s else returns (handle_result (give_handle mem (ob_obj e) s)))"

definition sv_close_handle :: "dword \<Rightarrow> handler" where
  "sv_close_handle handle s =
     (if handle = 0 then status BAD_HANDLE s
      else if v_shared s \<noteq> 0 then bugcheck ''waits for its own lock''
      else rbind (ht_close handle (v_handles s)) (\<lambda>(ob, t).
        let s = s\<lparr>v_handles := t\<rparr> in
        case ob of None \<Rightarrow> status BAD_HANDLE s | Some ob \<Rightarrow> rbind (relax_obj ob s) (status SUCCESS)))"

text \<open>The constructors take 32-bit sizes; \<open>ring\<close> is the memory a new pipe gets.\<close>

definition new_object :: "(nat \<Rightarrow> byte) \<Rightarrow> dword \<Rightarrow> qword \<Rightarrow> qword \<Rightarrow> svc \<Rightarrow> body option res" where
  "new_object ring type a1 a2 s =
     (if type = OBJ_SEMAPHORE then (if a1 \<noteq> 0 then rbind (sem_new (ucast a1)) (\<lambda>x. Inr (Some (Sem_Body x))) else Inr None)
      else if type = OBJ_EVENT then Inr (Some (Event_Body (event_new (a1 \<noteq> 0))))
      else if type = OBJ_PIPE then
        (if a1 \<ge> 0x10 then rbind (pipe_new (ucast a1) (ucast a2) ring) (\<lambda>p. Inr (Some (Pipe_Body p (v_process s)))) else Inr None)
      else Inr None)"

definition sv_create_object :: "(nat \<Rightarrow> bool) \<Rightarrow> (nat \<Rightarrow> byte) \<Rightarrow> dword \<Rightarrow> qword \<Rightarrow> qword \<Rightarrow> handler" where
  "sv_create_object mem ring type a1 a2 s =
     rbind (new_object ring type a1 a2 s) (\<lambda>b. case b of
        None \<Rightarrow> status BAD_PARAM s
      | Some body \<Rightarrow>
          rbind (manage \<lparr>ref_count = 0, named = False\<rparr>) (\<lambda>w.
            let ob = v_fresh s; s = s\<lparr>v_fresh := Suc ob, v_obj := (v_obj s)(ob := body), v_ref := (v_ref s)(ob := w)\<rparr> in
            returns (handle_result (give_handle mem ob s))))"

subsection \<open>Memory\<close>

text \<open>The entry as the hardware has it, under the mask 0x800000000000007B.\<close>

definition sv_vm_peek :: "qword \<Rightarrow> handler" where
  "sv_vm_peek va s =
     (let pt = user_peek va (v_vs s); flag = (\<lambda>b n. if b then push_bit n 1 else 0) in
      Inr (Return (flag (pt_present pt) 0 OR flag (pt_write pt) 1 OR flag (pt_wt pt) 3 OR flag (pt_cd pt) 4 OR
        flag (pt_accessed pt) 5 OR flag (pt_dirty pt) 6 OR flag (pt_xd pt) 63), s))"

definition sv_vm_protect :: "qword \<Rightarrow> dword \<Rightarrow> qword \<Rightarrow> handler" where
  "sv_vm_protect va n attrib s = rbind (user_protect va n attrib (v_vs s)) (\<lambda>(ok, m). status (if ok then SUCCESS else BAD_PARAM) (s\<lparr>v_vs := m\<rparr>))"

definition sv_vm_reserve :: "(pm \<Rightarrow> pm) \<Rightarrow> qword \<Rightarrow> dword \<Rightarrow> handler" where
  "sv_vm_reserve cb va n s = rbind (user_reserve cb va n (v_vs s)) (\<lambda>(base, m). Inr (Return base, s\<lparr>v_vs := m\<rparr>))"

text \<open>A failed commit is a lack of memory when at most the critical limit of frames is in use.\<close>

definition sv_vm_commit :: "(pm \<Rightarrow> pm) \<Rightarrow> qword \<Rightarrow> dword \<Rightarrow> handler" where
  "sv_vm_commit cb va n s =
     rbind (user_commit cb va n (v_vs s)) (\<lambda>(ok, m).
       let s = s\<lparr>v_vs := m\<rparr>; pm = vs_pm m in
       if ok then status SUCCESS s
       else kassert (pm.used pm + reserved pm \<le> pm.total pm)
         (status (if pm.total pm - (pm.total pm - pm.used pm - reserved pm) \<le> soft_critical_limit pm then NO_RESOURCE else BAD_PARAM) s))"

definition sv_vm_release :: "qword \<Rightarrow> dword \<Rightarrow> handler" where
  "sv_vm_release va n s = rbind (user_release va n (v_vs s)) (\<lambda>(ok, m). status (if ok then SUCCESS else BAD_PARAM) (s\<lparr>v_vs := m\<rparr>))"

subsection \<open>Streams and files\<close>

definition sv_stream_state :: "dword \<Rightarrow> handler" where
  "sv_stream_state handle s =
     (case svc_get handle OBJ_STREAM s of
        (None, s) \<Rightarrow> status BAD_HANDLE s
      | (Some ob, s) \<Rightarrow>
          (case v_obj s ob of
             Pipe_Body p _ \<Rightarrow> Inr (Return (pack_qword (ucast (p_iostate p)) 0), s)
           | File_Body i \<Rightarrow> (let f = p_file (v_pool s) i in Inr (Return (pack_qword (ucast (file_state f)) (file_result f)), s))
           | _ \<Rightarrow> Inl AssertFailed))"

text \<open>Reading: the bytes of a pipe go to the buffer at once, a file starts a request that its worker serves.\<close>

definition sv_stream_read :: "exfat \<Rightarrow> dword \<Rightarrow> qword \<Rightarrow> dword \<Rightarrow> handler" where
  "sv_stream_read fs handle buffer limit s =
     (case svc_get handle OBJ_STREAM s of
        (None, s) \<Rightarrow> status BAD_HANDLE s
      | (Some ob, s) \<Rightarrow> rbind (svc_check buffer limit True s) (\<lambda>(ok, s).
          if \<not> ok then status BAD_BUFFER s
          else kassert (buffer AND HIGHADDR 0 = 0)
            (case v_obj s ob of
               Pipe_Body p owner \<Rightarrow>
                 let (bs, wake, p) = pipe_read (owner = v_process s) (unat limit) p;
                     (c, phys) = put_user (v_vs s) buffer bs (v_phys s);
                     s = s\<lparr>v_obj := (v_obj s)(ob := Pipe_Body p owner), v_phys := phys\<rparr> in
                 if c \<noteq> length bs then bugcheck ''page fault in the kernel''
                 else rbind (if wake then notify (Obj ob) NOTIFY (v_kern s) else Inr (0, v_kern s)) (\<lambda>(_, k).
                   Inr (Return (pack_qword SUCCESS (of_nat (length bs))), s\<lparr>v_kern := k\<rparr>))
             | File_Body i \<Rightarrow> rbind (file_read fs i buffer limit (v_pool s)) (\<lambda>(_, q). Inr (Return (pack_qword SUCCESS 0), s\<lparr>v_pool := q\<rparr>))
             | _ \<Rightarrow> Inl AssertFailed)))"

definition sv_stream_write :: "exfat \<Rightarrow> dword \<Rightarrow> qword \<Rightarrow> dword \<Rightarrow> handler" where
  "sv_stream_write fs handle buffer len s =
     (case svc_get handle OBJ_STREAM s of
        (None, s) \<Rightarrow> status BAD_HANDLE s
      | (Some ob, s) \<Rightarrow> rbind (svc_check buffer len False s) (\<lambda>(ok, s).
          if \<not> ok then status BAD_BUFFER s
          else kassert (buffer AND HIGHADDR 0 = 0)
            (case v_obj s ob of
               Pipe_Body p owner \<Rightarrow>
                 let bs = get_user (v_vs s) buffer (unat len) (v_phys s) in
                 if length bs \<noteq> unat len then bugcheck ''page fault in the kernel''
                 else rbind (pipe_write (owner = v_process s) bs p) (\<lambda>(n, wake, p).
                   let s = s\<lparr>v_obj := (v_obj s)(ob := Pipe_Body p owner)\<rparr> in
                   rbind (if wake then notify (Obj ob) NOTIFY (v_kern s) else Inr (0, v_kern s)) (\<lambda>(_, k).
                     Inr (Return (pack_qword SUCCESS (of_nat n)), s\<lparr>v_kern := k\<rparr>)))
             | File_Body i \<Rightarrow> rbind (file_write fs i buffer len (v_pool s)) (\<lambda>(_, q). Inr (Return (pack_qword SUCCESS 0), s\<lparr>v_pool := q\<rparr>))
             | _ \<Rightarrow> Inl AssertFailed)))"

text \<open>\<open>sizes\<close> has the size of every file.\<close>

definition sv_file_tell :: "(nat \<Rightarrow> qword) \<Rightarrow> dword \<Rightarrow> qword \<Rightarrow> handler" where
  "sv_file_tell sizes handle buffer s =
     (case svc_get handle OBJ_FILE s of
        (None, s) \<Rightarrow> status BAD_HANDLE s
      | (Some ob, s) \<Rightarrow> rbind (svc_check buffer 0x10 True s) (\<lambda>(ok, s).
          if \<not> ok then status BAD_BUFFER s
          else case v_obj s ob of
              File_Body i \<Rightarrow>
                let (c, phys) = put_user (v_vs s) buffer (qword_bytes (file_tell (p_file (v_pool s) i)) @ qword_bytes (sizes i)) (v_phys s) in
                if c \<noteq> 16 then bugcheck ''page fault in the kernel'' else status SUCCESS (s\<lparr>v_phys := phys\<rparr>)
            | _ \<Rightarrow> Inl AssertFailed))"

definition sv_file_seek :: "dword \<Rightarrow> qword \<Rightarrow> dword \<Rightarrow> handler" where
  "sv_file_seek handle offset mode s =
     (case svc_get handle OBJ_FILE s of
        (None, s) \<Rightarrow> status BAD_HANDLE s
      | (Some ob, s) \<Rightarrow>
          if mode \<noteq> 0 then status BAD_PARAM s
          else case v_obj s ob of
              File_Body i \<Rightarrow>
                let (ok, f) = file_seek offset (p_file (v_pool s) i) in
                status (if ok then SUCCESS else FAILED) (s\<lparr>v_pool := set_file i f (v_pool s)\<rparr>)
            | _ \<Rightarrow> Inl AssertFailed)"

section \<open>The dispatcher\<close>

record env =
  e_mem :: "nat \<Rightarrow> bool"
  e_cb :: "pm \<Rightarrow> pm"
  e_ring :: "nat \<Rightarrow> byte"
  e_fs :: exfat
  e_sizes :: "nat \<Rightarrow> qword"

text \<open>The arguments are truncated to the parameter types of the handlers. Codes whose handlers belong to other parts are left to \<open>rest\<close>.\<close>

definition serve :: "env \<Rightarrow> (dword \<Rightarrow> qword \<Rightarrow> qword \<Rightarrow> qword \<Rightarrow> handler) \<Rightarrow> dword \<Rightarrow> qword \<Rightarrow> qword \<Rightarrow> qword \<Rightarrow> handler" where
  "serve e rest cmd a1 a2 a3 =
     (if cmd = 0x100 then sv_get_thread (e_mem e)
      else if cmd = 0x104 then sv_thread_id (ucast a1)
      else if cmd = 0x108 then sv_get_handler
      else if cmd = 0x10C then sv_get_priority (ucast a1)
      else if cmd = 0x110 then sv_exit_thread
      else if cmd = 0x114 then sv_kill_thread (ucast a1)
      else if cmd = 0x118 then sv_set_handler a1
      else if cmd = 0x11C then sv_set_priority (ucast a1) (ucast a2)
      else if cmd = 0x120 then sv_create_thread (e_mem e) (e_cb e) a1 (ucast a3)
      else if cmd = 0x134 then sv_wait_for (ucast a1) a2 (ucast a3)
      else if cmd = 0x138 then sv_signal (ucast a1) (ucast a2)
      else if cmd = 0x200 then sv_get_process (e_mem e)
      else if cmd = 0x204 then sv_process_id (ucast a1)
      else if cmd = 0x218 then sv_process_result (ucast a1)
      else if cmd = 0x224 then sv_open_process (e_mem e) (ucast a1)
      else if cmd = 0x300 then sv_handle_type (ucast a1)
      else if cmd = 0x304 then sv_open_handle (e_mem e) a1 (ucast a2)
      else if cmd = 0x308 then sv_close_handle (ucast a1)
      else if cmd = 0x30C then sv_create_object (e_mem e) (e_ring e) (ucast a1) a2 a3
      else if cmd = 0x400 then sv_vm_peek a1
      else if cmd = 0x408 then sv_vm_protect a1 (ucast a2) a3
      else if cmd = 0x410 then sv_vm_reserve (e_cb e) a1 (ucast a2)
      else if cmd = 0x414 then sv_vm_commit (e_cb e) a1 (ucast a2)
      else if cmd = 0x41C then sv_vm_release a1 (ucast a2)
      else if cmd = 0x500 then sv_stream_state (ucast a1)
      else if cmd = 0x508 then sv_stream_read (e_fs e) (ucast a1) a2 (ucast a3)
      else if cmd = 0x50C then sv_stream_write (e_fs e) (ucast a1) a2 (ucast a3)
      else if cmd = 0x604 then sv_file_tell (e_sizes e) (ucast a1) a2
      else if cmd = 0x608 then sv_file_seek (ucast a1) a2 (ucast a3)
      else rest cmd a1 a2 a3)"

definition kernel_service :: "env \<Rightarrow> (dword \<Rightarrow> qword \<Rightarrow> qword \<Rightarrow> qword \<Rightarrow> handler) \<Rightarrow> dword \<Rightarrow> qword \<Rightarrow> qword \<Rightarrow> qword \<Rightarrow> handler" where
  "kernel_service e rest cmd a1 a2 a3 s =
     rbind (svc_enter s) (\<lambda>s. rbind (serve e rest cmd a1 a2 a3 s) (\<lambda>(out, s).
       if out = Gone then Inr (Gone, s) else rbind (svc_leave s) (\<lambda>s. Inr (out, s))))"

end
