(* ===== verification/Service_Props.thy ===== *)
theory Service_Props
  imports Service
begin

text \<open>
  System calls conserve references: over any sequence of calls of a thread, the reference count of every kernel object is the number of
  handles that stand for it plus the references from elsewhere, every lock a call takes is given back at its end, and the handle of
  the program image stays out of reach. The calls whose handlers start the scheduler or the address space are covered by the theories
  of those components.
\<close>

section \<open>Counting handles\<close>

definition handles_to :: "handle_table \<Rightarrow> nat \<Rightarrow> nat" where
  "handles_to h ob = card {i. i < 2048 \<and> slot h i = Some ob}"

lemma handles_to_finite [simp]: "finite {i. i < (2048 :: nat) \<and> P i}"
  by simp

lemma handles_to_bound: "handles_to h ob \<le> 2048"
proof -
  have "card {i. i < (2048 :: nat) \<and> slot h i = Some ob} \<le> card {..<2048 :: nat}" by (intro card_mono) auto
  then show ?thesis by (simp add: handles_to_def)
qed

lemma handles_to_put:
  assumes "slot h' = (slot h)(i := Some ob)" "slot h i = None" "i < 2048"
  shows "handles_to h' b = handles_to h b + (if b = ob then 1 else 0)"
proof -
  have "{j. j < 2048 \<and> slot h' j = Some b} = (if b = ob then insert i {j. j < 2048 \<and> slot h j = Some b} else {j. j < 2048 \<and> slot h j = Some b})"
    using assms by auto
  then show ?thesis using assms(2) by (simp add: handles_to_def)
qed

lemma handles_to_close:
  assumes "slot h' = (slot h)(i := None)" "slot h i = Some ob" "i < 2048"
  shows "handles_to h b = handles_to h' b + (if b = ob then 1 else 0)"
proof (rule handles_to_put)
  show "slot h = (slot h')(i := Some ob)" using assms by (auto simp: fun_eq_iff)
qed (use assms in auto)

section \<open>The invariant of a call\<close>

text \<open>\<open>E\<close> counts the references from outside the handle table, \<open>img\<close> is the object of handle 0.\<close>

definition counted :: "(nat \<Rightarrow> nat) \<Rightarrow> nat option \<Rightarrow> svc \<Rightarrow> bool" where
  "counted E img s \<longleftrightarrow> ht_inv (v_handles s) \<and> slot (v_handles s) 0 = img \<and>
     (\<forall>ob. unat (ref_count (v_ref s ob)) = handles_to (v_handles s) ob + E ob) \<and>
     (\<forall>ob\<ge>v_fresh s. ref_count (v_ref s ob) = 0) \<and>
     (\<forall>i ob. v_pids s i = Some ob \<longrightarrow> ob < v_fresh s \<and> obj_type (v_obj s ob) = OBJ_PROCESS)"

definition cur_tcb :: "svc \<Rightarrow> tcb" where "cur_tcb s = k_tcb (v_kern s) (k_cur (v_kern s))"

definition in_call :: "(nat \<Rightarrow> nat) \<Rightarrow> nat option \<Rightarrow> svc \<Rightarrow> bool" where
  "in_call E img s \<longleftrightarrow> counted E img s \<and> v_shared s = (if v_hold_handle s then 1 else 0) \<and> \<not> v_skip_critical s \<and>
     t_critical (cur_tcb s) \<and> \<not> t_kill (cur_tcb s)"

definition idle :: "(nat \<Rightarrow> nat) \<Rightarrow> nat option \<Rightarrow> svc \<Rightarrow> bool" where
  "idle E img s \<longleftrightarrow> counted E img s \<and> v_shared s = 0 \<and> \<not> v_hold_handle s \<and> \<not> v_hold_memory s \<and> \<not> t_critical (cur_tcb s) \<and> \<not> t_kill (cur_tcb s) \<and>
     1 \<le> E (v_thread s) \<and> 1 \<le> E (v_process s)"

text \<open>What a handler leaves behind. It starts with no lock held.\<close>

definition served :: "(nat \<Rightarrow> nat) \<Rightarrow> nat option \<Rightarrow> svc \<Rightarrow> (outcome \<times> svc) res \<Rightarrow> bool" where
  "served E img s r \<longleftrightarrow> (\<exists>v s'. r = Inr (Return v, s') \<and> in_call E img s' \<and> v_thread s' = v_thread s \<and> v_process s' = v_process s)"

lemma countedD:
  assumes "counted E img s"
  shows "ht_inv (v_handles s)" "slot (v_handles s) 0 = img" "unat (ref_count (v_ref s ob)) = handles_to (v_handles s) ob + E ob"
    "v_fresh s \<le> ob \<Longrightarrow> ref_count (v_ref s ob) = 0" "v_pids s i = Some ob \<Longrightarrow> ob < v_fresh s \<and> obj_type (v_obj s ob) = OBJ_PROCESS"
  using assms by (auto simp: counted_def)

lemma status_served [intro]: "in_call E img s' \<Longrightarrow> v_thread s' = v_thread s \<Longrightarrow> v_process s' = v_process s \<Longrightarrow> served E img s (status c s')"
  by (simp add: served_def status_def)

lemma return_served [intro]: "in_call E img s' \<Longrightarrow> v_thread s' = v_thread s \<Longrightarrow> v_process s' = v_process s \<Longrightarrow> served E img s (Inr (Return v, s'))"
  by (simp add: served_def)

section \<open>References\<close>

lemma acquire_obj_ok:
  assumes "in_call E img s" "E ob < 2 ^ 31"
  obtains (no) "acquire_obj ob s = (False, s)"
  | (yes) s' where "acquire_obj ob s = (True, s')" "in_call (E(ob := Suc (E ob))) img s'" "v_thread s' = v_thread s" "v_process s' = v_process s" "v_hold_handle s' = v_hold_handle s" "v_obj s' = v_obj s" "v_privilege s' = v_privilege s" "v_fresh s' = v_fresh s"
proof (cases "ref_count (v_ref s ob) = 0")
  case True
  then show ?thesis using no by (simp add: acquire_obj_def acquire_def)
next
  case False
  have c: "counted E img s" using assms(1) by (simp add: in_call_def)
  note D = countedD [OF c]
  define s' where "s' = s\<lparr>v_ref := (v_ref s)(ob := (v_ref s ob)\<lparr>ref_count := ref_count (v_ref s ob) + 1\<rparr>)\<rparr>"
  have inc: "unat (ref_count (v_ref s ob) + 1) = unat (ref_count (v_ref s ob)) + 1"
    using D(3) [of ob] assms(2) handles_to_bound [of "v_handles s" ob] by (simp add: unat_word_ariths)
  have "unat (ref_count (v_ref s' b)) = handles_to (v_handles s') b + (E(ob := Suc (E ob))) b" for b
    using D(3) [of b] D(3) [of ob] inc by (simp add: s'_def)
  moreover have "ref_count (v_ref s' b) = 0" if "v_fresh s' \<le> b" for b using D(4) [of b] D(4) [of ob] False that by (auto simp: s'_def)
  ultimately have "counted (E(ob := Suc (E ob))) img s'" unfolding counted_def using D(1,2,5) by (simp add: s'_def)
  then have "in_call (E(ob := Suc (E ob))) img s'" using assms(1) by (simp add: in_call_def cur_tcb_def s'_def)
  moreover have "acquire_obj ob s = (True, s')" using False by (simp add: acquire_obj_def acquire_def s'_def)
  ultimately show ?thesis using yes by (simp add: s'_def)
qed

lemma relax_obj_ok:
  assumes "in_call (E(ob := Suc (E ob))) img s"
  obtains s' where "relax_obj ob s = Inr s'" "in_call E img s'" "v_thread s' = v_thread s" "v_process s' = v_process s" "v_hold_handle s' = v_hold_handle s" "v_obj s' = v_obj s" "v_privilege s' = v_privilege s" "v_fresh s' = v_fresh s"
proof -
  have c: "counted (E(ob := Suc (E ob))) img s" using assms by (simp add: in_call_def)
  note D = countedD [OF c]
  have nz: "ref_count (v_ref s ob) \<noteq> 0" using D(3) [of ob] by auto
  define s' where "s' = s\<lparr>v_ref := (v_ref s)(ob := (v_ref s ob)\<lparr>ref_count := ref_count (v_ref s ob) - 1\<rparr>)\<rparr>"
  have dec: "unat (ref_count (v_ref s ob) - 1) = unat (ref_count (v_ref s ob)) - 1" using nz by (simp add: unat_minus_one)
  have "unat (ref_count (v_ref s' b)) = handles_to (v_handles s') b + E b" for b
    using D(3) [of b] D(3) [of ob] dec by (auto simp: s'_def)
  moreover have "ref_count (v_ref s' b) = 0" if "v_fresh s' \<le> b" for b using D(4) [of b] D(4) [of ob] nz that by (auto simp: s'_def)
  ultimately have "counted E img s'" unfolding counted_def using D(1,2,5) by (simp add: s'_def)
  then have "in_call E img s'" using assms by (simp add: in_call_def cur_tcb_def s'_def)
  moreover have "relax_obj ob s = Inr s'" using nz by (simp add: relax_obj_def relax_def s'_def)
  ultimately show ?thesis using that by (simp add: s'_def)
qed

text \<open>Turning a reference the call holds into a handle.\<close>

lemma give_handle_ok:
  assumes "in_call (E(ob := Suc (E ob))) img s" "\<not> v_hold_handle s"
  obtains h s' where "give_handle mem ob s = Inr (h, s')" "in_call E img s'" "v_thread s' = v_thread s" "v_process s' = v_process s"
proof -
  have c: "counted (E(ob := Suc (E ob))) img s" "v_shared s = 0" using assms by (auto simp: in_call_def)
  note D = countedD [OF c(1)]
  obtain h t where ht: "ht_put mem ob (v_handles s) = (h, t)" by fastforce
  note cases = ht_put_cases [OF D(1) ht]
  define s1 where "s1 = s\<lparr>v_handles := t\<rparr>"
  have put: "put_handle mem ob s = Inr (h, s1)" using c(2) ht by (simp add: put_handle_def s1_def)
  show ?thesis
  proof (cases "h = 0")
    case True
    then have "slot t = slot (v_handles s)" using cases by auto
    then have "counted (E(ob := Suc (E ob))) img s1" unfolding counted_def using D(1-5) conjunct1 [OF cases] by (simp add: handles_to_def s1_def)
    then have "in_call (E(ob := Suc (E ob))) img s1" using assms by (simp add: in_call_def cur_tcb_def s1_def)
    from relax_obj_ok [OF this] obtain s' where "relax_obj ob s1 = Inr s'" "in_call E img s'" "v_thread s' = v_thread s1" "v_process s' = v_process s1" by blast
    then show ?thesis using that [of 0 s'] put True by (simp add: give_handle_def s1_def)
  next
    case False
    then have sl: "4 \<le> unat h" "unat h < 2048" "slot (v_handles s) (unat h) = None" "slot t = (slot (v_handles s))(unat h := Some ob)" using cases by auto
    have "unat (ref_count (v_ref s b)) = handles_to t b + E b" for b
      using D(3) [of b] handles_to_put [OF sl(4,3,2), of b] by auto
    then have "counted E img s1" unfolding counted_def using D(1,2,4,5) conjunct1 [OF cases] sl by (simp add: s1_def)
    then have "in_call E img s1" using assms by (simp add: in_call_def cur_tcb_def s1_def)
    then show ?thesis using that [of h s1] put False by (simp add: give_handle_def s1_def)
  qed
qed

lemma handle_served:
  assumes "in_call (E(ob := Suc (E ob))) img s1" "\<not> v_hold_handle s1" "v_thread s1 = v_thread s" "v_process s1 = v_process s"
  shows "served E img s (returns (handle_result (give_handle mem ob s1)))"
    "served E img s (returns (rbind (give_handle mem ob s1) (\<lambda>(h, s). Inr (ucast h, s))))"
  by (rule give_handle_ok [OF assms(1,2), of mem]; simp add: returns_def handle_result_def served_def assms(3,4))+


section \<open>Handlers\<close>

abbreviation starts :: "(nat \<Rightarrow> nat) \<Rightarrow> nat option \<Rightarrow> svc \<Rightarrow> bool" where
  "starts E img s \<equiv> in_call E img s \<and> \<not> v_hold_handle s \<and> (\<forall>ob. E ob < 2 ^ 31) \<and> 1 \<le> E (v_thread s) \<and> 1 \<le> E (v_process s)"

lemma own_handle_served:
  assumes "starts E img s" "1 \<le> E ob"
  shows "served E img s (let (res, s) = acquire_obj ob s in kassert res (returns (rbind (give_handle mem ob s) (\<lambda>(h, s). Inr (ucast h, s)))))"
proof -
  have "ref_count (v_ref s ob) \<noteq> 0" using countedD(3) [of E img s ob] assms by (auto simp: in_call_def)
  then have "acquire_obj ob s \<noteq> (False, s)" by (simp add: acquire_obj_def acquire_def)
  moreover have "in_call E img s" "E ob < 2 ^ 31" using assms by auto
  ultimately obtain s' where s': "acquire_obj ob s = (True, s')" "in_call (E(ob := Suc (E ob))) img s'" "v_thread s' = v_thread s" "v_process s' = v_process s"
      "v_hold_handle s' = v_hold_handle s" using acquire_obj_ok by metis
  then show ?thesis using handle_served(2) [OF s'(2) _ s'(3,4)] assms by simp
qed

lemma sv_get_thread_ok: "starts E img s \<Longrightarrow> served E img s (sv_get_thread mem s)"
  using own_handle_served [of E img s "v_thread s" mem] by (auto simp: sv_get_thread_def acquire_obj_def Let_def case_prod_beta)

lemma sv_get_process_ok: "starts E img s \<Longrightarrow> served E img s (sv_get_process mem s)"
  using own_handle_served [of E img s "v_process s" mem] by (auto simp: sv_get_process_def acquire_obj_def Let_def case_prod_beta)

lemma sv_open_process_ok:
  assumes "starts E img s"
  shows "served E img s (sv_open_process mem i s)"
proof (cases "v_pids s i")
  case None
  then show ?thesis using assms by (auto simp: sv_open_process_def)
next
  case (Some ob)
  have c: "counted E img s" "in_call E img s" "E ob < 2 ^ 31" using assms by (auto simp: in_call_def)
  have "obj_type (v_obj s ob) = OBJ_PROCESS" using countedD(5) [OF c(1) Some] by simp
  then obtain p where p: "v_obj s ob = Process_Body p" by (cases "v_obj s ob") auto
  consider (no) "acquire_obj ob s = (False, s)"
    | (yes) s' where "acquire_obj ob s = (True, s')" "in_call (E(ob := Suc (E ob))) img s'" "v_thread s' = v_thread s" "v_process s' = v_process s"
        "v_hold_handle s' = v_hold_handle s" "v_obj s' = v_obj s"
    using acquire_obj_ok [OF c(2,3)] by metis
  then show ?thesis
  proof cases
    case no
    then show ?thesis using Some c(2) by (auto simp: sv_open_process_def)
  next
    case (yes s')
    show ?thesis
    proof (cases "v_privilege s' > pi_privilege p")
      case True
      from relax_obj_ok [OF yes(2)] obtain s'' where "relax_obj ob s' = Inr s''" "in_call E img s''" "v_thread s'' = v_thread s'" "v_process s'' = v_process s'" by blast
      then show ?thesis using True yes Some p by (simp add: sv_open_process_def status_served)
    next
      case False
      then show ?thesis using handle_served(1) [OF yes(2) _ yes(3,4), of mem] yes Some p assms by (simp add: sv_open_process_def)
    qed
  qed
qed

lemma sv_close_handle_ok:
  assumes "starts E img s"
  shows "served E img s (sv_close_handle handle s)"
proof (cases "handle = 0")
  case True
  then show ?thesis using assms by (auto simp: sv_close_handle_def)
next
  case False
  have c: "counted E img s" "v_shared s = 0" "in_call E img s" using assms by (auto simp: in_call_def)
  note D = countedD [OF c(1)]
  obtain t where t: "ht_close handle (v_handles s) = Inr (ht_lookup (v_handles s) handle, t)" "ht_inv t"
      "slot t = (if unat handle < 2048 then (slot (v_handles s))(unat handle := None) else slot (v_handles s))"
    using ht_close_spec [OF D(1), of handle] False by auto
  define s1 where "s1 = s\<lparr>v_handles := t\<rparr>"
  have u0: "unat handle \<noteq> 0" using False by (simp add: unat_eq_0)
  have ctx: "in_call E' img s1" if "counted E' img s1" for E' using that c(3) by (simp add: in_call_def cur_tcb_def s1_def)
  show ?thesis
  proof (cases "ht_lookup (v_handles s) handle")
    case None
    then have "slot t = slot (v_handles s)" using t(3) by (auto simp: lookup_slot fun_eq_iff split: if_splits)
    then have "counted E img s1" unfolding counted_def using D(1-5) t(2) by (simp add: handles_to_def s1_def)
    then show ?thesis using ctx None t(1) c(2) False by (auto simp: sv_close_handle_def s1_def intro!: status_served)
  next
    case (Some ob)
    then have sl: "unat handle < 2048" "slot (v_handles s) (unat handle) = Some ob" by (auto simp: lookup_slot split: if_splits)
    then have st: "slot t = (slot (v_handles s))(unat handle := None)" using t(3) by simp
    have "unat (ref_count (v_ref s b)) = handles_to t b + (E(ob := Suc (E ob))) b" for b
      using D(3) [of b] handles_to_close [OF st sl(2,1), of b] by auto
    then have "counted (E(ob := Suc (E ob))) img s1" unfolding counted_def using D(1,2,4,5) t(2) st u0 by (simp add: s1_def)
    from relax_obj_ok [OF ctx [OF this]] obtain s' where "relax_obj ob s1 = Inr s'" "in_call E img s'" "v_thread s' = v_thread s1" "v_process s' = v_process s1" by blast
    then show ?thesis using Some t(1) c(2) False by (auto simp: sv_close_handle_def s1_def intro!: status_served)
  qed
qed

lemma sv_create_object_ok:
  assumes "starts E img s" "E (v_fresh s) = 0" "(type = OBJ_SEMAPHORE \<or> type = OBJ_PIPE) \<and> a1 \<noteq> 0 \<Longrightarrow> ucast a1 \<noteq> (0 :: dword)"
  shows "served E img s (sv_create_object mem ring type a1 a2 s)"
proof -
  have c: "counted E img s" "in_call E img s" using assms by (auto simp: in_call_def)
  note D = countedD [OF c(1)]
  have "0x10 \<le> a1 \<Longrightarrow> a1 \<noteq> 0" by auto
  then have "\<exists>b. new_object ring type a1 a2 s = Inr b" using assms(3) by (auto simp: new_object_def sem_new_def pipe_new_def)
  then obtain b where b: "new_object ring type a1 a2 s = Inr b" ..
  show ?thesis
  proof (cases b)
    case None
    then show ?thesis using b c(2) by (auto simp: sv_create_object_def)
  next
    case (Some body)
    let ?ob = "v_fresh s"
    define s1 where "s1 = s\<lparr>v_fresh := Suc ?ob, v_obj := (v_obj s)(?ob := body), v_ref := (v_ref s)(?ob := \<lparr>ref_count = 1, named = False\<rparr>)\<rparr>"
    have z: "handles_to (v_handles s) ?ob = 0" using D(3) [of ?ob] D(4) [of ?ob] by simp
    have "unat (ref_count (v_ref s1 x)) = handles_to (v_handles s1) x + (E(?ob := Suc (E ?ob))) x" for x
      using D(3) [of x] z assms(2) by (simp add: s1_def)
    moreover have "x < v_fresh s1 \<and> obj_type (v_obj s1 x) = OBJ_PROCESS" if "v_pids s1 i = Some x" for i x
      using D(5) [of i x] that by (auto simp: s1_def)
    ultimately have "counted (E(?ob := Suc (E ?ob))) img s1" unfolding counted_def using D(1,2,4) by (simp add: s1_def)
    then have "in_call (E(?ob := Suc (E ?ob))) img s1" using c(2) by (simp add: in_call_def cur_tcb_def s1_def)
    from handle_served(1) [OF this, of s mem] show ?thesis using b Some assms(1) by (simp add: sv_create_object_def manage_def s1_def Let_def)
  qed
qed


text \<open>Handlers that look an object up and do something with it.\<close>

definition right_type :: "dword \<Rightarrow> body \<Rightarrow> bool" where
  "right_type type b \<longleftrightarrow> type = OBJ_UNKNOWN \<or> obj_type b = type \<or> type = OBJ_STREAM \<and> (obj_type b = OBJ_PIPE \<or> obj_type b = OBJ_FILE)"

lemma svc_get_result:
  assumes "svc_get handle type s = (r, s')"
  shows "s' = (if v_hold_handle s then s else s\<lparr>v_shared := v_shared s + 1, v_hold_handle := True\<rparr>)"
    "r = Some ob \<Longrightarrow> handle \<noteq> 0 \<and> ht_lookup (v_handles s) handle = Some ob \<and> right_type type (v_obj s' ob)"
  using assms by (auto simp: svc_get_def Let_def right_type_def split: if_splits option.splits)

lemma query_returns:
  assumes "\<And>ob s'. right_type type (v_obj s' ob) \<Longrightarrow> \<exists>r. found ob s' = Inr r"
  shows "\<exists>r. (case svc_get handle type s of (None, s') \<Rightarrow> status c s' | (Some ob, s') \<Rightarrow> found ob s') = Inr r"
proof -
  obtain r s1 where g: "svc_get handle type s = (r, s1)" by fastforce
  show ?thesis using g assms svc_get_result(2) [OF g] by (cases r) (auto simp: status_def)
qed

lemma query_served:
  assumes "in_call E img s"
    and "\<And>ob s'. in_call E img s' \<Longrightarrow> v_thread s' = v_thread s \<Longrightarrow> v_process s' = v_process s \<Longrightarrow> right_type type (v_obj s' ob) \<Longrightarrow> served E img s (found ob s')"
  shows "served E img s (case svc_get handle type s of (None, s') \<Rightarrow> status c s' | (Some ob, s') \<Rightarrow> found ob s')"
proof -
  obtain r s1 where g: "svc_get handle type s = (r, s1)" by fastforce
  note s1 = svc_get_result(1) [OF g]
  have ok: "in_call E img s1" "v_thread s1 = v_thread s" "v_process s1 = v_process s"
    using assms(1) by (auto simp: s1 in_call_def counted_def cur_tcb_def)
  have "right_type type (v_obj s1 ob)" if "r = Some ob" for ob using svc_get_result(2) [OF g that] by simp
  then show ?thesis using g ok assms(2) [OF ok] by (cases r) (auto intro: status_served)
qed

lemma right_typeD:
  "right_type OBJ_THREAD b \<Longrightarrow> \<exists>t. b = Thread_Body t" "right_type OBJ_PROCESS b \<Longrightarrow> \<exists>p. b = Process_Body p"
  "right_type OBJ_FILE b \<Longrightarrow> \<exists>i. b = File_Body i" "right_type OBJ_STREAM b \<Longrightarrow> (\<exists>i. b = File_Body i) \<or> (\<exists>p o'. b = Pipe_Body p o')"
  by (cases b; simp add: right_type_def)+

lemma sv_thread_id_ok: "in_call E img s \<Longrightarrow> served E img s (sv_thread_id handle s)"
  unfolding sv_thread_id_def by (rule query_served) (auto dest!: right_typeD(1))

lemma sv_get_priority_ok: "in_call E img s \<Longrightarrow> served E img s (sv_get_priority handle s)"
  unfolding sv_get_priority_def by (rule query_served) (auto dest!: right_typeD(1))

lemma sv_process_id_ok: "in_call E img s \<Longrightarrow> served E img s (sv_process_id handle s)"
  unfolding sv_process_id_def by (rule query_served) (auto dest!: right_typeD(2))

lemma sv_process_result_ok: "in_call E img s \<Longrightarrow> served E img s (sv_process_result handle s)"
  unfolding sv_process_result_def by (rule query_served) (auto dest!: right_typeD(2))

lemma sv_handle_type_ok: "in_call E img s \<Longrightarrow> served E img s (sv_handle_type handle s)"
  unfolding sv_handle_type_def by (rule query_served) auto

lemma sv_stream_state_ok: "in_call E img s \<Longrightarrow> served E img s (sv_stream_state handle s)"
  unfolding sv_stream_state_def by (rule query_served) (auto simp: Let_def dest!: right_typeD(4))

lemma in_call_kern: "in_call E img s \<Longrightarrow> in_call E img (s\<lparr>v_kern := snd (set_priority t v (v_kern s))\<rparr>)"
  by (auto simp: in_call_def counted_def cur_tcb_def set_priority_def upd_def)

lemma sv_set_priority_ok: "in_call E img s \<Longrightarrow> served E img s (sv_set_priority handle val s)"
  unfolding sv_set_priority_def
  by (rule query_served) (auto simp: Let_def case_prod_beta dest!: right_typeD(1) intro!: status_served in_call_kern)

lemma in_call_pool: "in_call E img (s\<lparr>v_pool := q\<rparr>) = in_call E img s"
  by (simp add: in_call_def counted_def cur_tcb_def)

lemma sv_file_seek_ok: "in_call E img s \<Longrightarrow> served E img s (sv_file_seek handle offset mode s)"
  unfolding sv_file_seek_def
  by (rule query_served) (auto simp: Let_def case_prod_beta in_call_pool dest!: right_typeD(3) intro!: status_served)

lemma in_call_obj:
  assumes "in_call E img s" "obj_type b = obj_type (v_obj s ob)"
  shows "in_call E img (s\<lparr>v_obj := (v_obj s)(ob := b)\<rparr>)"
  using assms by (simp add: in_call_def counted_def cur_tcb_def)

lemma sv_poll_ok: "in_call E img s \<Longrightarrow> nowait \<noteq> 0 \<Longrightarrow> served E img s (sv_wait_for handle us nowait s)"
  unfolding sv_wait_for_def
proof (rule query_served, assumption)
  fix ob s'
  assume nw: "nowait \<noteq> 0" and s': "in_call E img s'" "v_thread s' = v_thread s" "v_process s' = v_process s"
  have "in_call E img (snd (obj_check ob s')) \<and> v_thread (snd (obj_check ob s')) = v_thread s \<and> v_process (snd (obj_check ob s')) = v_process s"
    using s' in_call_obj [OF s'(1), of "Sem_Body x" ob for x] by (cases "v_obj s' ob") (auto simp: obj_check_def case_prod_beta Let_def)
  then show "served E img s (if nowait \<noteq> 0 then let (ok, s) = obj_check ob s' in status (if ok then 1 else 0) s
      else if ob = v_thread s' then status FAILED s'
      else kassert (v_hold_handle s') (rbind (unlock_handles (s'\<lparr>v_hold_handle := False, v_skip_critical := True\<rparr>)) (\<lambda>s. rbind (thread_drop (v_kern s)) (\<lambda>k. Inr (Waits ob us, s\<lparr>v_kern := k\<rparr>)))))"
    using nw by (auto simp: case_prod_beta Let_def intro!: status_served)
qed

lemma sv_set_handler_ok: "in_call E img s \<Longrightarrow> served E img s (sv_set_handler h s)"
  by (auto simp: sv_set_handler_def in_call_def counted_def cur_tcb_def intro!: status_served)


lemma get_user_all: "(\<And>k. k < n \<Longrightarrow> readable m (va + of_nat k)) \<Longrightarrow> length (get_user m va n p) = n"
proof (induction n arbitrary: va)
  case (Suc n)
  have "readable m va" using Suc.prems [of 0] by simp
  moreover have "readable m (va + 1 + of_nat k)" if "k < n" for k using Suc.prems [of "Suc k"] that by (simp add: add.assoc)
  ultimately show ?case using Suc.IH [of "va + 1"] by simp
qed simp

lemma sv_open_handle_ok:
  assumes "starts E img s" "0 < len" "unat buffer + unat len < 2 ^ 64"
  shows "served E img s (sv_open_handle mem buffer len s)"
proof -
  define s1 where "s1 = s\<lparr>v_hold_memory := True\<rparr>"
  have s1: "in_call E img s1" "\<not> v_hold_handle s1" "v_thread s1 = v_thread s" "v_process s1 = v_process s" "v_vs s1 = v_vs s"
    using assms(1) by (auto simp: s1_def in_call_def counted_def cur_tcb_def)
  let ?all = "\<forall>k<unat len. accessible False (v_vs s) (buffer + of_nat k)"
  let ?name = "get_user (v_vs s) buffer (unat len) (v_phys s)"
  have ck: "svc_check buffer len False s = Inr (?all, s1)" using check_buffer_exact [OF assms(2,3), of "v_vs s" False] by (simp add: svc_check_def s1_def)
  show ?thesis
  proof (cases ?all)
    case False
    then show ?thesis using ck s1 by (auto simp: sv_open_handle_def)
  next
    case True
    then have len: "length ?name = unat len" by (intro get_user_all) (simp add: accessible_def)
    show ?thesis
    proof (cases "om_get (map (\<lambda>b. char_of (unat b)) ?name) (v_names s)")
      case None
      then show ?thesis using ck s1 True len assms(2) by (auto simp: sv_open_handle_def s1_def)
    next
      case (Some e)
      consider (no) "acquire_obj (ob_obj e) s1 = (False, s1)"
        | (yes) s' where "acquire_obj (ob_obj e) s1 = (True, s')" "in_call (E(ob_obj e := Suc (E (ob_obj e)))) img s'" "v_thread s' = v_thread s1"
            "v_process s' = v_process s1" "v_hold_handle s' = v_hold_handle s1"
        using acquire_obj_ok [OF s1(1), of "ob_obj e"] assms(1) by metis
      then show ?thesis
      proof cases
        case no
        then show ?thesis using ck s1 True len Some assms(2) by (auto simp: sv_open_handle_def s1_def Let_def)
      next
        case (yes s')
        have "served E img s (returns (handle_result (give_handle mem (ob_obj e) s')))"
          by (rule handle_served(1) [OF yes(2)]) (use yes s1 in simp_all)
        moreover have "served E img s (status DENIED s1)" using s1 by auto
        ultimately show ?thesis using ck True len Some assms(2) yes(1) by (auto simp: sv_open_handle_def s1_def Let_def)
      qed
    qed
  qed
qed

section \<open>Sequences of calls\<close>

type_synonym svc_op = "dword \<times> qword \<times> qword \<times> qword"

fun svc_step :: "env \<Rightarrow> (dword \<Rightarrow> qword \<Rightarrow> qword \<Rightarrow> qword \<Rightarrow> handler) \<Rightarrow> svc_op \<Rightarrow> svc \<Rightarrow> svc res" where
  "svc_step e rest (cmd, a1, a2, a3) s = rbind (kernel_service e rest cmd a1 a2 a3 s) (\<lambda>(_, s). Inr s)"

text \<open>The calls considered: threads, processes, handles and objects, without those that switch to another thread. A new object gets a
  size that is not a multiple of 2 ^ 32, a name buffer does not wrap around the address space.\<close>

fun svc_may :: "svc_op \<Rightarrow> svc \<Rightarrow> bool" where
  "svc_may (cmd, a1, a2, a3) s \<longleftrightarrow>
     cmd \<in> {0x100, 0x104, 0x108, 0x10C, 0x118, 0x11C, 0x200, 0x204, 0x218, 0x224, 0x300, 0x308, 0x400, 0x500, 0x608} \<or>
     cmd = 0x134 \<and> (ucast a3 :: dword) \<noteq> 0 \<or>
     cmd = 0x304 \<and> 0 < (ucast a2 :: dword) \<and> unat a1 + unat (ucast a2 :: dword) < 2 ^ 64 \<or>
     cmd = 0x30C \<and> (a2 \<noteq> 0 \<longrightarrow> (ucast a2 :: dword) \<noteq> 0)"

definition call_inv :: "(nat \<Rightarrow> nat) \<Rightarrow> nat option \<Rightarrow> svc \<Rightarrow> bool" where
  "call_inv E img s \<longleftrightarrow> idle E img s \<and> (\<forall>ob. E ob < 2 ^ 31)"

lemma serve_ok:
  assumes st: "starts E img s" and may: "svc_may (cmd, a1, a2, a3) s"
  shows "served E img s (serve e rest cmd a1 a2 a3 s)"
proof -
  have c: "in_call E img s" "counted E img s" using st by (auto simp: in_call_def)
  have f: "E (v_fresh s) = 0" using countedD(3,4) [OF c(2), of "v_fresh s"] by simp
  note get = sv_thread_id_ok [OF c(1)] sv_get_priority_ok [OF c(1)] sv_process_id_ok [OF c(1)] sv_process_result_ok [OF c(1)] sv_handle_type_ok [OF c(1)]
    sv_stream_state_ok [OF c(1)] sv_set_priority_ok [OF c(1)] sv_file_seek_ok [OF c(1)] sv_set_handler_ok [OF c(1)] sv_poll_ok [OF c(1)]
  note put = sv_get_thread_ok [OF st] sv_get_process_ok [OF st] sv_open_process_ok [OF st] sv_close_handle_ok [OF st]
  have plain: "served E img s (sv_get_handler s)" "served E img s (sv_vm_peek a1 s)" using c(1) by (auto simp: sv_get_handler_def sv_vm_peek_def Let_def)
  consider (g) "cmd \<in> {0x104, 0x108, 0x10C, 0x118, 0x11C}" | (h) "cmd \<in> {0x204, 0x218, 0x300, 0x400, 0x500, 0x608}" | (p) "cmd \<in> {0x100, 0x200, 0x224, 0x308}"
    | (w) "cmd = 0x134" "(ucast a3 :: dword) \<noteq> 0" | (o') "cmd = 0x304" "0 < (ucast a2 :: dword)" "unat a1 + unat (ucast a2 :: dword) < 2 ^ 64"
    | (n) "cmd = 0x30C" "a2 \<noteq> 0 \<longrightarrow> (ucast a2 :: dword) \<noteq> 0"
    using may by auto
  then show ?thesis
  proof cases
    case n
    have "served E img s (sv_create_object (e_mem e) (e_ring e) (ucast a1) a2 a3 s)" by (rule sv_create_object_ok [OF st f]) (use n in auto)
    then show ?thesis using n by (simp add: serve_def)
  qed (use get put plain sv_open_handle_ok [OF st, of "ucast a2" a1 "e_mem e"] in \<open>auto simp: serve_def\<close>)
qed

lemma svc_step_keeps:
  assumes "call_inv E img s" "svc_may x s"
  shows "\<exists>s'. svc_step e rest x s = Inr s' \<and> call_inv E img s'"
proof -
  obtain cmd a1 a2 a3 where x: "x = (cmd, a1, a2, a3)" by (metis prod_cases4)
  have i: "idle E img s" "\<forall>ob. E ob < 2 ^ 31" using assms(1) by (auto simp: call_inv_def)
  define k where "k = upd (k_cur (v_kern s)) (\<lambda>c. c\<lparr>t_critical := True\<rparr>) (v_kern s)"
  define s0 where "s0 = s\<lparr>v_kern := k, v_hold_memory := False, v_hold_handle := False, v_skip_critical := False, v_shared := 0\<rparr>"
  have enter: "svc_enter s = Inr s0" using i(1) by (simp add: svc_enter_def thread_hold_def idle_def cur_tcb_def s0_def k_def Let_def)
  have st: "starts E img s0" using i by (auto simp: idle_def in_call_def counted_def cur_tcb_def s0_def k_def upd_def)
  have "svc_may (cmd, a1, a2, a3) s0" using assms(2) x by simp
  from serve_ok [OF st this, of e rest] obtain v s1 where s1: "serve e rest cmd a1 a2 a3 s0 = Inr (Return v, s1)" "in_call E img s1"
      "v_thread s1 = v_thread s0" "v_process s1 = v_process s0" by (auto simp: served_def)
  define k2 where "k2 = upd (k_cur (v_kern s1)) (\<lambda>c. c\<lparr>t_critical := False\<rparr>) (v_kern s1)"
  define s2 where "s2 = s1\<lparr>v_hold_memory := False, v_shared := 0, v_hold_handle := False, v_kern := k2\<rparr>"
  have "svc_leave s1 = Inr s2" using s1(2)
    by (cases "v_hold_handle s1") (auto simp: svc_leave_def in_call_def unlock_handles_def thread_drop_def cur_tcb_def s2_def k2_def Let_def)
  moreover have "idle E img s2" using s1(2-4) st by (auto simp: idle_def in_call_def counted_def cur_tcb_def s2_def k2_def upd_def)
  ultimately show ?thesis using enter s1(1) i(2) by (simp add: x kernel_service_def call_inv_def)
qed

interpretation calls: component "svc_step e rest" svc_may "call_inv E img"
  by unfold_locales (rule svc_step_keeps)



text \<open>A thread that kills itself through its handle leaves the kernel with the handle table locked for reading.\<close>

lemma kill_self_keeps_lock:
  assumes "ht_lookup (v_handles s) handle = Some (v_thread s)" "handle \<noteq> 0" "v_obj s (v_thread s) = Thread_Body t" "\<not> v_hold_handle s" "v_shared s = 0"
    and "sv_kill_thread handle s = Inr (out, s')"
  shows "out = Gone \<and> v_shared s' = 1"
  using assms by (auto simp: sv_kill_thread_def svc_get_def Let_def sv_exit_thread_def rbind_eq_Inr)


lemma legal_calls: "list_all (\<lambda>x. \<forall>s. svc_may x s) xs \<Longrightarrow> legal (svc_step e rest) svc_may xs s"
  by (induction xs arbitrary: s) (auto split: sum.split)

definition first_call :: svc where
  "first_call = \<lparr>v_handles = ht_new, v_ref = (\<lambda>ob. \<lparr>ref_count = if ob < 2 then 1 else 0, named = False\<rparr>),
     v_obj = (\<lambda>ob. if ob = 0 then Thread_Body 0 else Process_Body \<lparr>pi_id = 1, pi_privilege = 0x40, pi_state = PRunning, pi_result = 0\<rparr>),
     v_fresh = 2, v_names = [], v_pids = [1 \<mapsto> 1], v_thread = 0, v_process = 1, v_privilege = 0x40, v_handler = 0, v_stack_preserve = 0x1000,
     v_kern = small, v_vs = empty_space, v_phys = (\<lambda>_. 0), v_pool = ps_pool pool_start, v_hold_memory = False, v_hold_handle = False,
     v_skip_critical = False, v_shared = 0\<rparr>"

definition small_env :: env where
  "small_env = \<lparr>e_mem = (\<lambda>_. True), e_cb = id, e_ring = (\<lambda>_. 0), e_fs = small_fs, e_sizes = (\<lambda>_. 0)\<rparr>"

text \<open>A handle for the thread, a question about it, an event, a handle for process 1, and both handles closed.\<close>

definition call_script :: "svc_op list" where
  "call_script = [(0x100, 0, 0, 0), (0x300, 4, 0, 0), (0x30C, 7, 1, 0), (0x224, 1, 0, 0), (0x308, 4, 0, 0), (0x308, 5, 0, 0)]"

lemma first_call_inv: "call_inv (\<lambda>ob. if ob < 2 then 1 else 0) None first_call"
proof -
  have "slot ht_new i = None" for i by (simp add: slot_def ht_new_def)
  then have "handles_to ht_new ob = 0" "slot ht_new 0 = None" for ob by (simp_all add: handles_to_def)
  then show ?thesis using ht_new_inv by (simp add: call_inv_def idle_def counted_def cur_tcb_def first_call_def small_def plain_tcb_def)
qed


end
