(* ===== verification/Crt_Text.thy ===== *)
theory Crt_Text
  imports Kernel_Prelude
begin

text \<open>
  The character, string and formatting functions of the user runtime (\<^verbatim>\<open>app/libuos/uoscrt.cpp\<close>). A \<^verbatim>\<open>char\<close> is
  signed, so a character is an integer from -128 to 127, and a C string is the list of its characters before the terminator: reading at
  its end gives 0. Arguments of \<^verbatim>\<open>printf\<close> are the 64-bit slots of the calling convention, or pointers to strings; taking
  an argument that was not passed is undefined and stops the model. The programs are built for the 64-bit Windows convention, where
  \<^verbatim>\<open>long\<close> has 4 bytes. Of the tests for null pointers only that of \<^verbatim>\<open>snprintf\<close> is kept.
\<close>

section \<open>Character classes\<close>

type_synonym cstr = "int list"

text \<open>\<^verbatim>\<open>ch & ~0x20\<close>\<close>

definition upper_bits :: "int \<Rightarrow> int" where "upper_bits ch = ch AND NOT 0x20"

definition isspace :: "int \<Rightarrow> bool" where "isspace ch \<longleftrightarrow> ch \<in> {0x9, 0xA, 0xB, 0xC, 0xD, 0x20}"

definition isupper :: "int \<Rightarrow> bool" where "isupper ch \<longleftrightarrow> ch \<ge> 65 \<and> ch \<le> 90"

definition islower :: "int \<Rightarrow> bool" where "islower ch \<longleftrightarrow> ch \<ge> 97 \<and> ch \<le> 122"

definition isalpha :: "int \<Rightarrow> bool" where "isalpha ch \<longleftrightarrow> (let ch = upper_bits ch in ch \<ge> 65 \<and> ch \<le> 90)"

definition isdigit :: "int \<Rightarrow> bool" where "isdigit ch \<longleftrightarrow> ch \<ge> 48 \<and> ch \<le> 57"

definition isxdigit :: "int \<Rightarrow> bool" where
  "isxdigit ch \<longleftrightarrow> isdigit ch \<or> (let ch = upper_bits ch in ch \<ge> 65 \<and> ch \<le> 70)"

definition isalnum :: "int \<Rightarrow> bool" where "isalnum ch \<longleftrightarrow> isalpha ch \<or> isdigit ch"

definition ispunct :: "int \<Rightarrow> bool" where
  "ispunct ch \<longleftrightarrow> ch \<in> {33, 34, 35, 36, 37, 38, 39, 40, 41, 42, 43, 44, 45, 46, 47, 58, 59, 60, 61, 62, 63, 64,
     91, 92, 93, 94, 95, 96, 123, 124, 125, 126}"

definition isprint :: "int \<Rightarrow> bool" where "isprint ch \<longleftrightarrow> isalnum ch \<or> ispunct ch \<or> ch = 32"

section \<open>Strings\<close>

text \<open>\<open>str ! i\<close> with the terminator\<close>

definition char_at :: "cstr \<Rightarrow> nat \<Rightarrow> int" where "char_at s i = (if i < length s then s ! i else 0)"

primrec strstr_loop :: "cstr \<Rightarrow> cstr \<Rightarrow> nat \<Rightarrow> nat \<Rightarrow> cstr \<Rightarrow> nat option" where
  "strstr_loop substr [] pos i cmp = (if cmp = [] then Some pos else None)"
| "strstr_loop substr (c # str) pos i cmp =
     (if cmp = [] then Some pos
      else if hd cmp \<noteq> c then strstr_loop substr str (Suc i) (Suc i) substr
      else strstr_loop substr str pos (Suc i) (tl cmp))"

definition strstr :: "cstr \<Rightarrow> cstr \<Rightarrow> nat option" where "strstr str substr = strstr_loop substr str 0 0 substr"

text \<open>the cast to \<^verbatim>\<open>byte\<close>\<close>

definition ubyte :: "int \<Rightarrow> int" where "ubyte ch = ch mod 256"

fun strcmp :: "cstr \<Rightarrow> cstr \<Rightarrow> int" where
  "strcmp (a # as) (b # bs) = (if a \<noteq> b then ubyte a - ubyte b else strcmp as bs)"
| "strcmp as bs = ubyte (char_at as 0) - ubyte (char_at bs 0)"

section \<open>Numbers\<close>

definition hex2bin :: "int \<Rightarrow> int" where
  "hex2bin ch =
     (if ch \<ge> 48 \<and> ch \<le> 57 then ch - 48
      else let ch = upper_bits ch in if ch \<ge> 65 \<and> ch \<le> 70 then ch - 65 + 0x0A else 0xFF)"

primrec strtoull_loop :: "int \<Rightarrow> qword \<Rightarrow> cstr \<Rightarrow> qword \<times> cstr" where
  "strtoull_loop base val [] = (val, [])"
| "strtoull_loop base val (c # str) =
     (let digit = hex2bin c in
      if digit \<ge> base then (val, c # str) else strtoull_loop base (val * of_int base + of_int digit) str)"

text \<open>The value and the rest of the string.\<close>

definition strtoull :: "cstr \<Rightarrow> int \<Rightarrow> qword \<times> cstr" where
  "strtoull str base =
     (let str = dropWhile isspace str;
          base = (if base = 0 then if char_at str 0 = 48 then if upper_bits (char_at str 1) = 88 then 0x10 else 8 else 10 else base);
          str = (if base = 0x10 \<and> char_at str 0 = 48 \<and> upper_bits (char_at str 1) = 88 then drop 2 str else str) in
      strtoull_loop base 0 str)"

definition strtoul :: "cstr \<Rightarrow> int \<Rightarrow> qword \<times> cstr" where
  "strtoul str base = (let (result, rest) = strtoull str base in (if result > 0xFFFFFFFF then 0xFFFFFFFF else result, rest))"

section \<open>Formatting\<close>

datatype va = Num qword | Str "cstr option"

definition hexchar :: "nat \<Rightarrow> int" where "hexchar n = (if n < 10 then 48 + int n else 55 + int n)"

definition next_char :: "cstr \<Rightarrow> int \<times> cstr" where "next_char s = (case s of [] \<Rightarrow> (0, []) | c # cs \<Rightarrow> (c, cs))"

definition is_number :: "int \<Rightarrow> bool" where "is_number ch \<longleftrightarrow> upper_bits ch \<in> {79, 68, 73, 88, 85}"

text \<open>The size of the operand, the conversion character and the rest of the format; size 0 refuses the format.\<close>

definition parse_size :: "cstr \<Rightarrow> int \<Rightarrow> nat \<times> int \<times> cstr" where
  "parse_size format ch =
     (if upper_bits ch \<noteq> 72 \<and> upper_bits ch \<noteq> 76 then (4, ch, format)
      else let operand_size = (if upper_bits ch = 72 then 2 else 4);
               (next, format) = next_char format in
        if is_number next then (operand_size, next, format)
        else if upper_bits next \<noteq> 72 \<and> upper_bits next \<noteq> 76 then (0, ch, format)
        else let operand_size = (if upper_bits next = 72 then 1 else 8) in
          if upper_bits (ch XOR next) \<noteq> 0 then (0, ch, format)
          else let (ch, format) = next_char format in
            if is_number ch then (operand_size, ch, format) else (0, ch, format))"

definition va_num :: "va list \<Rightarrow> (qword \<times> va list) res" where
  "va_num args = (case args of Num w # rest \<Rightarrow> Inr (w, rest) | _ \<Rightarrow> bugcheck ''va_arg'')"

definition va_str :: "va list \<Rightarrow> (cstr option \<times> va list) res" where
  "va_str args = (case args of Str s # rest \<Rightarrow> Inr (s, rest) | _ \<Rightarrow> bugcheck ''va_arg'')"

text \<open>The digits in the order the buffer gets them, the last one first; \<open>lower\<close> for \<^verbatim>\<open>%x\<close>. The bases are 8, 10 and 16.\<close>

function digit_buffer :: "nat \<Rightarrow> bool \<Rightarrow> nat \<Rightarrow> int list" where
  "digit_buffer base lower val =
     (if val = 0 \<or> base \<le> 1 then []
      else let c = hexchar (val mod base) in
        (if lower \<and> c AND 0x40 \<noteq> 0 then c OR 0x20 else c) # digit_buffer base lower (val div base))"
  by pat_completeness auto
termination digit_buffer
  by (relation "measure (\<lambda>(base, lower, val). val)") auto

declare digit_buffer.simps [simp del]

definition number_text :: "int \<Rightarrow> qword \<Rightarrow> int list" where
  "number_text ch val =
     (if val = 0 then [48]
      else rev (digit_buffer (if upper_bits ch = 88 then 16 else if upper_bits ch = 79 then 8 else 10) (ch = 120) (unat val)))"

text \<open>The value of an operand: its sign and its magnitude.\<close>

definition operand :: "nat \<Rightarrow> bool \<Rightarrow> qword \<Rightarrow> bool \<times> qword" where
  "operand sz sg w =
     (if sg then let s = (if sz = 8 then sint w else sint (ucast w :: dword)) in (s < 0, if s < 0 then of_int (- s) else of_int s)
      else (False, if sz = 8 then w else ucast (ucast w :: dword)))"

definition pointer_text :: "qword \<Rightarrow> int list" where
  "pointer_text w = map (\<lambda>i. hexchar (unat (drop_bit (4 * i) w AND 0xF))) (rev [0..<16])"

text \<open>What one conversion prints, with the rest of the format and of the arguments; \<open>None\<close> refuses the format.\<close>

definition convert :: "int \<Rightarrow> cstr \<Rightarrow> va list \<Rightarrow> (int list \<times> cstr \<times> va list) option res" where
  "convert ch format args =
     (let u = upper_bits ch in
      if u = 67 then rbind (va_num args) (\<lambda>(w, args). Inr (Some ([sint (ucast w :: byte)], format, args)))
      else if u = 83 then rbind (va_str args) (\<lambda>(s, args).
        Inr (Some ((case s of None \<Rightarrow> [40, 110, 117, 108, 108, 41] | Some s \<Rightarrow> s), format, args)))
      else if u = 80 then rbind (va_num args) (\<lambda>(w, args). Inr (Some (pointer_text w, format, args)))
      else if u = 72 \<or> u = 76 \<or> is_number ch then
        let (sz, ch, format) = parse_size format ch;
            sg = (upper_bits ch = 68 \<or> upper_bits ch = 73) in
        if sz = 0 then Inr None
        else rbind (va_num args) (\<lambda>(w, args).
          let (minus, val) = operand sz sg w in
          Inr (Some ((if minus then [45] else []) @ number_text ch val, format, args)))
      else Inr None)"

text \<open>Hand characters to the function until it refuses one.\<close>

primrec emit :: "(int \<Rightarrow> 's \<Rightarrow> bool \<times> 's) \<Rightarrow> int list \<Rightarrow> 's \<Rightarrow> bool \<times> 's" where
  "emit func [] s = (True, s)"
| "emit func (c # cs) s = (let (go, s) = func c s in if go then emit func cs s else (False, s))"

lemma next_char_length [simp]: "length (snd (next_char f)) \<le> length f"
  by (simp add: next_char_def split: list.split)

lemma parse_size_length: "length (snd (snd (parse_size f ch))) \<le> length f"
proof -
  obtain n f1 where a: "next_char f = (n, f1)" by force
  obtain n2 f2 where b: "next_char f1 = (n2, f2)" by force
  have "length f1 \<le> length f" "length f2 \<le> length f1" using next_char_length [of f] next_char_length [of f1] a b by simp_all
  then show ?thesis by (simp add: parse_size_def Let_def a b)
qed

lemma convert_length: "convert ch f args = Inr (Some (t, f', args')) \<Longrightarrow> length f' \<le> length f"
proof -
  assume c: "convert ch f args = Inr (Some (t, f', args'))"
  obtain sz ch' g where p: "parse_size f ch = (sz, ch', g)" by (metis prod_cases3)
  have "f' = f \<or> f' = g" using c unfolding convert_def Let_def p
    by (auto simp: rbind_eq_Inr split_beta split: if_splits)
  then show ?thesis using parse_size_length [of f ch] p by auto
qed

function imp_printf :: "(int \<Rightarrow> 's \<Rightarrow> bool \<times> 's) \<Rightarrow> cstr \<Rightarrow> va list \<Rightarrow> 's \<Rightarrow> (bool \<times> 's) res" where
  "imp_printf func format args s =
     (case format of [] \<Rightarrow> Inr (True, s)
      | ch # format \<Rightarrow>
          if ch \<noteq> 37 then let (go, s) = func ch s in if go then imp_printf func format args s else Inr (True, s)
          else case format of [] \<Rightarrow> Inr (True, s)
            | ch # format \<Rightarrow> rbind (convert ch format args) (\<lambda>r. case r of None \<Rightarrow> Inr (False, s)
                | Some (text, format, args) \<Rightarrow>
                    let (go, s) = emit func text s in if go then imp_printf func format args s else Inr (True, s)))"
  by pat_completeness auto
termination imp_printf
  by (relation "measure (\<lambda>(func, format, args, s). length format)") (auto dest!: convert_length)

declare imp_printf.simps [simp del]

text \<open>The result and what the buffer holds before the terminator, which \<^verbatim>\<open>snprintf\<close> stores whenever there is a buffer.\<close>

definition limited_sink :: "nat \<Rightarrow> int \<Rightarrow> int list \<Rightarrow> bool \<times> int list" where
  "limited_sink limit ch buffer = (if length buffer + 1 \<ge> limit then (False, buffer) else (True, buffer @ [ch]))"

definition snprintf :: "nat \<Rightarrow> cstr option \<Rightarrow> va list \<Rightarrow> (int \<times> int list) res" where
  "snprintf limit format args =
     (if limit = 0 then Inr (- 1, [])
      else case format of None \<Rightarrow> Inr (- 1, [])
        | Some format \<Rightarrow> rbind (imp_printf (limited_sink limit) format args []) (\<lambda>(ok, buffer).
            Inr (if ok then int (length buffer) else - 1, buffer)))"

section \<open>The command line\<close>

primrec count_loop :: "cstr \<Rightarrow> int \<Rightarrow> nat \<Rightarrow> nat" where
  "count_loop [] prev argc = argc"
| "count_loop (c # cs) prev argc = count_loop cs c (if \<not> isspace c \<and> isspace prev then Suc argc else argc)"

text \<open>The positions of the arguments and the command line with the terminators written into it.\<close>

primrec split_loop :: "cstr \<Rightarrow> int \<Rightarrow> nat \<Rightarrow> nat \<Rightarrow> nat list \<Rightarrow> int list \<Rightarrow> nat list \<times> int list" where
  "split_loop [] prev i argc argv done = (argv, done)"
| "split_loop (c # cs) prev i argc argv done =
     (if \<not> isspace c \<and> isspace prev \<and> length argv \<ge> argc then (argv, done @ c # cs)
      else split_loop cs c (Suc i) argc (if \<not> isspace c \<and> isspace prev then argv @ [i] else argv)
        (done @ [if isspace c \<and> \<not> isspace prev then 0 else c]))"

definition parse_commandline :: "cstr \<Rightarrow> (nat list \<times> int list) option" where
  "parse_commandline cmd =
     (let argc = count_loop cmd 0 1;
          (argv, buffer) = split_loop cmd 0 0 argc [0] [] in
      if length argv = argc then Some (argv, buffer) else None)"


section \<open>Properties of characters and strings\<close>

lemma upper_bits_eq: "upper_bits x = (if odd (x div 32) then x - 32 else x)"
proof -
  have "upper_bits x = unset_bit 5 x" by (simp add: upper_bits_def unset_bit_eq_and_not push_bit_eq_mult)
  then show ?thesis by (simp add: unset_bit_eq bit_iff_odd)
qed

lemma isalpha_iff: "isalpha ch \<longleftrightarrow> isupper ch \<or> islower ch"
  unfolding isalpha_def isupper_def islower_def Let_def upper_bits_eq by presburger

text \<open>Exactly the characters from the space to the tilde can be printed.\<close>

lemma isprint_ascii: "isprint ch \<longleftrightarrow> 32 \<le> ch \<and> ch \<le> 126"
proof
  assume "isprint ch"
  then show "32 \<le> ch \<and> ch \<le> 126"
    unfolding isprint_def isalnum_def isalpha_iff isupper_def islower_def isdigit_def ispunct_def by auto
next
  have all: "\<forall>n\<in>set [32..<127]. isprint (int n)" by code_simp
  assume "32 \<le> ch \<and> ch \<le> 126"
  then have "nat ch \<in> {32..<127}" "int (nat ch) = ch" by auto
  then show "isprint ch" using all unfolding set_upt by metis
qed

lemma strcmp_swap: "strcmp a b = - strcmp b a"
  by (induction a b rule: strcmp.induct) simp_all

text \<open>The first difference decides, and strings without a terminator inside are equal exactly if there is none.\<close>

lemma ubyte_eq:
  assumes "- 128 \<le> x" "x < 128" "- 128 \<le> y" "y < 128"
  shows "ubyte x = ubyte y \<longleftrightarrow> x = y"
proof
  assume "ubyte x = ubyte y"
  then have "(x + 128) mod 256 = (y + 128) mod 256" unfolding ubyte_def by (metis mod_add_left_eq)
  then show "x = y" using assms by simp
qed simp

lemma strcmp_zero:
  assumes "\<forall>c\<in>set a \<union> set b. - 128 \<le> c \<and> c < 128 \<and> c \<noteq> 0"
  shows "strcmp a b = 0 \<longleftrightarrow> a = b"
  using assms
proof (induction a b rule: strcmp.induct, goal_cases)
  case (1 a as b bs)
  then show ?case using ubyte_eq [of a b] by simp
next
  case (2 bs)
  then show ?case using ubyte_eq [of "hd bs" 0] by (cases bs) (simp_all add: char_at_def)
next
  case (3 as)
  then show ?case using ubyte_eq [of "hd as" 0] by (cases as) (simp_all add: char_at_def)
qed

text \<open>What \<^verbatim>\<open>strstr\<close> finds is there, but it does not find everything: after a partial match it goes on behind the
  character that did not match.\<close>

lemma strstr_loop_sound:
  assumes "strstr_loop sub str pos i cmp = Some p" "pos \<le> i" "sub = take (i - pos) (drop pos (pre @ str)) @ cmp" "length pre = i"
  shows "take (length sub) (drop p (pre @ str)) = sub"
  using assms
proof (induction str arbitrary: pos i cmp pre)
  case Nil
  then show ?case by (auto split: if_splits)
next
  case (Cons c str)
  consider "cmp = []" | "cmp \<noteq> []" "hd cmp \<noteq> c" | "cmp \<noteq> []" "hd cmp = c" by blast
  then show ?case
  proof cases
    case 1
    then have "p = pos" using Cons.prems(1) by simp
    moreover have "sub = take (i - pos) (drop pos (pre @ c # str))" using Cons.prems(3) 1 by simp
    ultimately show ?thesis by (metis append_take_drop_id append_eq_conv_conj)
  next
    case 2
    then show ?thesis using Cons.IH [of "Suc i" "Suc i" sub "pre @ [c]"] Cons.prems by simp
  next
    case 3
    have "take (Suc i - pos) (drop pos (pre @ c # str)) = take (i - pos) (drop pos (pre @ c # str)) @ [c]"
      using Cons.prems(2,4) by (simp add: Suc_diff_le take_Suc_conv_app_nth)
    then show ?thesis using Cons.IH [of pos "Suc i" "tl cmp" "pre @ [c]"] Cons.prems 3 by (cases cmp) simp_all
  qed
qed

lemma strstr_sound: "strstr str sub = Some p \<Longrightarrow> take (length sub) (drop p str) = sub"
  using strstr_loop_sound [of sub str 0 0 sub p "[]"] by (simp add: strstr_def)

lemma strstr_misses: "strstr [97, 97, 98] [97, 98] = None" "take 2 (drop 1 [97, 97, 98]) = [97, 98 :: int]"
  by (simp_all add: strstr_def)

section \<open>Numbers that are printed and read\<close>

definition digit_char :: "bool \<Rightarrow> nat \<Rightarrow> int" where
  "digit_char lower d = (let c = hexchar d in if lower \<and> c AND 0x40 \<noteq> 0 then c OR 0x20 else c)"

lemma hex2bin_digit_char: "d < 16 \<Longrightarrow> hex2bin (digit_char lower d) = int d"
proof -
  have "\<forall>l\<in>{True, False}. \<forall>d\<in>set [0..<16]. hex2bin (digit_char l d) = int d" by code_simp
  moreover assume "d < 16"
  ultimately show ?thesis by (cases lower) auto
qed

lemma hex2bin_space: "isspace c \<Longrightarrow> hex2bin c = 255"
proof -
  have "\<forall>c\<in>{0x9, 0xA, 0xB, 0xC, 0xD, 0x20}. hex2bin c = 255" by code_simp
  then show "isspace c \<Longrightarrow> hex2bin c = 255" unfolding isspace_def by blast
qed

lemma hex2bin_x: "upper_bits c = 88 \<Longrightarrow> hex2bin c = 255"
  by (auto simp: hex2bin_def upper_bits_eq split: if_splits)

lemma digit_buffer_step:
  "2 \<le> b \<Longrightarrow> v \<noteq> 0 \<Longrightarrow> digit_buffer b l v = digit_char l (v mod b) # digit_buffer b l (v div b)"
  by (subst digit_buffer.simps) (simp add: digit_char_def Let_def)

lemma digit_buffer_zero [simp]: "digit_buffer b l 0 = []"
  by (subst digit_buffer.simps) simp

lemma digit_buffer_digits:
  assumes "2 \<le> b" "b \<le> 16" "c \<in> set (digit_buffer b l v)"
  shows "hex2bin c < int b"
  using assms
proof (induction v rule: less_induct)
  case (less v)
  have "v \<noteq> 0" using less.prems(3) by (cases "v = 0") simp_all
  note st = digit_buffer_step [OF less.prems(1) this, of l]
  have lt: "v mod b < b" using less.prems(1) by simp
  have dec: "v div b < v" using less.prems(1) \<open>v \<noteq> 0\<close> by simp
  show ?case
  proof (cases "c = digit_char l (v mod b)")
    case True
    then show ?thesis using hex2bin_digit_char [of "v mod b" l] lt less.prems(2) by simp
  next
    case False
    then show ?thesis using less.IH [OF dec less.prems(1,2)] less.prems(3) st by simp
  qed
qed

lemma digit_buffer_length:
  assumes "2 \<le> b" "v < b ^ k"
  shows "length (digit_buffer b l v) \<le> k"
  using assms(2)
proof (induction k arbitrary: v)
  case (Suc k)
  have "v div b < b ^ k" using Suc.prems assms(1) by (simp add: less_mult_imp_div_less mult.commute)
  then show ?case using Suc.IH [of "v div b"] digit_buffer_step [OF assms(1), of v l] by (cases "v = 0") simp_all
qed simp

lemma strtoull_loop_reads:
  assumes "2 \<le> b" "b \<le> 16"
  shows "strtoull_loop (int b) 0 (rev (digit_buffer b l v) @ rest) = strtoull_loop (int b) (of_nat v) rest"
proof (induction v arbitrary: rest rule: less_induct)
  case (less v)
  show ?case
  proof (cases "v = 0")
    case False
    define c where "c = digit_char l (v mod b)"
    have lt: "v mod b < b" using assms(1) by simp
    have h: "hex2bin c = int (v mod b)" unfolding c_def by (rule hex2bin_digit_char) (use lt assms(2) in simp)
    have w: "(of_nat (v div b) * of_int (int b) + of_int (int (v mod b)) :: qword) = of_nat v"
      unfolding of_int_of_nat_eq of_nat_mult [symmetric] of_nat_add [symmetric] by simp
    have "strtoull_loop (int b) 0 (rev (digit_buffer b l v) @ rest) = strtoull_loop (int b) 0 (rev (digit_buffer b l (v div b)) @ c # rest)"
      using digit_buffer_step [OF assms(1) False, of l] by (simp add: c_def)
    also have "\<dots> = strtoull_loop (int b) (of_nat (v div b)) (c # rest)" by (rule less.IH) (use assms(1) False in simp)
    also have "\<dots> = strtoull_loop (int b) (of_nat v) rest" using lt unfolding strtoull_loop.simps Let_def h w by simp
    finally show ?thesis .
  qed simp
qed

text \<open>The base a conversion prints in.\<close>

definition conversion_base :: "int \<Rightarrow> nat" where
  "conversion_base ch = (if upper_bits ch = 88 then 16 else if upper_bits ch = 79 then 8 else 10)"

lemma number_text_chars: "c \<in> set (number_text ch v) \<Longrightarrow> hex2bin c < int (conversion_base ch)"
  using digit_buffer_digits [of "conversion_base ch" c "ch = 120" "unat v"]
  by (auto simp: number_text_def conversion_base_def hex2bin_def split: if_splits)

lemma number_text_length: "0 < length (number_text ch v)" "length (number_text ch v) \<le> 22"
proof -
  have b: "2 \<le> conversion_base ch" by (simp add: conversion_base_def)
  have "unat v < 2 ^ 64" using unsigned_less [of v] by simp
  also have "(2 :: nat) ^ 64 \<le> 8 ^ 22" by simp
  also have "(8 :: nat) ^ 22 \<le> conversion_base ch ^ 22" by (rule power_mono) (simp_all add: conversion_base_def)
  finally have "length (digit_buffer (conversion_base ch) (ch = 120) (unat v)) \<le> 22" by (rule digit_buffer_length [OF b])
  then show "length (number_text ch v) \<le> 22" by (simp add: number_text_def conversion_base_def)
  show "0 < length (number_text ch v)"
    using digit_buffer_step [OF b, of "unat v" "ch = 120"] by (simp add: number_text_def conversion_base_def unat_eq_0)
qed

lemma strtoull_number_text: "strtoull (number_text ch v) (int (conversion_base ch)) = (v, [])"
proof -
  let ?t = "number_text ch v" and ?b = "conversion_base ch"
  have b: "2 \<le> ?b" "?b \<le> 16" "?b \<noteq> 0" by (simp_all add: conversion_base_def)
  obtain c cs where t: "?t = c # cs" using number_text_length(1) [of ch v] by (cases ?t) auto
  have chars: "hex2bin x < 16" if "x \<in> set ?t" for x using number_text_chars [OF that] b(2) by simp
  have "\<not> isspace c" using chars [of c] hex2bin_space [of c] t by auto
  then have sp: "dropWhile isspace ?t = ?t" using t by simp
  have "upper_bits (char_at ?t 1) \<noteq> 88"
  proof (cases "1 < length ?t")
    case True
    then show ?thesis using chars [of "?t ! 1"] hex2bin_x [of "?t ! 1"] nth_mem [of 1 ?t] by (auto simp: char_at_def)
  next
    case False
    then show ?thesis by (simp add: char_at_def upper_bits_def)
  qed
  then have "strtoull ?t (int ?b) = strtoull_loop (int ?b) 0 ?t" using b(3) by (simp add: strtoull_def sp Let_def)
  also have "\<dots> = (v, [])"
  proof (cases "v = 0")
    case True
    have "hex2bin 48 = 0" by code_simp
    then show ?thesis using True b by (simp add: number_text_def)
  next
    case False
    then have e: "?t = rev (digit_buffer ?b (ch = 120) (unat v)) @ []" by (simp add: number_text_def conversion_base_def)
    show ?thesis unfolding e strtoull_loop_reads [OF b(1,2)] by simp
  qed
  finally show ?thesis .
qed


section \<open>Formatted output\<close>

text \<open>What a format prints when there is room for everything.\<close>

definition plain_sink :: "int \<Rightarrow> int list \<Rightarrow> bool \<times> int list" where "plain_sink ch buffer = (True, buffer @ [ch])"

lemma plain_sink_simps [simp]: "fst (plain_sink c s)" "snd (plain_sink c s) = s @ [c]"
  by (simp_all add: plain_sink_def)

lemma emit_plain: "emit plain_sink t s = (True, s @ t)"
  by (induction t arbitrary: s) (simp_all add: plain_sink_def)

lemma emit_limited:
  "length s < n \<Longrightarrow> emit (limited_sink n) t s = (length s + length t < n, take (n - 1) (s @ t))"
proof (induction t arbitrary: s)
  case (Cons c t)
  show ?case
  proof (cases "Suc (length s) < n")
    case True
    then show ?thesis using Cons.IH [of "s @ [c]"] by (simp add: limited_sink_def)
  next
    case False
    then have "n - 1 = length s" using Cons.prems by simp
    then show ?thesis using False by (simp add: limited_sink_def)
  qed
qed simp

lemma printf_simps [simp]:
  "imp_printf func [] args s = Inr (True, s)"
  "imp_printf func [37] args s = Inr (True, s)"
  "c \<noteq> 37 \<Longrightarrow> imp_printf func (c # f) args s = (if fst (func c s) then imp_printf func f args (snd (func c s)) else Inr (True, snd (func c s)))"
  by (subst imp_printf.simps, simp add: split_beta)+

lemma printf_convert:
  assumes "convert c f args = Inr r"
  shows "imp_printf func (37 # c # f) args s =
    (case r of None \<Rightarrow> Inr (False, s)
     | Some (t, f', args') \<Rightarrow> if fst (emit func t s) then imp_printf func f' args' (snd (emit func t s)) else Inr (True, snd (emit func t s)))"
  by (subst imp_printf.simps) (simp add: assms split_beta split: option.split)

text \<open>The cases of a format, for inductions over it.\<close>

lemma printf_induct [case_names Nil End Char Bad Undefined Convert]:
  assumes "\<And>args s. P [] args s" "\<And>args s. P [37] args s"
    "\<And>c f args s. c \<noteq> 37 \<Longrightarrow> (\<And>s. P f args s) \<Longrightarrow> P (c # f) args s"
    "\<And>c f args s. convert c f args = Inr None \<Longrightarrow> P (37 # c # f) args s"
    "\<And>c f args s e. convert c f args = Inl e \<Longrightarrow> P (37 # c # f) args s"
    "\<And>c f args s t f' args'. convert c f args = Inr (Some (t, f', args')) \<Longrightarrow> (\<And>s. P f' args' s) \<Longrightarrow> P (37 # c # f) args s"
  shows "P f args s"
proof (induction f arbitrary: args s rule: length_induct)
  case (1 f)
  show ?case
  proof (cases f)
    case Nil
    then show ?thesis using assms(1) by simp
  next
    case (Cons c f1)
    show ?thesis
    proof (cases "c = 37")
      case False
      then show ?thesis using assms(3) 1 Cons by simp
    next
      case True
      show ?thesis
      proof (cases f1)
        case Nil
        then show ?thesis using assms(2) Cons True by simp
      next
        case c2: (Cons c2 f2)
        show ?thesis
        proof (cases "convert c2 f2 args")
          case (Inl e)
          then show ?thesis using assms(5) Cons True c2 by simp
        next
          case (Inr r)
          show ?thesis
          proof (cases r)
            case None
            then show ?thesis using assms(4) Inr Cons True c2 by simp
          next
            case (Some q)
            obtain t f' args' where q: "q = (t, f', args')" by (metis prod_cases3)
            then have cv: "convert c2 f2 args = Inr (Some (t, f', args'))" using Inr Some by simp
            have "length f' < length f" using convert_length [OF cv] Cons c2 by simp
            then show ?thesis using assms(6) [OF cv] 1 Cons True c2 by simp
          qed
        qed
      qed
    qed
  qed
qed

lemma printf_undefined: "convert c f args = Inl e \<Longrightarrow> imp_printf func (37 # c # f) args s = Inl e"
  by (subst imp_printf.simps) simp

lemma plain_extends: "imp_printf plain_sink f args s = Inr (ok, full) \<Longrightarrow> \<exists>t. full = s @ t"
proof (induction f args s rule: printf_induct)
  case (Char c f args s)
  then show ?case by fastforce
next
  case (Convert c f args s t f' args')
  then show ?case by (fastforce simp: printf_convert emit_plain)
qed (simp_all add: printf_convert printf_undefined)

text \<open>With a limit, what does not fit is cut off, and cutting off counts as success.\<close>

lemma printf_limited:
  assumes "imp_printf plain_sink f args s = Inr (ok, full)" "length s < n"
  shows "imp_printf (limited_sink n) f args s = Inr (ok \<or> n \<le> length full, take (n - 1) full)"
  using assms
proof (induction f args s rule: printf_induct)
  case (Char c f args s)
  then have st: "imp_printf plain_sink f args (s @ [c]) = Inr (ok, full)" by simp
  then obtain u where "full = (s @ [c]) @ u" using plain_extends by blast
  then show ?case using Char.IH [OF st] Char.hyps Char.prems(2) by (auto simp: limited_sink_def)
next
  case (Convert c f args s t f' args')
  then have st: "imp_printf plain_sink f' args' (s @ t) = Inr (ok, full)" by (simp add: printf_convert emit_plain)
  then obtain u where "full = (s @ t) @ u" using plain_extends by blast
  then show ?case using Convert.IH [OF st] Convert.hyps Convert.prems(2) by (auto simp: printf_convert emit_limited)
qed (simp_all add: printf_convert printf_undefined)


text \<open>\<^verbatim>\<open>snprintf\<close> writes as much of the text as fits beside the terminator and never more, and returns the
  length of what it wrote, or -1 for a format it does not know.\<close>

theorem snprintf_prefix:
  assumes "imp_printf plain_sink format args [] = Inr (ok, full)" "0 < limit"
  shows "snprintf limit (Some format) args =
    Inr (if ok \<or> limit \<le> length full then int (min (limit - 1) (length full)) else - 1, take (limit - 1) full)"
  using printf_limited [OF assms(1), of limit] assms(2) by (simp add: snprintf_def min.commute)

theorem snprintf_prefix_witness:
  "imp_printf plain_sink [97, 37, 99, 98] [Num 99] [] = Inr (True, [97, 99, 98]) \<and>
   snprintf 3 (Some [97, 37, 99, 98]) [Num 99] = Inr (2, [97, 99])"
proof -
  have "upper_bits 99 = 67" by code_simp
  then have c: "convert 99 [98] [Num 99] = Inr (Some ([99], [98], []))" by (simp add: convert_def va_num_def)
  have "imp_printf plain_sink [97, 37, 99, 98] [Num 99] [] = Inr (True, [97, 99, 98])" by (simp add: printf_convert [OF c] emit_plain)
  from this snprintf_prefix [OF this, of 3] show ?thesis by simp
qed

lemma conversion_cases:
  "ch \<in> {117, 120, 88, 111} \<Longrightarrow> is_number ch \<and> upper_bits ch \<noteq> 68 \<and> upper_bits ch \<noteq> 73"
proof -
  have "\<forall>ch\<in>{117, 120, 88, 111}. is_number ch \<and> upper_bits ch \<noteq> 68 \<and> upper_bits ch \<noteq> 73" by code_simp
  then show "ch \<in> {117, 120, 88, 111} \<Longrightarrow> is_number ch \<and> upper_bits ch \<noteq> 68 \<and> upper_bits ch \<noteq> 73" by blast
qed

lemma convert_long:
  assumes "ch \<in> {117, 120, 88, 111}"
  shows "convert 108 [108, ch] [Num v] = Inr (Some (number_text ch v, [], []))"
proof -
  have u: "upper_bits 108 = 76" "upper_bits 0 = 0" "\<not> is_number 108" by code_simp+
  have "parse_size [108, ch] 108 = (8, ch, [])" using conversion_cases [OF assms] by (simp add: parse_size_def next_char_def u)
  then show ?thesis using conversion_cases [OF assms] by (simp add: convert_def u va_num_def operand_def)
qed

text \<open>C35: a 64-bit number printed with \<^verbatim>\<open>%llu\<close>, \<^verbatim>\<open>%llx\<close>, \<^verbatim>\<open>%llX\<close> or \<^verbatim>\<open>%llo\<close> into a buffer of 32
  bytes is read back by \<^verbatim>\<open>strtoull\<close> with that base, which consumes all of it.\<close>

theorem printed_number_reads_back:
  assumes "(ch, base) \<in> {(117, 10), (120, 16), (88, 16), (111, 8)}"
  shows "\<exists>t. snprintf 32 (Some [37, 108, 108, ch]) [Num v] = Inr (int (length t), t) \<and> strtoull t base = (v, [])"
proof -
  have ch: "ch \<in> {117, 120, 88, 111}" using assms by auto
  have u: "conversion_base 117 = 10" "conversion_base 120 = 16" "conversion_base 88 = 16" "conversion_base 111 = 8" by code_simp+
  then have b: "int (conversion_base ch) = base" using assms by auto
  have "imp_printf plain_sink [37, 108, 108, ch] [Num v] [] = Inr (True, number_text ch v)"
    by (simp add: printf_convert [OF convert_long [OF ch]] emit_plain)
  from printf_limited [OF this, of 32] have "snprintf 32 (Some [37, 108, 108, ch]) [Num v] = Inr (int (length (number_text ch v)), number_text ch v)"
    using number_text_length(2) [of ch v] by (simp add: snprintf_def)
  then show ?thesis using strtoull_number_text [of ch v] b by auto
qed

theorem printed_number_reads_back_witness:
  "\<exists>t. snprintf 32 (Some [37, 108, 108, 120]) [Num 0xCAFE] = Inr (int (length t), t) \<and> strtoull t 16 = (0xCAFE, [])"
  by (rule printed_number_reads_back) simp

section \<open>Arguments of a program\<close>

text \<open>The words of a command line: its longest parts without white space.\<close>

function words :: "cstr \<Rightarrow> cstr list" where
  "words s = (let s' = dropWhile isspace s in
     if s' = [] then [] else takeWhile (\<lambda>c. \<not> isspace c) s' # words (dropWhile (\<lambda>c. \<not> isspace c) s'))"
  by pat_completeness auto
termination words
proof (relation "measure length", goal_cases)
  case (2 s x)
  obtain c cs where x: "x = c # cs" using 2(2) by (cases x) blast+
  have "dropWhile isspace s = c # cs" using 2(1) x by simp
  then have "\<not> isspace c" using hd_dropWhile [of isspace s] by simp
  then have "length (dropWhile (\<lambda>c. \<not> isspace c) x) < length x" using x length_dropWhile_le [of "\<lambda>c. \<not> isspace c" cs] by simp
  also have "length x \<le> length s" using 2 length_dropWhile_le [of isspace s] by simp
  finally show ?case by simp
qed simp

declare words.simps [simp del]

lemma words_space: "isspace c \<Longrightarrow> words (c # s) = words s"
  by (subst (1 2) words.simps) simp

lemma words_word: "\<not> isspace c \<Longrightarrow> words (c # s) = (c # takeWhile (\<lambda>c. \<not> isspace c) s) # words (dropWhile (\<lambda>c. \<not> isspace c) s)"
  by (subst words.simps) simp

lemma words_Nil [simp]: "words [] = []"
  by (subst words.simps) simp

text \<open>Where arguments start, and the command line with its terminators, without the accumulators of the loops.\<close>

primrec word_starts :: "cstr \<Rightarrow> int \<Rightarrow> nat \<Rightarrow> nat list" where
  "word_starts [] prev i = []"
| "word_starts (c # cs) prev i = (if \<not> isspace c \<and> isspace prev then [i] else []) @ word_starts cs c (Suc i)"

primrec cut_words :: "cstr \<Rightarrow> int \<Rightarrow> int list" where
  "cut_words [] prev = []"
| "cut_words (c # cs) prev = (if isspace c \<and> \<not> isspace prev then 0 else c) # cut_words cs c"

lemma count_loop_starts: "count_loop cs prev n = n + length (word_starts cs prev i)"
proof (induction cs arbitrary: prev n i)
  case (Cons c cs)
  show ?case using Cons.IH [of c _ "Suc i"] by simp
qed simp

lemma split_loop_result:
  "length argv + length (word_starts cs prev i) \<le> argc \<Longrightarrow>
   split_loop cs prev i argc argv buf = (argv @ word_starts cs prev i, buf @ cut_words cs prev)"
  by (induction cs arbitrary: prev i argv buf) auto

lemma starts_shift: "word_starts cs prev (Suc i) = map Suc (word_starts cs prev i)"
  by (induction cs arbitrary: prev i) auto

lemma cut_words_head:
  assumes "0 \<notin> set cs" "\<not> isspace prev"
  shows "takeWhile (\<lambda>c. c \<noteq> 0) (cut_words cs prev) = takeWhile (\<lambda>c. \<not> isspace c) cs"
  using assms by (induction cs arbitrary: prev) auto

definition argument :: "int list \<Rightarrow> nat \<Rightarrow> cstr" where "argument buffer p = takeWhile (\<lambda>c. c \<noteq> 0) (drop p buffer)"

lemma arguments_words:
  assumes "0 \<notin> set cs"
  shows "map (argument (cut_words cs prev)) (word_starts cs prev 0) =
    words (if isspace prev then cs else dropWhile (\<lambda>c. \<not> isspace c) cs)"
  using assms
proof (induction cs arbitrary: prev)
  case (Cons c cs)
  have tl: "map (argument (cut_words (c # cs) prev)) (word_starts cs c (Suc 0)) = map (argument (cut_words cs c)) (word_starts cs c 0)"
    by (simp add: starts_shift argument_def)
  have hd: "argument (cut_words (c # cs) prev) 0 = c # takeWhile (\<lambda>c. \<not> isspace c) cs" if "\<not> isspace c"
    using that cut_words_head [of cs c] Cons.prems by (simp add: argument_def)
  show ?case using Cons tl hd by (cases "isspace c"; cases "isspace prev") (simp_all add: words_space words_word)
qed simp

text \<open>a program gets the words of its command line as arguments, in order; where the command line does not start with a
  word, an empty argument comes first. Splitting never fails.\<close>

theorem commandline_arguments:
  assumes "0 \<notin> set cmd"
  shows "\<exists>argv buffer. parse_commandline cmd = Some (argv, buffer) \<and> length buffer = length cmd \<and>
    map (argument buffer) argv = (if cmd = [] \<or> isspace (hd cmd) then [] # words cmd else words cmd)"
proof -
  have z: "\<not> isspace 0" by (simp add: isspace_def)
  have len: "length (cut_words cs prev) = length cs" for cs prev by (induction cs arbitrary: prev) simp_all
  have p: "parse_commandline cmd = Some (0 # word_starts cmd 0 0, cut_words cmd 0)"
    by (simp add: parse_commandline_def Let_def count_loop_starts [of _ _ _ 0] split_loop_result)
  have rest: "map (argument (cut_words cmd 0)) (word_starts cmd 0 0) = words (dropWhile (\<lambda>c. \<not> isspace c) cmd)"
    using arguments_words [OF assms, of 0] z by simp
  have first: "argument (cut_words cmd 0) 0 = takeWhile (\<lambda>c. \<not> isspace c) cmd" using cut_words_head [OF assms z] by (simp add: argument_def)
  have "map (argument (cut_words cmd 0)) (0 # word_starts cmd 0 0) = (if cmd = [] \<or> isspace (hd cmd) then [] # words cmd else words cmd)"
    using rest first by (cases cmd) (simp_all add: words_word)
  then show ?thesis using p len by blast
qed

theorem commandline_arguments_witness:
  "\<exists>argv buffer. parse_commandline [108, 115, 32, 97] = Some (argv, buffer) \<and> length buffer = length [108, 115, 32, 97 :: int] \<and>
    map (argument buffer) argv = (if [108, 115, 32, 97] = ([] :: cstr) \<or> isspace (hd [108, 115, 32, 97]) then [] # words [108, 115, 32, 97] else words [108, 115, 32, 97])"
  by (rule commandline_arguments) simp

end
