(* ===== verification/Buddy_Heap.thy ===== *)
theory Buddy_Heap
  imports Kernel_Prelude
begin

text \<open>
  The heap of the kernel and of user programs (\<^verbatim>\<open>util/include/buddy_heap.hpp\<close>, both with blocks of 2 ^ 4 to 2 ^ 11 bytes). Free
  blocks of a size form a doubly linked list in the order of their addresses; the links lie in the blocks themselves, here in two
  stores indexed by the address of the block, and 0 is the null pointer. Addresses and sizes are natural numbers: blocks lie inside
  the address space, so their ends do not wrap. The list of free blocks is searched with a bound, which is never reached: a list has at
  most as many blocks as the capacity has room for. The lock around the operations is left out. The callback that gets
  more memory is the list of its answers.
\<close>

section \<open>Model\<close>

definition heap_bot :: nat where "heap_bot = 4"
definition heap_top :: nat where "heap_top = 12"

record bheap =
  hp_prev :: "nat \<Rightarrow> nat"
  hp_next :: "nat \<Rightarrow> nat"
  hp_pool :: "nat \<Rightarrow> nat"
  hp_cap :: nat

abbreviation block_size :: "nat \<Rightarrow> nat" where "block_size sh \<equiv> 2 ^ sh"

definition heap_new :: bheap where
  "heap_new = \<lparr>hp_prev = (\<lambda>_. 0), hp_next = (\<lambda>_. 0), hp_pool = (\<lambda>_. 0), hp_cap = 0\<rparr>"

text \<open>The size class of a request, rounded up, and of a range of memory, rounded down.\<close>

fun category_loop :: "nat \<Rightarrow> nat \<Rightarrow> nat res" where
  "category_loop 0 sz = Inl AssertFailed"
| "category_loop (Suc r) sz =
     (if drop_bit r sz \<noteq> 0 then (let q = if take_bit r sz \<noteq> 0 then Suc r else r in kassert (q < heap_top) (Inr q))
      else if r > heap_bot then category_loop r sz else kassert (r = heap_bot) (Inr r))"

definition category :: "nat \<Rightarrow> nat res" where
  "category sz = kassert (sz \<noteq> 0) (if sz > block_size (heap_top - 1) then Inr heap_top else category_loop heap_top sz)"

function range_category :: "nat \<Rightarrow> nat \<Rightarrow> nat \<Rightarrow> nat \<Rightarrow> nat" where
  "range_category base sz c r =
     (if c < heap_top \<and> base mod block_size c = 0 \<and> \<not> sz < block_size c then range_category base sz (Suc c) c else r)"
  by pat_completeness auto
termination range_category
  by (relation "measure (\<lambda>(base, sz, c, r). heap_top - c)") auto

declare range_category.simps [simp del]

text \<open>Where a block belongs in the list: the neighbours below and above it.\<close>

primrec find_place :: "nat \<Rightarrow> bheap \<Rightarrow> nat \<Rightarrow> nat \<Rightarrow> nat \<Rightarrow> (nat \<times> nat) res" where
  "find_place 0 s prev cur block = Inl OutOfFuel"
| "find_place (Suc n) s prev cur block =
     (if cur \<noteq> 0 \<and> cur < block then kassert (hp_prev s cur = prev) (find_place n s cur (hp_next s cur) block)
      else Inr (prev, cur))"

definition unlink :: "nat \<Rightarrow> nat \<Rightarrow> bheap \<Rightarrow> bheap res" where
  "unlink sh b s =
     (let nx = hp_next s b; pv = hp_prev s b in
      kassert (nx \<noteq> 0 \<longrightarrow> hp_prev s nx = b)
        (let s = (if nx \<noteq> 0 then s\<lparr>hp_prev := (hp_prev s)(nx := pv)\<rparr> else s) in
         if pv \<noteq> 0 then kassert (hp_next s pv = b) (Inr (s\<lparr>hp_next := (hp_next s)(pv := nx)\<rparr>))
         else kassert (b = hp_pool s sh) (Inr (s\<lparr>hp_pool := (hp_pool s)(sh := nx)\<rparr>))))"

definition link :: "nat \<Rightarrow> nat \<Rightarrow> nat \<Rightarrow> nat \<Rightarrow> bheap \<Rightarrow> bheap res" where
  "link sh block prev cur s =
     (let s = s\<lparr>hp_prev := (hp_prev s)(block := prev), hp_next := (hp_next s)(block := cur)\<rparr>;
          s = (if cur \<noteq> 0 then s\<lparr>hp_prev := (hp_prev s)(cur := block)\<rparr> else s) in
      if prev \<noteq> 0 then Inr (s\<lparr>hp_next := (hp_next s)(prev := block)\<rparr>)
      else kassert (hp_pool s sh = cur) (Inr (s\<lparr>hp_pool := (hp_pool s)(sh := block)\<rparr>)))"

definition find_buddy :: "nat \<Rightarrow> nat \<Rightarrow> nat \<Rightarrow> nat \<Rightarrow> nat" where
  "find_buddy sh block prev cur =
     (if prev \<noteq> 0 \<and> prev XOR block = block_size sh then prev
      else if cur \<noteq> 0 \<and> cur XOR block = block_size sh then cur else 0)"

function heap_put :: "nat \<Rightarrow> nat \<Rightarrow> bheap \<Rightarrow> (bool \<times> bheap) res" where
  "heap_put block sh s =
     (if block mod block_size sh \<noteq> 0 then Inr (False, s)
      else rbind (find_place (hp_cap s div 16 + 2) s 0 (hp_pool s sh) block) (\<lambda>(prev, cur).
        kassert ((prev \<noteq> 0 \<longrightarrow> hp_next s prev = cur) \<and> (cur \<noteq> 0 \<longrightarrow> hp_prev s cur = prev))
          (let buddy = (if Suc sh < heap_top then find_buddy sh block prev cur else 0) in
           if Suc sh < heap_top \<and> buddy \<noteq> 0 then rbind (unlink sh buddy s) (\<lambda>s. heap_put (min block buddy) (Suc sh) s)
           else rbind (link sh block prev cur s) (\<lambda>s. Inr (True, s)))))"
  by pat_completeness auto
termination heap_put
  by (relation "measure (\<lambda>(block, sh, s). heap_top - sh)") auto

declare heap_put.simps [simp del]

function heap_get :: "nat \<Rightarrow> bheap \<Rightarrow> (nat \<times> bheap) res" where
  "heap_get sh s =
     (if sh \<ge> heap_top then Inr (0, s)
      else let cur = hp_pool s sh in
        if cur \<noteq> 0 then
          let nx = hp_next s cur in
          kassert (hp_prev s cur = 0 \<and> cur mod block_size sh = 0 \<and> (nx \<noteq> 0 \<longrightarrow> hp_prev s nx = cur))
            (let s = (if nx \<noteq> 0 then s\<lparr>hp_prev := (hp_prev s)(nx := 0)\<rparr> else s) in
             Inr (cur, s\<lparr>hp_pool := (hp_pool s)(sh := nx)\<rparr>))
        else rbind (heap_get (Suc sh) s) (\<lambda>(cur, s).
          if cur = 0 then Inr (0, s)
          else rbind (heap_put (cur + block_size sh) sh s) (\<lambda>(_, s). Inr (cur, s))))"
  by pat_completeness auto
termination heap_get
  by (relation "measure (\<lambda>(sh, s). heap_top - sh)") auto

declare heap_get.simps [simp del]

primrec expand_loop :: "nat \<Rightarrow> nat \<Rightarrow> nat \<Rightarrow> bool \<Rightarrow> bheap \<Rightarrow> (bool \<times> bheap) res" where
  "expand_loop 0 cur len ok s = Inl OutOfFuel"
| "expand_loop (Suc n) cur len ok s =
     (if len < block_size heap_bot then Inr (ok, s)
      else let sh = range_category cur len heap_bot heap_top in
        if sh \<ge> heap_top then Inr (ok, s)
        else kassert (block_size sh \<le> len \<and> cur mod block_size sh = 0)
          (rbind (heap_put cur sh s) (\<lambda>(put, s).
            if \<not> put then Inr (False, s)
            else expand_loop n (cur + block_size sh) (len - block_size sh) True (s\<lparr>hp_cap := hp_cap s + block_size sh\<rparr>))))"

definition heap_expand :: "nat \<Rightarrow> nat \<Rightarrow> bheap \<Rightarrow> (bool \<times> bheap) res" where
  "heap_expand base len s =
     (if base = 0 \<or> len = 0 then Inr (False, s)
      else let aligned_base = (base + 15) div 16 * 16 in
        if len \<le> aligned_base - base then Inr (False, s)
        else expand_loop (len div 16 + 2) aligned_base (len - (aligned_base - base)) False s)"

text \<open>\<open>answers\<close>: what the callback returns each time it is asked, an address and a size.\<close>

primrec heap_allocate :: "(nat \<times> nat) list \<Rightarrow> nat \<Rightarrow> bheap \<Rightarrow> (nat \<times> bheap) res" where
  "heap_allocate [] req s = rbind (category req) (\<lambda>sh. if sh \<ge> heap_top then Inr (0, s) else heap_get sh s)"
| "heap_allocate (a # answers) req s = rbind (category req) (\<lambda>sh.
     if sh \<ge> heap_top then Inr (0, s)
     else rbind (heap_get sh s) (\<lambda>(ptr, s).
       if ptr \<noteq> 0 then Inr (ptr, s)
       else rbind (heap_expand (fst a) (snd a) s) (\<lambda>(ok, s). if \<not> ok then Inr (0, s) else heap_allocate answers req s)))"

definition heap_release :: "nat \<Rightarrow> nat \<Rightarrow> bheap \<Rightarrow> (bool \<times> bheap) res" where
  "heap_release ptr sz s =
     (if ptr = 0 then Inr (False, s)
      else rbind (category sz) (\<lambda>sh. if sh \<ge> heap_top then Inr (False, s) else heap_put ptr sh s))"

section \<open>Lists of free blocks\<close>

text \<open>A segment of a list: from \<open>c\<close>, whose predecessor is \<open>p\<close>, through the blocks \<open>xs\<close> to the pointer \<open>e\<close>.\<close>

fun seg :: "bheap \<Rightarrow> nat \<Rightarrow> nat \<Rightarrow> nat list \<Rightarrow> nat \<Rightarrow> bool" where
  "seg s p c [] e \<longleftrightarrow> c = e"
| "seg s p c (x # xs) e \<longleftrightarrow> c = x \<and> x \<noteq> 0 \<and> hp_prev s x = p \<and> seg s x (hp_next s x) xs e"

definition last0 :: "nat list \<Rightarrow> nat" where "last0 xs = (if xs = [] then 0 else last xs)"
definition hd0 :: "nat list \<Rightarrow> nat" where "hd0 xs = (if xs = [] then 0 else hd xs)"

lemma end0_simps [simp]: "last0 [] = 0" "hd0 [] = 0" "last0 (xs @ [x]) = x" "hd0 (x # xs) = x"
  by (simp_all add: last0_def hd0_def)

lemma end0_nonzero: "0 \<notin> set xs \<Longrightarrow> hd0 xs \<noteq> 0 \<longleftrightarrow> xs \<noteq> []" "0 \<notin> set xs \<Longrightarrow> last0 xs \<noteq> 0 \<longleftrightarrow> xs \<noteq> []"
  by (cases xs; simp) (cases xs rule: rev_cases; simp)

lemma seg_append: "seg s p c (xs @ ys) e \<longleftrightarrow> (\<exists>m. seg s p c xs m \<and> seg s (if xs = [] then p else last xs) m ys e)"
  by (induction xs arbitrary: p c) auto

lemma seg_nonzero: "seg s p c xs e \<Longrightarrow> 0 \<notin> set xs"
  by (induction xs arbitrary: p c) auto

lemma seg_cong: "(\<And>x. x \<in> set xs \<Longrightarrow> hp_prev s' x = hp_prev s x \<and> hp_next s' x = hp_next s x) \<Longrightarrow> seg s' p c xs e = seg s p c xs e"
  by (induction xs arbitrary: p c) auto

lemma seg_start: "seg s p c xs 0 \<Longrightarrow> c = hd0 xs"
  by (cases xs) auto

text \<open>A list split before a position: both parts, with the pointers between them.\<close>

lemma seg_split:
  assumes "seg s 0 c (as @ bs) 0"
  shows "seg s 0 c as (hd0 bs)" "seg s (last0 as) (hd0 bs) bs 0"
    "as \<noteq> [] \<Longrightarrow> hp_next s (last as) = hd0 bs" "bs \<noteq> [] \<Longrightarrow> hp_prev s (hd bs) = last0 as"
proof -
  obtain m where m: "seg s 0 c as m" "seg s (last0 as) m bs 0" using assms by (auto simp: seg_append last0_def)
  have h: "m = hd0 bs" by (rule seg_start [OF m(2)])
  show "seg s 0 c as (hd0 bs)" "seg s (last0 as) (hd0 bs) bs 0" using m h by simp_all
  show "hp_next s (last as) = hd0 bs" if "as \<noteq> []" using that m(1) h by (cases as rule: rev_cases) (auto simp: seg_append)
  show "hp_prev s (hd bs) = last0 as" if "bs \<noteq> []" using that m(2) by (cases bs) auto
qed

text \<open>Pointing the last block elsewhere, and giving the first block another predecessor.\<close>

lemma seg_redirect:
  assumes "seg s p c (xs @ [x]) e" "x \<notin> set xs" "hp_next s' x = e'"
    "\<And>y. y \<in> set (xs @ [x]) \<Longrightarrow> hp_prev s' y = hp_prev s y" "\<And>y. y \<in> set xs \<Longrightarrow> hp_next s' y = hp_next s y"
  shows "seg s' p c (xs @ [x]) e'"
  using assms by (induction xs arbitrary: p c) auto

lemma seg_reprev:
  assumes "seg s p c (x # xs) e" "x \<notin> set xs" "hp_prev s' x = p'"
    "\<And>y. y \<in> set (x # xs) \<Longrightarrow> hp_next s' y = hp_next s y" "\<And>y. y \<in> set xs \<Longrightarrow> hp_prev s' y = hp_prev s y"
  shows "seg s' p' c (x # xs) e"
proof -
  have "seg s' x (hp_next s x) xs e = seg s x (hp_next s x) xs e" by (rule seg_cong) (use assms(4,5) in auto)
  then show ?thesis using assms by auto
qed

lemma find_place_ok:
  assumes "seg s 0 c (as @ bs) 0" "\<And>x. x \<in> set as \<Longrightarrow> x < block" "\<And>x. x \<in> set bs \<Longrightarrow> block < x" "length as < n"
  shows "find_place n s 0 c block = Inr (last0 as, hd0 bs)"
proof -
  have gen: "find_place n s p c block = Inr (if as = [] then p else last as, hd0 bs)"
    if "seg s p c (as @ bs) 0" "\<forall>x\<in>set as. x < block" "\<forall>x\<in>set bs. block < x" "length as < n" for p c as bs n
    using that
  proof (induction as arbitrary: p c n)
    case Nil
    then have "c = hd0 bs" using seg_start [of s p c bs] by simp
    moreover have "\<not> (c \<noteq> 0 \<and> c < block)" using calculation Nil.prems(3) by (cases bs) auto
    ultimately show ?case using Nil.prems(4) by (cases n) auto
  next
    case (Cons a as)
    then obtain m where "n = Suc m" by (cases n) auto
    then show ?case using Cons by auto
  qed
  show ?thesis using gen [OF assms(1), of n] assms(2-4) by (simp add: last0_def)
qed

lemma unlink_ok:
  assumes "seg s 0 (hp_pool s sh) (as @ b # bs) 0" "distinct (as @ b # bs)"
  shows "\<exists>s'. unlink sh b s = Inr s' \<and> seg s' 0 (hp_pool s' sh) (as @ bs) 0 \<and> hp_cap s' = hp_cap s \<and> (\<forall>i. i \<noteq> sh \<longrightarrow> hp_pool s' i = hp_pool s i) \<and>
    (\<forall>x. x \<notin> set (as @ bs) \<longrightarrow> hp_prev s' x = hp_prev s x \<and> hp_next s' x = hp_next s x)"
proof -
  have z: "0 \<notin> set (as @ b # bs)" by (rule seg_nonzero [OF assms(1)])
  note A = seg_split [OF assms(1)]
  have B: "seg s 0 (hp_pool s sh) ((as @ [b]) @ bs) 0" using assms(1) by simp
  note C = seg_split [OF B]
  have nx: "hp_next s b = hd0 bs" using C(3) by simp
  have pv: "hp_prev s b = last0 as" using A(4) by simp
  have nxp: "bs \<noteq> [] \<Longrightarrow> hp_prev s (hd bs) = b" using C(4) by simp
  have nz: "hd0 bs \<noteq> 0 \<longleftrightarrow> bs \<noteq> []" "last0 as \<noteq> 0 \<longleftrightarrow> as \<noteq> []" using z end0_nonzero [of bs] end0_nonzero [of as] by simp_all
  define s1 where "s1 = (if bs \<noteq> [] then s\<lparr>hp_prev := (hp_prev s)(hd bs := last0 as)\<rparr> else s)"
  define s2 where "s2 = (if as \<noteq> [] then s1\<lparr>hp_next := (hp_next s1)(last as := hd0 bs)\<rparr> else s1\<lparr>hp_pool := (hp_pool s1)(sh := hd0 bs)\<rparr>)"
  have pool: "as = [] \<Longrightarrow> hp_pool s sh = b" using A(1) by simp
  have "unlink sh b s = Inr s2"
    unfolding unlink_def Let_def nx pv using nz nxp pool A(3) by (auto simp: s1_def s2_def hd0_def last0_def)
  moreover have "seg s2 0 (hp_pool s2 sh) as (hd0 bs)"
  proof (cases as rule: rev_cases)
    case Nil
    then show ?thesis by (simp add: s2_def)
  next
    case (snoc xs x)
    have "seg s2 0 (hp_pool s sh) (xs @ [x]) (hd0 bs)"
      by (rule seg_redirect [OF A(1) [unfolded snoc]]) (use assms(2) snoc in \<open>auto simp: s2_def s1_def dest: hd_in_set\<close>)
    moreover have "hp_pool s2 sh = hp_pool s sh" using snoc by (simp add: s2_def s1_def)
    ultimately show ?thesis using snoc by simp
  qed
  moreover have "seg s2 (last0 as) (hd0 bs) bs 0"
  proof (cases bs)
    case Nil
    then show ?thesis by simp
  next
    case (Cons y ys)
    have "seg s2 (last0 as) (hd0 (y # ys)) (y # ys) 0"
      by (rule seg_reprev [OF C(2) [unfolded Cons]]) (use assms(2) Cons in \<open>auto simp: s2_def s1_def hd0_def last0_def dest: last_in_set\<close>)
    then show ?thesis using Cons by simp
  qed
  ultimately show ?thesis
    by (intro exI [of _ s2]) (auto simp: seg_append last0_def s2_def s1_def dest: hd_in_set last_in_set)
qed

lemma link_ok:
  assumes "seg s 0 (hp_pool s sh) (as @ bs) 0" "distinct (as @ b # bs)" "b \<noteq> 0"
  shows "\<exists>s'. link sh b (last0 as) (hd0 bs) s = Inr s' \<and> seg s' 0 (hp_pool s' sh) (as @ b # bs) 0 \<and> hp_cap s' = hp_cap s \<and>
    (\<forall>i. i \<noteq> sh \<longrightarrow> hp_pool s' i = hp_pool s i) \<and>
    (\<forall>x. x \<notin> set (as @ b # bs) \<longrightarrow> hp_prev s' x = hp_prev s x \<and> hp_next s' x = hp_next s x)"
proof -
  have z: "0 \<notin> set (as @ bs)" by (rule seg_nonzero [OF assms(1)])
  note A = seg_split [OF assms(1)]
  have nz: "hd0 bs \<noteq> 0 \<longleftrightarrow> bs \<noteq> []" "last0 as \<noteq> 0 \<longleftrightarrow> as \<noteq> []" using z end0_nonzero [of bs] end0_nonzero [of as] by simp_all
  define s0 where "s0 = s\<lparr>hp_prev := (hp_prev s)(b := last0 as), hp_next := (hp_next s)(b := hd0 bs)\<rparr>"
  define s1 where "s1 = (if bs \<noteq> [] then s0\<lparr>hp_prev := (hp_prev s0)(hd bs := b)\<rparr> else s0)"
  define s2 where "s2 = (if as \<noteq> [] then s1\<lparr>hp_next := (hp_next s1)(last as := b)\<rparr> else s1\<lparr>hp_pool := (hp_pool s1)(sh := b)\<rparr>)"
  have pool: "as = [] \<Longrightarrow> hp_pool s sh = hd0 bs" using A(1) by simp
  have "link sh b (last0 as) (hd0 bs) s = Inr s2"
    unfolding link_def Let_def using nz pool by (auto simp: s0_def s1_def s2_def hd0_def last0_def)
  moreover have "seg s2 0 (hp_pool s2 sh) as b"
  proof (cases as rule: rev_cases)
    case Nil
    then show ?thesis by (simp add: s2_def)
  next
    case (snoc xs x)
    have "seg s2 0 (hp_pool s sh) (xs @ [x]) b"
      by (rule seg_redirect [OF A(1) [unfolded snoc]]) (use assms(2) snoc in \<open>auto simp: s2_def s1_def s0_def dest: hd_in_set\<close>)
    moreover have "hp_pool s2 sh = hp_pool s sh" using snoc by (simp add: s2_def s1_def s0_def)
    ultimately show ?thesis using snoc by simp
  qed
  moreover have "seg s2 b (hd0 bs) bs 0"
  proof (cases bs)
    case Nil
    then show ?thesis by simp
  next
    case (Cons y ys)
    have "seg s2 b (hd0 (y # ys)) (y # ys) 0"
      by (rule seg_reprev [OF A(2) [unfolded Cons]]) (use assms(2) Cons in \<open>auto simp: s2_def s1_def s0_def hd0_def last0_def dest: last_in_set\<close>)
    then show ?thesis using Cons by simp
  qed
  moreover have "hp_prev s2 b = last0 as" "hp_next s2 b = hd0 bs" using assms(2)
    by (auto simp: s2_def s1_def s0_def dest: hd_in_set last_in_set)
  ultimately show ?thesis using assms(3)
    by (intro exI [of _ s2]) (auto simp: seg_append last0_def s2_def s1_def s0_def dest: hd_in_set last_in_set)
qed


section \<open>The heap as sets of blocks\<close>

definition blk :: "nat \<Rightarrow> nat \<Rightarrow> nat set" where "blk sh a = {a..<a + block_size sh}"

definition levels :: "nat set" where "levels = {heap_bot..<heap_top}"

definition bytes :: "(nat \<Rightarrow> nat list) \<Rightarrow> nat set" where
  "bytes L = (\<Union>sh\<in>levels. \<Union>a\<in>set (L sh). blk sh a)"

text \<open>\<open>L sh\<close> are the free blocks of a size in the order of their addresses; they are aligned and no two of any size overlap.\<close>

definition heap_wf :: "bheap \<Rightarrow> (nat \<Rightarrow> nat list) \<Rightarrow> bool" where
  "heap_wf s L \<longleftrightarrow>
     (\<forall>sh\<in>levels. seg s 0 (hp_pool s sh) (L sh) 0 \<and> sorted_wrt (<) (L sh) \<and> (\<forall>a\<in>set (L sh). a mod block_size sh = 0)) \<and>
     (\<forall>sh\<in>levels. \<forall>sh'\<in>levels. \<forall>a\<in>set (L sh). \<forall>a'\<in>set (L sh'). sh \<noteq> sh' \<or> a \<noteq> a' \<longrightarrow> blk sh a \<inter> blk sh' a' = {})"

lemma heap_wfD:
  assumes "heap_wf s L" "sh \<in> levels"
  shows "seg s 0 (hp_pool s sh) (L sh) 0" "sorted_wrt (<) (L sh)" "a \<in> set (L sh) \<Longrightarrow> a mod block_size sh = 0"
    "sh' \<in> levels \<Longrightarrow> a \<in> set (L sh) \<Longrightarrow> a' \<in> set (L sh') \<Longrightarrow> sh \<noteq> sh' \<or> a \<noteq> a' \<Longrightarrow> blk sh a \<inter> blk sh' a' = {}"
  using assms unfolding heap_wf_def by blast+

lemma blk_self [simp]: "a \<in> blk sh a"
  by (simp add: blk_def)

lemma blk_card [simp]: "card (blk sh a) = block_size sh" "finite (blk sh a)"
  by (simp_all add: blk_def)

lemma bytes_finite [simp]: "finite (bytes L)"
  by (simp add: bytes_def levels_def)

lemma bytes_blk: "sh \<in> levels \<Longrightarrow> a \<in> set (L sh) \<Longrightarrow> blk sh a \<subseteq> bytes L"
  by (auto simp: bytes_def)

lemma bytes_upd: "sh \<in> levels \<Longrightarrow> bytes (L(sh := xs)) = (\<Union>a\<in>set xs. blk sh a) \<union> (\<Union>i\<in>levels - {sh}. \<Union>a\<in>set (L i). blk i a)"
  unfolding bytes_def by (subst insert_Diff [of sh levels, symmetric], assumption) (auto split: if_splits)

lemma bytes_cong_upd:
  assumes "sh \<in> levels" "set (L sh) = insert b (set xs)"
  shows "bytes L = bytes (L(sh := xs)) \<union> blk sh b"
proof -
  have "bytes L = bytes (L(sh := L sh))" by simp
  then show ?thesis unfolding bytes_upd [OF assms(1)] assms(2) by auto
qed

lemma sorted_distinct: "sorted_wrt (<) (xs :: nat list) \<Longrightarrow> distinct xs"
  by (induction xs) auto

lemma sorted_split:
  assumes "sorted_wrt (<) (xs :: nat list)" "p \<notin> set xs"
  shows "xs = filter (\<lambda>x. x < p) xs @ filter (\<lambda>x. p < x) xs"
  using assms
proof (induction xs)
  case (Cons x xs)
  then show ?case
  proof (cases "x < p")
    case False
    then have "p < x" using Cons.prems by auto
    then have "\<forall>y\<in>set xs. p < y" using Cons.prems by auto
    then have "filter (\<lambda>y. y < p) xs = []" "filter (\<lambda>y. p < y) xs = xs" by (auto simp: filter_empty_conv filter_id_conv)
    then show ?thesis using \<open>p < x\<close> by simp
  qed (use Cons in auto)
qed simp

text \<open>The list of a level is no longer than the bytes it holds allow.\<close>

lemma list_bound:
  assumes "heap_wf s L" "sh \<in> levels"
  shows "length (L sh) * 16 \<le> card (bytes L)"
proof -
  have d: "distinct (L sh)" by (rule sorted_distinct [OF heap_wfD(2) [OF assms]])
  have "card (\<Union>a\<in>set (L sh). blk sh a) = (\<Sum>a\<in>set (L sh). card (blk sh a))"
    by (rule card_UN_disjoint) (use heap_wfD(4) [OF assms assms(2)] in auto)
  also have "\<dots> = length (L sh) * block_size sh" using d by (simp add: distinct_card)
  finally have "length (L sh) * block_size sh \<le> card (bytes L)"
    by (metis (no_types, lifting) assms(2) bytes_finite bytes_def card_mono UN_upper)
  moreover have "(2 :: nat) ^ 4 \<le> 2 ^ sh" using assms(2) by (intro power_increasing) (auto simp: levels_def heap_bot_def)
  then have "length (L sh) * 16 \<le> length (L sh) * block_size sh" by simp
  ultimately show ?thesis by linarith
qed

lemma wf_remove:
  assumes "heap_wf s L" "sh \<in> levels" "L sh = as @ b # bs"
  shows "\<exists>s'. unlink sh b s = Inr s' \<and> heap_wf s' (L(sh := as @ bs)) \<and> hp_cap s' = hp_cap s" "bytes (L(sh := as @ bs)) = bytes L - blk sh b"
proof -
  note D = heap_wfD [OF assms(1)]
  have d: "distinct (as @ b # bs)" using sorted_distinct [OF D(2) [OF assms(2)]] assms(3) by simp
  obtain s' where s': "unlink sh b s = Inr s'" "seg s' 0 (hp_pool s' sh) (as @ bs) 0" "hp_cap s' = hp_cap s" "\<forall>i. i \<noteq> sh \<longrightarrow> hp_pool s' i = hp_pool s i"
      "\<forall>x. x \<notin> set (as @ bs) \<longrightarrow> hp_prev s' x = hp_prev s x \<and> hp_next s' x = hp_next s x"
    using unlink_ok [OF D(1) [OF assms(2), unfolded assms(3)] d] by blast
  have mem: "a \<in> set ((L(sh := as @ bs)) i) \<Longrightarrow> a \<in> set (L i) \<and> (i = sh \<longrightarrow> a \<noteq> b)" for a i using assms(3) d by (auto split: if_splits)
  have "seg s' 0 (hp_pool s' i) (L i) 0" if i: "i \<in> levels" "i \<noteq> sh" for i
  proof -
    have "x \<notin> set (as @ bs)" if "x \<in> set (L i)" for x
      using D(4) [OF i(1) assms(2) that] i(2) assms(3) blk_self by fastforce
    then have "seg s' 0 (hp_pool s i) (L i) 0" using seg_cong [of "L i" s' s 0 "hp_pool s i" 0] s'(5) D(1) [OF i(1)] by blast
    then show ?thesis using s'(4) i(2) by simp
  qed
  moreover have "sorted_wrt (<) (as @ bs)" using D(2) [OF assms(2)] assms(3) by (simp add: sorted_wrt_append)
  ultimately have "seg s' 0 (hp_pool s' i) ((L(sh := as @ bs)) i) 0 \<and> sorted_wrt (<) ((L(sh := as @ bs)) i)" if "i \<in> levels" for i
    using that s'(2) D(2) by auto
  moreover have "a mod block_size i = 0" if "i \<in> levels" "a \<in> set ((L(sh := as @ bs)) i)" for i a using mem [OF that(2)] D(3) [OF that(1)] by auto
  moreover have "blk i a \<inter> blk j c = {}" if "i \<in> levels" "j \<in> levels" "a \<in> set ((L(sh := as @ bs)) i)" "c \<in> set ((L(sh := as @ bs)) j)" "i \<noteq> j \<or> a \<noteq> c" for i j a c
    using mem [OF that(3)] mem [OF that(4)] D(4) [OF that(1,2)] that(5) by blast
  ultimately have "heap_wf s' (L(sh := as @ bs))" unfolding heap_wf_def by blast
  then show "\<exists>s'. unlink sh b s = Inr s' \<and> heap_wf s' (L(sh := as @ bs)) \<and> hp_cap s' = hp_cap s" using s' by blast
  have "blk i a \<inter> blk sh b = {}" if "i \<in> levels" "a \<in> set ((L(sh := as @ bs)) i)" for i a
    using D(4) [OF that(1) assms(2), of a b] mem [OF that(2)] assms(3) by auto
  moreover have "bytes L = bytes (L(sh := as @ bs)) \<union> blk sh b" by (rule bytes_cong_upd) (use assms(2,3) in auto)
  ultimately show "bytes (L(sh := as @ bs)) = bytes L - blk sh b" by (auto simp: bytes_def)
qed

lemma wf_insert:
  assumes "heap_wf s L" "sh \<in> levels" "L sh = as @ bs" "\<And>x. x \<in> set as \<Longrightarrow> x < b" "\<And>x. x \<in> set bs \<Longrightarrow> b < x" "b \<noteq> 0" "b mod block_size sh = 0"
    "blk sh b \<inter> bytes L = {}"
  shows "\<exists>s'. link sh b (last0 as) (hd0 bs) s = Inr s' \<and> heap_wf s' (L(sh := as @ b # bs)) \<and> hp_cap s' = hp_cap s"
    "bytes (L(sh := as @ b # bs)) = bytes L \<union> blk sh b"
proof -
  note D = heap_wfD [OF assms(1)]
  have so: "sorted_wrt (<) (as @ b # bs)" using D(2) [OF assms(2)] assms(3-5) by (auto simp: sorted_wrt_append)
  obtain s' where s': "link sh b (last0 as) (hd0 bs) s = Inr s'" "seg s' 0 (hp_pool s' sh) (as @ b # bs) 0" "hp_cap s' = hp_cap s"
      "\<forall>i. i \<noteq> sh \<longrightarrow> hp_pool s' i = hp_pool s i" "\<forall>x. x \<notin> set (as @ b # bs) \<longrightarrow> hp_prev s' x = hp_prev s x \<and> hp_next s' x = hp_next s x"
    using link_ok [OF D(1) [OF assms(2), unfolded assms(3)] sorted_distinct [OF so] assms(6)] by blast
  have disj: "blk i a \<inter> blk sh b = {}" if "i \<in> levels" "a \<in> set (L i)" for i a using bytes_blk [where L = L, OF that] assms(8) by blast
  have mem: "a \<in> set ((L(sh := as @ b # bs)) i) \<Longrightarrow> a \<in> set (L i) \<or> i = sh \<and> a = b" for a i using assms(3) by (auto split: if_splits)
  have "seg s' 0 (hp_pool s' i) (L i) 0" if i: "i \<in> levels" "i \<noteq> sh" for i
  proof -
    have "x \<notin> set (as @ b # bs)" if "x \<in> set (L i)" for x
      using D(4) [OF i(1) assms(2) that] disj [OF i(1) that] i(2) assms(3) blk_self by fastforce
    then have "seg s' 0 (hp_pool s i) (L i) 0" using seg_cong [of "L i" s' s 0 "hp_pool s i" 0] s'(5) D(1) [OF i(1)] by blast
    then show ?thesis using s'(4) i(2) by simp
  qed
  then have "seg s' 0 (hp_pool s' i) ((L(sh := as @ b # bs)) i) 0 \<and> sorted_wrt (<) ((L(sh := as @ b # bs)) i)" if "i \<in> levels" for i
    using that s'(2) so D(2) by auto
  moreover have "a mod block_size i = 0" if "i \<in> levels" "a \<in> set ((L(sh := as @ b # bs)) i)" for i a using mem [OF that(2)] D(3) [OF that(1)] assms(7) by auto
  moreover have "blk i a \<inter> blk j c = {}" if "i \<in> levels" "j \<in> levels" "a \<in> set ((L(sh := as @ b # bs)) i)" "c \<in> set ((L(sh := as @ b # bs)) j)" "i \<noteq> j \<or> a \<noteq> c" for i j a c
    using mem [OF that(3)] mem [OF that(4)] D(4) [OF that(1,2)] disj that(1,2,5) by blast
  ultimately have "heap_wf s' (L(sh := as @ b # bs))" unfolding heap_wf_def by blast
  then show "\<exists>s'. link sh b (last0 as) (hd0 bs) s = Inr s' \<and> heap_wf s' (L(sh := as @ b # bs)) \<and> hp_cap s' = hp_cap s" using s' by blast
  have "bytes (L(sh := as @ b # bs)) = bytes ((L(sh := as @ b # bs))(sh := L sh)) \<union> blk sh b" by (rule bytes_cong_upd) (use assms(2,3) in auto)
  then show "bytes (L(sh := as @ b # bs)) = bytes L \<union> blk sh b" by simp
qed


section \<open>Giving a block back\<close>

text \<open>Two aligned blocks whose addresses differ in one bit are the halves of a block of twice the size.\<close>

lemma xor_one: "x XOR y = 1 \<Longrightarrow> even (min x y) \<and> max x y = Suc (min x y)" for x y :: nat
proof -
  assume a: "x XOR y = 1"
  have "x = (x XOR y) XOR y" by (simp add: xor.assoc)
  then have x: "x = y XOR 1" using a by (simp add: xor.commute)
  show ?thesis
  proof (cases "even y")
    case True
    have "y XOR 1 = Suc y" unfolding xor_one_eq using True by simp
    then show ?thesis using x True by simp
  next
    case False
    have "y XOR 1 = y - 1" unfolding xor_one_eq using False by simp
    moreover have "0 < y" using False by (simp add: odd_pos)
    ultimately show ?thesis using x False by (simp add: min_def max_def)
  qed
qed

lemma buddy_merge:
  assumes "b mod block_size sh = 0" "p mod block_size sh = 0" "b XOR p = block_size sh"
  shows "min p b mod block_size (Suc sh) = 0" "blk (Suc sh) (min p b) = blk sh p \<union> blk sh b"
proof -
  obtain x y where x: "b = 2 ^ sh * x" and y: "p = 2 ^ sh * y" using assms(1,2) by (meson mod_0_imp_dvd dvdE)
  have "push_bit sh (x XOR y) = b XOR p" unfolding push_bit_xor x y by (simp add: push_bit_eq_mult mult.commute)
  then have "(x XOR y) * 2 ^ sh = 1 * 2 ^ sh" using assms(3) by (simp add: push_bit_eq_mult)
  then have "x XOR y = 1" unfolding mult_cancel2 by simp
  from xor_one [OF this] obtain z where z: "min x y = 2 * z" "max x y = Suc (2 * z)" by (auto elim: evenE)
  have m: "min p b = 2 ^ sh * min x y" "max p b = 2 ^ sh * max x y" unfolding x y by (auto simp: min_def max_def)
  show "min p b mod block_size (Suc sh) = 0" unfolding m z by (simp add: mult.assoc [symmetric] mult.commute)
  have "blk sh p \<union> blk sh b = blk sh (min p b) \<union> blk sh (max p b)" by (auto simp: min_def max_def)
  also have "\<dots> = {min p b..<max p b + 2 ^ sh}" unfolding blk_def m z by auto
  also have "max p b + 2 ^ sh = min p b + 2 ^ Suc sh" unfolding m z by simp
  finally show "blk (Suc sh) (min p b) = blk sh p \<union> blk sh b" by (simp add: blk_def)
qed

lemma heap_put_ok:
  assumes "heap_wf s L" "sh \<in> levels" "p \<noteq> 0" "p mod block_size sh = 0" "blk sh p \<inter> bytes L = {}" "card (bytes L) \<le> hp_cap s"
  shows "\<exists>s' L'. heap_put p sh s = Inr (True, s') \<and> heap_wf s' L' \<and> bytes L' = bytes L \<union> blk sh p \<and> hp_cap s' = hp_cap s"
  using assms
proof (induction "heap_top - sh" arbitrary: sh p s L rule: less_induct)
  case less
  note prems = less.prems
  note D = heap_wfD [OF prems(1,2)]
  have np: "p \<notin> set (L sh)" using bytes_blk [where L = L, OF prems(2), of p] prems(5) blk_self by blast
  define as bs where "as = filter (\<lambda>x. x < p) (L sh)" and "bs = filter (\<lambda>x. p < x) (L sh)"
  have split: "L sh = as @ bs" unfolding as_def bs_def by (rule sorted_split [OF D(2) np])
  have lt: "x < p" if "x \<in> set as" for x using that by (simp add: as_def)
  have gt: "p < x" if "x \<in> set bs" for x using that by (simp add: bs_def)
  have sg: "seg s 0 (hp_pool s sh) (as @ bs) 0" using D(1) split by simp
  note S = seg_split [OF sg]
  have z: "0 \<notin> set as" "0 \<notin> set bs" using seg_nonzero [OF sg] by auto
  have "length (L sh) * 16 \<le> hp_cap s" using list_bound [OF prems(1,2)] prems(6) by linarith
  then have "length (L sh) \<le> hp_cap s div 16" by (simp add: less_eq_div_iff_mult_less_eq)
  then have fp: "find_place (hp_cap s div 16 + 2) s 0 (hp_pool s sh) p = Inr (last0 as, hd0 bs)" using split by (intro find_place_ok [OF sg lt gt]) auto
  have links: "(last0 as \<noteq> 0 \<longrightarrow> hp_next s (last0 as) = hd0 bs) \<and> (hd0 bs \<noteq> 0 \<longrightarrow> hp_prev s (hd0 bs) = last0 as)"
    using S(3,4) end0_nonzero z by (auto simp: last0_def hd0_def)
  define buddy where "buddy = (if Suc sh < heap_top then find_buddy sh p (last0 as) (hd0 bs) else 0)"
  have step: "heap_put p sh s = (if Suc sh < heap_top \<and> buddy \<noteq> 0 then rbind (unlink sh buddy s) (\<lambda>s. heap_put (min p buddy) (Suc sh) s)
      else rbind (link sh p (last0 as) (hd0 bs) s) (\<lambda>s. Inr (True, s)))"
    by (subst heap_put.simps) (simp only: fp rbind_Inr prod.case links [THEN eqTrueI] kassert_def if_True Let_def buddy_def [symmetric], use prems(4) in simp)
  show ?case
  proof (cases "Suc sh < heap_top \<and> buddy \<noteq> 0")
    case False
    obtain s' where "link sh p (last0 as) (hd0 bs) s = Inr s'" "heap_wf s' (L(sh := as @ p # bs))" "hp_cap s' = hp_cap s"
      using wf_insert(1) [OF prems(1,2) split lt gt prems(3-5)] by blast
    then show ?thesis using wf_insert(2) [OF prems(1,2) split lt gt prems(3-5)] False step by auto
  next
    case True
    then have b: "buddy \<in> set (L sh)" "buddy XOR p = block_size sh"
      using end0_nonzero z split by (auto simp: buddy_def find_buddy_def last0_def hd0_def split: if_splits)
    obtain cs ds where cd: "L sh = cs @ buddy # ds" using b(1) by (meson split_list)
    obtain s1 where s1: "unlink sh buddy s = Inr s1" "heap_wf s1 (L(sh := cs @ ds))" "hp_cap s1 = hp_cap s" using wf_remove(1) [OF prems(1,2) cd] by blast
    note bt = wf_remove(2) [OF prems(1,2) cd]
    note mg = buddy_merge [OF D(3) [OF b(1)] prems(4) b(2)]
    have up: "Suc sh \<in> levels" using prems(2) True by (auto simp: levels_def)
    have "buddy \<noteq> 0" using True by simp
    have dis: "blk (Suc sh) (min p buddy) \<inter> bytes (L(sh := cs @ ds)) = {}" unfolding mg(2) bt using prems(5) by blast
    have cardle: "card (bytes (L(sh := cs @ ds))) \<le> hp_cap s1" unfolding bt s1(3) using card_mono [of "bytes L" "bytes L - blk sh buddy"] prems(6) by simp
    have "\<exists>s' L'. heap_put (min p buddy) (Suc sh) s1 = Inr (True, s') \<and> heap_wf s' L' \<and>
        bytes L' = bytes (L(sh := cs @ ds)) \<union> blk (Suc sh) (min p buddy) \<and> hp_cap s' = hp_cap s1"
      by (rule less.hyps [OF _ s1(2) up _ mg(1) dis cardle]) (use True prems(3) in auto)
    then show ?thesis using True step s1 bytes_blk [where L = L, OF prems(2) b(1)] unfolding mg(2) bt by auto
  qed
qed


section \<open>Taking a block\<close>

lemma get_head:
  assumes "hp_pool s sh = cur" "cur \<noteq> 0" "sh < heap_top" "hp_prev s cur = 0" "cur mod block_size sh = 0"
  shows "heap_get sh s = rbind (unlink sh cur s) (\<lambda>s'. Inr (cur, s'))"
  using assms by (subst heap_get.simps) (auto simp: unlink_def Let_def kassert_def)

lemma heap_get_ok:
  assumes "heap_wf s L" "card (bytes L) \<le> hp_cap s" "heap_bot \<le> sh"
  shows "\<exists>p s' L'. heap_get sh s = Inr (p, s') \<and> heap_wf s' L' \<and> hp_cap s' = hp_cap s \<and>
    (if p = 0 then bytes L' = bytes L \<and> s' = s \<and> (\<forall>i\<in>levels. sh \<le> i \<longrightarrow> L i = [])
     else sh \<in> levels \<and> p mod block_size sh = 0 \<and> blk sh p \<subseteq> bytes L \<and> bytes L' = bytes L - blk sh p)"
  using assms
proof (induction "heap_top - sh" arbitrary: sh rule: less_induct)
  case less
  note prems = less.prems
  show ?case
  proof (cases "sh < heap_top")
    case False
    then have "heap_get sh s = Inr (0, s)" by (subst heap_get.simps) simp
    moreover have "L i = []" if "i \<in> levels" "sh \<le> i" for i using that False by (simp add: levels_def)
    ultimately show ?thesis using prems by auto
  next
    case True
    then have lv: "sh \<in> levels" using prems(3) by (simp add: levels_def)
    note D = heap_wfD [OF prems(1) lv]
    show ?thesis
    proof (cases "L sh")
      case (Cons c cs)
      then have h: "hp_pool s sh = c" "c \<noteq> 0" "hp_prev s c = 0" using D(1) by auto
      have al: "c mod block_size sh = 0" using D(3) Cons by simp
      obtain s' where s': "unlink sh c s = Inr s'" "heap_wf s' (L(sh := cs))" "hp_cap s' = hp_cap s"
        using wf_remove(1) [OF prems(1) lv, of "[]" c cs] Cons by auto
      have "bytes (L(sh := cs)) = bytes L - blk sh c" using wf_remove(2) [OF prems(1) lv, of "[]" c cs] Cons by simp
      moreover have "blk sh c \<subseteq> bytes L" using bytes_blk [where L = L, OF lv, of c] Cons by simp
      ultimately show ?thesis using get_head [OF h(1,2) True h(3) al] s' h(2) lv al
        by (intro exI [of _ c] exI [of _ s'] exI [of _ "L(sh := cs)"]) simp
    next
      case Nil
      then have pool: "hp_pool s sh = 0" using D(1) by simp
      have "heap_top - Suc sh < heap_top - sh" "heap_bot \<le> Suc sh" using True prems(3) by simp_all
      from less.hyps [OF this(1) prems(1,2) this(2)] obtain p s1 L1 where g: "heap_get (Suc sh) s = Inr (p, s1)" "heap_wf s1 L1" "hp_cap s1 = hp_cap s"
        "if p = 0 then bytes L1 = bytes L \<and> s1 = s \<and> (\<forall>i\<in>levels. Suc sh \<le> i \<longrightarrow> L i = [])
         else Suc sh \<in> levels \<and> p mod block_size (Suc sh) = 0 \<and> blk (Suc sh) p \<subseteq> bytes L \<and> bytes L1 = bytes L - blk (Suc sh) p"
        by blast
      have step: "heap_get sh s = (if p = 0 then Inr (0, s1) else rbind (heap_put (p + block_size sh) sh s1) (\<lambda>(_, s). Inr (p, s)))"
        using True pool g(1) by (subst heap_get.simps) simp
      show ?thesis
      proof (cases "p = 0")
        case True
        then have "\<forall>i\<in>levels. sh \<le> i \<longrightarrow> L i = []" using g(4) Nil by (metis Suc_leI le_neq_implies_less)
        then show ?thesis using True g step by auto
      next
        case False
        then have q: "p mod block_size (Suc sh) = 0" "blk (Suc sh) p \<subseteq> bytes L" "bytes L1 = bytes L - blk (Suc sh) p" using g(4) by auto
        have halves: "blk (Suc sh) p = blk sh p \<union> blk sh (p + block_size sh)" "blk sh p \<inter> blk sh (p + block_size sh) = {}" by (auto simp: blk_def)
        have pm: "p mod block_size sh = 0" using q(1) by (metis dvd_eq_mod_eq_0 dvd_trans le_imp_power_dvd lessI less_imp_le)
        then have pm2: "(p + block_size sh) mod block_size sh = 0" by simp
        have dis: "blk sh (p + block_size sh) \<inter> bytes L1 = {}" using q(3) halves by blast
        have cc: "card (bytes L1) \<le> hp_cap s1" unfolding q(3) g(3) using card_mono [of "bytes L" "bytes L - blk (Suc sh) p"] prems(2) by simp
        obtain s2 L2 where "heap_put (p + block_size sh) sh s1 = Inr (True, s2)" "heap_wf s2 L2" "bytes L2 = bytes L1 \<union> blk sh (p + block_size sh)" "hp_cap s2 = hp_cap s1"
          using heap_put_ok [OF g(2) lv _ pm2 dis cc] by auto
        then show ?thesis using step False g(3) lv pm q(2,3) halves by (intro exI [of _ p] exI [of _ s2] exI [of _ L2]) auto
      qed
    qed
  qed
qed

section \<open>Size classes\<close>

lemma category_loop_ok:
  assumes "heap_bot \<le> r" "r < heap_top" "0 < sz" "sz < 2 ^ Suc r" "sz \<le> 2 ^ (heap_top - 1)"
  shows "\<exists>sh. category_loop (Suc r) sz = Inr sh \<and> sh \<in> levels \<and> sz \<le> block_size sh \<and> (sh = heap_bot \<or> block_size (sh - 1) < sz)"
  using assms
proof (induction r)
  case 0
  then show ?case by (simp add: heap_bot_def)
next
  case (Suc r)
  note prems = Suc.prems
  have db: "drop_bit (Suc r) sz = 0 \<longleftrightarrow> sz < 2 ^ Suc r" by (simp only: drop_bit_eq_div div_eq_0_iff) simp
  show ?case
  proof (cases "sz < 2 ^ Suc r")
    case True
    show ?thesis
    proof (cases "heap_bot < Suc r")
      case more: True
      then have "\<exists>sh. category_loop (Suc r) sz = Inr sh \<and> sh \<in> levels \<and> sz \<le> block_size sh \<and> (sh = heap_bot \<or> block_size (sh - 1) < sz)"
        by (intro Suc.IH) (use prems True in auto)
      then show ?thesis using more True db by (simp only: category_loop.simps(2) [of "Suc r"]) simp
    next
      case False
      then have "Suc r = heap_bot" using prems(1) by simp
      then have "category_loop (Suc (Suc r)) sz = Inr heap_bot" using True db by (simp only: category_loop.simps(2) [of "Suc r"]) simp
      moreover have "sz \<le> block_size heap_bot" using True \<open>Suc r = heap_bot\<close> by simp
      ultimately show ?thesis by (auto simp: levels_def heap_bot_def heap_top_def)
    qed
  next
    case False
    show ?thesis
    proof (cases "take_bit (Suc r) sz = 0")
      case True
      then have "sz mod 2 ^ Suc r = 0" by (simp add: take_bit_eq_mod)
      then have "sz = 2 ^ Suc r" using False prems(4) by (auto elim!: dvdE simp: mod_0_imp_dvd dest!: mod_0_imp_dvd)
      then show ?thesis using True False db prems by (auto simp: levels_def)
    next
      case tb: False
      have ne: "sz \<noteq> 2 ^ Suc r" using tb by (auto simp: take_bit_eq_mod)
      then have gt: "2 ^ Suc r < sz" using False by simp
      then have "(2 :: nat) ^ Suc r < 2 ^ (heap_top - 1)" using prems(5) by linarith
      then have "Suc r < heap_top - 1" by (rule power_less_imp_less_exp [rotated]) simp
      then have lt: "Suc (Suc r) < heap_top" by simp
      show ?thesis using tb False db lt gt prems by (auto simp: levels_def)
    qed
  qed
qed

lemma category_ok:
  assumes "0 < sz" "sz \<le> 2048"
  shows "\<exists>sh. category sz = Inr sh \<and> sh \<in> levels \<and> sz \<le> block_size sh \<and> (sh = heap_bot \<or> block_size (sh - 1) < sz)"
  using category_loop_ok [of 11 sz] assms by (simp add: category_def heap_bot_def heap_top_def del: category_loop.simps)


text \<open>A range of memory of at least a smallest block is cut into blocks that fit it.\<close>

lemma range_category_keeps:
  assumes "r \<in> levels \<and> base mod block_size r = 0 \<and> block_size r \<le> sz" "heap_bot \<le> c"
  shows "range_category base sz c r \<in> levels \<and> base mod block_size (range_category base sz c r) = 0 \<and> block_size (range_category base sz c r) \<le> sz"
  using assms
proof (induction base sz c r rule: range_category.induct)
  case (1 base sz c r)
  show ?case
  proof (cases "c < heap_top \<and> base mod block_size c = 0 \<and> \<not> sz < block_size c")
    case True
    then have "c \<in> levels \<and> base mod block_size c = 0 \<and> block_size c \<le> sz" using 1(3) by (simp add: levels_def)
    from 1(1) [OF True this] show ?thesis using 1(3) True by (subst (1 2 3) range_category.simps) simp
  next
    case False
    have e: "range_category base sz c r = r" unfolding range_category.simps [of base sz c r] using False by (simp only: if_False)
    show ?thesis unfolding e by (rule 1(2))
  qed
qed

lemma range_category_ok:
  assumes "base mod 16 = 0" "16 \<le> sz"
  defines "q \<equiv> range_category base sz heap_bot heap_top"
  shows "q \<in> levels" "base mod block_size q = 0" "block_size q \<le> sz"
proof -
  have "q = range_category base sz (Suc heap_bot) heap_bot"
    unfolding q_def by (subst range_category.simps) (use assms(1,2) in \<open>simp add: heap_bot_def heap_top_def\<close>)
  moreover have "heap_bot \<in> levels \<and> base mod block_size heap_bot = 0 \<and> block_size heap_bot \<le> sz"
    using assms by (simp add: levels_def heap_bot_def heap_top_def)
  ultimately show "q \<in> levels" "base mod block_size q = 0" "block_size q \<le> sz" using range_category_keeps [of heap_bot base sz "Suc heap_bot"] by auto
qed

lemma level_size: "sh \<in> levels \<Longrightarrow> \<exists>m. block_size sh = 16 * m \<and> 0 < m"
proof -
  assume "sh \<in> levels"
  then have "sh = 4 + (sh - 4)" by (simp add: levels_def heap_bot_def)
  then have "block_size sh = 2 ^ 4 * 2 ^ (sh - 4)" by (metis power_add)
  then show ?thesis by auto
qed

section \<open>More memory\<close>

lemma wf_cap [simp]: "heap_wf (s\<lparr>hp_cap := n\<rparr>) L = heap_wf s L"
proof -
  have "seg (s\<lparr>hp_cap := n\<rparr>) p c xs e = seg s p c xs e" for p c xs e by (rule seg_cong) simp
  then show ?thesis by (simp add: heap_wf_def)
qed

lemma card_blk [simp]: "card (blk sh a) = block_size sh" "finite (blk sh a)"
  by (simp_all add: blk_def)

lemma expand_loop_ok:
  assumes "heap_wf s L" "card (bytes L) \<le> hp_cap s" "cur \<noteq> 0" "cur mod 16 = 0" "{cur..<cur + len} \<inter> bytes L = {}" "len div 16 < n"
  shows "\<exists>s' L'. expand_loop n cur len ok s = Inr (ok \<or> 16 \<le> len, s') \<and> heap_wf s' L' \<and>
    bytes L' = bytes L \<union> {cur..<cur + len div 16 * 16} \<and> hp_cap s' = hp_cap s + len div 16 * 16"
  using assms
proof (induction n arbitrary: cur len ok s L)
  case 0
  then show ?case by simp
next
  case (Suc n)
  note prems = Suc.prems
  show ?case
  proof (cases "len < 16")
    case True
    then show ?thesis using prems(1) by (auto simp: heap_bot_def)
  next
    case False
    define sh where "sh = range_category cur len heap_bot heap_top"
    have q: "sh \<in> levels" "cur mod block_size sh = 0" "block_size sh \<le> len"
      using range_category_ok [of cur len] prems(4) False by (simp_all add: sh_def)
    obtain m where m: "block_size sh = 16 * m" "0 < m" using level_size [OF q(1)] by blast
    have b: "blk sh cur = {cur..<cur + 16 * m}" by (simp add: blk_def m(1))
    have dis: "blk sh cur \<inter> bytes L = {}" using prems(5) q(3) m(1) unfolding b by fastforce
    obtain s1 L1 where s1: "heap_put cur sh s = Inr (True, s1)" "heap_wf s1 L1" "bytes L1 = bytes L \<union> blk sh cur" "hp_cap s1 = hp_cap s"
      using heap_put_ok [OF prems(1) q(1) prems(3) q(2) dis prems(2)] by blast
    define s2 where "s2 = s1\<lparr>hp_cap := hp_cap s1 + 16 * m\<rparr>"
    have lt: "sh < heap_top" using q(1) by (simp add: levels_def)
    have step: "expand_loop (Suc n) cur len ok s = expand_loop n (cur + 16 * m) (len - 16 * m) True s2"
      using False lt s1(1) q(2,3) m(1) by (simp add: heap_bot_def [symmetric] sh_def [symmetric] Let_def s2_def) (simp add: heap_bot_def)
    have w2: "heap_wf s2 L1" using s1(2) by (simp add: s2_def)
    have c2: "card (bytes L1) \<le> hp_cap s2"
      unfolding s1(3) s2_def using card_Un_le [of "bytes L" "blk sh cur"] prems(2) s1(4) m(1) by simp
    have d2: "{cur + 16 * m..<cur + 16 * m + (len - 16 * m)} \<inter> bytes L1 = {}"
    proof -
      have "{cur + 16 * m..<cur + 16 * m + (len - 16 * m)} \<subseteq> {cur..<cur + len}" using q(3) m(1) by auto
      then show ?thesis using prems(5) unfolding s1(3) b by fastforce
    qed
    have dv: "(len - 16 * m) div 16 = len div 16 - m" by (simp add: div_mult_self_is_m)
    have mle: "m \<le> len div 16" using q(3) m(1) by (simp add: less_eq_div_iff_mult_less_eq mult.commute)
    have al: "(cur + 16 * m) mod 16 = 0" using prems(4) by simp
    have fu: "(len - 16 * m) div 16 < n" using dv m(2) mle prems(6) by simp
    obtain s3 L3 where s3: "expand_loop n (cur + 16 * m) (len - 16 * m) True s2 = Inr (True \<or> 16 \<le> len - 16 * m, s3)" "heap_wf s3 L3"
      "bytes L3 = bytes L1 \<union> {cur + 16 * m..<cur + 16 * m + (len - 16 * m) div 16 * 16}" "hp_cap s3 = hp_cap s2 + (len - 16 * m) div 16 * 16"
      using Suc.IH [OF w2 c2 _ al d2 fu, of True] prems(3) by auto
    have e: "16 * m + (len - 16 * m) div 16 * 16 = len div 16 * 16" using dv mle by (simp add: algebra_simps)
    have "bytes L3 = bytes L \<union> {cur..<cur + len div 16 * 16}" unfolding s3(3) s1(3) b using e by auto
    moreover have "hp_cap s3 = hp_cap s + len div 16 * 16" using s3(4) e by (simp add: s2_def s1(4))
    ultimately show ?thesis using step s3(1,2) False by auto
  qed
qed

text \<open>The part of a region that becomes free memory: from its first to its last multiple of 16.\<close>

definition usable :: "nat \<times> nat \<Rightarrow> nat set" where
  "usable a = (let base = (fst a + 15) div 16 * 16 in
     if fst a = 0 then {} else {base..<base + (snd a - (base - fst a)) div 16 * 16})"

lemma align16: "(b + 15) div 16 * 16 mod 16 = 0" "b \<le> (b + 15) div 16 * 16" for b :: nat
  by simp presburger

lemma usable_inside: "usable a \<subseteq> {fst a..<fst a + snd a}" "finite (usable a)"
proof -
  obtain b l where a: "a = (b, l)" by force
  define c where "c = (b + 15) div 16 * 16"
  have "b \<le> c" unfolding c_def by (rule align16)
  moreover have "(l - (c - b)) div 16 * 16 \<le> l - (c - b)" by simp
  ultimately show "usable a \<subseteq> {fst a..<fst a + snd a}" unfolding usable_def a Let_def fst_conv snd_conv c_def [symmetric]
    by (cases "c - b \<le> l") auto
  show "finite (usable a)" by (simp add: usable_def Let_def)
qed

lemma heap_expand_ok:
  assumes "heap_wf s L" "card (bytes L) \<le> hp_cap s" "{b..<b + l} \<inter> bytes L = {}"
  shows "\<exists>s' L'. heap_expand b l s = Inr (usable (b, l) \<noteq> {}, s') \<and> heap_wf s' L' \<and>
    bytes L' = bytes L \<union> usable (b, l) \<and> hp_cap s' = hp_cap s + card (usable (b, l))"
proof -
  define c where "c = (b + 15) div 16 * 16"
  have c: "b \<le> c" "c mod 16 = 0" unfolding c_def by (rule align16)+
  have u: "usable (b, l) = (if b = 0 then {} else {c..<c + (l - (c - b)) div 16 * 16})" by (simp add: usable_def c_def Let_def)
  show ?thesis
  proof (cases "b = 0 \<or> l = 0 \<or> l \<le> c - b")
    case True
    then have "usable (b, l) = {}" using u by auto
    moreover have "heap_expand b l s = Inr (False, s)" using True unfolding heap_expand_def Let_def c_def [symmetric] by auto
    ultimately show ?thesis using assms(1) by auto
  next
    case False
    have in_region: "{c..<c + (l - (c - b))} \<inter> bytes L = {}" 
    proof -
      have "{c..<c + (l - (c - b))} \<subseteq> {b..<b + l}" using c(1) False by auto
      then show ?thesis using assms(3) by blast
    qed
    have "(l - (c - b)) div 16 \<le> l div 16" by (simp add: div_le_mono)
    then have fu: "(l - (c - b)) div 16 < l div 16 + 2" by linarith
    have "c \<noteq> 0" using c(1) False by simp
    from expand_loop_ok [OF assms(1,2) this c(2) in_region fu, of False]
    obtain s' L' where s': "expand_loop (l div 16 + 2) c (l - (c - b)) False s = Inr (False \<or> 16 \<le> l - (c - b), s')" "heap_wf s' L'"
      "bytes L' = bytes L \<union> {c..<c + (l - (c - b)) div 16 * 16}" "hp_cap s' = hp_cap s + (l - (c - b)) div 16 * 16" by blast
    have e: "heap_expand b l s = expand_loop (l div 16 + 2) c (l - (c - b)) False s"
      using False unfolding heap_expand_def Let_def c_def [symmetric] by simp
    have "usable (b, l) \<noteq> {} \<longleftrightarrow> 16 \<le> l - (c - b)" using u False by (auto simp: div_greater_zero_iff)
    then show ?thesis using s' e u False by (intro exI [of _ s'] exI [of _ L']) simp
  qed
qed


section \<open>The heap and what its users hold\<close>

text \<open>Beside the heap, the blocks in use with the size they were asked with, and all memory the heap was ever given.\<close>

record heap_sys =
  hs_heap :: bheap
  hs_used :: "(nat \<times> nat) set"
  hs_given :: "nat set"

datatype heap_op = HAlloc "(nat \<times> nat) list" nat | HFree nat nat | HExpand nat nat

definition region :: "nat \<times> nat \<Rightarrow> nat set" where "region a = {fst a..<fst a + snd a}"

definition regions :: "(nat \<times> nat) list \<Rightarrow> nat set" where "regions as = (\<Union>a\<in>set as. region a)"

primrec heap_op_step :: "heap_op \<Rightarrow> heap_sys \<Rightarrow> heap_sys res" where
  "heap_op_step (HAlloc answers req) h = rbind (heap_allocate answers req (hs_heap h)) (\<lambda>(p, s).
     Inr (h\<lparr>hs_heap := s, hs_used := (if p = 0 then hs_used h else insert (p, req) (hs_used h)), hs_given := hs_given h \<union> regions answers\<rparr>))"
| "heap_op_step (HFree p sz) h = rbind (heap_release p sz (hs_heap h)) (\<lambda>(_, s). Inr (h\<lparr>hs_heap := s, hs_used := hs_used h - {(p, sz)}\<rparr>))"
| "heap_op_step (HExpand b l) h = rbind (heap_expand b l (hs_heap h)) (\<lambda>(_, s). Inr (h\<lparr>hs_heap := s, hs_given := hs_given h \<union> region (b, l)\<rparr>))"

text \<open>Regions given to the heap are new each time.\<close>

primrec fresh_regions :: "(nat \<times> nat) list \<Rightarrow> nat set \<Rightarrow> bool" where
  "fresh_regions [] M \<longleftrightarrow> True"
| "fresh_regions (a # as) M \<longleftrightarrow> region a \<inter> M = {} \<and> fresh_regions as (M \<union> region a)"

primrec heap_may :: "heap_op \<Rightarrow> heap_sys \<Rightarrow> bool" where
  "heap_may (HAlloc answers req) h \<longleftrightarrow> req \<noteq> 0 \<and> fresh_regions answers (hs_given h)"
| "heap_may (HFree p sz) h \<longleftrightarrow> (p, sz) \<in> hs_used h"
| "heap_may (HExpand b l) h \<longleftrightarrow> region (b, l) \<inter> hs_given h = {}"

text \<open>The block a user holds is the whole block of the size class of what it asked for.\<close>

definition held :: "nat \<times> nat \<Rightarrow> nat set" where
  "held u = (case category (snd u) of Inl _ \<Rightarrow> {} | Inr sh \<Rightarrow> blk sh (fst u))"

definition in_use :: "(nat \<times> nat) set \<Rightarrow> nat set" where "in_use U = (\<Union>u\<in>U. held u)"

definition held_ok :: "nat \<times> nat \<Rightarrow> bool" where
  "held_ok u \<longleftrightarrow> fst u \<noteq> 0 \<and> (\<exists>sh\<in>levels. category (snd u) = Inr sh \<and> fst u mod block_size sh = 0)"

definition heap_balanced :: "bheap \<Rightarrow> (nat \<Rightarrow> nat list) \<Rightarrow> (nat \<times> nat) set \<Rightarrow> nat set \<Rightarrow> bool" where
  "heap_balanced s L U M \<longleftrightarrow>
     heap_wf s L \<and> finite U \<and> (\<forall>u\<in>U. held_ok u) \<and> (\<forall>u\<in>U. \<forall>v\<in>U. u \<noteq> v \<longrightarrow> held u \<inter> held v = {}) \<and>
     bytes L \<inter> in_use U = {} \<and> bytes L \<union> in_use U \<subseteq> M \<and> hp_cap s = card (bytes L \<union> in_use U)"

definition heap_inv :: "heap_sys \<Rightarrow> bool" where
  "heap_inv h \<longleftrightarrow> (\<exists>L. heap_balanced (hs_heap h) L (hs_used h) (hs_given h))"

lemma held_finite [simp]: "finite (held u)" "finite U \<Longrightarrow> finite (in_use U)"
  by (simp_all add: held_def in_use_def split: sum.split)

lemma balancedD:
  assumes "heap_balanced s L U M"
  shows "heap_wf s L" "finite U" "u \<in> U \<Longrightarrow> held_ok u" "u \<in> U \<Longrightarrow> v \<in> U \<Longrightarrow> u \<noteq> v \<Longrightarrow> held u \<inter> held v = {}"
    "bytes L \<inter> in_use U = {}" "bytes L \<union> in_use U \<subseteq> M" "hp_cap s = card (bytes L \<union> in_use U)"
  using assms unfolding heap_balanced_def by simp_all

lemma balanced_cap: "heap_balanced s L U M \<Longrightarrow> card (bytes L) \<le> hp_cap s"
  using balancedD [of s L U M] by (simp add: card_mono)

lemma balanced_more: "heap_balanced s L U M \<Longrightarrow> M \<subseteq> M' \<Longrightarrow> heap_balanced s L U M'"
  unfolding heap_balanced_def by blast

lemma in_use_insert: "in_use (insert u U) = held u \<union> in_use U"
  by (simp add: in_use_def)

lemma balanced_take:
  assumes b: "heap_balanced s L U M" and sh: "category req = Inr sh" "sh \<in> levels"
    and p: "p \<noteq> 0" "p mod block_size sh = 0" "blk sh p \<subseteq> bytes L"
    and s': "heap_wf s' L'" "bytes L' = bytes L - blk sh p" "hp_cap s' = hp_cap s"
  shows "heap_balanced s' L' (insert (p, req) U) M"
proof -
  note B = balancedD [OF b]
  have h: "held (p, req) = blk sh p" by (simp add: held_def sh)
  have ho: "held_ok (p, req)" using sh p by (auto simp: held_ok_def)
  have dis: "held (p, req) \<inter> held v = {}" if "v \<in> U" for v using B(5) p(3) that unfolding h in_use_def by blast
  have un: "bytes L' \<union> in_use (insert (p, req) U) = bytes L \<union> in_use U" using p(3) unfolding in_use_insert h s'(2) by blast
  have d: "bytes L' \<inter> in_use (insert (p, req) U) = {}" using B(5) unfolding in_use_insert h s'(2) by blast
  have pair: "held u \<inter> held v = {}" if "u \<in> insert (p, req) U" "v \<in> insert (p, req) U" "u \<noteq> v" for u v
    using that dis B(4) by blast
  show ?thesis unfolding heap_balanced_def un s'(3) using s'(1) B(2,3,6,7) ho d pair by simp
qed

lemma balanced_give:
  assumes b: "heap_balanced s L U M" and u: "(p, sz) \<in> U" "category sz = Inr sh"
    and s': "heap_wf s' L'" "bytes L' = bytes L \<union> blk sh p" "hp_cap s' = hp_cap s"
  shows "heap_balanced s' L' (U - {(p, sz)}) M"
proof -
  note B = balancedD [OF b]
  have h: "held (p, sz) = blk sh p" by (simp add: held_def u)
  have iu: "in_use U = held (p, sz) \<union> in_use (U - {(p, sz)})" using u(1) in_use_insert [of "(p, sz)" "U - {(p, sz)}"] by (simp add: insert_absorb)
  have "held v \<inter> held (p, sz) = {}" if "v \<in> U - {(p, sz)}" for v using B(4) [of v "(p, sz)"] u(1) that by blast
  then have ds: "held (p, sz) \<inter> in_use (U - {(p, sz)}) = {}" unfolding in_use_def by blast
  have un: "bytes L' \<union> in_use (U - {(p, sz)}) = bytes L \<union> in_use U" unfolding iu s'(2) h by blast
  have d: "bytes L' \<inter> in_use (U - {(p, sz)}) = {}" using B(5) ds unfolding s'(2) h iu by blast
  show ?thesis unfolding heap_balanced_def un s'(3) using s'(1) B(2-4,6,7) d by simp
qed

lemma balanced_expand:
  assumes b: "heap_balanced s L U M" and r: "region a \<inter> M = {}"
  shows "\<exists>s' L'. heap_expand (fst a) (snd a) s = Inr (usable a \<noteq> {}, s') \<and> heap_balanced s' L' U (M \<union> region a)"
proof -
  note B = balancedD [OF b]
  have "{fst a..<fst a + snd a} \<inter> bytes L = {}" using r B(6) unfolding region_def by blast
  from heap_expand_ok [OF B(1) balanced_cap [OF b] this] obtain s' L' where s': "heap_expand (fst a) (snd a) s = Inr (usable a \<noteq> {}, s')"
    "heap_wf s' L'" "bytes L' = bytes L \<union> usable a" "hp_cap s' = hp_cap s + card (usable a)" by (simp only: prod.collapse) blast
  have inside: "usable a \<subseteq> region a" using usable_inside(1) by (simp add: region_def)
  have un: "bytes L' \<union> in_use U = (bytes L \<union> in_use U) \<union> usable a" unfolding s'(3) by blast
  have "(bytes L \<union> in_use U) \<inter> usable a = {}" using inside r B(6) by blast
  then have "hp_cap s' = card (bytes L' \<union> in_use U)" unfolding un s'(4) B(7) by (subst card_Un_disjoint) (use B(2) usable_inside(2) in auto)
  moreover have "bytes L' \<inter> in_use U = {}" using B(5,6) inside r unfolding s'(3) by blast
  moreover have "bytes L' \<union> in_use U \<subseteq> M \<union> region a" using B(6) inside unfolding un by blast
  ultimately have "heap_balanced s' L' U (M \<union> region a)" unfolding heap_balanced_def using s'(2) B(2-4) by simp
  then show ?thesis using s'(1) by blast
qed


lemma category_total: "req \<noteq> 0 \<Longrightarrow> \<exists>sh. category req = Inr sh \<and> (sh \<in> levels \<and> req \<le> block_size sh \<or> sh = heap_top)"
proof (cases "req \<le> 2048")
  case True
  assume "req \<noteq> 0"
  then show ?thesis using category_ok [of req] True by auto
next
  case False
  assume "req \<noteq> 0"
  then show ?thesis using False by (simp add: category_def heap_top_def)
qed

lemma balanced_get:
  assumes b: "heap_balanced s L U M" and sh: "category req = Inr sh" "sh \<in> levels"
  shows "\<exists>p s' L'. heap_get sh s = Inr (p, s') \<and> heap_balanced s' L' (if p = 0 then U else insert (p, req) U) M \<and>
    (if p = 0 then s' = s \<and> (\<forall>i\<in>levels. sh \<le> i \<longrightarrow> hp_pool s i = 0) else p mod block_size sh = 0 \<and> blk sh p \<subseteq> bytes L)"
proof -
  note B = balancedD [OF b]
  have "heap_bot \<le> sh" using sh(2) by (simp add: levels_def)
  from heap_get_ok [OF B(1) balanced_cap [OF b] this] obtain p s' L' where g: "heap_get sh s = Inr (p, s')" "heap_wf s' L'" "hp_cap s' = hp_cap s"
    "if p = 0 then bytes L' = bytes L \<and> s' = s \<and> (\<forall>i\<in>levels. sh \<le> i \<longrightarrow> L i = [])
     else sh \<in> levels \<and> p mod block_size sh = 0 \<and> blk sh p \<subseteq> bytes L \<and> bytes L' = bytes L - blk sh p" by blast
  show ?thesis
  proof (cases "p = 0")
    case True
    have "hp_pool s i = 0" if "i \<in> levels" "sh \<le> i" for i using heap_wfD(1) [OF B(1) that(1)] g(4) True that by simp
    then show ?thesis using True g(1,4) b by auto
  next
    case False
    then have "heap_balanced s' L' (insert (p, req) U) M" using balanced_take [OF b sh False _ _ g(2) _ g(3)] g(4) by simp
    then show ?thesis using False g(1,4) by auto
  qed
qed

lemma heap_allocate_ok:
  assumes "heap_balanced s L U M" "req \<noteq> 0" "fresh_regions answers M"
  shows "\<exists>p s' L'. heap_allocate answers req s = Inr (p, s') \<and> heap_balanced s' L' (if p = 0 then U else insert (p, req) U) (M \<union> regions answers)"
proof -
  obtain sh where sh: "category req = Inr sh" "sh \<in> levels \<or> sh = heap_top" using category_total [OF assms(2)] by blast
  show ?thesis
  proof (cases "sh \<in> levels")
    case False
    then have "sh = heap_top" using sh(2) by simp
    then have "heap_allocate answers req s = Inr (0, s)" using sh(1) by (cases answers) simp_all
    moreover have "heap_balanced s L U (M \<union> regions answers)" by (rule balanced_more [OF assms(1)]) simp
    ultimately show ?thesis by auto
  next
    case True
    then have lt: "\<not> heap_top \<le> sh" by (simp add: levels_def)
    show ?thesis using assms(1,3)
    proof (induction answers arbitrary: s L M)
      case Nil
      then show ?case using balanced_get [OF Nil(1) sh(1) True] sh(1) lt by (fastforce simp: regions_def)
    next
      case (Cons a as)
      obtain p s1 L1 where g: "heap_get sh s = Inr (p, s1)" "heap_balanced s1 L1 (if p = 0 then U else insert (p, req) U) M"
        using balanced_get [OF Cons.prems(1) sh(1) True] by blast
      have rg: "M \<union> regions (a # as) = (M \<union> region a) \<union> regions as" by (auto simp: regions_def)
      show ?case
      proof (cases "p = 0")
        case False
        then have "heap_allocate (a # as) req s = Inr (p, s1)" using g(1) sh(1) lt by simp
        moreover have "heap_balanced s1 L1 (insert (p, req) U) (M \<union> regions (a # as))" by (rule balanced_more [of _ _ _ M]) (use g(2) False in auto)
        ultimately show ?thesis using False by (intro exI [of _ p] exI [of _ s1] exI [of _ L1]) simp
      next
        case p0: True
        have fr: "region a \<inter> M = {}" "fresh_regions as (M \<union> region a)" using Cons.prems(2) by simp_all
        have b1: "heap_balanced s1 L1 U M" using g(2) p0 by simp
        obtain s2 L2 where x: "heap_expand (fst a) (snd a) s1 = Inr (usable a \<noteq> {}, s2)" "heap_balanced s2 L2 U (M \<union> region a)"
          using balanced_expand [OF b1 fr(1)] by blast
        have step: "heap_allocate (a # as) req s = (if usable a = {} then Inr (0, s2) else heap_allocate as req s2)" using g(1) x(1) sh(1) lt p0 by simp
        show ?thesis
        proof (cases "usable a = {}")
          case e: True
          have "heap_balanced s2 L2 U (M \<union> regions (a # as))" unfolding rg by (rule balanced_more [OF x(2)]) simp
          then show ?thesis using step e by auto
        next
          case False
          then show ?thesis using Cons.IH [OF x(2) fr(2)] step unfolding rg by simp
        qed
      qed
    qed
  qed
qed

lemma heap_release_ok:
  assumes "heap_balanced s L U M" "(p, sz) \<in> U"
  shows "\<exists>s' L'. heap_release p sz s = Inr (True, s') \<and> heap_balanced s' L' (U - {(p, sz)}) M \<and> bytes L' = bytes L \<union> held (p, sz)"
proof -
  note B = balancedD [OF assms(1)]
  obtain sh where sh: "p \<noteq> 0" "sh \<in> levels" "category sz = Inr sh" "p mod block_size sh = 0" using B(3) [OF assms(2)] by (auto simp: held_ok_def)
  have h: "held (p, sz) = blk sh p" by (simp add: held_def sh)
  then have "blk sh p \<inter> bytes L = {}" using B(5) assms(2) unfolding in_use_def by blast
  from heap_put_ok [OF B(1) sh(2,1,4) this balanced_cap [OF assms(1)]] obtain s' L' where s': "heap_put p sh s = Inr (True, s')" "heap_wf s' L'"
    "bytes L' = bytes L \<union> blk sh p" "hp_cap s' = hp_cap s" by blast
  have "heap_release p sz s = Inr (True, s')" using sh s'(1) by (simp add: heap_release_def levels_def)
  then show ?thesis using balanced_give [OF assms sh(3) s'(2-4)] s'(3) h by auto
qed

interpretation heap_ops: component heap_op_step heap_may heap_inv
proof
  fix h x
  assume "heap_inv h" and m: "heap_may x h"
  then obtain L where b: "heap_balanced (hs_heap h) L (hs_used h) (hs_given h)" unfolding heap_inv_def by blast
  show "\<exists>h'. heap_op_step x h = Inr h' \<and> heap_inv h'"
  proof (cases x)
    case (HAlloc answers req)
    then show ?thesis using heap_allocate_ok [OF b, of req answers] m by (fastforce simp: heap_inv_def)
  next
    case (HFree p sz)
    then show ?thesis using heap_release_ok [OF b, of p sz] m by (fastforce simp: heap_inv_def)
  next
    case (HExpand e l)
    then show ?thesis using balanced_expand [OF b, of "(e, l)"] m by (fastforce simp: heap_inv_def)
  qed
qed

section \<open>Properties\<close>

definition heap_start :: heap_sys where "heap_start = \<lparr>hs_heap = heap_new, hs_used = {}, hs_given = {}\<rparr>"

lemma heap_start_inv: "heap_inv heap_start"
proof -
  have "heap_wf heap_new (\<lambda>_. [])" by (simp add: heap_wf_def heap_new_def)
  then show ?thesis unfolding heap_inv_def heap_balanced_def
    by (intro exI [of _ "\<lambda>_. []"]) (simp add: heap_start_def in_use_def bytes_def heap_new_def)
qed

lemma category_nonzero: "category req = Inr sh \<Longrightarrow> req \<noteq> 0"
  by (rule notI) (simp add: category_def kassert_def)

lemma held_covers: "held_ok u \<Longrightarrow> region u \<subseteq> held u"
proof -
  assume "held_ok u"
  then obtain sh where sh: "sh \<in> levels" "category (snd u) = Inr sh" by (auto simp: held_ok_def)
  then have "snd u \<noteq> 0" using category_nonzero by blast
  then have "snd u \<le> block_size sh" using category_total [of "snd u"] sh by (auto simp: levels_def)
  then show ?thesis using sh(2) by (auto simp: region_def held_def blk_def)
qed

text \<open>C8: any sequence of allocations, releases and extensions of the heap runs to its end with every assertion of the lists passing, never
  hands out memory that is in use: the ranges the users asked for are inside the memory the heap was given and pairwise disjoint; and loses no memory: the
  capacity is what is free and what is in use.\<close>

theorem heap_memory_safe:
  assumes "legal heap_op_step heap_may ops heap_start"
  shows "\<exists>h L. exec_ops heap_op_step ops heap_start = Inr h \<and> heap_wf (hs_heap h) L \<and>
    (\<forall>u\<in>hs_used h. fst u \<noteq> 0 \<and> region u \<subseteq> hs_given h - bytes L) \<and>
    (\<forall>u\<in>hs_used h. \<forall>v\<in>hs_used h. u \<noteq> v \<longrightarrow> region u \<inter> region v = {}) \<and>
    hp_cap (hs_heap h) = card (bytes L) + card (in_use (hs_used h))"
proof -
  obtain h L where h: "exec_ops heap_op_step ops heap_start = Inr h" and b: "heap_balanced (hs_heap h) L (hs_used h) (hs_given h)"
    using heap_ops.sequence_keeps [OF heap_start_inv assms] unfolding heap_inv_def by blast
  note B = balancedD [OF b]
  have cov: "region u \<subseteq> held u" if "u \<in> hs_used h" for u using held_covers B(3) that by blast
  have ins: "region u \<subseteq> hs_given h - bytes L" if "u \<in> hs_used h" for u using cov [OF that] B(5,6) that unfolding in_use_def by blast
  have nz: "fst u \<noteq> 0" if "u \<in> hs_used h" for u using B(3) [OF that] by (simp add: held_ok_def)
  have dis: "region u \<inter> region v = {}" if "u \<in> hs_used h" "v \<in> hs_used h" "u \<noteq> v" for u v using cov B(4) that by blast
  have "hp_cap (hs_heap h) = card (bytes L) + card (in_use (hs_used h))" unfolding B(7) by (rule card_Un_disjoint) (use B(2,5) in simp_all)
  then show ?thesis using h B(1) ins nz dis by blast
qed

lemma heap_example: "legal heap_op_step heap_may [HExpand 4096 64, HAlloc [(8192, 2048)] 17, HAlloc [] 8] heap_start"
  by (simp add: heap_start_def region_def regions_def rbind_def split: sum.split prod.split)

theorem heap_memory_safe_witness:
  "\<exists>h L. exec_ops heap_op_step [HExpand 4096 64, HAlloc [(8192, 2048)] 17, HAlloc [] 8] heap_start = Inr h \<and> heap_wf (hs_heap h) L \<and>
    (\<forall>u\<in>hs_used h. fst u \<noteq> 0 \<and> region u \<subseteq> hs_given h - bytes L) \<and>
    (\<forall>u\<in>hs_used h. \<forall>v\<in>hs_used h. u \<noteq> v \<longrightarrow> region u \<inter> region v = {}) \<and>
    hp_cap (hs_heap h) = card (bytes L) + card (in_use (hs_used h))"
  by (rule heap_memory_safe [OF heap_example])

text \<open>a request is served whenever a free block of its size class or of a larger one exists, without asking for more memory.
  The block is aligned to its class, large enough, inside the memory given to the heap and not in use.\<close>

theorem heap_allocate_serves:
  assumes "heap_inv h" "category req = Inr sh" "sh \<le> i" "i < heap_top" "hp_pool (hs_heap h) i \<noteq> 0"
  shows "\<exists>p s'. heap_allocate answers req (hs_heap h) = Inr (p, s') \<and> p \<noteq> 0 \<and> p mod block_size sh = 0 \<and> req \<le> block_size sh \<and>
    {p..<p + block_size sh} \<subseteq> hs_given h - in_use (hs_used h)"
proof -
  obtain L where b: "heap_balanced (hs_heap h) L (hs_used h) (hs_given h)" using assms(1) unfolding heap_inv_def by blast
  have "req \<noteq> 0" by (rule category_nonzero [OF assms(2)])
  then have sh: "sh \<in> levels" "req \<le> block_size sh" using category_total [of req] assms(2-4) by auto
  have i: "i \<in> levels" using sh(1) assms(3,4) by (simp add: levels_def)
  obtain p s' where g: "heap_get sh (hs_heap h) = Inr (p, s')"
    "if p = 0 then s' = hs_heap h \<and> (\<forall>i\<in>levels. sh \<le> i \<longrightarrow> hp_pool (hs_heap h) i = 0) else p mod block_size sh = 0 \<and> blk sh p \<subseteq> bytes L"
    using balanced_get [OF b assms(2) sh(1)] by blast
  have p: "p \<noteq> 0" using g(2) i assms(3,5) by (metis (full_types))
  moreover have "heap_allocate answers req (hs_heap h) = Inr (p, s')" using g(1) p assms(2-4) by (cases answers) simp_all
  moreover have "blk sh p \<subseteq> hs_given h - in_use (hs_used h)" using g(2) p balancedD(5,6) [OF b] by auto
  ultimately show ?thesis using g(2) sh(2) by (auto simp: blk_def)
qed


text \<open>A heap of one block of 16 bytes.\<close>

definition small_heap :: heap_sys where
  "small_heap = \<lparr>hs_heap = \<lparr>hp_prev = (\<lambda>_. 0), hp_next = (\<lambda>_. 0), hp_pool = (\<lambda>_. 0)(4 := 4096), hp_cap = 16\<rparr>,
     hs_used = {}, hs_given = region (4096, 16)\<rparr>"

lemma small_heap_inv: "heap_inv small_heap"
proof -
  have r: "range_category 4096 16 heap_bot heap_top = 4"
    by (subst range_category.simps, subst range_category.simps) (simp add: heap_bot_def heap_top_def)
  have two: "find_place 2 s p c b = find_place (Suc 1) s p c b" for s p c b by (simp only: numeral_2_eq_2 One_nat_def)
  have p: "heap_put 4096 4 heap_new = Inr (True, heap_new\<lparr>hp_pool := (\<lambda>_. 0)(4 := 4096)\<rparr>)"
    by (subst heap_put.simps) (simp add: heap_new_def find_buddy_def link_def fun_upd_idem two)
  have "heap_op_step (HExpand 4096 16) heap_start = Inr small_heap"
    by (simp add: heap_start_def heap_expand_def r p) (simp add: heap_bot_def heap_top_def small_heap_def heap_new_def)
  then show ?thesis using heap_ops.step_keeps [OF heap_start_inv, of "HExpand 4096 16"] by (simp add: heap_start_def)
qed

lemma category_ten: "category 10 = Inr 4"
  by code_simp

theorem heap_allocate_serves_witness:
  "\<exists>p s'. heap_allocate [] 10 (hs_heap small_heap) = Inr (p, s') \<and> p \<noteq> 0 \<and> p mod block_size 4 = 0 \<and> 10 \<le> (block_size 4 :: nat) \<and>
    {p..<p + block_size 4} \<subseteq> hs_given small_heap - in_use (hs_used small_heap)"
  by (rule heap_allocate_serves [OF small_heap_inv, of 10 4 4 "[]"])
    (simp_all add: category_ten heap_top_def small_heap_def)

end
