(* ===== verification/Crt_Stream.thy ===== *)
theory Crt_Stream
  imports Crt_Text Buddy_Heap
begin

text \<open>
  The streams and the memory functions of the user runtime (\<^verbatim>\<open>app/libuos/uoscrt.cpp\<close>). What the kernel answers to the system
  calls on a stream is a list: each answer holds the results of one turn of a loop, of the transfer itself and, when it moved nothing, of
  the wait and of the query of the state after it. A loop that has used up the answers has not returned (\<open>OutOfFuel\<close>). Writing past the
  buffer of a stream stops the model. The tests for null streams and strings are left out.
\<close>

section \<open>Streams\<close>

definition buffer_size :: nat where "buffer_size = 0x1F0"

record crt_file =
  f_flags :: hword
  f_head :: nat
  f_tail :: nat
  f_buffer :: "int list"

abbreviation EOF_BIT :: hword where "EOF_BIT \<equiv> 1"
abbreviation FAIL_BIT :: hword where "FAIL_BIT \<equiv> 2"
abbreviation BAD_BIT :: hword where "BAD_BIT \<equiv> 4"

text \<open>\<open>ans_data\<close> are the bytes a read has put into the caller's buffer.\<close>

record answer =
  ans_ok :: bool
  ans_size :: nat
  ans_woken :: bool
  ans_stat :: dword
  ans_result :: nat
  ans_data :: "int list"

definition add_flag :: "hword \<Rightarrow> crt_file \<Rightarrow> crt_file" where "add_flag b f = f\<lparr>f_flags := f_flags f OR b\<rparr>"

text \<open>One turn of the loop that writes: the number of bytes moved, or the failure, with the flags. The kernel never takes more
  than it is offered (\<^verbatim>\<open>pipe::write\<close>, \<^verbatim>\<open>file::write\<close>), and never gives more than it is asked for.\<close>

definition write_turn :: "answer \<Rightarrow> nat \<Rightarrow> crt_file \<Rightarrow> nat option \<times> crt_file" where
  "write_turn a len f =
     (if \<not> ans_ok a then (None, add_flag FAIL_BIT f)
      else if min (ans_size a) len \<noteq> 0 then (Some (min (ans_size a) len), f)
      else if \<not> ans_woken a then (None, add_flag FAIL_BIT f)
      else if ans_stat a > 0xFF then (None, add_flag FAIL_BIT f)
      else if ans_stat a AND 0xC \<noteq> 0 then (None, add_flag FAIL_BIT f)
      else if ans_stat a AND 0x30 \<noteq> 0 then (None, add_flag BAD_BIT f)
      else (Some (min (ans_result a) len), f))"

text \<open>The result, the stream, what the kernel took of the data and the answers left.\<close>

primrec block_write :: "answer list \<Rightarrow> crt_file \<Rightarrow> int list \<Rightarrow> nat \<Rightarrow> (bool \<times> crt_file \<times> int list \<times> answer list) res" where
  "block_write [] f ptr len = Inl OutOfFuel"
| "block_write (a # as) f ptr len =
     (case write_turn a len f of
        (None, f) \<Rightarrow> Inr (False, f, [], as)
      | (Some sz, f) \<Rightarrow>
          let left = len - sz in
          if left = 0 then Inr (True, f, take sz ptr, as)
          else rbind (block_write as f (drop sz ptr) left) (\<lambda>(ok, f, out, as). Inr (ok, f, take sz ptr @ out, as)))"

record printer =
  pr_buffer :: "int list"
  pr_count :: nat
  pr_file :: crt_file
  pr_out :: "int list"
  pr_answers :: "answer list"
  pr_stuck :: bool

definition file_sink :: "int \<Rightarrow> printer \<Rightarrow> bool \<times> printer" where
  "file_sink ch p =
     (let p = p\<lparr>pr_buffer := pr_buffer p @ [ch]\<rparr>; index = length (pr_buffer p) in
      if index < 0x100 then (True, p)
      else case block_write (pr_answers p) (pr_file p) (pr_buffer p) 0x100 of
        Inl _ \<Rightarrow> (False, p\<lparr>pr_stuck := True\<rparr>)
      | Inr (ok, f, out, as) \<Rightarrow>
          (ok, p\<lparr>pr_count := pr_count p + index, pr_buffer := [], pr_file := f, pr_out := pr_out p @ out, pr_answers := as\<rparr>))"

definition fprintf :: "answer list \<Rightarrow> crt_file \<Rightarrow> cstr \<Rightarrow> va list \<Rightarrow> (int \<times> crt_file \<times> int list \<times> answer list) res" where
  "fprintf as f format args =
     rbind (imp_printf file_sink format args \<lparr>pr_buffer = [], pr_count = 0, pr_file = f, pr_out = [], pr_answers = as, pr_stuck = False\<rparr>) (\<lambda>(res, p).
       if pr_stuck p then Inl OutOfFuel
       else let index = length (pr_buffer p) in
         if index \<noteq> 0 \<and> res then
           rbind (block_write (pr_answers p) (pr_file p) (pr_buffer p) index) (\<lambda>(ok, f, out, as).
             Inr (if ok then int (pr_count p + index) else - 1, f, pr_out p @ out, as))
         else Inr (if res then int (pr_count p + index) else - 1, pr_file p, pr_out p, pr_answers p))"

definition fputs :: "answer list \<Rightarrow> crt_file \<Rightarrow> cstr \<Rightarrow> (int \<times> crt_file \<times> int list \<times> answer list) res" where
  "fputs as f str = rbind (block_write as f str (length str)) (\<lambda>(ok, f, out, as). Inr (if ok then int (length str) else - 1, f, out, as))"

definition fputc :: "answer list \<Rightarrow> crt_file \<Rightarrow> int \<Rightarrow> (int \<times> crt_file \<times> int list \<times> answer list) res" where
  "fputc as f ch = rbind (block_write as f [sint (word_of_int ch :: byte)] 1) (\<lambda>(ok, f, out, as). Inr (if ok then ch else - 1, f, out, as))"

definition puts :: "answer list \<Rightarrow> crt_file \<Rightarrow> cstr \<Rightarrow> (int \<times> crt_file \<times> int list \<times> answer list) res" where
  "puts as f str = rbind (fputs as f str) (\<lambda>(r, f, out, as).
     if r < 0 then Inr (- 1, f, out, as)
     else rbind (fputc as f 10) (\<lambda>(r, f, out', as). Inr (r, f, out @ out', as)))"

text \<open>Reading: the bytes between head and tail, in the order of the ring.\<close>

definition bytes_buffered :: "crt_file \<Rightarrow> nat" where
  "bytes_buffered f = (f_tail f + buffer_size - f_head f) mod buffer_size"

definition ring_copy :: "crt_file \<Rightarrow> nat \<Rightarrow> int list" where
  "ring_copy f sz =
     (if f_head f + sz \<le> buffer_size then take sz (drop (f_head f) (f_buffer f))
      else let slice = buffer_size - f_head f in take slice (drop (f_head f) (f_buffer f)) @ take (sz - slice) (f_buffer f))"

definition store_at :: "nat \<Rightarrow> int list \<Rightarrow> int list \<Rightarrow> int list" where
  "store_at i data buffer = take i buffer @ data @ drop (i + length data) buffer"

definition read_turn :: "answer \<Rightarrow> nat \<Rightarrow> crt_file \<Rightarrow> nat option \<times> crt_file" where
  "read_turn a req f =
     (if \<not> ans_ok a then (None, add_flag FAIL_BIT f)
      else if min (ans_size a) req \<noteq> 0 then (Some (min (ans_size a) req), f)
      else if \<not> ans_woken a then (None, add_flag FAIL_BIT f)
      else if ans_stat a > 0xFF then (None, add_flag FAIL_BIT f)
      else let f = (if ans_stat a AND 1 \<noteq> 0 then add_flag EOF_BIT f else f) in
        if ans_stat a AND 0xC \<noteq> 0 then (None, add_flag FAIL_BIT f)
        else if ans_stat a AND 0x30 \<noteq> 0 then (None, add_flag BAD_BIT f)
        else (Some (min (ans_result a) req), f))"

text \<open>The size of a pointer stands where the room behind the tail is meant: \<^verbatim>\<open>sizeof(stream->buffer - stream->tail)\<close>.\<close>

definition refill :: "int list \<Rightarrow> nat \<Rightarrow> crt_file \<Rightarrow> crt_file res" where
  "refill data sz f =
     rbind (if f_tail f + sz \<le> buffer_size then Inr (store_at (f_tail f) (take sz data) (f_buffer f))
            else let slice = 8 in
              if f_tail f + slice > buffer_size \<or> sz < slice then bugcheck ''overflow''
              else Inr (store_at 0 (take (sz - slice) (drop slice data)) (store_at (f_tail f) (take slice data) (f_buffer f))))
       (\<lambda>buffer. Inr (f\<lparr>f_buffer := buffer, f_tail := (f_tail f + sz) mod buffer_size\<rparr>))"

definition drain :: "nat \<Rightarrow> crt_file \<Rightarrow> crt_file" where
  "drain sz f = f\<lparr>f_head := (f_head f + sz) mod buffer_size\<rparr>"

primrec block_read :: "answer list \<Rightarrow> crt_file \<Rightarrow> nat \<Rightarrow> (bool \<times> crt_file \<times> int list \<times> answer list) res" where
  "block_read [] f len =
     (let sz = min (bytes_buffered f) len in
      if len - sz = 0 then Inr (True, drain sz f, ring_copy f sz, []) else Inl OutOfFuel)"
| "block_read (a # as) f len =
     (let sz = min (bytes_buffered f) len; out = ring_copy f sz; f = drain sz f; len = len - sz in
      if len = 0 then Inr (True, f, out, a # as)
      else case read_turn a (min (max 0x40 len) 0x100) f of
          (None, f) \<Rightarrow> Inr (False, f, out, as)
        | (Some sz, f) \<Rightarrow> rbind (refill (ans_data a) sz f) (\<lambda>f.
            rbind (block_read as f len) (\<lambda>(ok, f, out', as). Inr (ok, f, out @ out', as))))"

primrec fgets_loop :: "nat \<Rightarrow> answer list \<Rightarrow> crt_file \<Rightarrow> (crt_file \<times> cstr \<times> answer list) res" where
  "fgets_loop 0 as f = Inr (f, [], as)"
| "fgets_loop (Suc n) as f = rbind (block_read as f 1) (\<lambda>(ok, f, out, as).
     if \<not> ok then Inr (f, [], as)
     else if out = [10] then Inr (f, out, as)
     else rbind (fgets_loop n as f) (\<lambda>(f, out', as). Inr (f, out @ out', as)))"

definition fgets :: "nat \<Rightarrow> answer list \<Rightarrow> crt_file \<Rightarrow> (crt_file \<times> cstr option \<times> answer list) res" where
  "fgets count as f =
     (if count = 0 then Inr (f, None, as)
      else if count = 1 then Inr (f, Some [], as)
      else rbind (fgets_loop (count - 1) as f) (\<lambda>(f, out, as). Inr (f, if out \<noteq> [] then Some out else None, as)))"

definition fgetc :: "answer list \<Rightarrow> crt_file \<Rightarrow> (int \<times> crt_file \<times> answer list) res" where
  "fgetc as f = rbind (block_read as f 1) (\<lambda>(ok, f, out, as). Inr (if ok then hd out else - 1, f, as))"

definition ungetc :: "int \<Rightarrow> crt_file \<Rightarrow> int \<times> crt_file" where
  "ungetc ch f =
     (if ch = - 1 then (- 1, f)
      else let new_tail = (f_tail f + 1) mod buffer_size in
        if new_tail = f_head f then (- 1, f)
        else (ch, f\<lparr>f_buffer := (f_buffer f)[f_tail f := sint (word_of_int ch :: byte)], f_tail := new_tail\<rparr>))"

section \<open>Memory\<close>

record crt =
  crt_heap :: bheap
  crt_cells :: "nat \<Rightarrow> dword"
  crt_guard :: qword

text \<open>\<open>grow\<close>: the answers to the heap's requests for memory; \<open>pages\<close>: the pages reserved and committed for a large block, 0 if there are none.\<close>

definition crt_new :: "(nat \<times> nat) list \<Rightarrow> nat \<Rightarrow> nat \<Rightarrow> crt \<Rightarrow> (nat \<times> crt) res" where
  "crt_new grow pages sz s =
     (if sz \<le> 2048 then rbind (heap_allocate grow sz (crt_heap s)) (\<lambda>(p, h).
        if p \<noteq> 0 then Inr (p, s\<lparr>crt_heap := h\<rparr>) else bugcheck ''abort'')
      else if pages \<noteq> 0 then Inr (pages, s) else bugcheck ''abort'')"

definition crt_delete :: "nat \<Rightarrow> nat \<Rightarrow> crt \<Rightarrow> crt res" where
  "crt_delete ptr sz s =
     (if ptr = 0 then Inr s
      else if sz \<le> 2048 then rbind (heap_release ptr sz (crt_heap s)) (\<lambda>(_, h). Inr (s\<lparr>crt_heap := h\<rparr>))
      else kassert (ptr mod 4096 = 0) (Inr s))"

definition malloc_size :: "nat \<Rightarrow> nat" where "malloc_size sz = 16 + (sz + 7) div 8 * 8"

definition malloc :: "(nat \<times> nat) list \<Rightarrow> nat \<Rightarrow> nat \<Rightarrow> crt \<Rightarrow> (nat \<times> crt) res" where
  "malloc grow pages sz s =
     (let sz = malloc_size sz in
      rbind (crt_new grow pages sz s) (\<lambda>(ptr, s).
        Inr (ptr + 16, s\<lparr>crt_cells := (crt_cells s)(ptr := ucast (crt_guard s), ptr + 4 := word_of_nat sz,
          ptr + 8 := word_of_nat (sz div 2 ^ 32), ptr + 12 := ucast (drop_bit 32 (crt_guard s)))\<rparr>)))"

definition free :: "nat \<Rightarrow> crt \<Rightarrow> crt res" where
  "free p s =
     (let ptr = p - 16 in
      if ucast (crt_cells s ptr) \<noteq> crt_guard s \<or> ucast (crt_cells s (ptr + 12)) \<noteq> drop_bit 32 (crt_guard s) then bugcheck ''abort''
      else crt_delete ptr (unat (crt_cells s (ptr + 8)) * 2 ^ 32 + unat (crt_cells s (ptr + 4))) s)"


section \<open>Writing\<close>

lemma or_nonzero: "b \<noteq> 0 \<Longrightarrow> (x :: 'a::len word) OR b \<noteq> 0"
  by (metis or_eq_0_iff)

lemma write_turn_result:
  "write_turn a len f = (Some sz, f') \<Longrightarrow> sz \<le> len \<and> f' = f"
  "write_turn a len f = (None, f') \<Longrightarrow> f_flags f' \<noteq> 0"
  by (auto simp: write_turn_def add_flag_def or_eq_0_iff split: if_splits)

lemma block_write_result:
  assumes "block_write as f ptr (length ptr) = Inr (ok, f', out, as')"
  shows "if ok then out = ptr \<and> f' = f else f_flags f' \<noteq> 0 \<and> (\<exists>rest. ptr = out @ rest)"
  using assms
proof (induction as arbitrary: f ptr out)
  case (Cons a as)
  obtain r g where w: "write_turn a (length ptr) f = (r, g)" by force
  show ?case
  proof (cases r)
    case None
    then show ?thesis using Cons.prems w write_turn_result(2) [of a "length ptr" f g] by auto
  next
    case (Some sz)
    then have sz: "sz \<le> length ptr" "g = f" using write_turn_result(1) [of a "length ptr" f sz g] w by auto
    show ?thesis
    proof (cases "length ptr - sz = 0")
      case True
      then show ?thesis using Cons.prems w Some sz by auto
    next
      case False
      then obtain out' where o: "block_write as f (drop sz ptr) (length (drop sz ptr)) = Inr (ok, f', out', as')" "out = take sz ptr @ out'"
        using Cons.prems w Some sz by (auto simp: rbind_eq_Inr split_beta)
      from Cons.IH [OF o(1)] o(2) show ?thesis by (cases ok) (auto, metis append.assoc append_take_drop_id)
    qed
  qed
qed simp

text \<open>The printer has handed on or still holds exactly the text so far.\<close>

definition printed :: "int list \<Rightarrow> printer \<Rightarrow> bool" where
  "printed s p \<longleftrightarrow> pr_out p @ pr_buffer p = s \<and> pr_count p = length (pr_out p) \<and> length (pr_buffer p) < 0x100 \<and> \<not> pr_stuck p"

definition broken :: "printer \<Rightarrow> bool" where "broken p \<longleftrightarrow> pr_stuck p \<or> f_flags (pr_file p) \<noteq> 0"

lemma file_sink_step:
  assumes "printed s p" "file_sink c p = (go, p')"
  shows "go \<and> printed (s @ [c]) p' \<or> \<not> go \<and> broken p'"
proof (cases "length (pr_buffer p) + 1 < 0x100")
  case True
  then show ?thesis using assms by (auto simp: file_sink_def printed_def Let_def)
next
  case False
  let ?b = "pr_buffer p @ [c]"
  have len: "length ?b = 0x100" using assms(1) False by (simp add: printed_def)
  show ?thesis
  proof (cases "block_write (pr_answers p) (pr_file p) ?b (length ?b)")
    case (Inl e)
    then show ?thesis using assms(2) len by (auto simp: file_sink_def broken_def Let_def)
  next
    case (Inr r)
    obtain ok f out as where r: "r = (ok, f, out, as)" by (metis prod_cases4)
    note w = block_write_result [OF Inr [unfolded r]]
    have "go = ok" "p' = p\<lparr>pr_count := pr_count p + 0x100, pr_buffer := [], pr_file := f, pr_out := pr_out p @ out, pr_answers := as\<rparr>"
      using assms(2) Inr r len by (auto simp: file_sink_def Let_def)
    then show ?thesis using w assms(1) len by (cases ok) (auto simp: printed_def broken_def)
  qed
qed

lemma emit_file:
  assumes "printed s p" "emit file_sink t p = (go, p')"
  shows "go \<and> printed (s @ t) p' \<or> \<not> go \<and> broken p'"
  using assms
proof (induction t arbitrary: s p)
  case (Cons c t)
  obtain g q where q: "file_sink c p = (g, q)" by force
  from file_sink_step [OF Cons.prems(1) q] show ?case
  proof
    assume "g \<and> printed (s @ [c]) q"
    then show ?thesis using Cons.IH [of "s @ [c]" q] Cons.prems(2) q by simp
  next
    assume "\<not> g \<and> broken q"
    then show ?thesis using Cons.prems(2) q by auto
  qed
qed simp

lemma printf_file:
  assumes "imp_printf plain_sink f args s = Inr (ok, full)" "printed s p" "imp_printf file_sink f args p = Inr (res, p')"
  shows "res = ok \<and> printed full p' \<or> broken p'"
  using assms
proof (induction f args s arbitrary: p rule: printf_induct)
  case (Char c f args s)
  obtain g q where q: "file_sink c p = (g, q)" by force
  from file_sink_step [OF Char.prems(2) q] show ?case using Char q by (cases g) auto
next
  case (Convert c f args s t f' args')
  obtain g q where q: "emit file_sink t p = (g, q)" by force
  from emit_file [OF Convert.prems(2) q] show ?case using Convert q by (cases g) (auto simp: printf_convert emit_plain)
qed (auto simp: printf_convert printf_undefined)

text \<open>a call of \<^verbatim>\<open>fprintf\<close> that leaves no error flag on the stream has handed the whole text to the kernel, in order and
  each character once, and returns its length.\<close>

theorem fprintf_writes_text:
  assumes "imp_printf plain_sink format args [] = Inr (True, full)"
    and "fprintf as f format args = Inr (r, f', out, as')" "f_flags f' = 0"
  shows "out = full \<and> r = int (length full)"
proof -
  let ?p0 = "\<lparr>pr_buffer = [], pr_count = 0, pr_file = f, pr_out = [], pr_answers = as, pr_stuck = False\<rparr>"
  obtain res p where p: "imp_printf file_sink format args ?p0 = Inr (res, p)" "\<not> pr_stuck p"
    using assms(2) by (auto simp: fprintf_def rbind_eq_Inr split: if_splits)
  have "printed [] ?p0" by (simp add: printed_def)
  from printf_file [OF assms(1) this p(1)] have st: "res \<and> printed full p \<or> f_flags (pr_file p) \<noteq> 0" using p(2) by (auto simp: broken_def)
  show ?thesis
  proof (cases "pr_buffer p \<noteq> [] \<and> res")
    case True
    then obtain ok o1 where w: "block_write (pr_answers p) (pr_file p) (pr_buffer p) (length (pr_buffer p)) = Inr (ok, f', o1, as')"
      and res: "out = pr_out p @ o1" "r = (if ok then int (pr_count p + length (pr_buffer p)) else - 1)"
      using assms(2) p by (auto simp: fprintf_def rbind_eq_Inr Let_def)
    note b = block_write_result [OF w]
    have "ok" using b assms(3) by (cases ok) simp_all
    then have "printed full p" "o1 = pr_buffer p" using b st assms(3) by auto
    then show ?thesis using res \<open>ok\<close> by (auto simp: printed_def)
  next
    case False
    then have e: "f' = pr_file p" "out = pr_out p" "r = (if res then int (pr_count p + length (pr_buffer p)) else - 1)"
      using assms(2) p by (auto simp: fprintf_def Let_def split: if_splits)
    then show ?thesis using st assms(3) False by (auto simp: printed_def)
  qed
qed


definition good_answer :: "int list \<Rightarrow> answer" where
  "good_answer data = \<lparr>ans_ok = True, ans_size = length data, ans_woken = True, ans_stat = 0, ans_result = length data, ans_data = data\<rparr>"

definition failed_answer :: answer where
  "failed_answer = \<lparr>ans_ok = False, ans_size = 0, ans_woken = False, ans_stat = 0, ans_result = 0, ans_data = []\<rparr>"

definition new_file :: crt_file where "new_file = \<lparr>f_flags = 0, f_head = 0, f_tail = 0, f_buffer = replicate buffer_size 0\<rparr>"

theorem fprintf_writes_text_witness:
  "imp_printf plain_sink [104, 105] [] [] = Inr (True, [104, 105]) \<and>
   fprintf [good_answer [0], good_answer [0]] new_file [104, 105] [] = Inr (2, new_file, [104, 105], [])"
proof -
  have a: "imp_printf plain_sink [104, 105] [] [] = Inr (True, [104, 105])" by simp
  have b: "fprintf [good_answer [0], good_answer [0]] new_file [104, 105] [] = Inr (2, new_file, [104, 105], [])"
    by (simp add: fprintf_def file_sink_def good_answer_def write_turn_def)
  have "f_flags new_file = 0" by (simp add: new_file_def)
  from fprintf_writes_text [OF a b this] a b show ?thesis by simp
qed

text \<open>A failure while the text is longer than the buffer does not show in the result: the call reports the characters as written.\<close>

lemma plain_format: "37 \<notin> set t \<Longrightarrow> imp_printf func t args s = Inr (True, snd (emit func t s))"
  by (induction t arbitrary: s) (auto simp: split_beta)

lemma emit_fill: "length (pr_buffer p) + length t < 0x100 \<Longrightarrow> emit file_sink t p = (True, p\<lparr>pr_buffer := pr_buffer p @ t\<rparr>)"
  by (induction t arbitrary: p) (simp_all add: file_sink_def Let_def)

lemma emit_append: "emit func (s @ t) p = (if fst (emit func s p) then emit func t (snd (emit func s p)) else emit func s p)"
  by (induction s arbitrary: p) (auto simp: split_beta)

lemma fprintf_hides_failure:
  "fprintf [failed_answer] new_file (replicate 256 97) [] = Inr (256, add_flag FAIL_BIT new_file, [], [])"
proof -
  have "(256 :: nat) = Suc 255" by simp
  then have r: "replicate 256 (97 :: int) = replicate 255 97 @ [97]" by (simp only: replicate.simps replicate_append_same)
  show ?thesis unfolding fprintf_def r
    by (subst plain_format) (simp_all add: emit_append emit_fill file_sink_def failed_answer_def write_turn_def)
qed

section \<open>Reading\<close>

text \<open>A stream whose buffer has not wrapped around yet.\<close>

definition file_ok :: "crt_file \<Rightarrow> bool" where
  "file_ok f \<longleftrightarrow> f_head f \<le> f_tail f \<and> f_tail f < buffer_size \<and> length (f_buffer f) = buffer_size"

definition buffered :: "crt_file \<Rightarrow> int list" where
  "buffered f = take (f_tail f - f_head f) (drop (f_head f) (f_buffer f))"

lemma file_ok_simps:
  assumes "file_ok f"
  shows "bytes_buffered f = length (buffered f)" "sz \<le> length (buffered f) \<Longrightarrow> ring_copy f sz = take sz (buffered f)"
    "sz \<le> length (buffered f) \<Longrightarrow> file_ok (drain sz f)" "sz \<le> length (buffered f) \<Longrightarrow> buffered (drain sz f) = drop sz (buffered f)"
proof -
  have len: "length (buffered f) = f_tail f - f_head f" using assms by (auto simp: file_ok_def buffered_def min_def)
  have "f_tail f + buffer_size - f_head f = (f_tail f - f_head f) + buffer_size" using assms by (simp add: file_ok_def)
  then have "bytes_buffered f = (f_tail f - f_head f) mod buffer_size" by (simp only: bytes_buffered_def mod_add_self2)
  moreover have "f_tail f - f_head f < buffer_size" using assms by (auto simp: file_ok_def)
  ultimately show "bytes_buffered f = length (buffered f)" using len by simp
  show "ring_copy f sz = take sz (buffered f)" if "sz \<le> length (buffered f)"
  proof -
    have "f_head f + sz \<le> buffer_size" using that len assms by (auto simp: file_ok_def)
    then show ?thesis using that len by (simp add: ring_copy_def buffered_def min_absorb1)
  qed
  have hd: "(f_head f + sz) mod buffer_size = f_head f + sz" if "sz \<le> length (buffered f)"
    by (rule mod_less) (use that len assms in \<open>auto simp: file_ok_def\<close>)
  show "file_ok (drain sz f)" if "sz \<le> length (buffered f)" using hd [OF that] that len assms by (auto simp: drain_def file_ok_def)
  show "buffered (drain sz f) = drop sz (buffered f)" if "sz \<le> length (buffered f)"
    using hd [OF that] that len assms by (simp add: drain_def buffered_def drop_take ac_simps)
qed

text \<open>What a well-behaved stream answers to a read: some bytes, at once or after a wait, never more than the smallest request.\<close>

definition plain_answer :: "answer \<Rightarrow> bool" where
  "plain_answer a \<longleftrightarrow> ans_ok a \<and> ans_woken a \<and> ans_stat a = 0 \<and> ans_result a = length (ans_data a) \<and>
     (ans_size a = 0 \<or> ans_size a = length (ans_data a)) \<and> length (ans_data a) \<le> 0x40"

lemma read_turn_plain: "plain_answer a \<Longrightarrow> 0x40 \<le> req \<Longrightarrow> read_turn a req f = (Some (length (ans_data a)), f)"
  by (auto simp: read_turn_def plain_answer_def min_def)

lemma refill_plain:
  assumes "file_ok f" "f_tail f + length data < buffer_size"
  shows "\<exists>g. refill data (length data) f = Inr g \<and> file_ok g \<and> buffered g = buffered f @ data \<and> f_tail g = f_tail f + length data"
proof -
  define g where "g = f\<lparr>f_buffer := store_at (f_tail f) data (f_buffer f), f_tail := f_tail f + length data\<rparr>"
  have "refill data (length data) f = Inr g" using assms by (simp add: refill_def g_def)
  moreover have "length (store_at (f_tail f) data (f_buffer f)) = buffer_size" using assms by (simp add: store_at_def file_ok_def)
  then have "file_ok g" using assms by (simp add: g_def file_ok_def)
  moreover have "buffered g = buffered f @ data"
  proof -
    have lt: "f_head f \<le> f_tail f" "f_tail f \<le> length (f_buffer f)" using assms by (auto simp: file_ok_def)
    define A where "A = drop (f_head f) (take (f_tail f) (f_buffer f))"
    have A: "buffered f = A" "length A = f_tail f - f_head f" using lt by (simp_all add: A_def buffered_def drop_take)
    have "drop (f_head f) (store_at (f_tail f) data (f_buffer f)) = A @ data @ drop (f_tail f + length data) (f_buffer f)"
      using lt by (simp add: store_at_def A_def)
    moreover have "f_tail f + length data - f_head f = length A + length data" using A(2) lt(1) by simp
    ultimately show ?thesis using A(1) by (simp add: buffered_def g_def)
  qed
  ultimately show ?thesis by (auto simp: g_def)
qed

definition incoming :: "answer list \<Rightarrow> int list" where "incoming as = concat (map ans_data as)"

lemma read_plain:
  assumes "file_ok f" "\<forall>a\<in>set as. plain_answer a" "f_tail f + length (incoming as) < buffer_size" "len \<le> length (buffered f @ incoming as)"
  shows "\<exists>g as'. block_read as f len = Inr (True, g, take len (buffered f @ incoming as), as') \<and> buffered g @ incoming as' = drop len (buffered f @ incoming as)"
  using assms
proof (induction as arbitrary: f len)
  case Nil
  then show ?case using file_ok_simps(1) [OF Nil(1)] file_ok_simps(2-4) [OF Nil(1), of len] by (simp add: incoming_def min_def)
next
  case (Cons a as)
  let ?sz = "min (length (buffered f)) len"
  note F = file_ok_simps [OF Cons.prems(1)]
  have inc: "incoming (a # as) = ans_data a @ incoming as" by (simp add: incoming_def)
  show ?case
  proof (cases "len \<le> length (buffered f)")
    case True
    then show ?thesis using F(1) F(2-4) [of len] by (simp add: min_def inc)
  next
    case False
    define f1 where "f1 = drain (length (buffered f)) f"
    have f1: "file_ok f1" "buffered f1 = []" "f_tail f1 = f_tail f" using F(3,4) [of "length (buffered f)"] by (simp_all add: f1_def drain_def)
    have room: "f_tail f1 + length (ans_data a) < buffer_size" using Cons.prems(3) f1(3) inc by simp
    obtain g where g: "refill (ans_data a) (length (ans_data a)) f1 = Inr g" "file_ok g" "buffered g = ans_data a" "f_tail g = f_tail f + length (ans_data a)"
      using refill_plain [OF f1(1) room] f1(2,3) by auto
    let ?left = "len - length (buffered f)"
    obtain g2 as' where ih: "block_read as g ?left = Inr (True, g2, take ?left (buffered g @ incoming as), as')"
      "buffered g2 @ incoming as' = drop ?left (buffered g @ incoming as)"
    proof -
      have "\<forall>a\<in>set as. plain_answer a" "f_tail g + length (incoming as) < buffer_size" "?left \<le> length (buffered g @ incoming as)"
        using Cons.prems(2-4) g(3,4) inc by simp_all
      from Cons.IH [OF g(2) this] show ?thesis using that by blast
    qed
    have rt: "read_turn a (min (max 0x40 ?left) 0x100) f1 = (Some (length (ans_data a)), f1)" by (rule read_turn_plain) (use Cons.prems(2) in auto)
    have "block_read (a # as) f len = Inr (True, g2, buffered f @ take ?left (ans_data a @ incoming as), as')"
      using False F(1) F(2) [of "length (buffered f)"] rt g(1,3) ih(1) by (simp add: f1_def [symmetric] Let_def min_absorb1)
    then show ?thesis using ih(2) False g(3) inc by simp
  qed
qed

text \<open>C30: until the buffer of a stream wraps around, a read returns the buffered bytes and then those the stream delivers,
  in order, as soon as there are enough of them, and keeps what it did not return.\<close>

theorem block_read_in_order:
  assumes "file_ok f" "\<forall>a\<in>set as. plain_answer a" "f_tail f + length (incoming as) < buffer_size" "len \<le> length (buffered f @ incoming as)"
  shows "\<exists>g as'. block_read as f len = Inr (True, g, take len (buffered f @ incoming as), as') \<and>
    buffered g @ incoming as' = drop len (buffered f @ incoming as)"
  by (rule read_plain [OF assms])

theorem block_read_in_order_witness:
  "\<exists>g as'. block_read [good_answer [1, 2], good_answer [3]] new_file 3 =
      Inr (True, g, take 3 (buffered new_file @ incoming [good_answer [1, 2], good_answer [3]]), as') \<and>
    buffered g @ incoming as' = drop 3 (buffered new_file @ incoming [good_answer [1, 2], good_answer [3]])"
  by (rule block_read_in_order) (simp_all add: file_ok_def new_file_def buffer_size_def plain_answer_def good_answer_def incoming_def buffered_def)


text \<open>When the new bytes reach past the end of the buffer, only eight of them are stored before the rest goes to its start: the
  reader gets old bytes.\<close>

definition near_end :: crt_file where "near_end = \<lparr>f_flags = 0, f_head = 0x1E0, f_tail = 0x1E0, f_buffer = replicate buffer_size 0\<rparr>"

lemma read_wraps_wrong:
  "\<exists>g. block_read [good_answer (map int [1..<33])] near_end 16 = Inr (True, g, map int [1..<9] @ replicate 8 0, [])"
proof -
  have "(case block_read [good_answer (map int [1..<33])] near_end 16 of Inl _ \<Rightarrow> False
    | Inr (ok, g, out, as) \<Rightarrow> ok \<and> out = map int [1..<9] @ replicate 8 0 \<and> length as = 0)" by code_simp
  then show ?thesis by (auto split: sum.splits)
qed

text \<open>At the end of a file, \<^verbatim>\<open>block_read\<close> notes it in the flags and tries again: however often the kernel answers that the end is
  reached, it has not returned.\<close>

definition eof_answer :: answer where
  "eof_answer = \<lparr>ans_ok = True, ans_size = 0, ans_woken = True, ans_stat = 1, ans_result = 0, ans_data = []\<rparr>"

lemma read_hangs_at_end:
  assumes "file_ok f" "buffered f = []"
  shows "block_read (replicate n eof_answer) f 1 = Inl OutOfFuel"
  using assms
proof (induction n arbitrary: f)
  case 0
  then show ?case using file_ok_simps(1) [of f] by simp
next
  case (Suc n)
  have av: "bytes_buffered f = 0" using file_ok_simps(1) [OF Suc.prems(1)] Suc.prems(2) by simp
  have hd: "f_head f mod buffer_size = f_head f" "f_tail f mod buffer_size = f_tail f" using Suc.prems(1) by (simp_all add: file_ok_def)
  define g where "g = add_flag EOF_BIT f"
  have g: "file_ok g" "buffered g = []" using Suc.prems by (simp_all add: g_def add_flag_def file_ok_def buffered_def)
  have dr: "drain 0 f = f" using hd by (simp add: drain_def)
  have rt: "read_turn eof_answer req f = (Some 0, g)" for req by (simp add: read_turn_def eof_answer_def g_def)
  have rf: "refill (ans_data eof_answer) 0 g = Inr g"
    using Suc.prems(1) hd by (simp add: refill_def g_def add_flag_def store_at_def file_ok_def)
  show ?case using Suc.IH [OF g] by (simp add: av dr rt rf)
qed

text \<open>A character given back goes behind the buffered ones.\<close>

lemma ungetc_appends:
  assumes "file_ok f" "f_tail f + 1 < buffer_size" "- 128 \<le> ch" "ch < 128" "ch \<noteq> - 1"
  shows "fst (ungetc ch f) = ch" "buffered (snd (ungetc ch f)) = buffered f @ [ch]"
proof -
  have s: "sint (word_of_int ch :: byte) = ch" using assms(3,4) by (simp add: sint_sbintrunc' signed_take_bit_int_eq_self)
  have m: "(f_tail f + 1) mod buffer_size = f_tail f + 1" "f_tail f + 1 \<noteq> f_head f" using assms(1,2) by (simp_all add: file_ok_def)
  have u: "ungetc ch f = (ch, f\<lparr>f_buffer := (f_buffer f)[f_tail f := ch], f_tail := f_tail f + 1\<rparr>)"
    using assms(5) m s by (simp add: ungetc_def)
  show "fst (ungetc ch f) = ch" by (simp add: u)
  have lt: "f_head f \<le> f_tail f" "f_tail f < length (f_buffer f)" using assms(1) by (simp_all add: file_ok_def)
  have "(f_buffer f)[f_tail f := ch] = store_at (f_tail f) [ch] (f_buffer f)" using lt(2) by (simp add: store_at_def upd_conv_take_nth_drop)
  moreover obtain g where "refill [ch] (length [ch]) f = Inr g" "buffered g = buffered f @ [ch]" using refill_plain [OF assms(1), of "[ch]"] assms(2) by auto
  ultimately show "buffered (snd (ungetc ch f)) = buffered f @ [ch]" using assms(2) m(1) by (simp add: u refill_def buffered_def)
qed

section \<open>Guarded blocks\<close>

text \<open>The low half of the header is compared with all 64 bits of the guard value, so a block is only accepted if the upper half of the
  guard value is 0. The guard value is the time combined with the cycle counter.\<close>

lemma malloc_result:
  assumes "malloc grow pages sz s = Inr (p, s')"
  shows "\<exists>ptr. p = ptr + 16 \<and> crt_guard s' = crt_guard s \<and> crt_cells s' ptr = ucast (crt_guard s) \<and>
    crt_cells s' (ptr + 12) = ucast (drop_bit 32 (crt_guard s)) \<and> crt_cells s' (ptr + 4) = word_of_nat (malloc_size sz) \<and>
    crt_cells s' (ptr + 8) = word_of_nat (malloc_size sz div 2 ^ 32)"
  using assms by (auto simp: malloc_def crt_new_def Let_def res_simps split: if_splits prod.splits)

text \<open>\<^verbatim>\<open>free\<close> stops the program on every block \<^verbatim>\<open>malloc\<close> returned, unless the guard value fits in 32 bits; then
  it gives the block back with the size it was taken with.\<close>

theorem free_of_malloc:
  assumes "malloc grow pages sz s = Inr (p, s')" "malloc_size sz < 2 ^ 64"
  shows "free p s' = (if crt_guard s < 2 ^ 32 then crt_delete (p - 16) (malloc_size sz) s' else bugcheck ''abort'')"
proof -
  obtain ptr where m: "p = ptr + 16" "crt_guard s' = crt_guard s" "crt_cells s' ptr = ucast (crt_guard s)"
    "crt_cells s' (ptr + 12) = ucast (drop_bit 32 (crt_guard s))" "crt_cells s' (ptr + 4) = word_of_nat (malloc_size sz)"
    "crt_cells s' (ptr + 8) = word_of_nat (malloc_size sz div 2 ^ 32)" using malloc_result [OF assms(1)] by blast
  let ?g = "crt_guard s"
  have lo: "(ucast (ucast ?g :: dword) :: qword) = take_bit 32 ?g" by (rule bit_word_eqI) (auto simp: bit_simps)
  have hi: "(ucast (ucast (drop_bit 32 ?g) :: dword) :: qword) = drop_bit 32 ?g" by (rule bit_word_eqI) (auto simp: bit_simps dest: bit_imp_le_length)
  have fits: "take_bit 32 ?g = ?g \<longleftrightarrow> ?g < 2 ^ 32"
  proof
    assume "take_bit 32 ?g = ?g"
    then have "uint (take_bit 32 ?g) = uint ?g" by simp
    then show "?g < 2 ^ 32" by (simp add: word_less_def unsigned_take_bit_eq take_bit_int_eq_self_iff)
  next
    assume "?g < 2 ^ 32"
    then have "uint ?g < 2 ^ 32" by (simp add: word_less_def)
    then show "take_bit 32 ?g = ?g" by (intro word_uint_eqI) (simp add: unsigned_take_bit_eq take_bit_int_eq_self)
  qed
  have "malloc_size sz div 2 ^ 32 < 2 ^ 32" using assms(2) by (simp add: less_mult_imp_div_less)
  then have size: "unat (crt_cells s' (ptr + 8)) * 2 ^ 32 + unat (crt_cells s' (ptr + 4)) = malloc_size sz"
    unfolding m(5,6) by (simp add: unat_of_nat take_bit_eq_mod)
  show ?thesis unfolding free_def Let_def using m lo hi fits size by simp
qed


definition guarded :: crt where "guarded = \<lparr>crt_heap = heap_new, crt_cells = (\<lambda>_. 0), crt_guard = 2 ^ 33\<rparr>"

theorem free_of_malloc_witness:
  "\<exists>s'. malloc [] 0x10000 4096 guarded = Inr (0x10010, s') \<and> free 0x10010 s' = bugcheck ''abort''"
proof -
  have "\<exists>s'. malloc [] 0x10000 4096 guarded = Inr (0x10010, s')" by (simp add: malloc_def crt_new_def malloc_size_def)
  then obtain s' where s': "malloc [] 0x10000 4096 guarded = Inr (0x10010, s')" by blast
  from free_of_malloc [OF this] show ?thesis using s' by (simp add: malloc_size_def guarded_def)
qed

end
