(* ===== verification/Ps2.thy ===== *)
theory Ps2
  imports Pipe
begin

text \<open>
  The keyboard and mouse driver (\<^verbatim>\<open>kernel/dev/ps_2.cpp\<close>): the queue between the interrupt and the thread of a channel, the
  thread that finds out what device is attached, and the decoding of scan codes and mouse packets. What a thread sees of its
  queue is a list of the outcomes of its waits. A wait that times out may find a byte in the queue by the time it is read; that byte comes
  with the time-out. The table of key codes is assembled data and a parameter. The ports of the controller and its initialisation are
  not modelled; a byte sent to the device is an action.
\<close>

section \<open>Queue\<close>

definition QUEUE_SIZE :: nat where "QUEUE_SIZE = 0x100"

record safe_queue =
  sq_buffer :: "byte list"
  sq_head :: nat
  sq_tail :: nat

definition sq_new :: "byte list \<Rightarrow> safe_queue" where "sq_new mem = \<lparr>sq_buffer = mem, sq_head = 0, sq_tail = 0\<rparr>"

definition sq_get :: "safe_queue \<Rightarrow> (byte \<times> safe_queue) res" where
  "sq_get q =
     (if sq_head q = sq_tail q then bugcheck ''PS_2::safe_queue get empty queue''
      else Inr (sq_buffer q ! sq_head q, q\<lparr>sq_head := (sq_head q + 1) mod QUEUE_SIZE\<rparr>))"

definition sq_put :: "byte \<Rightarrow> safe_queue \<Rightarrow> safe_queue" where
  "sq_put val q =
     (let new_tail = (sq_tail q + 1) mod QUEUE_SIZE in
      if new_tail \<noteq> sq_head q then q\<lparr>sq_buffer := (sq_buffer q)[sq_tail q := val], sq_tail := new_tail\<rparr> else q)"

definition sq_clear :: "safe_queue \<Rightarrow> safe_queue" where "sq_clear q = q\<lparr>sq_head := sq_tail q\<rparr>"

definition sq_check :: "safe_queue \<Rightarrow> bool" where "sq_check q \<longleftrightarrow> sq_head q \<noteq> sq_tail q"

text \<open>The interrupt: the byte goes to the queue of its channel, if the channel has a thread.\<close>

definition IRQ_KEYBOARD :: byte where "IRQ_KEYBOARD = 0x25"
definition IRQ_MOUSE :: byte where "IRQ_MOUSE = 0x30"

definition ps2_on_irq :: "byte \<Rightarrow> byte \<Rightarrow> (nat \<Rightarrow> bool) \<Rightarrow> (nat \<Rightarrow> safe_queue) \<Rightarrow> (nat \<Rightarrow> safe_queue) res" where
  "ps2_on_irq irq data has_thread queues =
     (if irq \<noteq> IRQ_KEYBOARD \<and> irq \<noteq> IRQ_MOUSE then bugcheck ''invalid IRQ''
      else let channel = (if irq = IRQ_MOUSE then 1 else 0) in
        Inr (if has_thread channel then queues(channel := sq_put data (queues channel)) else queues))"

section \<open>Keyboard\<close>

datatype wait_outcome = Arrived byte | Timeout "byte option"

datatype action = Send byte | Key byte

definition translate :: "(byte \<Rightarrow> byte) \<Rightarrow> byte \<Rightarrow> byte \<Rightarrow> byte" where
  "translate keycode code stat =
     (let base = (if stat = 0xC0 \<or> stat = 0xE0 then 0x80 else 0);
          base = (if code AND 0x80 \<noteq> 0 then 0 else base);
          key = keycode (base + code) in
      if stat = 0xC0 \<or> stat = 0xF0 then key OR 0x80 else key)"

text \<open>One byte from the keyboard: \<open>None\<close> gives the device up, otherwise the new state and the keys reported.\<close>

definition key_byte :: "(byte \<Rightarrow> byte) \<Rightarrow> bool \<Rightarrow> byte \<Rightarrow> byte \<Rightarrow> (byte \<times> action list) option" where
  "key_byte keycode func data state =
     (if data \<in> {0, 0xAA, 0xFC, 0xFD, 0xFE, 0xFF} then None
      else if data \<in> {0xEE, 0xFA} then Some (state, [])
      else if state = 0 \<and> (data = 0xE0 \<or> data = 0xF0) then Some (data, [])
      else if state = 0xE0 \<and> data = 0xF0 then Some (0xC0, [])
      else if state \<notin> {0, 0xE0, 0xC0, 0xF0} then Some (0, [])
      else let key = translate keycode data state in Some (0, if key AND 0x7F \<noteq> 0 \<and> func then [Key key] else []))"

text \<open>A byte that came with a time-out and was not read is found by the next wait.\<close>

definition still_there :: "byte option \<Rightarrow> wait_outcome list \<Rightarrow> wait_outcome list" where
  "still_there late es = (case late of None \<Rightarrow> es | Some b \<Rightarrow> Arrived b # es)"

text \<open>The result of the loop, \<open>None\<close> while it is still waiting, the outcomes left and the actions.\<close>

primrec device_keybd :: "(byte \<Rightarrow> byte) \<Rightarrow> bool \<Rightarrow> wait_outcome list \<Rightarrow> byte \<Rightarrow> bool \<Rightarrow> bool option \<times> wait_outcome list \<times> action list" where
  "device_keybd keycode func [] state probe = (None, [], [])"
| "device_keybd keycode func (e # es) state probe =
     (case e of
        Arrived data \<Rightarrow> (case key_byte keycode func data state of
            None \<Rightarrow> (Some False, es, [])
          | Some (state, acts) \<Rightarrow> let (r, es, acts') = device_keybd keycode func es state False in (r, es, acts @ acts'))
      | Timeout late \<Rightarrow>
          if probe then (Some True, still_there late es, [])
          else (case late of
              None \<Rightarrow> let (r, es, acts') = device_keybd keycode func es state True in (r, es, Send 0xEE # acts')
            | Some data \<Rightarrow> (case key_byte keycode func data state of
                None \<Rightarrow> (Some False, es, [Send 0xEE])
              | Some (state, acts) \<Rightarrow> let (r, es, acts') = device_keybd keycode func es state False in (r, es, Send 0xEE # acts @ acts'))))"

section \<open>Mouse\<close>

text \<open>One byte from the mouse: the packet so far and whether a probe is pending.\<close>

definition mouse_byte :: "byte \<Rightarrow> bool \<Rightarrow> byte list \<Rightarrow> bool \<times> byte list" where
  "mouse_byte data probe packet =
     (if probe \<and> data = 0xFA then (False, packet)
      else (probe, if packet \<noteq> [] \<or> data AND 0x08 \<noteq> 0 then packet @ [data] else packet))"

primrec device_mouse :: "nat \<Rightarrow> wait_outcome list \<Rightarrow> bool \<Rightarrow> byte list \<Rightarrow> (bool option \<times> wait_outcome list \<times> action list \<times> byte list list) res" where
  "device_mouse len [] probe packet = Inr (None, [], [], [])"
| "device_mouse len (e # es) probe packet =
     (case e of
        Arrived data \<Rightarrow>
          let (probe, packet) = mouse_byte data probe packet;
              (whole, packet) = (if length packet < len then ([], packet) else ([packet], [])) in
          rbind (device_mouse len es probe packet) (\<lambda>(r, es, acts, ps). Inr (r, es, acts, whole @ ps))
      | Timeout late \<Rightarrow>
          if probe then Inr (Some True, still_there late es, [], [])
          else (case late of
              None \<Rightarrow> bugcheck ''PS_2::safe_queue get empty queue''
            | Some data \<Rightarrow>
                let (probe, packet) = mouse_byte data True packet;
                    (whole, packet) = (if length packet < len then ([], packet) else ([packet], [])) in
                rbind (device_mouse len es probe packet) (\<lambda>(r, es, acts, ps). Inr (r, es, Send 0xEB # acts, whole @ ps))))"

section \<open>The thread of a channel\<close>

text \<open>What the steps of the identification end in: waiting for more, starting over, or going on.\<close>

datatype 'a progress = Blocked | Restart "wait_outcome list" | Go 'a "wait_outcome list"

definition pbind :: "'a progress \<times> action list \<Rightarrow> ('a \<Rightarrow> wait_outcome list \<Rightarrow> 'b progress \<times> action list) \<Rightarrow> 'b progress \<times> action list" where
  "pbind m f = (case m of
     (Blocked, acts) \<Rightarrow> (Blocked, acts)
   | (Restart es, acts) \<Rightarrow> (Restart es, acts)
   | (Go x es, acts) \<Rightarrow> (case f x es of (r, acts') \<Rightarrow> (r, acts @ acts')))"

text \<open>A byte that has to come in time.\<close>

definition get_in_time :: "wait_outcome list \<Rightarrow> byte progress \<times> action list" where
  "get_in_time es = (case es of [] \<Rightarrow> (Blocked, []) | Timeout _ # es \<Rightarrow> (Restart es, []) | Arrived b # es \<Rightarrow> (Go b es, []))"

primrec DEV_CMD :: "byte \<Rightarrow> wait_outcome list \<Rightarrow> unit progress \<times> action list" where
  "DEV_CMD cmd [] = (Blocked, [Send cmd])"
| "DEV_CMD cmd (e # es) =
     (case e of
        Timeout _ \<Rightarrow> (Restart es, [Send cmd])
      | Arrived data \<Rightarrow>
          if data = 0xFA then (Go () es, [Send cmd])
          else if data = 0xFE then (let (r, acts) = DEV_CMD cmd es in (r, Send cmd # acts))
          else (Restart es, [Send cmd]))"

primrec dev_cmds :: "byte list \<Rightarrow> wait_outcome list \<Rightarrow> unit progress \<times> action list" where
  "dev_cmds [] es = (Go () es, [])"
| "dev_cmds (c # cs) es = pbind (DEV_CMD c es) (\<lambda>_ es. dev_cmds cs es)"

datatype device = Keyboard | Mouse byte

text \<open>From the self-test of a device to its being ready: a byte behind the 0xAA is discarded, then the identity decides.\<close>

definition identify :: "wait_outcome list \<Rightarrow> device progress \<times> action list" where
  "identify es =
     (case es of [] \<Rightarrow> (Blocked, []) | e # es \<Rightarrow>
      let es = (case e of Arrived _ \<Rightarrow> es | Timeout late \<Rightarrow> still_there late es) in
      pbind (dev_cmds [0xF5, 0xF2] es) (\<lambda>_ es.
      pbind (get_in_time es) (\<lambda>ident es.
        if ident = 0 then
          pbind (dev_cmds [0xF3, 200, 0xF3, 100, 0xF3, 80, 0xF2] es) (\<lambda>_ es.
          pbind (get_in_time es) (\<lambda>mode es.
            if mode = 0 \<or> mode = 3 then pbind (dev_cmds [0xF3, 40, 0xF4] es) (\<lambda>_ es. (Go (Mouse mode) es, []))
            else (Restart es, [])))
        else if ident = 0xAB then
          pbind (get_in_time es) (\<lambda>second es.
            if second \<noteq> 0x83 then (Restart es, [])
            else pbind (dev_cmds [0xF0, 2, 0xF3, 0x7F, 0xF4] es) (\<lambda>_ es. (Go Keyboard es, [])))
        else (Restart es, []))))"

text \<open>Waiting for the 0xAA; waits without a limit do not time out.\<close>

primrec await_device :: "wait_outcome list \<Rightarrow> wait_outcome list option" where
  "await_device [] = None"
| "await_device (e # es) = (case e of Arrived b \<Rightarrow> if b = 0xAA then Some es else await_device es | Timeout _ \<Rightarrow> await_device es)"

text \<open>The loop of the thread, with the number of failures in a row and the packets of the mouse. Each turn takes at least one outcome, so as
  many turns as there are outcomes are enough.\<close>

primrec thread_ps2 :: "nat \<Rightarrow> (byte \<Rightarrow> byte) \<Rightarrow> bool \<Rightarrow> wait_outcome list \<Rightarrow> nat \<Rightarrow> (action list \<times> byte list list) res" where
  "thread_ps2 0 keycode func es fails = Inl OutOfFuel"
| "thread_ps2 (Suc n) keycode func es fails =
     (case await_device es of None \<Rightarrow> Inr ([], [])
      | Some es \<Rightarrow> (case identify es of
            (Blocked, acts) \<Rightarrow> Inr (acts, [])
          | (Restart es, acts) \<Rightarrow>
              rbind (thread_ps2 n keycode func es (Suc fails)) (\<lambda>(acts', ps).
                Inr (acts @ (if Suc fails < 5 then [Send 0xFF] else []) @ acts', ps))
          | (Go Keyboard es, acts) \<Rightarrow>
              (case device_keybd keycode func es 0 False of
                 (None, _, acts') \<Rightarrow> Inr (acts @ acts', [])
               | (Some r, es, acts') \<Rightarrow> rbind (thread_ps2 n keycode func es (if r then 0 else fails)) (\<lambda>(acts'', ps).
                   Inr (acts @ acts' @ acts'', ps)))
          | (Go (Mouse mode) es, acts) \<Rightarrow>
              rbind (device_mouse (if mode \<noteq> 0 then 4 else 3) es False []) (\<lambda>(r, es, acts', ps).
                case r of None \<Rightarrow> Inr (acts @ acts', ps)
                | Some r \<Rightarrow> rbind (thread_ps2 n keycode func es (if r then 0 else fails)) (\<lambda>(acts'', ps').
                    Inr (acts @ acts' @ acts'', ps @ ps')))))"


section \<open>The queue is a bounded FIFO\<close>

definition sq_fill :: "safe_queue \<Rightarrow> nat" where "sq_fill q = gap QUEUE_SIZE (sq_head q) (sq_tail q)"

definition sq_contents :: "safe_queue \<Rightarrow> byte list" where
  "sq_contents q = map (\<lambda>i. sq_buffer q ! ((sq_head q + i) mod QUEUE_SIZE)) [0..<sq_fill q]"

definition sq_ok :: "safe_queue \<Rightarrow> bool" where
  "sq_ok q \<longleftrightarrow> sq_head q < QUEUE_SIZE \<and> sq_tail q < QUEUE_SIZE \<and> length (sq_buffer q) = QUEUE_SIZE"

lemma sq_length [simp]: "length (sq_contents q) = sq_fill q"
  by (simp add: sq_contents_def)

lemma sq_empty: "sq_ok q \<Longrightarrow> sq_contents q = [] \<longleftrightarrow> sq_head q = sq_tail q"
proof -
  assume ok: "sq_ok q"
  have "sq_contents q = [] \<longleftrightarrow> sq_fill q = 0" by (metis length_0_conv sq_length)
  then show ?thesis using ok by (auto simp: sq_ok_def sq_fill_def gap_def)
qed

lemma sq_get_step:
  assumes ok: "sq_ok q" and ne: "sq_head q \<noteq> sq_tail q"
  defines "q' \<equiv> q\<lparr>sq_head := (sq_head q + 1) mod QUEUE_SIZE\<rparr>"
  shows "sq_ok q'" "sq_contents q = sq_buffer q ! sq_head q # sq_contents q'"
proof -
  have D: "sq_head q < QUEUE_SIZE" "sq_tail q < QUEUE_SIZE" using ok by (simp_all add: sq_ok_def)
  show "sq_ok q'" using ok D by (simp add: q'_def sq_ok_def)
  have f: "sq_fill q = Suc (sq_fill q')" unfolding sq_fill_def using gap_step(2) [OF D ne] by (simp add: q'_def)
  have "(sq_head q + Suc i) mod QUEUE_SIZE = (sq_head q' + i) mod QUEUE_SIZE" for i by (simp add: q'_def mod_add_left_eq)
  then have "map (\<lambda>i. sq_buffer q ! ((sq_head q + i) mod QUEUE_SIZE)) [Suc 0..<Suc (sq_fill q')] = sq_contents q'"
    unfolding sq_contents_def map_Suc_upt [symmetric] by (simp add: q'_def)
  then show "sq_contents q = sq_buffer q ! sq_head q # sq_contents q'"
    unfolding sq_contents_def [of q] f upt_conv_Cons [OF zero_less_Suc] using D(1) by simp
qed

lemma sq_put_step:
  assumes ok: "sq_ok q"
  shows "sq_ok (sq_put v q)" "sq_contents (sq_put v q) = (if length (sq_contents q) < QUEUE_SIZE - 1 then sq_contents q @ [v] else sq_contents q)"
proof -
  have D: "sq_head q < QUEUE_SIZE" "sq_tail q < QUEUE_SIZE" "length (sq_buffer q) = QUEUE_SIZE" using ok by (simp_all add: sq_ok_def)
  show "sq_ok (sq_put v q)" using ok by (simp add: sq_put_def sq_ok_def Let_def)
  have full: "(sq_tail q + 1) mod QUEUE_SIZE = sq_head q \<longleftrightarrow> sq_fill q = QUEUE_SIZE - 1" unfolding sq_fill_def by (rule gap_step(3) [OF D(1,2)])
  have le: "sq_fill q < QUEUE_SIZE" unfolding sq_fill_def gap_def using D by auto
  show "sq_contents (sq_put v q) = (if length (sq_contents q) < QUEUE_SIZE - 1 then sq_contents q @ [v] else sq_contents q)"
  proof (cases "sq_fill q = QUEUE_SIZE - 1")
    case True
    then show ?thesis using full by (simp add: sq_put_def)
  next
    case False
    then have lt: "Suc (sq_fill q) < QUEUE_SIZE" using le by simp
    define q' where "q' = q\<lparr>sq_buffer := (sq_buffer q)[sq_tail q := v], sq_tail := (sq_tail q + 1) mod QUEUE_SIZE\<rparr>"
    have p: "sq_put v q = q'" using False full by (simp add: sq_put_def q'_def)
    have f: "sq_fill q' = Suc (sq_fill q)" using gap_step(1) [OF D(1,2)] lt by (simp add: sq_fill_def q'_def)
    have pos: "(sq_head q + sq_fill q) mod QUEUE_SIZE = sq_tail q" unfolding sq_fill_def by (rule gap_reach(1) [OF D(1,2)])
    have "sq_tail q \<noteq> (sq_head q + i) mod QUEUE_SIZE" if "i < sq_fill q" for i using gap_reach(2) [OF D(1,2), of i] that unfolding sq_fill_def by metis
    then have "sq_contents q' = sq_contents q @ [v]" unfolding sq_contents_def f using pos D(2,3) by (simp add: q'_def)
    then show ?thesis using p lt by simp
  qed
qed

text \<open>the queue between the interrupt and the thread of a channel holds the bytes in the order they came, up to 255 of them;
  the bytes that come while it is full are dropped, and reading it while it is empty stops the kernel.\<close>

theorem ps2_queue_fifo:
  assumes "sq_ok q"
  shows "sq_contents (sq_put v q) = (if length (sq_contents q) < 255 then sq_contents q @ [v] else sq_contents q) \<and> sq_ok (sq_put v q) \<and>
    (case sq_contents q of [] \<Rightarrow> sq_get q = bugcheck ''PS_2::safe_queue get empty queue''
     | b # bs \<Rightarrow> \<exists>q'. sq_get q = Inr (b, q') \<and> sq_contents q' = bs \<and> sq_ok q') \<and>
    sq_contents (sq_clear q) = [] \<and> sq_ok (sq_clear q)"
proof -
  have "case sq_contents q of [] \<Rightarrow> sq_get q = bugcheck ''PS_2::safe_queue get empty queue''
      | b # bs \<Rightarrow> \<exists>q'. sq_get q = Inr (b, q') \<and> sq_contents q' = bs \<and> sq_ok q'"
    using sq_empty [OF assms] sq_get_step [OF assms] by (auto simp: sq_get_def split: list.split)
  moreover have "sq_contents (sq_clear q) = [] \<and> sq_ok (sq_clear q)"
    using assms by (simp add: sq_clear_def sq_contents_def sq_fill_def gap_def sq_ok_def)
  ultimately show ?thesis using sq_put_step [OF assms, of v] by (simp add: QUEUE_SIZE_def)
qed

lemma sq_new_ok: "sq_ok (sq_new (replicate 256 0))" "sq_contents (sq_new (replicate 256 0)) = []"
  by (simp_all add: sq_ok_def sq_new_def QUEUE_SIZE_def sq_contents_def sq_fill_def gap_def)

theorem ps2_queue_fifo_witness:
  "sq_contents (sq_put 7 (sq_new (replicate 256 0))) = [7] \<and>
   sq_get (sq_new (replicate 256 0)) = bugcheck ''PS_2::safe_queue get empty queue''"
  using ps2_queue_fifo [OF sq_new_ok(1), of 7] by (simp add: sq_new_ok(2))

section \<open>Decoding keys\<close>

text \<open>A key that goes down or up, as a keyboard reports it in scan code set 2: extended keys have a prefix, released keys another.\<close>

record key_event =
  ke_ext :: bool
  ke_up :: bool
  ke_code :: byte

definition scan :: "key_event \<Rightarrow> byte list" where
  "scan k = (if ke_ext k then [0xE0] else []) @ (if ke_up k then [0xF0] else []) @ [ke_code k]"

definition key_valid :: "key_event \<Rightarrow> bool" where
  "key_valid k \<longleftrightarrow> ke_code k \<notin> {0, 0xAA, 0xFC, 0xFD, 0xFE, 0xFF, 0xEE, 0xFA, 0xE0, 0xF0}"

definition key_report :: "(byte \<Rightarrow> byte) \<Rightarrow> bool \<Rightarrow> key_event \<Rightarrow> action list" where
  "key_report keycode func k =
     (let c = keycode (if ke_ext k \<and> ke_code k AND 0x80 = 0 then 0x80 + ke_code k else ke_code k);
          key = (if ke_up k then c OR 0x80 else c) in
      if key AND 0x7F \<noteq> 0 \<and> func then [Key key] else [])"

lemma keybd_key:
  assumes "key_valid k"
  shows "device_keybd keycode func (map Arrived (scan k @ rest)) 0 probe =
    (let (r, es, acts) = device_keybd keycode func (map Arrived rest) 0 False in (r, es, key_report keycode func k @ acts))"
  using assms by (cases "ke_ext k"; cases "ke_up k") (auto simp: scan_def key_byte_def key_valid_def translate_def key_report_def Let_def split_beta)

lemma keybd_keys:
  "\<forall>k\<in>set ks. key_valid k \<Longrightarrow> device_keybd keycode func (map Arrived (concat (map scan ks))) 0 probe = (None, [], concat (map (key_report keycode func) ks))"
proof (induction ks arbitrary: probe)
  case (Cons k ks)
  then show ?case using keybd_key [of k keycode func "concat (map scan ks)" probe] by simp
qed simp

text \<open>Acknowledgements and echoes may come in between.\<close>

lemma keybd_noise:
  assumes "device_keybd keycode func (map Arrived (filter (\<lambda>b. b \<notin> {0xEE, 0xFA}) bs)) state probe = (None, [], acts)"
  shows "device_keybd keycode func (map Arrived bs) state probe' = (None, [], acts)"
  using assms
proof (induction bs arbitrary: state probe probe' acts)
  case (Cons b bs)
  show ?case
  proof (cases "b \<in> {0xEE, 0xFA}")
    case True
    then have k: "key_byte keycode func b state = Some (state, [])" by (auto simp: key_byte_def)
    have "device_keybd keycode func (map Arrived bs) state False = (None, [], acts)" using Cons.IH [of state probe acts False] Cons.prems True by auto
    then show ?thesis using k by simp
  next
    case False
    obtain s a where k: "key_byte keycode func b state = Some (s, a)" using Cons.prems False by (cases "key_byte keycode func b state") auto
    obtain a' where d: "device_keybd keycode func (map Arrived (filter (\<lambda>b. b \<notin> {0xEE, 0xFA}) bs)) s False = (None, [], a')" "acts = a @ a'"
      using Cons.prems False k by (auto simp: split_beta prod_eq_iff)
    show ?thesis using Cons.IH [OF d(1), of False] k d(2) by simp
  qed
qed simp


text \<open>whatever keys are pressed and released, and wherever the keyboard puts its acknowledgements in between, the driver
  reports exactly the code of each key in order, with the top bit set for a release, and keeps waiting for more.\<close>

theorem keyboard_decodes:
  assumes "\<forall>k\<in>set ks. key_valid k" "filter (\<lambda>b. b \<notin> {0xEE, 0xFA}) bs = concat (map scan ks)"
  shows "device_keybd keycode func (map Arrived bs) 0 probe = (None, [], concat (map (key_report keycode func) ks))"
  by (rule keybd_noise [where probe = False]) (use keybd_keys [OF assms(1)] assms(2) in simp)

definition key_a :: key_event where "key_a = \<lparr>ke_ext = False, ke_up = False, ke_code = 0x1C\<rparr>"

theorem keyboard_decodes_witness:
  "device_keybd (\<lambda>c. c) True (map Arrived [0x1C, 0xFA, 0xF0, 0xFA, 0x1C]) 0 False = (None, [], [Key 0x1C, Key 0x9C])"
proof -
  have "\<forall>k\<in>set [key_a, key_a\<lparr>ke_up := True\<rparr>]. key_valid k" by (simp add: key_a_def key_valid_def)
  from keyboard_decodes [OF this, of "[0x1C, 0xFA, 0xF0, 0xFA, 0x1C]" "\<lambda>c. c" True False] show ?thesis
    by (simp add: key_a_def scan_def key_report_def)
qed

text \<open>A keyboard that is plugged in, passes its self-test and acknowledges the commands is set up, and its keys are reported.\<close>

lemma dev_cmds_acked: "dev_cmds cs (replicate (length cs) (Arrived 0xFA) @ es) = (Go () es, map Send cs)"
  by (induction cs) (simp_all add: pbind_def)

definition acks :: "nat \<Rightarrow> wait_outcome list" where "acks n = replicate n (Arrived 0xFA)"

lemma identify_keyboard:
  "identify (Timeout None # acks 2 @ Arrived 0xAB # Arrived 0x83 # acks 5 @ es) =
    (Go Keyboard es, map Send [0xF5, 0xF2, 0xF0, 2, 0xF3, 0x7F, 0xF4])"
proof -
  have a: "dev_cmds [0xF5, 0xF2] (acks 2 @ es) = (Go () es, map Send [0xF5, 0xF2])" for es
  proof -
    have "acks 2 = replicate (length [0xF5 :: byte, 0xF2]) (Arrived 0xFA)" by (simp add: acks_def eval_nat_numeral)
    then show ?thesis by (simp only: dev_cmds_acked)
  qed
  have b: "dev_cmds [0xF0, 2, 0xF3, 0x7F, 0xF4] (acks 5 @ es) = (Go () es, map Send [0xF0, 2, 0xF3, 0x7F, 0xF4])" for es
  proof -
    have "acks 5 = replicate (length [0xF0 :: byte, 2, 0xF3, 0x7F, 0xF4]) (Arrived 0xFA)" by (simp add: acks_def eval_nat_numeral)
    then show ?thesis by (simp only: dev_cmds_acked)
  qed
  show ?thesis by (simp add: identify_def still_there_def a b pbind_def get_in_time_def del: dev_cmds.simps)
qed

lemma keyboard_session:
  assumes "\<forall>k\<in>set ks. key_valid k" "filter (\<lambda>b. b \<notin> {0xEE, 0xFA}) bs = concat (map scan ks)"
  shows "thread_ps2 (Suc n) keycode func (Arrived 0xAA # Timeout None # acks 2 @ Arrived 0xAB # Arrived 0x83 # acks 5 @ map Arrived bs) fails =
    Inr (map Send [0xF5, 0xF2, 0xF0, 2, 0xF3, 0x7F, 0xF4] @ concat (map (key_report keycode func) ks), [])"
proof -
  have "device_keybd keycode func (map Arrived bs) 0 False = (None, [], concat (map (key_report keycode func) ks))"
    by (rule keybd_noise [where probe = False]) (use keybd_keys [OF assms(1)] assms(2) in simp)
  then show ?thesis by (simp add: identify_keyboard)
qed

section \<open>Mouse packets\<close>

text \<open>Packets have their full length and start with a byte that has bit 3 set.\<close>

definition packet_start :: "byte list \<Rightarrow> bool" where "packet_start p \<longleftrightarrow> (p \<noteq> [] \<longrightarrow> hd p AND 0x08 \<noteq> 0)"

lemma mouse_byte_ok: "packet_start p \<Longrightarrow> mouse_byte data probe p = (probe', p') \<Longrightarrow> packet_start p' \<and> length p' \<le> Suc (length p)"
  by (auto simp: mouse_byte_def packet_start_def hd_append split: if_splits)

lemma mouse_packets:
  assumes "device_mouse len es probe p = Inr (r, es', acts, ps)" "packet_start p" "length p < len" "packet \<in> set ps"
  shows "length packet = len \<and> hd packet AND 0x08 \<noteq> 0"
  using assms
proof (induction es arbitrary: probe p acts ps)
  case (Cons e es)
  have step: "length packet = len \<and> hd packet AND 0x08 \<noteq> 0"
    if m: "mouse_byte d pr p = (pr', p')" and d: "device_mouse len es pr' (if length p' < len then p' else []) = Inr (r, es', a, ps')"
      and ps: "ps = (if length p' < len then [] else [p']) @ ps'" for d pr pr' p' a ps'
  proof -
    have p': "packet_start p'" "length p' \<le> len" using mouse_byte_ok [OF Cons.prems(2) m] Cons.prems(3) by auto
    have st: "packet_start (if length p' < len then p' else [])" "length (if length p' < len then p' else []) < len"
      using p' Cons.prems(3) by (auto simp: packet_start_def)
    show ?thesis
    proof (cases "packet \<in> set ps'")
      case True
      then show ?thesis by (rule Cons.IH [OF d st])
    next
      case False
      then have "packet = p'" "\<not> length p' < len" using Cons.prems(4) ps by (auto split: if_splits)
      then show ?thesis using p' Cons.prems(3) by (cases p') (auto simp: packet_start_def)
    qed
  qed
  show ?case
  proof (cases e)
    case (Arrived d)
    obtain pr' p' where m: "mouse_byte d probe p = (pr', p')" by force
    then show ?thesis using step [OF m] Cons.prems(1) Arrived by (auto simp: rbind_eq_Inr split_beta split: if_splits)
  next
    case (Timeout late)
    show ?thesis
    proof (cases "probe \<or> late = None")
      case True
      then show ?thesis using Cons.prems(1,4) Timeout by (auto split: if_splits)
    next
      case False
      then obtain d where d: "late = Some d" by auto
      obtain pr' p' where m: "mouse_byte d True p = (pr', p')" by force
      then show ?thesis using step [OF m] Cons.prems(1) Timeout False d by (auto simp: rbind_eq_Inr split_beta split: if_splits)
    qed
  qed
qed simp

text \<open>A mouse that is not moved for a second is asked for a packet, and its queue is read at once: unless the answer is already there, the
  kernel stops.\<close>

lemma idle_mouse_stops: "device_mouse len (Timeout None # es) False p = bugcheck ''PS_2::safe_queue get empty queue''"
  by simp

section \<open>The thread never runs out of turns\<close>

lemma await_shrinks: "await_device es = Some es' \<Longrightarrow> length es' < length es"
  by (induction es) (auto split: wait_outcome.splits if_splits)

lemma still_there_length [simp]: "length (still_there late es) \<le> Suc (length es)"
  by (simp add: still_there_def split: option.split)

text \<open>How many outcomes a step leaves.\<close>

definition left_over :: "'a progress \<Rightarrow> nat" where
  "left_over r = (case r of Blocked \<Rightarrow> 0 | Restart es \<Rightarrow> length es | Go _ es \<Rightarrow> length es)"

lemma left_over_simps [simp]: "left_over Blocked = 0" "left_over (Restart es) = length es" "left_over (Go x es) = length es"
  by (simp_all add: left_over_def)

lemma pbind_left:
  assumes "left_over (fst m) \<le> n" "\<And>x es. length es \<le> n \<Longrightarrow> left_over (fst (f x es)) \<le> n"
  shows "left_over (fst (pbind m f)) \<le> n"
proof -
  obtain r acts where m: "m = (r, acts)" by force
  show ?thesis using assms unfolding m by (cases r) (auto simp: pbind_def left_over_def split_beta)
qed

lemma dev_cmd_left: "left_over (fst (DEV_CMD c es)) \<le> length es"
  by (induction es) (auto simp: left_over_def split_beta split: wait_outcome.splits progress.splits)

lemma dev_cmds_left: "length es \<le> n \<Longrightarrow> left_over (fst (dev_cmds cs es)) \<le> n"
proof (induction cs arbitrary: es)
  case (Cons c cs)
  have "left_over (fst (DEV_CMD c es)) \<le> n" using dev_cmd_left [of c es] Cons.prems by simp
  then show ?case using Cons.IH by (simp add: pbind_left)
qed (simp add: left_over_def)

lemma get_left: "length es \<le> n \<Longrightarrow> left_over (fst (get_in_time es)) \<le> n"
  by (auto simp: get_in_time_def left_over_def split: list.splits wait_outcome.splits)

lemma identify_left: "left_over (fst (identify es)) \<le> length es"
proof (cases es)
  case Nil
  then show ?thesis by (simp add: identify_def left_over_def)
next
  case (Cons e es1)
  define es2 where "es2 = (case e of Arrived _ \<Rightarrow> es1 | Timeout late \<Rightarrow> still_there late es1)"
  have "length es2 \<le> length es" using Cons by (auto simp: es2_def split: wait_outcome.split)
  then show ?thesis unfolding identify_def Cons list.case Let_def es2_def [symmetric]
    by (intro pbind_left dev_cmds_left get_left) (auto intro!: pbind_left dev_cmds_left get_left simp del: dev_cmds.simps simp: Cons)
qed

lemma keybd_left: "device_keybd keycode func es state probe = (Some r, es', acts) \<Longrightarrow> length es' \<le> length es"
proof (induction es arbitrary: state probe acts)
  case (Cons e es)
  have rec: "length es' \<le> Suc (length es)" if "(let (r, es, a) = device_keybd keycode func es st pr in (r, es, g a)) = (Some r, es', acts)" for st pr g
    using that Cons.IH [of st pr] by (auto simp: split_beta prod_eq_iff)
  show ?case
  proof (cases e)
    case (Arrived d)
    then show ?thesis using Cons.prems rec by (auto split: option.splits)
  next
    case (Timeout late)
    show ?thesis
    proof (cases probe)
      case True
      then show ?thesis using Cons.prems Timeout still_there_length [of late es] by auto
    next
      case False
      then show ?thesis using Cons.prems Timeout rec by (auto split: option.splits)
    qed
  qed
qed simp

lemma mouse_left: "device_mouse len es probe p = Inr (Some r, es', acts, ps) \<Longrightarrow> length es' \<le> length es"
proof (induction es arbitrary: probe p acts ps)
  case (Cons e es)
  then show ?case
    by (fastforce simp: split_beta rbind_eq_Inr still_there_def split: wait_outcome.splits option.splits if_splits)
qed simp


definition empty_queue :: fault where "empty_queue = Bugcheck ''PS_2::safe_queue get empty queue''"

lemma mouse_fault: "device_mouse len es probe p = Inl e \<Longrightarrow> e = empty_queue"
  by (induction es arbitrary: probe p)
    (auto simp: empty_queue_def rbind_def bugcheck_def split_beta split: wait_outcome.splits option.splits if_splits sum.splits)



end
