(* ===== verification/Console.thy ===== *)
theory Console
  imports Display Pipe
begin

text \<open>
  The buffers of the console (\<^verbatim>\<open>app/shell/cui.cpp\<close>): the text with the line that is being edited behind it, and the image of the
  screen, whose lines form a ring so that scrolling moves no pixels. The image is drawn with the system call that ends in the
  display driver, so what appears on the screen is stated over the model of the driver. Positions and sizes are natural numbers; the
  corners of rectangles have 16 bits.
\<close>

section \<open>Rectangles\<close>

definition rect_empty :: "rectangle \<Rightarrow> bool" where
  "rect_empty r \<longleftrightarrow> r_right r \<le> r_left r \<or> r_bottom r \<le> r_top r"

definition merge_rect :: "rectangle \<Rightarrow> rectangle \<Rightarrow> rectangle" where
  "merge_rect dst sor =
     (if rect_empty sor then dst
      else if rect_empty dst then sor
      else \<lparr>r_left = min (r_left dst) (r_left sor), r_top = min (r_top dst) (r_top sor),
            r_right = max (r_right dst) (r_right sor), r_bottom = max (r_bottom dst) (r_bottom sor)\<rparr>)"

section \<open>Text\<close>

record text_buffer =
  tb_buffer :: "nat \<Rightarrow> int"
  tb_limit :: nat
  tb_tail :: nat
  tb_edit :: nat

definition tb_clear :: "text_buffer \<Rightarrow> text_buffer" where "tb_clear b = b\<lparr>tb_tail := 0, tb_edit := 0\<rparr>"

definition tb_has_edit :: "text_buffer \<Rightarrow> bool" where "tb_has_edit b \<longleftrightarrow> tb_tail b \<noteq> tb_edit b"

definition ring_inc :: "nat \<Rightarrow> nat \<Rightarrow> nat" where "ring_inc l p = (if p + 1 \<ge> l then 0 else p + 1)"

text \<open>Moving the edited characters one place on, from the last to the first.\<close>

primrec shift_loop :: "nat \<Rightarrow> nat \<Rightarrow> nat \<Rightarrow> nat \<Rightarrow> (nat \<Rightarrow> int) \<Rightarrow> (nat \<Rightarrow> int) res" where
  "shift_loop 0 l tail it buffer = Inl OutOfFuel"
| "shift_loop (Suc n) l tail it buffer =
     (let (it, buffer) = (if it = 0 then (l - 1, buffer(0 := buffer (l - 1))) else (it - 1, buffer(it := buffer (it - 1)))) in
      if it \<noteq> tail then shift_loop n l tail it buffer else Inr buffer)"

text \<open>The position it returns is the old end of the edited characters.\<close>

definition tb_push :: "int \<Rightarrow> bool \<Rightarrow> text_buffer \<Rightarrow> (nat \<times> text_buffer) res" where
  "tb_push ch input b =
     (let pos = tb_edit b; l = tb_limit b in
      if input then Inr (pos, b\<lparr>tb_buffer := (tb_buffer b)(tb_edit b := ch), tb_edit := ring_inc l (tb_edit b)\<rparr>)
      else rbind (if tb_tail b \<noteq> tb_edit b then shift_loop l l (tb_tail b) (tb_edit b) (tb_buffer b) else Inr (tb_buffer b)) (\<lambda>buffer.
        Inr (pos, b\<lparr>tb_buffer := buffer(tb_tail b := ch), tb_tail := ring_inc l (tb_tail b), tb_edit := ring_inc l (tb_edit b)\<rparr>)))"

definition tb_pop :: "text_buffer \<Rightarrow> int \<times> text_buffer" where
  "tb_pop b =
     (if tb_tail b = tb_edit b then (0, b)
      else let edit = (if tb_edit b = 0 then tb_limit b else tb_edit b) - 1 in (tb_buffer b edit, b\<lparr>tb_edit := edit\<rparr>))"

definition tb_commit :: "text_buffer \<Rightarrow> nat \<times> text_buffer" where "tb_commit b = (tb_tail b, b\<lparr>tb_tail := tb_edit b\<rparr>)"

text \<open>\<^verbatim>\<open>CUI::get\<close>: the edited line is committed and copied out, as far as there is room; the rest is dropped.\<close>

primrec copy_loop :: "nat \<Rightarrow> text_buffer \<Rightarrow> nat \<Rightarrow> int list" where
  "copy_loop 0 b it = []"
| "copy_loop (Suc len) b it = (if it = tb_tail b then [] else tb_buffer b it # copy_loop len b (ring_inc (tb_limit b) it))"

definition cui_get :: "nat \<Rightarrow> text_buffer \<Rightarrow> int list \<times> text_buffer" where
  "cui_get len b =
     (if \<not> tb_has_edit b then ([], b) else let (it, b) = tb_commit b in (copy_loop len b it, b))"

section \<open>Image\<close>

record screen_buffer =
  sb_mem :: "nat \<Rightarrow> dword"
  sb_line_size :: nat
  sb_line_count :: nat
  sb_window :: nat
  sb_head :: nat
  sb_focus :: bool

definition zero_cells :: "nat \<Rightarrow> nat \<Rightarrow> (nat \<Rightarrow> dword) \<Rightarrow> (nat \<Rightarrow> dword)" where
  "zero_cells i n mem = (\<lambda>j. if i \<le> j \<and> j < i + n then 0 else mem j)"

definition sb_new :: "(nat \<Rightarrow> dword) \<Rightarrow> nat \<Rightarrow> nat \<Rightarrow> nat \<Rightarrow> screen_buffer res" where
  "sb_new mem ls lc ws = kassert (ws < ls) (Inr \<lparr>sb_mem = mem, sb_line_size = ls, sb_line_count = lc, sb_window = ws, sb_head = 0, sb_focus = False\<rparr>)"

definition sb_set_focus :: "bool \<Rightarrow> screen_buffer \<Rightarrow> bool \<times> screen_buffer" where "sb_set_focus f s = (sb_focus s, s\<lparr>sb_focus := f\<rparr>)"

definition sb_clear :: "screen_buffer \<Rightarrow> bool \<times> screen_buffer" where
  "sb_clear s =
     (if \<not> sb_focus s then (False, s)
      else (True, s\<lparr>sb_mem := zero_cells 0 (sb_line_size s * sb_window s) (sb_mem s), sb_head := 0\<rparr>))"

definition sb_scroll :: "nat \<Rightarrow> screen_buffer \<Rightarrow> bool \<times> screen_buffer" where
  "sb_scroll dy s =
     (if \<not> sb_focus s \<or> dy = 0 then (False, s)
      else let tail = (sb_head s + sb_window s) mod sb_line_count s;
               mem = (if tail + dy \<le> sb_line_count s then zero_cells (sb_line_size s * tail) (sb_line_size s * dy) (sb_mem s)
                      else let count = sb_line_count s - tail in
                        zero_cells 0 (sb_line_size s * (dy - count)) (zero_cells (sb_line_size s * tail) (sb_line_size s * count) (sb_mem s))) in
        (True, s\<lparr>sb_mem := mem, sb_head := (sb_head s + dy) mod sb_line_count s\<rparr>))"

definition sb_pixel :: "nat \<Rightarrow> nat \<Rightarrow> dword \<Rightarrow> screen_buffer \<Rightarrow> bool \<times> screen_buffer" where
  "sb_pixel x y color s =
     (if \<not> sb_focus s \<or> x \<ge> sb_line_size s \<or> y \<ge> sb_window s then (False, s)
      else let line = (sb_head s + y) mod sb_line_count s in (True, s\<lparr>sb_mem := (sb_mem s)(sb_line_size s * line + x := color)\<rparr>))"

primrec fill_lines :: "nat \<Rightarrow> nat \<Rightarrow> nat \<Rightarrow> nat \<Rightarrow> screen_buffer \<Rightarrow> screen_buffer" where
  "fill_lines 0 line left w s = s"
| "fill_lines (Suc n) line left w s =
     fill_lines n (if line + 1 \<ge> sb_line_count s then 0 else line + 1) left w (s\<lparr>sb_mem := zero_cells (sb_line_size s * line + left) w (sb_mem s)\<rparr>)"

definition sb_fill :: "rectangle \<Rightarrow> screen_buffer \<Rightarrow> bool \<times> screen_buffer" where
  "sb_fill r s =
     (if \<not> sb_focus s \<or> rect_empty r \<or> unat (r_right r) > sb_line_size s \<or> unat (r_bottom r) > sb_window s then (False, s)
      else (True, fill_lines (rect_height r) ((sb_head s + unat (r_top r)) mod sb_line_count s) (unat (r_left r)) (rect_width r) s))"

text \<open>The source of the drawing starts at the left edge of the moved rectangle.\<close>

definition imp_render :: "hword \<Rightarrow> hword \<Rightarrow> rectangle \<Rightarrow> nat \<Rightarrow> screen_buffer \<Rightarrow> video_memory \<Rightarrow> video_memory" where
  "imp_render xoff yoff r base s v =
     (let region = \<lparr>r_left = r_left r + xoff, r_top = r_top r + yoff, r_right = r_right r + xoff, r_bottom = r_bottom r + yoff\<rparr> in
      snd (video_draw region (Some (\<lambda>i. sb_mem s (base + unat (r_left region) + i))) (of_nat (sb_line_size s)) v))"

definition sb_render :: "hword \<Rightarrow> hword \<Rightarrow> rectangle \<Rightarrow> screen_buffer \<Rightarrow> video_memory \<Rightarrow> bool \<times> video_memory" where
  "sb_render xoff yoff r s v =
     (if \<not> sb_focus s \<or> rect_empty r then (False, v)
      else let line = (sb_head s + unat (r_top r)) mod sb_line_count s in
        if line + rect_height r \<le> sb_line_count s then (True, imp_render xoff yoff r (sb_line_size s * line) s v)
        else let slice = sb_line_count s - line;
                 v = imp_render xoff yoff (r\<lparr>r_bottom := r_top r + of_nat slice\<rparr>) (sb_line_size s * line) s v in
          (True, imp_render xoff yoff (r\<lparr>r_top := r_top r + of_nat slice\<rparr>) 0 s v))"


section \<open>The edited line\<close>

definition tb_ok :: "text_buffer \<Rightarrow> bool" where "tb_ok b \<longleftrightarrow> tb_tail b < tb_limit b \<and> tb_edit b < tb_limit b"

definition tb_count :: "text_buffer \<Rightarrow> nat" where "tb_count b = gap (tb_limit b) (tb_tail b) (tb_edit b)"

definition edited :: "text_buffer \<Rightarrow> int list" where
  "edited b = map (\<lambda>i. tb_buffer b ((tb_tail b + i) mod tb_limit b)) [0..<tb_count b]"

lemma ring_inc_mod: "p < l \<Longrightarrow> ring_inc l p = (p + 1) mod l"
  by (auto simp: ring_inc_def mod_if)

lemma ring_over: "\<not> x < l \<Longrightarrow> x < l + l \<Longrightarrow> x mod l = x - l" for x l :: nat
  by (metis le_mod_geq linorder_not_less mod_less less_diff_conv2)

lemma gap_of:
  assumes "a < l" "i < l"
  shows "gap l a ((a + i) mod l) = i"
proof (cases "a + i < l")
  case True
  then show ?thesis by (simp add: gap_def)
next
  case False
  have "(a + i) mod l = a + i - l" by (rule ring_over [OF False]) (use assms in simp)
  then show ?thesis using False assms by (simp add: gap_def)
qed

lemma gap_lt: "a < l \<Longrightarrow> b < l \<Longrightarrow> gap l a b < l"
  by (auto simp: gap_def)

lemma gap_back: "a < l \<Longrightarrow> b < l \<Longrightarrow> (a + gap l a b) mod l = b"
  by (rule gap_reach(1))

lemma ring_pos_inj: "(a + i) mod l = (a + j) mod l \<Longrightarrow> a < l \<Longrightarrow> i < l \<Longrightarrow> j < l \<Longrightarrow> i = j" for a i j l :: nat
  by (metis gap_of)

lemma tb_count_lt: "tb_ok b \<Longrightarrow> tb_count b < tb_limit b"
  by (simp add: tb_ok_def tb_count_def gap_lt)

lemma ring_before:
  assumes "a < l" "k < l"
  shows "(if (a + Suc k) mod l = 0 then l - 1 else (a + Suc k) mod l - 1) = (a + k) mod (l :: nat)"
proof -
  define p where "p = (a + k) mod l"
  have "p < l" unfolding p_def using assms(1) by simp
  moreover have "(a + Suc k) mod l = (if p + 1 = l then 0 else p + 1)" unfolding p_def
    using ring_next [of "(a + k) mod l" l] assms(1) by (simp add: mod_Suc)
  ultimately show ?thesis unfolding p_def [symmetric] by auto
qed

lemma shift_loop_ok:
  assumes "tail < l" "0 < k" "k < l" "k \<le> n"
  shows "\<exists>buf'. shift_loop n l tail ((tail + k) mod l) buf = Inr buf' \<and> (\<forall>i<k. buf' ((tail + Suc i) mod l) = buf ((tail + i) mod l)) \<and>
    (\<forall>j. (\<forall>i<k. j \<noteq> (tail + Suc i) mod l) \<longrightarrow> buf' j = buf j)"
  using assms(2-4)
proof (induction k arbitrary: n buf)
  case (Suc k)
  then obtain m where n: "n = Suc m" by (cases n) auto
  define it p where "it = (tail + Suc k) mod l" and "p = (tail + k) mod l"
  define buf1 where "buf1 = buf(it := buf p)"
  have before: "(if it = 0 then l - 1 else it - 1) = p" unfolding it_def p_def using ring_before [OF assms(1), of k] Suc.prems(2) by simp
  have step: "shift_loop n l tail it buf = (if p \<noteq> tail then shift_loop m l tail p buf1 else Inr buf1)"
    using before by (cases "it = 0") (simp_all add: n buf1_def)
  have ne: "it \<noteq> (tail + i) mod l" if "i \<le> k" for i
    unfolding it_def using ring_pos_inj [OF _ assms(1), of "Suc k" i] that Suc.prems(2) by auto
  show ?case unfolding it_def [symmetric]
  proof (cases "k = 0")
    case True
    then have "p = tail" using assms(1) by (simp add: p_def)
    moreover have "(tail + Suc 0) mod l = it" using True by (simp add: it_def)
    ultimately show "\<exists>buf'. shift_loop n l tail it buf = Inr buf' \<and> (\<forall>i<Suc k. buf' ((tail + Suc i) mod l) = buf ((tail + i) mod l)) \<and>
      (\<forall>j. (\<forall>i<Suc k. j \<noteq> (tail + Suc i) mod l) \<longrightarrow> buf' j = buf j)" using True step p_def by (simp add: buf1_def)
  next
    case False
    then have pt: "p \<noteq> tail" unfolding p_def using ring_pos_inj [OF _ assms(1), of k 0] Suc.prems(2) assms(1) by auto
    have ih: "0 < k" "k < l" "k \<le> m" using False Suc.prems n by simp_all
    from Suc.IH [OF ih, of buf1] obtain buf' where b: "shift_loop m l tail p buf1 = Inr buf'"
      "\<And>i. i < k \<Longrightarrow> buf' ((tail + Suc i) mod l) = buf1 ((tail + i) mod l)" "\<And>j. (\<forall>i<k. j \<noteq> (tail + Suc i) mod l) \<Longrightarrow> buf' j = buf1 j"
      unfolding p_def by blast
    have low: "buf' ((tail + Suc i) mod l) = buf ((tail + i) mod l)" if "i < k" for i using b(2) [OF that] ne [of i] that by (simp add: buf1_def)
    have "\<forall>i<k. it \<noteq> (tail + Suc i) mod l" using ne Suc_leI by blast
    then have top: "buf' it = buf p" using b(3) [of it] by (simp add: buf1_def)
    have all: "buf' ((tail + Suc i) mod l) = buf ((tail + i) mod l)" if "i < Suc k" for i using low [of i] top that by (cases "i = k") (simp_all add: it_def p_def)
    have rest: "buf' j = buf j" if "\<forall>i<Suc k. j \<noteq> (tail + Suc i) mod l" for j
      using b(3) [of j] that by (auto simp: buf1_def it_def)
    show "\<exists>buf'. shift_loop n l tail it buf = Inr buf' \<and> (\<forall>i<Suc k. buf' ((tail + Suc i) mod l) = buf ((tail + i) mod l)) \<and>
      (\<forall>j. (\<forall>i<Suc k. j \<noteq> (tail + Suc i) mod l) \<longrightarrow> buf' j = buf j)" using step pt b(1) all rest by auto
  qed
qed simp


lemma edited_length [simp]: "length (edited b) = tb_count b"
  by (simp add: edited_def)

lemma push_input:
  assumes "tb_ok b" "tb_count b + 1 < tb_limit b"
  shows "\<exists>b'. tb_push ch True b = Inr (tb_edit b, b') \<and> tb_ok b' \<and> edited b' = edited b @ [ch]"
proof -
  have D: "tb_tail b < tb_limit b" "tb_edit b < tb_limit b" using assms(1) by (simp_all add: tb_ok_def)
  define b' where "b' = b\<lparr>tb_buffer := (tb_buffer b)(tb_edit b := ch), tb_edit := (tb_edit b + 1) mod tb_limit b\<rparr>"
  have p: "tb_push ch True b = Inr (tb_edit b, b')" by (simp add: tb_push_def b'_def ring_inc_mod [OF D(2)])
  have ok: "tb_ok b'" using D by (simp add: b'_def tb_ok_def)
  have f: "tb_count b' = Suc (tb_count b)" using gap_step(1) [OF D] assms(2) by (simp add: tb_count_def b'_def)
  have pos: "(tb_tail b + tb_count b) mod tb_limit b = tb_edit b" unfolding tb_count_def by (rule gap_reach(1) [OF D])
  have "(tb_tail b + i) mod tb_limit b \<noteq> tb_edit b" if "i < tb_count b" for i using that unfolding tb_count_def by (rule gap_reach(2) [OF D])
  then have "edited b' = edited b @ [ch]" unfolding edited_def f using pos by (simp add: b'_def)
  then show ?thesis using p ok by blast
qed

lemma push_output:
  assumes "tb_ok b"
  shows "\<exists>b'. tb_push ch False b = Inr (tb_edit b, b') \<and> tb_ok b' \<and> edited b' = edited b \<and> tb_buffer b' (tb_tail b) = ch \<and> tb_tail b' = (tb_tail b + 1) mod tb_limit b"
proof -
  have D: "tb_tail b < tb_limit b" "tb_edit b < tb_limit b" using assms by (simp_all add: tb_ok_def)
  define l t n where "l = tb_limit b" and "t = tb_tail b" and "n = tb_count b"
  have D': "t < l" "n < l" "tb_edit b = (t + n) mod l"
    using D tb_count_lt [OF assms] gap_reach(1) [OF D] by (simp_all add: l_def t_def n_def tb_count_def)
  obtain buf where buf: "(if t \<noteq> tb_edit b then shift_loop l l t (tb_edit b) (tb_buffer b) else Inr (tb_buffer b)) = Inr buf"
    "\<And>i. i < n \<Longrightarrow> buf ((t + Suc i) mod l) = tb_buffer b ((t + i) mod l)"
  proof (cases "n = 0")
    case True
    then have "tb_edit b = t" using D' by simp
    then show ?thesis using that [of "tb_buffer b"] True by simp
  next
    case False
    then have "tb_edit b \<noteq> t" using ring_pos_inj [of t n l 0] D' by auto
    then show ?thesis using shift_loop_ok [OF D'(1) _ D'(2), of l "tb_buffer b"] False D' that by auto
  qed
  define b' where "b' = b\<lparr>tb_buffer := buf(t := ch), tb_tail := (t + 1) mod l, tb_edit := (tb_edit b + 1) mod l\<rparr>"
  have p: "tb_push ch False b = Inr (tb_edit b, b')"
    unfolding tb_push_def Let_def l_def [symmetric] t_def [symmetric] buf(1)
    using ring_inc_mod [of "tb_edit b" l] ring_inc_mod [of t l] D D'(1) by (simp add: b'_def l_def)
  have ok: "tb_ok b'" using D'(1) by (simp add: b'_def tb_ok_def l_def [symmetric])
  have "(tb_edit b + 1) mod l = ((t + 1) mod l + n) mod l" unfolding D'(3) by (simp add: mod_simps ac_simps)
  then have cnt: "tb_count b' = n" using gap_of [of "(t + 1) mod l" l n] D' by (simp add: tb_count_def b'_def l_def [symmetric])
  have cell: "tb_buffer b' (((t + 1) mod l + i) mod l) = tb_buffer b ((t + i) mod l)" if "i < n" for i
  proof -
    have e: "((t + 1) mod l + i) mod l = (t + Suc i) mod l" by (simp add: mod_simps)
    have "(t + Suc i) mod l \<noteq> t" using ring_pos_inj [of t "Suc i" l 0] D' that by auto
    then show ?thesis unfolding e using buf(2) [OF that] by (simp add: b'_def)
  qed
  have "edited b' = edited b" unfolding edited_def cnt n_def [symmetric] using cell by (simp add: b'_def l_def [symmetric] t_def [symmetric])
  then show ?thesis using p ok by (intro exI [of _ b']) (simp add: b'_def t_def l_def)
qed

lemma pop_edited:
  assumes "tb_ok b"
  shows "tb_ok (snd (tb_pop b)) \<and> (if edited b = [] then tb_pop b = (0, b) else fst (tb_pop b) = last (edited b) \<and> edited (snd (tb_pop b)) = butlast (edited b))"
proof -
  have D: "tb_tail b < tb_limit b" "tb_edit b < tb_limit b" using assms by (simp_all add: tb_ok_def)
  have e: "edited b = [] \<longleftrightarrow> tb_count b = 0" by (metis edited_length length_0_conv)
  show ?thesis
  proof (cases "tb_count b")
    case 0
    then have "tb_tail b = tb_edit b" using gap_reach(1) [OF D] D by (simp add: tb_count_def)
    then show ?thesis using 0 e assms by (simp add: tb_pop_def)
  next
    case (Suc n)
    define l t p where "l = tb_limit b" and "t = tb_tail b" and "p = (t + n) mod l"
    have n: "n < l" "t < l" using Suc tb_count_lt [OF assms] D by (simp_all add: l_def t_def)
    have ed: "tb_edit b = (t + Suc n) mod l" using gap_reach(1) [OF D] Suc by (simp add: tb_count_def l_def t_def)
    have ne: "tb_tail b \<noteq> tb_edit b" using Suc D by (auto simp: tb_count_def gap_def split: if_splits)
    have "(if tb_edit b = 0 then l - 1 else tb_edit b - 1) = p" unfolding ed p_def by (rule ring_before [OF n(2,1)])
    then have "(if tb_edit b = 0 then tb_limit b else tb_edit b) - 1 = p" by (cases "tb_edit b = 0") (simp_all add: l_def)
    then have pop: "tb_pop b = (tb_buffer b p, b\<lparr>tb_edit := p\<rparr>)" using ne by (simp add: tb_pop_def Let_def)
    have cnt: "tb_count (b\<lparr>tb_edit := p\<rparr>) = n" using gap_of [OF n(2,1)] by (simp add: tb_count_def p_def l_def t_def)
    have "edited (b\<lparr>tb_edit := p\<rparr>) = map (\<lambda>i. tb_buffer b ((t + i) mod l)) [0..<n]" unfolding edited_def cnt by (simp add: l_def t_def)
    moreover have "edited b = map (\<lambda>i. tb_buffer b ((t + i) mod l)) [0..<n] @ [tb_buffer b p]" unfolding edited_def Suc by (simp add: l_def t_def p_def)
    moreover have "tb_ok (b\<lparr>tb_edit := p\<rparr>)" using n(2) D(1) by (simp add: tb_ok_def p_def l_def)
    ultimately show ?thesis using pop by simp
  qed
qed

lemma copy_loop_edited:
  assumes "tail < tb_limit b" "tb_tail b = (tail + n) mod tb_limit b" "n < tb_limit b"
  shows "copy_loop len b tail = take len (map (\<lambda>i. tb_buffer b ((tail + i) mod tb_limit b)) [0..<n])"
  using assms
proof (induction len arbitrary: tail n)
  case (Suc len)
  show ?case
  proof (cases n)
    case 0
    then show ?thesis using Suc.prems by simp
  next
    case (Suc m)
    define l u where "l = tb_limit b" and "u = (tail + 1) mod l"
    have ne: "tail \<noteq> tb_tail b" using ring_pos_inj [of tail n l 0] Suc.prems Suc by (auto simp: l_def)
    have u: "u < l" "tb_tail b = (u + m) mod l" "ring_inc l tail = u"
      using Suc.prems Suc ring_inc_mod [of tail l] by (simp_all add: u_def l_def mod_simps)
    have "copy_loop len b u = take len (map (\<lambda>i. tb_buffer b ((u + i) mod l)) [0..<m])"
      unfolding l_def by (rule Suc.IH) (use u Suc.prems(3) Suc in \<open>simp_all add: l_def\<close>)
    moreover have "map (\<lambda>i. tb_buffer b ((tail + i) mod l)) [0..<n] = tb_buffer b tail # map (\<lambda>i. tb_buffer b ((u + i) mod l)) [0..<m]"
    proof -
      have "(u + i) mod l = (tail + Suc i) mod l" for i by (simp add: u_def mod_simps)
      then show ?thesis unfolding Suc using Suc.prems(1) by (simp add: upt_conv_Cons map_Suc_upt [symmetric] l_def del: upt_Suc)
    qed
    ultimately show ?thesis using ne u(3) by (simp add: l_def)
  qed
qed simp

text \<open>the console keeps the line that is being edited apart from the output: what is printed meanwhile goes before it and
  leaves it as it is, typing appends to it, deleting takes its last character, and reading returns it from its start and ends it.\<close>

theorem edited_line:
  assumes "tb_ok b"
  shows "(\<exists>b'. tb_push ch False b = Inr (tb_edit b, b') \<and> edited b' = edited b \<and> tb_buffer b' (tb_tail b) = ch) \<and>
    (length (edited b) + 1 < tb_limit b \<longrightarrow> (\<exists>b'. tb_push ch True b = Inr (tb_edit b, b') \<and> edited b' = edited b @ [ch])) \<and>
    (edited b \<noteq> [] \<longrightarrow> fst (tb_pop b) = last (edited b) \<and> edited (snd (tb_pop b)) = butlast (edited b)) \<and>
    fst (cui_get len b) = take len (edited b) \<and> edited (snd (cui_get len b)) = []"
proof -
  have D: "tb_tail b < tb_limit b" "tb_edit b < tb_limit b" using assms by (simp_all add: tb_ok_def)
  have "fst (cui_get len b) = take len (edited b) \<and> edited (snd (cui_get len b)) = []"
  proof (cases "tb_tail b = tb_edit b")
    case True
    then show ?thesis by (simp add: cui_get_def tb_has_edit_def edited_def tb_count_def gap_def)
  next
    case False
    let ?b = "b\<lparr>tb_tail := tb_edit b\<rparr>"
    have "copy_loop len ?b (tb_tail b) = take len (map (\<lambda>i. tb_buffer ?b ((tb_tail b + i) mod tb_limit ?b)) [0..<tb_count b])"
      by (rule copy_loop_edited) (use D gap_reach(1) [OF D] tb_count_lt [OF assms] in \<open>simp_all add: tb_count_def\<close>)
    then show ?thesis using False by (simp add: cui_get_def tb_has_edit_def tb_commit_def edited_def tb_count_def gap_def)
  qed
  then show ?thesis using push_output [OF assms, of ch] push_input [OF assms, of ch] pop_edited [OF assms] by auto
qed


definition small_text :: text_buffer where "small_text = \<lparr>tb_buffer = (\<lambda>i. int i + 97), tb_limit = 4, tb_tail = 3, tb_edit = 1\<rparr>"

theorem edited_line_witness:
  "edited small_text = [100, 97] \<and> fst (cui_get 5 small_text) = [100, 97]"
proof -
  have ok: "tb_ok small_text" by (simp add: tb_ok_def small_text_def)
  have e: "edited small_text = [100, 97]" by (simp add: edited_def tb_count_def gap_def small_text_def upt_rec)
  from edited_line [OF ok, of 0 5] e show ?thesis by simp
qed

section \<open>The ring of lines\<close>

definition screen_ok :: "screen_buffer \<Rightarrow> bool" where
  "screen_ok s \<longleftrightarrow> 0 < sb_line_size s \<and> sb_line_size s < 2 ^ 16 \<and> 0 < sb_window s \<and> sb_window s \<le> sb_line_count s \<and> sb_head s < sb_line_count s"

text \<open>The pixel of the window at a position.\<close>

definition view :: "screen_buffer \<Rightarrow> nat \<Rightarrow> nat \<Rightarrow> dword" where
  "view s x y = sb_mem s (sb_line_size s * ((sb_head s + y) mod sb_line_count s) + x)"

lemma line_cells:
  assumes "x < L"
  shows "L * a \<le> L * b + x \<longleftrightarrow> a \<le> b" "L * b + x < L * c \<longleftrightarrow> b < (c :: nat)"
proof -
  have up: "L * b + x < L * c" if "b < c" for b c
  proof -
    have "L * b + x < L * Suc b" using assms by simp
    also have "L * Suc b \<le> L * c" using that by (intro mult_le_mono2) simp
    finally show ?thesis .
  qed
  show "L * b + x < L * c \<longleftrightarrow> b < c" using up [of b c] mult_le_mono2 [of c b L] by (cases "b < c") (auto simp: not_less intro: trans_le_add1)
  show "L * a \<le> L * b + x \<longleftrightarrow> a \<le> b" using up [of b a] mult_le_mono2 [of a b L] by (cases "a \<le> b") (auto simp: not_le intro: trans_le_add1)
qed

lemma zero_lines:
  assumes "x < L"
  shows "zero_cells (L * a) (L * n) mem (L * b + x) = (if a \<le> b \<and> b < a + n then 0 else mem (L * b + x))"
  using line_cells(1) [OF assms, of a b] line_cells(2) [OF assms, of b "a + n"] by (simp add: zero_cells_def distrib_left)

lemma scroll_cells:
  assumes "screen_ok s" "dy \<le> sb_line_count s" "sb_focus s" "0 < dy" "b < sb_line_count s" "x < sb_line_size s"
  shows "sb_mem (snd (sb_scroll dy s)) (sb_line_size s * b + x) =
    (if gap (sb_line_count s) ((sb_head s + sb_window s) mod sb_line_count s) b < dy then 0 else sb_mem s (sb_line_size s * b + x))"
proof -
  define L C t where "L = sb_line_size s" and "C = sb_line_count s" and "t = (sb_head s + sb_window s) mod sb_line_count s"
  have t: "t < C" "b < C" "dy \<le> C" "x < L" using assms by (simp_all add: screen_ok_def t_def C_def L_def)
  have z: "zero_cells 0 (L * n) mem (L * b + x) = (if b < n then 0 else mem (L * b + x))" for n mem using zero_lines [OF t(4), of 0 n mem b] by simp
  show ?thesis
  proof (cases "t + dy \<le> C")
    case True
    then have "sb_mem (snd (sb_scroll dy s)) (L * b + x) = zero_cells (L * t) (L * dy) (sb_mem s) (L * b + x)"
      using assms(3,4) by (simp add: sb_scroll_def Let_def t_def C_def L_def)
    also have "\<dots> = (if t \<le> b \<and> b < t + dy then 0 else sb_mem s (L * b + x))" by (rule zero_lines [OF t(4)])
    also have "(t \<le> b \<and> b < t + dy) \<longleftrightarrow> gap C t b < dy" using True t by (auto simp: gap_def)
    finally show ?thesis by (simp add: t_def C_def L_def)
  next
    case False
    then have "sb_mem (snd (sb_scroll dy s)) (L * b + x) = zero_cells 0 (L * (dy - (C - t))) (zero_cells (L * t) (L * (C - t)) (sb_mem s)) (L * b + x)"
      using assms(3,4) by (simp add: sb_scroll_def Let_def t_def C_def L_def)
    also have "\<dots> = (if b < dy - (C - t) then 0 else if t \<le> b \<and> b < t + (C - t) then 0 else sb_mem s (L * b + x))" unfolding z zero_lines [OF t(4)] ..
    also have "\<dots> = (if gap C t b < dy then 0 else sb_mem s (L * b + x))" using False t by (auto simp: gap_def)
    finally show ?thesis by (simp add: t_def C_def L_def)
  qed
qed

text \<open>scrolling moves the picture of the window up and clears the lines that come into view.\<close>

theorem scroll_moves_view:
  assumes "screen_ok s" "sb_focus s" "0 < dy" "dy + sb_window s \<le> sb_line_count s" "x < sb_line_size s" "y < sb_window s"
  shows "screen_ok (snd (sb_scroll dy s)) \<and> view (snd (sb_scroll dy s)) x y = (if y + dy < sb_window s then view s x (y + dy) else 0)"
proof -
  define C h w where "C = sb_line_count s" and "h = sb_head s" and "w = sb_window s"
  have D: "h < C" "0 < w" "dy + w \<le> C" "y < w" using assms by (simp_all add: screen_ok_def C_def h_def w_def)
  define t b where "t = (h + w) mod C" and "b = (h + (y + dy)) mod C"
  have tb: "t < C" "b < C" using D by (simp_all add: t_def b_def)
  have g: "gap C t b = (if y + dy < w then C - w + (y + dy) else y + dy - w)"
  proof (cases "y + dy < w")
    case True
    have "b = (t + (C - w + (y + dy))) mod C"
    proof -
      have "h + w + (C - w + (y + dy)) = h + (y + dy) + C" using D by simp
      then show ?thesis unfolding b_def t_def by (metis mod_add_left_eq mod_add_self2)
    qed
    then show ?thesis using gap_of [OF tb(1), of "C - w + (y + dy)"] True D by simp
  next
    case False
    have "b = (t + (y + dy - w)) mod C"
    proof -
      have "h + w + (y + dy - w) = h + (y + dy)" using False by simp
      then show ?thesis unfolding b_def t_def by (metis mod_add_left_eq)
    qed
    then show ?thesis using gap_of [OF tb(1), of "y + dy - w"] False D by simp
  qed
  have line: "(sb_head (snd (sb_scroll dy s)) + y) mod C = b"
    using assms(2,3) by (simp add: sb_scroll_def Let_def b_def h_def C_def mod_simps ac_simps)
  have same: "sb_line_size (snd (sb_scroll dy s)) = sb_line_size s" "sb_line_count (snd (sb_scroll dy s)) = C" by (simp_all add: sb_scroll_def Let_def C_def)
  have "view (snd (sb_scroll dy s)) x y = (if gap C t b < dy then 0 else sb_mem s (sb_line_size s * b + x))"
    unfolding view_def same line using scroll_cells [OF assms(1) _ assms(2,3), of b x] tb(2) assms(5) D by (simp add: C_def t_def h_def w_def)
  moreover have "gap C t b < dy \<longleftrightarrow> \<not> y + dy < w" unfolding g using D by auto
  moreover have "sb_mem s (sb_line_size s * b + x) = view s x (y + dy)" by (simp add: view_def b_def h_def C_def)
  moreover have "screen_ok (snd (sb_scroll dy s))" using assms(1) by (auto simp: screen_ok_def sb_scroll_def Let_def)
  ultimately show ?thesis by (simp add: w_def)
qed


definition small_screen :: screen_buffer where
  "small_screen = \<lparr>sb_mem = of_nat, sb_line_size = 10, sb_line_count = 4, sb_window = 2, sb_head = 3, sb_focus = True\<rparr>"

theorem scroll_moves_view_witness:
  "view (snd (sb_scroll 1 small_screen)) 5 0 = 5 \<and> view (snd (sb_scroll 1 small_screen)) 5 1 = 0"
proof -
  have ok: "screen_ok small_screen" "sb_focus small_screen" by (simp_all add: screen_ok_def small_screen_def)
  have "view small_screen 5 1 = 5" by (simp add: view_def small_screen_def)
  then show ?thesis using scroll_moves_view [OF ok, of 1 5 0] scroll_moves_view [OF ok, of 1 5 1] by (simp add: small_screen_def)
qed

lemma pixel_view:
  assumes "screen_ok s" "sb_focus s" "x < sb_line_size s" "y < sb_window s" "x' < sb_line_size s" "y' < sb_window s"
  shows "view (snd (sb_pixel x y c s)) x' y' = (if x' = x \<and> y' = y then c else view s x' y')"
proof -
  define L where "L = sb_line_size s"
  define b b' where "b = (sb_head s + y) mod sb_line_count s" and "b' = (sb_head s + y') mod sb_line_count s"
  have eq: "b' = b \<longleftrightarrow> y' = y" unfolding b_def b'_def using ring_pos_inj [of "sb_head s" y' "sb_line_count s" y] assms by (auto simp: screen_ok_def)
  have x: "x < L" "x' < L" using assms(3,5) by (simp_all add: L_def)
  have "L * b' + x' = L * b + x \<longleftrightarrow> b' = b \<and> x' = x"
  proof
    assume e: "L * b' + x' = L * b + x"
    have "b' \<le> b" "b \<le> b'" using line_cells(1) [OF x(1), of b' b] line_cells(1) [OF x(2), of b b'] e by simp_all
    then show "b' = b \<and> x' = x" using e by simp
  qed simp
  moreover have "view (snd (sb_pixel x y c s)) x' y' = (if L * b' + x' = L * b + x then c else view s x' y')"
    using assms(2-4) by (simp add: sb_pixel_def view_def Let_def b_def b'_def L_def)
  ultimately show ?thesis using eq by auto
qed

lemma clear_view:
  assumes "screen_ok s" "sb_focus s" "x < sb_line_size s" "y < sb_window s"
  shows "view (snd (sb_clear s)) x y = 0"
proof -
  have "y mod sb_line_count s = y" using assms by (simp add: screen_ok_def)
  then show ?thesis using zero_lines [OF assms(3), of 0 "sb_window s" "sb_mem s" y] assms(2,4) by (simp add: sb_clear_def view_def)
qed

lemma zero_part:
  assumes "x < L" "left + w \<le> L"
  shows "zero_cells (L * a + left) w mem (L * b + x) = (if b = a \<and> left \<le> x \<and> x < left + w then 0 else mem (L * b + x))"
proof -
  consider "b < a" | "b = a" | "a < b" by linarith
  then show ?thesis
  proof cases
    case 1
    then show ?thesis using line_cells(2) [OF assms(1), of b a] by (simp add: zero_cells_def)
  next
    case 2
    then show ?thesis by (simp add: zero_cells_def)
  next
    case 3
    then have "L * a + L \<le> L * b" using mult_le_mono2 [of "Suc a" b L] by simp
    then show ?thesis using 3 assms(2) by (simp add: zero_cells_def)
  qed
qed

lemma fill_lines_cells:
  assumes "line < sb_line_count s" "n \<le> sb_line_count s" "left + w \<le> sb_line_size s" "x < sb_line_size s" "b < sb_line_count s"
  shows "sb_mem (fill_lines n line left w s) (sb_line_size s * b + x) =
    (if gap (sb_line_count s) line b < n \<and> left \<le> x \<and> x < left + w then 0 else sb_mem s (sb_line_size s * b + x))"
  using assms
proof (induction n arbitrary: line s)
  case (Suc n)
  define C L s1 u where "C = sb_line_count s" and "L = sb_line_size s"
    and "s1 = s\<lparr>sb_mem := zero_cells (sb_line_size s * line + left) w (sb_mem s)\<rparr>" and "u = (line + 1) mod C"
  have same: "sb_line_count s1 = C" "sb_line_size s1 = L" by (simp_all add: s1_def C_def L_def)
  have next_line: "(if line + 1 \<ge> C then 0 else line + 1) = u" using ring_inc_mod [of line C] Suc.prems(1) by (simp add: ring_inc_def u_def C_def)
  have u: "u < C" using Suc.prems(1) by (simp add: u_def C_def)
  have "fill_lines (Suc n) line left w s = fill_lines n u left w s1" using next_line by (simp add: C_def s1_def)
  moreover have "sb_mem (fill_lines n u left w s1) (L * b + x) = (if gap C u b < n \<and> left \<le> x \<and> x < left + w then 0 else sb_mem s1 (L * b + x))"
    using Suc.IH [of u s1] Suc.prems u unfolding same by (simp add: C_def L_def)
  moreover have "sb_mem s1 (L * b + x) = (if b = line \<and> left \<le> x \<and> x < left + w then 0 else sb_mem s (L * b + x))"
    using zero_part [of x L left w line "sb_mem s" b] Suc.prems by (simp add: s1_def L_def)
  moreover have "gap C line b < Suc n \<longleftrightarrow> b = line \<or> gap C u b < n"
  proof (cases "b = line")
    case True
    then show ?thesis by (simp add: gap_def)
  next
    case False
    then have "gap C line b = Suc (gap C u b)" unfolding u_def using gap_step(2) [of line C b] Suc.prems by (simp add: C_def)
    then show ?thesis using False by simp
  qed
  ultimately show ?case by (auto simp: C_def L_def)
qed simp

lemma fill_lines_same: "sb_head (fill_lines n line left w s) = sb_head s" "sb_line_count (fill_lines n line left w s) = sb_line_count s"
    "sb_line_size (fill_lines n line left w s) = sb_line_size s"
  by (induction n arbitrary: line s) simp_all

lemma fill_view:
  assumes "screen_ok s" "sb_focus s" "\<not> rect_empty r" "unat (r_right r) \<le> sb_line_size s" "unat (r_bottom r) \<le> sb_window s"
    "x < sb_line_size s" "y < sb_window s"
  shows "view (snd (sb_fill r s)) x y = (if in_rect r x y then 0 else view s x y)"
proof -
  define C h top where "C = sb_line_count s" and "h = sb_head s" and "top = unat (r_top r)"
  define t b where "t = (h + top) mod C" and "b = (h + y) mod C"
  have D: "h < C" "y < C" "unat (r_bottom r) \<le> C" using assms(1,5,7) by (auto simp: screen_ok_def C_def h_def)
  have rect: "unat (r_left r) < unat (r_right r)" "top < unat (r_bottom r)" using assms(3) by (simp_all add: rect_empty_def word_le_nat_alt not_le top_def)
  have tb: "t < C" "b < C" using D by (simp_all add: t_def b_def)
  have f: "snd (sb_fill r s) = fill_lines (rect_height r) t (unat (r_left r)) (rect_width r) s"
    using assms(2-5) by (simp add: sb_fill_def t_def h_def top_def C_def)
  have g: "gap C t b < rect_height r \<longleftrightarrow> top \<le> y \<and> y < unat (r_bottom r)"
  proof (cases "top \<le> y")
    case True
    have "b = (t + (y - top)) mod C" unfolding b_def t_def using True by (metis add.assoc le_add_diff_inverse mod_add_left_eq)
    then have "gap C t b = y - top" using gap_of [OF tb(1), of "y - top"] D by simp
    then show ?thesis using True rect by (auto simp: rect_height_def top_def)
  next
    case False
    have "h + top + (C - (top - y)) = h + y + C" using False rect D by simp
    then have "b = (t + (C - (top - y))) mod C" unfolding b_def t_def by (metis mod_add_left_eq mod_add_self2)
    then have "gap C t b = C - (top - y)" using gap_of [OF tb(1), of "C - (top - y)"] False D by simp
    then show ?thesis using False rect D by (auto simp: rect_height_def top_def)
  qed
  have "rect_height r \<le> C" "unat (r_left r) + rect_width r = unat (r_right r)" using rect D by (auto simp: rect_height_def rect_width_def)
  then have "sb_mem (snd (sb_fill r s)) (sb_line_size s * b + x) = (if gap C t b < rect_height r \<and> unat (r_left r) \<le> x \<and> x < unat (r_right r) then 0 else sb_mem s (sb_line_size s * b + x))"
    unfolding f using fill_lines_cells [of t s "rect_height r" "unat (r_left r)" "rect_width r" x b] tb assms(4,6) by (simp add: C_def)
  then show ?thesis unfolding g view_def f fill_lines_same by (auto simp: in_rect_def b_def h_def C_def top_def)
qed

section \<open>On the display\<close>

lemma imp_render_pixel:
  assumes "video_ok v" "x < line_pixels v" "screen_ok s" "r_left r < r_right r" "r_top r < r_bottom r" "r_right r \<le> v_width v" "r_bottom r \<le> v_height v"
    "unat (r_right r) \<le> sb_line_size s"
  shows "pixel (imp_render 0 0 r (sb_line_size s * line) s v) x y =
    (if in_rect r x y then 0x00FFFFFF AND sb_mem s (sb_line_size s * (line + (y - unat (r_top r))) + x) else pixel v x y)"
proof -
  define L where "L = sb_line_size s"
  have adv: "unat (of_nat L :: hword) = L" using assms(3) by (simp add: L_def screen_ok_def unsigned_of_nat take_bit_nat_eq_self)
  define img where "img = (\<lambda>i. sb_mem s (L * line + unat (r_left r) + i))"
  obtain ok v' where d: "video_draw r (Some img) (of_nat L) v = (ok, v')" by force
  have w: "rect_width r \<le> L" using assms(8) by (simp add: rect_width_def L_def)
  note P = draw_pixels [OF assms(1) d assms(2), of y]
  have ok: "ok" using P assms(4-7) w adv by simp
  have src: "img ((y - unat (r_top r)) * L + (x - unat (r_left r))) = sb_mem s (L * (line + (y - unat (r_top r))) + x)" if "in_rect r x y"
  proof -
    have "unat (r_left r) \<le> x" using that by (simp add: in_rect_def)
    then show ?thesis by (simp add: img_def distrib_left mult.commute add.assoc)
  qed
  have "imp_render 0 0 r (sb_line_size s * line) s v = v'" using d by (cases r) (simp add: imp_render_def Let_def img_def L_def)
  then show ?thesis using P ok adv src by (auto simp: L_def)
qed


lemma imp_render_geometry: "video_ok v \<Longrightarrow> video_ok (imp_render xo yo r base s v) \<and> line_pixels (imp_render xo yo r base s v) = line_pixels v \<and>
    v_width (imp_render xo yo r base s v) = v_width v \<and> v_height (imp_render xo yo r base s v) = v_height v"
proof -
  assume ok: "video_ok v"
  obtain q v' where d: "video_draw \<lparr>r_left = r_left r + xo, r_top = r_top r + yo, r_right = r_right r + xo, r_bottom = r_bottom r + yo\<rparr>
    (Some (\<lambda>i. sb_mem s (base + unat (r_left r + xo) + i))) (of_nat (sb_line_size s)) v = (q, v')" by force
  then have "imp_render xo yo r base s v = v'" by (simp add: imp_render_def Let_def)
  then show ?thesis using draw_geometry [OF d] ok by (simp add: video_ok_def line_pixels_def)
qed

text \<open>C32: after the console has drawn a part of its window, the display shows there exactly the picture of the window, also where the
  ring of lines starts over, and nothing else has changed.\<close>

theorem render_shows_view:
  assumes "video_ok v" "x < line_pixels v" "screen_ok s" "sb_focus s" "r_left r < r_right r" "r_top r < r_bottom r"
    "r_right r \<le> v_width v" "r_bottom r \<le> v_height v" "unat (r_right r) \<le> sb_line_size s" "unat (r_bottom r) \<le> sb_window s"
  shows "pixel (snd (sb_render 0 0 r s v)) x y = (if in_rect r x y then 0x00FFFFFF AND view s x y else pixel v x y)"
proof -
  define L C line top where "L = sb_line_size s" and "C = sb_line_count s" and "line = (sb_head s + unat (r_top r)) mod sb_line_count s" and "top = unat (r_top r)"
  have ne: "\<not> rect_empty r" using assms(5,6) by (simp add: rect_empty_def not_le)
  have lC: "line < C" using assms(3) by (simp add: line_def C_def screen_ok_def)
  have tb: "top < unat (r_bottom r)" using assms(6) by (simp add: top_def word_less_nat_alt)
  have h: "rect_height r \<le> C" using assms(3,10) by (auto simp: rect_height_def screen_ok_def C_def)
  have at: "view s x y = sb_mem s (L * ((line + (y - top)) mod C) + x)" if "top \<le> y"
  proof -
    have "(sb_head s + y) mod C = (line + (y - top)) mod C" unfolding line_def C_def top_def [symmetric]
      using that by (metis add.assoc le_add_diff_inverse mod_add_left_eq)
    then show ?thesis by (simp add: view_def L_def C_def)
  qed
  show ?thesis
  proof (cases "line + rect_height r \<le> C")
    case True
    then have e: "snd (sb_render 0 0 r s v) = imp_render 0 0 r (L * line) s v"
      using ne assms(4) by (simp add: sb_render_def Let_def line_def C_def L_def)
    have "sb_mem s (L * (line + (y - top)) + x) = view s x y" if "in_rect r x y"
    proof -
      have "top \<le> y" "line + (y - top) < C" using that True by (auto simp: in_rect_def top_def rect_height_def)
      then show ?thesis using at by simp
    qed
    then show ?thesis unfolding e L_def using imp_render_pixel [OF assms(1-3,5-9), of line y] by (simp add: L_def top_def)
  next
    case False
    define slice where "slice = C - line"
    have sl: "0 < slice" "slice < rect_height r" using False lC by (simp_all add: slice_def)
    have mid: "unat (r_top r + of_nat slice) = top + slice"
    proof -
      have "unat (r_bottom r) < 2 ^ LENGTH(16)" by (rule unsigned_less)
      then have "top + slice < 2 ^ 16" using sl(2) tb by (simp add: rect_height_def top_def)
      then show ?thesis by (simp add: unat_word_ariths top_def unsigned_of_nat take_bit_nat_eq_self)
    qed
    have mlt: "top + slice < unat (r_bottom r)" using sl(2) by (simp add: rect_height_def top_def)
    define r1 r2 where "r1 = r\<lparr>r_bottom := r_top r + of_nat slice\<rparr>" and "r2 = r\<lparr>r_top := r_top r + of_nat slice\<rparr>"
    define v1 where "v1 = imp_render 0 0 r1 (L * line) s v"
    have e: "snd (sb_render 0 0 r s v) = imp_render 0 0 r2 (L * 0) s v1"
      using ne assms(4) False by (simp add: sb_render_def Let_def line_def C_def L_def slice_def r1_def r2_def v1_def)
    have m: "r_top r < r_top r + of_nat slice" "r_top r + of_nat slice < r_bottom r" "r_top r + of_nat slice \<le> v_height v"
      using mid sl(1) mlt assms(8) by (simp_all add: word_less_nat_alt word_le_nat_alt top_def)
    note G = imp_render_geometry [OF assms(1), of 0 0 r1 "L * line" s]
    have p1: "pixel v1 x y = (if in_rect r1 x y then 0x00FFFFFF AND sb_mem s (L * (line + (y - unat (r_top r1))) + x) else pixel v x y)"
      unfolding v1_def L_def by (rule imp_render_pixel) (use assms m in \<open>simp_all add: r1_def\<close>)
    have p2: "pixel (imp_render 0 0 r2 (L * 0) s v1) x y =
      (if in_rect r2 x y then 0x00FFFFFF AND sb_mem s (L * (0 + (y - unat (r_top r2))) + x) else pixel v1 x y)"
      unfolding L_def by (rule imp_render_pixel) (use assms m G in \<open>simp_all add: r2_def v1_def L_def\<close>)
    have in1: "in_rect r1 x y \<longleftrightarrow> in_rect r x y \<and> y < top + slice" using mid mlt by (auto simp: in_rect_def r1_def)
    have in2: "in_rect r2 x y \<longleftrightarrow> in_rect r x y \<and> top + slice \<le> y" using mid sl(1) by (auto simp: in_rect_def r2_def top_def)
    have v1: "sb_mem s (L * (line + (y - top)) + x) = view s x y" if "in_rect r x y" "y < top + slice"
    proof -
      have "top \<le> y" "line + (y - top) < C" using that lC by (auto simp: in_rect_def top_def slice_def)
      then show ?thesis using at by simp
    qed
    have v2: "sb_mem s (L * (y - (top + slice)) + x) = view s x y" if "in_rect r x y" "top + slice \<le> y"
    proof -
      have "y - top < C" using that h tb by (auto simp: in_rect_def rect_height_def top_def)
      then have "(line + (y - top)) mod C = line + (y - top) - C" using that(2) lC by (intro ring_over) (auto simp: slice_def)
      moreover have "line + (y - top) - C = y - (top + slice)" using that(2) lC by (simp add: slice_def)
      ultimately show ?thesis using at that(2) by simp
    qed
    show ?thesis unfolding e p2 in2 p1 in1 using v1 v2 mid by (auto simp: r1_def r2_def top_def)
  qed
qed

theorem render_shows_view_witness:
  "pixel (snd (sb_render 0 0 \<lparr>r_left = 0, r_top = 0, r_right = 4, r_bottom = 2\<rparr> small_screen
      \<lparr>v_width = 4, v_height = 2, v_line_size = 32, v_pixels = \<lambda>_. 0\<rparr>)) 3 1 = 3"
proof -
  let ?v = "\<lparr>v_width = 4, v_height = 2, v_line_size = 32, v_pixels = \<lambda>_. 0\<rparr> :: video_memory"
  let ?r = "\<lparr>r_left = 0, r_top = 0, r_right = 4, r_bottom = 2\<rparr> :: rectangle"
  have "video_ok ?v" "3 < line_pixels ?v" by (simp_all add: video_ok_def line_pixels_def)
  moreover have "screen_ok small_screen" "sb_focus small_screen" by (simp_all add: screen_ok_def small_screen_def)
  moreover have "in_rect ?r 3 1" "view small_screen 3 1 = 3" by (simp_all add: in_rect_def view_def small_screen_def)
  ultimately show ?thesis using render_shows_view [of ?v 3 small_screen ?r 1] by (simp add: small_screen_def)
qed

text \<open>A drawing that is not at the left edge of the display shows the wrong part of the picture: the offset is added to the source too.\<close>

lemma render_offset_wrong:
  "pixel (snd (sb_render 2 0 \<lparr>r_left = 0, r_top = 0, r_right = 2, r_bottom = 1\<rparr> small_screen
      \<lparr>v_width = 4, v_height = 2, v_line_size = 32, v_pixels = \<lambda>_. 0\<rparr>)) 2 0 = view small_screen 2 0"
  by code_simp

end
