(* ===== verification/Containers.thy ===== *)
theory Containers
  imports Buddy_Heap
begin

text \<open>
  The container templates (\<^verbatim>\<open>util/include/vector.hpp\<close>, \<^verbatim>\<open>string.hpp\<close>, \<^verbatim>\<open>linked_list.hpp\<close>). A vector is the list of its elements with its capacity; the memory behind
  it comes from the heap and is not modelled here. A string is a vector that ends in a zero. A linked list is a store of links
  between nodes, which are addresses, with 0 for the null pointer; the pointers of iterators are nodes, and 0 is the end. Violated
  preconditions stop the kernel (\<^verbatim>\<open>THROW\<close> is a bugcheck). An iterator is taken to belong to the list it is used with, and a list to have fewer
  than \<open>2 ^ 32\<close> nodes, so that its 32-bit count does not wrap.
\<close>

section \<open>Vectors\<close>

record 'a vector =
  vec_items :: "'a list"
  vec_cap :: dword

definition vec_new :: "'a vector" where "vec_new = \<lparr>vec_items = [], vec_cap = 0\<rparr>"

abbreviation vec_count :: "'a vector \<Rightarrow> nat" where "vec_count v \<equiv> length (vec_items v)"

text \<open>\<^verbatim>\<open>assert(count <= cap)\<close>\<close>

definition vec_ok :: "'a vector \<Rightarrow> bool" where "vec_ok v \<longleftrightarrow> vec_count v \<le> unat (vec_cap v)"

definition vec_reserve :: "dword \<Rightarrow> 'a vector \<Rightarrow> 'a vector res" where
  "vec_reserve new_size v = kassert (vec_ok v) (Inr (if new_size \<le> vec_cap v then v else v\<lparr>vec_cap := new_size\<rparr>))"

text \<open>\<open>first\<close> is the capacity of the first buffer, at least 2: 0x40 bytes of elements.\<close>

definition vec_push_back :: "dword \<Rightarrow> 'a \<Rightarrow> 'a vector \<Rightarrow> 'a vector res" where
  "vec_push_back first x v =
     rbind (if of_nat (vec_count v) = vec_cap v then vec_reserve (if vec_count v \<noteq> 0 then 2 * vec_cap v else first) v else Inr v) (\<lambda>v.
       if vec_count v \<ge> unat (vec_cap v) then bugcheck ''vector expand failed''
       else Inr (v\<lparr>vec_items := vec_items v @ [x]\<rparr>))"

definition vec_pop_back :: "'a vector \<Rightarrow> 'a vector res" where
  "vec_pop_back v = kassert (vec_ok v) (if vec_items v = [] then bugcheck ''access empty vector'' else Inr (v\<lparr>vec_items := butlast (vec_items v)\<rparr>))"

definition vec_at :: "nat \<Rightarrow> 'a vector \<Rightarrow> 'a res" where
  "vec_at i v = (if i < vec_count v then Inr (vec_items v ! i) else bugcheck ''index out of range'')"

definition vec_back :: "'a vector \<Rightarrow> 'a res" where
  "vec_back v = (if vec_items v \<noteq> [] then Inr (last (vec_items v)) else bugcheck ''access empty vector'')"

definition vec_clear :: "'a vector \<Rightarrow> 'a vector res" where "vec_clear v = kassert (vec_ok v) (Inr vec_new)"

primrec vec_push_all :: "dword \<Rightarrow> 'a list \<Rightarrow> 'a vector \<Rightarrow> 'a vector res" where
  "vec_push_all first [] v = Inr v"
| "vec_push_all first (x # xs) v = rbind (vec_push_back first x v) (vec_push_all first xs)"

section \<open>Strings\<close>

text \<open>Strings of bytes: the first buffer has 0x40 characters.\<close>

type_synonym ustring = "nat vector"

definition str_size :: "ustring \<Rightarrow> nat res" where "str_size s = kassert (vec_items s \<noteq> []) (Inr (vec_count s - 1))"

definition str_make :: "nat list \<Rightarrow> ustring res" where "str_make cs = rbind (vec_push_all 0x40 cs vec_new) (vec_push_back 0x40 0)"

definition str_clear :: "ustring \<Rightarrow> ustring res" where "str_clear s = rbind (vec_clear s) (vec_push_back 0x40 0)"

definition str_append :: "nat list \<Rightarrow> ustring \<Rightarrow> ustring res" where
  "str_append cs s = rbind (vec_back s) (\<lambda>c. kassert (c = 0) (rbind (vec_pop_back s) (\<lambda>s. rbind (vec_push_all 0x40 cs s) (vec_push_back 0x40 0))))"

definition str_push_back :: "nat \<Rightarrow> ustring \<Rightarrow> ustring res" where
  "str_push_back c s = kassert (vec_items s \<noteq> []) (rbind (vec_back s) (\<lambda>z. kassert (z = 0) (rbind (vec_pop_back s) (\<lambda>s.
     rbind (vec_push_back 0x40 c s) (vec_push_back 0x40 0)))))"

definition str_pop_back :: "ustring \<Rightarrow> ustring res" where
  "str_pop_back s = kassert (vec_items s \<noteq> []) (rbind (vec_back s) (\<lambda>z. kassert (z = 0)
     (if vec_count s > 1 then rbind (vec_pop_back s) (\<lambda>s. rbind (vec_pop_back s) (vec_push_back 0x40 0)) else bugcheck ''access empty string'')))"

text \<open>Assignment: the string is cleared, which leaves its zero, before the characters are appended.\<close>

definition str_assign :: "ustring \<Rightarrow> ustring \<Rightarrow> ustring res" where
  "str_assign other s =
     rbind (str_clear s) (\<lambda>s. rbind (vec_push_all 0x40 (butlast (vec_items other)) s) (\<lambda>s. rbind (vec_push_back 0x40 0 s) (\<lambda>s.
       rbind (str_size s) (\<lambda>n. rbind (str_size other) (\<lambda>m. kassert (n = m) (Inr s))))))"

text \<open>Assignment from a string that goes away: the contents are exchanged.\<close>

definition str_move :: "ustring \<Rightarrow> ustring \<Rightarrow> (ustring \<times> ustring) res" where
  "str_move other s = rbind (str_clear s) (\<lambda>s. rbind (str_size s) (\<lambda>n. kassert (n = 0) (Inr (other, s))))"

section \<open>Linked lists\<close>

record llist =
  ll_prev :: "nat \<Rightarrow> nat"
  ll_next :: "nat \<Rightarrow> nat"
  ll_head :: nat
  ll_tail :: nat
  ll_count :: nat

definition ll_new :: llist where "ll_new = \<lparr>ll_prev = (\<lambda>_. 0), ll_next = (\<lambda>_. 0), ll_head = 0, ll_tail = 0, ll_count = 0\<rparr>"

definition get_node :: "nat \<Rightarrow> llist \<Rightarrow> llist res" where
  "get_node pos s =
     (if pos = 0 then bugcheck ''invalid iterator for get_node''
      else let pv = ll_prev s pos; nx = ll_next s pos in
        rbind (if pv \<noteq> 0 then Inr (s\<lparr>ll_next := (ll_next s)(pv := nx)\<rparr>) else kassert (pos = ll_head s) (Inr (s\<lparr>ll_head := nx\<rparr>))) (\<lambda>s.
        rbind (if nx \<noteq> 0 then Inr (s\<lparr>ll_prev := (ll_prev s)(nx := pv)\<rparr>) else kassert (pos = ll_tail s) (Inr (s\<lparr>ll_tail := pv\<rparr>))) (\<lambda>s.
        Inr (s\<lparr>ll_count := ll_count s - 1\<rparr>))))"

definition put_node :: "nat \<Rightarrow> nat \<Rightarrow> llist \<Rightarrow> llist res" where
  "put_node pos cur s =
     rbind (if pos \<noteq> 0 then
         let pv = ll_prev s pos; s = s\<lparr>ll_prev := (ll_prev s)(cur := pv), ll_next := (ll_next s)(cur := pos)\<rparr> in
         rbind (if pv \<noteq> 0 then Inr (s\<lparr>ll_next := (ll_next s)(pv := cur)\<rparr>) else kassert (pos = ll_head s) (Inr (s\<lparr>ll_head := cur\<rparr>))) (\<lambda>s.
         Inr (s\<lparr>ll_prev := (ll_prev s)(pos := cur)\<rparr>))
       else let s = s\<lparr>ll_next := (ll_next s)(cur := 0)\<rparr> in
         if ll_count s \<noteq> 0 then kassert (ll_head s \<noteq> 0 \<and> ll_tail s \<noteq> 0 \<and> ll_next s (ll_tail s) = 0)
           (Inr (s\<lparr>ll_next := (ll_next s)(ll_tail s := cur), ll_prev := (ll_prev s)(cur := ll_tail s), ll_tail := cur\<rparr>))
         else kassert (ll_head s = 0 \<and> ll_tail s = 0) (Inr (s\<lparr>ll_prev := (ll_prev s)(cur := 0), ll_head := cur, ll_tail := cur\<rparr>)))
       (\<lambda>s. Inr (s\<lparr>ll_count := ll_count s + 1\<rparr>))"

definition push_back :: "nat \<Rightarrow> llist \<Rightarrow> llist res" where "push_back cur s = put_node 0 cur s"

definition push_front :: "nat \<Rightarrow> llist \<Rightarrow> llist res" where "push_front cur s = put_node (ll_head s) cur s"

definition pop_back :: "llist \<Rightarrow> llist res" where
  "pop_back s =
     (if ll_count s = 0 then bugcheck ''access empty list''
      else kassert (ll_head s \<noteq> 0 \<and> ll_tail s \<noteq> 0 \<and> ll_next s (ll_tail s) = 0)
        (let cur = ll_tail s; pv = ll_prev s cur in
         rbind (if pv \<noteq> 0 then kassert (ll_count s > 1 \<and> ll_next s pv = cur) (Inr (s\<lparr>ll_tail := pv, ll_next := (ll_next s)(pv := 0)\<rparr>))
                else kassert (ll_count s = 1 \<and> ll_head s = ll_tail s) (Inr (s\<lparr>ll_head := 0, ll_tail := 0\<rparr>)))
           (\<lambda>s. Inr (s\<lparr>ll_count := ll_count s - 1\<rparr>))))"

definition pop_front :: "llist \<Rightarrow> llist res" where
  "pop_front s =
     (if ll_count s = 0 then bugcheck ''access empty list''
      else kassert (ll_head s \<noteq> 0 \<and> ll_tail s \<noteq> 0 \<and> ll_prev s (ll_head s) = 0)
        (let cur = ll_head s; nx = ll_next s cur in
         rbind (if nx \<noteq> 0 then kassert (ll_count s > 1 \<and> ll_prev s nx = cur) (Inr (s\<lparr>ll_head := nx, ll_prev := (ll_prev s)(nx := 0)\<rparr>))
                else kassert (ll_count s = 1 \<and> ll_head s = ll_tail s) (Inr (s\<lparr>ll_head := 0, ll_tail := 0\<rparr>)))
           (\<lambda>s. Inr (s\<lparr>ll_count := ll_count s - 1\<rparr>))))"

definition insert_node :: "nat \<Rightarrow> nat \<Rightarrow> llist \<Rightarrow> (nat \<times> llist) res" where
  "insert_node pos cur s = rbind (put_node pos cur s) (\<lambda>s. Inr (cur, s))"

text \<open>\<^verbatim>\<open>while(count) pop_back();\<close> with fuel: one more than the number of nodes is enough (\<open>ll_clear_ok\<close>).\<close>

primrec ll_clear :: "nat \<Rightarrow> llist \<Rightarrow> llist res" where
  "ll_clear 0 s = Inl OutOfFuel"
| "ll_clear (Suc n) s = (if ll_count s \<noteq> 0 then rbind (pop_back s) (ll_clear n) else Inr s)"

text \<open>The node that follows the erased one.\<close>

definition erase :: "nat \<Rightarrow> llist \<Rightarrow> (nat \<times> llist) res" where
  "erase pos s =
     (if pos = 0 then bugcheck ''invalid iterator for erase''
      else kassert (ll_count s \<noteq> 0 \<and> ll_head s \<noteq> 0 \<and> ll_tail s \<noteq> 0)
        (let nx = ll_next s pos in
         rbind (get_node pos s) (\<lambda>s. kassert (ll_count s = 0 \<longrightarrow> ll_head s = 0 \<and> ll_tail s = 0) (Inr (nx, s)))))"

text \<open>Moving a node from one list to another. Both lists have their links in the nodes, here in the same store.\<close>

definition splice :: "nat \<Rightarrow> nat \<Rightarrow> llist \<Rightarrow> llist \<Rightarrow> (llist \<times> llist) res" where
  "splice pos it other s =
     (if it = 0 then bugcheck ''invalid iterator for splice''
      else kassert (ll_count other \<noteq> 0 \<and> ll_head other \<noteq> 0 \<and> ll_tail other \<noteq> 0)
        (rbind (get_node it other) (\<lambda>other.
         rbind (put_node pos it (s\<lparr>ll_prev := ll_prev other, ll_next := ll_next other\<rparr>)) (\<lambda>s.
         Inr (other\<lparr>ll_prev := ll_prev s, ll_next := ll_next s\<rparr>, s)))))"

text \<open>Iterators: one step on, one step back.\<close>

definition it_inc :: "nat \<Rightarrow> llist \<Rightarrow> nat res" where
  "it_inc ptr s = (if ptr = 0 then bugcheck ''iterator move past the end'' else Inr (ll_next s ptr))"

definition it_dec :: "nat \<Rightarrow> llist \<Rightarrow> nat res" where
  "it_dec ptr s =
     (if ptr \<noteq> 0 \<and> ll_prev s ptr \<noteq> 0 then Inr (ll_prev s ptr)
      else if ll_count s \<noteq> 0 then Inr (ll_tail s)
      else bugcheck ''iterator move past the begin'')"


section \<open>Vectors and strings are lists\<close>

lemma push_back_ok:
  assumes "vec_ok v" "vec_count v < 2 ^ 31" "2 \<le> first"
  shows "\<exists>v'. vec_push_back first x v = Inr v' \<and> vec_items v' = vec_items v @ [x] \<and> vec_ok v'"
proof (cases "of_nat (vec_count v) = vec_cap v")
  case False
  have "vec_count v \<noteq> unat (vec_cap v)"
  proof
    assume "vec_count v = unat (vec_cap v)"
    then have "of_nat (vec_count v) = vec_cap v" by simp
    then show False using False by simp
  qed
  then have "vec_count v < unat (vec_cap v)" using assms(1) by (simp add: vec_ok_def)
  then show ?thesis using False by (simp add: vec_push_back_def vec_ok_def)
next
  case True
  have c: "unat (vec_cap v) = vec_count v" unfolding True [symmetric] using assms(2) by (simp add: unsigned_of_nat take_bit_nat_eq_self)
  define n where "n = (if vec_count v \<noteq> 0 then 2 * vec_cap v else first)"
  have big: "vec_count v < unat n"
  proof (cases "vec_count v = 0")
    case True
    then show ?thesis using assms(3) by (simp add: n_def word_le_nat_alt)
  next
    case False
    have "unat (2 * vec_cap v) = 2 * vec_count v" using c assms(2) by (simp add: unat_word_ariths)
    then show ?thesis using False by (simp add: n_def)
  qed
  then have "\<not> n \<le> vec_cap v" using c by (simp add: word_le_nat_alt)
  then have "vec_reserve n v = Inr (v\<lparr>vec_cap := n\<rparr>)" using assms(1) by (simp add: vec_reserve_def)
  moreover have "vec_push_back first x v = rbind (vec_reserve n v) (\<lambda>v. if vec_count v \<ge> unat (vec_cap v) then bugcheck ''vector expand failed''
      else Inr (v\<lparr>vec_items := vec_items v @ [x]\<rparr>))" unfolding vec_push_back_def n_def using True by simp
  ultimately show ?thesis using big by (simp add: vec_ok_def)
qed

lemma push_all_ok:
  assumes "vec_ok v" "vec_count v + length xs \<le> 2 ^ 31" "2 \<le> first"
  shows "\<exists>v'. vec_push_all first xs v = Inr v' \<and> vec_items v' = vec_items v @ xs \<and> vec_ok v'"
  using assms(1,2)
proof (induction xs arbitrary: v)
  case (Cons x xs)
  obtain v1 where "vec_push_back first x v = Inr v1" "vec_items v1 = vec_items v @ [x]" "vec_ok v1"
    using push_back_ok [OF Cons.prems(1) _ assms(3), of x] Cons.prems(2) by auto
  then show ?case using Cons.IH [of v1] Cons.prems(2) by auto
qed simp

definition str_is :: "ustring \<Rightarrow> nat list \<Rightarrow> bool" where "str_is s cs \<longleftrightarrow> vec_ok s \<and> vec_items s = cs @ [0]"

lemma vec_new_ok: "vec_ok vec_new" "vec_items vec_new = []"
  by (simp_all add: vec_new_def vec_ok_def)

lemma pop_back_vec: "vec_ok v \<Longrightarrow> vec_items v = xs @ [x] \<Longrightarrow> vec_pop_back v = Inr (v\<lparr>vec_items := xs\<rparr>) \<and> vec_ok (v\<lparr>vec_items := xs\<rparr>)"
  by (simp add: vec_pop_back_def vec_ok_def)

lemma finish_ok:
  assumes "vec_ok v" "vec_count v + length cs < 2 ^ 31"
  shows "\<exists>s. rbind (vec_push_all 0x40 cs v) (vec_push_back 0x40 0) = Inr s \<and> str_is s (vec_items v @ cs)"
proof -
  obtain v1 where v1: "vec_push_all 0x40 cs v = Inr v1" "vec_items v1 = vec_items v @ cs" "vec_ok v1"
    using push_all_ok [OF assms(1), of cs "0x40"] assms(2) by auto
  have "vec_count v1 < 2 ^ 31" using v1(2) assms(2) by simp
  then obtain v2 where "vec_push_back 0x40 0 v1 = Inr v2" "vec_items v2 = vec_items v1 @ [0]" "vec_ok v2" using push_back_ok [OF v1(3), of "0x40" 0] by auto
  then show ?thesis using v1 by (auto simp: str_is_def)
qed

lemma str_clear_ok: "vec_ok s \<Longrightarrow> \<exists>s'. str_clear s = Inr s' \<and> str_is s' []"
  using push_back_ok [OF vec_new_ok(1), of "0x40" "0 :: nat"] by (auto simp: str_clear_def vec_clear_def str_is_def vec_new_ok)

text \<open>strings are lists of characters behind a zero that the operations keep: making one, appending, adding and removing at the end.\<close>

theorem strings_are_lists:
  assumes "str_is s cs" "length cs + length ds < 2 ^ 31 - 1"
  shows "(\<exists>s'. str_make ds = Inr s' \<and> str_is s' ds) \<and> (\<exists>s'. str_append ds s = Inr s' \<and> str_is s' (cs @ ds)) \<and>
    (\<exists>s'. str_push_back c s = Inr s' \<and> str_is s' (cs @ [c])) \<and>
    (if cs = [] then str_pop_back s = bugcheck ''access empty string'' else \<exists>s'. str_pop_back s = Inr s' \<and> str_is s' (butlast cs)) \<and>
    str_size s = Inr (length cs)"
proof -
  have ok: "vec_ok s" "vec_items s = cs @ [0]" using assms(1) by (auto simp: str_is_def)
  have bk: "vec_back s = Inr 0" "vec_items s \<noteq> []" using ok(2) by (simp_all add: vec_back_def)
  define s1 where "s1 = s\<lparr>vec_items := cs\<rparr>"
  have s1: "vec_pop_back s = Inr s1" "vec_ok s1" "vec_items s1 = cs" using pop_back_vec [OF ok] by (simp_all add: s1_def)
  have make: "\<exists>s'. str_make ds = Inr s' \<and> str_is s' ds" using finish_ok [OF vec_new_ok(1), of ds] assms(2) by (simp add: str_make_def vec_new_ok)
  have app: "\<exists>s'. str_append es s = Inr s' \<and> str_is s' (cs @ es)" if "length cs + length es < 2 ^ 31" for es
    using finish_ok [OF s1(2), of es] that s1 bk by (simp add: str_append_def)
  have push: "str_push_back c s = str_append [c] s" using bk s1(1)
    by (simp add: str_push_back_def str_append_def rbind_assoc)
  have pop: "\<exists>s'. str_pop_back s = Inr s' \<and> str_is s' (butlast cs)" if ne: "cs \<noteq> []"
  proof -
    obtain ds c where cs: "cs = ds @ [c]" using ne by (metis rev_exhaust)
    have s2: "vec_pop_back s1 = Inr (s1\<lparr>vec_items := ds\<rparr>)" "vec_ok (s1\<lparr>vec_items := ds\<rparr>)" using pop_back_vec [OF s1(2), of ds c] s1(3) cs by simp_all
    have "vec_count (s1\<lparr>vec_items := ds\<rparr>) < 2 ^ 31" using assms(2) cs by simp
    then show ?thesis using push_back_ok [OF s2(2), of "0x40" "0 :: nat"] s2 s1 bk ok(2) cs by (auto simp: str_pop_back_def str_is_def)
  qed
  have "str_pop_back s = bugcheck ''access empty string''" if "cs = []" using that bk ok(2) by (simp add: str_pop_back_def)
  moreover have "str_size s = Inr (length cs)" using ok(2) by (simp add: str_size_def)
  ultimately show ?thesis using make app [of ds] push app [of "[c]"] pop assms(2) by auto
qed

theorem strings_are_lists_witness:
  "(\<exists>s'. str_make [98] = Inr s' \<and> str_is s' [98]) \<and>
   (\<exists>s'. str_append [98] \<lparr>vec_items = [97, 0], vec_cap = 64\<rparr> = Inr s' \<and> str_is s' [97, 98])"
proof -
  have "str_is \<lparr>vec_items = [97, 0], vec_cap = 64\<rparr> [97]" by (simp add: str_is_def vec_ok_def)
  from strings_are_lists [OF this, of "[98]"] show ?thesis by simp
qed

text \<open>Assigning one string to another fails its own assertion: the zero of the cleared string stays in front of the characters.\<close>

lemma assign_stops:
  assumes "str_is s cs" "str_is other ds" "length ds < 2 ^ 30"
  shows "str_assign other s = Inl AssertFailed"
proof -
  obtain s1 where s1: "str_clear s = Inr s1" "vec_ok s1" "vec_items s1 = [0]" using str_clear_ok [of s] assms(1) by (auto simp: str_is_def)
  have bl: "butlast (vec_items other) = ds" using assms(2) by (simp add: str_is_def)
  obtain s2 where s2: "vec_push_all 0x40 ds s1 = Inr s2" "vec_items s2 = 0 # ds" "vec_ok s2" using push_all_ok [OF s1(2), of ds "0x40"] s1(3) assms(3) by auto
  obtain s3 where "vec_push_back 0x40 0 s2 = Inr s3" "vec_items s3 = 0 # ds @ [0]" using push_back_ok [OF s2(3), of "0x40" 0] s2(2) assms(3) by auto
  then show ?thesis using s1(1) s2(1) bl assms(2) by (simp add: str_assign_def str_size_def str_is_def kassert_def)
qed

section \<open>Linked lists are lists\<close>

text \<open>The links as a list of free blocks of one size, to use the lemmas on such lists.\<close>

definition links :: "llist \<Rightarrow> bheap" where
  "links s = \<lparr>hp_prev = ll_prev s, hp_next = ll_next s, hp_pool = (\<lambda>_. ll_head s), hp_cap = 0\<rparr>"

definition ll_is :: "llist \<Rightarrow> nat list \<Rightarrow> bool" where
  "ll_is s xs \<longleftrightarrow> seg (links s) 0 (ll_head s) xs 0 \<and> distinct xs \<and> ll_tail s = last0 xs \<and> ll_count s = length xs"

lemma links_simps [simp]: "hp_prev (links s) = ll_prev s" "hp_next (links s) = ll_next s" "hp_pool (links s) i = ll_head s"
  by (simp_all add: links_def)

lemma ll_isD:
  assumes "ll_is s (as @ bs)"
  shows "seg (links s) 0 (ll_head s) (as @ bs) 0" "distinct (as @ bs)" "0 \<notin> set (as @ bs)" "as = [] \<Longrightarrow> ll_head s = hd0 bs"
    "as \<noteq> [] \<Longrightarrow> ll_next s (last as) = hd0 bs" "bs \<noteq> [] \<Longrightarrow> ll_prev s (hd bs) = last0 as" "ll_tail s = last0 (as @ bs)" "ll_count s = length (as @ bs)"
proof -
  show a: "seg (links s) 0 (ll_head s) (as @ bs) 0" "distinct (as @ bs)" "ll_tail s = last0 (as @ bs)" "ll_count s = length (as @ bs)"
    using assms by (simp_all add: ll_is_def)
  note S = seg_split [OF a(1)]
  show "as = [] \<Longrightarrow> ll_head s = hd0 bs" using S(1) by simp
  show "as \<noteq> [] \<Longrightarrow> ll_next s (last as) = hd0 bs" using S(3) by simp
  show "bs \<noteq> [] \<Longrightarrow> ll_prev s (hd bs) = last0 as" using S(4) by simp
  show "0 \<notin> set (as @ bs)" by (rule seg_nonzero [OF a(1)])
qed

lemma last0_append: "bs \<noteq> [] \<Longrightarrow> last0 (as @ bs) = last0 bs"
  by (simp add: last0_def)

lemma seg_links: "hp_prev l = ll_prev s \<Longrightarrow> hp_next l = ll_next s \<Longrightarrow> seg l p c xs e \<Longrightarrow> seg (links s) p c xs e"
  using seg_cong [of xs "links s" l p c e] by simp

lemma get_node_ok:
  assumes "ll_is s (as @ p # bs)"
  shows "\<exists>s'. get_node p s = Inr s' \<and> ll_is s' (as @ bs) \<and> (\<forall>x. x \<notin> set (as @ bs) \<longrightarrow> ll_prev s' x = ll_prev s x \<and> ll_next s' x = ll_next s x)"
proof -
  note D = ll_isD [OF assms]
  have D2: "ll_is s ((as @ [p]) @ bs)" using assms by simp
  have nx: "ll_next s p = hd0 bs" using ll_isD(5) [OF D2] by simp
  have pv: "ll_prev s p = last0 as" using D(6) by simp
  have z: "p \<noteq> 0" "hd0 bs \<noteq> 0 \<longleftrightarrow> bs \<noteq> []" "last0 as \<noteq> 0 \<longleftrightarrow> as \<noteq> []" using D(3) end0_nonzero [of bs] end0_nonzero [of as] by auto
  have hd: "as = [] \<Longrightarrow> ll_head s = p" using D(4) by simp
  have tl: "ll_tail s = (if bs = [] then p else last0 bs)" using D(7) by (simp add: last0_def)
  define s' where "s' = s\<lparr>ll_next := (if as \<noteq> [] then (ll_next s)(last0 as := hd0 bs) else ll_next s), ll_head := (if as \<noteq> [] then ll_head s else hd0 bs),
    ll_prev := (if bs \<noteq> [] then (ll_prev s)(hd0 bs := last0 as) else ll_prev s), ll_tail := (if bs \<noteq> [] then ll_tail s else last0 as), ll_count := ll_count s - 1\<rparr>"
  have g: "get_node p s = Inr s'" unfolding get_node_def Let_def nx pv
    using z hd tl by (cases "as = []"; cases "bs = []") (simp_all add: s'_def)
  have nxp: "bs \<noteq> [] \<Longrightarrow> ll_prev s (hd0 bs) = p" using ll_isD(6) [OF D2] by (simp add: hd0_def)
  have pvn: "as \<noteq> [] \<Longrightarrow> ll_next s (last0 as) = p" using D(5) by (simp add: last0_def)
  define l where "l = \<lparr>hp_prev = ll_prev s', hp_next = ll_next s', hp_pool = (\<lambda>_. ll_head s)(0 := ll_head s'), hp_cap = 0\<rparr>"
  have ul: "unlink 0 p (links s) = Inr l" unfolding unlink_def Let_def links_simps nx pv
    using z nxp pvn hd by (cases "as = []"; cases "bs = []") (simp_all add: s'_def l_def links_def fun_eq_iff)
  have e: "hp_prev l = ll_prev s'" "hp_next l = ll_next s'" "hp_pool l 0 = ll_head s'" by (simp_all add: l_def)
  have l': "seg l 0 (hp_pool l 0) (as @ bs) 0" "\<forall>x. x \<notin> set (as @ bs) \<longrightarrow> hp_prev l x = hp_prev (links s) x \<and> hp_next l x = hp_next (links s) x"
    using unlink_ok [of "links s" 0 as p bs] D(1,2) ul by auto
  have "seg (links s') 0 (ll_head s') (as @ bs) 0" using seg_links [OF e(1,2) l'(1)] e(3) by simp
  moreover have "ll_tail s' = last0 (as @ bs)" using tl by (cases "bs = []") (simp_all add: s'_def last0_append)
  ultimately have "ll_is s' (as @ bs)" using D(2,8) by (simp add: ll_is_def s'_def)
  then show ?thesis using g l'(2) e(1,2) by auto
qed

lemma put_node_ok:
  assumes "ll_is s (as @ bs)" "cur \<noteq> 0" "cur \<notin> set (as @ bs)"
  shows "\<exists>s'. put_node (hd0 bs) cur s = Inr s' \<and> ll_is s' (as @ cur # bs) \<and>
    (\<forall>x. x \<notin> set (as @ cur # bs) \<longrightarrow> ll_prev s' x = ll_prev s x \<and> ll_next s' x = ll_next s x)"
proof -
  note D = ll_isD [OF assms(1)]
  have z: "hd0 bs \<noteq> 0 \<longleftrightarrow> bs \<noteq> []" "last0 as \<noteq> 0 \<longleftrightarrow> as \<noteq> []" using D(3) end0_nonzero [of bs] end0_nonzero [of as] by auto
  have pv: "bs \<noteq> [] \<Longrightarrow> ll_prev s (hd0 bs) = last0 as" using D(6) by (simp add: hd0_def)
  have ne: "cur \<noteq> hd0 bs" "cur \<noteq> last0 as" using assms(2,3) by (auto simp: hd0_def last0_def)
  have tl: "bs = [] \<Longrightarrow> ll_tail s = last0 as" using D(7) by simp
  have hd: "as = [] \<Longrightarrow> ll_head s = hd0 bs" by (rule D(4))
  have hdnz: "as \<noteq> [] \<Longrightarrow> ll_head s \<noteq> 0" using D(1,3) by (cases as) auto
  have lastn: "bs = [] \<Longrightarrow> as \<noteq> [] \<Longrightarrow> ll_next s (last0 as) = 0" using D(5) by (simp add: last0_def)
  have cnt: "ll_count s = length as + length bs" using D(8) by simp
  define s' where "s' = s\<lparr>ll_next := (if as \<noteq> [] then ((ll_next s)(cur := hd0 bs))(last0 as := cur) else (ll_next s)(cur := hd0 bs)),
    ll_prev := (if bs \<noteq> [] then ((ll_prev s)(cur := last0 as))(hd0 bs := cur) else (ll_prev s)(cur := last0 as)),
    ll_head := (if as \<noteq> [] then ll_head s else cur), ll_tail := (if bs \<noteq> [] then ll_tail s else cur), ll_count := ll_count s + 1\<rparr>"
  have g: "put_node (hd0 bs) cur s = Inr s'"
  proof (cases "bs = []")
    case True
    then show ?thesis using z tl hd hdnz lastn cnt ne by (cases "as = []") (auto simp: put_node_def Let_def s'_def)
  next
    case False
    then show ?thesis using z pv hd ne by (cases "as = []") (auto simp: put_node_def Let_def s'_def)
  qed
  have dis: "distinct (as @ cur # bs)" using D(2) assms(3) by auto
  define l where "l = \<lparr>hp_prev = ll_prev s', hp_next = ll_next s', hp_pool = (\<lambda>_. ll_head s)(0 := ll_head s'), hp_cap = 0\<rparr>"
  have ul: "link 0 cur (last0 as) (hd0 bs) (links s) = Inr l" unfolding link_def Let_def
    using z hd by (cases "as = []"; cases "bs = []") (simp_all add: s'_def l_def links_def fun_eq_iff)
  have e: "hp_prev l = ll_prev s'" "hp_next l = ll_next s'" "hp_pool l 0 = ll_head s'" by (simp_all add: l_def)
  have l': "seg l 0 (hp_pool l 0) (as @ cur # bs) 0" "\<forall>x. x \<notin> set (as @ cur # bs) \<longrightarrow> hp_prev l x = hp_prev (links s) x \<and> hp_next l x = hp_next (links s) x"
    using link_ok [of "links s" 0 as bs cur] D(1) dis assms(2) ul by auto
  have "seg (links s') 0 (ll_head s') (as @ cur # bs) 0" using seg_links [OF e(1,2) l'(1)] e(3) by simp
  moreover have "ll_tail s' = last0 (as @ cur # bs)" using D(7) by (cases "bs = []") (simp_all add: s'_def last0_def)
  ultimately have "ll_is s' (as @ cur # bs)" using dis cnt by (simp add: ll_is_def s'_def)
  then show ?thesis using g l'(2) e(1,2) by auto
qed


text \<open>Taking the last or the first node is taking a node of the list; an empty list stops the kernel.\<close>

lemma pop_back_last:
  assumes "ll_is s (as @ [p])"
  shows "pop_back s = get_node p s"
proof -
  note D = ll_isD [OF assms]
  have "ll_next s p = 0" using ll_isD(5) [of s "as @ [p]" "[]"] assms by simp
  moreover have "ll_tail s = p" "ll_prev s p = last0 as" "p \<noteq> 0" using D(3,6,7) by (simp_all add: last0_def)
  moreover have "as \<noteq> [] \<Longrightarrow> ll_next s (last0 as) = p \<and> ll_head s \<noteq> 0" using D(1,3,5) by (cases as) (auto simp: last0_def)
  moreover have "last0 as \<noteq> 0 \<longleftrightarrow> as \<noteq> []" using D(3) end0_nonzero [of as] by auto
  ultimately show ?thesis using D(4,8) by (cases "as = []") (simp_all add: pop_back_def get_node_def Let_def)
qed

lemma pop_front_head:
  assumes "ll_is s (p # bs)"
  shows "pop_front s = get_node p s"
proof -
  have a: "ll_is s ([] @ p # bs)" "ll_is s ([p] @ bs)" using assms by simp_all
  note D = ll_isD [OF a(1)] and E = ll_isD [OF a(2)]
  have "ll_head s = p" "ll_prev s p = 0" "p \<noteq> 0" "ll_next s p = hd0 bs" using D(3,4,6) E(5) by auto
  moreover have "bs \<noteq> [] \<Longrightarrow> ll_prev s (hd0 bs) = p" using E(6) by (simp add: hd0_def last0_def)
  moreover have "ll_tail s \<noteq> 0" "ll_tail s = (if bs = [] then p else last0 bs)" using D(3,7) end0_nonzero [of "p # bs"] by (auto simp: last0_def)
  moreover have "hd0 bs \<noteq> 0 \<longleftrightarrow> bs \<noteq> []" using D(3) end0_nonzero [of bs] by auto
  ultimately show ?thesis using D(8) by (cases "bs = []") (simp_all add: pop_front_def get_node_def Let_def)
qed

lemma ll_erase_ok:
  assumes "ll_is s (as @ p # bs)"
  shows "\<exists>s'. erase p s = Inr (hd0 bs, s') \<and> ll_is s' (as @ bs)"
proof -
  note D = ll_isD [OF assms]
  have nx: "ll_next s p = hd0 bs" using ll_isD(5) [of s "as @ [p]" bs] assms by simp
  have nz: "p \<noteq> 0" "ll_head s \<noteq> 0" "ll_tail s \<noteq> 0" "ll_count s \<noteq> 0"
    using D(1,3,7,8) end0_nonzero [of "as @ p # bs"] by (cases as; auto simp: last0_def)+
  obtain s' where s': "get_node p s = Inr s'" "ll_is s' (as @ bs)" using get_node_ok [OF assms] by blast
  have "ll_count s' = 0 \<longrightarrow> ll_head s' = 0 \<and> ll_tail s' = 0" using s'(2) by (auto simp: ll_is_def last0_def)
  then show ?thesis using s' nx nz by (simp add: erase_def)
qed

text \<open>The links of nodes of no other list are left alone, so that a list is kept while another one changes.\<close>

lemma ll_is_cong:
  assumes "ll_is s xs" "\<forall>x \<in> set xs. pv x = ll_prev s x \<and> nx x = ll_next s x"
  shows "ll_is (s\<lparr>ll_prev := pv, ll_next := nx\<rparr>) xs"
  using assms seg_cong [of xs "links (s\<lparr>ll_prev := pv, ll_next := nx\<rparr>)" "links s"] by (simp add: ll_is_def)

lemma splice_ok:
  assumes "ll_is other (as @ p # bs)" "ll_is s (cs @ ds)" "set (as @ p # bs) \<inter> set (cs @ ds) = {}"
    "ll_prev s = ll_prev other" "ll_next s = ll_next other"
  shows "\<exists>other' s'. splice (hd0 ds) p other s = Inr (other', s') \<and> ll_is other' (as @ bs) \<and> ll_is s' (cs @ p # ds) \<and>
    ll_prev s' = ll_prev other' \<and> ll_next s' = ll_next other'"
proof -
  note D = ll_isD [OF assms(1)]
  have nz: "p \<noteq> 0" "ll_head other \<noteq> 0" "ll_tail other \<noteq> 0" "ll_count other \<noteq> 0"
    using D(1,3,7,8) end0_nonzero [of "as @ p # bs"] by (cases as; auto simp: last0_def)+
  obtain o1 where o1: "get_node p other = Inr o1" "ll_is o1 (as @ bs)" "\<forall>x. x \<notin> set (as @ bs) \<longrightarrow> ll_prev o1 x = ll_prev other x \<and> ll_next o1 x = ll_next other x"
    using get_node_ok [OF assms(1)] by blast
  define s1 where "s1 = s\<lparr>ll_prev := ll_prev o1, ll_next := ll_next o1\<rparr>"
  have "ll_is s1 (cs @ ds)" unfolding s1_def by (rule ll_is_cong [OF assms(2)]) (use o1(3) assms(3-5) in auto)
  moreover have "p \<notin> set (cs @ ds)" using assms(3) by auto
  ultimately obtain s2 where s2: "put_node (hd0 ds) p s1 = Inr s2" "ll_is s2 (cs @ p # ds)"
      "\<forall>x. x \<notin> set (cs @ p # ds) \<longrightarrow> ll_prev s2 x = ll_prev s1 x \<and> ll_next s2 x = ll_next s1 x"
    using put_node_ok [of s1 cs ds p] nz(1) by blast
  have "ll_is (o1\<lparr>ll_prev := ll_prev s2, ll_next := ll_next s2\<rparr>) (as @ bs)"
    by (rule ll_is_cong [OF o1(2)]) (use s2(3) assms(3) D(2) in \<open>auto simp: s1_def\<close>)
  then show ?thesis using nz o1(1) s2 by (simp add: splice_def s1_def)
qed

text \<open>
  C40: a linked list is the list of its nodes: inserting before any position, at the front and at the back puts the node there; erasing
  and taking a node, at either end or inside, removes it and nothing else, with the following node as the result of erasing; taking a
  node of an empty list stops the kernel.
\<close>

theorem linked_list_is_list:
  assumes "ll_is s (as @ bs)" "cur \<noteq> 0" "cur \<notin> set (as @ bs)"
  shows "(\<exists>s'. insert_node (hd0 bs) cur s = Inr (cur, s') \<and> ll_is s' (as @ cur # bs)) \<and>
    (\<exists>s'. push_back cur s = Inr s' \<and> ll_is s' (as @ bs @ [cur])) \<and>
    (\<exists>s'. push_front cur s = Inr s' \<and> ll_is s' (cur # as @ bs)) \<and>
    (bs \<noteq> [] \<longrightarrow> (\<exists>s'. erase (hd bs) s = Inr (hd0 (tl bs), s') \<and> ll_is s' (as @ tl bs))) \<and>
    (if as @ bs = [] then pop_back s = bugcheck ''access empty list'' \<and> pop_front s = bugcheck ''access empty list''
     else (\<exists>s'. pop_back s = Inr s' \<and> ll_is s' (butlast (as @ bs))) \<and> (\<exists>s'. pop_front s = Inr s' \<and> ll_is s' (tl (as @ bs))))"
proof -
  have a: "ll_is s ((as @ bs) @ [])" "ll_is s ([] @ (as @ bs))" using assms(1) by simp_all
  have hd: "ll_head s = hd0 (as @ bs)" using ll_isD(4) [OF a(2)] by simp
  have cnt: "ll_count s = length (as @ bs)" using ll_isD(8) [OF a(2)] by simp
  have ins: "\<exists>s'. insert_node (hd0 bs) cur s = Inr (cur, s') \<and> ll_is s' (as @ cur # bs)"
    using put_node_ok [OF assms] by (auto simp: insert_node_def)
  have pb: "\<exists>s'. push_back cur s = Inr s' \<and> ll_is s' (as @ bs @ [cur])" using put_node_ok [OF a(1) assms(2)] assms(3) by (auto simp: push_back_def)
  have pf: "\<exists>s'. push_front cur s = Inr s' \<and> ll_is s' (cur # as @ bs)" using put_node_ok [OF a(2) assms(2)] assms(3) by (auto simp: push_front_def hd)
  have er: "bs \<noteq> [] \<longrightarrow> (\<exists>s'. erase (hd bs) s = Inr (hd0 (tl bs), s') \<and> ll_is s' (as @ tl bs))"
    using ll_erase_ok [of s as "hd bs" "tl bs"] assms(1) by auto
  have pob: "\<exists>s'. pop_back s = Inr s' \<and> ll_is s' (butlast (as @ bs))" if ne: "as @ bs \<noteq> []"
  proof -
    have "ll_is s (butlast (as @ bs) @ [last (as @ bs)])" using assms(1) append_butlast_last_id [OF ne] by simp
    from pop_back_last [OF this] get_node_ok [OF this] show ?thesis by auto
  qed
  have pof: "\<exists>s'. pop_front s = Inr s' \<and> ll_is s' (tl (as @ bs))" if ne: "as @ bs \<noteq> []"
  proof -
    have e: "as @ bs = hd (as @ bs) # tl (as @ bs)" using ne by simp
    have h: "ll_is s (hd (as @ bs) # tl (as @ bs))" using assms(1) e by simp
    have "ll_is s ([] @ hd (as @ bs) # tl (as @ bs))" using h by simp
    from pop_front_head [OF h] get_node_ok [OF this] show ?thesis by auto
  qed
  have "pop_back s = bugcheck ''access empty list'' \<and> pop_front s = bugcheck ''access empty list''" if "as @ bs = []"
    using cnt that by (simp add: pop_back_def pop_front_def)
  then show ?thesis using ins pb pf er pob pof by auto
qed

lemma ll_new_is: "ll_is ll_new []"
  by (simp add: ll_is_def ll_new_def last0_def)

theorem linked_list_is_list_witness:
  "\<exists>s. push_back 7 ll_new = Inr s \<and> ll_is s [7]"
  using linked_list_is_list [of ll_new "[]" "[]" 7] ll_new_is by simp

text \<open>Clearing a list.\<close>

lemma ll_clear_ok:
  assumes "ll_is s xs" "length xs < n"
  shows "\<exists>s'. ll_clear n s = Inr s' \<and> ll_is s' []"
  using assms
proof (induction n arbitrary: s xs)
  case (Suc n)
  show ?case
  proof (cases "xs = []")
    case True
    then show ?thesis using Suc.prems(1) by (auto simp: ll_is_def)
  next
    case False
    then have "ll_is s (butlast xs @ [last xs])" using Suc.prems(1) by simp
    from get_node_ok [OF this] pop_back_last [OF this] obtain s1 where "pop_back s = Inr s1" "ll_is s1 (butlast xs)" by auto
    moreover have "ll_count s \<noteq> 0" using Suc.prems(1) False by (simp add: ll_is_def)
    ultimately show ?thesis using Suc.IH [of s1 "butlast xs"] Suc.prems(2) False by (cases xs) auto
  qed
qed simp

text \<open>Stepping on visits the nodes in order and ends behind the last; stepping back from the first node lands on the last one.\<close>

lemma it_steps:
  assumes "ll_is s (as @ p # bs)"
  shows "it_inc p s = Inr (hd0 bs)" "it_dec p s = Inr (if as \<noteq> [] then last as else ll_tail s)" "it_dec 0 s = Inr (last (p # bs))"
proof -
  note D = ll_isD [OF assms]
  have p: "p \<noteq> 0" "ll_prev s p = last0 as" "ll_count s \<noteq> 0" using D(3,6,8) by simp_all
  show "it_inc p s = Inr (hd0 bs)" using ll_isD(5) [of s "as @ [p]" bs] assms p(1) by (simp add: it_inc_def)
  show "it_dec p s = Inr (if as \<noteq> [] then last as else ll_tail s)" using p D(3) end0_nonzero [of as] by (auto simp: it_dec_def last0_def)
  show "it_dec 0 s = Inr (last (p # bs))" using D(7) p(3) by (simp add: it_dec_def last0_def)
qed

end
