(* ===== verification/Spec2Isabelle.thy ===== *)
theory Spec2Isabelle
  imports Kernel_Prelude Phys_Mem VSpace_Commit Timer Pipe Spin_Lock Process Display Exfat_Boot Exfat_Dir Rtc File_Write Path_Walk Service_Props Crt_Stream Ps2 Console Containers
begin

text \<open>
  A verification development of COFUOS, a 64-bit operating system: its kernel (\<^verbatim>\<open>src/kernel\<close>), the templates it shares with programs
  (\<^verbatim>\<open>src/util\<close>), the runtime of programs (\<^verbatim>\<open>src/app/libuos\<close>) and the buffers of the console (\<^verbatim>\<open>src/app/shell\<close>).

  \<^bold>\<open>The program and its parts.\<close> Physical memory is a bitmap of frames (\<^verbatim>\<open>memory/pm.cpp\<close>). Address spaces map frames through
  three levels of tables, in which the unused entries form a free list (\<^verbatim>\<open>memory/vm.cpp\<close>, \<^verbatim>\<open>user_vspace.cpp\<close>, \<^verbatim>\<open>kernel_vspace.cpp\<close>); the heap
  cuts pages into blocks (\<^verbatim>\<open>util/include/buddy_heap.hpp\<close>). Threads are linked into queues, of the scheduler or of the object they wait for, and
  a core runs the most urgent one (\<^verbatim>\<open>process\<close>, \<^verbatim>\<open>sync\<close>, \<^verbatim>\<open>dev/timer.cpp\<close>). A process owns threads, an address space and a handle table; a system call turns
  handles into objects and calls their operations (\<^verbatim>\<open>interface\<close>). The file system reads and writes an exFAT volume through a cache of sectors,
  with requests of open files queued for a pool of threads (\<^verbatim>\<open>filesystem\<close>, \<^verbatim>\<open>dev/disk_interface.cpp\<close>). A program sees all this through the runtime.

  \<^bold>\<open>How code becomes definitions.\<close> A class is a record and a method a function from the state to the state and the result. Code that can stop in
  an assertion or a bugcheck has the result type \<open>res\<close>, whose left side is the reason; the build keeps assertions. Words keep their width
  where the code computes with them; counters and indices that the invariants keep small are natural numbers. Loops over memory are structural
  where they count and have a bound of turns otherwise. A bound that is reached is the failure \<open>OutOfFuel\<close>, which is no behaviour of the code: the theorems
  about those loops show that they return. Locks that only serialise an operation are left out where the operation is one step of the model; where
  locking is the subject (\<open>Spin_Lock\<close>, \<open>Sync_Objects\<close>, \<open>Service\<close>) they are part of the state.

  \<^bold>\<open>Theories.\<close>
  \<^item> \<open>Kernel_Prelude\<close>: results, the alignment and search templates of \<^verbatim>\<open>util.hpp\<close>, sequences of operations, and the locale \<open>component\<close>: operations that
    keep an invariant and do not stop keep it over every legal sequence. It is interpreted for the scheduler, processes, reader-writer locks, reference counts,
    file requests, system calls and the heap.
  \<^item> \<open>Phys_Mem\<close> (\<^verbatim>\<open>pm.cpp\<close>): allocation, release, the bitmap built from the memory map, and the locale \<open>frame_allocator\<close> that says what address spaces rely on.
  \<^item> \<open>Page_Block\<close>, \<open>Page_Block_Inv\<close>, \<open>Page_Reserve\<close>, \<open>Page_Release\<close>, \<open>Page_Table\<close> (\<^verbatim>\<open>vm.cpp\<close>): the free list inside a page table. Its abstraction is the
    list of free runs; reserving takes a run that is free, releasing gives it back and merges, and \<open>page_pool\<close> is the contract of one table.
  \<^item> \<open>VSpace\<close>, \<open>VSpace_Props\<close>, \<open>VSpace_Commit\<close> (\<^verbatim>\<open>vm.cpp\<close>, \<^verbatim>\<open>user_vspace.cpp\<close>, \<^verbatim>\<open>kernel_vspace.cpp\<close>): ranges over several tables, commit, protect, release
    and the views of the kernel. Walks have one turn for each page of the range.
  \<^item> \<open>Buddy_Heap\<close> (\<^verbatim>\<open>buddy_heap.hpp\<close>): doubly linked lists in a store. Blocks in use never overlap and no memory is lost; a list has at most as many
    blocks as the capacity has room for, which bounds the search.
  \<^item> \<open>Containers\<close> (\<^verbatim>\<open>vector.hpp\<close>, \<^verbatim>\<open>string.hpp\<close>, \<^verbatim>\<open>linked_list.hpp\<close>): vectors and strings, and doubly linked lists with the lemmas on links of the heap.
    The components that use the templates have lists and maps in their place.
  \<^item> \<open>Thread_Queue\<close>, \<open>Sched\<close>, \<open>Sched_Inv\<close>, \<open>Sched_Ops\<close>, \<open>Sched_Props\<close> (\<^verbatim>\<open>process/thread.cpp\<close>, \<^verbatim>\<open>core_state.cpp\<close>, \<^verbatim>\<open>waitable.cpp\<close>): the queues (locale \<open>fifo\<close>), the
    state machine of threads, and the invariant that every thread is in exactly one place that fits its state.
  \<^item> \<open>Spin_Lock\<close> (\<^verbatim>\<open>sync/spin_lock.cpp\<close>): an interleaving of single memory accesses of any number of cores.
  \<^item> \<open>Sync_Objects\<close>, \<open>Timer\<close>, \<open>Pipe\<close> (\<^verbatim>\<open>sync\<close>, \<^verbatim>\<open>dev/timer.cpp\<close>): reference counts, events, semaphores, reader-writer locks, the delta queue of
    the timer and the ring buffer of a pipe.
  \<^item> \<open>Handle_Table\<close>, \<open>Process\<close> (\<^verbatim>\<open>process/process.cpp\<close>, \<^verbatim>\<open>interface/object.cpp\<close>): handles, the life of a process, named objects.
  \<^item> \<open>Service_Check\<close>, \<open>Service\<close>, \<open>Service_Props\<close> (\<^verbatim>\<open>interface/service.cpp\<close>, \<^verbatim>\<open>bridge.cpp\<close>): the check of user memory, the provider with its locks, the
    dispatcher and 29 handlers. Calls that are not modelled are a parameter of the dispatcher.
  \<^item> \<open>Disk_Cache\<close>, \<open>Exfat\<close>, \<open>Exfat_Boot\<close>, \<open>Exfat_Dir\<close> (\<^verbatim>\<open>dev/disk_interface.cpp\<close>, \<^verbatim>\<open>filesystem/exfat.cpp\<close>, \<^verbatim>\<open>instance.cpp\<close>): the cache of sectors, which the
    theorems show to be transparent, the allocation table and bitmap, cluster chains, mounting, directory records.
  \<^item> \<open>File_Queue\<close>, \<open>User_Copy\<close>, \<open>File_Work\<close>, \<open>File_Props\<close>, \<open>File_Write\<close>, \<open>Path_Walk\<close> (\<^verbatim>\<open>file.cpp\<close>, \<^verbatim>\<open>worker.cpp\<close>, \<^verbatim>\<open>instance.cpp\<close>): requests of open files and their
    queue, what a worker does with one, copies to and from a process, and the tree of open folders with the walk along a path (locale \<open>name_lookup\<close>).
  \<^item> \<open>Display\<close>, \<open>Rtc\<close>, \<open>Ps2\<close> (\<^verbatim>\<open>dev\<close>): the frame buffer, the clock, the keyboard and the mouse. The thread of a keyboard or mouse has one turn
    for each outcome of a wait, and every turn uses at least one.
  \<^item> \<open>Crt_Text\<close>, \<open>Crt_Stream\<close> (\<^verbatim>\<open>app/libuos/uoscrt.cpp\<close>): characters, strings, numbers, formatted output, the command line, streams, \<^verbatim>\<open>malloc\<close> and \<^verbatim>\<open>free\<close>.
  \<^item> \<open>Console\<close> (\<^verbatim>\<open>app/shell/cui.cpp\<close>): the text of a console with its edited line, and the ring of lines of its image, which the theorems follow to the
    pixels of the display.

  \<^bold>\<open>What the theorems show.\<close> Of each component with a state: an invariant and that every operation keeps it without stopping; what
  the operations return, on the failing branches too; and, where the code implements a simpler thing, that it does: free lists and bitmaps are sets of free pages,
  rings and linked queues are lists, the cache and the chain cache are transparent, a buffer check accepts exactly the memory of the process. Round trips relate writing and
  reading of files, a path and the file found, a printed number and the number read back. Where the code does not do what it means to, a lemma or theorem says
  what it does instead, mostly on a concrete input: for example a buffer that wraps around the address space passes the check of a system call, an idle
  mouse stops the kernel, and a read at the end of a file in the runtime does not return.

  \<^bold>\<open>Code outside the model.\<close> Sectors of the disk, the answers of the kernel to the runtime, the memory map of the boot loader, the table of key codes and the calls that are not
  modelled are parameters.

  \<^bold>\<open>Not modelled.\<close> The boot loader and the entry of interrupts (assembly); the set-up of the processor, the interrupt controller, ACPI, PCI and the ports of the disk and keyboard
  controllers (hardware registers); the debugger; the loader of program images; the hash table and the small templates of \<^verbatim>\<open>util\<close>, whose
  users have sets and maps in their place; the stubs of the system calls, the layout of the console, the shell and the small programs; the tools of the build. Register contexts, floating point
  state and the accounting of processor time are left out of the model of threads. More than one core is modelled for the spin lock only; the kernel starts one.
\<close>

end
